(* ===== verification/Prelude.thy ===== *)
theory Prelude
  imports Main "HOL-Library.Word" "HOL-Library.Monad_Syntax"
begin

text \<open>
  Shared vocabulary of the development: the machine types of the C sources, the
  splitting of a 16-bit register into its two bytes, \<open>memcpy\<close> into a buffer, and the
  generic list facts the components use.

  A C function whose behaviour is undefined on some input (a float-to-integer conversion
  out of range, an access past an array) is modelled as an option: \<open>None\<close> stands for
  undefined behaviour, never for an error code the source returns.
\<close>

unbundle bit_operations_syntax

type_synonym u8 = "8 word"
type_synonym u16 = "16 word"
type_synonym u32 = "32 word"

named_theorems word_split "the two bytes of a 16-bit register"
named_theorems buf_simps "writes into byte and register buffers"

section \<open>Registers and bytes\<close>

text \<open>\<open>(UCHAR)(w & 0xFF)\<close>, \<open>(UCHAR)(w >> 8)\<close> and \<open>hi << 8 | lo\<close>.\<close>

definition lo8 :: "u16 \<Rightarrow> u8" where
  "lo8 w = ucast w"

definition hi8 :: "u16 \<Rightarrow> u8" where
  "hi8 w = ucast (drop_bit 8 w)"

definition mk16 :: "u8 \<Rightarrow> u8 \<Rightarrow> u16" where
  "mk16 h l = push_bit 8 (ucast h) OR ucast l"

lemma lo8_mk16 [simp, word_split]: "lo8 (mk16 h l) = l"
  unfolding lo8_def mk16_def by (rule bit_word_eqI) (auto simp: bit_simps)

lemma hi8_mk16 [simp, word_split]: "hi8 (mk16 h l) = h"
  unfolding hi8_def mk16_def
  by (rule bit_word_eqI) (auto simp: bit_simps dest: bit_imp_le_length)

lemma mk16_hi8_lo8 [simp, word_split]: "mk16 (hi8 w) (lo8 w) = w"
  unfolding hi8_def lo8_def mk16_def by (rule bit_word_eqI) (auto simp: bit_simps)

lemma mk16_inject [simp]: "mk16 h l = mk16 h' l' \<longleftrightarrow> h = h' \<and> l = l'"
  by (metis hi8_mk16 lo8_mk16)

lemma unat_u8_less: "unat (b :: u8) < 256"
  using unsigned_less [of b] by simp

lemma mk16_plus: "mk16 h l = push_bit 8 (ucast h) + ucast l"
  unfolding mk16_def
  by (rule disjunctive_add_eq_or [symmetric], rule bit_word_eqI)
    (auto simp: bit_simps dest: bit_imp_le_length)

lemma unat_mk16: "unat (mk16 h l) = 256 * unat h + unat l"
  using unat_u8_less [of h] unat_u8_less [of l]
  by (simp add: mk16_plus push_bit_eq_mult unat_word_ariths unsigned_ucast_eq take_bit_eq_mod)

section \<open>Buffers\<close>

text \<open>\<open>memcpy(&dst[off], src, n)\<close> with \<open>n = length src\<close>.\<close>

definition blit :: "'a list \<Rightarrow> nat \<Rightarrow> 'a list \<Rightarrow> 'a list" where
  "blit dst off src = take off dst @ src @ drop (off + length src) dst"

lemma length_blit [simp, buf_simps]:
  "off + length src \<le> length dst \<Longrightarrow> length (blit dst off src) = length dst"
  by (simp add: blit_def)

lemma nth_blit [buf_simps]:
  "off + length src \<le> length dst \<Longrightarrow> i < length dst \<Longrightarrow>
   blit dst off src ! i = (if off \<le> i \<and> i < off + length src then src ! (i - off) else dst ! i)"
  by (auto simp: blit_def nth_append min_def)

lemma take_drop_blit [simp, buf_simps]:
  "off + length src \<le> length dst \<Longrightarrow> take (length src) (drop off (blit dst off src)) = src"
  by (simp add: blit_def)

lemma blit_Nil [simp]: "blit dst off [] = dst"
  by (simp add: blit_def)

lemma set_take_drop_subset: "set (take n (drop m xs)) \<subseteq> set xs"
  by (meson set_drop_subset set_take_subset subset_trans)

lemma length_2_conv: "length xs = 2 \<longleftrightarrow> (\<exists>a b. xs = [a, b])"
  by (auto simp: numeral_2_eq_2 length_Suc_conv)

end
