(* ===== verification/CFloat.thy ===== *)
theory CFloat
  imports Prelude Complex_Main "HOL-Library.Log_Nat"
begin

text \<open>
  The C types \<open>float\<close> and \<open>double\<close> as the firmware uses them: IEEE 754 binary32 and
  binary64, round to nearest with ties to even, as the Cortex-M4 FPU and the soft-float
  library compute them, every operation rounded to its own type (no contraction of
  \<open>a*b+c\<close>).  A value is \<open>FNaN\<close>, \<open>FInf s\<close> or \<open>FNum s x\<close> with sign bit \<open>s\<close> and
  magnitude \<open>x\<close>, so that both zeros exist.  A stored \<open>float\<close> is its bit pattern
  (\<open>f32 = 32 word\<close>), read by \<open>dec32\<close> and written by \<open>enc32\<close>: the program shares
  floats with a register file and copies them to an EEPROM byte by byte.  The payload of
  a NaN the arithmetic produces is not modelled: it is always the default NaN.

  The lemmas show that rounding is monotone, idempotent and exact on representable
  values, that decoding inverts encoding, and that the comparisons are a total preorder
  on the values that are not NaN.  Everything computes, so witnesses use \<open>code_simp\<close>.
\<close>

section \<open>Values and formats\<close>

datatype fp = FNaN | FInf bool | FNum bool rat

record fmt =
  prec :: nat
  emin :: int
  emax :: int

definition fmt32 :: fmt where
  "fmt32 = \<lparr>prec = 24, emin = -149, emax = 128\<rparr>"
definition fmt64 :: fmt where
  "fmt64 = \<lparr>prec = 53, emin = -1074, emax = 1024\<rparr>"

text \<open>\<open>ilog2 x\<close> is the exponent of the leading bit of \<open>x > 0\<close>; \<open>rne\<close> rounds to the
  nearest integer, ties to even; \<open>rnd_mag\<close> rounds a magnitude to a format's precision,
  gradually below its smallest exponent.\<close>

definition ilog2 :: "rat \<Rightarrow> int" where
  "ilog2 x = (let nd = quotient_of x; k = bitlen (fst nd) - bitlen (snd nd)
              in if 2 powi k \<le> x then k else k - 1)"

definition rne :: "rat \<Rightarrow> int" where
  "rne x = (let f = \<lfloor>x\<rfloor>; r = x - of_int f
            in if r < 1/2 then f else if 1/2 < r then f + 1 else if even f then f else f + 1)"

definition rnd_mag :: "fmt \<Rightarrow> rat \<Rightarrow> rat" where
  "rnd_mag F x = (if x = 0 then 0
     else let q = max (ilog2 x - int (prec F - 1)) (emin F)
          in of_int (rne (x / 2 powi q)) * 2 powi q)"

section \<open>Powers of two and the leading exponent\<close>

lemma powi_mono: "i \<le> j \<Longrightarrow> (2::rat) powi i \<le> 2 powi j"
  by (simp add: power_int_increasing)

lemma powi_mono_iff: "(2::rat) powi i \<le> 2 powi j \<longleftrightarrow> i \<le> j"
  by (metis linorder_not_le power_int_strict_increasing powi_mono one_less_numeral_iff semiring_norm(76))

lemma powi_less_iff: "(2::rat) powi i < 2 powi j \<longleftrightarrow> i < j"
  by (simp add: powi_mono_iff flip: not_le)

lemma powi_int: "0 \<le> k \<Longrightarrow> (2::rat) powi k = of_int (2 ^ nat k)"
  by (simp add: power_int_def)

lemma ilog2_unique:
  fixes x :: rat
  assumes "2 powi k \<le> x" "x < 2 powi (k + 1)" "2 powi j \<le> x" "x < 2 powi (j + 1)"
  shows "k = j" 
proof -
  have "(2::rat) powi k < 2 powi (j+1)" "(2::rat) powi j < 2 powi (k+1)" using assms by linarith+
  then show ?thesis by (simp add: powi_less_iff)
qed

lemma bitlen_powi:
  assumes "0 < n"
  shows "(2::rat) powi (bitlen n - 1) \<le> of_int n" "of_int n < (2::rat) powi bitlen n"
proof -
  have b: "0 < bitlen n" using assms bitlen_nonneg bitlen_eq_zero_iff by (metis less_le not_le)
  have "2 ^ nat (bitlen n - 1) \<le> n \<and> n < 2 ^ nat (bitlen n)" using bitlen_bounds[OF assms] .
  then have "(of_int (2 ^ nat (bitlen n - 1))::rat) \<le> of_int n" "(of_int n::rat) < of_int (2 ^ nat (bitlen n))"
    using of_int_le_iff of_int_less_iff by blast+
  then show "(2::rat) powi (bitlen n - 1) \<le> of_int n" "of_int n < (2::rat) powi bitlen n"
    using b by (simp_all add: powi_int)
qed

lemma ilog2_bounds:
  assumes "0 < x"
  shows "2 powi ilog2 x \<le> x" "x < 2 powi (ilog2 x + 1)"
proof -
  obtain n d where q: "quotient_of x = (n, d)" by force
  have d: "0 < d" by (rule quotient_of_denom_pos[OF q])
  have x: "x = of_int n / of_int d" by (rule quotient_of_div[OF q])
  have n: "0 < n" using assms d x by (simp add: zero_less_divide_iff)
  define a b where "a = bitlen n" and "b = bitlen d"
  have N: "(2::rat) powi (a - 1) \<le> of_int n" "of_int n < (2::rat) powi a"
    unfolding a_def by (rule bitlen_powi[OF n])+
  have D: "(2::rat) powi (b - 1) \<le> of_int d" "of_int d < (2::rat) powi b"
    unfolding b_def by (rule bitlen_powi[OF d])+
  have dp: "(0::rat) < of_int d" using d by simp
  have lo: "2 powi (a - b - 1) \<le> x"
  proof -
    have "(2::rat) powi (a - b - 1) * of_int d \<le> 2 powi (a - b - 1) * 2 powi b"
      using D by (intro mult_left_mono) auto
    also have "\<dots> = 2 powi (a - 1)" by (simp flip: power_int_add)
    finally show ?thesis using N dp unfolding x by (simp add: pos_le_divide_eq)
  qed
  have hi: "x < 2 powi (a - b + 1)"
  proof -
    have "(2::rat) powi a = 2 powi (a - b + 1) * 2 powi (b - 1)" by (simp flip: power_int_add)
    also have "\<dots> \<le> 2 powi (a - b + 1) * of_int d" using D by (intro mult_left_mono) auto
    finally show ?thesis using N dp unfolding x by (simp add: pos_divide_less_eq)
  qed
  show "2 powi ilog2 x \<le> x" "x < 2 powi (ilog2 x + 1)"
    using lo hi by (auto simp: ilog2_def q Let_def a_def b_def not_le)
qed

lemma ilog2_eqI: "2 powi k \<le> x \<Longrightarrow> x < 2 powi (k + 1) \<Longrightarrow> ilog2 x = k"
proof -
  assume a: "2 powi k \<le> x" "x < 2 powi (k + 1)"
  have "0 < x" using a(1) by (meson less_le_trans zero_less_numeral zero_less_power_int)
  then show ?thesis using ilog2_unique[OF ilog2_bounds a] by blast
qed

lemma ilog2_mono: "0 < x \<Longrightarrow> x \<le> y \<Longrightarrow> ilog2 x \<le> ilog2 y"
proof -
  assume a: "0 < x" "x \<le> y"
  then have "(2::rat) powi ilog2 x < 2 powi (ilog2 y + 1)"
    using ilog2_bounds[of x] ilog2_bounds[of y] by linarith
  then show ?thesis by (simp add: powi_less_iff)
qed

section \<open>Rounding\<close>

lemma rne_of_int [simp]: "rne (of_int i) = i"
  by (simp add: rne_def)

lemma rne_err: "\<bar>of_int (rne x) - x\<bar> \<le> 1/2"
proof -
  have "of_int \<lfloor>x\<rfloor> \<le> x" "x < of_int \<lfloor>x\<rfloor> + 1" by linarith+
  then show ?thesis by (simp add: rne_def Let_def abs_le_iff)
qed

lemma rne_mono: assumes "x \<le> y" shows "rne x \<le> rne y"
proof -
  have "\<lfloor>x\<rfloor> \<le> \<lfloor>y\<rfloor>" using assms by (rule floor_mono)
  then consider "\<lfloor>x\<rfloor> = \<lfloor>y\<rfloor>" | "\<lfloor>x\<rfloor> + 1 \<le> \<lfloor>y\<rfloor>" by linarith
  then show ?thesis
  proof cases
    case 1
    then show ?thesis using assms unfolding rne_def Let_def by auto
  next
    case 2
    have "rne x \<le> \<lfloor>x\<rfloor> + 1" "\<lfloor>y\<rfloor> \<le> rne y" by (auto simp: rne_def Let_def)
    with 2 show ?thesis by linarith
  qed
qed

lemma rne_ge: "of_int i \<le> x \<Longrightarrow> i \<le> rne x" using rne_mono[of "of_int i" x] by simp
lemma rne_le: "x \<le> of_int i \<Longrightarrow> rne x \<le> i" using rne_mono[of x "of_int i"] by simp


lemma rnd_mag_0 [simp]: "rnd_mag F 0 = 0"
  by (simp add: rnd_mag_def)

definition quantum :: "fmt \<Rightarrow> rat \<Rightarrow> int" where
  "quantum F x = max (ilog2 x - int (prec F - 1)) (emin F)"

lemma rnd_mag_quantum: "0 < x \<Longrightarrow> rnd_mag F x = of_int (rne (x / 2 powi quantum F x)) * 2 powi quantum F x"
  by (simp add: rnd_mag_def quantum_def Let_def)

lemma rne_nonneg: "0 \<le> x \<Longrightarrow> 0 \<le> rne x" using rne_ge[of 0 x] by simp

lemma rnd_mag_nonneg: "0 \<le> x \<Longrightarrow> 0 \<le> rnd_mag F x"
  by (cases "x = 0") (simp_all add: rnd_mag_quantum rne_nonneg)


text \<open>A power of two in the range of the format bounds the rounded value whenever it bounds the value.\<close>

lemma quantum_le: "0 < prec F \<Longrightarrow> emin F \<le> j \<Longrightarrow> ilog2 x \<le> j \<Longrightarrow> quantum F x \<le> j"
  by (simp add: quantum_def)

lemma rnd_mag_ge_powi:
  assumes "0 < prec F" "emin F \<le> k" "2 powi k \<le> x" shows "2 powi k \<le> rnd_mag F x"
proof -
  have x: "0 < x" using assms(3) by (meson less_le_trans zero_less_numeral zero_less_power_int)
  define l q where "l = ilog2 x" and "q = quantum F x"
  have "2 powi k < (2::rat) powi (l + 1)" using ilog2_bounds(2)[OF x] assms(3) unfolding l_def by linarith
  then have kl: "k \<le> l" by (simp add: powi_less_iff)
  then have ql: "q \<le> l" unfolding q_def using assms l_def by (intro quantum_le) auto
  have "2 powi (l - q) * 2 powi q \<le> x" using ilog2_bounds(1)[OF x] by (simp add: l_def flip: power_int_add)
  then have "of_int (2 ^ nat (l - q)) \<le> x / 2 powi q"
    using ql by (simp add: pos_le_divide_eq powi_int)
  then have "2 ^ nat (l - q) \<le> rne (x / 2 powi q)" by (rule rne_ge)
  then have "(of_int (2 ^ nat (l - q))::rat) * 2 powi q \<le> of_int (rne (x / 2 powi q)) * 2 powi q"
    by (intro mult_right_mono) (simp_all only: of_int_le_iff zero_le_power_int zero_le_numeral)
  then have "2 powi (l - q) * 2 powi q \<le> rnd_mag F x"
    using ql by (simp only: rnd_mag_quantum[OF x] q_def[symmetric] powi_int diff_ge_0_iff_ge)
  then have "2 powi l \<le> rnd_mag F x" by (simp flip: power_int_add)
  then show ?thesis using powi_mono[OF kl] by linarith
qed

lemma rnd_mag_le_powi:
  assumes "0 < prec F" "emin F \<le> j" "0 \<le> x" "x \<le> 2 powi j" shows "rnd_mag F x \<le> 2 powi j"
proof (cases "x = 0")
  case False
  with assms have x: "0 < x" by simp
  define q where "q = quantum F x"
  have "2 powi ilog2 x \<le> (2::rat) powi j" using ilog2_bounds(1)[OF x] assms by linarith
  then have q: "q \<le> j" unfolding q_def using assms by (intro quantum_le) (simp_all add: powi_mono_iff)
  have "x \<le> 2 powi (j - q) * 2 powi q" using assms(4) by (simp flip: power_int_add)
  then have "x / 2 powi q \<le> of_int (2 ^ nat (j - q))"
    using q by (simp add: pos_divide_le_eq powi_int)
  then have "rne (x / 2 powi q) \<le> 2 ^ nat (j - q)" by (rule rne_le)
  then have "of_int (rne (x / 2 powi q)) * 2 powi q \<le> (of_int (2 ^ nat (j - q))::rat) * 2 powi q"
    by (intro mult_right_mono) (simp_all only: of_int_le_iff zero_le_power_int zero_le_numeral)
  then have "rnd_mag F x \<le> 2 powi (j - q) * 2 powi q"
    using q by (simp only: rnd_mag_quantum[OF x] q_def[symmetric] powi_int diff_ge_0_iff_ge)
  then show ?thesis by (simp flip: power_int_add)
qed simp

lemma rnd_mag_mono:
  assumes F: "0 < prec F" and "0 \<le> x" "x \<le> y" shows "rnd_mag F x \<le> rnd_mag F y"
proof (cases "x = 0")
  case False
  with assms have x: "0 < x" and y: "0 < y" by simp_all
  have l: "ilog2 x \<le> ilog2 y" using x assms(3) by (rule ilog2_mono)
  show ?thesis
  proof (cases "quantum F x = quantum F y")
    case True
    have "x / 2 powi quantum F y \<le> y / 2 powi quantum F y" using assms(3) by (intro divide_right_mono) simp_all
    then have "rne (x / 2 powi quantum F y) \<le> rne (y / 2 powi quantum F y)" by (rule rne_mono)
    then show ?thesis unfolding rnd_mag_quantum[OF x] rnd_mag_quantum[OF y] True
      by (intro mult_right_mono) simp_all
  next
    case False
    then have lt: "ilog2 x < ilog2 y" "emin F \<le> ilog2 y" using l F by (auto simp: quantum_def max_def split: if_splits)
    have "x \<le> 2 powi ilog2 y" using ilog2_bounds(2)[OF x] powi_mono[of "ilog2 x + 1" "ilog2 y"] lt by linarith
    then have "rnd_mag F x \<le> 2 powi ilog2 y" using assms lt by (intro rnd_mag_le_powi) auto
    also have "\<dots> \<le> rnd_mag F y" using F lt ilog2_bounds(1)[OF y] by (intro rnd_mag_ge_powi) auto
    finally show ?thesis .
  qed
qed (use assms rnd_mag_nonneg in simp)

lemma rnd_mag_exact_aux:
  assumes "0 < prec F" "0 < m" "m < 2 ^ prec F" "emin F \<le> q"
  shows "rnd_mag F (of_int m * 2 powi q) = of_int m * 2 powi q" (is "rnd_mag F ?x = _")
proof -
  have x: "0 < ?x" using assms by simp
  have "?x < 2 powi int (prec F) * 2 powi q"
  proof (intro mult_strict_right_mono)
    show "of_int m < (2::rat) powi int (prec F)" 
    proof -
      have "(of_int m::rat) < of_int (2 ^ prec F)" using assms(3) of_int_less_iff by blast
      then show ?thesis by simp
    qed
  qed simp
  then have "?x < 2 powi (int (prec F) + q)" by (simp add: power_int_add)
  then have "2 powi ilog2 ?x < (2::rat) powi (int (prec F) + q)" using ilog2_bounds(1)[OF x] by linarith
  then have "ilog2 ?x < int (prec F) + q" by (simp add: powi_less_iff)
  then have qq: "quantum F ?x \<le> q" using assms by (auto simp: quantum_def)
  have e: "?x / 2 powi quantum F ?x = of_int (m * 2 ^ nat (q - quantum F ?x))"
  proof -
    have "(2::rat) powi q = 2 powi (q - quantum F ?x) * 2 powi quantum F ?x" by (simp flip: power_int_add)
    then show ?thesis using qq by (simp add: powi_int field_simps)
  qed
  have "rnd_mag F ?x = of_int (m * 2 ^ nat (q - quantum F ?x)) * 2 powi quantum F ?x"
    unfolding rnd_mag_quantum[OF x] e by (simp only: rne_of_int)
  then show ?thesis unfolding e[symmetric] by simp
qed


lemma rnd_mag_idem:
  assumes F: "0 < prec F" and "0 \<le> x" shows "rnd_mag F (rnd_mag F x) = rnd_mag F x"
proof (cases "x = 0")
  case False
  with assms have x: "0 < x" by simp
  define q m where "q = quantum F x" and "m = rne (x / 2 powi q)"
  have y: "rnd_mag F x = of_int m * 2 powi q" using rnd_mag_quantum[OF x] by (simp add: q_def m_def)
  have m0: "0 \<le> m" unfolding m_def using x by (intro rne_nonneg) simp
  have qe: "emin F \<le> q" by (simp add: q_def quantum_def)
  have "ilog2 x + 1 \<le> int (prec F) + q" using F by (simp add: q_def quantum_def)
  then have "2 powi (ilog2 x + 1) \<le> (2::rat) powi (int (prec F) + q)" by (rule powi_mono)
  then have "x \<le> 2 ^ prec F * 2 powi q" using ilog2_bounds(2)[OF x] by (simp add: power_int_add)
  then have "x / 2 powi q \<le> of_int (2 ^ prec F)" by (simp add: pos_divide_le_eq)
  then have m1: "m \<le> 2 ^ prec F" unfolding m_def by (rule rne_le)
  consider "m = 0" | "0 < m" "m < 2 ^ prec F" | "m = 2 ^ prec F" using m0 m1 by linarith
  then show ?thesis
  proof cases
    case 2
    then show ?thesis unfolding y using F qe by (intro rnd_mag_exact_aux)
  next
    case 3
    have "1 < (2::int) ^ prec F" using F by simp
    moreover have "of_int m * 2 powi q = of_int 1 * (2::rat) powi (q + int (prec F))"
      using 3 by (simp add: power_int_add mult.commute)
    ultimately show ?thesis unfolding y
      using rnd_mag_exact_aux[OF F, of 1 "q + int (prec F)"] qe by simp
  qed (simp add: y)
qed simp

section \<open>Rounded results and their representability\<close>

definition fround :: "fmt \<Rightarrow> bool \<Rightarrow> rat \<Rightarrow> fp" where
  "fround F s x = (let y = rnd_mag F x in if 2 powi emax F \<le> y then FInf s else FNum s y)"

fun wf_fp :: "fmt \<Rightarrow> fp \<Rightarrow> bool" where
  "wf_fp F (FNum s x) = (0 \<le> x \<and> rnd_mag F x = x \<and> x < 2 powi emax F)"
| "wf_fp F _ = True"

lemma wf_fround [simp]: "0 < prec F \<Longrightarrow> 0 \<le> x \<Longrightarrow> wf_fp F (fround F s x)"
  by (simp add: fround_def Let_def rnd_mag_idem rnd_mag_nonneg)

section \<open>The binary32 bit pattern\<close>

type_synonym f32 = "32 word"

definition dec32 :: "f32 \<Rightarrow> fp" where
  "dec32 w = (let n = uint w; s = (2 ^ 31 \<le> n); E = n div 2 ^ 23 mod 256; M = n mod 2 ^ 23
     in if E = 255 then (if M = 0 then FInf s else FNaN)
        else if E = 0 then FNum s (of_int M * 2 powi - 149)
        else FNum s (of_int (M + 2 ^ 23) * 2 powi (E - 150)))"

definition pack32 :: "bool \<Rightarrow> int \<Rightarrow> int \<Rightarrow> f32" where
  "pack32 s E M = word_of_int ((if s then 2 ^ 31 else 0) + E * 2 ^ 23 + M)"

fun enc32 :: "fp \<Rightarrow> f32" where
  "enc32 FNaN = 0x7FC00000"
| "enc32 (FInf s) = pack32 s 255 0"
| "enc32 (FNum s x) =
    (if x = 0 then pack32 s 0 0
     else let q = max (ilog2 x - 23) (- 149); m = \<lfloor>x / 2 powi q\<rfloor>
          in if m < 2 ^ 23 then pack32 s 0 m else pack32 s (q + 150) (m - 2 ^ 23))"

lemma fmt32_simps [simp]: "prec fmt32 = 24" "emin fmt32 = - 149" "emax fmt32 = 128"
  by (simp_all add: fmt32_def)

lemma dec32_pack32:
  assumes "0 \<le> E" "E < 256" "0 \<le> M" "M < 2 ^ 23"
  shows "dec32 (pack32 s E M) = (if E = 255 then (if M = 0 then FInf s else FNaN)
        else if E = 0 then FNum s (of_int M * 2 powi - 149)
        else FNum s (of_int (M + 2 ^ 23) * 2 powi (E - 150)))"
proof -
  define n where "n = (if s then 2 ^ 31 else 0) + E * 2 ^ 23 + M"
  have "0 \<le> n" "n < 2 ^ 32" using assms unfolding n_def by auto
  then have u: "uint (pack32 s E M) = n"
    unfolding pack32_def n_def[symmetric] by (simp add: uint_word_of_int)
  have n: "n = M + ((if s then 256 else 0) + E) * 2 ^ 23" by (simp add: n_def)
  have "n div 2 ^ 23 = (if s then 256 else 0) + E" "n mod 2 ^ 23 = M"
    using assms by (simp_all only: n div_mult_self3 mod_mult_self1 div_pos_pos_trivial mod_pos_pos_trivial)
      (simp_all add: div_mult_self2)
  moreover have "(2 ^ 31 \<le> n) = s" using assms unfolding n_def by auto
  ultimately show ?thesis using assms by (simp add: dec32_def u Let_def)
qed

lemma dec32_enc32: assumes "wf_fp fmt32 x" shows "dec32 (enc32 x) = x"
proof (cases x)
  case FNaN
  then show ?thesis by (simp add: dec32_def Let_def)
next
  case (FInf s)
  then show ?thesis by (simp add: dec32_pack32)
next
  case (FNum s r)
  show ?thesis
  proof (cases "r = 0")
    case True
    with FNum show ?thesis by (simp add: dec32_pack32)
  next
    case False
    with assms FNum have r: "0 < r" "rnd_mag fmt32 r = r" "r < 2 powi 128" by simp_all
    define q where "q = max (ilog2 r - 23) (- 149)"
    define i where "i = rne (r / 2 powi q)"
    have Q: "quantum fmt32 r = q" by (simp add: quantum_def q_def)
    have ri: "r = of_int i * 2 powi q" using rnd_mag_quantum[OF r(1), of fmt32] r(2) by (simp add: Q i_def)
    have "0 < of_int i * (2::rat) powi q" using r(1) ri by simp
    then have "0 < (of_int i::rat)" by (rule zero_less_mult_pos2) simp
    then have i0: "0 < i" by simp
    have fl: "\<lfloor>r / 2 powi q\<rfloor> = i" by (simp add: ri)
    have "ilog2 r + 1 \<le> 24 + q" by (simp add: q_def)
    then have "(2::rat) powi (ilog2 r + 1) \<le> 2 powi (24 + q)" by (rule powi_mono)
    then have "r < 2 powi (24 + q)" using ilog2_bounds(2)[OF r(1)] by linarith
    then have "r < 2 ^ 24 * 2 powi q" by (simp add: power_int_add)
    then have "(of_int i::rat) < of_int (2 ^ 24)" by (simp add: ri)
    then have i1: "i < 2 ^ 24" by (simp only: of_int_less_iff)
    have "(2::rat) powi ilog2 r < 2 powi 128" using ilog2_bounds(1)[OF r(1)] r(3) by linarith
    then have "ilog2 r < 128" by (simp only: powi_less_iff)
    then have q2: "q \<le> 104" by (simp add: q_def)
    have q3: "- 149 \<le> q" by (simp add: q_def)
    have enc: "enc32 x = (if i < 2 ^ 23 then pack32 s 0 i else pack32 s (q + 150) (i - 2 ^ 23))"
      using FNum False by (simp only: enc32.simps if_False Let_def fl flip: q_def)
    show ?thesis
    proof (cases "i < 2 ^ 23")
      case True
      have "q = - 149"
      proof (rule ccontr)
        assume "q \<noteq> - 149"
        then have "q = ilog2 r - 23" by (auto simp: q_def max_def split: if_splits)
        then have "2 powi (23 + q) \<le> r" using ilog2_bounds(1)[OF r(1)] by simp
        then have "2 ^ 23 * (2::rat) powi q \<le> of_int i * 2 powi q" using ri by (simp add: power_int_add)
        then have "(of_int (2 ^ 23)::rat) \<le> of_int i" by simp
        then have "2 ^ 23 \<le> i" by (simp only: of_int_le_iff)
        then show False using True by simp
      qed
      with True show ?thesis using FNum ri enc i0 by (simp add: dec32_pack32)
    next
      case False
      then show ?thesis using FNum ri enc i0 i1 q2 q3 by (simp add: dec32_pack32)
    qed
  qed
qed

lemma wf_dec32 [simp]: "wf_fp fmt32 (dec32 w)"
proof -
  have ex: "wf_fp fmt32 (FNum s (of_int m * 2 powi q))"
    if "0 \<le> m" "m < 2 ^ 24" "- 149 \<le> q" "q \<le> 104" for s m q
  proof (cases "m = 0")
    case False
    have "rnd_mag fmt32 (of_int m * 2 powi q) = of_int m * 2 powi q"
      using that False by (intro rnd_mag_exact_aux) auto
    moreover have "of_int m * (2::rat) powi q < 2 ^ 24 * 2 powi 104"
    proof (rule mult_less_le_imp_less)
      have "(of_int m::rat) < of_int (2 ^ 24)" using that(2) by (simp only: of_int_less_iff)
      then show "(of_int m::rat) < 2 ^ 24" by simp
    qed (use that powi_mono[of q 104] in simp_all)
    ultimately show ?thesis using that by simp
  qed simp
  define n E M where "n = uint w" and "E = n div 2 ^ 23 mod 256" and "M = n mod 2 ^ 23"
  have "0 \<le> M" "M < 2 ^ 23" by (simp_all add: M_def)
  moreover have "0 \<le> E" "E < 256" by (simp_all add: E_def)
  moreover have "dec32 w = (if E = 255 then (if M = 0 then FInf (2 ^ 31 \<le> n) else FNaN)
        else if E = 0 then FNum (2 ^ 31 \<le> n) (of_int M * 2 powi - 149)
        else FNum (2 ^ 31 \<le> n) (of_int (M + 2 ^ 23) * 2 powi (E - 150)))"
    by (simp only: dec32_def Let_def n_def E_def M_def)
  ultimately show ?thesis
    using ex[of M "- 149"] ex[of "M + 2 ^ 23" "E - 150"] by (simp del: wf_fp.simps(1))
qed

section \<open>Arithmetic, comparison and conversion\<close>

fun sval :: "bool \<Rightarrow> rat \<Rightarrow> rat" where
  "sval s x = (if s then - x else x)"

fun fneg :: "fp \<Rightarrow> fp" where
  "fneg FNaN = FNaN"
| "fneg (FInf s) = FInf (\<not> s)"
| "fneg (FNum s x) = FNum (\<not> s) x"

fun fabs :: "fp \<Rightarrow> fp" where
  "fabs FNaN = FNaN"
| "fabs (FInf s) = FInf False"
| "fabs (FNum s x) = FNum False x"

fun fadd :: "fmt \<Rightarrow> fp \<Rightarrow> fp \<Rightarrow> fp" where
  "fadd F FNaN _ = FNaN"
| "fadd F _ FNaN = FNaN"
| "fadd F (FInf s) (FInf t) = (if s = t then FInf s else FNaN)"
| "fadd F (FInf s) (FNum _ _) = FInf s"
| "fadd F (FNum _ _) (FInf t) = FInf t"
| "fadd F (FNum s x) (FNum t y) =
    (let v = sval s x + sval t y
     in if v = 0 then FNum (s \<and> t) 0 else fround F (v < 0) \<bar>v\<bar>)"

definition fsub :: "fmt \<Rightarrow> fp \<Rightarrow> fp \<Rightarrow> fp" where
  "fsub F a b = fadd F a (fneg b)"

fun fmul :: "fmt \<Rightarrow> fp \<Rightarrow> fp \<Rightarrow> fp" where
  "fmul F FNaN _ = FNaN"
| "fmul F _ FNaN = FNaN"
| "fmul F (FInf s) (FInf t) = FInf (s \<noteq> t)"
| "fmul F (FInf s) (FNum t y) = (if y = 0 then FNaN else FInf (s \<noteq> t))"
| "fmul F (FNum s x) (FInf t) = (if x = 0 then FNaN else FInf (s \<noteq> t))"
| "fmul F (FNum s x) (FNum t y) = fround F (s \<noteq> t) (x * y)"

fun fdiv :: "fmt \<Rightarrow> fp \<Rightarrow> fp \<Rightarrow> fp" where
  "fdiv F FNaN _ = FNaN"
| "fdiv F _ FNaN = FNaN"
| "fdiv F (FInf s) (FInf t) = FNaN"
| "fdiv F (FInf s) (FNum t y) = FInf (s \<noteq> t)"
| "fdiv F (FNum s x) (FInf t) = FNum (s \<noteq> t) 0"
| "fdiv F (FNum s x) (FNum t y) =
    (if y = 0 then (if x = 0 then FNaN else FInf (s \<noteq> t)) else fround F (s \<noteq> t) (x / y))"

fun fcvt :: "fmt \<Rightarrow> fp \<Rightarrow> fp" where
  "fcvt F (FNum s x) = fround F s x"
| "fcvt F x = x"

fun flt :: "fp \<Rightarrow> fp \<Rightarrow> bool" where
  "flt FNaN _ = False"
| "flt _ FNaN = False"
| "flt (FInf s) (FInf t) = (s \<and> \<not> t)"
| "flt (FInf s) (FNum _ _) = s"
| "flt (FNum _ _) (FInf t) = (\<not> t)"
| "flt (FNum s x) (FNum t y) = (sval s x < sval t y)"

fun fle :: "fp \<Rightarrow> fp \<Rightarrow> bool" where
  "fle FNaN _ = False"
| "fle _ FNaN = False"
| "fle (FInf s) (FInf t) = (s \<or> \<not> t)"
| "fle (FInf s) (FNum _ _) = s"
| "fle (FNum _ _) (FInf t) = (\<not> t)"
| "fle (FNum s x) (FNum t y) = (sval s x \<le> sval t y)"

definition of_int_fp :: "fmt \<Rightarrow> int \<Rightarrow> fp" where
  "of_int_fp F i = fround F (i < 0) (of_int \<bar>i\<bar>)"

definition lit :: "fmt \<Rightarrow> rat \<Rightarrow> fp" where
  "lit F r = fround F (r < 0) \<bar>r\<bar>"

fun ftrunc :: "fp \<Rightarrow> int option" where
  "ftrunc (FNum s x) = Some (if s then - \<lfloor>x\<rfloor> else \<lfloor>x\<rfloor>)"
| "ftrunc _ = None"

lemma not_nan_cases: "x \<noteq> FNaN \<Longrightarrow> (\<And>s. x = FInf s \<Longrightarrow> P) \<Longrightarrow> (\<And>s r. x = FNum s r \<Longrightarrow> P) \<Longrightarrow> P"
  by (cases x) auto

lemma fle_not_flt: "a \<noteq> FNaN \<Longrightarrow> b \<noteq> FNaN \<Longrightarrow> fle a b \<longleftrightarrow> \<not> flt b a"
  by (cases a; cases b) auto

lemma flt_imp_fle: "flt a b \<Longrightarrow> fle a b"
  by (cases a; cases b) auto

lemma flt_irrefl [simp]: "\<not> flt a a"
  by (cases a) auto

lemma fle_refl: "fle a a \<longleftrightarrow> a \<noteq> FNaN"
  by (cases a) auto

lemma fle_trans: "fle a b \<Longrightarrow> fle b c \<Longrightarrow> fle a c"
  by (cases a; cases b; cases c) auto

lemma flt_fle_trans: "flt a b \<Longrightarrow> fle b c \<Longrightarrow> flt a c"
  by (cases a; cases b; cases c) auto

lemma fle_flt_trans: "fle a b \<Longrightarrow> flt b c \<Longrightarrow> flt a c"
  by (cases a; cases b; cases c) auto

lemma fle_not_nan: "fle a b \<Longrightarrow> a \<noteq> FNaN \<and> b \<noteq> FNaN"
  by (cases a; cases b) auto

lemma fround_mono:
  "0 < prec F \<Longrightarrow> 0 \<le> x \<Longrightarrow> x \<le> y \<Longrightarrow> fle (fround F False x) (fround F False y)"
  using rnd_mag_mono[of F x y] by (auto simp: fround_def Let_def)

lemma ftrunc_mono:
  assumes "fle (FNum s x) (FNum t y)" "ftrunc (FNum s x) = Some i" "ftrunc (FNum t y) = Some j"
    "0 \<le> x" "0 \<le> y"
  shows "i \<le> j"
proof -
  have fx: "0 \<le> \<lfloor>x\<rfloor>" and fy: "0 \<le> \<lfloor>y\<rfloor>" using assms by simp_all
  show ?thesis
  proof (cases s; cases t)
    assume "s" "t"
    with assms have "y \<le> x" by simp
    then have "\<lfloor>y\<rfloor> \<le> \<lfloor>x\<rfloor>" by (rule floor_mono)
    with assms \<open>s\<close> \<open>t\<close> show ?thesis by auto
  next
    assume "s" "\<not> t"
    with assms have "i = - \<lfloor>x\<rfloor>" "j = \<lfloor>y\<rfloor>" by auto
    with fx fy show ?thesis by linarith
  next
    assume "\<not> s" "t"
    with assms have "x = 0" "y = 0" by auto
    with assms show ?thesis by auto
  next
    assume "\<not> s" "\<not> t"
    with assms have "x \<le> y" by simp
    then have "\<lfloor>x\<rfloor> \<le> \<lfloor>y\<rfloor>" by (rule floor_mono)
    with assms \<open>\<not> s\<close> \<open>\<not> t\<close> show ?thesis by auto
  qed
qed

text \<open>Every operation yields a value of its format, so it survives being stored.\<close>

named_theorems fp_wf "results that are values of their format"

lemma wf_lit [simp, fp_wf]: "0 < prec F \<Longrightarrow> wf_fp F (lit F r)"
  by (simp add: lit_def)

lemma wf_of_int_fp [simp, fp_wf]: "0 < prec F \<Longrightarrow> wf_fp F (of_int_fp F i)"
  by (simp add: of_int_fp_def)

lemma wf_fneg [simp, fp_wf]: "wf_fp F a \<Longrightarrow> wf_fp F (fneg a)"
  by (cases a) auto

lemma wf_zero [simp, fp_wf]: "wf_fp F (FNum s 0)"
  by simp

lemma wf_fadd [simp, fp_wf]: "0 < prec F \<Longrightarrow> wf_fp F (fadd F a b)"
  by (cases "(F, a, b)" rule: fadd.cases) (simp_all add: Let_def del: wf_fp.simps(1))

lemma wf_fsub [simp, fp_wf]: "0 < prec F \<Longrightarrow> wf_fp F (fsub F a b)"
  by (simp add: fsub_def)

lemma wf_fmul [simp, fp_wf]:
  assumes "0 < prec F" "wf_fp F a" "wf_fp F b" shows "wf_fp F (fmul F a b)"
proof (cases a; cases b)
  fix s x t y assume e: "a = FNum s x" "b = FNum t y"
  then have "0 \<le> x * y" using assms by simp
  then show ?thesis using e assms(1) by (simp del: wf_fp.simps(1))
qed simp_all

lemma wf_fdiv [simp, fp_wf]:
  assumes "0 < prec F" "wf_fp F a" "wf_fp F b" shows "wf_fp F (fdiv F a b)"
proof (cases a; cases b)
  fix s x t y assume e: "a = FNum s x" "b = FNum t y"
  then have "0 \<le> x / y" using assms by simp
  then show ?thesis using e assms(1) by (simp del: wf_fp.simps(1))
qed (simp_all del: wf_fp.simps(1))

lemma wf_fcvt [simp, fp_wf]: "0 < prec F \<Longrightarrow> wf_fp G a \<Longrightarrow> wf_fp F (fcvt F a)"
  by (cases a) (simp_all del: wf_fp.simps(1), simp)

text \<open>Operators on stored floats: \<open>a + b\<close>, \<open>a - b\<close>, \<open>a * b\<close>, \<open>a / b\<close>, a literal such
  as \<open>0.06f\<close>, an integer converted to \<open>float\<close>, and \<open>a < b\<close>.\<close>

definition f32_add :: "f32 \<Rightarrow> f32 \<Rightarrow> f32" where
  "f32_add a b = enc32 (fadd fmt32 (dec32 a) (dec32 b))"

definition f32_sub :: "f32 \<Rightarrow> f32 \<Rightarrow> f32" where
  "f32_sub a b = enc32 (fsub fmt32 (dec32 a) (dec32 b))"

definition f32_mul :: "f32 \<Rightarrow> f32 \<Rightarrow> f32" where
  "f32_mul a b = enc32 (fmul fmt32 (dec32 a) (dec32 b))"

definition f32_div :: "f32 \<Rightarrow> f32 \<Rightarrow> f32" where
  "f32_div a b = enc32 (fdiv fmt32 (dec32 a) (dec32 b))"

definition f32_lit :: "rat \<Rightarrow> f32" where
  "f32_lit r = enc32 (lit fmt32 r)"

definition f32_of_int :: "int \<Rightarrow> f32" where
  "f32_of_int i = enc32 (of_int_fp fmt32 i)"

definition f32_lt :: "f32 \<Rightarrow> f32 \<Rightarrow> bool" where
  "f32_lt a b = flt (dec32 a) (dec32 b)"

definition f32_le :: "f32 \<Rightarrow> f32 \<Rightarrow> bool" where
  "f32_le a b = fle (dec32 a) (dec32 b)"

definition is_nan32 :: "f32 \<Rightarrow> bool" where
  "is_nan32 a = (dec32 a = FNaN)"

lemma dec32_ops [simp]:
  "dec32 (f32_add a b) = fadd fmt32 (dec32 a) (dec32 b)"
  "dec32 (f32_sub a b) = fsub fmt32 (dec32 a) (dec32 b)"
  "dec32 (f32_mul a b) = fmul fmt32 (dec32 a) (dec32 b)"
  "dec32 (f32_div a b) = fdiv fmt32 (dec32 a) (dec32 b)"
  "dec32 (f32_lit r) = lit fmt32 r"
  "dec32 (f32_of_int i) = of_int_fp fmt32 i"
  by (simp_all add: f32_add_def f32_sub_def f32_mul_def f32_div_def f32_lit_def f32_of_int_def
      dec32_enc32)

lemma f32_le_iff_not_lt: "\<not> is_nan32 a \<Longrightarrow> \<not> is_nan32 b \<Longrightarrow> f32_le a b \<longleftrightarrow> \<not> f32_lt b a"
  by (simp add: f32_le_def f32_lt_def is_nan32_def fle_not_flt)

lemma f32_le_trans: "f32_le a b \<Longrightarrow> f32_le b c \<Longrightarrow> f32_le a c"
  unfolding f32_le_def by (rule fle_trans)

lemma f32_lt_imp_le: "f32_lt a b \<Longrightarrow> f32_le a b"
  unfolding f32_le_def f32_lt_def by (rule flt_imp_fle)

text \<open>Conversion to an integer type truncates; out of the type's range it is undefined.\<close>

definition fp_to_range :: "int \<Rightarrow> int \<Rightarrow> fp \<Rightarrow> int option" where
  "fp_to_range lo hi x =
     (case ftrunc x of None \<Rightarrow> None | Some i \<Rightarrow> if lo \<le> i \<and> i \<le> hi then Some i else None)"

definition fp_to_u16 :: "fp \<Rightarrow> u16 option" where
  "fp_to_u16 x = map_option word_of_int (fp_to_range 0 65535 x)"

definition fp_to_u32 :: "fp \<Rightarrow> u32 option" where
  "fp_to_u32 x = map_option word_of_int (fp_to_range 0 4294967295 x)"

definition fp_to_s16 :: "fp \<Rightarrow> u16 option" where
  "fp_to_s16 x = map_option word_of_int (fp_to_range (- 32768) 32767 x)"

lemma fp_to_range_between:
  assumes "fle lo x" "fle x hi" "0 < prec F" "wf_fp F lo" "wf_fp F x" "wf_fp F hi"
    "ftrunc lo = Some l" "ftrunc hi = Some h" "a \<le> l" "h \<le> b"
  shows "\<exists>i. fp_to_range a b x = Some i \<and> ftrunc x = Some i \<and> l \<le> i \<and> i \<le> h"
proof -
  obtain s r where lo: "lo = FNum s r" using assms(7) by (cases lo) auto
  obtain t q where hi: "hi = FNum t q" using assms(8) by (cases hi) auto
  obtain u p where x: "x = FNum u p" using assms(1,2) lo hi by (cases x) auto
  obtain i where i: "ftrunc x = Some i" by (simp add: x)
  have "l \<le> i" using assms lo x i by (intro ftrunc_mono[of s r u p l i]) auto
  moreover have "i \<le> h" using assms hi x i by (intro ftrunc_mono[of u p t q i h]) auto
  ultimately show ?thesis using i assms by (simp add: fp_to_range_def)
qed

end
