(* ===== verification/Database.thy ===== *)
theory Database
  imports CFloat
begin

text \<open>
  applications/database.h and database.c: the controller's shared data.  \<open>g_ccr_data\<close> is
  a union of the structure \<open>ccr_datastruct\<close> and the array \<open>buf\<close> of 108 16-bit registers
  that the Modbus slave serves (\<open>CCR_BUF_LEN\<close> is the structure's size in bytes, so the
  array is twice as long as the structure and its upper half has no field).  The model
  keeps the structure as a record, with the unnamed upper half as a field of its own,
  and gives the union as the two conversions \<open>regs_of\<close> and \<open>ccr_of_regs\<close>.  The lemmas
  show that they are inverse, so a register write is a field update and nothing else,
  and what the status macros and the setters do to the other fields.
\<close>

section \<open>The structures\<close>

text \<open>\<open>struct sys_param\<close>, the block kept in the EEPROM; \<open>sp_pad\<close> stands for the two padding
  bytes before the first float.\<close>

record sys_param =
  sp_on_off :: u16
  sp_ctrl_mode :: u16
  sp_intensity :: u16
  sp_run_time_lv1 :: u16
  sp_run_time_lv2 :: u16
  sp_run_time_lv3 :: u16
  sp_run_time_lv4 :: u16
  sp_run_time_lv5 :: u16
  sp_run_time_avg_lv5 :: u16
  sp_pad :: u16
  sp_In_a :: f32
  sp_In_b :: f32
  sp_Un_a :: f32
  sp_Un_b :: f32
  sp_Uload_a :: f32
  sp_Uload_b :: f32

record ccr_data =
  on_off :: u16
  ctrl_mode :: u16
  intensity :: u16
  reserved :: "u16 list"
  v_scr :: u16
  i_load :: u16
  v_load :: u16
  run_time_lv1 :: u16
  run_time_lv2 :: u16
  run_time_lv3 :: u16
  run_time_lv4 :: u16
  run_time_lv5 :: u16
  run_time_avg_lv5 :: u16
  status :: u16
  run_status :: u16
  alarm_switch :: u16
  freq :: u16
  half_period :: u16
  angle :: f32
  In_a :: f32
  In_b :: f32
  Un_a :: f32
  Un_b :: f32
  Uload_a :: f32
  Uload_b :: f32
  adc_val_i :: f32
  adc_val_vscr :: f32
  adc_val_vload :: f32
  buf_rest :: "u16 list"

definition ccr_wf :: "ccr_data \<Rightarrow> bool" where
  "ccr_wf d = (length (reserved d) = 17 \<and> length (buf_rest d) = 54)"

section \<open>The union: registers and fields\<close>

definition f32_lo :: "f32 \<Rightarrow> u16" where
  "f32_lo f = ucast f"

definition f32_hi :: "f32 \<Rightarrow> u16" where
  "f32_hi f = ucast (drop_bit 16 f)"

definition f32_of :: "u16 \<Rightarrow> u16 \<Rightarrow> f32" where
  "f32_of l h = push_bit 16 (ucast h) OR ucast l"

lemma f32_halves [simp]:
  "f32_lo (f32_of l h) = l" "f32_hi (f32_of l h) = h" "f32_of (f32_lo f) (f32_hi f) = f"
  unfolding f32_lo_def f32_hi_def f32_of_def
  by (rule bit_word_eqI; auto simp: bit_simps dest: bit_imp_le_length)+

definition f32_regs :: "f32 list \<Rightarrow> u16 list" where
  "f32_regs fs = concat (map (\<lambda>f. [f32_lo f, f32_hi f]) fs)"

definition regs_of :: "ccr_data \<Rightarrow> u16 list" where
  "regs_of d =
     [on_off d, ctrl_mode d, intensity d] @ reserved d @
     [v_scr d, i_load d, v_load d, run_time_lv1 d, run_time_lv2 d, run_time_lv3 d,
      run_time_lv4 d, run_time_lv5 d, run_time_avg_lv5 d, status d, run_status d,
      alarm_switch d, freq d, half_period d] @
     f32_regs [angle d, In_a d, In_b d, Un_a d, Un_b d, Uload_a d, Uload_b d,
      adc_val_i d, adc_val_vscr d, adc_val_vload d] @ buf_rest d"

definition ccr_of_regs :: "u16 list \<Rightarrow> ccr_data" where
  "ccr_of_regs r =
     \<lparr>on_off = r ! 0, ctrl_mode = r ! 1, intensity = r ! 2, reserved = take 17 (drop 3 r),
      v_scr = r ! 20, i_load = r ! 21, v_load = r ! 22, run_time_lv1 = r ! 23,
      run_time_lv2 = r ! 24, run_time_lv3 = r ! 25, run_time_lv4 = r ! 26,
      run_time_lv5 = r ! 27, run_time_avg_lv5 = r ! 28, status = r ! 29, run_status = r ! 30,
      alarm_switch = r ! 31, freq = r ! 32, half_period = r ! 33,
      angle = f32_of (r ! 34) (r ! 35), In_a = f32_of (r ! 36) (r ! 37),
      In_b = f32_of (r ! 38) (r ! 39), Un_a = f32_of (r ! 40) (r ! 41),
      Un_b = f32_of (r ! 42) (r ! 43), Uload_a = f32_of (r ! 44) (r ! 45),
      Uload_b = f32_of (r ! 46) (r ! 47), adc_val_i = f32_of (r ! 48) (r ! 49),
      adc_val_vscr = f32_of (r ! 50) (r ! 51), adc_val_vload = f32_of (r ! 52) (r ! 53),
      buf_rest = drop 54 r\<rparr>"

definition buf_get :: "ccr_data \<Rightarrow> nat \<Rightarrow> u16" where
  "buf_get d i = regs_of d ! i"

definition buf_set :: "ccr_data \<Rightarrow> nat \<Rightarrow> u16 \<Rightarrow> ccr_data" where
  "buf_set d i v = ccr_of_regs ((regs_of d)[i := v])"

lemma length_f32_regs [simp]: "length (f32_regs fs) = 2 * length fs"
  by (induction fs) (simp_all add: f32_regs_def)

lemma length_regs_of [simp]: "ccr_wf d \<Longrightarrow> length (regs_of d) = 108"
  by (simp add: regs_of_def ccr_wf_def)

lemma ccr_wf_of_regs [simp]: "length r = 108 \<Longrightarrow> ccr_wf (ccr_of_regs r)"
  by (simp add: ccr_of_regs_def ccr_wf_def)

lemma reserved_conv: "length xs = 17 \<Longrightarrow>
  xs = [xs ! 0, xs ! 1, xs ! 2, xs ! 3, xs ! 4, xs ! 5, xs ! 6, xs ! 7, xs ! 8, xs ! 9, xs ! 10,
        xs ! 11, xs ! 12, xs ! 13, xs ! 14, xs ! 15, xs ! 16]"
  by (rule nth_equalityI) (auto simp: less_Suc_eq numeral_eq_Suc)

lemma ccr_of_regs_of: assumes "ccr_wf d" shows "ccr_of_regs (regs_of d) = d"
proof -
  have "length (reserved d) = 17" using assms by (simp add: ccr_wf_def)
  from reserved_conv[OF this] obtain a b c e f g h i j k l m n p q s t where
    r: "reserved d = [a, b, c, e, f, g, h, i, j, k, l, m, n, p, q, s, t]" by blast
  show ?thesis by (cases d) (use r in \<open>simp add: ccr_of_regs_def regs_of_def f32_regs_def\<close>)
qed

lemma take_drop_nths: "m + n \<le> length r \<Longrightarrow> take n (drop m r) = map ((!) r) [m..<m + n]"
  by (rule nth_equalityI) auto

lemma drop_nths: "drop m r = map ((!) r) [m..<length r]"
  by (rule nth_equalityI) auto

lemma regs_of_ccr_of: assumes "length r = 108" shows "regs_of (ccr_of_regs r) = r"
proof -
  have u3: "[0, 1, 2] = [0..<3::nat]" by code_simp
  have "regs_of (ccr_of_regs r) =
      map ((!) r) [0..<3] @ take 17 (drop 3 r) @ map ((!) r) [20..<54] @ drop 54 r"
    by (simp add: ccr_of_regs_def regs_of_def f32_regs_def flip: u3)
  also have "\<dots> = map ((!) r) ([0..<3] @ [3..<20] @ [20..<54] @ [54..<108])"
    using assms by (simp only: take_drop_nths drop_nths map_append) (simp add: take_drop_nths)
  also have "[0..<3] @ [3..<20] @ [20..<54] @ [54..<108] = [0..<108::nat]"
    by code_simp
  finally show ?thesis using assms by (metis map_nth)
qed

lemma buf_get_set:
  "ccr_wf d \<Longrightarrow> i < 108 \<Longrightarrow> j < 108 \<Longrightarrow> buf_get (buf_set d i v) j = (if i = j then v else buf_get d j)"
  by (simp add: buf_get_def buf_set_def regs_of_ccr_of)

lemma ccr_wf_buf_set [simp]: "ccr_wf d \<Longrightarrow> ccr_wf (buf_set d i v)"
  by (simp add: buf_set_def)

lemma regs_of_buf_set: "ccr_wf d \<Longrightarrow> regs_of (buf_set d i v) = (regs_of d)[i := v]"
  by (simp add: buf_set_def regs_of_ccr_of)

text \<open>The registers with a name in the protocol: 100 (on/off), 101, 102 (intensity), 120
  (0x78) and 121 (0x79) of the comments in database.h, and the two status words.\<close>

lemma buf_get_named:
  assumes "ccr_wf d"
  shows "buf_get d 0 = on_off d" "buf_get d 1 = ctrl_mode d" "buf_get d 2 = intensity d"
    "buf_get d 20 = v_scr d" "buf_get d 21 = i_load d" "buf_get d 29 = status d"
    "buf_get d 30 = run_status d"
  using assms by (simp_all add: buf_get_def regs_of_def ccr_wf_def nth_append)

lemma buf_set_named:
  assumes "ccr_wf d"
  shows "buf_set d 0 v = d\<lparr>on_off := v\<rparr>" "buf_set d 1 v = d\<lparr>ctrl_mode := v\<rparr>"
    "buf_set d 2 v = d\<lparr>intensity := v\<rparr>" "buf_set d 29 v = d\<lparr>status := v\<rparr>"
    "buf_set d 30 v = d\<lparr>run_status := v\<rparr>"
proof -
  have eq: "buf_set d i v = d'" if "ccr_wf d'" "regs_of d' = (regs_of d)[i := v]" for d' i
    using that by (metis buf_set_def ccr_of_regs_of)
  show "buf_set d 0 v = d\<lparr>on_off := v\<rparr>" "buf_set d 1 v = d\<lparr>ctrl_mode := v\<rparr>"
    "buf_set d 2 v = d\<lparr>intensity := v\<rparr>" "buf_set d 29 v = d\<lparr>status := v\<rparr>"
    "buf_set d 30 v = d\<lparr>run_status := v\<rparr>"
    using assms by (intro eq; simp add: ccr_wf_def regs_of_def list_update_append)+
qed

section \<open>Status words\<close>

text \<open>\<open>SET_..._BIT\<close>, \<open>CLR_..._BIT\<close> and \<open>GET_..._BIT\<close> on a 16-bit word.\<close>

definition set_bit16 :: "nat \<Rightarrow> u16 \<Rightarrow> u16" where
  "set_bit16 n w = w OR push_bit n 1"

definition clr_bit16 :: "nat \<Rightarrow> u16 \<Rightarrow> u16" where
  "clr_bit16 n w = w AND NOT (push_bit n 1)"

definition get_bit16 :: "nat \<Rightarrow> u16 \<Rightarrow> u16" where
  "get_bit16 n w = w AND push_bit n 1"

definition RELAY_STATUS_POS :: nat where "RELAY_STATUS_POS = 0"
definition RELAY_STATUS_OFF :: u16 where "RELAY_STATUS_OFF = 0"
definition RELAY_STATUS_ON :: u16 where "RELAY_STATUS_ON = 1"

definition SET_SYS_STATUS_BIT :: "nat \<Rightarrow> ccr_data \<Rightarrow> ccr_data" where
  "SET_SYS_STATUS_BIT n d = d\<lparr>run_status := set_bit16 n (run_status d)\<rparr>"

definition CLR_SYS_STATUS_BIT :: "nat \<Rightarrow> ccr_data \<Rightarrow> ccr_data" where
  "CLR_SYS_STATUS_BIT n d = d\<lparr>run_status := clr_bit16 n (run_status d)\<rparr>"

definition GET_SYS_STATUS_BIT :: "nat \<Rightarrow> ccr_data \<Rightarrow> u16" where
  "GET_SYS_STATUS_BIT n d = get_bit16 n (run_status d)"

definition SET_ALARM_STATUS_BIT :: "nat \<Rightarrow> ccr_data \<Rightarrow> ccr_data" where
  "SET_ALARM_STATUS_BIT n d = d\<lparr>status := set_bit16 n (status d)\<rparr>"

definition CLR_ALARM_STATUS_BIT :: "nat \<Rightarrow> ccr_data \<Rightarrow> ccr_data" where
  "CLR_ALARM_STATUS_BIT n d = d\<lparr>status := clr_bit16 n (status d)\<rparr>"

definition GET_ALARM_STATUS_BIT :: "nat \<Rightarrow> ccr_data \<Rightarrow> u16" where
  "GET_ALARM_STATUS_BIT n d = get_bit16 n (status d)"

text \<open>The low byte of the alarm word holds the faults.\<close>

definition IS_SYS_FAULT_EXIST :: "ccr_data \<Rightarrow> bool" where
  "IS_SYS_FAULT_EXIST d = (status d AND 0x00FF \<noteq> 0)"

section \<open>Setters and getters\<close>

definition update_freq :: "u16 \<Rightarrow> ccr_data \<Rightarrow> ccr_data" where
  "update_freq f d = d\<lparr>freq := f\<rparr>"

definition update_scr_voltage :: "u32 \<Rightarrow> ccr_data \<Rightarrow> ccr_data" where
  "update_scr_voltage v d = d\<lparr>v_scr := ucast v\<rparr>"

definition get_scr_voltage :: "ccr_data \<Rightarrow> u32" where
  "get_scr_voltage d = ucast (v_scr d)"

definition update_load_voltage :: "u32 \<Rightarrow> ccr_data \<Rightarrow> ccr_data" where
  "update_load_voltage v d = d\<lparr>v_load := ucast v\<rparr>"

definition get_load_voltage :: "ccr_data \<Rightarrow> u32" where
  "get_load_voltage d = ucast (v_load d)"

definition update_i_load :: "u16 \<Rightarrow> ccr_data \<Rightarrow> ccr_data" where
  "update_i_load i d = d\<lparr>i_load := i\<rparr>"

definition get_i_load :: "ccr_data \<Rightarrow> u16" where
  "get_i_load d = i_load d"

definition update_Un :: "f32 \<Rightarrow> f32 \<Rightarrow> ccr_data \<Rightarrow> ccr_data" where
  "update_Un a b d = d\<lparr>Un_a := a, Un_b := b\<rparr>"

definition update_In :: "f32 \<Rightarrow> f32 \<Rightarrow> ccr_data \<Rightarrow> ccr_data" where
  "update_In a b d = d\<lparr>In_a := a, In_b := b\<rparr>"

definition update_pass_angle :: "f32 \<Rightarrow> ccr_data \<Rightarrow> ccr_data" where
  "update_pass_angle a d = d\<lparr>angle := a\<rparr>"

definition update_idensity :: "u16 \<Rightarrow> ccr_data \<Rightarrow> ccr_data" where
  "update_idensity i d = (if i \<le> 5 then d\<lparr>intensity := i\<rparr> else d)"

definition get_idensity :: "ccr_data \<Rightarrow> u8" where
  "get_idensity d = ucast (intensity d)"

text \<open>\<open>scr.h\<close>: the range of the conduction angle; \<open>database.c\<close>: the value at start-up, the
  rest of the union zeroed as every C object of static storage.\<close>

definition MIN_PASS_ANGLE :: int where "MIN_PASS_ANGLE = 20"
definition MAX_PASS_ANGLE :: int where "MAX_PASS_ANGLE = 160"

definition ccr_zero :: ccr_data where
  "ccr_zero = ccr_of_regs (replicate 108 0)"

definition data_base_init :: "ccr_data \<Rightarrow> ccr_data" where
  "data_base_init d = d\<lparr>angle := f32_of_int MIN_PASS_ANGLE\<rparr>"

section \<open>Lemmas on the status words\<close>

lemma get_set_bit16 [simp]: "n < 16 \<Longrightarrow> get_bit16 n (set_bit16 n w) \<noteq> 0"
  unfolding get_bit16_def set_bit16_def
  by (simp add: push_bit_of_1 and_exp_eq_0_iff_not_bit bit_simps)

lemma get_clr_bit16 [simp]: "get_bit16 n (clr_bit16 n w) = 0"
  unfolding get_bit16_def clr_bit16_def by (rule bit_word_eqI) (auto simp: bit_simps)

lemma get_set_bit16_other: "m \<noteq> n \<Longrightarrow> get_bit16 m (set_bit16 n w) = get_bit16 m w"
  unfolding get_bit16_def set_bit16_def by (rule bit_word_eqI) (auto simp: bit_simps)

lemma get_clr_bit16_other: "m \<noteq> n \<Longrightarrow> get_bit16 m (clr_bit16 n w) = get_bit16 m w"
  unfolding get_bit16_def clr_bit16_def by (rule bit_word_eqI) (auto simp: bit_simps)

lemma get_bit16_nonzero: "get_bit16 n w \<noteq> 0 \<longleftrightarrow> n < 16 \<and> bit w n"
  unfolding get_bit16_def
  by (auto simp: push_bit_of_1 and_exp_eq_0_iff_not_bit dest: bit_imp_le_length)

lemma fault_exists_iff: "IS_SYS_FAULT_EXIST d \<longleftrightarrow> (\<exists>n < 8. bit (status d) n)"
proof -
  have m: "(0x00FF :: u16) = mask 8" by (simp add: mask_eq_exp_minus_1)
  have b: "bit (status d AND 0x00FF) n \<longleftrightarrow> n < 8 \<and> bit (status d) n" for n
    unfolding m by (auto simp: bit_simps)
  have "status d AND 0x00FF \<noteq> 0 \<longleftrightarrow> (\<exists>n. bit (status d AND 0x00FF) n)"
    by (metis bit_0_eq bit_word_eqI bot_apply bot_bool_def)
  then show ?thesis by (auto simp: IS_SYS_FAULT_EXIST_def b)
qed

section \<open>Properties\<close>

text \<open>The union is consistent: writing any of the 108 registers and reading the
  structure back changes exactly that register, and the conversion between the registers
  and the fields loses nothing in either direction.\<close>

theorem union_write_changes_one_register:
  assumes "ccr_wf d" "i < 108"
  shows "regs_of (buf_set d i v) = (regs_of d)[i := v] \<and> ccr_wf (buf_set d i v) \<and>
    ccr_of_regs (regs_of d) = d"
  using assms by (simp add: regs_of_buf_set ccr_of_regs_of)

theorem union_write_changes_one_register_witness:
  "ccr_wf ccr_zero \<and> buf_get (buf_set ccr_zero 2 5) 2 = 5 \<and> intensity (buf_set ccr_zero 2 5) = 5"
proof -
  have w: "ccr_wf ccr_zero" by (simp add: ccr_zero_def)
  from union_write_changes_one_register[OF w, of 2 5] w show ?thesis
    by (simp add: buf_get_def buf_set_named)
qed

end
