(* ===== verification/Scr.thy ===== *)
theory Scr
  imports Database
begin

text \<open>
  applications/scr.c and scr.h: the thyristor trigger.  A conduction angle becomes a delay
  after the zero crossing; a one-shot hardware timer counts the delay and its callback
  starts the pulse train of TIMER0.  A running one-shot timer is the number of
  microseconds it was loaded with, a stopped one \<open>None\<close>; \<open>pwm_on\<close> says whether TIMER0
  runs.  Converting an angle whose delay does not fit \<open>rt_int16_t\<close> is undefined in C, and
  is \<open>None\<close> here.  The lemmas bound the delay and show that it falls as the angle grows.
\<close>

section \<open>State\<close>

record scr_dev =
  triger_angle_timer :: "u32 option"
  timer_1ms :: "u32 option"
  triger_angle_delay :: u32
  timer_1ms_delay :: u32
  pwm_on :: bool

section \<open>Operations\<close>

definition FIX_HALF_PERIOD :: int where "FIX_HALF_PERIOD = 10000"

definition clamp_delay :: "u16 \<Rightarrow> u16" where
  "clamp_delay t = (if sint t < 1000 then 1000 else if 9000 < sint t then 9000 else t)"

text \<open>\<open>tmp_delay\<close> is a signed 16-bit integer, sign-extended when it is returned.\<close>

definition angle_to_delay_us :: "f32 \<Rightarrow> u32 option" where
  "angle_to_delay_us degree =
     (case fp_to_s16 (dec32 (f32_mul (f32_div degree (f32_of_int 180)) (f32_of_int FIX_HALF_PERIOD))) of
        None \<Rightarrow> None
      | Some t \<Rightarrow> Some (scast (clamp_delay (word_of_int FIX_HALF_PERIOD - t))))"

definition pwm_enable :: "scr_dev \<Rightarrow> scr_dev" where
  "pwm_enable s = s\<lparr>pwm_on := True\<rparr>"

definition pwm_disable :: "scr_dev \<Rightarrow> scr_dev" where
  "pwm_disable s = s\<lparr>pwm_on := False\<rparr>"

definition triger_angle_timer_start :: "ccr_data \<Rightarrow> scr_dev \<Rightarrow> scr_dev option" where
  "triger_angle_timer_start d s =
     (case angle_to_delay_us (angle d) of
        None \<Rightarrow> None
      | Some us \<Rightarrow> Some (s\<lparr>triger_angle_delay := us, triger_angle_timer := Some us\<rparr>))"

definition triger_angle_timer_cb :: "scr_dev \<Rightarrow> scr_dev" where
  "triger_angle_timer_cb s = pwm_enable (s\<lparr>triger_angle_timer := None\<rparr>)"

definition timer_1ms_cb :: "ccr_data \<Rightarrow> scr_dev \<Rightarrow> scr_dev option" where
  "timer_1ms_cb d s = map_option (\<lambda>s. s\<lparr>timer_1ms := None\<rparr>) (triger_angle_timer_start d s)"

text \<open>\<open>scr_timer_init\<close> with the two timers found.\<close>

definition scr_timer_init :: "ccr_data \<Rightarrow> scr_dev \<Rightarrow> scr_dev option" where
  "scr_timer_init d s =
     (case angle_to_delay_us (angle d) of
        None \<Rightarrow> None
      | Some us \<Rightarrow> Some (s\<lparr>triger_angle_delay := us, timer_1ms_delay := 1000\<rparr>))"

section \<open>The delay\<close>

lemma fle_of_nonneg:
  assumes "fle (FNum False a) x" "fle x (FNum False b)" "0 < a" "wf_fp F x"
  obtains r where "x = FNum False r" "a \<le> r" "r \<le> b"
proof (cases x)
  case (FNum s r)
  have "0 \<le> r" using assms FNum by simp
  with assms FNum have "\<not> s" "a \<le> r" "r \<le> b" by (auto split: if_splits)
  with FNum show ?thesis by (intro that) simp_all
qed (use assms in \<open>auto split: if_splits\<close>)

definition turn :: "fp \<Rightarrow> fp" where
  "turn x = fmul fmt32 (fdiv fmt32 x (of_int_fp fmt32 180)) (of_int_fp fmt32 10000)"

lemma turn_const: "of_int_fp fmt32 180 = FNum False 180" "of_int_fp fmt32 10000 = FNum False 10000"
  by code_simp+

lemma fround_False: "fround F False x = FInf False \<or> (\<exists>r. fround F False x = FNum False r \<and> r = rnd_mag F x)"
  by (auto simp: fround_def Let_def)

lemma turn_mono:
  assumes "0 \<le> a" "a \<le> b" shows "fle (turn (FNum False a)) (turn (FNum False b))"
proof -
  have q: "fle (fround fmt32 False (a / 180)) (fround fmt32 False (b / 180))"
    using assms by (intro fround_mono) simp_all
  have m: "fle (fround fmt32 False (x * 10000)) (fround fmt32 False (y * 10000))" if "0 \<le> x" "x \<le> y" for x y
    using that by (intro fround_mono) simp_all
  have f: "fle (fround fmt32 False (x * 10000)) (FInf False)" for x
    by (simp add: fround_def Let_def)
  show ?thesis
    using q m[of "rnd_mag fmt32 (a / 180)" "rnd_mag fmt32 (b / 180)"] f[of "rnd_mag fmt32 (a / 180)"]
      rnd_mag_nonneg[of "a / 180" fmt32] assms
    by (auto simp: turn_def turn_const fround_def Let_def split: if_splits)
qed

lemma turn_limits:
  "turn (FNum False 20) = FNum False (4551111 / 4096)"
  "turn (FNum False 160) = FNum False (4551111 / 512)"
  by code_simp+

lemma turn_range:
  assumes "fle (FNum False 20) x" "fle x (FNum False 160)" "wf_fp fmt32 x"
  shows "\<exists>i. fp_to_range (- 32768) 32767 (turn x) = Some i \<and> ftrunc (turn x) = Some i \<and> 1111 \<le> i \<and> i \<le> 8888"
proof -
  obtain r where x: "x = FNum False r" "20 \<le> r" "r \<le> 160"
    using fle_of_nonneg[of 20 x 160 fmt32] assms by auto
  have "fle (turn (FNum False 20)) (turn x)" "fle (turn x) (turn (FNum False 160))"
    unfolding x(1) using x(2,3) by (intro turn_mono; simp)+
  moreover have "wf_fp fmt32 (turn x)" using assms(3) by (simp add: turn_def)
  moreover have "wf_fp fmt32 (turn (FNum False 20))" "wf_fp fmt32 (turn (FNum False 160))"
    unfolding turn_limits by code_simp+
  moreover have "\<lfloor>4551111 / 4096 :: rat\<rfloor> = 1111" "\<lfloor>4551111 / 512 :: rat\<rfloor> = 8888" by code_simp+
  ultimately show ?thesis
    using fp_to_range_between[of "turn (FNum False 20)" "turn x" "turn (FNum False 160)" fmt32
        1111 8888 "- 32768" 32767]
    by (simp only: turn_limits) (simp del: wf_fp.simps)
qed

lemma sint_small: "- 32768 \<le> k \<Longrightarrow> k \<le> 32767 \<Longrightarrow> sint (word_of_int k :: u16) = k"
  by (simp add: int_word_sint)

lemma angle_to_delay_eq:
  assumes "fp_to_range (- 32768) 32767 (turn (dec32 a)) = Some i" "1111 \<le> i" "i \<le> 8888"
  shows "\<exists>us. angle_to_delay_us a = Some us \<and> uint us = 10000 - i"
proof -
  define t :: u16 where "t = word_of_int (10000 - i)"
  have t: "sint t = 10000 - i" unfolding t_def using assms(2,3) by (intro sint_small) simp_all
  have "word_of_int FIX_HALF_PERIOD - word_of_int i = t" by (simp add: t_def FIX_HALF_PERIOD_def)
  moreover have "clamp_delay t = t" using t assms by (simp add: clamp_delay_def)
  ultimately have "angle_to_delay_us a = Some (scast t)" using assms(1)
    by (simp add: angle_to_delay_us_def fp_to_s16_def FIX_HALF_PERIOD_def turn_def)
  moreover have "(scast t :: u32) = word_of_int (10000 - i)" by (simp only: scast_eq t)
  then have "uint (scast t :: u32) = 10000 - i"
    using assms(2,3) by (simp only: uint_word_of_int) simp
  ultimately show ?thesis by simp
qed

text \<open>The angles the controller may ask for.\<close>

definition pass_angle :: "f32 \<Rightarrow> bool" where
  "pass_angle a = (f32_le (f32_of_int MIN_PASS_ANGLE) a \<and> f32_le a (f32_of_int MAX_PASS_ANGLE))"

lemma pass_angle_dec: "pass_angle a \<longleftrightarrow> fle (FNum False 20) (dec32 a) \<and> fle (dec32 a) (FNum False 160)"
proof -
  have "of_int_fp fmt32 20 = FNum False 20" "of_int_fp fmt32 160 = FNum False 160" by code_simp+
  then show ?thesis by (simp add: pass_angle_def f32_le_def MIN_PASS_ANGLE_def MAX_PASS_ANGLE_def)
qed

lemma delay_of_pass_angle:
  assumes "pass_angle a"
  obtains us i where "angle_to_delay_us a = Some us" "uint us = 10000 - i"
    "ftrunc (turn (dec32 a)) = Some i" "1111 \<le> i" "i \<le> 8888"
  using turn_range[of "dec32 a"] assms angle_to_delay_eq[of a] by (auto simp: pass_angle_dec)

text \<open>For every angle in the controller's range, with the rounding of each \<open>float\<close>
  operation, the conversion is defined and the trigger comes between 1112 and 8889
  microseconds after the zero crossing, so before the 9500 microseconds at which the
  single-stable timer ends the half wave.\<close>

theorem trigger_delay_range:
  assumes "pass_angle a"
  shows "\<exists>us. angle_to_delay_us a = Some us \<and> 1112 \<le> uint us \<and> uint us \<le> 8889"
  using assms by (elim delay_of_pass_angle) auto

lemma trigger_delay_range_witness:
  "\<exists>us. angle_to_delay_us (f32_of_int 90) = Some us \<and> 1112 \<le> uint us \<and> uint us \<le> 8889"
proof -
  have "pass_angle (f32_of_int 90)" by code_simp
  then show ?thesis by (rule trigger_delay_range)
qed

text \<open>A larger conduction angle never triggers later: the delay is antitone in the angle,
  rounding and truncation included.\<close>

theorem trigger_delay_antitone:
  assumes "pass_angle a" "pass_angle b" "f32_le a b"
    "angle_to_delay_us a = Some s" "angle_to_delay_us b = Some t"
  shows "uint t \<le> uint s"
proof -
  obtain ui i where i: "angle_to_delay_us a = Some ui" "uint ui = 10000 - i"
    "ftrunc (turn (dec32 a)) = Some i" "1111 \<le> i" "i \<le> 8888"
    using delay_of_pass_angle[OF assms(1)] by blast
  obtain uj j where j: "angle_to_delay_us b = Some uj" "uint uj = 10000 - j"
    "ftrunc (turn (dec32 b)) = Some j" "1111 \<le> j" "j \<le> 8888"
    using delay_of_pass_angle[OF assms(2)] by blast
  obtain x where x: "dec32 a = FNum False x" "20 \<le> x"
    using fle_of_nonneg[of 20 "dec32 a" 160 fmt32] assms(1) by (auto simp: pass_angle_dec)
  obtain y where y: "dec32 b = FNum False y" "20 \<le> y"
    using fle_of_nonneg[of 20 "dec32 b" 160 fmt32] assms(2) by (auto simp: pass_angle_dec)
  have "x \<le> y" using assms(3) x y by (simp add: f32_le_def)
  then have le: "fle (turn (dec32 a)) (turn (dec32 b))" using x y by (simp add: turn_mono)
  obtain s' r where r: "turn (dec32 a) = FNum s' r" using i(3) by (cases "turn (dec32 a)") auto
  obtain t' q where q: "turn (dec32 b) = FNum t' q" using j(3) by (cases "turn (dec32 b)") auto
  have wf: "wf_fp fmt32 (turn x)" if "wf_fp fmt32 x" for x using that by (simp add: turn_def)
  have "0 \<le> r" "0 \<le> q" using wf[of "dec32 a"] wf[of "dec32 b"] r q by simp_all
  then have "i \<le> j" using le i(3) j(3) unfolding r q by (intro ftrunc_mono)
  then show ?thesis using assms(4,5) i j by simp
qed

lemma trigger_delay_antitone_witness:
  "\<exists>s t. angle_to_delay_us (f32_of_int 30) = Some s \<and> angle_to_delay_us (f32_of_int 120) = Some t \<and>
     uint t \<le> uint s"
proof -
  have "pass_angle (f32_of_int 30)" "pass_angle (f32_of_int 120)" "f32_le (f32_of_int 30) (f32_of_int 120)"
    "angle_to_delay_us (f32_of_int 30) = Some 8334" "angle_to_delay_us (f32_of_int 120) = Some 3334"
    by code_simp+
  with trigger_delay_antitone show ?thesis by blast
qed

end
