(* ===== verification/Pid.thy ===== *)
theory Pid
  imports CFloat
begin

text \<open>
  applications/pid.c and pid.h: the current controller, with its three algorithms.  The
  firmware is built with \<open>PID_USING_SINGAL_NEURAL\<close>; the positional and the incremental
  form are the other two bodies of the file.  Every operator rounds as C rounds it:
  \<open>float\<close> throughout, except that \<open>fabs\<close> and the literal \<open>0.1\<close> make their expressions
  \<open>double\<close>.  The locale \<open>bounded_controller\<close> is the contract the callers of the
  function pointer \<open>pid_calc\<close> rely on: the output stays in the range of the conduction
  angle, or is not a number.
\<close>

section \<open>State\<close>

record pid_control_para =
  ref :: f32
  kp :: f32
  ki :: f32
  kd :: f32
  kneural :: f32
  out_max :: f32
  out_min :: f32
  integral_max :: f32

datatype pid_algo = Position | Incremental | Single_neural

text \<open>\<open>err\<close> is the field \<open>error\<close>; \<open>calc\<close> is the function pointer \<open>pid_calc\<close>.\<close>

record pid =
  feedback :: f32
  out :: f32
  err :: f32
  pid_parm :: pid_control_para
  error_1 :: f32
  error_2 :: f32
  error_sum :: f32
  wkp :: f32
  wki :: f32
  wkd :: f32
  calc :: pid_algo

text \<open>The normalised weights of the last step, globals that \<open>pid_app.c\<close> records.\<close>

record pid_weights =
  g_wp :: f32
  g_wi :: f32
  g_wd :: f32

section \<open>Operations\<close>

text \<open>With \<open>PID_USING_SINGAL_NEURAL\<close>: the output starts at its minimum.\<close>

definition pid_init :: "pid_control_para \<Rightarrow> pid \<Rightarrow> pid" where
  "pid_init param p = p\<lparr>pid_parm := param, out := out_min param, feedback := 0, err := 0,
     error_1 := 0, error_2 := 0\<rparr>"

definition pid_out_limit :: "pid \<Rightarrow> f32 \<Rightarrow> f32" where
  "pid_out_limit p x =
     (if f32_lt (out_max (pid_parm p)) x then out_max (pid_parm p)
      else if f32_lt x (out_min (pid_parm p)) then out_min (pid_parm p)
      else x)"

definition pid_ref_set :: "f32 \<Rightarrow> pid \<Rightarrow> pid" where
  "pid_ref_set r p = p\<lparr>pid_parm := (pid_parm p)\<lparr>ref := r\<rparr>\<rparr>"

definition pid_kp_set :: "f32 \<Rightarrow> pid \<Rightarrow> pid" where
  "pid_kp_set k p = p\<lparr>pid_parm := (pid_parm p)\<lparr>kp := k\<rparr>\<rparr>"

definition pid_ki_set :: "f32 \<Rightarrow> pid \<Rightarrow> pid" where
  "pid_ki_set k p = p\<lparr>pid_parm := (pid_parm p)\<lparr>ki := k\<rparr>\<rparr>"

definition pid_kd_set :: "f32 \<Rightarrow> pid \<Rightarrow> pid" where
  "pid_kd_set k p = p\<lparr>pid_parm := (pid_parm p)\<lparr>kd := k\<rparr>\<rparr>"

text \<open>The branch compiled without \<open>PID_USING_POSITION\<close>.\<close>

definition pid_update_feedback :: "pid \<Rightarrow> pid" where
  "pid_update_feedback p = p\<lparr>feedback := f32_sub (out p) (f32_of_int 1)\<rparr>"

text \<open>\<open>pid_position_calc\<close> reads \<open>ki_out\<close> before it is set when the error is 10 or more.\<close>

definition pid_position_calc :: "pid \<Rightarrow> f32 \<Rightarrow> pid option" where
  "pid_position_calc p feed_back =
     (let c = pid_parm p;
          fb = f32_add (feedback p) feed_back;
          e = f32_sub (ref c) fb;
          kp_out = f32_mul (kp c) e
      in if f32_lt e (f32_of_int 10) then
           let esum = f32_add (error_sum p) e;
               ki_out = f32_mul (ki c) esum;
               kd_out = f32_mul (kd c) (f32_sub e (error_1 p))
           in Some (p\<lparr>feedback := fb, err := e, error_sum := esum,
                out := f32_add (f32_add kp_out ki_out) kd_out, error_1 := e\<rparr>)
         else None)"

definition pid_incremental_calc :: "pid \<Rightarrow> f32 \<Rightarrow> pid" where
  "pid_incremental_calc p feed_back =
     (let c = pid_parm p;
          e = f32_sub (ref c) feed_back;
          kp_out = f32_mul (kp c) (f32_sub e (error_1 p));
          ki_out = f32_mul (ki c) e;
          kd_out = f32_mul (kd c)
            (f32_add (f32_sub e (f32_mul (f32_of_int 2) (error_1 p))) (error_2 p));
          o1 = f32_add (f32_add (f32_add (out p) kp_out) ki_out) kd_out
      in p\<lparr>feedback := feed_back, err := e, out := pid_out_limit p o1,
           error_2 := error_1 p, error_1 := e\<rparr>)"

text \<open>\<open>fabs(pid->error) < 0.06f\<close> compares as \<open>double\<close>, and the sum of the weights is one.\<close>

definition in_dead_band :: "f32 \<Rightarrow> bool" where
  "in_dead_band e = flt (fabs (dec32 e)) (lit fmt32 (6 / 100))"

definition weight_sum :: "f32 \<Rightarrow> f32 \<Rightarrow> f32 \<Rightarrow> f32" where
  "weight_sum a b c = enc32 (fcvt fmt32
     (fadd fmt64 (fadd fmt64 (fabs (dec32 a)) (fabs (dec32 b))) (fabs (dec32 c))))"

definition neural_gain :: "f32 \<Rightarrow> pid \<Rightarrow> f32 \<Rightarrow> f32 \<Rightarrow> f32" where
  "neural_gain k p e o1 =
     f32_mul (f32_mul (f32_mul k e) o1) (f32_sub (f32_mul (f32_of_int 2) e) (error_1 p))"

definition pid_single_neural_calc :: "pid \<times> pid_weights \<Rightarrow> f32 \<Rightarrow> pid \<times> pid_weights" where
  "pid_single_neural_calc s feed_back =
     (let p = fst s; c = pid_parm p;
          e = f32_sub (ref c) feed_back
      in if in_dead_band e then (p\<lparr>feedback := feed_back, err := e\<rparr>, snd s)
         else
           let x1 = f32_sub e (error_1 p);
               x2 = e;
               x3 = f32_add (f32_sub e (f32_mul (f32_of_int 2) (error_1 p))) (error_2 p);
               wadd = weight_sum (wkp p) (wki p) (wkd p);
               wp = f32_div (wkp p) wadd;
               wi = f32_div (wki p) wadd;
               wd = f32_div (wkd p) wadd;
               p_out = f32_mul (f32_mul (kneural c) wp) x1;
               i_out = f32_mul (f32_mul (kneural c) wi) x2;
               d_out = f32_mul (f32_mul (kneural c) wd) x3;
               o1 = pid_out_limit p (f32_add (f32_add (f32_add (out p) p_out) i_out) d_out)
           in (p\<lparr>feedback := feed_back, err := e, out := o1,
                 wkp := f32_add (wkp p) (neural_gain (kp c) p e o1),
                 wki := f32_add (wki p) (neural_gain (ki c) p e o1),
                 wkd := f32_add (wkd p) (neural_gain (kd c) p e o1),
                 error_2 := error_1 p, error_1 := e\<rparr>,
               \<lparr>g_wp = wp, g_wi = wi, g_wd = wd\<rparr>))"

text \<open>The call through the function pointer; the returned value is the new \<open>out\<close>.\<close>

definition pid_calc :: "pid \<times> pid_weights \<Rightarrow> f32 \<Rightarrow> (pid \<times> pid_weights) option" where
  "pid_calc s feed_back =
     (case calc (fst s) of
        Position \<Rightarrow> map_option (\<lambda>p. (p, snd s)) (pid_position_calc (fst s) feed_back)
      | Incremental \<Rightarrow> Some (pid_incremental_calc (fst s) feed_back, snd s)
      | Single_neural \<Rightarrow> Some (pid_single_neural_calc s feed_back))"

section \<open>The range of the output\<close>

definition in_range :: "f32 \<Rightarrow> f32 \<Rightarrow> f32 \<Rightarrow> bool" where
  "in_range lo hi x = (is_nan32 x \<or> (f32_le lo x \<and> f32_le x hi))"

definition good_limits :: "pid_control_para \<Rightarrow> bool" where
  "good_limits c = f32_le (out_min c) (out_max c)"

lemma pid_out_limit_in_range:
  assumes "good_limits (pid_parm p)"
  shows "in_range (out_min (pid_parm p)) (out_max (pid_parm p)) (pid_out_limit p x)"
proof -
  have "dec32 (out_min (pid_parm p)) \<noteq> FNaN" "dec32 (out_max (pid_parm p)) \<noteq> FNaN"
    using assms fle_not_nan unfolding good_limits_def f32_le_def by blast+
  with assms show ?thesis
    by (cases "dec32 x = FNaN")
      (auto simp: in_range_def pid_out_limit_def good_limits_def f32_le_def f32_lt_def is_nan32_def
        fle_refl fle_not_flt)
qed

lemma pid_out_limit_nan: "is_nan32 x \<Longrightarrow> pid_out_limit p x = x"
  by (cases "dec32 (out_max (pid_parm p))"; cases "dec32 (out_min (pid_parm p))")
    (simp_all add: pid_out_limit_def is_nan32_def f32_lt_def)

lemma pid_out_limit_id:
  assumes "f32_le (out_min (pid_parm p)) x" "f32_le x (out_max (pid_parm p))"
  shows "pid_out_limit p x = x"
proof -
  have "dec32 (out_min (pid_parm p)) \<noteq> FNaN" "dec32 x \<noteq> FNaN" "dec32 (out_max (pid_parm p)) \<noteq> FNaN"
    using assms fle_not_nan unfolding f32_le_def by blast+
  with assms show ?thesis by (simp add: pid_out_limit_def f32_lt_def f32_le_def fle_not_flt)
qed

lemma fadd_nan [simp]: "fadd F FNaN b = FNaN" "fadd F a FNaN = FNaN"
  by (cases a; simp)+

lemma fmul_nan [simp]: "fmul F FNaN b = FNaN" "fmul F a FNaN = FNaN"
  by (cases a; simp)+

lemma is_nan32_add: "is_nan32 a \<or> is_nan32 b \<Longrightarrow> is_nan32 (f32_add a b)"
  by (auto simp: is_nan32_def)

lemma is_nan32_mul: "is_nan32 a \<or> is_nan32 b \<Longrightarrow> is_nan32 (f32_mul a b)"
  by (auto simp: is_nan32_def)

text \<open>The contract: a step keeps the limits, keeps the output within them, and never
  recovers an output that is not a number.\<close>

locale bounded_controller =
  fixes step :: "'s \<Rightarrow> f32 \<Rightarrow> 's"
    and outp :: "'s \<Rightarrow> f32"
    and limits :: "'s \<Rightarrow> pid_control_para"
  assumes limits_step: "limits (step s x) = limits s"
    and range_step: "good_limits (limits s) \<Longrightarrow>
      in_range (out_min (limits s)) (out_max (limits s)) (outp s) \<Longrightarrow>
      in_range (out_min (limits s)) (out_max (limits s)) (outp (step s x))"
    and nan_step: "is_nan32 (outp s) \<Longrightarrow> is_nan32 (outp (step s x))"
begin

lemma limits_run: "limits (foldl step s xs) = limits s"
  by (induction xs arbitrary: s) (simp_all add: limits_step)

lemma range_run:
  "good_limits (limits s) \<Longrightarrow> in_range (out_min (limits s)) (out_max (limits s)) (outp s) \<Longrightarrow>
   in_range (out_min (limits s)) (out_max (limits s)) (outp (foldl step s xs))"
proof (induction xs arbitrary: s)
  case (Cons x xs)
  from Cons.IH[of "step s x"] range_step[OF Cons.prems] Cons.prems show ?case
    by (simp add: limits_step)
qed simp

lemma nan_run: "is_nan32 (outp s) \<Longrightarrow> is_nan32 (outp (foldl step s xs))"
  by (induction xs arbitrary: s) (simp_all add: nan_step)

lemma range_or_fault:
  "good_limits (limits s) \<Longrightarrow> in_range (out_min (limits s)) (out_max (limits s)) (outp s) \<Longrightarrow>
   \<not> is_nan32 (outp (foldl step s (xs @ ys))) \<Longrightarrow>
   f32_le (out_min (limits s)) (outp (foldl step s xs)) \<and>
   f32_le (outp (foldl step s xs)) (out_max (limits s))"
  using range_run[of s xs] nan_run[of "foldl step s xs" ys] by (auto simp: in_range_def)

end

interpretation incr: bounded_controller pid_incremental_calc out pid_parm
proof
  show "pid_parm (pid_incremental_calc s x) = pid_parm s" for s x
    by (simp add: pid_incremental_calc_def Let_def)
  show "in_range (out_min (pid_parm s)) (out_max (pid_parm s)) (out (pid_incremental_calc s x))"
    if "good_limits (pid_parm s)" for s x
    using that by (simp add: pid_incremental_calc_def Let_def pid_out_limit_in_range)
  show "is_nan32 (out (pid_incremental_calc s x))" if "is_nan32 (out s)" for s x
    using that by (simp add: pid_incremental_calc_def Let_def pid_out_limit_nan is_nan32_add)
qed

lemma neural_dead_band:
  "in_dead_band (f32_sub (ref (pid_parm (fst s))) x) \<Longrightarrow>
   pid_single_neural_calc s x =
     ((fst s)\<lparr>feedback := x, err := f32_sub (ref (pid_parm (fst s))) x\<rparr>, snd s)"
  by (simp add: pid_single_neural_calc_def Let_def)

lemma neural_out:
  "\<not> in_dead_band (f32_sub (ref (pid_parm (fst s))) x) \<Longrightarrow>
   \<exists>a b c. out (fst (pid_single_neural_calc s x)) =
     pid_out_limit (fst s) (f32_add (f32_add (f32_add (out (fst s)) a) b) c)"
  by (simp add: pid_single_neural_calc_def Let_def) blast

lemma neural_parm: "pid_parm (fst (pid_single_neural_calc s x)) = pid_parm (fst s)"
  by (simp add: pid_single_neural_calc_def Let_def)

interpretation neural: bounded_controller pid_single_neural_calc "\<lambda>s. out (fst s)" "\<lambda>s. pid_parm (fst s)"
proof
  show "pid_parm (fst (pid_single_neural_calc s x)) = pid_parm (fst s)" for s x
    by (rule neural_parm)
  fix s :: "pid \<times> pid_weights" and x
  let ?db = "in_dead_band (f32_sub (ref (pid_parm (fst s))) x)"
  show "in_range (out_min (pid_parm (fst s))) (out_max (pid_parm (fst s)))
      (out (fst (pid_single_neural_calc s x)))"
    if "good_limits (pid_parm (fst s))"
      "in_range (out_min (pid_parm (fst s))) (out_max (pid_parm (fst s))) (out (fst s))"
    using that neural_out[of s x] pid_out_limit_in_range[of "fst s"]
    by (cases ?db) (auto simp: neural_dead_band)
  show "is_nan32 (out (fst (pid_single_neural_calc s x)))" if "is_nan32 (out (fst s))"
    using that neural_out[of s x]
    by (cases ?db) (auto simp: neural_dead_band pid_out_limit_nan is_nan32_add)
qed

section \<open>Properties\<close>

lemma pid_init_in_range:
  assumes "good_limits c"
  shows "in_range (out_min c) (out_max c) (out (pid_init c p))"
proof -
  have "dec32 (out_min c) \<noteq> FNaN" using assms fle_not_nan unfolding good_limits_def f32_le_def by blast
  with assms show ?thesis by (simp add: in_range_def pid_init_def good_limits_def f32_le_def fle_refl)
qed

lemma pid_init_parm [simp]: "pid_parm (pid_init c p) = c"
  by (simp add: pid_init_def)

text \<open>From \<open>pid_init\<close> on, whatever currents are fed back and whatever the learnt
  weights have become, the output of the single neural controller is in the range of its
  limits, or is not a number.\<close>

theorem neural_output_bounded:
  "good_limits c \<Longrightarrow>
   in_range (out_min c) (out_max c) (out (fst (foldl pid_single_neural_calc (pid_init c p, g) xs)))"
  using neural.range_run[of "(pid_init c p, g)" xs] pid_init_in_range[of c p] by simp

definition example_para :: pid_control_para where
  "example_para = \<lparr>ref = f32_of_int 4, kp = f32_of_int 1, ki = f32_of_int 1, kd = f32_of_int 1,
     kneural = f32_of_int 1, out_max = f32_of_int 160, out_min = f32_of_int 20, integral_max = 0\<rparr>"

lemma example_para_limits: "good_limits example_para"
  by code_simp

definition example_pid :: pid where
  "example_pid = \<lparr>feedback = 0, out = 0, err = 0, pid_parm = example_para, error_1 = 0,
     error_2 = 0, error_sum = 0, wkp = 0, wki = 0, wkd = 0, calc = Single_neural\<rparr>"

lemma neural_output_bounded_witness:
  "in_range (f32_of_int 20) (f32_of_int 160)
     (out (fst (foldl pid_single_neural_calc
        (pid_init example_para example_pid, \<lparr>g_wp = 0, g_wi = 0, g_wd = 0\<rparr>) [0, 0x40000000])))"
  using neural_output_bounded[OF example_para_limits, of example_pid
      "\<lparr>g_wp = 0, g_wi = 0, g_wd = 0\<rparr>" "[0, 0x40000000]"]
  by (simp add: example_para_def)

text \<open>The incremental controller has the same range.\<close>

theorem incremental_output_bounded:
  "good_limits c \<Longrightarrow>
   in_range (out_min c) (out_max c) (out (foldl pid_incremental_calc (pid_init c p) xs))"
  using incr.range_run[of "pid_init c p" xs] pid_init_in_range[of c p] by simp

lemma incremental_output_bounded_witness:
  "in_range (f32_of_int 20) (f32_of_int 160)
     (out (foldl pid_incremental_calc (pid_init example_para example_pid) [0, 0x40000000]))"
  using incremental_output_bounded[OF example_para_limits, of example_pid "[0, 0x40000000]"]
  by (simp add: example_para_def)

lemma neural_zero_weights_step:
  assumes "wkp (fst s) = 0" "wki (fst s) = 0" "wkd (fst s) = 0"
    "\<not> in_dead_band (f32_sub (ref (pid_parm (fst s))) x)"
  shows "is_nan32 (out (fst (pid_single_neural_calc s x)))"
proof -
  have "dec32 (f32_div 0 (weight_sum 0 0 0)) = FNaN" by code_simp
  then have n: "is_nan32 (f32_mul (f32_mul (kneural c) (f32_div 0 (weight_sum 0 0 0))) y)" for c y
    by (simp add: is_nan32_def)
  show ?thesis using assms
    by (simp add: pid_single_neural_calc_def Let_def pid_out_limit_nan is_nan32_add n)
qed

text \<open>With all three weights zero, the first step outside the dead band divides zero by
  zero, and from then on no feedback brings the output back to a number: the limiter lets it
  through.\<close>

theorem neural_zero_weights_never_recover:
  "wkp p = 0 \<Longrightarrow> wki p = 0 \<Longrightarrow> wkd p = 0 \<Longrightarrow> \<not> in_dead_band (f32_sub (ref (pid_parm p)) x) \<Longrightarrow>
   is_nan32 (out (fst (foldl pid_single_neural_calc (p, g) (x # xs))))"
  using neural.nan_run[of "pid_single_neural_calc (p, g) x" xs] neural_zero_weights_step[of "(p, g)" x]
  by simp

lemma neural_zero_weights_never_recover_witness:
  "is_nan32 (out (fst (foldl pid_single_neural_calc (example_pid, \<lparr>g_wp = 0, g_wi = 0, g_wd = 0\<rparr>)
     [f32_of_int 1, 0x40800000, 0])))"
proof -
  have "\<not> in_dead_band (f32_sub (ref (pid_parm example_pid)) (f32_of_int 1))" by code_simp
  then show ?thesis
    using neural_zero_weights_never_recover[of example_pid "f32_of_int 1" _ "[0x40800000, 0]"]
    by (simp add: example_pid_def)
qed

end
