(* ===== verification/Board.thy ===== *)
theory Board
  imports Scr Pid
begin

text \<open>
  The global state of the firmware: the variables of applications/ and of
  libraries/gd32_drivers/drv_adc.c, grouped by the file that declares them, with the
  function-local \<open>static\<close> variables beside them.  Pins are the levels the code drives:
  \<open>mk_low\<close> is the contactor's pin held low (closed), \<open>beep_low\<close> the buzzer's.  The macros of
  alarm.h that drive them are here, since every component uses them.
\<close>

section \<open>The variables of each file\<close>

text \<open>cross_zero_check.c: \<open>struct cross_zero\<close>, the single-stable timer, the statics of the
  interrupt handler (\<open>h_ctrl_cycle\<close> is its own \<open>g_ctrl_cycle\<close>, which hides the global one).\<close>

record cross_zero =
  cz_timer :: "u32 option"
  cz_timeout :: u32
  stable_cnt :: u8
  int0_valid :: bool
  single_stable :: "u32 option"
  first_run :: bool
  even_flag :: bool
  h_ctrl_cycle :: u8
  current_view :: "u16 list"
  current_count :: u16

text \<open>alarm.c: the statics of the checks.\<close>

record alarm_cnt =
  fuse_count :: u8
  open_count :: u8
  over_wait :: u8
  strong_cnt :: u8

text \<open>drv_adc.c and adc_sample.c.  \<open>adc_value\<close> is the DMA buffer, \<open>adc_timer_on\<close> TIMER1;
  the two windows have one row per channel and hold ten readings and their average.\<close>

record adc_state =
  adc_timer_on :: bool
  adc_value :: "u16 list"
  cur_buf :: "u16 list"
  rms :: "u32 list"
  tmp_diff_result :: u32
  bm_cnt :: u8
  adc_read_data :: "u32 list"
  adc_read_voltage :: "f32 list list"
  adc_calibrate_voltage :: "u32 list list"
  adc_count :: u16

text \<open>pid_app.c.\<close>

record pid_debug =
  data_arr :: "u16 list list"
  dbg_cnt :: u16
  full_flag :: u8

record pid_app =
  pid_state :: "pid \<times> pid_weights"
  g_pid_enable :: u8
  g_ctrl_cycle :: u8
  idensity_last :: u8
  g_pid_debug_struct :: pid_debug

record sys =
  ccr :: ccr_data
  g_sys_param :: sys_param
  mk_low :: bool
  beep_low :: bool
  scr :: scr_dev
  cz :: cross_zero
  alarms :: alarm_cnt
  adc :: adc_state
  app :: pid_app

section \<open>Pins\<close>

definition RELAY_ON_NO_SET_FALG :: "sys \<Rightarrow> sys" where
  "RELAY_ON_NO_SET_FALG s = s\<lparr>mk_low := True\<rparr>"

definition RELAY_ON :: "sys \<Rightarrow> sys" where
  "RELAY_ON s = s\<lparr>mk_low := True, ccr := SET_SYS_STATUS_BIT RELAY_STATUS_POS (ccr s)\<rparr>"

definition RELAY_OFF :: "sys \<Rightarrow> sys" where
  "RELAY_OFF s = s\<lparr>mk_low := False, ccr := CLR_SYS_STATUS_BIT RELAY_STATUS_POS (ccr s)\<rparr>"

definition BEEP_ON :: "sys \<Rightarrow> sys" where "BEEP_ON s = s\<lparr>beep_low := True\<rparr>"
definition BEEP_OFF :: "sys \<Rightarrow> sys" where "BEEP_OFF s = s\<lparr>beep_low := False\<rparr>"

text \<open>The comparison of the status bit with \<open>RELAY_STATUS_ON\<close>, and what a healthy contactor
  is: the pin and the status bit agree.\<close>

definition relay_is_on :: "sys \<Rightarrow> bool" where
  "relay_is_on s = (RELAY_STATUS_ON = GET_SYS_STATUS_BIT RELAY_STATUS_POS (ccr s))"

definition relay_is_off :: "sys \<Rightarrow> bool" where
  "relay_is_off s = (RELAY_STATUS_OFF = GET_SYS_STATUS_BIT RELAY_STATUS_POS (ccr s))"

lemma relay_bit: "get_bit16 0 w = (if bit w 0 then 1 else 0)"
  by (rule bit_word_eqI) (auto simp: get_bit16_def bit_simps intro!: gr0I)

lemma relay_is_off_iff: "relay_is_off s \<longleftrightarrow> \<not> relay_is_on s"
  by (simp add: relay_is_off_def relay_is_on_def GET_SYS_STATUS_BIT_def RELAY_STATUS_POS_def
      RELAY_STATUS_OFF_def RELAY_STATUS_ON_def relay_bit)

lemma relay_is_on_iff: "relay_is_on s \<longleftrightarrow> bit (run_status (ccr s)) 0"
  by (simp add: relay_is_on_def GET_SYS_STATUS_BIT_def RELAY_STATUS_POS_def
      RELAY_STATUS_ON_def relay_bit)

lemma bit_set_clr_16:
  "bit (set_bit16 n w) m \<longleftrightarrow> bit w m \<or> (m = n \<and> n < 16)"
  "bit (clr_bit16 n w) m \<longleftrightarrow> bit w m \<and> m \<noteq> n"
  by (auto simp: set_bit16_def clr_bit16_def bit_simps dest: bit_imp_le_length)

lemma relay_on_off [simp]:
  "relay_is_on (RELAY_ON s)" "\<not> relay_is_on (RELAY_OFF s)"
  "mk_low (RELAY_ON s)" "\<not> mk_low (RELAY_OFF s)"
  by (simp_all add: relay_is_on_iff RELAY_ON_def RELAY_OFF_def SET_SYS_STATUS_BIT_def
      CLR_SYS_STATUS_BIT_def RELAY_STATUS_POS_def bit_set_clr_16)

lemma relay_off_other [simp]:
  "status (ccr (RELAY_OFF s)) = status (ccr s)" "angle (ccr (RELAY_OFF s)) = angle (ccr s)"
  "intensity (ccr (RELAY_OFF s)) = intensity (ccr s)" "app (RELAY_OFF s) = app s"
  "scr (RELAY_OFF s) = scr s" "cz (RELAY_OFF s) = cz s" "adc (RELAY_OFF s) = adc s"
  "alarms (RELAY_OFF s) = alarms s" "g_sys_param (RELAY_OFF s) = g_sys_param s"
  by (simp_all add: RELAY_OFF_def CLR_SYS_STATUS_BIT_def)

end
