(* ===== verification/Alarm.thy ===== *)
theory Alarm
  imports Board
begin

text \<open>
  applications/alarm.c and alarm.h: the fault checks the sampling thread runs every 20 ms
  on the averaged load current and thyristor voltage, each with its debounce counter, and
  the alarm word they set.  The thresholds are C expressions of \<open>float\<close> literals, rounded
  operator by operator.  The lemmas say which runs of readings raise which alarm: the
  over-current and open-circuit alarms after their count of consecutive readings and never
  before, and that a sustained strong over-current, whose branch tests the other branch's
  counter, never raises its alarm.
\<close>

section \<open>Alarm codes and thresholds\<close>

definition MagneticBiascode :: nat where "MagneticBiascode = 1"
definition SCRFaultcode :: nat where "SCRFaultcode = 2"
definition FuseFaultcode :: nat where "FuseFaultcode = 3"
definition CirOpen100pcode :: nat where "CirOpen100pcode = 5"
definition CirOverCurcode :: nat where "CirOverCurcode = 6"
definition CirStrongOverCurcode :: nat where "CirStrongOverCurcode = 7"

definition ACVoltage :: f32 where "ACVoltage = f32_lit 220"
definition CCRCurrentSeries :: f32 where "CCRCurrentSeries = f32_lit (66 / 10)"

definition SCRFaultAlarmValue :: f32 where
  "SCRFaultAlarmValue = f32_mul (f32_mul ACVoltage (f32_lit (65 / 100))) (f32_of_int 10)"
definition FuseFaultAlarmValue :: f32 where
  "FuseFaultAlarmValue = f32_mul (f32_mul ACVoltage (f32_lit (2 / 10))) (f32_of_int 10)"
definition CirOpenVoltageValue :: f32 where
  "CirOpenVoltageValue = f32_mul (f32_mul ACVoltage (f32_lit (5 / 10))) (f32_of_int 10)"
definition CirOpenCurrentValue :: f32 where
  "CirOpenCurrentValue = f32_mul (f32_mul CCRCurrentSeries (f32_lit (15 / 100))) (f32_of_int 100)"
definition OverCurAlarmValue :: f32 where
  "OverCurAlarmValue = f32_mul (f32_mul CCRCurrentSeries (f32_lit (105 / 100))) (f32_of_int 100)"
definition StrongOverCurAlarmValue :: f32 where
  "StrongOverCurAlarmValue = f32_mul (f32_mul CCRCurrentSeries (f32_lit (125 / 100))) (f32_of_int 100)"

text \<open>\<open>MaxPassTime\<close> and \<open>MaxPassAngle\<close> of cross_zero_check.h.\<close>

definition minTrigTime :: f32 where
  "minTrigTime = f32_add (f32_lit 1) (f32_lit (1 / 10))"

definition MaxPassTime :: "f32 \<Rightarrow> f32" where
  "MaxPassTime tint0 = f32_sub tint0 (f32_mul minTrigTime (f32_of_int 1000))"

definition MaxPassAngle :: "f32 \<Rightarrow> f32" where
  "MaxPassAngle tint0 = f32_div (f32_mul (f32_lit 180) (MaxPassTime tint0)) tint0"

section \<open>The checks\<close>

definition alarm_set :: "nat \<Rightarrow> sys \<Rightarrow> bool" where
  "alarm_set n s = (GET_ALARM_STATUS_BIT n (ccr s) \<noteq> 0)"

definition raise_alarm :: "nat \<Rightarrow> sys \<Rightarrow> sys" where
  "raise_alarm n s = s\<lparr>ccr := SET_ALARM_STATUS_BIT n (ccr s)\<rparr>"

definition Check_SCR :: "f32 \<Rightarrow> sys \<Rightarrow> sys" where
  "Check_SCR rUrms s =
     (if alarm_set SCRFaultcode s then s
      else if f32_le (angle (ccr s)) (f32_of_int MIN_PASS_ANGLE) \<and> f32_le SCRFaultAlarmValue rUrms
      then raise_alarm SCRFaultcode s else s)"

definition Check_Fuse :: "f32 \<Rightarrow> f32 \<Rightarrow> sys \<Rightarrow> sys" where
  "Check_Fuse rUrms tint0 s =
     (if \<not> int0_valid (cz s) then s
      else if alarm_set FuseFaultcode s then s
      else if f32_le (f32_mul (f32_lit (5 / 10)) (MaxPassAngle tint0)) (angle (ccr s)) \<and>
              f32_le rUrms FuseFaultAlarmValue
      then let s = raise_alarm FuseFaultcode s;
               c = fuse_count (alarms s) + 1
           in if 75 \<le> c then raise_alarm CirOpen100pcode (s\<lparr>alarms := (alarms s)\<lparr>fuse_count := 0\<rparr>\<rparr>)
              else s\<lparr>alarms := (alarms s)\<lparr>fuse_count := c\<rparr>\<rparr>
      else s\<lparr>alarms := (alarms s)\<lparr>fuse_count := 0\<rparr>\<rparr>)"

definition Check_CircuitOpen :: "f32 \<Rightarrow> f32 \<Rightarrow> sys \<Rightarrow> sys" where
  "Check_CircuitOpen rUrms rIrms s =
     (if \<not> int0_valid (cz s) then s
      else if f32_le rIrms CirOpenCurrentValue \<and> f32_le CirOpenVoltageValue rUrms
      then let c = open_count (alarms s) + 1
           in if 75 \<le> c then raise_alarm CirOpen100pcode (s\<lparr>alarms := (alarms s)\<lparr>open_count := 0\<rparr>\<rparr>)
              else s\<lparr>alarms := (alarms s)\<lparr>open_count := c\<rparr>\<rparr>
      else s\<lparr>alarms := (alarms s)\<lparr>open_count := 0\<rparr>\<rparr>)"

definition OverCurNum :: u8 where "OverCurNum = 200"
definition StrongOverNum :: u8 where "StrongOverNum = 40"

text \<open>The second branch counts in \<open>strongOverCnt\<close> and tests \<open>gOverCurWaitCTC\<close>, as the code does.\<close>

definition check_i_load :: "f32 \<Rightarrow> sys \<Rightarrow> sys" where
  "check_i_load rIrms s =
     (if f32_le OverCurAlarmValue rIrms \<and> f32_lt rIrms StrongOverCurAlarmValue \<and>
         \<not> alarm_set CirOverCurcode s
      then let c = over_wait (alarms s) + 1
           in if OverCurNum \<le> c
              then raise_alarm CirOverCurcode (s\<lparr>alarms := (alarms s)\<lparr>over_wait := 0\<rparr>\<rparr>)
              else s\<lparr>alarms := (alarms s)\<lparr>over_wait := c\<rparr>\<rparr>
      else if f32_le StrongOverCurAlarmValue rIrms \<and> \<not> alarm_set CirStrongOverCurcode s
      then let s = s\<lparr>alarms := (alarms s)\<lparr>strong_cnt := strong_cnt (alarms s) + 1\<rparr>\<rparr>
           in if StrongOverNum \<le> over_wait (alarms s) then raise_alarm CirStrongOverCurcode s else s
      else s\<lparr>alarms := (alarms s)\<lparr>over_wait := 0, strong_cnt := 0\<rparr>\<rparr>)"

definition alarm_init :: "sys \<Rightarrow> sys" where
  "alarm_init s = s\<lparr>beep_low := False, mk_low := False\<rparr>"

section \<open>Alarms under the operations\<close>

lemma alarm_set_raise: "m < 16 \<Longrightarrow> n < 16 \<Longrightarrow> alarm_set m (raise_alarm n s) \<longleftrightarrow> m = n \<or> alarm_set m s"
  by (cases "m = n") (simp_all add: alarm_set_def raise_alarm_def GET_ALARM_STATUS_BIT_def
      SET_ALARM_STATUS_BIT_def get_set_bit16_other)

lemma alarm_set_cnt [simp]: "alarm_set m (s\<lparr>alarms := a\<rparr>) = alarm_set m s"
  by (simp add: alarm_set_def)

lemma raise_alarm_other [simp]:
  "alarms (raise_alarm n s) = alarms s" "cz (raise_alarm n s) = cz s"
  "intensity (ccr (raise_alarm n s)) = intensity (ccr s)" "mk_low (raise_alarm n s) = mk_low s"
  by (simp_all add: raise_alarm_def SET_ALARM_STATUS_BIT_def)

lemma uint8_inc: "unat (c :: u8) < 255 \<Longrightarrow> unat (c + 1) = unat c + 1"
  by (simp add: unat_word_ariths)

lemmas alarm_codes = FuseFaultcode_def SCRFaultcode_def CirOpen100pcode_def CirOverCurcode_def
  CirStrongOverCurcode_def

text \<open>A debounced alarm: \<open>limit\<close> readings that hit, with nothing else between them that resets
  the counter, raise it; it is raised by nothing else, and stays.\<close>

locale debounce =
  fixes step :: "'s \<Rightarrow> 'r \<Rightarrow> 's"
    and live :: "'s \<Rightarrow> bool"
    and hit :: "'r \<Rightarrow> bool"
    and cnt :: "'s \<Rightarrow> nat"
    and alarm :: "'s \<Rightarrow> bool"
    and limit :: nat
  assumes live_step: "live s \<Longrightarrow> live (step s r)"
    and count_step: "live s \<Longrightarrow> hit r \<Longrightarrow> \<not> alarm s \<Longrightarrow> cnt s + 1 < limit \<Longrightarrow>
      cnt (step s r) = cnt s + 1 \<and> \<not> alarm (step s r)"
    and trip_step: "live s \<Longrightarrow> hit r \<Longrightarrow> \<not> alarm s \<Longrightarrow> cnt s + 1 = limit \<Longrightarrow> alarm (step s r)"
    and latch_step: "alarm s \<Longrightarrow> alarm (step s r)"
    and quiet_step: "live s \<Longrightarrow> \<not> hit r \<Longrightarrow> \<not> alarm s \<Longrightarrow>
      \<not> alarm (step s r) \<and> cnt (step s r) \<le> cnt s"
begin

lemma latched: "alarm s \<Longrightarrow> alarm (foldl step s rs)"
  by (induction rs arbitrary: s) (simp_all add: latch_step)

lemma trips:
  "live s \<Longrightarrow> \<not> alarm s \<Longrightarrow> cnt s < limit \<Longrightarrow> list_all hit rs \<Longrightarrow>
   alarm (foldl step s rs) \<longleftrightarrow> limit \<le> cnt s + length rs"
proof (induction rs arbitrary: s)
  case (Cons r rs)
  show ?case
  proof (cases "cnt s + 1 = limit")
    case True
    with Cons.prems have "alarm (step s r)" by (simp add: trip_step)
    with True latched[of "step s r" rs] show ?thesis by simp
  next
    case False
    with Cons.prems have "cnt (step s r) = cnt s + 1 \<and> \<not> alarm (step s r)"
      by (intro count_step) auto
    with Cons False show ?thesis by (simp add: live_step)
  qed
qed simp

lemma needs_hits:
  "live s \<Longrightarrow> \<not> alarm s \<Longrightarrow> cnt s < limit \<Longrightarrow> alarm (foldl step s rs) \<Longrightarrow>
   limit \<le> cnt s + length (filter hit rs)"
proof (induction rs arbitrary: s)
  case (Cons r rs)
  show ?case
  proof (cases "hit r")
    case True
    show ?thesis
    proof (cases "cnt s + 1 = limit")
      case False
      with Cons.prems True have "cnt (step s r) = cnt s + 1 \<and> \<not> alarm (step s r)"
        by (intro count_step) auto
      with Cons.IH[of "step s r"] Cons.prems False True show ?thesis by (simp add: live_step)
    qed (use True in simp)
  next
    case False
    with quiet_step[of s r] Cons.prems have "\<not> alarm (step s r) \<and> cnt (step s r) \<le> cnt s" by blast
    with Cons.IH[of "step s r"] Cons.prems False show ?thesis by (simp add: live_step)
  qed
qed simp

end

text \<open>The readings that count: over-current, and an open circuit (no current at a high
  thyristor voltage).\<close>

definition over_current :: "f32 \<Rightarrow> bool" where
  "over_current r = (f32_le OverCurAlarmValue r \<and> f32_lt r StrongOverCurAlarmValue)"

definition strong_over_current :: "f32 \<Rightarrow> bool" where
  "strong_over_current r = f32_le StrongOverCurAlarmValue r"

definition circuit_open :: "f32 \<times> f32 \<Rightarrow> bool" where
  "circuit_open r = (f32_le (snd r) CirOpenCurrentValue \<and> f32_le CirOpenVoltageValue (fst r))"

lemma strong_not_over: "strong_over_current r \<Longrightarrow> \<not> over_current r"
  unfolding strong_over_current_def over_current_def f32_le_def f32_lt_def
  using fle_flt_trans flt_irrefl by blast

lemma check_i_load_branches:
  "over_current r \<Longrightarrow> \<not> alarm_set CirOverCurcode s \<Longrightarrow> check_i_load r s =
    (if OverCurNum \<le> over_wait (alarms s) + 1
     then raise_alarm CirOverCurcode (s\<lparr>alarms := (alarms s)\<lparr>over_wait := 0\<rparr>\<rparr>)
     else s\<lparr>alarms := (alarms s)\<lparr>over_wait := over_wait (alarms s) + 1\<rparr>\<rparr>)"
  "strong_over_current r \<Longrightarrow> \<not> alarm_set CirStrongOverCurcode s \<Longrightarrow> check_i_load r s =
    (let t = s\<lparr>alarms := (alarms s)\<lparr>strong_cnt := strong_cnt (alarms s) + 1\<rparr>\<rparr>
     in if StrongOverNum \<le> over_wait (alarms s) then raise_alarm CirStrongOverCurcode t else t)"
  using strong_not_over[of r]
  by (auto simp: check_i_load_def over_current_def strong_over_current_def Let_def)

text \<open>Off the over-current range, or with its alarm up, the counter falls back or stays and
  the alarm is not touched.\<close>

lemma check_i_load_quiet:
  "\<not> over_current r \<or> alarm_set CirOverCurcode s \<Longrightarrow>
   alarm_set CirOverCurcode (check_i_load r s) = alarm_set CirOverCurcode s \<and>
   unat (over_wait (alarms (check_i_load r s))) \<le> unat (over_wait (alarms s))"
  by (auto simp: check_i_load_def over_current_def Let_def alarm_set_raise alarm_codes)

interpretation over_cur: debounce "\<lambda>s r. check_i_load r s" "\<lambda>s. True" over_current
  "\<lambda>s. unat (over_wait (alarms s))" "alarm_set CirOverCurcode" 200
proof
  fix s :: sys and r :: f32
  let ?c = "over_wait (alarms s)"
  show "unat (over_wait (alarms (check_i_load r s))) = unat ?c + 1 \<and> \<not> alarm_set CirOverCurcode (check_i_load r s)"
    if "over_current r" "\<not> alarm_set CirOverCurcode s" "unat ?c + 1 < 200"
    using that uint8_inc[of ?c]
    by (simp add: check_i_load_branches OverCurNum_def word_le_nat_alt)
  show "alarm_set CirOverCurcode (check_i_load r s)"
    if "over_current r" "\<not> alarm_set CirOverCurcode s" "unat ?c + 1 = 200"
    using that uint8_inc[of ?c]
    by (simp add: check_i_load_branches OverCurNum_def word_le_nat_alt alarm_set_raise alarm_codes)
  show "alarm_set CirOverCurcode (check_i_load r s)" if "alarm_set CirOverCurcode s"
    using that check_i_load_quiet[of r s] by blast
  show "\<not> alarm_set CirOverCurcode (check_i_load r s) \<and> unat (over_wait (alarms (check_i_load r s))) \<le> unat ?c"
    if "\<not> over_current r" "\<not> alarm_set CirOverCurcode s"
    using that check_i_load_quiet[of r s] by blast
qed simp

interpretation open_circuit: debounce "\<lambda>s r. Check_CircuitOpen (fst r) (snd r) s" "\<lambda>s. int0_valid (cz s)"
  circuit_open "\<lambda>s. unat (open_count (alarms s))" "alarm_set CirOpen100pcode" 75
proof
  fix s :: sys and r :: "f32 \<times> f32"
  let ?c = "open_count (alarms s)" and ?s = "Check_CircuitOpen (fst r) (snd r) s"
  show "int0_valid (cz ?s)" if "int0_valid (cz s)"
    using that by (simp add: Check_CircuitOpen_def Let_def)
  show "unat (open_count (alarms ?s)) = unat ?c + 1 \<and> \<not> alarm_set CirOpen100pcode ?s"
    if "int0_valid (cz s)" "circuit_open r" "\<not> alarm_set CirOpen100pcode s" "unat ?c + 1 < 75"
    using that uint8_inc[of ?c]
    by (simp add: Check_CircuitOpen_def circuit_open_def word_le_nat_alt Let_def)
  show "alarm_set CirOpen100pcode ?s"
    if "int0_valid (cz s)" "circuit_open r" "\<not> alarm_set CirOpen100pcode s" "unat ?c + 1 = 75"
    using that uint8_inc[of ?c]
    by (simp add: Check_CircuitOpen_def circuit_open_def word_le_nat_alt Let_def alarm_set_raise alarm_codes)
  show "alarm_set CirOpen100pcode ?s" if "alarm_set CirOpen100pcode s"
    using that by (simp add: Check_CircuitOpen_def Let_def alarm_set_raise alarm_codes)
  show "\<not> alarm_set CirOpen100pcode ?s \<and> unat (open_count (alarms ?s)) \<le> unat ?c"
    if "int0_valid (cz s)" "\<not> circuit_open r" "\<not> alarm_set CirOpen100pcode s"
    using that by (auto simp: Check_CircuitOpen_def circuit_open_def)
qed

section \<open>Properties\<close>

text \<open>A controller after start-up, for the concrete runs.\<close>

definition sys0 :: sys where
  "sys0 = \<lparr>ccr = ccr_zero, g_sys_param = \<lparr>sp_on_off = 0, sp_ctrl_mode = 0, sp_intensity = 0,
      sp_run_time_lv1 = 0, sp_run_time_lv2 = 0, sp_run_time_lv3 = 0, sp_run_time_lv4 = 0,
      sp_run_time_lv5 = 0, sp_run_time_avg_lv5 = 0, sp_pad = 0, sp_In_a = 0, sp_In_b = 0,
      sp_Un_a = 0, sp_Un_b = 0, sp_Uload_a = 0, sp_Uload_b = 0\<rparr>,
    mk_low = False, beep_low = False,
    scr = \<lparr>triger_angle_timer = None, timer_1ms = None, triger_angle_delay = 0,
      timer_1ms_delay = 1000, pwm_on = False\<rparr>,
    cz = \<lparr>cz_timer = None, cz_timeout = 10526, stable_cnt = 0, int0_valid = True,
      single_stable = None, first_run = True, even_flag = False, h_ctrl_cycle = 2,
      current_view = replicate 20 0, current_count = 0\<rparr>,
    alarms = \<lparr>fuse_count = 0, open_count = 0, over_wait = 0, strong_cnt = 0\<rparr>,
    adc = \<lparr>adc_timer_on = False, adc_value = replicate 1200 0, cur_buf = replicate 1200 0,
      rms = [0, 0, 0], tmp_diff_result = 0, bm_cnt = 0, adc_read_data = [0, 0, 0],
      adc_read_voltage = replicate 3 (replicate 11 0),
      adc_calibrate_voltage = replicate 3 (replicate 11 0), adc_count = 0\<rparr>,
    app = \<lparr>pid_state = (example_pid, \<lparr>g_wp = 0, g_wi = 0, g_wd = 0\<rparr>), g_pid_enable = 1,
      g_ctrl_cycle = 0, idensity_last = 0,
      g_pid_debug_struct = \<lparr>data_arr = replicate 5 (replicate 75 0), dbg_cnt = 0, full_flag = 0\<rparr>\<rparr>\<rparr>"

lemma ccr_zero_status [simp]: "status ccr_zero = 0" "run_status ccr_zero = 0" "angle ccr_zero = 0"
  "intensity ccr_zero = 0"
  by code_simp+

lemma sys0_start [simp]:
  "\<not> alarm_set n sys0" "alarms sys0 = \<lparr>fuse_count = 0, open_count = 0, over_wait = 0, strong_cnt = 0\<rparr>"
  "int0_valid (cz sys0)"
  by (simp_all add: sys0_def alarm_set_def GET_ALARM_STATUS_BIT_def get_bit16_def)

text \<open>A load current held in the over-current band raises the over-current alarm at
  exactly the two hundredth reading (4 s at one reading per 20 ms), and not before.\<close>

theorem over_current_trips_after_200:
  assumes "\<not> alarm_set CirOverCurcode s" "over_wait (alarms s) = 0" "list_all over_current rs"
  shows "alarm_set CirOverCurcode (foldl (\<lambda>s r. check_i_load r s) s rs) \<longleftrightarrow> 200 \<le> length rs"
  using over_cur.trips[of s rs] assms by simp

lemma over_current_700: "over_current (f32_of_int 700)" "\<not> strong_over_current (f32_of_int 700)"
  by code_simp+

lemma over_current_trips_after_200_witness:
  "alarm_set CirOverCurcode (foldl (\<lambda>s r. check_i_load r s) sys0 (replicate 200 (f32_of_int 700)))"
  using over_current_trips_after_200[of sys0 "replicate 200 (f32_of_int 700)"]
  by (simp add: over_current_700 list_all_length)

text \<open>Whatever the other readings are, an over-current alarm is never raised by fewer
  than 200 readings in the over-current band since its counter was zero.\<close>

theorem over_current_needs_200:
  assumes "\<not> alarm_set CirOverCurcode s" "over_wait (alarms s) = 0"
    "alarm_set CirOverCurcode (foldl (\<lambda>s r. check_i_load r s) s rs)"
  shows "200 \<le> length (filter over_current rs)"
  using over_cur.needs_hits[of s rs] assms by simp

lemma over_current_needs_200_witness:
  "200 \<le> length (filter over_current (f32_of_int 100 # replicate 200 (f32_of_int 700)))"
proof (rule over_current_needs_200[of sys0])
  have low: "\<not> f32_le OverCurAlarmValue (f32_of_int 100)" "\<not> f32_le StrongOverCurAlarmValue (f32_of_int 100)"
    by code_simp+
  have "check_i_load (f32_of_int 100) sys0 = sys0"
    using low by (simp add: check_i_load_def)
  then show "alarm_set CirOverCurcode (foldl (\<lambda>s r. check_i_load r s) sys0
      (f32_of_int 100 # replicate 200 (f32_of_int 700)))"
    using over_cur.trips[of sys0 "replicate 200 (f32_of_int 700)"]
    by (simp add: over_current_700 list_all_length)
qed simp_all

lemma strong_step:
  assumes "strong_over_current r" "\<not> alarm_set CirStrongOverCurcode s" "over_wait (alarms s) < 40"
  shows "\<not> alarm_set CirStrongOverCurcode (check_i_load r s) \<and>
    over_wait (alarms (check_i_load r s)) = over_wait (alarms s) \<and>
    alarm_set CirOverCurcode (check_i_load r s) = alarm_set CirOverCurcode s"
  using assms by (simp add: check_i_load_branches StrongOverNum_def Let_def not_le[symmetric])

text \<open>C40: a strong over-current that sets in from rest is never reported: its branch counts
  in one counter and tests the other, so neither the strong nor the plain over-current
  alarm is raised, however long the current stays there.\<close>

theorem strong_over_current_never_trips:
  assumes "\<not> alarm_set CirStrongOverCurcode s" "over_wait (alarms s) < 40"
    "list_all strong_over_current rs"
  shows "\<not> alarm_set CirStrongOverCurcode (foldl (\<lambda>s r. check_i_load r s) s rs) \<and>
    alarm_set CirOverCurcode (foldl (\<lambda>s r. check_i_load r s) s rs) = alarm_set CirOverCurcode s"
  using assms
proof (induction rs arbitrary: s)
  case (Cons r rs)
  then show ?case using strong_step[of r s] by simp
qed simp

lemma strong_over_current_never_trips_witness:
  "\<not> alarm_set CirStrongOverCurcode (foldl (\<lambda>s r. check_i_load r s) sys0 (replicate 1000 (f32_of_int 5000)))"
proof -
  have "strong_over_current (f32_of_int 5000)" by code_simp
  then show ?thesis
    using strong_over_current_never_trips[of sys0 "replicate 1000 (f32_of_int 5000)"]
    by (simp add: list_all_length)
qed

text \<open>An open circuit (at most 0.99 A at 110 V or more) raises its alarm at exactly the
  seventy-fifth consecutive reading while the zero crossing is valid.\<close>

theorem open_circuit_trips_after_75:
  assumes "int0_valid (cz s)" "\<not> alarm_set CirOpen100pcode s" "open_count (alarms s) = 0"
    "list_all circuit_open rs"
  shows "alarm_set CirOpen100pcode (foldl (\<lambda>s r. Check_CircuitOpen (fst r) (snd r) s) s rs) \<longleftrightarrow>
    75 \<le> length rs"
  using open_circuit.trips[of s rs] assms by simp

lemma open_circuit_trips_after_75_witness:
  "alarm_set CirOpen100pcode (foldl (\<lambda>s r. Check_CircuitOpen (fst r) (snd r) s) sys0
     (replicate 75 (f32_of_int 1500, f32_of_int 50)))"
proof -
  have "circuit_open (f32_of_int 1500, f32_of_int 50)" by code_simp
  then show ?thesis
    using open_circuit_trips_after_75[of sys0 "replicate 75 (f32_of_int 1500, f32_of_int 50)"]
    by (simp add: list_all_length)
qed

lemma fuse_step:
  assumes "fuse_count (alarms s) = 0 \<or> alarm_set FuseFaultcode s"
  shows "(fuse_count (alarms (Check_Fuse u t s)) = 0 \<or> alarm_set FuseFaultcode (Check_Fuse u t s)) \<and>
    alarm_set CirOpen100pcode (Check_Fuse u t s) = alarm_set CirOpen100pcode s"
  using assms by (auto simp: Check_Fuse_def Let_def alarm_set_raise alarm_codes word_le_nat_alt)

text \<open>The open-circuit alarm that the fuse check means to raise after 75 faulty readings
  is never raised by it: the first faulty reading latches the fuse alarm, and every later
  call returns before it counts.\<close>

theorem fuse_check_never_reports_open_circuit:
  assumes "fuse_count (alarms s) = 0"
  shows "alarm_set CirOpen100pcode (foldl (\<lambda>s r. Check_Fuse (fst r) (snd r) s) s rs) =
    alarm_set CirOpen100pcode s"
proof -
  have "(fuse_count (alarms s) = 0 \<or> alarm_set FuseFaultcode s) \<Longrightarrow>
      alarm_set CirOpen100pcode (foldl (\<lambda>s r. Check_Fuse (fst r) (snd r) s) s rs) =
      alarm_set CirOpen100pcode s" for s
    by (induction rs arbitrary: s) (simp_all add: fuse_step)
  with assms show ?thesis by simp
qed

lemma fuse_check_never_reports_open_circuit_witness:
  "\<not> alarm_set CirOpen100pcode (foldl (\<lambda>s r. Check_Fuse (fst r) (snd r) s) sys0 (replicate 100 (0, 0)))"
  using fuse_check_never_reports_open_circuit[of sys0 "replicate 100 (0, 0)"] by simp

end
