(* ===== verification/Adc.thy ===== *)
theory Adc
  imports Alarm
begin

text \<open>
  libraries/gd32_drivers/drv_adc.c and applications/adc_sample.c: the measuring chain.  The
  DMA buffer holds 400 samples of three interleaved 12-bit channels; \<open>cal_rms\<close> takes the
  root mean square of each channel about \<open>VREFCONST\<close>, \<open>get_rms\<close> calibrates it and keeps a
  window of ten values with their average, and the sampling thread runs the alarm checks.
  Sums wrap at 32 bits as in C, \<open>tmp * tmp\<close> overflowing \<open>int\<close> is undefined (\<open>None\<close>), and so
  is a calibrated value outside \<open>rt_uint32_t\<close>.  The square root is taken on \<open>double\<close>, which
  holds every 32-bit integer and rounds correctly, so its truncation is the integer root.
\<close>

section \<open>Root mean square\<close>

definition SAMPLES :: nat where "SAMPLES = 400"
definition VREFCONST :: int where "VREFCONST = 1861"
definition BM_THRESHOLD :: u32 where "BM_THRESHOLD = 150"

text \<open>The integer part of a square root, bit by bit from \<open>2 ^ k\<close>.\<close>

fun isqrt_from :: "nat \<Rightarrow> int \<Rightarrow> int \<Rightarrow> int" where
  "isqrt_from 0 r n = r"
| "isqrt_from (Suc k) r n = (let q = r + 2 ^ k in isqrt_from k (if q * q \<le> n then q else r) n)"

definition isqrt :: "u32 \<Rightarrow> u32" where
  "isqrt n = word_of_int (isqrt_from 16 0 (uint n))"

text \<open>One channel's sums and counts: the positive and the negative half wave.\<close>

record chan =
  s_pos :: u32
  s_neg :: u32
  c_pos :: u16
  c_neg :: u16

definition cal_rms_sample :: "u16 \<Rightarrow> chan \<Rightarrow> chan option" where
  "cal_rms_sample x c =
     (let tmp = uint x - VREFCONST; sq = tmp * tmp
      in if 2 ^ 31 \<le> sq then None
         else if 0 < tmp then Some (c\<lparr>s_pos := s_pos c + word_of_int sq, c_pos := c_pos c + 1\<rparr>)
         else Some (c\<lparr>s_neg := s_neg c + word_of_int sq, c_neg := c_neg c + 1\<rparr>))"

fun cal_rms_loop :: "u16 list \<Rightarrow> chan \<times> chan \<times> chan \<Rightarrow> (chan \<times> chan \<times> chan) option" where
  "cal_rms_loop (x # y # z # xs) (a, b, c) =
     do { a \<leftarrow> cal_rms_sample x a; b \<leftarrow> cal_rms_sample y b; c \<leftarrow> cal_rms_sample z c;
          cal_rms_loop xs (a, b, c) }"
| "cal_rms_loop _ s = Some s"

definition chan0 :: chan where
  "chan0 = \<lparr>s_pos = 0, s_neg = 0, c_pos = 0, c_neg = 0\<rparr>"

definition chan_rms :: "chan \<Rightarrow> u32" where
  "chan_rms c = isqrt ((s_pos c + s_neg c) div of_nat SAMPLES)"

definition bias_diff :: "chan \<Rightarrow> u32" where
  "bias_diff c = isqrt ((if s_neg c < s_pos c then s_pos c - s_neg c else s_neg c - s_pos c)
                        div of_nat SAMPLES)"

definition cal_rms :: "u16 list \<Rightarrow> sys \<Rightarrow> sys option" where
  "cal_rms cur s =
     (case cal_rms_loop (take (3 * SAMPLES) cur) (chan0, chan0, chan0) of
        None \<Rightarrow> None
      | Some (a, b, c) \<Rightarrow>
          let d = bias_diff b;
              n = (if GET_SYS_STATUS_BIT RELAY_STATUS_POS (ccr s) \<noteq> 0 \<and> BM_THRESHOLD < d
                   then (let k = bm_cnt (adc s) + 1 in if 4 \<le> k then 0 else k)
                   else 0)
          in Some (s\<lparr>adc := (adc s)\<lparr>rms := [chan_rms a, chan_rms b, chan_rms c],
                      tmp_diff_result := d, bm_cnt := n\<rparr>\<rparr>))"

text \<open>\<open>gd32_adc_convert\<close> behind \<open>rt_adc_read\<close>, and \<open>get_dma_data\<close>.\<close>

definition rt_adc_read :: "nat \<Rightarrow> sys \<Rightarrow> u32" where
  "rt_adc_read ch s = rms (adc s) ! ch"

definition get_dma_data :: "sys \<Rightarrow> sys" where
  "get_dma_data s = s\<lparr>adc := (adc s)\<lparr>cur_buf := take (3 * SAMPLES) (adc_value (adc s))\<rparr>\<rparr>"

section \<open>Calibration and the moving window\<close>

datatype rms_type = E_U_SCR_RMS | E_U_LOAD_RMS | E_I_RMS

definition chan_ix :: "rms_type \<Rightarrow> nat" where
  "chan_ix t = (case t of E_U_SCR_RMS \<Rightarrow> 0 | E_U_LOAD_RMS \<Rightarrow> 1 | E_I_RMS \<Rightarrow> 2)"

definition CCR_MOVE_WINDOW_SIZE :: nat where "CCR_MOVE_WINDOW_SIZE = 10"

definition read_voltage :: "u32 \<Rightarrow> f32" where
  "read_voltage x = f32_mul (f32_div (f32_mul (f32_of_int (uint x)) (f32_of_int 1)) (f32_of_int 4095))
     (f32_lit (33 / 10))"

definition calibrate :: "rms_type \<Rightarrow> ccr_data \<Rightarrow> f32 \<Rightarrow> u32 option" where
  "calibrate t d v =
     (case t of
        E_I_RMS \<Rightarrow> fp_to_u32 (dec32 (f32_mul (f32_add (f32_mul v (In_a d)) (In_b d)) (f32_of_int 100)))
      | _ \<Rightarrow> fp_to_u32 (dec32 (f32_mul (f32_add (f32_mul v (Un_a d)) (Un_b d)) (f32_of_int 10))))"

definition window_sum :: "u32 list \<Rightarrow> u32" where
  "window_sum w = foldl (+) 0 (take CCR_MOVE_WINDOW_SIZE w)"

definition voltage_avg :: "f32 list \<Rightarrow> f32" where
  "voltage_avg w = enc32 (fcvt fmt32 (fdiv fmt64 (fmul fmt64
     (dec32 (foldl f32_add 0 (take CCR_MOVE_WINDOW_SIZE w))) (of_int_fp fmt64 1)) (of_int_fp fmt64 10)))"

text \<open>One turn of the loop over the channels.\<close>

definition get_rms_chan :: "rms_type \<Rightarrow> sys \<Rightarrow> sys option" where
  "get_rms_chan t s =
     (let i = chan_ix t; a = adc s; k = unat (adc_count a);
          x = rt_adc_read i s; v = read_voltage x
      in case calibrate t (ccr s) v of
           None \<Rightarrow> None
         | Some c \<Rightarrow>
             let vw = (adc_read_voltage a ! i)[k := v]; cw = (adc_calibrate_voltage a ! i)[k := c]
             in Some (s\<lparr>adc := a\<lparr>adc_read_data := (adc_read_data a)[i := x],
                  adc_read_voltage := (adc_read_voltage a)[i := vw[CCR_MOVE_WINDOW_SIZE := voltage_avg vw]],
                  adc_calibrate_voltage := (adc_calibrate_voltage a)
                    [i := cw[CCR_MOVE_WINDOW_SIZE := window_sum cw div of_nat CCR_MOVE_WINDOW_SIZE]]\<rparr>\<rparr>))"

definition get_rms :: "rms_type \<Rightarrow> bool \<Rightarrow> sys \<Rightarrow> (u32 \<times> sys) option" where
  "get_rms t is_average s =
     do { s \<leftarrow> get_rms_chan E_U_SCR_RMS s;
          s \<leftarrow> get_rms_chan E_U_LOAD_RMS s;
          s \<leftarrow> get_rms_chan E_I_RMS s;
          let a = adc s;
          let k = (if is_average then CCR_MOVE_WINDOW_SIZE else unat (adc_count a));
          let d = (ccr s)\<lparr>adc_val_i := adc_read_voltage a ! 2 ! CCR_MOVE_WINDOW_SIZE,
                    adc_val_vscr := adc_read_voltage a ! 0 ! CCR_MOVE_WINDOW_SIZE\<rparr>;
          let d = update_i_load (ucast (adc_calibrate_voltage a ! 2 ! CCR_MOVE_WINDOW_SIZE)) d;
          let d = update_scr_voltage (adc_calibrate_voltage a ! 0 ! CCR_MOVE_WINDOW_SIZE) d;
          let n = adc_count a + 1;
          Some (adc_calibrate_voltage a ! chan_ix t ! k,
                s\<lparr>ccr := d, adc := a\<lparr>adc_count := (if of_nat CCR_MOVE_WINDOW_SIZE \<le> n then 0 else n)\<rparr>\<rparr>) }"

section \<open>The sampling thread\<close>

text \<open>One turn of \<open>adc_sample_thread_entry\<close>.  \<open>vscr\<close> and \<open>iload\<close> are the two locals that
  \<open>Check_CircuitOpen\<close> reads and nothing sets: whatever the stack holds.\<close>

definition adc_checks :: "u32 \<Rightarrow> u32 \<Rightarrow> sys \<Rightarrow> sys" where
  "adc_checks vscr iload s =
     (let s = check_i_load (f32_of_int (uint (get_i_load (ccr s)))) s;
          s = Check_SCR (f32_of_int (uint (get_scr_voltage (ccr s)))) s;
          s = Check_Fuse (f32_of_int (uint (get_scr_voltage (ccr s))))
                (f32_of_int (uint (half_period (ccr s)))) s
      in Check_CircuitOpen (f32_of_int (uint vscr)) (f32_of_int (uint iload)) s)"

definition adc_sample_step :: "u32 \<Rightarrow> u32 \<Rightarrow> sys \<Rightarrow> sys" where
  "adc_sample_step vscr iload s =
     (if relay_is_on s then
        let s = adc_checks vscr iload s
        in if IS_SYS_FAULT_EXIST (ccr s)
           then RELAY_OFF (s\<lparr>ccr := update_pass_angle (f32_of_int MIN_PASS_ANGLE) (ccr s)\<rparr>)
           else s
      else s\<lparr>ccr := update_scr_voltage 0 (update_i_load 0 (ccr s))\<rparr>)"

section \<open>The integer square root\<close>

lemma isqrt_from_root:
  "0 \<le> r \<Longrightarrow> r * r \<le> n \<Longrightarrow> n < (r + 2 ^ k) * (r + 2 ^ k) \<Longrightarrow>
   (let q = isqrt_from k r n in r \<le> q \<and> q * q \<le> n \<and> n < (q + 1) * (q + 1))"
proof (induction k arbitrary: r)
  case (Suc k)
  define q where "q = r + 2 ^ k"
  have q: "0 \<le> q" "r \<le> q" using Suc.prems(1) by (simp_all add: q_def)
  have t: "q + 2 ^ k = r + 2 ^ Suc k" by (simp add: q_def)
  show ?case
  proof (cases "q * q \<le> n")
    case True
    then have e: "isqrt_from (Suc k) r n = isqrt_from k q n" by (simp add: Let_def q_def)
    from Suc.IH[of q] True q(1) Suc.prems(3) t
    have "q \<le> isqrt_from k q n \<and> isqrt_from k q n * isqrt_from k q n \<le> n \<and>
        n < (isqrt_from k q n + 1) * (isqrt_from k q n + 1)"
      unfolding Let_def by metis
    with q(2) show ?thesis unfolding e Let_def by linarith
  next
    case False
    from Suc.IH[of r] False Suc.prems show ?thesis by (simp add: Let_def flip: q_def)
  qed
qed (simp add: Let_def)

lemma isqrt_root:
  "uint (isqrt n) * uint (isqrt n) \<le> uint n \<and> uint n < (uint (isqrt n) + 1) * (uint (isqrt n) + 1)"
proof -
  define q where "q = isqrt_from 16 0 (uint n)"
  have n: "0 \<le> uint n" "uint n < 65536 * 65536" using uint_lt2p[of n] by simp_all
  have q: "0 \<le> q" "q * q \<le> uint n" "uint n < (q + 1) * (q + 1)"
    using isqrt_from_root[of 0 "uint n" 16] n by (simp_all add: Let_def q_def)
  have "q < 65536"
  proof (rule ccontr)
    assume "\<not> q < 65536"
    then have "65536 * 65536 \<le> q * q" by (intro mult_mono) simp_all
    with q n show False by linarith
  qed
  then have "uint (isqrt n) = q" using q(1) by (simp add: isqrt_def q_def[symmetric] uint_word_of_int)
  with q show ?thesis by simp
qed

section \<open>Exactness of the root mean square\<close>

text \<open>The specification: channel \<open>j\<close> of the interleaved buffer, and the sum of its squared
  deviations over the integers.\<close>

fun every3 :: "'a list \<Rightarrow> 'a list" where
  "every3 [] = []"
| "every3 (x # xs) = x # every3 (drop 2 xs)"

definition channel :: "nat \<Rightarrow> u16 list \<Rightarrow> u16 list" where
  "channel j cur = every3 (drop j cur)"

definition dev :: "u16 \<Rightarrow> int" where "dev x = (uint x - 1861) * (uint x - 1861)"

definition sq_dev :: "u16 list \<Rightarrow> int" where "sq_dev xs = sum_list (map dev xs)"

definition adc12 :: "u16 \<Rightarrow> bool" where "adc12 x = (x < 4096)"

lemma dev_bound: "adc12 x \<Longrightarrow> 0 \<le> dev x \<and> dev x \<le> 4990756"
proof -
  assume "adc12 x"
  then have "uint x < 4096" by (simp add: adc12_def word_less_def)
  moreover have "0 \<le> uint x" by simp
  ultimately have "\<bar>uint x - 1861\<bar> \<le> 2234" by linarith
  then have "\<bar>uint x - 1861\<bar> * \<bar>uint x - 1861\<bar> \<le> 2234 * 2234" by (intro mult_mono) simp_all
  then show ?thesis by (simp add: dev_def)
qed

definition energy :: "chan \<Rightarrow> int" where "energy c = uint (s_pos c) + uint (s_neg c)"

lemma cal_rms_sample_energy:
  assumes "adc12 x" "energy c + 4990756 < 2 ^ 32"
  shows "\<exists>c'. cal_rms_sample x c = Some c' \<and> energy c' = energy c + dev x"
proof -
  have d: "0 \<le> dev x" "dev x \<le> 4990756" using dev_bound[OF assms(1)] by simp_all
  have n: "0 \<le> uint (s_pos c)" "0 \<le> uint (s_neg c)" by simp_all
  have u: "uint (w + word_of_int (dev x)) = uint w + dev x" if "uint w + dev x < 2 ^ 32" for w :: u32
    using that d uint_ge_0[of w] by (simp add: uint_word_ariths uint_word_of_int)
  have "uint (s_pos c) + dev x < 2 ^ 32" "uint (s_neg c) + dev x < 2 ^ 32"
    using assms(2) d n unfolding energy_def by linarith+
  with d show ?thesis
    by (auto simp: cal_rms_sample_def VREFCONST_def Let_def energy_def u simp flip: dev_def)
qed

lemma cal_rms_loop_energy:
  "length xs = 3 * n \<Longrightarrow> list_all adc12 xs \<Longrightarrow> energy a + int n * 4990756 < 2 ^ 32 \<Longrightarrow>
   energy b + int n * 4990756 < 2 ^ 32 \<Longrightarrow> energy c + int n * 4990756 < 2 ^ 32 \<Longrightarrow>
   \<exists>a' b' c'. cal_rms_loop xs (a, b, c) = Some (a', b', c') \<and>
     energy a' = energy a + sq_dev (channel 0 xs) \<and> energy b' = energy b + sq_dev (channel 1 xs) \<and>
     energy c' = energy c + sq_dev (channel 2 xs)"
proof (induction n arbitrary: xs a b c)
  case 0
  then show ?case by (simp add: channel_def sq_dev_def)
next
  case (Suc n)
  from Suc.prems(1) obtain x y z ys where xs: "xs = x # y # z # ys" "length ys = 3 * n"
    by (auto simp: length_Suc_conv eval_nat_numeral)
  have b: "energy e + 4990756 < 2 ^ 32" "energy e + dev w + int n * 4990756 < 2 ^ 32"
    if "energy e + int (Suc n) * 4990756 < 2 ^ 32" "adc12 w" for e w
    using that dev_bound[of w] by (simp_all add: algebra_simps)
  obtain a' where a': "cal_rms_sample x a = Some a'" "energy a' = energy a + dev x"
    using cal_rms_sample_energy[of x a] Suc.prems b(1)[of a x] xs by auto
  obtain b' where b': "cal_rms_sample y b = Some b'" "energy b' = energy b + dev y"
    using cal_rms_sample_energy[of y b] Suc.prems b(1)[of b y] xs by auto
  obtain c' where c': "cal_rms_sample z c = Some c'" "energy c' = energy c + dev z"
    using cal_rms_sample_energy[of z c] Suc.prems b(1)[of c z] xs by auto
  have ch: "channel 0 xs = x # channel 0 ys" "channel 1 xs = y # channel 1 ys"
    "channel 2 xs = z # channel 2 ys"
    by (simp_all add: channel_def xs(1) eval_nat_numeral)
  from Suc.IH[of ys a' b' c'] xs Suc.prems b(2)[of a x] b(2)[of b y] b(2)[of c z] a' b' c'
  obtain a'' b'' c'' where
    "cal_rms_loop ys (a', b', c') = Some (a'', b'', c'')"
    "energy a'' = energy a' + sq_dev (channel 0 ys)" "energy b'' = energy b' + sq_dev (channel 1 ys)"
    "energy c'' = energy c' + sq_dev (channel 2 ys)" by auto
  then show ?case by (simp add: xs(1) ch[unfolded xs(1) One_nat_def] a' b' c' sq_dev_def)
qed

lemma chan_rms_root:
  assumes "energy c < 2 ^ 32"
  shows "uint (chan_rms c) * uint (chan_rms c) \<le> energy c div 400 \<and>
    energy c div 400 < (uint (chan_rms c) + 1) * (uint (chan_rms c) + 1)"
proof -
  have "uint (s_pos c + s_neg c) = energy c"
    using assms by (simp add: energy_def uint_word_ariths)
  then have "uint ((s_pos c + s_neg c) div 400) = energy c div 400" by (simp add: uint_div)
  then show ?thesis using isqrt_root[of "(s_pos c + s_neg c) div 400"]
    by (simp add: chan_rms_def SAMPLES_def)
qed

lemma sq_dev_bound: "list_all adc12 xs \<Longrightarrow> 0 \<le> sq_dev xs \<and> sq_dev xs \<le> int (length xs) * 4990756"
proof (induction xs)
  case (Cons x xs)
  then show ?case using dev_bound[of x] by (simp add: sq_dev_def algebra_simps)
qed (simp add: sq_dev_def)

section \<open>The moving window\<close>

definition adc_wf :: "sys \<Rightarrow> bool" where
  "adc_wf s = (let a = adc s in length (adc_read_voltage a) = 3 \<and> length (adc_calibrate_voltage a) = 3 \<and>
     (\<forall>i<3. length (adc_read_voltage a ! i) = 11 \<and> length (adc_calibrate_voltage a ! i) = 11) \<and>
     unat (adc_count a) < 10)"

text \<open>The ten values of a channel, without the slot of the average.\<close>

definition window :: "rms_type \<Rightarrow> sys \<Rightarrow> u32 list" where
  "window t s = take 10 (adc_calibrate_voltage (adc s) ! chan_ix t)"

definition average :: "rms_type \<Rightarrow> sys \<Rightarrow> u32" where
  "average t s = adc_calibrate_voltage (adc s) ! chan_ix t ! 10"

lemma chan_ix_less: "chan_ix t < 3" "chan_ix t = chan_ix u \<longleftrightarrow> t = u"
  by (cases t; simp add: chan_ix_def) (cases t; cases u; simp add: chan_ix_def)

lemma window_sum_slot [simp]: "window_sum (w[10 := x]) = window_sum w"
  by (simp add: window_sum_def CCR_MOVE_WINDOW_SIZE_def)

lemma get_rms_chan_spec:
  assumes "adc_wf s" "get_rms_chan t s = Some s'"
  shows "adc_wf s' \<and> adc_count (adc s') = adc_count (adc s) \<and> rms (adc s') = rms (adc s) \<and> ccr s' = ccr s \<and>
    (\<exists>c. calibrate t (ccr s) (read_voltage (rt_adc_read (chan_ix t) s)) = Some c \<and>
      window t s' = (window t s)[unat (adc_count (adc s)) := c]) \<and>
    average t s' = window_sum (window t s') div 10 \<and>
    (\<forall>u. u \<noteq> t \<longrightarrow> window u s' = window u s \<and> average u s' = average u s)"
proof -
  let ?k = "unat (adc_count (adc s))"
  obtain c where c: "calibrate t (ccr s) (read_voltage (rt_adc_read (chan_ix t) s)) = Some c"
    using assms(2) by (auto simp: get_rms_chan_def Let_def split: option.splits)
  have len: "chan_ix t < length (adc_calibrate_voltage (adc s))"
    "length (adc_calibrate_voltage (adc s) ! chan_ix t) = 11" "?k < 10"
    using assms(1) chan_ix_less(1)[of t] by (auto simp: adc_wf_def Let_def)
  have wf: "adc_wf s'"
    using assms c len(1) by (auto simp: get_rms_chan_def adc_wf_def Let_def nth_list_update)
  have s': "adc_count (adc s') = adc_count (adc s)" "rms (adc s') = rms (adc s)" "ccr s' = ccr s"
    "adc_calibrate_voltage (adc s') = (adc_calibrate_voltage (adc s))[chan_ix t :=
       (adc_calibrate_voltage (adc s) ! chan_ix t)[?k := c,
          10 := window_sum ((adc_calibrate_voltage (adc s) ! chan_ix t)[?k := c]) div 10]]"
    using assms(2) c by (auto simp: get_rms_chan_def Let_def CCR_MOVE_WINDOW_SIZE_def)
  have "take 10 (w[?k := c, 10 := x]) = (take 10 w)[?k := c]" for w :: "u32 list" and x
    by (simp add: take_update_swap list_update_beyond)
  then have w: "window t s' = (window t s)[?k := c]"
    using len by (simp add: window_def s')
  moreover have "average t s' = window_sum (window t s') div 10"
    using len by (simp add: average_def w window_def s' window_sum_def CCR_MOVE_WINDOW_SIZE_def take_update_swap list_update_beyond)
  moreover have "window u s' = window u s \<and> average u s' = average u s" if "u \<noteq> t" for u
    using that len by (simp add: window_def average_def s' chan_ix_less(2))
  ultimately show ?thesis using wf c s' by blast
qed

text \<open>The three turns together, for the channel that is asked for.\<close>

lemma get_rms_spec:
  assumes "adc_wf s" "get_rms t avg s = Some (v, s')"
  shows "adc_wf s' \<and> (\<exists>c. calibrate t (ccr s) (read_voltage (rt_adc_read (chan_ix t) s)) = Some c \<and>
      window t s' = (window t s)[unat (adc_count (adc s)) := c]) \<and>
    adc_count (adc s') = (if 10 \<le> adc_count (adc s) + 1 then 0 else adc_count (adc s) + 1) \<and>
    v = (if avg then window_sum (window t s') div 10 else window t s' ! unat (adc_count (adc s)))"
proof -
  obtain s1 where s1: "get_rms_chan E_U_SCR_RMS s = Some s1"
    using assms(2) by (auto simp: get_rms_def split: Option.bind_splits)
  note f1 = get_rms_chan_spec[OF assms(1) s1]
  obtain s2 where s2: "get_rms_chan E_U_LOAD_RMS s1 = Some s2"
    using assms(2) s1 by (auto simp: get_rms_def split: Option.bind_splits)
  note f2 = get_rms_chan_spec[OF conjunct1[OF f1] s2]
  obtain s3 where s3: "get_rms_chan E_I_RMS s2 = Some s3"
    using assms(2) s1 s2 by (auto simp: get_rms_def split: Option.bind_splits)
  note f3 = get_rms_chan_spec[OF conjunct1[OF f2] s3]
  let ?n = "adc_count (adc s3) + 1"
  have k: "unat (adc_count (adc s3)) < 10" using conjunct1[OF f3] by (simp add: adc_wf_def Let_def)
  have v: "v = (if avg then average t s3 else window t s3 ! unat (adc_count (adc s3)))"
    "adc_calibrate_voltage (adc s') = adc_calibrate_voltage (adc s3)"
    "adc_read_voltage (adc s') = adc_read_voltage (adc s3)"
    "adc_count (adc s') = (if 10 \<le> ?n then 0 else ?n)"
    using assms(2) s1 s2 s3 k
    by (auto simp: get_rms_def Let_def CCR_MOVE_WINDOW_SIZE_def average_def window_def)
  have n: "unat (if 10 \<le> ?n then 0 else ?n) < 10" by (simp add: word_le_nat_alt)
  have "adc_wf s'" using f3 n unfolding adc_wf_def Let_def v by simp
  moreover have "window t s' = window t s3" by (simp add: window_def v)
  ultimately show ?thesis using f1 f2 f3 v(1,4) by (cases t) (auto simp: rt_adc_read_def)
qed

text \<open>A reading is defined exactly when the three calibrations are.\<close>

lemma get_rms_defined:
  assumes "adc_wf s" "\<And>u. calibrate u (ccr s) (read_voltage (rt_adc_read (chan_ix u) s)) \<noteq> None"
  shows "\<exists>v s'. get_rms t avg s = Some (v, s')"
proof -
  have d: "\<exists>r'. get_rms_chan u r = Some r'" if "rms (adc r) = rms (adc s)" "ccr r = ccr s" for u r
    using assms(2)[of u] that by (auto simp: get_rms_chan_def rt_adc_read_def Let_def)
  obtain s1 where s1: "get_rms_chan E_U_SCR_RMS s = Some s1" using d[of s] by auto
  note f1 = get_rms_chan_spec[OF assms(1) s1]
  obtain s2 where s2: "get_rms_chan E_U_LOAD_RMS s1 = Some s2" using d[of s1] f1 by auto
  note f2 = get_rms_chan_spec[OF conjunct1[OF f1] s2]
  obtain s3 where s3: "get_rms_chan E_I_RMS s2 = Some s3" 
    using d[of s2 E_I_RMS] conjunct2[OF f1] conjunct2[OF f2] by metis
  show ?thesis by (simp add: get_rms_def s1 s2 s3 Let_def)
qed

lemma uint_sum_small:
  "list_all (\<lambda>x. uint x \<le> 429496729) xs \<Longrightarrow> length xs \<le> 10 \<Longrightarrow>
   uint (foldl (+) a xs) = uint a + sum_list (map uint xs)"
  if "uint a + int (length xs) * 429496729 < 2 ^ 32" for a :: u32
  using that
proof (induction xs arbitrary: a)
  case (Cons x xs)
  have "uint (a + x) = uint a + uint x"
    using Cons.prems uint_ge_0[of x] uint_ge_0[of a] by (simp add: uint_word_ariths algebra_simps)
  with Cons show ?case by (simp add: algebra_simps)
qed simp

section \<open>Properties\<close>

text \<open>On a full buffer of 12-bit samples no square and no sum overflows, and the value
  stored for each channel is the integer square root of the mean of its squared deviations.\<close>

theorem cal_rms_exact:
  assumes "length cur = 1200" "list_all adc12 cur"
  shows "\<exists>s'. cal_rms cur s = Some s' \<and> (\<forall>j<3. let r = uint (rms (adc s') ! j);
      m = sq_dev (channel j cur) div 400 in r * r \<le> m \<and> m < (r + 1) * (r + 1))"
proof -
  have e0: "energy chan0 = 0" by (simp add: energy_def chan0_def)
  obtain a b c where r: "cal_rms_loop cur (chan0, chan0, chan0) = Some (a, b, c)"
      "energy a = sq_dev (channel 0 cur)" "energy b = sq_dev (channel 1 cur)"
      "energy c = sq_dev (channel 2 cur)"
    using cal_rms_loop_energy[of cur 400 chan0 chan0 chan0] assms by (auto simp: e0)
  have ch: "set (every3 xs) \<subseteq> set xs" "length (every3 xs) = (length xs + 2) div 3" for xs :: "u16 list"
    by (induction xs rule: every3.induct) (auto dest: in_set_dropD)
  have bound: "sq_dev (channel j cur) < 2 ^ 32" if "j < 3" for j
  proof -
    have "list_all adc12 (channel j cur)" using ch(1)[of "drop j cur"] assms(2)
      by (auto simp: channel_def list_all_iff dest: in_set_dropD)
    moreover have "length (channel j cur) \<le> 400" using that assms(1) by (simp add: channel_def ch(2))
    ultimately show ?thesis using sq_dev_bound[of "channel j cur"] by simp
  qed
  have roots: "let q = uint ([chan_rms a, chan_rms b, chan_rms c] ! j); m = sq_dev (channel j cur) div 400
      in q * q \<le> m \<and> m < (q + 1) * (q + 1)" if "j < 3" for j
  proof -
    have "j = 0 \<or> j = 1 \<or> j = 2" using that by linarith
    then show ?thesis
      using r(2-4) bound[of 0] bound[of 1] bound[of 2] chan_rms_root[of a] chan_rms_root[of b]
        chan_rms_root[of c] by (auto simp: Let_def)
  qed
  have "\<exists>s'. cal_rms cur s = Some s' \<and> rms (adc s') = [chan_rms a, chan_rms b, chan_rms c]"
    using r(1) assms(1) by (simp add: cal_rms_def SAMPLES_def Let_def)
  with roots show ?thesis by auto
qed

lemma cal_rms_exact_witness:
  "\<exists>s'. cal_rms (replicate 1200 2000) sys0 = Some s' \<and> (\<forall>j<3. let r = uint (rms (adc s') ! j);
      m = sq_dev (channel j (replicate 1200 2000)) div 400 in r * r \<le> m \<and> m < (r + 1) * (r + 1))"
  by (rule cal_rms_exact) (simp_all add: list_all_length adc12_def)

lemma fault_off: "IS_SYS_FAULT_EXIST (ccr (RELAY_OFF s)) = IS_SYS_FAULT_EXIST (ccr s)"
  by (simp add: IS_SYS_FAULT_EXIST_def)

lemma relay_is_on_checks [simp]:
  "relay_is_on (check_i_load r s) = relay_is_on s" "relay_is_on (Check_SCR r s) = relay_is_on s"
  "relay_is_on (Check_Fuse r t s) = relay_is_on s" "relay_is_on (Check_CircuitOpen r t s) = relay_is_on s"
  by (simp_all add: relay_is_on_iff check_i_load_def Check_SCR_def Check_Fuse_def Check_CircuitOpen_def
      raise_alarm_def SET_ALARM_STATUS_BIT_def Let_def)



text \<open>A reading puts the calibrated value of the channel in the next of ten slots, moves on
  cyclically, and returns the newest value or, when an average is asked for, the mean of
  exactly the ten slots, rounded down: with values below 429 million the 32-bit sum does
  not wrap.\<close>

theorem get_rms_mean_of_window:
  assumes "adc_wf s" "get_rms t avg s = Some (v, s')" "list_all (\<lambda>x. uint x \<le> 429496729) (window t s')"
  shows "adc_wf s' \<and> adc_count (adc s') = (adc_count (adc s) + 1) mod 10 \<and>
    (\<exists>c. calibrate t (ccr s) (read_voltage (rt_adc_read (chan_ix t) s)) = Some c \<and>
      window t s' = (window t s)[unat (adc_count (adc s)) := c] \<and>
      (if avg then uint v = sum_list (map uint (window t s')) div 10 else v = c))"
proof -
  note g = get_rms_spec[OF assms(1,2)]
  let ?k = "unat (adc_count (adc s))"
  have k: "?k < 10" and len: "length (window t s) = 10" "length (window t s') = 10"
    using assms(1) g chan_ix_less(1)[of t] by (auto simp: adc_wf_def window_def Let_def)
  have "uint (window_sum (window t s')) = sum_list (map uint (window t s'))"
    using uint_sum_small[of 0 "window t s'"] assms(3) len
    by (simp add: window_sum_def CCR_MOVE_WINDOW_SIZE_def)
  then have "uint (window_sum (window t s') div 10) = sum_list (map uint (window t s')) div 10"
    by (simp add: uint_div)
  moreover have "adc_count (adc s') = (adc_count (adc s) + 1) mod 10"
  proof -
    have n: "unat (adc_count (adc s) + 1) = ?k + 1" using k by (simp add: unat_word_ariths)
    show ?thesis
      using g n k by (cases "?k = 9") (auto simp: word_le_nat_alt word_unat_eq_iff unat_mod)
  qed
  ultimately show ?thesis using g k len by auto
qed

lemma get_rms_mean_of_window_witness:
  "\<exists>v s'. get_rms E_I_RMS True sys0 = Some (v, s') \<and> adc_count (adc s') = 1 \<and>
    uint v = sum_list (map uint (window E_I_RMS s')) div 10"
proof -
  have wf: "adc_wf sys0" by code_simp
  have "calibrate u (ccr sys0) (read_voltage (rt_adc_read (chan_ix u) sys0)) \<noteq> None" for u
    by (cases u; simp only:) code_simp+
  then obtain v s' where g: "get_rms E_I_RMS True sys0 = Some (v, s')"
    using get_rms_defined[OF wf] by blast
  have c: "calibrate E_I_RMS (ccr sys0) (read_voltage (rt_adc_read (chan_ix E_I_RMS) sys0)) = Some 0"
    "window E_I_RMS sys0 = replicate 10 0" "adc_count (adc sys0) = 0"
    by code_simp+
  then have "window E_I_RMS s' = (replicate 10 0)[0 := 0]" using get_rms_spec[OF wf g] by auto
  then have "list_all (\<lambda>x. uint x \<le> 429496729) (window E_I_RMS s')"
    by (auto simp: list_all_length nth_list_update)
  from get_rms_mean_of_window[OF wf g this] g c(3) show ?thesis by auto
qed

end
