(* ===== verification/PidApp.thy ===== *)
theory PidApp
  imports Adc
begin

text \<open>
  applications/pid_app.c: the start-up of the current controller, the recording of its
  steps, and the thread that closes the contactor when a brightness level is selected.  The
  thread sleeps 300 ms between driving the contactor and setting the status bit, and other
  threads and interrupts run meanwhile, so a turn of it is two steps of a \<open>phase\<close>.  Reading
  the five-entry table \<open>Istd\<close> outside its bounds is \<open>None\<close>.
\<close>

section \<open>Start-up\<close>

definition Istd :: "f32 list" where
  "Istd = [f32_lit (28 / 10), f32_lit (34 / 10), f32_lit (41 / 10), f32_lit (52 / 10), f32_lit (66 / 10)]"

text \<open>\<open>Istd[level - 1]\<close>.\<close>

definition Istd_level :: "u16 \<Rightarrow> f32 option" where
  "Istd_level i = (if 1 \<le> uint i \<and> uint i \<le> 5 then Some (Istd ! (unat i - 1)) else None)"

definition CTRL_CYCLE :: u8 where "CTRL_CYCLE = 1"

text \<open>\<open>pid_para\<close> is a local that keeps \<open>integral_max\<close> as the stack had it: an argument here.\<close>

definition app_para :: "f32 \<Rightarrow> pid_control_para" where
  "app_para imax = \<lparr>ref = 0, kp = f32_lit (3 / 10), ki = f32_lit 2, kd = f32_lit (1 / 10),
     kneural = f32_lit 2, out_max = f32_of_int MAX_PASS_ANGLE, out_min = f32_of_int MIN_PASS_ANGLE,
     integral_max = imax\<rparr>"

definition pid_para_init :: "f32 \<Rightarrow> pid \<Rightarrow> pid" where
  "pid_para_init imax p =
     (pid_init (app_para imax)
        (p\<lparr>wkp := f32_lit (3 / 10), wki := f32_lit (6 / 10), wkd := f32_lit (1 / 10)\<rparr>))
       \<lparr>out := f32_of_int MIN_PASS_ANGLE\<rparr>"

definition set_pid :: "(pid \<Rightarrow> pid) \<Rightarrow> sys \<Rightarrow> sys" where
  "set_pid f s = s\<lparr>app := (app s)\<lparr>pid_state := (f (fst (pid_state (app s))), snd (pid_state (app s)))\<rparr>\<rparr>"

definition the_pid :: "sys \<Rightarrow> pid" where
  "the_pid s = fst (pid_state (app s))"

definition ccr_init :: "f32 \<Rightarrow> sys \<Rightarrow> sys" where
  "ccr_init imax s =
     (let s = set_pid (\<lambda>p. (pid_para_init imax p)\<lparr>calc := Single_neural\<rparr>) s
      in s\<lparr>app := (app s)\<lparr>g_pid_enable := 1\<rparr>\<rparr>)"

section \<open>Recording\<close>

definition SAMPLE_SIZE :: nat where "SAMPLE_SIZE = 75"

definition put_row :: "nat \<Rightarrow> nat \<Rightarrow> u16 \<Rightarrow> u16 list list \<Rightarrow> u16 list list" where
  "put_row r i v a = a[r := (a ! r)[i := v]]"

text \<open>The five assignments convert \<open>float\<close> to \<open>rt_uint16_t\<close>: a negative or large weight is
  undefined.\<close>

definition save_pid_process_data :: "sys \<Rightarrow> sys option" where
  "save_pid_process_data s =
     (if idensity_last (app s) = get_idensity (ccr s) then Some s
      else
        let d = g_pid_debug_struct (app s); i = unat (dbg_cnt d); g = snd (pid_state (app s))
        in if SAMPLE_SIZE \<le> i then None
           else do {
             a \<leftarrow> fp_to_u16 (dec32 (angle (ccr s)));
             p \<leftarrow> fp_to_u16 (dec32 (f32_mul (g_wp g) (f32_of_int 1000)));
             q \<leftarrow> fp_to_u16 (dec32 (f32_mul (g_wi g) (f32_of_int 1000)));
             r \<leftarrow> fp_to_u16 (dec32 (f32_mul (g_wd g) (f32_of_int 1000)));
             let arr = put_row 4 i r (put_row 3 i q (put_row 2 i p
                         (put_row 1 i (i_load (ccr s)) (put_row 0 i a (data_arr d)))));
             let n = dbg_cnt d + 1;
             Some (if of_nat SAMPLE_SIZE \<le> n
                   then s\<lparr>app := (app s)\<lparr>idensity_last := get_idensity (ccr s),
                          g_pid_debug_struct := \<lparr>data_arr = arr, dbg_cnt = 0, full_flag = 1\<rparr>\<rparr>\<rparr>
                   else s\<lparr>app := (app s)\<lparr>g_pid_debug_struct := d\<lparr>data_arr := arr, dbg_cnt := n\<rparr>\<rparr>\<rparr>) })"

text \<open>\<open>print_pid_precess_data\<close>: what it does to the state, the printing left out.\<close>

definition print_pid_precess_data :: "sys \<Rightarrow> sys" where
  "print_pid_precess_data s =
     (if full_flag (g_pid_debug_struct (app s)) = 0 then s
      else s\<lparr>app := (app s)\<lparr>g_pid_debug_struct := (g_pid_debug_struct (app s))\<lparr>full_flag := 0\<rparr>\<rparr>\<rparr>)"

section \<open>The thread\<close>

text \<open>Where the thread waits: at the top of its loop, or in the 300 ms after it drove the
  contactor.\<close>

datatype phase = Top | Closing

definition pid_thread_step :: "f32 \<Rightarrow> phase \<times> sys \<Rightarrow> (phase \<times> sys) option" where
  "pid_thread_step imax ps =
     (let s = snd ps in
      case fst ps of
        Top \<Rightarrow>
          Some (if g_pid_enable (app s) = 0 then (Top, s)
                else if relay_is_off s then
                  if IS_SYS_FAULT_EXIST (ccr s) then (Top, s)
                  else if 0 < intensity (ccr s) \<and> intensity (ccr s) \<le> 5 then
                    let s = RELAY_ON_NO_SET_FALG s;
                        s = s\<lparr>ccr := update_pass_angle (f32_of_int MIN_PASS_ANGLE) (ccr s)\<rparr>
                    in (Closing, set_pid (pid_para_init imax) s)
                  else (Top, s)
                else (Top, s))
      | Closing \<Rightarrow>
          let s = s\<lparr>ccr := SET_SYS_STATUS_BIT RELAY_STATUS_POS (ccr s)\<rparr>
          in case Istd_level (intensity (ccr s)) of
               None \<Rightarrow> None
             | Some r \<Rightarrow> Some (Top, (let s = set_pid (pid_ref_set r) s
                                    in s\<lparr>app := (app s)\<lparr>g_ctrl_cycle := CTRL_CYCLE\<rparr>\<rparr>)))"

section \<open>Properties\<close>

text \<open>The thread drives the contactor only when no fault is recorded and a level from 1 to
  5 is selected, and it has then put the angle and the controller at their minimum.\<close>

theorem contactor_closes_softly:
  assumes "pid_thread_step imax (Top, s) = Some (Closing, s')"
  shows "\<not> IS_SYS_FAULT_EXIST (ccr s) \<and> 1 \<le> uint (intensity (ccr s)) \<and> uint (intensity (ccr s)) \<le> 5 \<and>
    mk_low s' \<and> angle (ccr s') = f32_of_int MIN_PASS_ANGLE \<and> out (the_pid s') = f32_of_int MIN_PASS_ANGLE \<and>
    error_1 (the_pid s') = 0 \<and> error_2 (the_pid s') = 0"
  using assms
  by (auto simp: pid_thread_step_def Let_def set_pid_def the_pid_def pid_para_init_def pid_init_def
      RELAY_ON_NO_SET_FALG_def update_pass_angle_def word_less_def word_le_def split: if_splits)

lemma contactor_closes_softly_witness:
  "let s = sys0\<lparr>ccr := ccr_zero\<lparr>intensity := 3\<rparr>\<rparr> in
   \<exists>s'. pid_thread_step 0 (Top, s) = Some (Closing, s') \<and> mk_low s' \<and>
     angle (ccr s') = f32_of_int MIN_PASS_ANGLE"
proof -
  let ?s = "sys0\<lparr>ccr := ccr_zero\<lparr>intensity := 3\<rparr>\<rparr>"
  have "g_pid_enable (app ?s) \<noteq> 0" "relay_is_off ?s" "\<not> IS_SYS_FAULT_EXIST (ccr ?s)"
    by (simp_all add: sys0_def relay_is_off_iff relay_is_on_iff IS_SYS_FAULT_EXIST_def)
  then obtain s' where "pid_thread_step 0 (Top, ?s) = Some (Closing, s')"
    by (simp add: pid_thread_step_def Let_def)
  with contactor_closes_softly[OF this] show ?thesis by (simp add: Let_def)
qed

end
