(* ===== verification/CrossZero.thy ===== *)
theory CrossZero
  imports PidApp
begin

text \<open>
  applications/cross_zero_check.c: the interrupt at every zero crossing of the mains.  It
  measures the half period, decides whether the crossings are stable, arms the trigger and
  the single-stable timers, and on every second crossing measures the current and takes a
  controller step.  With the timer callbacks and the two threads it makes a transition
  system, \<open>fire\<close>, whose events are the interrupts and the turns of the threads; the lemmas
  show that the conduction angle never leaves its range in any run, that crossings become
  valid after twenty good ones, and what a brightness register above five does.
\<close>

section \<open>Periods\<close>

definition PFreqBias :: f32 where
  "PFreqBias = f32_mul (f32_mul (f32_lit 50) (f32_lit 2)) (f32_lit (105 / 100))"
definition NFreqBias :: f32 where
  "NFreqBias = f32_mul (f32_mul (f32_lit 50) (f32_lit 2)) (f32_lit (95 / 100))"
definition NPeriod :: f32 where "NPeriod = f32_div (f32_lit 1000) PFreqBias"
definition PPeriod :: f32 where "PPeriod = f32_div (f32_lit 1000) NFreqBias"
definition LowCZWarnTime :: f32 where
  "LowCZWarnTime = f32_sub NPeriod (f32_mul (f32_lit 2) (f32_lit (1 / 10)))"
definition Int0StableNum :: u8 where "Int0StableNum = 20"
definition SINGLE_STABLE_TIMEOUT :: u32 where "SINGLE_STABLE_TIMEOUT = 9500"

section \<open>Operations\<close>

definition set_cz :: "(cross_zero \<Rightarrow> cross_zero) \<Rightarrow> sys \<Rightarrow> sys" where
  "set_cz f s = s\<lparr>cz := f (cz s)\<rparr>"

definition single_stable_timer_start :: "sys \<Rightarrow> sys" where
  "single_stable_timer_start = set_cz (\<lambda>c. c\<lparr>single_stable := Some SINGLE_STABLE_TIMEOUT\<rparr>)"

definition single_stable_timer_stop :: "sys \<Rightarrow> sys" where
  "single_stable_timer_stop = set_cz (\<lambda>c. c\<lparr>single_stable := None\<rparr>)"

definition DISABLE_SCR_TRIGER :: "sys \<Rightarrow> sys" where
  "DISABLE_SCR_TRIGER s = s\<lparr>scr := pwm_disable (scr s)\<rparr>"

definition single_stable_timer_cb :: "sys \<Rightarrow> sys" where
  "single_stable_timer_cb s = DISABLE_SCR_TRIGER (single_stable_timer_stop s)"

definition Is_cross_zero_valid :: "sys \<Rightarrow> bool" where
  "Is_cross_zero_valid s = int0_valid (cz s)"

definition cross_zero_timer_start :: "sys \<Rightarrow> sys" where
  "cross_zero_timer_start = set_cz (\<lambda>c. c\<lparr>cz_timer := Some (cz_timeout c)\<rparr>)"

definition cross_zero_timer_stop :: "sys \<Rightarrow> sys" where
  "cross_zero_timer_stop = set_cz (\<lambda>c. c\<lparr>cz_timer := None\<rparr>)"

definition timer5_cb :: "sys \<Rightarrow> sys" where
  "timer5_cb s = set_cz (\<lambda>c. c\<lparr>int0_valid := False\<rparr>) (cross_zero_timer_stop s)"

text \<open>\<open>cross_zero_timer_init\<close> with its timer found: the timeout in microseconds.\<close>

definition cross_zero_timer_init :: "sys \<Rightarrow> sys option" where
  "cross_zero_timer_init s =
     map_option (\<lambda>us. set_cz (\<lambda>c. c\<lparr>cz_timeout := us\<rparr>) s)
       (fp_to_u32 (dec32 (f32_mul PPeriod (f32_lit 1000))))"

text \<open>\<open>ActualTpInt0\<close> in milliseconds and the frequency in tenths of a hertz; a crossing so
  early that the frequency exceeds 16 bits is undefined.\<close>

definition period_ms :: "u32 \<Rightarrow> f32" where
  "period_ms usec = f32_div (f32_of_int (sint usec)) (f32_lit 1000)"

definition freq_of :: "f32 \<Rightarrow> u16 option" where
  "freq_of ms = fp_to_u16 (dec32
     (f32_div (f32_mul (f32_div (f32_lit 1) ms) (f32_of_int 10000)) (f32_lit 2)))"

definition cross_zero_period_check :: "u32 \<Rightarrow> sys \<Rightarrow> sys option" where
  "cross_zero_period_check usec s =
     (let ms = period_ms usec
      in case freq_of ms of
        None \<Rightarrow> None
      | Some fr \<Rightarrow> Some
          (if f32_le LowCZWarnTime ms then
             let n = stable_cnt (cz s) + 1;
                 s = (if Int0StableNum \<le> n
                      then set_cz (\<lambda>c. c\<lparr>stable_cnt := Int0StableNum, int0_valid := True\<rparr>) s
                      else set_cz (\<lambda>c. c\<lparr>stable_cnt := n\<rparr>) s)
             in if f32_le NPeriod ms \<and> f32_le ms PPeriod
                then DISABLE_SCR_TRIGER
                  (s\<lparr>ccr := (update_freq fr (ccr s))\<lparr>half_period := ucast usec\<rparr>,
                     scr := (scr s)\<lparr>triger_angle_timer := None\<rparr>\<rparr>)
                else s
           else let s = set_cz (\<lambda>c. c\<lparr>stable_cnt := 0, int0_valid := False\<rparr>) s
                in s\<lparr>app := (app s)\<lparr>g_ctrl_cycle := CTRL_CYCLE\<rparr>\<rparr>))"

text \<open>The controller step of the handler: the set point of the level, the current, the
  angle.  \<open>pid_calc\<close> is reached through the function pointer.\<close>

definition run_pid :: "f32 \<Rightarrow> sys \<Rightarrow> sys option" where
  "run_pid feed_back s =
     (case pid_calc (pid_state (app s)) feed_back of
        None \<Rightarrow> None
      | Some q \<Rightarrow> Some (s\<lparr>app := (app s)\<lparr>pid_state := q\<rparr>\<rparr>))"

definition push_view :: "u16 \<Rightarrow> sys \<Rightarrow> sys" where
  "push_view i = set_cz (\<lambda>c. let n = current_count c + 1 in
     c\<lparr>current_view := (current_view c)[unat (current_count c) := i],
       current_count := (if 20 \<le> n then 0 else n)\<rparr>)"

definition control_step :: "sys \<Rightarrow> sys option" where
  "control_step s = do {
     r \<leftarrow> (if 0 < intensity (ccr s) then Istd_level (intensity (ccr s)) else Some 0);
     let s = set_pid (pid_ref_set r) s;
     (v, s) \<leftarrow> get_rms E_I_RMS False s;
     let iload_rms = (ucast v :: u16);
     let s = push_view iload_rms s;
     s \<leftarrow> run_pid (f32_div (f32_of_int (uint iload_rms)) (f32_lit 100)) s;
     let s = s\<lparr>ccr := update_pass_angle (out (the_pid s)) (ccr s)\<rparr>;
     let s = (if get_i_load (ccr s) \<le> 100 \<and> intensity (ccr s) = 0 then RELAY_OFF s else s);
     s \<leftarrow> save_pid_process_data s;
     Some (BEEP_OFF s) }"

text \<open>Every second valid crossing: the samples, their mean square, and the control cycle.\<close>

definition measure_step :: "sys \<Rightarrow> sys option" where
  "measure_step s = do {
     let s = set_cz (\<lambda>c. c\<lparr>even_flag := False\<rparr>) (BEEP_ON s);
     let s = s\<lparr>adc := (adc s)\<lparr>adc_timer_on := False\<rparr>\<rparr>;
     let s = get_dma_data s;
     let s = s\<lparr>adc := (adc s)\<lparr>adc_timer_on := True\<rparr>\<rparr>;
     s \<leftarrow> cal_rms (cur_buf (adc s)) s;
     let n = h_ctrl_cycle (cz s) - 1;
     if n = 0 then
       let s = set_cz (\<lambda>c. c\<lparr>h_ctrl_cycle := CTRL_CYCLE\<rparr>) s
       in if g_pid_enable (app s) \<noteq> 0 then control_step s else Some s
     else Some (set_cz (\<lambda>c. c\<lparr>h_ctrl_cycle := n\<rparr>) s) }"

definition cross_zero_check_entry :: "u32 \<Rightarrow> sys \<Rightarrow> sys option" where
  "cross_zero_check_entry usec s =
     (if first_run (cz s) then
        Some (set_cz (\<lambda>c. c\<lparr>first_run := False\<rparr>) (cross_zero_timer_start s))
      else do {
        let s = cross_zero_timer_start (cross_zero_timer_stop s);
        s \<leftarrow> cross_zero_period_check usec s;
        if int0_valid (cz s) then
          let s = s\<lparr>adc := (adc s)\<lparr>adc_timer_on := True\<rparr>\<rparr>
          in if relay_is_on s then
               let s = s\<lparr>scr := (scr s)\<lparr>timer_1ms := Some (timer_1ms_delay (scr s))\<rparr>\<rparr>;
                   s = single_stable_timer_start s
               in if even_flag (cz s) then measure_step s
                  else Some (set_cz (\<lambda>c. c\<lparr>even_flag := True\<rparr>) s)
             else Some s
        else Some s })"

section \<open>The transition system\<close>

text \<open>The interrupts (\<open>Cross\<close> carries the microseconds timer 5 had counted, the others are
  the expiries of timers 2, 3, 5 and 6), a turn of the sampling thread and of the controller
  thread with what their uninitialised locals hold, the DMA filling the buffer, and a new
  brightness level.  An expiry needs its timer running.\<close>

datatype ev = Cross u32 | Trigger_expired | One_ms_expired | Crossing_missed | Half_wave_over
  | Sample_turn u32 u32 | Pid_turn f32 | Dma "u16 list" | Level u16

fun enabled :: "ev \<Rightarrow> sys \<Rightarrow> bool" where
  "enabled Trigger_expired s = (triger_angle_timer (scr s) \<noteq> None)"
| "enabled One_ms_expired s = (timer_1ms (scr s) \<noteq> None)"
| "enabled Crossing_missed s = (cz_timer (cz s) \<noteq> None)"
| "enabled Half_wave_over s = (single_stable (cz s) \<noteq> None)"
| "enabled _ s = True"

fun fire :: "ev \<Rightarrow> phase \<times> sys \<Rightarrow> (phase \<times> sys) option" where
  "fire (Cross us) (ph, s) = map_option (Pair ph) (cross_zero_check_entry us s)"
| "fire Trigger_expired (ph, s) = Some (ph, s\<lparr>scr := triger_angle_timer_cb (scr s)\<rparr>)"
| "fire One_ms_expired (ph, s) =
     map_option (\<lambda>d. (ph, s\<lparr>scr := d\<rparr>)) (timer_1ms_cb (ccr s) (scr s))"
| "fire Crossing_missed (ph, s) = Some (ph, timer5_cb s)"
| "fire Half_wave_over (ph, s) = Some (ph, single_stable_timer_cb s)"
| "fire (Sample_turn v i) (ph, s) = Some (ph, adc_sample_step v i s)"
| "fire (Pid_turn x) (ph, s) = pid_thread_step x (ph, s)"
| "fire (Dma b) (ph, s) = Some (ph, s\<lparr>adc := (adc s)\<lparr>adc_value := b\<rparr>\<rparr>)"
| "fire (Level l) (ph, s) = Some (ph, s\<lparr>ccr := update_idensity l (ccr s)\<rparr>)"

text \<open>Start-up, from whatever the memory held.\<close>

definition boot :: "f32 \<Rightarrow> sys \<Rightarrow> phase \<times> sys" where
  "boot imax s = (Top, ccr_init imax (s\<lparr>ccr := data_base_init (ccr s)\<rparr>))"

inductive reach :: "phase \<times> sys \<Rightarrow> bool" where
  reach_boot: "reach (boot imax s)"
| reach_fire: "reach (ph, s) \<Longrightarrow> enabled e s \<Longrightarrow> fire e (ph, s) = Some q \<Longrightarrow> reach q"

inductive_cases reach_cases: "reach q"

section \<open>The angle stays in its range\<close>

definition angle_range :: "f32 \<Rightarrow> bool" where
  "angle_range a = in_range (f32_of_int MIN_PASS_ANGLE) (f32_of_int MAX_PASS_ANGLE) a"

definition angle_inv :: "sys \<Rightarrow> bool" where
  "angle_inv s = (out_min (pid_parm (the_pid s)) = f32_of_int MIN_PASS_ANGLE \<and>
     out_max (pid_parm (the_pid s)) = f32_of_int MAX_PASS_ANGLE \<and> calc (the_pid s) = Single_neural \<and>
     angle_range (out (the_pid s)) \<and> angle_range (angle (ccr s)))"

text \<open>What the invariant looks at; most operations leave it alone.\<close>

definition keeps :: "sys \<Rightarrow> sys \<Rightarrow> bool" where
  "keeps s s' = (pid_state (app s') = pid_state (app s) \<and> angle (ccr s') = angle (ccr s))"

lemma keeps_inv: "keeps s s' \<Longrightarrow> angle_inv s \<Longrightarrow> angle_inv s'"
  by (simp add: keeps_def angle_inv_def the_pid_def)

lemma keeps_trans: "keeps a b \<Longrightarrow> keeps b c \<Longrightarrow> keeps a c"
  by (simp add: keeps_def)

lemma keeps_refl [simp]: "keeps s s"
  by (simp add: keeps_def)

named_theorems keep "operations that leave the controller and the angle alone"

lemma keeps_checks [keep]:
  "keeps s (check_i_load r s)" "keeps s (Check_SCR r s)" "keeps s (Check_Fuse r t s)"
  "keeps s (Check_CircuitOpen r t s)"
  by (simp_all add: keeps_def check_i_load_def Check_SCR_def Check_Fuse_def Check_CircuitOpen_def
      raise_alarm_def SET_ALARM_STATUS_BIT_def Let_def)

lemma keeps_adc_checks [keep]: "keeps s (adc_checks v i s)"
  unfolding adc_checks_def Let_def by (meson keeps_checks keeps_trans)

lemma keeps_set_cz [keep]: "keeps s (set_cz f s)"
  by (simp add: keeps_def set_cz_def)

lemma keeps_relay [keep]: "keeps s (RELAY_OFF s)"
  by (simp add: keeps_def)

lemma keeps_cal_rms: "cal_rms b s = Some s' \<Longrightarrow> keeps s s'"
  by (auto simp: cal_rms_def keeps_def Let_def split: option.splits prod.splits)

lemma keeps_get_rms_chan: "get_rms_chan t s = Some s' \<Longrightarrow> keeps s s'"
  by (auto simp: get_rms_chan_def keeps_def Let_def split: option.splits)

lemma keeps_get_rms: "get_rms t a s = Some (v, s') \<Longrightarrow> keeps s s'"
  unfolding get_rms_def Let_def
  by (auto simp: update_i_load_def update_scr_voltage_def keeps_def
      dest!: keeps_get_rms_chan split: Option.bind_splits)

lemma keeps_save: "save_pid_process_data s = Some s' \<Longrightarrow> keeps s s'"
  by (auto simp: save_pid_process_data_def keeps_def Let_def split: Option.bind_splits if_splits)

lemma keeps_period: "cross_zero_period_check u s = Some s' \<Longrightarrow> keeps s s'"
  by (auto simp: cross_zero_period_check_def keeps_def Let_def set_cz_def update_freq_def
      DISABLE_SCR_TRIGER_def split: option.splits)

lemma good_limits_pass: "good_limits c" if "out_min c = f32_of_int MIN_PASS_ANGLE" "out_max c = f32_of_int MAX_PASS_ANGLE"
proof -
  have "f32_le (f32_of_int MIN_PASS_ANGLE) (f32_of_int MAX_PASS_ANGLE)" by code_simp
  with that show ?thesis by (simp add: good_limits_def)
qed

text \<open>A controller step, by the contract of the neural controller.\<close>

lemma run_pid_inv:
  assumes "angle_inv s" "run_pid x s = Some s'"
  shows "angle_inv (s'\<lparr>ccr := update_pass_angle (out (the_pid s')) (ccr s')\<rparr>)"
proof -
  let ?p = "pid_state (app s)"
  have c: "calc (fst ?p) = Single_neural" using assms(1) by (simp add: angle_inv_def the_pid_def)
  have s': "s' = s\<lparr>app := (app s)\<lparr>pid_state := pid_single_neural_calc ?p x\<rparr>\<rparr>"
    using assms(2) c by (auto simp: run_pid_def pid_calc_def)
  have "angle_range (out (fst (pid_single_neural_calc ?p x)))"
    using neural.range_step[of ?p x] assms(1) good_limits_pass[of "pid_parm (fst ?p)"]
    by (simp add: angle_inv_def the_pid_def angle_range_def)
  moreover have "calc (fst (pid_single_neural_calc ?p x)) = Single_neural"
    using c by (simp add: pid_single_neural_calc_def Let_def)
  ultimately show ?thesis using assms(1)
    by (simp add: angle_inv_def s' the_pid_def update_pass_angle_def neural_parm)
qed

lemma set_ref_inv: "angle_inv s \<Longrightarrow> angle_inv (set_pid (pid_ref_set r) s)"
  by (simp add: angle_inv_def set_pid_def the_pid_def pid_ref_set_def)

lemma min_angle_range [simp]: "angle_range (f32_of_int MIN_PASS_ANGLE)"
proof -
  have "in_range (f32_of_int MIN_PASS_ANGLE) (f32_of_int MAX_PASS_ANGLE) (f32_of_int MIN_PASS_ANGLE)" by code_simp
  then show ?thesis by (simp add: angle_range_def)
qed

lemma control_step_inv:
  assumes "angle_inv s" "control_step s = Some s'"
  shows "angle_inv s'"
proof -
  obtain r where r: "(if 0 < intensity (ccr s) then Istd_level (intensity (ccr s)) else Some 0) = Some r"
    using assms(2) by (auto simp: control_step_def split: Option.bind_splits)
  define s1 where "s1 = set_pid (pid_ref_set r) s"
  have i1: "angle_inv s1" using assms(1) by (simp add: s1_def set_ref_inv)
  obtain v s2 where g: "get_rms E_I_RMS False s1 = Some (v, s2)"
    using assms(2) r by (auto simp: control_step_def s1_def Let_def split: Option.bind_splits)
  define s3 where "s3 = push_view (ucast v) s2"
  have i3: "angle_inv s3" using i1 keeps_get_rms[OF g] keeps_set_cz
    unfolding s3_def push_view_def by (blast intro: keeps_inv keeps_trans)
  let ?x = "f32_div (f32_of_int (uint (ucast v :: u16))) (f32_lit 100)"
  obtain s4 where p: "run_pid ?x s3 = Some s4"
    using assms(2) r g by (auto simp: control_step_def s1_def s3_def Let_def split: Option.bind_splits)
  define s5 where "s5 = s4\<lparr>ccr := update_pass_angle (out (the_pid s4)) (ccr s4)\<rparr>"
  have i5: "angle_inv s5" unfolding s5_def using i3 p by (rule run_pid_inv)
  define s6 where "s6 = (if get_i_load (ccr s5) \<le> 100 \<and> intensity (ccr s5) = 0 then RELAY_OFF s5 else s5)"
  have i6: "angle_inv s6" using i5 keeps_relay keeps_inv unfolding s6_def by metis
  have "control_step s = Option.bind (save_pid_process_data s6) (\<lambda>s. Some (BEEP_OFF s))"
    using r g p by (simp add: control_step_def s1_def s3_def s5_def s6_def Let_def)
  then obtain s7 where sv: "save_pid_process_data s6 = Some s7" and s': "s' = BEEP_OFF s7"
    using assms(2) by (auto split: Option.bind_splits)
  have "keeps s7 s'" by (simp add: s' BEEP_OFF_def keeps_def)
  with i6 keeps_save[OF sv] show ?thesis by (blast intro: keeps_inv)
qed

lemma measure_step_inv:
  assumes "angle_inv s" "measure_step s = Some s'"
  shows "angle_inv s'"
proof -
  define s1 where "s1 = (let s = set_cz (\<lambda>c. c\<lparr>even_flag := False\<rparr>) (BEEP_ON s);
      s = get_dma_data (s\<lparr>adc := (adc s)\<lparr>adc_timer_on := False\<rparr>\<rparr>)
    in s\<lparr>adc := (adc s)\<lparr>adc_timer_on := True\<rparr>\<rparr>)"
  have "keeps s s1" by (simp add: s1_def Let_def keeps_def set_cz_def BEEP_ON_def get_dma_data_def)
  moreover obtain s2 where s2: "cal_rms (cur_buf (adc s1)) s1 = Some s2"
    using assms(2) by (auto simp: measure_step_def s1_def Let_def split: Option.bind_splits)
  ultimately have i2: "angle_inv s2" using assms(1) keeps_cal_rms by (blast intro: keeps_inv)
  have "s' = set_cz f s2 \<or> control_step (set_cz f s2) = Some s'"
    if "f = (\<lambda>c. c\<lparr>h_ctrl_cycle := (if h_ctrl_cycle (cz s2) - 1 = 0 then CTRL_CYCLE else h_ctrl_cycle (cz s2) - 1)\<rparr>)"
    for f
    using assms(2) s2 that
    by (auto simp: measure_step_def s1_def Let_def split: Option.bind_splits if_splits)
  then obtain f where "s' = set_cz f s2 \<or> control_step (set_cz f s2) = Some s'" by blast
  moreover have "angle_inv (set_cz f s2)" using i2 keeps_set_cz by (blast intro: keeps_inv)
  ultimately show ?thesis using control_step_inv by blast
qed

lemma cross_zero_inv:
  assumes "angle_inv s" "cross_zero_check_entry us s = Some s'"
  shows "angle_inv s'"
proof (cases "first_run (cz s)")
  case True
  with assms show ?thesis
    by (auto simp: cross_zero_check_entry_def cross_zero_timer_start_def angle_inv_def set_cz_def the_pid_def)
next
  case False
  define s1 where "s1 = cross_zero_timer_start (cross_zero_timer_stop s)"
  have "keeps s s1"
    by (simp add: s1_def keeps_def cross_zero_timer_start_def cross_zero_timer_stop_def set_cz_def)
  moreover obtain s2 where s2: "cross_zero_period_check us s1 = Some s2"
    using assms(2) False by (auto simp: cross_zero_check_entry_def s1_def Let_def split: Option.bind_splits)
  ultimately have i2: "angle_inv s2" using assms(1) keeps_period by (blast intro: keeps_inv)
  define s3 where "s3 = s2\<lparr>adc := (adc s2)\<lparr>adc_timer_on := True\<rparr>\<rparr>"
  define s4 where "s4 = single_stable_timer_start (s3\<lparr>scr := (scr s3)\<lparr>timer_1ms := Some (timer_1ms_delay (scr s3))\<rparr>\<rparr>)"
  have k: "keeps s2 s3" "keeps s2 s4" "keeps s2 (set_cz f s4)" for f
    by (simp_all add: s3_def s4_def keeps_def single_stable_timer_start_def set_cz_def)
  have "s' = s2 \<or> s' = s3 \<or> s' = set_cz (\<lambda>c. c\<lparr>even_flag := True\<rparr>) s4 \<or> measure_step s4 = Some s'"
    using assms(2) False s2
    by (auto simp: cross_zero_check_entry_def s1_def s3_def s4_def Let_def
        split: Option.bind_splits if_splits)
  with i2 k show ?thesis using measure_step_inv by (blast intro: keeps_inv)
qed

lemma sample_step_inv: "angle_inv s \<Longrightarrow> angle_inv (adc_sample_step v i s)"
proof -
  assume i: "angle_inv s"
  let ?t = "adc_checks v i s"
  have t: "angle_inv ?t" using i keeps_adc_checks by (blast intro: keeps_inv)
  have "angle_inv (RELAY_OFF (?t\<lparr>ccr := update_pass_angle (f32_of_int MIN_PASS_ANGLE) (ccr ?t)\<rparr>))"
    using t by (intro keeps_inv[OF keeps_relay]) (simp add: angle_inv_def the_pid_def update_pass_angle_def)
  moreover have "angle_inv (s\<lparr>ccr := update_scr_voltage 0 (update_i_load 0 (ccr s))\<rparr>)"
    using i by (simp add: angle_inv_def the_pid_def update_scr_voltage_def update_i_load_def)
  ultimately show ?thesis using t by (simp add: adc_sample_step_def Let_def)
qed

lemma para_init_inv:
  "calc (the_pid s) = Single_neural \<Longrightarrow> angle_range (angle (ccr s)) \<Longrightarrow> angle_inv (set_pid (pid_para_init x) s)"
  by (simp add: angle_inv_def set_pid_def the_pid_def pid_para_init_def app_para_def pid_init_def)

lemma pid_thread_inv:
  assumes "angle_inv s" "pid_thread_step x (ph, s) = Some (ph', s')"
  shows "angle_inv s'"
proof (cases ph)
  case Top
  define t where "t = (RELAY_ON_NO_SET_FALG s)\<lparr>ccr := update_pass_angle (f32_of_int MIN_PASS_ANGLE) (ccr s)\<rparr>"
  have "angle_inv (set_pid (pid_para_init x) t)"
    using assms(1) by (intro para_init_inv)
      (simp_all add: t_def angle_inv_def the_pid_def RELAY_ON_NO_SET_FALG_def update_pass_angle_def)
  moreover have "s' = s \<or> s' = set_pid (pid_para_init x) t"
    using assms(2) Top by (auto simp: pid_thread_step_def t_def RELAY_ON_NO_SET_FALG_def Let_def split: if_splits)
  ultimately show ?thesis using assms(1) by blast
next
  case Closing
  define t where "t = s\<lparr>ccr := SET_SYS_STATUS_BIT RELAY_STATUS_POS (ccr s)\<rparr>"
  have "angle_inv t" using assms(1) by (simp add: t_def angle_inv_def the_pid_def SET_SYS_STATUS_BIT_def)
  then have "angle_inv (set_pid (pid_ref_set r) t)" for r by (rule set_ref_inv)
  then have "angle_inv ((set_pid (pid_ref_set r) t)\<lparr>app := (app (set_pid (pid_ref_set r) t))\<lparr>g_ctrl_cycle := CTRL_CYCLE\<rparr>\<rparr>)"
    for r by (simp add: angle_inv_def the_pid_def)
  with assms(2) Closing show ?thesis
    by (auto simp: pid_thread_step_def Let_def t_def split: option.splits)
qed

lemma fire_inv:
  assumes "angle_inv s" "fire e (ph, s) = Some (ph', s')"
  shows "angle_inv s'"
proof (cases e)
  case (Cross us)
  with assms show ?thesis using cross_zero_inv by auto
next
  case (Sample_turn v i)
  with assms show ?thesis using sample_step_inv by auto
next
  case (Pid_turn x)
  with assms show ?thesis using pid_thread_inv by auto
qed (use assms in \<open>auto simp: angle_inv_def the_pid_def timer5_cb_def cross_zero_timer_stop_def set_cz_def
    single_stable_timer_cb_def single_stable_timer_stop_def DISABLE_SCR_TRIGER_def update_idensity_def\<close>)

lemma boot_inv: "angle_inv (snd (boot x s))"
  unfolding boot_def ccr_init_def Let_def
  by (simp add: angle_inv_def the_pid_def set_pid_def pid_para_init_def app_para_def pid_init_def data_base_init_def)

lemma reach_inv: "reach q \<Longrightarrow> angle_inv (snd q)"
proof (induction rule: reach.induct)
  case (reach_boot x s)
  show ?case by (rule boot_inv)
next
  case (reach_fire ph s e q)
  then show ?case using fire_inv[of s e ph "fst q" "snd q"] by simp
qed

section \<open>When the crossings become valid\<close>

fun check_run :: "u32 list \<Rightarrow> sys \<Rightarrow> sys option" where
  "check_run [] s = Some s"
| "check_run (u # us) s = Option.bind (cross_zero_period_check u s) (check_run us)"

text \<open>A half period no shorter than \<open>LowCZWarnTime\<close>, with its frequency defined.\<close>

definition good_period :: "u32 \<Rightarrow> bool" where
  "good_period u = (f32_le LowCZWarnTime (period_ms u) \<and> freq_of (period_ms u) \<noteq> None)"

lemma good_period_step:
  assumes "good_period u"
  obtains s' where "cross_zero_period_check u s = Some s'"
    "stable_cnt (cz s') = (if 20 \<le> stable_cnt (cz s) + 1 then 20 else stable_cnt (cz s) + 1)"
    "int0_valid (cz s') \<longleftrightarrow> int0_valid (cz s) \<or> 20 \<le> stable_cnt (cz s) + 1"
  using assms
  by (auto simp: good_period_def cross_zero_period_check_def Let_def set_cz_def DISABLE_SCR_TRIGER_def
      Int0StableNum_def)

lemma check_run_good:
  "list_all good_period us \<Longrightarrow> unat (stable_cnt (cz s)) \<le> 20 \<Longrightarrow>
   \<exists>s'. check_run us s = Some s' \<and> unat (stable_cnt (cz s')) = min 20 (unat (stable_cnt (cz s)) + length us) \<and>
     (int0_valid (cz s') \<longleftrightarrow> int0_valid (cz s) \<or> (us \<noteq> [] \<and> 20 \<le> unat (stable_cnt (cz s)) + length us))"
proof (induction us arbitrary: s)
  case (Cons u us)
  from Cons.prems have g: "good_period u" by simp
  obtain t where t: "cross_zero_period_check u s = Some t"
    "stable_cnt (cz t) = (if 20 \<le> stable_cnt (cz s) + 1 then 20 else stable_cnt (cz s) + 1)"
    "int0_valid (cz t) \<longleftrightarrow> int0_valid (cz s) \<or> 20 \<le> stable_cnt (cz s) + 1"
    by (rule good_period_step[OF g])
  have n: "unat (stable_cnt (cz s) + 1) = unat (stable_cnt (cz s)) + 1"
    using Cons.prems(2) by (intro uint8_inc) simp
  have t2: "unat (stable_cnt (cz t)) = min 20 (unat (stable_cnt (cz s)) + 1)"
    "int0_valid (cz t) \<longleftrightarrow> int0_valid (cz s) \<or> 20 \<le> unat (stable_cnt (cz s)) + 1"
    using t(2,3) n by (auto simp: word_le_nat_alt)
  from Cons.IH[of t] Cons.prems t2(1) obtain s' where s': "check_run us t = Some s'"
    "unat (stable_cnt (cz s')) = min 20 (unat (stable_cnt (cz t)) + length us)"
    "int0_valid (cz s') \<longleftrightarrow> int0_valid (cz t) \<or> (us \<noteq> [] \<and> 20 \<le> unat (stable_cnt (cz t)) + length us)"
    by auto
  have "int0_valid (cz s') \<longleftrightarrow> int0_valid (cz s) \<or> 20 \<le> unat (stable_cnt (cz s)) + length (u # us)"
    using s'(3) t2 Cons.prems(2) by (cases us) (auto simp: min_def split: if_splits)
  with s' t t2 show ?case by (simp add: min_def)
qed simp

section \<open>Properties\<close>

lemma boot_reach: "reach (boot 0 sys0)"
  by (rule reach_boot)





text \<open>From an invalid state with the counter at zero, crossings are taken for valid after
  exactly twenty good half periods in a row, and the counter never leaves its range.\<close>

theorem crossings_valid_after_twenty:
  assumes "list_all good_period us" "stable_cnt (cz s) = 0" "\<not> int0_valid (cz s)"
  shows "\<exists>s'. check_run us s = Some s' \<and> (int0_valid (cz s') \<longleftrightarrow> 20 \<le> length us) \<and>
    unat (stable_cnt (cz s')) = min 20 (length us)"
  using check_run_good[of us s] assms by auto

lemma crossings_valid_after_twenty_witness:
  "\<exists>s'. check_run (replicate 20 10000) (timer5_cb sys0) = Some s' \<and> int0_valid (cz s')"
proof -
  have g: "good_period 10000" by code_simp
  have "stable_cnt (cz (timer5_cb sys0)) = 0" "\<not> int0_valid (cz (timer5_cb sys0))"
    by (simp_all add: timer5_cb_def cross_zero_timer_stop_def set_cz_def sys0_def)
  from crossings_valid_after_twenty[OF _ this, of "replicate 20 10000"] g show ?thesis
    by (auto simp: list_all_length)
qed

text \<open>A brightness level above five makes the handler read past the five entries of
  \<open>Istd\<close>: the controller thread checks the level, the interrupt does not.\<close>

theorem level_above_five_reads_past_table:
  assumes "5 < intensity (ccr s)"
  shows "control_step s = None"
proof -
  have "0 < intensity (ccr s)" using assms by (metis order_less_trans word_coorder.not_eq_extremum word_not_simps(1) word_zero_le order_le_less)
  moreover have "5 < uint (intensity (ccr s))" using assms by (simp add: word_less_def)
  ultimately show ?thesis by (simp add: control_step_def Istd_level_def)
qed

lemma level_above_five_reads_past_table_witness:
  "control_step (sys0\<lparr>ccr := buf_set ccr_zero 2 6\<rparr>) = None"
proof -
  have "ccr_wf ccr_zero" by (simp add: ccr_zero_def)
  then show ?thesis by (intro level_above_five_reads_past_table) (simp add: buf_set_named)
qed

text \<open>The level is checked before the 300 ms wait and used after it.  There is a run in which
  it is set to zero in between, and then the thread reads the table below its first entry.\<close>

theorem closing_race_reachable:
  "\<exists>s. reach (Closing, s) \<and> intensity (ccr s) = 0 \<and> fire (Pid_turn 0) (Closing, s) = None"
proof -
  let ?b = "boot 0 (sys0\<lparr>ccr := ccr_zero\<lparr>intensity := 3\<rparr>\<rparr>)"
  have b: "fst ?b = Top" "g_pid_enable (app (snd ?b)) \<noteq> 0" "relay_is_off (snd ?b)"
    "\<not> IS_SYS_FAULT_EXIST (ccr (snd ?b))" "intensity (ccr (snd ?b)) = 3"
    by (simp_all add: boot_def ccr_init_def set_pid_def data_base_init_def Let_def relay_is_off_iff
        relay_is_on_iff IS_SYS_FAULT_EXIST_def)
  then obtain s where s: "pid_thread_step 0 (Top, snd ?b) = Some (Closing, s)"
    by (simp add: pid_thread_step_def Let_def)
  have r0: "reach (Top, snd ?b)" using reach_boot[of 0 "sys0\<lparr>ccr := ccr_zero\<lparr>intensity := 3\<rparr>\<rparr>"] b(1)
    by (metis prod.collapse)
  have r1: "reach (Closing, s)" by (rule reach_fire[OF r0, of "Pid_turn 0"]) (simp_all add: s)
  let ?t = "s\<lparr>ccr := update_idensity 0 (ccr s)\<rparr>"
  have r2: "reach (Closing, ?t)" by (rule reach_fire[OF r1, of "Level 0"]) simp_all
  have "intensity (ccr ?t) = 0" by (simp add: update_idensity_def)
  moreover from this have "fire (Pid_turn 0) (Closing, ?t) = None"
    by (simp add: pid_thread_step_def Let_def SET_SYS_STATUS_BIT_def Istd_level_def)
  ultimately show ?thesis using r2 by blast
qed

end
