(* ===== verification/RtDef.thy ===== *)
theory RtDef
  imports Prelude
begin

text \<open>
  Constants of the RT-Thread headers that several parts of the firmware share: the error
  codes of include/rtdef.h and the tick rate of rtconfig.h.  A function returns a code
  negated, as the sources do.
\<close>

definition RT_EOK :: int where "RT_EOK = 0"
definition RT_ERROR :: int where "RT_ERROR = 1"
definition RT_ETIMEOUT :: int where "RT_ETIMEOUT = 2"
definition RT_EFULL :: int where "RT_EFULL = 3"
definition RT_EINVAL :: int where "RT_EINVAL = 10"

definition RT_TICK_PER_SECOND :: nat where "RT_TICK_PER_SECOND = 200"

text \<open>\<open>RT_ALIGN(n, RT_ALIGN_SIZE)\<close> for an alignment of 4.\<close>

definition RT_ALIGN :: "u32 \<Rightarrow> u32" where
  "RT_ALIGN n = (n + 4 - 1) AND NOT (4 - 1)"

end
