(* ===== verification/At24.thy ===== *)
theory At24
  imports RtDef
begin

text \<open>
  packages/at24cxx-latest/at24cxx.c for the AT24C02 (8-byte pages, 256 bytes, one address
  byte): the driver of the EEPROM that keeps the parameters.  The bus with the chip on it
  is a parameter \<open>xfer\<close> of every operation: it takes the state of the chip and the messages
  of one \<open>rt_i2c_transfer\<close>, and gives the value returned (messages done, or a negative
  error), the bytes received and the new state.  \<open>lk\<close> is what \<open>rt_mutex_take\<close> returns.
  The locale \<open>eeprom_chip\<close> states what the data sheet promises of the chip, and the lemmas
  show that on such a chip a page write followed by a page read gives the bytes back, at
  any address and length, however they lie across the pages.
\<close>

section \<open>Messages\<close>

datatype i2c_msg = Wr u8 bool "u8 list" | Rd u8 nat

type_synonym 'd xfer = "'d \<Rightarrow> i2c_msg list \<Rightarrow> int \<times> u8 list \<times> 'd"

definition AT24CXX_ADDR :: u8 where "AT24CXX_ADDR = 0x50"
definition AT24CXX_PAGE_BYTE :: nat where "AT24CXX_PAGE_BYTE = 8"
definition AT24CXX_MAX_MEM_ADDRESS :: nat where "AT24CXX_MAX_MEM_ADDRESS = 256"

text \<open>A transfer writes the bytes it received over the start of the caller's buffer.\<close>

definition fill :: "u8 list \<Rightarrow> u8 list \<Rightarrow> u8 list" where
  "fill old new = take (length old) new @ drop (length new) old"

definition rt_i2c_master_send :: "'d xfer \<Rightarrow> u8 \<Rightarrow> u8 list \<Rightarrow> 'd \<Rightarrow> int \<times> 'd" where
  "rt_i2c_master_send xfer addr buf d =
     (case xfer d [Wr addr False buf] of
        (ret, _, d) \<Rightarrow> (if 0 < ret then int (length buf) else ret, d))"

section \<open>Single bytes\<close>

text \<open>\<open>a\<close> is \<open>dev->AddrInput\<close>.\<close>

definition read_regs :: "'d xfer \<Rightarrow> u8 \<Rightarrow> u8 list \<Rightarrow> 'd \<Rightarrow> int \<times> u8 list \<times> 'd" where
  "read_regs xfer a buf d =
     (case xfer d [Rd (AT24CXX_ADDR OR a) (length buf)] of
        (ret, bs, d) \<Rightarrow> (if ret = 1 then RT_EOK else - RT_ERROR, fill buf bs, d))"

text \<open>\<open>temp\<close> is the local that a failed read leaves as it was.\<close>

definition at24cxx_read_one_byte :: "'d xfer \<Rightarrow> u8 \<Rightarrow> u8 \<Rightarrow> u16 \<Rightarrow> 'd \<Rightarrow> u8 \<times> 'd" where
  "at24cxx_read_one_byte xfer a temp readAddr d =
     (case rt_i2c_master_send xfer (AT24CXX_ADDR OR a) [lo8 readAddr] d of
        (ret, d) \<Rightarrow>
          if ret = 0 then (word_of_int RT_ERROR, d)
          else (case read_regs xfer a [temp] d of (_, bs, d) \<Rightarrow> (hd bs, d)))"

definition at24cxx_write_one_byte :: "'d xfer \<Rightarrow> u8 \<Rightarrow> u16 \<Rightarrow> u8 \<Rightarrow> 'd \<Rightarrow> int \<times> 'd" where
  "at24cxx_write_one_byte xfer a writeAddr dataToWrite d =
     (case rt_i2c_master_send xfer (AT24CXX_ADDR OR a) [lo8 writeAddr, dataToWrite] d of
        (ret, d) \<Rightarrow> (if ret = 2 then RT_EOK else - RT_ERROR, d))"

definition at24cxx_check :: "'d xfer \<Rightarrow> u8 \<Rightarrow> u8 \<Rightarrow> 'd \<Rightarrow> int \<times> 'd" where
  "at24cxx_check xfer a temp d =
     (let last = of_nat (AT24CXX_MAX_MEM_ADDRESS - 1)
      in case at24cxx_read_one_byte xfer a temp last d of
        (t, d) \<Rightarrow>
          if t = 0x55 then (RT_EOK, d)
          else (case at24cxx_write_one_byte xfer a last 0x55 d of
            (_, d) \<Rightarrow> (case at24cxx_read_one_byte xfer a temp last d of
              (t, d) \<Rightarrow> (if t = 0x55 then RT_EOK else RT_ERROR, d))))"

text \<open>\<open>at24cxx_read\<close>: byte by byte.  \<open>pBuffer\<close> is the caller's buffer of \<open>NumToRead\<close> bytes.\<close>

fun at24cxx_read_loop :: "'d xfer \<Rightarrow> u8 \<Rightarrow> u8 \<Rightarrow> u32 \<Rightarrow> nat \<Rightarrow> 'd \<Rightarrow> u8 list \<times> 'd" where
  "at24cxx_read_loop xfer a temp addr 0 d = ([], d)"
| "at24cxx_read_loop xfer a temp addr (Suc n) d =
     (case at24cxx_read_one_byte xfer a temp (ucast addr) d of
        (b, d) \<Rightarrow> (case at24cxx_read_loop xfer a temp (addr + 1) n d of (bs, d) \<Rightarrow> (b # bs, d)))"

definition too_long :: "u32 \<Rightarrow> u8 list \<Rightarrow> bool" where
  "too_long addr buf = (AT24CXX_MAX_MEM_ADDRESS < unat (addr + of_nat (length buf)))"

definition at24cxx_read :: "'d xfer \<Rightarrow> int \<Rightarrow> u8 \<Rightarrow> u8 \<Rightarrow> u32 \<Rightarrow> u8 list \<Rightarrow> 'd \<Rightarrow> int \<times> u8 list \<times> 'd" where
  "at24cxx_read xfer lk a temp addr buf d =
     (if too_long addr buf then (RT_ERROR, buf, d)
      else if lk = RT_EOK then
        (case at24cxx_read_loop xfer a temp addr (length buf) d of (bs, d) \<Rightarrow> (RT_EOK, bs, d))
      else (RT_EOK, buf, d))"

text \<open>\<open>at24cxx_write\<close> repeats a failed byte for ever, and tests for the end only after a
  byte: it may not return, and with no bytes to write it reads past the buffer.\<close>

partial_function (option) at24cxx_write_loop ::
    "'d xfer \<Rightarrow> u8 \<Rightarrow> u32 \<Rightarrow> u8 list \<Rightarrow> nat \<Rightarrow> 'd \<Rightarrow> 'd option" where
  "at24cxx_write_loop xfer a addr buf i d =
     (if length buf \<le> i then None
      else (case at24cxx_write_one_byte xfer a (ucast addr) (buf ! i) d of
        (r, d) \<Rightarrow>
          if r \<noteq> RT_EOK then
            (if i = length buf then Some d else at24cxx_write_loop xfer a addr buf i d)
          else if i + 1 = length buf then Some d
          else at24cxx_write_loop xfer a (addr + 1) buf (i + 1) d))"

definition at24cxx_write :: "'d xfer \<Rightarrow> int \<Rightarrow> u8 \<Rightarrow> u32 \<Rightarrow> u8 list \<Rightarrow> 'd \<Rightarrow> (int \<times> 'd) option" where
  "at24cxx_write xfer lk a addr buf d =
     (if too_long addr buf then Some (RT_ERROR, d)
      else if lk = RT_EOK then map_option (Pair RT_EOK) (at24cxx_write_loop xfer a addr buf 0 d)
      else Some (RT_EOK, d))"

section \<open>Pages\<close>

definition at24cxx_read_page :: "'d xfer \<Rightarrow> u8 \<Rightarrow> u32 \<Rightarrow> u8 list \<Rightarrow> 'd \<Rightarrow> int \<times> u8 list \<times> 'd" where
  "at24cxx_read_page xfer a readAddr buf d =
     (case xfer d [Wr (AT24CXX_ADDR OR a) False [ucast readAddr], Rd (AT24CXX_ADDR OR a) (length buf)] of
        (ret, bs, d) \<Rightarrow> (if ret = 0 then RT_ERROR else RT_EOK, fill buf bs, d))"

definition at24cxx_write_page :: "'d xfer \<Rightarrow> u8 \<Rightarrow> u32 \<Rightarrow> u8 list \<Rightarrow> 'd \<Rightarrow> int \<times> 'd" where
  "at24cxx_write_page xfer a writeAddr buf d =
     (case xfer d [Wr (AT24CXX_ADDR OR a) False [ucast writeAddr], Wr (AT24CXX_ADDR OR a) True buf] of
        (ret, _, d) \<Rightarrow> (if ret = 0 then RT_ERROR else RT_EOK, d))"

text \<open>The loops.  \<open>psize\<close> is \<open>8 - addr mod 8\<close> at first and 8 afterwards, so never zero;
  \<open>buf\<close> is what is left of the caller's buffer, \<open>res\<close> the result so far.\<close>

function page_read_loop ::
    "'d xfer \<Rightarrow> u8 \<Rightarrow> u32 \<Rightarrow> u8 list \<Rightarrow> nat \<Rightarrow> int \<Rightarrow> 'd \<Rightarrow> int \<times> u8 list \<times> 'd" where
  "page_read_loop xfer a addr buf psize res d =
     (if buf = [] \<or> psize = 0 then (res, [], d)
      else if psize < length buf then
        (case at24cxx_read_page xfer a addr (take psize buf) d of
          (r, bs, d) \<Rightarrow>
            (case page_read_loop xfer a (addr + of_nat psize) (drop psize buf) AT24CXX_PAGE_BYTE
                    (if r \<noteq> 0 then RT_ERROR else res) d of
              (res, bs', d) \<Rightarrow> (res, bs @ bs', d)))
      else (case at24cxx_read_page xfer a addr buf d of
          (r, bs, d) \<Rightarrow> (if r \<noteq> 0 then RT_ERROR else res, bs, d)))"
  by pat_completeness auto
termination by (relation "measure (\<lambda>(_, _, _, buf, _). length buf)") auto

function page_write_loop :: "'d xfer \<Rightarrow> u8 \<Rightarrow> u32 \<Rightarrow> u8 list \<Rightarrow> nat \<Rightarrow> int \<Rightarrow> 'd \<Rightarrow> int \<times> 'd" where
  "page_write_loop xfer a addr buf psize res d =
     (if buf = [] \<or> psize = 0 then (res, d)
      else if psize < length buf then
        (case at24cxx_write_page xfer a addr (take psize buf) d of
          (r, d) \<Rightarrow> page_write_loop xfer a (addr + of_nat psize) (drop psize buf) AT24CXX_PAGE_BYTE
                      (if r \<noteq> 0 then RT_ERROR else res) d)
      else (case at24cxx_write_page xfer a addr buf d of
          (r, d) \<Rightarrow> (if r \<noteq> 0 then RT_ERROR else res, d)))"
  by pat_completeness auto
termination by (relation "measure (\<lambda>(_, _, _, buf, _). length buf)") auto

declare page_read_loop.simps [simp del] page_write_loop.simps [simp del]

definition first_page :: "u32 \<Rightarrow> nat" where
  "first_page addr = AT24CXX_PAGE_BYTE - unat addr mod AT24CXX_PAGE_BYTE"

definition at24cxx_page_read :: "'d xfer \<Rightarrow> int \<Rightarrow> u8 \<Rightarrow> u32 \<Rightarrow> u8 list \<Rightarrow> 'd \<Rightarrow> int \<times> u8 list \<times> 'd" where
  "at24cxx_page_read xfer lk a addr buf d =
     (if too_long addr buf then (RT_ERROR, buf, d)
      else if lk = RT_EOK then page_read_loop xfer a addr buf (first_page addr) RT_EOK d
      else (lk, buf, d))"

definition at24cxx_page_write :: "'d xfer \<Rightarrow> int \<Rightarrow> u8 \<Rightarrow> u32 \<Rightarrow> u8 list \<Rightarrow> 'd \<Rightarrow> int \<times> 'd" where
  "at24cxx_page_write xfer lk a addr buf d =
     (if too_long addr buf then (RT_ERROR, d)
      else if lk = RT_EOK then page_write_loop xfer a addr buf (first_page addr) RT_EOK d
      else (lk, d))"

section \<open>On a chip that keeps its data sheet\<close>

lemma length_fill [simp]: "length (fill old new) = length old"
  by (simp add: fill_def)

lemma fill_same [simp]: "length new = length old \<Longrightarrow> fill old new = new"
  by (simp add: fill_def)

lemma blit_append:
  "off + length xs + length ys \<le> length m \<Longrightarrow>
   blit (blit m off xs) (off + length xs) ys = blit m off (xs @ ys)"
  by (simp add: blit_def ac_simps)

text \<open>The data sheet: 256 bytes; a page write stores its bytes from the addressed byte on, if
  they stay in one 8-byte page; a random read followed by a sequential read returns them.
  \<open>a\<close> is the chip's address.\<close>

locale eeprom_chip =
  fixes xfer :: "'d xfer" and mem :: "'d \<Rightarrow> u8 list" and a :: u8
  assumes mem_length: "length (mem d) = 256"
    and page_write: "bs \<noteq> [] \<Longrightarrow> unat w mod 8 + length bs \<le> 8 \<Longrightarrow>
      \<exists>d'. xfer d [Wr (AT24CXX_ADDR OR a) False [w], Wr (AT24CXX_ADDR OR a) True bs] = (2, [], d') \<and>
        mem d' = blit (mem d) (unat w) bs"
    and seq_read: "0 < n \<Longrightarrow> unat w + n \<le> 256 \<Longrightarrow>
      \<exists>d'. xfer d [Wr (AT24CXX_ADDR OR a) False [w], Rd (AT24CXX_ADDR OR a) n] =
          (2, take n (drop (unat w) (mem d)), d') \<and> mem d' = mem d"
begin

lemma write_page_chip:
  assumes "bs \<noteq> []" "unat addr mod 8 + length bs \<le> 8" "unat addr < 256"
  shows "\<exists>d'. at24cxx_write_page xfer a addr bs d = (RT_EOK, d') \<and> mem d' = blit (mem d) (unat addr) bs"
proof -
  have "unat (ucast addr :: u8) = unat addr" using assms(3) by (simp add: unsigned_ucast_eq take_bit_eq_mod)
  then show ?thesis using page_write[of bs "ucast addr" d] assms
    by (auto simp: at24cxx_write_page_def)
qed

lemma read_page_chip:
  assumes "unat addr + length buf \<le> 256" "unat addr < 256" "buf \<noteq> []"
  shows "\<exists>d'. at24cxx_read_page xfer a addr buf d =
      (RT_EOK, take (length buf) (drop (unat addr) (mem d)), d') \<and> mem d' = mem d"
proof -
  have "unat (ucast addr :: u8) = unat addr" using assms(2) by (simp add: unsigned_ucast_eq take_bit_eq_mod)
  then show ?thesis using seq_read[of "length buf" "ucast addr" d] assms mem_length[of d]
    by (auto simp: at24cxx_read_page_def)
qed

lemma unat_next: "unat addr + p \<le> 256 \<Longrightarrow> unat (addr + of_nat p :: u32) = unat addr + p"
  by (simp add: unat_word_ariths unat_of_nat)

lemma page_write_loop_chip:
  "unat addr mod 8 + psize = 8 \<Longrightarrow> 0 < psize \<Longrightarrow> unat addr + length buf \<le> 256 \<Longrightarrow>
   \<exists>d'. page_write_loop xfer a addr buf psize RT_EOK d = (RT_EOK, d') \<and> mem d' = blit (mem d) (unat addr) buf"
proof (induction buf arbitrary: addr psize d rule: length_induct)
  case (1 buf)
  show ?case
  proof (cases "buf = []")
    case False
    then have lt: "unat addr < 256" using 1(4) by (cases buf) auto
    show ?thesis
    proof (cases "psize < length buf")
      case True
      obtain d1 where d1: "at24cxx_write_page xfer a addr (take psize buf) d = (RT_EOK, d1)"
        "mem d1 = blit (mem d) (unat addr) (take psize buf)"
        using write_page_chip[of "take psize buf" addr d] 1(2-4) False lt True by auto
      have n: "unat (addr + of_nat psize) = unat addr + psize" using True 1(4) by (intro unat_next) simp
      have m: "unat (addr + of_nat psize) mod 8 = 0" using 1(2) unfolding n by presburger
      have "\<exists>d'. page_write_loop xfer a (addr + of_nat psize) (drop psize buf) 8 RT_EOK d1 = (RT_EOK, d') \<and>
          mem d' = blit (mem d1) (unat (addr + of_nat psize)) (drop psize buf)"
        using 1(1)[rule_format, of "drop psize buf" "addr + of_nat psize" 8 d1] m n 1(3,4) True by simp
      moreover have "blit (blit (mem d) (unat addr) (take psize buf)) (unat addr + psize) (drop psize buf)
          = blit (mem d) (unat addr) buf"
        using blit_append[of "unat addr" "take psize buf" "drop psize buf" "mem d"] True 1(4)
        by (simp add: mem_length min_def split: if_splits)
      ultimately show ?thesis using d1 n False 1(3) True
        by (subst page_write_loop.simps) (auto simp: AT24CXX_PAGE_BYTE_def RT_EOK_def)
    next
      case last: False
      with write_page_chip[of buf addr d] 1(2-4) False lt show ?thesis
        by (subst page_write_loop.simps) (auto simp: RT_EOK_def)
    qed
  qed (subst page_write_loop.simps, simp)
qed

lemma page_read_loop_chip:
  "unat addr mod 8 + psize = 8 \<Longrightarrow> 0 < psize \<Longrightarrow> unat addr + length buf \<le> 256 \<Longrightarrow>
   \<exists>d'. page_read_loop xfer a addr buf psize RT_EOK d =
       (RT_EOK, take (length buf) (drop (unat addr) (mem d)), d') \<and> mem d' = mem d"
proof (induction buf arbitrary: addr psize d rule: length_induct)
  case (1 buf)
  show ?case
  proof (cases "buf = []")
    case False
    then have lt: "unat addr < 256" using 1(4) by (cases buf) auto
    show ?thesis
    proof (cases "psize < length buf")
      case True
      obtain d1 where d1: "at24cxx_read_page xfer a addr (take psize buf) d =
          (RT_EOK, take psize (drop (unat addr) (mem d)), d1)" "mem d1 = mem d"
        using read_page_chip[of addr "take psize buf" d] 1(3,4) False lt True by auto
      have n: "unat (addr + of_nat psize) = unat addr + psize" using True 1(4) by (intro unat_next) simp
      have m: "unat (addr + of_nat psize) mod 8 = 0" using 1(2) unfolding n by presburger
      have "\<exists>d'. page_read_loop xfer a (addr + of_nat psize) (drop psize buf) 8 RT_EOK d1 =
          (RT_EOK, take (length buf - psize) (drop (unat (addr + of_nat psize)) (mem d1)), d') \<and> mem d' = mem d1"
        using 1(1)[rule_format, of "drop psize buf" "addr + of_nat psize" 8 d1] m n 1(3,4) True by simp
      moreover have "take psize (drop (unat addr) (mem d)) @
          take (length buf - psize) (drop (unat addr + psize) (mem d)) = take (length buf) (drop (unat addr) (mem d))"
        using True take_add[of psize "length buf - psize" "drop (unat addr) (mem d)"] by (simp add: add.commute)
      ultimately show ?thesis using d1 n False 1(3) True
        by (subst page_read_loop.simps) (auto simp: AT24CXX_PAGE_BYTE_def RT_EOK_def)
    next
      case last: False
      with read_page_chip[of addr buf d] 1(2-4) False lt show ?thesis
        by (subst page_read_loop.simps) (auto simp: RT_EOK_def)
    qed
  qed (subst page_read_loop.simps, simp)
qed

lemma not_too_long: "unat addr + length buf \<le> 256 \<Longrightarrow> \<not> too_long addr buf"
  by (simp add: too_long_def AT24CXX_MAX_MEM_ADDRESS_def unat_next)

lemma first_page_chip: "unat addr mod 8 + first_page addr = 8" "0 < first_page addr"
  by (simp_all add: first_page_def AT24CXX_PAGE_BYTE_def)

lemma page_write_chip:
  "unat addr + length buf \<le> 256 \<Longrightarrow>
   \<exists>d'. at24cxx_page_write xfer RT_EOK a addr buf d = (RT_EOK, d') \<and> mem d' = blit (mem d) (unat addr) buf"
  using page_write_loop_chip[OF first_page_chip] by (simp add: at24cxx_page_write_def not_too_long)

lemma page_read_chip:
  "unat addr + length buf \<le> 256 \<Longrightarrow>
   \<exists>d'. at24cxx_page_read xfer RT_EOK a addr buf d =
       (RT_EOK, take (length buf) (drop (unat addr) (mem d)), d') \<and> mem d' = mem d"
  using page_read_loop_chip[OF first_page_chip] by (simp add: at24cxx_page_read_def not_too_long)

lemma read_after_write:
  assumes "unat addr + length bs \<le> 256" "length buf = length bs"
  shows "\<exists>d' d''. at24cxx_page_write xfer RT_EOK a addr bs d = (RT_EOK, d') \<and>
    at24cxx_page_read xfer RT_EOK a addr buf d' = (RT_EOK, bs, d'') \<and> mem d'' = blit (mem d) (unat addr) bs"
proof -
  obtain d' where w: "at24cxx_page_write xfer RT_EOK a addr bs d = (RT_EOK, d')"
    "mem d' = blit (mem d) (unat addr) bs" using page_write_chip[OF assms(1)] by blast
  obtain d'' where r: "at24cxx_page_read xfer RT_EOK a addr buf d' =
      (RT_EOK, take (length bs) (drop (unat addr) (mem d')), d'')" "mem d'' = mem d'"
    using page_read_chip[of addr buf d'] assms by auto
  have "take (length bs) (drop (unat addr) (mem d')) = bs"
    using assms(1) by (simp add: w(2) mem_length)
  with w r show ?thesis by auto
qed

end

section \<open>The AT24C02\<close>

text \<open>The chip of the data sheet: its cells and its address counter.  A write stores at the
  counter, which wraps inside its page; a read returns cells and wraps at the end; a
  message to another address is not acknowledged (\<open>- RT_EIO\<close>).\<close>

record chip =
  cells :: "u8 \<Rightarrow> u8"
  ptr :: u8

definition next_in_page :: "u8 \<Rightarrow> u8" where
  "next_in_page w = (if w mod 8 = 7 then w - 7 else w + 1)"

fun chip_store :: "u8 list \<Rightarrow> chip \<Rightarrow> chip" where
  "chip_store [] c = c"
| "chip_store (b # bs) c = chip_store bs \<lparr>cells = (cells c)(ptr c := b), ptr = next_in_page (ptr c)\<rparr>"

fun chip_msg :: "i2c_msg \<Rightarrow> chip \<Rightarrow> (u8 list \<times> chip) option" where
  "chip_msg (Wr x ns bs) c =
     (if x \<noteq> AT24CXX_ADDR then None
      else if ns then Some ([], chip_store bs c)
      else Some (case bs of [] \<Rightarrow> ([], c) | w # bs \<Rightarrow> ([], chip_store bs (c\<lparr>ptr := w\<rparr>))))"
| "chip_msg (Rd x n) c =
     (if x \<noteq> AT24CXX_ADDR then None
      else Some (map (\<lambda>k. cells c (ptr c + of_nat k)) [0..<n], c\<lparr>ptr := ptr c + of_nat n\<rparr>))"

fun chip_xfer :: "chip xfer" where
  "chip_xfer c [m] = (case chip_msg m c of None \<Rightarrow> (-8, [], c) | Some (bs, c) \<Rightarrow> (1, bs, c))"
| "chip_xfer c [m, n] = (case chip_msg m c of None \<Rightarrow> (-8, [], c) | Some (bs, c) \<Rightarrow>
     (case chip_msg n c of None \<Rightarrow> (-8, bs, c) | Some (bs', c) \<Rightarrow> (2, bs @ bs', c)))"
| "chip_xfer c _ = (0, [], c)"

definition chip_mem :: "chip \<Rightarrow> u8 list" where
  "chip_mem c = map (\<lambda>i. cells c (of_nat i)) [0..<256]"

lemma length_chip_mem [simp]: "length (chip_mem c) = 256"
  by (simp add: chip_mem_def)

lemma nth_chip_mem: "i < 256 \<Longrightarrow> chip_mem c ! i = cells c (of_nat i)"
  by (simp add: chip_mem_def)

lemma chip_mem_update: "chip_mem (c\<lparr>cells := (cells c)(w := b), ptr := q\<rparr>) = blit (chip_mem c) (unat w) [b]"
proof (rule nth_equalityI)
  fix i assume "i < length (chip_mem (c\<lparr>cells := (cells c)(w := b), ptr := q\<rparr>))"
  then have i: "i < 256" by simp
  have "of_nat i = w \<longleftrightarrow> i = unat w" using i by (auto simp: unat_of_nat)
  then show "chip_mem (c\<lparr>cells := (cells c)(w := b), ptr := q\<rparr>) ! i = blit (chip_mem c) (unat w) [b] ! i"
    using i unat_u8_less[of w] by (auto simp: nth_chip_mem nth_blit)
qed (use unat_u8_less[of w] in simp)

lemma unat_next_in_page:
  "unat w mod 8 < 7 \<Longrightarrow> unat (next_in_page w) = unat w + 1"
proof -
  assume a: "unat w mod 8 < 7"
  then have "w mod 8 \<noteq> 7" using unat_mod[of w 8] by auto
  moreover have "unat w < 255" using a unat_u8_less[of w] by presburger
  ultimately show ?thesis by (simp add: next_in_page_def unat_word_ariths)
qed

lemma chip_store_mem:
  "unat (ptr c) mod 8 + length bs \<le> 8 \<Longrightarrow> chip_mem (chip_store bs c) = blit (chip_mem c) (unat (ptr c)) bs"
proof (induction bs arbitrary: c)
  case (Cons b bs)
  let ?c = "\<lparr>cells = (cells c)(ptr c := b), ptr = next_in_page (ptr c)\<rparr>"
  have c: "chip_mem ?c = blit (chip_mem c) (unat (ptr c)) [b]"
    using chip_mem_update[where c = c and w = "ptr c" and b = b and q = "next_in_page (ptr c)"]
    by (cases c) simp
  show ?case
  proof (cases "bs = []")
    case False
    then have "length bs \<ge> 1" by (cases bs) auto
    with Cons.prems have m: "unat (ptr c) mod 8 < 7" by simp
    then have n: "unat (ptr ?c) = unat (ptr c) + 1" by (simp add: unat_next_in_page)
    have "unat (ptr ?c) mod 8 + length bs \<le> 8" using m Cons.prems unfolding n by (simp add: mod_Suc)
    from Cons.IH[OF this] n c have "chip_mem (chip_store (b # bs) c) =
        blit (blit (chip_mem c) (unat (ptr c)) [b]) (unat (ptr c) + length [b]) bs" by simp
    also have "\<dots> = blit (chip_mem c) (unat (ptr c)) ([b] @ bs)"
    proof (rule blit_append)
      have "unat (ptr c) mod 8 + Suc (length bs) \<le> 8" using Cons.prems by simp
      then have "unat (ptr c) + Suc (length bs) \<le> 256" using unat_u8_less[of "ptr c"] by presburger
      then show "unat (ptr c) + length [b] + length bs \<le> length (chip_mem c)" by simp
    qed
    finally show ?thesis by simp
  qed (simp add: c)
qed simp

lemma chip_addr [simp]: "AT24CXX_ADDR OR 0x50 = AT24CXX_ADDR"
  by (simp add: AT24CXX_ADDR_def)

interpretation at24c02: eeprom_chip chip_xfer chip_mem "0x50"
proof
  show "length (chip_mem d) = 256" for d by simp
  show "\<exists>d'. chip_xfer d [Wr (AT24CXX_ADDR OR 0x50) False [w], Wr (AT24CXX_ADDR OR 0x50) True bs] = (2, [], d') \<and>
      chip_mem d' = blit (chip_mem d) (unat w) bs"
    if "unat w mod 8 + length bs \<le> 8" for bs w d
  proof -
    have "chip_mem (chip_store bs (d\<lparr>ptr := w\<rparr>)) = blit (chip_mem (d\<lparr>ptr := w\<rparr>)) (unat w) bs"
      using chip_store_mem[of "d\<lparr>ptr := w\<rparr>" bs] that by simp
    moreover have "chip_mem (d\<lparr>ptr := w\<rparr>) = chip_mem d" by (simp add: chip_mem_def)
    ultimately show ?thesis by simp
  qed
  show "\<exists>d'. chip_xfer d [Wr (AT24CXX_ADDR OR 0x50) False [w], Rd (AT24CXX_ADDR OR 0x50) n] =
      (2, take n (drop (unat w) (chip_mem d)), d') \<and> chip_mem d' = chip_mem d"
    if "unat w + n \<le> 256" for w n d
  proof -
    have "map (\<lambda>k. cells d (w + of_nat k)) [0..<n] = take n (drop (unat w) (chip_mem d))"
      by (rule nth_equalityI) (use that in \<open>auto simp: nth_chip_mem\<close>)
    then show ?thesis by (simp add: chip_mem_def)
  qed
qed

section \<open>Properties\<close>



lemma page_write_loop_bus_error:
  assumes "\<And>d ms. fst (xfer d ms) < 0"
  shows "fst (page_write_loop xfer a addr buf psize RT_EOK d) = RT_EOK"
proof -
  have w: "fst (at24cxx_write_page xfer a addr bs d) = RT_EOK" for addr bs d
    using assms[of d "[Wr (AT24CXX_ADDR OR a) False [ucast addr], Wr (AT24CXX_ADDR OR a) True bs]"]
    by (auto simp: at24cxx_write_page_def split: prod.splits)
  show ?thesis
  proof (induction buf arbitrary: addr psize d rule: length_induct)
    case (1 buf)
    show ?case
      using 1 w[of addr "take psize buf" d] w[of addr buf d]
      by (subst page_write_loop.simps) (auto simp: RT_EOK_def split: prod.splits)
  qed
qed

text \<open>A transfer that fails returns a negative error, and the driver tests for zero: with
  a bus on which every transfer fails, a page write still reports success, so the three
  tries of its caller are never used.\<close>

theorem page_write_hides_bus_errors:
  assumes "\<And>d ms. fst (xfer d ms) < 0" "unat addr + length bs \<le> 256"
  shows "fst (at24cxx_page_write xfer RT_EOK a addr bs d) = RT_EOK"
proof -
  have "unat (addr + of_nat (length bs) :: u32) = unat addr + length bs"
    using assms(2) by (simp add: unat_word_ariths unat_of_nat)
  then show ?thesis using page_write_loop_bus_error[of xfer] assms
    by (simp add: at24cxx_page_write_def too_long_def AT24CXX_MAX_MEM_ADDRESS_def)
qed

lemma page_write_hides_bus_errors_witness:
  "fst (at24cxx_page_write (\<lambda>d ms. (-8, [], d)) RT_EOK 0 0 [1, 2, 3] ()) = RT_EOK"
  by (rule page_write_hides_bus_errors) simp_all

end
