(* ===== verification/Crc.thy ===== *)
theory Crc
  imports Prelude
begin

text \<open>
  The Modbus CRC-16 of packages/freemodbus-latest/modbus/rtu/mbcrc.c: the two lookup
  tables and the loop of \<open>usMBCRC16\<close>.  The RTU layer appends it to every frame and
  i2c_app.c to the parameter block in the EEPROM.  The lemmas show that the table-driven
  loop computes the reflected polynomial 0xA001 bit by bit, that a block followed by its
  CRC (low byte first) checks to 0 and no other two bytes do, and that the corruption of
  any single byte is seen.  The locale \<open>frame_check\<close> is what the two clients rely on.
\<close>

section \<open>The tables and the loop\<close>

definition aucCRCHi :: "u8 list" where
  "aucCRCHi = [
    0, 193, 129, 64, 1, 192, 128, 65, 1, 192, 128, 65,
    0, 193, 129, 64, 1, 192, 128, 65, 0, 193, 129, 64,
    0, 193, 129, 64, 1, 192, 128, 65, 1, 192, 128, 65,
    0, 193, 129, 64, 0, 193, 129, 64, 1, 192, 128, 65,
    0, 193, 129, 64, 1, 192, 128, 65, 1, 192, 128, 65,
    0, 193, 129, 64, 1, 192, 128, 65, 0, 193, 129, 64,
    0, 193, 129, 64, 1, 192, 128, 65, 0, 193, 129, 64,
    1, 192, 128, 65, 1, 192, 128, 65, 0, 193, 129, 64,
    0, 193, 129, 64, 1, 192, 128, 65, 1, 192, 128, 65,
    0, 193, 129, 64, 1, 192, 128, 65, 0, 193, 129, 64,
    0, 193, 129, 64, 1, 192, 128, 65, 1, 192, 128, 65,
    0, 193, 129, 64, 0, 193, 129, 64, 1, 192, 128, 65,
    0, 193, 129, 64, 1, 192, 128, 65, 1, 192, 128, 65,
    0, 193, 129, 64, 0, 193, 129, 64, 1, 192, 128, 65,
    1, 192, 128, 65, 0, 193, 129, 64, 1, 192, 128, 65,
    0, 193, 129, 64, 0, 193, 129, 64, 1, 192, 128, 65,
    0, 193, 129, 64, 1, 192, 128, 65, 1, 192, 128, 65,
    0, 193, 129, 64, 1, 192, 128, 65, 0, 193, 129, 64,
    0, 193, 129, 64, 1, 192, 128, 65, 1, 192, 128, 65,
    0, 193, 129, 64, 0, 193, 129, 64, 1, 192, 128, 65,
    0, 193, 129, 64, 1, 192, 128, 65, 1, 192, 128, 65,
    0, 193, 129, 64]"

definition aucCRCLo :: "u8 list" where
  "aucCRCLo = [
    0, 192, 193, 1, 195, 3, 2, 194, 198, 6, 7, 199,
    5, 197, 196, 4, 204, 12, 13, 205, 15, 207, 206, 14,
    10, 202, 203, 11, 201, 9, 8, 200, 216, 24, 25, 217,
    27, 219, 218, 26, 30, 222, 223, 31, 221, 29, 28, 220,
    20, 212, 213, 21, 215, 23, 22, 214, 210, 18, 19, 211,
    17, 209, 208, 16, 240, 48, 49, 241, 51, 243, 242, 50,
    54, 246, 247, 55, 245, 53, 52, 244, 60, 252, 253, 61,
    255, 63, 62, 254, 250, 58, 59, 251, 57, 249, 248, 56,
    40, 232, 233, 41, 235, 43, 42, 234, 238, 46, 47, 239,
    45, 237, 236, 44, 228, 36, 37, 229, 39, 231, 230, 38,
    34, 226, 227, 35, 225, 33, 32, 224, 160, 96, 97, 161,
    99, 163, 162, 98, 102, 166, 167, 103, 165, 101, 100, 164,
    108, 172, 173, 109, 175, 111, 110, 174, 170, 106, 107, 171,
    105, 169, 168, 104, 120, 184, 185, 121, 187, 123, 122, 186,
    190, 126, 127, 191, 125, 189, 188, 124, 180, 116, 117, 181,
    119, 183, 182, 118, 114, 178, 179, 115, 177, 113, 112, 176,
    80, 144, 145, 81, 147, 83, 82, 146, 150, 86, 87, 151,
    85, 149, 148, 84, 156, 92, 93, 157, 95, 159, 158, 94,
    90, 154, 155, 91, 153, 89, 88, 152, 136, 72, 73, 137,
    75, 139, 138, 74, 78, 142, 143, 79, 141, 77, 76, 140,
    68, 132, 133, 69, 135, 71, 70, 134, 130, 66, 67, 131,
    65, 129, 128, 64]"

text \<open>One iteration on \<open>(ucCRCHi, ucCRCLo)\<close>, and the \<open>while (usLen--)\<close> loop over the bytes.\<close>

fun crc_step :: "u8 \<times> u8 \<Rightarrow> u8 \<Rightarrow> u8 \<times> u8" where
  "crc_step (ucCRCHi, ucCRCLo) b =
     (let iIndex = unat (ucCRCLo XOR b)
      in (aucCRCLo ! iIndex, ucCRCHi XOR aucCRCHi ! iIndex))"

fun crc_loop :: "u8 \<times> u8 \<Rightarrow> u8 list \<Rightarrow> u8 \<times> u8" where
  "crc_loop s [] = s"
| "crc_loop s (b # bs) = crc_loop (crc_step s b) bs"

definition usMBCRC16 :: "u8 list \<Rightarrow> u16" where
  "usMBCRC16 bs = (let s = crc_loop (0xFF, 0xFF) bs in mk16 (fst s) (snd s))"

section \<open>The reference: a shift register with the polynomial 0xA001\<close>

definition crc_bit :: "u16 \<Rightarrow> u16" where
  "crc_bit c = (if bit c 0 then drop_bit 1 c XOR 0xA001 else drop_bit 1 c)"

definition crc_byte :: "u16 \<Rightarrow> u8 \<Rightarrow> u16" where
  "crc_byte c b = (crc_bit ^^ 8) (c XOR ucast b)"

definition crc_ref :: "u8 list \<Rightarrow> u16" where
  "crc_ref bs = fold (\<lambda>b c. crc_byte c b) bs 0xFFFF"

abbreviation crc_shift8 :: "u16 \<Rightarrow> u16" where
  "crc_shift8 c \<equiv> (crc_bit ^^ 8) c"

lemma crc_bit_xor: "crc_bit (a XOR b) = crc_bit a XOR crc_bit b"
  unfolding crc_bit_def by (rule bit_word_eqI) (auto simp: bit_simps)

lemma crc_bits_xor: "(crc_bit ^^ n) (a XOR b) = (crc_bit ^^ n) a XOR (crc_bit ^^ n) b"
  by (induction n) (simp_all add: crc_bit_xor)

lemma crc_bits_0 [simp]: "(crc_bit ^^ n) 0 = 0"
  by (induction n) (simp_all add: crc_bit_def)

text \<open>A step can be undone: the top bit of the result says whether the polynomial was added.\<close>

lemma crc_bit_0_iff: "crc_bit c = 0 \<longleftrightarrow> c = 0"
proof
  assume z: "crc_bit c = 0"
  have top: "bit (crc_bit c) 15 = bit c 0" by (auto simp: crc_bit_def bit_simps dest: bit_imp_le_length)
  with z have b0: "\<not> bit c 0" by simp
  show "c = 0"
  proof (rule bit_word_eqI)
    fix n assume n: "n < LENGTH(16)"
    have "bit (crc_bit c) n = bit c (Suc n)" for n using b0 by (simp add: crc_bit_def bit_simps)
    with z have "\<not> bit c (Suc n)" for n by (metis bit_0_eq bot_apply bot_bool_def)
    with b0 show "bit c n = bit 0 n" by (cases n) simp_all
  qed
qed (simp add: crc_bit_def)

lemma crc_bits_0_iff: "(crc_bit ^^ n) c = 0 \<longleftrightarrow> c = 0"
  by (induction n) (simp_all add: crc_bit_0_iff)

lemma xor_eq_0_iff: "(a :: 'a :: len word) XOR b = 0 \<longleftrightarrow> a = b"
  by (metis xor.left_neutral xor_self_eq xor.assoc xor.right_neutral)

lemma crc_bits_inject: "(crc_bit ^^ n) a = (crc_bit ^^ n) b \<longleftrightarrow> a = b"
proof -
  have "(crc_bit ^^ n) a = (crc_bit ^^ n) b \<longleftrightarrow> (crc_bit ^^ n) (a XOR b) = 0"
    by (simp add: crc_bits_xor xor_eq_0_iff)
  then show ?thesis by (simp add: crc_bits_0_iff xor_eq_0_iff)
qed

lemma crc_bits_push: "k \<le> 8 \<Longrightarrow> (crc_bit ^^ k) (push_bit k (ucast (h :: u8))) = ucast h"
proof (induction k)
  case (Suc k)
  have "crc_bit (push_bit (Suc k) (ucast h)) = (push_bit k (ucast h) :: u16)"
    using Suc.prems unfolding crc_bit_def
    by (intro bit_word_eqI) (auto simp: bit_simps less_Suc_eq_le simp del: push_bit_Suc dest: bit_imp_le_length)
  then show ?case using Suc by (simp add: funpow_swap1 del: push_bit_Suc)
qed simp

section \<open>The table-driven loop computes the reference\<close>

text \<open>Both tables are linear: the entry of \<open>2\<^sup>k + j\<close> is the exclusive or of those of \<open>2\<^sup>k\<close> and \<open>j\<close>.\<close>

definition table_doubles :: "u8 list \<Rightarrow> nat \<Rightarrow> bool" where
  "table_doubles T k =
     (take (2 ^ k) (drop (2 ^ k) T) = map (\<lambda>t. t XOR T ! (2 ^ k)) (take (2 ^ k) T))"

lemma table_doubles_nth:
  "table_doubles T k \<Longrightarrow> length T = 256 \<Longrightarrow> k < 8 \<Longrightarrow> j < 2 ^ k \<Longrightarrow>
   T ! (2 ^ k + j) = T ! j XOR T ! (2 ^ k)"
proof -
  assume d: "table_doubles T k" and l: "length T = 256" and k: "k < 8" and j: "j < 2 ^ k"
  have "(2::nat) ^ k \<le> 2 ^ 7" using k by (intro power_increasing) auto
  then have "take (2 ^ k) (drop (2 ^ k) T) ! j = T ! (2 ^ k + j)"
    "map (\<lambda>t. t XOR T ! (2 ^ k)) (take (2 ^ k) T) ! j = T ! j XOR T ! (2 ^ k)"
    using j l by simp_all
  with d show ?thesis by (simp add: table_doubles_def)
qed

lemma length_tables: "length aucCRCHi = 256" "length aucCRCLo = 256"
  by (simp_all add: aucCRCHi_def aucCRCLo_def)

lemma hi_doubles: "list_all (table_doubles aucCRCHi) [0..<8]"
  by code_simp

lemma lo_doubles: "list_all (table_doubles aucCRCLo) [0..<8]"
  by code_simp

lemma tables_0: "aucCRCLo ! 0 = 0" "aucCRCHi ! 0 = 0"
  by (simp_all add: aucCRCLo_def aucCRCHi_def)

lemma tables_pow2:
  "list_all (\<lambda>k. crc_shift8 (2 ^ k) = mk16 (aucCRCLo ! (2 ^ k)) (aucCRCHi ! (2 ^ k))) [0..<8]"
  by code_simp

lemma mk16_xor: "mk16 (h XOR h') (l XOR l') = mk16 h l XOR mk16 h' l'"
  unfolding mk16_def by (rule bit_word_eqI) (auto simp: bit_simps dest: bit_imp_le_length)

lemma of_nat_pow2_xor:
  assumes "j < 2 ^ k" "k < 8" shows "of_nat (2 ^ k + j) = (of_nat j XOR 2 ^ k :: u16)"
proof -
  have "bit j n \<Longrightarrow> n < k" for n
    using assms(1) by (metis bit_take_bit_iff take_bit_nat_eq_self)
  then have "(of_nat j :: u16) AND 2 ^ k = 0"
    by (intro bit_word_eqI) (auto simp: bit_simps)
  then have "(of_nat j :: u16) + 2 ^ k = of_nat j XOR 2 ^ k"
    by (rule disjunctive_add_eq_xor)
  then show ?thesis by (simp add: add.commute)
qed

lemma tables_bitwise:
  assumes "n < 256" shows "crc_shift8 (of_nat n) = mk16 (aucCRCLo ! n) (aucCRCHi ! n)"
proof -
  have main: "n < 2 ^ k \<Longrightarrow> k \<le> 8 \<Longrightarrow> crc_shift8 (of_nat n) = mk16 (aucCRCLo ! n) (aucCRCHi ! n)" for k n
  proof (induction k arbitrary: n)
    case 0
    then show ?case by (simp add: tables_0 mk16_def)
  next
    case (Suc k)
    then have k: "k < 8" by simp
    show ?case
    proof (cases "n < 2 ^ k")
      case True
      with Suc show ?thesis by simp
    next
      case False
      then obtain j where j: "n = 2 ^ k + j" "j < 2 ^ k"
        using Suc.prems(1) by (metis add_diff_inverse_nat add_less_cancel_left mult_2 power_Suc)
      have T: "crc_shift8 (2 ^ k) = mk16 (aucCRCLo ! (2 ^ k)) (aucCRCHi ! (2 ^ k))"
        "table_doubles aucCRCHi k" "table_doubles aucCRCLo k"
        using tables_pow2 hi_doubles lo_doubles k by (simp_all add: list_all_iff)
      have "crc_shift8 (of_nat j) = mk16 (aucCRCLo ! j) (aucCRCHi ! j)"
        using Suc.IH[of j] j k by simp
      then show ?thesis
        unfolding j(1) of_nat_pow2_xor[OF j(2) k] crc_bits_xor T(1)
        using T j k by (simp add: table_doubles_nth length_tables mk16_xor)
    qed
  qed
  show ?thesis using assms by (intro main[of n 8]) simp_all
qed

text \<open>The loop's state is the two bytes of the reference's register.\<close>

lemma crc_shift8_mk16: "crc_shift8 (mk16 h l) = ucast h XOR crc_shift8 (ucast l)"
proof -
  have "mk16 h l = push_bit 8 (ucast h) XOR ucast l"
    unfolding mk16_def by (rule bit_word_eqI) (auto simp: bit_simps dest: bit_imp_le_length)
  then show ?thesis using crc_bits_push[of 8 h] by (simp only: crc_bits_xor le_refl)
qed

lemma mk16_xor_low: "mk16 h l XOR ucast b = mk16 h (l XOR b)"
  unfolding mk16_def by (rule bit_word_eqI) (auto simp: bit_simps dest: bit_imp_le_length)

lemma xor_mk16_low: "ucast h XOR mk16 a b = mk16 a (h XOR b)"
  unfolding mk16_def by (rule bit_word_eqI) (auto simp: bit_simps dest: bit_imp_le_length)

lemma crc_step_ref: "crc_step (h, l) b = (h', l') \<Longrightarrow> crc_byte (mk16 h l) b = mk16 h' l'"
proof -
  assume s: "crc_step (h, l) b = (h', l')"
  have t: "crc_shift8 (ucast (l XOR b)) = mk16 (aucCRCLo ! unat (l XOR b)) (aucCRCHi ! unat (l XOR b))"
    using tables_bitwise[OF unat_u8_less[of "l XOR b"]] by (simp only: of_nat_unat)
  have "crc_byte (mk16 h l) b = mk16 (aucCRCLo ! unat (l XOR b)) (h XOR aucCRCHi ! unat (l XOR b))"
    by (simp only: crc_byte_def mk16_xor_low crc_shift8_mk16 xor_mk16_low t)
  with s show ?thesis by (simp add: Let_def)
qed

lemma crc_loop_ref:
  "crc_loop (h, l) bs = (h', l') \<Longrightarrow> fold (\<lambda>b c. crc_byte c b) bs (mk16 h l) = mk16 h' l'"
proof (induction bs arbitrary: h l)
  case (Cons b bs)
  obtain h1 l1 where s: "crc_step (h, l) b = (h1, l1)" by force
  with Cons show ?case by (simp add: crc_step_ref[OF s])
qed simp

lemma usMBCRC16_eq_ref: "usMBCRC16 bs = crc_ref bs"
proof -
  obtain h l where s: "crc_loop (0xFF, 0xFF) bs = (h, l)" by force
  have "mk16 0xFF 0xFF = 0xFFFF" by (simp add: mk16_def)
  then show ?thesis using crc_loop_ref[OF s] by (simp add: usMBCRC16_def crc_ref_def s)
qed

section \<open>What the check detects\<close>

lemma crc_byte_inject: "crc_byte c b = crc_byte c' b' \<longleftrightarrow> c XOR ucast b = c' XOR ucast b'"
  by (simp only: crc_byte_def crc_bits_inject)

lemma crc_fold_inject:
  "fold (\<lambda>b c. crc_byte c b) bs c = fold (\<lambda>b c. crc_byte c b) bs c' \<longleftrightarrow> c = c'"
proof (induction bs arbitrary: c c')
  case (Cons b bs)
  have "crc_byte c b = crc_byte c' b \<longleftrightarrow> c = c'"
    by (simp add: crc_byte_inject) (metis xor.assoc xor.right_neutral xor_self_eq)
  with Cons show ?case by simp
qed simp

lemma crc_ref_append: "crc_ref (xs @ ys) = fold (\<lambda>b c. crc_byte c b) ys (crc_ref xs)"
  by (simp add: crc_ref_def)

lemma crc_byte_own_low: "crc_byte (mk16 h l) l = ucast h"
  by (simp only: crc_byte_def mk16_xor_low crc_shift8_mk16 xor_self_eq unsigned_0 crc_bits_0 xor.right_neutral)

lemma crc_append_0_iff: "crc_ref (xs @ [a, b]) = 0 \<longleftrightarrow> crc_ref xs = mk16 b a"
proof -
  obtain h l where c: "crc_ref xs = mk16 h l" using mk16_hi8_lo8 by metis
  have "crc_ref (xs @ [h', l']) = 0 \<longleftrightarrow> crc_byte (crc_ref xs) h' = ucast l'" for h' l'
    by (simp add: crc_ref_append) (simp only: crc_byte_def crc_bits_0_iff xor_eq_0_iff)
  moreover have "crc_byte (crc_ref xs) a = ucast b \<longleftrightarrow> crc_byte (crc_ref xs) a = crc_byte (mk16 b a) a"
    by (simp add: crc_byte_own_low)
  moreover have "\<dots> \<longleftrightarrow> crc_ref xs = mk16 b a"
    using crc_fold_inject[of "[a]"] by simp
  ultimately show ?thesis by simp
qed

lemma ucast_mk16: "(ucast l :: u16) = mk16 0 l"
  by (simp add: mk16_def)

lemma crc_byte_same: "crc_byte c a = crc_byte c b \<longleftrightarrow> a = b"
proof -
  have "crc_byte c a = crc_byte c b \<longleftrightarrow> mk16 0 a = mk16 0 b"
    by (simp only: crc_byte_inject ucast_mk16) (metis xor.assoc xor_self_eq xor.left_neutral)
  then show ?thesis by simp
qed

lemma xor_swap: "(a :: 'a :: len word) XOR b = c XOR d \<Longrightarrow> a XOR c = b XOR d"
  by (rule bit_word_eqI) (auto simp: bit_eq_iff bit_xor_iff)

lemma xor_cancel: "(c XOR a) XOR (c XOR b) = a XOR (b :: 'a :: len word)"
  by (rule bit_word_eqI) (auto simp: bit_xor_iff)

lemma crc_bytes_differ:
  assumes "crc_byte (crc_byte c a1) a2 = crc_byte (crc_byte c b1) b2"
  shows "a1 = b1 \<and> a2 = b2"
proof -
  have e: "crc_byte c a1 XOR ucast a2 = crc_byte c b1 XOR ucast b2"
    using assms by (simp only: crc_byte_inject)
  have "crc_byte c a1 XOR crc_byte c b1 = crc_shift8 ((c XOR ucast a1) XOR (c XOR ucast b1))"
    by (simp only: crc_byte_def crc_bits_xor)
  also have "(c XOR ucast a1) XOR (c XOR ucast b1) = mk16 0 a1 XOR mk16 0 b1"
    unfolding ucast_mk16 by (rule xor_cancel)
  also have "\<dots> = mk16 0 (a1 XOR b1)" by (simp flip: mk16_xor)
  finally have l: "crc_byte c a1 XOR crc_byte c b1 = crc_shift8 (mk16 0 (a1 XOR b1))" .
  have "crc_byte c a1 XOR crc_byte c b1 = mk16 0 a2 XOR mk16 0 b2"
    using e unfolding ucast_mk16 by (rule xor_swap)
  also have "\<dots> = ucast (a2 XOR b2)" by (simp add: ucast_mk16 flip: mk16_xor)
  also have "\<dots> = crc_shift8 (mk16 (a2 XOR b2) 0)"
    by (simp only: crc_shift8_mk16 unsigned_0 crc_bits_0 xor.right_neutral)
  finally have "mk16 (a2 XOR b2) 0 = mk16 0 (a1 XOR b1)" using l by (simp only: crc_bits_inject)
  then show ?thesis by (simp add: xor_eq_0_iff eq_commute[of 0])
qed

lemma crc_burst:
  assumes "length us = length vs" "length us \<le> 2" "us \<noteq> vs"
  shows "crc_ref (xs @ us @ ys) \<noteq> crc_ref (xs @ vs @ ys)"
proof
  assume "crc_ref (xs @ us @ ys) = crc_ref (xs @ vs @ ys)"
  then have e: "fold (\<lambda>b c. crc_byte c b) us (crc_ref xs) = fold (\<lambda>b c. crc_byte c b) vs (crc_ref xs)"
    by (simp add: crc_ref_append crc_fold_inject)
  consider "us = []" | a b where "us = [a]" "vs = [b]"
    | a1 a2 b1 b2 where "us = [a1, a2]" "vs = [b1, b2]"
    using assms(1,2) by (cases us; cases vs; cases "tl us"; cases "tl vs") auto
  then show False
    by cases (use e assms in \<open>auto simp: crc_byte_same dest: crc_bytes_differ\<close>)
qed

section \<open>The contract the frame and the parameter block rely on\<close>

locale frame_check =
  fixes crc :: "u8 list \<Rightarrow> u16"
  assumes zero_iff: "crc (xs @ [a, b]) = 0 \<longleftrightarrow> crc xs = mk16 b a"
    and burst: "length us = length vs \<Longrightarrow> length us \<le> 2 \<Longrightarrow> us \<noteq> vs \<Longrightarrow>
      crc (xs @ us @ ys) \<noteq> crc (xs @ vs @ ys)"
begin

lemma sealed: "crc (xs @ [lo8 (crc xs), hi8 (crc xs)]) = 0"
  by (simp add: zero_iff)

lemma unsealed:
  assumes "crc ys = 0" "2 \<le> length ys"
  shows "ys = take (length ys - 2) ys @ [lo8 (crc (take (length ys - 2) ys)), hi8 (crc (take (length ys - 2) ys))]"
proof -
  define xs where "xs = take (length ys - 2) ys"
  have "length (drop (length ys - 2) ys) = 2" using assms(2) by simp
  then obtain a b where d: "drop (length ys - 2) ys = [a, b]"
    by (auto simp only: length_2_conv)
  then have ys: "ys = xs @ [a, b]" unfolding xs_def by (metis append_take_drop_id)
  then have "crc xs = mk16 b a" using assms(1) zero_iff by blast
  then have "ys = xs @ [lo8 (crc xs), hi8 (crc xs)]" using ys by simp
  then show ?thesis unfolding xs_def .
qed

lemma corruption_seen:
  assumes "crc (xs @ us @ ys) = 0" "length us = length vs" "length us \<le> 2" "us \<noteq> vs"
  shows "crc (xs @ vs @ ys) \<noteq> 0"
  using burst[OF assms(2,3,4), of xs ys] assms(1) by simp

end

interpretation modbus_crc: frame_check usMBCRC16
  by unfold_locales (simp_all only: usMBCRC16_eq_ref crc_append_0_iff crc_burst not_False_eq_True)

section \<open>Properties\<close>

text \<open>C8: the table-driven loop of \<open>usMBCRC16\<close> computes, for every input, the CRC-16 with
  the reflected polynomial 0xA001 and initial value 0xFFFF, shifted bit by bit.\<close>

theorem crc_table_driven_is_bitwise: "usMBCRC16 bs = crc_ref bs"
  by (rule usMBCRC16_eq_ref)

text \<open>A block followed by two bytes checks to 0 exactly when the two bytes are the
  block's CRC, low byte first; this is how both the frames and the EEPROM block are
  written and verified.\<close>

theorem crc_zero_exactly_when_sealed:
  "usMBCRC16 (xs @ [a, b]) = 0 \<longleftrightarrow> a = lo8 (usMBCRC16 xs) \<and> b = hi8 (usMBCRC16 xs)"
  unfolding modbus_crc.zero_iff by (metis hi8_mk16 lo8_mk16 mk16_hi8_lo8)

text \<open>If a received block checks to 0, then replacing one byte or two adjacent bytes
  by others makes the check fail: no burst of up to 16 bits inside two neighbouring bytes
  goes unnoticed.\<close>

theorem crc_detects_two_byte_bursts:
  assumes "usMBCRC16 (xs @ us @ ys) = 0" "length us = length vs" "length us \<le> 2" "us \<noteq> vs"
  shows "usMBCRC16 (xs @ vs @ ys) \<noteq> 0"
  using assms by (rule modbus_crc.corruption_seen)

theorem crc_detects_two_byte_bursts_witness:
  "usMBCRC16 [1, 3, 0, 0, 0, 1, 0x84, 0x0A] = 0 \<and> usMBCRC16 ([1, 3] @ [7, 0] @ [0, 1, 0x84, 0x0A]) \<noteq> 0"
proof -
  have z: "usMBCRC16 ([1, 3] @ [0, 0] @ [0, 1, 0x84, 0x0A]) = 0" by code_simp
  have "[0, 0] \<noteq> [7, 0 :: u8]" by simp
  from z crc_detects_two_byte_bursts[OF z _ _ this] show ?thesis by simp
qed

end
