(* ===== verification/ParamStore.thy ===== *)
theory ParamStore
  imports CrossZero At24 Crc
begin

text \<open>
  applications/i2c_app.c: the parameters that survive a power cycle.  \<open>struct sys_param\<close> is
  44 bytes, kept at address 0 of the EEPROM with the Modbus CRC of those bytes behind it;
  loading checks the CRC and falls back to the defaults.  The lemmas show that the two
  structure copies and the byte image are faithful, so that what is saved is what a later
  start loads, and that a block that fails its CRC never reaches the controller.
\<close>

section \<open>The byte image\<close>

definition SYS_DATA_SIZE :: nat where "SYS_DATA_SIZE = 44"

definition bytes16 :: "u16 \<Rightarrow> u8 list" where
  "bytes16 w = [lo8 w, hi8 w]"

definition bytes_of_regs :: "u16 list \<Rightarrow> u8 list" where
  "bytes_of_regs rs = concat (map bytes16 rs)"

fun regs_of_bytes :: "u8 list \<Rightarrow> u16 list" where
  "regs_of_bytes (l # h # bs) = mk16 h l # regs_of_bytes bs"
| "regs_of_bytes _ = []"

text \<open>\<open>(rt_uint8_t * )&g_sys_param\<close> and \<open>memcpy\<close> back, on a little-endian machine.\<close>

definition sys_param_regs :: "sys_param \<Rightarrow> u16 list" where
  "sys_param_regs p =
     [sp_on_off p, sp_ctrl_mode p, sp_intensity p, sp_run_time_lv1 p, sp_run_time_lv2 p,
      sp_run_time_lv3 p, sp_run_time_lv4 p, sp_run_time_lv5 p, sp_run_time_avg_lv5 p, sp_pad p] @
     f32_regs [sp_In_a p, sp_In_b p, sp_Un_a p, sp_Un_b p, sp_Uload_a p, sp_Uload_b p]"

definition sys_param_of_regs :: "u16 list \<Rightarrow> sys_param" where
  "sys_param_of_regs r =
     \<lparr>sp_on_off = r ! 0, sp_ctrl_mode = r ! 1, sp_intensity = r ! 2, sp_run_time_lv1 = r ! 3,
      sp_run_time_lv2 = r ! 4, sp_run_time_lv3 = r ! 5, sp_run_time_lv4 = r ! 6,
      sp_run_time_lv5 = r ! 7, sp_run_time_avg_lv5 = r ! 8, sp_pad = r ! 9,
      sp_In_a = f32_of (r ! 10) (r ! 11), sp_In_b = f32_of (r ! 12) (r ! 13),
      sp_Un_a = f32_of (r ! 14) (r ! 15), sp_Un_b = f32_of (r ! 16) (r ! 17),
      sp_Uload_a = f32_of (r ! 18) (r ! 19), sp_Uload_b = f32_of (r ! 20) (r ! 21)\<rparr>"

definition sys_param_bytes :: "sys_param \<Rightarrow> u8 list" where
  "sys_param_bytes p = bytes_of_regs (sys_param_regs p)"

definition sys_param_of_bytes :: "u8 list \<Rightarrow> sys_param" where
  "sys_param_of_bytes bs = sys_param_of_regs (regs_of_bytes bs)"

lemma regs_bytes [simp]: "regs_of_bytes (bytes_of_regs rs) = rs"
  by (induction rs) (simp_all add: bytes_of_regs_def bytes16_def)

lemma length_bytes_of_regs [simp]: "length (bytes_of_regs rs) = 2 * length rs"
  by (induction rs) (simp_all add: bytes_of_regs_def bytes16_def)

lemma sys_param_regs_round: "sys_param_of_regs (sys_param_regs p) = p"
  by (cases p) (simp add: sys_param_of_regs_def sys_param_regs_def f32_regs_def)

lemma length_sys_param_bytes [simp]: "length (sys_param_bytes p) = 44"
  by (simp add: sys_param_bytes_def sys_param_regs_def)

lemma sys_param_round [simp]: "sys_param_of_bytes (sys_param_bytes p) = p"
  by (simp add: sys_param_of_bytes_def sys_param_bytes_def sys_param_regs_round)

section \<open>Copies between the structures\<close>

definition sys_default_para :: sys_param where
  "sys_default_para =
     \<lparr>sp_on_off = 0, sp_ctrl_mode = 1, sp_intensity = 1, sp_run_time_lv1 = 0, sp_run_time_lv2 = 0,
      sp_run_time_lv3 = 0, sp_run_time_lv4 = 0, sp_run_time_lv5 = 0, sp_run_time_avg_lv5 = 0,
      sp_pad = 0, sp_In_a = f32_lit (147 / 10), sp_In_b = f32_lit (10 / 100),
      sp_Un_a = f32_lit (8689 / 10), sp_Un_b = f32_lit (- (115 / 10)), sp_Uload_a = 0, sp_Uload_b = 0\<rparr>"

definition update_sys_data_to_ccr_data :: "sys \<Rightarrow> sys" where
  "update_sys_data_to_ccr_data s =
     (let p = g_sys_param s in s\<lparr>ccr := (ccr s)
       \<lparr>on_off := sp_on_off p, ctrl_mode := sp_ctrl_mode p, intensity := sp_intensity p,
        run_time_lv1 := sp_run_time_lv1 p, run_time_lv2 := sp_run_time_lv2 p,
        run_time_lv3 := sp_run_time_lv3 p, run_time_lv4 := sp_run_time_lv4 p,
        run_time_lv5 := sp_run_time_lv5 p, run_time_avg_lv5 := sp_run_time_avg_lv5 p,
        In_a := sp_In_a p, In_b := sp_In_b p, Un_a := sp_Un_a p, Un_b := sp_Un_b p,
        Uload_a := sp_Uload_a p, Uload_b := sp_Uload_b p\<rparr>\<rparr>)"

definition update_ccr_data_to_sys_data :: "sys \<Rightarrow> sys" where
  "update_ccr_data_to_sys_data s =
     (let d = ccr s in s\<lparr>g_sys_param := (g_sys_param s)
       \<lparr>sp_on_off := on_off d, sp_ctrl_mode := ctrl_mode d, sp_intensity := intensity d,
        sp_run_time_lv1 := run_time_lv1 d, sp_run_time_lv2 := run_time_lv2 d,
        sp_run_time_lv3 := run_time_lv3 d, sp_run_time_lv4 := run_time_lv4 d,
        sp_run_time_lv5 := run_time_lv5 d, sp_run_time_avg_lv5 := run_time_avg_lv5 d,
        sp_In_a := In_a d, sp_In_b := In_b d, sp_Un_a := Un_a d, sp_Un_b := Un_b d,
        sp_Uload_a := Uload_a d, sp_Uload_b := Uload_b d\<rparr>\<rparr>)"

section \<open>Saving and loading\<close>

definition EEPROM_ADDR :: u8 where "EEPROM_ADDR = 0x50"

text \<open>The loop of at most three writes: \<open>n\<close> is \<open>cnt\<close>.\<close>

fun write_retry :: "'d xfer \<Rightarrow> int \<Rightarrow> u8 list \<Rightarrow> nat \<Rightarrow> 'd \<Rightarrow> int \<times> 'd" where
  "write_retry xfer lk tmp 0 d = (RT_ERROR, d)"
| "write_retry xfer lk tmp (Suc n) d =
     (case at24cxx_page_write xfer lk EEPROM_ADDR 0 tmp d of
        (r, d) \<Rightarrow> (if r \<noteq> RT_EOK \<and> n \<noteq> 0 then write_retry xfer lk tmp n d else (r, d)))"

definition with_crc :: "u8 list \<Rightarrow> u8 list" where
  "with_crc bs = bs @ [lo8 (usMBCRC16 bs), hi8 (usMBCRC16 bs)]"

datatype write_type = EEPROM_WRITE_DEFAULT_VALUE | EEPROM_WRITE_DATABASE_VALUE

definition write_sysdata_to_eeprom :: "'d xfer \<Rightarrow> int \<Rightarrow> write_type \<Rightarrow> sys \<times> 'd \<Rightarrow> sys \<times> 'd" where
  "write_sysdata_to_eeprom xfer lk t sd =
     (let s = (if t = EEPROM_WRITE_DATABASE_VALUE then update_ccr_data_to_sys_data (fst sd) else fst sd);
          p = (if t = EEPROM_WRITE_DATABASE_VALUE then g_sys_param s else sys_default_para)
      in (s, snd (write_retry xfer lk (with_crc (sys_param_bytes p)) 3 (snd sd))))"

text \<open>\<open>sys_data\<close> is the local buffer, with what the stack holds.\<close>

definition read_sysdata_from_eeprom :: "'d xfer \<Rightarrow> int \<Rightarrow> u8 list \<Rightarrow> sys \<times> 'd \<Rightarrow> sys \<times> 'd" where
  "read_sysdata_from_eeprom xfer lk sys_data sd =
     (case at24cxx_page_read xfer lk EEPROM_ADDR 0 sys_data (snd sd) of
        (r, bs, d) \<Rightarrow>
          if r \<noteq> RT_EOK then (fst sd, d)
          else
            let (s, d) =
              (if usMBCRC16 bs \<noteq> 0 then
                 (case write_sysdata_to_eeprom xfer lk EEPROM_WRITE_DEFAULT_VALUE (fst sd, d) of
                    (s, d) \<Rightarrow> (s\<lparr>g_sys_param := sys_default_para\<rparr>, d))
               else ((fst sd)\<lparr>g_sys_param := sys_param_of_bytes (take SYS_DATA_SIZE bs)\<rparr>, d))
            in (update_sys_data_to_ccr_data s, d))"

text \<open>One turn of \<open>write_cmd_thread_entry\<close> after it took its semaphore; \<open>on_off_last\<close> is its
  static variable.\<close>

definition write_cmd_step :: "'d xfer \<Rightarrow> int \<Rightarrow> u16 \<Rightarrow> sys \<times> 'd \<Rightarrow> u16 \<times> sys \<times> 'd" where
  "write_cmd_step xfer lk on_off_last sd =
     (let s = fst sd; w = on_off (ccr s);
          s = (if w \<noteq> on_off_last then if w \<noteq> 0 then RELAY_ON s else RELAY_OFF s else s)
      in (w, write_sysdata_to_eeprom xfer lk EEPROM_WRITE_DATABASE_VALUE (s, snd sd)))"

section \<open>What a save and a load do on a good chip\<close>

lemma length_with_crc [simp]: "length (with_crc bs) = length bs + 2"
  by (simp add: with_crc_def)

lemma with_crc_checks [simp]: "usMBCRC16 (with_crc bs) = 0"
  unfolding with_crc_def by (rule modbus_crc.sealed)

text \<open>The image of the parameters in the EEPROM.\<close>

definition param_image :: "sys_param \<Rightarrow> u8 list" where
  "param_image p = with_crc (sys_param_bytes p)"

lemma length_param_image [simp]: "length (param_image p) = 46"
  by (simp add: param_image_def)

lemma image_param [simp]: "sys_param_of_bytes (take SYS_DATA_SIZE (param_image p)) = p"
  by (simp add: param_image_def with_crc_def SYS_DATA_SIZE_def)

lemma take_blit_0 [simp]: "length bs \<le> length m \<Longrightarrow> take (length bs) (blit m 0 bs) = bs"
  by (simp add: blit_def)

context eeprom_chip
begin

lemma retry_chip:
  assumes "a = EEPROM_ADDR" "length bs \<le> 256" "0 < n"
  shows "\<exists>d'. write_retry xfer RT_EOK bs n d = (RT_EOK, d') \<and> mem d' = blit (mem d) 0 bs"
proof -
  obtain d' where "at24cxx_page_write xfer RT_EOK a 0 bs d = (RT_EOK, d')" "mem d' = blit (mem d) 0 bs"
    using page_write_chip[of 0 bs d] assms(2) by auto
  with assms show ?thesis by (cases n) auto
qed

lemma save_chip:
  assumes "a = EEPROM_ADDR"
  shows "\<exists>d'. write_sysdata_to_eeprom xfer RT_EOK t (s, d) =
      (if t = EEPROM_WRITE_DATABASE_VALUE then update_ccr_data_to_sys_data s else s, d') \<and>
    mem d' = blit (mem d) 0 (param_image (if t = EEPROM_WRITE_DATABASE_VALUE
      then g_sys_param (update_ccr_data_to_sys_data s) else sys_default_para))"
  using retry_chip[OF assms, of "param_image (if t = EEPROM_WRITE_DATABASE_VALUE
      then g_sys_param (update_ccr_data_to_sys_data s) else sys_default_para)" 3 d]
  by (auto simp: write_sysdata_to_eeprom_def param_image_def Let_def)

lemma load_chip:
  assumes "a = EEPROM_ADDR" "length buf = 46"
  shows "\<exists>d'. read_sysdata_from_eeprom xfer RT_EOK buf (s, d) =
      (update_sys_data_to_ccr_data (s\<lparr>g_sys_param := (if usMBCRC16 (take 46 (mem d)) = 0
         then sys_param_of_bytes (take SYS_DATA_SIZE (take 46 (mem d))) else sys_default_para)\<rparr>), d') \<and>
    mem d' = (if usMBCRC16 (take 46 (mem d)) = 0 then mem d else blit (mem d) 0 (param_image sys_default_para))"
proof -
  obtain d1 where r: "at24cxx_page_read xfer RT_EOK a 0 buf d = (RT_EOK, take 46 (mem d), d1)" "mem d1 = mem d"
    using page_read_chip[of 0 buf d] assms(2) by auto
  obtain d2 where w: "write_sysdata_to_eeprom xfer RT_EOK EEPROM_WRITE_DEFAULT_VALUE (s, d1) = (s, d2)"
      "mem d2 = blit (mem d1) 0 (param_image sys_default_para)"
    using save_chip[OF assms(1), of EEPROM_WRITE_DEFAULT_VALUE s d1] by auto
  show ?thesis using r w assms(1)
    by (auto simp: read_sysdata_from_eeprom_def split: prod.splits)
qed

end

section \<open>Properties\<close>

text \<open>The fields of the data base that are kept, as the structure that keeps them.\<close>

definition persistent :: "ccr_data \<Rightarrow> sys_param" where
  "persistent d =
     \<lparr>sp_on_off = on_off d, sp_ctrl_mode = ctrl_mode d, sp_intensity = intensity d,
      sp_run_time_lv1 = run_time_lv1 d, sp_run_time_lv2 = run_time_lv2 d,
      sp_run_time_lv3 = run_time_lv3 d, sp_run_time_lv4 = run_time_lv4 d,
      sp_run_time_lv5 = run_time_lv5 d, sp_run_time_avg_lv5 = run_time_avg_lv5 d, sp_pad = 0,
      sp_In_a = In_a d, sp_In_b = In_b d, sp_Un_a = Un_a d, sp_Un_b = Un_b d,
      sp_Uload_a = Uload_a d, sp_Uload_b = Uload_b d\<rparr>"

lemma persistent_load: "persistent (ccr (update_sys_data_to_ccr_data s)) = (g_sys_param s)\<lparr>sp_pad := 0\<rparr>"
  by (simp add: persistent_def update_sys_data_to_ccr_data_def Let_def)

lemma persistent_save: "(g_sys_param (update_ccr_data_to_sys_data s))\<lparr>sp_pad := 0\<rparr> = persistent (ccr s)"
  by (simp add: persistent_def update_ccr_data_to_sys_data_def Let_def)


lemma at24c02_here: "eeprom_chip chip_xfer chip_mem EEPROM_ADDR"
  using at24c02.eeprom_chip_axioms by (simp add: EEPROM_ADDR_def)



definition chip_holding :: "u8 list \<Rightarrow> chip" where
  "chip_holding bs = \<lparr>cells = (\<lambda>w. if unat w < length bs then bs ! unat w else 0), ptr = 0\<rparr>"

lemma chip_holding_mem: "length bs \<le> 256 \<Longrightarrow> take (length bs) (chip_mem (chip_holding bs)) = bs"
  by (rule nth_equalityI) (auto simp: nth_chip_mem chip_holding_def unat_of_nat)


text \<open>The thread that carries out a register command closes the contactor for any nonzero
  command word that changed, with no look at the alarms, and saves the data base.\<close>

theorem command_closes_contactor_despite_faults:
  assumes "on_off (ccr s) \<noteq> on_off_last" "on_off (ccr s) \<noteq> 0"
  shows "case write_cmd_step xfer lk on_off_last (s, d) of (w, s', d') \<Rightarrow>
    w = on_off (ccr s) \<and> relay_is_on s' \<and> mk_low s' \<and>
    IS_SYS_FAULT_EXIST (ccr s') = IS_SYS_FAULT_EXIST (ccr s)"
  using assms
  by (simp add: write_cmd_step_def write_sysdata_to_eeprom_def Let_def update_ccr_data_to_sys_data_def
      relay_is_on_iff RELAY_ON_def SET_SYS_STATUS_BIT_def IS_SYS_FAULT_EXIST_def RELAY_STATUS_POS_def
      bit_set_clr_16)

lemma command_closes_contactor_despite_faults_witness:
  "case write_cmd_step chip_xfer RT_EOK 0 (sys0\<lparr>ccr := ccr_zero\<lparr>on_off := 1, status := 4\<rparr>\<rparr>,
      \<lparr>cells = \<lambda>_. 0, ptr = 0\<rparr>) of (w, s', d') \<Rightarrow> w = 1 \<and> relay_is_on s' \<and> IS_SYS_FAULT_EXIST (ccr s')"
  using command_closes_contactor_despite_faults[of "sys0\<lparr>ccr := ccr_zero\<lparr>on_off := 1, status := 4\<rparr>\<rparr>" 0
      chip_xfer RT_EOK "\<lparr>cells = \<lambda>_. 0, ptr = 0\<rparr>"]
  by (auto simp: IS_SYS_FAULT_EXIST_def split: prod.splits)

end
