(* ===== verification/Commands.thy ===== *)
theory Commands
  imports ParamStore
begin

text \<open>
  The operator's side: the shell commands of applications/main.c and the digital inputs of
  applications/di_check.c.  A command takes the words of its line; the shell clears its
  argument array first, so a missing word is a null pointer, which \<open>my_atoi\<close> reads as 0
  and \<open>rt_strcmp\<close> may not be given (\<open>None\<close>).  The lemmas show that \<open>my_atoi\<close> reads decimal
  numbers, wrapping at 16 bits, and what the commands and inputs do to level and contactor.
\<close>

section \<open>Numbers\<close>

text \<open>The loop: \<open>char\<close> is unsigned on the target; any character counts as a digit.\<close>

fun atoi_loop :: "u16 \<Rightarrow> string \<Rightarrow> u16" where
  "atoi_loop r [] = r"
| "atoi_loop r (c # cs) = atoi_loop (word_of_int (10 * uint r + (of_char c - 48))) cs"

definition my_atoi :: "string option \<Rightarrow> u16" where
  "my_atoi str =
     (case str of
        None \<Rightarrow> 0
      | Some s \<Rightarrow> (case s of c # cs \<Rightarrow> if c = CHR ''-'' then - atoi_loop 0 cs else atoi_loop 0 s
                            | [] \<Rightarrow> 0))"

definition arg :: "nat \<Rightarrow> string list \<Rightarrow> string option" where
  "arg i argv = (if i < length argv then Some (argv ! i) else None)"

section \<open>Commands\<close>

definition set_idensity :: "'d xfer \<Rightarrow> int \<Rightarrow> string list \<Rightarrow> sys \<times> 'd \<Rightarrow> sys \<times> 'd" where
  "set_idensity xfer lk argv sd =
     (let i = (ucast (my_atoi (arg 1 argv)) :: u8);
          s = (fst sd)\<lparr>ccr := update_idensity (ucast i) (ccr (fst sd))\<rparr>;
          (s, d) = write_sysdata_to_eeprom xfer lk EEPROM_WRITE_DATABASE_VALUE (s, snd sd)
      in (if i = 0 then RELAY_OFF s
          else if i \<le> 5 then set_pid (pid_ref_set (Istd ! (unat i - 1))) s else s, d))"

definition relay_ctrl :: "string list \<Rightarrow> sys \<Rightarrow> sys option" where
  "relay_ctrl argv s =
     (case arg 1 argv of
        None \<Rightarrow> None
      | Some w \<Rightarrow> Some (if w = ''on'' then RELAY_ON s else if w = ''off'' then RELAY_OFF s else s))"

definition set_angle :: "string list \<Rightarrow> sys \<Rightarrow> sys" where
  "set_angle argv s =
     (let a = my_atoi (arg 1 argv)
      in if 9 \<le> a \<and> a \<le> 180 then s\<lparr>ccr := (ccr s)\<lparr>angle := f32_of_int (uint a)\<rparr>\<rparr> else s)"

definition set_un :: "'d xfer \<Rightarrow> int \<Rightarrow> string list \<Rightarrow> sys \<times> 'd \<Rightarrow> sys \<times> 'd" where
  "set_un xfer lk argv sd =
     (if length argv < 3 then sd
      else
        let a = my_atoi (arg 1 argv); b = my_atoi (arg 2 argv);
            d = (ccr (fst sd))\<lparr>Un_a := f32_div (f32_of_int (sint a)) (f32_of_int 10),
                  Un_b := f32_div (f32_of_int (sint b)) (f32_of_int 10)\<rparr>
        in write_sysdata_to_eeprom xfer lk EEPROM_WRITE_DATABASE_VALUE ((fst sd)\<lparr>ccr := d\<rparr>, snd sd))"

definition set_In :: "'d xfer \<Rightarrow> int \<Rightarrow> string list \<Rightarrow> sys \<times> 'd \<Rightarrow> sys \<times> 'd" where
  "set_In xfer lk argv sd =
     (if length argv < 3 then sd
      else
        let a = my_atoi (arg 1 argv); b = my_atoi (arg 2 argv);
            d = (ccr (fst sd))\<lparr>In_a := f32_div (f32_of_int (sint a)) (f32_of_int 100),
                  In_b := f32_div (f32_of_int (sint b)) (f32_of_int 100)\<rparr>
        in write_sysdata_to_eeprom xfer lk EEPROM_WRITE_DATABASE_VALUE ((fst sd)\<lparr>ccr := d\<rparr>, snd sd))"

definition pid_ctrl :: "string list \<Rightarrow> sys \<Rightarrow> sys option" where
  "pid_ctrl argv s =
     (case arg 1 argv of
        None \<Rightarrow> None
      | Some w \<Rightarrow> Some (if w = ''on'' then s\<lparr>app := (app s)\<lparr>g_pid_enable := 1\<rparr>\<rparr>
                       else if w = ''off'' then s\<lparr>app := (app s)\<lparr>g_pid_enable := 0\<rparr>\<rparr> else s))"

section \<open>Digital inputs\<close>

text \<open>One turn of \<open>di_thread_entry\<close>: \<open>g\<close> says which of the pins G0 to G5 are low; the local
  \<open>idensity\<close> starts at 255 and keeps its value while no pin is active.\<close>

definition di_select :: "bool list \<Rightarrow> u8 \<Rightarrow> u8" where
  "di_select g i =
     (if g ! 0 then 0 else if g ! 1 then 1 else if g ! 2 then 2 else if g ! 3 then 3
      else if g ! 4 then 4 else if g ! 5 then 5 else i)"

definition di_step :: "'d xfer \<Rightarrow> int \<Rightarrow> bool list \<Rightarrow> u8 \<times> sys \<times> 'd \<Rightarrow> u8 \<times> sys \<times> 'd" where
  "di_step xfer lk g st =
     (let i = di_select g (fst st); s = fst (snd st); d = snd (snd st)
      in if get_idensity (ccr s) \<noteq> i \<and> i \<le> 5 then
           let s = (if i = 0 then set_pid (pid_ref_set 0) s
                    else set_pid (pid_ref_set (Istd ! (unat i - 1))) s);
               s = s\<lparr>ccr := update_idensity (ucast i) (ccr s)\<rparr>
           in (i, write_sysdata_to_eeprom xfer lk EEPROM_WRITE_DATABASE_VALUE (s, d))
         else (i, s, d))"

section \<open>Decimal numbers\<close>

definition digit :: "nat \<Rightarrow> char" where "digit n = char_of (48 + n)"

fun dec :: "nat \<Rightarrow> string" where
  "dec n = (if n < 10 then [digit n] else dec (n div 10) @ [digit (n mod 10)])"

declare dec.simps [simp del]

lemma of_char_digit: "n < 10 \<Longrightarrow> of_char (digit n) = (48 + int n :: int)"
proof -
  assume "n < 10"
  then have "(of_char (digit n) :: nat) = 48 + n" by (simp add: digit_def)
  then show "of_char (digit n) = (48 + int n :: int)"
    by (metis of_nat_add of_nat_numeral of_nat_of_char)
qed

lemma atoi_append: "atoi_loop r (xs @ ys) = atoi_loop (atoi_loop r xs) ys"
  by (induction r xs rule: atoi_loop.induct) simp_all

lemma atoi_digit: "n < 10 \<Longrightarrow> atoi_loop r [digit n] = 10 * r + of_nat n"
  by (simp add: of_char_digit)

lemma atoi_dec: "atoi_loop 0 (dec n) = of_nat n"
proof (induction n rule: dec.induct)
  case (1 n)
  show ?case
  proof (cases "n < 10")
    case True
    then show ?thesis by (subst dec.simps) (simp add: of_char_digit)
  next
    case False
    have "atoi_loop 0 (dec n) = 10 * of_nat (n div 10) + of_nat (n mod 10)"
      using 1 False by (subst dec.simps) (simp add: atoi_append atoi_digit del: atoi_loop.simps)
    also have "\<dots> = of_nat (10 * (n div 10) + n mod 10)" by (simp only: of_nat_add of_nat_mult of_nat_numeral)
    finally show ?thesis by simp
  qed
qed

lemma dec_not_minus: "\<exists>c cs. dec n = c # cs \<and> c \<noteq> CHR ''-''"
proof (induction n rule: dec.induct)
  case (1 n)
  have d: "digit k \<noteq> CHR ''-''" if "k < 10" for k
  proof
    assume "digit k = CHR ''-''"
    then have "of_char (digit k) = (45 :: int)" by simp
    then show False using of_char_digit[OF that] by simp
  qed
  show ?case
  proof (cases "n < 10")
    case True
    then show ?thesis using d by (subst dec.simps) simp
  next
    case False
    then show ?thesis using 1 by (subst dec.simps) auto
  qed
qed

lemma my_atoi_dec: "my_atoi (Some (dec n)) = of_nat n" "my_atoi (Some (CHR ''-'' # dec n)) = - of_nat n"
proof -
  obtain c cs where c: "dec n = c # cs" "c \<noteq> CHR ''-''" using dec_not_minus[of n] by blast
  then show "my_atoi (Some (dec n)) = of_nat n" using atoi_dec[of n] by (simp add: my_atoi_def)
  show "my_atoi (Some (CHR ''-'' # dec n)) = - of_nat n" by (simp add: my_atoi_def atoi_dec)
qed

lemma write_sysdata_keeps:
  "fst (write_sysdata_to_eeprom xfer lk EEPROM_WRITE_DATABASE_VALUE (s, d)) = update_ccr_data_to_sys_data s"
  by (simp add: write_sysdata_to_eeprom_def Let_def)

lemma save_keeps [simp]:
  "ccr (update_ccr_data_to_sys_data s) = ccr s" "mk_low (update_ccr_data_to_sys_data s) = mk_low s"
  "app (update_ccr_data_to_sys_data s) = app s"
  by (simp_all add: update_ccr_data_to_sys_data_def Let_def)

lemma set_pid_keeps [simp]: "ccr (set_pid f s) = ccr s" "mk_low (set_pid f s) = mk_low s"
  by (simp_all add: set_pid_def)

section \<open>Properties\<close>

text \<open>\<open>my_atoi\<close> reads the decimal notation of every number, with or without a minus sign,
  to its value modulo 2 ^ 16.\<close>

theorem my_atoi_reads_decimals:
  "my_atoi (Some (dec n)) = of_nat n \<and> my_atoi (Some (CHR ''-'' # dec n)) = - of_nat n"
  by (simp add: my_atoi_dec)

text \<open>The level command takes its number modulo 256: it sets levels 0 to 5, ignores the
  others, and opens the contactor when the remainder is 0, so also for 256.\<close>

theorem set_idensity_takes_number_mod_256:
  "let s' = fst (set_idensity xfer lk [c, dec n] (s, d)); k = n mod 256
   in intensity (ccr s') = (if k \<le> 5 then of_nat k else intensity (ccr s)) \<and>
      (if k = 0 then \<not> relay_is_on s' \<and> \<not> mk_low s' else mk_low s' = mk_low s)"
proof -
  define i where "i = (ucast (of_nat n :: u16) :: u8)"
  have a: "my_atoi (arg (Suc 0) [c, dec n]) = of_nat n" by (simp add: arg_def my_atoi_dec)
  have i: "unat i = n mod 256"
    by (simp add: i_def unsigned_ucast_eq take_bit_eq_mod unat_of_nat mod_mod_cancel)
  then have z: "i = 0 \<longleftrightarrow> n mod 256 = 0" "i \<le> 5 \<longleftrightarrow> n mod 256 \<le> 5"
    by (auto simp: unat_eq_0[symmetric] word_le_nat_alt)
  have u: "(ucast i :: u16) = of_nat (n mod 256)"
    by (rule word_unat_eq_iff[THEN iffD2])
      (simp add: unsigned_ucast_eq take_bit_eq_mod unat_of_nat i)
  have le: "(of_nat (n mod 256) :: u16) \<le> 5 \<longleftrightarrow> n mod 256 \<le> 5"
    by (simp add: word_le_nat_alt unat_of_nat)
  have "fst (set_idensity xfer lk [c, dec n] (s, d)) =
      (let s = update_ccr_data_to_sys_data (s\<lparr>ccr := update_idensity (ucast i) (ccr s)\<rparr>)
       in if i = 0 then RELAY_OFF s
          else if i \<le> 5 then set_pid (pid_ref_set (Istd ! (unat i - 1))) s else s)"
    by (simp add: set_idensity_def a i_def[symmetric] Let_def write_sysdata_to_eeprom_def)
  then show ?thesis
    by (simp add: Let_def z le u update_idensity_def)
qed

text \<open>With at least one of the six level inputs active, a turn of the input thread makes
  the level the first active one, and does not drive the contactor.\<close>

theorem level_follows_inputs:
  assumes "k \<le> 5" "g ! k" "\<forall>j < k. \<not> g ! j"
  shows "case di_step xfer lk g (i, s, d) of (i', s', d') \<Rightarrow>
    uint i' = int k \<and> uint (get_idensity (ccr s')) = int k \<and> mk_low s' = mk_low s"
proof -
  have sel: "di_select g i = of_nat k"
  proof -
    have "k = 0 \<or> k = 1 \<or> k = 2 \<or> k = 3 \<or> k = 4 \<or> k = 5" using assms(1) by linarith
    then show ?thesis using assms(2,3) by (auto simp: di_select_def)
  qed
  have k: "uint (of_nat k :: u8) = int k" "unat (of_nat k :: u8) = k" "(of_nat k :: u8) \<le> 5"
    using assms(1) by (simp_all add: uint_nat unat_of_nat word_le_nat_alt)
  have uu: "(ucast (of_nat k :: u8) :: u16) = of_nat k"
    by (rule word_unat_eq_iff[THEN iffD2])
      (use assms(1) in \<open>simp add: unsigned_ucast_eq take_bit_eq_mod unat_of_nat\<close>)
  have le5: "(of_nat k :: u16) \<le> 5" using assms(1) by (simp add: word_le_nat_alt unat_of_nat)
  have narrow: "(ucast (of_nat k :: u16) :: u8) = of_nat k"
    using assms(1) by (intro word_unat_eq_iff[THEN iffD2])
      (simp add: unsigned_ucast_eq take_bit_eq_mod unat_of_nat)
  show ?thesis
    by (simp add: di_step_def sel Let_def write_sysdata_to_eeprom_def k uu le5 narrow
        update_idensity_def get_idensity_def)
qed

lemma level_follows_inputs_witness:
  "case di_step chip_xfer RT_EOK [False, False, False, True, True, False]
      (255, sys0, \<lparr>cells = \<lambda>_. 0, ptr = 0\<rparr>) of (i', s', d') \<Rightarrow> uint (get_idensity (ccr s')) = 3"
proof -
  have "\<forall>j < 3. \<not> [False, False, False, True, True, False] ! j" by (simp add: less_Suc_eq numeral_eq_Suc)
  from level_follows_inputs[OF _ _ this, where xfer = chip_xfer and lk = RT_EOK and i = 255 and s = sys0
      and d = "\<lparr>cells = \<lambda>_. 0, ptr = 0\<rparr>"] show ?thesis
    by (auto split: prod.splits)
qed

end
