(* ===== verification/MbData.thy ===== *)
theory MbData
  imports Database
begin

text \<open>
  The Modbus slave's data: modbus/functions/mbutils.c (bit fields in byte buffers) and
  port/user_mb_app.c (the callbacks that serve input registers 0..99, holding registers
  100..199, 64 coils and 16 discrete inputs).  The holding registers are the union of
  database.h.  A callback's result is its error code, the bytes it puts into the frame and
  the new data; reading or writing past the end of one of the arrays is \<open>None\<close>.  The lemmas
  give the bit functions bit by bit and the callbacks register by register.
\<close>

section \<open>Codes\<close>

datatype eMBErrorCode = MB_ENOERR | MB_ENOREG | MB_EINVAL | MB_EPORTERR | MB_ENORES | MB_EIO
  | MB_EILLSTATE | MB_ETIMEDOUT

datatype eMBException = MB_EX_NONE | MB_EX_ILLEGAL_FUNCTION | MB_EX_ILLEGAL_DATA_ADDRESS
  | MB_EX_ILLEGAL_DATA_VALUE | MB_EX_SLAVE_DEVICE_FAILURE | MB_EX_ACKNOWLEDGE | MB_EX_SLAVE_BUSY

fun exception_code :: "eMBException \<Rightarrow> u8" where
  "exception_code MB_EX_NONE = 0"
| "exception_code MB_EX_ILLEGAL_FUNCTION = 1"
| "exception_code MB_EX_ILLEGAL_DATA_ADDRESS = 2"
| "exception_code MB_EX_ILLEGAL_DATA_VALUE = 3"
| "exception_code MB_EX_SLAVE_DEVICE_FAILURE = 4"
| "exception_code MB_EX_ACKNOWLEDGE = 5"
| "exception_code MB_EX_SLAVE_BUSY = 6"

fun prveMBError2Exception :: "eMBErrorCode \<Rightarrow> eMBException" where
  "prveMBError2Exception MB_ENOERR = MB_EX_NONE"
| "prveMBError2Exception MB_ENOREG = MB_EX_ILLEGAL_DATA_ADDRESS"
| "prveMBError2Exception MB_ETIMEDOUT = MB_EX_SLAVE_BUSY"
| "prveMBError2Exception _ = MB_EX_SLAVE_DEVICE_FAILURE"

datatype eMBRegisterMode = MB_REG_READ | MB_REG_WRITE

section \<open>Bit fields\<close>

text \<open>\<open>(1 << n) - 1\<close> on 16 bits, for \<open>n\<close> up to 8.\<close>

definition bit_mask :: "nat \<Rightarrow> u16" where
  "bit_mask n = push_bit n 1 - 1"

text \<open>The value is shifted into place but not masked to its \<open>ucNBits\<close> bits.\<close>

definition xMBUtilSetBits :: "u8 list \<Rightarrow> nat \<Rightarrow> nat \<Rightarrow> u8 \<Rightarrow> u8 list option" where
  "xMBUtilSetBits buf off n v =
     (let k = off div 8; pre = off - k * 8
      in if length buf \<le> k + 1 then None
         else
           let val = push_bit pre (ucast v :: u16);
               mask = push_bit pre (bit_mask n);
               w = mk16 (buf ! (k + 1)) (buf ! k);
               w = (w AND NOT mask) OR val
           in Some (buf[k := lo8 w, k + 1 := hi8 w]))"

definition xMBUtilGetBits :: "u8 list \<Rightarrow> nat \<Rightarrow> nat \<Rightarrow> u8 option" where
  "xMBUtilGetBits buf off n =
     (let k = off div 8; pre = off - k * 8
      in if length buf \<le> k + 1 then None
         else Some (ucast (drop_bit pre (mk16 (buf ! (k + 1)) (buf ! k)) AND bit_mask n)))"

section \<open>The callbacks\<close>

definition S_REG_INPUT_START :: nat where "S_REG_INPUT_START = 0"
definition S_REG_INPUT_NREGS :: nat where "S_REG_INPUT_NREGS = 100"
definition S_REG_HOLDING_START :: nat where "S_REG_HOLDING_START = 100"
definition S_REG_HOLDING_NREGS :: nat where "S_REG_HOLDING_NREGS = 100"
definition S_COIL_START :: nat where "S_COIL_START = 0"
definition S_COIL_NCOILS :: nat where "S_COIL_NCOILS = 64"
definition S_DISCRETE_INPUT_START :: nat where "S_DISCRETE_INPUT_START = 0"
definition S_DISCRETE_INPUT_NDISCRETES :: nat where "S_DISCRETE_INPUT_NDISCRETES = 16"

text \<open>
  The arrays, with the slave identification of mbfuncother.c; \<open>write_sem\<close> counts the releases
  of \<open>g_write_cmd_sem\<close>.
\<close>

record mb_data =
  ucSDiscInBuf :: "u8 list"
  ucSCoilBuf :: "u8 list"
  usSRegInBuf :: "u16 list"
  hold :: ccr_data
  write_sem :: nat
  ucMBSlaveID :: "u8 list"
  usMBSlaveIDLen :: nat

definition reg_bytes :: "u16 list \<Rightarrow> u8 list" where
  "reg_bytes rs = concat (map (\<lambda>r. [hi8 r, lo8 r]) rs)"

definition in_block :: "u16 \<Rightarrow> nat \<Rightarrow> nat \<Rightarrow> nat \<Rightarrow> bool" where
  "in_block addr n start len = (start \<le> unat addr \<and> unat addr + n \<le> start + len)"

text \<open>\<open>usAddress\<close> arrives one too large.\<close>

definition eMBRegInputCB :: "u16 \<Rightarrow> nat \<Rightarrow> mb_data \<Rightarrow> eMBErrorCode \<times> u8 list" where
  "eMBRegInputCB addr n m =
     (let a = addr - 1
      in if in_block a n S_REG_INPUT_START S_REG_INPUT_NREGS
         then (MB_ENOERR, reg_bytes (take n (drop (unat a - S_REG_INPUT_START) (usSRegInBuf m))))
         else (MB_ENOREG, []))"

fun hold_write_loop :: "nat \<Rightarrow> nat \<Rightarrow> u8 list \<Rightarrow> ccr_data \<Rightarrow> ccr_data" where
  "hold_write_loop (Suc n) i (h # l # bs) d = hold_write_loop n (i + 1) bs (buf_set d i (mk16 h l))"
| "hold_write_loop _ i bs d = d"

definition eMBRegHoldingCB ::
    "u8 list \<Rightarrow> u16 \<Rightarrow> nat \<Rightarrow> eMBRegisterMode \<Rightarrow> mb_data \<Rightarrow> eMBErrorCode \<times> u8 list \<times> mb_data" where
  "eMBRegHoldingCB bs addr n mode m =
     (let a = addr - 1; i = unat a - S_REG_HOLDING_START
      in if in_block a n S_REG_HOLDING_START S_REG_HOLDING_NREGS
         then (case mode of
             MB_REG_READ \<Rightarrow> (MB_ENOERR, reg_bytes (take n (drop i (regs_of (hold m)))), m)
           | MB_REG_WRITE \<Rightarrow>
               let m = m\<lparr>hold := hold_write_loop n i bs (hold m)\<rparr>
               in (MB_ENOERR, [], if i + n \<le> 3 then m\<lparr>write_sem := write_sem m + 1\<rparr> else m))
         else (MB_ENOREG, [], m))"

text \<open>The loops of the bit callbacks: \<open>cnt\<close> bytes from byte \<open>k\<close> on, at bit \<open>b\<close>.\<close>

fun get_bytes :: "u8 list \<Rightarrow> nat \<Rightarrow> nat \<Rightarrow> nat \<Rightarrow> u8 list option" where
  "get_bytes buf k b 0 = Some []"
| "get_bytes buf k b (Suc c) =
     do { x \<leftarrow> xMBUtilGetBits (drop k buf) b 8; xs \<leftarrow> get_bytes buf (k + 1) b c; Some (x # xs) }"

fun set_bytes :: "u8 list \<Rightarrow> nat \<Rightarrow> nat \<Rightarrow> nat \<Rightarrow> u8 list \<Rightarrow> (u8 list \<times> u8 list) option" where
  "set_bytes buf k b 0 vs = Some (buf, vs)"
| "set_bytes buf k b (Suc c) [] = None"
| "set_bytes buf k b (Suc c) (v # vs) =
     do { t \<leftarrow> xMBUtilSetBits (drop k buf) b 8 v; set_bytes (take k buf @ t) (k + 1) b c vs }"

text \<open>\<open>x << (8 - r) >> (8 - r)\<close> on a byte.\<close>

definition keep_low :: "nat \<Rightarrow> u8 \<Rightarrow> u8" where
  "keep_low r x = drop_bit (8 - r) (ucast (push_bit (8 - r) (ucast x :: u16)))"

definition read_bits :: "u8 list \<Rightarrow> nat \<Rightarrow> nat \<Rightarrow> u8 list option" where
  "read_bits buf i n =
     map_option (\<lambda>xs. butlast xs @ [keep_low (n mod 8) (last xs)])
       (get_bytes buf (i div 8) (i mod 8) (n div 8 + 1))"

definition write_bits :: "u8 list \<Rightarrow> nat \<Rightarrow> nat \<Rightarrow> u8 list \<Rightarrow> u8 list option" where
  "write_bits buf i n bs =
     do { (buf, bs) \<leftarrow> set_bytes buf (i div 8) (i mod 8) (n div 8) bs;
          if n mod 8 = 0 then Some buf
          else (case bs of
              [] \<Rightarrow> None
            | v # _ \<Rightarrow>
                let k = i div 8 + n div 8
                in map_option (\<lambda>t. take k buf @ t) (xMBUtilSetBits (drop k buf) (i mod 8) (n mod 8) v)) }"

definition eMBRegCoilsCB ::
    "u8 list \<Rightarrow> u16 \<Rightarrow> nat \<Rightarrow> eMBRegisterMode \<Rightarrow> mb_data \<Rightarrow> (eMBErrorCode \<times> u8 list \<times> mb_data) option" where
  "eMBRegCoilsCB bs addr n mode m =
     (let a = addr - 1; i = unat a - S_COIL_START
      in if in_block a n S_COIL_START S_COIL_NCOILS
         then (case mode of
             MB_REG_READ \<Rightarrow> map_option (\<lambda>xs. (MB_ENOERR, xs, m)) (read_bits (ucSCoilBuf m) i n)
           | MB_REG_WRITE \<Rightarrow>
               map_option (\<lambda>b. (MB_ENOERR, [], m\<lparr>ucSCoilBuf := b\<rparr>)) (write_bits (ucSCoilBuf m) i n bs))
         else Some (MB_ENOREG, [], m))"

definition eMBRegDiscreteCB :: "u16 \<Rightarrow> nat \<Rightarrow> mb_data \<Rightarrow> (eMBErrorCode \<times> u8 list) option" where
  "eMBRegDiscreteCB addr n m =
     (let a = addr - 1; i = unat a - S_DISCRETE_INPUT_START
      in if in_block a n S_DISCRETE_INPUT_START S_DISCRETE_INPUT_NDISCRETES
         then map_option (Pair MB_ENOERR) (read_bits (ucSDiscInBuf m) i n)
         else Some (MB_ENOREG, []))"

section \<open>The bit functions, bit by bit\<close>

definition bit_at :: "u8 list \<Rightarrow> nat \<Rightarrow> bool" where
  "bit_at buf j = bit (buf ! (j div 8)) (j mod 8)"

lemma bit_mask_eq: "bit_mask n = mask n"
  by (simp add: bit_mask_def mask_eq_exp_minus_1 push_bit_of_1)

lemma bit_mk16: "bit (mk16 h l) j \<longleftrightarrow> (if j < 8 then bit l j else j < 16 \<and> bit h (j - 8))"
  by (auto simp: mk16_def bit_simps dest: bit_imp_le_length)

lemma bit_lo8: "bit (lo8 w) j \<longleftrightarrow> j < 8 \<and> bit w j"
  by (auto simp: lo8_def bit_simps)

lemma bit_hi8: "bit (hi8 w) j \<longleftrightarrow> j < 8 \<and> bit w (j + 8)"
  by (auto simp: hi8_def bit_simps add.commute)

text \<open>The two bytes a field may touch, as one 16-bit word.\<close>

lemma bit_window:
  assumes "j < 16"
  shows "bit (mk16 (buf ! (k + 1)) (buf ! k)) j = bit_at buf (k * 8 + j)"
proof (cases "j < 8")
  case True
  then show ?thesis by (simp add: bit_mk16 bit_at_def)
next
  case False
  then have "j div 8 = 1" "j mod 8 = j - 8" using assms by (auto simp: le_mod_geq)
  then have "(k * 8 + j) div 8 = k + 1" "(k * 8 + j) mod 8 = j - 8" by simp_all
  then show ?thesis using False assms by (simp add: bit_mk16 bit_at_def)
qed

lemma get_bits_bit:
  assumes "xMBUtilGetBits buf off n = Some r" "n \<le> 8"
  shows "bit r j \<longleftrightarrow> j < n \<and> bit_at buf (off + j)"
proof -
  define k where "k = off div 8"
  define pre where "pre = off mod 8"
  have off: "off - k * 8 = pre" "k * 8 + (pre + j) = off + j" "pre < 8"
    by (simp_all add: k_def pre_def minus_div_mult_eq_mod)
  have r: "r = ucast (drop_bit pre (mk16 (buf ! (k + 1)) (buf ! k)) AND mask n)"
    using assms(1) off by (simp add: xMBUtilGetBits_def Let_def bit_mask_eq flip: k_def split: if_splits)
  show ?thesis
  proof (cases "j < n")
    case True
    with off assms(2) have "pre + j < 16" by simp
    then show ?thesis using True assms(2) bit_window[of "pre + j" buf k] off
      by (simp add: r bit_simps)
  qed (simp add: r bit_simps)
qed

text \<open>The bits of the value above \<open>n\<close> are added to what follows the field.\<close>

lemma set_bits_exact:
  assumes "xMBUtilSetBits buf off n v = Some t" "n \<le> 8" "j < 8 * length buf"
  shows "length t = length buf \<and>
    (bit_at t j \<longleftrightarrow> (if off \<le> j \<and> j < off + n then bit v (j - off)
                     else bit_at buf j \<or> (off + n \<le> j \<and> bit v (j - off))))"
proof -
  define k where "k = off div 8"
  define pre where "pre = off mod 8"
  have off: "off - k * 8 = pre" "off = k * 8 + pre" "pre < 8"
    by (simp_all add: k_def pre_def minus_div_mult_eq_mod)
  define w where "w = (mk16 (buf ! (k + 1)) (buf ! k) AND NOT (push_bit pre (mask n))) OR push_bit pre (ucast v :: u16)"
  have len: "k + 1 < length buf" and t: "t = buf[k := lo8 w, k + 1 := hi8 w]"
    using assms(1) off(1)
    by (auto simp: xMBUtilSetBits_def Let_def bit_mask_eq w_def simp flip: k_def split: if_splits)
  have w: "bit w i \<longleftrightarrow> (if pre \<le> i \<and> i < pre + n then bit v (i - pre)
                       else bit_at buf (k * 8 + i) \<or> (pre + n \<le> i \<and> bit v (i - pre)))"
    if "i < 16" for i
    using that assms(2) bit_window[OF that, of buf k] off(3)
    by (cases "pre + n \<le> i") (auto simp: w_def bit_simps)
  have cases_j: "j div 8 = k \<or> j div 8 = k + 1 \<or> (j div 8 \<noteq> k \<and> j div 8 \<noteq> k + 1)" by blast
  have "bit_at t j \<longleftrightarrow> (if off \<le> j \<and> j < off + n then bit v (j - off)
                     else bit_at buf j \<or> (off + n \<le> j \<and> bit v (j - off)))"
  proof (cases "j div 8 = k \<or> j div 8 = k + 1")
    case True
    define i where "i = j - k * 8"
    have i: "i < 16" "j = k * 8 + i" using True unfolding i_def by auto
    have "bit_at t j \<longleftrightarrow> bit w i"
    proof (cases "j div 8 = k")
      case True
      then have "i < 8" using i by simp
      then show ?thesis using True len i by (simp add: bit_at_def t bit_lo8)
    next
      case False
      with True have k1: "j div 8 = k + 1" by blast
      then have "8 \<le> i" using i by simp
      then have "j mod 8 = i - 8" using i by (simp add: le_mod_geq)
      moreover have "i - 8 < 8" using i(1) \<open>8 \<le> i\<close> by simp
      ultimately show ?thesis using k1 len i \<open>8 \<le> i\<close> by (simp add: bit_at_def t bit_hi8)
    qed
    then show ?thesis using w[OF i(1)] off i(2) by auto
  next
    case False
    then have "\<not> (off \<le> j \<and> j < off + n)" using off assms(2) by auto
    moreover have "off + n \<le> j \<Longrightarrow> 8 \<le> j - off" using False off assms(2) by auto
    ultimately show ?thesis using False by (auto simp: bit_at_def t dest: bit_imp_le_length)
  qed
  then show ?thesis by (simp add: t)
qed

lemma set_bits_bit:
  assumes "xMBUtilSetBits buf off n v = Some t" "n \<le> 8" "\<And>j. n \<le> j \<Longrightarrow> \<not> bit v j" "j < 8 * length buf"
  shows "length t = length buf \<and>
    (bit_at t j \<longleftrightarrow> (if off \<le> j \<and> j < off + n then bit v (j - off) else bit_at buf j))"
  using set_bits_exact[OF assms(1,2,4)] assms(3)[of "j - off"] by (cases "off + n \<le> j") auto

section \<open>The register callbacks, register by register\<close>

fun words_of :: "u8 list \<Rightarrow> u16 list" where
  "words_of (h # l # bs) = mk16 h l # words_of bs"
| "words_of _ = []"

lemma length_reg_bytes [simp]: "length (reg_bytes rs) = 2 * length rs"
  by (induction rs) (simp_all add: reg_bytes_def)

lemma words_of_reg_bytes [simp]: "words_of (reg_bytes rs @ bs) = rs @ words_of bs"
  by (induction rs) (simp_all add: reg_bytes_def)

lemma length_words_of [simp]: "length (words_of bs) = length bs div 2"
  by (induction bs rule: words_of.induct) simp_all

lemma blit_upd: "i < length xs \<Longrightarrow> blit (xs[i := v]) (Suc i) ws = blit xs i (v # ws)"
  by (simp add: blit_def take_Suc_conv_app_nth)

lemma regs_of_write_loop:
  assumes "ccr_wf d" "i + n \<le> 108" "2 * n \<le> length bs"
  shows "ccr_wf (hold_write_loop n i bs d) \<and>
    regs_of (hold_write_loop n i bs d) = blit (regs_of d) i (take n (words_of bs))"
  using assms
proof (induction n i bs d rule: hold_write_loop.induct)
  case (1 n i h l bs d)
  then show ?case by (simp add: regs_of_buf_set blit_upd)
qed simp_all

definition mb_wf :: "mb_data \<Rightarrow> bool" where
  "mb_wf m \<longleftrightarrow> ccr_wf (hold m) \<and> length (usSRegInBuf m) = S_REG_INPUT_NREGS \<and>
     length (ucSCoilBuf m) = S_COIL_NCOILS div 8 \<and> length (ucSDiscInBuf m) = S_DISCRETE_INPUT_NDISCRETES div 8 \<and>
     length (ucMBSlaveID m) = 32 \<and> usMBSlaveIDLen m < 32"

lemmas mb_regs = S_REG_INPUT_START_def S_REG_INPUT_NREGS_def S_REG_HOLDING_START_def
  S_REG_HOLDING_NREGS_def S_COIL_START_def S_COIL_NCOILS_def S_DISCRETE_INPUT_START_def
  S_DISCRETE_INPUT_NDISCRETES_def

lemma holding_read:
  assumes "mb_wf m"
  shows "eMBRegHoldingCB bs (a + 1) n MB_REG_READ m =
    (if 100 \<le> unat a \<and> unat a + n \<le> 200
     then (MB_ENOERR, reg_bytes (take n (drop (unat a - 100) (regs_of (hold m)))), m)
     else (MB_ENOREG, [], m))"
  by (simp add: eMBRegHoldingCB_def in_block_def mb_regs Let_def)

lemma holding_write_result:
  "eMBRegHoldingCB bs (a + 1) n MB_REG_WRITE m = (e, xs, m') \<Longrightarrow> xs = [] \<and>
    (e = MB_ENOERR \<longleftrightarrow> 100 \<le> unat a \<and> unat a + n \<le> 200) \<and> (e \<noteq> MB_ENOERR \<longrightarrow> e = MB_ENOREG \<and> m' = m)"
  by (auto simp: eMBRegHoldingCB_def in_block_def mb_regs Let_def split: if_splits)

lemma holding_write:
  assumes "mb_wf m" "100 \<le> unat a" "unat a + n \<le> 200" "2 * n \<le> length bs"
    "eMBRegHoldingCB bs (a + 1) n MB_REG_WRITE m = (e, xs, m')"
  shows "e = MB_ENOERR \<and> mb_wf m' \<and>
    regs_of (hold m') = blit (regs_of (hold m)) (unat a - 100) (take n (words_of bs)) \<and>
    write_sem m' = write_sem m + (if unat a + n \<le> 103 then 1 else 0) \<and>
    ucSCoilBuf m' = ucSCoilBuf m \<and> usSRegInBuf m' = usSRegInBuf m"
proof -
  let ?m = "m\<lparr>hold := hold_write_loop n (unat a - 100) bs (hold m)\<rparr>"
  have r: "ccr_wf (hold ?m)" "regs_of (hold ?m) = blit (regs_of (hold m)) (unat a - 100) (take n (words_of bs))"
    using regs_of_write_loop[of "hold m" "unat a - 100" n bs] assms(1-4) by (auto simp: mb_wf_def)
  have m': "e = MB_ENOERR" "m' = (if unat a + n \<le> 103 then ?m\<lparr>write_sem := write_sem ?m + 1\<rparr> else ?m)"
    using assms(2,3,5) by (auto simp: eMBRegHoldingCB_def in_block_def mb_regs Let_def split: if_splits)
  have "mb_wf m'" using assms(1) r(1) by (simp add: m' mb_wf_def)
  then show ?thesis using r(2) by (simp add: m')
qed

lemma input_read:
  assumes "eMBRegInputCB a n m = (e, xs)" "mb_wf m"
  shows "(e = MB_ENOERR \<and> n \<le> 100 \<and> length xs = 2 * n) \<or> (e = MB_ENOREG \<and> xs = [])"
  using assms by (auto simp: eMBRegInputCB_def in_block_def mb_regs mb_wf_def Let_def split: if_splits)

section \<open>The bit callbacks\<close>

lemma length_get_bytes: "get_bytes buf k b c = Some xs \<Longrightarrow> length xs = c"
  by (induction buf k b c arbitrary: xs rule: get_bytes.induct)
    (auto split: Option.bind_splits)

lemma length_set_bits: "xMBUtilSetBits buf off n v = Some t \<Longrightarrow> length t = length buf"
  by (auto simp: xMBUtilSetBits_def Let_def split: if_splits)

lemma length_set_bits_drop:
  assumes "xMBUtilSetBits (drop k buf) off n v = Some t"
  shows "length (take k buf @ t) = length buf"
proof -
  have "drop k buf \<noteq> []" using assms by (auto simp: xMBUtilSetBits_def)
  then show ?thesis using length_set_bits[OF assms] by simp
qed

lemma length_set_bytes: "set_bytes buf k b c vs = Some (buf', vs') \<Longrightarrow> length buf' = length buf"
proof (induction buf k b c vs rule: set_bytes.induct)
  case (3 buf k b c v vs)
  then show ?case
    using length_set_bits_drop by (fastforce split: Option.bind_splits)
qed simp_all

lemma length_read_bits: "read_bits buf i n = Some xs \<Longrightarrow> length xs = n div 8 + 1"
  by (auto simp: read_bits_def simp del: get_bytes.simps dest!: length_get_bytes)

lemma length_write_bits: "write_bits buf i n bs = Some buf' \<Longrightarrow> length buf' = length buf"
  unfolding write_bits_def
  by (auto split: Option.bind_splits if_splits list.splits simp: Let_def
      dest!: length_set_bytes length_set_bits_drop simp del: length_append)

lemma coils_result:
  assumes "eMBRegCoilsCB bs a n mode m = Some (e, xs, m')" "mb_wf m"
  shows "mb_wf m' \<and> ((e = MB_ENOERR \<and> n \<le> 64 \<and> length xs \<le> n div 8 + 1) \<or> (e = MB_ENOREG \<and> xs = [] \<and> m' = m))"
  using assms
  by (auto simp: eMBRegCoilsCB_def in_block_def mb_regs mb_wf_def Let_def
      split: if_splits eMBRegisterMode.splits dest!: length_read_bits length_write_bits)

lemma discrete_result:
  assumes "eMBRegDiscreteCB a n m = Some (e, xs)" "mb_wf m"
  shows "(e = MB_ENOERR \<and> n \<le> 16 \<and> length xs = n div 8 + 1) \<or> (e = MB_ENOREG \<and> xs = [])"
  using assms
  by (auto simp: eMBRegDiscreteCB_def in_block_def mb_regs Let_def split: if_splits dest!: length_read_bits)

section \<open>Runs of coils\<close>

lemma bit_at_drop: "k \<le> length buf \<Longrightarrow> bit_at (drop k buf) j = bit_at buf (8 * k + j)"
  by (simp add: bit_at_def)

lemma bit_at_Cons: "bit_at (x # xs) j = (if j < 8 then bit x j else bit_at xs (j - 8))"
proof (cases "j < 8")
  case False
  then have "j div 8 = Suc ((j - 8) div 8)" "j mod 8 = (j - 8) mod 8"
    by (simp_all add: le_div_geq le_mod_geq)
  then show ?thesis using False by (simp add: bit_at_def)
qed (simp add: bit_at_def)

lemma get_bits_defined: "b < 8 \<Longrightarrow> xMBUtilGetBits buf b n = None \<longleftrightarrow> length buf \<le> 1"
  by (simp add: xMBUtilGetBits_def Let_def)

lemma get_bytes_bits:
  assumes "b < 8" "k + c < length buf"
  shows "\<exists>xs. get_bytes buf k b c = Some xs \<and> length xs = c \<and>
    (\<forall>j < 8 * c. bit_at xs j = bit_at buf (8 * k + b + j))"
  using assms
proof (induction c arbitrary: k)
  case (Suc c)
  obtain x where x: "xMBUtilGetBits (drop k buf) b 8 = Some x"
    using get_bits_defined[of b "drop k buf" 8] Suc.prems by fastforce
  obtain xs where xs: "get_bytes buf (k + 1) b c = Some xs" "length xs = c"
    "\<forall>j < 8 * c. bit_at xs j = bit_at buf (8 * (k + 1) + b + j)"
    using Suc.IH[of "k + 1"] Suc.prems by auto
  have "bit_at (x # xs) j = bit_at buf (8 * k + b + j)" if "j < 8 * Suc c" for j
  proof (cases "j < 8")
    case True
    then show ?thesis using get_bits_bit[OF x, of j] Suc.prems
      by (simp add: bit_at_Cons bit_at_drop add.assoc)
  next
    case False
    then have "bit_at xs (j - 8) = bit_at buf (8 * (k + 1) + b + (j - 8))" using xs(3) that by simp
    then show ?thesis using False by (simp add: bit_at_Cons add.assoc)
  qed
  then show ?case using x xs by auto
qed simp

lemma get_bytes_past_end:
  "b < 8 \<Longrightarrow> 0 < c \<Longrightarrow> length buf \<le> k + c \<Longrightarrow> get_bytes buf k b c = None"
proof (induction c arbitrary: k)
  case (Suc c)
  show ?case
  proof (cases "c = 0")
    case True
    then have "xMBUtilGetBits (drop k buf) b 8 = None"
      using Suc.prems get_bits_defined[of b "drop k buf" 8] by simp
    then show ?thesis by simp
  next
    case False
    then have "get_bytes buf (k + 1) b c = None" using Suc by simp
    then show ?thesis by (simp split: Option.bind_splits)
  qed
qed simp

lemma bit_keep_low: "r < 8 \<Longrightarrow> bit (keep_low r x) j \<longleftrightarrow> j < r \<and> bit x j"
  by (auto simp: keep_low_def bit_simps dest: bit_imp_le_length)

lemma read_bits_exact:
  assumes "i div 8 + n div 8 + 1 < length buf"
  shows "\<exists>xs. read_bits buf i n = Some xs \<and> length xs = n div 8 + 1 \<and>
    (\<forall>j < 8 * length xs. bit_at xs j \<longleftrightarrow> j < n \<and> bit_at buf (i + j))"
proof -
  obtain ys where ys: "get_bytes buf (i div 8) (i mod 8) (n div 8 + 1) = Some ys" "length ys = n div 8 + 1"
    "\<forall>j < 8 * (n div 8 + 1). bit_at ys j = bit_at buf (8 * (i div 8) + i mod 8 + j)"
    using get_bytes_bits[of "i mod 8" "i div 8" "n div 8 + 1" buf] assms by auto
  define xs where "xs = butlast ys @ [keep_low (n mod 8) (last ys)]"
  have len: "length xs = n div 8 + 1" using ys(2) by (simp add: xs_def)
  have "ys \<noteq> []" using ys(2) by auto
  have "bit_at xs j \<longleftrightarrow> j < n \<and> bit_at buf (i + j)" if j: "j < 8 * (n div 8 + 1)" for j
  proof (cases "j div 8 = n div 8")
    case True
    then have "xs ! (j div 8) = keep_low (n mod 8) (ys ! (j div 8))"
      using ys(2) \<open>ys \<noteq> []\<close> by (simp add: xs_def nth_append last_conv_nth)
    then have "bit_at xs j \<longleftrightarrow> j mod 8 < n mod 8 \<and> bit_at ys j" by (simp add: bit_at_def bit_keep_low)
    moreover have "j mod 8 < n mod 8 \<longleftrightarrow> j < n"
      using True by (metis add_less_cancel_left mult_div_mod_eq)
    ultimately show ?thesis using ys(3) j by simp
  next
    case False
    then have "j div 8 < n div 8" using j by auto
    then have "xs ! (j div 8) = ys ! (j div 8)" "j < n"
      using ys(2) by (auto simp: xs_def nth_append nth_butlast)
    then show ?thesis using ys(3) j by (simp add: bit_at_def)
  qed
  then show ?thesis using ys(1) len by (auto simp: read_bits_def xs_def simp del: get_bytes.simps)
qed

lemma read_bits_past_end: "length buf \<le> i div 8 + n div 8 + 1 \<Longrightarrow> read_bits buf i n = None"
  using get_bytes_past_end[of "i mod 8" "n div 8 + 1" buf "i div 8"]
  by (simp add: read_bits_def del: get_bytes.simps)

lemma write_one_bit:
  assumes "i div 8 + 1 < length buf" and v: "v = 0 \<or> v = 1"
  shows "\<exists>buf'. write_bits buf i 1 [v, w] = Some buf' \<and> length buf' = length buf \<and>
    (\<forall>j < 8 * length buf. bit_at buf' j = (if j = i then v = 1 else bit_at buf j))"
proof -
  define k where "k = i div 8"
  have "\<exists>t. xMBUtilSetBits (drop k buf) (i mod 8) 1 v = Some t"
    using assms(1) by (auto simp: xMBUtilSetBits_def Let_def k_def)
  then obtain t where t: "xMBUtilSetBits (drop k buf) (i mod 8) 1 v = Some t" by blast
  have bits: "length t = length buf - k \<and> (bit_at t j \<longleftrightarrow> (if j = i mod 8 then v = 1 else bit_at buf (8 * k + j)))"
    if "j < 8 * (length buf - k)" for j
    using set_bits_bit[OF t, of j] v that assms(1)
    by (auto simp: bit_at_drop k_def bit_simps split: if_splits)
  have lt: "length t = length buf - k" using length_set_bits[OF t] by simp
  have kl: "k < length buf" using assms(1) by (simp add: k_def)
  have "bit_at (take k buf @ t) j = (if j = i then v = 1 else bit_at buf j)" if j: "j < 8 * length buf" for j
  proof (cases "j < 8 * k")
    case True
    then have "j div 8 < k" "j \<noteq> i" by (auto simp: k_def)
    then show ?thesis using kl by (simp add: bit_at_def nth_append)
  next
    case False
    define j' where "j' = j - 8 * k"
    have j': "j = 8 * k + j'" using False by (simp add: j'_def)
    have e: "bit_at (take k buf @ t) j = bit_at t j'"
      using kl by (simp add: j' bit_at_def nth_append)
    have "j' = i mod 8 \<longleftrightarrow> j = i" using minus_mod_eq_mult_div[of i 8] by (auto simp: j' k_def)
    then show ?thesis using bits[of j'] e j by (auto simp: j')
  qed
  then show ?thesis
    using t lt kl by (auto simp: write_bits_def k_def)
qed

end
