(* ===== verification/MbFunc.thy ===== *)
theory MbFunc
  imports MbData
begin

text \<open>
  The Modbus function handlers (modbus/functions): one per request, on the PDU
  in the receive buffer (its 255 bytes, request and stale bytes alike), the request's length
  and the slave's data.  The result is the exception, the PDU and length of the answer, and
  the new data; \<open>None\<close> is an access outside an array.  The lemmas give the contract
  \<open>mb.c\<close> relies on (an answer fits its frame) and the answers of the register functions.
\<close>

section \<open>The protocol's numbers\<close>

definition MB_PDU_FUNC_OFF :: nat where "MB_PDU_FUNC_OFF = 0"
definition MB_PDU_DATA_OFF :: nat where "MB_PDU_DATA_OFF = 1"
definition MB_PDU_SIZE_MIN :: nat where "MB_PDU_SIZE_MIN = 1"
definition MB_FUNC_READ_COILS :: u8 where "MB_FUNC_READ_COILS = 1"
definition MB_FUNC_READ_DISCRETE_INPUTS :: u8 where "MB_FUNC_READ_DISCRETE_INPUTS = 2"
definition MB_FUNC_READ_HOLDING_REGISTER :: u8 where "MB_FUNC_READ_HOLDING_REGISTER = 3"
definition MB_FUNC_READ_INPUT_REGISTER :: u8 where "MB_FUNC_READ_INPUT_REGISTER = 4"
definition MB_FUNC_WRITE_SINGLE_COIL :: u8 where "MB_FUNC_WRITE_SINGLE_COIL = 5"
definition MB_FUNC_WRITE_REGISTER :: u8 where "MB_FUNC_WRITE_REGISTER = 6"
definition MB_FUNC_WRITE_MULTIPLE_COILS :: u8 where "MB_FUNC_WRITE_MULTIPLE_COILS = 15"
definition MB_FUNC_WRITE_MULTIPLE_REGISTERS :: u8 where "MB_FUNC_WRITE_MULTIPLE_REGISTERS = 16"
definition MB_FUNC_OTHER_REPORT_SLAVEID :: u8 where "MB_FUNC_OTHER_REPORT_SLAVEID = 17"
definition MB_FUNC_READWRITE_MULTIPLE_REGISTERS :: u8 where "MB_FUNC_READWRITE_MULTIPLE_REGISTERS = 23"
definition MB_FUNC_OTHER_REP_SLAVEID_BUF :: nat where "MB_FUNC_OTHER_REP_SLAVEID_BUF = 32"

lemmas mb_numbers = MB_PDU_FUNC_OFF_def MB_PDU_DATA_OFF_def MB_PDU_SIZE_MIN_def
  MB_FUNC_READ_COILS_def MB_FUNC_READ_DISCRETE_INPUTS_def MB_FUNC_READ_HOLDING_REGISTER_def
  MB_FUNC_READ_INPUT_REGISTER_def MB_FUNC_WRITE_SINGLE_COIL_def MB_FUNC_WRITE_REGISTER_def
  MB_FUNC_WRITE_MULTIPLE_COILS_def MB_FUNC_WRITE_MULTIPLE_REGISTERS_def
  MB_FUNC_OTHER_REPORT_SLAVEID_def MB_FUNC_READWRITE_MULTIPLE_REGISTERS_def
  MB_FUNC_OTHER_REP_SLAVEID_BUF_def

text \<open>A big-endian 16-bit field, and a checked write into the buffer.\<close>

definition rd16 :: "u8 list \<Rightarrow> nat \<Rightarrow> u16" where
  "rd16 pdu k = mk16 (pdu ! k) (pdu ! (k + 1))"

definition put :: "u8 list \<Rightarrow> nat \<Rightarrow> u8 list \<Rightarrow> u8 list option" where
  "put pdu k bs = (if k + length bs \<le> length pdu then Some (blit pdu k bs) else None)"

type_synonym answer = "(eMBException \<times> u8 list \<times> nat \<times> mb_data) option"

text \<open>The function code and byte count that open the answer to a read.\<close>

definition read_header :: "u8 list \<Rightarrow> u8 \<Rightarrow> u8 \<Rightarrow> u8 list option" where
  "read_header pdu code cnt = put pdu MB_PDU_FUNC_OFF [code, cnt]"

section \<open>mbfuncholding.c\<close>

definition eMBFuncWriteHoldingRegister :: "u8 list \<Rightarrow> nat \<Rightarrow> mb_data \<Rightarrow> answer" where
  "eMBFuncWriteHoldingRegister pdu usLen m =
     (if usLen = 4 + MB_PDU_SIZE_MIN
      then let usRegAddress = rd16 pdu MB_PDU_DATA_OFF + 1;
               (e, _, m) = eMBRegHoldingCB (drop (MB_PDU_DATA_OFF + 2) pdu) usRegAddress 1 MB_REG_WRITE m
           in Some (prveMBError2Exception e, pdu, usLen, m)
      else Some (MB_EX_ILLEGAL_DATA_VALUE, pdu, usLen, m))"

definition eMBFuncWriteMultipleHoldingRegister :: "u8 list \<Rightarrow> nat \<Rightarrow> mb_data \<Rightarrow> answer" where
  "eMBFuncWriteMultipleHoldingRegister pdu usLen m =
     (if 5 + MB_PDU_SIZE_MIN \<le> usLen
      then let usRegAddress = rd16 pdu MB_PDU_DATA_OFF + 1;
               usRegCount = rd16 pdu (MB_PDU_DATA_OFF + 2);
               ucRegByteCount = pdu ! (MB_PDU_DATA_OFF + 4)
           in if 1 \<le> usRegCount \<and> usRegCount \<le> 0x0078 \<and> ucRegByteCount = ucast (2 * usRegCount)
              then let (e, _, m) = eMBRegHoldingCB (drop (MB_PDU_DATA_OFF + 5) pdu) usRegAddress
                                     (unat usRegCount) MB_REG_WRITE m
                   in Some (prveMBError2Exception e, pdu,
                            (if e = MB_ENOERR then MB_PDU_DATA_OFF + 4 else usLen), m)
              else Some (MB_EX_ILLEGAL_DATA_VALUE, pdu, usLen, m)
      else Some (MB_EX_ILLEGAL_DATA_VALUE, pdu, usLen, m))"

definition eMBFuncReadHoldingRegister :: "u8 list \<Rightarrow> nat \<Rightarrow> mb_data \<Rightarrow> answer" where
  "eMBFuncReadHoldingRegister pdu usLen m =
     (if usLen = 4 + MB_PDU_SIZE_MIN
      then let usRegAddress = rd16 pdu MB_PDU_DATA_OFF + 1;
               usRegCount = rd16 pdu (MB_PDU_DATA_OFF + 2)
           in if 1 \<le> usRegCount \<and> usRegCount \<le> 0x007D
              then do {
                pdu \<leftarrow> read_header pdu MB_FUNC_READ_HOLDING_REGISTER (ucast (usRegCount * 2));
                let (e, bs, m) = eMBRegHoldingCB (drop 2 pdu) usRegAddress (unat usRegCount) MB_REG_READ m;
                pdu \<leftarrow> put pdu 2 bs;
                Some (prveMBError2Exception e, pdu,
                      (if e = MB_ENOERR then 2 + unat usRegCount * 2 else 2), m) }
              else Some (MB_EX_ILLEGAL_DATA_VALUE, pdu, usLen, m)
      else Some (MB_EX_ILLEGAL_DATA_VALUE, pdu, usLen, m))"

text \<open>A request that is too short is answered without an exception.\<close>

definition eMBFuncReadWriteMultipleHoldingRegister :: "u8 list \<Rightarrow> nat \<Rightarrow> mb_data \<Rightarrow> answer" where
  "eMBFuncReadWriteMultipleHoldingRegister pdu usLen m =
     (if 9 + MB_PDU_SIZE_MIN \<le> usLen
      then let usRegReadAddress = rd16 pdu MB_PDU_DATA_OFF + 1;
               usRegReadCount = rd16 pdu (MB_PDU_DATA_OFF + 2);
               usRegWriteAddress = rd16 pdu (MB_PDU_DATA_OFF + 4) + 1;
               usRegWriteCount = rd16 pdu (MB_PDU_DATA_OFF + 6);
               ucRegWriteByteCount = pdu ! (MB_PDU_DATA_OFF + 8)
           in if 1 \<le> usRegReadCount \<and> usRegReadCount \<le> 0x7D \<and>
                 1 \<le> usRegWriteCount \<and> usRegWriteCount \<le> 0x79 \<and>
                 2 * unat usRegWriteCount = unat ucRegWriteByteCount
              then let (e, _, m) = eMBRegHoldingCB (drop (MB_PDU_DATA_OFF + 9) pdu) usRegWriteAddress
                                     (unat usRegWriteCount) MB_REG_WRITE m
                   in if e = MB_ENOERR
                      then do {
                        pdu \<leftarrow> read_header pdu MB_FUNC_READWRITE_MULTIPLE_REGISTERS (ucast (usRegReadCount * 2));
                        let (e, bs, m) = eMBRegHoldingCB (drop 2 pdu) usRegReadAddress
                                           (unat usRegReadCount) MB_REG_READ m;
                        pdu \<leftarrow> put pdu 2 bs;
                        Some (prveMBError2Exception e, pdu,
                              (if e = MB_ENOERR then 2 + 2 * unat usRegReadCount else 2), m) }
                      else Some (prveMBError2Exception e, pdu, usLen, m)
              else Some (MB_EX_ILLEGAL_DATA_VALUE, pdu, usLen, m)
      else Some (MB_EX_NONE, pdu, usLen, m))"

section \<open>mbfuncinput.c, mbfunccoils.c, mbfuncdisc.c\<close>

definition eMBFuncReadInputRegister :: "u8 list \<Rightarrow> nat \<Rightarrow> mb_data \<Rightarrow> answer" where
  "eMBFuncReadInputRegister pdu usLen m =
     (if usLen = 4 + MB_PDU_SIZE_MIN
      then let usRegAddress = rd16 pdu MB_PDU_DATA_OFF + 1;
               usRegCount = rd16 pdu (MB_PDU_DATA_OFF + 2)
           in if 1 \<le> usRegCount \<and> usRegCount < 0x007D
              then do {
                pdu \<leftarrow> read_header pdu MB_FUNC_READ_INPUT_REGISTER (ucast (usRegCount * 2));
                let (e, bs) = eMBRegInputCB usRegAddress (unat usRegCount) m;
                pdu \<leftarrow> put pdu 2 bs;
                Some (prveMBError2Exception e, pdu,
                      (if e = MB_ENOERR then 2 + unat usRegCount * 2 else 2), m) }
              else Some (MB_EX_ILLEGAL_DATA_VALUE, pdu, usLen, m)
      else Some (MB_EX_ILLEGAL_DATA_VALUE, pdu, usLen, m))"

definition byte_count :: "u16 \<Rightarrow> u8" where
  "byte_count n = (if n AND 7 \<noteq> 0 then ucast (n div 8 + 1) else ucast (n div 8))"

definition eMBFuncReadCoils :: "u8 list \<Rightarrow> nat \<Rightarrow> mb_data \<Rightarrow> answer" where
  "eMBFuncReadCoils pdu usLen m =
     (if usLen = 4 + MB_PDU_SIZE_MIN
      then let usRegAddress = rd16 pdu MB_PDU_DATA_OFF + 1;
               usCoilCount = rd16 pdu (MB_PDU_DATA_OFF + 2)
           in if 1 \<le> usCoilCount \<and> usCoilCount < 0x07D0
              then do {
                pdu \<leftarrow> read_header pdu MB_FUNC_READ_COILS (byte_count usCoilCount);
                (e, bs, m) \<leftarrow> eMBRegCoilsCB (drop 2 pdu) usRegAddress (unat usCoilCount) MB_REG_READ m;
                pdu \<leftarrow> put pdu 2 bs;
                Some (prveMBError2Exception e, pdu,
                      (if e = MB_ENOERR then 2 + unat (byte_count usCoilCount) else 2), m) }
              else Some (MB_EX_ILLEGAL_DATA_VALUE, pdu, usLen, m)
      else Some (MB_EX_ILLEGAL_DATA_VALUE, pdu, usLen, m))"

definition eMBFuncWriteCoil :: "u8 list \<Rightarrow> nat \<Rightarrow> mb_data \<Rightarrow> answer" where
  "eMBFuncWriteCoil pdu usLen m =
     (if usLen = 4 + MB_PDU_SIZE_MIN
      then let usRegAddress = rd16 pdu MB_PDU_DATA_OFF + 1
           in if pdu ! (MB_PDU_DATA_OFF + 3) = 0 \<and>
                 (pdu ! (MB_PDU_DATA_OFF + 2) = 0xFF \<or> pdu ! (MB_PDU_DATA_OFF + 2) = 0)
              then do {
                let ucBuf = [if pdu ! (MB_PDU_DATA_OFF + 2) = 0xFF then 1 else 0, 0];
                (e, _, m) \<leftarrow> eMBRegCoilsCB ucBuf usRegAddress 1 MB_REG_WRITE m;
                Some (prveMBError2Exception e, pdu, usLen, m) }
              else Some (MB_EX_ILLEGAL_DATA_VALUE, pdu, usLen, m)
      else Some (MB_EX_ILLEGAL_DATA_VALUE, pdu, usLen, m))"

definition eMBFuncWriteMultipleCoils :: "u8 list \<Rightarrow> nat \<Rightarrow> mb_data \<Rightarrow> answer" where
  "eMBFuncWriteMultipleCoils pdu usLen m =
     (if 4 + MB_PDU_SIZE_MIN < usLen
      then let usRegAddress = rd16 pdu MB_PDU_DATA_OFF + 1;
               usCoilCnt = rd16 pdu (MB_PDU_DATA_OFF + 2);
               ucByteCount = pdu ! (MB_PDU_DATA_OFF + 4)
           in if 1 \<le> usCoilCnt \<and> usCoilCnt \<le> 0x07B0 \<and> byte_count usCoilCnt = ucByteCount
              then do {
                (e, _, m) \<leftarrow> eMBRegCoilsCB (drop (MB_PDU_DATA_OFF + 5) pdu) usRegAddress
                               (unat usCoilCnt) MB_REG_WRITE m;
                Some (prveMBError2Exception e, pdu,
                      (if e = MB_ENOERR then MB_PDU_DATA_OFF + 4 else usLen), m) }
              else Some (MB_EX_ILLEGAL_DATA_VALUE, pdu, usLen, m)
      else Some (MB_EX_ILLEGAL_DATA_VALUE, pdu, usLen, m))"

definition eMBFuncReadDiscreteInputs :: "u8 list \<Rightarrow> nat \<Rightarrow> mb_data \<Rightarrow> answer" where
  "eMBFuncReadDiscreteInputs pdu usLen m =
     (if usLen = 4 + MB_PDU_SIZE_MIN
      then let usRegAddress = rd16 pdu MB_PDU_DATA_OFF + 1;
               usDiscreteCnt = rd16 pdu (MB_PDU_DATA_OFF + 2)
           in if 1 \<le> usDiscreteCnt \<and> usDiscreteCnt < 0x07D0
              then do {
                pdu \<leftarrow> read_header pdu MB_FUNC_READ_DISCRETE_INPUTS (byte_count usDiscreteCnt);
                (e, bs) \<leftarrow> eMBRegDiscreteCB usRegAddress (unat usDiscreteCnt) m;
                pdu \<leftarrow> put pdu 2 bs;
                Some (prveMBError2Exception e, pdu,
                      (if e = MB_ENOERR then 2 + unat (byte_count usDiscreteCnt) else 2), m) }
              else Some (MB_EX_ILLEGAL_DATA_VALUE, pdu, usLen, m)
      else Some (MB_EX_ILLEGAL_DATA_VALUE, pdu, usLen, m))"

section \<open>mbfuncother.c\<close>

definition eMBSetSlaveID :: "u8 \<Rightarrow> bool \<Rightarrow> u8 list \<Rightarrow> mb_data \<Rightarrow> eMBErrorCode \<times> mb_data" where
  "eMBSetSlaveID ucSlaveID xIsRunning additional m =
     (if length additional + 2 < MB_FUNC_OTHER_REP_SLAVEID_BUF
      then let bs = [ucSlaveID, if xIsRunning then 0xFF else 0] @ additional
           in (MB_ENOERR, m\<lparr>ucMBSlaveID := blit (ucMBSlaveID m) 0 bs, usMBSlaveIDLen := length bs\<rparr>)
      else (MB_ENORES, m))"

definition eMBFuncReportSlaveID :: "u8 list \<Rightarrow> nat \<Rightarrow> mb_data \<Rightarrow> answer" where
  "eMBFuncReportSlaveID pdu usLen m =
     do { pdu \<leftarrow> put pdu MB_PDU_DATA_OFF (take (usMBSlaveIDLen m) (ucMBSlaveID m));
          Some (MB_EX_NONE, pdu, MB_PDU_DATA_OFF + usMBSlaveIDLen m, m) }"

section \<open>The table of handlers\<close>

datatype handler = ReportSlaveID | ReadInputRegister | ReadHoldingRegister
  | WriteMultipleHoldingRegister | WriteHoldingRegister | ReadWriteMultipleHoldingRegister
  | ReadCoils | WriteCoil | WriteMultipleCoils | ReadDiscreteInputs

fun run_handler :: "handler \<Rightarrow> u8 list \<Rightarrow> nat \<Rightarrow> mb_data \<Rightarrow> answer" where
  "run_handler ReportSlaveID = eMBFuncReportSlaveID"
| "run_handler ReadInputRegister = eMBFuncReadInputRegister"
| "run_handler ReadHoldingRegister = eMBFuncReadHoldingRegister"
| "run_handler WriteMultipleHoldingRegister = eMBFuncWriteMultipleHoldingRegister"
| "run_handler WriteHoldingRegister = eMBFuncWriteHoldingRegister"
| "run_handler ReadWriteMultipleHoldingRegister = eMBFuncReadWriteMultipleHoldingRegister"
| "run_handler ReadCoils = eMBFuncReadCoils"
| "run_handler WriteCoil = eMBFuncWriteCoil"
| "run_handler WriteMultipleCoils = eMBFuncWriteMultipleCoils"
| "run_handler ReadDiscreteInputs = eMBFuncReadDiscreteInputs"

section \<open>Answers fit their frame\<close>

lemma pdu_offsets:
  "MB_PDU_DATA_OFF + 2 = 3" "MB_PDU_DATA_OFF + 3 = 4" "MB_PDU_DATA_OFF + 4 = 5" "MB_PDU_DATA_OFF + 5 = 6"
  "MB_PDU_DATA_OFF + 6 = 7" "MB_PDU_DATA_OFF + 8 = 9" "MB_PDU_DATA_OFF + 9 = 10"
  "4 + MB_PDU_SIZE_MIN = 5" "5 + MB_PDU_SIZE_MIN = 6" "9 + MB_PDU_SIZE_MIN = 10"
  by (simp_all add: mb_numbers)

lemma put_length: "put pdu k bs = Some p \<Longrightarrow> length p = length pdu"
  by (auto simp: put_def split: if_splits)

lemma put_some: "k + length bs \<le> length pdu \<Longrightarrow> put pdu k bs = Some (blit pdu k bs)"
  by (simp add: put_def)

lemma read_header_some: "2 \<le> length pdu \<Longrightarrow> read_header pdu code cnt = Some (blit pdu 0 [code, cnt])"
  by (simp add: read_header_def put_def mb_numbers)

lemma read_header_length: "read_header pdu code cnt = Some p \<Longrightarrow> length p = length pdu"
  by (auto simp: read_header_def dest: put_length)

lemma byte_count_bound: "unat n \<le> 64 \<Longrightarrow> unat (byte_count n) \<le> 8"
proof -
  assume n: "unat n \<le> 64"
  have d: "unat (n div 8) = unat n div 8" by (simp add: unat_div)
  have "unat (ucast (n div 8) :: u8) \<le> 8" using n d by (simp add: unsigned_ucast_eq take_bit_eq_mod)
  moreover have "unat (n div 8 + 1) = unat n div 8 + 1"
    using n d by (simp add: unat_word_ariths)
  moreover have "unat n < 64" if "n AND 7 \<noteq> 0"
  proof (rule ccontr)
    assume "\<not> unat n < 64"
    then have "unat n = 64" using n by simp
    then have "n = 64" by (simp add: word_unat_eq_iff)
    then show False using that by simp
  qed
  ultimately show ?thesis using n by (auto simp: byte_count_def unsigned_ucast_eq take_bit_eq_mod)
qed

definition frame_fits :: "u8 list \<Rightarrow> nat \<Rightarrow> bool" where
  "frame_fits pdu len \<longleftrightarrow> length pdu = 255 \<and> len \<le> 253"

text \<open>What \<open>mb.c\<close> expects of a handler.\<close>

definition answer_ok :: "answer \<Rightarrow> bool" where
  "answer_ok r = (case r of None \<Rightarrow> False | Some (e, pdu, len, m) \<Rightarrow> frame_fits pdu len \<and> mb_wf m)"

lemma answer_okI: "frame_fits pdu len \<Longrightarrow> mb_wf m \<Longrightarrow> answer_ok (Some (e, pdu, len, m))"
  by (simp add: answer_ok_def)

lemma frame_fits_shorter: "frame_fits pdu len \<Longrightarrow> len' \<le> 253 \<Longrightarrow> frame_fits pdu len'"
  by (simp add: frame_fits_def)

lemma holding_write_wf:
  assumes "eMBRegHoldingCB bs a n MB_REG_WRITE m = (e, xs, m')" "mb_wf m" "2 * n \<le> length bs"
  shows "mb_wf m'"
  using holding_write[of m "a - 1" n bs e xs m'] holding_write_result[of bs "a - 1" n m e xs m'] assms
  by (cases "e = MB_ENOERR") auto

text \<open>The holding-register read both \<open>ReadHoldingRegister\<close> and \<open>ReadWriteMultiple\<close> end with.\<close>

lemma holding_answer_ok:
  assumes "mb_wf m" "frame_fits pdu len" "n \<le> 0x7D"
  shows "answer_ok (do {
      pdu \<leftarrow> read_header pdu code cnt;
      let (e, bs, m) = eMBRegHoldingCB (drop 2 pdu) a n MB_REG_READ m;
      pdu \<leftarrow> put pdu 2 bs;
      Some (prveMBError2Exception e, pdu, (if e = MB_ENOERR then 2 + n * 2 else 2), m) })"
  using assms holding_read[of m _ "a - 1" n]
  by (auto simp: read_header_some put_some frame_fits_def answer_ok_def mb_wf_def)

lemma input_answer_ok:
  assumes "mb_wf m" "frame_fits pdu len" "n < 0x7D"
  shows "answer_ok (do {
      pdu \<leftarrow> read_header pdu code cnt;
      let (e, bs) = eMBRegInputCB a n m;
      pdu \<leftarrow> put pdu 2 bs;
      Some (prveMBError2Exception e, pdu, (if e = MB_ENOERR then 2 + n * 2 else 2), m) })"
proof (cases "eMBRegInputCB a n m")
  case (Pair e bs)
  then show ?thesis using assms input_read[OF Pair assms(1)]
    by (auto simp: read_header_some put_some frame_fits_def answer_ok_def)
qed

lemmas holding_handlers_def = eMBFuncWriteHoldingRegister_def eMBFuncWriteMultipleHoldingRegister_def
  eMBFuncReadHoldingRegister_def eMBFuncReadWriteMultipleHoldingRegister_def

lemma unat_le_conv: "c \<le> 0x7D \<longleftrightarrow> unat (c :: u16) \<le> 0x7D" "c < 0x7D \<longleftrightarrow> unat (c :: u16) < 0x7D"
  "c \<le> 0x78 \<longleftrightarrow> unat c \<le> 0x78" "c \<le> 0x79 \<longleftrightarrow> unat c \<le> 0x79" "1 \<le> c \<longleftrightarrow> 1 \<le> unat c"
  by (simp_all add: word_le_nat_alt word_less_nat_alt)

lemma read_holding_ok:
  "mb_wf m \<Longrightarrow> frame_fits pdu len \<Longrightarrow> answer_ok (eMBFuncReadHoldingRegister pdu len m)"
  unfolding eMBFuncReadHoldingRegister_def pdu_offsets
  unfolding MB_PDU_DATA_OFF_def
  by (auto simp: Let_def unat_le_conv holding_answer_ok[unfolded Let_def] intro!: answer_okI intro: frame_fits_shorter)

lemma read_input_ok:
  "mb_wf m \<Longrightarrow> frame_fits pdu len \<Longrightarrow> answer_ok (eMBFuncReadInputRegister pdu len m)"
  unfolding eMBFuncReadInputRegister_def pdu_offsets
  unfolding MB_PDU_DATA_OFF_def
  by (auto simp: Let_def unat_le_conv input_answer_ok[unfolded Let_def] intro!: answer_okI intro: frame_fits_shorter)

lemma write_holding_ok:
  assumes "mb_wf m" "frame_fits pdu len"
  shows "answer_ok (eMBFuncWriteHoldingRegister pdu len m)"
proof (cases "eMBRegHoldingCB (drop 3 pdu) (rd16 pdu 1 + 1) 1 MB_REG_WRITE m")
  case (fields e bs m')
  then have "mb_wf m'" using holding_write_wf[OF fields] assms by (simp add: frame_fits_def)
  then show ?thesis using assms fields unfolding eMBFuncWriteHoldingRegister_def pdu_offsets
  unfolding MB_PDU_DATA_OFF_def
    by (auto simp: Let_def intro!: answer_okI)
qed

lemma write_multiple_ok:
  assumes "mb_wf m" "frame_fits pdu len"
  shows "answer_ok (eMBFuncWriteMultipleHoldingRegister pdu len m)"
proof (cases "eMBRegHoldingCB (drop 6 pdu) (rd16 pdu 1 + 1) (unat (rd16 pdu 3)) MB_REG_WRITE m")
  case (fields e bs m')
  then have "rd16 pdu 3 \<le> 0x78 \<Longrightarrow> mb_wf m'"
    using holding_write_wf[OF fields] assms by (simp add: frame_fits_def unat_le_conv)
  then show ?thesis using assms fields unfolding eMBFuncWriteMultipleHoldingRegister_def pdu_offsets
  unfolding MB_PDU_DATA_OFF_def
    by (auto simp: Let_def intro!: answer_okI intro: frame_fits_shorter)
qed

lemma read_write_ok:
  assumes "mb_wf m" "frame_fits pdu len"
  shows "answer_ok (eMBFuncReadWriteMultipleHoldingRegister pdu len m)"
proof (cases "eMBRegHoldingCB (drop 10 pdu) (rd16 pdu 5 + 1) (unat (rd16 pdu 7)) MB_REG_WRITE m")
  case (fields e bs m')
  then have "rd16 pdu 7 \<le> 0x79 \<Longrightarrow> mb_wf m'"
    using holding_write_wf[OF fields] assms by (simp add: frame_fits_def unat_le_conv)
  then show ?thesis using assms fields unfolding eMBFuncReadWriteMultipleHoldingRegister_def pdu_offsets
  unfolding MB_PDU_DATA_OFF_def
    by (auto simp: Let_def unat_le_conv
        holding_answer_ok[unfolded Let_def mult.commute[of _ 2]] intro!: answer_okI)
qed

section \<open>The bit handlers\<close>

lemma byte_counts: "list_all (\<lambda>k. unat (byte_count (of_nat k)) = (k + 7) div 8) [1..<65]"
  by code_simp

lemma byte_count_eq:
  assumes "1 \<le> unat n" "unat n \<le> 64"
  shows "unat (byte_count n) = (unat n + 7) div 8"
proof -
  have "unat n \<in> set [1..<65]" using assms by simp
  then have "unat (byte_count (of_nat (unat n))) = (unat n + 7) div 8"
    using byte_counts unfolding list_all_iff by blast
  then show ?thesis by simp
qed

definition answer_fits :: "answer \<Rightarrow> bool" where
  "answer_fits r = (case r of None \<Rightarrow> True | Some _ \<Rightarrow> answer_ok r)"

lemma answer_ok_fits: "answer_ok r \<Longrightarrow> answer_fits r"
  by (auto simp: answer_fits_def split: option.split)

lemma read_coils_fits:
  assumes "mb_wf m" "frame_fits pdu len"
  shows "answer_fits (eMBFuncReadCoils pdu len m)"
proof (cases "eMBRegCoilsCB (drop 2 (blit pdu 0 [MB_FUNC_READ_COILS, byte_count (rd16 pdu 3)])) (rd16 pdu 1 + 1)
    (unat (rd16 pdu 3)) MB_REG_READ m")
  case None
  then show ?thesis using assms unfolding eMBFuncReadCoils_def pdu_offsets
    unfolding MB_PDU_DATA_OFF_def
    by (auto simp: Let_def read_header_some frame_fits_def answer_fits_def answer_ok_def)
next
  case (Some r)
  obtain e bs m' where r: "r = (e, bs, m')" by (cases r)
  show ?thesis using assms coils_result[OF Some[unfolded r] assms(1)] Some r
      byte_count_bound[of "rd16 pdu 3"]
    unfolding eMBFuncReadCoils_def pdu_offsets
    unfolding MB_PDU_DATA_OFF_def
    by (auto simp: Let_def read_header_some put_some frame_fits_def answer_fits_def answer_ok_def)
qed

lemma read_discrete_fits:
  assumes "mb_wf m" "frame_fits pdu len"
  shows "answer_fits (eMBFuncReadDiscreteInputs pdu len m)"
proof (cases "eMBRegDiscreteCB (rd16 pdu 1 + 1) (unat (rd16 pdu 3)) m")
  case None
  then show ?thesis using assms unfolding eMBFuncReadDiscreteInputs_def pdu_offsets
    unfolding MB_PDU_DATA_OFF_def
    by (auto simp: Let_def read_header_some frame_fits_def answer_fits_def answer_ok_def)
next
  case (Some r)
  obtain e bs where r: "r = (e, bs)" by (cases r)
  show ?thesis using assms discrete_result[OF Some[unfolded r] assms(1)] Some r
      byte_count_bound[of "rd16 pdu 3"]
    unfolding eMBFuncReadDiscreteInputs_def pdu_offsets
    unfolding MB_PDU_DATA_OFF_def
    by (auto simp: Let_def read_header_some put_some frame_fits_def answer_fits_def answer_ok_def)
qed

lemma write_coil_fits:
  assumes "mb_wf m" "frame_fits pdu len"
  shows "answer_fits (eMBFuncWriteCoil pdu len m)"
  using assms unfolding eMBFuncWriteCoil_def pdu_offsets
  unfolding MB_PDU_DATA_OFF_def
  by (auto simp: Let_def answer_fits_def answer_ok_def dest: coils_result
      split: Option.bind_splits option.splits)

lemma write_coils_fits:
  assumes "mb_wf m" "frame_fits pdu len"
  shows "answer_fits (eMBFuncWriteMultipleCoils pdu len m)"
  using assms unfolding eMBFuncWriteMultipleCoils_def pdu_offsets
  unfolding MB_PDU_DATA_OFF_def
  by (auto simp: Let_def answer_fits_def answer_ok_def dest: coils_result intro: frame_fits_shorter
      split: Option.bind_splits option.splits)

lemma report_ok:
  "mb_wf m \<Longrightarrow> frame_fits pdu len \<Longrightarrow> answer_ok (eMBFuncReportSlaveID pdu len m)"
  by (simp add: eMBFuncReportSlaveID_def put_some answer_ok_def frame_fits_def mb_wf_def mb_numbers)

text \<open>Which handlers never leave an array, whatever the request.\<close>

fun reg_handler :: "handler \<Rightarrow> bool" where
  "reg_handler h = (h \<notin> {ReadCoils, WriteCoil, WriteMultipleCoils, ReadDiscreteInputs})"

lemma reg_handler_ok:
  "reg_handler h \<Longrightarrow> mb_wf m \<Longrightarrow> frame_fits pdu len \<Longrightarrow> answer_ok (run_handler h pdu len m)"
  by (cases h) (simp_all add: report_ok read_input_ok read_holding_ok write_multiple_ok write_holding_ok read_write_ok)

lemma handler_fits:
  "mb_wf m \<Longrightarrow> frame_fits pdu len \<Longrightarrow> answer_fits (run_handler h pdu len m)"
  by (cases h) (simp_all add: report_ok read_input_ok read_holding_ok write_multiple_ok write_holding_ok
      read_write_ok answer_ok_fits read_coils_fits read_discrete_fits write_coil_fits write_coils_fits)

section \<open>What the requests do\<close>

definition mb0 :: mb_data where
  "mb0 = \<lparr>ucSDiscInBuf = replicate 2 0, ucSCoilBuf = replicate 8 0, usSRegInBuf = replicate 100 0,
     hold = ccr_zero, write_sem = 0, ucMBSlaveID = replicate 32 0, usMBSlaveIDLen = 0\<rparr>"

lemma mb_wf_mb0: "mb_wf mb0"
  by (simp add: mb0_def mb_wf_def mb_regs ccr_zero_def)

lemma ucast_double: "ucast (2 * c :: u16) = (of_nat (2 * unat c) :: u8)"
  by (simp add: word_unat_eq_iff unsigned_ucast_eq unat_word_ariths take_bit_eq_mod unat_of_nat mod_mod_cancel
      mod_mult_right_eq)

lemma words_of_nth: "k < length bs div 2 \<Longrightarrow> words_of bs ! k = mk16 (bs ! (2 * k)) (bs ! (2 * k + 1))"
proof (induction bs arbitrary: k rule: words_of.induct)
  case (1 h l bs)
  then show ?case by (cases k) simp_all
qed simp_all

lemma write_multiple_effect:
  assumes "mb_wf m" "length pdu = 255" "6 \<le> len"
    and a: "a = unat (rd16 pdu 1)" and n: "n = unat (rd16 pdu 3)"
    and r: "100 \<le> a" "a + n \<le> 200" "1 \<le> n" and cnt: "pdu ! 5 = of_nat (2 * n)"
  shows "\<exists>m'. eMBFuncWriteMultipleHoldingRegister pdu len m = Some (MB_EX_NONE, pdu, 5, m') \<and> mb_wf m' \<and>
    (\<forall>k < 108. regs_of (hold m') ! k =
       (if a - 100 \<le> k \<and> k < a - 100 + n then rd16 pdu (6 + 2 * (k - (a - 100))) else regs_of (hold m) ! k)) \<and>
    write_sem m' = write_sem m + (if a + n \<le> 103 then 1 else 0)"
proof (cases "eMBRegHoldingCB (drop 6 pdu) (rd16 pdu 1 + 1) n MB_REG_WRITE m")
  case (fields e bs m')
  have w: "e = MB_ENOERR" "mb_wf m'"
    "regs_of (hold m') = blit (regs_of (hold m)) (a - 100) (take n (words_of (drop 6 pdu)))"
    "write_sem m' = write_sem m + (if a + n \<le> 103 then 1 else 0)"
    using holding_write[OF assms(1), of "rd16 pdu 1" n "drop 6 pdu" e bs m'] fields a r assms(2) by auto
  have lw: "length (take n (words_of (drop 6 pdu))) = n" using r assms(2) by simp
  have lr: "length (regs_of (hold m)) = 108" using assms(1) by (simp add: mb_wf_def)
  have "regs_of (hold m') ! k =
      (if a - 100 \<le> k \<and> k < a - 100 + n then rd16 pdu (6 + 2 * (k - (a - 100))) else regs_of (hold m) ! k)"
    if "k < 108" for k
    using that r assms(2) unfolding w(3)
    by (subst nth_blit) (auto simp: lw lr words_of_nth rd16_def add.assoc)
  moreover have "ucast (2 * rd16 pdu 3) = (of_nat (2 * n) :: u8)"
    unfolding n by (rule ucast_double)
  moreover have "1 \<le> rd16 pdu 3" "rd16 pdu 3 \<le> 0x78" using n r by (simp_all add: unat_le_conv)
  ultimately show ?thesis using assms(3) w(1,2,4) fields cnt n
    unfolding eMBFuncWriteMultipleHoldingRegister_def pdu_offsets
    unfolding MB_PDU_DATA_OFF_def
    by (auto simp: Let_def)
qed

lemma read_effect:
  assumes "mb_wf m" "length pdu = 255"
    and a: "a = unat (rd16 pdu 1)" and n: "n = unat (rd16 pdu 3)" and "1 \<le> n" "n \<le> 125"
  shows "eMBFuncReadHoldingRegister pdu 5 m =
    (if 100 \<le> a \<and> a + n \<le> 200
     then Some (MB_EX_NONE,
            blit pdu 0 ([3, of_nat (2 * n)] @ reg_bytes (take n (drop (a - 100) (regs_of (hold m))))), 2 + 2 * n, m)
     else Some (MB_EX_ILLEGAL_DATA_ADDRESS, blit pdu 0 [3, of_nat (2 * n)], 2, m))"
proof -
  have c: "ucast (rd16 pdu 3 * 2) = (of_nat (2 * n) :: u8)"
    unfolding n mult.commute[of _ 2] by (rule ucast_double)
  have lr: "length (regs_of (hold m)) = 108" using assms(1) by (simp add: mb_wf_def)
  have b: "blit (blit pdu 0 [3, x]) 2 xs = blit pdu 0 ([3, x] @ xs)" for x xs
    using assms(2) by (simp add: blit_def numeral_2_eq_2)
  have "1 \<le> rd16 pdu 3" "rd16 pdu 3 \<le> 0x7D" using n assms(5,6) by (simp_all add: unat_le_conv)
  then show ?thesis using assms(2) holding_read[OF assms(1), of _ "rd16 pdu 1" n]
    unfolding eMBFuncReadHoldingRegister_def pdu_offsets
    unfolding MB_PDU_DATA_OFF_def
    by (auto simp: Let_def c b lr a read_header_some put_some MB_FUNC_READ_HOLDING_REGISTER_def
        mult.commute[of n 2] simp del: of_nat_mult simp flip: n)
qed

lemma read_coils_effect:
  assumes "mb_wf m" "length pdu = 255"
    and a: "a = unat (rd16 pdu 1)" and n: "n = unat (rd16 pdu 3)"
    and r: "1 \<le> n" "a + n \<le> 64" "a div 8 + n div 8 < 7"
  shows "\<exists>xs. length xs = n div 8 + 1 \<and>
    eMBFuncReadCoils pdu 5 m = Some (MB_EX_NONE,
        blit pdu 0 ([1, of_nat ((n + 7) div 8)] @ xs), 2 + (n + 7) div 8, m) \<and>
    (\<forall>j < 8 * length xs. bit_at xs j \<longleftrightarrow> j < n \<and> bit_at (ucSCoilBuf m) (a + j))"
proof -
  obtain xs where xs: "read_bits (ucSCoilBuf m) a n = Some xs" "length xs = n div 8 + 1"
    "\<forall>j < 8 * length xs. bit_at xs j \<longleftrightarrow> j < n \<and> bit_at (ucSCoilBuf m) (a + j)"
    using read_bits_exact[of a n "ucSCoilBuf m"] assms(1) r by (auto simp: mb_wf_def mb_regs)
  have bc: "unat (byte_count (rd16 pdu 3)) = (n + 7) div 8" using byte_count_eq[of "rd16 pdu 3"] n r by simp
  then have bc': "byte_count (rd16 pdu 3) = of_nat ((n + 7) div 8)"
    by (metis of_nat_unat ucast_id)
  have b: "blit (blit pdu 0 [1, x]) 2 xs = blit pdu 0 ([1, x] @ xs)" for x
    using assms(2) by (simp add: blit_def numeral_2_eq_2)
  have "eMBRegCoilsCB bs (rd16 pdu 1 + 1) n MB_REG_READ m = Some (MB_ENOERR, xs, m)" for bs
    using xs(1) r a by (simp add: eMBRegCoilsCB_def in_block_def mb_regs Let_def)
  moreover have "1 \<le> rd16 pdu 3" "rd16 pdu 3 < 0x7D0"
    using n r by (simp_all add: word_le_nat_alt word_less_nat_alt)
  moreover have "2 + length xs \<le> 255" using xs(2) r by simp
  ultimately have "eMBFuncReadCoils pdu 5 m = Some (MB_EX_NONE,
      blit pdu 0 ([1, of_nat ((n + 7) div 8)] @ xs), 2 + (n + 7) div 8, m)"
    using assms(2) unfolding eMBFuncReadCoils_def pdu_offsets
    unfolding MB_PDU_DATA_OFF_def
    by (simp add: Let_def read_header_some put_some MB_FUNC_READ_COILS_def b bc flip: bc' n)
  then show ?thesis using xs(2,3) by blast
qed

lemma write_coil_effect:
  assumes "mb_wf m" and a: "a = unat (rd16 pdu 1)" "a < 56" and v: "pdu ! 3 = 0 \<or> pdu ! 3 = 0xFF" "pdu ! 4 = 0"
  shows "\<exists>b. length b = 8 \<and> eMBFuncWriteCoil pdu 5 m = Some (MB_EX_NONE, pdu, 5, m\<lparr>ucSCoilBuf := b\<rparr>) \<and>
    (\<forall>j < 64. bit_at b j = (if j = a then pdu ! 3 = 0xFF else bit_at (ucSCoilBuf m) j))"
proof -
  let ?v = "if pdu ! 3 = 0xFF then 1 else 0 :: u8"
  have len: "length (ucSCoilBuf m) = 8" using assms(1) by (simp add: mb_wf_def mb_regs)
  have "a div 8 + 1 < 8" using less_mult_imp_div_less[of a 7 8] a(2) by simp
  moreover have v01: "?v = 0 \<or> ?v = 1" by simp
  ultimately obtain b where b: "write_bits (ucSCoilBuf m) a 1 [?v, 0] = Some b" "length b = 8"
    "\<forall>j < 64. bit_at b j = (if j = a then ?v = 1 else bit_at (ucSCoilBuf m) j)"
    using write_one_bit[of a "ucSCoilBuf m" ?v 0, OF _ v01] unfolding len by auto
  have "eMBRegCoilsCB [?v, 0] (rd16 pdu 1 + 1) 1 MB_REG_WRITE m = Some (MB_ENOERR, [], m\<lparr>ucSCoilBuf := b\<rparr>)"
    using a b(1) by (simp add: eMBRegCoilsCB_def in_block_def mb_regs Let_def)
  then have "eMBFuncWriteCoil pdu 5 m = Some (MB_EX_NONE, pdu, 5, m\<lparr>ucSCoilBuf := b\<rparr>)"
    using v unfolding eMBFuncWriteCoil_def pdu_offsets
    unfolding MB_PDU_DATA_OFF_def by (auto simp: Let_def)
  moreover have "(?v = 1) = (pdu ! 3 = 0xFF)" by simp
  ultimately show ?thesis using b(2,3) by metis
qed

lemma write_last_coils:
  assumes "mb_wf m" and a: "a = unat (rd16 pdu 1)" "56 \<le> a" "a < 64"
    and v: "pdu ! 3 = 0 \<or> pdu ! 3 = 0xFF" "pdu ! 4 = 0"
  shows "eMBFuncWriteCoil pdu 5 m = None"
proof -
  have "length (ucSCoilBuf m) = 8" using assms(1) by (simp add: mb_wf_def mb_regs)
  moreover have "a div 8 = 7" using a by auto
  ultimately have "write_bits (ucSCoilBuf m) a 1 [w, 0] = None" for w
    by (simp add: write_bits_def xMBUtilSetBits_def)
  then have "eMBRegCoilsCB [w, 0] (rd16 pdu 1 + 1) 1 MB_REG_WRITE m = None" for w
    using a by (simp add: eMBRegCoilsCB_def in_block_def mb_regs Let_def)
  then show ?thesis using v unfolding eMBFuncWriteCoil_def pdu_offsets
    unfolding MB_PDU_DATA_OFF_def by (auto simp: Let_def)
qed

lemma read_last_coils:
  assumes "mb_wf m" "length pdu = 255"
    and a: "a = unat (rd16 pdu 1)" and n: "n = unat (rd16 pdu 3)"
    and r: "1 \<le> n" "a + n \<le> 64" "7 \<le> a div 8 + n div 8"
  shows "eMBFuncReadCoils pdu 5 m = None"
proof -
  have "read_bits (ucSCoilBuf m) a n = None"
    using read_bits_past_end[of "ucSCoilBuf m" a n] assms(1) r by (simp add: mb_wf_def mb_regs)
  then have "eMBRegCoilsCB bs (rd16 pdu 1 + 1) n MB_REG_READ m = None" for bs
    using a r by (simp add: eMBRegCoilsCB_def in_block_def mb_regs Let_def)
  moreover have "1 \<le> rd16 pdu 3" "rd16 pdu 3 < 0x7D0"
    using n r by (simp_all add: word_le_nat_alt word_less_nat_alt)
  ultimately show ?thesis using assms(2) unfolding eMBFuncReadCoils_def pdu_offsets
    unfolding MB_PDU_DATA_OFF_def
    by (simp add: Let_def read_header_some flip: n)
qed

section \<open>Properties\<close>

text \<open>A handler never writes outside the receive buffer and its answer fits a Modbus
  frame (at most 253 bytes of PDU), whatever bytes the request holds; the register handlers
  and the identification handler never leave an array at all.\<close>

theorem answers_fit_their_frame:
  assumes "mb_wf m" "length pdu = 255" "len \<le> 253"
  shows "case run_handler h pdu len m of
      None \<Rightarrow> h \<in> {ReadCoils, WriteCoil, WriteMultipleCoils, ReadDiscreteInputs}
    | Some (e, pdu', len', m') \<Rightarrow> length pdu' = 255 \<and> len' \<le> 253 \<and> mb_wf m'"
proof -
  have f: "frame_fits pdu len" using assms by (simp add: frame_fits_def)
  show ?thesis
    using handler_fits[OF assms(1) f, of h] reg_handler_ok[OF _ assms(1) f, of h]
    by (cases "run_handler h pdu len m") (auto simp: answer_fits_def answer_ok_def frame_fits_def)
qed

theorem answers_fit_their_frame_witness:
  "case run_handler ReadWriteMultipleHoldingRegister (replicate 255 0) 253 mb0 of
      None \<Rightarrow> False | Some (e, pdu', len', m') \<Rightarrow> length pdu' = 255 \<and> len' \<le> 253 \<and> mb_wf m'"
  using answers_fit_their_frame[OF mb_wf_mb0, of "replicate 255 0" 253 ReadWriteMultipleHoldingRegister]
  by (auto split: option.splits)

text \<open>C14: registers written by a write-multiple request are exactly the request's words, no
  other register changes, and a later read of the same range answers with the request's bytes.\<close>

theorem written_registers_read_back:
  assumes "mb_wf m" "length pdu = 255" "6 \<le> len" "length rd = 255"
    and a: "a = unat (rd16 pdu 1)" "a = unat (rd16 rd 1)" and n: "n = unat (rd16 pdu 3)" "n = unat (rd16 rd 3)"
    and r: "100 \<le> a" "a + n \<le> 200" "1 \<le> n" and cnt: "pdu ! 5 = of_nat (2 * n)"
  shows "\<exists>m'. eMBFuncWriteMultipleHoldingRegister pdu len m = Some (MB_EX_NONE, pdu, 5, m') \<and>
    (\<forall>k < 108. k < a - 100 \<or> a - 100 + n \<le> k \<longrightarrow> regs_of (hold m') ! k = regs_of (hold m) ! k) \<and>
    write_sem m' = write_sem m + (if a + n \<le> 103 then 1 else 0) \<and>
    eMBFuncReadHoldingRegister rd 5 m' =
      Some (MB_EX_NONE, blit rd 0 ([3, of_nat (2 * n)] @ take (2 * n) (drop 6 pdu)), 2 + 2 * n, m')"
proof -
  obtain m' where m': "eMBFuncWriteMultipleHoldingRegister pdu len m = Some (MB_EX_NONE, pdu, 5, m')" "mb_wf m'"
    "\<forall>k < 108. regs_of (hold m') ! k =
       (if a - 100 \<le> k \<and> k < a - 100 + n then rd16 pdu (6 + 2 * (k - (a - 100))) else regs_of (hold m) ! k)"
    "write_sem m' = write_sem m + (if a + n \<le> 103 then 1 else 0)"
    using write_multiple_effect[OF assms(1-3) a(1) n(1) r cnt] by blast
  have l: "length (regs_of (hold m')) = 108" using m'(2) by (simp add: mb_wf_def)
  have "take n (drop (a - 100) (regs_of (hold m'))) = map (\<lambda>k. rd16 pdu (6 + 2 * k)) [0..<n]"
    using m'(3) r l by (intro nth_equalityI) auto
  moreover have "reg_bytes (map (\<lambda>k. rd16 pdu (6 + 2 * k)) [0..<k]) = take (2 * k) (drop 6 pdu)" if "k \<le> 100" for k
    using that assms(2)
    by (induction k) (simp_all add: reg_bytes_def rd16_def take_Suc_conv_app_nth)
  ultimately have "reg_bytes (take n (drop (a - 100) (regs_of (hold m')))) = take (2 * n) (drop 6 pdu)"
    using r by simp
  then show ?thesis
    using m' read_effect[OF m'(2) assms(4) a(2) n(2)] r by (intro exI[of _ m']) auto
qed

theorem written_registers_read_back_witness:
  "\<exists>m'. eMBFuncWriteMultipleHoldingRegister ([16, 0, 103, 0, 1, 2, 7, 8] @ replicate 247 0) 8 mb0 =
      Some (MB_EX_NONE, [16, 0, 103, 0, 1, 2, 7, 8] @ replicate 247 0, 5, m') \<and>
    eMBFuncReadHoldingRegister ([3, 0, 103, 0, 1] @ replicate 250 0) 5 m' =
      Some (MB_EX_NONE, blit ([3, 0, 103, 0, 1] @ replicate 250 0) 0 [3, 2, 7, 8], 4, m')"
  using written_registers_read_back[OF mb_wf_mb0, of "[16, 0, 103, 0, 1, 2, 7, 8] @ replicate 247 0" 8
      "[3, 0, 103, 0, 1] @ replicate 250 0" 103 1]
  by (fastforce simp: rd16_def unat_mk16)

text \<open>A write-multiple request cut off after its byte count is accepted, and the register
  takes whatever bytes the buffer held: two frames equal in all received bytes write different
  values.\<close>

theorem short_write_uses_stale_bytes:
  assumes "mb_wf m" "100 \<le> unat a" "unat a < 200" "length old = 249"
  shows "\<exists>m'. eMBFuncWriteMultipleHoldingRegister ([16, hi8 a, lo8 a, 0, 1, 2] @ old) 6 m =
      Some (MB_EX_NONE, [16, hi8 a, lo8 a, 0, 1, 2] @ old, 5, m') \<and>
    regs_of (hold m') ! (unat a - 100) = mk16 (old ! 0) (old ! 1)"
proof -
  let ?p = "[16, hi8 a, lo8 a, 0, 1, 2] @ old"
  have "rd16 ?p 1 = a" "unat (rd16 ?p 3) = 1" by (simp_all add: rd16_def unat_mk16)
  then show ?thesis
    using write_multiple_effect[OF assms(1), of ?p 6 "unat a" 1] assms(2-4)
    by (auto simp: rd16_def)
qed

theorem short_write_uses_stale_bytes_witness:
  "\<exists>m'. eMBFuncWriteMultipleHoldingRegister ([16, hi8 101, lo8 101, 0, 1, 2] @ replicate 249 9) 6 mb0 =
      Some (MB_EX_NONE, [16, hi8 101, lo8 101, 0, 1, 2] @ replicate 249 9, 5, m') \<and>
    regs_of (hold m') ! 1 = mk16 9 9"
  using short_write_uses_stale_bytes[OF mb_wf_mb0, of 101 "replicate 249 9"] by simp

text \<open>Writing one of the coils 0 to 55 sets exactly that coil, and a read of coils that
  stays below the last byte answers with those coils, bit for bit and zero-padded.\<close>

theorem coil_written_and_read:
  assumes "mb_wf m" "a = unat (rd16 pdu 1)" "a < 56" "pdu ! 3 = 0 \<or> pdu ! 3 = 0xFF" "pdu ! 4 = 0"
    and "length rd = 255" "s = unat (rd16 rd 1)" "n = unat (rd16 rd 3)" "1 \<le> n" "s + n \<le> 64" "s div 8 + n div 8 < 7"
  shows "\<exists>b xs. eMBFuncWriteCoil pdu 5 m = Some (MB_EX_NONE, pdu, 5, m\<lparr>ucSCoilBuf := b\<rparr>) \<and>
    eMBFuncReadCoils rd 5 (m\<lparr>ucSCoilBuf := b\<rparr>) = Some (MB_EX_NONE,
      blit rd 0 ([1, of_nat ((n + 7) div 8)] @ xs), 2 + (n + 7) div 8, m\<lparr>ucSCoilBuf := b\<rparr>) \<and>
    (\<forall>j < 8 * length xs. bit_at xs j \<longleftrightarrow>
       j < n \<and> (if s + j = a then pdu ! 3 = 0xFF else bit_at (ucSCoilBuf m) (s + j)))"
proof -
  obtain b where b: "length b = 8" "eMBFuncWriteCoil pdu 5 m = Some (MB_EX_NONE, pdu, 5, m\<lparr>ucSCoilBuf := b\<rparr>)"
    "\<forall>j < 64. bit_at b j = (if j = a then pdu ! 3 = 0xFF else bit_at (ucSCoilBuf m) j)"
    using write_coil_effect[OF assms(1-5)] by blast
  have wf: "mb_wf (m\<lparr>ucSCoilBuf := b\<rparr>)" using assms(1) b(1) by (simp add: mb_wf_def mb_regs)
  obtain xs where "length xs = n div 8 + 1"
    "eMBFuncReadCoils rd 5 (m\<lparr>ucSCoilBuf := b\<rparr>) = Some (MB_EX_NONE,
      blit rd 0 ([1, of_nat ((n + 7) div 8)] @ xs), 2 + (n + 7) div 8, m\<lparr>ucSCoilBuf := b\<rparr>)"
    "\<forall>j < 8 * length xs. bit_at xs j \<longleftrightarrow> j < n \<and> bit_at b (s + j)"
    using read_coils_effect[OF wf assms(6-11)] by auto
  then show ?thesis using b(2,3) assms(10) by (intro exI[of _ b] exI[of _ xs]) auto
qed

theorem coil_written_and_read_witness:
  "\<exists>b xs. eMBFuncWriteCoil [5, 0, 9, 0xFF, 0] 5 mb0 = Some (MB_EX_NONE, [5, 0, 9, 0xFF, 0], 5, mb0\<lparr>ucSCoilBuf := b\<rparr>) \<and>
    eMBFuncReadCoils ([1, 0, 8, 0, 4] @ replicate 250 0) 5 (mb0\<lparr>ucSCoilBuf := b\<rparr>) = Some (MB_EX_NONE,
      blit ([1, 0, 8, 0, 4] @ replicate 250 0) 0 ([1, 1] @ xs), 3, mb0\<lparr>ucSCoilBuf := b\<rparr>)"
  using coil_written_and_read[OF mb_wf_mb0, of 9 "[5, 0, 9, 0xFF, 0]" "[1, 0, 8, 0, 4] @ replicate 250 0" 8 4]
  by (fastforce simp: rd16_def unat_mk16)

text \<open>Requests on the last eight coils, which the callback accepts, make the bit functions
  read and write one byte past the coil array; so do reads whose last whole byte is the last.\<close>

theorem last_coils_leave_the_array:
  assumes "mb_wf m" "length pdu = 255" "a = unat (rd16 pdu 1)"
  shows "(56 \<le> a \<and> a < 64 \<and> (pdu ! 3 = 0 \<or> pdu ! 3 = 0xFF) \<and> pdu ! 4 = 0 \<longrightarrow>
      eMBFuncWriteCoil pdu 5 m = None) \<and>
    (let n = unat (rd16 pdu 3) in 1 \<le> n \<and> a + n \<le> 64 \<and> 7 \<le> a div 8 + n div 8 \<longrightarrow>
      eMBFuncReadCoils pdu 5 m = None)"
  using write_last_coils[OF assms(1,3)] read_last_coils[OF assms(1-3) refl] by (auto simp: Let_def)

theorem last_coils_leave_the_array_witness:
  "eMBFuncWriteCoil ([5, 0, 63, 0xFF, 0] @ replicate 250 0) 5 mb0 = None \<and>
   eMBFuncReadCoils ([1, 0, 0, 0, 64] @ replicate 250 0) 5 mb0 = None"
  using last_coils_leave_the_array[OF mb_wf_mb0, of "[5, 0, 63, 0xFF, 0] @ replicate 250 0" 63]
    last_coils_leave_the_array[OF mb_wf_mb0, of "[1, 0, 0, 0, 64] @ replicate 250 0" 0]
  by (simp add: rd16_def unat_mk16)

end
