(* ===== verification/MbRtu.thy ===== *)
theory MbRtu
  imports MbFunc Crc RtDef
begin

text \<open>
  The Modbus RTU frame layer: modbus/rtu/mbrtu.c with the port files portevent.c,
  porttimer.c and portserial.c it drives.  One record holds the static variables of the four
  files: the two state machines, the 256-byte buffer both directions share, the receive
  interrupt, the serial transmit event, the one-shot timer, the event set of the slave and
  the bytes put on the line.  A failed RT_ASSERT and a write outside the buffer are \<open>None\<close>.
\<close>

section \<open>State\<close>

definition MB_SER_PDU_SIZE_MIN :: nat where "MB_SER_PDU_SIZE_MIN = 4"
definition MB_SER_PDU_SIZE_MAX :: nat where "MB_SER_PDU_SIZE_MAX = 256"
definition MB_SER_PDU_SIZE_CRC :: nat where "MB_SER_PDU_SIZE_CRC = 2"
definition MB_SER_PDU_ADDR_OFF :: nat where "MB_SER_PDU_ADDR_OFF = 0"
definition MB_SER_PDU_PDU_OFF :: nat where "MB_SER_PDU_PDU_OFF = 1"

lemmas ser_numbers = MB_SER_PDU_SIZE_MIN_def MB_SER_PDU_SIZE_MAX_def MB_SER_PDU_SIZE_CRC_def
  MB_SER_PDU_ADDR_OFF_def MB_SER_PDU_PDU_OFF_def

datatype eMBRcvState = STATE_RX_INIT | STATE_RX_IDLE | STATE_RX_RCV | STATE_RX_ERROR
datatype eMBSndState = STATE_TX_IDLE | STATE_TX_XMIT
datatype eMBEventType = EV_READY | EV_FRAME_RECEIVED | EV_EXECUTE | EV_FRAME_SENT

text \<open>\<open>pucSndBufferCur\<close> points into \<open>ucRTUBuf\<close> and is its index.\<close>

record rtu =
  eRcvState :: eMBRcvState
  eSndState :: eMBSndState
  ucRTUBuf :: "u8 list"
  usRcvBufferPos :: nat
  pucSndBufferCur :: nat
  usSndBufferCount :: nat
  rx_int :: bool
  trans_start :: bool
  timer_ticks :: nat
  timer_on :: bool
  xSlaveOsEvent :: "eMBEventType set"
  tx_line :: "u8 list"

section \<open>portevent.c\<close>

definition xMBPortEventInit :: "rtu \<Rightarrow> rtu" where
  "xMBPortEventInit s = s\<lparr>xSlaveOsEvent := {}\<rparr>"

definition xMBPortEventPost :: "eMBEventType \<Rightarrow> rtu \<Rightarrow> rtu" where
  "xMBPortEventPost e s = s\<lparr>xSlaveOsEvent := insert e (xSlaveOsEvent s)\<rparr>"

text \<open>
  \<open>rt_event_recv\<close> blocks on the empty set and otherwise takes the whole set; the switch
  recognises single events only and leaves \<open>*eEvent\<close> as it was on any other set.
\<close>

datatype got = Blocks | Got eMBEventType | Unset

definition event_switch :: "eMBEventType set \<Rightarrow> got" where
  "event_switch es =
     (if es = {} then Blocks
      else if es = {EV_READY} then Got EV_READY
      else if es = {EV_FRAME_RECEIVED} then Got EV_FRAME_RECEIVED
      else if es = {EV_EXECUTE} then Got EV_EXECUTE
      else if es = {EV_FRAME_SENT} then Got EV_FRAME_SENT
      else Unset)"

definition xMBPortEventGet :: "rtu \<Rightarrow> got \<times> rtu" where
  "xMBPortEventGet s = (event_switch (xSlaveOsEvent s), s\<lparr>xSlaveOsEvent := {}\<rparr>)"

section \<open>porttimer.c\<close>

definition xMBPortTimersInit :: "nat \<Rightarrow> rtu \<Rightarrow> rtu" where
  "xMBPortTimersInit n s =
     s\<lparr>timer_ticks := (50 * n) div (1000 * 1000 div RT_TICK_PER_SECOND) + 1, timer_on := False\<rparr>"

definition vMBPortTimersEnable :: "rtu \<Rightarrow> rtu" where
  "vMBPortTimersEnable s = s\<lparr>timer_on := True\<rparr>"

definition vMBPortTimersDisable :: "rtu \<Rightarrow> rtu" where
  "vMBPortTimersDisable s = s\<lparr>timer_on := False\<rparr>"

section \<open>portserial.c\<close>

text \<open>\<open>found\<close> and \<open>opened\<close> are the results of \<open>rt_device_find\<close> and \<open>rt_device_open\<close>.\<close>

definition xMBPortSerialInit :: "bool \<Rightarrow> bool \<Rightarrow> rtu \<Rightarrow> bool \<times> rtu" where
  "xMBPortSerialInit found opened s =
     (if \<not> found then (False, s)
      else if \<not> opened then (False, s)
      else (True, s\<lparr>rx_int := True, trans_start := False\<rparr>))"

definition vMBPortSerialEnable :: "bool \<Rightarrow> bool \<Rightarrow> rtu \<Rightarrow> rtu" where
  "vMBPortSerialEnable xRxEnable xTxEnable s =
     (let s = (if xRxEnable then s\<lparr>rx_int := True\<rparr> else s\<lparr>rx_int := False\<rparr>)
      in if xTxEnable then s\<lparr>trans_start := True\<rparr> else s\<lparr>trans_start := False\<rparr>)"

definition xMBPortSerialPutByte :: "u8 \<Rightarrow> rtu \<Rightarrow> rtu" where
  "xMBPortSerialPutByte b s = s\<lparr>tx_line := tx_line s @ [b]\<rparr>"

section \<open>mbrtu.c\<close>

definition eMBRTUInit :: "bool \<Rightarrow> bool \<Rightarrow> nat \<Rightarrow> rtu \<Rightarrow> eMBErrorCode \<times> rtu" where
  "eMBRTUInit found opened ulBaudRate s =
     (case xMBPortSerialInit found opened s of
        (False, s) \<Rightarrow> (MB_EPORTERR, s)
      | (True, s) \<Rightarrow>
          let usTimerT35_50us = (if 19200 < ulBaudRate then 200 else 200)
          in (MB_ENOERR, xMBPortTimersInit usTimerT35_50us s))"

definition eMBRTUStart :: "rtu \<Rightarrow> rtu" where
  "eMBRTUStart s = vMBPortTimersEnable (vMBPortSerialEnable True False (s\<lparr>eRcvState := STATE_RX_INIT\<rparr>))"

definition eMBRTUStop :: "rtu \<Rightarrow> rtu" where
  "eMBRTUStop s = vMBPortTimersDisable (vMBPortSerialEnable False False s)"

text \<open>The outer option is the assertion, the inner one the frame (address and PDU length).\<close>

definition eMBRTUReceive :: "rtu \<Rightarrow> (eMBErrorCode \<times> (u8 \<times> nat) option) option" where
  "eMBRTUReceive s =
     (if usRcvBufferPos s \<le> MB_SER_PDU_SIZE_MAX
      then if MB_SER_PDU_SIZE_MIN \<le> usRcvBufferPos s \<and> usMBCRC16 (take (usRcvBufferPos s) (ucRTUBuf s)) = 0
           then Some (MB_ENOERR, Some (ucRTUBuf s ! MB_SER_PDU_ADDR_OFF,
                  usRcvBufferPos s - MB_SER_PDU_PDU_OFF - MB_SER_PDU_SIZE_CRC))
           else Some (MB_EIO, None)
      else None)"

text \<open>\<open>frame\<close> is the index of the PDU in \<open>ucRTUBuf\<close>.\<close>

definition eMBRTUSend :: "u8 \<Rightarrow> nat \<Rightarrow> nat \<Rightarrow> rtu \<Rightarrow> (eMBErrorCode \<times> rtu) option" where
  "eMBRTUSend ucSlaveAddress frame usLength s =
     (if eRcvState s = STATE_RX_IDLE
      then
        let cur = frame - 1;
            cnt = 1 + usLength;
            buf = (ucRTUBuf s)[cur + MB_SER_PDU_ADDR_OFF := ucSlaveAddress];
            usCRC16 = usMBCRC16 (take cnt (drop cur buf))
        in if length buf \<le> cnt + 1 then None
           else Some (MB_ENOERR, vMBPortSerialEnable False True
             (s\<lparr>ucRTUBuf := buf[cnt := lo8 usCRC16, cnt + 1 := hi8 usCRC16],
               pucSndBufferCur := cur, usSndBufferCount := cnt + 2, eSndState := STATE_TX_XMIT\<rparr>))
      else Some (MB_EIO, s))"

text \<open>\<open>ucByte\<close> is the byte \<open>xMBPortSerialGetByte\<close> reads from the device.\<close>

definition xMBRTUReceiveFSM :: "u8 \<Rightarrow> rtu \<Rightarrow> rtu option" where
  "xMBRTUReceiveFSM ucByte s =
     (if eSndState s = STATE_TX_IDLE
      then (case eRcvState s of
          STATE_RX_INIT \<Rightarrow> Some (vMBPortTimersEnable s)
        | STATE_RX_ERROR \<Rightarrow> Some (vMBPortTimersEnable s)
        | STATE_RX_IDLE \<Rightarrow>
            Some (vMBPortTimersEnable
              (s\<lparr>ucRTUBuf := (ucRTUBuf s)[0 := ucByte], usRcvBufferPos := 1, eRcvState := STATE_RX_RCV\<rparr>))
        | STATE_RX_RCV \<Rightarrow>
            Some (vMBPortTimersEnable
              (if usRcvBufferPos s < MB_SER_PDU_SIZE_MAX
               then s\<lparr>ucRTUBuf := (ucRTUBuf s)[usRcvBufferPos s := ucByte], usRcvBufferPos := usRcvBufferPos s + 1\<rparr>
               else s\<lparr>eRcvState := STATE_RX_ERROR\<rparr>)))
      else None)"

definition xMBRTUTransmitFSM :: "rtu \<Rightarrow> rtu option" where
  "xMBRTUTransmitFSM s =
     (if eRcvState s = STATE_RX_IDLE
      then (case eSndState s of
          STATE_TX_IDLE \<Rightarrow> Some (vMBPortSerialEnable True False s)
        | STATE_TX_XMIT \<Rightarrow>
            if usSndBufferCount s \<noteq> 0
            then if length (ucRTUBuf s) \<le> pucSndBufferCur s then None
                 else Some ((xMBPortSerialPutByte (ucRTUBuf s ! pucSndBufferCur s) s)
                        \<lparr>pucSndBufferCur := pucSndBufferCur s + 1, usSndBufferCount := usSndBufferCount s - 1\<rparr>)
            else Some (vMBPortSerialEnable True False
                   ((xMBPortEventPost EV_FRAME_SENT s)\<lparr>eSndState := STATE_TX_IDLE\<rparr>)))
      else None)"

definition xMBRTUTimerT35Expired :: "rtu \<Rightarrow> rtu option" where
  "xMBRTUTimerT35Expired s =
     map_option (\<lambda>s. (vMBPortTimersDisable s)\<lparr>eRcvState := STATE_RX_IDLE\<rparr>)
       (case eRcvState s of
          STATE_RX_INIT \<Rightarrow> Some (xMBPortEventPost EV_READY s)
        | STATE_RX_RCV \<Rightarrow> Some (xMBPortEventPost EV_FRAME_RECEIVED s)
        | STATE_RX_ERROR \<Rightarrow> Some s
        | STATE_RX_IDLE \<Rightarrow> None)"

text \<open>\<open>serial_rx_ind\<close> runs the receiver once for each byte that arrived.\<close>

fun serial_rx_ind :: "u8 list \<Rightarrow> rtu \<Rightarrow> rtu option" where
  "serial_rx_ind [] s = Some s"
| "serial_rx_ind (b # bs) s = do { s \<leftarrow> xMBRTUReceiveFSM b s; serial_rx_ind bs s }"

text \<open>The transmit thread runs the transmitter as long as the transmit event stays set.\<close>

fun serial_soft_trans_irq :: "nat \<Rightarrow> rtu \<Rightarrow> rtu option" where
  "serial_soft_trans_irq 0 s = (if trans_start s then None else Some s)"
| "serial_soft_trans_irq (Suc fuel) s =
     (if trans_start s then do { s \<leftarrow> xMBRTUTransmitFSM s; serial_soft_trans_irq fuel s } else Some s)"

section \<open>Receiving a run of bytes\<close>

definition listening :: "rtu \<Rightarrow> bool" where
  "listening s \<longleftrightarrow> eRcvState s = STATE_RX_IDLE \<and> eSndState s = STATE_TX_IDLE \<and> length (ucRTUBuf s) = 256"

lemma receive_more:
  assumes "eRcvState s = STATE_RX_RCV" "eSndState s = STATE_TX_IDLE" "length (ucRTUBuf s) = 256"
    "usRcvBufferPos s + length bs \<le> 256" "timer_on s"
  shows "serial_rx_ind bs s = Some (s\<lparr>ucRTUBuf := blit (ucRTUBuf s) (usRcvBufferPos s) bs,
           usRcvBufferPos := usRcvBufferPos s + length bs\<rparr>)"
  using assms
proof (induction bs arbitrary: s)
  case (Cons b bs)
  let ?s = "s\<lparr>ucRTUBuf := (ucRTUBuf s)[usRcvBufferPos s := b], usRcvBufferPos := usRcvBufferPos s + 1\<rparr>"
  have "xMBRTUReceiveFSM b s = Some ?s"
    using Cons.prems by (simp add: xMBRTUReceiveFSM_def ser_numbers vMBPortTimersEnable_def)
  moreover have "serial_rx_ind bs ?s = Some (?s\<lparr>ucRTUBuf := blit (ucRTUBuf ?s) (usRcvBufferPos ?s) bs,
           usRcvBufferPos := usRcvBufferPos ?s + length bs\<rparr>)"
    using Cons.prems by (intro Cons.IH) simp_all
  ultimately show ?case using Cons.prems by (simp add: blit_upd)
qed simp

lemma receive_overflow:
  assumes "eRcvState s = STATE_RX_ERROR" "eSndState s = STATE_TX_IDLE" "timer_on s"
  shows "serial_rx_ind bs s = Some s"
proof -
  have t: "s\<lparr>timer_on := True\<rparr> = s" using assms(3) by (cases s) simp
  show ?thesis
    using assms(1,2) by (induction bs) (simp_all add: xMBRTUReceiveFSM_def vMBPortTimersEnable_def t)
qed

lemma serial_rx_append:
  "serial_rx_ind (xs @ ys) s = serial_rx_ind xs s \<bind> serial_rx_ind ys"
proof (induction xs arbitrary: s)
  case (Cons x xs)
  then show ?case by (cases "xMBRTUReceiveFSM x s") simp_all
qed simp

lemma receive_first:
  assumes "listening s"
  shows "xMBRTUReceiveFSM b s = Some (s\<lparr>ucRTUBuf := blit (ucRTUBuf s) 0 [b], usRcvBufferPos := 1,
           eRcvState := STATE_RX_RCV, timer_on := True\<rparr>)"
  using assms
  by (cases "ucRTUBuf s")
    (auto simp: listening_def xMBRTUReceiveFSM_def vMBPortTimersEnable_def blit_def)

lemma receive_frame:
  assumes "listening s" "bs \<noteq> []" "length bs \<le> 256"
  shows "serial_rx_ind bs s = Some (s\<lparr>ucRTUBuf := blit (ucRTUBuf s) 0 bs, usRcvBufferPos := length bs,
           eRcvState := STATE_RX_RCV, timer_on := True\<rparr>)"
proof -
  obtain b bs' where bs: "bs = b # bs'" using assms(2) by (cases bs) auto
  let ?s = "s\<lparr>ucRTUBuf := blit (ucRTUBuf s) 0 [b], usRcvBufferPos := 1,
           eRcvState := STATE_RX_RCV, timer_on := True\<rparr>"
  have l: "length (ucRTUBuf s) = 256" using assms(1) by (simp add: listening_def)
  have "serial_rx_ind bs' ?s = Some (?s\<lparr>ucRTUBuf := blit (ucRTUBuf ?s) (usRcvBufferPos ?s) bs',
           usRcvBufferPos := usRcvBufferPos ?s + length bs'\<rparr>)"
    using assms l by (intro receive_more) (simp_all add: bs listening_def)
  moreover have "blit (blit (ucRTUBuf s) 0 [b]) 1 bs' = blit (ucRTUBuf s) 0 (b # bs')"
    using l by (simp add: blit_def)
  ultimately show ?thesis using receive_first[OF assms(1), of b] by (simp add: bs)
qed

lemma receive_too_long:
  assumes "listening s" "256 < length bs"
  shows "serial_rx_ind bs s = Some (s\<lparr>ucRTUBuf := take 256 bs, usRcvBufferPos := 256,
           eRcvState := STATE_RX_ERROR, timer_on := True\<rparr>)"
proof -
  obtain b rest where d: "drop 256 bs = b # rest" using assms(2) by (cases "drop 256 bs") auto
  have bs: "bs = take 256 bs @ b # rest" using d by (metis append_take_drop_id)
  have l: "length (ucRTUBuf s) = 256" using assms(1) by (simp add: listening_def)
  have t: "take 256 bs \<noteq> []" "length (take 256 bs) = 256" using assms(2) by auto
  let ?s = "s\<lparr>ucRTUBuf := take 256 bs, usRcvBufferPos := 256, eRcvState := STATE_RX_RCV, timer_on := True\<rparr>"
  have "serial_rx_ind (take 256 bs) s = Some ?s"
    using receive_frame[OF assms(1) t(1)] t(2) l by (simp add: blit_def)
  moreover have "xMBRTUReceiveFSM b ?s = Some (?s\<lparr>eRcvState := STATE_RX_ERROR\<rparr>)"
    using assms(1) by (simp add: xMBRTUReceiveFSM_def listening_def ser_numbers vMBPortTimersEnable_def)
  moreover have "serial_rx_ind rest (?s\<lparr>eRcvState := STATE_RX_ERROR\<rparr>) = Some (?s\<lparr>eRcvState := STATE_RX_ERROR\<rparr>)"
    using assms(1) by (intro receive_overflow) (simp_all add: listening_def)
  ultimately have "serial_rx_ind (take 256 bs @ b # rest) s = Some (?s\<lparr>eRcvState := STATE_RX_ERROR\<rparr>)"
    by (simp add: serial_rx_append)
  then show ?thesis using bs by simp
qed

section \<open>Transmitting the buffer\<close>

lemma transmit_all:
  assumes "eRcvState s = STATE_RX_IDLE" "eSndState s = STATE_TX_XMIT" "trans_start s"
    "pucSndBufferCur s + usSndBufferCount s \<le> length (ucRTUBuf s)"
    "fuel = Suc (usSndBufferCount s)"
  shows "serial_soft_trans_irq fuel s = Some (s\<lparr>eSndState := STATE_TX_IDLE, rx_int := True, trans_start := False,
      pucSndBufferCur := pucSndBufferCur s + usSndBufferCount s, usSndBufferCount := 0,
      xSlaveOsEvent := insert EV_FRAME_SENT (xSlaveOsEvent s),
      tx_line := tx_line s @ take (usSndBufferCount s) (drop (pucSndBufferCur s) (ucRTUBuf s))\<rparr>)"
  using assms
proof (induction "usSndBufferCount s" arbitrary: s fuel)
  case 0
  then show ?case
    by (simp add: xMBRTUTransmitFSM_def vMBPortSerialEnable_def xMBPortEventPost_def)
next
  case (Suc n)
  let ?b = "ucRTUBuf s ! pucSndBufferCur s"
  let ?s = "(xMBPortSerialPutByte ?b s)\<lparr>pucSndBufferCur := pucSndBufferCur s + 1, usSndBufferCount := n\<rparr>"
  have c: "usSndBufferCount s = Suc n" using Suc.hyps(2) by simp
  have lt: "pucSndBufferCur s < length (ucRTUBuf s)" using Suc.prems(4) c by simp
  have s: "?b # take n (drop (Suc (pucSndBufferCur s)) (ucRTUBuf s)) =
      take (Suc n) (drop (pucSndBufferCur s) (ucRTUBuf s))"
    using Cons_nth_drop_Suc[OF lt] by (metis take_Suc_Cons)
  have 1: "xMBRTUTransmitFSM s = Some ?s"
    using Suc.prems(1,2) lt c by (simp add: xMBRTUTransmitFSM_def)
  have 2: "serial_soft_trans_irq (Suc n) ?s = Some (?s\<lparr>eSndState := STATE_TX_IDLE, rx_int := True, trans_start := False,
      pucSndBufferCur := pucSndBufferCur s + 1 + n, usSndBufferCount := 0,
      xSlaveOsEvent := insert EV_FRAME_SENT (xSlaveOsEvent s),
      tx_line := tx_line s @ [?b] @ take n (drop (Suc (pucSndBufferCur s)) (ucRTUBuf s))\<rparr>)"
    using Suc.hyps(1)[of ?s "Suc n"] Suc.prems c by (simp add: xMBPortSerialPutByte_def)
  have "serial_soft_trans_irq fuel s = serial_soft_trans_irq (Suc n) ?s"
    using Suc.prems(3,5) 1 c by simp
  then show ?case unfolding 2 using s by (simp add: c xMBPortSerialPutByte_def)
qed

section \<open>Frames\<close>

definition seal :: "u8 list \<Rightarrow> u8 list" where
  "seal xs = xs @ [lo8 (usMBCRC16 xs), hi8 (usMBCRC16 xs)]"

lemma length_seal [simp]: "length (seal xs) = length xs + 2"
  by (simp add: seal_def)

lemma seal_nonempty [simp]: "seal xs \<noteq> []"
  by (simp add: seal_def)

lemma crc_seal [simp]: "usMBCRC16 (seal xs) = 0"
  unfolding seal_def by (rule modbus_crc.sealed)

lemma take_blit_start: "length bs \<le> length buf \<Longrightarrow> take (length bs) (blit buf 0 bs) = bs"
  by (simp add: blit_def)

lemma receive_result:
  assumes "usRcvBufferPos s = length bs" "take (length bs) (ucRTUBuf s) = bs" "length bs \<le> 256"
  shows "eMBRTUReceive s = Some (if 4 \<le> length bs \<and> usMBCRC16 bs = 0
           then (MB_ENOERR, Some (bs ! 0, length bs - 3)) else (MB_EIO, None))"
proof -
  have "4 \<le> length bs \<Longrightarrow> ucRTUBuf s ! 0 = bs ! 0"
    using assms(2) by (metis nth_take order_less_le_trans zero_less_numeral)
  then show ?thesis using assms by (simp add: eMBRTUReceive_def ser_numbers numeral_3_eq_3)
qed

text \<open>A run of bytes and the silence after it.\<close>

lemma frame_and_silence:
  assumes "listening s" "bs \<noteq> []" "length bs \<le> 256"
  shows "serial_rx_ind bs s \<bind> xMBRTUTimerT35Expired = Some (s\<lparr>ucRTUBuf := blit (ucRTUBuf s) 0 bs,
      usRcvBufferPos := length bs, timer_on := False, xSlaveOsEvent := insert EV_FRAME_RECEIVED (xSlaveOsEvent s)\<rparr>)"
proof -
  have "s\<lparr>eRcvState := STATE_RX_IDLE\<rparr> = s" using assms(1) by (cases s) (simp add: listening_def)
  then show ?thesis
    using receive_frame[OF assms]
    by (simp add: xMBRTUTimerT35Expired_def xMBPortEventPost_def vMBPortTimersDisable_def) (cases s; simp)
qed

lemma send_frame:
  assumes "eRcvState s = STATE_RX_IDLE" "length (ucRTUBuf s) = 256" "len \<le> 253"
  shows "\<exists>buf. eMBRTUSend addr 1 len s = Some (MB_ENOERR, s\<lparr>ucRTUBuf := buf, pucSndBufferCur := 0,
      usSndBufferCount := len + 3, eSndState := STATE_TX_XMIT, rx_int := False, trans_start := True\<rparr>) \<and>
    length buf = 256 \<and> take (len + 3) buf = seal (addr # take len (drop 1 (ucRTUBuf s)))"
proof -
  obtain x xs where buf: "ucRTUBuf s = x # xs" "length xs = 255"
    using assms(2) by (cases "ucRTUBuf s") auto
  let ?c = "usMBCRC16 (addr # take len xs)"
  let ?b = "(addr # xs)[1 + len := lo8 ?c, 1 + len + 1 := hi8 ?c]"
  have "?b = addr # take len xs @ [lo8 ?c, hi8 ?c] @ drop (len + 2) xs"
    using buf(2) assms(3) by (simp add: upd_conv_take_nth_drop take_Suc_conv_app_nth)
  moreover have "take (len + 3) (addr # take len xs @ [u, v] @ ys) = (addr # take len xs) @ [u, v]" for u v ys
    using buf(2) assms(3) by (simp add: numeral_3_eq_3)
  ultimately have "take (len + 3) ?b = seal (addr # take len xs)"
    unfolding seal_def by (simp only:)
  then show ?thesis using assms buf
    by (intro exI[of _ ?b]) (simp add: eMBRTUSend_def ser_numbers vMBPortSerialEnable_def Let_def numeral_3_eq_3)
qed

section \<open>Properties\<close>

text \<open>C13: a run of bytes followed by silence is reported as a frame exactly when it has at most
  256 bytes, and is then accepted exactly when it has at least four bytes and a valid
  checksum, with its first byte as the address and the bytes between as the PDU.\<close>

theorem frame_accepted_exactly_when_valid:
  assumes "listening s" "bs \<noteq> []" "EV_FRAME_RECEIVED \<notin> xSlaveOsEvent s"
  shows "\<exists>s'. serial_rx_ind bs s \<bind> xMBRTUTimerT35Expired = Some s' \<and> listening s' \<and> \<not> timer_on s' \<and>
    (EV_FRAME_RECEIVED \<in> xSlaveOsEvent s' \<longleftrightarrow> length bs \<le> 256) \<and>
    (length bs \<le> 256 \<longrightarrow>
       take (length bs - 3) (drop 1 (ucRTUBuf s')) = take (length bs - 3) (drop 1 bs) \<and>
       eMBRTUReceive s' = Some (if 4 \<le> length bs \<and> usMBCRC16 bs = 0
         then (MB_ENOERR, Some (bs ! 0, length bs - 3)) else (MB_EIO, None)))"
proof (cases "length bs \<le> 256")
  case True
  let ?s = "s\<lparr>ucRTUBuf := blit (ucRTUBuf s) 0 bs, usRcvBufferPos := length bs, timer_on := False,
      xSlaveOsEvent := insert EV_FRAME_RECEIVED (xSlaveOsEvent s)\<rparr>"
  have l: "length (ucRTUBuf s) = 256" using assms(1) by (simp add: listening_def)
  then have t: "take (length bs) (ucRTUBuf ?s) = bs" using True by (simp add: take_blit_start)
  have "take (length bs - 3) (drop 1 (ucRTUBuf ?s)) = take (length bs - 3) (drop 1 bs)"
  proof -
    have "take (length bs - 3) (drop 1 (take (length bs) (ucRTUBuf ?s))) = take (length bs - 3) (drop 1 (ucRTUBuf ?s))"
      by (simp add: drop_take min_def)
    then show ?thesis unfolding t by simp
  qed
  then show ?thesis
    using frame_and_silence[OF assms(1,2) True] receive_result[of ?s bs] t True assms(1) l
    by (intro exI[of _ ?s]) (simp add: listening_def)
next
  case False
  then have "serial_rx_ind bs s \<bind> xMBRTUTimerT35Expired = Some (s\<lparr>ucRTUBuf := take 256 bs, usRcvBufferPos := 256,
      eRcvState := STATE_RX_IDLE, timer_on := False\<rparr>)"
    using receive_too_long[OF assms(1), of bs]
    by (simp add: xMBRTUTimerT35Expired_def vMBPortTimersDisable_def)
  then show ?thesis using False assms(1,3) by (auto simp: listening_def)
qed

definition rtu_idle :: rtu where
  "rtu_idle = \<lparr>eRcvState = STATE_RX_IDLE, eSndState = STATE_TX_IDLE, ucRTUBuf = replicate 256 0,
     usRcvBufferPos = 0, pucSndBufferCur = 0, usSndBufferCount = 0, rx_int = True, trans_start = False,
     timer_ticks = 3, timer_on = False, xSlaveOsEvent = {}, tx_line = []\<rparr>"

lemma listening_idle: "listening rtu_idle"
  by (simp add: listening_def rtu_idle_def)

theorem frame_accepted_exactly_when_valid_witness:
  "\<exists>s'. serial_rx_ind [1, 3, 0, 100] rtu_idle \<bind> xMBRTUTimerT35Expired = Some s' \<and> listening s' \<and>
    EV_FRAME_RECEIVED \<in> xSlaveOsEvent s'"
  using frame_accepted_exactly_when_valid[OF listening_idle, of "[1, 3, 0, 100]"]
  by (auto simp: rtu_idle_def)

text \<open>C12: what one station sends another receives: the bytes the transmitter puts on the line
  for an answer are, fed to an idle receiver, a valid frame with the sender's address and
  exactly the PDU that was sent; and the sender listens again.\<close>

theorem sent_frame_is_received:
  assumes "eRcvState s = STATE_RX_IDLE" "length (ucRTUBuf s) = 256" "1 \<le> len" "len \<le> 253"
    and "listening r"
  shows "\<exists>s1 s2 bs r'. eMBRTUSend addr 1 len s = Some (MB_ENOERR, s1) \<and>
    serial_soft_trans_irq (len + 4) s1 = Some s2 \<and> tx_line s2 = tx_line s @ bs \<and> listening s2 \<and> rx_int s2 \<and>
    serial_rx_ind bs r \<bind> xMBRTUTimerT35Expired = Some r' \<and>
    eMBRTUReceive r' = Some (MB_ENOERR, Some (addr, len)) \<and>
    take len (drop 1 (ucRTUBuf r')) = take len (drop 1 (ucRTUBuf s))"
proof -
  obtain buf where send: "eMBRTUSend addr 1 len s = Some (MB_ENOERR, s\<lparr>ucRTUBuf := buf, pucSndBufferCur := 0,
      usSndBufferCount := len + 3, eSndState := STATE_TX_XMIT, rx_int := False, trans_start := True\<rparr>)"
      (is "_ = Some (_, ?s1)") and buf: "length buf = 256" "take (len + 3) buf = seal (addr # take len (drop 1 (ucRTUBuf s)))"
    using send_frame[OF assms(1,2,4)] by blast
  let ?bs = "seal (addr # take len (drop 1 (ucRTUBuf s)))"
  have lb: "length ?bs = len + 3" using assms(2,4) by simp
  have irq: "serial_soft_trans_irq (len + 4) ?s1 = Some (?s1\<lparr>eSndState := STATE_TX_IDLE, rx_int := True,
      trans_start := False, pucSndBufferCur := len + 3, usSndBufferCount := 0,
      xSlaveOsEvent := insert EV_FRAME_SENT (xSlaveOsEvent s), tx_line := tx_line s @ ?bs\<rparr>)"
    using transmit_all[of ?s1 "len + 4"] assms buf by simp
  let ?r = "r\<lparr>ucRTUBuf := blit (ucRTUBuf r) 0 ?bs, usRcvBufferPos := length ?bs, timer_on := False,
      xSlaveOsEvent := insert EV_FRAME_RECEIVED (xSlaveOsEvent r)\<rparr>"
  have lr: "length (ucRTUBuf r) = 256" using assms(5) by (simp add: listening_def)
  have fr: "serial_rx_ind ?bs r \<bind> xMBRTUTimerT35Expired = Some ?r"
    using assms(4) lb by (intro frame_and_silence[OF assms(5)]) simp_all
  have hd0: "?bs ! 0 = addr" by (simp add: seal_def)
  have rr: "eMBRTUReceive ?r = Some (MB_ENOERR, Some (addr, len))"
    using receive_result[of ?r ?bs] lb lr assms(3,4) take_blit_start[of ?bs "ucRTUBuf r"] hd0
    by (simp del: length_seal)
  have p: "take len (drop 1 (ucRTUBuf ?r)) = take len (drop 1 (ucRTUBuf s))"
    using lr assms(2,4) by (simp add: blit_def seal_def)
  obtain s2 where "serial_soft_trans_irq (len + 4) ?s1 = Some s2" "tx_line s2 = tx_line s @ ?bs"
    "listening s2" "rx_int s2"
    using irq buf(1) assms(1) by (simp add: listening_def)
  then show ?thesis using send fr rr p by blast
qed

theorem sent_frame_is_received_witness:
  "\<exists>s1 s2. eMBRTUSend 1 1 5 rtu_idle = Some (MB_ENOERR, s1) \<and> serial_soft_trans_irq 9 s1 = Some s2 \<and> listening s2"
  using sent_frame_is_received[of rtu_idle 5 rtu_idle 1] listening_idle
  by (fastforce simp: rtu_idle_def)

text \<open>A valid frame in which one byte or two neighbouring bytes are changed on the line is
  never passed on as a frame.\<close>

theorem damaged_frame_is_ignored:
  assumes "listening s" "usMBCRC16 (xs @ us @ ys) = 0" "length us = length vs" "length us \<le> 2" "us \<noteq> vs"
    "length (xs @ us @ ys) \<le> 256"
  shows "\<exists>s'. serial_rx_ind (xs @ vs @ ys) s \<bind> xMBRTUTimerT35Expired = Some s' \<and>
    eMBRTUReceive s' = Some (MB_EIO, None)"
proof -
  let ?bs = "xs @ vs @ ys"
  have c: "usMBCRC16 ?bs \<noteq> 0" using assms(2-5) by (rule modbus_crc.corruption_seen)
  have l: "?bs \<noteq> []" "length ?bs \<le> 256" using assms(3,5,6) by auto
  let ?s = "s\<lparr>ucRTUBuf := blit (ucRTUBuf s) 0 ?bs, usRcvBufferPos := length ?bs, timer_on := False,
      xSlaveOsEvent := insert EV_FRAME_RECEIVED (xSlaveOsEvent s)\<rparr>"
  have "length (ucRTUBuf s) = 256" using assms(1) by (simp add: listening_def)
  then have "take (length ?bs) (ucRTUBuf ?s) = ?bs"
    using l(2) take_blit_start[of ?bs "ucRTUBuf s"] by simp
  then have "eMBRTUReceive ?s = Some (MB_EIO, None)"
    using receive_result[of ?s ?bs] l(2) c by simp
  then show ?thesis using frame_and_silence[OF assms(1) l] by blast
qed

theorem damaged_frame_is_ignored_witness:
  "\<exists>s'. serial_rx_ind ([1] @ [6] @ [0, 0, 0, 1, 0x84, 0x0A]) rtu_idle \<bind> xMBRTUTimerT35Expired = Some s' \<and>
    eMBRTUReceive s' = Some (MB_EIO, None)"
proof -
  have z: "usMBCRC16 ([1] @ [3] @ [0, 0, 0, 1, 0x84, 0x0A]) = 0" by code_simp
  show ?thesis by (rule damaged_frame_is_ignored[OF listening_idle z]) simp_all
qed

end
