(* ===== verification/Mb.thy ===== *)
theory Mb
  imports MbRtu
begin

text \<open>
  The Modbus slave stack: modbus/mb.c on top of the RTU layer and the function handlers.
  Initialisation, enabling and disabling, the registration of handlers and \<open>eMBPoll\<close>; then the
  slave as a transition system whose steps are a received byte, the expiry of the timer, a
  turn of the transmit thread and a poll, in any order.  The lemmas give the invariant of
  every run, and what a request does from its first byte to the last byte of the answer.
\<close>

section \<open>State\<close>

definition MB_ADDRESS_BROADCAST :: u8 where "MB_ADDRESS_BROADCAST = 0"
definition MB_ADDRESS_MIN :: u8 where "MB_ADDRESS_MIN = 1"
definition MB_ADDRESS_MAX :: u8 where "MB_ADDRESS_MAX = 247"
definition MB_FUNC_ERROR :: u8 where "MB_FUNC_ERROR = 128"
definition MB_FUNC_HANDLERS_MAX :: nat where "MB_FUNC_HANDLERS_MAX = 16"

lemmas mb_consts = MB_ADDRESS_BROADCAST_def MB_ADDRESS_MIN_def MB_ADDRESS_MAX_def MB_FUNC_ERROR_def
  MB_FUNC_HANDLERS_MAX_def

datatype mb_state = STATE_ENABLED | STATE_DISABLED | STATE_NOT_INITIALIZED
datatype eMBMode = MB_RTU | MB_ASCII | MB_TCP

text \<open>
  The static variables of mb.c and of \<open>eMBPoll\<close>; \<open>'h\<close> is the type of the handler pointers,
  \<open>ucMBFrame\<close> the index of the PDU in the receive buffer (\<open>None\<close> for NULL).
\<close>

record 'h mb =
  port :: rtu
  ucMBAddress :: u8
  eMBState :: mb_state
  xFuncHandlers :: "(u8 \<times> 'h option) list"
  ucMBFrame :: "nat option"
  ucRcvAddress :: u8
  ucFunctionCode :: u8
  usLength :: nat
  eException :: eMBException
  mbdata :: mb_data

type_synonym 'h runner = "'h \<Rightarrow> u8 list \<Rightarrow> nat \<Rightarrow> mb_data \<Rightarrow> answer"

definition handler_table :: "(u8 \<times> handler option) list" where
  "handler_table =
     [(MB_FUNC_OTHER_REPORT_SLAVEID, Some ReportSlaveID),
      (MB_FUNC_READ_INPUT_REGISTER, Some ReadInputRegister),
      (MB_FUNC_READ_HOLDING_REGISTER, Some ReadHoldingRegister),
      (MB_FUNC_WRITE_MULTIPLE_REGISTERS, Some WriteMultipleHoldingRegister),
      (MB_FUNC_WRITE_REGISTER, Some WriteHoldingRegister),
      (MB_FUNC_READWRITE_MULTIPLE_REGISTERS, Some ReadWriteMultipleHoldingRegister),
      (MB_FUNC_READ_COILS, Some ReadCoils),
      (MB_FUNC_WRITE_SINGLE_COIL, Some WriteCoil),
      (MB_FUNC_WRITE_MULTIPLE_COILS, Some WriteMultipleCoils),
      (MB_FUNC_READ_DISCRETE_INPUTS, Some ReadDiscreteInputs)]
     @ replicate (MB_FUNC_HANDLERS_MAX - 10) (0, None)"

section \<open>Starting and stopping\<close>

definition eMBInit :: "eMBMode \<Rightarrow> u8 \<Rightarrow> bool \<Rightarrow> bool \<Rightarrow> nat \<Rightarrow> 'h mb \<Rightarrow> eMBErrorCode \<times> 'h mb" where
  "eMBInit eMode ucSlaveAddress found opened ulBaudRate s =
     (if ucSlaveAddress = MB_ADDRESS_BROADCAST \<or> ucSlaveAddress < MB_ADDRESS_MIN \<or> MB_ADDRESS_MAX < ucSlaveAddress
      then (MB_EINVAL, s)
      else
        let s = s\<lparr>ucMBAddress := ucSlaveAddress\<rparr>;
            (eStatus, p) = (if eMode = MB_RTU then eMBRTUInit found opened ulBaudRate (port s) else (MB_EINVAL, port s))
        in if eStatus = MB_ENOERR
           then (eStatus, s\<lparr>port := xMBPortEventInit p, eMBState := STATE_DISABLED\<rparr>)
           else (eStatus, s\<lparr>port := p\<rparr>))"

text \<open>\<open>MB_PORT_HAS_CLOSE\<close> is 0, so there is nothing to close.\<close>

definition eMBClose :: "'h mb \<Rightarrow> eMBErrorCode" where
  "eMBClose s = (if eMBState s = STATE_DISABLED then MB_ENOERR else MB_EILLSTATE)"

definition eMBEnable :: "'h mb \<Rightarrow> eMBErrorCode \<times> 'h mb" where
  "eMBEnable s =
     (if eMBState s = STATE_DISABLED
      then (MB_ENOERR, s\<lparr>port := eMBRTUStart (port s), eMBState := STATE_ENABLED\<rparr>)
      else (MB_EILLSTATE, s))"

definition eMBDisable :: "'h mb \<Rightarrow> eMBErrorCode \<times> 'h mb" where
  "eMBDisable s =
     (if eMBState s = STATE_ENABLED
      then (MB_ENOERR, s\<lparr>port := eMBRTUStop (port s), eMBState := STATE_DISABLED\<rparr>)
      else if eMBState s = STATE_DISABLED then (MB_ENOERR, s)
      else (MB_EILLSTATE, s))"

section \<open>Handlers\<close>

fun install :: "u8 \<Rightarrow> 'h \<Rightarrow> (u8 \<times> 'h option) list \<Rightarrow> (u8 \<times> 'h option) list option" where
  "install c h [] = None"
| "install c h ((c', h') # t) =
     (if h' = None \<or> h' = Some h then Some ((c, Some h) # t) else map_option (Cons (c', h')) (install c h t))"

fun uninstall :: "u8 \<Rightarrow> (u8 \<times> 'h option) list \<Rightarrow> (u8 \<times> 'h option) list" where
  "uninstall c [] = []"
| "uninstall c ((c', h') # t) = (if c' = c then (0, None) # t else (c', h') # uninstall c t)"

definition eMBRegisterCB ::
    "u8 \<Rightarrow> 'h option \<Rightarrow> (u8 \<times> 'h option) list \<Rightarrow> eMBErrorCode \<times> (u8 \<times> 'h option) list" where
  "eMBRegisterCB code pxHandler t =
     (if 0 < code \<and> code \<le> 127
      then (case pxHandler of
          Some h \<Rightarrow> (case install code h t of Some t' \<Rightarrow> (MB_ENOERR, t') | None \<Rightarrow> (MB_ENORES, t))
        | None \<Rightarrow> (MB_ENOERR, uninstall code t))
      else (MB_EINVAL, t))"

text \<open>The loop of \<open>eMBPoll\<close>: it stops at the first entry without a code.\<close>

fun find_handler :: "u8 \<Rightarrow> (u8 \<times> 'h option) list \<Rightarrow> 'h option option" where
  "find_handler c [] = None"
| "find_handler c ((c', h) # t) = (if c' = 0 then None else if c' = c then Some h else find_handler c t)"

section \<open>Polling\<close>

definition frame_received :: "'h mb \<Rightarrow> 'h mb option" where
  "frame_received s =
     (case eMBRTUReceive (port s) of
        None \<Rightarrow> None
      | Some (_, None) \<Rightarrow> Some s
      | Some (_, Some (addr, len)) \<Rightarrow>
          let s = s\<lparr>ucRcvAddress := addr, ucMBFrame := Some MB_SER_PDU_PDU_OFF, usLength := len\<rparr>
          in Some (if addr = ucMBAddress s \<or> addr = MB_ADDRESS_BROADCAST
                   then s\<lparr>port := xMBPortEventPost EV_EXECUTE (port s)\<rparr> else s))"

definition run_request :: "'h runner \<Rightarrow> nat \<Rightarrow> 'h mb \<Rightarrow> 'h mb option" where
  "run_request run f s =
     (let buf = ucRTUBuf (port s);
          s = s\<lparr>ucFunctionCode := buf ! (f + MB_PDU_FUNC_OFF), eException := MB_EX_ILLEGAL_FUNCTION\<rparr>
      in case find_handler (ucFunctionCode s) (xFuncHandlers s) of
           None \<Rightarrow> Some s
         | Some None \<Rightarrow> None
         | Some (Some h) \<Rightarrow>
             do { (e, pdu, len, m) \<leftarrow> run h (drop f buf) (usLength s) (mbdata s);
                  Some (s\<lparr>eException := e, port := (port s)\<lparr>ucRTUBuf := take f buf @ pdu\<rparr>,
                          usLength := len, mbdata := m\<rparr>) })"

definition exception_frame :: "nat \<Rightarrow> 'h mb \<Rightarrow> 'h mb" where
  "exception_frame f s =
     (if eException s \<noteq> MB_EX_NONE
      then s\<lparr>port := (port s)\<lparr>ucRTUBuf := (ucRTUBuf (port s))
                [f := ucFunctionCode s OR MB_FUNC_ERROR, f + 1 := exception_code (eException s)]\<rparr>,
             usLength := 2\<rparr>
      else s)"

definition send_reply :: "nat \<Rightarrow> 'h mb \<Rightarrow> 'h mb option" where
  "send_reply f s =
     (if ucRcvAddress s = MB_ADDRESS_BROADCAST then Some s
      else
        let s = exception_frame f s
        in do { (_, p) \<leftarrow> eMBRTUSend (ucMBAddress s) f (usLength s) (port s); Some (s\<lparr>port := p\<rparr>) })"

text \<open>
  \<open>eMBPoll\<close> returns, waits for an event, or is undefined (a failed assertion, a NULL frame, an
  event set its switch does not know, an access outside an array).
\<close>

datatype 'a outcome = Returns 'a | Waits | Undefined

fun outcome_of :: "'h mb option \<Rightarrow> (eMBErrorCode \<times> 'h mb) outcome" where
  "outcome_of None = Undefined"
| "outcome_of (Some s) = Returns (MB_ENOERR, s)"

definition eMBPoll :: "'h runner \<Rightarrow> 'h mb \<Rightarrow> (eMBErrorCode \<times> 'h mb) outcome" where
  "eMBPoll run s =
     (if eMBState s \<noteq> STATE_ENABLED then Returns (MB_EILLSTATE, s)
      else case xMBPortEventGet (port s) of
          (Blocks, _) \<Rightarrow> Waits
        | (Unset, _) \<Rightarrow> Undefined
        | (Got EV_READY, p) \<Rightarrow> Returns (MB_ENOERR, s\<lparr>port := p\<rparr>)
        | (Got EV_FRAME_RECEIVED, p) \<Rightarrow> outcome_of (frame_received (s\<lparr>port := p\<rparr>))
        | (Got EV_EXECUTE, p) \<Rightarrow>
            outcome_of (do { f \<leftarrow> ucMBFrame s; s \<leftarrow> run_request run f (s\<lparr>port := p\<rparr>); send_reply f s })
        | (Got EV_FRAME_SENT, p) \<Rightarrow> Returns (MB_ENOERR, s\<lparr>port := p\<rparr>))"

section \<open>The running slave\<close>

text \<open>
  A byte arrives while the receive interrupt is enabled, the timer expires while it runs, the
  transmit thread turns while its event is set, and the poll thread turns when an event is
  pending.  \<open>None\<close> is undefined behaviour.
\<close>

datatype mb_event = Rx u8 | T35 | TxReady | Poll

fun mb_enabled :: "mb_event \<Rightarrow> 'h mb \<Rightarrow> bool" where
  "mb_enabled (Rx b) s = rx_int (port s)"
| "mb_enabled T35 s = timer_on (port s)"
| "mb_enabled TxReady s = trans_start (port s)"
| "mb_enabled Poll s = (xSlaveOsEvent (port s) \<noteq> {})"

definition on_port :: "(rtu \<Rightarrow> rtu option) \<Rightarrow> 'h mb \<Rightarrow> 'h mb option" where
  "on_port f s = map_option (\<lambda>p. s\<lparr>port := p\<rparr>) (f (port s))"

fun mb_step :: "'h runner \<Rightarrow> mb_event \<Rightarrow> 'h mb \<Rightarrow> 'h mb option" where
  "mb_step run (Rx b) s = on_port (xMBRTUReceiveFSM b) s"
| "mb_step run T35 s = on_port xMBRTUTimerT35Expired s"
| "mb_step run TxReady s = on_port xMBRTUTransmitFSM s"
| "mb_step run Poll s = (case eMBPoll run s of Returns (_, s') \<Rightarrow> Some s' | _ \<Rightarrow> None)"

fun mb_run :: "'h runner \<Rightarrow> mb_event list \<Rightarrow> 'h mb \<Rightarrow> 'h mb option" where
  "mb_run run [] s = Some s"
| "mb_run run (ev # evs) s = (if mb_enabled ev s then mb_step run ev s \<bind> mb_run run evs else None)"

inductive mb_reach :: "'h runner \<Rightarrow> 'h mb \<Rightarrow> 'h mb \<Rightarrow> bool" for run s0 where
  start: "mb_reach run s0 s0"
| step: "mb_reach run s0 s \<Longrightarrow> mb_enabled ev s \<Longrightarrow> mb_step run ev s = Some s' \<Longrightarrow> mb_reach run s0 s'"

inductive_cases mb_reach_cases: "mb_reach run s0 s"

text \<open>The static initial values, and the slave as the sample application starts it.\<close>

definition mb_static :: "handler mb" where
  "mb_static = \<lparr>port = \<lparr>eRcvState = STATE_RX_INIT, eSndState = STATE_TX_IDLE, ucRTUBuf = replicate 256 0,
       usRcvBufferPos = 0, pucSndBufferCur = 0, usSndBufferCount = 0, rx_int = False, trans_start = False,
       timer_ticks = 0, timer_on = False, xSlaveOsEvent = {}, tx_line = []\<rparr>,
     ucMBAddress = 0, eMBState = STATE_NOT_INITIALIZED, xFuncHandlers = handler_table, ucMBFrame = None,
     ucRcvAddress = 0, ucFunctionCode = 0, usLength = 0, eException = MB_EX_NONE, mbdata = mb0\<rparr>"

definition MB_SAMPLE_SLAVE_ADDR :: u8 where "MB_SAMPLE_SLAVE_ADDR = 1"
definition MB_SLAVE_USING_PORT_BAUDRATE :: nat where "MB_SLAVE_USING_PORT_BAUDRATE = 9600"

definition mb_slave_start :: "mb_data \<Rightarrow> handler mb" where
  "mb_slave_start m = snd (eMBEnable (snd (eMBInit MB_RTU MB_SAMPLE_SLAVE_ADDR True True
     MB_SLAVE_USING_PORT_BAUDRATE (mb_static\<lparr>mbdata := m\<rparr>))))"

section \<open>The handlers' contract and the invariant\<close>

text \<open>A buffer and a transmitter in order; the timer runs exactly outside the idle state.\<close>

definition rtu_inv :: "rtu \<Rightarrow> bool" where
  "rtu_inv p \<longleftrightarrow> length (ucRTUBuf p) = 256 \<and> usRcvBufferPos p \<le> 256 \<and>
     (timer_on p \<longleftrightarrow> eRcvState p \<noteq> STATE_RX_IDLE) \<and>
     (case eSndState p of
        STATE_TX_IDLE \<Rightarrow> rx_int p \<and> \<not> trans_start p
      | STATE_TX_XMIT \<Rightarrow> eRcvState p = STATE_RX_IDLE \<and> \<not> rx_int p \<and> trans_start p \<and>
          pucSndBufferCur p + usSndBufferCount p \<le> 256 \<and> xSlaveOsEvent p = {})"

definition mb_inv :: "'h mb \<Rightarrow> bool" where
  "mb_inv s \<longleftrightarrow> rtu_inv (port s) \<and> eMBState s = STATE_ENABLED \<and> mb_wf (mbdata s) \<and> usLength s \<le> 253 \<and>
     (ucMBFrame s = None \<or> ucMBFrame s = Some 1) \<and>
     (EV_EXECUTE \<in> xSlaveOsEvent (port s) \<longrightarrow> ucMBFrame s = Some 1) \<and>
     (\<forall>(c, h) \<in> set (xFuncHandlers s). c \<noteq> 0 \<longrightarrow> h \<noteq> None)"

lemmas port_defs = vMBPortTimersEnable_def vMBPortTimersDisable_def vMBPortSerialEnable_def
  xMBPortEventPost_def xMBPortSerialPutByte_def

lemma receive_fsm_inv:
  assumes "rtu_inv p" "rx_int p"
  shows "\<exists>p'. xMBRTUReceiveFSM b p = Some p' \<and> rtu_inv p' \<and> xSlaveOsEvent p' = xSlaveOsEvent p"
proof -
  have "eSndState p = STATE_TX_IDLE" using assms by (auto simp: rtu_inv_def split: eMBSndState.splits)
  then show ?thesis using assms
    by (cases "eRcvState p") (auto simp: xMBRTUReceiveFSM_def rtu_inv_def port_defs ser_numbers)
qed

lemma timer_inv:
  assumes "rtu_inv p" "timer_on p"
  shows "\<exists>p'. xMBRTUTimerT35Expired p = Some p' \<and> rtu_inv p' \<and>
    (EV_EXECUTE \<in> xSlaveOsEvent p' \<longleftrightarrow> EV_EXECUTE \<in> xSlaveOsEvent p)"
proof -
  have "eSndState p = STATE_TX_IDLE" "eRcvState p \<noteq> STATE_RX_IDLE"
    using assms by (auto simp: rtu_inv_def split: eMBSndState.splits)
  then show ?thesis using assms
    by (cases "eRcvState p") (auto simp: xMBRTUTimerT35Expired_def rtu_inv_def port_defs)
qed

lemma transmit_fsm_inv:
  assumes "rtu_inv p" "trans_start p"
  shows "\<exists>p'. xMBRTUTransmitFSM p = Some p' \<and> rtu_inv p' \<and> EV_EXECUTE \<notin> xSlaveOsEvent p'"
proof -
  have "eSndState p = STATE_TX_XMIT"
    using assms by (auto simp: rtu_inv_def split: eMBSndState.splits)
  then show ?thesis using assms
    by (cases "usSndBufferCount p") (auto simp: xMBRTUTransmitFSM_def rtu_inv_def port_defs)
qed

lemma find_handler_in: "find_handler c t = Some h \<Longrightarrow> (c, h) \<in> set t \<and> c \<noteq> 0"
  by (induction c t rule: find_handler.induct) (auto split: if_splits)

locale handler_contract =
  fixes run :: "'h runner" and safe :: "'h \<Rightarrow> bool"
  assumes fits: "mb_wf m \<Longrightarrow> length pdu = 255 \<Longrightarrow> len \<le> 253 \<Longrightarrow>
      run h pdu len m = Some (e, pdu', len', m') \<Longrightarrow> length pdu' = 255 \<and> len' \<le> 253 \<and> mb_wf m'"
    and defined: "safe h \<Longrightarrow> mb_wf m \<Longrightarrow> length pdu = 255 \<Longrightarrow> len \<le> 253 \<Longrightarrow> run h pdu len m \<noteq> None"
begin

definition dangerous :: "'h mb \<Rightarrow> bool" where
  "dangerous s \<longleftrightarrow> (\<exists>h. find_handler (ucRTUBuf (port s) ! 1) (xFuncHandlers s) = Some (Some h) \<and> \<not> safe h)"

lemma run_request_inv:
  assumes "mb_inv s" "run_request run 1 s = Some s'"
  shows "mb_inv s' \<and> eSndState (port s') = eSndState (port s) \<and> xSlaveOsEvent (port s') = xSlaveOsEvent (port s)"
proof (cases "find_handler (ucRTUBuf (port s) ! 1) (xFuncHandlers s)")
  case None
  then show ?thesis using assms
    by (auto simp: run_request_def Let_def mb_inv_def mb_numbers)
next
  case (Some oh)
  then obtain h where h: "oh = Some h" using assms(2)
    by (auto simp: run_request_def Let_def mb_numbers split: option.splits)
  have buf: "length (ucRTUBuf (port s)) = 256" "mb_wf (mbdata s)" "usLength s \<le> 253"
    using assms(1) by (auto simp: mb_inv_def rtu_inv_def)
  obtain e pdu len m where r: "run h (drop 1 (ucRTUBuf (port s))) (usLength s) (mbdata s) = Some (e, pdu, len, m)"
    and s': "s' = s\<lparr>ucFunctionCode := ucRTUBuf (port s) ! 1, eException := e,
        port := (port s)\<lparr>ucRTUBuf := take 1 (ucRTUBuf (port s)) @ pdu\<rparr>, usLength := len, mbdata := m\<rparr>"
    using assms(2) Some h by (auto simp: run_request_def Let_def mb_numbers split: Option.bind_splits)
  have "length pdu = 255 \<and> len \<le> 253 \<and> mb_wf m"
    using buf by (intro fits[OF _ _ _ r]) simp_all
  then show ?thesis using assms(1) buf
    by (auto simp: s' mb_inv_def rtu_inv_def split: eMBSndState.splits)
qed

lemma run_request_defined:
  assumes "mb_inv s" "\<not> dangerous s"
  shows "run_request run 1 s \<noteq> None"
proof (cases "find_handler (ucRTUBuf (port s) ! 1) (xFuncHandlers s)")
  case (Some oh)
  then have "oh \<noteq> None" using find_handler_in[OF Some] assms(1) by (auto simp: mb_inv_def)
  then obtain h where h: "oh = Some h" by auto
  have "run h (drop 1 (ucRTUBuf (port s))) (usLength s) (mbdata s) \<noteq> None"
    using assms Some h by (intro defined) (auto simp: mb_inv_def rtu_inv_def dangerous_def)
  then show ?thesis using Some h by (auto simp: run_request_def Let_def mb_numbers)
qed (simp add: run_request_def Let_def mb_numbers)

end

lemma send_inv:
  assumes "rtu_inv p" "eSndState p = STATE_TX_IDLE" "xSlaveOsEvent p = {}" "len \<le> 253"
  shows "\<exists>e p'. eMBRTUSend a 1 len p = Some (e, p') \<and> rtu_inv p' \<and> xSlaveOsEvent p' = {}"
proof (cases "eRcvState p = STATE_RX_IDLE")
  case True
  then show ?thesis using send_frame[OF True, of len a] assms
    by (fastforce simp: rtu_inv_def)
next
  case False
  then show ?thesis using assms by (simp add: eMBRTUSend_def)
qed

lemma send_reply_inv:
  assumes "mb_inv s" "eSndState (port s) = STATE_TX_IDLE" "xSlaveOsEvent (port s) = {}"
  shows "\<exists>s'. send_reply 1 s = Some s' \<and> mb_inv s'"
proof (cases "ucRcvAddress s = MB_ADDRESS_BROADCAST")
  case True
  then show ?thesis using assms(1) by (simp add: send_reply_def)
next
  case False
  let ?s = "exception_frame 1 s"
  have s: "mb_inv ?s" "eSndState (port ?s) = STATE_TX_IDLE" "xSlaveOsEvent (port ?s) = {}"
    using assms by (auto simp: exception_frame_def mb_inv_def rtu_inv_def)
  then obtain e p' where "eMBRTUSend (ucMBAddress ?s) 1 (usLength ?s) (port ?s) = Some (e, p')"
    "rtu_inv p'" "xSlaveOsEvent p' = {}"
    using send_inv[of "port ?s" "usLength ?s" "ucMBAddress ?s"] by (auto simp: mb_inv_def)
  then have "send_reply 1 s = Some (?s\<lparr>port := p'\<rparr>)" "mb_inv (?s\<lparr>port := p'\<rparr>)"
    using False s(1) by (simp_all add: send_reply_def Let_def mb_inv_def)
  then show ?thesis by blast
qed

section \<open>The invariant of every run\<close>

lemma frame_received_inv:
  assumes "mb_inv s" "xSlaveOsEvent (port s) = {}" "eSndState (port s) = STATE_TX_IDLE"
  shows "\<exists>s'. frame_received s = Some s' \<and> mb_inv s'"
proof -
  have pos: "usRcvBufferPos (port s) \<le> 256" using assms(1) by (simp add: mb_inv_def rtu_inv_def)
  show ?thesis
  proof (cases "4 \<le> usRcvBufferPos (port s) \<and> usMBCRC16 (take (usRcvBufferPos (port s)) (ucRTUBuf (port s))) = 0")
    case True
    then have "eMBRTUReceive (port s) = Some (MB_ENOERR, Some (ucRTUBuf (port s) ! 0, usRcvBufferPos (port s) - 1 - 2))"
      using pos by (simp add: eMBRTUReceive_def ser_numbers)
    then show ?thesis using assms pos
      by (auto simp: frame_received_def Let_def mb_inv_def rtu_inv_def port_defs ser_numbers)
  next
    case False
    then have "eMBRTUReceive (port s) = Some (MB_EIO, None)"
      using pos by (simp add: eMBRTUReceive_def ser_numbers)
    then show ?thesis using assms(1) by (simp add: frame_received_def)
  qed
qed

lemma mb_inv_clear: "mb_inv s \<Longrightarrow> mb_inv (s\<lparr>port := (port s)\<lparr>xSlaveOsEvent := {}\<rparr>\<rparr>)"
  by (auto simp: mb_inv_def rtu_inv_def split: eMBSndState.splits)

lemma pending_means_idle: "mb_inv s \<Longrightarrow> xSlaveOsEvent (port s) \<noteq> {} \<Longrightarrow> eSndState (port s) = STATE_TX_IDLE"
  by (auto simp: mb_inv_def rtu_inv_def split: eMBSndState.splits)

context handler_contract
begin

lemma execute_inv:
  assumes "mb_inv s" "xSlaveOsEvent (port s) = {}" "eSndState (port s) = STATE_TX_IDLE"
  shows "(\<not> dangerous s \<longrightarrow> run_request run 1 s \<bind> send_reply 1 \<noteq> None) \<and>
    (\<forall>s'. run_request run 1 s \<bind> send_reply 1 = Some s' \<longrightarrow> mb_inv s')"
proof (cases "run_request run 1 s")
  case None
  then show ?thesis using run_request_defined[OF assms(1)] by auto
next
  case (Some s1)
  then have "mb_inv s1" "eSndState (port s1) = STATE_TX_IDLE" "xSlaveOsEvent (port s1) = {}"
    using run_request_inv[OF assms(1) Some] assms(2,3) by auto
  then show ?thesis using send_reply_inv[of s1] Some by fastforce
qed

lemma poll_inv:
  assumes "mb_inv s" "xSlaveOsEvent (port s) = {e}"
  shows "(e = EV_EXECUTE \<longrightarrow> \<not> dangerous s) \<longrightarrow> mb_step run Poll s \<noteq> None"
    and "mb_step run Poll s = Some s' \<Longrightarrow> mb_inv s'"
proof -
  let ?s = "s\<lparr>port := (port s)\<lparr>xSlaveOsEvent := {}\<rparr>\<rparr>"
  have s: "mb_inv ?s" "xSlaveOsEvent (port ?s) = {}" "eSndState (port ?s) = STATE_TX_IDLE"
    using mb_inv_clear[OF assms(1)] pending_means_idle[OF assms(1)] assms(2) by simp_all
  have en: "eMBState s = STATE_ENABLED" using assms(1) by (simp add: mb_inv_def)
  have d: "dangerous ?s = dangerous s" by (simp add: dangerous_def)
  have f: "e = EV_EXECUTE \<Longrightarrow> ucMBFrame s = Some 1" using assms by (auto simp: mb_inv_def)
  have x: "mb_step run Poll s = (case e of EV_FRAME_RECEIVED \<Rightarrow> frame_received ?s
      | EV_EXECUTE \<Rightarrow> run_request run 1 ?s \<bind> send_reply 1 | _ \<Rightarrow> Some ?s)"
    using assms(2) en f by (cases e)
      (auto simp: eMBPoll_def xMBPortEventGet_def event_switch_def intro: outcome_of.cases
        split: outcome.splits elim: outcome_of.elims)
  show "(e = EV_EXECUTE \<longrightarrow> \<not> dangerous s) \<longrightarrow> mb_step run Poll s \<noteq> None"
    unfolding x using execute_inv[OF s] frame_received_inv[OF s] d by (cases e) auto
  show "mb_step run Poll s = Some s' \<Longrightarrow> mb_inv s'"
    unfolding x using execute_inv[OF s] frame_received_inv[OF s] s(1) by (cases e) auto
qed

end

lemma port_step_inv:
  assumes "mb_inv s" "mb_enabled ev s" "ev \<noteq> Poll"
  shows "\<exists>s'. mb_step run ev s = Some s' \<and> mb_inv s'"
proof -
  have p: "rtu_inv (port s)" using assms(1) by (simp add: mb_inv_def)
  have port: "mb_inv (s\<lparr>port := p'\<rparr>)"
    if "rtu_inv p'" "EV_EXECUTE \<in> xSlaveOsEvent p' \<longrightarrow> EV_EXECUTE \<in> xSlaveOsEvent (port s)" for p'
    using that assms(1) by (simp add: mb_inv_def)
  show ?thesis
  proof (cases ev)
    case (Rx b)
    then show ?thesis using receive_fsm_inv[OF p, of b] port assms(2) by (auto simp: on_port_def)
  next
    case T35
    then show ?thesis using timer_inv[OF p] port assms(2) by (auto simp: on_port_def)
  next
    case TxReady
    then show ?thesis using transmit_fsm_inv[OF p] port assms(2) by (auto simp: on_port_def)
  qed (use assms(3) in simp)
qed

context handler_contract
begin

text \<open>An enabled step fails only at a poll that finds several events or a dangerous request.\<close>

lemma step_inv:
  assumes "mb_inv s" "mb_enabled ev s"
  shows "mb_step run ev s = Some s' \<Longrightarrow> mb_inv s'"
    and "mb_step run ev s = None \<Longrightarrow> ev = Poll \<and>
      ((\<nexists>e. xSlaveOsEvent (port s) = {e}) \<or> (xSlaveOsEvent (port s) = {EV_EXECUTE} \<and> dangerous s))"
proof -
  have poll: "\<exists>e. xSlaveOsEvent (port s) = {e}" if "mb_step run Poll s = Some s'"
    using that assms(1) by (auto simp: eMBPoll_def xMBPortEventGet_def event_switch_def mb_inv_def split: if_splits)
  show "mb_step run ev s = Some s' \<Longrightarrow> mb_inv s'"
    using port_step_inv[OF assms, of run] poll poll_inv(2)[OF assms(1)] by (cases "ev = Poll") auto
  show "mb_step run ev s = None \<Longrightarrow> ev = Poll \<and>
      ((\<nexists>e. xSlaveOsEvent (port s) = {e}) \<or> (xSlaveOsEvent (port s) = {EV_EXECUTE} \<and> dangerous s))"
    using port_step_inv[OF assms, of run] poll_inv(1)[OF assms(1)] by (cases "ev = Poll") auto
qed

lemma mb_reach_inv: "mb_reach run s0 s \<Longrightarrow> mb_inv s0 \<Longrightarrow> mb_inv s"
  by (induction rule: mb_reach.induct) (auto intro: step_inv(1))

end

fun mb_safe :: "handler \<Rightarrow> bool" where
  "mb_safe h = (h \<notin> {ReadCoils, WriteCoil, WriteMultipleCoils, ReadDiscreteInputs})"

interpretation slave: handler_contract run_handler mb_safe
proof unfold_locales
  fix m m' :: mb_data and len len' :: nat and h e and pdu pdu' :: "u8 list"
  assume a: "mb_wf m" "length pdu = 255" "len \<le> 253"
  then have f: "frame_fits pdu len" by (simp add: frame_fits_def)
  show "mb_safe h \<Longrightarrow> run_handler h pdu len m \<noteq> None"
    using reg_handler_ok[OF _ a(1) f, of h] by (auto simp: answer_ok_def split: option.splits)
  show "run_handler h pdu len m = Some (e, pdu', len', m') \<Longrightarrow> length pdu' = 255 \<and> len' \<le> 253 \<and> mb_wf m'"
    using handler_fits[OF a(1) f, of h] by (simp add: answer_fits_def answer_ok_def frame_fits_def)
qed

lemma slave_start_inv: "mb_wf m \<Longrightarrow> mb_inv (mb_slave_start m)"
  by (simp add: mb_slave_start_def eMBInit_def eMBEnable_def eMBRTUInit_def eMBRTUStart_def mb_static_def
      xMBPortSerialInit_def xMBPortTimersInit_def xMBPortEventInit_def port_defs mb_consts
      MB_SAMPLE_SLAVE_ADDR_def mb_inv_def rtu_inv_def handler_table_def mb_numbers Let_def)

section \<open>A request from its first byte to the answer\<close>

definition quiet :: "'h mb \<Rightarrow> bool" where
  "quiet s \<longleftrightarrow> mb_inv s \<and> listening (port s) \<and> xSlaveOsEvent (port s) = {}"

lemma mb_run_append: "mb_run run (xs @ ys) s = mb_run run xs s \<bind> mb_run run ys"
proof (induction xs arbitrary: s)
  case (Cons x xs)
  then show ?case by (cases "mb_step run x s") simp_all
qed simp

lemma rx_fsm_keeps: "xMBRTUReceiveFSM b p = Some p' \<Longrightarrow> rx_int p' = rx_int p"
  by (auto simp: xMBRTUReceiveFSM_def port_defs split: if_splits eMBRcvState.splits)

text \<open>The bytes of a frame, as steps of the slave, are \<open>serial_rx_ind\<close>.\<close>

lemma run_rx:
  assumes "rx_int (port s)" "serial_rx_ind bs (port s) = Some p"
  shows "mb_run run (map Rx bs) s = Some (s\<lparr>port := p\<rparr>)"
  using assms
proof (induction bs arbitrary: s)
  case (Cons b bs)
  obtain p1 where p1: "xMBRTUReceiveFSM b (port s) = Some p1" "serial_rx_ind bs p1 = Some p"
    using Cons.prems(2) by (auto split: Option.bind_splits)
  then have "mb_run run (map Rx bs) (s\<lparr>port := p1\<rparr>) = Some (s\<lparr>port := p1, port := p\<rparr>)"
    using Cons.IH[of "s\<lparr>port := p1\<rparr>"] Cons.prems(1) rx_fsm_keeps[OF p1(1)] by simp
  then show ?case using p1 Cons.prems(1) by (simp add: on_port_def)
qed simp

lemma run_tx:
  "serial_soft_trans_irq fuel p = Some p' \<Longrightarrow>
   \<exists>k \<le> fuel. mb_run run (replicate k TxReady) (s\<lparr>port := p\<rparr>) = Some (s\<lparr>port := p'\<rparr>) \<and> \<not> trans_start p'"
proof (induction fuel arbitrary: p)
  case 0
  then show ?case by (auto split: if_splits)
next
  case (Suc fuel)
  show ?case
  proof (cases "trans_start p")
    case True
    then obtain p1 where p1: "xMBRTUTransmitFSM p = Some p1" "serial_soft_trans_irq fuel p1 = Some p'"
      using Suc.prems by (auto split: Option.bind_splits)
    then obtain k where k: "k \<le> fuel" "\<not> trans_start p'"
      "mb_run run (replicate k TxReady) (s\<lparr>port := p1\<rparr>) = Some (s\<lparr>port := p'\<rparr>)"
      using Suc.IH[of p1] by blast
    then have "mb_run run (replicate (Suc k) TxReady) (s\<lparr>port := p\<rparr>) = Some (s\<lparr>port := p'\<rparr>)"
      using p1(1) True by (simp add: on_port_def)
    then show ?thesis using k(1,2) by (intro exI[of _ "Suc k"]) simp
  next
    case False
    then show ?thesis using Suc.prems by (intro exI[of _ 0]) simp
  qed
qed

text \<open>From a quiet slave: a valid frame, silence and the first poll.\<close>

lemma frame_to_execute:
  assumes "quiet s" "1 \<le> length pdu" "length pdu \<le> 253"
  shows "mb_run run (map Rx (seal (addr # pdu)) @ [T35, Poll]) s = Some (s\<lparr>
      port := (port s)\<lparr>ucRTUBuf := blit (ucRTUBuf (port s)) 0 (seal (addr # pdu)),
        usRcvBufferPos := length pdu + 3, timer_on := False,
        xSlaveOsEvent := (if addr = ucMBAddress s \<or> addr = MB_ADDRESS_BROADCAST then {EV_EXECUTE} else {})\<rparr>,
      ucRcvAddress := addr, ucMBFrame := Some 1, usLength := length pdu\<rparr>)"
proof -
  let ?f = "seal (addr # pdu)"
  have q: "listening (port s)" "xSlaveOsEvent (port s) = {}" "eMBState s = STATE_ENABLED" "rx_int (port s)"
    using assms(1) by (auto simp: quiet_def mb_inv_def rtu_inv_def listening_def)
  have lf: "length ?f \<le> 256" "length ?f = length pdu + 3" using assms(3) by simp_all
  have lb: "length (ucRTUBuf (port s)) = 256" using q(1) by (simp add: listening_def)
  let ?p1 = "(port s)\<lparr>ucRTUBuf := blit (ucRTUBuf (port s)) 0 ?f, usRcvBufferPos := length pdu + 3,
       eRcvState := STATE_RX_RCV, timer_on := True\<rparr>"
  let ?p2 = "(port s)\<lparr>ucRTUBuf := blit (ucRTUBuf (port s)) 0 ?f, usRcvBufferPos := length pdu + 3,
       timer_on := False, xSlaveOsEvent := {EV_FRAME_RECEIVED}\<rparr>"
  let ?p3 = "?p2\<lparr>xSlaveOsEvent := {}\<rparr>"
  have r1: "serial_rx_ind ?f (port s) = Some ?p1" using receive_frame[OF q(1) _ lf(1)] lf(2) by simp
  have r2: "xMBRTUTimerT35Expired ?p1 = Some ?p2"
    using frame_and_silence[OF q(1) _ lf(1)] r1 q(2) lf(2) by simp
  have "?f ! 0 = addr" by (simp add: seal_def)
  then have "eMBRTUReceive ?p3 = Some (MB_ENOERR, Some (addr, length pdu))"
    using receive_result[of ?p3 ?f] lf lb assms(2) take_blit_start[of ?f "ucRTUBuf (port s)"] by simp
  then have r3: "frame_received (s\<lparr>port := ?p3\<rparr>) = Some (s\<lparr>
      port := ?p3\<lparr>xSlaveOsEvent := (if addr = ucMBAddress s \<or> addr = MB_ADDRESS_BROADCAST then {EV_EXECUTE} else {})\<rparr>,
      ucRcvAddress := addr, ucMBFrame := Some 1, usLength := length pdu\<rparr>)"
    by (simp add: frame_received_def Let_def port_defs ser_numbers)
  have "mb_run run (map Rx ?f) s = Some (s\<lparr>port := ?p1\<rparr>)" by (rule run_rx[OF q(4) r1])
  then show ?thesis using r2 r3 q(3)
    by (simp add: mb_run_append on_port_def eMBPoll_def xMBPortEventGet_def event_switch_def)
qed

text \<open>
  The specification of a request: the PDU of the answer and the new data, with no regard to
  buffers and bytes on the line.  \<open>area\<close> is what the handler sees of the receive buffer.
\<close>

definition respond :: "'h runner \<Rightarrow> (u8 \<times> 'h option) list \<Rightarrow> u8 list \<Rightarrow> u8 list \<Rightarrow> mb_data \<Rightarrow> (u8 list \<times> mb_data) option" where
  "respond run table pdu area m =
     (case find_handler (pdu ! 0) table of
        None \<Rightarrow> Some ([pdu ! 0 OR MB_FUNC_ERROR, exception_code MB_EX_ILLEGAL_FUNCTION], m)
      | Some None \<Rightarrow> None
      | Some (Some h) \<Rightarrow>
          map_option (\<lambda>(e, p, len, m').
            (if e = MB_EX_NONE then take len p else [pdu ! 0 OR MB_FUNC_ERROR, exception_code e], m'))
          (run h area (length pdu) m))"

definition request_area :: "'h mb \<Rightarrow> u8 \<Rightarrow> u8 list \<Rightarrow> u8 list" where
  "request_area s addr pdu = drop 1 (blit (ucRTUBuf (port s)) 0 (seal (addr # pdu)))"

lemma request_area_pdu: "1 \<le> length pdu \<Longrightarrow> request_area s addr pdu ! 0 = pdu ! 0"
  by (cases pdu) (simp_all add: request_area_def blit_def seal_def)

context handler_contract
begin

lemma mb_run_inv: "mb_run run evs s = Some s' \<Longrightarrow> mb_inv s \<Longrightarrow> mb_inv s'"
proof (induction evs arbitrary: s)
  case (Cons ev evs)
  then show ?case by (auto split: if_splits Option.bind_splits dest: step_inv(1))
qed simp

text \<open>\<open>run_request\<close> and the exception frame leave the specified answer behind the address.\<close>

lemma executed_request:
  assumes "mb_inv s" "1 \<le> length pdu" "usLength s = length pdu" "length (ucRTUBuf (port s)) = 256"
    and area: "area = drop 1 (ucRTUBuf (port s))" "area ! 0 = pdu ! 0"
    and r: "respond run (xFuncHandlers s) pdu area (mbdata s) = Some (reply, m')"
  shows "\<exists>s1. run_request run 1 s = Some s1 \<and> mbdata s1 = m' \<and>
    port s1 = (port s)\<lparr>ucRTUBuf := ucRTUBuf (port s1)\<rparr> \<and> ucMBAddress s1 = ucMBAddress s \<and> ucRcvAddress s1 = ucRcvAddress s \<and>
    length (ucRTUBuf (port s1)) = 256 \<and>
    (let s2 = exception_frame 1 s1 in usLength s2 = length reply \<and> usLength s2 \<le> 253 \<and>
       take (usLength s2) (drop 1 (ucRTUBuf (port s2))) = reply)"
proof -
  have code: "ucRTUBuf (port s) ! 1 = pdu ! 0" using area assms(4) by simp
  obtain x b xs where buf: "ucRTUBuf (port s) = x # b # xs" "length xs = 254"
    using assms(4) by (cases "ucRTUBuf (port s)"; cases "tl (ucRTUBuf (port s))") auto
  have ab: "area = b # xs" using area(1) buf by simp
  show ?thesis
  proof (cases "find_handler (pdu ! 0) (xFuncHandlers s)")
    case None
    then have "reply = [pdu ! 0 OR MB_FUNC_ERROR, 1]" "m' = mbdata s" using r by (simp_all add: respond_def)
    moreover have "take 1 (xs[0 := u]) = [u]" for u using buf(2) by (cases xs) auto
    ultimately show ?thesis using None code buf
      by (simp add: run_request_def exception_frame_def Let_def mb_numbers numeral_2_eq_2)
  next
    case (Some oh)
    then obtain h e p len where h: "oh = Some h" "run h area (length pdu) (mbdata s) = Some (e, p, len, m')"
      and reply: "reply = (if e = MB_EX_NONE then take len p else [pdu ! 0 OR MB_FUNC_ERROR, exception_code e])"
      using r by (auto simp: respond_def split: option.splits)
    have f: "length p = 255 \<and> len \<le> 253"
      using fits[OF _ _ _ h(2)] assms by (auto simp: mb_inv_def)
    let ?s1 = "s\<lparr>ucFunctionCode := pdu ! 0, eException := e, port := (port s)\<lparr>ucRTUBuf := x # p\<rparr>,
        usLength := len, mbdata := m'\<rparr>"
    have "run_request run 1 s = Some ?s1"
      using Some h code assms(3) buf ab by (simp add: run_request_def Let_def mb_numbers)
    moreover have "take 2 (p[0 := u, Suc 0 := v]) = [u, v]" for u v
      using f by (cases p; cases "tl p") auto
    ultimately show ?thesis using f reply
      by (intro exI[of _ ?s1]) (auto simp: exception_frame_def Let_def)
  qed
qed

end

context handler_contract
begin

text \<open>After the first poll: the second poll runs the request; a reply empties onto the line.\<close>

lemma execute_to_reply:
  assumes "mb_inv s" "xSlaveOsEvent (port s) = {EV_EXECUTE}" "eRcvState (port s) = STATE_RX_IDLE"
    and run: "run_request run 1 (s\<lparr>port := (port s)\<lparr>xSlaveOsEvent := {}\<rparr>\<rparr>) = Some s1"
    and s1: "port s1 = (port s)\<lparr>xSlaveOsEvent := {}, ucRTUBuf := buf\<rparr>" "length buf = 256"
      "ucRcvAddress s1 \<noteq> MB_ADDRESS_BROADCAST"
    and reply: "usLength (exception_frame 1 s1) = length reply" "length reply \<le> 253"
      "take (length reply) (drop 1 (ucRTUBuf (port (exception_frame 1 s1)))) = reply"
  shows "\<exists>k s'. mb_run run ([Poll] @ replicate k TxReady @ [Poll]) s = Some s' \<and> quiet s' \<and>
    mbdata s' = mbdata s1 \<and> tx_line (port s') = tx_line (port s) @ seal (ucMBAddress s1 # reply)"
proof -
  let ?s2 = "exception_frame 1 s1"
  let ?p2 = "port ?s2"
  have p2: "eRcvState ?p2 = STATE_RX_IDLE" "length (ucRTUBuf ?p2) = 256" "xSlaveOsEvent ?p2 = {}"
    "tx_line ?p2 = tx_line (port s)" "mbdata ?s2 = mbdata s1" "ucMBAddress ?s2 = ucMBAddress s1" "usLength ?s2 \<le> 253"
    using s1 assms(3) reply by (simp_all add: exception_frame_def)
  obtain sb where send: "eMBRTUSend (ucMBAddress ?s2) 1 (usLength ?s2) ?p2 = Some (MB_ENOERR, ?p2\<lparr>ucRTUBuf := sb,
      pucSndBufferCur := 0, usSndBufferCount := usLength ?s2 + 3, eSndState := STATE_TX_XMIT, rx_int := False,
      trans_start := True\<rparr>)" (is "_ = Some (_, ?p3)")
    and sb: "length sb = 256" "take (usLength ?s2 + 3) sb = seal (ucMBAddress s1 # reply)"
    using send_frame[OF p2(1,2), of "usLength ?s2" "ucMBAddress ?s2"] p2 reply by auto
  let ?p4 = "?p3\<lparr>eSndState := STATE_TX_IDLE, rx_int := True, trans_start := False, pucSndBufferCur := usLength ?s2 + 3,
      usSndBufferCount := 0, xSlaveOsEvent := {EV_FRAME_SENT}, tx_line := tx_line (port s) @ seal (ucMBAddress s1 # reply)\<rparr>"
  have "serial_soft_trans_irq (Suc (usLength ?s2 + 3)) ?p3 = Some ?p4"
    using transmit_all[of ?p3 "Suc (usLength ?s2 + 3)"] p2 sb reply by simp
  then obtain k where k: "mb_run run (replicate k TxReady) (?s2\<lparr>port := ?p3\<rparr>) = Some (?s2\<lparr>port := ?p4\<rparr>)"
    using run_tx[of _ ?p3 ?p4 run ?s2] by blast
  have en: "eMBState s = STATE_ENABLED" "ucMBFrame s = Some 1" using assms(1,2) by (auto simp: mb_inv_def)
  have "mb_step run Poll s = Some (?s2\<lparr>port := ?p3\<rparr>)"
    using assms(2) en run send s1(3)
    by (simp add: eMBPoll_def xMBPortEventGet_def event_switch_def send_reply_def Let_def)
  then have run1: "mb_run run ([Poll] @ replicate k TxReady) s = Some (?s2\<lparr>port := ?p4\<rparr>)"
    using k assms(2) by (simp add: mb_run_append)
  then have inv: "mb_inv (?s2\<lparr>port := ?p4\<rparr>)" using mb_run_inv assms(1) by blast
  then have st: "eMBState ?s2 = STATE_ENABLED" "mb_enabled Poll (?s2\<lparr>port := ?p4\<rparr>)"
    by (simp_all add: mb_inv_def)
  let ?s' = "?s2\<lparr>port := ?p4\<lparr>xSlaveOsEvent := {}\<rparr>\<rparr>"
  have "mb_run run (([Poll] @ replicate k TxReady) @ [Poll]) s = Some ?s'"
    unfolding mb_run_append[of run "[Poll] @ _"] run1 using st
    by (simp add: eMBPoll_def xMBPortEventGet_def event_switch_def)
  moreover have "quiet ?s'" using mb_inv_clear[OF inv] p2(1) sb(1) by (simp add: quiet_def listening_def)
  ultimately show ?thesis using p2(5) by (intro exI[of _ k] exI[of _ ?s']) simp
qed

lemma requested:
  assumes "quiet s" "1 \<le> length pdu" "length pdu \<le> 253" "addr = ucMBAddress s \<or> addr = MB_ADDRESS_BROADCAST"
    and r: "respond run (xFuncHandlers s) pdu (request_area s addr pdu) (mbdata s) = Some (reply, m')"
  shows "\<exists>s0 s1. mb_run run (map Rx (seal (addr # pdu)) @ [T35, Poll]) s = Some s0 \<and> mb_inv s0 \<and>
    xSlaveOsEvent (port s0) = {EV_EXECUTE} \<and> eRcvState (port s0) = STATE_RX_IDLE \<and> eSndState (port s0) = STATE_TX_IDLE \<and>
    tx_line (port s0) = tx_line (port s) \<and> ucMBFrame s0 = Some 1 \<and>
    run_request run 1 (s0\<lparr>port := (port s0)\<lparr>xSlaveOsEvent := {}\<rparr>\<rparr>) = Some s1 \<and> mbdata s1 = m' \<and>
    port s1 = (port s0)\<lparr>xSlaveOsEvent := {}, ucRTUBuf := ucRTUBuf (port s1)\<rparr> \<and> ucMBAddress s1 = ucMBAddress s \<and>
    ucRcvAddress s1 = addr \<and> length (ucRTUBuf (port s1)) = 256 \<and>
    usLength (exception_frame 1 s1) = length reply \<and> length reply \<le> 253 \<and>
    take (length reply) (drop 1 (ucRTUBuf (port (exception_frame 1 s1)))) = reply"
proof -
  let ?b = "blit (ucRTUBuf (port s)) 0 (seal (addr # pdu))"
  let ?s = "s\<lparr>port := (port s)\<lparr>ucRTUBuf := ?b, usRcvBufferPos := length pdu + 3, timer_on := False,
      xSlaveOsEvent := {EV_EXECUTE}\<rparr>, ucRcvAddress := addr, ucMBFrame := Some 1, usLength := length pdu\<rparr>"
  let ?t = "?s\<lparr>port := (port ?s)\<lparr>xSlaveOsEvent := {}\<rparr>\<rparr>"
  have q: "eRcvState (port s) = STATE_RX_IDLE" "eSndState (port s) = STATE_TX_IDLE" "length (ucRTUBuf (port s)) = 256"
    using assms(1) by (simp_all add: quiet_def listening_def)
  have "length (seal (addr # pdu)) \<le> 256" using assms(3) by simp
  then have lb: "length ?b = 256" using q(3) length_blit[of 0 "seal (addr # pdu)" "ucRTUBuf (port s)"] by linarith
  have first: "mb_run run (map Rx (seal (addr # pdu)) @ [T35, Poll]) s = Some ?s"
    using frame_to_execute[OF assms(1-3), of run addr] unfolding if_P[OF assms(4)] .
  then have inv: "mb_inv ?s" using mb_run_inv assms(1) unfolding quiet_def by blast
  have "\<exists>s1. run_request run 1 ?t = Some s1 \<and> mbdata s1 = m' \<and>
    port s1 = (port ?t)\<lparr>ucRTUBuf := ucRTUBuf (port s1)\<rparr> \<and> ucMBAddress s1 = ucMBAddress ?t \<and> ucRcvAddress s1 = ucRcvAddress ?t \<and>
    length (ucRTUBuf (port s1)) = 256 \<and>
    (let s2 = exception_frame 1 s1 in usLength s2 = length reply \<and> usLength s2 \<le> 253 \<and>
       take (usLength s2) (drop 1 (ucRTUBuf (port s2))) = reply)"
  proof (rule executed_request[OF mb_inv_clear[OF inv] assms(2)])
    show "request_area s addr pdu = drop 1 (ucRTUBuf (port ?t))" by (simp add: request_area_def)
    show "request_area s addr pdu ! 0 = pdu ! 0" by (rule request_area_pdu[OF assms(2)])
  qed (use r lb in simp_all)
  then obtain s1 where s1: "run_request run 1 ?t = Some s1" "mbdata s1 = m'"
    "port s1 = (port ?s)\<lparr>xSlaveOsEvent := {}, ucRTUBuf := ucRTUBuf (port s1)\<rparr>" "ucMBAddress s1 = ucMBAddress s"
    "ucRcvAddress s1 = addr" "length (ucRTUBuf (port s1)) = 256" "usLength (exception_frame 1 s1) = length reply"
    "length reply \<le> 253" "take (length reply) (drop 1 (ucRTUBuf (port (exception_frame 1 s1)))) = reply"
    by (auto simp: Let_def)
  then show ?thesis using first inv q by (intro exI[of _ ?s] exI[of _ s1]) simp
qed

lemma answered:
  assumes "quiet s" "1 \<le> length pdu" "length pdu \<le> 253" "ucMBAddress s \<noteq> MB_ADDRESS_BROADCAST"
    and r: "respond run (xFuncHandlers s) pdu (request_area s (ucMBAddress s) pdu) (mbdata s) = Some (reply, m')"
  shows "\<exists>k s'. mb_run run (map Rx (seal (ucMBAddress s # pdu)) @ [T35, Poll, Poll] @ replicate k TxReady @ [Poll]) s = Some s' \<and>
    quiet s' \<and> mbdata s' = m' \<and> tx_line (port s') = tx_line (port s) @ seal (ucMBAddress s # reply)"
proof -
  let ?f = "map Rx (seal (ucMBAddress s # pdu)) @ [T35, Poll]"
  obtain s0 s1 where s0: "mb_run run ?f s = Some s0" "mb_inv s0" "xSlaveOsEvent (port s0) = {EV_EXECUTE}"
      "eRcvState (port s0) = STATE_RX_IDLE" "tx_line (port s0) = tx_line (port s)"
    and s1: "run_request run 1 (s0\<lparr>port := (port s0)\<lparr>xSlaveOsEvent := {}\<rparr>\<rparr>) = Some s1" "mbdata s1 = m'"
      "port s1 = (port s0)\<lparr>xSlaveOsEvent := {}, ucRTUBuf := ucRTUBuf (port s1)\<rparr>" "length (ucRTUBuf (port s1)) = 256"
      "ucMBAddress s1 = ucMBAddress s" "ucRcvAddress s1 = ucMBAddress s"
      "usLength (exception_frame 1 s1) = length reply" "length reply \<le> 253"
      "take (length reply) (drop 1 (ucRTUBuf (port (exception_frame 1 s1)))) = reply"
    using requested[OF assms(1-3) disjI1[OF refl] r] by blast
  obtain k s' where "mb_run run ([Poll] @ replicate k TxReady @ [Poll]) s0 = Some s'" "quiet s'" "mbdata s' = m'"
    "tx_line (port s') = tx_line (port s) @ seal (ucMBAddress s # reply)"
    using execute_to_reply[OF s0(2-4) s1(1,3,4) _ s1(7-9)] s1(2,5,6) s0(5) assms(4) by auto
  moreover have "mb_run run (?f @ ([Poll] @ replicate k TxReady @ [Poll])) s =
      mb_run run ([Poll] @ replicate k TxReady @ [Poll]) s0"
    unfolding mb_run_append[of run ?f] s0(1) by simp
  ultimately show ?thesis by (intro exI[of _ k] exI[of _ s']) simp
qed

lemma broadcast:
  assumes "quiet s" "1 \<le> length pdu" "length pdu \<le> 253"
    and r: "respond run (xFuncHandlers s) pdu (request_area s MB_ADDRESS_BROADCAST pdu) (mbdata s) = Some (reply, m')"
  shows "\<exists>s'. mb_run run (map Rx (seal (MB_ADDRESS_BROADCAST # pdu)) @ [T35, Poll, Poll]) s = Some s' \<and>
    quiet s' \<and> mbdata s' = m' \<and> tx_line (port s') = tx_line (port s)"
proof -
  let ?f = "map Rx (seal (MB_ADDRESS_BROADCAST # pdu)) @ [T35, Poll]"
  obtain s0 s1 where s0: "mb_run run ?f s = Some s0" "mb_inv s0" "xSlaveOsEvent (port s0) = {EV_EXECUTE}"
      "eRcvState (port s0) = STATE_RX_IDLE" "eSndState (port s0) = STATE_TX_IDLE"
      "tx_line (port s0) = tx_line (port s)" "ucMBFrame s0 = Some 1"
    and s1: "run_request run 1 (s0\<lparr>port := (port s0)\<lparr>xSlaveOsEvent := {}\<rparr>\<rparr>) = Some s1" "mbdata s1 = m'"
      "port s1 = (port s0)\<lparr>xSlaveOsEvent := {}, ucRTUBuf := ucRTUBuf (port s1)\<rparr>" "length (ucRTUBuf (port s1)) = 256"
      "ucRcvAddress s1 = MB_ADDRESS_BROADCAST"
    using requested[OF assms(1-3) disjI2[OF refl] r] by blast
  have "mb_step run Poll s0 = Some s1"
    using s0 s1(1,5) by (simp add: eMBPoll_def xMBPortEventGet_def event_switch_def send_reply_def mb_inv_def)
  then have all: "mb_run run (?f @ [Poll]) s = Some s1"
    unfolding mb_run_append[of run ?f] s0(1) using s0(3) by simp
  have p: "eRcvState (port s1) = STATE_RX_IDLE" "eSndState (port s1) = STATE_TX_IDLE" "xSlaveOsEvent (port s1) = {}"
    "tx_line (port s1) = tx_line (port s)"
    by (subst s1(3), simp add: s0)+
  have "quiet s1" using mb_run_inv[OF all] assms(1) s1(4) p by (simp add: quiet_def listening_def)
  then show ?thesis using all s1(2) p(4) by (intro exI[of _ s1]) simp
qed

end

section \<open>Properties\<close>

text \<open>C9: in every interleaving of bytes, timer, transmitter and polls from start-up the stack
  stays in order (buffer of 256 bytes, position within it, transmitter and receiver never on
  together) and no assertion and no buffer access fails; only a poll that finds several
  events pending, or a coil or discrete-input request, has no defined result.\<close>

theorem slave_runs_safely:
  assumes "mb_reach run_handler (mb_slave_start m) s" "mb_wf m" "mb_enabled ev s"
  shows "length (ucRTUBuf (port s)) = 256 \<and> usRcvBufferPos (port s) \<le> 256 \<and> usLength s \<le> 253 \<and>
    (eSndState (port s) = STATE_TX_XMIT \<longrightarrow> \<not> rx_int (port s) \<and> eRcvState (port s) = STATE_RX_IDLE) \<and>
    (mb_step run_handler ev s = None \<longrightarrow> ev = Poll \<and>
       ((\<nexists>e. xSlaveOsEvent (port s) = {e}) \<or>
        xSlaveOsEvent (port s) = {EV_EXECUTE} \<and>
        (\<exists>h \<in> {ReadCoils, WriteCoil, WriteMultipleCoils, ReadDiscreteInputs}.
           find_handler (ucRTUBuf (port s) ! 1) (xFuncHandlers s) = Some (Some h))))"
proof -
  have inv: "mb_inv s" using slave.mb_reach_inv[OF assms(1)] slave_start_inv[OF assms(2)] by blast
  then have "rtu_inv (port s)" "usLength s \<le> 253" by (auto simp: mb_inv_def)
  then show ?thesis using slave.step_inv(2)[OF inv assms(3)]
    by (auto simp: rtu_inv_def slave.dangerous_def)
qed

theorem slave_runs_safely_witness:
  "length (ucRTUBuf (port (mb_slave_start mb0))) = 256 \<and> mb_enabled T35 (mb_slave_start mb0)"
proof -
  have e: "mb_enabled T35 (mb_slave_start mb0)"
    by (simp add: mb_slave_start_def eMBInit_def eMBEnable_def eMBRTUInit_def eMBRTUStart_def mb_static_def
      xMBPortSerialInit_def xMBPortTimersInit_def xMBPortEventInit_def port_defs mb_consts
      MB_SAMPLE_SLAVE_ADDR_def Let_def)
  show ?thesis using slave_runs_safely[OF mb_reach.start mb_wf_mb0 e] e by blast
qed

text \<open>A slave that has passed its start-up silence.\<close>

definition mb_idle :: "mb_data \<Rightarrow> handler mb" where
  "mb_idle m = mb_static\<lparr>port := rtu_idle, ucMBAddress := MB_SAMPLE_SLAVE_ADDR, eMBState := STATE_ENABLED, mbdata := m\<rparr>"

lemma mb_idle_started: "mb_run run_handler [T35, Poll] (mb_slave_start m) = Some (mb_idle m)"
  by (simp add: mb_slave_start_def eMBInit_def eMBEnable_def eMBRTUInit_def eMBRTUStart_def mb_static_def
      xMBPortSerialInit_def xMBPortTimersInit_def xMBPortEventInit_def port_defs mb_consts on_port_def
      MB_SAMPLE_SLAVE_ADDR_def Let_def xMBRTUTimerT35Expired_def eMBPoll_def xMBPortEventGet_def event_switch_def
      mb_idle_def rtu_idle_def RT_TICK_PER_SECOND_def)

lemma mb_idle_quiet: "mb_wf m \<Longrightarrow> quiet (mb_idle m)"
  by (simp add: quiet_def mb_idle_def rtu_idle_def listening_def mb_inv_def rtu_inv_def mb_static_def
      handler_table_def mb_numbers mb_consts)

lemma unknown_code: "find_handler 0x42 handler_table = None"
  by code_simp

text \<open>C10: a quiet slave that receives a request for its address answers it: the bytes it puts
  on the line are the sealed frame of exactly the answer the request's handler specifies
  (or of the exception), its data are the handler's, and it is quiet again.\<close>

theorem request_is_answered:
  assumes "quiet s" "1 \<le> length pdu" "length pdu \<le> 253" "ucMBAddress s \<noteq> MB_ADDRESS_BROADCAST"
    and "respond run_handler (xFuncHandlers s) pdu (request_area s (ucMBAddress s) pdu) (mbdata s) = Some (reply, m')"
  shows "\<exists>k s'. mb_run run_handler
      (map Rx (seal (ucMBAddress s # pdu)) @ [T35, Poll, Poll] @ replicate k TxReady @ [Poll]) s = Some s' \<and>
    quiet s' \<and> mbdata s' = m' \<and> tx_line (port s') = tx_line (port s) @ seal (ucMBAddress s # reply)"
  using assms by (rule slave.answered)

theorem request_is_answered_witness:
  "\<exists>k s'. mb_run run_handler
      (map Rx (seal [1, 0x42]) @ [T35, Poll, Poll] @ replicate k TxReady @ [Poll]) (mb_idle mb0) = Some s' \<and>
    quiet s' \<and> tx_line (port s') = seal [1, 0xC2, 1]"
proof -
  have i: "ucMBAddress (mb_idle mb0) = 1" "tx_line (port (mb_idle mb0)) = []" "mbdata (mb_idle mb0) = mb0"
    by (simp_all add: mb_idle_def rtu_idle_def MB_SAMPLE_SLAVE_ADDR_def)
  have "respond run_handler (xFuncHandlers (mb_idle mb0)) [0x42] area mb0 = Some ([0xC2, 1], mb0)" for area
    using unknown_code by (simp add: respond_def mb_idle_def mb_static_def MB_FUNC_ERROR_def)
  then show ?thesis
    using request_is_answered[OF mb_idle_quiet[OF mb_wf_mb0], of "[0x42]" "[0xC2, 1]" mb0] i
    by (auto simp: MB_ADDRESS_BROADCAST_def)
qed

lemma foreign_silent:
  assumes "quiet s" "1 \<le> length pdu" "length pdu \<le> 253" "addr \<noteq> ucMBAddress s" "addr \<noteq> MB_ADDRESS_BROADCAST"
  shows "\<exists>s'. mb_run run_handler (map Rx (seal (addr # pdu)) @ [T35, Poll]) s = Some s' \<and>
        quiet s' \<and> mbdata s' = mbdata s \<and> tx_line (port s') = tx_line (port s)"
proof -
  obtain s' where s': "mb_run run_handler (map Rx (seal (addr # pdu)) @ [T35, Poll]) s = Some s'"
    "mbdata s' = mbdata s" "tx_line (port s') = tx_line (port s)" "xSlaveOsEvent (port s') = {}"
    "eRcvState (port s') = eRcvState (port s)" "eSndState (port s') = eSndState (port s)"
    using frame_to_execute[OF assms(1-3), of run_handler addr] assms(4,5) by simp
  have inv: "mb_inv s'" using slave.mb_run_inv[OF s'(1)] assms(1) by (simp add: quiet_def)
  then have "quiet s'" using assms(1) s'(4-6) by (auto simp: quiet_def listening_def mb_inv_def rtu_inv_def)
  then show ?thesis using s' by blast
qed

text \<open>C11: a broadcast request is carried out and never answered; a request for another station
  changes nothing but the receive buffer.\<close>

theorem broadcast_and_foreign_requests_are_silent:
  assumes "quiet s" "1 \<le> length pdu" "length pdu \<le> 253" "addr \<noteq> ucMBAddress s" "addr \<noteq> MB_ADDRESS_BROADCAST"
    "respond run_handler (xFuncHandlers s) pdu (request_area s MB_ADDRESS_BROADCAST pdu) (mbdata s) = Some (reply, m')"
  shows "(\<exists>s'. mb_run run_handler (map Rx (seal (MB_ADDRESS_BROADCAST # pdu)) @ [T35, Poll, Poll]) s = Some s' \<and>
        quiet s' \<and> mbdata s' = m' \<and> tx_line (port s') = tx_line (port s)) \<and>
    (\<exists>s'. mb_run run_handler (map Rx (seal (addr # pdu)) @ [T35, Poll]) s = Some s' \<and>
        quiet s' \<and> mbdata s' = mbdata s \<and> tx_line (port s') = tx_line (port s))"
  using slave.broadcast[OF assms(1-3,6)] foreign_silent[OF assms(1-5)] by blast

theorem broadcast_and_foreign_requests_are_silent_witness:
  "\<exists>s' s''. mb_run run_handler (map Rx (seal [0, 0x42]) @ [T35, Poll, Poll]) (mb_idle mb0) = Some s' \<and>
     mb_run run_handler (map Rx (seal [9, 0x42]) @ [T35, Poll]) (mb_idle mb0) = Some s'' \<and>
     tx_line (port s') = [] \<and> tx_line (port s'') = []"
proof -
  have i: "ucMBAddress (mb_idle mb0) = 1" "tx_line (port (mb_idle mb0)) = []" "mbdata (mb_idle mb0) = mb0"
    by (simp_all add: mb_idle_def rtu_idle_def MB_SAMPLE_SLAVE_ADDR_def)
  have "respond run_handler (xFuncHandlers (mb_idle mb0)) [0x42] area mb0 = Some ([0xC2, 1], mb0)" for area
    using unknown_code by (simp add: respond_def mb_idle_def mb_static_def MB_FUNC_ERROR_def)
  then show ?thesis
    using broadcast_and_foreign_requests_are_silent[OF mb_idle_quiet[OF mb_wf_mb0], of "[0x42]" 9 "[0xC2, 1]" mb0] i
    by (fastforce simp: MB_ADDRESS_BROADCAST_def)
qed

text \<open>When the first frame follows the start-up silence before the poll thread has run, two
  events are pending at once and the poll reads an event that was never set: the frame is
  lost in undefined behaviour.\<close>

theorem frame_before_first_poll_is_lost:
  assumes "bs \<noteq> []" "length bs \<le> 256"
  shows "\<exists>s. mb_run run_handler (T35 # map Rx bs @ [T35]) (mb_slave_start m) = Some s \<and>
    xSlaveOsEvent (port s) = {EV_READY, EV_FRAME_RECEIVED} \<and> eMBPoll run_handler s = Undefined"
proof -
  let ?p = "rtu_idle\<lparr>xSlaveOsEvent := {EV_READY}\<rparr>"
  let ?s = "(mb_idle m)\<lparr>port := ?p\<rparr>"
  have t: "mb_run run_handler [T35] (mb_slave_start m) = Some ?s"
    by (simp add: mb_slave_start_def eMBInit_def eMBEnable_def eMBRTUInit_def eMBRTUStart_def mb_static_def
      xMBPortSerialInit_def xMBPortTimersInit_def xMBPortEventInit_def port_defs mb_consts on_port_def
      MB_SAMPLE_SLAVE_ADDR_def Let_def xMBRTUTimerT35Expired_def mb_idle_def rtu_idle_def RT_TICK_PER_SECOND_def)
  have l: "listening ?p" "rx_int ?p" by (simp_all add: listening_def rtu_idle_def)
  let ?p1 = "?p\<lparr>ucRTUBuf := blit (ucRTUBuf ?p) 0 bs, usRcvBufferPos := length bs,
      eRcvState := STATE_RX_RCV, timer_on := True\<rparr>"
  let ?p2 = "?p\<lparr>ucRTUBuf := blit (ucRTUBuf ?p) 0 bs, usRcvBufferPos := length bs, timer_on := False,
      xSlaveOsEvent := insert EV_FRAME_RECEIVED (xSlaveOsEvent ?p)\<rparr>"
  have r1: "serial_rx_ind bs ?p = Some ?p1" by (rule receive_frame[OF l(1) assms])
  have r2: "xMBRTUTimerT35Expired ?p1 = Some ?p2" using frame_and_silence[OF l(1) assms] r1 by simp
  have "mb_run run_handler (map Rx bs) ?s = Some (?s\<lparr>port := ?p1\<rparr>)"
    using run_rx[of ?s bs ?p1 run_handler] l r1 by simp
  then have "mb_run run_handler ([T35] @ map Rx bs @ [T35]) (mb_slave_start m) = Some (?s\<lparr>port := ?p2\<rparr>)"
    unfolding mb_run_append t using r2 by (simp add: on_port_def)
  moreover have "eMBPoll run_handler (?s\<lparr>port := ?p2\<rparr>) = Undefined"
    by (simp add: eMBPoll_def xMBPortEventGet_def event_switch_def mb_idle_def doubleton_eq_iff)
  ultimately show ?thesis by (intro exI[of _ "?s\<lparr>port := ?p2\<rparr>"]) auto
qed

theorem frame_before_first_poll_is_lost_witness:
  "\<exists>s. mb_run run_handler (T35 # map Rx [1, 3] @ [T35]) (mb_slave_start mb0) = Some s \<and>
    eMBPoll run_handler s = Undefined"
proof -
  have "\<exists>s. mb_run run_handler (T35 # map Rx [1, 3] @ [T35]) (mb_slave_start mb0) = Some s \<and>
      xSlaveOsEvent (port s) = {EV_READY, EV_FRAME_RECEIVED} \<and> eMBPoll run_handler s = Undefined"
    by (rule frame_before_first_poll_is_lost) simp_all
  then show ?thesis by blast
qed

text \<open>Disabling and enabling the stack while it transmits leaves the transmitter state as
  it is: the next byte on the line fails the receiver's assertion.\<close>

theorem enable_while_sending_asserts:
  assumes "mb_inv s" "eSndState (port s) = STATE_TX_XMIT"
  shows "\<exists>s'. eMBEnable (snd (eMBDisable s)) = (MB_ENOERR, s') \<and> mb_enabled (Rx b) s' \<and>
    mb_step run_handler (Rx b) s' = None"
  using assms
  by (simp add: mb_inv_def eMBEnable_def eMBDisable_def eMBRTUStart_def eMBRTUStop_def port_defs
      on_port_def xMBRTUReceiveFSM_def)

lemma sending_example:
  "mb_inv ((mb_idle mb0)\<lparr>port := rtu_idle\<lparr>eSndState := STATE_TX_XMIT, rx_int := False, trans_start := True\<rparr>\<rparr>)"
  using mb_idle_quiet[OF mb_wf_mb0] by (simp add: quiet_def mb_inv_def rtu_inv_def mb_idle_def rtu_idle_def)

theorem enable_while_sending_asserts_witness:
  "\<exists>s'. mb_step run_handler (Rx 1) s' = None"
  using enable_while_sending_asserts[OF sending_example, of 1] by auto

text \<open>Taking a handler out leaves a hole at which the poll stops, so every handler behind it is gone too.\<close>

theorem unregistering_hides_later_handlers:
  assumes "t = before @ (c, Some h) # after" "c \<notin> fst ` set before" "d \<notin> fst ` set before" "0 < c" "c \<le> 127"
  shows "eMBRegisterCB c None t = (MB_ENOERR, before @ (0, None) # after) \<and>
    find_handler d (before @ (0, None) # after) = None"
proof -
  have "uninstall c (before @ (c, Some h) # after) = before @ (0, None) # after"
    using assms(2) by (induction before) auto
  moreover have "find_handler d (before @ (0, None) # after) = None"
    using assms(3) by (induction before) auto
  ultimately show ?thesis using assms(1,4,5) by (simp add: eMBRegisterCB_def)
qed

theorem unregistering_hides_later_handlers_witness:
  "find_handler 3 (snd (eMBRegisterCB 17 None [(17, Some ReportSlaveID), (3, Some ReadHoldingRegister)])) = None"
  using unregistering_hides_later_handlers[of "[(17, Some ReportSlaveID), (3, Some ReadHoldingRegister)]" "[]" 17
      ReportSlaveID "[(3, Some ReadHoldingRegister)]" 3] by simp

text \<open>C39: the receive buffer is not held between the check of a frame and its execution: bytes
  that arrive in between, checked by nothing, replace the request, and a register is
  written with their values.\<close>

theorem unchecked_bytes_are_executed:
  assumes "mb_wf m" "100 \<le> unat a" "unat a < 200" "length pdu = 5"
  shows "\<exists>s'. mb_run run_handler (map Rx (seal (MB_SAMPLE_SLAVE_ADDR # pdu)) @ [T35, Poll]
      @ map Rx [x, 6, hi8 a, lo8 a, hi8 v, lo8 v] @ [Poll]) (mb_idle m) = Some s' \<and>
    regs_of (hold (mbdata s')) ! (unat a - 100) = v"
proof -
  let ?f = "seal (MB_SAMPLE_SLAVE_ADDR # pdu)" and ?b = "[x, 6, hi8 a, lo8 a, hi8 v, lo8 v]"
  have own: "ucMBAddress (mb_idle m) = MB_SAMPLE_SLAVE_ADDR" by (simp add: mb_idle_def)
  have lf: "length ?f = 8" using assms(4) by simp
  obtain s1 where run1: "mb_run run_handler (map Rx ?f @ [T35, Poll]) (mb_idle m) = Some s1"
    and s1: "listening (port s1)" "xSlaveOsEvent (port s1) = {EV_EXECUTE}" "rx_int (port s1)" "eMBState s1 = STATE_ENABLED"
      "ucMBFrame s1 = Some 1" "usLength s1 = 5" "mbdata s1 = m" "xFuncHandlers s1 = handler_table"
    using frame_to_execute[OF mb_idle_quiet[OF assms(1)], of pdu run_handler MB_SAMPLE_SLAVE_ADDR] assms(4) own lf
    by (auto simp: listening_def mb_idle_def rtu_idle_def mb_static_def)
  define p where "p = port s1"
  define p1 where "p1 = p\<lparr>ucRTUBuf := blit (ucRTUBuf p) 0 ?b, usRcvBufferPos := 6, eRcvState := STATE_RX_RCV, timer_on := True\<rparr>"
  have lb: "length (ucRTUBuf p) = 256" using s1(1) by (simp add: listening_def p_def)
  have "serial_rx_ind ?b p = Some p1"
    using receive_frame[of p ?b] s1(1) by (simp add: eval_nat_numeral p_def p1_def del: serial_rx_ind.simps)
  then have run2: "mb_run run_handler (map Rx ?b) s1 = Some (s1\<lparr>port := p1\<rparr>)"
    using run_rx[of s1 ?b p1 run_handler] s1(3) by (simp only: p_def)
  define area where "area = drop 1 (blit (ucRTUBuf p) 0 ?b)"
  have area: "area = [6, hi8 a, lo8 a, hi8 v, lo8 v] @ drop 6 (ucRTUBuf p)" "area ! 0 = 6"
    by (simp_all add: area_def blit_def eval_nat_numeral)
  obtain e xs m' where cb: "eMBRegHoldingCB (drop 3 area) (a + 1) 1 MB_REG_WRITE m = (e, xs, m')"
    by (cases "eMBRegHoldingCB (drop 3 area) (a + 1) 1 MB_REG_WRITE m")
  have w: "e = MB_ENOERR" "regs_of (hold m') = blit (regs_of (hold m)) (unat a - 100) (take 1 (words_of (drop 3 area)))"
    using holding_write[OF assms(1,2) _ _ cb] assms(3) lb by (auto simp: area(1))
  have reg: "regs_of (hold m') ! (unat a - 100) = v"
    using w(2) assms(1-3) by (simp add: area(1) nth_blit mb_wf_def)
  have "run_handler WriteHoldingRegister area 5 m = Some (MB_EX_NONE, area, 5, m')"
    using cb w(1) unfolding run_handler.simps eMBFuncWriteHoldingRegister_def pdu_offsets
    unfolding MB_PDU_DATA_OFF_def by (simp add: area(1) rd16_def)
  moreover have "find_handler 6 handler_table = Some (Some WriteHoldingRegister)" by code_simp
  moreover define t where "t = s1\<lparr>port := p1\<lparr>xSlaveOsEvent := {}\<rparr>\<rparr>"
  have t: "ucRTUBuf (port t) ! 1 = 6" "drop 1 (ucRTUBuf (port t)) = area" "usLength t = 5" "mbdata t = m"
    "xFuncHandlers t = handler_table" "eRcvState (port t) = STATE_RX_RCV"
    using area(2) lb s1 by (simp_all add: t_def p1_def area_def)
  ultimately have run3: "run_request run_handler 1 t = Some (t\<lparr>ucFunctionCode := 6, eException := MB_EX_NONE,
      port := (port t)\<lparr>ucRTUBuf := take 1 (ucRTUBuf (port t)) @ area\<rparr>, usLength := 5, mbdata := m'\<rparr>)" (is "_ = Some ?t")
    by (simp add: run_request_def Let_def mb_numbers)
  moreover have "\<exists>s'. send_reply 1 ?t = Some s' \<and> mbdata s' = m'"
    using t(6) by (simp add: send_reply_def eMBRTUSend_def exception_frame_def Let_def)
  ultimately have "\<exists>s'. mb_step run_handler Poll (s1\<lparr>port := p1\<rparr>) = Some s' \<and> mbdata s' = m'"
    using s1 by (auto simp: eMBPoll_def xMBPortEventGet_def event_switch_def p_def p1_def t_def)
  then obtain s' where s': "mb_step run_handler Poll (s1\<lparr>port := p1\<rparr>) = Some s'"
    "regs_of (hold (mbdata s')) ! (unat a - 100) = v" using reg by blast
  have "mb_enabled Poll (s1\<lparr>port := p1\<rparr>)" using s1(2) by (simp add: p_def p1_def)
  then have "mb_run run_handler ((map Rx ?f @ [T35, Poll]) @ map Rx ?b @ [Poll]) (mb_idle m) = Some s'"
    unfolding mb_run_append[of _ "map Rx ?f @ [T35, Poll]"] run1 bind.bind_lunit mb_run_append[of _ "map Rx ?b"] run2
    using s'(1) by simp
  then show ?thesis using s'(2) by (intro exI[of _ s']) (simp only: append_assoc append_Cons append_Nil)
qed

theorem unchecked_bytes_are_executed_witness:
  "\<exists>s'. mb_run run_handler (map Rx (seal (MB_SAMPLE_SLAVE_ADDR # [3, 0, 100, 0, 1])) @ [T35, Poll]
      @ map Rx [1, 6, hi8 102, lo8 102, hi8 7, lo8 7] @ [Poll]) (mb_idle mb0) = Some s' \<and>
    regs_of (hold (mbdata s')) ! 2 = 7"
  using unchecked_bytes_are_executed[OF mb_wf_mb0, of 102 "[3, 0, 100, 0, 1]" 1 7] by simp

end
