(* ===== verification/Kern.thy ===== *)
theory Kern
  imports Prelude
begin

text \<open>
  The RT-Thread kernel the firmware runs on: the state of its threads, timers and lists, and
  the scheduler (src/rt-thread/src/scheduler.c, with \<open>__rt_ffs\<close> of kservice.c).  The
  configuration is that of rtconfig.h: one processor, 32 priorities, no soft timers.  A
  section with the interrupts disabled is one step.  A thread or an object is known by its
  address, a number with 0 for \<open>RT_NULL\<close>; a thread's node \<open>tlist\<close> is in at most one list, so
  the lists hold the threads themselves.  \<open>stuck\<close> records a failed \<open>RT_ASSERT\<close>, which stops
  the processor, or an access outside an array; the invariant shows that it stays unset.
\<close>

section \<open>Threads, timers and the state of the kernel\<close>

record tcb =
  t_error :: int
  t_stat :: u8
  current_priority :: u8
  number_mask :: u32
  event_set :: u32
  event_info :: u8
  t_init_tick :: u32
  remaining_tick :: u32

text \<open>\<open>timeout_func\<close> and its parameter are told by the timer's name: the timer inside a
  thread wakes that thread; a timer of the application calls a function of its own.\<close>

datatype tmr = ThreadTimer nat | UserTimer nat

record timer_cb =
  tm_flag :: u8
  init_tick :: u32
  timeout_tick :: u32

text \<open>The objects of ipc.c, each without its waiting lists.  The slots of a message queue's
  pool are numbered; \<open>mq_next\<close> are the links in the slots, \<open>mq_data\<close> the bytes behind them,
  and \<open>None\<close> is the null pointer.\<close>

record semaphore =
  s_flag :: u8
  s_value :: u16

record mutex =
  m_flag :: u8
  m_value :: u16
  original_priority :: u8
  m_hold :: u8
  m_owner :: nat

record event =
  e_flag :: u8
  e_set :: u32

record mailbox =
  mb_flag :: u8
  mb_pool :: "u32 list"
  mb_size :: u16
  mb_entry :: u16
  mb_in :: u16
  mb_out :: u16

record messagequeue =
  mq_flag :: u8
  mq_next :: "nat option list"
  mq_data :: "u8 list list"
  mq_msg_size :: u16
  mq_max :: u16
  mq_entry :: u16
  mq_head :: "nat option"
  mq_tail :: "nat option"
  mq_free :: "nat option"

record ipc =
  sems :: "nat \<Rightarrow> semaphore"
  mutexes :: "nat \<Rightarrow> mutex"
  events :: "nat \<Rightarrow> event"
  mailboxes :: "nat \<Rightarrow> mailbox"
  mqs :: "nat \<Rightarrow> messagequeue"

text \<open>The heads of the waiting lists: \<open>suspend_thread\<close> of an object, and
  \<open>suspend_sender_thread\<close> of a mailbox and of a message queue.\<close>

datatype head = SemQ nat | MutexQ nat | EventQ nat | MbQ nat | MbSendQ nat | MqQ nat | MqSendQ nat

text \<open>\<open>waitq\<close> gives the waiting list with a given head; \<open>fired\<close> is the local list of
  \<open>rt_timer_check\<close>, \<open>rt_defunct\<close> the list \<open>_rt_thread_defunct\<close> of idle.c.\<close>

record kern =
  threads :: "nat \<Rightarrow> tcb"
  timers :: "tmr \<Rightarrow> timer_cb"
  rt_thread_priority_table :: "nat list list"
  rt_thread_ready_priority_group :: u32
  rt_current_thread :: nat
  rt_current_priority :: u8
  rt_scheduler_lock_nest :: u16
  rt_interrupt_nest :: u8
  rt_tick :: u32
  timer_list :: "tmr list"
  fired :: "tmr list"
  waitq :: "head \<Rightarrow> nat list"
  rt_defunct :: "nat list"
  ipc :: ipc
  stuck :: bool

definition RT_THREAD_PRIORITY_MAX :: nat where "RT_THREAD_PRIORITY_MAX = 32"
definition RT_THREAD_INIT :: u8 where "RT_THREAD_INIT = 0"
definition RT_THREAD_READY :: u8 where "RT_THREAD_READY = 1"
definition RT_THREAD_SUSPEND :: u8 where "RT_THREAD_SUSPEND = 2"
definition RT_THREAD_RUNNING :: u8 where "RT_THREAD_RUNNING = 3"
definition RT_THREAD_CLOSE :: u8 where "RT_THREAD_CLOSE = 4"
definition RT_THREAD_STAT_MASK :: u8 where "RT_THREAD_STAT_MASK = 7"
definition RT_THREAD_STAT_YIELD :: u8 where "RT_THREAD_STAT_YIELD = 8"
definition RT_THREAD_STAT_SIGNAL_PENDING :: u8 where "RT_THREAD_STAT_SIGNAL_PENDING = 0x40"

lemmas stat_defs = RT_THREAD_INIT_def RT_THREAD_READY_def RT_THREAD_SUSPEND_def
  RT_THREAD_RUNNING_def RT_THREAD_CLOSE_def

definition upd_thread :: "nat \<Rightarrow> (tcb \<Rightarrow> tcb) \<Rightarrow> kern \<Rightarrow> kern" where
  "upd_thread t f k = k\<lparr>threads := (threads k)(t := f (threads k t))\<rparr>"

definition upd_timer :: "tmr \<Rightarrow> (timer_cb \<Rightarrow> timer_cb) \<Rightarrow> kern \<Rightarrow> kern" where
  "upd_timer m f k = k\<lparr>timers := (timers k)(m := f (timers k m))\<rparr>"

definition RT_ASSERT :: "bool \<Rightarrow> kern \<Rightarrow> kern" where
  "RT_ASSERT b k = (if b then k else k\<lparr>stuck := True\<rparr>)"

text \<open>\<open>stat & RT_THREAD_STAT_MASK\<close>, and \<open>v | (stat & ~RT_THREAD_STAT_MASK)\<close>.\<close>

definition stat_of :: "kern \<Rightarrow> nat \<Rightarrow> u8" where
  "stat_of k t = t_stat (threads k t) AND RT_THREAD_STAT_MASK"

definition with_stat :: "u8 \<Rightarrow> u8 \<Rightarrow> u8" where
  "with_stat v s = v OR (s AND NOT RT_THREAD_STAT_MASK)"

definition prio :: "kern \<Rightarrow> nat \<Rightarrow> nat" where
  "prio k t = unat (current_priority (threads k t))"

section \<open>The scheduler\<close>

text \<open>\<open>rt_list_remove(&thread->tlist)\<close>: from whatever list the thread is in.\<close>

definition tlist_remove :: "nat \<Rightarrow> kern \<Rightarrow> kern" where
  "tlist_remove t k =
     k\<lparr>rt_thread_priority_table := map (removeAll t) (rt_thread_priority_table k),
       waitq := (\<lambda>q. removeAll t (waitq k q)), rt_defunct := removeAll t (rt_defunct k)\<rparr>"

text \<open>The table of the lowest set bit of a byte.\<close>

definition lowest_bit_bitmap :: "nat list" where
  "lowest_bit_bitmap =
    [0, 0, 1, 0, 2, 0, 1, 0, 3, 0, 1, 0, 2, 0, 1, 0,
     4, 0, 1, 0, 2, 0, 1, 0, 3, 0, 1, 0, 2, 0, 1, 0,
     5, 0, 1, 0, 2, 0, 1, 0, 3, 0, 1, 0, 2, 0, 1, 0,
     4, 0, 1, 0, 2, 0, 1, 0, 3, 0, 1, 0, 2, 0, 1, 0,
     6, 0, 1, 0, 2, 0, 1, 0, 3, 0, 1, 0, 2, 0, 1, 0,
     4, 0, 1, 0, 2, 0, 1, 0, 3, 0, 1, 0, 2, 0, 1, 0,
     5, 0, 1, 0, 2, 0, 1, 0, 3, 0, 1, 0, 2, 0, 1, 0,
     4, 0, 1, 0, 2, 0, 1, 0, 3, 0, 1, 0, 2, 0, 1, 0,
     7, 0, 1, 0, 2, 0, 1, 0, 3, 0, 1, 0, 2, 0, 1, 0,
     4, 0, 1, 0, 2, 0, 1, 0, 3, 0, 1, 0, 2, 0, 1, 0,
     5, 0, 1, 0, 2, 0, 1, 0, 3, 0, 1, 0, 2, 0, 1, 0,
     4, 0, 1, 0, 2, 0, 1, 0, 3, 0, 1, 0, 2, 0, 1, 0,
     6, 0, 1, 0, 2, 0, 1, 0, 3, 0, 1, 0, 2, 0, 1, 0,
     4, 0, 1, 0, 2, 0, 1, 0, 3, 0, 1, 0, 2, 0, 1, 0,
     5, 0, 1, 0, 2, 0, 1, 0, 3, 0, 1, 0, 2, 0, 1, 0,
     4, 0, 1, 0, 2, 0, 1, 0, 3, 0, 1, 0, 2, 0, 1, 0]"

text \<open>The last shift of the C code is one of a signed integer whose index would be negative
  if \<open>value\<close> were; the mask \<open>0xff000000\<close> is unsigned, so it is not.\<close>

definition rt_ffs :: "u32 \<Rightarrow> nat" where
  "rt_ffs v =
     (if v = 0 then 0
      else if v AND 0xff \<noteq> 0 then lowest_bit_bitmap ! unat (v AND 0xff) + 1
      else if v AND 0xff00 \<noteq> 0 then lowest_bit_bitmap ! unat (drop_bit 8 (v AND 0xff00)) + 9
      else if v AND 0xff0000 \<noteq> 0 then lowest_bit_bitmap ! unat (drop_bit 16 (v AND 0xff0000)) + 17
      else lowest_bit_bitmap ! unat (drop_bit 24 (v AND 0xff000000)) + 25)"

definition scheduler_get_highest_priority_thread :: "kern \<Rightarrow> nat \<times> nat" where
  "scheduler_get_highest_priority_thread k =
     (let hp = rt_ffs (rt_thread_ready_priority_group k) - 1
      in (hd (rt_thread_priority_table k ! hp), hp))"

definition rt_system_scheduler_init :: "kern \<Rightarrow> kern" where
  "rt_system_scheduler_init k =
     k\<lparr>rt_scheduler_lock_nest := 0,
       rt_thread_priority_table := replicate RT_THREAD_PRIORITY_MAX [],
       rt_thread_ready_priority_group := 0\<rparr>"

text \<open>The running thread is only marked as running again; another one goes to the end of the
  list of its priority.  A priority above 31 would index past the table.\<close>

definition rt_schedule_insert_thread :: "nat \<Rightarrow> kern \<Rightarrow> kern" where
  "rt_schedule_insert_thread t k =
     (if t = rt_current_thread k
      then upd_thread t (\<lambda>c. c\<lparr>t_stat := with_stat RT_THREAD_RUNNING (t_stat c)\<rparr>) k
      else let k = upd_thread t (\<lambda>c. c\<lparr>t_stat := with_stat RT_THREAD_READY (t_stat c)\<rparr>) k;
               p = prio k t;
               k = RT_ASSERT (p < RT_THREAD_PRIORITY_MAX) k
           in k\<lparr>rt_thread_priority_table :=
                   (rt_thread_priority_table k)[p := rt_thread_priority_table k ! p @ [t]],
                rt_thread_ready_priority_group :=
                   rt_thread_ready_priority_group k OR number_mask (threads k t)\<rparr>)"

definition rt_schedule_remove_thread :: "nat \<Rightarrow> kern \<Rightarrow> kern" where
  "rt_schedule_remove_thread t k =
     (let k = RT_ASSERT (prio k t < RT_THREAD_PRIORITY_MAX) (tlist_remove t k)
      in if rt_thread_priority_table k ! prio k t = []
         then k\<lparr>rt_thread_ready_priority_group :=
                  rt_thread_ready_priority_group k AND NOT (number_mask (threads k t))\<rparr>
         else k)"

definition rt_system_scheduler_start :: "kern \<Rightarrow> kern" where
  "rt_system_scheduler_start k =
     (let to = fst (scheduler_get_highest_priority_thread k)
      in upd_thread to (\<lambda>c. c\<lparr>t_stat := RT_THREAD_RUNNING\<rparr>)
           (rt_schedule_remove_thread to (k\<lparr>rt_current_thread := to\<rparr>)))"

text \<open>Up to the context switch, which makes \<open>rt_current_thread\<close> the thread that runs.  Who
  asked for its turn to end (\<open>RT_THREAD_STAT_YIELD\<close>) gives way to threads of its own
  priority.\<close>

definition set_running :: "nat \<Rightarrow> kern \<Rightarrow> kern" where
  "set_running t = upd_thread t (\<lambda>c. c\<lparr>t_stat := with_stat RT_THREAD_RUNNING (t_stat c)\<rparr>)"

definition rt_schedule :: "kern \<Rightarrow> kern" where
  "rt_schedule k =
     (if rt_scheduler_lock_nest k = 0 \<and> rt_thread_ready_priority_group k \<noteq> 0
      then let (to, hp) = scheduler_get_highest_priority_thread k;
               cur = rt_current_thread k;
               running = (stat_of k cur = RT_THREAD_RUNNING);
               keep = (running \<and>
                       (prio k cur < hp \<or>
                        prio k cur = hp \<and> t_stat (threads k cur) AND RT_THREAD_STAT_YIELD = 0));
               k = (if running
                    then upd_thread cur (\<lambda>c. c\<lparr>t_stat := t_stat c AND NOT RT_THREAD_STAT_YIELD\<rparr>) k
                    else k);
               to = (if keep then cur else to)
           in if to \<noteq> cur
              then let k = k\<lparr>rt_current_priority := word_of_nat hp, rt_current_thread := to\<rparr>;
                       k = (if running then rt_schedule_insert_thread cur k else k)
                   in set_running to (rt_schedule_remove_thread to k)
              else set_running cur (rt_schedule_remove_thread cur k)
      else k)"

text \<open>The rest of \<open>rt_schedule\<close> runs when the thread is switched back to, outside
  interrupts: a pending signal is acknowledged, and the result says whether
  \<open>rt_thread_handle_sig\<close> is called.\<close>

definition rt_schedule_resumed :: "kern \<Rightarrow> bool \<times> kern" where
  "rt_schedule_resumed k =
     (if rt_interrupt_nest k = 0 \<and>
         t_stat (threads k (rt_current_thread k)) AND RT_THREAD_STAT_SIGNAL_PENDING \<noteq> 0
      then (True, upd_thread (rt_current_thread k)
                    (\<lambda>c. c\<lparr>t_stat := t_stat c AND NOT RT_THREAD_STAT_SIGNAL_PENDING\<rparr>) k)
      else (False, k))"

definition rt_enter_critical :: "kern \<Rightarrow> kern" where
  "rt_enter_critical k = k\<lparr>rt_scheduler_lock_nest := rt_scheduler_lock_nest k + 1\<rparr>"

definition rt_exit_critical :: "kern \<Rightarrow> kern" where
  "rt_exit_critical k =
     (let k = k\<lparr>rt_scheduler_lock_nest := rt_scheduler_lock_nest k - 1\<rparr>
      in if sint (rt_scheduler_lock_nest k) \<le> 0
         then let k = k\<lparr>rt_scheduler_lock_nest := 0\<rparr>
              in if rt_current_thread k \<noteq> 0 then rt_schedule k else k
         else k)"

definition rt_critical_level :: "kern \<Rightarrow> u16" where
  "rt_critical_level = rt_scheduler_lock_nest"

section \<open>The lowest set bit\<close>

lemma bitmap_table:
  "\<forall>b\<in>{1..<256}. lowest_bit_bitmap ! b < 8 \<and> bit b (lowest_bit_bitmap ! b) \<and>
     (\<forall>j<lowest_bit_bitmap ! b. \<not> bit b j)"
proof -
  have "list_all (\<lambda>b. lowest_bit_bitmap ! b < 8 \<and> odd (b div 2 ^ (lowest_bit_bitmap ! b)) \<and>
          b mod 2 ^ (lowest_bit_bitmap ! b) = 0) [1..<256::nat]"
    by code_simp
  then have *: "lowest_bit_bitmap ! b < 8 \<and> odd (b div 2 ^ (lowest_bit_bitmap ! b)) \<and>
          b mod 2 ^ (lowest_bit_bitmap ! b) = 0" if "b \<in> {1..<256}" for b
    using that by (auto simp: list_all_iff)
  show ?thesis
  proof (intro ballI conjI)
    fix b :: nat assume b: "b \<in> {1..<256}"
    let ?n = "lowest_bit_bitmap ! b"
    show "?n < 8" using *[OF b] by simp
    show "bit b ?n" using *[OF b] by (simp add: bit_iff_odd)
    have "take_bit ?n b = 0" using *[OF b] by (simp add: take_bit_eq_mod)
    then show "\<forall>j<?n. \<not> bit b j" by (metis bit_take_bit_iff bit_0_eq bot_apply bot_bool_def)
  qed
qed

text \<open>One of the four bytes of a word, and the table's answer for it.\<close>

lemma bitmap_byte:
  fixes v :: u32
  assumes "take_bit 8 (drop_bit s v) \<noteq> 0" "i = lowest_bit_bitmap ! unat (take_bit 8 (drop_bit s v))"
  shows "i < 8 \<and> bit v (s + i) \<and> (\<forall>j. s \<le> j \<longrightarrow> j < s + i \<longrightarrow> \<not> bit v j)"
proof -
  let ?b = "unat (take_bit 8 (drop_bit s v))"
  have b: "?b \<in> {1..<256}"
    using assms(1) take_bit_nat_less_exp[of 8 "unat (drop_bit s v)"] unat_gt_0[of "take_bit 8 (drop_bit s v)"]
    by (simp add: unsigned_take_bit_eq Suc_le_eq)
  have bits: "bit ?b j \<longleftrightarrow> j < 8 \<and> bit v (s + j)" for j
    by (auto simp: bit_unsigned_iff bit_take_bit_iff bit_drop_bit_eq dest: bit_imp_le_length)
  have t: "i < 8" "bit ?b i" "\<forall>j<i. \<not> bit ?b j" using bitmap_table[rule_format, OF b] assms(2) by auto
  have "\<not> bit v j" if "s \<le> j" "j < s + i" for j
    using t(3)[rule_format, of "j - s"] t(1) that by (auto simp: bits)
  then show ?thesis using t bits by auto
qed

lemma mask_bytes:
  "(v::u32) AND 0xff = take_bit 8 (drop_bit 0 v)"
  "drop_bit 8 ((v::u32) AND 0xff00) = take_bit 8 (drop_bit 8 v)"
  "drop_bit 16 ((v::u32) AND 0xff0000) = take_bit 8 (drop_bit 16 v)"
  "drop_bit 24 ((v::u32) AND 0xff000000) = take_bit 8 (drop_bit 24 v)"
proof -
  have m: "(0xff::u32) = mask 8" "(0xff00::u32) = push_bit 8 (mask 8)"
    "(0xff0000::u32) = push_bit 16 (mask 8)" "(0xff000000::u32) = push_bit 24 (mask 8)"
    by (simp_all add: mask_eq_exp_minus_1 push_bit_eq_mult)
  show "(v::u32) AND 0xff = take_bit 8 (drop_bit 0 v)"
    "drop_bit 8 ((v::u32) AND 0xff00) = take_bit 8 (drop_bit 8 v)"
    "drop_bit 16 ((v::u32) AND 0xff0000) = take_bit 8 (drop_bit 16 v)"
    "drop_bit 24 ((v::u32) AND 0xff000000) = take_bit 8 (drop_bit 24 v)"
    unfolding m by (rule bit_word_eqI, auto simp: bit_simps)+
qed

lemma and_byte_zero:
  "(v::u32) AND 0xff00 = 0 \<longleftrightarrow> take_bit 8 (drop_bit 8 v) = 0"
  "(v::u32) AND 0xff0000 = 0 \<longleftrightarrow> take_bit 8 (drop_bit 16 v) = 0"
proof -
  have m: "(0xff00::u32) = push_bit 8 (mask 8)" "(0xff0000::u32) = push_bit 16 (mask 8)"
    by (simp_all add: mask_eq_exp_minus_1 push_bit_eq_mult)
  have z: "v AND push_bit s (mask 8) = push_bit s (take_bit 8 (drop_bit s v))" for s
    by (rule bit_word_eqI) (auto simp: bit_simps)
  have n: "push_bit s (take_bit 8 (drop_bit s v)) = 0 \<longleftrightarrow> take_bit 8 (drop_bit s v) = 0" if "s \<le> 24" for s
  proof
    assume "push_bit s (take_bit 8 (drop_bit s v)) = 0"
    then have "drop_bit s (push_bit s (take_bit 8 (drop_bit s v))) = 0" by simp
    moreover have "drop_bit s (push_bit s (take_bit 8 (drop_bit s v))) = take_bit 8 (drop_bit s v)"
      using that by (intro bit_word_eqI) (auto simp: bit_simps dest: bit_imp_le_length)
    ultimately show "take_bit 8 (drop_bit s v) = 0" by simp
  qed simp
  show "(v::u32) AND 0xff00 = 0 \<longleftrightarrow> take_bit 8 (drop_bit 8 v) = 0"
    "(v::u32) AND 0xff0000 = 0 \<longleftrightarrow> take_bit 8 (drop_bit 16 v) = 0"
    unfolding m z by (simp_all add: n)
qed

lemma byte_zero_bits:
  assumes "take_bit 8 (drop_bit s (v::u32)) = 0" "s \<le> j" "j < s + 8"
  shows "\<not> bit v j"
proof -
  have "\<not> bit (take_bit 8 (drop_bit s v)) (j - s)" using assms(1) by simp
  then show ?thesis using assms(2,3) by (auto simp: bit_simps)
qed

lemma rt_ffs_bit:
  assumes "v \<noteq> 0"
  shows "rt_ffs v - 1 < 32 \<and> bit v (rt_ffs v - 1) \<and> (\<forall>j<rt_ffs v - 1. \<not> bit v j)"
proof -
  let ?b = "\<lambda>s. take_bit 8 (drop_bit s v)"
  consider "?b 0 \<noteq> 0" | "?b 0 = 0" "?b 8 \<noteq> 0" | "?b 0 = 0" "?b 8 = 0" "?b 16 \<noteq> 0"
    | "?b 0 = 0" "?b 8 = 0" "?b 16 = 0" by blast
  then show ?thesis
  proof cases
    case 1 then show ?thesis using bitmap_byte[OF 1 refl] assms
      by (simp add: rt_ffs_def mask_bytes(1))
  next
    case 2
    then have "\<not> bit v j" if "j < 8" for j using byte_zero_bits[OF 2(1), of j] that by simp
    then show ?thesis using bitmap_byte[OF 2(2) refl] 2 assms
      by (auto simp: rt_ffs_def mask_bytes and_byte_zero not_le) (meson not_le)
  next
    case 3
    then have "\<not> bit v j" if "j < 16" for j
      using byte_zero_bits[OF 3(1), of j] byte_zero_bits[OF 3(2), of j] that by (cases "j < 8") auto
    then show ?thesis using bitmap_byte[OF 3(3) refl] 3 assms
      by (auto simp: rt_ffs_def mask_bytes and_byte_zero not_le) (meson not_le)
  next
    case 4
    then have lo: "\<not> bit v j" if "j < 24" for j
      using byte_zero_bits[OF 4(1), of j] byte_zero_bits[OF 4(2), of j] byte_zero_bits[OF 4(3), of j] that
      by (cases "j < 8"; cases "j < 16") auto
    have "?b 24 \<noteq> 0"
    proof
      assume "?b 24 = 0"
      then have "\<not> bit v j" for j
        using lo[of j] byte_zero_bits[of 24 v j] by (cases "j < 24"; cases "j < 32") (auto dest: bit_imp_le_length)
      then show False using assms by (simp add: bit_eq_iff)
    qed
    then show ?thesis using bitmap_byte[OF _ refl, of 24] 4 assms lo
      by (auto simp: rt_ffs_def mask_bytes and_byte_zero not_le) (meson not_le)
  qed
qed

section \<open>Selectors\<close>

lemma upd_thread_sel [simp]:
  "threads (upd_thread t f k) u = (if u = t then f (threads k t) else threads k u)"
  "timers (upd_thread t f k) = timers k"
  "rt_thread_priority_table (upd_thread t f k) = rt_thread_priority_table k"
  "rt_thread_ready_priority_group (upd_thread t f k) = rt_thread_ready_priority_group k"
  "rt_current_thread (upd_thread t f k) = rt_current_thread k"
  "rt_current_priority (upd_thread t f k) = rt_current_priority k"
  "rt_scheduler_lock_nest (upd_thread t f k) = rt_scheduler_lock_nest k"
  "rt_interrupt_nest (upd_thread t f k) = rt_interrupt_nest k"
  "rt_tick (upd_thread t f k) = rt_tick k"
  "timer_list (upd_thread t f k) = timer_list k"
  "fired (upd_thread t f k) = fired k"
  "waitq (upd_thread t f k) = waitq k"
  "rt_defunct (upd_thread t f k) = rt_defunct k"
  "stuck (upd_thread t f k) = stuck k" "ipc (upd_thread t f k) = ipc k"
  by (simp_all add: upd_thread_def)

lemma upd_timer_sel [simp]:
  "timers (upd_timer m g k) n = (if n = m then g (timers k m) else timers k n)"
  "threads (upd_timer m g k) = threads k"
  "rt_thread_priority_table (upd_timer m g k) = rt_thread_priority_table k"
  "rt_thread_ready_priority_group (upd_timer m g k) = rt_thread_ready_priority_group k"
  "rt_current_thread (upd_timer m g k) = rt_current_thread k"
  "rt_scheduler_lock_nest (upd_timer m g k) = rt_scheduler_lock_nest k"
  "rt_interrupt_nest (upd_timer m g k) = rt_interrupt_nest k"
  "rt_tick (upd_timer m g k) = rt_tick k"
  "timer_list (upd_timer m g k) = timer_list k"
  "fired (upd_timer m g k) = fired k"
  "waitq (upd_timer m g k) = waitq k"
  "rt_defunct (upd_timer m g k) = rt_defunct k"
  "stuck (upd_timer m g k) = stuck k" "ipc (upd_timer m g k) = ipc k"
  by (simp_all add: upd_timer_def)

lemma RT_ASSERT_true [simp]: "b \<Longrightarrow> RT_ASSERT b k = k"
  by (simp add: RT_ASSERT_def)

lemma with_stat_mask [simp]: "v AND 7 = v \<Longrightarrow> with_stat v s AND RT_THREAD_STAT_MASK = v"
proof -
  have "with_stat v s AND RT_THREAD_STAT_MASK = v AND RT_THREAD_STAT_MASK"
    unfolding with_stat_def by (rule bit_word_eqI) (auto simp: bit_simps)
  then show "v AND 7 = v \<Longrightarrow> ?thesis" by (simp add: RT_THREAD_STAT_MASK_def)
qed

lemma stat_consts [simp]:
  "RT_THREAD_READY AND 7 = RT_THREAD_READY" "RT_THREAD_SUSPEND AND 7 = RT_THREAD_SUSPEND"
  "RT_THREAD_RUNNING AND 7 = RT_THREAD_RUNNING"
  "RT_THREAD_READY \<noteq> RT_THREAD_SUSPEND" "RT_THREAD_READY \<noteq> RT_THREAD_RUNNING"
  "RT_THREAD_SUSPEND \<noteq> RT_THREAD_RUNNING" "RT_THREAD_SUSPEND \<noteq> RT_THREAD_READY"
  "RT_THREAD_RUNNING \<noteq> RT_THREAD_READY" "RT_THREAD_RUNNING \<noteq> RT_THREAD_SUSPEND"
  by (simp_all add: stat_defs)

section \<open>The invariant\<close>

text \<open>\<open>E\<close> exempts threads in the middle of a change: outside a critical section it is empty.
  \<open>linked\<close>: a thread is in exactly the list its state says, and bit \<open>p\<close> of the group tells
  whether threads of priority \<open>p\<close> are ready.\<close>

definition table_ok :: "kern \<Rightarrow> bool" where
  "table_ok k \<longleftrightarrow> length (rt_thread_priority_table k) = 32 \<and>
     (\<forall>p<32. distinct (rt_thread_priority_table k ! p) \<and>
        (\<forall>t\<in>set (rt_thread_priority_table k ! p). stat_of k t = RT_THREAD_READY \<and> prio k t = p) \<and>
        (bit (rt_thread_ready_priority_group k) p \<longleftrightarrow> rt_thread_priority_table k ! p \<noteq> []))"

definition states_ok :: "nat set \<Rightarrow> kern \<Rightarrow> bool" where
  "states_ok E k \<longleftrightarrow>
     (\<forall>t. t \<notin> E \<longrightarrow> stat_of k t = RT_THREAD_READY \<longrightarrow> t \<in> set (rt_thread_priority_table k ! prio k t)) \<and>
     (\<forall>t. t \<notin> E \<longrightarrow> stat_of k t = RT_THREAD_RUNNING \<longrightarrow> rt_current_thread k = t) \<and>
     (rt_current_thread k \<in> E \<or> stat_of k (rt_current_thread k) \<noteq> RT_THREAD_READY)"

definition prios_ok :: "kern \<Rightarrow> bool" where
  "prios_ok k \<longleftrightarrow>
     (\<forall>t. stat_of k t \<in> {RT_THREAD_READY, RT_THREAD_SUSPEND, RT_THREAD_RUNNING} \<longrightarrow>
        prio k t < 32 \<and> number_mask (threads k t) = push_bit (prio k t) 1)"

definition waits_ok :: "kern \<Rightarrow> bool" where
  "waits_ok k \<longleftrightarrow>
     (\<forall>q. distinct (waitq k q) \<and> (\<forall>t\<in>set (waitq k q). stat_of k t = RT_THREAD_SUSPEND)) \<and>
     (\<forall>q q' t. t \<in> set (waitq k q) \<longrightarrow> t \<in> set (waitq k q') \<longrightarrow> q = q')"

definition timers_ok :: "kern \<Rightarrow> bool" where
  "timers_ok k \<longleftrightarrow> distinct (timer_list k) \<and>
     (\<forall>m\<in>set (timer_list k). bit (tm_flag (timers k m)) 0) \<and>
     (\<forall>t. ThreadTimer t \<in> set (timer_list k) \<longrightarrow> stat_of k t = RT_THREAD_SUSPEND)"

definition kinv_but :: "nat set \<Rightarrow> kern \<Rightarrow> bool" where
  "kinv_but E k \<longleftrightarrow> table_ok k \<and> states_ok E k \<and> prios_ok k \<and> waits_ok k \<and> timers_ok k \<and> \<not> stuck k"

abbreviation kinv :: "kern \<Rightarrow> bool" where "kinv \<equiv> kinv_but {}"

definition detached :: "kern \<Rightarrow> nat \<Rightarrow> bool" where
  "detached k t \<longleftrightarrow> (\<forall>p<32. t \<notin> set (rt_thread_priority_table k ! p)) \<and> (\<forall>q. t \<notin> set (waitq k q))"

lemmas kinv_defs = kinv_but_def table_ok_def states_ok_def prios_ok_def waits_ok_def timers_ok_def

lemma kinv_mono: "kinv_but E k \<Longrightarrow> E \<subseteq> F \<Longrightarrow> kinv_but F k"
  unfolding kinv_but_def states_ok_def by blast

lemma kinv_prio:
  assumes "kinv_but E k" "stat_of k t \<in> {RT_THREAD_READY, RT_THREAD_SUSPEND, RT_THREAD_RUNNING}"
  shows "prio k t < 32" "number_mask (threads k t) = push_bit (prio k t) 1"
  using assms unfolding kinv_but_def prios_ok_def by blast+

lemma kinv_not_stuck: "kinv_but E k \<Longrightarrow> \<not> stuck k"
  by (simp add: kinv_but_def)

lemma ready_in_table:
  "kinv_but E k \<Longrightarrow> t \<notin> E \<Longrightarrow> stat_of k t = RT_THREAD_READY \<Longrightarrow>
     t \<in> set (rt_thread_priority_table k ! prio k t)"
  unfolding kinv_but_def states_ok_def by blast

lemma running_is_current:
  "kinv_but E k \<Longrightarrow> t \<notin> E \<Longrightarrow> stat_of k t = RT_THREAD_RUNNING \<Longrightarrow> rt_current_thread k = t"
  unfolding kinv_but_def states_ok_def by blast

lemma in_table:
  "kinv_but E k \<Longrightarrow> p < 32 \<Longrightarrow> t \<in> set (rt_thread_priority_table k ! p) \<Longrightarrow>
     stat_of k t = RT_THREAD_READY \<and> prio k t = p"
  unfolding kinv_but_def table_ok_def by blast

lemma in_waitq: "kinv_but E k \<Longrightarrow> t \<in> set (waitq k q) \<Longrightarrow> stat_of k t = RT_THREAD_SUSPEND"
  unfolding kinv_but_def waits_ok_def by blast

lemma group_bit:
  "kinv_but E k \<Longrightarrow> p < 32 \<Longrightarrow>
     bit (rt_thread_ready_priority_group k) p \<longleftrightarrow> rt_thread_priority_table k ! p \<noteq> []"
  unfolding kinv_but_def table_ok_def by blast

section \<open>Removing, inserting, changing a state\<close>

lemma tlist_remove_sel [simp]:
  "threads (tlist_remove t k) = threads k" "timers (tlist_remove t k) = timers k"
  "rt_thread_priority_table (tlist_remove t k) = map (removeAll t) (rt_thread_priority_table k)"
  "rt_thread_ready_priority_group (tlist_remove t k) = rt_thread_ready_priority_group k"
  "rt_current_thread (tlist_remove t k) = rt_current_thread k"
  "rt_scheduler_lock_nest (tlist_remove t k) = rt_scheduler_lock_nest k"
  "rt_interrupt_nest (tlist_remove t k) = rt_interrupt_nest k"
  "rt_tick (tlist_remove t k) = rt_tick k" "timer_list (tlist_remove t k) = timer_list k"
  "fired (tlist_remove t k) = fired k" "waitq (tlist_remove t k) q = removeAll t (waitq k q)"
  "stuck (tlist_remove t k) = stuck k" "ipc (tlist_remove t k) = ipc k"
  "stat_of (tlist_remove t k) = stat_of k" "prio (tlist_remove t k) = prio k"
  by (simp_all add: tlist_remove_def stat_of_def prio_def fun_eq_iff)

lemma schedule_remove_sel [simp]:
  "threads (rt_schedule_remove_thread t k) = threads k"
  "timers (rt_schedule_remove_thread t k) = timers k"
  "rt_current_thread (rt_schedule_remove_thread t k) = rt_current_thread k"
  "rt_scheduler_lock_nest (rt_schedule_remove_thread t k) = rt_scheduler_lock_nest k"
  "rt_tick (rt_schedule_remove_thread t k) = rt_tick k"
  "timer_list (rt_schedule_remove_thread t k) = timer_list k"
  "fired (rt_schedule_remove_thread t k) = fired k" "ipc (rt_schedule_remove_thread t k) = ipc k"
  "waitq (rt_schedule_remove_thread t k) q = removeAll t (waitq k q)"
  "rt_thread_priority_table (rt_schedule_remove_thread t k) = map (removeAll t) (rt_thread_priority_table k)"
  "stat_of (rt_schedule_remove_thread t k) = stat_of k"
  "prio (rt_schedule_remove_thread t k) = prio k"
  by (auto simp: rt_schedule_remove_thread_def RT_ASSERT_def Let_def stat_of_def prio_def fun_eq_iff)

lemma schedule_insert_sel [simp]:
  "timers (rt_schedule_insert_thread t k) = timers k"
  "rt_current_thread (rt_schedule_insert_thread t k) = rt_current_thread k"
  "rt_scheduler_lock_nest (rt_schedule_insert_thread t k) = rt_scheduler_lock_nest k"
  "rt_tick (rt_schedule_insert_thread t k) = rt_tick k"
  "timer_list (rt_schedule_insert_thread t k) = timer_list k"
  "fired (rt_schedule_insert_thread t k) = fired k" "ipc (rt_schedule_insert_thread t k) = ipc k"
  "waitq (rt_schedule_insert_thread t k) = waitq k"
  "t_error (threads (rt_schedule_insert_thread t k) u) = t_error (threads k u)"
  "event_set (threads (rt_schedule_insert_thread t k) u) = event_set (threads k u)"
  "event_info (threads (rt_schedule_insert_thread t k) u) = event_info (threads k u)"
  "prio (rt_schedule_insert_thread t k) u = prio k u"
  "stat_of (rt_schedule_insert_thread t k) u =
     (if u = t then if t = rt_current_thread k then RT_THREAD_RUNNING else RT_THREAD_READY
      else stat_of k u)"
  by (auto simp: rt_schedule_insert_thread_def RT_ASSERT_def Let_def stat_of_def prio_def)

lemma kinv_remove:
  assumes k: "kinv_but E k" and p: "prio k t < 32" "number_mask (threads k t) = push_bit (prio k t) 1"
  shows "kinv_but (insert t E) (rt_schedule_remove_thread t k)"
    "detached (rt_schedule_remove_thread t k) t"
proof -
  let ?k = "rt_schedule_remove_thread t k"
  have len: "length (rt_thread_priority_table k) = 32" using k by (simp add: kinv_defs)
  have g: "bit (rt_thread_ready_priority_group ?k) j \<longleftrightarrow>
      bit (rt_thread_ready_priority_group k) j \<and>
      (removeAll t (rt_thread_priority_table k ! prio k t) = [] \<longrightarrow> j \<noteq> prio k t)" if "j < 32" for j
    using p that len by (auto simp: rt_schedule_remove_thread_def Let_def RT_THREAD_PRIORITY_MAX_def
        bit_simps)
  have other: "removeAll t (rt_thread_priority_table k ! j) = rt_thread_priority_table k ! j"
    if "j < 32" "j \<noteq> prio k t" for j
    using k that by (intro removeAll_id) (auto simp: kinv_defs)
  have tab: "table_ok ?k"
    unfolding table_ok_def
  proof (intro conjI allI impI ballI)
    fix j :: nat assume j: "j < 32"
    show "bit (rt_thread_ready_priority_group ?k) j \<longleftrightarrow> rt_thread_priority_table ?k ! j \<noteq> []"
    proof -
      have "bit (rt_thread_ready_priority_group k) j \<longleftrightarrow> rt_thread_priority_table k ! j \<noteq> []"
        using k j by (simp add: kinv_but_def table_ok_def)
      moreover have "removeAll t [] = []" by simp
      ultimately show ?thesis using g[OF j] other[OF j] j len by (cases "j = prio k t") auto
    qed
  qed (use k len in \<open>auto simp: kinv_but_def table_ok_def distinct_removeAll\<close>)
  have st: "\<not> stuck ?k"
    using k p by (auto simp: kinv_but_def rt_schedule_remove_thread_def Let_def RT_THREAD_PRIORITY_MAX_def)
  have "u \<in> set (map (removeAll t) (rt_thread_priority_table k) ! prio k u)"
    if u: "u \<notin> insert t E" "stat_of k u = RT_THREAD_READY" for u
  proof -
    have "u \<in> set (rt_thread_priority_table k ! prio k u)" using k u by (simp add: kinv_but_def states_ok_def)
    then show ?thesis using kinv_prio(1)[OF k] u len by simp
  qed
  then have "states_ok (insert t E) ?k"
    using k by (simp add: kinv_but_def states_ok_def)
  moreover have "prios_ok ?k" "waits_ok ?k" "timers_ok ?k"
    using k unfolding kinv_but_def prios_ok_def waits_ok_def timers_ok_def by (auto simp: distinct_removeAll)
  ultimately show "kinv_but (insert t E) ?k" using tab st by (simp add: kinv_but_def)
  show "detached ?k t" using len by (auto simp: detached_def)
qed

text \<open>Changing only the state of a detached thread.\<close>

lemma kinv_upd:
  assumes k: "kinv_but (insert t E) k" and d: "detached k t"
    and f: "current_priority (f (threads k t)) = current_priority (threads k t)"
      "number_mask (f (threads k t)) = number_mask (threads k t)"
    and p: "prio k t < 32" "number_mask (threads k t) = push_bit (prio k t) 1"
    and s: "t_stat (f (threads k t)) AND RT_THREAD_STAT_MASK = v"
    and v: "v \<noteq> RT_THREAD_READY" "v = RT_THREAD_RUNNING \<Longrightarrow> t = rt_current_thread k"
      "v \<noteq> RT_THREAD_SUSPEND \<Longrightarrow> ThreadTimer t \<notin> set (timer_list k)"
  shows "kinv_but E (upd_thread t f k)"
proof -
  let ?k = "upd_thread t f k"
  have st: "stat_of ?k u = (if u = t then v else stat_of k u)" for u using s by (simp add: stat_of_def)
  have pr: "prio ?k u = prio k u" for u using f by (simp add: prio_def)
  have "table_ok ?k" using k d by (auto simp: kinv_but_def table_ok_def st pr detached_def)
  moreover have "states_ok E ?k"
    unfolding states_ok_def
  proof (intro conjI allI impI)
    have S: "states_ok (insert t E) k" using k by (simp add: kinv_but_def)
    fix u assume u: "u \<notin> E"
    show "stat_of ?k u = RT_THREAD_READY \<Longrightarrow> u \<in> set (rt_thread_priority_table ?k ! prio ?k u)"
      using S u v(1) by (simp add: states_ok_def st pr split: if_splits)
    show "stat_of ?k u = RT_THREAD_RUNNING \<Longrightarrow> rt_current_thread ?k = u"
      using S u v(2) by (simp add: states_ok_def st split: if_splits)
  next
    show "rt_current_thread ?k \<in> E \<or> stat_of ?k (rt_current_thread ?k) \<noteq> RT_THREAD_READY"
      using k v(1) by (auto simp: kinv_but_def states_ok_def st)
  qed
  moreover have "prios_ok ?k" using k p f by (auto simp: kinv_but_def prios_ok_def st pr)
  moreover have "waits_ok ?k"
    using k d unfolding kinv_but_def waits_ok_def detached_def by (simp add: st)
  moreover have "timers_ok ?k" using k v by (auto simp: kinv_but_def timers_ok_def st)
  ultimately show ?thesis using k by (simp add: kinv_but_def)
qed

text \<open>A detached thread without a running timer becomes ready.\<close>

lemma insert_ready_state:
  assumes "t \<noteq> rt_current_thread k" "prio k t < 32"
  shows "rt_thread_priority_table (rt_schedule_insert_thread t k) =
           (rt_thread_priority_table k)[prio k t := rt_thread_priority_table k ! prio k t @ [t]]"
    "rt_thread_ready_priority_group (rt_schedule_insert_thread t k) =
       rt_thread_ready_priority_group k OR number_mask (threads k t)"
    "stuck (rt_schedule_insert_thread t k) = stuck k"
  using assms by (simp_all add: rt_schedule_insert_thread_def Let_def prio_def RT_THREAD_PRIORITY_MAX_def)

lemma insert_number_mask [simp]:
  "number_mask (threads (rt_schedule_insert_thread t k) u) = number_mask (threads k u)"
  by (auto simp: rt_schedule_insert_thread_def RT_ASSERT_def Let_def)

lemma kinv_insert:
  assumes k: "kinv_but (insert t E) k" and d: "detached k t" and c: "t \<noteq> rt_current_thread k"
    and p: "prio k t < 32" "number_mask (threads k t) = push_bit (prio k t) 1"
    and m: "ThreadTimer t \<notin> set (timer_list k)"
  shows "kinv_but E (rt_schedule_insert_thread t k)"
proof -
  let ?k = "rt_schedule_insert_thread t k"
  note tab = insert_ready_state[OF c p(1)]
  have len: "length (rt_thread_priority_table k) = 32" using k by (simp add: kinv_but_def table_ok_def)
  have "table_ok ?k"
    unfolding table_ok_def
  proof (intro conjI allI impI)
    fix j :: nat assume j: "j < 32"
    have T: "distinct (rt_thread_priority_table k ! j)"
      "\<And>u. u \<in> set (rt_thread_priority_table k ! j) \<Longrightarrow> stat_of k u = RT_THREAD_READY \<and> prio k u = j"
      "bit (rt_thread_ready_priority_group k) j \<longleftrightarrow> rt_thread_priority_table k ! j \<noteq> []"
      "t \<notin> set (rt_thread_priority_table k ! j)"
      using k j d by (auto simp: kinv_but_def table_ok_def detached_def)
    show "distinct (rt_thread_priority_table ?k ! j)"
      using T len j p by (auto simp: tab nth_list_update)
    show "\<forall>u\<in>set (rt_thread_priority_table ?k ! j). stat_of ?k u = RT_THREAD_READY \<and> prio ?k u = j"
      using T len j p c by (auto simp: tab nth_list_update)
    show "bit (rt_thread_ready_priority_group ?k) j \<longleftrightarrow> rt_thread_priority_table ?k ! j \<noteq> []"
      using T(3) len j p by (auto simp: tab nth_list_update bit_simps)
  qed (use len in \<open>simp add: tab\<close>)
  moreover have "states_ok E ?k"
  proof -
    have "u \<in> set (rt_thread_priority_table ?k ! prio k u)" if u: "u \<notin> E" "stat_of ?k u = RT_THREAD_READY" for u
    proof (cases "u = t")
      case False
      then have "u \<in> set (rt_thread_priority_table k ! prio k u)" "prio k u < 32"
        using k u kinv_prio(1)[OF k, of u] by (auto simp: kinv_but_def states_ok_def)
      then show ?thesis using len p by (auto simp: tab nth_list_update)
    qed (use len p tab in simp)
    then show ?thesis using k c by (auto simp: kinv_but_def states_ok_def)
  qed
  moreover have "prios_ok ?k" using k p by (auto simp: kinv_but_def prios_ok_def)
  moreover have "waits_ok ?k"
    using k d c unfolding kinv_but_def waits_ok_def detached_def by simp metis
  moreover have "timers_ok ?k" using k m by (auto simp: kinv_but_def timers_ok_def)
  ultimately show ?thesis using k by (simp add: kinv_but_def tab)
qed

text \<open>The running thread is marked as running again.\<close>

lemma insert_current:
  "rt_schedule_insert_thread (rt_current_thread k) k = set_running (rt_current_thread k) k"
  by (simp add: rt_schedule_insert_thread_def set_running_def)

lemma detached_suspended:
  assumes "kinv_but E k" "stat_of k t \<noteq> RT_THREAD_READY" "stat_of k t \<noteq> RT_THREAD_SUSPEND"
  shows "detached k t"
  using assms by (auto simp: kinv_but_def table_ok_def waits_ok_def detached_def)

section \<open>The scheduler keeps the invariant\<close>

lemma highest_ready:
  assumes k: "kinv_but E k" and g: "rt_thread_ready_priority_group k \<noteq> 0"
    and s: "scheduler_get_highest_priority_thread k = (t, hp)"
  shows "hp < 32" "t \<in> set (rt_thread_priority_table k ! hp)"
    "rt_thread_priority_table k ! hp = t # tl (rt_thread_priority_table k ! hp)"
    "stat_of k t = RT_THREAD_READY" "prio k t = hp" "\<And>j. j < hp \<Longrightarrow> rt_thread_priority_table k ! j = []"
proof -
  have hp: "hp = rt_ffs (rt_thread_ready_priority_group k) - 1" "t = hd (rt_thread_priority_table k ! hp)"
    using s by (auto simp: scheduler_get_highest_priority_thread_def Let_def)
  note f = rt_ffs_bit[OF g, folded hp(1)]
  have T: "distinct (rt_thread_priority_table k ! j) \<and>
        (\<forall>t\<in>set (rt_thread_priority_table k ! j). stat_of k t = RT_THREAD_READY \<and> prio k t = j) \<and>
        (bit (rt_thread_ready_priority_group k) j \<longleftrightarrow> rt_thread_priority_table k ! j \<noteq> [])" if "j < 32" for j
    using k that by (simp add: kinv_but_def table_ok_def)
  show h: "hp < 32" using f by simp
  then have ne: "rt_thread_priority_table k ! hp \<noteq> []" using T f by blast
  then show t: "t \<in> set (rt_thread_priority_table k ! hp)"
    "rt_thread_priority_table k ! hp = t # tl (rt_thread_priority_table k ! hp)" by (simp_all add: hp(2))
  show "stat_of k t = RT_THREAD_READY" "prio k t = hp" using T[OF h] t by auto
  show "\<And>j. j < hp \<Longrightarrow> rt_thread_priority_table k ! j = []" using T f h by (meson less_trans)
qed

text \<open>A change of a thread that leaves its state and its priority alone.\<close>

lemma kinv_upd_same:
  assumes k: "kinv_but E k"
    and f: "current_priority (f (threads k t)) = current_priority (threads k t)"
      "number_mask (f (threads k t)) = number_mask (threads k t)"
      "t_stat (f (threads k t)) AND RT_THREAD_STAT_MASK = stat_of k t"
  shows "kinv_but E (upd_thread t f k)"
proof -
  have st: "stat_of (upd_thread t f k) u = stat_of k u" for u using f by (simp add: stat_of_def)
  have pr: "prio (upd_thread t f k) u = prio k u" for u using f by (simp add: prio_def)
  have nm: "number_mask (threads (upd_thread t f k) u) = number_mask (threads k u)" for u using f by simp
  show ?thesis using k unfolding kinv_defs st pr nm by simp
qed

lemma prio_upd_thread [simp]:
  "(\<And>c. current_priority (f c) = current_priority c) \<Longrightarrow> prio (upd_thread t f k) = prio k"
  by (auto simp: prio_def)

lemma set_running_sel [simp]:
  "stat_of (set_running t k) u = (if u = t then RT_THREAD_RUNNING else stat_of k u)"
  "prio (set_running t k) = prio k"
  "rt_current_thread (set_running t k) = rt_current_thread k"
  "waitq (set_running t k) = waitq k"
  "rt_thread_priority_table (set_running t k) = rt_thread_priority_table k"
  "rt_tick (set_running t k) = rt_tick k" "timers (set_running t k) = timers k"
  "timer_list (set_running t k) = timer_list k" "fired (set_running t k) = fired k" "ipc (set_running t k) = ipc k"
  "rt_scheduler_lock_nest (set_running t k) = rt_scheduler_lock_nest k"
  "t_error (threads (set_running t k) u) = t_error (threads k u)"
  "event_set (threads (set_running t k) u) = event_set (threads k u)"
  "event_info (threads (set_running t k) u) = event_info (threads k u)"
  by (auto simp: set_running_def stat_of_def)

lemma kinv_set_running:
  assumes "kinv_but (insert t E) k" "detached k t" "prio k t < 32"
    "number_mask (threads k t) = push_bit (prio k t) 1" "ThreadTimer t \<notin> set (timer_list k)"
    "t = rt_current_thread k"
  shows "kinv_but E (set_running t k)"
  unfolding set_running_def by (rule kinv_upd[where v = RT_THREAD_RUNNING]) (use assms in simp_all)

lemma timer_not_listed:
  "kinv_but E k \<Longrightarrow> stat_of k t \<noteq> RT_THREAD_SUSPEND \<Longrightarrow> ThreadTimer t \<notin> set (timer_list k)"
  by (auto simp: kinv_but_def timers_ok_def)

lemma kinv_stat_current: "kinv k \<Longrightarrow> stat_of k (rt_current_thread k) \<noteq> RT_THREAD_READY"
  by (simp add: kinv_but_def states_ok_def)

lemma kinv_running: "kinv k \<Longrightarrow> stat_of k t = RT_THREAD_RUNNING \<Longrightarrow> rt_current_thread k = t"
  by (simp add: kinv_but_def states_ok_def)

text \<open>Passing the processor to the ready thread \<open>t\<close>.\<close>

lemma kinv_switch_to:
  assumes k: "kinv_but {t} k" and c: "rt_current_thread k = t" and r: "stat_of k t = RT_THREAD_READY"
  shows "kinv (set_running t (rt_schedule_remove_thread t k))"
proof (rule kinv_set_running)
  note p = kinv_prio[OF k, of t, unfolded r, simplified]
  show "kinv_but (insert t {}) (rt_schedule_remove_thread t k)"
    "detached (rt_schedule_remove_thread t k) t" using kinv_remove[OF k, of t] p by auto
  show "ThreadTimer t \<notin> set (timer_list (rt_schedule_remove_thread t k))"
    using timer_not_listed[OF k, of t] r by simp
qed (use kinv_prio[OF k, of t] r c in auto)

lemma kinv_current:
  assumes "kinv k" "stat_of k (rt_current_thread k) \<noteq> RT_THREAD_RUNNING \<or> rt_current_thread k \<in> E" "t \<in> E"
  shows "kinv_but E (k\<lparr>rt_current_priority := p, rt_current_thread := t\<rparr>)"
proof -
  let ?k = "k\<lparr>rt_current_priority := p, rt_current_thread := t\<rparr>"
  have st: "stat_of ?k = stat_of k" "prio ?k = prio k" by (auto simp: stat_of_def prio_def)
  have "states_ok E ?k"
    unfolding states_ok_def st
  proof (intro conjI allI impI)
    fix u assume u: "u \<notin> E"
    show "stat_of k u = RT_THREAD_READY \<Longrightarrow> u \<in> set (rt_thread_priority_table ?k ! prio k u)"
      using ready_in_table[OF assms(1)] by simp
    assume r: "stat_of k u = RT_THREAD_RUNNING"
    then show "rt_current_thread ?k = u" using running_is_current[OF assms(1), of u] assms(2) u by auto
  qed (use assms(3) in simp)
  then show ?thesis using assms(1) unfolding kinv_but_def table_ok_def prios_ok_def waits_ok_def timers_ok_def st
    by simp
qed

lemma detached_current [simp]:
  "detached (k\<lparr>rt_current_priority := p, rt_current_thread := t\<rparr>) u = detached k u"
  by (simp add: detached_def)

lemma stat_of_current [simp]:
  "stat_of (k\<lparr>rt_current_priority := p, rt_current_thread := t\<rparr>) = stat_of k"
  "prio (k\<lparr>rt_current_priority := p, rt_current_thread := t\<rparr>) = prio k"
  by (auto simp: stat_of_def prio_def)

text \<open>The four ways through \<open>rt_schedule\<close>.\<close>

definition clear_yield :: "nat \<Rightarrow> kern \<Rightarrow> kern" where
  "clear_yield t = upd_thread t (\<lambda>c. c\<lparr>t_stat := t_stat c AND NOT RT_THREAD_STAT_YIELD\<rparr>)"

lemma clear_yield_stat [simp]: "stat_of (clear_yield t k) u = stat_of k u"
proof -
  have "(s AND NOT RT_THREAD_STAT_YIELD) AND RT_THREAD_STAT_MASK = s AND RT_THREAD_STAT_MASK" for s
  proof -
    have "NOT RT_THREAD_STAT_YIELD AND RT_THREAD_STAT_MASK = RT_THREAD_STAT_MASK"
      by (simp add: RT_THREAD_STAT_YIELD_def RT_THREAD_STAT_MASK_def)
    then show ?thesis by (simp add: and.assoc)
  qed
  then show ?thesis by (simp add: clear_yield_def stat_of_def)
qed

lemma clear_yield_sel [simp]:
  "prio (clear_yield t k) = prio k" "rt_current_thread (clear_yield t k) = rt_current_thread k"
  "waitq (clear_yield t k) = waitq k" "timers (clear_yield t k) = timers k"
  "timer_list (clear_yield t k) = timer_list k" "fired (clear_yield t k) = fired k" "ipc (clear_yield t k) = ipc k"
  "rt_tick (clear_yield t k) = rt_tick k"
  "rt_thread_priority_table (clear_yield t k) = rt_thread_priority_table k"
  "rt_scheduler_lock_nest (clear_yield t k) = rt_scheduler_lock_nest k"
  "t_error (threads (clear_yield t k) u) = t_error (threads k u)"
  "event_set (threads (clear_yield t k) u) = event_set (threads k u)"
  "event_info (threads (clear_yield t k) u) = event_info (threads k u)"
  "number_mask (threads (clear_yield t k) u) = number_mask (threads k u)"
  by (simp_all add: clear_yield_def)

lemma kinv_clear_yield: "kinv_but E k \<Longrightarrow> kinv_but E (clear_yield t k)"
  using kinv_upd_same[of E k "\<lambda>c. c\<lparr>t_stat := t_stat c AND NOT RT_THREAD_STAT_YIELD\<rparr>" t]
    clear_yield_stat[of t k t]
  by (simp add: clear_yield_def stat_of_def)

lemma rt_schedule_cases:
  assumes k: "kinv k"
  obtains (none) "rt_schedule k = k"
      "rt_scheduler_lock_nest k \<noteq> 0 \<or> (\<forall>u. stat_of k u \<noteq> RT_THREAD_READY)"
  | (keep) cur where "cur = rt_current_thread k" "stat_of k cur = RT_THREAD_RUNNING"
      "rt_schedule k = set_running cur (rt_schedule_remove_thread cur (clear_yield cur k))"
      "\<And>u. stat_of k u = RT_THREAD_READY \<Longrightarrow> prio k cur \<le> prio k u"
  | (give) cur t where "cur = rt_current_thread k" "stat_of k cur = RT_THREAD_RUNNING"
      "stat_of k t = RT_THREAD_READY" "prio k t \<le> prio k cur" "t = hd (rt_thread_priority_table k ! prio k t)"
      "\<And>u. stat_of k u = RT_THREAD_READY \<Longrightarrow> prio k t \<le> prio k u"
      "rt_schedule k = set_running t (rt_schedule_remove_thread t (rt_schedule_insert_thread cur
         ((clear_yield cur k)\<lparr>rt_current_priority := word_of_nat (prio k t), rt_current_thread := t\<rparr>)))"
  | (next_one) t where "stat_of k (rt_current_thread k) \<noteq> RT_THREAD_RUNNING"
      "stat_of k t = RT_THREAD_READY" "t = hd (rt_thread_priority_table k ! prio k t)"
      "\<And>u. stat_of k u = RT_THREAD_READY \<Longrightarrow> prio k t \<le> prio k u"
      "rt_schedule k = set_running t (rt_schedule_remove_thread t
         (k\<lparr>rt_current_priority := word_of_nat (prio k t), rt_current_thread := t\<rparr>))"
proof (cases "rt_scheduler_lock_nest k = 0 \<and> rt_thread_ready_priority_group k \<noteq> 0")
  case False
  then have e: "rt_schedule k = k" unfolding rt_schedule_def by (simp only: if_False)
  have "stat_of k u \<noteq> RT_THREAD_READY" if "rt_thread_ready_priority_group k = 0" for u
  proof
    assume r: "stat_of k u = RT_THREAD_READY"
    have "u \<in> set (rt_thread_priority_table k ! prio k u)" using ready_in_table[OF k _ r] by simp
    moreover have "prio k u < 32" using kinv_prio(1)[OF k, of u] r by simp
    ultimately have "bit (rt_thread_ready_priority_group k) (prio k u)"
      using group_bit[OF k] by auto
    then show False using that by simp
  qed
  then show thesis using none[OF e] False by blast
next
  case True
  obtain t hp where s: "scheduler_get_highest_priority_thread k = (t, hp)" by force
  note h = highest_ready[OF k _ s]
  have g: "rt_thread_ready_priority_group k \<noteq> 0" using True by simp
  have min: "hp \<le> prio k u" if "stat_of k u = RT_THREAD_READY" for u
  proof (rule ccontr)
    assume "\<not> hp \<le> prio k u"
    then have "rt_thread_priority_table k ! prio k u = []" using h(6)[OF g] by simp
    moreover have "u \<in> set (rt_thread_priority_table k ! prio k u)"
      using ready_in_table[OF k _ that] by simp
    ultimately show False by simp
  qed
  let ?cur = "rt_current_thread k"
  have ne: "t \<noteq> ?cur" using h(4)[OF g] kinv_stat_current[OF k] by metis
  have hd: "t = hd (rt_thread_priority_table k ! prio k t)" using h(3,5)[OF g] by (metis list.sel(1))
  show thesis
  proof (cases "stat_of k ?cur = RT_THREAD_RUNNING")
    case run: True
    show thesis
    proof (cases "prio k ?cur < hp \<or> prio k ?cur = hp \<and> t_stat (threads k ?cur) AND RT_THREAD_STAT_YIELD = 0")
      case keep': True
      have "rt_schedule k = set_running ?cur (rt_schedule_remove_thread ?cur (clear_yield ?cur k))"
        using True run keep' s by (simp add: rt_schedule_def clear_yield_def Let_def)
      moreover have "prio k ?cur \<le> prio k u" if "stat_of k u = RT_THREAD_READY" for u
        using keep' min[OF that] by auto
      ultimately show thesis using keep[OF refl run] by blast
    next
      case give': False
      have "rt_schedule k = set_running t (rt_schedule_remove_thread t (rt_schedule_insert_thread ?cur
         ((clear_yield ?cur k)\<lparr>rt_current_priority := word_of_nat hp, rt_current_thread := t\<rparr>)))"
        using True run give' s ne by (auto simp: rt_schedule_def clear_yield_def Let_def)
      then show thesis using give[OF refl run] h(4,5)[OF g] hd min give' by auto
    qed
  next
    case nrun: False
    have "rt_schedule k = set_running t (rt_schedule_remove_thread t
         (k\<lparr>rt_current_priority := word_of_nat hp, rt_current_thread := t\<rparr>))"
      using True nrun s ne by (simp add: rt_schedule_def Let_def)
    then show thesis using next_one[OF nrun] h(4,5)[OF g] hd min by auto
  qed
qed

lemma kinv_keep_running:
  assumes k: "kinv k" and r: "stat_of k (rt_current_thread k) = RT_THREAD_RUNNING"
  shows "kinv (set_running (rt_current_thread k) (rt_schedule_remove_thread (rt_current_thread k) k))"
proof (rule kinv_set_running)
  let ?c = "rt_current_thread k"
  note p = kinv_prio[OF k, of ?c, unfolded r, simplified]
  show "kinv_but (insert ?c {}) (rt_schedule_remove_thread ?c k)"
    "detached (rt_schedule_remove_thread ?c k) ?c" using kinv_remove[OF k, of ?c] p by auto
qed (use kinv_prio[OF k, of "rt_current_thread k"] r timer_not_listed[OF k, of "rt_current_thread k"] in auto)

lemma kinv_give_way:
  assumes k: "kinv k" and c: "cur = rt_current_thread k" "stat_of k cur = RT_THREAD_RUNNING"
    and t: "stat_of k t = RT_THREAD_READY"
  shows "kinv (set_running t (rt_schedule_remove_thread t (rt_schedule_insert_thread cur
           (k\<lparr>rt_current_priority := p, rt_current_thread := t\<rparr>))))"
proof -
  let ?k1 = "k\<lparr>rt_current_priority := p, rt_current_thread := t\<rparr>"
  have ne: "cur \<noteq> t" using c t by auto
  have k1: "kinv_but (insert cur {t}) ?k1" using kinv_current[OF k, of "insert cur {t}" t p] c by simp
  have d: "detached ?k1 cur" using detached_suspended[OF k, of cur] c by simp
  have "kinv_but {t} (rt_schedule_insert_thread cur ?k1)"
    by (rule kinv_insert[OF k1 d])
      (use ne c kinv_prio[OF k, of cur] timer_not_listed[OF k, of cur] in auto)
  then show ?thesis by (rule kinv_switch_to) (use t ne in auto)
qed

theorem kinv_rt_schedule:
  assumes k: "kinv k" shows "kinv (rt_schedule k)"
  using k
proof (cases rule: rt_schedule_cases)
  case none then show ?thesis using k by simp
next
  case (keep cur) then show ?thesis using kinv_keep_running[OF kinv_clear_yield[OF k]] by simp
next
  case (give cur t)
  then show ?thesis using kinv_give_way[OF kinv_clear_yield[OF k, of cur], of cur t "word_of_nat (prio k t)"]
    by simp
next
  case (next_one t)
  then show ?thesis using kinv_switch_to[OF kinv_current[OF k, of "{t}" t "word_of_nat (prio k t)"]] by simp
qed

text \<open>What a call of the scheduler leaves alone.\<close>

lemma removeAll_waitq:
  "kinv_but E k \<Longrightarrow> stat_of k t \<noteq> RT_THREAD_SUSPEND \<Longrightarrow> removeAll t (waitq k q) = waitq k q"
  using in_waitq by (metis removeAll_id)

lemma set_running_number_mask [simp]: "number_mask (threads (set_running t k) u) = number_mask (threads k u)"
  by (simp add: set_running_def)

lemma rt_schedule_frame:
  assumes "kinv k"
  shows "waitq (rt_schedule k) q = waitq k q \<and> prio (rt_schedule k) = prio k \<and>
    timers (rt_schedule k) = timers k \<and> timer_list (rt_schedule k) = timer_list k \<and>
    fired (rt_schedule k) = fired k \<and> ipc (rt_schedule k) = ipc k \<and> rt_tick (rt_schedule k) = rt_tick k \<and>
    rt_scheduler_lock_nest (rt_schedule k) = rt_scheduler_lock_nest k \<and>
    t_error (threads (rt_schedule k) u) = t_error (threads k u) \<and>
    event_set (threads (rt_schedule k) u) = event_set (threads k u) \<and>
    event_info (threads (rt_schedule k) u) = event_info (threads k u) \<and>
    (stat_of (rt_schedule k) u = RT_THREAD_SUSPEND \<longleftrightarrow> stat_of k u = RT_THREAD_SUSPEND)"
  using assms by (cases rule: rt_schedule_cases) (auto simp: removeAll_waitq[OF assms])

lemma rt_schedule_keeps:
  assumes "kinv k"
  shows "waitq (rt_schedule k) = waitq k" "prio (rt_schedule k) = prio k"
    "timers (rt_schedule k) = timers k" "timer_list (rt_schedule k) = timer_list k"
    "fired (rt_schedule k) = fired k" "ipc (rt_schedule k) = ipc k" "rt_tick (rt_schedule k) = rt_tick k"
    "rt_scheduler_lock_nest (rt_schedule k) = rt_scheduler_lock_nest k"
    "t_error (threads (rt_schedule k) u) = t_error (threads k u)"
    "event_set (threads (rt_schedule k) u) = event_set (threads k u)"
    "event_info (threads (rt_schedule k) u) = event_info (threads k u)"
    "stat_of (rt_schedule k) u = RT_THREAD_SUSPEND \<longleftrightarrow> stat_of k u = RT_THREAD_SUSPEND"
  using rt_schedule_frame[OF assms] by (auto simp: fun_eq_iff)

text \<open>Afterwards the running thread has the highest priority of all that can run.\<close>

lemma rt_schedule_highest:
  assumes k: "kinv k" and l: "rt_scheduler_lock_nest k = 0"
    and r: "stat_of k (rt_current_thread k) = RT_THREAD_RUNNING \<or> (\<exists>u. stat_of k u = RT_THREAD_READY)"
  shows "stat_of (rt_schedule k) (rt_current_thread (rt_schedule k)) = RT_THREAD_RUNNING \<and>
    (\<forall>u. stat_of (rt_schedule k) u = RT_THREAD_READY \<longrightarrow>
       prio (rt_schedule k) (rt_current_thread (rt_schedule k)) \<le> prio (rt_schedule k) u)"
  using k
proof (cases rule: rt_schedule_cases)
  case none then show ?thesis using l r by auto
qed auto

text \<open>Threads that can run, and what every step of the kernel but a blocking call keeps of
  them: the processor is not left to a thread that cannot run, nobody stops being able to
  run, and \<open>RT_NULL\<close> stays no thread.\<close>

definition awake :: "kern \<Rightarrow> nat \<Rightarrow> bool" where
  "awake k t \<longleftrightarrow> stat_of k t = RT_THREAD_READY \<or> stat_of k t = RT_THREAD_RUNNING"

definition lively :: "kern \<Rightarrow> kern \<Rightarrow> bool" where
  "lively k k' \<longleftrightarrow> rt_scheduler_lock_nest k' = rt_scheduler_lock_nest k \<and>
     (stat_of k (rt_current_thread k) = RT_THREAD_RUNNING \<longrightarrow>
        stat_of k' (rt_current_thread k') = RT_THREAD_RUNNING) \<and>
     (\<forall>t. awake k t \<longrightarrow> awake k' t) \<and>
     (stat_of k 0 = RT_THREAD_INIT \<longrightarrow> stat_of k' 0 = RT_THREAD_INIT)"

lemma lively_refl [simp]: "lively k k" by (simp add: lively_def)

lemma lively_trans: "lively k k' \<Longrightarrow> lively k' k'' \<Longrightarrow> lively k k''" by (auto simp: lively_def)

lemma lively_same:
  "stat_of k' = stat_of k \<Longrightarrow> rt_current_thread k' = rt_current_thread k \<Longrightarrow>
     rt_scheduler_lock_nest k' = rt_scheduler_lock_nest k \<Longrightarrow> lively k k'"
  by (simp add: lively_def awake_def)

lemma lively_schedule:
  assumes k: "kinv k" shows "lively k (rt_schedule k)"
proof -
  have "awake (rt_schedule k) t" if "awake k t" for t
    using k that by (cases rule: rt_schedule_cases) (auto simp: awake_def)
  moreover have "stat_of (rt_schedule k) (rt_current_thread (rt_schedule k)) = RT_THREAD_RUNNING"
    if "stat_of k (rt_current_thread k) = RT_THREAD_RUNNING"
    using k that by (cases rule: rt_schedule_cases) auto
  moreover have "stat_of (rt_schedule k) 0 = RT_THREAD_INIT" if "stat_of k 0 = RT_THREAD_INIT"
    using k that by (cases rule: rt_schedule_cases) (auto simp: stat_defs intro!: gr0I)
  ultimately show ?thesis using rt_schedule_keeps(8)[OF k] by (simp add: lively_def)
qed

text \<open>The processor does not stay with a thread that has gone to sleep, if any can run.\<close>

lemma rt_schedule_runs:
  assumes "kinv k" "rt_scheduler_lock_nest k = 0" "awake k u"
  shows "stat_of (rt_schedule k) (rt_current_thread (rt_schedule k)) = RT_THREAD_RUNNING"
proof -
  have "stat_of k (rt_current_thread k) = RT_THREAD_RUNNING \<or> (\<exists>u. stat_of k u = RT_THREAD_READY)"
    using assms(3) kinv_running[OF assms(1), of u] unfolding awake_def by metis
  then show ?thesis using rt_schedule_highest[OF assms(1,2)] by blast
qed

end
