(* ===== verification/KTimer.thy ===== *)
theory KTimer
  imports Kern RtDef
begin

text \<open>
  src/rt-thread/src/timer.c and the tick of clock.c: the list of running timers in the order
  of their timeouts, on a 32-bit tick that wraps around, with one level of the skip list and
  without soft timers, as rtconfig.h has it.  A timer inside a thread calls
  \<open>_thread_timeout\<close> of thread.c; what an application's timer calls is the argument
  \<open>user\<close>.  The lemmas show that the list stays in the order of expiry, that
  \<open>rt_timer_check\<close> ends, and that it fires exactly the timers that are due.
\<close>

definition RT_TICK_MAX :: u32 where "RT_TICK_MAX = 0xffffffff"
definition RT_TIMER_FLAG_ACTIVATED :: u8 where "RT_TIMER_FLAG_ACTIVATED = 1"
definition RT_TIMER_FLAG_PERIODIC :: u8 where "RT_TIMER_FLAG_PERIODIC = 2"

section \<open>Ticks\<close>

definition rt_tick_get :: "kern \<Rightarrow> u32" where "rt_tick_get = rt_tick"

definition rt_tick_set :: "u32 \<Rightarrow> kern \<Rightarrow> kern" where
  "rt_tick_set t k = k\<lparr>rt_tick := t\<rparr>"

text \<open>\<open>ms\<close> is a signed 32-bit integer; \<open>RT_WAITING_FOREVER\<close> is -1.\<close>

definition rt_tick_from_millisecond :: "u32 \<Rightarrow> u32" where
  "rt_tick_from_millisecond ms =
     (if sint ms < 0 then word_of_int (-1)
      else word_of_int (int RT_TICK_PER_SECOND * (sint ms div 1000)) +
           word_of_int ((int RT_TICK_PER_SECOND * (sint ms mod 1000) + 999) div 1000))"

definition rt_tick_get_millisecond :: "kern \<Rightarrow> u32" where
  "rt_tick_get_millisecond k = rt_tick k * word_of_int (1000 div int RT_TICK_PER_SECOND)"

section \<open>Timers\<close>

definition timer_remove :: "tmr \<Rightarrow> kern \<Rightarrow> kern" where
  "timer_remove m k = k\<lparr>timer_list := removeAll m (timer_list k), fired := removeAll m (fired k)\<rparr>"

definition set_flag :: "u8 \<Rightarrow> timer_cb \<Rightarrow> timer_cb" where
  "set_flag b c = c\<lparr>tm_flag := tm_flag c OR b\<rparr>"

definition clear_flag :: "u8 \<Rightarrow> timer_cb \<Rightarrow> timer_cb" where
  "clear_flag b c = c\<lparr>tm_flag := tm_flag c AND NOT b\<rparr>"

definition timer_init :: "tmr \<Rightarrow> u32 \<Rightarrow> u8 \<Rightarrow> kern \<Rightarrow> kern" where
  "timer_init m time flag =
     upd_timer m (\<lambda>c. \<lparr>tm_flag = flag AND NOT RT_TIMER_FLAG_ACTIVATED, init_tick = time, timeout_tick = 0\<rparr>)"

definition rt_timer_init :: "tmr \<Rightarrow> u32 \<Rightarrow> u8 \<Rightarrow> kern \<Rightarrow> kern" where
  "rt_timer_init m time flag k = timer_init m time flag (RT_ASSERT (time < RT_TICK_MAX div 2) k)"

definition rt_timer_detach :: "tmr \<Rightarrow> kern \<Rightarrow> kern" where
  "rt_timer_detach m k = upd_timer m (clear_flag RT_TIMER_FLAG_ACTIVATED) (timer_remove m k)"

text \<open>The search stops before the first timer that expires later; timers with the same
  timeout stay in the order they were started.\<close>

definition expires_later :: "u32 \<Rightarrow> u32 \<Rightarrow> bool" where
  "expires_later t t' \<longleftrightarrow> t' - t \<noteq> 0 \<and> t' - t < RT_TICK_MAX div 2"

definition insert_timer :: "tmr \<Rightarrow> kern \<Rightarrow> tmr list" where
  "insert_timer m k =
     (let stays = (\<lambda>n. \<not> expires_later (timeout_tick (timers k m)) (timeout_tick (timers k n)))
      in takeWhile stays (timer_list k) @ m # dropWhile stays (timer_list k))"

definition rt_timer_start :: "tmr \<Rightarrow> kern \<Rightarrow> kern" where
  "rt_timer_start m k =
     (let k = upd_timer m (clear_flag RT_TIMER_FLAG_ACTIVATED) (timer_remove m k);
          k = upd_timer m (\<lambda>c. c\<lparr>timeout_tick := rt_tick k + init_tick c\<rparr>) k;
          k = k\<lparr>timer_list := insert_timer m k\<rparr>
      in upd_timer m (set_flag RT_TIMER_FLAG_ACTIVATED) k)"

definition rt_timer_stop :: "tmr \<Rightarrow> kern \<Rightarrow> int \<times> kern" where
  "rt_timer_stop m k =
     (if tm_flag (timers k m) AND RT_TIMER_FLAG_ACTIVATED = 0 then (- RT_ERROR, k)
      else (RT_EOK, upd_timer m (clear_flag RT_TIMER_FLAG_ACTIVATED) (timer_remove m k)))"

text \<open>The commands in the order of rtdef.h.  \<open>RT_TIMER_CTRL_GET_STATE\<close> has no \<open>break\<close>: it
  stores the state and then the remaining time over it.\<close>

definition rt_timer_control :: "tmr \<Rightarrow> int \<Rightarrow> u32 \<Rightarrow> kern \<Rightarrow> u32 \<times> kern" where
  "rt_timer_control m cmd arg k =
     (if cmd = 1 then (init_tick (timers k m), k)
      else if cmd = 0 then (arg, upd_timer m (\<lambda>c. c\<lparr>init_tick := arg\<rparr>) k)
      else if cmd = 2 then (arg, upd_timer m (clear_flag RT_TIMER_FLAG_PERIODIC) k)
      else if cmd = 3 then (arg, upd_timer m (set_flag RT_TIMER_FLAG_PERIODIC) k)
      else if cmd = 4
      then (let arg = (if tm_flag (timers k m) AND RT_TIMER_FLAG_ACTIVATED \<noteq> 0 then 1 else 0 :: u32);
                arg = timeout_tick (timers k m)
            in (arg, k))
      else if cmd = 5 then (timeout_tick (timers k m), k)
      else (arg, k))"

definition rt_timer_next_timeout_tick :: "kern \<Rightarrow> u32" where
  "rt_timer_next_timeout_tick k =
     (case timer_list k of [] \<Rightarrow> RT_TICK_MAX | m # _ \<Rightarrow> timeout_tick (timers k m))"

definition rt_system_timer_init :: "kern \<Rightarrow> kern" where
  "rt_system_timer_init k = k\<lparr>timer_list := []\<rparr>"

section \<open>Expiry\<close>

text \<open>\<open>_thread_timeout\<close> of thread.c; its parameter is the thread the timer is a part of.\<close>

definition thread_timeout :: "nat \<Rightarrow> kern \<Rightarrow> kern" where
  "thread_timeout t k =
     (let k = RT_ASSERT (stat_of k t = RT_THREAD_SUSPEND) k;
          k = upd_thread t (\<lambda>c. c\<lparr>t_error := - RT_ETIMEOUT\<rparr>) k
      in rt_schedule (rt_schedule_insert_thread t (tlist_remove t k)))"

definition timeout_func :: "(nat \<Rightarrow> kern \<Rightarrow> kern) \<Rightarrow> tmr \<Rightarrow> kern \<Rightarrow> kern" where
  "timeout_func user m = (case m of ThreadTimer t \<Rightarrow> thread_timeout t | UserTimer n \<Rightarrow> user n)"

text \<open>One turn of the loop: the first timer is taken off the list, its function is called, and
  a periodic timer that the function left alone is started again.\<close>

definition expired :: "u32 \<Rightarrow> kern \<Rightarrow> tmr \<Rightarrow> bool" where
  "expired now k m \<longleftrightarrow> now - timeout_tick (timers k m) < RT_TICK_MAX div 2"

definition fire_timer :: "(nat \<Rightarrow> kern \<Rightarrow> kern) \<Rightarrow> tmr \<Rightarrow> kern \<Rightarrow> kern" where
  "fire_timer user m k =
     (let k = timer_remove m k;
          k = (if tm_flag (timers k m) AND RT_TIMER_FLAG_PERIODIC = 0
               then upd_timer m (clear_flag RT_TIMER_FLAG_ACTIVATED) k else k);
          k = k\<lparr>fired := m # fired k\<rparr>;
          k = timeout_func user m k
      in if fired k = [] then k
         else let k = k\<lparr>fired := removeAll m (fired k), timer_list := removeAll m (timer_list k)\<rparr>
              in if tm_flag (timers k m) AND RT_TIMER_FLAG_PERIODIC \<noteq> 0 \<and>
                    tm_flag (timers k m) AND RT_TIMER_FLAG_ACTIVATED \<noteq> 0
                 then rt_timer_start m (upd_timer m (clear_flag RT_TIMER_FLAG_ACTIVATED) k)
                 else k)"

partial_function (option) timer_check_loop :: "(nat \<Rightarrow> kern \<Rightarrow> kern) \<Rightarrow> u32 \<Rightarrow> kern \<Rightarrow> kern option" where
  "timer_check_loop user now k =
     (case timer_list k of
        [] \<Rightarrow> Some k
      | m # _ \<Rightarrow> if expired now k m
                 then let k = fire_timer user m k in timer_check_loop user (rt_tick k) k
                 else Some k)"

definition rt_timer_check :: "(nat \<Rightarrow> kern \<Rightarrow> kern) \<Rightarrow> kern \<Rightarrow> kern option" where
  "rt_timer_check user k = timer_check_loop user (rt_tick k) (k\<lparr>fired := []\<rparr>)"

text \<open>The tick interrupt.  The time slice of the running thread ends when its count reaches 0.\<close>

definition rt_tick_increase :: "(nat \<Rightarrow> kern \<Rightarrow> kern) \<Rightarrow> kern \<Rightarrow> kern option" where
  "rt_tick_increase user k =
     (let k = k\<lparr>rt_tick := rt_tick k + 1\<rparr>;
          t = rt_current_thread k;
          k = upd_thread t (\<lambda>c. c\<lparr>remaining_tick := remaining_tick c - 1\<rparr>) k;
          k = (if remaining_tick (threads k t) = 0
               then rt_schedule (upd_thread t (\<lambda>c. c\<lparr>remaining_tick := t_init_tick c,
                      t_stat := t_stat c OR RT_THREAD_STAT_YIELD\<rparr>) k)
               else k)
      in rt_timer_check user k)"

section \<open>The invariant\<close>

lemma flag_bits [simp]:
  "w AND RT_TIMER_FLAG_ACTIVATED = 0 \<longleftrightarrow> \<not> bit w 0"
  "w AND RT_TIMER_FLAG_PERIODIC = 0 \<longleftrightarrow> \<not> bit w (Suc 0)"
  using and_exp_eq_0_iff_not_bit[of w 0] and_exp_eq_0_iff_not_bit[of w 1]
  by (simp_all add: RT_TIMER_FLAG_ACTIVATED_def RT_TIMER_FLAG_PERIODIC_def)

lemma flag_upd [simp]:
  "bit (tm_flag (set_flag RT_TIMER_FLAG_ACTIVATED c)) 0"
  "bit (tm_flag (set_flag RT_TIMER_FLAG_PERIODIC c)) 0 = bit (tm_flag c) 0"
  "bit (tm_flag (set_flag RT_TIMER_FLAG_ACTIVATED c)) (Suc 0) = bit (tm_flag c) (Suc 0)"
  "\<not> bit (tm_flag (clear_flag RT_TIMER_FLAG_ACTIVATED c)) 0"
  "bit (tm_flag (clear_flag RT_TIMER_FLAG_ACTIVATED c)) (Suc 0) = bit (tm_flag c) (Suc 0)"
  "bit (tm_flag (clear_flag RT_TIMER_FLAG_PERIODIC c)) 0 = bit (tm_flag c) 0"
  "init_tick (set_flag b c) = init_tick c" "init_tick (clear_flag b c) = init_tick c"
  "timeout_tick (set_flag b c) = timeout_tick c" "timeout_tick (clear_flag b c) = timeout_tick c"
  by (auto simp: set_flag_def clear_flag_def RT_TIMER_FLAG_ACTIVATED_def RT_TIMER_FLAG_PERIODIC_def
      bit_simps)

lemma timer_remove_sel [simp]:
  "threads (timer_remove m k) = threads k" "timers (timer_remove m k) = timers k"
  "timer_list (timer_remove m k) = removeAll m (timer_list k)"
  "fired (timer_remove m k) = removeAll m (fired k)"
  "waitq (timer_remove m k) = waitq k" "ipc (timer_remove m k) = ipc k"
  "rt_tick (timer_remove m k) = rt_tick k" "rt_current_thread (timer_remove m k) = rt_current_thread k"
  "rt_thread_priority_table (timer_remove m k) = rt_thread_priority_table k"
  "rt_scheduler_lock_nest (timer_remove m k) = rt_scheduler_lock_nest k"
  "stat_of (timer_remove m k) = stat_of k" "prio (timer_remove m k) = prio k"
  "detached (timer_remove m k) = detached k"
  by (auto simp: timer_remove_def stat_of_def prio_def detached_def fun_eq_iff)

text \<open>Everything but the timers: two states that agree on it.\<close>

definition same_threads :: "kern \<Rightarrow> kern \<Rightarrow> bool" where
  "same_threads k k' \<longleftrightarrow> threads k' = threads k \<and> waitq k' = waitq k \<and> ipc k' = ipc k \<and>
     rt_thread_priority_table k' = rt_thread_priority_table k \<and>
     rt_thread_ready_priority_group k' = rt_thread_ready_priority_group k \<and>
     rt_current_thread k' = rt_current_thread k \<and> stuck k' = stuck k \<and>
     rt_scheduler_lock_nest k' = rt_scheduler_lock_nest k \<and> rt_tick k' = rt_tick k"

lemma same_threadsD:
  assumes "same_threads k k'"
  shows "threads k' = threads k" "waitq k' = waitq k" "ipc k' = ipc k" "rt_tick k' = rt_tick k"
    "rt_thread_priority_table k' = rt_thread_priority_table k"
    "rt_current_thread k' = rt_current_thread k" "stuck k' = stuck k"
    "rt_scheduler_lock_nest k' = rt_scheduler_lock_nest k"
    "stat_of k' = stat_of k" "prio k' = prio k" "detached k' = detached k"
  using assms by (auto simp: same_threads_def stat_of_def prio_def detached_def fun_eq_iff)

lemma kinv_same:
  assumes "same_threads k k'" "kinv_but E k" "timers_ok k'" shows "kinv_but E k'"
  using assms(2,3) same_threadsD[OF assms(1)] assms(1)
  by (simp add: kinv_but_def table_ok_def states_ok_def prios_ok_def waits_ok_def same_threads_def)

lemma rt_timer_stop_state:
  "same_threads k (snd (rt_timer_stop m k))"
  "kinv_but E k \<Longrightarrow> timer_list (snd (rt_timer_stop m k)) = removeAll m (timer_list k)"
  "kinv_but E k \<Longrightarrow> timers_ok (snd (rt_timer_stop m k))"
proof -
  show "same_threads k (snd (rt_timer_stop m k))"
    by (simp add: same_threads_def rt_timer_stop_def timer_remove_def upd_timer_def)
  have *: "removeAll m (timer_list k) = timer_list k" if "kinv_but E k" "\<not> bit (tm_flag (timers k m)) 0"
    using that by (intro removeAll_id) (auto simp: kinv_but_def timers_ok_def)
  then show "kinv_but E k \<Longrightarrow> timer_list (snd (rt_timer_stop m k)) = removeAll m (timer_list k)"
    by (auto simp: rt_timer_stop_def)
  show "kinv_but E k \<Longrightarrow> timers_ok (snd (rt_timer_stop m k))"
    by (auto simp: kinv_but_def timers_ok_def rt_timer_stop_def distinct_removeAll stat_of_def)
qed

lemma kinv_timer_stop: "kinv_but E k \<Longrightarrow> kinv_but E (snd (rt_timer_stop m k))"
  using kinv_same rt_timer_stop_state by blast

lemma set_insert_timer: "set (insert_timer m k) = insert m (set (timer_list k))"
  by (auto simp: insert_timer_def Let_def dest: set_takeWhileD set_dropWhileD)
    (metis Un_iff set_append takeWhile_dropWhile_id)

lemma distinct_insert_timer: "distinct (timer_list k) \<Longrightarrow> m \<notin> set (timer_list k) \<Longrightarrow> distinct (insert_timer m k)"
proof -
  assume d: "distinct (timer_list k)" and m: "m \<notin> set (timer_list k)"
  have "distinct (takeWhile P (timer_list k) @ m # dropWhile P (timer_list k))" for P
  proof -
    have "distinct (takeWhile P (timer_list k) @ dropWhile P (timer_list k))" using d by simp
    then show ?thesis using m by (auto simp del: takeWhile_dropWhile_id dest: set_takeWhileD set_dropWhileD)
  qed
  then show ?thesis by (simp add: insert_timer_def Let_def)
qed

lemma rt_timer_start_state:
  "same_threads k (rt_timer_start m k)"
  "set (timer_list (rt_timer_start m k)) = insert m (set (timer_list k))"
  by (simp_all add: same_threads_def rt_timer_start_def timer_remove_def upd_timer_def Let_def
      set_insert_timer insert_absorb)

lemma kinv_timer_start:
  assumes k: "kinv_but E k" and s: "\<And>t. m = ThreadTimer t \<Longrightarrow> stat_of k t = RT_THREAD_SUSPEND"
  shows "kinv_but E (rt_timer_start m k)"
proof (rule kinv_same[OF rt_timer_start_state(1) k])
  let ?k = "rt_timer_start m k"
  have T: "distinct (timer_list k)" "\<And>n. n \<in> set (timer_list k) \<Longrightarrow> bit (tm_flag (timers k n)) 0"
    "\<And>t. ThreadTimer t \<in> set (timer_list k) \<Longrightarrow> stat_of k t = RT_THREAD_SUSPEND"
    using k by (auto simp: kinv_but_def timers_ok_def)
  have "distinct (timer_list ?k)"
    using T(1) by (auto simp: rt_timer_start_def Let_def distinct_removeAll intro: distinct_insert_timer)
  moreover have "bit (tm_flag (timers ?k n)) 0" if "n \<in> set (timer_list ?k)" for n
    using that T(2)[of n] rt_timer_start_state(2)[of m k] by (cases "n = m") (auto simp: rt_timer_start_def Let_def)
  moreover have "stat_of ?k t = RT_THREAD_SUSPEND" if "ThreadTimer t \<in> set (timer_list ?k)" for t
    using that T(3)[of t] s[of t] rt_timer_start_state(2)[of m k] same_threadsD(9)[OF rt_timer_start_state(1)]
    by auto
  ultimately show "timers_ok ?k" by (auto simp: timers_ok_def)
qed

lemma kinv_tlist_remove:
  assumes k: "kinv_but E k" and s: "stat_of k t \<noteq> RT_THREAD_READY"
  shows "kinv_but E (tlist_remove t k)" "detached (tlist_remove t k) t"
proof -
  have len: "length (rt_thread_priority_table k) = 32" using k by (simp add: kinv_but_def table_ok_def)
  have "t \<notin> set (rt_thread_priority_table k ! i)" if "i < 32" for i using in_table[OF k that] s by metis
  then have "map (removeAll t) (rt_thread_priority_table k) = rt_thread_priority_table k"
    using len by (intro nth_equalityI) simp_all
  then have e: "rt_thread_priority_table (tlist_remove t k) = rt_thread_priority_table k" by simp
  have "waits_ok (tlist_remove t k)"
    using k by (auto simp: kinv_but_def waits_ok_def distinct_removeAll)
  then show "kinv_but E (tlist_remove t k)"
    using k by (simp add: kinv_but_def table_ok_def states_ok_def prios_ok_def timers_ok_def e
        del: tlist_remove_sel(3))
  show "detached (tlist_remove t k) t" using len by (auto simp: detached_def)
qed

text \<open>A suspended thread whose timer is stopped is taken out of its waiting list and made
  ready; if it had not yet given up the processor it runs on.\<close>

lemma kinv_wake:
  assumes k: "kinv k" and s: "stat_of k t = RT_THREAD_SUSPEND" and m: "ThreadTimer t \<notin> set (timer_list k)"
  shows "kinv (rt_schedule_insert_thread t (tlist_remove t k))"
proof -
  let ?k = "tlist_remove t k"
  have r: "kinv ?k" "detached ?k t" using kinv_tlist_remove[OF k, of t] s by auto
  note p = kinv_prio[OF k, of t, unfolded s, simplified]
  show ?thesis
  proof (cases "t = rt_current_thread k")
    case True
    have "rt_schedule_insert_thread t ?k = set_running t ?k" using True insert_current[of ?k] by simp
    moreover have "kinv (set_running t ?k)"
      by (rule kinv_set_running) (use r p m True kinv_mono[OF r(1)] in auto)
    ultimately show ?thesis by simp
  next
    case False
    show ?thesis by (rule kinv_insert) (use r p m False kinv_mono[OF r(1)] in auto)
  qed
qed

lemma kinv_set_error: "kinv_but E (upd_thread t (\<lambda>c. c\<lparr>t_error := e\<rparr>) k) = kinv_but E k"
proof -
  have "stat_of (upd_thread t (\<lambda>c. c\<lparr>t_error := e\<rparr>) k) = stat_of k" by (auto simp: stat_of_def)
  moreover have "number_mask (threads (upd_thread t (\<lambda>c. c\<lparr>t_error := e\<rparr>) k) u) = number_mask (threads k u)" for u
    by simp
  ultimately show ?thesis
    unfolding kinv_but_def table_ok_def states_ok_def prios_ok_def waits_ok_def timers_ok_def
    by (simp del: upd_thread_sel(1))
qed

lemma stat_of_set_error [simp]: "stat_of (upd_thread t (\<lambda>c. c\<lparr>t_error := e\<rparr>) k) = stat_of k"
  by (auto simp: stat_of_def)

lemma kinv_thread_timeout:
  assumes k: "kinv k" and s: "stat_of k t = RT_THREAD_SUSPEND" and m: "ThreadTimer t \<notin> set (timer_list k)"
  shows "kinv (thread_timeout t k)"
proof -
  have "kinv (upd_thread t (\<lambda>c. c\<lparr>t_error := - RT_ETIMEOUT\<rparr>) k)" using k by (simp add: kinv_set_error)
  from kinv_wake[OF this, of t] show ?thesis
    using s m by (simp add: thread_timeout_def Let_def kinv_rt_schedule)
qed

text \<open>What the time-out of a thread leaves alone.\<close>

lemma thread_timeout_keeps:
  assumes k: "kinv k" and s: "stat_of k t = RT_THREAD_SUSPEND" and m: "ThreadTimer t \<notin> set (timer_list k)"
  shows "timers (thread_timeout t k) = timers k" "timer_list (thread_timeout t k) = timer_list k"
    "fired (thread_timeout t k) = fired k" "rt_tick (thread_timeout t k) = rt_tick k"
    "ipc (thread_timeout t k) = ipc k"
    "waitq (thread_timeout t k) q = removeAll t (waitq k q)"
    "stat_of (thread_timeout t k) u = RT_THREAD_SUSPEND \<longleftrightarrow> u \<noteq> t \<and> stat_of k u = RT_THREAD_SUSPEND"
    "t_error (threads (thread_timeout t k) u) = (if u = t then - RT_ETIMEOUT else t_error (threads k u))"
proof -
  let ?k = "upd_thread t (\<lambda>c. c\<lparr>t_error := - RT_ETIMEOUT\<rparr>) k"
  have w: "kinv (rt_schedule_insert_thread t (tlist_remove t ?k))"
    by (rule kinv_wake) (use k s m in \<open>simp_all add: kinv_set_error\<close>)
  have e: "thread_timeout t k = rt_schedule (rt_schedule_insert_thread t (tlist_remove t ?k))"
    using s by (simp add: thread_timeout_def Let_def)
  show "timers (thread_timeout t k) = timers k" "timer_list (thread_timeout t k) = timer_list k"
    "fired (thread_timeout t k) = fired k" "rt_tick (thread_timeout t k) = rt_tick k"
    "ipc (thread_timeout t k) = ipc k"
    "waitq (thread_timeout t k) q = removeAll t (waitq k q)"
    "stat_of (thread_timeout t k) u = RT_THREAD_SUSPEND \<longleftrightarrow> u \<noteq> t \<and> stat_of k u = RT_THREAD_SUSPEND"
    "t_error (threads (thread_timeout t k) u) = (if u = t then - RT_ETIMEOUT else t_error (threads k u))"
    unfolding e using rt_schedule_keeps[OF w] by auto
qed

text \<open>\<open>frame k k'\<close>: an operation that changes no object and makes no thread wait.\<close>

definition frame :: "kern \<Rightarrow> kern \<Rightarrow> bool" where
  "frame k k' \<longleftrightarrow> kinv k' \<and> ipc k' = ipc k \<and> (\<forall>q. set (waitq k' q) \<subseteq> set (waitq k q)) \<and>
     (\<forall>u. event_set (threads k' u) = event_set (threads k u) \<and>
          event_info (threads k' u) = event_info (threads k u))"

lemma frame_trans: "frame k k' \<Longrightarrow> frame k' k'' \<Longrightarrow> frame k k''"
  unfolding frame_def by (metis subset_trans)

lemma frame_schedule: "kinv k \<Longrightarrow> frame k (rt_schedule k)"
  by (simp add: frame_def kinv_rt_schedule rt_schedule_keeps)

lemma frame_refl: "kinv k \<Longrightarrow> frame k k" by (simp add: frame_def)

lemma frame_threads: 
  assumes "same_threads k k'" "kinv k'" shows "frame k k'"
  using assms same_threadsD[OF assms(1)] by (simp add: frame_def)

lemma lively_same_threads: "same_threads k k' \<Longrightarrow> lively k k'"
  by (rule lively_same) (simp_all add: same_threadsD)

lemma thread_timeout_frame:
  assumes k: "kinv k" and s: "stat_of k t = RT_THREAD_SUSPEND" and m: "ThreadTimer t \<notin> set (timer_list k)"
  shows "frame k (thread_timeout t k)" "lively k (thread_timeout t k)"
proof -
  let ?k = "upd_thread t (\<lambda>c. c\<lparr>t_error := - RT_ETIMEOUT\<rparr>) k"
  let ?w = "rt_schedule_insert_thread t (tlist_remove t ?k)"
  have w: "kinv ?w" by (rule kinv_wake) (use k s m in \<open>simp_all add: kinv_set_error\<close>)
  have e: "thread_timeout t k = rt_schedule ?w" using s by (simp add: thread_timeout_def Let_def)
  note R = rt_schedule_keeps[OF w]
  show "frame k (thread_timeout t k)"
    unfolding frame_def
  proof (intro conjI allI)
    show "kinv (thread_timeout t k)" by (rule kinv_thread_timeout[OF assms])
    show "ipc (thread_timeout t k) = ipc k" by (rule thread_timeout_keeps(5)[OF assms])
    show "set (waitq (thread_timeout t k) q) \<subseteq> set (waitq k q)" for q
      unfolding thread_timeout_keeps(6)[OF assms] by auto
    show "event_set (threads (thread_timeout t k) u) = event_set (threads k u)"
      "event_info (threads (thread_timeout t k) u) = event_info (threads k u)" for u
      unfolding e R by simp_all
  qed
  have "lively k ?w" using s by (auto simp: lively_def awake_def stat_defs)
  then show "lively k (thread_timeout t k)" unfolding e using lively_schedule[OF w] lively_trans by blast
qed

section \<open>The order of expiry\<close>

text \<open>How many ticks are left, as a signed number; timers run for at most
  \<open>RT_TICK_MAX / 2 - 1\<close> ticks, which \<open>rt_timer_init\<close> asserts.\<close>

definition due :: "kern \<Rightarrow> tmr \<Rightarrow> int" where
  "due k m = sint (timeout_tick (timers k m) - rt_tick k)"

definition HORIZON :: int where "HORIZON = 2 ^ 31 - 2"

definition clock_ok :: "int \<Rightarrow> kern \<Rightarrow> bool" where
  "clock_ok lo k \<longleftrightarrow> sorted (map (due k) (timer_list k)) \<and>
     (\<forall>m\<in>set (timer_list k). lo \<le> due k m \<and> due k m \<le> HORIZON) \<and>
     (\<forall>t. \<not> bit (tm_flag (timers k (ThreadTimer t))) (Suc 0)) \<and>
     (\<forall>n. UserTimer n \<in> set (timer_list k) \<longrightarrow> bit (tm_flag (timers k (UserTimer n))) (Suc 0) \<longrightarrow>
        0 < uint (init_tick (timers k (UserTimer n))) \<and> uint (init_tick (timers k (UserTimer n))) \<le> HORIZON)"

lemma sint_diff:
  fixes a b :: u32
  assumes "- (2 ^ 31) \<le> sint a - sint b" "sint a - sint b < 2 ^ 31"
  shows "sint (a - b) = sint a - sint b"
proof -
  have "sint (a - b) = signed_take_bit 31 (sint a - sint b)" by (simp add: sint_word_ariths)
  then show ?thesis using assms by (simp add: signed_take_bit_int_eq_self)
qed

lemma uint_of_sint: "uint (a::u32) = (if 0 \<le> sint a then sint a else sint a + 2 ^ 32)"
proof -
  have u: "uint a = sint a mod 2 ^ 32" by (simp add: uint_sint take_bit_eq_mod)
  have b: "- (2 ^ 31) \<le> sint a" "sint a < 2 ^ 31" using sint_greater_eq[of a] sint_less[of a] by simp_all
  show ?thesis
  proof (cases "0 \<le> sint a")
    case True
    then have "sint a mod 2 ^ 32 = sint a" using b by (intro mod_pos_pos_trivial) auto
    then show ?thesis using u True by simp
  next
    case False
    have "sint a mod 2 ^ 32 = (sint a + 2 ^ 32) mod 2 ^ 32" by (simp only: mod_add_self2)
    also have "\<dots> = sint a + 2 ^ 32" using False b by (intro mod_pos_pos_trivial) auto
    finally show ?thesis using u False by simp
  qed
qed

lemma unsigned_small:
  fixes a :: u32
  shows "a < RT_TICK_MAX div 2 \<longleftrightarrow> 0 \<le> sint a \<and> sint a < 2 ^ 31 - 1"
proof -
  have e: "uint (RT_TICK_MAX div 2) = 2 ^ 31 - 1" by (simp add: RT_TICK_MAX_def uint_div_distrib)
  have "- (2 ^ 31) \<le> sint a" using sint_greater_eq[of a] by simp
  then show ?thesis unfolding word_less_def e unfolding uint_of_sint by auto
qed

lemma expired_due:
  assumes "- (2 ^ 31 - 1) < due k m" "due k m < 2 ^ 31"
  shows "expired (rt_tick k) k m \<longleftrightarrow> due k m \<le> 0"
proof -
  have "sint (- (timeout_tick (timers k m) - rt_tick k)) = - due k m"
    using sint_diff[of 0 "timeout_tick (timers k m) - rt_tick k"] assms by (simp add: due_def)
  then show ?thesis using assms unfolding expired_def unsigned_small by auto
qed

lemma expires_later_due:
  assumes "- (2 ^ 31) \<le> due k n - due k m" "due k n - due k m < 2 ^ 31 - 1"
  shows "expires_later (timeout_tick (timers k m)) (timeout_tick (timers k n)) \<longleftrightarrow> due k m < due k n"
proof -
  have "timeout_tick (timers k n) - timeout_tick (timers k m) =
      (timeout_tick (timers k n) - rt_tick k) - (timeout_tick (timers k m) - rt_tick k)" by simp
  then have s: "sint (timeout_tick (timers k n) - timeout_tick (timers k m)) = due k n - due k m"
    using sint_diff[of "timeout_tick (timers k n) - rt_tick k" "timeout_tick (timers k m) - rt_tick k"] assms
    unfolding due_def by simp
  have "timeout_tick (timers k n) - timeout_tick (timers k m) = 0 \<longleftrightarrow> due k n - due k m = 0"
    using s by (metis signed_eq_0_iff)
  then show ?thesis using assms unfolding expires_later_def unsigned_small s by auto
qed

text \<open>The new timer goes behind all that do not expire later: the order is kept.\<close>

lemma takeWhile_dropWhile_sorted:
  fixes f :: "'b \<Rightarrow> int"
  assumes "sorted (map f xs)"
  shows "sorted (map f (takeWhile (\<lambda>n. f n \<le> d) xs) @ d # map f (dropWhile (\<lambda>n. f n \<le> d) xs))"
  using assms
proof (induction xs)
  case (Cons x xs)
  then show ?case by (cases "f x \<le> d") (auto dest: set_takeWhileD set_dropWhileD)
qed simp

lemma insert_timer_sorted:
  assumes s: "sorted (map (due k) (timer_list k))"
    and r: "\<And>n. n \<in> set (timer_list k) \<Longrightarrow> - 1 \<le> due k n \<and> due k n \<le> HORIZON"
    and m: "0 \<le> due k m" "due k m \<le> HORIZON"
  shows "sorted (map (due k) (insert_timer m k))"
proof -
  have e: "(\<not> expires_later (timeout_tick (timers k m)) (timeout_tick (timers k n))) \<longleftrightarrow> due k n \<le> due k m"
    if "n \<in> set (timer_list k)" for n
    using expires_later_due[of k n m] r[OF that] m by (auto simp: HORIZON_def)
  have tw: "takeWhile (\<lambda>n. \<not> expires_later (timeout_tick (timers k m)) (timeout_tick (timers k n))) (timer_list k) =
      takeWhile (\<lambda>n. due k n \<le> due k m) (timer_list k)"
    by (rule takeWhile_cong) (use e in auto)
  have dw: "dropWhile (\<lambda>n. \<not> expires_later (timeout_tick (timers k m)) (timeout_tick (timers k n))) (timer_list k) =
      dropWhile (\<lambda>n. due k n \<le> due k m) (timer_list k)"
    by (rule dropWhile_cong) (use e in auto)
  show ?thesis unfolding insert_timer_def Let_def tw dw using takeWhile_dropWhile_sorted[OF s] by simp
qed

lemma clock_okD:
  assumes "clock_ok lo k"
  shows "sorted (map (due k) (timer_list k))"
    "\<And>m. m \<in> set (timer_list k) \<Longrightarrow> lo \<le> due k m \<and> due k m \<le> HORIZON"
    "\<not> bit (tm_flag (timers k (ThreadTimer t))) (Suc 0)"
    "m = UserTimer n \<Longrightarrow> m \<in> set (timer_list k) \<Longrightarrow> bit (tm_flag (timers k m)) (Suc 0) \<Longrightarrow>
       0 < uint (init_tick (timers k m)) \<and> uint (init_tick (timers k m)) \<le> HORIZON"
  using assms by (auto simp: clock_ok_def)

text \<open>Stopping timers keeps the order.\<close>

lemma sorted_map_filter: "sorted (map f xs) \<Longrightarrow> sorted (map f (filter P xs))" for f :: "'b \<Rightarrow> int"
  by (induction xs) auto

lemma clock_ok_filter:
  assumes k: "clock_ok lo k" and l: "timer_list k' = filter P (timer_list k)" and t: "rt_tick k' = rt_tick k"
    and s: "\<And>m. m \<in> set (timer_list k') \<Longrightarrow> timers k' m = timers k m"
    and o: "\<And>t. \<not> bit (tm_flag (timers k (ThreadTimer t))) (Suc 0) \<Longrightarrow> \<not> bit (tm_flag (timers k' (ThreadTimer t))) (Suc 0)"
  shows "clock_ok lo k'"
proof -
  have d: "due k' m = due k m" if "m \<in> set (timer_list k')" for m using s[OF that] t by (simp add: due_def)
  have "map (due k') (timer_list k') = map (due k) (filter P (timer_list k))" using d by (simp add: l)
  then have "sorted (map (due k') (timer_list k'))"
    using sorted_map_filter[OF clock_okD(1)[OF k]] by simp
  then show ?thesis
    using clock_okD[OF k] d s o by (auto simp: clock_ok_def l)
qed

text \<open>Starting a timer.\<close>

lemma rt_timer_start_sel:
  "timers (rt_timer_start m k) n =
     (if n = m then \<lparr>tm_flag = tm_flag (timers k m) AND NOT RT_TIMER_FLAG_ACTIVATED OR RT_TIMER_FLAG_ACTIVATED,
        init_tick = init_tick (timers k m), timeout_tick = rt_tick k + init_tick (timers k m)\<rparr>
      else timers k n)"
  "fired (rt_timer_start m k) = removeAll m (fired k)"
  by (simp_all add: rt_timer_start_def Let_def set_flag_def clear_flag_def)

lemma due_start:
  "uint (init_tick (timers k m)) \<le> HORIZON \<Longrightarrow>
     due (rt_timer_start m k) n = (if n = m then uint (init_tick (timers k m)) else due k n)"
  using uint_of_sint[of "init_tick (timers k m)"] sint_less[of "init_tick (timers k m)"] sint_greater_eq[of "init_tick (timers k m)"]
  by (auto simp: due_def rt_timer_start_sel HORIZON_def same_threadsD(4)[OF rt_timer_start_state(1)]
      split: if_splits)

lemma clock_ok_start:
  assumes k: "clock_ok lo k" and lo: "- 1 \<le> lo" "lo \<le> uint (init_tick (timers k m))"
    and h: "uint (init_tick (timers k m)) \<le> HORIZON"
    and p: "\<And>n. m = UserTimer n \<Longrightarrow> bit (tm_flag (timers k m)) (Suc 0) \<Longrightarrow> 0 < uint (init_tick (timers k m))"
  shows "clock_ok lo (rt_timer_start m k)"
proof -
  let ?k = "rt_timer_start m k"
  let ?k1 = "upd_timer m (\<lambda>c. c\<lparr>timeout_tick := rt_tick k + init_tick c\<rparr>)
    (upd_timer m (clear_flag RT_TIMER_FLAG_ACTIVATED) (timer_remove m k))"
  have d1: "due ?k1 n = due ?k n" for n
    by (simp add: due_def rt_timer_start_sel same_threadsD(4)[OF rt_timer_start_state(1)] clear_flag_def)
  have d: "due ?k n = (if n = m then uint (init_tick (timers k m)) else due k n)" for n
    by (rule due_start[OF h])
  have m1: "map (due ?k1) (removeAll m (timer_list k)) = map (due k) (removeAll m (timer_list k))"
    by (simp add: d1 d)
  have "sorted (map (due k) (removeAll m (timer_list k)))"
    using clock_okD(1)[OF k] by (simp add: removeAll_filter_not_eq sorted_map_filter)
  moreover have r: "- 1 \<le> due k n \<and> due k n \<le> HORIZON" if "n \<in> set (timer_list k)" for n
    using clock_okD(2)[OF k that] lo by linarith
  ultimately have "sorted (map (due ?k1) (insert_timer m ?k1))"
    using r lo h by (intro insert_timer_sorted) (auto simp: m1 d1 d)
  moreover have "timer_list ?k = insert_timer m ?k1" by (simp add: rt_timer_start_def Let_def)
  ultimately have "sorted (map (due ?k) (timer_list ?k))" by (simp add: d1 cong: map_cong)
  moreover have "lo \<le> due ?k n \<and> due ?k n \<le> HORIZON" if "n \<in> set (timer_list ?k)" for n
    using that clock_okD(2)[OF k, of n] lo h rt_timer_start_state(2)[of m k] by (auto simp: d)
  moreover have "bit (tm_flag (timers ?k n)) (Suc 0) = bit (tm_flag (timers k n)) (Suc 0)"
    "init_tick (timers ?k n) = init_tick (timers k n)" for n
    by (auto simp: rt_timer_start_sel RT_TIMER_FLAG_ACTIVATED_def bit_simps)
  ultimately show ?thesis
    using clock_okD(3,4)[OF k] p h rt_timer_start_state(2)[of m k]
    unfolding clock_ok_def by auto
qed

section \<open>Firing\<close>

text \<open>What leaves the clock in order: no timer is started, those of woken threads may stop.\<close>

definition calm :: "kern \<Rightarrow> kern \<Rightarrow> bool" where
  "calm k k' \<longleftrightarrow> rt_tick k' = rt_tick k \<and> (\<exists>P. timer_list k' = filter P (timer_list k)) \<and>
     (\<forall>m\<in>set (timer_list k'). timers k' m = timers k m) \<and>
     (\<forall>t. \<not> bit (tm_flag (timers k (ThreadTimer t))) (Suc 0) \<longrightarrow>
        \<not> bit (tm_flag (timers k' (ThreadTimer t))) (Suc 0))"

lemma calmD:
  assumes "calm k k'"
  shows "rt_tick k' = rt_tick k" "\<exists>P. timer_list k' = filter P (timer_list k)"
    "\<And>m. m \<in> set (timer_list k') \<Longrightarrow> timers k' m = timers k m"
    "\<not> bit (tm_flag (timers k (ThreadTimer t))) (Suc 0) \<Longrightarrow> \<not> bit (tm_flag (timers k' (ThreadTimer t))) (Suc 0)"
  using assms by (auto simp: calm_def)

lemma calm_same:
  "rt_tick k' = rt_tick k \<Longrightarrow> timer_list k' = timer_list k \<Longrightarrow> timers k' = timers k \<Longrightarrow> calm k k'"
  unfolding calm_def by (auto intro: exI[of _ "\<lambda>_. True"])

lemma calm_refl [simp]: "calm k k" by (rule calm_same) simp_all

lemma calm_trans:
  assumes "calm k k'" "calm k' k''" shows "calm k k''"
proof -
  obtain P Q where "timer_list k' = filter P (timer_list k)" "timer_list k'' = filter Q (timer_list k')"
    using calmD(2)[OF assms(1)] calmD(2)[OF assms(2)] by blast
  then have l: "timer_list k'' = filter (\<lambda>m. P m \<and> Q m) (timer_list k)" "set (timer_list k'') \<subseteq> set (timer_list k')"
    by (auto simp: conj_commute)
  have "timers k'' m = timers k m" if "m \<in> set (timer_list k'')" for m
    using calmD(3)[OF assms(2) that] calmD(3)[OF assms(1), of m] that l(2) by auto
  then show ?thesis
    unfolding calm_def using l(1) calmD(1)[OF assms(1)] calmD(1)[OF assms(2)] calmD(4)[OF assms(1)] calmD(4)[OF assms(2)]
    by auto
qed

lemma calm_schedule: "kinv k \<Longrightarrow> calm k (rt_schedule k)"
  by (rule calm_same) (simp_all add: rt_schedule_keeps)

lemma clock_ok_calm:
  assumes "clock_ok lo k" "calm k k'" shows "clock_ok lo k'"
proof -
  obtain P where "timer_list k' = filter P (timer_list k)" using calmD(2)[OF assms(2)] ..
  then show ?thesis by (rule clock_ok_filter[OF assms(1) _ calmD(1,3,4)[OF assms(2)]])
qed

text \<open>The contract of the functions an application's timers call: they keep an invariant
  \<open>inv\<close> of the kernel that the kernel's own steps keep, they may wake threads, which stops the
  timers of these, and stop their own timer, but start no timer and suspend nobody.\<close>

locale timeout_handler =
  fixes user :: "nat \<Rightarrow> kern \<Rightarrow> kern" and inv :: "kern \<Rightarrow> bool"
  assumes inv_kinv: "inv k \<Longrightarrow> kinv k"
    and inv_frame: "inv k \<Longrightarrow> frame k k' \<Longrightarrow> lively k k' \<Longrightarrow> inv k'"
    and user_inv: "inv k \<Longrightarrow> fired k = [UserTimer n] \<Longrightarrow> inv (user n k)"
    and user_calm: "inv k \<Longrightarrow> fired k = [UserTimer n] \<Longrightarrow> calm k (user n k)"
    and user_fired: "inv k \<Longrightarrow> fired k = [UserTimer n] \<Longrightarrow> fired (user n k) \<noteq> [] \<Longrightarrow>
      fired (user n k) = fired k \<and> timers (user n k) (UserTimer n) = timers k (UserTimer n)"

definition due_count :: "kern \<Rightarrow> nat" where
  "due_count k = length (filter (\<lambda>n. due k n \<le> 0) (timer_list k))"

text \<open>The state in which the function of a timer is called.\<close>

definition taken_off :: "tmr \<Rightarrow> kern \<Rightarrow> kern" where
  "taken_off m k =
     (let k = timer_remove m k;
          k = (if tm_flag (timers k m) AND RT_TIMER_FLAG_PERIODIC = 0
               then upd_timer m (clear_flag RT_TIMER_FLAG_ACTIVATED) k else k)
      in k\<lparr>fired := m # fired k\<rparr>)"

lemma taken_off_sel [simp]:
  "rt_tick (taken_off m k) = rt_tick k" "timer_list (taken_off m k) = removeAll m (timer_list k)"
  "fired (taken_off m k) = m # removeAll m (fired k)"
  "n \<noteq> m \<Longrightarrow> timers (taken_off m k) n = timers k n"
  "bit (tm_flag (timers (taken_off m k) n)) (Suc 0) = bit (tm_flag (timers k n)) (Suc 0)"
  "init_tick (timers (taken_off m k) n) = init_tick (timers k n)"
  "threads (taken_off m k) = threads k" "stat_of (taken_off m k) = stat_of k" "prio (taken_off m k) = prio k"
  "waitq (taken_off m k) = waitq k" "ipc (taken_off m k) = ipc k"
  by (auto simp: taken_off_def Let_def stat_of_def prio_def clear_flag_def RT_TIMER_FLAG_ACTIVATED_def bit_simps)

lemma taken_off_same: "same_threads k (taken_off m k)"
  by (simp add: taken_off_def Let_def same_threads_def timer_remove_def upd_timer_def)

lemma kinv_taken_off: "kinv_but E k \<Longrightarrow> kinv_but E (taken_off m k)"
  by (rule kinv_same[of k])
    (auto simp: taken_off_def Let_def same_threads_def timer_remove_def upd_timer_def kinv_but_def
      timers_ok_def stat_of_def distinct_removeAll)

lemma kinv_fired [simp]: "kinv_but E (k\<lparr>fired := fs\<rparr>) = kinv_but E k"
  by (simp add: kinv_but_def table_ok_def states_ok_def prios_ok_def waits_ok_def timers_ok_def
      stat_of_def prio_def)

lemma clock_fired [simp]: "clock_ok lo (k\<lparr>fired := fs\<rparr>) = clock_ok lo k" "due (k\<lparr>fired := fs\<rparr>) = due k"
proof -
  show "due (k\<lparr>fired := fs\<rparr>) = due k" by (simp add: due_def fun_eq_iff)
  then show "clock_ok lo (k\<lparr>fired := fs\<rparr>) = clock_ok lo k" by (simp add: clock_ok_def)
qed

lemma clock_ok_taken_off: "clock_ok lo k \<Longrightarrow> clock_ok lo (taken_off m k)"
  by (erule clock_ok_filter[where P = "(\<noteq>) m"]) (auto simp: removeAll_filter_not_eq)

lemma fire_timer_alt:
  "fire_timer user m k =
     (let k = timeout_func user m (taken_off m k)
      in if fired k = [] then k
         else let k = k\<lparr>fired := removeAll m (fired k), timer_list := removeAll m (timer_list k)\<rparr>
              in if bit (tm_flag (timers k m)) (Suc 0) \<and> bit (tm_flag (timers k m)) 0
                 then rt_timer_start m (upd_timer m (clear_flag RT_TIMER_FLAG_ACTIVATED) k) else k)"
  by (simp add: fire_timer_def taken_off_def Let_def)

lemma due_cong: "timers k' m = timers k m \<Longrightarrow> rt_tick k' = rt_tick k \<Longrightarrow> due k' m = due k m"
  by (simp add: due_def)

lemma kinv_timer_list:
  assumes "kinv_but E k" shows "kinv_but E (k\<lparr>fired := fs, timer_list := removeAll m (timer_list k)\<rparr>)"
  by (rule kinv_same[OF _ assms])
    (use assms in \<open>auto simp: same_threads_def kinv_but_def timers_ok_def stat_of_def distinct_removeAll\<close>)

text \<open>The timer of a thread: the thread is awake, with \<open>-RT_ETIMEOUT\<close>, and its timer is gone.\<close>

lemma fire_thread:
  assumes k: "kinv k" and c: "clock_ok lo k" and f: "fired k = []" and l: "timer_list k = ThreadTimer t # ms"
  shows "kinv (fire_timer user (ThreadTimer t) k)" "clock_ok lo (fire_timer user (ThreadTimer t) k)"
    "fired (fire_timer user (ThreadTimer t) k) = []" "timer_list (fire_timer user (ThreadTimer t) k) = ms"
    "rt_tick (fire_timer user (ThreadTimer t) k) = rt_tick k"
    "n \<noteq> ThreadTimer t \<Longrightarrow> timers (fire_timer user (ThreadTimer t) k) n = timers k n"
    "stat_of (fire_timer user (ThreadTimer t) k) u = RT_THREAD_SUSPEND \<longleftrightarrow>
       u \<noteq> t \<and> stat_of k u = RT_THREAD_SUSPEND"
    "t_error (threads (fire_timer user (ThreadTimer t) k) u) =
       (if u = t then - RT_ETIMEOUT else t_error (threads k u))"
    "frame k (fire_timer user (ThreadTimer t) k)" "lively k (fire_timer user (ThreadTimer t) k)"
proof -
  let ?m = "ThreadTimer t" and ?k1 = "taken_off (ThreadTimer t) k" and ?k' = "fire_timer user (ThreadTimer t) k"
  let ?k2 = "thread_timeout t ?k1"
  have d: "?m \<notin> set ms" using k l by (simp add: kinv_but_def timers_ok_def)
  have s: "stat_of ?k1 t = RT_THREAD_SUSPEND" using k l by (simp add: kinv_but_def timers_ok_def)
  have m: "?m \<notin> set (timer_list ?k1)" by simp
  note k1 = kinv_taken_off[OF k, of ?m]
  note T = thread_timeout_keeps[OF k1 s m]
  have fl: "\<not> bit (tm_flag (timers k ?m)) (Suc 0)" using clock_okD(3)[OF c] by simp
  have e: "?k' = ?k2\<lparr>fired := [], timer_list := removeAll ?m (timer_list ?k2)\<rparr>"
    unfolding fire_timer_alt timeout_func_def tmr.case Let_def using T fl f by simp
  show "kinv ?k'" unfolding e using kinv_timer_list[OF kinv_thread_timeout[OF k1 s m]] by simp
  show "fired ?k' = []" "timer_list ?k' = ms" "rt_tick ?k' = rt_tick k" unfolding e using T l d by simp_all
  show tm: "timers ?k' n = timers k n" if "n \<noteq> ?m" for n unfolding e using T that by simp
  show "clock_ok lo ?k'"
    by (rule clock_ok_filter[OF clock_ok_taken_off[OF c, of ?m], of _ "\<lambda>_. True"])
      (use T l d in \<open>simp_all add: e\<close>)
  show "stat_of ?k' u = RT_THREAD_SUSPEND \<longleftrightarrow> u \<noteq> t \<and> stat_of k u = RT_THREAD_SUSPEND"
    using T(7)[of u] unfolding e by (simp add: stat_of_def)
  show "t_error (threads ?k' u) = (if u = t then - RT_ETIMEOUT else t_error (threads k u))"
    using T(8)[of u] unfolding e by simp
  have f1: "frame k ?k1" "lively k ?k1"
    using frame_threads[OF taken_off_same k1] lively_same_threads[OF taken_off_same] by simp_all
  have s2: "same_threads ?k2 ?k'" unfolding e by (simp add: same_threads_def)
  have k': "kinv ?k'" unfolding e using kinv_timer_list[OF kinv_thread_timeout[OF k1 s m]] by simp
  show "frame k ?k'" "lively k ?k'"
    using f1 thread_timeout_frame[OF k1 s m] frame_threads[OF s2 k'] lively_same_threads[OF s2]
    by (blast intro: frame_trans lively_trans)+
qed

lemma due_count_filter:
  assumes "timer_list k' = filter P ms" "timer_list k = m # ms" "due k m \<le> 0"
    "\<And>n. n \<in> set (timer_list k') \<Longrightarrow> due k' n = due k n"
  shows "due_count k' < due_count k"
proof -
  have "length (filter (\<lambda>n. due k' n \<le> 0) (filter P ms)) = length (filter (\<lambda>n. due k n \<le> 0) (filter P ms))"
    using assms(1,4) by (intro arg_cong[where f = length] filter_cong) auto
  also have "\<dots> \<le> length (filter (\<lambda>n. due k n \<le> 0) ms)" by (induction ms) auto
  finally show ?thesis using assms by (simp add: due_count_def)
qed

context timeout_handler
begin

text \<open>One turn of the loop makes progress.\<close>

lemma fire_timer_ok:
  assumes i: "inv k" and c: "clock_ok (- 1) k" and f: "fired k = []" and l: "timer_list k = m # ms"
    and due: "due k m \<le> 0"
  shows "inv (fire_timer user m k) \<and> clock_ok (- 1) (fire_timer user m k) \<and>
    fired (fire_timer user m k) = [] \<and> rt_tick (fire_timer user m k) = rt_tick k \<and>
    due_count (fire_timer user m k) < due_count k"
proof (cases m)
  case (ThreadTimer t)
  note k = inv_kinv[OF i]
  note T = fire_thread[OF k c f l[unfolded ThreadTimer], where user = user]
  have d: "m \<notin> set ms" using k l by (simp add: kinv_but_def timers_ok_def)
  have "n \<noteq> ThreadTimer t" if "n \<in> set ms" for n using d that ThreadTimer by auto
  then have "due_count (fire_timer user m k) < due_count k"
    by (intro due_count_filter[OF _ l due, of _ "\<lambda>_. True"]) (use T(4,5,6) in \<open>auto simp: ThreadTimer intro!: due_cong\<close>)
  moreover have "inv (fire_timer user m k)" unfolding ThreadTimer by (rule inv_frame[OF i T(9,10)])
  ultimately show ?thesis using T by (simp add: ThreadTimer)
next
  case (UserTimer i)
  let ?k1 = "taken_off m k" let ?k2 = "user i ?k1"
  let ?k3 = "?k2\<lparr>fired := [], timer_list := removeAll m (timer_list ?k2)\<rparr>"
  note k = inv_kinv[OF assms(1)]
  have d: "m \<notin> set ms" using k l by (simp add: kinv_but_def timers_ok_def)
  have i1: "inv ?k1"
    using inv_frame[OF assms(1) frame_threads[OF taken_off_same kinv_taken_off[OF k]] lively_same_threads[OF taken_off_same]] .
  have l1: "timer_list ?k1 = ms" "fired ?k1 = [UserTimer i]" using d l f UserTimer by simp_all
  note C = user_calm[OF i1 l1(2)]
  have i2: "inv ?k2" by (rule user_inv[OF i1 l1(2)])
  obtain P where P: "timer_list ?k2 = filter P ms" using calmD(2)[OF C] l1 by auto
  have m2: "m \<notin> set (timer_list ?k2)" using P d by simp
  have c1: "clock_ok (- 1) ?k1" by (rule clock_ok_taken_off[OF c])
  have c2: "clock_ok (- 1) ?k2" by (rule clock_ok_calm[OF c1 C])
  then have c3: "clock_ok (- 1) ?k3"
    by (rule clock_ok_filter[where P = "\<lambda>_. True"]) (use m2 in auto)
  have s3: "same_threads ?k2 ?k3" by (simp add: same_threads_def)
  have k3: "kinv ?k3" by (rule kinv_timer_list[OF inv_kinv[OF i2]])
  have i3: "inv ?k3" by (rule inv_frame[OF i2 frame_threads[OF s3 k3] lively_same_threads[OF s3]])
  have t2: "rt_tick ?k2 = rt_tick k" using calmD(1)[OF C] by simp
  have t3: "rt_tick ?k3 = rt_tick k" using t2 by simp
  have old: "due ?k2 n = due k n" "due ?k3 n = due k n" if "n \<in> set (timer_list ?k2)" for n
  proof -
    have "n \<noteq> m" using that m2 by auto
    then have "timers ?k2 n = timers k n" using calmD(3)[OF C that] by simp
    then show "due ?k2 n = due k n" using t2 by (rule due_cong)
    have "due ?k3 n = due ?k2 n" by (rule due_cong) simp_all
    then show "due ?k3 n = due k n" using \<open>due ?k2 n = due k n\<close> by simp
  qed
  have dc2: "due_count ?k2 < due_count k"
    by (rule due_count_filter[OF _ l due, of _ P]) (use P old in auto)
  have dc3: "due_count ?k3 < due_count k"
    by (rule due_count_filter[OF _ l due, of _ P]) (use P m2 old in auto)
  show ?thesis
  proof (cases "fired ?k2 \<noteq> [] \<and> bit (tm_flag (timers ?k3 m)) (Suc 0) \<and> bit (tm_flag (timers ?k3 m)) 0")
    case False
    then have "fire_timer user m k = (if fired ?k2 = [] then ?k2 else ?k3)"
      unfolding fire_timer_alt timeout_func_def UserTimer tmr.case Let_def
      using user_fired[OF i1 l1(2)] l1(2) UserTimer by auto
    then show ?thesis using i2 c2 t2 dc2 i3 c3 t3 dc3 by simp
  next
    case True
    let ?k4 = "upd_timer m (clear_flag RT_TIMER_FLAG_ACTIVATED) ?k3"
    have f2: "fired ?k2 = [m]" and tm2: "timers ?k2 m = timers ?k1 m"
      using user_fired[OF i1 l1(2)] True l1(2) UserTimer by simp_all
    have e: "fire_timer user m k = rt_timer_start m ?k4"
      unfolding fire_timer_alt timeout_func_def UserTimer tmr.case Let_def using f2 True UserTimer by auto
    have h: "0 < uint (init_tick (timers ?k4 m))" "uint (init_tick (timers ?k4 m)) \<le> HORIZON"
      using clock_okD(4)[OF c UserTimer] True tm2 l by simp_all
    have m3: "m \<notin> set (timer_list ?k3)" by simp
    have k4: "kinv ?k4" by (rule kinv_same[OF _ k3])
        (use k3 m3 in \<open>auto simp: same_threads_def upd_timer_def kinv_but_def timers_ok_def stat_of_def\<close>)
    have c4: "clock_ok (- 1) ?k4"
      by (rule clock_ok_filter[OF c3, of _ "\<lambda>_. True"]) (use m3 in auto)
    have k5: "kinv (rt_timer_start m ?k4)" by (rule kinv_timer_start[OF k4]) (use UserTimer in simp)
    have c5: "clock_ok (- 1) (rt_timer_start m ?k4)" by (rule clock_ok_start[OF c4]) (use h in auto)
    have s5: "same_threads ?k3 (rt_timer_start m ?k4)"
      using rt_timer_start_state(1)[of ?k4 m] by (simp add: same_threads_def upd_timer_def)
    have i5: "inv (rt_timer_start m ?k4)" by (rule inv_frame[OF i3 frame_threads[OF s5 k5] lively_same_threads[OF s5]])
    have m4: "m \<notin> set (timer_list ?k4)" by simp
    have d5: "due (rt_timer_start m ?k4) n = (if n = m then uint (init_tick (timers ?k4 m)) else due ?k3 n)" for n
      using due_start[OF h(2), of n] by (simp add: due_def)
    have "filter (\<lambda>n. due (rt_timer_start m ?k4) n \<le> 0) (timer_list (rt_timer_start m ?k4)) =
        filter (\<lambda>n. due ?k3 n \<le> 0) (timer_list ?k3)"
    proof -
      have "timer_list (rt_timer_start m ?k4) = insert_timer m
          (upd_timer m (\<lambda>c. c\<lparr>timeout_tick := rt_tick ?k4 + init_tick c\<rparr>)
            (upd_timer m (clear_flag RT_TIMER_FLAG_ACTIVATED) (timer_remove m ?k4)))"
        by (simp add: rt_timer_start_def Let_def)
      then obtain Q where Q: "timer_list (rt_timer_start m ?k4) =
          takeWhile Q (timer_list ?k3) @ m # dropWhile Q (timer_list ?k3)"
        by (simp add: insert_timer_def Let_def)
      have "filter (\<lambda>n. due (rt_timer_start m ?k4) n \<le> 0) (timer_list (rt_timer_start m ?k4)) =
          filter (\<lambda>n. due (rt_timer_start m ?k4) n \<le> 0) (takeWhile Q (timer_list ?k3) @ dropWhile Q (timer_list ?k3))"
        unfolding Q using h(1) by (simp add: d5 del: takeWhile_dropWhile_id)
      also have "\<dots> = filter (\<lambda>n. due ?k3 n \<le> 0) (timer_list ?k3)"
        unfolding takeWhile_dropWhile_id by (rule filter_cong) (use m3 in \<open>auto simp: d5\<close>)
      finally show ?thesis .
    qed
    then have "due_count (rt_timer_start m ?k4) = due_count ?k3" by (simp add: due_count_def)
    moreover have "fired (rt_timer_start m ?k4) = []" by (simp add: rt_timer_start_sel)
    moreover have "rt_tick (rt_timer_start m ?k4) = rt_tick k"
      using t3 same_threadsD(4)[OF rt_timer_start_state(1), of m ?k4] by simp
    ultimately show ?thesis using i5 c5 dc3 e by simp
  qed
qed

text \<open>The loop ends; afterwards every running timer has at least a tick left.\<close>

lemma timer_check_loop_ends:
  "inv k \<Longrightarrow> clock_ok (- 1) k \<Longrightarrow> fired k = [] \<Longrightarrow>
     \<exists>k'. timer_check_loop user (rt_tick k) k = Some k' \<and> inv k' \<and> clock_ok 1 k' \<and> rt_tick k' = rt_tick k"
proof (induction "due_count k" arbitrary: k rule: less_induct)
  case less
  note k = less.prems
  show ?case
  proof (cases "timer_list k")
    case Nil
    then show ?thesis using k by (subst timer_check_loop.simps) (auto simp: clock_ok_def)
  next
    case (Cons m ms)
    have r: "- 1 \<le> due k m" "due k m \<le> HORIZON" using clock_okD(2)[OF k(2), of m] Cons by auto
    have x: "expired (rt_tick k) k m \<longleftrightarrow> due k m \<le> 0" by (rule expired_due) (use r in \<open>simp_all add: HORIZON_def\<close>)
    show ?thesis
    proof (cases "due k m \<le> 0")
      case True
      let ?k = "fire_timer user m k"
      note F = fire_timer_ok[OF k(1,2,3) Cons True]
      have "\<exists>k'. timer_check_loop user (rt_tick ?k) ?k = Some k' \<and> inv k' \<and> clock_ok 1 k' \<and>
          rt_tick k' = rt_tick ?k"
        by (rule less.hyps) (use F in auto)
      moreover have "timer_check_loop user (rt_tick k) k = timer_check_loop user (rt_tick ?k) ?k"
        by (subst timer_check_loop.simps) (simp add: Cons x True Let_def)
      ultimately show ?thesis using F by simp
    next
      case False
      have "1 \<le> due k n" if "n \<in> set (timer_list k)" for n
        using that False clock_okD(1)[OF k(2)] Cons by fastforce
      then have "clock_ok 1 k" using k(2) by (auto simp: clock_ok_def)
      then show ?thesis using k by (subst timer_check_loop.simps) (simp add: Cons x False)
    qed
  qed
qed

lemma rt_timer_check_ends:
  assumes i: "inv k" and c: "clock_ok (- 1) k"
  shows "\<exists>k'. rt_timer_check user k = Some k' \<and> inv k' \<and> clock_ok 1 k' \<and> rt_tick k' = rt_tick k"
proof -
  let ?k = "k\<lparr>fired := []\<rparr>"
  have s: "same_threads k ?k" by (simp add: same_threads_def)
  have "kinv ?k" using inv_kinv[OF i] by simp
  then have "inv ?k" using inv_frame[OF i frame_threads[OF s] lively_same_threads[OF s]] by blast
  then show ?thesis using timer_check_loop_ends[of ?k] c by (simp add: rt_timer_check_def)
qed

end

text \<open>The tick interrupt up to the check of the timers.\<close>

definition tick_prologue :: "kern \<Rightarrow> kern" where
  "tick_prologue k =
     (let k = k\<lparr>rt_tick := rt_tick k + 1\<rparr>;
          t = rt_current_thread k;
          k = upd_thread t (\<lambda>c. c\<lparr>remaining_tick := remaining_tick c - 1\<rparr>) k
      in if remaining_tick (threads k t) = 0
         then rt_schedule (upd_thread t (\<lambda>c. c\<lparr>remaining_tick := t_init_tick c,
                t_stat := t_stat c OR RT_THREAD_STAT_YIELD\<rparr>) k)
         else k)"

lemma rt_tick_increase_alt: "rt_tick_increase user k = rt_timer_check user (tick_prologue k)"
  by (simp add: rt_tick_increase_def tick_prologue_def Let_def)

lemma yield_stat [simp]: "(s OR RT_THREAD_STAT_YIELD) AND RT_THREAD_STAT_MASK = s AND RT_THREAD_STAT_MASK"
proof -
  have "RT_THREAD_STAT_YIELD AND RT_THREAD_STAT_MASK = 0"
    by (simp add: RT_THREAD_STAT_YIELD_def RT_THREAD_STAT_MASK_def)
  then show ?thesis by (simp add: bit.conj_disj_distrib2)
qed

lemma kinv_tick [simp]: "kinv_but E (k\<lparr>rt_tick := n\<rparr>) = kinv_but E k"
  by (simp add: kinv_but_def table_ok_def states_ok_def prios_ok_def waits_ok_def timers_ok_def
      stat_of_def prio_def)

lemma tick_prologue_ok:
  assumes k: "kinv k"
  shows "kinv (tick_prologue k)" "rt_tick (tick_prologue k) = rt_tick k + 1"
    "timers (tick_prologue k) = timers k" "timer_list (tick_prologue k) = timer_list k"
    "ipc (tick_prologue k) = ipc k" "waitq (tick_prologue k) = waitq k"
    "stat_of (tick_prologue k) u = RT_THREAD_SUSPEND \<longleftrightarrow> stat_of k u = RT_THREAD_SUSPEND"
    "t_error (threads (tick_prologue k) u) = t_error (threads k u)"
    "frame k (tick_prologue k)" "lively k (tick_prologue k)"
proof -
  let ?t = "rt_current_thread k"
  let ?k1 = "upd_thread ?t (\<lambda>c. c\<lparr>remaining_tick := remaining_tick c - 1\<rparr>) (k\<lparr>rt_tick := rt_tick k + 1\<rparr>)"
  let ?k2 = "upd_thread ?t (\<lambda>c. c\<lparr>remaining_tick := t_init_tick c, t_stat := t_stat c OR RT_THREAD_STAT_YIELD\<rparr>) ?k1"
  have e: "tick_prologue k = (if remaining_tick (threads ?k1 ?t) = 0 then rt_schedule ?k2 else ?k1)"
    by (simp add: tick_prologue_def Let_def)
  have k1: "kinv ?k1" by (rule kinv_upd_same) (use k in \<open>auto simp: stat_of_def\<close>)
  have k2: "kinv ?k2" by (rule kinv_upd_same[OF k1]) (auto simp: stat_of_def)
  have s: "stat_of ?k1 u = stat_of k u" "stat_of ?k2 u = stat_of k u" for u by (simp_all add: stat_of_def)
  show "kinv (tick_prologue k)" unfolding e using k1 kinv_rt_schedule[OF k2] by simp
  show "rt_tick (tick_prologue k) = rt_tick k + 1"
    "timers (tick_prologue k) = timers k" "timer_list (tick_prologue k) = timer_list k"
    "ipc (tick_prologue k) = ipc k" "waitq (tick_prologue k) = waitq k"
    "stat_of (tick_prologue k) u = RT_THREAD_SUSPEND \<longleftrightarrow> stat_of k u = RT_THREAD_SUSPEND"
    "t_error (threads (tick_prologue k) u) = t_error (threads k u)"
    unfolding e using rt_schedule_keeps[OF k2] s by auto
  have "frame k ?k1" "frame k ?k2" using k1 k2 by (simp_all add: frame_def)
  then show "frame k (tick_prologue k)" unfolding e using frame_trans[OF _ frame_schedule[OF k2]] by simp
  have "stat_of ?k1 = stat_of k" "stat_of ?k2 = stat_of k" using s by auto
  then have "lively k ?k1" "lively k ?k2" by (auto intro: lively_same)
  then show "lively k (tick_prologue k)" unfolding e using lively_trans[OF _ lively_schedule[OF k2]] by simp
qed

lemma due_tick:
  assumes "0 \<le> due k m" "timers k' m = timers k m" "rt_tick k' = rt_tick k + 1"
  shows "due k' m = due k m - 1"
proof -
  have "timeout_tick (timers k' m) - rt_tick k' = (timeout_tick (timers k m) - rt_tick k) - 1"
    using assms by simp
  moreover have "due k m < 2 ^ 31" unfolding due_def using sint_less[of "timeout_tick (timers k m) - rt_tick k"] by simp
  ultimately show ?thesis using sint_diff[of "timeout_tick (timers k m) - rt_tick k" 1] assms(1)
    unfolding due_def by simp
qed

lemma clock_ok_tick:
  assumes c: "clock_ok 0 k" and l: "timer_list k' = timer_list k" and t: "timers k' = timers k"
    and n: "rt_tick k' = rt_tick k + 1"
  shows "clock_ok (- 1) k'"
proof -
  have d: "due k' m = due k m - 1" if "m \<in> set (timer_list k)" for m
    by (rule due_tick) (use clock_okD(2)[OF c that] t n in simp_all)
  have "sorted (map (due k) (timer_list k))" by (rule clock_okD(1)[OF c])
  then have "sorted (map (\<lambda>m. due k m - 1) (timer_list k))"
    unfolding sorted_map by (rule sorted_wrt_mono_rel[rotated]) simp
  moreover have "map (due k') (timer_list k') = map (\<lambda>m. due k m - 1) (timer_list k)"
    using d by (simp add: l)
  ultimately have "sorted (map (due k') (timer_list k'))" by simp
  moreover have "- 1 \<le> due k' m \<and> due k' m \<le> HORIZON" if "m \<in> set (timer_list k')" for m
    using d[of m] clock_okD(2)[OF c, of m] that unfolding l by linarith
  ultimately show ?thesis using clock_okD(3,4)[OF c] unfolding clock_ok_def l t by blast
qed

context timeout_handler
begin

lemma tick_ok:
  assumes "inv k" "clock_ok 0 k"
  shows "\<exists>k'. rt_tick_increase user k = Some k' \<and> inv k' \<and> clock_ok 1 k' \<and> rt_tick k' = rt_tick k + 1"
proof -
  note T = tick_prologue_ok[OF inv_kinv[OF assms(1)]]
  have "clock_ok (- 1) (tick_prologue k)" by (rule clock_ok_tick[OF assms(2)]) (use T in simp_all)
  from rt_timer_check_ends[OF inv_frame[OF assms(1) T(9,10)] this] show ?thesis using T(2) by (simp add: rt_tick_increase_alt)
qed

end

text \<open>With only the timers of threads running, exactly the threads whose time is up wake.\<close>

definition times_up :: "kern \<Rightarrow> nat \<Rightarrow> bool" where
  "times_up k u \<longleftrightarrow> ThreadTimer u \<in> set (timer_list k) \<and> due k (ThreadTimer u) \<le> 0"

definition only_threads :: "kern \<Rightarrow> bool" where
  "only_threads k \<longleftrightarrow> (\<forall>n. UserTimer n \<notin> set (timer_list k))"

definition woken :: "kern \<Rightarrow> kern \<Rightarrow> bool" where
  "woken k k' \<longleftrightarrow> timer_list k' = filter (\<lambda>m. 0 < due k m) (timer_list k) \<and>
     (\<forall>m\<in>set (timer_list k'). timers k' m = timers k m) \<and> rt_tick k' = rt_tick k \<and>
     (\<forall>u. stat_of k' u = RT_THREAD_SUSPEND \<longleftrightarrow> stat_of k u = RT_THREAD_SUSPEND \<and> \<not> times_up k u) \<and>
     (\<forall>u. t_error (threads k' u) = (if times_up k u then - RT_ETIMEOUT else t_error (threads k u)))"

lemma timer_check_threads:
  "kinv k \<Longrightarrow> clock_ok (- 1) k \<Longrightarrow> fired k = [] \<Longrightarrow> only_threads k \<Longrightarrow>
     \<exists>k'. timer_check_loop user (rt_tick k) k = Some k' \<and> kinv k' \<and> clock_ok 1 k' \<and> woken k k'"
proof (induction "timer_list k" arbitrary: k)
  case Nil
  then show ?case
    by (subst timer_check_loop.simps) (auto simp: woken_def times_up_def clock_ok_def)
next
  case (Cons m ms)
  note k = Cons.prems
  note l = Cons.hyps(2)[symmetric]
  obtain t where m: "m = ThreadTimer t" using k(4) l by (cases m) (auto simp: only_threads_def)
  have r: "- 1 \<le> due k m" "due k m \<le> HORIZON" using clock_okD(2)[OF k(2), of m] l by auto
  have x: "expired (rt_tick k) k m \<longleftrightarrow> due k m \<le> 0" by (rule expired_due) (use r in \<open>simp_all add: HORIZON_def\<close>)
  show ?case
  proof (cases "due k m \<le> 0")
    case True
    let ?k = "fire_timer user m k"
    note F = fire_thread[OF k(1,2,3) l[unfolded m], where user = user, folded m]
    have d: "m \<notin> set ms" using k(1) l by (simp add: kinv_but_def timers_ok_def)
    have ne: "n \<noteq> ThreadTimer t" if "n \<in> set ms" for n using d that m by auto
    have dn: "due ?k n = due k n" if "n \<in> set ms" for n
      by (rule due_cong) (use F(5,6) ne[OF that] m in auto)
    have o: "only_threads ?k" using k(4) F(4) l by (simp add: only_threads_def)
    obtain k' where k': "timer_check_loop user (rt_tick ?k) ?k = Some k'" "kinv k'" "clock_ok 1 k'" "woken ?k k'"
      using Cons.hyps(1)[OF F(4)[symmetric] F(1,2,3) o] by auto
    have up: "times_up k u \<longleftrightarrow> u = t \<or> times_up ?k u" for u
      using True d dn[of "ThreadTimer u"] unfolding times_up_def l F(4) by (auto simp: m)
    have nt: "\<not> times_up ?k t" using d unfolding times_up_def F(4) by (simp add: m)
    have f: "filter (\<lambda>n. 0 < due ?k n) ms = filter (\<lambda>n. 0 < due k n) (m # ms)"
      using True dn by (auto intro: filter_cong)
    have "woken k k'"
      unfolding woken_def
    proof (intro conjI allI ballI)
      show "timer_list k' = filter (\<lambda>n. 0 < due k n) (timer_list k)"
        using k'(4) F(4) f by (simp add: woken_def l)
      show "timers k' n = timers k n" if "n \<in> set (timer_list k')" for n
        using k'(4) F(4,6) that ne[of n] m by (auto simp: woken_def)
      show "rt_tick k' = rt_tick k" using k'(4) F(5) by (simp add: woken_def)
      show "stat_of k' u = RT_THREAD_SUSPEND \<longleftrightarrow> stat_of k u = RT_THREAD_SUSPEND \<and> \<not> times_up k u" for u
        using k'(4) F(7)[of u] up[of u] nt by (auto simp: woken_def)
      show "t_error (threads k' u) = (if times_up k u then - RT_ETIMEOUT else t_error (threads k u))" for u
        using k'(4) F(8)[of u] up[of u] nt by (auto simp: woken_def)
    qed
    moreover have "timer_check_loop user (rt_tick k) k = timer_check_loop user (rt_tick ?k) ?k"
      by (subst timer_check_loop.simps) (simp add: l x True Let_def)
    ultimately show ?thesis using k' by auto
  next
    case False
    have pos: "1 \<le> due k n" if "n \<in> set (timer_list k)" for n
      using that False clock_okD(1)[OF k(2)] l by fastforce
    then have "clock_ok 1 k" using k(2) by (auto simp: clock_ok_def)
    moreover have "woken k k"
      using pos by (force simp: woken_def times_up_def intro!: filter_True[symmetric])
    moreover have "timer_check_loop user (rt_tick k) k = Some k"
      by (subst timer_check_loop.simps) (simp add: l x False)
    ultimately show ?thesis using k(1) by blast
  qed
qed

text \<open>One tick.\<close>

lemma tick_threads:
  assumes k: "kinv k" and c: "clock_ok 0 k" and o: "only_threads k"
  shows "\<exists>k'. rt_tick_increase user k = Some k' \<and> kinv k' \<and> clock_ok 1 k' \<and> only_threads k' \<and>
    rt_tick k' = rt_tick k + 1 \<and>
    (\<forall>u. ThreadTimer u \<in> set (timer_list k) \<longrightarrow>
      (if due k (ThreadTimer u) \<le> 1
       then stat_of k' u \<noteq> RT_THREAD_SUSPEND \<and> t_error (threads k' u) = - RT_ETIMEOUT
       else stat_of k' u = RT_THREAD_SUSPEND \<and> ThreadTimer u \<in> set (timer_list k') \<and>
            due k' (ThreadTimer u) = due k (ThreadTimer u) - 1))"
proof -
  let ?p = "(tick_prologue k)\<lparr>fired := []\<rparr>"
  note T = tick_prologue_ok[OF k]
  have c1: "clock_ok (- 1) (tick_prologue k)" by (rule clock_ok_tick[OF c]) (use T in simp_all)
  have p: "kinv ?p" "clock_ok (- 1) ?p" "fired ?p = []" "only_threads ?p"
    using T c1 o by (simp_all add: only_threads_def)
  obtain k' where k': "timer_check_loop user (rt_tick ?p) ?p = Some k'" "kinv k'" "clock_ok 1 k'" "woken ?p k'"
    using timer_check_threads[OF p] by blast
  have d: "due (tick_prologue k) m = due k m - 1" if "m \<in> set (timer_list k)" for m
    by (rule due_tick) (use clock_okD(2)[OF c that] T in simp_all)
  have st: "stat_of ?p u = stat_of (tick_prologue k) u" for u by (simp add: stat_of_def)
  have sus: "stat_of k u = RT_THREAD_SUSPEND" if "ThreadTimer u \<in> set (timer_list k)" for u
    using k that by (simp add: kinv_but_def timers_ok_def)
  have "(if due k (ThreadTimer u) \<le> 1
       then stat_of k' u \<noteq> RT_THREAD_SUSPEND \<and> t_error (threads k' u) = - RT_ETIMEOUT
       else stat_of k' u = RT_THREAD_SUSPEND \<and> ThreadTimer u \<in> set (timer_list k') \<and>
            due k' (ThreadTimer u) = due k (ThreadTimer u) - 1)"
    if u: "ThreadTimer u \<in> set (timer_list k)" for u
  proof (cases "due k (ThreadTimer u) \<le> 1")
    case True
    then have "times_up ?p u" using u T(4) d[OF u] by (simp add: times_up_def)
    then show ?thesis using True k'(4) by (simp add: woken_def)
  next
    case False
    then have n: "\<not> times_up ?p u" using u T(4) d[OF u] by (simp add: times_up_def)
    have "ThreadTimer u \<in> set (timer_list k')"
      using k'(4) u T(4) d[OF u] False by (simp add: woken_def)
    moreover from this have "due k' (ThreadTimer u) = due (tick_prologue k) (ThreadTimer u)"
      using k'(4) by (intro due_cong) (auto simp: woken_def)
    ultimately show ?thesis
      using False k'(4) n st T(7)[of u] sus[OF u] d[OF u] by (simp add: woken_def)
  qed
  moreover have "rt_tick_increase user k = Some k'"
    using k'(1) by (simp add: rt_tick_increase_alt rt_timer_check_def)
  moreover have "only_threads k'" using k'(4) o T(4) by (auto simp: woken_def only_threads_def)
  moreover have "rt_tick k' = rt_tick k + 1" using k'(4) T(2) by (simp add: woken_def)
  ultimately show ?thesis using k' by blast
qed

end
