(* ===== verification/KThread.thy ===== *)
theory KThread
  imports KTimer
begin

text \<open>
  src/rt-thread/src/thread.c: creating, starting, suspending, resuming, delaying, closing
  threads and changing their priority.  A function that gives up the processor is cut at its
  call of \<open>rt_schedule\<close>: what follows runs when the thread is scheduled again and is a
  definition of its own.  The lemmas show that every operation keeps the invariant of the
  kernel, and that a delay lasts exactly the ticks that were asked for.
\<close>

definition rt_thread_self :: "kern \<Rightarrow> nat" where "rt_thread_self = rt_current_thread"

text \<open>\<open>_thread_init\<close> without the stack, the name and the entry point, for a thread that is
  in no list.\<close>

definition rt_thread_init :: "nat \<Rightarrow> u8 \<Rightarrow> u32 \<Rightarrow> kern \<Rightarrow> int \<times> kern" where
  "rt_thread_init t priority tick k =
     (let k = RT_ASSERT (t \<noteq> 0 \<and> unat priority < RT_THREAD_PRIORITY_MAX) k;
          k = upd_thread t (\<lambda>c. c\<lparr>current_priority := priority, number_mask := 0, t_init_tick := tick,
                remaining_tick := tick, t_error := RT_EOK, t_stat := RT_THREAD_INIT\<rparr>) k
      in (RT_EOK, rt_timer_init (ThreadTimer t) 0 0 k))"

text \<open>Only the running thread may suspend itself.\<close>

definition rt_thread_suspend :: "nat \<Rightarrow> kern \<Rightarrow> int \<times> kern" where
  "rt_thread_suspend t k =
     (let k = RT_ASSERT (t = rt_thread_self k) k
      in if stat_of k t \<noteq> RT_THREAD_READY \<and> stat_of k t \<noteq> RT_THREAD_RUNNING then (- RT_ERROR, k)
         else let k = rt_schedule_remove_thread t k;
                  k = upd_thread t (\<lambda>c. c\<lparr>t_stat := with_stat RT_THREAD_SUSPEND (t_stat c)\<rparr>) k
              in (RT_EOK, snd (rt_timer_stop (ThreadTimer t) k)))"

definition rt_thread_resume :: "nat \<Rightarrow> kern \<Rightarrow> int \<times> kern" where
  "rt_thread_resume t k =
     (if stat_of k t \<noteq> RT_THREAD_SUSPEND then (- RT_ERROR, k)
      else let k = tlist_remove t k;
               k = snd (rt_timer_stop (ThreadTimer t) k)
           in (RT_EOK, rt_schedule_insert_thread t k))"

definition rt_thread_startup :: "nat \<Rightarrow> kern \<Rightarrow> int \<times> kern" where
  "rt_thread_startup t k =
     (let k = RT_ASSERT (stat_of k t = RT_THREAD_INIT) k;
          k = upd_thread t (\<lambda>c. c\<lparr>number_mask := push_bit (unat (current_priority c)) 1,
                t_stat := RT_THREAD_SUSPEND\<rparr>) k;
          k = snd (rt_thread_resume t k)
      in (RT_EOK, if rt_thread_self k \<noteq> 0 then rt_schedule k else k))"

definition rt_thread_defunct_enqueue :: "nat \<Rightarrow> kern \<Rightarrow> kern" where
  "rt_thread_defunct_enqueue t k = k\<lparr>rt_defunct := t # rt_defunct k\<rparr>"

definition close_thread :: "nat \<Rightarrow> kern \<Rightarrow> kern" where
  "close_thread t k =
     (let k = rt_timer_detach (ThreadTimer t) k;
          k = upd_thread t (\<lambda>c. c\<lparr>t_stat := RT_THREAD_CLOSE\<rparr>) k
      in rt_thread_defunct_enqueue t k)"

text \<open>\<open>rt_thread_delete\<close> does the same for a thread that was created dynamically.\<close>

definition rt_thread_detach :: "nat \<Rightarrow> kern \<Rightarrow> int \<times> kern" where
  "rt_thread_detach t k =
     (if stat_of k t = RT_THREAD_CLOSE then (RT_EOK, k)
      else (RT_EOK, close_thread t
             (if stat_of k t \<noteq> RT_THREAD_INIT then rt_schedule_remove_thread t k else k)))"

definition thread_exit :: "kern \<Rightarrow> kern" where
  "thread_exit k =
     (let t = rt_thread_self k
      in rt_schedule (close_thread t (rt_schedule_remove_thread t k)))"

definition rt_thread_yield :: "kern \<Rightarrow> int \<times> kern" where
  "rt_thread_yield k =
     (RT_EOK, rt_schedule (upd_thread (rt_thread_self k)
        (\<lambda>c. c\<lparr>remaining_tick := t_init_tick c, t_stat := t_stat c OR RT_THREAD_STAT_YIELD\<rparr>) k))"

text \<open>The running thread suspends itself and starts its timer.\<close>

definition suspend_for :: "u32 \<Rightarrow> kern \<Rightarrow> kern" where
  "suspend_for tick k =
     (let t = rt_thread_self k;
          k = snd (rt_thread_suspend t k);
          k = snd (rt_timer_control (ThreadTimer t) 0 tick k)
      in rt_timer_start (ThreadTimer t) k)"

definition rt_thread_sleep :: "u32 \<Rightarrow> kern \<Rightarrow> kern" where
  "rt_thread_sleep tick k =
     rt_schedule (suspend_for tick (upd_thread (rt_thread_self k) (\<lambda>c. c\<lparr>t_error := RT_EOK\<rparr>) k))"

text \<open>When the thread \<open>t\<close> runs again: a time-out is the normal end of a delay.\<close>

definition delay_end :: "nat \<Rightarrow> kern \<Rightarrow> int \<times> kern" where
  "delay_end t k =
     (let k = (if t_error (threads k t) = - RT_ETIMEOUT
               then upd_thread t (\<lambda>c. c\<lparr>t_error := RT_EOK\<rparr>) k else k)
      in (t_error (threads k t), k))"

definition rt_thread_delay :: "u32 \<Rightarrow> kern \<Rightarrow> kern" where "rt_thread_delay = rt_thread_sleep"

definition rt_thread_mdelay :: "u32 \<Rightarrow> kern \<Rightarrow> kern" where
  "rt_thread_mdelay ms = rt_thread_sleep (rt_tick_from_millisecond ms)"

text \<open>\<open>rt_thread_delay_until\<close>: whether the thread waits, and the new value of \<open>*tick\<close>.\<close>

definition rt_thread_delay_until :: "u32 \<Rightarrow> u32 \<Rightarrow> kern \<Rightarrow> bool \<times> u32 \<times> kern" where
  "rt_thread_delay_until tick inc_tick k =
     (let k = upd_thread (rt_thread_self k) (\<lambda>c. c\<lparr>t_error := RT_EOK\<rparr>) k;
          cur_tick = rt_tick_get k
      in if cur_tick - tick < inc_tick
         then (True, tick + inc_tick, rt_schedule (suspend_for (tick + inc_tick - cur_tick) k))
         else (False, cur_tick, k))"

definition change_priority :: "nat \<Rightarrow> u8 \<Rightarrow> kern \<Rightarrow> kern" where
  "change_priority t p k =
     (let set_prio = upd_thread t (\<lambda>c. c\<lparr>current_priority := p, number_mask := push_bit (unat p) 1\<rparr>)
      in if stat_of k t = RT_THREAD_READY
         then rt_schedule_insert_thread t (set_prio (rt_schedule_remove_thread t k))
         else set_prio k)"

text \<open>\<open>RT_THREAD_CTRL_STARTUP\<close> is 0, \<open>CLOSE\<close> 1, \<open>CHANGE_PRIORITY\<close> 2.\<close>

definition rt_thread_control :: "nat \<Rightarrow> int \<Rightarrow> u8 \<Rightarrow> kern \<Rightarrow> int \<times> kern" where
  "rt_thread_control t cmd arg k =
     (if cmd = 2 then (RT_EOK, change_priority t arg k)
      else if cmd = 0 then rt_thread_startup t k
      else if cmd = 1 then (let (r, k) = rt_thread_detach t k in (r, rt_schedule k))
      else (RT_EOK, k))"

section \<open>The invariant\<close>

lemma kinv_upd_prio:
  assumes k: "kinv_but E k" and p: "unat p < 32"
    and d: "stat_of k t \<noteq> RT_THREAD_READY \<or> (t \<in> E \<and> detached k t)"
  shows "kinv_but E (upd_thread t (\<lambda>c. c\<lparr>current_priority := p, number_mask := push_bit (unat p) 1\<rparr>) k)"
proof -
  define m :: u32 where "m = push_bit (unat p) 1"
  let ?k = "upd_thread t (\<lambda>c. c\<lparr>current_priority := p, number_mask := m\<rparr>) k"
  have st: "stat_of ?k u = stat_of k u" for u by (simp add: stat_of_def)
  have pr: "prio ?k u = (if u = t then unat p else prio k u)" for u by (simp add: prio_def)
  have nm: "number_mask (threads ?k u) = (if u = t then m else number_mask (threads k u))" for u
    by simp
  have out: "t \<notin> set (rt_thread_priority_table k ! j)" if "j < 32" for j
    using d in_table[OF k that, of t] that by (auto simp: detached_def)
  have "table_ok ?k"
    unfolding table_ok_def
  proof (intro conjI allI impI ballI)
    fix j :: nat and u assume j: "j < 32" and u: "u \<in> set (rt_thread_priority_table ?k ! j)"
    have "u \<noteq> t" using out[OF j] u by auto
    then show "stat_of ?k u = RT_THREAD_READY" "prio ?k u = j" using in_table[OF k j] u by (auto simp: st pr)
  qed (use k in \<open>auto simp: kinv_but_def table_ok_def\<close>)
  moreover have "states_ok E ?k"
    unfolding states_ok_def
  proof (intro conjI allI impI)
    fix u assume u: "u \<notin> E"
    { assume "stat_of ?k u = RT_THREAD_READY"
      then show "u \<in> set (rt_thread_priority_table ?k ! prio ?k u)"
        using ready_in_table[OF k u] d u by (auto simp: st pr) }
    show "stat_of ?k u = RT_THREAD_RUNNING \<Longrightarrow> rt_current_thread ?k = u"
      using running_is_current[OF k u] by (simp add: st)
  next
    show "rt_current_thread ?k \<in> E \<or> stat_of ?k (rt_current_thread ?k) \<noteq> RT_THREAD_READY"
      using k by (simp add: kinv_but_def states_ok_def st)
  qed
  moreover have "prios_ok ?k"
    unfolding prios_ok_def st pr nm using k p by (auto simp: kinv_but_def prios_ok_def m_def)
  moreover have "waits_ok ?k" "timers_ok ?k" using k by (simp_all add: kinv_but_def waits_ok_def timers_ok_def st)
  ultimately have "kinv_but E ?k" using k by (simp add: kinv_but_def)
  then show ?thesis by (simp add: m_def)
qed

lemma kinv_change_priority:
  assumes k: "kinv k" and p: "unat p < 32"
  shows "kinv (change_priority t p k)"
proof (cases "stat_of k t = RT_THREAD_READY")
  case True
  let ?f = "\<lambda>c. c\<lparr>current_priority := p, number_mask := push_bit (unat p) (1::u32)\<rparr>"
  let ?k1 = "rt_schedule_remove_thread t k"
  note q = kinv_prio[OF k, of t, unfolded True, simplified]
  have k1: "kinv_but {t} ?k1" "detached ?k1 t" using kinv_remove[OF k, of t] q by auto
  have "kinv_but {t} (upd_thread t ?f ?k1)" by (rule kinv_upd_prio[OF k1(1) p]) (use k1 in simp)
  moreover have "detached (upd_thread t ?f ?k1) t" using k1(2) by (simp add: detached_def)
  ultimately have "kinv (rt_schedule_insert_thread t (upd_thread t ?f ?k1))"
    by (rule kinv_insert)
      (use p True kinv_stat_current[OF k] timer_not_listed[OF k, of t] in \<open>auto simp: prio_def\<close>)
  then show ?thesis using True by (simp add: change_priority_def Let_def)
next
  case False
  then show ?thesis using kinv_upd_prio[OF k p, of t] by (simp add: change_priority_def Let_def)
qed

text \<open>After the running thread has suspended itself it is in no list and has no timer.\<close>

lemma suspend_state:
  assumes k: "kinv k" and c: "t = rt_current_thread k" "stat_of k t = RT_THREAD_RUNNING"
  shows "kinv (snd (rt_thread_suspend t k))" "detached (snd (rt_thread_suspend t k)) t"
    "stat_of (snd (rt_thread_suspend t k)) u = (if u = t then RT_THREAD_SUSPEND else stat_of k u)"
    "prio (snd (rt_thread_suspend t k)) = prio k"
    "waitq (snd (rt_thread_suspend t k)) = waitq k" "ipc (snd (rt_thread_suspend t k)) = ipc k"
    "rt_current_thread (snd (rt_thread_suspend t k)) = t"
    "rt_scheduler_lock_nest (snd (rt_thread_suspend t k)) = rt_scheduler_lock_nest k"
    "rt_tick (snd (rt_thread_suspend t k)) = rt_tick k"
    "timer_list (snd (rt_thread_suspend t k)) = timer_list k"
    "n \<noteq> ThreadTimer t \<Longrightarrow> timers (snd (rt_thread_suspend t k)) n = timers k n"
    "init_tick (timers (snd (rt_thread_suspend t k)) m) = init_tick (timers k m)"
    "bit (tm_flag (timers (snd (rt_thread_suspend t k)) m)) (Suc 0) = bit (tm_flag (timers k m)) (Suc 0)"
    "t_error (threads (snd (rt_thread_suspend t k)) u) = t_error (threads k u)"
    "event_set (threads (snd (rt_thread_suspend t k)) u) = event_set (threads k u)"
    "event_info (threads (snd (rt_thread_suspend t k)) u) = event_info (threads k u)"
proof -
  let ?k1 = "rt_schedule_remove_thread t k"
  let ?f = "\<lambda>x. x\<lparr>t_stat := with_stat RT_THREAD_SUSPEND (t_stat x)\<rparr> :: tcb"
  let ?k2 = "upd_thread t ?f ?k1" let ?k3 = "snd (rt_thread_suspend t k)"
  note q = kinv_prio[OF k, of t, unfolded c(2), simplified]
  have k1: "kinv_but {t} ?k1" "detached ?k1 t" using kinv_remove[OF k, of t] q by auto
  have k2: "kinv ?k2" by (rule kinv_upd[where v = RT_THREAD_SUSPEND]) (use k1 q in auto)
  have e: "?k3 = snd (rt_timer_stop (ThreadTimer t) ?k2)"
    using c by (simp add: rt_thread_suspend_def rt_thread_self_def Let_def)
  note S = same_threadsD[OF rt_timer_stop_state(1)[of ?k2 "ThreadTimer t"], folded e]
  show "kinv ?k3" unfolding e by (rule kinv_timer_stop[OF k2])
  show "detached ?k3 t" unfolding S(11) using k1(2) by (simp add: detached_def)
  show "stat_of ?k3 u = (if u = t then RT_THREAD_SUSPEND else stat_of k u)" unfolding S(9) by (simp add: stat_of_def)
  show "prio ?k3 = prio k" unfolding S(10) by simp
  show "waitq ?k3 = waitq k" unfolding S(2) using removeAll_waitq[OF k, of t] c(2) by (auto simp: fun_eq_iff)
  show "ipc ?k3 = ipc k" "rt_current_thread ?k3 = t" "rt_scheduler_lock_nest ?k3 = rt_scheduler_lock_nest k"
    "rt_tick ?k3 = rt_tick k" using S c(1) by auto
  have nt: "ThreadTimer t \<notin> set (timer_list k)" using timer_not_listed[OF k, of t] c(2) by simp
  show "timer_list ?k3 = timer_list k" unfolding e using rt_timer_stop_state(2)[OF k2] nt by simp
  show "timers ?k3 n = timers k n" if "n \<noteq> ThreadTimer t" unfolding e using that by (simp add: rt_timer_stop_def)
  show "init_tick (timers ?k3 m) = init_tick (timers k m)"
    "bit (tm_flag (timers ?k3 m)) (Suc 0) = bit (tm_flag (timers k m)) (Suc 0)"
    unfolding e by (auto simp: rt_timer_stop_def)
  show "t_error (threads ?k3 u) = t_error (threads k u)" "event_set (threads ?k3 u) = event_set (threads k u)"
    "event_info (threads ?k3 u) = event_info (threads k u)" unfolding S(1) by simp_all
qed

text \<open>A thread that is resumed leaves its waiting list and its timer is stopped.\<close>

lemma resume_state:
  assumes k: "kinv k" and s: "stat_of k t = RT_THREAD_SUSPEND"
  shows "kinv (snd (rt_thread_resume t k))"
    "stat_of (snd (rt_thread_resume t k)) u =
       (if u = t then if t = rt_current_thread k then RT_THREAD_RUNNING else RT_THREAD_READY else stat_of k u)"
    "waitq (snd (rt_thread_resume t k)) q = removeAll t (waitq k q)"
    "prio (snd (rt_thread_resume t k)) = prio k" "ipc (snd (rt_thread_resume t k)) = ipc k"
    "rt_current_thread (snd (rt_thread_resume t k)) = rt_current_thread k"
    "rt_scheduler_lock_nest (snd (rt_thread_resume t k)) = rt_scheduler_lock_nest k"
    "rt_tick (snd (rt_thread_resume t k)) = rt_tick k"
    "timer_list (snd (rt_thread_resume t k)) = removeAll (ThreadTimer t) (timer_list k)"
    "n \<noteq> ThreadTimer t \<Longrightarrow> timers (snd (rt_thread_resume t k)) n = timers k n"
    "bit (tm_flag (timers (snd (rt_thread_resume t k)) m)) (Suc 0) = bit (tm_flag (timers k m)) (Suc 0)"
    "ThreadTimer t \<notin> set (fired k) \<Longrightarrow> fired (snd (rt_thread_resume t k)) = fired k"
    "t_error (threads (snd (rt_thread_resume t k)) u) = t_error (threads k u)"
    "event_set (threads (snd (rt_thread_resume t k)) u) = event_set (threads k u)"
    "event_info (threads (snd (rt_thread_resume t k)) u) = event_info (threads k u)"
proof -
  let ?k1 = "tlist_remove t k" let ?k2 = "snd (rt_timer_stop (ThreadTimer t) ?k1)"
  let ?k3 = "snd (rt_thread_resume t k)"
  have e: "?k3 = rt_schedule_insert_thread t ?k2" using s by (simp add: rt_thread_resume_def Let_def)
  have k1: "kinv ?k1" "detached ?k1 t" using kinv_tlist_remove[OF k, of t] s by auto
  have k2: "kinv ?k2" by (rule kinv_timer_stop[OF k1(1)])
  note S = same_threadsD[OF rt_timer_stop_state(1)[of ?k1 "ThreadTimer t"]]
  have l: "timer_list ?k2 = removeAll (ThreadTimer t) (timer_list k)" using rt_timer_stop_state(2)[OF k1(1)] by simp
  have d2: "tlist_remove t ?k2 = ?k2"
    by (simp add: rt_timer_stop_def tlist_remove_def timer_remove_def upd_timer_def comp_def)
  have "kinv (rt_schedule_insert_thread t (tlist_remove t ?k2))"
    by (rule kinv_wake[OF k2]) (use S s l in simp_all)
  then show "kinv ?k3" unfolding e d2 .
  show "stat_of ?k3 u =
      (if u = t then if t = rt_current_thread k then RT_THREAD_RUNNING else RT_THREAD_READY else stat_of k u)"
    "waitq ?k3 q = removeAll t (waitq k q)" "prio ?k3 = prio k" "ipc ?k3 = ipc k"
    "rt_current_thread ?k3 = rt_current_thread k"
    "rt_scheduler_lock_nest ?k3 = rt_scheduler_lock_nest k" "rt_tick ?k3 = rt_tick k"
    "timer_list ?k3 = removeAll (ThreadTimer t) (timer_list k)"
    "t_error (threads ?k3 u) = t_error (threads k u)" "event_set (threads ?k3 u) = event_set (threads k u)"
    "event_info (threads ?k3 u) = event_info (threads k u)"
    unfolding e using S l by (auto simp: fun_eq_iff)
  show "timers ?k3 n = timers k n" if "n \<noteq> ThreadTimer t" unfolding e using that by (simp add: rt_timer_stop_def)
  show "bit (tm_flag (timers ?k3 m)) (Suc 0) = bit (tm_flag (timers k m)) (Suc 0)"
    unfolding e by (auto simp: rt_timer_stop_def)
  show "fired ?k3 = fired k" if "ThreadTimer t \<notin> set (fired k)"
    unfolding e using that by (simp add: rt_timer_stop_def)
qed

section \<open>The other operations keep the invariant\<close>

lemma kinv_upd_init:
  assumes k: "kinv k" and s: "stat_of k t \<notin> {RT_THREAD_READY, RT_THREAD_SUSPEND, RT_THREAD_RUNNING}"
    and f: "t_stat (f (threads k t)) AND RT_THREAD_STAT_MASK = v"
    and v: "v \<notin> {RT_THREAD_READY, RT_THREAD_RUNNING}"
    and p: "v = RT_THREAD_SUSPEND \<Longrightarrow> unat (current_priority (f (threads k t))) < 32 \<and>
      number_mask (f (threads k t)) = push_bit (unat (current_priority (f (threads k t)))) 1"
  shows "kinv (upd_thread t f k)"
proof -
  let ?k = "upd_thread t f k"
  have st: "stat_of ?k u = (if u = t then v else stat_of k u)" for u using f by (simp add: stat_of_def)
  have pr: "u \<noteq> t \<Longrightarrow> prio ?k u = prio k u" for u by (simp add: prio_def)
  have out: "t \<notin> set (rt_thread_priority_table k ! j)" if "j < 32" for j using in_table[OF k that, of t] s by auto
  have wt: "t \<notin> set (waitq k q)" for q using in_waitq[OF k, of t q] s by auto
  have "table_ok ?k"
    unfolding table_ok_def
  proof (intro conjI allI impI ballI)
    fix j :: nat and u assume j: "j < 32" and u: "u \<in> set (rt_thread_priority_table ?k ! j)"
    have "u \<noteq> t" using out[OF j] u by auto
    then show "stat_of ?k u = RT_THREAD_READY" "prio ?k u = j" using in_table[OF k j] u by (auto simp: st pr)
  qed (use k in \<open>auto simp: kinv_but_def table_ok_def\<close>)
  moreover have "states_ok {} ?k"
    unfolding states_ok_def
  proof (intro conjI allI impI)
    fix u
    show "stat_of ?k u = RT_THREAD_READY \<Longrightarrow> u \<in> set (rt_thread_priority_table ?k ! prio ?k u)"
      using ready_in_table[OF k, of u] v by (cases "u = t") (auto simp: st pr)
    show "stat_of ?k u = RT_THREAD_RUNNING \<Longrightarrow> rt_current_thread ?k = u"
      using running_is_current[OF k, of u] v by (auto simp: st split: if_splits)
  next
    show "rt_current_thread ?k \<in> {} \<or> stat_of ?k (rt_current_thread ?k) \<noteq> RT_THREAD_READY"
      using kinv_stat_current[OF k] v by (auto simp: st)
  qed
  moreover have "prios_ok ?k"
    unfolding prios_ok_def
  proof (intro allI impI)
    fix u assume u: "stat_of ?k u \<in> {RT_THREAD_READY, RT_THREAD_SUSPEND, RT_THREAD_RUNNING}"
    show "prio ?k u < 32 \<and> number_mask (threads ?k u) = push_bit (prio ?k u) 1"
    proof (cases "u = t")
      case True
      then show ?thesis using p u v by (simp add: st prio_def)
    next
      case False
      then show ?thesis using kinv_prio[OF k, of u] u by (simp add: st pr)
    qed
  qed
  moreover have "waits_ok ?k"
  proof -
    have "stat_of ?k u = RT_THREAD_SUSPEND" if "u \<in> set (waitq k q)" for u q
      using in_waitq[OF k that] wt that by (auto simp: st)
    then show ?thesis using k by (simp add: kinv_but_def waits_ok_def)
  qed
  moreover have "timers_ok ?k"
    using k s v by (auto simp: kinv_but_def timers_ok_def st)
  ultimately show ?thesis using k by (simp add: kinv_but_def)
qed

lemma with_init_stat [simp]: "RT_THREAD_SUSPEND AND RT_THREAD_STAT_MASK = RT_THREAD_SUSPEND"
  "RT_THREAD_INIT AND RT_THREAD_STAT_MASK = RT_THREAD_INIT"
  "RT_THREAD_CLOSE AND RT_THREAD_STAT_MASK = RT_THREAD_CLOSE"
  by (simp_all add: stat_defs RT_THREAD_STAT_MASK_def)

lemma init_stat_other [simp]:
  "RT_THREAD_INIT \<noteq> RT_THREAD_READY" "RT_THREAD_INIT \<noteq> RT_THREAD_SUSPEND"
  "RT_THREAD_INIT \<noteq> RT_THREAD_RUNNING" "RT_THREAD_CLOSE \<noteq> RT_THREAD_READY"
  "RT_THREAD_CLOSE \<noteq> RT_THREAD_SUSPEND" "RT_THREAD_CLOSE \<noteq> RT_THREAD_RUNNING"
  by (simp_all add: stat_defs)

text \<open>A new thread starts with a priority below 32; it is then ready.\<close>

lemma kinv_startup:
  assumes k: "kinv k" and s: "stat_of k t = RT_THREAD_INIT" and p: "prio k t < 32"
  shows "kinv (snd (rt_thread_startup t k))"
proof -
  let ?f = "\<lambda>c. c\<lparr>number_mask := push_bit (unat (current_priority c)) (1::u32), t_stat := RT_THREAD_SUSPEND\<rparr> :: tcb"
  let ?k1 = "upd_thread t ?f k"
  have k1: "kinv ?k1" by (rule kinv_upd_init[where v = RT_THREAD_SUSPEND])
      (use k s p in \<open>auto simp: prio_def\<close>)
  have "stat_of ?k1 t = RT_THREAD_SUSPEND" by (simp add: stat_of_def)
  then have "kinv (snd (rt_thread_resume t ?k1))" by (rule resume_state(1)[OF k1])
  then show ?thesis using s by (auto simp: rt_thread_startup_def Let_def rt_thread_self_def kinv_rt_schedule)
qed

lemma kinv_yield: "kinv k \<Longrightarrow> kinv (snd (rt_thread_yield k))"
  unfolding rt_thread_yield_def snd_conv
  by (rule kinv_rt_schedule, rule kinv_upd_same) (simp_all add: stat_of_def)

text \<open>Suspending with a timeout.\<close>

lemma suspend_for_state:
  assumes k: "kinv k" and c: "t = rt_current_thread k" "stat_of k t = RT_THREAD_RUNNING"
    and ck: "clock_ok 0 k" and h: "uint tick \<le> HORIZON"
  shows "kinv (suspend_for tick k)" "clock_ok 0 (suspend_for tick k)"
    "stat_of (suspend_for tick k) u = (if u = t then RT_THREAD_SUSPEND else stat_of k u)"
    "set (timer_list (suspend_for tick k)) = insert (ThreadTimer t) (set (timer_list k))"
    "due (suspend_for tick k) n = (if n = ThreadTimer t then uint tick else due k n)"
    "waitq (suspend_for tick k) = waitq k" "ipc (suspend_for tick k) = ipc k"
    "rt_tick (suspend_for tick k) = rt_tick k"
    "t_error (threads (suspend_for tick k) u) = t_error (threads k u)"
proof -
  let ?k1 = "snd (rt_thread_suspend t k)" and ?m = "ThreadTimer t"
  let ?k2 = "upd_timer ?m (\<lambda>c. c\<lparr>init_tick := tick\<rparr>) ?k1"
  have e: "suspend_for tick k = rt_timer_start ?m ?k2"
    using c(1) by (simp add: suspend_for_def Let_def rt_thread_self_def rt_timer_control_def)
  note S = suspend_state[OF k c]
  have nt: "?m \<notin> set (timer_list k)" using timer_not_listed[OF k, of t] c(2) by simp
  have st2: "stat_of ?k2 u = (if u = t then RT_THREAD_SUSPEND else stat_of k u)" for u
    using S(3)[of u] by (simp add: stat_of_def)
  have k2: "kinv ?k2"
    by (rule kinv_same[OF _ S(1)])
      (use S(1) in \<open>auto simp: same_threads_def upd_timer_def kinv_but_def timers_ok_def stat_of_def\<close>)
  have o: "n = ThreadTimer u \<Longrightarrow> \<not> bit (tm_flag (timers ?k1 n)) (Suc 0)" for n u
    using clock_okD(3)[OF ck, of u] S(13)[of n] by auto
  have c2: "clock_ok 0 ?k2"
    by (rule clock_ok_filter[OF ck, of _ "\<lambda>_. True"]) (use S nt o in auto)
  note R = rt_timer_start_state[where m = ?m and k = ?k2]
  show "kinv (suspend_for tick k)" unfolding e by (rule kinv_timer_start[OF k2]) (use st2 in simp)
  show "clock_ok 0 (suspend_for tick k)" unfolding e
    by (rule clock_ok_start[OF c2]) (use h in auto)
  show "set (timer_list (suspend_for tick k)) = insert ?m (set (timer_list k))"
    unfolding e R(2) using S(10) by simp
  have "due ?k2 n = due k n" if "n \<noteq> ?m" using S(9) S(11)[OF that] that by (simp add: due_def)
  then show "due (suspend_for tick k) n = (if n = ?m then uint tick else due k n)"
    unfolding e using due_start[of ?k2 ?m n] h by simp
  show "stat_of (suspend_for tick k) u = (if u = t then RT_THREAD_SUSPEND else stat_of k u)"
    "waitq (suspend_for tick k) = waitq k" "ipc (suspend_for tick k) = ipc k"
    "rt_tick (suspend_for tick k) = rt_tick k"
    "t_error (threads (suspend_for tick k) u) = t_error (threads k u)"
    unfolding e using same_threadsD[OF R(1)] st2 S by auto
qed

lemma clock_ok_schedule: "kinv k \<Longrightarrow> clock_ok lo k \<Longrightarrow> clock_ok lo (rt_schedule k)"
  by (erule clock_ok_filter[where P = "\<lambda>_. True"]) (simp_all add: rt_schedule_keeps)

lemma due_schedule: "kinv k \<Longrightarrow> due (rt_schedule k) = due k"
  by (simp add: due_def fun_eq_iff rt_schedule_keeps)

section \<open>Closing a thread\<close>

lemma kinv_timer_detach: "kinv_but E k \<Longrightarrow> kinv_but E (rt_timer_detach m k)"
  by (rule kinv_same[of k])
    (auto simp: rt_timer_detach_def same_threads_def timer_remove_def upd_timer_def kinv_but_def
      timers_ok_def stat_of_def distinct_removeAll)

lemma kinv_defunct [simp]: "kinv_but E (k\<lparr>rt_defunct := d\<rparr>) = kinv_but E k"
  by (simp add: kinv_but_def table_ok_def states_ok_def prios_ok_def waits_ok_def timers_ok_def
      stat_of_def prio_def)

lemma timer_detach_sel [simp]:
  "threads (rt_timer_detach m k) = threads k" "prio (rt_timer_detach m k) = prio k"
  "stat_of (rt_timer_detach m k) = stat_of k" "detached (rt_timer_detach m k) = detached k"
  "timer_list (rt_timer_detach m k) = removeAll m (timer_list k)"
  "rt_current_thread (rt_timer_detach m k) = rt_current_thread k"
  by (simp_all add: rt_timer_detach_def stat_of_def prio_def detached_def fun_eq_iff)

lemma kinv_close:
  assumes "kinv_but {t} k" "detached k t" "prio k t < 32" "number_mask (threads k t) = push_bit (prio k t) 1"
  shows "kinv (close_thread t k)"
proof -
  have "kinv (upd_thread t (\<lambda>c. c\<lparr>t_stat := RT_THREAD_CLOSE\<rparr>) (rt_timer_detach (ThreadTimer t) k))"
    by (rule kinv_upd[where v = RT_THREAD_CLOSE])
      (use assms kinv_timer_detach[OF assms(1)] in auto)
  then show ?thesis by (simp add: close_thread_def Let_def rt_thread_defunct_enqueue_def)
qed

lemma kinv_remove_close:
  assumes k: "kinv k" and s: "stat_of k t \<in> {RT_THREAD_READY, RT_THREAD_SUSPEND, RT_THREAD_RUNNING}"
  shows "kinv (close_thread t (rt_schedule_remove_thread t k))"
  by (rule kinv_close) (use kinv_remove[OF k] kinv_prio[OF k s] in auto)

lemma kinv_thread_exit:
  assumes "kinv k" "stat_of k (rt_current_thread k) = RT_THREAD_RUNNING"
  shows "kinv (thread_exit k)"
  using kinv_rt_schedule[OF kinv_remove_close[OF assms(1), of "rt_current_thread k"]] assms(2)
  by (simp add: thread_exit_def rt_thread_self_def Let_def)

lemma kinv_thread_detach:
  assumes k: "kinv k"
    and s: "stat_of k t \<in> {RT_THREAD_INIT, RT_THREAD_READY, RT_THREAD_SUSPEND, RT_THREAD_RUNNING, RT_THREAD_CLOSE}"
  shows "kinv (snd (rt_thread_detach t k))"
proof -
  consider "stat_of k t = RT_THREAD_CLOSE" | "stat_of k t = RT_THREAD_INIT"
    | "stat_of k t \<in> {RT_THREAD_READY, RT_THREAD_SUSPEND, RT_THREAD_RUNNING}" using s by blast
  then show ?thesis
  proof cases
    case 1 then show ?thesis using k by (simp add: rt_thread_detach_def)
  next
    case 2
    then have "kinv (upd_thread t (\<lambda>c. c\<lparr>t_stat := RT_THREAD_CLOSE\<rparr>) (rt_timer_detach (ThreadTimer t) k))"
      by (intro kinv_upd_init[where v = RT_THREAD_CLOSE]) (use kinv_timer_detach[OF k] in auto)
    then show ?thesis using 2
      by (simp add: rt_thread_detach_def close_thread_def Let_def rt_thread_defunct_enqueue_def stat_defs)
  next
    case 3
    then have "stat_of k t \<noteq> RT_THREAD_CLOSE" "stat_of k t \<noteq> RT_THREAD_INIT" by (auto simp: stat_defs)
    then show ?thesis using kinv_remove_close[OF k 3] by (simp add: rt_thread_detach_def)
  qed
qed

section \<open>Starting the system\<close>

text \<open>\<open>rtthread_startup\<close> of components.c with \<open>rt_application_init\<close> and
  \<open>rt_thread_idle_init\<close> of idle.c, after the set-up of the board: the main thread at address
  \<open>m\<close> (its memory allocated), the idle thread at \<open>i\<close>.\<close>

definition RT_MAIN_THREAD_PRIORITY :: u8 where "RT_MAIN_THREAD_PRIORITY = 10"

definition rt_application_init :: "nat \<Rightarrow> kern \<Rightarrow> kern" where
  "rt_application_init m k =
     snd (rt_thread_startup m (snd (rt_thread_init m RT_MAIN_THREAD_PRIORITY 20 k)))"

definition rt_thread_idle_init :: "nat \<Rightarrow> kern \<Rightarrow> kern" where
  "rt_thread_idle_init i k =
     snd (rt_thread_startup i (snd (rt_thread_init i (of_nat (RT_THREAD_PRIORITY_MAX - 1)) 32 k)))"

definition rtthread_startup :: "nat \<Rightarrow> nat \<Rightarrow> kern \<Rightarrow> kern" where
  "rtthread_startup m i k =
     rt_system_scheduler_start (rt_thread_idle_init i (rt_application_init m
       (rt_system_scheduler_init (rt_system_timer_init k))))"

text \<open>Memory before the start: zeros.\<close>

definition ipc0 :: ipc where
  "ipc0 = \<lparr>sems = (\<lambda>_. \<lparr>s_flag = 0, s_value = 0\<rparr>),
     mutexes = (\<lambda>_. \<lparr>m_flag = 0, m_value = 0, original_priority = 0, m_hold = 0, m_owner = 0\<rparr>),
     events = (\<lambda>_. \<lparr>e_flag = 0, e_set = 0\<rparr>),
     mailboxes = (\<lambda>_. \<lparr>mb_flag = 0, mb_pool = [], mb_size = 0, mb_entry = 0, mb_in = 0, mb_out = 0\<rparr>),
     mqs = (\<lambda>_. \<lparr>mq_flag = 0, mq_next = [], mq_data = [], mq_msg_size = 0, mq_max = 0, mq_entry = 0,
       mq_head = None, mq_tail = None, mq_free = None\<rparr>)\<rparr>"

definition kern0 :: kern where
  "kern0 = \<lparr>threads = (\<lambda>_. \<lparr>t_error = 0, t_stat = 0, current_priority = 0, number_mask = 0, event_set = 0,
       event_info = 0, t_init_tick = 0, remaining_tick = 0\<rparr>),
     timers = (\<lambda>_. \<lparr>tm_flag = 0, init_tick = 0, timeout_tick = 0\<rparr>),
     rt_thread_priority_table = replicate 32 [], rt_thread_ready_priority_group = 0,
     rt_current_thread = 0, rt_current_priority = 0, rt_scheduler_lock_nest = 0, rt_interrupt_nest = 0,
     rt_tick = 0, timer_list = [], fired = [], waitq = (\<lambda>_. []), rt_defunct = [], ipc = ipc0, stuck = False\<rparr>"

lemma kinv_thread_init:
  assumes k: "kinv k" and t: "t \<noteq> 0" and p: "unat p < 32" and s: "stat_of k t = RT_THREAD_INIT"
  shows "kinv (snd (rt_thread_init t p tick k))"
    "stat_of (snd (rt_thread_init t p tick k)) = stat_of k"
    "prio (snd (rt_thread_init t p tick k)) t = unat p"
    "u \<noteq> t \<Longrightarrow> prio (snd (rt_thread_init t p tick k)) u = prio k u"
    "timer_list (snd (rt_thread_init t p tick k)) = timer_list k"
    "rt_current_thread (snd (rt_thread_init t p tick k)) = rt_current_thread k"
    "rt_scheduler_lock_nest (snd (rt_thread_init t p tick k)) = rt_scheduler_lock_nest k"
    "ipc (snd (rt_thread_init t p tick k)) = ipc k" "waitq (snd (rt_thread_init t p tick k)) = waitq k"
    "\<not> bit (tm_flag (timers k (ThreadTimer u))) (Suc 0) \<Longrightarrow>
       \<not> bit (tm_flag (timers (snd (rt_thread_init t p tick k)) (ThreadTimer u))) (Suc 0)"
proof -
  let ?f = "\<lambda>c. c\<lparr>current_priority := p, number_mask := 0, t_init_tick := tick, remaining_tick := tick,
    t_error := RT_EOK, t_stat := RT_THREAD_INIT\<rparr> :: tcb"
  let ?k1 = "upd_thread t ?f k"
  have e: "snd (rt_thread_init t p tick k) = timer_init (ThreadTimer t) 0 0 ?k1"
    using t p by (simp add: rt_thread_init_def rt_timer_init_def Let_def RT_THREAD_PRIORITY_MAX_def RT_TICK_MAX_def)
  have k1: "kinv ?k1" by (rule kinv_upd_init[where v = RT_THREAD_INIT]) (use k s in auto)
  have m: "ThreadTimer t \<notin> set (timer_list ?k1)" using timer_not_listed[OF k, of t] s by simp
  show "kinv (snd (rt_thread_init t p tick k))" unfolding e
    by (rule kinv_same[OF _ k1])
      (use k1 m in \<open>auto simp: same_threads_def timer_init_def upd_timer_def kinv_but_def timers_ok_def stat_of_def\<close>)
  show "stat_of (snd (rt_thread_init t p tick k)) = stat_of k"
    "prio (snd (rt_thread_init t p tick k)) t = unat p"
    "u \<noteq> t \<Longrightarrow> prio (snd (rt_thread_init t p tick k)) u = prio k u"
    "timer_list (snd (rt_thread_init t p tick k)) = timer_list k"
    "rt_current_thread (snd (rt_thread_init t p tick k)) = rt_current_thread k"
    "rt_scheduler_lock_nest (snd (rt_thread_init t p tick k)) = rt_scheduler_lock_nest k"
    "ipc (snd (rt_thread_init t p tick k)) = ipc k" "waitq (snd (rt_thread_init t p tick k)) = waitq k"
    "\<not> bit (tm_flag (timers k (ThreadTimer u))) (Suc 0) \<Longrightarrow>
       \<not> bit (tm_flag (timers (snd (rt_thread_init t p tick k)) (ThreadTimer u))) (Suc 0)"
    unfolding e using s by (auto simp: timer_init_def stat_of_def prio_def fun_eq_iff)
qed

lemma startup_state:
  assumes k: "kinv k" and s: "stat_of k t = RT_THREAD_INIT" and p: "prio k t < 32"
    and c: "rt_current_thread k = 0" and t: "t \<noteq> 0"
  shows "kinv (snd (rt_thread_startup t k))"
    "stat_of (snd (rt_thread_startup t k)) u = (if u = t then RT_THREAD_READY else stat_of k u)"
    "prio (snd (rt_thread_startup t k)) = prio k" "rt_current_thread (snd (rt_thread_startup t k)) = 0"
    "timer_list (snd (rt_thread_startup t k)) = removeAll (ThreadTimer t) (timer_list k)"
    "rt_scheduler_lock_nest (snd (rt_thread_startup t k)) = rt_scheduler_lock_nest k"
    "bit (tm_flag (timers (snd (rt_thread_startup t k)) m)) (Suc 0) = bit (tm_flag (timers k m)) (Suc 0)"
    "ipc (snd (rt_thread_startup t k)) = ipc k" "waitq (snd (rt_thread_startup t k)) q = removeAll t (waitq k q)"
proof -
  let ?f = "\<lambda>c. c\<lparr>number_mask := push_bit (unat (current_priority c)) (1::u32), t_stat := RT_THREAD_SUSPEND\<rparr> :: tcb"
  let ?k1 = "upd_thread t ?f k"
  show "kinv (snd (rt_thread_startup t k))" by (rule kinv_startup[OF k s p])
  have k1: "kinv ?k1" by (rule kinv_upd_init[where v = RT_THREAD_SUSPEND]) (use k s p in \<open>auto simp: prio_def\<close>)
  have "stat_of ?k1 t = RT_THREAD_SUSPEND" by (simp add: stat_of_def)
  note R = resume_state[OF k1 this]
  have e: "snd (rt_thread_startup t k) = snd (rt_thread_resume t ?k1)"
    using s c R(6) by (simp add: rt_thread_startup_def Let_def rt_thread_self_def)
  have st: "stat_of ?k1 u = (if u = t then RT_THREAD_SUSPEND else stat_of k u)" for u by (simp add: stat_of_def)
  show "stat_of (snd (rt_thread_startup t k)) u = (if u = t then RT_THREAD_READY else stat_of k u)"
    unfolding e R(2) st using c t by simp
  show "prio (snd (rt_thread_startup t k)) = prio k" unfolding e R(4) by (auto simp: prio_def)
  show "rt_current_thread (snd (rt_thread_startup t k)) = 0"
    "timer_list (snd (rt_thread_startup t k)) = removeAll (ThreadTimer t) (timer_list k)"
    "rt_scheduler_lock_nest (snd (rt_thread_startup t k)) = rt_scheduler_lock_nest k"
    "bit (tm_flag (timers (snd (rt_thread_startup t k)) m)) (Suc 0) = bit (tm_flag (timers k m)) (Suc 0)"
    "ipc (snd (rt_thread_startup t k)) = ipc k" "waitq (snd (rt_thread_startup t k)) q = removeAll t (waitq k q)"
    unfolding e R using c by simp_all
qed

lemma kinv_kern0: "kinv (rt_system_scheduler_init (rt_system_timer_init kern0))"
proof -
  let ?k = "rt_system_scheduler_init (rt_system_timer_init kern0)"
  have "stat_of ?k t = RT_THREAD_INIT" for t
    by (simp add: kern0_def rt_system_scheduler_init_def rt_system_timer_init_def stat_of_def stat_defs)
  then show ?thesis
    unfolding kinv_but_def table_ok_def states_ok_def prios_ok_def waits_ok_def timers_ok_def
    by (simp add: kern0_def rt_system_scheduler_init_def rt_system_timer_init_def RT_THREAD_PRIORITY_MAX_def)
qed

text \<open>Starting the scheduler: the thread of the highest priority runs.\<close>

lemma scheduler_start_state:
  assumes k: "kinv k" and c: "stat_of k (rt_current_thread k) \<noteq> RT_THREAD_RUNNING"
    and r: "stat_of k u = RT_THREAD_READY"
    and min: "\<And>v. stat_of k v = RT_THREAD_READY \<Longrightarrow> v \<noteq> u \<Longrightarrow> prio k u < prio k v"
  shows "kinv (rt_system_scheduler_start k)" "rt_current_thread (rt_system_scheduler_start k) = u"
    "stat_of (rt_system_scheduler_start k) v = (if v = u then RT_THREAD_RUNNING else stat_of k v)"
    "timers (rt_system_scheduler_start k) = timers k" "timer_list (rt_system_scheduler_start k) = timer_list k"
    "rt_scheduler_lock_nest (rt_system_scheduler_start k) = rt_scheduler_lock_nest k"
    "ipc (rt_system_scheduler_start k) = ipc k"
    "waitq (rt_system_scheduler_start k) q = removeAll u (waitq k q)"
proof -
  obtain t hp where s: "scheduler_get_highest_priority_thread k = (t, hp)" by force
  have pu: "prio k u < 32" using kinv_prio(1)[OF k, of u] r by simp
  have ut: "u \<in> set (rt_thread_priority_table k ! prio k u)" using ready_in_table[OF k _ r] by simp
  have g: "rt_thread_ready_priority_group k \<noteq> 0" using group_bit[OF k pu] ut by auto
  note h = highest_ready[OF k g s]
  have t: "t = u"
  proof (rule ccontr)
    assume "t \<noteq> u"
    then have "rt_thread_priority_table k ! prio k u = []" using h(6) min[OF h(4)] h(5) by simp
    then show False using ut by simp
  qed
  let ?k1 = "k\<lparr>rt_current_thread := u\<rparr>"
  let ?k2 = "rt_schedule_remove_thread u ?k1"
  have k1: "kinv_but {u} ?k1"
    using kinv_current[OF k, of "{u}" u "rt_current_priority k"] c by simp
  have pr: "prio ?k1 u < 32" "number_mask (threads ?k1 u) = push_bit (prio ?k1 u) 1"
    "stat_of ?k1 = stat_of k"
    using kinv_prio[OF k, of u] r by (auto simp: prio_def stat_of_def fun_eq_iff)
  have k2: "kinv_but (insert u {}) ?k2" "detached ?k2 u" using kinv_remove[OF k1 pr(1,2)] by auto
  have e: "rt_system_scheduler_start k = upd_thread u (\<lambda>c. c\<lparr>t_stat := RT_THREAD_RUNNING\<rparr>) ?k2"
    using s t by (simp add: rt_system_scheduler_start_def)
  have m: "RT_THREAD_RUNNING AND RT_THREAD_STAT_MASK = RT_THREAD_RUNNING"
    by (simp add: stat_defs RT_THREAD_STAT_MASK_def)
  have nt: "ThreadTimer u \<notin> set (timer_list k)" using timer_not_listed[OF k, of u] r by simp
  show "kinv (rt_system_scheduler_start k)" unfolding e
    by (rule kinv_upd[where v = RT_THREAD_RUNNING]) (use k2 pr m nt in auto)
  show "rt_current_thread (rt_system_scheduler_start k) = u"
    "timers (rt_system_scheduler_start k) = timers k" "timer_list (rt_system_scheduler_start k) = timer_list k"
    "rt_scheduler_lock_nest (rt_system_scheduler_start k) = rt_scheduler_lock_nest k"
    "ipc (rt_system_scheduler_start k) = ipc k"
    "waitq (rt_system_scheduler_start k) q = removeAll u (waitq k q)"
    unfolding e by simp_all
  have "stat_of ?k2 v = stat_of k v" using pr(3) by simp
  then show "stat_of (rt_system_scheduler_start k) v = (if v = u then RT_THREAD_RUNNING else stat_of k v)"
    unfolding e using m by (simp add: stat_of_def)
qed

lemma startup_ok:
  assumes "m \<noteq> 0" "i \<noteq> 0" "m \<noteq> i"
  shows "kinv (rtthread_startup m i kern0) \<and> clock_ok 0 (rtthread_startup m i kern0) \<and>
    timer_list (rtthread_startup m i kern0) = [] \<and>
    rt_current_thread (rtthread_startup m i kern0) = m \<and>
    (\<forall>t. stat_of (rtthread_startup m i kern0) t =
      (if t = m then RT_THREAD_RUNNING else if t = i then RT_THREAD_READY else RT_THREAD_INIT)) \<and>
    rt_scheduler_lock_nest (rtthread_startup m i kern0) = 0 \<and>
    ipc (rtthread_startup m i kern0) = ipc0 \<and> (\<forall>q. waitq (rtthread_startup m i kern0) q = [])"
proof -
  define ip :: u8 where "ip = of_nat (RT_THREAD_PRIORITY_MAX - 1)"
  let ?k0 = "rt_system_scheduler_init (rt_system_timer_init kern0)"
  let ?k1 = "snd (rt_thread_init m RT_MAIN_THREAD_PRIORITY 20 ?k0)"
  let ?k2 = "snd (rt_thread_startup m ?k1)"
  let ?k3 = "snd (rt_thread_init i ip 32 ?k2)"
  let ?k4 = "snd (rt_thread_startup i ?k3)"
  have z: "stat_of ?k0 t = RT_THREAD_INIT" "rt_current_thread ?k0 = 0" "timer_list ?k0 = []"
    "rt_scheduler_lock_nest ?k0 = 0" "ipc ?k0 = ipc0" "waitq ?k0 q = []" "\<not> bit (tm_flag (timers ?k0 (ThreadTimer t))) (Suc 0)" for t q
    by (simp_all add: kern0_def rt_system_scheduler_init_def rt_system_timer_init_def stat_of_def stat_defs)
  have p: "unat RT_MAIN_THREAD_PRIORITY = 10" "unat ip = 31"
    by (simp_all add: RT_MAIN_THREAD_PRIORITY_def RT_THREAD_PRIORITY_MAX_def ip_def)
  note I1 = kinv_thread_init[OF kinv_kern0 assms(1) _ z(1), of RT_MAIN_THREAD_PRIORITY]
  note I1 = I1[unfolded p, simplified]
  have s1: "stat_of ?k1 t = RT_THREAD_INIT" for t using z(1) by (simp add: I1(2))
  have "prio ?k1 m < 32" by (simp add: I1(3))
  note S1 = startup_state[OF I1(1) s1 this _ assms(1)]
  have c1: "rt_current_thread ?k1 = 0" using z(2) by (simp add: I1)
  note S1 = S1[OF c1]
  have "stat_of ?k2 i = RT_THREAD_INIT" using S1(2)[of i] s1 assms by simp
  note I2 = kinv_thread_init[OF S1(1) assms(2) _ this, of ip]
  note I2 = I2[unfolded p, simplified]
  have s3: "stat_of ?k3 t = (if t = m then RT_THREAD_READY else RT_THREAD_INIT)" for t
    unfolding I2(2) S1(2) using s1 by simp
  have "stat_of ?k3 i = RT_THREAD_INIT" "prio ?k3 i < 32" "rt_current_thread ?k3 = 0"
    using s3[of i] assms by (simp_all add: I2 S1)
  note S2 = startup_state[OF I2(1) this assms(2)]
  have s4: "stat_of ?k4 t = (if t = m then RT_THREAD_READY else if t = i then RT_THREAD_READY else RT_THREAD_INIT)" for t
    unfolding S2(2) s3 by simp
  have pm: "prio ?k4 m = 10" "prio ?k4 i = 31"
    using I2(4)[of m] I2(3) S1(3) I1(3) S2(3) assms by simp_all
  have e: "rtthread_startup m i kern0 = rt_system_scheduler_start ?k4"
    by (simp add: rtthread_startup_def rt_application_init_def rt_thread_idle_init_def ip_def)
  have a: "stat_of ?k4 (rt_current_thread ?k4) \<noteq> RT_THREAD_RUNNING" unfolding s4 by (simp add: stat_defs)
  have b: "stat_of ?k4 m = RT_THREAD_READY" unfolding s4 by simp
  have c: "prio ?k4 m < prio ?k4 v" if "stat_of ?k4 v = RT_THREAD_READY" "v \<noteq> m" for v
    using that pm unfolding s4 by (auto split: if_splits)
  note F = scheduler_start_state[OF S2(1) a b c, folded e]
  have l: "timer_list (rtthread_startup m i kern0) = []"
    using F(5) S2(5) I2(5) S1(5) I1(5) z(3) by simp
  have "\<not> bit (tm_flag (timers (rtthread_startup m i kern0) (ThreadTimer u))) (Suc 0)" for u
    using F(4) S2(7) I2(10) S1(7) I1(10) z(7) by simp
  then have "clock_ok 0 (rtthread_startup m i kern0)" by (simp add: clock_ok_def l)
  moreover have "rt_scheduler_lock_nest (rtthread_startup m i kern0) = 0"
    using F(6) S2(6) I2(7) S1(6) I1(7) z(4) by simp
  moreover have "ipc (rtthread_startup m i kern0) = ipc0" using F(7) S2(8) I2(8) S1(8) I1(8) z(5) by simp
  moreover have "waitq (rtthread_startup m i kern0) q = []" for q
    using F(8) S2(9) I2(9) S1(9) I1(9) z(6) by simp
  ultimately show ?thesis using F(1,2,3) s4 l by simp
qed

section \<open>A delay lasts exactly as long as asked for\<close>

fun ticks :: "(nat \<Rightarrow> kern \<Rightarrow> kern) \<Rightarrow> nat \<Rightarrow> kern \<Rightarrow> kern option" where
  "ticks user 0 k = Some k"
| "ticks user (Suc n) k = Option.bind (rt_tick_increase user k) (ticks user n)"

lemma ticks_until_due:
  "kinv k \<Longrightarrow> clock_ok 0 k \<Longrightarrow> only_threads k \<Longrightarrow> ThreadTimer t \<in> set (timer_list k) \<Longrightarrow>
     stat_of k t = RT_THREAD_SUSPEND \<Longrightarrow> due k (ThreadTimer t) = int d \<Longrightarrow> 0 < d \<Longrightarrow> j \<le> d \<Longrightarrow>
     \<exists>k'. ticks user j k = Some k' \<and> (stat_of k' t = RT_THREAD_SUSPEND \<longleftrightarrow> j < d) \<and>
       (j = d \<longrightarrow> t_error (threads k' t) = - RT_ETIMEOUT)"
proof (induction j arbitrary: k d)
  case (Suc j)
  note k = Suc.prems
  obtain k' where k': "rt_tick_increase user k = Some k'" "kinv k'" "clock_ok 1 k'" "only_threads k'"
    and w: "\<And>u. ThreadTimer u \<in> set (timer_list k) \<Longrightarrow>
      (if due k (ThreadTimer u) \<le> 1
       then stat_of k' u \<noteq> RT_THREAD_SUSPEND \<and> t_error (threads k' u) = - RT_ETIMEOUT
       else stat_of k' u = RT_THREAD_SUSPEND \<and> ThreadTimer u \<in> set (timer_list k') \<and>
            due k' (ThreadTimer u) = due k (ThreadTimer u) - 1)"
    using tick_threads[OF k(1,2,3), of user] by blast
  show ?case
  proof (cases "d = 1")
    case True
    then show ?thesis using w[OF k(4)] k k'(1) by auto
  next
    case False
    have c0: "clock_ok 0 k'" using k'(3) unfolding clock_ok_def by force
    have s: "stat_of k' t = RT_THREAD_SUSPEND" "ThreadTimer t \<in> set (timer_list k')"
      "due k' (ThreadTimer t) = int (d - 1)"
      using w[OF k(4)] k False by (auto simp: of_nat_diff)
    have "0 < d - 1" "j \<le> d - 1" "j < d - 1 \<longleftrightarrow> Suc j < d" "j = d - 1 \<longleftrightarrow> Suc j = d" using k(7,8) False by auto
    then show ?thesis using Suc.IH[OF k'(2) c0 k'(4) s(2,1,3)] k'(1) by simp
  qed
qed simp



end
