(* ===== verification/KIpc.thy ===== *)
theory KIpc
  imports KThread
begin

text \<open>
  The first half of src/rt-thread/src/ipc.c: the waiting lists, semaphores, mutexes and
  events.  A call that may block is cut at \<open>rt_schedule\<close>: \<open>Waiting\<close> says that the thread has
  given up the processor, and what it does when it runs again is the definition with the
  suffix \<open>_end\<close>.  The hooks of \<open>RT_OBJECT_HOOK_CALL\<close> are not set by the firmware, and the
  list of all objects (object.c) is left out.
\<close>

datatype ipc_result = Returned int | Waiting

definition RT_IPC_FLAG_FIFO :: u8 where "RT_IPC_FLAG_FIFO = 0"
definition RT_IPC_FLAG_PRIO :: u8 where "RT_IPC_FLAG_PRIO = 1"
definition RT_IPC_CMD_RESET :: int where "RT_IPC_CMD_RESET = 1"

section \<open>Waiting lists\<close>

definition upd_waitq :: "head \<Rightarrow> (nat list \<Rightarrow> nat list) \<Rightarrow> kern \<Rightarrow> kern" where
  "upd_waitq q f k = k\<lparr>waitq := (waitq k)(q := f (waitq k q))\<rparr>"

text \<open>By priority: before the first thread with a larger number, after equal ones.\<close>

definition insert_prio :: "kern \<Rightarrow> nat \<Rightarrow> nat list \<Rightarrow> nat list" where
  "insert_prio k t ts =
     takeWhile (\<lambda>s. \<not> prio k t < prio k s) ts @ t # dropWhile (\<lambda>s. \<not> prio k t < prio k s) ts"

definition ipc_list_suspend :: "head \<Rightarrow> nat \<Rightarrow> u8 \<Rightarrow> kern \<Rightarrow> kern" where
  "ipc_list_suspend q t flag k =
     (let k = snd (rt_thread_suspend t k)
      in if flag = RT_IPC_FLAG_FIFO then upd_waitq q (\<lambda>ts. ts @ [t]) k
         else if flag = RT_IPC_FLAG_PRIO then upd_waitq q (insert_prio k t) k
         else RT_ASSERT False k)"

definition ipc_list_resume :: "head \<Rightarrow> kern \<Rightarrow> kern" where
  "ipc_list_resume q k = snd (rt_thread_resume (hd (waitq k q)) k)"

partial_function (option) ipc_list_resume_all :: "head \<Rightarrow> kern \<Rightarrow> kern option" where
  "ipc_list_resume_all q k =
     (case waitq k q of
        [] \<Rightarrow> Some k
      | t # _ \<Rightarrow> ipc_list_resume_all q
          (snd (rt_thread_resume t (upd_thread t (\<lambda>c. c\<lparr>t_error := - RT_ERROR\<rparr>) k))))"

text \<open>The running thread waits on \<open>q\<close>, at most \<open>time\<close> ticks if \<open>time\<close> is positive.\<close>

definition start_timeout :: "nat \<Rightarrow> u32 \<Rightarrow> kern \<Rightarrow> kern" where
  "start_timeout t time k =
     (if 0 < sint time
      then rt_timer_start (ThreadTimer t) (snd (rt_timer_control (ThreadTimer t) 0 time k))
      else k)"

definition wait_on :: "head \<Rightarrow> u8 \<Rightarrow> u32 \<Rightarrow> kern \<Rightarrow> kern" where
  "wait_on q flag time k =
     (let t = rt_thread_self k
      in rt_schedule (start_timeout t time (ipc_list_suspend q t flag k)))"

definition set_error :: "nat \<Rightarrow> int \<Rightarrow> kern \<Rightarrow> kern" where
  "set_error t e = upd_thread t (\<lambda>c. c\<lparr>t_error := e\<rparr>)"

section \<open>Semaphores\<close>

definition RT_SEM_VALUE_MAX :: u16 where "RT_SEM_VALUE_MAX = 0xffff"

definition upd_sem :: "nat \<Rightarrow> (semaphore \<Rightarrow> semaphore) \<Rightarrow> kern \<Rightarrow> kern" where
  "upd_sem s f k = k\<lparr>ipc := (ipc k)\<lparr>sems := (sems (ipc k))(s := f (sems (ipc k) s))\<rparr>\<rparr>"

definition sem_value :: "kern \<Rightarrow> nat \<Rightarrow> u16" where
  "sem_value k s = s_value (sems (ipc k) s)"

definition rt_sem_init :: "nat \<Rightarrow> u32 \<Rightarrow> u8 \<Rightarrow> kern \<Rightarrow> int \<times> kern" where
  "rt_sem_init s value flag k =
     (let k = RT_ASSERT (value < 0x10000 \<and> (flag = RT_IPC_FLAG_FIFO \<or> flag = RT_IPC_FLAG_PRIO)) k;
          k = upd_waitq (SemQ s) (\<lambda>_. []) k
      in (RT_EOK, upd_sem s (\<lambda>_. \<lparr>s_flag = flag, s_value = ucast value\<rparr>) k))"

definition rt_sem_detach :: "nat \<Rightarrow> kern \<Rightarrow> (int \<times> kern) option" where
  "rt_sem_detach s k = map_option (Pair RT_EOK) (ipc_list_resume_all (SemQ s) k)"

definition rt_sem_take :: "nat \<Rightarrow> u32 \<Rightarrow> kern \<Rightarrow> ipc_result \<times> kern" where
  "rt_sem_take s time k =
     (if 0 < sem_value k s
      then (Returned RT_EOK, upd_sem s (\<lambda>x. x\<lparr>s_value := s_value x - 1\<rparr>) k)
      else if time = 0 then (Returned (- RT_ETIMEOUT), k)
      else (Waiting, wait_on (SemQ s) (s_flag (sems (ipc k) s)) time
              (set_error (rt_thread_self k) RT_EOK k)))"

definition rt_sem_take_end :: "nat \<Rightarrow> kern \<Rightarrow> int" where
  "rt_sem_take_end t k = (if t_error (threads k t) \<noteq> RT_EOK then t_error (threads k t) else RT_EOK)"

definition rt_sem_trytake :: "nat \<Rightarrow> kern \<Rightarrow> ipc_result \<times> kern" where
  "rt_sem_trytake s = rt_sem_take s 0"

definition rt_sem_release :: "nat \<Rightarrow> kern \<Rightarrow> int \<times> kern" where
  "rt_sem_release s k =
     (if waitq k (SemQ s) \<noteq> [] then (RT_EOK, rt_schedule (ipc_list_resume (SemQ s) k))
      else if sem_value k s < RT_SEM_VALUE_MAX
      then (RT_EOK, upd_sem s (\<lambda>x. x\<lparr>s_value := s_value x + 1\<rparr>) k)
      else (- RT_EFULL, k))"

definition rt_sem_control :: "nat \<Rightarrow> int \<Rightarrow> u32 \<Rightarrow> kern \<Rightarrow> (int \<times> kern) option" where
  "rt_sem_control s cmd arg k =
     (if cmd = RT_IPC_CMD_RESET
      then map_option (\<lambda>k. (RT_EOK, rt_schedule (upd_sem s (\<lambda>x. x\<lparr>s_value := ucast arg\<rparr>) k)))
             (ipc_list_resume_all (SemQ s) k)
      else Some (- RT_ERROR, k))"

section \<open>Mutexes\<close>

definition RT_MUTEX_VALUE_MAX :: u16 where "RT_MUTEX_VALUE_MAX = 0xffff"
definition RT_MUTEX_HOLD_MAX :: u8 where "RT_MUTEX_HOLD_MAX = 0xff"

definition upd_mutex :: "nat \<Rightarrow> (mutex \<Rightarrow> mutex) \<Rightarrow> kern \<Rightarrow> kern" where
  "upd_mutex x f k = k\<lparr>ipc := (ipc k)\<lparr>mutexes := (mutexes (ipc k))(x := f (mutexes (ipc k) x))\<rparr>\<rparr>"

abbreviation mutex_of :: "kern \<Rightarrow> nat \<Rightarrow> mutex" where
  "mutex_of k x \<equiv> mutexes (ipc k) x"

definition rt_mutex_init :: "nat \<Rightarrow> u8 \<Rightarrow> kern \<Rightarrow> int \<times> kern" where
  "rt_mutex_init x flag k =
     (RT_EOK, upd_mutex x (\<lambda>_. \<lparr>m_flag = RT_IPC_FLAG_PRIO, m_value = 1, original_priority = 0xff,
        m_hold = 0, m_owner = 0\<rparr>) (upd_waitq (MutexQ x) (\<lambda>_. []) k))"

definition rt_mutex_detach :: "nat \<Rightarrow> kern \<Rightarrow> (int \<times> kern) option" where
  "rt_mutex_detach x k = map_option (Pair RT_EOK) (ipc_list_resume_all (MutexQ x) k)"

definition rt_mutex_take :: "nat \<Rightarrow> u32 \<Rightarrow> kern \<Rightarrow> ipc_result \<times> kern" where
  "rt_mutex_take x time k =
     (let t = rt_thread_self k;
          k = set_error t RT_EOK k;
          more = (if m_hold (mutex_of k x) < RT_MUTEX_HOLD_MAX
                  then (\<lambda>k. (Returned RT_EOK, upd_mutex x (\<lambda>m. m\<lparr>m_hold := m_hold m + 1\<rparr>) k))
                  else (\<lambda>k. (Returned (- RT_EFULL), k)))
      in if m_owner (mutex_of k x) = t then more k
         else if 0 < m_value (mutex_of k x)
         then more (upd_mutex x (\<lambda>m. m\<lparr>m_value := m_value m - 1, m_owner := t,
                original_priority := current_priority (threads k t)\<rparr>) k)
         else if time = 0 then (Returned (- RT_ETIMEOUT), set_error t (- RT_ETIMEOUT) k)
         else let ow = m_owner (mutex_of k x);
                  k = (if prio k t < prio k ow
                       then change_priority ow (current_priority (threads k t)) k else k)
              in (Waiting, wait_on (MutexQ x) (m_flag (mutex_of k x)) time k))"

definition rt_mutex_take_end :: "nat \<Rightarrow> kern \<Rightarrow> int" where
  "rt_mutex_take_end t k = (if t_error (threads k t) \<noteq> RT_EOK then t_error (threads k t) else RT_EOK)"

definition rt_mutex_trytake :: "nat \<Rightarrow> kern \<Rightarrow> ipc_result \<times> kern" where
  "rt_mutex_trytake x = rt_mutex_take x 0"

text \<open>The mutex passes to the first waiting thread; what \<open>hold\<close> counts restarts at 1.\<close>

definition mutex_pass :: "nat \<Rightarrow> kern \<Rightarrow> int \<times> kern" where
  "mutex_pass x k =
     (let t = hd (waitq k (MutexQ x));
          k = upd_mutex x (\<lambda>m. m\<lparr>m_owner := t, original_priority := current_priority (threads k t)\<rparr>) k
      in if m_hold (mutex_of k x) < RT_MUTEX_HOLD_MAX
         then (RT_EOK, rt_schedule (ipc_list_resume (MutexQ x)
                 (upd_mutex x (\<lambda>m. m\<lparr>m_hold := m_hold m + 1\<rparr>) k)))
         else (- RT_EFULL, k))"

definition mutex_free :: "nat \<Rightarrow> kern \<Rightarrow> int \<times> kern" where
  "mutex_free x k =
     (if m_value (mutex_of k x) < RT_MUTEX_VALUE_MAX
      then (RT_EOK, upd_mutex x (\<lambda>m. m\<lparr>m_value := m_value m + 1, m_owner := 0,
              original_priority := 0xff\<rparr>) k)
      else (- RT_EFULL, k))"

definition rt_mutex_release :: "nat \<Rightarrow> kern \<Rightarrow> int \<times> kern" where
  "rt_mutex_release x k =
     (let t = rt_thread_self k
      in if t \<noteq> m_owner (mutex_of k x) then (- RT_ERROR, set_error t (- RT_ERROR) k)
         else let k = upd_mutex x (\<lambda>m. m\<lparr>m_hold := m_hold m - 1\<rparr>) k
              in if m_hold (mutex_of k x) \<noteq> 0 then (RT_EOK, k)
                 else let k = (if original_priority (mutex_of k x) \<noteq> current_priority (threads k t)
                               then change_priority t (original_priority (mutex_of k x)) k else k)
                      in if waitq k (MutexQ x) \<noteq> [] then mutex_pass x k else mutex_free x k)"

definition rt_mutex_control :: "nat \<Rightarrow> int \<Rightarrow> u32 \<Rightarrow> kern \<Rightarrow> int \<times> kern" where
  "rt_mutex_control x cmd arg k = (- RT_ERROR, k)"

section \<open>Events\<close>

definition RT_EVENT_FLAG_AND :: u8 where "RT_EVENT_FLAG_AND = 1"
definition RT_EVENT_FLAG_OR :: u8 where "RT_EVENT_FLAG_OR = 2"
definition RT_EVENT_FLAG_CLEAR :: u8 where "RT_EVENT_FLAG_CLEAR = 4"

definition upd_event :: "nat \<Rightarrow> (event \<Rightarrow> event) \<Rightarrow> kern \<Rightarrow> kern" where
  "upd_event e f k = k\<lparr>ipc := (ipc k)\<lparr>events := (events (ipc k))(e := f (events (ipc k) e))\<rparr>\<rparr>"

definition ev_set :: "kern \<Rightarrow> nat \<Rightarrow> u32" where
  "ev_set k e = e_set (events (ipc k) e)"

definition rt_event_init :: "nat \<Rightarrow> u8 \<Rightarrow> kern \<Rightarrow> int \<times> kern" where
  "rt_event_init e flag k =
     (let k = RT_ASSERT (flag = RT_IPC_FLAG_FIFO \<or> flag = RT_IPC_FLAG_PRIO) k
      in (RT_EOK, upd_event e (\<lambda>_. \<lparr>e_flag = flag, e_set = 0\<rparr>) (upd_waitq (EventQ e) (\<lambda>_. []) k)))"

definition rt_event_detach :: "nat \<Rightarrow> kern \<Rightarrow> (int \<times> kern) option" where
  "rt_event_detach e k = map_option (Pair RT_EOK) (ipc_list_resume_all (EventQ e) k)"

text \<open>Whether a wait for \<open>want\<close> with the option \<open>opt\<close> is over; \<open>None\<close>: neither AND nor OR.\<close>

definition event_met :: "u8 \<Rightarrow> u32 \<Rightarrow> u32 \<Rightarrow> bool option" where
  "event_met opt want st =
     (if opt AND RT_EVENT_FLAG_AND \<noteq> 0 then Some (want AND st = want)
      else if opt AND RT_EVENT_FLAG_OR \<noteq> 0 then Some (want AND st \<noteq> 0)
      else None)"

text \<open>The loop over the waiting threads: what is left of the list, whether a thread was
  resumed.  A thread with an invalid option ends it at once.\<close>

fun event_scan :: "nat \<Rightarrow> nat list \<Rightarrow> bool \<Rightarrow> kern \<Rightarrow> bool \<times> bool \<times> kern" where
  "event_scan e [] need k = (True, need, k)"
| "event_scan e (t # ts) need k =
     (let opt = event_info (threads k t); want = event_set (threads k t)
      in case event_met opt want (ev_set k e) of
           None \<Rightarrow> (False, need, k)
         | Some False \<Rightarrow> event_scan e ts need k
         | Some True \<Rightarrow>
             let k = (if opt AND RT_EVENT_FLAG_AND = 0
                      then upd_thread t (\<lambda>c. c\<lparr>event_set := want AND ev_set k e\<rparr>) k else k);
                 k = (if opt AND RT_EVENT_FLAG_CLEAR \<noteq> 0
                      then upd_event e (\<lambda>x. x\<lparr>e_set := e_set x AND NOT (event_set (threads k t))\<rparr>) k
                      else k)
             in event_scan e ts True (snd (rt_thread_resume t k)))"

definition rt_event_send :: "nat \<Rightarrow> u32 \<Rightarrow> kern \<Rightarrow> int \<times> kern" where
  "rt_event_send e bits k =
     (if bits = 0 then (- RT_ERROR, k)
      else let k = upd_event e (\<lambda>x. x\<lparr>e_set := e_set x OR bits\<rparr>) k
           in case event_scan e (waitq k (EventQ e)) False k of
                (valid, need, k) \<Rightarrow>
                  if \<not> valid then (- RT_EINVAL, k)
                  else (RT_EOK, if need then rt_schedule k else k))"

text \<open>The result is what is stored in \<open>*recved\<close>, if anything is.\<close>

definition rt_event_recv :: "nat \<Rightarrow> u32 \<Rightarrow> u8 \<Rightarrow> u32 \<Rightarrow> kern \<Rightarrow> ipc_result \<times> u32 option \<times> kern" where
  "rt_event_recv e want opt timeout k =
     (if want = 0 then (Returned (- RT_ERROR), None, k)
      else let t = rt_thread_self k;
               k = set_error t RT_EOK k;
               met = event_met opt want (ev_set k e);
               k = RT_ASSERT (opt AND RT_EVENT_FLAG_AND \<noteq> 0 \<or> opt AND RT_EVENT_FLAG_OR \<noteq> 0) k
           in if met = Some True
              then let got = ev_set k e AND want;
                       k = upd_thread t (\<lambda>c. c\<lparr>event_set := got, event_info := opt\<rparr>) k;
                       k = (if opt AND RT_EVENT_FLAG_CLEAR \<noteq> 0
                            then upd_event e (\<lambda>x. x\<lparr>e_set := e_set x AND NOT want\<rparr>) k else k)
                   in (Returned (t_error (threads k t)), Some got, k)
              else if timeout = 0
              then (Returned (- RT_ETIMEOUT), None, set_error t (- RT_ETIMEOUT) k)
              else (Waiting, None, wait_on (EventQ e) (e_flag (events (ipc k) e)) timeout
                      (upd_thread t (\<lambda>c. c\<lparr>event_set := want, event_info := opt\<rparr>) k)))"

definition rt_event_recv_end :: "nat \<Rightarrow> kern \<Rightarrow> int \<times> u32 option" where
  "rt_event_recv_end t k =
     (if t_error (threads k t) \<noteq> RT_EOK then (t_error (threads k t), None)
      else (t_error (threads k t), Some (event_set (threads k t))))"

definition rt_event_control :: "nat \<Rightarrow> int \<Rightarrow> u32 \<Rightarrow> kern \<Rightarrow> (int \<times> kern) option" where
  "rt_event_control e cmd arg k =
     (if cmd = RT_IPC_CMD_RESET
      then map_option (\<lambda>k. (RT_EOK, rt_schedule (upd_event e (\<lambda>x. x\<lparr>e_set := 0\<rparr>) k)))
             (ipc_list_resume_all (EventQ e) k)
      else Some (- RT_ERROR, k))"

section \<open>The invariant\<close>

lemma kinv_ipc [simp]: "kinv_but E (k\<lparr>ipc := x\<rparr>) = kinv_but E k"
  by (simp add: kinv_but_def table_ok_def states_ok_def prios_ok_def waits_ok_def timers_ok_def
      stat_of_def prio_def)

lemma ipc_upd_sel [simp]:
  "kinv_but E (upd_sem s f k) = kinv_but E k" "kinv_but E (upd_mutex x g k) = kinv_but E k"
  "kinv_but E (upd_event e h k) = kinv_but E k"
  "threads (upd_sem s f k) = threads k" "threads (upd_mutex x g k) = threads k" "threads (upd_event e h k) = threads k"
  "stat_of (upd_sem s f k) = stat_of k" "stat_of (upd_mutex x g k) = stat_of k" "stat_of (upd_event e h k) = stat_of k"
  "prio (upd_sem s f k) = prio k" "prio (upd_mutex x g k) = prio k" "prio (upd_event e h k) = prio k"
  "waitq (upd_sem s f k) = waitq k" "waitq (upd_mutex x g k) = waitq k" "waitq (upd_event e h k) = waitq k"
  "timers (upd_sem s f k) = timers k" "timers (upd_mutex x g k) = timers k" "timers (upd_event e h k) = timers k"
  "timer_list (upd_sem s f k) = timer_list k" "timer_list (upd_mutex x g k) = timer_list k"
  "timer_list (upd_event e h k) = timer_list k" "fired (upd_event e h k) = fired k"
  "rt_tick (upd_sem s f k) = rt_tick k" "rt_tick (upd_mutex x g k) = rt_tick k" "rt_tick (upd_event e h k) = rt_tick k"
  "rt_current_thread (upd_sem s f k) = rt_current_thread k"
  "rt_current_thread (upd_mutex x g k) = rt_current_thread k"
  "rt_current_thread (upd_event e h k) = rt_current_thread k"
  by (simp_all add: upd_sem_def upd_mutex_def upd_event_def stat_of_def prio_def fun_eq_iff)

lemma upd_waitq_sel [simp]:
  "threads (upd_waitq q f k) = threads k" "stat_of (upd_waitq q f k) = stat_of k"
  "prio (upd_waitq q f k) = prio k" "timers (upd_waitq q f k) = timers k"
  "timer_list (upd_waitq q f k) = timer_list k" "rt_tick (upd_waitq q f k) = rt_tick k"
  "ipc (upd_waitq q f k) = ipc k" "rt_current_thread (upd_waitq q f k) = rt_current_thread k"
  "waitq (upd_waitq q f k) = (waitq k)(q := f (waitq k q))"
  "rt_scheduler_lock_nest (upd_waitq q f k) = rt_scheduler_lock_nest k"
  by (simp_all add: upd_waitq_def stat_of_def prio_def fun_eq_iff)

lemma set_error_sel [simp]:
  "kinv_but E (set_error t e k) = kinv_but E k" "stat_of (set_error t e k) = stat_of k"
  "prio (set_error t e k) = prio k" "waitq (set_error t e k) = waitq k" "ipc (set_error t e k) = ipc k"
  "timers (set_error t e k) = timers k" "timer_list (set_error t e k) = timer_list k"
  "rt_tick (set_error t e k) = rt_tick k" "rt_current_thread (set_error t e k) = rt_current_thread k"
  "rt_scheduler_lock_nest (set_error t e k) = rt_scheduler_lock_nest k"
  "t_error (threads (set_error t e k) u) = (if u = t then e else t_error (threads k u))"
  "event_set (threads (set_error t e k) u) = event_set (threads k u)"
  "event_info (threads (set_error t e k) u) = event_info (threads k u)"
  by (simp_all add: set_error_def kinv_set_error)

lemma kinv_waitq_insert:
  assumes k: "kinv k" and s: "stat_of k t = RT_THREAD_SUSPEND" and d: "detached k t"
    and f: "set (f (waitq k q)) = insert t (set (waitq k q))" "distinct (f (waitq k q))"
  shows "kinv (upd_waitq q f k)"
proof -
  have W: "distinct (waitq k r)" "\<And>u. u \<in> set (waitq k r) \<Longrightarrow> stat_of k u = RT_THREAD_SUSPEND"
    "\<And>u r'. u \<in> set (waitq k r) \<Longrightarrow> u \<in> set (waitq k r') \<Longrightarrow> r = r'" "t \<notin> set (waitq k r)" for r
    using k d by (auto simp: kinv_but_def waits_ok_def detached_def)
  have "waits_ok (upd_waitq q f k)"
    unfolding waits_ok_def
  proof (intro conjI allI impI ballI)
    fix r
    show "distinct (waitq (upd_waitq q f k) r)" using W(1) f(2) by simp
    show "stat_of (upd_waitq q f k) u = RT_THREAD_SUSPEND" if "u \<in> set (waitq (upd_waitq q f k) r)" for u
      using that W(2) f(1) s by (auto split: if_splits)
  next
    fix r r' u assume "u \<in> set (waitq (upd_waitq q f k) r)" "u \<in> set (waitq (upd_waitq q f k) r')"
    then show "r = r'" using W(3,4) f(1) by (auto split: if_splits)
  qed
  then show ?thesis using k
    by (simp add: kinv_but_def table_ok_def states_ok_def prios_ok_def timers_ok_def) (simp add: upd_waitq_def)
qed

text \<open>The order in which a list is filled.\<close>

definition enqueue :: "u8 \<Rightarrow> kern \<Rightarrow> nat \<Rightarrow> nat list \<Rightarrow> nat list" where
  "enqueue flag k t ts = (if flag = RT_IPC_FLAG_FIFO then ts @ [t] else insert_prio k t ts)"

lemma set_insert_prio: "set (insert_prio k t ts) = insert t (set ts)"
  unfolding insert_prio_def
  by (metis (no_types, lifting) Un_insert_right list.simps(15) set_append takeWhile_dropWhile_id)

lemma distinct_insert_prio: "distinct ts \<Longrightarrow> t \<notin> set ts \<Longrightarrow> distinct (insert_prio k t ts)"
proof -
  assume d: "distinct ts" and t: "t \<notin> set ts"
  have "distinct (takeWhile P ts @ t # dropWhile P ts)" for P
  proof -
    have "distinct (takeWhile P ts @ dropWhile P ts)" using d by simp
    then show ?thesis using t by (auto simp del: takeWhile_dropWhile_id dest: set_takeWhileD set_dropWhileD)
  qed
  then show ?thesis by (simp add: insert_prio_def)
qed

lemma set_enqueue: "set (enqueue flag k t ts) = insert t (set ts)"
  "distinct ts \<Longrightarrow> t \<notin> set ts \<Longrightarrow> distinct (enqueue flag k t ts)"
  by (auto simp: enqueue_def set_insert_prio distinct_insert_prio)

abbreviation ipc_flag :: "u8 \<Rightarrow> bool" where
  "ipc_flag flag \<equiv> flag = RT_IPC_FLAG_FIFO \<or> flag = RT_IPC_FLAG_PRIO"

lemma flags_neq [simp]: "RT_IPC_FLAG_PRIO \<noteq> RT_IPC_FLAG_FIFO"
  by (simp add: RT_IPC_FLAG_PRIO_def RT_IPC_FLAG_FIFO_def)

lemma list_suspend_state:
  assumes k: "kinv k" and c: "t = rt_current_thread k" "stat_of k t = RT_THREAD_RUNNING" and g: "ipc_flag g"
  shows "kinv (ipc_list_suspend q t g k)"
    "waitq (ipc_list_suspend q t g k) = (waitq k)(q := enqueue g k t (waitq k q))"
    "stat_of (ipc_list_suspend q t g k) u = (if u = t then RT_THREAD_SUSPEND else stat_of k u)"
    "prio (ipc_list_suspend q t g k) = prio k" "ipc (ipc_list_suspend q t g k) = ipc k"
    "rt_current_thread (ipc_list_suspend q t g k) = t" "rt_tick (ipc_list_suspend q t g k) = rt_tick k"
    "timer_list (ipc_list_suspend q t g k) = timer_list k"
    "t_error (threads (ipc_list_suspend q t g k) u) = t_error (threads k u)"
    "event_set (threads (ipc_list_suspend q t g k) u) = event_set (threads k u)"
    "event_info (threads (ipc_list_suspend q t g k) u) = event_info (threads k u)"
    "rt_scheduler_lock_nest (ipc_list_suspend q t g k) = rt_scheduler_lock_nest k"
    "n \<noteq> ThreadTimer t \<Longrightarrow> timers (ipc_list_suspend q t g k) n = timers k n"
    "bit (tm_flag (timers (ipc_list_suspend q t g k) m)) (Suc 0) = bit (tm_flag (timers k m)) (Suc 0)"
proof -
  let ?k1 = "snd (rt_thread_suspend t k)" let ?k2 = "ipc_list_suspend q t g k"
  note S = suspend_state[OF k c]
  have e: "?k2 = upd_waitq q (enqueue g ?k1 t) ?k1"
    using g by (auto simp: ipc_list_suspend_def Let_def enqueue_def upd_waitq_def)
  have en: "enqueue g ?k1 t = enqueue g k t" by (simp add: enqueue_def insert_prio_def S(4) fun_eq_iff)
  have "kinv ?k1" by (rule S(1))
  then have "distinct (waitq ?k1 q)" "t \<notin> set (waitq ?k1 q)"
    using S(2) by (auto simp: kinv_but_def waits_ok_def detached_def)
  then show "kinv ?k2" unfolding e using S(3)[of t] set_enqueue
    by (intro kinv_waitq_insert[OF S(1)]) (use S(2) in auto)
  show "waitq ?k2 = (waitq k)(q := enqueue g k t (waitq k q))"
    "stat_of ?k2 u = (if u = t then RT_THREAD_SUSPEND else stat_of k u)"
    "prio ?k2 = prio k" "ipc ?k2 = ipc k" "rt_current_thread ?k2 = t" "rt_tick ?k2 = rt_tick k"
    "timer_list ?k2 = timer_list k" "t_error (threads ?k2 u) = t_error (threads k u)"
    "event_set (threads ?k2 u) = event_set (threads k u)" "event_info (threads ?k2 u) = event_info (threads k u)"
    "rt_scheduler_lock_nest ?k2 = rt_scheduler_lock_nest k"
    "n \<noteq> ThreadTimer t \<Longrightarrow> timers ?k2 n = timers k n"
    "bit (tm_flag (timers ?k2 m)) (Suc 0) = bit (tm_flag (timers k m)) (Suc 0)"
    unfolding e en using S by auto
qed

lemma start_timeout_state:
  assumes k: "kinv k" and s: "stat_of k t = RT_THREAD_SUSPEND"
  shows "kinv (start_timeout t time k)" "same_threads k (start_timeout t time k)"
proof -
  have k1: "kinv (upd_timer (ThreadTimer t) (\<lambda>c. c\<lparr>init_tick := time\<rparr>) k)"
    by (rule kinv_same[OF _ k])
      (use k in \<open>auto simp: same_threads_def upd_timer_def kinv_but_def timers_ok_def stat_of_def\<close>)
  show "kinv (start_timeout t time k)"
    using kinv_timer_start[OF k1] k s by (auto simp: start_timeout_def rt_timer_control_def stat_of_def)
  have "same_threads k (upd_timer m f k)" for m f by (simp add: same_threads_def upd_timer_def)
  then show "same_threads k (start_timeout t time k)"
    using rt_timer_start_state(1)[where k = "upd_timer (ThreadTimer t) (\<lambda>c. c\<lparr>init_tick := time\<rparr>) k"]
    by (auto simp: start_timeout_def rt_timer_control_def same_threads_def)
qed

text \<open>The running thread waits: it is in the list, and another thread runs.\<close>

lemma wait_on_state:
  assumes k: "kinv k" and c: "stat_of k (rt_current_thread k) = RT_THREAD_RUNNING" and g: "ipc_flag g"
  shows "kinv (wait_on q g time k)"
    "waitq (wait_on q g time k) = (waitq k)(q := enqueue g k (rt_current_thread k) (waitq k q))"
    "stat_of (wait_on q g time k) (rt_current_thread k) = RT_THREAD_SUSPEND"
    "stat_of (wait_on q g time k) u = RT_THREAD_SUSPEND \<longleftrightarrow> u = rt_current_thread k \<or> stat_of k u = RT_THREAD_SUSPEND"
    "prio (wait_on q g time k) = prio k" "ipc (wait_on q g time k) = ipc k"
    "t_error (threads (wait_on q g time k) u) = t_error (threads k u)"
    "event_set (threads (wait_on q g time k) u) = event_set (threads k u)"
    "event_info (threads (wait_on q g time k) u) = event_info (threads k u)"
proof -
  let ?t = "rt_current_thread k"
  let ?k1 = "ipc_list_suspend q ?t g k" let ?k2 = "start_timeout ?t time ?k1"
  note L = list_suspend_state[OF k refl c g]
  have s1: "stat_of ?k1 ?t = RT_THREAD_SUSPEND" using L(3) by simp
  note T = start_timeout_state[OF L(1) s1, of time]
  note D = same_threadsD[OF T(2)]
  have e: "wait_on q g time k = rt_schedule ?k2" by (simp add: wait_on_def Let_def rt_thread_self_def)
  note R = rt_schedule_keeps[OF T(1)]
  show "kinv (wait_on q g time k)" unfolding e by (rule kinv_rt_schedule[OF T(1)])
  show "waitq (wait_on q g time k) = (waitq k)(q := enqueue g k ?t (waitq k q))"
    "stat_of (wait_on q g time k) ?t = RT_THREAD_SUSPEND"
    "stat_of (wait_on q g time k) u = RT_THREAD_SUSPEND \<longleftrightarrow> u = ?t \<or> stat_of k u = RT_THREAD_SUSPEND"
    "prio (wait_on q g time k) = prio k" "ipc (wait_on q g time k) = ipc k"
    "t_error (threads (wait_on q g time k) u) = t_error (threads k u)"
    "event_set (threads (wait_on q g time k) u) = event_set (threads k u)"
    "event_info (threads (wait_on q g time k) u) = event_info (threads k u)"
    unfolding e R using D L by (auto simp: R(12))
qed

section \<open>Resuming\<close>

lemma frame_resume: "kinv k \<Longrightarrow> stat_of k t = RT_THREAD_SUSPEND \<Longrightarrow> frame k (snd (rt_thread_resume t k))"
  by (simp add: frame_def resume_state)

text \<open>The first waiting thread is resumed.\<close>

lemma list_resume_state:
  assumes k: "kinv k" and q: "waitq k q = t # ts"
  shows "kinv (ipc_list_resume q k)" "waitq (ipc_list_resume q k) = (waitq k)(q := ts)"
    "stat_of (ipc_list_resume q k) u = (if u = t
       then if t = rt_current_thread k then RT_THREAD_RUNNING else RT_THREAD_READY else stat_of k u)"
    "prio (ipc_list_resume q k) = prio k" "ipc (ipc_list_resume q k) = ipc k"
    "rt_current_thread (ipc_list_resume q k) = rt_current_thread k"
    "t_error (threads (ipc_list_resume q k) u) = t_error (threads k u)"
    "event_set (threads (ipc_list_resume q k) u) = event_set (threads k u)"
    "event_info (threads (ipc_list_resume q k) u) = event_info (threads k u)"
proof -
  have e: "ipc_list_resume q k = snd (rt_thread_resume t k)" using q by (simp add: ipc_list_resume_def)
  have s: "stat_of k t = RT_THREAD_SUSPEND" using in_waitq[OF k, of t q] q by simp
  note R = resume_state[OF k s]
  have d: "distinct (waitq k q)" "\<And>r. r \<noteq> q \<Longrightarrow> t \<notin> set (waitq k r)"
    using k q unfolding kinv_but_def waits_ok_def by (blast, metis list.set_intros(1))
  have "waitq (snd (rt_thread_resume t k)) r = ((waitq k)(q := ts)) r" for r
    unfolding R(3) using d q by (auto simp: removeAll_id)
  then show "waitq (ipc_list_resume q k) = (waitq k)(q := ts)" unfolding e by auto
  show "kinv (ipc_list_resume q k)"
    "stat_of (ipc_list_resume q k) u = (if u = t
       then if t = rt_current_thread k then RT_THREAD_RUNNING else RT_THREAD_READY else stat_of k u)"
    "prio (ipc_list_resume q k) = prio k" "ipc (ipc_list_resume q k) = ipc k"
    "rt_current_thread (ipc_list_resume q k) = rt_current_thread k"
    "t_error (threads (ipc_list_resume q k) u) = t_error (threads k u)"
    "event_set (threads (ipc_list_resume q k) u) = event_set (threads k u)"
    "event_info (threads (ipc_list_resume q k) u) = event_info (threads k u)"
    unfolding e using R by simp_all
qed

text \<open>The loop of \<open>_ipc_list_resume_all\<close> ends because every thread of a waiting list is
  suspended; the list is empty afterwards and its threads have \<open>-RT_ERROR\<close>.\<close>

lemma resume_all_state:
  "kinv k \<Longrightarrow> \<exists>k'. ipc_list_resume_all q k = Some k' \<and> frame k k' \<and> waitq k' = (waitq k)(q := []) \<and>
     prio k' = prio k \<and>
     (\<forall>u. if u \<in> set (waitq k q)
          then stat_of k' u \<noteq> RT_THREAD_SUSPEND \<and> t_error (threads k' u) = - RT_ERROR
          else stat_of k' u = stat_of k u \<and> t_error (threads k' u) = t_error (threads k u))"
proof (induction "waitq k q" arbitrary: k)
  case Nil
  then show ?case by (subst ipc_list_resume_all.simps) (auto simp: frame_def)
next
  case (Cons t ts)
  note k = Cons.prems
  let ?k1 = "upd_thread t (\<lambda>c. c\<lparr>t_error := - RT_ERROR\<rparr>) k"
  have k1: "kinv ?k1" "waitq ?k1 q = t # ts" using k Cons.hyps(2) by (simp_all add: kinv_set_error)
  note R = list_resume_state[OF k1]
  let ?k2 = "ipc_list_resume q ?k1"
  have fr: "frame k ?k2" using R(1,2,5,8,9) Cons.hyps(2)[symmetric] by (auto simp: frame_def)
  have nt: "t \<notin> set ts" using k Cons.hyps(2) unfolding kinv_but_def waits_ok_def by (metis distinct.simps(2))
  have "ts = waitq ?k2 q" using R(2) by simp
  from Cons.hyps(1)[OF this R(1)] obtain k' where k': "ipc_list_resume_all q ?k2 = Some k'" "frame ?k2 k'"
    "waitq k' = (waitq ?k2)(q := [])" "prio k' = prio ?k2"
    and w: "\<And>u. if u \<in> set ts then stat_of k' u \<noteq> RT_THREAD_SUSPEND \<and> t_error (threads k' u) = - RT_ERROR
          else stat_of k' u = stat_of ?k2 u \<and> t_error (threads k' u) = t_error (threads ?k2 u)"
    using R(2) by (auto simp del: upd_thread_sel(1))
  have e: "ipc_list_resume_all q k = ipc_list_resume_all q ?k2"
    using Cons.hyps(2)[symmetric] k1(2)
    by (subst ipc_list_resume_all.simps) (simp add: ipc_list_resume_def)
  have "if u \<in> set (waitq k q) then stat_of k' u \<noteq> RT_THREAD_SUSPEND \<and> t_error (threads k' u) = - RT_ERROR
      else stat_of k' u = stat_of k u \<and> t_error (threads k' u) = t_error (threads k u)" for u
    using w[of u] R(3,7)[of u] nt Cons.hyps(2)[symmetric] by (auto split: if_splits)
  moreover have "waitq k' = (waitq k)(q := [])" using k'(3) R(2) by simp
  moreover have "prio k' = prio k" using k'(4) R(4) by simp
  ultimately show ?case unfolding e using k'(1) frame_trans[OF fr k'(2)] by blast
qed

section \<open>Semaphores: what the operations do\<close>

lemma sem_upd_sel [simp]:
  "sem_value (upd_sem s f k) r = (if r = s then s_value (f (sems (ipc k) s)) else sem_value k r)"
  "sem_value (upd_waitq q g k) r = sem_value k r" "sem_value (set_error t e k) r = sem_value k r"
  by (simp_all add: sem_value_def upd_sem_def)

lemma sem_release_wakes:
  assumes k: "kinv k" and q: "waitq k (SemQ s) = t # ts"
  shows "fst (rt_sem_release s k) = RT_EOK" "kinv (snd (rt_sem_release s k))"
    "waitq (snd (rt_sem_release s k)) = (waitq k)(SemQ s := ts)"
    "ipc (snd (rt_sem_release s k)) = ipc k"
    "stat_of (snd (rt_sem_release s k)) u = RT_THREAD_SUSPEND \<longleftrightarrow> u \<noteq> t \<and> stat_of k u = RT_THREAD_SUSPEND"
    "t_error (threads (snd (rt_sem_release s k)) u) = t_error (threads k u)"
    "frame k (snd (rt_sem_release s k))"
proof -
  note L = list_resume_state[OF k q]
  note R = rt_schedule_keeps[OF L(1)]
  have e: "rt_sem_release s k = (RT_EOK, rt_schedule (ipc_list_resume (SemQ s) k))"
    using q by (simp add: rt_sem_release_def)
  show "fst (rt_sem_release s k) = RT_EOK" "kinv (snd (rt_sem_release s k))"
    "waitq (snd (rt_sem_release s k)) = (waitq k)(SemQ s := ts)" "ipc (snd (rt_sem_release s k)) = ipc k"
    "t_error (threads (snd (rt_sem_release s k)) u) = t_error (threads k u)"
    "stat_of (snd (rt_sem_release s k)) u = RT_THREAD_SUSPEND \<longleftrightarrow> u \<noteq> t \<and> stat_of k u = RT_THREAD_SUSPEND"
    unfolding e using L R kinv_rt_schedule[OF L(1)] by auto
  show "frame k (snd (rt_sem_release s k))"
    unfolding e snd_conv frame_def R using kinv_rt_schedule[OF L(1)] L q by (auto split: if_splits)
qed

fun releases :: "nat \<Rightarrow> nat \<Rightarrow> kern \<Rightarrow> kern" where
  "releases 0 s k = k"
| "releases (Suc n) s k = releases n s (snd (rt_sem_release s k))"

lemma releases_waitq:
  "kinv k \<Longrightarrow> i \<le> length (waitq k (SemQ s)) \<Longrightarrow>
     kinv (releases i s k) \<and> waitq (releases i s k) = (waitq k)(SemQ s := drop i (waitq k (SemQ s))) \<and>
     (\<forall>u. stat_of (releases i s k) u = RT_THREAD_SUSPEND \<longleftrightarrow>
        u \<notin> set (take i (waitq k (SemQ s))) \<and> stat_of k u = RT_THREAD_SUSPEND) \<and>
     (\<forall>u. t_error (threads (releases i s k) u) = t_error (threads k u))"
proof (induction i arbitrary: k)
  case (Suc i)
  then obtain t ts where q: "waitq k (SemQ s) = t # ts" by (cases "waitq k (SemQ s)") auto
  note W = sem_release_wakes[OF Suc.prems(1) q]
  have "i \<le> length (waitq (snd (rt_sem_release s k)) (SemQ s))" using Suc.prems(2) q W(3) by simp
  from Suc.IH[OF W(2) this] show ?case using W(3,5,6) q by auto
qed simp

section \<open>The objects\<close>

text \<open>No thread waits for a semaphore that has a value, for a mutex that is free, or for events
  that are there; a mutex is either free or held, and what its owner's priority will be reset
  to is a priority.\<close>

definition sem_ok :: "kern \<Rightarrow> nat \<Rightarrow> bool" where
  "sem_ok k s \<longleftrightarrow> ipc_flag (s_flag (sems (ipc k) s)) \<and> (0 < sem_value k s \<longrightarrow> waitq k (SemQ s) = [])"

definition mutex_ok :: "kern \<Rightarrow> nat \<Rightarrow> bool" where
  "mutex_ok k x \<longleftrightarrow> ipc_flag (m_flag (mutex_of k x)) \<and> 0 \<notin> set (waitq k (MutexQ x)) \<and>
     (if m_owner (mutex_of k x) = 0
      then m_hold (mutex_of k x) = 0 \<and> waitq k (MutexQ x) = [] \<and> m_value (mutex_of k x) \<le> 1
      else 0 < m_hold (mutex_of k x) \<and> m_value (mutex_of k x) = 0 \<and>
           unat (original_priority (mutex_of k x)) < 32)"

definition event_ok :: "kern \<Rightarrow> nat \<Rightarrow> bool" where
  "event_ok k e \<longleftrightarrow> ipc_flag (e_flag (events (ipc k) e)) \<and>
     (\<forall>t\<in>set (waitq k (EventQ e)).
        event_met (event_info (threads k t)) (event_set (threads k t)) (ev_set k e) = Some False)"

definition objects_ok :: "kern \<Rightarrow> bool" where
  "objects_ok k \<longleftrightarrow> (\<forall>s. sem_ok k s) \<and> (\<forall>x. mutex_ok k x) \<and> (\<forall>e. event_ok k e)"

lemma objects_okD:
  assumes "objects_ok k" shows "sem_ok k s" "mutex_ok k x" "event_ok k e"
  using assms by (auto simp: objects_ok_def)

lemma frame_objects:
  assumes f: "frame k k'" and o: "objects_ok k" shows "objects_ok k'"
proof -
  have w: "set (waitq k' q) \<subseteq> set (waitq k q)" "waitq k q = [] \<Longrightarrow> waitq k' q = []" for q
    using f unfolding frame_def by (blast, metis empty_subsetI set_empty subset_antisym)
  have i: "ipc k' = ipc k" using f by (simp add: frame_def)
  have "sem_ok k' s" for s using objects_okD(1)[OF o, of s] w by (auto simp: sem_ok_def sem_value_def i)
  moreover have "mutex_ok k' x" for x using objects_okD(2)[OF o, of x] w by (auto simp: mutex_ok_def i)
  moreover have "event_ok k' e" for e
    using objects_okD(3)[OF o, of e] w(1)[of "EventQ e"] f
    by (auto simp: event_ok_def ev_set_def i frame_def)
  ultimately show ?thesis by (simp add: objects_ok_def)
qed

text \<open>The parts an operation on one object leaves alone.\<close>

definition same_sems :: "kern \<Rightarrow> kern \<Rightarrow> bool" where
  "same_sems k k' \<longleftrightarrow> sems (ipc k') = sems (ipc k) \<and> (\<forall>s. set (waitq k' (SemQ s)) \<subseteq> set (waitq k (SemQ s)))"

definition same_mutexes :: "kern \<Rightarrow> kern \<Rightarrow> bool" where
  "same_mutexes k k' \<longleftrightarrow> mutexes (ipc k') = mutexes (ipc k) \<and>
     (\<forall>x. set (waitq k' (MutexQ x)) \<subseteq> set (waitq k (MutexQ x)))"

definition same_events :: "kern \<Rightarrow> kern \<Rightarrow> bool" where
  "same_events k k' \<longleftrightarrow> events (ipc k') = events (ipc k) \<and>
     (\<forall>e. set (waitq k' (EventQ e)) \<subseteq> set (waitq k (EventQ e)) \<and>
       (\<forall>t\<in>set (waitq k (EventQ e)). event_set (threads k' t) = event_set (threads k t) \<and>
          event_info (threads k' t) = event_info (threads k t)))"

lemma sems_same: "same_sems k k' \<Longrightarrow> objects_ok k \<Longrightarrow> sem_ok k' s"
  using objects_okD(1)[of k s] by (auto simp: same_sems_def sem_ok_def sem_value_def)
    (metis empty_subsetI set_empty subset_antisym)+

lemma mutexes_same: "same_mutexes k k' \<Longrightarrow> objects_ok k \<Longrightarrow> mutex_ok k' x"
  using objects_okD(2)[of k x] by (auto simp: same_mutexes_def mutex_ok_def)
    (metis empty_subsetI set_empty subset_antisym)+

lemma events_same: "same_events k k' \<Longrightarrow> objects_ok k \<Longrightarrow> event_ok k' e"
  using objects_okD(3)[of k e] unfolding same_events_def event_ok_def ev_set_def by (auto 0 3)

lemma frame_same: "frame k k' \<Longrightarrow> same_sems k k'" "frame k k' \<Longrightarrow> same_mutexes k k'"
  "frame k k' \<Longrightarrow> same_events k k'"
  by (auto simp: frame_def same_sems_def same_mutexes_def same_events_def)

lemma upd_same [simp]:
  "same_mutexes k (upd_sem s f k)" "same_events k (upd_sem s f k)"
  "same_sems k (upd_mutex x g k)" "same_events k (upd_mutex x g k)"
  "same_sems k (upd_event e h k)" "same_mutexes k (upd_event e h k)"
  by (simp_all add: same_sems_def same_mutexes_def same_events_def upd_sem_def upd_mutex_def upd_event_def)

lemma same_trans:
  "same_sems k k' \<Longrightarrow> same_sems k' k'' \<Longrightarrow> same_sems k k''"
  "same_mutexes k k' \<Longrightarrow> same_mutexes k' k'' \<Longrightarrow> same_mutexes k k''"
  unfolding same_sems_def same_mutexes_def by (metis subset_trans)+

text \<open>Waiting on one object's list.\<close>

lemma wait_same:
  assumes k: "kinv k" and c: "stat_of k (rt_current_thread k) = RT_THREAD_RUNNING" and g: "ipc_flag g"
  shows "(\<And>s. q \<noteq> SemQ s) \<Longrightarrow> same_sems k (wait_on q g time k)"
    "(\<And>x. q \<noteq> MutexQ x) \<Longrightarrow> same_mutexes k (wait_on q g time k)"
    "(\<And>e. q \<noteq> EventQ e) \<Longrightarrow> same_events k (wait_on q g time k)"
  using wait_on_state[OF assms, of q time]
  by (auto simp: same_sems_def same_mutexes_def same_events_def)

section \<open>Semaphores keep the invariant\<close>

lemma set_error_frame: "kinv k \<Longrightarrow> frame k (set_error t e k)"
  by (simp add: frame_def)

lemma sem_take_ok:
  assumes k: "kinv k" and o: "objects_ok k"
    and c: "stat_of k (rt_current_thread k) = RT_THREAD_RUNNING"
  shows "kinv (snd (rt_sem_take s time k)) \<and> objects_ok (snd (rt_sem_take s time k))"
proof -
  note S = objects_okD(1)[OF o]
  consider "0 < sem_value k s" | "sem_value k s = 0" "time = 0" | "sem_value k s = 0" "time \<noteq> 0"
    by (cases "sem_value k s = 0"; cases "time = 0") (auto simp: word_gt_0)
  then show ?thesis
  proof cases
    case 1
    let ?k = "upd_sem s (\<lambda>x. x\<lparr>s_value := s_value x - 1\<rparr>) k"
    have "waitq k (SemQ s) = []" using S[of s] 1 by (simp add: sem_ok_def)
    then have "sem_ok ?k r" for r using S[of r] by (cases "r = s") (simp_all add: sem_ok_def upd_sem_def sem_value_def)
    moreover have "mutex_ok ?k x" "event_ok ?k e" for x e
      using mutexes_same[OF _ o] events_same[OF _ o] upd_same by blast+
    ultimately show ?thesis using 1 k by (simp add: rt_sem_take_def objects_ok_def)
  next
    case 2 then show ?thesis using k o by (simp add: rt_sem_take_def)
  next
    case 3
    let ?k1 = "set_error (rt_current_thread k) RT_EOK k"
    let ?g = "s_flag (sems (ipc k) s)"
    let ?k2 = "wait_on (SemQ s) ?g time ?k1"
    have f: "frame k ?k1" by (rule set_error_frame[OF k])
    have o1: "objects_ok ?k1" by (rule frame_objects[OF f o])
    have g: "ipc_flag ?g" using S[of s] by (simp add: sem_ok_def)
    have k1: "kinv ?k1" "stat_of ?k1 (rt_current_thread ?k1) = RT_THREAD_RUNNING" using k c by simp_all
    note W = wait_on_state[OF k1 g, of "SemQ s" time]
    have v0: "sem_value ?k2 r = sem_value k r" for r by (simp add: sem_value_def W)
    have "sem_ok ?k2 r" for r
      using objects_okD(1)[OF o, of r] 3(1) v0[of r] by (auto simp: sem_ok_def W)
    moreover have "mutex_ok ?k2 x" "event_ok ?k2 e" for x e
      using mutexes_same[OF wait_same(2)[OF k1 g] o1] events_same[OF wait_same(3)[OF k1 g] o1] by blast+
    ultimately show ?thesis using 3 W(1) by (simp add: rt_sem_take_def objects_ok_def rt_thread_self_def)
  qed
qed

lemma sem_release_ok:
  assumes k: "kinv k" and o: "objects_ok k"
  shows "kinv (snd (rt_sem_release s k)) \<and> objects_ok (snd (rt_sem_release s k))"
proof (cases "waitq k (SemQ s)")
  case (Cons t ts)
  note W = sem_release_wakes[OF k Cons]
  show ?thesis using W(2) frame_objects[OF W(7) o] by simp
next
  case Nil
  let ?k = "upd_sem s (\<lambda>x. x\<lparr>s_value := s_value x + 1\<rparr>) k"
  have "sem_ok ?k r" for r using objects_okD(1)[OF o, of r] Nil
    by (cases "r = s") (simp_all add: sem_ok_def upd_sem_def sem_value_def)
  moreover have "mutex_ok ?k x" "event_ok ?k e" for x e
    using mutexes_same[OF _ o] events_same[OF _ o] upd_same by blast+
  ultimately show ?thesis using Nil k o by (auto simp: rt_sem_release_def objects_ok_def)
qed

lemma sem_control_ok:
  assumes k: "kinv k" and o: "objects_ok k"
  shows "\<exists>r k'. rt_sem_control s cmd arg k = Some (r, k') \<and> kinv k' \<and> objects_ok k'"
proof (cases "cmd = RT_IPC_CMD_RESET")
  case True
  obtain k1 where k1: "ipc_list_resume_all (SemQ s) k = Some k1" "frame k k1" "waitq k1 = (waitq k)(SemQ s := [])"
    using resume_all_state[OF k, of "SemQ s"] by blast
  let ?k2 = "upd_sem s (\<lambda>x. x\<lparr>s_value := ucast arg\<rparr>) k1"
  have o1: "objects_ok k1" by (rule frame_objects[OF k1(2) o])
  have "sem_ok ?k2 r" for r
    using objects_okD(1)[OF o1, of r] k1(3) by (cases "r = s") (simp_all add: sem_ok_def upd_sem_def sem_value_def)
  moreover have "mutex_ok ?k2 x" "event_ok ?k2 e" for x e
    using mutexes_same[OF _ o1] events_same[OF _ o1] upd_same by blast+
  ultimately have o2: "objects_ok ?k2" by (simp add: objects_ok_def)
  have k2: "kinv ?k2" using k1(2) by (simp add: frame_def)
  show ?thesis using True k1(1) kinv_rt_schedule[OF k2] frame_objects[OF frame_schedule[OF k2] o2]
    by (simp add: rt_sem_control_def)
qed (use k o in \<open>simp add: rt_sem_control_def\<close>)

section \<open>Mutexes keep the invariant\<close>

lemma stat_of_upd_prio [simp]:
  "stat_of (upd_thread t (\<lambda>c. c\<lparr>current_priority := p, number_mask := m\<rparr>) k) = stat_of k"
  by (auto simp: stat_of_def)

lemma change_priority_state:
  assumes k: "kinv k" and p: "unat p < 32"
  shows "frame k (change_priority t p k)" "stat_of (change_priority t p k) u = stat_of k u"
    "rt_current_thread (change_priority t p k) = rt_current_thread k"
    "prio (change_priority t p k) u = (if u = t then unat p else prio k u)"
    "waitq (change_priority t p k) = waitq k"
    "t_error (threads (change_priority t p k) u) = t_error (threads k u)"
proof -
  have w: "waitq (change_priority t p k) q = waitq k q" for q
    using removeAll_waitq[OF k, of t q] by (auto simp: change_priority_def Let_def)
  then show "waitq (change_priority t p k) = waitq k" by auto
  have kk: "kinv (change_priority t p k)" by (rule kinv_change_priority[OF k p])
  have "ipc (change_priority t p k) = ipc k"
    "event_set (threads (change_priority t p k) v) = event_set (threads k v)"
    "event_info (threads (change_priority t p k) v) = event_info (threads k v)" for v
    by (auto simp: change_priority_def Let_def)
  then show "frame k (change_priority t p k)" using w kk by (simp add: frame_def)
  show "stat_of (change_priority t p k) u = stat_of k u"
    using kinv_stat_current[OF k] by (auto simp: change_priority_def Let_def)
  show "rt_current_thread (change_priority t p k) = rt_current_thread k"
    "t_error (threads (change_priority t p k) u) = t_error (threads k u)"
    "prio (change_priority t p k) u = (if u = t then unat p else prio k u)"
    by (auto simp: change_priority_def Let_def) (simp_all add: prio_def)
qed

lemma mutex_upd_sel [simp]:
  "mutex_of (upd_mutex x f k) y = (if y = x then f (mutex_of k x) else mutex_of k y)"
  by (simp add: upd_mutex_def)

lemma upd_mutex_objects:
  assumes o: "objects_ok k" and m: "mutex_ok (upd_mutex x f k) x"
  shows "objects_ok (upd_mutex x f k)"
proof -
  have "mutex_ok (upd_mutex x f k) y" for y
  proof (cases "y = x")
    case False
    then show ?thesis using objects_okD(2)[OF o, of y] by (simp add: mutex_ok_def)
  qed (use m in simp)
  moreover have "sem_ok (upd_mutex x f k) s" "event_ok (upd_mutex x f k) e" for s e
    using sems_same[OF _ o] events_same[OF _ o] upd_same by blast+
  ultimately show ?thesis by (simp add: objects_ok_def)
qed

lemma word8_Suc:
  assumes "(h::u8) < 0xff" shows "0 < h + 1"
proof (rule ccontr)
  assume "\<not> 0 < h + 1"
  then have "h + 1 = 0" by (simp add: word_gt_0)
  then have "h = - 1" by (simp add: eq_neg_iff_add_eq_0)
  then show False using assms by simp
qed

lemma mutex_take_ok:
  assumes k: "kinv k" and o: "objects_ok k"
    and c: "stat_of k (rt_current_thread k) = RT_THREAD_RUNNING" "rt_current_thread k \<noteq> 0"
    and i: "m_value (mutex_of k x) = 1 \<or> m_owner (mutex_of k x) \<noteq> 0"
  shows "kinv (snd (rt_mutex_take x time k)) \<and> objects_ok (snd (rt_mutex_take x time k))"
proof -
  let ?t = "rt_current_thread k" let ?m = "mutex_of k x"
  let ?k1 = "set_error ?t RT_EOK k"
  have k1: "kinv ?k1" using k by simp
  have o1: "objects_ok ?k1" by (rule frame_objects[OF set_error_frame[OF k] o])
  have M: "mutex_ok k x" by (rule objects_okD(2)[OF o])
  have pt: "prio k ?t < 32" using kinv_prio(1)[OF k, of ?t] c(1) by simp
  have m1: "mutex_of ?k1 x = ?m" "current_priority (threads ?k1 ?t) = current_priority (threads k ?t)"
    by (simp_all add: set_error_def)
  consider (own) "m_owner ?m = ?t" | (free) "m_owner ?m \<noteq> ?t" "0 < m_value ?m"
    | (busy) "m_owner ?m \<noteq> ?t" "m_value ?m = 0" "time = 0"
    | (wait) "m_owner ?m \<noteq> ?t" "m_value ?m = 0" "time \<noteq> 0"
    by (cases "m_owner ?m = ?t"; cases "m_value ?m = 0"; cases "time = 0") (auto simp: word_gt_0)
  then show ?thesis
  proof cases
    case own
    let ?k2 = "upd_mutex x (\<lambda>m. m\<lparr>m_hold := m_hold m + 1\<rparr>) ?k1"
    have "mutex_ok ?k2 x" if "m_hold ?m < RT_MUTEX_HOLD_MAX"
      using M own c(2) word8_Suc[of "m_hold ?m"] that by (simp add: mutex_ok_def RT_MUTEX_HOLD_MAX_def)
    then have "objects_ok ?k2" if "m_hold ?m < RT_MUTEX_HOLD_MAX" using upd_mutex_objects[OF o1] that by blast
    then show ?thesis using own k1 o1 by (auto simp: rt_mutex_take_def Let_def rt_thread_self_def m1)
  next
    case free
    then have f: "m_owner ?m = 0" "m_hold ?m = 0" "waitq k (MutexQ x) = []" "m_value ?m = 1"
      using M i by (auto simp: mutex_ok_def split: if_splits)
    let ?g = "\<lambda>m. m\<lparr>m_value := m_value m - 1, m_owner := ?t, original_priority := current_priority (threads k ?t)\<rparr>"
    let ?h = "\<lambda>m. m\<lparr>m_hold := m_hold m + 1\<rparr>"
    let ?k3 = "upd_mutex x ?h (upd_mutex x ?g ?k1)"
    have e: "?k3 = upd_mutex x (?h \<circ> ?g) ?k1" by (simp add: upd_mutex_def)
    have "mutex_ok (upd_mutex x (?h \<circ> ?g) ?k1) x"
      using M f c(2) pt by (simp add: mutex_ok_def prio_def)
    then have "objects_ok ?k3" unfolding e by (rule upd_mutex_objects[OF o1])
    then show ?thesis using free f k1
      by (simp add: rt_mutex_take_def Let_def rt_thread_self_def m1 RT_MUTEX_HOLD_MAX_def)
  next
    case busy
    have "objects_ok (set_error ?t (- RT_ETIMEOUT) ?k1)" by (rule frame_objects[OF set_error_frame[OF k1] o1])
    then show ?thesis using busy k1 by (simp add: rt_mutex_take_def Let_def rt_thread_self_def m1)
  next
    case wait
    let ?ow = "m_owner ?m"
    define k2 where "k2 = (if prio ?k1 ?t < prio ?k1 ?ow
      then change_priority ?ow (current_priority (threads ?k1 ?t)) ?k1 else ?k1)"
    have p: "unat (current_priority (threads ?k1 ?t)) < 32" using pt by (simp add: prio_def m1)
    note C = change_priority_state[OF k1 p]
    have f2: "frame ?k1 k2" using C(1) k1 by (auto simp: frame_def k2_def)
    have k2: "kinv k2" "stat_of k2 (rt_current_thread k2) = RT_THREAD_RUNNING"
      using f2 C(2,3) c(1) by (auto simp: frame_def k2_def)
    have r2: "rt_current_thread k2 = ?t" using C(3) by (simp add: k2_def)
    have i2: "ipc k2 = ipc k" using f2 by (simp add: frame_def)
    have o2: "objects_ok k2" by (rule frame_objects[OF f2 o1])
    have g: "ipc_flag (m_flag ?m)" using M by (simp add: mutex_ok_def)
    let ?k3 = "wait_on (MutexQ x) (m_flag ?m) time k2"
    note W = wait_on_state[OF k2 g, of "MutexQ x" time]
    have "mutex_ok ?k3 y" for y
      using objects_okD(2)[OF o2, of y] wait i c(2) r2
      by (cases "y = x") (auto simp: mutex_ok_def W i2 set_enqueue(1) split: if_splits)
    moreover have "sem_ok ?k3 s" "event_ok ?k3 e" for s e
      using sems_same[OF wait_same(1)[OF k2 g] o2] events_same[OF wait_same(3)[OF k2 g] o2] by blast+
    ultimately have "kinv ?k3 \<and> objects_ok ?k3" using W(1) by (simp add: objects_ok_def)
    moreover have "rt_mutex_take x time k = (Waiting, wait_on (MutexQ x) (m_flag (mutex_of k2 x)) time k2)"
      using wait by (simp add: rt_mutex_take_def Let_def rt_thread_self_def m1 k2_def)
    ultimately show ?thesis using i2 by simp
  qed
qed

text \<open>While a mutex is being passed on, the other objects.\<close>

definition objects_but :: "nat \<Rightarrow> kern \<Rightarrow> bool" where
  "objects_but x k \<longleftrightarrow> (\<forall>s. sem_ok k s) \<and> (\<forall>y. y \<noteq> x \<longrightarrow> mutex_ok k y) \<and> (\<forall>e. event_ok k e)"

lemma objects_but_ok: "objects_but x k \<Longrightarrow> mutex_ok k x \<Longrightarrow> objects_ok k"
  unfolding objects_but_def objects_ok_def by metis

lemma objects_but_upd: "objects_but x k \<Longrightarrow> objects_but x (upd_mutex x f k)"
proof -
  assume o: "objects_but x k"
  have "sem_ok (upd_mutex x f k) s = sem_ok k s" "event_ok (upd_mutex x f k) e = event_ok k e" for s e
    by (simp_all add: sem_ok_def event_ok_def sem_value_def ev_set_def) (simp_all add: upd_mutex_def)
  moreover have "y \<noteq> x \<Longrightarrow> mutex_ok (upd_mutex x f k) y = mutex_ok k y" for y by (simp add: mutex_ok_def)
  ultimately show ?thesis using o by (simp add: objects_but_def)
qed

lemma objects_but_frame: "frame k k' \<Longrightarrow> objects_but x k \<Longrightarrow> objects_but x k'"
proof -
  assume f: "frame k k'" and o: "objects_but x k"
  have w: "set (waitq k' q) \<subseteq> set (waitq k q)" "waitq k q = [] \<Longrightarrow> waitq k' q = []" for q
    using f unfolding frame_def by (blast, metis empty_subsetI set_empty subset_antisym)
  have i: "ipc k' = ipc k" using f by (simp add: frame_def)
  have "sem_ok k' s" if "sem_ok k s" for s using that w by (auto simp: sem_ok_def sem_value_def i)
  moreover have "mutex_ok k' y" if "mutex_ok k y" for y using that w by (auto simp: mutex_ok_def i)
  moreover have "event_ok k' e" if "event_ok k e" for e
    using that w(1)[of "EventQ e"] f by (auto simp: event_ok_def ev_set_def i frame_def)
  ultimately show ?thesis using o by (simp add: objects_but_def)
qed

lemma word8_dec: "(h::u8) \<noteq> 0 \<Longrightarrow> 0 < h" by (simp add: word_gt_0)

lemma mutex_release_ok:
  assumes k: "kinv k" and o: "objects_ok k" and c: "rt_current_thread k \<noteq> 0"
  shows "kinv (snd (rt_mutex_release x k)) \<and> objects_ok (snd (rt_mutex_release x k))"
proof (cases "rt_current_thread k = m_owner (mutex_of k x)")
  case False
  then show ?thesis using k frame_objects[OF set_error_frame[OF k] o]
    by (simp add: rt_mutex_release_def Let_def rt_thread_self_def)
next
  case True
  let ?t = "rt_current_thread k"
  let ?k1 = "upd_mutex x (\<lambda>m. m\<lparr>m_hold := m_hold m - 1\<rparr>) k"
  have M: "mutex_ok k x" by (rule objects_okD(2)[OF o])
  have m: "0 < m_hold (mutex_of k x)" "m_value (mutex_of k x) = 0" "unat (original_priority (mutex_of k x)) < 32"
    "ipc_flag (m_flag (mutex_of k x))" "0 \<notin> set (waitq k (MutexQ x))"
    using M True c by (auto simp: mutex_ok_def)
  have ob1: "objects_but x ?k1" by (rule objects_but_upd) (use o in \<open>simp add: objects_but_def objects_ok_def\<close>)
  have k1: "kinv ?k1" using k by simp
  show ?thesis
  proof (cases "m_hold (mutex_of k x) - 1 = 0")
    case False
    then have "mutex_ok ?k1 x" using m c True by (simp add: mutex_ok_def word8_dec)
    then show ?thesis using objects_but_ok[OF ob1] k1 False True
      by (simp add: rt_mutex_release_def Let_def rt_thread_self_def)
  next
    case zero: True
    define k2 where "k2 = (if original_priority (mutex_of k x) \<noteq> current_priority (threads k ?t)
      then change_priority ?t (original_priority (mutex_of k x)) ?k1 else ?k1)"
    note C = change_priority_state[OF k1 m(3)]
    have f2: "frame ?k1 k2" using C(1) k1 by (auto simp: k2_def frame_def)
    have w2: "waitq k2 = waitq k" using C(5) by (simp add: k2_def)
    have i2: "mutex_of k2 x = (mutex_of k x)\<lparr>m_hold := 0\<rparr>" using f2 zero by (simp add: frame_def)
    have ob2: "objects_but x k2" by (rule objects_but_frame[OF f2 ob1])
    have k2: "kinv k2" using f2 by (simp add: frame_def)
    have e: "rt_mutex_release x k = (if waitq k2 (MutexQ x) \<noteq> [] then mutex_pass x k2 else mutex_free x k2)"
      using True zero by (simp add: rt_mutex_release_def Let_def rt_thread_self_def k2_def)
    show ?thesis
    proof (cases "waitq k (MutexQ x)")
      case Nil
      let ?f = "\<lambda>m. m\<lparr>m_value := m_value m + 1, m_owner := 0, original_priority := 0xff\<rparr>"
      have "mutex_ok (upd_mutex x ?f k2) x" using m w2 i2 Nil by (simp add: mutex_ok_def)
      then have "objects_ok (upd_mutex x ?f k2)" by (rule objects_but_ok[OF objects_but_upd[OF ob2]])
      then show ?thesis using e Nil w2 i2 m k2 by (simp add: mutex_free_def RT_MUTEX_VALUE_MAX_def)
    next
      case (Cons u us)
      let ?f = "\<lambda>m. m\<lparr>m_owner := u, original_priority := current_priority (threads k2 u)\<rparr>"
      let ?g = "\<lambda>m. m\<lparr>m_hold := m_hold m + 1\<rparr>"
      let ?k3 = "upd_mutex x ?g (upd_mutex x ?f k2)"
      have u: "stat_of k2 u = RT_THREAD_SUSPEND" using in_waitq[OF k2, of u "MutexQ x"] w2 Cons by simp
      have pu: "unat (current_priority (threads k2 u)) < 32"
        using kinv_prio(1)[OF k2, of u] u by (simp add: prio_def)
      have w3: "waitq ?k3 (MutexQ x) = u # us" using w2 Cons by simp
      have k3: "kinv ?k3" using k2 by simp
      note L = list_resume_state[OF k3 w3]
      have "mutex_ok ?k3 x" using m i2 pu w3 Cons by (simp add: mutex_ok_def)
      then have o3: "objects_ok ?k3" by (rule objects_but_ok[OF objects_but_upd[OF objects_but_upd[OF ob2]]])
      have "frame ?k3 (ipc_list_resume (MutexQ x) ?k3)"
        using L(1,2,5,8,9) w3 by (auto simp: frame_def)
      then have f: "frame ?k3 (rt_schedule (ipc_list_resume (MutexQ x) ?k3))"
        by (rule frame_trans[OF _ frame_schedule[OF L(1)]])
      have "rt_mutex_release x k = (RT_EOK, rt_schedule (ipc_list_resume (MutexQ x) ?k3))"
        using e Cons w2 i2 by (simp add: mutex_pass_def Let_def RT_MUTEX_HOLD_MAX_def)
      then show ?thesis using frame_objects[OF f o3] f by (simp add: frame_def)
    qed
  qed
qed

section \<open>Events\<close>

lemma event_upd_sel [simp]:
  "events (ipc (upd_event e h k)) d = (if d = e then h (events (ipc k) e) else events (ipc k) d)"
  "ev_set (upd_event e h k) d = (if d = e then e_set (h (events (ipc k) e)) else ev_set k d)"
  by (simp_all add: ev_set_def upd_event_def)

text \<open>Bit sets: \<open>st'\<close> within \<open>st\<close>.\<close>

definition within :: "u32 \<Rightarrow> u32 \<Rightarrow> bool" where
  "within st' st \<longleftrightarrow> st' AND st = st'"

lemma within_bits: "within a b \<longleftrightarrow> (\<forall>n. bit a n \<longrightarrow> bit b n)"
  unfolding within_def bit_eq_iff bit_and_iff by (metis bit_imp_possible_bit)

lemma within_refl [simp]: "within a a" and within_trans: "within a b \<Longrightarrow> within b c \<Longrightarrow> within a c"
  and within_minus [simp]: "within (a AND NOT b) a" and within_or [simp]: "within a (a OR b)"
  by (auto simp: within_bits bit_simps)

lemma event_met_mono:
  assumes "event_met opt want st' = Some True" "within st' st"
  shows "event_met opt want st = Some True"
proof -
  have a: "want AND st = want" if "want AND st' = want"
  proof -
    have "within want st'" using that by (simp add: within_def)
    then show ?thesis using assms(2) within_trans unfolding within_def by blast
  qed
  have b: "want AND st \<noteq> 0" if "want AND st' \<noteq> 0"
  proof
    assume z: "want AND st = 0"
    have "\<not> bit (want AND st') n" for n
      using arg_cong[OF z, of "\<lambda>w. bit w n"] assms(2) by (auto simp: within_bits bit_and_iff)
    then show False using that by (simp add: bit_eq_iff)
  qed
  show ?thesis using assms(1) a b by (auto simp: event_met_def split: if_splits)
qed

lemma event_met_None: "event_met opt want st = None \<longleftrightarrow> event_met opt want' st' = None"
  by (simp add: event_met_def)

lemma event_met_less:
  assumes "event_met opt want st = Some False" "within st' st"
  shows "event_met opt want st' = Some False"
proof (cases "event_met opt want st'")
  case None
  then have "event_met opt want st = None" using event_met_None by metis
  then show ?thesis using assms(1) by simp
next
  case (Some b)
  then show ?thesis using event_met_mono[of opt want st' st] assms by (cases b) auto
qed

definition waiting :: "kern \<Rightarrow> nat \<Rightarrow> nat \<Rightarrow> u32 \<Rightarrow> bool option" where
  "waiting k e t st = event_met (event_info (threads k t)) (event_set (threads k t)) st"

text \<open>What a scan of the threads \<open>ts\<close> has done.\<close>

definition scanned :: "nat \<Rightarrow> nat list \<Rightarrow> kern \<Rightarrow> kern \<Rightarrow> bool" where
  "scanned e ts k k' \<longleftrightarrow> kinv k' \<and> same_sems k k' \<and> same_mutexes k k' \<and>
     (\<forall>d. e_flag (events (ipc k') d) = e_flag (events (ipc k) d) \<and> (d \<noteq> e \<longrightarrow> ev_set k' d = ev_set k d)) \<and>
     within (ev_set k' e) (ev_set k e) \<and>
     (\<forall>d. set (waitq k' (EventQ d)) \<subseteq> set (waitq k (EventQ d)) \<and> (d \<noteq> e \<longrightarrow> waitq k' (EventQ d) = waitq k (EventQ d))) \<and>
     (\<forall>u. stat_of k' u = RT_THREAD_SUSPEND \<longrightarrow>
        event_set (threads k' u) = event_set (threads k u) \<and> event_info (threads k' u) = event_info (threads k u)) \<and>
     (\<forall>u. stat_of k u = RT_THREAD_SUSPEND \<and> u \<notin> set ts \<longrightarrow> stat_of k' u = RT_THREAD_SUSPEND) \<and>
     (\<forall>u. stat_of k' u = RT_THREAD_SUSPEND \<longrightarrow> stat_of k u = RT_THREAD_SUSPEND) \<and>
     (\<forall>t\<in>set ts. if stat_of k' t = RT_THREAD_SUSPEND
        then t \<in> set (waitq k' (EventQ e)) \<and> waiting k' e t (ev_set k' e) = Some False
        else t \<notin> set (waitq k' (EventQ e)) \<and> waiting k e t (ev_set k e) = Some True) \<and>
     (\<forall>u. u \<in> set (waitq k (EventQ e)) - set ts \<longrightarrow> u \<in> set (waitq k' (EventQ e)))"

lemma scanned_woken:
  "scanned e ts k k' \<Longrightarrow> t \<in> set ts \<Longrightarrow>
     (stat_of k' t = RT_THREAD_SUSPEND \<longrightarrow> waiting k' e t (ev_set k' e) = Some False) \<and>
     (stat_of k' t \<noteq> RT_THREAD_SUSPEND \<longrightarrow> waiting k e t (ev_set k e) = Some True)"
  "scanned e ts k k' \<Longrightarrow> within (ev_set k' e) (ev_set k e)"
  unfolding scanned_def by (elim conjE, drule (1) bspec, simp split: if_splits) (elim conjE, assumption)

lemma event_scan_state:
  "kinv k \<Longrightarrow> set ts \<subseteq> set (waitq k (EventQ e)) \<Longrightarrow> distinct ts \<Longrightarrow>
     \<forall>t\<in>set ts. waiting k e t 0 \<noteq> None \<Longrightarrow>
     \<exists>need' k'. event_scan e ts need k = (True, need', k') \<and> scanned e ts k k'"
proof (induction ts arbitrary: k need)
  case Nil
  then show ?case by (auto simp: scanned_def same_sems_def same_mutexes_def)
next
  case (Cons t ts)
  note k = Cons.prems(1)
  let ?opt = "event_info (threads k t)" let ?want = "event_set (threads k t)"
  have tq: "t \<in> set (waitq k (EventQ e))" "t \<notin> set ts" using Cons.prems by auto
  have st: "stat_of k t = RT_THREAD_SUSPEND" by (rule in_waitq[OF k tq(1)])
  have valid: "event_met ?opt ?want (ev_set k e) \<noteq> None"
    using Cons.prems(4) event_met_None unfolding waiting_def by (metis list.set_intros(1))
  have vts: "\<forall>t\<in>set ts. waiting k e t 0 \<noteq> None" using Cons.prems(4) by simp
  show ?case
  proof (cases "event_met ?opt ?want (ev_set k e)")
    case None then show ?thesis using valid by simp
  next
    case (Some b)
    show ?thesis
    proof (cases b)
      case False
      obtain need' k' where s: "event_scan e ts need k = (True, need', k')" "scanned e ts k k'"
        using Cons.IH[OF k _ _ vts] Cons.prems(2,3) by force
      have sus: "stat_of k' t = RT_THREAD_SUSPEND" using s(2) st tq(2) unfolding scanned_def by blast
      have w: "t \<in> set (waitq k' (EventQ e))" using s(2) tq unfolding scanned_def by blast
      have nm: "waiting k' e t (ev_set k' e) = Some False"
      proof -
        have e: "waiting k' e t st = event_met ?opt ?want st" for st
          using s(2) sus by (simp add: scanned_def waiting_def)
        show ?thesis unfolding e
          using event_met_less[of ?opt ?want "ev_set k e" "ev_set k' e"] s(2) Some False by (simp add: scanned_def)
      qed
      have "scanned e (t # ts) k k'"
        using s(2) sus w nm tq(2) unfolding scanned_def by (simp add: Ball_def)
      then show ?thesis using s(1) Some False by (auto simp: Let_def)
    next
      case True
      define k1 where "k1 = (if ?opt AND RT_EVENT_FLAG_AND = 0
        then upd_thread t (\<lambda>c. c\<lparr>event_set := ?want AND ev_set k e\<rparr>) k else k)"
      define k2 where "k2 = (if ?opt AND RT_EVENT_FLAG_CLEAR \<noteq> 0
        then upd_event e (\<lambda>x. x\<lparr>e_set := e_set x AND NOT (event_set (threads k1 t))\<rparr>) k1 else k1)"
      let ?k3 = "snd (rt_thread_resume t k2)"
      have ev: "event_scan e (t # ts) need k = event_scan e ts True ?k3"
        using Some True by (simp add: Let_def k1_def k2_def)
      have s1: "stat_of k1 = stat_of k" "ipc k1 = ipc k" "waitq k1 = waitq k"
        by (auto simp: k1_def stat_of_def)
      have k1: "kinv k1" unfolding k1_def using k kinv_upd_same[OF k] by (simp add: stat_of_def)
      have k2: "kinv k2" unfolding k2_def using k1 by simp
      have s2: "stat_of k2 = stat_of k" "waitq k2 = waitq k" "threads k2 = threads k1"
        using s1 by (simp_all add: k2_def)
      have "stat_of k2 t = RT_THREAD_SUSPEND" using st s2 by simp
      note R = resume_state[OF k2 this]
      have other: "event_set (threads ?k3 u) = event_set (threads k u)" "event_info (threads ?k3 u) = event_info (threads k u)"
        if "u \<noteq> t" for u using that R s2(3) by (auto simp: k1_def)
      have w3: "waitq ?k3 q = removeAll t (waitq k q)" for q using R(3) s2 by simp
      have unique: "t \<notin> set (waitq k q)" if "q \<noteq> EventQ e" for q
        using k tq(1) that unfolding kinv_but_def waits_ok_def by blast
      have w3': "waitq ?k3 q = waitq k q" if "q \<noteq> EventQ e" for q
        using w3[of q] unique[OF that] by (simp add: removeAll_id)
      have st3: "stat_of ?k3 u = RT_THREAD_SUSPEND \<longleftrightarrow> u \<noteq> t \<and> stat_of k u = RT_THREAD_SUSPEND" for u
        using R(2)[of u] s2 by auto
      have i3: "sems (ipc ?k3) = sems (ipc k)" "mutexes (ipc ?k3) = mutexes (ipc k)"
        "e_flag (events (ipc ?k3) d) = e_flag (events (ipc k) d)"
        "d \<noteq> e \<Longrightarrow> ev_set ?k3 d = ev_set k d" "within (ev_set ?k3 e) (ev_set k e)" for d
        using R(5) s1(2) by (simp_all add: k2_def upd_event_def ev_set_def)
      have sub: "set ts \<subseteq> set (waitq ?k3 (EventQ e))" using Cons.prems(2) w3[of "EventQ e"] tq(2) by auto
      have vts3: "\<forall>u\<in>set ts. waiting ?k3 e u 0 \<noteq> None"
        using vts other tq(2) unfolding waiting_def by (metis)
      obtain need' k' where s: "event_scan e ts True ?k3 = (True, need', k')" "scanned e ts ?k3 k'"
        using Cons.IH[OF R(1) sub _ vts3, of True] Cons.prems(3) by (metis distinct.simps(2))
      note S = s(2)[unfolded scanned_def]
      have SF: "event_set (threads k' u) = event_set (threads ?k3 u) \<and> event_info (threads k' u) = event_info (threads ?k3 u)"
        if "stat_of k' u = RT_THREAD_SUSPEND" for u using S that by blast
      have nsus: "stat_of k' t \<noteq> RT_THREAD_SUSPEND" using S st3[of t] by blast
      have ntq: "t \<notin> set (waitq k' (EventQ e))"
      proof -
        have "set (waitq k' (EventQ e)) \<subseteq> set (waitq ?k3 (EventQ e))" using S by blast
        then show ?thesis using w3[of "EventQ e"] by auto
      qed
      have tmet: "waiting k e t (ev_set k e) = Some True" using Some True by (simp add: waiting_def)
      have rest: "if stat_of k' u = RT_THREAD_SUSPEND
          then u \<in> set (waitq k' (EventQ e)) \<and> waiting k' e u (ev_set k' e) = Some False
          else u \<notin> set (waitq k' (EventQ e)) \<and> waiting k e u (ev_set k e) = Some True" if u: "u \<in> set ts" for u
      proof -
        have "u \<noteq> t" using u tq(2) by auto
        then have "waiting ?k3 e u st = waiting k e u st" for st using other by (simp add: waiting_def)
        then have "waiting ?k3 e u (ev_set ?k3 e) = Some True \<Longrightarrow> waiting k e u (ev_set k e) = Some True"
          using event_met_mono[OF _ i3(5)] by (simp add: waiting_def)
        then show ?thesis using S u by (auto split: if_splits)
      qed
      have "scanned e (t # ts) k k'"
        unfolding scanned_def
      proof (intro conjI)
        show "kinv k'" using S by blast
        have "same_sems k ?k3" "same_mutexes k ?k3" using i3 w3' by (auto simp: same_sems_def same_mutexes_def)
        then show "same_sems k k'" "same_mutexes k k'" using S same_trans by blast+
        show "\<forall>d. e_flag (events (ipc k') d) = e_flag (events (ipc k) d) \<and> (d \<noteq> e \<longrightarrow> ev_set k' d = ev_set k d)"
          using S i3(3,4) by simp
        show "within (ev_set k' e) (ev_set k e)" using S i3(5) within_trans by blast
        show "\<forall>d. set (waitq k' (EventQ d)) \<subseteq> set (waitq k (EventQ d)) \<and>
            (d \<noteq> e \<longrightarrow> waitq k' (EventQ d) = waitq k (EventQ d))"
        proof (intro allI conjI impI)
          fix d
          have "set (waitq ?k3 (EventQ d)) \<subseteq> set (waitq k (EventQ d))" using w3 by auto
          then show "set (waitq k' (EventQ d)) \<subseteq> set (waitq k (EventQ d))" using S by blast
          show "waitq k' (EventQ d) = waitq k (EventQ d)" if "d \<noteq> e" using S w3'[of "EventQ d"] that by simp
        qed
        show "\<forall>u. stat_of k' u = RT_THREAD_SUSPEND \<longrightarrow> event_set (threads k' u) = event_set (threads k u) \<and>
            event_info (threads k' u) = event_info (threads k u)"
        proof (intro allI impI)
          fix u assume u: "stat_of k' u = RT_THREAD_SUSPEND"
          then have "u \<noteq> t" using nsus by auto
          then show "event_set (threads k' u) = event_set (threads k u) \<and>
              event_info (threads k' u) = event_info (threads k u)"
            using SF[OF u] other[of u] by simp
        qed
        show "\<forall>u. stat_of k u = RT_THREAD_SUSPEND \<and> u \<notin> set (t # ts) \<longrightarrow> stat_of k' u = RT_THREAD_SUSPEND"
        proof (intro allI impI)
          fix u assume "stat_of k u = RT_THREAD_SUSPEND \<and> u \<notin> set (t # ts)"
          then have "stat_of ?k3 u = RT_THREAD_SUSPEND" "u \<notin> set ts" using st3[of u] by auto
          then show "stat_of k' u = RT_THREAD_SUSPEND" using S by blast
        qed
        show "\<forall>u. stat_of k' u = RT_THREAD_SUSPEND \<longrightarrow> stat_of k u = RT_THREAD_SUSPEND" using S st3 by blast
        show "\<forall>u\<in>set (t # ts). if stat_of k' u = RT_THREAD_SUSPEND
          then u \<in> set (waitq k' (EventQ e)) \<and> waiting k' e u (ev_set k' e) = Some False
          else u \<notin> set (waitq k' (EventQ e)) \<and> waiting k e u (ev_set k e) = Some True"
          unfolding list.set ball_simps using rest nsus ntq tmet by (metis (full_types))
        show "\<forall>u. u \<in> set (waitq k (EventQ e)) - set (t # ts) \<longrightarrow> u \<in> set (waitq k' (EventQ e))"
          using S w3[of "EventQ e"] by auto
      qed
      then show ?thesis using ev s(1) by auto
    qed
  qed
qed

lemma scanned_objects:
  assumes s: "scanned e (waitq k (EventQ e)) k k'" and o: "\<And>s. sem_ok k s" "\<And>x. mutex_ok k x"
    and ev: "\<And>d. ipc_flag (e_flag (events (ipc k) d))" "\<And>d. d \<noteq> e \<Longrightarrow> event_ok k d"
  shows "objects_ok k'"
proof -
  note S = s[unfolded scanned_def]
  have kk: "kinv k'" using S by blast
  have "sem_ok k' r" for r
    using o(1)[of r] S unfolding same_sems_def sem_ok_def sem_value_def
    by (metis empty_subsetI set_empty subset_antisym)
  moreover have "mutex_ok k' x" for x
  proof -
    have "mutex_of k' x = mutex_of k x" "set (waitq k' (MutexQ x)) \<subseteq> set (waitq k (MutexQ x))"
      using S by (auto simp: same_mutexes_def)
    then show ?thesis using o(2)[of x] unfolding mutex_ok_def
      by (metis empty_subsetI set_empty subset_antisym subset_iff)
  qed
  moreover have "event_ok k' d" for d
  proof -
    have f: "e_flag (events (ipc k') d) = e_flag (events (ipc k) d)" using S by blast
    have "waiting k' d t (ev_set k' d) = Some False" if t: "t \<in> set (waitq k' (EventQ d))" for t
    proof (cases "d = e")
      case True
      have sus: "stat_of k' t = RT_THREAD_SUSPEND" by (rule in_waitq[OF kk t])
      have "t \<in> set (waitq k (EventQ e))" using S t True by blast
      then show ?thesis using S sus True by (metis (no_types, lifting))
    next
      case False
      have sus: "stat_of k' t = RT_THREAD_SUSPEND" by (rule in_waitq[OF kk t])
      have "event_set (threads k' t) = event_set (threads k t)" "event_info (threads k' t) = event_info (threads k t)"
        using S sus by blast+
      moreover have "ev_set k' d = ev_set k d" "waitq k' (EventQ d) = waitq k (EventQ d)" using S False by blast+
      ultimately show ?thesis using ev(2)[OF False] t by (simp add: event_ok_def waiting_def)
    qed
    then show ?thesis using ev(1)[of d] f by (simp add: event_ok_def waiting_def)
  qed
  ultimately show ?thesis by (simp add: objects_ok_def)
qed

text \<open>What \<open>rt_event_send\<close> does to the threads that wait for the event.\<close>

lemma event_send_state:
  assumes k: "kinv k" and o: "objects_ok k" and b: "bits \<noteq> 0"
  obtains need k' where "rt_event_send e bits k = (RT_EOK, if need then rt_schedule k' else k')"
    "scanned e (waitq k (EventQ e)) (upd_event e (\<lambda>x. x\<lparr>e_set := e_set x OR bits\<rparr>) k) k'" "kinv k'" "objects_ok k'"
proof -
  let ?k = "upd_event e (\<lambda>x. x\<lparr>e_set := e_set x OR bits\<rparr>) k"
  have v: "\<forall>t\<in>set (waitq k (EventQ e)). waiting ?k e t 0 \<noteq> None"
  proof
    fix t assume "t \<in> set (waitq k (EventQ e))"
    then have "event_met (event_info (threads k t)) (event_set (threads k t)) (ev_set k e) = Some False"
      using objects_okD(3)[OF o, of e] by (simp add: event_ok_def)
    then show "waiting ?k e t 0 \<noteq> None"
      using event_met_None[of "event_info (threads k t)" "event_set (threads k t)" "ev_set k e" "event_set (threads k t)" 0]
      by (simp add: waiting_def)
  qed
  have d: "distinct (waitq k (EventQ e))" using k by (simp add: kinv_but_def waits_ok_def)
  have kk: "kinv ?k" using k by simp
  obtain need k' where s: "event_scan e (waitq k (EventQ e)) False ?k = (True, need, k')"
      "scanned e (waitq k (EventQ e)) ?k k'"
    using event_scan_state[OF kk _ d v, of False] by auto
  have "objects_ok k'"
  proof (rule scanned_objects)
    show "scanned e (waitq ?k (EventQ e)) ?k k'" using s(2) by simp
    show "sem_ok ?k r" for r using sems_same[OF _ o] by simp
    show "mutex_ok ?k x" for x using mutexes_same[OF _ o] by simp
    show "ipc_flag (e_flag (events (ipc ?k) d))" for d using objects_okD(3)[OF o, of d] objects_okD(3)[OF o, of e]
      by (simp add: event_ok_def)
    show "event_ok ?k d" if "d \<noteq> e" for d using objects_okD(3)[OF o, of d] that by (simp add: event_ok_def)
  qed
  moreover have "rt_event_send e bits k = (RT_EOK, if need then rt_schedule k' else k')"
    using b s(1) by (simp add: rt_event_send_def Let_def)
  ultimately show thesis using that s(2) by (auto simp: scanned_def)
qed

lemma event_send_ok:
  assumes k: "kinv k" and o: "objects_ok k"
  shows "kinv (snd (rt_event_send e bits k)) \<and> objects_ok (snd (rt_event_send e bits k))"
proof (cases "bits = 0")
  case False
  from event_send_state[OF k o this, of e] obtain need k' where
    "rt_event_send e bits k = (RT_EOK, if need then rt_schedule k' else k')" "kinv k'" "objects_ok k'" by metis
  then show ?thesis using kinv_rt_schedule frame_objects[OF frame_schedule] by auto
qed (use k o in \<open>simp add: rt_event_send_def\<close>)

lemma event_recv_ok:
  assumes k: "kinv k" and o: "objects_ok k" and c: "stat_of k (rt_current_thread k) = RT_THREAD_RUNNING"
    and opt: "opt AND RT_EVENT_FLAG_AND \<noteq> 0 \<or> opt AND RT_EVENT_FLAG_OR \<noteq> 0"
  shows "kinv (snd (snd (rt_event_recv e want opt timeout k))) \<and>
    objects_ok (snd (snd (rt_event_recv e want opt timeout k)))"
proof (cases "want = 0")
  case False
  let ?t = "rt_current_thread k" let ?k1 = "set_error ?t RT_EOK k"
  have f1: "frame k ?k1" by (rule set_error_frame[OF k])
  have k1: "kinv ?k1" using f1 by (simp add: frame_def)
  have o1: "objects_ok ?k1" by (rule frame_objects[OF f1 o])
  have ev1: "ev_set ?k1 e = ev_set k e" by (simp add: ev_set_def)
  have v: "event_met opt want st \<noteq> None" for st using opt by (auto simp: event_met_def)
  have as: "RT_ASSERT (opt AND RT_EVENT_FLAG_AND = 0 \<longrightarrow> opt AND RT_EVENT_FLAG_OR \<noteq> 0) j = j" for j
    using opt by simp
  have out: "?t \<notin> set (waitq k q)" for q using in_waitq[OF k, of ?t q] c by auto
  text \<open>The fields of the running thread are of no concern to the threads that wait.\<close>
  have own: "kinv (upd_thread ?t (\<lambda>c. c\<lparr>event_set := es, event_info := ei\<rparr>) j) \<and>
      objects_ok (upd_thread ?t (\<lambda>c. c\<lparr>event_set := es, event_info := ei\<rparr>) j)"
    if j: "kinv j" "objects_ok j" "waitq j = waitq k" for es ei j
  proof -
    let ?j = "upd_thread ?t (\<lambda>c. c\<lparr>event_set := es, event_info := ei\<rparr>) j"
    have "kinv ?j" by (rule kinv_upd_same[OF j(1)]) (simp_all add: stat_of_def)
    moreover have "sem_ok ?j s = sem_ok j s" "mutex_ok ?j x = mutex_ok j x" for s x
      by (simp_all add: sem_ok_def mutex_ok_def sem_value_def)
    moreover have "event_ok ?j d = event_ok j d" for d
      using out[of "EventQ d"] by (auto simp: event_ok_def ev_set_def j(3))
    ultimately show ?thesis using j(2) by (simp add: objects_ok_def)
  qed
  show ?thesis
  proof (cases "event_met opt want (ev_set k e) = Some True")
    case True
    let ?k2 = "upd_thread ?t (\<lambda>c. c\<lparr>event_set := ev_set k e AND want, event_info := opt\<rparr>) ?k1"
    let ?k3 = "upd_event e (\<lambda>x. x\<lparr>e_set := e_set x AND NOT want\<rparr>) ?k2"
    have o2: "kinv ?k2" "objects_ok ?k2" using own[OF k1 o1] by auto
    have "event_ok ?k3 d" for d
    proof (cases "d = e")
      case True
      have "event_met (event_info (threads ?k2 t)) (event_set (threads ?k2 t)) (ev_set ?k2 e AND NOT want) = Some False"
        if "t \<in> set (waitq ?k2 (EventQ e))" for t
        using objects_okD(3)[OF o2(2), of e] that event_met_less[OF _ within_minus]
        by (simp add: event_ok_def del: upd_thread_sel(1))
      then show ?thesis using objects_okD(3)[OF o2(2), of e] True
        by (simp add: event_ok_def ev_set_def del: upd_thread_sel(1))
    next
      case False
      then show ?thesis using objects_okD(3)[OF o2(2), of d] by (simp add: event_ok_def)
    qed
    moreover have "sem_ok ?k3 s" "mutex_ok ?k3 x" for s x using sems_same[OF _ o2(2)] mutexes_same[OF _ o2(2)] by simp_all
    ultimately have "kinv ?k3 \<and> objects_ok ?k3" using o2(1) by (simp add: objects_ok_def)
    then show ?thesis using True \<open>want \<noteq> 0\<close> o2 ev1
      by (simp add: rt_event_recv_def Let_def rt_thread_self_def as)
  next
    case False
    then have nm: "event_met opt want (ev_set k e) = Some False" using v[of "ev_set k e"] by (metis (full_types) not_Some_eq)
    show ?thesis
    proof (cases "timeout = 0")
      case True
      have "frame ?k1 (set_error ?t (- RT_ETIMEOUT) ?k1)" by (rule set_error_frame[OF k1])
      then show ?thesis using True nm \<open>want \<noteq> 0\<close> frame_objects[OF _ o1] k1 ev1
        by (simp add: rt_event_recv_def Let_def rt_thread_self_def as)
    next
      case False
      let ?k2 = "upd_thread ?t (\<lambda>c. c\<lparr>event_set := want, event_info := opt\<rparr>) ?k1"
      let ?g = "e_flag (events (ipc k) e)" let ?k3 = "wait_on (EventQ e) ?g timeout ?k2"
      have o2: "kinv ?k2" "objects_ok ?k2" using own[OF k1 o1] by auto
      have c2: "stat_of ?k2 (rt_current_thread ?k2) = RT_THREAD_RUNNING" using c by (simp add: stat_of_def set_error_def)
      have g: "ipc_flag ?g" using objects_okD(3)[OF o, of e] by (simp add: event_ok_def)
      note W = wait_on_state[OF o2(1) c2 g, of "EventQ e" timeout]
      define k2 where "k2 = ?k2"
      have nm2: "event_met (event_info (threads k2 ?t)) (event_set (threads k2 ?t)) (ev_set k2 e) = Some False"
        using nm by (simp add: k2_def ev_set_def)
      have r2: "rt_current_thread k2 = ?t" by (simp add: k2_def)
      note W2 = W[folded k2_def]
      have e3: "ev_set (wait_on (EventQ e) ?g timeout k2) d = ev_set k2 d" for d by (simp add: ev_set_def W2(6))
      have "event_ok (wait_on (EventQ e) ?g timeout k2) d" for d
        using objects_okD(3)[OF o2(2), of d, folded k2_def] nm2
        unfolding event_ok_def W2(2,6,8,9) e3 by (cases "d = e") (simp_all add: set_enqueue(1) r2)
      then have "event_ok ?k3 d" for d by (simp add: k2_def)
      moreover have "sem_ok ?k3 s" "mutex_ok ?k3 x" for s x
        using sems_same[OF wait_same(1)[OF o2(1) c2 g] o2(2)] mutexes_same[OF wait_same(2)[OF o2(1) c2 g] o2(2)]
        by blast+
      ultimately have "kinv ?k3 \<and> objects_ok ?k3" using W(1) by (simp add: objects_ok_def)
      then show ?thesis using False nm \<open>want \<noteq> 0\<close> ev1
        by (simp add: rt_event_recv_def Let_def rt_thread_self_def as)
    qed
  qed
qed (use k o in \<open>simp add: rt_event_recv_def\<close>)

lemma event_control_ok:
  assumes k: "kinv k" and o: "objects_ok k"
  shows "\<exists>r k'. rt_event_control e cmd arg k = Some (r, k') \<and> kinv k' \<and> objects_ok k'"
proof (cases "cmd = RT_IPC_CMD_RESET")
  case True
  obtain k1 where k1: "ipc_list_resume_all (EventQ e) k = Some k1" "frame k k1" "waitq k1 = (waitq k)(EventQ e := [])"
    using resume_all_state[OF k, of "EventQ e"] by blast
  let ?k2 = "upd_event e (\<lambda>x. x\<lparr>e_set := 0\<rparr>) k1"
  have o1: "objects_ok k1" by (rule frame_objects[OF k1(2) o])
  have "event_ok ?k2 d" for d
    using objects_okD(3)[OF o1, of d] k1(3) by (cases "d = e") (simp_all add: event_ok_def)
  moreover have "sem_ok ?k2 s" "mutex_ok ?k2 x" for s x using sems_same[OF _ o1] mutexes_same[OF _ o1] by simp_all
  ultimately have o2: "objects_ok ?k2" by (simp add: objects_ok_def)
  have k2: "kinv ?k2" using k1(2) by (simp add: frame_def)
  show ?thesis using True k1(1) kinv_rt_schedule[OF k2] frame_objects[OF frame_schedule[OF k2] o2]
    by (simp add: rt_event_control_def)
qed (use k o in \<open>simp add: rt_event_control_def\<close>)

section \<open>What the calls promise\<close>

text \<open>C38: Threads that wait for a semaphore are served in the order of its waiting list: the one
  at place \<open>i\<close> stays suspended for \<open>i\<close> releases and is woken by the next one, and its
  \<open>rt_sem_take\<close> returns \<open>RT_EOK\<close>.\<close>

theorem sem_waiters_served_in_order:
  assumes "kinv k" "i < length (waitq k (SemQ s))" "t = waitq k (SemQ s) ! i"
    "t_error (threads k t) = RT_EOK"
  shows "(\<forall>j\<le>length (waitq k (SemQ s)).
      stat_of (releases j s k) t = RT_THREAD_SUSPEND \<longleftrightarrow> j \<le> i) \<and>
    rt_sem_take_end t (releases (Suc i) s k) = RT_EOK"
proof -
  let ?W = "waitq k (SemQ s)"
  have d: "distinct ?W" using assms(1) by (simp add: kinv_but_def waits_ok_def)
  have sus: "stat_of k t = RT_THREAD_SUSPEND" using in_waitq[OF assms(1), of t "SemQ s"] assms by simp
  have "t \<in> set (take j ?W) \<longleftrightarrow> i < j" if "j \<le> length ?W" for j
    using that assms(2,3) d by (auto simp: in_set_conv_nth nth_eq_iff_index_eq)
  then show ?thesis
    using releases_waitq[OF assms(1)] assms(2,4) sus
    by (auto simp: rt_sem_take_end_def not_less Suc_le_eq simp del: releases.simps)
qed

text \<open>Detaching a semaphore ends: the loop of \<open>_ipc_list_resume_all\<close> terminates whatever
  threads wait, each of them is woken and its \<open>rt_sem_take\<close> returns \<open>-RT_ERROR\<close>, and nobody waits
  any more.\<close>

theorem detach_wakes_everyone:
  assumes "kinv k"
  shows "\<exists>k'. rt_sem_detach s k = Some (RT_EOK, k') \<and> waitq k' (SemQ s) = [] \<and> kinv k' \<and>
    (\<forall>t\<in>set (waitq k (SemQ s)). stat_of k' t \<noteq> RT_THREAD_SUSPEND \<and> rt_sem_take_end t k' = - RT_ERROR)"
proof -
  obtain k' where k': "ipc_list_resume_all (SemQ s) k = Some k'" "frame k k'"
    "waitq k' = (waitq k)(SemQ s := [])"
    and w: "\<And>u. if u \<in> set (waitq k (SemQ s))
          then stat_of k' u \<noteq> RT_THREAD_SUSPEND \<and> t_error (threads k' u) = - RT_ERROR
          else stat_of k' u = stat_of k u \<and> t_error (threads k' u) = t_error (threads k u)"
    using resume_all_state[OF assms, of "SemQ s"] by blast
  have "rt_sem_take_end t k' = - RT_ERROR" if "t \<in> set (waitq k (SemQ s))" for t
    using w[of t] that by (simp add: rt_sem_take_end_def RT_ERROR_def RT_EOK_def)
  then show ?thesis using k' w by (auto simp: rt_sem_detach_def frame_def)
qed

text \<open>Sending events wakes exactly the threads whose condition the events meet: a thread that
  goes on waiting is not satisfied by the events that are left, a thread that is woken was
  satisfied by the old events together with the new ones, and no event appears that was not
  there or sent.\<close>

theorem event_send_wakes_the_satisfied:
  assumes "kinv k" "objects_ok k" "bits \<noteq> 0"
  shows "within (ev_set (snd (rt_event_send e bits k)) e) (ev_set k e OR bits) \<and>
    (\<forall>t\<in>set (waitq k (EventQ e)).
      if stat_of (snd (rt_event_send e bits k)) t = RT_THREAD_SUSPEND
      then waiting (snd (rt_event_send e bits k)) e t (ev_set (snd (rt_event_send e bits k)) e) = Some False
      else waiting k e t (ev_set k e OR bits) = Some True)"
proof -
  let ?k = "upd_event e (\<lambda>x. x\<lparr>e_set := e_set x OR bits\<rparr>) k"
  obtain need k' where s: "rt_event_send e bits k = (RT_EOK, if need then rt_schedule k' else k')"
    "scanned e (waitq k (EventQ e)) ?k k'" "kinv k'"
    by (rule event_send_state[OF assms, of e])
  have ev: "ev_set ?k e = ev_set k e OR bits" by (simp add: ev_set_def)
  have eq: "ev_set (snd (rt_event_send e bits k)) e = ev_set k' e"
    "stat_of (snd (rt_event_send e bits k)) t = RT_THREAD_SUSPEND \<longleftrightarrow> stat_of k' t = RT_THREAD_SUSPEND"
    "waiting (snd (rt_event_send e bits k)) e t st = waiting k' e t st" for t st
    using s(1) rt_schedule_keeps[OF s(3)] by (simp_all add: ev_set_def waiting_def)
  have same: "waiting ?k e t st = waiting k e t st" for t st by (simp add: waiting_def)
  note W = scanned_woken[OF s(2), unfolded ev same]
  show ?thesis
    unfolding eq
  proof (intro conjI ballI)
    show "within (ev_set k' e) (ev_set k e OR bits)" by (rule W(2))
    show "if stat_of k' t = RT_THREAD_SUSPEND then waiting k' e t (ev_set k' e) = Some False
        else waiting k e t (ev_set k e OR bits) = Some True" if "t \<in> set (waitq k (EventQ e))" for t
      by (rule if_bool_eq_conj[THEN iffD2], rule W(1)[OF that])
  qed
qed

text \<open>Priority inheritance does not nest.  A thread that holds mutex \<open>a\<close> and runs with a
  raised priority takes mutex \<open>b\<close>, gives \<open>a\<close> back and then \<open>b\<close>: it holds nothing any more and
  keeps the raised priority, because \<open>b\<close> remembered it as the thread's own.\<close>

theorem raised_priority_is_kept:
  assumes "t = rt_current_thread k" "t \<noteq> 0" "stat_of k t = RT_THREAD_RUNNING" "a \<noteq> b"
    and "m_owner (mutex_of k a) = t" "m_hold (mutex_of k a) = 1" "m_value (mutex_of k a) = 0"
    and "original_priority (mutex_of k a) \<noteq> current_priority (threads k t)"
    and "m_owner (mutex_of k b) = 0" "m_hold (mutex_of k b) = 0" "m_value (mutex_of k b) = 1"
    and "waitq k (MutexQ a) = []" "waitq k (MutexQ b) = []"
    and "k1 = snd (rt_mutex_take b time k)" "k2 = snd (rt_mutex_release a k1)"
      "k3 = snd (rt_mutex_release b k2)"
  shows "m_owner (mutex_of k3 a) = 0 \<and> m_owner (mutex_of k3 b) = 0 \<and>
    current_priority (threads k3 t) = current_priority (threads k t)"
proof -
  let ?p = "current_priority (threads k t)" let ?o = "original_priority (mutex_of k a)"
  have run: "RT_THREAD_RUNNING \<noteq> RT_THREAD_READY" by simp
  have k1: "m_owner (mutex_of k1 b) = t" "m_hold (mutex_of k1 b) = 1" "m_value (mutex_of k1 b) = 0"
    "original_priority (mutex_of k1 b) = ?p" "mutex_of k1 a = mutex_of k a" "waitq k1 = waitq k"
    "rt_current_thread k1 = t" "stat_of k1 = stat_of k" "current_priority (threads k1 t) = ?p"
    unfolding assms(14) using assms(1,2,4,9,10,11)
    by (simp_all add: rt_mutex_take_def Let_def rt_thread_self_def RT_MUTEX_HOLD_MAX_def set_error_def)
  have k2: "m_owner (mutex_of k2 a) = 0" "mutex_of k2 b = mutex_of k1 b" "waitq k2 = waitq k"
    "rt_current_thread k2 = t" "stat_of k2 t = RT_THREAD_RUNNING" "current_priority (threads k2 t) = ?o"
    unfolding assms(15) using assms(3,4,5,6,7,8,12) k1
    by (simp_all add: rt_mutex_release_def Let_def rt_thread_self_def mutex_free_def change_priority_def
        RT_MUTEX_VALUE_MAX_def)
  show ?thesis
    unfolding assms(16) using assms(4,8,13) k1 k2
    by (simp add: rt_mutex_release_def Let_def rt_thread_self_def mutex_free_def change_priority_def
        RT_MUTEX_VALUE_MAX_def)
qed

section \<open>A system in which the main thread waits\<close>

text \<open>After the start-up the main thread, 1, runs, and no object is in use; then it waits for
  the semaphore 7.\<close>

lemma startup_objects:
  assumes "m \<noteq> 0" "i \<noteq> 0" "m \<noteq> i" shows "objects_ok (rtthread_startup m i kern0)"
  using startup_ok[OF assms]
  by (simp add: objects_ok_def sem_ok_def mutex_ok_def event_ok_def sem_value_def ipc0_def RT_IPC_FLAG_FIFO_def)

definition system0 :: kern where "system0 = rtthread_startup 1 2 kern0"

lemma system0: "kinv system0" "objects_ok system0" "rt_current_thread system0 = 1"
  "stat_of system0 1 = RT_THREAD_RUNNING" "waitq system0 q = []" "ipc system0 = ipc0" "clock_ok 0 system0"
  using startup_ok[of 1 2] startup_objects[of 1 2] by (simp_all add: system0_def)

definition waiting_system :: kern where
  "waiting_system = snd (rt_sem_take 7 (- 1) system0)"

lemma waiting_system:
  "kinv waiting_system" "objects_ok waiting_system" "waitq waiting_system (SemQ 7) = [1]"
  "t_error (threads waiting_system 1) = RT_EOK"
proof -
  show "kinv waiting_system" "objects_ok waiting_system"
    unfolding waiting_system_def using sem_take_ok[OF system0(1,2)] system0(3,4) by auto
  have e: "waiting_system = wait_on (SemQ 7) RT_IPC_FLAG_FIFO (- 1) (set_error 1 RT_EOK system0)"
    using system0 by (simp add: waiting_system_def rt_sem_take_def sem_value_def ipc0_def rt_thread_self_def
        RT_IPC_FLAG_FIFO_def)
  have k: "kinv (set_error 1 RT_EOK system0)"
    "stat_of (set_error 1 RT_EOK system0) (rt_current_thread (set_error 1 RT_EOK system0)) = RT_THREAD_RUNNING"
    using system0 by simp_all
  show "waitq waiting_system (SemQ 7) = [1]" "t_error (threads waiting_system 1) = RT_EOK"
    unfolding e using wait_on_state(2,7)[OF k, of RT_IPC_FLAG_FIFO] system0 by (simp_all add: enqueue_def)
qed

lemma sem_waiters_served_in_order_witness:
  "stat_of (releases 0 7 waiting_system) 1 = RT_THREAD_SUSPEND \<and>
   stat_of (releases 1 7 waiting_system) 1 \<noteq> RT_THREAD_SUSPEND \<and>
   rt_sem_take_end 1 (releases 1 7 waiting_system) = RT_EOK"
  using sem_waiters_served_in_order[of waiting_system 0 7 1] waiting_system by (simp del: releases.simps)

lemma detach_wakes_everyone_witness:
  "\<exists>k'. rt_sem_detach 7 waiting_system = Some (RT_EOK, k') \<and> waitq k' (SemQ 7) = [] \<and>
     rt_sem_take_end 1 k' = - RT_ERROR"
  using detach_wakes_everyone[of waiting_system 7] waiting_system by auto

text \<open>The main thread waits for bit 0 or bit 1 of the event 3, to be cleared on reception.\<close>

definition event_system :: kern where
  "event_system = snd (snd (rt_event_recv 3 3 6 (- 1) system0))"

lemma event_system:
  "kinv event_system" "objects_ok event_system" "waitq event_system (EventQ 3) = [1]"
  "event_info (threads event_system 1) = 6" "event_set (threads event_system 1) = 3" "ev_set event_system 3 = 0"
proof -
  show "kinv event_system" "objects_ok event_system"
    unfolding event_system_def using event_recv_ok[OF system0(1,2), of 6] system0(3,4)
    by (auto simp: RT_EVENT_FLAG_OR_def)
  let ?k = "upd_thread 1 (\<lambda>c. c\<lparr>event_set := 3, event_info := 6\<rparr>) (set_error 1 RT_EOK system0)"
  have e: "event_system = wait_on (EventQ 3) RT_IPC_FLAG_FIFO (- 1) ?k"
    using system0 by (simp add: event_system_def rt_event_recv_def Let_def rt_thread_self_def event_met_def
        RT_EVENT_FLAG_AND_def RT_EVENT_FLAG_OR_def ev_set_def ipc0_def RT_IPC_FLAG_FIFO_def)
  have k0: "kinv (set_error 1 RT_EOK system0)" using system0 by simp
  have k: "kinv ?k" by (rule kinv_upd_same[OF k0]) (simp_all add: stat_of_def[symmetric])
  have s: "stat_of ?k 1 = stat_of (set_error 1 RT_EOK system0) 1"
    unfolding stat_of_def by simp
  have r: "stat_of ?k (rt_current_thread ?k) = RT_THREAD_RUNNING" using system0 s by simp
  have g: "ipc_flag RT_IPC_FLAG_FIFO" by simp
  note W = wait_on_state[OF k r g]
  show "waitq event_system (EventQ 3) = [1]" unfolding e W(2) using system0 by (simp add: enqueue_def)
  show "event_info (threads event_system 1) = 6" unfolding e W(9) by simp
  show "event_set (threads event_system 1) = 3" unfolding e W(8) by simp
  show "ev_set event_system 3 = 0" unfolding e ev_set_def W(6) using system0 by (simp add: ipc0_def)
qed

lemma event_send_wakes_the_satisfied_witness:
  "waiting event_system 3 1 1 = Some True \<and> waiting event_system 3 1 4 = Some False \<and>
   stat_of (snd (rt_event_send 3 4 event_system)) 1 = RT_THREAD_SUSPEND"
proof -
  have w: "waiting event_system 3 1 1 = Some True" "waiting event_system 3 1 4 = Some False"
    using event_system by (simp_all add: waiting_def event_met_def RT_EVENT_FLAG_AND_def RT_EVENT_FLAG_OR_def)
  then show ?thesis
    using event_send_wakes_the_satisfied[of event_system 4 3] event_system by (auto split: if_splits)
qed

text \<open>The main thread holds mutex 5, which remembers another priority than it runs with; mutex 6
  is free.\<close>

definition raised_system :: kern where
  "raised_system = upd_mutex 6 (\<lambda>m. m\<lparr>m_value := 1\<rparr>)
     (upd_mutex 5 (\<lambda>m. m\<lparr>m_owner := 1, m_hold := 1, m_value := 0,
        original_priority := current_priority (threads system0 1) + 1\<rparr>) system0)"

lemma raised_priority_is_kept_witness:
  "current_priority (threads (snd (rt_mutex_release 6 (snd (rt_mutex_release 5
      (snd (rt_mutex_take 6 0 raised_system)))))) 1) = current_priority (threads raised_system 1)"
proof -
  have m: "mutex_of raised_system 6 = \<lparr>m_flag = 0, m_value = 1, original_priority = 0, m_hold = 0, m_owner = 0\<rparr>"
    "mutex_of raised_system 5 = \<lparr>m_flag = 0, m_value = 0,
       original_priority = current_priority (threads system0 1) + 1, m_hold = 1, m_owner = 1\<rparr>"
    "waitq raised_system q = []" "rt_current_thread raised_system = 1"
    "stat_of raised_system 1 = RT_THREAD_RUNNING"
    "current_priority (threads raised_system 1) = current_priority (threads system0 1)" for q
    using system0 by (simp_all add: raised_system_def ipc0_def)
  have "m_owner (mutex_of (snd (rt_mutex_release 6 (snd (rt_mutex_release 5
      (snd (rt_mutex_take 6 0 raised_system)))))) 5) = 0 \<and>
    m_owner (mutex_of (snd (rt_mutex_release 6 (snd (rt_mutex_release 5
      (snd (rt_mutex_take 6 0 raised_system)))))) 6) = 0 \<and>
    current_priority (threads (snd (rt_mutex_release 6 (snd (rt_mutex_release 5
      (snd (rt_mutex_take 6 0 raised_system)))))) 1) = current_priority (threads raised_system 1)"
    by (rule raised_priority_is_kept[of 1 raised_system 5 6]) (use m in simp_all)
  then show ?thesis by simp
qed

end
