(* ===== verification/Fifo.thy ===== *)
theory Fifo
  imports Prelude
begin

text \<open>
  What the kernel's mailboxes and message queues both promise: a queue that takes elements
  at its end or, when they are urgent, at its front, and gives them out at its front.  The
  ring of KMail and the linked slots of KMsg are shown to keep the contract.
\<close>

text \<open>A sequence of calls and their answers.\<close>

fun run_calls :: "('c \<Rightarrow> 's \<Rightarrow> 'r \<times> 's) \<Rightarrow> 'c list \<Rightarrow> 's \<Rightarrow> 'r list \<times> 's" where
  "run_calls f [] s = ([], s)"
| "run_calls f (c # cs) s = (let (r, s) = f c s; (rs, s) = run_calls f cs s in (r # rs, s))"

text \<open>A simulation of single calls is one of sequences of calls.\<close>

lemma run_calls_simulates:
  assumes "I s" "\<And>c s. I s \<Longrightarrow> I (snd (f c s)) \<and> g c (view s) = (fst (f c s), view (snd (f c s)))"
  shows "I (snd (run_calls f cs s)) \<and> run_calls g cs (view s) = (fst (run_calls f cs s), view (snd (run_calls f cs s)))"
  using assms(1)
proof (induction cs arbitrary: s)
  case (Cons c cs)
  have 1: "I (snd (f c s))" "g c (view s) = (fst (f c s), view (snd (f c s)))" using assms(2)[OF Cons.prems] by auto
  show ?case using Cons.IH[OF 1(1)] 1(2) by (simp add: case_prod_unfold Let_def)
qed simp

locale fifo =
  fixes ok :: "'s \<Rightarrow> bool" and content :: "'s \<Rightarrow> 'a list" and admits :: "'a \<Rightarrow> 's \<Rightarrow> bool"
    and put :: "'a \<Rightarrow> 's \<Rightarrow> 's" and put_first :: "'a \<Rightarrow> 's \<Rightarrow> 's" and drop_first :: "'s \<Rightarrow> 's"
  assumes put: "ok s \<Longrightarrow> admits x s \<Longrightarrow> ok (put x s) \<and> content (put x s) = content s @ [x]"
    and put_first: "ok s \<Longrightarrow> admits x s \<Longrightarrow> ok (put_first x s) \<and> content (put_first x s) = x # content s"
    and drop_first: "ok s \<Longrightarrow> content s \<noteq> [] \<Longrightarrow>
      ok (drop_first s) \<and> content (drop_first s) = tl (content s)"
begin

text \<open>What was taken out, followed by what is still there, is what was put in.\<close>

lemma put_history: "ok s \<Longrightarrow> admits x s \<Longrightarrow> got @ content s = sent \<Longrightarrow> got @ content (put x s) = sent @ [x]"
  using put[of s x] by auto

lemma drop_history:
  "ok s \<Longrightarrow> content s = x # xs \<Longrightarrow> got @ content s = sent \<Longrightarrow> (got @ [x]) @ content (drop_first s) = sent"
  using drop_first[of s] by auto

text \<open>An urgent element is the next one out, and taking it out undoes putting it in.\<close>

lemma urgent_is_next: "ok s \<Longrightarrow> admits x s \<Longrightarrow> content (drop_first (put_first x s)) = content s"
  using put_first[of s x] drop_first[of "put_first x s"] by simp

text \<open>As many elements come out, in order, as the queue holds.\<close>

lemma drain: "ok s \<Longrightarrow> n \<le> length (content s) \<Longrightarrow>
    ok ((drop_first ^^ n) s) \<and> content ((drop_first ^^ n) s) = drop n (content s)"
proof (induction n)
  case (Suc n)
  then have "ok ((drop_first ^^ n) s)" "content ((drop_first ^^ n) s) = drop n (content s)" by auto
  moreover have "drop n (content s) \<noteq> []" using Suc.prems(2) by simp
  ultimately show ?case using drop_first[of "(drop_first ^^ n) s"] by (simp add: drop_Suc tl_drop)
qed simp

lemma drained: "ok s \<Longrightarrow> content ((drop_first ^^ length (content s)) s) = []"
  using drain[of s "length (content s)"] by simp

end

end
