(* ===== verification/KMail.thy ===== *)
theory KMail
  imports KIpc Fifo
begin

text \<open>
  The mailboxes of src/rt-thread/src/ipc.c: a ring of words with its two offsets and the
  number of mails, senders that wait for room and receivers that wait for mail.  A call that
  waits is cut at \<open>rt_schedule\<close> as in KIpc; when its thread runs again it takes up the loop
  with what is left of its time, and may have to wait again because another thread was
  faster.  The ring keeps the contract of Fifo, and a run of calls answers as a bounded
  queue would.
\<close>

section \<open>The ring\<close>

definition RT_MB_ENTRY_MAX :: u16 where "RT_MB_ENTRY_MAX = 0xffff"

text \<open>The offset after another one.\<close>

definition mb_next :: "u16 \<Rightarrow> u16 \<Rightarrow> u16" where
  "mb_next sz off = (if sz \<le> off + 1 then 0 else off + 1)"

definition mb_prev :: "u16 \<Rightarrow> u16 \<Rightarrow> u16" where
  "mb_prev sz off = (if 0 < off then off - 1 else sz - 1)"

definition mb_store :: "u32 \<Rightarrow> mailbox \<Rightarrow> mailbox" where
  "mb_store v b = b\<lparr>mb_pool := (mb_pool b)[unat (mb_in b) := v], mb_in := mb_next (mb_size b) (mb_in b)\<rparr>"

definition mb_count_up :: "mailbox \<Rightarrow> mailbox" where
  "mb_count_up b = b\<lparr>mb_entry := mb_entry b + 1\<rparr>"

definition mb_store_first :: "u32 \<Rightarrow> mailbox \<Rightarrow> mailbox" where
  "mb_store_first v b =
     (let out = mb_prev (mb_size b) (mb_out b)
      in b\<lparr>mb_out := out, mb_pool := (mb_pool b)[unat out := v]\<rparr>)"

definition mb_fetch :: "mailbox \<Rightarrow> u32" where
  "mb_fetch b = mb_pool b ! unat (mb_out b)"

definition mb_drop :: "mailbox \<Rightarrow> mailbox" where
  "mb_drop b = b\<lparr>mb_out := mb_next (mb_size b) (mb_out b),
     mb_entry := (if 0 < mb_entry b then mb_entry b - 1 else mb_entry b)\<rparr>"

section \<open>The operations\<close>

abbreviation mb_of :: "kern \<Rightarrow> nat \<Rightarrow> mailbox" where
  "mb_of k m \<equiv> mailboxes (ipc k) m"

definition upd_mb :: "nat \<Rightarrow> (mailbox \<Rightarrow> mailbox) \<Rightarrow> kern \<Rightarrow> kern" where
  "upd_mb m f k = k\<lparr>ipc := (ipc k)\<lparr>mailboxes := (mailboxes (ipc k))(m := f (mailboxes (ipc k) m))\<rparr>\<rparr>"

text \<open>\<open>pool\<close> is the memory of the mails, of which the caller says that it has \<open>sz\<close> words.\<close>

definition rt_mb_init :: "nat \<Rightarrow> u32 list \<Rightarrow> u32 \<Rightarrow> u8 \<Rightarrow> kern \<Rightarrow> int \<times> kern" where
  "rt_mb_init m pool sz flag k =
     (let k = RT_ASSERT (flag = RT_IPC_FLAG_FIFO \<or> flag = RT_IPC_FLAG_PRIO) k;
          k = upd_waitq (MbSendQ m) (\<lambda>_. []) (upd_waitq (MbQ m) (\<lambda>_. []) k)
      in (RT_EOK, upd_mb m (\<lambda>_. \<lparr>mb_flag = flag, mb_pool = pool, mb_size = ucast sz, mb_entry = 0,
            mb_in = 0, mb_out = 0\<rparr>) k))"

text \<open>Both waiting lists are emptied, as by a reset.\<close>

definition resume_both :: "head \<Rightarrow> head \<Rightarrow> kern \<Rightarrow> kern option" where
  "resume_both q q' k = Option.bind (ipc_list_resume_all q k) (ipc_list_resume_all q')"

definition rt_mb_detach :: "nat \<Rightarrow> kern \<Rightarrow> (int \<times> kern) option" where
  "rt_mb_detach m k = map_option (Pair RT_EOK) (resume_both (MbQ m) (MbSendQ m) k)"

text \<open>The end of every operation that made something available.\<close>

definition wake_one :: "head \<Rightarrow> kern \<Rightarrow> kern" where
  "wake_one q k = (if waitq k q \<noteq> [] then rt_schedule (ipc_list_resume q k) else k)"

definition mb_deliver :: "nat \<Rightarrow> u32 \<Rightarrow> kern \<Rightarrow> int \<times> kern" where
  "mb_deliver m v k =
     (let k = RT_ASSERT (unat (mb_in (mb_of k m)) < length (mb_pool (mb_of k m))) k;
          k = upd_mb m (mb_store v) k
      in if mb_entry (mb_of k m) < RT_MB_ENTRY_MAX
         then (RT_EOK, wake_one (MbQ m) (upd_mb m mb_count_up k))
         else (- RT_EFULL, k))"

text \<open>What is left of a waiting time that is not unlimited; \<open>since\<close> is the tick at which the
  thread began to wait.\<close>

definition time_left :: "u32 \<Rightarrow> u32 \<Rightarrow> u32 \<Rightarrow> u32" where
  "time_left timeout since now =
     (if 0 < sint timeout
      then (let left = timeout - (now - since) in if sint left < 0 then 0 else left)
      else timeout)"

text \<open>One turn of the loop \<open>while (mb->entry == mb->size)\<close> and what follows it.\<close>

definition mb_send_turn :: "nat \<Rightarrow> u32 \<Rightarrow> u32 \<Rightarrow> kern \<Rightarrow> ipc_result \<times> kern" where
  "mb_send_turn m v timeout k =
     (if mb_entry (mb_of k m) = mb_size (mb_of k m)
      then let k = set_error (rt_thread_self k) RT_EOK k
           in if timeout = 0 then (Returned (- RT_EFULL), k)
              else (Waiting, wait_on (MbSendQ m) (mb_flag (mb_of k m)) timeout k)
      else apfst Returned (mb_deliver m v k))"

definition rt_mb_send_wait :: "nat \<Rightarrow> u32 \<Rightarrow> u32 \<Rightarrow> kern \<Rightarrow> ipc_result \<times> kern" where
  "rt_mb_send_wait m v timeout k =
     (if mb_entry (mb_of k m) = mb_size (mb_of k m) \<and> timeout = 0 then (Returned (- RT_EFULL), k)
      else mb_send_turn m v timeout k)"

text \<open>When the thread \<open>t\<close> runs again.\<close>

definition mb_send_again :: "nat \<Rightarrow> nat \<Rightarrow> u32 \<Rightarrow> u32 \<Rightarrow> u32 \<Rightarrow> kern \<Rightarrow> ipc_result \<times> kern" where
  "mb_send_again t m v timeout since k =
     (if t_error (threads k t) \<noteq> RT_EOK then (Returned (t_error (threads k t)), k)
      else mb_send_turn m v (time_left timeout since (rt_tick_get k)) k)"

definition rt_mb_send :: "nat \<Rightarrow> u32 \<Rightarrow> kern \<Rightarrow> ipc_result \<times> kern" where
  "rt_mb_send m v = rt_mb_send_wait m v 0"

definition rt_mb_urgent :: "nat \<Rightarrow> u32 \<Rightarrow> kern \<Rightarrow> int \<times> kern" where
  "rt_mb_urgent m v k =
     (if mb_entry (mb_of k m) = mb_size (mb_of k m) then (- RT_EFULL, k)
      else let k = RT_ASSERT (unat (mb_prev (mb_size (mb_of k m)) (mb_out (mb_of k m)))
                     < length (mb_pool (mb_of k m))) k;
               k = upd_mb m (mb_count_up \<circ> mb_store_first v) k
           in (RT_EOK, wake_one (MbQ m) k))"

text \<open>The second component is what is stored in \<open>*value\<close>, if anything is.\<close>

definition mb_collect :: "nat \<Rightarrow> kern \<Rightarrow> ipc_result \<times> u32 option \<times> kern" where
  "mb_collect m k =
     (let k = RT_ASSERT (unat (mb_out (mb_of k m)) < length (mb_pool (mb_of k m))) k;
          v = mb_fetch (mb_of k m)
      in (Returned RT_EOK, Some v, wake_one (MbSendQ m) (upd_mb m mb_drop k)))"

definition mb_recv_turn :: "nat \<Rightarrow> u32 \<Rightarrow> kern \<Rightarrow> ipc_result \<times> u32 option \<times> kern" where
  "mb_recv_turn m timeout k =
     (if mb_entry (mb_of k m) = 0
      then let t = rt_thread_self k; k = set_error t RT_EOK k
           in if timeout = 0 then (Returned (- RT_ETIMEOUT), None, set_error t (- RT_ETIMEOUT) k)
              else (Waiting, None, wait_on (MbQ m) (mb_flag (mb_of k m)) timeout k)
      else mb_collect m k)"

definition rt_mb_recv :: "nat \<Rightarrow> u32 \<Rightarrow> kern \<Rightarrow> ipc_result \<times> u32 option \<times> kern" where
  "rt_mb_recv m timeout k =
     (if mb_entry (mb_of k m) = 0 \<and> timeout = 0 then (Returned (- RT_ETIMEOUT), None, k)
      else mb_recv_turn m timeout k)"

definition mb_recv_again :: "nat \<Rightarrow> nat \<Rightarrow> u32 \<Rightarrow> u32 \<Rightarrow> kern \<Rightarrow> ipc_result \<times> u32 option \<times> kern" where
  "mb_recv_again t m timeout since k =
     (if t_error (threads k t) \<noteq> RT_EOK then (Returned (t_error (threads k t)), None, k)
      else mb_recv_turn m (time_left timeout since (rt_tick_get k)) k)"

definition rt_mb_control :: "nat \<Rightarrow> int \<Rightarrow> kern \<Rightarrow> (int \<times> kern) option" where
  "rt_mb_control m cmd k =
     (if cmd = RT_IPC_CMD_RESET
      then map_option (\<lambda>k. (RT_EOK, rt_schedule (upd_mb m (\<lambda>b. b\<lparr>mb_entry := 0, mb_in := 0, mb_out := 0\<rparr>) k)))
             (resume_both (MbQ m) (MbSendQ m) k)
      else Some (- RT_ERROR, k))"

section \<open>The ring is a queue\<close>

definition mails :: "mailbox \<Rightarrow> u32 list" where
  "mails b = map (\<lambda>i. mb_pool b ! ((unat (mb_out b) + i) mod unat (mb_size b))) [0..<unat (mb_entry b)]"

definition ring_ok :: "mailbox \<Rightarrow> bool" where
  "ring_ok b \<longleftrightarrow> unat (mb_size b) \<le> length (mb_pool b) \<and> unat (mb_entry b) \<le> unat (mb_size b) \<and>
     (mb_size b \<noteq> 0 \<longrightarrow> unat (mb_out b) < unat (mb_size b) \<and>
        unat (mb_in b) = (unat (mb_out b) + unat (mb_entry b)) mod unat (mb_size b))"

definition mb_room :: "u32 \<Rightarrow> mailbox \<Rightarrow> bool" where
  "mb_room v b \<longleftrightarrow> mb_entry b \<noteq> mb_size b"

lemma unat16_less: "unat (w :: u16) < 65536"
  using unsigned_less[of w] by simp

lemma unat16_Suc: "unat (o' :: u16) < unat (sz :: u16) \<Longrightarrow> unat (o' + 1) = unat o' + 1"
  using unat16_less[of sz] by (simp add: unat_word_ariths)

lemma unat_mb_next: "unat (off :: u16) < unat sz \<Longrightarrow> unat (mb_next sz off) = (unat off + 1) mod unat sz"
  using unat16_Suc[of off sz] by (auto simp: mb_next_def word_le_nat_alt mod_Suc)

lemma unat16_pred: "(w :: u16) \<noteq> 0 \<Longrightarrow> unat (w - 1) = unat w - 1"
  by (simp add: unat_minus_one)

lemma unat_mb_prev:
  assumes "unat (off :: u16) < unat sz"
  shows "unat (mb_prev sz off) < unat sz" "(unat (mb_prev sz off) + 1) mod unat sz = unat off"
proof -
  have sz: "sz \<noteq> 0" using assms by auto
  have p: "unat (sz - 1) = unat sz - 1" "0 < unat sz" using unat16_pred[OF sz] assms by auto
  have q: "unat (off - 1) = unat off - 1" "0 < unat off" if "off \<noteq> 0"
    using unat16_pred[OF that] that by (auto simp: unat_gt_0)
  show "unat (mb_prev sz off) < unat sz"
    using assms p q by (cases "off = 0") (simp_all add: mb_prev_def word_gt_0)
  show "(unat (mb_prev sz off) + 1) mod unat sz = unat off"
    using assms p q by (cases "off = 0") (simp_all add: mb_prev_def word_gt_0)
qed

lemma ring_room:
  assumes "ring_ok b" "mb_room v b"
  shows "unat (mb_entry b) < unat (mb_size b)" "mb_size b \<noteq> 0" "mb_entry b < RT_MB_ENTRY_MAX"
    "unat (mb_entry b + 1) = unat (mb_entry b) + 1" "unat (mb_in b) < unat (mb_size b)"
proof -
  show l: "unat (mb_entry b) < unat (mb_size b)"
  proof -
    have "unat (mb_entry b) \<noteq> unat (mb_size b)" using assms(2) by (simp add: mb_room_def word_unat_eq_iff)
    then show ?thesis using assms(1) by (simp add: ring_ok_def)
  qed
  then show "mb_size b \<noteq> 0" by auto
  then show "unat (mb_in b) < unat (mb_size b)" using assms(1) l by (simp add: ring_ok_def)
  show "mb_entry b < RT_MB_ENTRY_MAX"
    using l unat16_less[of "mb_size b"] by (simp add: RT_MB_ENTRY_MAX_def word_less_nat_alt)
  show "unat (mb_entry b + 1) = unat (mb_entry b) + 1" by (rule unat16_Suc[OF l])
qed

text \<open>Two places of the ring less than its size apart are different.\<close>

lemma mod_neq:
  assumes "(i::nat) < n" "j < n" "i \<noteq> j" shows "(a + i) mod n \<noteq> (a + j) mod n"
proof
  assume e: "(a + i) mod n = (a + j) mod n"
  have "int n dvd int (a + i) - int (a + j)"
    using e by (metis mod_eq_dvd_iff of_nat_mod)
  then have d: "int n dvd int i - int j" by simp
  have "\<bar>int i - int j\<bar> < int n" using assms by auto
  then have "int i - int j = 0" using d by (metis dvd_imp_le_int not_less abs_of_nat)
  then show False using assms(3) by simp
qed

lemma ring_put:
  assumes r: "ring_ok b" and m: "mb_room v b"
  shows "ring_ok (mb_count_up (mb_store v b)) \<and> mails (mb_count_up (mb_store v b)) = mails b @ [v]"
proof -
  note R = ring_room[OF r m]
  define n e out where "n = unat (mb_size b)" and "e = unat (mb_entry b)" and "out = unat (mb_out b)"
  have i: "unat (mb_in b) = (out + e) mod n" and o: "out < n" and l: "n \<le> length (mb_pool b)"
    using r R(2) by (simp_all add: ring_ok_def n_def e_def out_def)
  have e: "e < n" using R(1) by (simp add: n_def e_def)
  have "((out + e) mod n + 1) mod n = (out + (e + 1)) mod n" by (simp add: mod_Suc_eq)
  then have "ring_ok (mb_count_up (mb_store v b))"
    using r R e o l i unat_mb_next[OF R(5)]
    by (simp add: ring_ok_def mb_count_up_def mb_store_def n_def[symmetric] e_def[symmetric] out_def[symmetric])
  moreover have "mails (mb_count_up (mb_store v b)) = mails b @ [v]"
  proof -
    have "(mb_pool b)[(out + e) mod n := v] ! ((out + j) mod n) = mb_pool b ! ((out + j) mod n)" if "j < e" for j
      using mod_neq[of j n e out] that e by simp
    moreover have "(mb_pool b)[(out + e) mod n := v] ! ((out + e) mod n) = v"
      using e l by (simp add: order.strict_trans2[OF mod_less_divisor])
    ultimately show ?thesis
      by (simp add: mails_def mb_count_up_def mb_store_def i R(4) n_def[symmetric] e_def[symmetric] out_def[symmetric])
  qed
  ultimately show ?thesis by blast
qed

lemma ring_put_first:
  assumes r: "ring_ok b" and m: "mb_room v b"
  shows "ring_ok (mb_count_up (mb_store_first v b)) \<and> mails (mb_count_up (mb_store_first v b)) = v # mails b"
proof -
  note R = ring_room[OF r m]
  define n e out p where "n = unat (mb_size b)" and "e = unat (mb_entry b)" and "out = unat (mb_out b)"
    and "p = unat (mb_prev (mb_size b) (mb_out b))"
  have o: "out < n" and l: "n \<le> length (mb_pool b)" and i: "unat (mb_in b) = (out + e) mod n"
    using r R(2) by (simp_all add: ring_ok_def n_def e_def out_def)
  have e: "e < n" using R(1) by (simp add: n_def e_def)
  have p: "p < n" "(p + 1) mod n = out" using unat_mb_prev[of "mb_out b" "mb_size b"] o
    by (simp_all add: p_def n_def out_def)
  have pj: "(p + (1 + j)) mod n = (out + j) mod n" for j
    using p(2) by (metis add.assoc mod_add_left_eq)
  then have "ring_ok (mb_count_up (mb_store_first v b))"
    using r R e p l i pj[of e]
    by (simp add: ring_ok_def mb_count_up_def mb_store_first_def Let_def n_def[symmetric] e_def[symmetric]
        p_def[symmetric])
  moreover have "mails (mb_count_up (mb_store_first v b)) = v # mails b"
  proof -
    have "(mb_pool b)[p := v] ! ((p + (1 + j)) mod n) = mb_pool b ! ((out + j) mod n)" if "j < e" for j
      using mod_neq[of 0 n "1 + j" p] that e p(1) unfolding pj by simp
    moreover have "(mb_pool b)[p := v] ! (p mod n) = v" using p(1) l by simp
    moreover have "[0..<e + 1] = 0 # map Suc [0..<e]" by (simp add: upt_conv_Cons map_Suc_upt del: upt_Suc)
    ultimately show ?thesis
      by (simp add: mails_def mb_count_up_def mb_store_first_def Let_def R(4) n_def[symmetric] e_def[symmetric]
          out_def[symmetric] p_def[symmetric] del: upt_Suc)
  qed
  ultimately show ?thesis by blast
qed

lemma mails_Nil: "mails b = [] \<longleftrightarrow> mb_entry b = 0"
  by (simp add: mails_def unat_eq_0)

lemma ring_drop:
  assumes r: "ring_ok b" and m: "mails b \<noteq> []"
  shows "ring_ok (mb_drop b) \<and> mails (mb_drop b) = tl (mails b)"
proof -
  define n e out where "n = unat (mb_size b)" and "e = unat (mb_entry b)" and "out = unat (mb_out b)"
  have e: "0 < e" "e \<le> n" using r m by (auto simp: mails_Nil ring_ok_def e_def n_def unat_gt_0)
  then have z: "mb_size b \<noteq> 0" by (auto simp: n_def)
  have o: "out < n" and l: "n \<le> length (mb_pool b)" and i: "unat (mb_in b) = (out + e) mod n"
    using r z by (simp_all add: ring_ok_def n_def e_def out_def)
  have d: "0 < mb_entry b" "unat (mb_entry b - 1) = e - 1"
    using m unat16_pred[of "mb_entry b"] by (simp_all add: mails_Nil word_gt_0 e_def)
  have nx: "unat (mb_next (mb_size b) (mb_out b)) = (out + 1) mod n"
    using unat_mb_next o by (simp add: n_def out_def)
  have pj: "((out + 1) mod n + j) mod n = (out + (1 + j)) mod n" for j by (metis add.assoc mod_add_left_eq)
  have "ring_ok (mb_drop b)"
    using r e o l i d nx pj[of "e - 1"]
    by (simp add: ring_ok_def mb_drop_def n_def[symmetric] e_def[symmetric])
  moreover have "mails (mb_drop b) = tl (mails b)"
  proof -
    have "[0..<e] = 0 # map Suc [0..<e - 1]" using e(1) by (simp add: upt_conv_Cons map_Suc_upt)
    then show ?thesis
      using pj by (simp add: mails_def mb_drop_def d nx n_def[symmetric] e_def[symmetric] out_def[symmetric])
  qed
  ultimately show ?thesis by blast
qed

interpretation ring: fifo ring_ok mails mb_room "\<lambda>v. mb_count_up \<circ> mb_store v" "\<lambda>v. mb_count_up \<circ> mb_store_first v"
  mb_drop
  by unfold_locales (simp_all add: ring_put ring_put_first ring_drop)

lemma mb_fetch_hd: "ring_ok b \<Longrightarrow> mails b \<noteq> [] \<Longrightarrow> mb_fetch b = hd (mails b)"
  by (auto simp: mb_fetch_def mails_def ring_ok_def unat_gt_0 mails_Nil hd_map upt_conv_Cons)

section \<open>The operations on the kernel\<close>

lemma upd_mb_sel [simp]:
  "kinv_but E (upd_mb m f k) = kinv_but E k" "threads (upd_mb m f k) = threads k"
  "stat_of (upd_mb m f k) = stat_of k" "prio (upd_mb m f k) = prio k" "waitq (upd_mb m f k) = waitq k"
  "timers (upd_mb m f k) = timers k" "timer_list (upd_mb m f k) = timer_list k" "rt_tick (upd_mb m f k) = rt_tick k"
  "rt_current_thread (upd_mb m f k) = rt_current_thread k"
  "mb_of (upd_mb m f k) r = (if r = m then f (mb_of k m) else mb_of k r)"
  "same_sems k (upd_mb m f k)" "same_mutexes k (upd_mb m f k)" "same_events k (upd_mb m f k)"
  by (simp_all add: upd_mb_def stat_of_def prio_def fun_eq_iff same_sems_def same_mutexes_def same_events_def)

lemma wake_one_state:
  assumes k: "kinv k"
  shows "kinv (wake_one q k)" "ipc (wake_one q k) = ipc k" "frame k (wake_one q k)"
    "waitq (wake_one q k) = (waitq k)(q := tl (waitq k q))"
    "stat_of (wake_one q k) u = RT_THREAD_SUSPEND \<longleftrightarrow>
       stat_of k u = RT_THREAD_SUSPEND \<and> (waitq k q = [] \<or> u \<noteq> hd (waitq k q))"
    "t_error (threads (wake_one q k) u) = t_error (threads k u)"
proof -
  have all: "kinv (wake_one q k) \<and> ipc (wake_one q k) = ipc k \<and> frame k (wake_one q k) \<and>
     waitq (wake_one q k) = (waitq k)(q := tl (waitq k q)) \<and>
     (stat_of (wake_one q k) u = RT_THREAD_SUSPEND \<longleftrightarrow>
       stat_of k u = RT_THREAD_SUSPEND \<and> (waitq k q = [] \<or> u \<noteq> hd (waitq k q))) \<and>
     t_error (threads (wake_one q k) u) = t_error (threads k u)" for u
  proof (cases "waitq k q")
    case Nil
    then show ?thesis using k by (auto simp: wake_one_def frame_def)
  next
    case (Cons t ts)
    note L = list_resume_state[OF k Cons]
    note R = rt_schedule_keeps[OF L(1)]
    have "frame k (ipc_list_resume q k)" unfolding frame_def using L Cons by auto
    then have "frame k (rt_schedule (ipc_list_resume q k))" using frame_trans frame_schedule[OF L(1)] by blast
    then show ?thesis using Cons L R kinv_rt_schedule[OF L(1)] by (auto simp: wake_one_def)
  qed
  show "kinv (wake_one q k)" "ipc (wake_one q k) = ipc k" "frame k (wake_one q k)"
    "waitq (wake_one q k) = (waitq k)(q := tl (waitq k q))"
    "stat_of (wake_one q k) u = RT_THREAD_SUSPEND \<longleftrightarrow>
       stat_of k u = RT_THREAD_SUSPEND \<and> (waitq k q = [] \<or> u \<noteq> hd (waitq k q))"
    "t_error (threads (wake_one q k) u) = t_error (threads k u)" using all[of u] by blast+
qed

definition mail_ok :: "kern \<Rightarrow> nat \<Rightarrow> bool" where
  "mail_ok k m \<longleftrightarrow> ipc_flag (mb_flag (mb_of k m)) \<and> ring_ok (mb_of k m)"

abbreviation mails_of :: "kern \<Rightarrow> nat \<Rightarrow> u32 list" where
  "mails_of k m \<equiv> mails (mb_of k m)"

abbreviation box_size :: "kern \<Rightarrow> nat \<Rightarrow> nat" where
  "box_size k m \<equiv> unat (mb_size (mb_of k m))"

lemma length_mails: "length (mails b) = unat (mb_entry b)" by (simp add: mails_def)

lemma mails_full: "mb_entry b = mb_size b \<longleftrightarrow> length (mails b) = unat (mb_size b)"
  by (simp add: length_mails word_unat_eq_iff)

lemma mb_entry_le: "ring_ok b \<Longrightarrow> length (mails b) \<le> unat (mb_size b)"
  by (simp add: length_mails ring_ok_def)

lemma ring_sel [simp]:
  "mb_size (mb_count_up b) = mb_size b" "mb_size (mb_store v b) = mb_size b"
  "mb_size (mb_store_first v b) = mb_size b" "mb_size (mb_drop b) = mb_size b"
  "mb_flag (mb_count_up b) = mb_flag b" "mb_flag (mb_store v b) = mb_flag b"
  "mb_flag (mb_store_first v b) = mb_flag b" "mb_flag (mb_drop b) = mb_flag b"
  "mb_entry (mb_store v b) = mb_entry b"
  by (simp_all add: mb_count_up_def mb_store_def mb_store_first_def mb_drop_def Let_def)

lemma upd_mb_twice [simp]: "upd_mb m g (upd_mb m f k) = upd_mb m (g \<circ> f) k"
  by (simp add: upd_mb_def)

lemma mb_deliver_state:
  assumes k: "kinv k" and o: "mail_ok k m" and r: "mb_entry (mb_of k m) \<noteq> mb_size (mb_of k m)"
  shows "mb_deliver m v k = (RT_EOK, wake_one (MbQ m) (upd_mb m (mb_count_up \<circ> mb_store v) k))"
proof -
  have b: "ring_ok (mb_of k m)" "mb_room v (mb_of k m)" using o r by (simp_all add: mail_ok_def mb_room_def)
  note R = ring_room[OF b]
  have "unat (mb_in (mb_of k m)) < length (mb_pool (mb_of k m))"
    using R(5) b(1) by (simp add: ring_ok_def)
  then show ?thesis using R(3) by (simp add: mb_deliver_def Let_def RT_ASSERT_def comp_def)
qed

text \<open>Putting a mail in, at the end or in front, and taking one out.\<close>

lemma mb_op_state:
  assumes k: "kinv k" and o: "mail_ok k m" and f: "ring_ok (f (mb_of k m))" "mb_flag (f (mb_of k m)) = mb_flag (mb_of k m)"
  shows "kinv (wake_one q (upd_mb m f k))" "mail_ok (wake_one q (upd_mb m f k)) m"
    "mb_of (wake_one q (upd_mb m f k)) m = f (mb_of k m)"
    "r \<noteq> m \<Longrightarrow> mb_of (wake_one q (upd_mb m f k)) r = mb_of k r"
    "objects_ok k \<Longrightarrow> objects_ok (wake_one q (upd_mb m f k))"
proof -
  have k1: "kinv (upd_mb m f k)" using k by simp
  note W = wake_one_state[OF k1]
  show "kinv (wake_one q (upd_mb m f k))" by (rule W(1))
  show e: "mb_of (wake_one q (upd_mb m f k)) m = f (mb_of k m)" using W(2) by simp
  show "r \<noteq> m \<Longrightarrow> mb_of (wake_one q (upd_mb m f k)) r = mb_of k r" using W(2) by simp
  show "mail_ok (wake_one q (upd_mb m f k)) m" using o f by (simp add: mail_ok_def e)
  show "objects_ok (wake_one q (upd_mb m f k))" if "objects_ok k"
  proof (rule frame_objects[OF W(3)])
    show "objects_ok (upd_mb m f k)"
      using sems_same[OF _ that] mutexes_same[OF _ that] events_same[OF _ that] upd_mb_sel(11-13)
      by (auto simp: objects_ok_def)
  qed
qed

section \<open>A mailbox answers as a bounded queue\<close>

text \<open>The calls that do not wait, and their answers: the value returned and the mail received.\<close>

datatype mb_call = MbSend u32 | MbUrgent u32 | MbRecv

fun call_mb :: "nat \<Rightarrow> mb_call \<Rightarrow> kern \<Rightarrow> (ipc_result \<times> u32 option) \<times> kern" where
  "call_mb m (MbSend v) k = (case rt_mb_send m v k of (r, k) \<Rightarrow> ((r, None), k))"
| "call_mb m (MbUrgent v) k = (case rt_mb_urgent m v k of (r, k) \<Rightarrow> ((Returned r, None), k))"
| "call_mb m MbRecv k = (case rt_mb_recv m 0 k of (r, v, k) \<Rightarrow> ((r, v), k))"

text \<open>A queue of at most \<open>n\<close> mails.\<close>

fun call_queue :: "nat \<Rightarrow> mb_call \<Rightarrow> u32 list \<Rightarrow> (ipc_result \<times> u32 option) \<times> u32 list" where
  "call_queue n (MbSend v) xs =
     (if length xs = n then ((Returned (- RT_EFULL), None), xs) else ((Returned RT_EOK, None), xs @ [v]))"
| "call_queue n (MbUrgent v) xs =
     (if length xs = n then ((Returned (- RT_EFULL), None), xs) else ((Returned RT_EOK, None), v # xs))"
| "call_queue n MbRecv xs =
     (case xs of [] \<Rightarrow> ((Returned (- RT_ETIMEOUT), None), []) | x # xs \<Rightarrow> ((Returned RT_EOK, Some x), xs))"

lemma mb_collect_state:
  assumes o: "mail_ok k m" and n: "mails_of k m \<noteq> []"
  shows "mb_collect m k = (Returned RT_EOK, Some (hd (mails_of k m)), wake_one (MbSendQ m) (upd_mb m mb_drop k))"
proof -
  have b: "ring_ok (mb_of k m)" using o by (simp add: mail_ok_def)
  then have "unat (mb_entry (mb_of k m)) \<le> unat (mb_size (mb_of k m))" "0 < unat (mb_entry (mb_of k m))"
    using n by (auto simp: mails_Nil ring_ok_def unat_gt_0)
  then have "unat (mb_out (mb_of k m)) < length (mb_pool (mb_of k m))"
    using b by (auto simp: ring_ok_def)
  then show ?thesis by (simp add: mb_collect_def Let_def RT_ASSERT_def mb_fetch_hd[OF b n])
qed

lemma mb_urgent_state:
  assumes o: "mail_ok k m" and r: "length (mails_of k m) \<noteq> box_size k m"
  shows "rt_mb_urgent m v k = (RT_EOK, wake_one (MbQ m) (upd_mb m (mb_count_up \<circ> mb_store_first v) k))"
proof -
  have b: "ring_ok (mb_of k m)" "mb_room v (mb_of k m)" using o r by (simp_all add: mail_ok_def mb_room_def mails_full)
  then have "unat (mb_out (mb_of k m)) < unat (mb_size (mb_of k m))" using ring_room(2)[OF b] by (simp add: ring_ok_def)
  then have "unat (mb_prev (mb_size (mb_of k m)) (mb_out (mb_of k m))) < length (mb_pool (mb_of k m))"
    using unat_mb_prev(1) b(1) by (auto simp: ring_ok_def intro: order.strict_trans2)
  then show ?thesis using r by (simp add: rt_mb_urgent_def mails_full Let_def RT_ASSERT_def)
qed

lemma call_mb_simulates:
  assumes k: "kinv k" and o: "mail_ok k m"
  shows "kinv (snd (call_mb m c k)) \<and> mail_ok (snd (call_mb m c k)) m \<and>
     (objects_ok k \<longrightarrow> objects_ok (snd (call_mb m c k))) \<and> box_size (snd (call_mb m c k)) m = box_size k m \<and>
     call_queue (box_size k m) c (mails_of k m) = (fst (call_mb m c k), mails_of (snd (call_mb m c k)) m)"
proof (cases c)
  case (MbSend v)
  show ?thesis
  proof (cases "length (mails_of k m) = box_size k m")
    case True
    then show ?thesis using k o MbSend by (simp add: rt_mb_send_def rt_mb_send_wait_def mails_full)
  next
    case False
    then have f: "mb_entry (mb_of k m) \<noteq> mb_size (mb_of k m)" by (simp add: mails_full)
    have b: "ring_ok (mb_of k m)" "mb_room v (mb_of k m)" using o f by (simp_all add: mail_ok_def mb_room_def)
    have "rt_mb_send m v k = (Returned RT_EOK, wake_one (MbQ m) (upd_mb m (mb_count_up \<circ> mb_store v) k))"
      using f mb_deliver_state[OF k o f] by (simp add: rt_mb_send_def rt_mb_send_wait_def mb_send_turn_def)
    then show ?thesis
      using MbSend False mb_op_state[OF k o, where f = "mb_count_up \<circ> mb_store v" and q = "MbQ m"] ring.put[OF b] by simp
  qed
next
  case (MbUrgent v)
  show ?thesis
  proof (cases "length (mails_of k m) = box_size k m")
    case True
    then show ?thesis using k o MbUrgent by (simp add: rt_mb_urgent_def mails_full)
  next
    case False
    have b: "ring_ok (mb_of k m)" "mb_room v (mb_of k m)" using o False by (simp_all add: mail_ok_def mb_room_def mails_full)
    then show ?thesis
      using MbUrgent False mb_urgent_state[OF o False] mb_op_state[OF k o, where f = "mb_count_up \<circ> mb_store_first v" and q = "MbQ m"]
        ring.put_first[OF b] by simp
  qed
next
  case MbRecv
  show ?thesis
  proof (cases "mails_of k m = []")
    case True
    then show ?thesis using k o MbRecv by (simp add: rt_mb_recv_def mails_Nil[symmetric])
  next
    case False
    have b: "ring_ok (mb_of k m)" using o by (simp add: mail_ok_def)
    have "rt_mb_recv m 0 k = mb_collect m k" using False by (simp add: rt_mb_recv_def mb_recv_turn_def mails_Nil)
    then show ?thesis
      using MbRecv False mb_collect_state[OF o False] mb_op_state[OF k o, where f = mb_drop and q = "MbSendQ m"]
        ring.drop_first[OF b False] by (auto split: list.splits simp: neq_Nil_conv)
  qed
qed

text \<open>C36: A mailbox behaves as a bounded queue: any sequence of non-waiting sends, urgent sends and
  receives gives the answers a queue of the mailbox's size gives, mail by mail, and leaves the
  same mails in it; nothing outside the ring is touched and the kernel stays in order, whoever
  is woken on the way.\<close>

theorem mailbox_is_a_bounded_queue:
  assumes "kinv k" "mail_ok k m"
  shows "run_calls (call_queue (box_size k m)) cs (mails_of k m) =
      (fst (run_calls (call_mb m) cs k), mails_of (snd (run_calls (call_mb m) cs k)) m) \<and>
    kinv (snd (run_calls (call_mb m) cs k))"
proof -
  let ?I = "\<lambda>s. kinv s \<and> mail_ok s m \<and> box_size s m = box_size k m"
  have "?I (snd (run_calls (call_mb m) cs k)) \<and> run_calls (call_queue (box_size k m)) cs (mails_of k m) =
      (fst (run_calls (call_mb m) cs k), mails_of (snd (run_calls (call_mb m) cs k)) m)"
    by (rule run_calls_simulates[where I = ?I and view = "\<lambda>s. mails_of s m"])
      (use assms call_mb_simulates in \<open>simp_all, metis\<close>)
  then show ?thesis by blast
qed

section \<open>Waiting\<close>

text \<open>A mail sent to an empty mailbox for which threads wait is accepted, makes the first of
  them ready, and is what that thread returns with when it goes on, if nobody has used the
  mailbox in between.\<close>

theorem mail_reaches_the_waiter:
  assumes k: "kinv k" and o: "mail_ok k m" and e: "mails_of k m = []" and n: "0 < box_size k m"
    and q: "waitq k (MbQ m) = t # ts" and g: "t_error (threads k t) = RT_EOK"
  shows "\<exists>k'. rt_mb_send m v k = (Returned RT_EOK, k') \<and> stat_of k' t \<noteq> RT_THREAD_SUSPEND \<and>
     waitq k' (MbQ m) = ts \<and> t_error (threads k' t) = RT_EOK \<and>
     (\<forall>k''. mb_of k'' m = mb_of k' m \<and> t_error (threads k'' t) = RT_EOK \<longrightarrow>
        (\<exists>k3. mb_recv_again t m timeout since k'' = (Returned RT_EOK, Some v, k3)))"
proof -
  have f: "mb_entry (mb_of k m) \<noteq> mb_size (mb_of k m)" using e n by (simp add: mails_full)
  have b: "ring_ok (mb_of k m)" "mb_room v (mb_of k m)" using o f by (simp_all add: mail_ok_def mb_room_def)
  define k1 where "k1 = upd_mb m (mb_count_up \<circ> mb_store v) k"
  define k' where "k' = wake_one (MbQ m) k1"
  have s: "rt_mb_send m v k = (Returned RT_EOK, k')"
    using f mb_deliver_state[OF k o f] by (simp add: rt_mb_send_def rt_mb_send_wait_def mb_send_turn_def k'_def k1_def)
  have k1: "kinv k1" using k by (simp add: k1_def)
  note W = wake_one_state[OF k1, of "MbQ m", folded k'_def]
  have S: "stat_of k' t \<noteq> RT_THREAD_SUSPEND" using W(5)[of t] q by (simp add: k1_def)
  have Q: "waitq k' (MbQ m) = ts" "t_error (threads k' t) = RT_EOK" using W(4,6) q g by (simp_all add: k1_def)
  have M: "mb_of k' m = mb_count_up (mb_store v (mb_of k m))" using W(2) by (simp add: k1_def)
  have c: "mails_of k' m = [v]" "mail_ok k' m" using ring.put[OF b] e o unfolding M mail_ok_def by simp_all
  have "\<exists>k3. mb_recv_again t m timeout since k'' = (Returned RT_EOK, Some v, k3)"
    if h: "mb_of k'' m = mb_of k' m" "t_error (threads k'' t) = RT_EOK" for k''
  proof -
    have o2: "mail_ok k'' m" "mails_of k'' m = [v]" using c by (simp_all add: h(1) mail_ok_def)
    have "mb_entry (mb_of k'' m) \<noteq> 0" using o2(2) by (metis mails_Nil list.distinct(1))
    then show ?thesis using h(2) mb_collect_state[OF o2(1)] o2(2)
      by (simp add: mb_recv_again_def mb_recv_turn_def)
  qed
  then show ?thesis using s S Q by blast
qed

lemma time_left_deadline:
  assumes "0 < sint timeout" "unat (now - since) < unat timeout"
  shows "0 < sint (time_left timeout since now)" "now + time_left timeout since now = since + timeout"
proof -
  define d where "d = now - since"
  have "d < timeout" using assms(2) by (simp add: d_def word_less_nat_alt)
  then have l: "uint d < uint timeout" by (simp add: word_less_def)
  have t: "uint timeout = sint timeout" "sint timeout < 2 ^ 31"
    using assms(1) uint_of_sint[of timeout] sint_less[of timeout] by simp_all
  have b: "- (2 ^ 31) \<le> sint d" using sint_greater_eq[of d] by simp
  then have d: "0 \<le> sint d" "sint d < sint timeout" using l t uint_of_sint[of d] by (auto split: if_splits)
  have "sint (timeout - d) = sint timeout - sint d" by (rule sint_diff) (use d t in simp_all)
  then have p: "0 < sint (timeout - d)" using d by simp
  then show "0 < sint (time_left timeout since now)" "now + time_left timeout since now = since + timeout"
    using assms(1) by (simp_all add: time_left_def Let_def d_def[symmetric]) (simp add: d_def)
qed

lemma start_timeout_tick:
  assumes "0 < sint time"
  shows "timeout_tick (timers (start_timeout t time k) (ThreadTimer t)) = rt_tick k + time"
    "ThreadTimer t \<in> set (timer_list (start_timeout t time k))"
  using assms by (simp_all add: start_timeout_def rt_timer_control_def rt_timer_start_def Let_def set_insert_timer)

lemma wait_on_deadline:
  assumes k: "kinv k" and c: "stat_of k (rt_current_thread k) = RT_THREAD_RUNNING" and g: "ipc_flag g"
    and p: "0 < sint time"
  shows "timeout_tick (timers (wait_on q g time k) (ThreadTimer (rt_current_thread k))) = rt_tick k + time"
    "ThreadTimer (rt_current_thread k) \<in> set (timer_list (wait_on q g time k))"
proof -
  let ?t = "rt_current_thread k" let ?k1 = "ipc_list_suspend q ?t g k"
  note L = list_suspend_state[OF k refl c g]
  have "stat_of ?k1 ?t = RT_THREAD_SUSPEND" using L(3) by simp
  note R = rt_schedule_keeps[OF start_timeout_state(1)[OF L(1) this, of time]]
  have e: "wait_on q g time k = rt_schedule (start_timeout ?t time ?k1)" by (simp add: wait_on_def Let_def rt_thread_self_def)
  show "timeout_tick (timers (wait_on q g time k) (ThreadTimer ?t)) = rt_tick k + time"
    "ThreadTimer ?t \<in> set (timer_list (wait_on q g time k))"
    unfolding e R using start_timeout_tick[OF p, of ?t ?k1] L(7) by simp_all
qed

text \<open>A receiver that was woken and finds the mailbox empty again, because another thread was
  faster, waits only for what is left of its time: its timer is set to the tick at which its
  first wait would have ended.\<close>

theorem waiting_again_keeps_the_deadline:
  assumes k: "kinv k" and o: "mail_ok k m" and e: "mails_of k m = []"
    and t: "rt_current_thread k = t" "stat_of k t = RT_THREAD_RUNNING" "t_error (threads k t) = RT_EOK"
    and w: "0 < sint timeout" "unat (rt_tick k - since) < unat timeout"
  shows "\<exists>k'. mb_recv_again t m timeout since k = (Waiting, None, k') \<and> t \<in> set (waitq k' (MbQ m)) \<and>
     ThreadTimer t \<in> set (timer_list k') \<and> timeout_tick (timers k' (ThreadTimer t)) = since + timeout"
proof -
  note D = time_left_deadline[OF w]
  let ?left = "time_left timeout since (rt_tick k)" let ?k = "set_error t RT_EOK k"
  have z: "?left \<noteq> 0" using D(1) by auto
  have k1: "kinv ?k" "stat_of ?k (rt_current_thread ?k) = RT_THREAD_RUNNING" "ipc_flag (mb_flag (mb_of ?k m))"
    using k t o by (simp_all add: mail_ok_def)
  note W = wait_on_deadline[OF k1 D(1), of "MbQ m"] wait_on_state(2)[OF k1, of "MbQ m" ?left]
  have "mb_recv_again t m timeout since k = (Waiting, None, wait_on (MbQ m) (mb_flag (mb_of ?k m)) ?left ?k)"
    using t z e by (simp add: mb_recv_again_def mb_recv_turn_def Let_def mails_Nil rt_thread_self_def rt_tick_get_def)
  then show ?thesis using W t(1) D(2) by (auto simp: set_enqueue)
qed

section \<open>Every operation keeps the kernel and the mailboxes in order\<close>

lemma kinv_waitq_clear: "kinv k \<Longrightarrow> kinv (upd_waitq q (\<lambda>_. []) k)"
proof -
  assume k: "kinv k"
  then have "waits_ok (upd_waitq q (\<lambda>_. []) k)"
    unfolding kinv_but_def waits_ok_def by simp
  then show ?thesis using k
    by (simp add: kinv_but_def table_ok_def states_ok_def prios_ok_def timers_ok_def) (simp add: upd_waitq_def)
qed

definition mails_ok :: "kern \<Rightarrow> bool" where
  "mails_ok k \<longleftrightarrow> (\<forall>m. mail_ok k m)"

lemma mails_okD: "mails_ok k \<Longrightarrow> mail_ok k m" by (simp add: mails_ok_def)

lemma mails_same: "mailboxes (ipc k') = mailboxes (ipc k) \<Longrightarrow> mails_ok k' = mails_ok k"
  by (simp add: mails_ok_def mail_ok_def)

text \<open>All that a step of the kernel keeps.\<close>

definition kern_ok :: "kern \<Rightarrow> bool" where
  "kern_ok k \<longleftrightarrow> kinv k \<and> objects_ok k \<and> mails_ok k"

lemma kern_okD: assumes "kern_ok k" shows "kinv k" "objects_ok k" "mails_ok k" "mail_ok k m"
  using assms by (simp_all add: kern_ok_def mails_okD)

lemma upd_mb_objects: "objects_ok (upd_mb m f k) = objects_ok k"
proof -
  have "upd_mb m f k = k\<lparr>ipc := ipc (upd_mb m f k)\<rparr>" by (simp add: upd_mb_def)
  moreover have "sems (ipc (upd_mb m f k)) = sems (ipc k)" "mutexes (ipc (upd_mb m f k)) = mutexes (ipc k)"
    "events (ipc (upd_mb m f k)) = events (ipc k)" by (simp_all add: upd_mb_def)
  ultimately show ?thesis
    by (simp add: objects_ok_def sem_ok_def mutex_ok_def event_ok_def sem_value_def ev_set_def)
qed

lemma upd_mb_ok: "kern_ok k \<Longrightarrow> ring_ok (f (mb_of k m)) \<Longrightarrow> ipc_flag (mb_flag (f (mb_of k m))) \<Longrightarrow> kern_ok (upd_mb m f k)"
  by (auto simp: kern_ok_def upd_mb_objects mails_ok_def mail_ok_def)

lemma frame_ok: "frame k k' \<Longrightarrow> kern_ok k \<Longrightarrow> kern_ok k'"
  using frame_objects[of k k'] mails_same[of k' k] by (simp add: kern_ok_def frame_def)

lemma wake_one_ok: "kern_ok k \<Longrightarrow> kern_ok (wake_one q k)"
  using frame_ok[OF wake_one_state(3)] kern_okD(1) by blast

lemma set_error_ok: "kern_ok k \<Longrightarrow> kern_ok (set_error t e k)"
  using frame_ok[OF set_error_frame] kern_okD(1) by blast

lemma wait_on_ok:
  assumes k: "kern_ok k" and c: "stat_of k (rt_current_thread k) = RT_THREAD_RUNNING" and g: "ipc_flag g"
    and q: "\<And>s. q \<noteq> SemQ s" "\<And>x. q \<noteq> MutexQ x" "\<And>e. q \<noteq> EventQ e"
  shows "kern_ok (wait_on q g time k)"
proof -
  let ?k = "wait_on q g time k"
  note K = kern_okD[OF k] note W = wait_on_state[OF K(1) c g]
  have "sem_ok ?k s" for s by (rule sems_same[OF wait_same(1)[OF K(1) c g q(1)] K(2)])
  moreover have "mutex_ok ?k x" for x by (rule mutexes_same[OF wait_same(2)[OF K(1) c g q(2)] K(2)])
  moreover have "event_ok ?k e" for e by (rule events_same[OF wait_same(3)[OF K(1) c g q(3)] K(2)])
  moreover have "mails_ok ?k" using mails_same[of ?k k] K(3) W(6) by simp
  ultimately show ?thesis using W(1) by (simp add: kern_ok_def objects_ok_def)
qed

lemma resume_both_state:
  assumes "kinv k"
  shows "\<exists>k'. resume_both q q' k = Some k' \<and> frame k k' \<and> waitq k' q = [] \<and> waitq k' q' = []"
proof -
  from resume_all_state[OF assms, of q] obtain k1 where k1: "ipc_list_resume_all q k = Some k1" "frame k k1"
    "waitq k1 = (waitq k)(q := [])" by blast
  have "kinv k1" using k1(2) by (simp add: frame_def)
  from resume_all_state[OF this, of q'] obtain k2 where k2: "ipc_list_resume_all q' k1 = Some k2" "frame k1 k2"
    "waitq k2 = (waitq k1)(q' := [])" by blast
  show ?thesis using k1 k2 frame_trans by (auto simp: resume_both_def)
qed

lemma mb_init_ok:
  assumes k: "kern_ok k" and g: "ipc_flag flag" and l: "unat (ucast sz :: u16) \<le> length pool"
  shows "kern_ok (snd (rt_mb_init m pool sz flag k))" "mails_of (snd (rt_mb_init m pool sz flag k)) m = []"
proof -
  let ?k = "upd_waitq (MbSendQ m) (\<lambda>_. []) (upd_waitq (MbQ m) (\<lambda>_. []) k)"
  let ?b = "\<lparr>mb_flag = flag, mb_pool = pool, mb_size = ucast sz, mb_entry = 0, mb_in = 0, mb_out = 0\<rparr>"
  have e: "rt_mb_init m pool sz flag k = (RT_EOK, upd_mb m (\<lambda>_. ?b) ?k)"
    using g by (auto simp: rt_mb_init_def RT_ASSERT_def Let_def)
  have "frame k ?k" using kinv_waitq_clear kern_okD(1)[OF k] by (auto simp: frame_def)
  then have "kern_ok ?k" using frame_ok k by blast
  moreover have "ring_ok ?b" using l by (auto simp: ring_ok_def unat_gt_0)
  ultimately show "kern_ok (snd (rt_mb_init m pool sz flag k))" unfolding e using g by (simp add: upd_mb_ok)
  show "mails_of (snd (rt_mb_init m pool sz flag k)) m = []" unfolding e by (simp add: mails_def)
qed

lemma mb_deliver_ok:
  assumes k: "kern_ok k" and r: "mb_entry (mb_of k m) \<noteq> mb_size (mb_of k m)"
  shows "kern_ok (snd (mb_deliver m v k))"
proof -
  note K = kern_okD[OF k]
  have b: "ring_ok (mb_of k m)" "mb_room v (mb_of k m)" using K(4)[of m] r by (simp_all add: mail_ok_def mb_room_def)
  have "kern_ok (upd_mb m (mb_count_up \<circ> mb_store v) k)"
    by (rule upd_mb_ok[OF k]) (use ring.put[OF b] K(4)[of m] in \<open>simp_all add: mail_ok_def\<close>)
  then show ?thesis using mb_deliver_state[OF K(1) K(4) r] wake_one_ok by simp
qed

lemma mb_send_turn_ok:
  assumes k: "kern_ok k" and c: "stat_of k (rt_current_thread k) = RT_THREAD_RUNNING"
  shows "kern_ok (snd (mb_send_turn m v timeout k))"
proof (cases "mb_entry (mb_of k m) = mb_size (mb_of k m)")
  case True
  have "ipc_flag (mb_flag (mb_of k m))" using kern_okD(4)[OF k, of m] by (simp add: mail_ok_def)
  then show ?thesis
    using True c set_error_ok[OF k, of "rt_current_thread k" RT_EOK]
      wait_on_ok[OF set_error_ok[OF k, of "rt_current_thread k" RT_EOK], of "mb_flag (mb_of k m)" "MbSendQ m" timeout]
    by (auto simp: mb_send_turn_def Let_def rt_thread_self_def)
next
  case False
  then show ?thesis using mb_deliver_ok[OF k False] by (simp add: mb_send_turn_def)
qed

lemma mb_recv_turn_ok:
  assumes k: "kern_ok k" and c: "stat_of k (rt_current_thread k) = RT_THREAD_RUNNING"
  shows "kern_ok (snd (snd (mb_recv_turn m timeout k)))"
proof (cases "mails_of k m = []")
  case True
  have "ipc_flag (mb_flag (mb_of k m))" using kern_okD(4)[OF k, of m] by (simp add: mail_ok_def)
  then show ?thesis
    using True c set_error_ok[OF k] set_error_ok[OF set_error_ok[OF k]]
      wait_on_ok[OF set_error_ok[OF k, of "rt_current_thread k" RT_EOK], of "mb_flag (mb_of k m)" "MbQ m" timeout]
    by (auto simp: mb_recv_turn_def Let_def rt_thread_self_def mails_Nil)
next
  case False
  have b: "ring_ok (mb_of k m)" using kern_okD(4)[OF k, of m] by (simp add: mail_ok_def)
  have "kern_ok (upd_mb m mb_drop k)"
    by (rule upd_mb_ok[OF k]) (use ring.drop_first[OF b False] kern_okD(4)[OF k, of m] in \<open>simp_all add: mail_ok_def\<close>)
  then show ?thesis
    using False mb_collect_state[OF kern_okD(4)[OF k] False] wake_one_ok by (simp add: mb_recv_turn_def mails_Nil)
qed

lemma mb_ops_ok:
  assumes k: "kern_ok k" and c: "stat_of k (rt_current_thread k) = RT_THREAD_RUNNING"
  shows "kern_ok (snd (rt_mb_send_wait m v timeout k))" "kern_ok (snd (mb_send_again t m v timeout since k))"
    "kern_ok (snd (snd (rt_mb_recv m timeout k)))" "kern_ok (snd (snd (mb_recv_again t m timeout since k)))"
  using k mb_send_turn_ok[OF k c] mb_recv_turn_ok[OF k c]
  by (simp_all add: rt_mb_send_wait_def mb_send_again_def rt_mb_recv_def mb_recv_again_def)

lemma mb_calls_ok: "kern_ok k \<Longrightarrow> kern_ok (snd (rt_mb_send m v k))" "kern_ok k \<Longrightarrow> kern_ok (snd (rt_mb_urgent m v k))"
proof -
  assume k: "kern_ok k"
  show "kern_ok (snd (rt_mb_send m v k))"
    using k mb_deliver_ok[OF k] by (simp add: rt_mb_send_def rt_mb_send_wait_def mb_send_turn_def)
  show "kern_ok (snd (rt_mb_urgent m v k))"
  proof (cases "length (mails_of k m) = box_size k m")
    case False
    have b: "ring_ok (mb_of k m)" "mb_room v (mb_of k m)"
      using kern_okD(4)[OF k, of m] False by (simp_all add: mail_ok_def mb_room_def mails_full)
    have "kern_ok (upd_mb m (mb_count_up \<circ> mb_store_first v) k)"
      by (rule upd_mb_ok[OF k]) (use ring.put_first[OF b] kern_okD(4)[OF k, of m] in \<open>simp_all add: mail_ok_def\<close>)
    then show ?thesis using mb_urgent_state[OF kern_okD(4)[OF k] False] wake_one_ok by simp
  qed (use k in \<open>simp add: rt_mb_urgent_def mails_full\<close>)
qed

lemma mb_control_ok:
  assumes k: "kern_ok k"
  shows "\<exists>r k'. rt_mb_control m cmd k = Some (r, k') \<and> kern_ok k'"
    "\<exists>k'. rt_mb_detach m k = Some (RT_EOK, k') \<and> kern_ok k'"
proof -
  from resume_both_state[OF kern_okD(1)[OF k], of "MbQ m" "MbSendQ m"] obtain k1
    where k1: "resume_both (MbQ m) (MbSendQ m) k = Some k1" "frame k k1" by blast
  have o: "kern_ok k1" using frame_ok[OF k1(2) k] .
  show "\<exists>k'. rt_mb_detach m k = Some (RT_EOK, k') \<and> kern_ok k'" using k1(1) o by (simp add: rt_mb_detach_def)
  let ?k2 = "upd_mb m (\<lambda>b. b\<lparr>mb_entry := 0, mb_in := 0, mb_out := 0\<rparr>) k1"
  have "kern_ok ?k2"
    by (rule upd_mb_ok[OF o]) (use kern_okD(4)[OF o, of m] in \<open>auto simp: mail_ok_def ring_ok_def unat_gt_0\<close>)
  then have "kern_ok (rt_schedule ?k2)" using frame_ok[OF frame_schedule] kern_okD(1) by blast
  then show "\<exists>r k'. rt_mb_control m cmd k = Some (r, k') \<and> kern_ok k'" using k1(1) k by (simp add: rt_mb_control_def)
qed

section \<open>Instances\<close>

lemma system0_ok: "kern_ok system0"
  using system0(1,2) by (simp add: kern_ok_def mails_ok_def mail_ok_def system0(6) ipc0_def ring_ok_def RT_IPC_FLAG_FIFO_def)

text \<open>A mailbox of three words, and the main thread waiting for its first mail.\<close>

definition mail_system :: kern where
  "mail_system = snd (rt_mb_init 4 [0, 0, 0] 3 RT_IPC_FLAG_FIFO system0)"

lemma mail_system: "kern_ok mail_system" "mails_of mail_system 4 = []" "box_size mail_system 4 = 3"
  "rt_current_thread mail_system = 1" "stat_of mail_system 1 = RT_THREAD_RUNNING" "waitq mail_system q = []"
  "t_error (threads mail_system t) = t_error (threads system0 t)" "rt_tick mail_system = rt_tick system0"
proof -
  show "kern_ok mail_system" "mails_of mail_system 4 = []"
    unfolding mail_system_def using mb_init_ok[OF system0_ok, where flag = RT_IPC_FLAG_FIFO and sz = 3 and pool = "[0, 0, 0]" and m = 4] by simp_all
  show "box_size mail_system 4 = 3" "rt_current_thread mail_system = 1" "stat_of mail_system 1 = RT_THREAD_RUNNING"
    "waitq mail_system q = []" "t_error (threads mail_system t) = t_error (threads system0 t)"
    "rt_tick mail_system = rt_tick system0"
    using system0 by (simp_all add: mail_system_def rt_mb_init_def RT_ASSERT_def)
qed

lemma mailbox_is_a_bounded_queue_witness:
  "fst (run_calls (call_mb 4) [MbSend 7, MbUrgent 8, MbSend 9, MbSend 5, MbRecv, MbRecv] mail_system) =
     [(Returned RT_EOK, None), (Returned RT_EOK, None), (Returned RT_EOK, None), (Returned (- RT_EFULL), None),
      (Returned RT_EOK, Some 8), (Returned RT_EOK, Some 7)]"
  using mailbox_is_a_bounded_queue[of mail_system 4 "[MbSend 7, MbUrgent 8, MbSend 9, MbSend 5, MbRecv, MbRecv]"]
    mail_system(1-3) kern_okD by (simp add: Let_def)

definition mail_waiting :: kern where
  "mail_waiting = snd (snd (rt_mb_recv 4 (- 1) mail_system))"

lemma mail_waiting: "kern_ok mail_waiting" "mails_of mail_waiting 4 = []" "box_size mail_waiting 4 = 3"
  "waitq mail_waiting (MbQ 4) = [1]" "t_error (threads mail_waiting 1) = RT_EOK"
proof -
  let ?k = "set_error 1 RT_EOK mail_system"
  show "kern_ok mail_waiting" unfolding mail_waiting_def by (rule mb_ops_ok) (use mail_system in simp_all)
  have e: "mail_waiting = wait_on (MbQ 4) (mb_flag (mb_of ?k 4)) (- 1) ?k"
    using mail_system by (simp add: mail_waiting_def rt_mb_recv_def mb_recv_turn_def Let_def mails_Nil[symmetric]
        rt_thread_self_def)
  have k: "kinv ?k" "stat_of ?k (rt_current_thread ?k) = RT_THREAD_RUNNING" "ipc_flag (mb_flag (mb_of ?k 4))"
    using mail_system kern_okD[OF mail_system(1)] by (simp_all add: mail_ok_def)
  note W = wait_on_state[OF k]
  show "mails_of mail_waiting 4 = []" "box_size mail_waiting 4 = 3" "waitq mail_waiting (MbQ 4) = [1]"
    "t_error (threads mail_waiting 1) = RT_EOK"
    unfolding e W using mail_system set_enqueue(1) by (simp_all add: enqueue_def insert_prio_def)
qed

lemma mail_reaches_the_waiter_witness:
  "\<exists>k'. rt_mb_send 4 42 mail_waiting = (Returned RT_EOK, k') \<and> stat_of k' 1 \<noteq> RT_THREAD_SUSPEND \<and>
     waitq k' (MbQ 4) = [] \<and> (\<exists>k3. mb_recv_again 1 4 (- 1) 0 k' = (Returned RT_EOK, Some 42, k3))"
  using mail_reaches_the_waiter[of mail_waiting 4 1 "[]" 42 "- 1" 0] mail_waiting kern_okD[OF mail_waiting(1)] by auto

text \<open>The receiver began to wait two ticks ago, for five ticks.\<close>

definition mail_late :: kern where
  "mail_late = set_error 1 RT_EOK mail_system"

lemma waiting_again_keeps_the_deadline_witness:
  "\<exists>k'. mb_recv_again 1 4 5 (rt_tick mail_late - 2) mail_late = (Waiting, None, k') \<and> 1 \<in> set (waitq k' (MbQ 4)) \<and>
     ThreadTimer 1 \<in> set (timer_list k') \<and> timeout_tick (timers k' (ThreadTimer 1)) = rt_tick mail_late - 2 + 5"
proof (rule waiting_again_keeps_the_deadline)
  show "kinv mail_late" "mail_ok mail_late 4" "mails_of mail_late 4 = []" "rt_current_thread mail_late = 1"
    "stat_of mail_late 1 = RT_THREAD_RUNNING" "t_error (threads mail_late 1) = RT_EOK"
    using mail_system kern_okD(1)[OF mail_system(1)] kern_okD(4)[OF mail_system(1), of 4] by (simp_all add: mail_late_def mail_ok_def)
qed simp_all

end
