(* ===== verification/KMsg.thy ===== *)
theory KMsg
  imports KMail
begin

text \<open>
  The message queues of src/rt-thread/src/ipc.c.  The pool of a queue is cut into slots, each
  a link and \<open>msg_size\<close> bytes; the slots form the list of messages, with its head and tail,
  and the list of free slots.  A sender takes a free slot, copies its message into it and
  links it in, and a receiver unlinks one, copies it out and frees it; the copying is done
  with the interrupts enabled, so other threads and interrupts come in between, and each of
  the two operations is three steps here.  A slot is known by its number in the pool.
\<close>

section \<open>The pool\<close>

definition RT_MQ_ENTRY_MAX :: u16 where "RT_MQ_ENTRY_MAX = 0xffff"

text \<open>The loop that links the slots into the free list, the last one first.\<close>

fun free_slots :: "nat \<Rightarrow> nat option list \<Rightarrow> nat option \<Rightarrow> nat option list \<times> nat option" where
  "free_slots 0 nx free = (nx, free)"
| "free_slots (Suc n) nx free = free_slots n (nx @ [free]) (Some (length nx))"

definition mq_format :: "u8 list \<Rightarrow> u32 \<Rightarrow> u8 \<Rightarrow> messagequeue" where
  "mq_format pool msg_size flag =
     (let sz = ucast (RT_ALIGN msg_size) :: u16;
          mx = word_of_nat (length pool div (unat sz + 4)) :: u16;
          (nx, free) = free_slots (unat mx) [] None
      in \<lparr>mq_flag = flag, mq_next = nx,
          mq_data = map (\<lambda>i. take (unat sz) (drop (i * (unat sz + 4) + 4) pool)) [0..<unat mx],
          mq_msg_size = sz, mq_max = mx, mq_entry = 0, mq_head = None, mq_tail = None, mq_free = free\<rparr>)"

definition mq_take_slot :: "nat \<Rightarrow> messagequeue \<Rightarrow> messagequeue" where
  "mq_take_slot x q = q\<lparr>mq_free := mq_next q ! x\<rparr>"

text \<open>\<open>memcpy\<close> overwrites the first bytes of the slot only.\<close>

definition mq_copy_in :: "nat \<Rightarrow> u8 list \<Rightarrow> messagequeue \<Rightarrow> messagequeue" where
  "mq_copy_in x buf q = q\<lparr>mq_data := (mq_data q)[x := buf @ drop (length buf) (mq_data q ! x)]\<rparr>"

definition mq_no_next :: "nat \<Rightarrow> messagequeue \<Rightarrow> messagequeue" where
  "mq_no_next x q = q\<lparr>mq_next := (mq_next q)[x := None]\<rparr>"

definition mq_link :: "nat \<Rightarrow> messagequeue \<Rightarrow> messagequeue" where
  "mq_link x q =
     (let q = (case mq_tail q of None \<Rightarrow> q | Some t \<Rightarrow> q\<lparr>mq_next := (mq_next q)[t := Some x]\<rparr>);
          q = q\<lparr>mq_tail := Some x\<rparr>
      in if mq_head q = None then q\<lparr>mq_head := Some x\<rparr> else q)"

definition mq_link_first :: "nat \<Rightarrow> messagequeue \<Rightarrow> messagequeue" where
  "mq_link_first x q =
     (let q = q\<lparr>mq_next := (mq_next q)[x := mq_head q], mq_head := Some x\<rparr>
      in if mq_tail q = None then q\<lparr>mq_tail := Some x\<rparr> else q)"

definition mq_count_up :: "messagequeue \<Rightarrow> messagequeue" where
  "mq_count_up q = q\<lparr>mq_entry := mq_entry q + 1\<rparr>"

definition mq_unlink_slot :: "nat \<Rightarrow> messagequeue \<Rightarrow> messagequeue" where
  "mq_unlink_slot x q =
     (let q = q\<lparr>mq_head := mq_next q ! x\<rparr>
      in if mq_tail q = Some x then q\<lparr>mq_tail := None\<rparr> else q)"

definition mq_count_down :: "messagequeue \<Rightarrow> messagequeue" where
  "mq_count_down q = (if 0 < mq_entry q then q\<lparr>mq_entry := mq_entry q - 1\<rparr> else q)"

definition mq_free_slot :: "nat \<Rightarrow> messagequeue \<Rightarrow> messagequeue" where
  "mq_free_slot x q = q\<lparr>mq_next := (mq_next q)[x := mq_free q], mq_free := Some x\<rparr>"

section \<open>The operations\<close>

abbreviation mq_of :: "kern \<Rightarrow> nat \<Rightarrow> messagequeue" where
  "mq_of k q \<equiv> mqs (ipc k) q"

definition upd_mq :: "nat \<Rightarrow> (messagequeue \<Rightarrow> messagequeue) \<Rightarrow> kern \<Rightarrow> kern" where
  "upd_mq q f k = k\<lparr>ipc := (ipc k)\<lparr>mqs := (mqs (ipc k))(q := f (mqs (ipc k) q))\<rparr>\<rparr>"

definition rt_mq_init :: "nat \<Rightarrow> u8 list \<Rightarrow> u32 \<Rightarrow> u8 \<Rightarrow> kern \<Rightarrow> int \<times> kern" where
  "rt_mq_init q pool msg_size flag k =
     (let k = RT_ASSERT (flag = RT_IPC_FLAG_FIFO \<or> flag = RT_IPC_FLAG_PRIO) k;
          k = upd_waitq (MqSendQ q) (\<lambda>_. []) (upd_waitq (MqQ q) (\<lambda>_. []) k)
      in (RT_EOK, upd_mq q (\<lambda>_. mq_format pool msg_size flag) k))"

definition rt_mq_detach :: "nat \<Rightarrow> kern \<Rightarrow> (int \<times> kern) option" where
  "rt_mq_detach q k = map_option (Pair RT_EOK) (resume_both (MqQ q) (MqSendQ q) k)"

text \<open>How the first part of an operation ends: with a slot, with a value, or asleep.\<close>

datatype mq_result = Slot nat | Ended int | Asleep

definition mq_send_turn :: "nat \<Rightarrow> u32 \<Rightarrow> kern \<Rightarrow> mq_result \<times> kern" where
  "mq_send_turn q timeout k =
     (case mq_free (mq_of k q) of
        None \<Rightarrow>
          (let k = set_error (rt_thread_self k) RT_EOK k
           in if timeout = 0 then (Ended (- RT_EFULL), k)
              else (Asleep, wait_on (MqSendQ q) (mq_flag (mq_of k q)) timeout k))
      | Some x \<Rightarrow> (Slot x, upd_mq q (mq_take_slot x) (RT_ASSERT (x < length (mq_next (mq_of k q))) k)))"

definition mq_send_begin :: "nat \<Rightarrow> nat \<Rightarrow> u32 \<Rightarrow> kern \<Rightarrow> mq_result \<times> kern" where
  "mq_send_begin q n timeout k =
     (if unat (mq_msg_size (mq_of k q)) < n then (Ended (- RT_ERROR), k)
      else if mq_free (mq_of k q) = None \<and> timeout = 0 then (Ended (- RT_EFULL), k)
      else mq_send_turn q timeout k)"

definition mq_send_again :: "nat \<Rightarrow> nat \<Rightarrow> u32 \<Rightarrow> u32 \<Rightarrow> kern \<Rightarrow> mq_result \<times> kern" where
  "mq_send_again t q timeout since k =
     (if t_error (threads k t) \<noteq> RT_EOK then (Ended (t_error (threads k t)), k)
      else mq_send_turn q (time_left timeout since (rt_tick_get k)) k)"

definition mq_send_copy :: "nat \<Rightarrow> nat \<Rightarrow> u8 list \<Rightarrow> kern \<Rightarrow> kern" where
  "mq_send_copy q x buf = upd_mq q (mq_copy_in x buf \<circ> mq_no_next x)"

definition mq_arrived :: "nat \<Rightarrow> kern \<Rightarrow> int \<times> kern" where
  "mq_arrived q k =
     (if mq_entry (mq_of k q) < RT_MQ_ENTRY_MAX then (RT_EOK, wake_one (MqQ q) (upd_mq q mq_count_up k))
      else (- RT_EFULL, k))"

definition mq_send_end :: "nat \<Rightarrow> nat \<Rightarrow> kern \<Rightarrow> int \<times> kern" where
  "mq_send_end q x k = mq_arrived q (upd_mq q (mq_link x) k)"

text \<open>The whole call, when nothing comes in between.\<close>

definition rt_mq_send_wait :: "nat \<Rightarrow> u8 list \<Rightarrow> u32 \<Rightarrow> kern \<Rightarrow> ipc_result \<times> kern" where
  "rt_mq_send_wait q buf timeout k =
     (case mq_send_begin q (length buf) timeout k of
        (Ended r, k) \<Rightarrow> (Returned r, k)
      | (Asleep, k) \<Rightarrow> (Waiting, k)
      | (Slot x, k) \<Rightarrow> apfst Returned (mq_send_end q x (mq_send_copy q x buf k)))"

definition rt_mq_send :: "nat \<Rightarrow> u8 list \<Rightarrow> kern \<Rightarrow> ipc_result \<times> kern" where
  "rt_mq_send q buf = rt_mq_send_wait q buf 0"

definition mq_urgent_begin :: "nat \<Rightarrow> nat \<Rightarrow> kern \<Rightarrow> mq_result \<times> kern" where
  "mq_urgent_begin q n k =
     (if unat (mq_msg_size (mq_of k q)) < n then (Ended (- RT_ERROR), k)
      else case mq_free (mq_of k q) of
        None \<Rightarrow> (Ended (- RT_EFULL), k)
      | Some x \<Rightarrow> (Slot x, upd_mq q (mq_take_slot x) (RT_ASSERT (x < length (mq_next (mq_of k q))) k)))"

definition mq_urgent_copy :: "nat \<Rightarrow> nat \<Rightarrow> u8 list \<Rightarrow> kern \<Rightarrow> kern" where
  "mq_urgent_copy q x buf = upd_mq q (mq_copy_in x buf)"

definition mq_urgent_end :: "nat \<Rightarrow> nat \<Rightarrow> kern \<Rightarrow> int \<times> kern" where
  "mq_urgent_end q x k = mq_arrived q (upd_mq q (mq_link_first x) k)"

definition rt_mq_urgent :: "nat \<Rightarrow> u8 list \<Rightarrow> kern \<Rightarrow> ipc_result \<times> kern" where
  "rt_mq_urgent q buf k =
     (case mq_urgent_begin q (length buf) k of
        (Ended r, k) \<Rightarrow> (Returned r, k)
      | (Asleep, k) \<Rightarrow> (Waiting, k)
      | (Slot x, k) \<Rightarrow> apfst Returned (mq_urgent_end q x (mq_urgent_copy q x buf k)))"

text \<open>With an entry counted and no head the code would read through a null pointer.\<close>

definition mq_recv_turn :: "nat \<Rightarrow> u32 \<Rightarrow> kern \<Rightarrow> mq_result \<times> kern" where
  "mq_recv_turn q timeout k =
     (if mq_entry (mq_of k q) = 0
      then let t = rt_thread_self k; k = set_error t RT_EOK k
           in if timeout = 0 then (Ended (- RT_ETIMEOUT), set_error t (- RT_ETIMEOUT) k)
              else (Asleep, wait_on (MqQ q) (mq_flag (mq_of k q)) timeout k)
      else case mq_head (mq_of k q) of
        None \<Rightarrow> (Slot 0, RT_ASSERT False k)
      | Some x \<Rightarrow> (Slot x, upd_mq q (mq_count_down \<circ> mq_unlink_slot x)
                     (RT_ASSERT (x < length (mq_next (mq_of k q))) k)))"

definition mq_recv_begin :: "nat \<Rightarrow> u32 \<Rightarrow> kern \<Rightarrow> mq_result \<times> kern" where
  "mq_recv_begin q timeout k =
     (if mq_entry (mq_of k q) = 0 \<and> timeout = 0 then (Ended (- RT_ETIMEOUT), k)
      else mq_recv_turn q timeout k)"

definition mq_recv_again :: "nat \<Rightarrow> nat \<Rightarrow> u32 \<Rightarrow> u32 \<Rightarrow> kern \<Rightarrow> mq_result \<times> kern" where
  "mq_recv_again t q timeout since k =
     (if t_error (threads k t) \<noteq> RT_EOK then (Ended (t_error (threads k t)), k)
      else mq_recv_turn q (time_left timeout since (rt_tick_get k)) k)"

definition mq_recv_copy :: "nat \<Rightarrow> nat \<Rightarrow> nat \<Rightarrow> kern \<Rightarrow> u8 list" where
  "mq_recv_copy q x n k =
     take (if unat (mq_msg_size (mq_of k q)) < n then unat (mq_msg_size (mq_of k q)) else n) (mq_data (mq_of k q) ! x)"

definition mq_recv_end :: "nat \<Rightarrow> nat \<Rightarrow> kern \<Rightarrow> int \<times> kern" where
  "mq_recv_end q x k = (RT_EOK, wake_one (MqSendQ q) (upd_mq q (mq_free_slot x) k))"

definition rt_mq_recv :: "nat \<Rightarrow> nat \<Rightarrow> u32 \<Rightarrow> kern \<Rightarrow> ipc_result \<times> u8 list option \<times> kern" where
  "rt_mq_recv q n timeout k =
     (case mq_recv_begin q timeout k of
        (Ended r, k) \<Rightarrow> (Returned r, None, k)
      | (Asleep, k) \<Rightarrow> (Waiting, None, k)
      | (Slot x, k) \<Rightarrow> (case mq_recv_end q x k of (r, k') \<Rightarrow> (Returned r, Some (mq_recv_copy q x n k), k')))"

text \<open>The loop of the reset that moves all messages to the free list.\<close>

partial_function (option) mq_empty :: "messagequeue \<Rightarrow> messagequeue option" where
  "mq_empty q =
     (case mq_head q of
        None \<Rightarrow> Some q
      | Some x \<Rightarrow> mq_empty (mq_free_slot x (mq_unlink_slot x q)))"

definition rt_mq_control :: "nat \<Rightarrow> int \<Rightarrow> kern \<Rightarrow> (int \<times> kern) option" where
  "rt_mq_control q cmd k =
     (if cmd = RT_IPC_CMD_RESET
      then Option.bind (resume_both (MqQ q) (MqSendQ q) k) (\<lambda>k.
             map_option (\<lambda>m. (RT_EOK, rt_schedule (upd_mq q (\<lambda>_. m\<lparr>mq_entry := 0\<rparr>) k)))
               (mq_empty (mq_of k q)))
      else Some (- RT_ERROR, k))"

section \<open>Linked slots\<close>

text \<open>\<open>linked nx p xs\<close>: from \<open>p\<close> the links \<open>nx\<close> lead through the slots \<open>xs\<close> to the null pointer.\<close>

primrec linked :: "nat option list \<Rightarrow> nat option \<Rightarrow> nat list \<Rightarrow> bool" where
  "linked nx p [] \<longleftrightarrow> p = None"
| "linked nx p (x # xs) \<longleftrightarrow> p = Some x \<and> x < length nx \<and> linked nx (nx ! x) xs"

fun walk :: "nat option list \<Rightarrow> nat option \<Rightarrow> nat \<Rightarrow> nat list" where
  "walk nx (Some x) (Suc n) = x # walk nx (nx ! x) n"
| "walk nx p n = []"

lemma walk_linked: "linked nx p xs \<Longrightarrow> walk nx p (length xs) = xs"
  by (induction xs arbitrary: p) auto

lemma linked_upd [simp]: "x \<notin> set xs \<Longrightarrow> linked (nx[x := v]) p xs = linked nx p xs"
  by (induction xs arbitrary: p) auto

lemma linked_less: "linked nx p xs \<Longrightarrow> x \<in> set xs \<Longrightarrow> x < length nx"
  by (induction xs arbitrary: p) auto

lemma linked_snoc:
  "linked nx p xs \<Longrightarrow> xs \<noteq> [] \<Longrightarrow> distinct xs \<Longrightarrow> x \<notin> set xs \<Longrightarrow> x < length nx \<Longrightarrow> nx ! x = None \<Longrightarrow>
     linked (nx[last xs := Some x]) p (xs @ [x])"
proof (induction xs arbitrary: p)
  case (Cons y ys)
  show ?case
  proof (cases "ys = []")
    case True then show ?thesis using Cons.prems by auto
  next
    case False
    then have "y \<noteq> last ys" using Cons.prems(3) by auto
    then show ?thesis using False Cons by auto
  qed
qed simp

text \<open>A queue whose messages are in the slots \<open>ms\<close>, whose free slots are \<open>fs\<close>, while the slots
  \<open>F\<close> are in the hands of senders and receivers: every slot is in exactly one of the three.\<close>

definition slots_sized :: "messagequeue \<Rightarrow> bool" where
  "slots_sized q \<longleftrightarrow> length (mq_data q) = length (mq_next q) \<and>
     (\<forall>d\<in>set (mq_data q). length d = unat (mq_msg_size q))"

lemma slots_sized_upd [simp]:
  "slots_sized (q\<lparr>mq_head := a\<rparr>) = slots_sized q" "slots_sized (q\<lparr>mq_tail := a\<rparr>) = slots_sized q"
  "slots_sized (q\<lparr>mq_free := a\<rparr>) = slots_sized q" "slots_sized (q\<lparr>mq_entry := n\<rparr>) = slots_sized q"
  "slots_sized (q\<lparr>mq_next := (mq_next q)[i := a]\<rparr>) = slots_sized q"
  by (simp_all add: slots_sized_def)

definition slots_split :: "nat list \<Rightarrow> nat list \<Rightarrow> nat set \<Rightarrow> nat \<Rightarrow> bool" where
  "slots_split ms fs F n \<longleftrightarrow> distinct ms \<and> distinct fs \<and> set ms \<inter> set fs = {} \<and> F \<inter> set ms = {} \<and>
     F \<inter> set fs = {} \<and> F \<union> set ms \<union> set fs = {..<n}"

lemma split_take: "slots_split ms (x # fs) F n \<Longrightarrow> slots_split ms fs (insert x F) n"
  by (auto simp: slots_split_def)

lemma split_unlink: "slots_split (x # ms) fs F n \<Longrightarrow> slots_split ms fs (insert x F) n"
  by (auto simp: slots_split_def)

lemma split_put:
  assumes "slots_split ms fs F n" "x \<in> F"
  shows "slots_split (ms @ [x]) fs (F - {x}) n" "slots_split (x # ms) fs (F - {x}) n"
    "slots_split ms (x # fs) (F - {x}) n"
proof -
  have e: "insert x (F - {x} \<union> set ms \<union> set fs) = F \<union> set ms \<union> set fs" using assms(2) by blast
  show "slots_split (ms @ [x]) fs (F - {x}) n" "slots_split (x # ms) fs (F - {x}) n"
    "slots_split ms (x # fs) (F - {x}) n"
    using assms e by (auto simp: slots_split_def)
qed

lemma slots_splitD:
  assumes "slots_split ms fs F n"
  shows "x \<in> F \<Longrightarrow> x < n \<and> x \<notin> set ms \<and> x \<notin> set fs" "distinct ms" "distinct fs"
    "x \<in> set ms \<Longrightarrow> x < n \<and> x \<notin> F \<and> x \<notin> set fs" "x \<in> set fs \<Longrightarrow> x < n \<and> x \<notin> F \<and> x \<notin> set ms"
    "finite F" "length ms + length fs + card F = n"
proof -
  have u: "F \<union> set ms \<union> set fs = {..<n}" "F \<inter> set ms = {}" "F \<inter> set fs = {}" "set ms \<inter> set fs = {}"
    "distinct ms" "distinct fs" using assms by (simp_all add: slots_split_def)
  have l: "x < n \<longleftrightarrow> x \<in> F \<or> x \<in> set ms \<or> x \<in> set fs" for x using u(1) by (metis UnCI UnE lessThan_iff)
  show "x \<in> F \<Longrightarrow> x < n \<and> x \<notin> set ms \<and> x \<notin> set fs"
    "x \<in> set ms \<Longrightarrow> x < n \<and> x \<notin> F \<and> x \<notin> set fs" "x \<in> set fs \<Longrightarrow> x < n \<and> x \<notin> F \<and> x \<notin> set ms"
    using u(2-4) l by blast+
  show "distinct ms" "distinct fs" using u by simp_all
  show f: "finite F" using u(1) by (metis finite_Un finite_lessThan)
  have "card (F \<union> set ms) = card F + card (set ms)" using f u(2) by (simp add: card_Un_disjoint)
  moreover have "card (F \<union> set ms \<union> set fs) = card (F \<union> set ms) + card (set fs)"
    by (rule card_Un_disjoint) (use f u(3,4) in auto)
  ultimately show "length ms + length fs + card F = n"
    using u(1) distinct_card[OF u(5)] distinct_card[OF u(6)] by simp
qed

definition mq_rep :: "messagequeue \<Rightarrow> nat list \<Rightarrow> nat list \<Rightarrow> nat set \<Rightarrow> bool" where
  "mq_rep q ms fs F \<longleftrightarrow>
     linked (mq_next q) (mq_head q) ms \<and> linked (mq_next q) (mq_free q) fs \<and>
     mq_tail q = (if ms = [] then None else Some (last ms)) \<and>
     slots_split ms fs F (unat (mq_max q)) \<and> slots_sized q \<and> length ms = unat (mq_entry q) \<and> length (mq_next q) = unat (mq_max q)"

lemma mq_repD:
  assumes "mq_rep q ms fs F"
  shows "x \<in> F \<Longrightarrow> x < length (mq_next q) \<and> x \<notin> set ms \<and> x \<notin> set fs"
    "mq_head q = (case ms of [] \<Rightarrow> None | x # _ \<Rightarrow> Some x)" "mq_free q = (case fs of [] \<Rightarrow> None | x # _ \<Rightarrow> Some x)"
    "length ms = unat (mq_entry q)" "length ms + length fs + card F = unat (mq_max q)" "finite F"
proof -
  have P: "slots_split ms fs F (unat (mq_max q))" and n: "length (mq_next q) = unat (mq_max q)"
    and L: "linked (mq_next q) (mq_head q) ms" "linked (mq_next q) (mq_free q) fs" "length ms = unat (mq_entry q)"
    using assms by (simp_all add: mq_rep_def)
  show "x \<in> F \<Longrightarrow> x < length (mq_next q) \<and> x \<notin> set ms \<and> x \<notin> set fs" using slots_splitD(1)[OF P] n by simp
  show "mq_head q = (case ms of [] \<Rightarrow> None | x # _ \<Rightarrow> Some x)" using L(1) by (cases ms) simp_all
  show "mq_free q = (case fs of [] \<Rightarrow> None | x # _ \<Rightarrow> Some x)" using L(2) by (cases fs) simp_all
  show "length ms = unat (mq_entry q)" "length ms + length fs + card F = unat (mq_max q)" "finite F"
    using L(3) slots_splitD[OF P] by simp_all
qed

lemma rep_take_slot:
  "mq_rep q ms (x # fs) F \<Longrightarrow> mq_rep (mq_take_slot x q) ms fs (insert x F)"
  by (simp add: mq_rep_def mq_take_slot_def split_take)

lemma mq_copy_in_sel [simp]:
  "mq_next (mq_copy_in x buf q) = mq_next q" "mq_head (mq_copy_in x buf q) = mq_head q"
  "mq_tail (mq_copy_in x buf q) = mq_tail q" "mq_free (mq_copy_in x buf q) = mq_free q"
  "mq_entry (mq_copy_in x buf q) = mq_entry q" "mq_max (mq_copy_in x buf q) = mq_max q"
  "mq_msg_size (mq_copy_in x buf q) = mq_msg_size q" "mq_flag (mq_copy_in x buf q) = mq_flag q"
  by (simp_all add: mq_copy_in_def)

lemma sized_copy_in:
  assumes "slots_sized q" "x < length (mq_next q)" "length buf \<le> unat (mq_msg_size q)"
  shows "slots_sized (mq_copy_in x buf q)"
proof -
  have l: "x < length (mq_data q)" "length (mq_data q ! x) = unat (mq_msg_size q)"
    using assms(1,2) by (auto simp: slots_sized_def)
  have "length d = unat (mq_msg_size q)" if "d \<in> set ((mq_data q)[x := buf @ drop (length buf) (mq_data q ! x)])" for d
  proof -
    have "d = buf @ drop (length buf) (mq_data q ! x) \<or> d \<in> set (mq_data q)"
      using subsetD[OF set_update_subset_insert that] by simp
    then show ?thesis using l(2) assms(1,3) by (auto simp: slots_sized_def)
  qed
  moreover have "mq_data (mq_copy_in x buf q) = (mq_data q)[x := buf @ drop (length buf) (mq_data q ! x)]"
    by (simp add: mq_copy_in_def)
  ultimately have "\<forall>d\<in>set (mq_data (mq_copy_in x buf q)). length d = unat (mq_msg_size (mq_copy_in x buf q))"
    unfolding mq_copy_in_sel by metis
  moreover have "length (mq_data (mq_copy_in x buf q)) = length (mq_next (mq_copy_in x buf q))"
    using assms(1) by (simp add: slots_sized_def mq_copy_in_def)
  ultimately show ?thesis unfolding slots_sized_def by blast
qed

lemma rep_copy_in:
  assumes r: "mq_rep q ms fs F" and x: "x \<in> F" and l: "length buf \<le> unat (mq_msg_size q)"
  shows "mq_rep (mq_copy_in x buf q) ms fs F"
proof -
  have "slots_sized (mq_copy_in x buf q)"
    by (rule sized_copy_in) (use r l mq_repD(1)[OF r x] in \<open>simp_all add: mq_rep_def\<close>)
  then show ?thesis using r by (simp add: mq_rep_def)
qed

lemma rep_no_next: "mq_rep q ms fs F \<Longrightarrow> x \<in> F \<Longrightarrow> mq_rep (mq_no_next x q) ms fs F"
  using mq_repD(1)[of q ms fs F x] by (simp add: mq_rep_def mq_no_next_def)

lemma rep_room: "mq_rep q ms fs F \<Longrightarrow> x \<in> F \<Longrightarrow> mq_entry q < RT_MQ_ENTRY_MAX \<and> unat (mq_entry q + 1) = unat (mq_entry q) + 1"
proof -
  assume r: "mq_rep q ms fs F" and x: "x \<in> F"
  have "0 < card F" using x mq_repD(6)[OF r] by (auto simp: card_gt_0_iff)
  then have l: "unat (mq_entry q) < unat (mq_max q)" using mq_repD(4,5)[OF r] by simp
  then show ?thesis using unat16_Suc[OF l] unat16_less[of "mq_max q"]
    by (simp add: RT_MQ_ENTRY_MAX_def word_less_nat_alt)
qed

lemma rep_link:
  assumes r: "mq_rep q ms fs F" and x: "x \<in> F" "mq_next q ! x = None"
  shows "mq_rep (mq_count_up (mq_link x q)) (ms @ [x]) fs (F - {x})"
proof (cases "ms = []")
  case True
  then show ?thesis using r x mq_repD(1)[OF r x(1)] rep_room[OF r x(1)] split_put(1)[of ms fs F "unat (mq_max q)" x]
    by (simp add: mq_rep_def mq_link_def mq_count_up_def Let_def)
next
  case False
  have l: "last ms \<in> set ms" using False by simp
  have P: "slots_split ms fs F (unat (mq_max q))" using r by (simp add: mq_rep_def)
  note d = slots_splitD(2)[OF P] slots_splitD(4)[OF P l] slots_splitD(1)[OF P x(1)]
  have "linked ((mq_next q)[last ms := Some x]) (mq_head q) (ms @ [x])"
    by (rule linked_snoc) (use r x d False in \<open>simp_all add: mq_rep_def\<close>)
  moreover have "linked ((mq_next q)[last ms := Some x]) (mq_free q) fs" using r d by (simp add: mq_rep_def)
  moreover have "mq_head q = Some (hd ms)" "mq_tail q = Some (last ms)"
    using False mq_repD(2)[OF r] r by (auto simp: mq_rep_def neq_Nil_conv)
  moreover have "length ms = unat (mq_entry q)" "slots_sized q" "length (mq_next q) = unat (mq_max q)"
    using r by (simp_all add: mq_rep_def)
  ultimately show ?thesis using split_put(1)[OF P x(1)] rep_room[OF r x(1)]
    by (simp add: mq_rep_def mq_link_def mq_count_up_def Let_def)
qed

lemma rep_link_first:
  assumes r: "mq_rep q ms fs F" and x: "x \<in> F"
  shows "mq_rep (mq_count_up (mq_link_first x q)) (x # ms) fs (F - {x})"
  using r x mq_repD(1)[OF r x] rep_room[OF r x] split_put(2)[of ms fs F "unat (mq_max q)" x] mq_repD(2)[OF r]
  by (cases ms) (simp_all add: mq_rep_def mq_link_first_def mq_count_up_def Let_def)

lemma rep_unlink:
  assumes r: "mq_rep q (x # ms) fs F"
  shows "mq_rep (mq_count_down (mq_unlink_slot x q)) ms fs (insert x F)"
proof -
  have n: "unat (mq_entry q) = Suc (length ms)" using r by (simp add: mq_rep_def)
  then have z: "mq_entry q \<noteq> 0" by auto
  then have e: "0 < mq_entry q" "unat (mq_entry q - 1) = length ms"
    using unat16_pred[OF z] n by (simp_all add: word_gt_0)
  have P: "slots_split (x # ms) fs F (unat (mq_max q))" using r by (simp add: mq_rep_def)
  have "ms \<noteq> [] \<Longrightarrow> last ms \<noteq> x" using slots_splitD(2)[OF P] by auto
  then show ?thesis using r e split_unlink[OF P]
    by (simp add: mq_rep_def mq_unlink_slot_def mq_count_down_def Let_def)
qed

lemma rep_free:
  assumes r: "mq_rep q ms fs F" and x: "x \<in> F"
  shows "mq_rep (mq_free_slot x q) ms (x # fs) (F - {x})"
  using r x mq_repD(1)[OF r x] split_put(3)[of ms fs F "unat (mq_max q)" x] by (simp add: mq_rep_def mq_free_slot_def)

text \<open>The slots that hold the messages, in order, and the messages.\<close>

definition mq_slots :: "messagequeue \<Rightarrow> nat list" where
  "mq_slots q = walk (mq_next q) (mq_head q) (unat (mq_entry q))"

definition mq_messages :: "messagequeue \<Rightarrow> u8 list list" where
  "mq_messages q = map (\<lambda>x. mq_data q ! x) (mq_slots q)"

lemma rep_slots: "mq_rep q ms fs F \<Longrightarrow> mq_slots q = ms"
  using walk_linked[of "mq_next q" "mq_head q" ms] by (simp add: mq_rep_def mq_slots_def)

text \<open>The linked slots keep the contract of a queue, whatever slots are in other hands.\<close>

definition slots_ok :: "messagequeue \<times> nat set \<Rightarrow> bool" where
  "slots_ok s \<longleftrightarrow> (\<exists>ms fs. mq_rep (fst s) ms fs (snd s))"

definition slot_admits :: "nat \<Rightarrow> messagequeue \<times> nat set \<Rightarrow> bool" where
  "slot_admits x s \<longleftrightarrow> x \<in> snd s \<and> mq_next (fst s) ! x = None"

definition slot_put :: "nat \<Rightarrow> messagequeue \<times> nat set \<Rightarrow> messagequeue \<times> nat set" where
  "slot_put x s = (mq_count_up (mq_link x (fst s)), snd s - {x})"

definition slot_put_first :: "nat \<Rightarrow> messagequeue \<times> nat set \<Rightarrow> messagequeue \<times> nat set" where
  "slot_put_first x s = (mq_count_up (mq_link_first x (fst s)), snd s - {x})"

definition slot_drop :: "messagequeue \<times> nat set \<Rightarrow> messagequeue \<times> nat set" where
  "slot_drop s = (case mq_head (fst s) of None \<Rightarrow> s
     | Some x \<Rightarrow> (mq_count_down (mq_unlink_slot x (fst s)), insert x (snd s)))"

interpretation slots: fifo slots_ok "mq_slots \<circ> fst" slot_admits slot_put slot_put_first slot_drop
proof unfold_locales
  fix s x assume "slots_ok s" and a: "slot_admits x s"
  then obtain ms fs where r: "mq_rep (fst s) ms fs (snd s)" by (auto simp: slots_ok_def)
  show "slots_ok (slot_put x s) \<and> (mq_slots \<circ> fst) (slot_put x s) = (mq_slots \<circ> fst) s @ [x]"
    using rep_link[OF r, of x] a rep_slots rep_slots[OF r]
    by (auto simp: slot_put_def slots_ok_def slot_admits_def)
  show "slots_ok (slot_put_first x s) \<and> (mq_slots \<circ> fst) (slot_put_first x s) = x # (mq_slots \<circ> fst) s"
    using rep_link_first[OF r, of x] a rep_slots rep_slots[OF r]
    by (auto simp: slot_put_first_def slots_ok_def slot_admits_def)
next
  fix s assume "slots_ok s" and n: "(mq_slots \<circ> fst) s \<noteq> []"
  then obtain ms fs where r: "mq_rep (fst s) ms fs (snd s)" by (auto simp: slots_ok_def)
  obtain x ms' where ms: "ms = x # ms'" using n rep_slots[OF r] by (cases ms) auto
  have "mq_head (fst s) = Some x" using mq_repD(2)[OF r] ms by simp
  then show "slots_ok (slot_drop s) \<and> (mq_slots \<circ> fst) (slot_drop s) = tl ((mq_slots \<circ> fst) s)"
    using rep_unlink[OF r[unfolded ms]] rep_slots rep_slots[OF r] ms by (auto simp: slot_drop_def slots_ok_def)
qed

text \<open>A fresh pool: all slots are free.\<close>

lemma linked_append: "linked nx p xs \<Longrightarrow> linked (nx @ ys) p xs"
  by (induction xs arbitrary: p) (auto simp: nth_append)

lemma free_slots_linked:
  "linked nx free fs \<Longrightarrow> distinct fs \<Longrightarrow> set fs = {..<length nx} \<Longrightarrow>
   \<exists>fs'. linked (fst (free_slots n nx free)) (snd (free_slots n nx free)) fs' \<and> distinct fs' \<and>
     set fs' = {..<length nx + n} \<and> length (fst (free_slots n nx free)) = length nx + n"
proof (induction n arbitrary: nx free fs)
  case 0
  then show ?case by (intro exI[of _ fs]) (simp only: free_slots.simps fst_conv snd_conv add_0_right simp_thms)
next
  case (Suc n)
  have 1: "linked (nx @ [free]) (Some (length nx)) (length nx # fs)" using linked_append[OF Suc.prems(1)] by simp
  have "length nx \<notin> set fs" unfolding Suc.prems(3) by simp
  then have 2: "distinct (length nx # fs)" "set (length nx # fs) = {..<length (nx @ [free])}"
    using Suc.prems(2) by (simp, simp only: Suc.prems(3) list.set length_append list.size lessThan_Suc add_Suc_right add_0_right)
  have "length (nx @ [free]) + n = length nx + Suc n" by simp
  then show ?case using Suc.IH[OF 1 2] by (simp only: free_slots.simps)
qed

lemma rep_format: "\<exists>fs. mq_rep (mq_format pool msg_size flag) [] fs {}"
proof -
  define sz mx where "sz = (ucast (RT_ALIGN msg_size) :: u16)"
    and "mx = (word_of_nat (length pool div (unat sz + 4)) :: u16)"
  let ?q = "mq_format pool msg_size flag"
  obtain nx free where nf: "free_slots (unat mx) [] None = (nx, free)" by fastforce
  obtain fs where fs: "linked nx free fs" "distinct fs" "set fs = {..<unat mx}" "length nx = unat mx"
    using free_slots_linked[of "[]" None "[]" "unat mx"] nf by auto
  have q: "?q = \<lparr>mq_flag = flag, mq_next = nx, mq_data = map (\<lambda>i. take (unat sz) (drop (i * (unat sz + 4) + 4) pool)) [0..<unat mx],
      mq_msg_size = sz, mq_max = mx, mq_entry = 0, mq_head = None, mq_tail = None, mq_free = free\<rparr>"
    by (simp add: mq_format_def sz_def[symmetric] mx_def[symmetric] nf Let_def)
  have "unat mx \<le> length pool div (unat sz + 4)"
    by (simp add: mx_def unat_of_nat)
  then have m: "unat mx * (unat sz + 4) \<le> length pool" by (metis div_times_less_eq_dividend le_trans mult_le_mono1)
  have "length (take (unat sz) (drop (i * (unat sz + 4) + 4) pool)) = unat sz" if "i < unat mx" for i
  proof -
    have "(i + 1) * (unat sz + 4) \<le> unat mx * (unat sz + 4)" using that by (intro mult_le_mono1) simp
    then have "i * (unat sz + 4) + 4 + unat sz \<le> length pool" using m by (simp add: algebra_simps)
    then show ?thesis by simp
  qed
  then have "slots_sized ?q" using fs(4) by (auto simp: q slots_sized_def)
  then have "mq_rep ?q [] fs {}" using fs by (simp add: mq_rep_def slots_split_def) (simp add: q)
  then show ?thesis by blast
qed

section \<open>The operations on the kernel\<close>

lemma upd_mq_sel [simp]:
  "kinv_but E (upd_mq q f k) = kinv_but E k" "threads (upd_mq q f k) = threads k"
  "stat_of (upd_mq q f k) = stat_of k" "prio (upd_mq q f k) = prio k" "waitq (upd_mq q f k) = waitq k"
  "rt_current_thread (upd_mq q f k) = rt_current_thread k"
  "mq_of (upd_mq q f k) r = (if r = q then f (mq_of k q) else mq_of k r)"
  "mailboxes (ipc (upd_mq q f k)) = mailboxes (ipc k)"
  by (simp_all add: upd_mq_def stat_of_def prio_def fun_eq_iff)

lemma upd_mq_objects [simp]: "objects_ok (upd_mq q f k) = objects_ok k" "mails_ok (upd_mq q f k) = mails_ok k"
proof -
  have "sems (ipc (upd_mq q f k)) = sems (ipc k)" "mutexes (ipc (upd_mq q f k)) = mutexes (ipc k)"
    "events (ipc (upd_mq q f k)) = events (ipc k)" by (simp_all add: upd_mq_def)
  then show "objects_ok (upd_mq q f k) = objects_ok k"
    by (simp add: objects_ok_def sem_ok_def mutex_ok_def event_ok_def sem_value_def ev_set_def)
  show "mails_ok (upd_mq q f k) = mails_ok k" by (rule mails_same) simp
qed

lemma upd_mq_ok [simp]: "kern_ok (upd_mq q f k) = kern_ok k" by (simp add: kern_ok_def)

lemma mq_arrived_state:
  assumes k: "kinv k" and e: "mq_entry (mq_of k q) < RT_MQ_ENTRY_MAX"
  shows "fst (mq_arrived q k) = RT_EOK" "kinv (snd (mq_arrived q k))" "kern_ok k \<Longrightarrow> kern_ok (snd (mq_arrived q k))"
    "mq_of (snd (mq_arrived q k)) r = (if r = q then mq_count_up (mq_of k q) else mq_of k r)"
    "waitq (snd (mq_arrived q k)) (MqQ q) = tl (waitq k (MqQ q))"
    "waitq k (MqQ q) = t # ts \<Longrightarrow> stat_of (snd (mq_arrived q k)) t \<noteq> RT_THREAD_SUSPEND"
proof -
  let ?k = "upd_mq q mq_count_up k"
  have k1: "kinv ?k" using k by simp
  note W = wake_one_state[OF k1, of "MqQ q"]
  have r: "mq_arrived q k = (RT_EOK, wake_one (MqQ q) ?k)" using e by (simp add: mq_arrived_def)
  show "fst (mq_arrived q k) = RT_EOK" "kinv (snd (mq_arrived q k))" "kern_ok k \<Longrightarrow> kern_ok (snd (mq_arrived q k))"
    "mq_of (snd (mq_arrived q k)) r = (if r = q then mq_count_up (mq_of k q) else mq_of k r)"
    "waitq (snd (mq_arrived q k)) (MqQ q) = tl (waitq k (MqQ q))"
    "waitq k (MqQ q) = t # ts \<Longrightarrow> stat_of (snd (mq_arrived q k)) t \<noteq> RT_THREAD_SUSPEND"
    unfolding r using W wake_one_ok[of ?k "MqQ q"] by (simp_all add: W(2))
qed

text \<open>Taking a slot: whoever gets one gets the first free slot, or the one of the first message.\<close>

lemma send_turn_slot:
  assumes "mq_rep (mq_of k q) ms fs F" "mq_send_turn q timeout k = (Slot x, k')"
  shows "k' = upd_mq q (mq_take_slot x) k \<and> (\<exists>fs'. fs = x # fs')"
proof -
  obtain fs' where fs: "fs = x # fs'" using assms mq_repD(3)[OF assms(1)]
    by (auto simp: mq_send_turn_def Let_def split: list.splits if_splits)
  then have "mq_free (mq_of k q) = Some x" "x < length (mq_next (mq_of k q))"
    using assms(1) by (auto simp: mq_rep_def)
  then show ?thesis using assms(2) fs by (auto simp: mq_send_turn_def RT_ASSERT_def)
qed

lemma send_slot:
  assumes "mq_rep (mq_of k q) ms fs F"
    and "mq_send_begin q n timeout k = (Slot x, k') \<or> mq_send_again t q timeout since k = (Slot x, k') \<or>
      mq_urgent_begin q n k = (Slot x, k')"
  shows "k' = upd_mq q (mq_take_slot x) k \<and> (\<exists>fs'. fs = x # fs')"
proof -
  have "\<exists>timeout. mq_send_turn q timeout k = (Slot x, k')"
    using assms(2) unfolding mq_send_begin_def mq_send_again_def mq_urgent_begin_def
    by (auto simp: mq_send_turn_def split: if_splits option.splits)
  then show ?thesis using send_turn_slot[OF assms(1)] by blast
qed

lemma recv_turn_slot:
  assumes r: "mq_rep (mq_of k q) ms fs F" and b: "mq_recv_turn q timeout k = (Slot x, k')"
  shows "k' = upd_mq q (mq_count_down \<circ> mq_unlink_slot x) k \<and> (\<exists>ms'. ms = x # ms')"
proof -
  have e: "mq_entry (mq_of k q) \<noteq> 0" using b by (auto simp: mq_recv_turn_def Let_def split: if_splits)
  then have "ms \<noteq> []" using mq_repD(4)[OF r] by (auto simp: unat_eq_0)
  then obtain y ms' where ms: "ms = y # ms'" by (cases ms) auto
  then have h: "mq_head (mq_of k q) = Some y" "y < length (mq_next (mq_of k q))"
    using mq_repD(2)[OF r] r by (auto simp: mq_rep_def)
  then show ?thesis using b e ms by (auto simp: mq_recv_turn_def RT_ASSERT_def)
qed

lemma recv_slot:
  assumes "mq_rep (mq_of k q) ms fs F"
    and "mq_recv_begin q timeout k = (Slot x, k') \<or> mq_recv_again t q timeout since k = (Slot x, k')"
  shows "k' = upd_mq q (mq_count_down \<circ> mq_unlink_slot x) k \<and> (\<exists>ms'. ms = x # ms')"
proof -
  have "\<exists>timeout. mq_recv_turn q timeout k = (Slot x, k')"
    using assms(2) unfolding mq_recv_begin_def mq_recv_again_def by (auto split: if_splits)
  then show ?thesis using recv_turn_slot[OF assms(1)] by blast
qed

section \<open>Senders and receivers interleaved\<close>

text \<open>What a slot outside the two lists is used for: taken and not yet written, written and about
  to be linked at the end or in front, or being copied out, with the message it held when it
  was taken out of the queue.  \<open>pending\<close> is the queue a user of the operations has in mind.\<close>

datatype slot_use = Taken | Written | Urgent | Reading "u8 list"

record flow =
  fk :: kern
  holder :: "nat \<Rightarrow> slot_use option"
  pending :: "u8 list list"

text \<open>The steps of all threads and interrupts that use the queue \<open>q\<close>, in any order; anything else
  that happens leaves the queue alone.\<close>

inductive flow_step :: "nat \<Rightarrow> flow \<Rightarrow> flow \<Rightarrow> bool" for q where
  take_slot: "mq_send_begin q n timeout (fk f) = (Slot x, k') \<or> mq_send_again t q timeout since (fk f) = (Slot x, k') \<or>
      mq_urgent_begin q n (fk f) = (Slot x, k') \<Longrightarrow>
    flow_step q f (f\<lparr>fk := k', holder := (holder f)(x \<mapsto> Taken)\<rparr>)"
| write_slot: "holder f x = Some Taken \<Longrightarrow> length buf \<le> unat (mq_msg_size (mq_of (fk f) q)) \<Longrightarrow>
    flow_step q f (f\<lparr>fk := mq_send_copy q x buf (fk f), holder := (holder f)(x \<mapsto> Written)\<rparr>)"
| write_urgent: "holder f x = Some Taken \<Longrightarrow> length buf \<le> unat (mq_msg_size (mq_of (fk f) q)) \<Longrightarrow>
    flow_step q f (f\<lparr>fk := mq_urgent_copy q x buf (fk f), holder := (holder f)(x \<mapsto> Urgent)\<rparr>)"
| link_slot: "holder f x = Some Written \<Longrightarrow>
    flow_step q f (f\<lparr>fk := snd (mq_send_end q x (fk f)), holder := (holder f)(x := None),
      pending := pending f @ [mq_data (mq_of (fk f) q) ! x]\<rparr>)"
| link_urgent: "holder f x = Some Urgent \<Longrightarrow>
    flow_step q f (f\<lparr>fk := snd (mq_urgent_end q x (fk f)), holder := (holder f)(x := None),
      pending := (mq_data (mq_of (fk f) q) ! x) # pending f\<rparr>)"
| unlink: "mq_recv_begin q timeout (fk f) = (Slot x, k') \<or> mq_recv_again t q timeout since (fk f) = (Slot x, k') \<Longrightarrow>
    flow_step q f (f\<lparr>fk := k', holder := (holder f)(x \<mapsto> Reading (hd (pending f))), pending := tl (pending f)\<rparr>)"
| give_back: "holder f x = Some (Reading d) \<Longrightarrow>
    flow_step q f (f\<lparr>fk := snd (mq_recv_end q x (fk f)), holder := (holder f)(x := None)\<rparr>)"
| other: "kinv k' \<Longrightarrow> mq_of k' q = mq_of (fk f) q \<Longrightarrow> flow_step q f (f\<lparr>fk := k'\<rparr>)"

inductive flow_reach :: "nat \<Rightarrow> flow \<Rightarrow> flow \<Rightarrow> bool" for q f0 where
  start: "flow_reach q f0 f0"
| step: "flow_reach q f0 f \<Longrightarrow> flow_step q f f' \<Longrightarrow> flow_reach q f0 f'"

definition flow_ok :: "nat \<Rightarrow> flow \<Rightarrow> bool" where
  "flow_ok q f \<longleftrightarrow> kinv (fk f) \<and>
     (\<exists>ms fs. mq_rep (mq_of (fk f) q) ms fs (dom (holder f)) \<and>
        pending f = map (\<lambda>x. mq_data (mq_of (fk f) q) ! x) ms) \<and>
     (\<forall>x. holder f x = Some Written \<longrightarrow> mq_next (mq_of (fk f) q) ! x = None) \<and>
     (\<forall>x d. holder f x = Some (Reading d) \<longrightarrow> mq_data (mq_of (fk f) q) ! x = d)"

lemma mq_sel [simp]:
  "mq_data (mq_take_slot x m) = mq_data m" "mq_data (mq_no_next x m) = mq_data m" "mq_data (mq_link x m) = mq_data m"
  "mq_data (mq_link_first x m) = mq_data m" "mq_data (mq_count_up m) = mq_data m"
  "mq_data (mq_unlink_slot x m) = mq_data m" "mq_data (mq_count_down m) = mq_data m" "mq_data (mq_free_slot x m) = mq_data m"
  "mq_next (mq_take_slot x m) = mq_next m" "mq_next (mq_count_up m) = mq_next m" "mq_next (mq_count_down m) = mq_next m"
  "mq_next (mq_unlink_slot x m) = mq_next m" "mq_next (mq_no_next x m) = (mq_next m)[x := None]"
  "mq_next (mq_link_first x m) = (mq_next m)[x := mq_head m]" "mq_next (mq_free_slot x m) = (mq_next m)[x := mq_free m]"
  "mq_msg_size (mq_take_slot x m) = mq_msg_size m" "mq_msg_size (mq_no_next x m) = mq_msg_size m"
  "mq_msg_size (mq_link x m) = mq_msg_size m" "mq_msg_size (mq_count_up m) = mq_msg_size m"
  "mq_entry (mq_link x m) = mq_entry m" "mq_entry (mq_link_first x m) = mq_entry m"
  by (simp_all add: mq_take_slot_def mq_no_next_def mq_link_def mq_link_first_def mq_count_up_def mq_unlink_slot_def
      mq_count_down_def mq_free_slot_def Let_def split: option.splits)

lemma mq_next_link: "mq_rep m ms fs F \<Longrightarrow> y \<in> F \<Longrightarrow> mq_next (mq_link x m) ! y = mq_next m ! y"
proof -
  assume r: "mq_rep m ms fs F" and y: "y \<in> F"
  have "mq_tail m = Some t \<Longrightarrow> t \<noteq> y" for t
    using r mq_repD(1)[OF r y] by (auto simp: mq_rep_def split: if_splits)
  then show ?thesis by (auto simp: mq_link_def Let_def split: option.splits)
qed

text \<open>The invariant, put together again after a step.\<close>

lemma flow_okI:
  assumes "kinv k" "mq_rep (mq_of k q) ms fs (dom h)" "p = map (\<lambda>x. mq_data (mq_of k q) ! x) ms"
    "\<And>x. h x = Some Written \<Longrightarrow> mq_next (mq_of k q) ! x = None"
    "\<And>x d. h x = Some (Reading d) \<Longrightarrow> mq_data (mq_of k q) ! x = d"
  shows "flow_ok q \<lparr>fk = k, holder = h, pending = p\<rparr>"
  using assms by (auto simp: flow_ok_def)

lemma flow_okE:
  assumes "flow_ok q f"
  obtains k h p ms fs where "f = \<lparr>fk = k, holder = h, pending = p\<rparr>" "kinv k" "mq_rep (mq_of k q) ms fs (dom h)"
    "p = map (\<lambda>x. mq_data (mq_of k q) ! x) ms" "\<And>x. h x = Some Written \<Longrightarrow> mq_next (mq_of k q) ! x = None"
    "\<And>x d. h x = Some (Reading d) \<Longrightarrow> mq_data (mq_of k q) ! x = d"
  using assms by (cases f) (auto simp: flow_ok_def)

lemma flow_take:
  assumes o: "flow_ok q \<lparr>fk = k, holder = h, pending = p\<rparr>"
    and b: "mq_send_begin q n timeout k = (Slot x, k') \<or> mq_send_again t q timeout since k = (Slot x, k') \<or>
      mq_urgent_begin q n k = (Slot x, k')"
  shows "flow_ok q \<lparr>fk = k', holder = h(x \<mapsto> Taken), pending = p\<rparr>"
  using o
proof (cases rule: flow_okE)
  case (1 k0 h0 p0 ms fs)
  then have e: "k0 = k" "h0 = h" "p0 = p" by simp_all
  note F = 1(2-6)[unfolded e]
  from send_slot[OF F(2) b] obtain fs' where k': "k' = upd_mq q (mq_take_slot x) k" and fs: "fs = x # fs'" by blast
  have "mq_rep (mq_of k' q) ms fs' (dom (h(x \<mapsto> Taken)))"
    using rep_take_slot[OF F(2)[unfolded fs]] by (simp add: k')
  then show ?thesis using F by (intro flow_okI) (auto simp: k' split: if_splits)
qed

lemma flow_write:
  assumes o: "flow_ok q \<lparr>fk = k, holder = h, pending = p\<rparr>" and x: "h x = Some Taken"
    and l: "length buf \<le> unat (mq_msg_size (mq_of k q))"
  shows "flow_ok q \<lparr>fk = mq_send_copy q x buf k, holder = h(x \<mapsto> Written), pending = p\<rparr>"
    "flow_ok q \<lparr>fk = mq_urgent_copy q x buf k, holder = h(x \<mapsto> Urgent), pending = p\<rparr>"
proof -
  from o obtain ms fs where F: "kinv k" "mq_rep (mq_of k q) ms fs (dom h)" "p = map (\<lambda>x. mq_data (mq_of k q) ! x) ms"
    "\<And>x. h x = Some Written \<Longrightarrow> mq_next (mq_of k q) ! x = None"
    "\<And>x d. h x = Some (Reading d) \<Longrightarrow> mq_data (mq_of k q) ! x = d"
    by (cases rule: flow_okE) auto
  have xd: "x \<in> dom h" using x by auto
  note X = mq_repD(1)[OF F(2) xd]
  have D: "mq_data (mq_copy_in x buf m) ! y = mq_data m ! y" if "y \<noteq> x" for m y
    using that by (simp add: mq_copy_in_def)
  have m: "map (\<lambda>y. mq_data (mq_copy_in x buf m) ! y) ms = map (\<lambda>y. mq_data m ! y) ms" for m
  proof (rule map_cong[OF refl])
    fix y assume "y \<in> set ms"
    then have "y \<noteq> x" using X by auto
    then show "mq_data (mq_copy_in x buf m) ! y = mq_data m ! y" by (rule D)
  qed
  have dm: "insert x (dom h) = dom h" using xd by auto
  let ?m = "mq_copy_in x buf (mq_no_next x (mq_of k q))"
  have "mq_rep ?m ms fs (dom h)"
    by (rule rep_copy_in[OF rep_no_next[OF F(2) xd] xd]) (use l in simp)
  then show "flow_ok q \<lparr>fk = mq_send_copy q x buf k, holder = h(x \<mapsto> Written), pending = p\<rparr>"
    using F X m[of "mq_no_next x (mq_of k q)"] D[of _ "mq_no_next x (mq_of k q)"]
    by (intro flow_okI[where ms = ms and fs = fs]) (auto simp: mq_send_copy_def dm nth_list_update split: if_splits)
  show "flow_ok q \<lparr>fk = mq_urgent_copy q x buf k, holder = h(x \<mapsto> Urgent), pending = p\<rparr>"
    using F X m[of "mq_of k q"] D[of _ "mq_of k q"] rep_copy_in[OF F(2) xd l]
    by (intro flow_okI[where ms = ms and fs = fs]) (auto simp: mq_urgent_copy_def dm split: if_splits)
qed

lemma flow_link:
  assumes o: "flow_ok q \<lparr>fk = k, holder = h, pending = p\<rparr>"
  shows "h x = Some Written \<Longrightarrow> flow_ok q \<lparr>fk = snd (mq_send_end q x k), holder = h(x := None),
       pending = p @ [mq_data (mq_of k q) ! x]\<rparr>"
    "h x = Some Urgent \<Longrightarrow> flow_ok q \<lparr>fk = snd (mq_urgent_end q x k), holder = h(x := None),
       pending = (mq_data (mq_of k q) ! x) # p\<rparr>"
proof -
  from o obtain ms fs where F: "kinv k" "mq_rep (mq_of k q) ms fs (dom h)" "p = map (\<lambda>x. mq_data (mq_of k q) ! x) ms"
    "\<And>x. h x = Some Written \<Longrightarrow> mq_next (mq_of k q) ! x = None"
    "\<And>x d. h x = Some (Reading d) \<Longrightarrow> mq_data (mq_of k q) ! x = d"
    by (cases rule: flow_okE) auto
  have dm: "dom (h(x := None)) = dom h - {x}" by auto
  {
    assume x: "h x = Some Written"
    then have xd: "x \<in> dom h" by auto
    have e: "mq_entry (mq_of k q) < RT_MQ_ENTRY_MAX" using rep_room[OF F(2) xd] by simp
    let ?k = "upd_mq q (mq_link x) k"
    have k1: "kinv ?k" "mq_entry (mq_of ?k q) < RT_MQ_ENTRY_MAX" using F(1) e by simp_all
    note A = mq_arrived_state[OF k1, folded mq_send_end_def]
    have M: "mq_of (snd (mq_send_end q x k)) q = mq_count_up (mq_link x (mq_of k q))" using A(4)[of q] by simp
    show "flow_ok q \<lparr>fk = snd (mq_send_end q x k), holder = h(x := None), pending = p @ [mq_data (mq_of k q) ! x]\<rparr>"
    proof (rule flow_okI)
      show "mq_rep (mq_of (snd (mq_send_end q x k)) q) (ms @ [x]) fs (dom (h(x := None)))"
        unfolding M dm by (rule rep_link[OF F(2) xd F(4)[OF x]])
      fix y assume "(h(x := None)) y = Some Written"
      then have "h y = Some Written" "y \<in> dom h" by (auto split: if_splits)
      then show "mq_next (mq_of (snd (mq_send_end q x k)) q) ! y = None"
        using F(4) mq_next_link[OF F(2)] by (simp add: M)
    qed (use A(2) F(3,5) in \<open>auto simp: M split: if_splits\<close>)
  }
  {
    assume x: "h x = Some Urgent"
    then have xd: "x \<in> dom h" by auto
    have e: "mq_entry (mq_of k q) < RT_MQ_ENTRY_MAX" using rep_room[OF F(2) xd] by simp
    let ?k = "upd_mq q (mq_link_first x) k"
    have k1: "kinv ?k" "mq_entry (mq_of ?k q) < RT_MQ_ENTRY_MAX" using F(1) e by simp_all
    note A = mq_arrived_state[OF k1, folded mq_urgent_end_def]
    have M: "mq_of (snd (mq_urgent_end q x k)) q = mq_count_up (mq_link_first x (mq_of k q))" using A(4)[of q] by simp
    show "flow_ok q \<lparr>fk = snd (mq_urgent_end q x k), holder = h(x := None), pending = (mq_data (mq_of k q) ! x) # p\<rparr>"
    proof (rule flow_okI)
      show "mq_rep (mq_of (snd (mq_urgent_end q x k)) q) (x # ms) fs (dom (h(x := None)))"
        unfolding M dm by (rule rep_link_first[OF F(2) xd])
      fix y assume "(h(x := None)) y = Some Written"
      then show "mq_next (mq_of (snd (mq_urgent_end q x k)) q) ! y = None"
        using F(4)[of y] by (auto simp: M split: if_splits)
    qed (use A(2) F(3,5) in \<open>auto simp: M split: if_splits\<close>)
  }
qed

lemma flow_unlink:
  assumes o: "flow_ok q \<lparr>fk = k, holder = h, pending = p\<rparr>"
    and b: "mq_recv_begin q timeout k = (Slot x, k') \<or> mq_recv_again t q timeout since k = (Slot x, k')"
  shows "flow_ok q \<lparr>fk = k', holder = h(x \<mapsto> Reading (hd p)), pending = tl p\<rparr>"
proof -
  from o obtain ms fs where F: "kinv k" "mq_rep (mq_of k q) ms fs (dom h)" "p = map (\<lambda>x. mq_data (mq_of k q) ! x) ms"
    "\<And>x. h x = Some Written \<Longrightarrow> mq_next (mq_of k q) ! x = None"
    "\<And>x d. h x = Some (Reading d) \<Longrightarrow> mq_data (mq_of k q) ! x = d"
    by (cases rule: flow_okE) auto
  from recv_slot[OF F(2) b] obtain ms' where k': "k' = upd_mq q (mq_count_down \<circ> mq_unlink_slot x) k" and ms: "ms = x # ms'"
    by blast
  have "mq_rep (mq_of k' q) ms' fs (dom (h(x \<mapsto> Reading (hd p))))"
    using rep_unlink[OF F(2)[unfolded ms]] by (simp add: k')
  then show ?thesis using F ms by (intro flow_okI) (auto simp: k' split: if_splits)
qed

lemma flow_give_back:
  assumes o: "flow_ok q \<lparr>fk = k, holder = h, pending = p\<rparr>" and x: "h x = Some (Reading d)"
  shows "flow_ok q \<lparr>fk = snd (mq_recv_end q x k), holder = h(x := None), pending = p\<rparr>"
proof -
  from o obtain ms fs where F: "kinv k" "mq_rep (mq_of k q) ms fs (dom h)" "p = map (\<lambda>x. mq_data (mq_of k q) ! x) ms"
    "\<And>x. h x = Some Written \<Longrightarrow> mq_next (mq_of k q) ! x = None"
    "\<And>x d. h x = Some (Reading d) \<Longrightarrow> mq_data (mq_of k q) ! x = d"
    by (cases rule: flow_okE) auto
  have xd: "x \<in> dom h" using x by auto
  have dm: "dom (h(x := None)) = dom h - {x}" by auto
  have k1: "kinv (upd_mq q (mq_free_slot x) k)" using F(1) by simp
  note W = wake_one_state[OF k1, of "MqSendQ q"]
  have M: "mq_of (snd (mq_recv_end q x k)) q = mq_free_slot x (mq_of k q)" using W(2) by (simp add: mq_recv_end_def)
  show ?thesis
  proof (rule flow_okI)
    show "kinv (snd (mq_recv_end q x k))" using W(1) by (simp add: mq_recv_end_def)
    show "mq_rep (mq_of (snd (mq_recv_end q x k)) q) ms (x # fs) (dom (h(x := None)))"
      unfolding M dm by (rule rep_free[OF F(2) xd])
    fix y assume "(h(x := None)) y = Some Written"
    then show "mq_next (mq_of (snd (mq_recv_end q x k)) q) ! y = None"
      using F(4)[of y] by (auto simp: M split: if_splits)
  qed (use F(3,5) in \<open>auto simp: M split: if_splits\<close>)
qed

lemma flow_step_ok: "flow_step q f f' \<Longrightarrow> flow_ok q f \<Longrightarrow> flow_ok q f'"
proof (induction rule: flow_step.induct)
  case (take_slot n timeout f x k' t since)
  then show ?case using flow_take[of q "fk f" "holder f" "pending f"] by (cases f) auto
next
  case (write_slot f x buf)
  then show ?case using flow_write(1)[of q "fk f" "holder f" "pending f"] by (cases f) auto
next
  case (write_urgent f x buf)
  then show ?case using flow_write(2)[of q "fk f" "holder f" "pending f"] by (cases f) auto
next
  case (link_slot f x)
  then show ?case using flow_link(1)[of q "fk f" "holder f" "pending f"] by (cases f) auto
next
  case (link_urgent f x)
  then show ?case using flow_link(2)[of q "fk f" "holder f" "pending f"] by (cases f) auto
next
  case (unlink timeout f x k' t since)
  then show ?case using flow_unlink[of q "fk f" "holder f" "pending f"] by (cases f) auto
next
  case (give_back f x d)
  then show ?case using flow_give_back[of q "fk f" "holder f" "pending f"] by (cases f) auto
next
  case (other k' f)
  then show ?case by (cases f) (auto simp: flow_ok_def)
qed

lemma flow_reach_ok: "flow_reach q f0 f \<Longrightarrow> flow_ok q f0 \<Longrightarrow> flow_ok q f"
  by (induction rule: flow_reach.induct) (auto intro: flow_step_ok)

lemma mq_init_ok:
  assumes k: "kinv k" and g: "ipc_flag flag"
  shows "kinv (snd (rt_mq_init q pool msg_size flag k))" "kern_ok k \<Longrightarrow> kern_ok (snd (rt_mq_init q pool msg_size flag k))"
    "mq_of (snd (rt_mq_init q pool msg_size flag k)) q = mq_format pool msg_size flag"
proof -
  let ?k = "upd_waitq (MqSendQ q) (\<lambda>_. []) (upd_waitq (MqQ q) (\<lambda>_. []) k)"
  have e: "rt_mq_init q pool msg_size flag k = (RT_EOK, upd_mq q (\<lambda>_. mq_format pool msg_size flag) ?k)"
    using g by (auto simp: rt_mq_init_def RT_ASSERT_def Let_def)
  have f: "frame k ?k" using kinv_waitq_clear k by (auto simp: frame_def)
  then have "kinv ?k" by (simp add: frame_def)
  then show "kinv (snd (rt_mq_init q pool msg_size flag k))"
    "kern_ok k \<Longrightarrow> kern_ok (snd (rt_mq_init q pool msg_size flag k))"
    "mq_of (snd (rt_mq_init q pool msg_size flag k)) q = mq_format pool msg_size flag"
    unfolding e using frame_ok[OF f] by simp_all
qed

lemma flow_start:
  assumes "kinv k" "ipc_flag flag"
  shows "flow_ok q \<lparr>fk = snd (rt_mq_init q pool msg_size flag k), holder = Map.empty, pending = []\<rparr>"
  using rep_format[of pool msg_size flag] mq_init_ok[OF assms, of q pool msg_size] by (auto simp: flow_ok_def)

text \<open>C35: However the steps of senders, urgent senders and receivers of an initialised message
  queue are interleaved with each other and with the rest of the kernel, the messages in the
  queue are those an ordinary queue would hold, a receiver copies out the message that was
  first when it took its slot, even though it copies with the interrupts enabled, every slot
  of the pool is in exactly one place, and no null pointer is followed.\<close>

theorem message_queue_refines_a_queue:
  assumes "kinv k" "ipc_flag flag"
    and "flow_reach q \<lparr>fk = snd (rt_mq_init q pool msg_size flag k), holder = Map.empty, pending = []\<rparr> f"
  shows "kinv (fk f) \<and> mq_messages (mq_of (fk f) q) = pending f \<and>
    (\<exists>fs. mq_rep (mq_of (fk f) q) (mq_slots (mq_of (fk f) q)) fs (dom (holder f))) \<and>
    (\<forall>x d. holder f x = Some (Reading d) \<longrightarrow> mq_recv_copy q x (unat (mq_msg_size (mq_of (fk f) q))) (fk f) = d)"
proof -
  have "flow_ok q f" by (rule flow_reach_ok[OF assms(3) flow_start[OF assms(1,2)]])
  then obtain ms fs where F: "kinv (fk f)" "mq_rep (mq_of (fk f) q) ms fs (dom (holder f))"
    "pending f = map (\<lambda>x. mq_data (mq_of (fk f) q) ! x) ms"
    "\<And>x d. holder f x = Some (Reading d) \<Longrightarrow> mq_data (mq_of (fk f) q) ! x = d"
    by (auto simp: flow_ok_def)
  have s: "mq_slots (mq_of (fk f) q) = ms" by (rule rep_slots[OF F(2)])
  have "mq_recv_copy q x (unat (mq_msg_size (mq_of (fk f) q))) (fk f) = d" if h: "holder f x = Some (Reading d)" for x d
  proof -
    have "x < length (mq_data (mq_of (fk f) q))"
      using mq_repD(1)[OF F(2), of x] h F(2) by (auto simp: mq_rep_def slots_sized_def)
    then have "length (mq_data (mq_of (fk f) q) ! x) = unat (mq_msg_size (mq_of (fk f) q))"
      using F(2) by (simp add: mq_rep_def slots_sized_def)
    then show ?thesis using F(4)[OF h] by (simp add: mq_recv_copy_def)
  qed
  then show ?thesis using F(1,2,3) s by (auto simp: mq_messages_def)
qed

text \<open>A message that is sent to an empty queue with a free slot, undisturbed, is received whole:
  the receiver gets its bytes, and behind a short message what an earlier one left in the slot.\<close>

theorem message_sent_is_received:
  assumes k: "kinv k" and r: "mq_rep (mq_of k q) [] (x # fs) F"
    and l: "length buf \<le> unat (mq_msg_size (mq_of k q))" and n: "n = unat (mq_msg_size (mq_of k q))"
  shows "\<exists>k' k''. rt_mq_send q buf k = (Returned RT_EOK, k') \<and>
    rt_mq_recv q n 0 k' = (Returned RT_EOK, Some (buf @ drop (length buf) (mq_data (mq_of k q) ! x)), k'') \<and>
    kinv k'' \<and> mq_rep (mq_of k'' q) [] (x # fs) F"
proof -
  note R1 = rep_take_slot[OF r]
  let ?k1 = "upd_mq q (mq_take_slot x) k"
  have x: "mq_free (mq_of k q) = Some x" "x < length (mq_next (mq_of k q))" "x \<in> insert x F"
    using r by (auto simp: mq_rep_def)
  have b: "mq_send_begin q (length buf) 0 k = (Slot x, ?k1)"
    using x l by (simp add: mq_send_begin_def mq_send_turn_def RT_ASSERT_def not_less)
  let ?m2 = "mq_copy_in x buf (mq_no_next x (mq_take_slot x (mq_of k q)))" let ?k2 = "mq_send_copy q x buf ?k1"
  have M2: "mq_of ?k2 q = ?m2" by (simp add: mq_send_copy_def)
  have R2: "mq_rep ?m2 [] fs (insert x F)"
    by (rule rep_copy_in[OF rep_no_next[OF R1 x(3)] x(3)]) (use l in simp)
  have nx: "mq_next ?m2 ! x = None" using x by simp
  have e: "mq_entry ?m2 < RT_MQ_ENTRY_MAX" using rep_room[OF R2 x(3)] by simp
  let ?k3 = "upd_mq q (mq_link x) ?k2"
  have k3: "kinv ?k3" "mq_entry (mq_of ?k3 q) < RT_MQ_ENTRY_MAX" using k e M2 by (simp_all add: mq_send_copy_def)
  define k' where "k' = snd (mq_send_end q x ?k2)"
  note A = mq_arrived_state[OF k3, folded mq_send_end_def, folded k'_def]
  have s: "rt_mq_send q buf k = (Returned RT_EOK, k')"
    using A(1) by (simp add: rt_mq_send_def rt_mq_send_wait_def b k'_def apfst_def map_prod_def split_def)
  have M': "mq_of k' q = mq_count_up (mq_link x ?m2)" using A(4)[of q] M2 by simp
  have R': "mq_rep (mq_of k' q) [x] fs (insert x F - {x})" using rep_link[OF R2 x(3) nx] by (simp add: M')
  have xF: "x \<notin> F" using mq_repD(1)[OF r, of x] by auto
  let ?k4 = "upd_mq q (mq_count_down \<circ> mq_unlink_slot x) k'"
  have ent: "mq_entry (mq_of k' q) \<noteq> 0" "mq_head (mq_of k' q) = Some x" "x < length (mq_next (mq_of k' q))"
    using mq_repD(2,4)[OF R'] R' by (auto simp: mq_rep_def)
  then have rb: "mq_recv_begin q 0 k' = (Slot x, ?k4)"
    by (simp add: mq_recv_begin_def mq_recv_turn_def RT_ASSERT_def)
  have R4: "mq_rep (mq_of ?k4 q) [] fs (insert x (insert x F - {x}))" using rep_unlink[OF R'] by simp
  define k'' where "k'' = snd (mq_recv_end q x ?k4)"
  have k4: "kinv (upd_mq q (mq_free_slot x) ?k4)" using A(2) by simp
  note W = wake_one_state[OF k4, of "MqSendQ q"]
  have M'': "mq_of k'' q = mq_free_slot x (mq_of ?k4 q)" using W(2) by (simp add: k''_def mq_recv_end_def)
  have R'': "mq_rep (mq_of k'' q) [] (x # fs) (insert x (insert x F - {x}) - {x})"
    unfolding M'' by (rule rep_free[OF R4]) simp
  have d: "mq_data (mq_of ?k4 q) ! x = buf @ drop (length buf) (mq_data (mq_of k q) ! x)"
    using x(2) r by (simp add: M' mq_copy_in_def mq_rep_def slots_sized_def)
  have sz: "mq_msg_size (mq_of ?k4 q) = mq_msg_size (mq_of k q)"
    by (simp add: M' mq_count_down_def mq_unlink_slot_def Let_def)
  have "length (mq_data (mq_of k q) ! x) = n" using r x(2) n by (simp add: mq_rep_def slots_sized_def)
  then have "mq_recv_copy q x n ?k4 = buf @ drop (length buf) (mq_data (mq_of k q) ! x)"
    unfolding mq_recv_copy_def d sz using l n by simp
  then have "rt_mq_recv q n 0 k' = (Returned RT_EOK, Some (buf @ drop (length buf) (mq_data (mq_of k q) ! x)), k'')"
    by (simp add: rt_mq_recv_def rb k''_def mq_recv_end_def)
  moreover have "kinv k''" using W(1) by (simp add: k''_def mq_recv_end_def)
  moreover have "mq_rep (mq_of k'' q) [] (x # fs) F" using R'' xF by simp
  ultimately show ?thesis using s by blast
qed

text \<open>The loop of the reset: every turn moves one message to the free list.\<close>

lemma mq_empty_ends:
  "mq_rep (m\<lparr>mq_entry := word_of_nat (length ms)\<rparr>) ms fs F \<Longrightarrow>
   \<exists>m' fs'. mq_empty m = Some m' \<and> mq_rep (m'\<lparr>mq_entry := 0\<rparr>) [] fs' F \<and> mq_max m' = mq_max m"
proof (induction ms arbitrary: m fs)
  case Nil
  then have "mq_head m = None" by (simp add: mq_rep_def)
  then show ?case using Nil by (subst mq_empty.simps) auto
next
  case (Cons x ms)
  let ?m = "m\<lparr>mq_entry := word_of_nat (length (x # ms))\<rparr>"
  have h: "mq_head m = Some x" using Cons.prems by (simp add: mq_rep_def)
  let ?m1 = "mq_free_slot x (mq_unlink_slot x m)"
  have c: "0 < mq_entry ?m" "mq_entry ?m - 1 = word_of_nat (length ms)"
    using mq_repD(4)[OF Cons.prems] by (auto simp: word_gt_0)
  have e: "mq_free_slot x (mq_count_down (mq_unlink_slot x ?m)) = ?m1\<lparr>mq_entry := word_of_nat (length ms)\<rparr>"
    using c by (auto simp: mq_free_slot_def mq_count_down_def mq_unlink_slot_def Let_def)
  have "x \<notin> F" using Cons.prems mq_repD(1)[OF Cons.prems, of x] by auto
  then have "mq_rep (?m1\<lparr>mq_entry := word_of_nat (length ms)\<rparr>) ms (x # fs) F"
    using rep_free[OF rep_unlink[OF Cons.prems], of x] unfolding e by simp
  from Cons.IH[OF this] obtain m' fs' where "mq_empty ?m1 = Some m'" "mq_rep (m'\<lparr>mq_entry := 0\<rparr>) [] fs' F"
    "mq_max m' = mq_max ?m1" by blast
  then show ?case using h by (subst mq_empty.simps) (auto simp: mq_free_slot_def mq_unlink_slot_def Let_def)
qed

text \<open>A reset of a message queue comes to an end: all messages are thrown away, all their slots
  are free again, nobody waits any more, and slots that are in the hands of senders and
  receivers are left to them.\<close>

theorem reset_empties_the_queue:
  assumes k: "kinv k" and r: "mq_rep (mq_of k q) ms fs F"
  shows "\<exists>k' fs'. rt_mq_control q RT_IPC_CMD_RESET k = Some (RT_EOK, k') \<and> kinv k' \<and>
    mq_rep (mq_of k' q) [] fs' F \<and> length fs' = length ms + length fs \<and>
    waitq k' (MqQ q) = [] \<and> waitq k' (MqSendQ q) = []"
proof -
  from resume_both_state[OF k, of "MqQ q" "MqSendQ q"] obtain k1 where k1:
    "resume_both (MqQ q) (MqSendQ q) k = Some k1" "frame k k1" "waitq k1 (MqQ q) = []" "waitq k1 (MqSendQ q) = []" by blast
  have M: "mq_of k1 q = mq_of k q" "kinv k1" using k1(2) by (simp_all add: frame_def)
  have "word_of_nat (length ms) = mq_entry (mq_of k q)" using mq_repD(4)[OF r] by simp
  then have "mq_rep ((mq_of k1 q)\<lparr>mq_entry := word_of_nat (length ms)\<rparr>) ms fs F" using r M(1) by simp
  from mq_empty_ends[OF this] obtain m' fs' where m: "mq_empty (mq_of k1 q) = Some m'"
    "mq_rep (m'\<lparr>mq_entry := 0\<rparr>) [] fs' F" "mq_max m' = mq_max (mq_of k1 q)" by blast
  let ?k2 = "upd_mq q (\<lambda>_. m'\<lparr>mq_entry := 0\<rparr>) k1"
  have k2: "kinv ?k2" using M(2) by simp
  note S = rt_schedule_keeps[OF k2]
  have "rt_mq_control q RT_IPC_CMD_RESET k = Some (RT_EOK, rt_schedule ?k2)"
    using k1(1) m(1) by (simp add: rt_mq_control_def)
  moreover have "mq_of (rt_schedule ?k2) q = m'\<lparr>mq_entry := 0\<rparr>" using S(6) by simp
  moreover have "length fs' = length ms + length fs"
    using mq_repD(5)[OF m(2)] mq_repD(5)[OF r] m(3) M(1) by simp
  ultimately show ?thesis using m(2) kinv_rt_schedule[OF k2] k1(3,4) S(1) by auto
qed

section \<open>Instances\<close>

text \<open>A queue of two slots of four bytes.\<close>

definition msg_pool :: "u8 list" where "msg_pool = [0, 0, 0, 0, 1, 2, 3, 4, 0, 0, 0, 0, 5, 6, 7, 8]"

definition msg_system :: kern where
  "msg_system = snd (rt_mq_init 9 msg_pool 3 RT_IPC_FLAG_FIFO system0)"

lemma format_pool:
  "mq_format msg_pool 3 RT_IPC_FLAG_FIFO = \<lparr>mq_flag = RT_IPC_FLAG_FIFO, mq_next = [None, Some 0],
     mq_data = [[1, 2, 3, 4], [5, 6, 7, 8]], mq_msg_size = 4, mq_max = 2, mq_entry = 0, mq_head = None, mq_tail = None,
     mq_free = Some 1\<rparr>"
proof -
  have a: "ucast (RT_ALIGN 3) = (4 :: u16)" by (simp add: RT_ALIGN_def)
  have m: "(word_of_nat (length msg_pool div (unat (4::u16) + 4)) :: u16) = 2" by (simp add: msg_pool_def)
  have f: "free_slots (unat (2::u16)) [] None = ([None, Some 0], Some 1)"
  proof -
    have "unat (2::u16) = Suc (Suc 0)" by simp
    then show ?thesis by (simp only: free_slots.simps) simp
  qed
  have u: "[0..<unat (2::u16)] = [0, 1]" by (simp add: upt_rec)
  show ?thesis unfolding mq_format_def Let_def a m f u by (simp add: msg_pool_def)
qed

lemma msg_system: "kinv msg_system" "mq_rep (mq_of msg_system 9) [] [1, 0] {}" "unat (mq_msg_size (mq_of msg_system 9)) = 4"
  "mq_data (mq_of msg_system 9) ! 1 = [5, 6, 7, 8]"
proof -
  have I: "kinv msg_system" "mq_of msg_system 9 = mq_format msg_pool 3 RT_IPC_FLAG_FIFO"
    unfolding msg_system_def using mq_init_ok[OF system0(1)] by simp_all
  show "kinv msg_system" by (rule I)
  have "{..<2::nat} = {1, 0}" by auto
  then show "mq_rep (mq_of msg_system 9) [] [1, 0] {}" "unat (mq_msg_size (mq_of msg_system 9)) = 4"
    "mq_data (mq_of msg_system 9) ! 1 = [5, 6, 7, 8]"
    unfolding I format_pool by (simp_all add: mq_rep_def slots_sized_def slots_split_def)
qed

lemma message_queue_refines_a_queue_witness:
  "kinv msg_system \<and> mq_messages (mq_of msg_system 9) = []"
  using message_queue_refines_a_queue[OF system0(1), of RT_IPC_FLAG_FIFO 9 msg_pool 3, OF _ flow_reach.start]
  by (simp add: msg_system_def)

lemma message_sent_is_received_witness:
  "\<exists>k' k''. rt_mq_send 9 [10, 11] msg_system = (Returned RT_EOK, k') \<and>
     rt_mq_recv 9 4 0 k' = (Returned RT_EOK, Some [10, 11, 7, 8], k'')"
proof -
  have l: "length [10, 11 :: u8] \<le> unat (mq_msg_size (mq_of msg_system 9))" "4 = unat (mq_msg_size (mq_of msg_system 9))"
    using msg_system(3) by simp_all
  have "[10, 11] @ drop (length [10, 11 :: u8]) (mq_data (mq_of msg_system 9) ! 1) = [10, 11, 7, 8]"
    unfolding msg_system(4) by simp
  then show ?thesis using message_sent_is_received[OF msg_system(1,2) l] by metis
qed

lemma reset_empties_the_queue_witness:
  "\<exists>k' fs'. rt_mq_control 9 RT_IPC_CMD_RESET msg_system = Some (RT_EOK, k') \<and> length fs' = 2 \<and>
     mq_rep (mq_of k' 9) [] fs' {}"
proof -
  have "length ([] :: nat list) + length [1, 0 :: nat] = 2" by simp
  then show ?thesis using reset_empties_the_queue[OF msg_system(1,2)] by metis
qed

end
