(* ===== verification/KRun.thy ===== *)
theory KRun
  imports KMail MbRtu
begin

text \<open>
  The kernel as a whole: the calls of threads, the tick interrupt with the timer of the
  Modbus slave, and the port of the Modbus stack to the kernel (port/portevent.c and
  port/porttimer.c of the freemodbus package) on the kernel's own events and timers.  An
  inductive relation has one rule for each call; its reachable states are shown to keep the
  invariants of all parts, so that no assertion fails, the tick interrupt always returns and
  some thread always runs.
\<close>

section \<open>Steps that disturb neither the clock nor the threads that can run\<close>

definition gentle :: "kern \<Rightarrow> kern \<Rightarrow> bool" where
  "gentle k k' \<longleftrightarrow> kinv k' \<and> calm k k' \<and> lively k k'"

lemma gentleD: "gentle k k' \<Longrightarrow> kinv k'" "gentle k k' \<Longrightarrow> calm k k'" "gentle k k' \<Longrightarrow> lively k k'"
  by (simp_all add: gentle_def)

lemma gentle_refl: "kinv k \<Longrightarrow> gentle k k" by (simp add: gentle_def)

lemma gentle_trans [trans]: "gentle k k' \<Longrightarrow> gentle k' k'' \<Longrightarrow> gentle k k''"
  by (auto simp: gentle_def intro: calm_trans lively_trans)

lemma gentle_schedule: "kinv k \<Longrightarrow> gentle k (rt_schedule k)"
  by (simp add: gentle_def kinv_rt_schedule calm_schedule lively_schedule)

lemma gentle_same:
  assumes "kinv k'" "timers k' = timers k" "timer_list k' = timer_list k" "rt_tick k' = rt_tick k"
    "stat_of k' = stat_of k" "rt_current_thread k' = rt_current_thread k"
    "rt_scheduler_lock_nest k' = rt_scheduler_lock_nest k"
  shows "gentle k k'"
  using assms calm_same[of k' k] lively_same[of k' k] by (simp add: gentle_def)

lemma stat_dormant: "stat_of k t = RT_THREAD_INIT \<Longrightarrow> stat_of k t \<noteq> RT_THREAD_SUSPEND" by simp

lemma gentle_resume:
  assumes k: "kinv k" shows "gentle k (snd (rt_thread_resume t k))"
proof (cases "stat_of k t = RT_THREAD_SUSPEND")
  case True
  note R = resume_state[OF k True]
  have "lively k (snd (rt_thread_resume t k))" unfolding lively_def awake_def R(2,6,7) using True by auto
  moreover have "calm k (snd (rt_thread_resume t k))"
    unfolding calm_def using R(8,9,10,11) by (auto simp: removeAll_filter_not_eq)
  ultimately show ?thesis using R(1) by (simp add: gentle_def)
next
  case False
  then show ?thesis using gentle_refl[OF k] by (simp add: rt_thread_resume_def)
qed

lemma lock_upd_sel [simp]:
  "rt_scheduler_lock_nest (upd_sem s f k) = rt_scheduler_lock_nest k"
  "rt_scheduler_lock_nest (upd_mutex x g k) = rt_scheduler_lock_nest k"
  "rt_scheduler_lock_nest (upd_event e h k) = rt_scheduler_lock_nest k"
  "rt_scheduler_lock_nest (upd_mb m j k) = rt_scheduler_lock_nest k"
  by (simp_all add: upd_sem_def upd_mutex_def upd_event_def upd_mb_def)

lemma gentle_upd:
  assumes "kinv k"
  shows "gentle k (upd_sem s f k)" "gentle k (upd_mutex x g k)" "gentle k (upd_event e h k)"
    "gentle k (upd_mb m j k)" "gentle k (set_error t r k)"
    "gentle k (upd_thread t (\<lambda>c. c\<lparr>event_set := es\<rparr>) k)"
    "gentle k (upd_thread t (\<lambda>c. c\<lparr>event_set := es, event_info := ei\<rparr>) k)"
  using assms kinv_upd_same[OF assms]
  by (auto intro!: gentle_same simp: stat_of_def fun_eq_iff)

lemma gentle_list_resume: "kinv k \<Longrightarrow> gentle k (ipc_list_resume q k)"
  by (simp add: ipc_list_resume_def gentle_resume)

lemma gentle_wake_one: "kinv k \<Longrightarrow> gentle k (wake_one q k)"
  using gentle_list_resume gentle_schedule[OF gentleD(1)] gentle_trans
  by (metis gentle_refl wake_one_def)

lemma gentle_resume_all:
  "kinv k \<Longrightarrow> ipc_list_resume_all q k = Some k' \<Longrightarrow> gentle k k'"
proof (induction "waitq k q" arbitrary: k)
  case Nil
  then show ?case by (subst (asm) ipc_list_resume_all.simps) (auto simp: gentle_refl)
next
  case (Cons t ts)
  let ?k1 = "upd_thread t (\<lambda>c. c\<lparr>t_error := - RT_ERROR\<rparr>) k"
  let ?k2 = "snd (rt_thread_resume t ?k1)"
  have k1: "kinv ?k1" "waitq ?k1 q = t # ts" using Cons.prems(1) Cons.hyps(2) by (simp_all add: kinv_set_error)
  have g: "gentle k ?k1" using gentle_upd(5)[OF Cons.prems(1), of t] by (simp add: set_error_def)
  have g2: "gentle ?k1 ?k2" by (rule gentle_resume[OF k1(1)])
  have "?k2 = ipc_list_resume q ?k1" using k1(2) by (simp add: ipc_list_resume_def)
  then have "waitq ?k2 q = ts" using list_resume_state(2)[OF k1] by simp
  moreover have "ipc_list_resume_all q ?k2 = Some k'"
    using Cons.prems(2) Cons.hyps(2)[symmetric] by (subst (asm) ipc_list_resume_all.simps) simp
  ultimately have "gentle ?k2 k'" using Cons.hyps(1) gentleD(1)[OF g2] by blast
  then show ?case using g g2 gentle_trans by blast
qed

lemma gentle_change_priority:
  assumes k: "kinv k" and p: "unat p < 32" shows "gentle k (change_priority t p k)"
proof (rule gentle_same)
  show "kinv (change_priority t p k)" by (rule kinv_change_priority[OF assms])
  show "stat_of (change_priority t p k) = stat_of k" using change_priority_state(2)[OF assms] by auto
  show "rt_current_thread (change_priority t p k) = rt_current_thread k"
    by (rule change_priority_state(3)[OF assms])
qed (auto simp: change_priority_def Let_def)

text \<open>What waking threads does to the timers of the application and to the mailboxes.\<close>

definition user_same :: "kern \<Rightarrow> kern \<Rightarrow> bool" where
  "user_same k k' \<longleftrightarrow> mailboxes (ipc k') = mailboxes (ipc k) \<and>
     (\<forall>n. timers k' (UserTimer n) = timers k (UserTimer n)) \<and>
     ((\<forall>t. ThreadTimer t \<notin> set (fired k)) \<longrightarrow> fired k' = fired k)"

lemma user_same_trans: "user_same k k' \<Longrightarrow> user_same k' k'' \<Longrightarrow> user_same k k''"
  by (auto simp: user_same_def)

lemma user_same_resume: "kinv k \<Longrightarrow> user_same k (snd (rt_thread_resume t k))"
proof (cases "stat_of k t = RT_THREAD_SUSPEND")
  case True
  assume k: "kinv k"
  show ?thesis using resume_state(5,10,12)[OF k True] by (simp add: user_same_def)
qed (simp add: user_same_def rt_thread_resume_def)

lemma user_same_schedule: "kinv k \<Longrightarrow> user_same k (rt_schedule k)"
  by (simp add: user_same_def rt_schedule_keeps)

lemma user_same_upd:
  "user_same k (upd_event e h k)" "user_same k (upd_thread t f k)"
  by (simp_all add: user_same_def upd_event_def)

text \<open>A scan of the threads that wait for events, from the kernel's invariant alone.\<close>

lemma event_scan_gentle:
  "kinv k \<Longrightarrow> event_scan e ts need k = (v, need', k') \<Longrightarrow> gentle k k' \<and> user_same k k'"
proof (induction ts arbitrary: k need)
  case Nil
  then show ?case by (auto simp: gentle_refl user_same_def)
next
  case (Cons t ts)
  let ?opt = "event_info (threads k t)" let ?want = "event_set (threads k t)"
  show ?case
  proof (cases "event_met ?opt ?want (ev_set k e) = Some True")
    case False
    then show ?thesis
      using Cons.IH[OF Cons.prems(1)] Cons.prems(2) gentle_refl[OF Cons.prems(1)]
      by (auto simp: Let_def user_same_def split: option.splits bool.splits)
  next
    case True
    define k1 where "k1 = (if ?opt AND RT_EVENT_FLAG_AND = 0
      then upd_thread t (\<lambda>c. c\<lparr>event_set := ?want AND ev_set k e\<rparr>) k else k)"
    define k2 where "k2 = (if ?opt AND RT_EVENT_FLAG_CLEAR \<noteq> 0
      then upd_event e (\<lambda>x. x\<lparr>e_set := e_set x AND NOT (event_set (threads k1 t))\<rparr>) k1 else k1)"
    let ?k3 = "snd (rt_thread_resume t k2)"
    have e: "event_scan e ts True ?k3 = (v, need', k')"
      using Cons.prems(2) True unfolding k1_def k2_def by (simp add: Let_def cong: if_cong)
    have g1: "gentle k k1" "user_same k k1"
      unfolding k1_def using gentle_upd(6)[OF Cons.prems(1)] gentle_refl[OF Cons.prems(1)] user_same_upd
      by (auto simp: user_same_def)
    have g2: "gentle k1 k2" "user_same k1 k2"
      unfolding k2_def using gentle_upd(3)[OF gentleD(1)[OF g1(1)]] gentle_refl[OF gentleD(1)[OF g1(1)]] user_same_upd
      by (auto simp: user_same_def)
    note k2 = gentleD(1)[OF g2(1)]
    have g3: "gentle k2 ?k3" "user_same k2 ?k3" by (rule gentle_resume[OF k2], rule user_same_resume[OF k2])
    have "gentle ?k3 k'" "user_same ?k3 k'" using Cons.IH[OF gentleD(1)[OF g3(1)] e] by simp_all
    then show ?thesis using g1 g2 g3 gentle_trans user_same_trans by blast
  qed
qed

lemma event_send_gentle:
  assumes k: "kinv k"
  shows "gentle k (snd (rt_event_send e bits k))" "user_same k (snd (rt_event_send e bits k))"
proof -
  let ?k1 = "upd_event e (\<lambda>x. x\<lparr>e_set := e_set x OR bits\<rparr>) k"
  obtain v need k2 where s: "event_scan e (waitq k (EventQ e)) False ?k1 = (v, need, k2)"
    by (rule prod_cases3)
  have g: "gentle k ?k1" by (rule gentle_upd(3)[OF k])
  note S = event_scan_gentle[OF gentleD(1)[OF g] s]
  have G: "gentle k k2" "user_same k k2"
    using S g user_same_upd(1)[of k e] gentle_trans user_same_trans by blast+
  note k2 = gentleD(1)[OF G(1)]
  have e: "snd (rt_event_send e bits k) = k \<or> snd (rt_event_send e bits k) = k2 \<or>
      snd (rt_event_send e bits k) = rt_schedule k2"
    unfolding rt_event_send_def Let_def by (simp add: s)
  moreover have "gentle k (rt_schedule k2)" "user_same k (rt_schedule k2)"
    using gentle_trans[OF G(1) gentle_schedule[OF k2]] user_same_trans[OF G(2) user_same_schedule[OF k2]] .
  moreover have "user_same k k" by (simp add: user_same_def)
  ultimately show "gentle k (snd (rt_event_send e bits k))" "user_same k (snd (rt_event_send e bits k))"
    using G gentle_refl[OF k] by (elim disjE; simp)+
qed

section \<open>The timer of the Modbus slave\<close>

text \<open>\<open>timer_timeout_ind\<close> of porttimer.c, bound to the slave's timer: the receiver's state
  machine posts \<open>ev\<close>, if its state asks for an event, and stops the timer.\<close>

definition SLAVE_TIMER :: tmr where "SLAVE_TIMER = UserTimer 0"

definition ev_code :: "eMBEventType \<Rightarrow> u32" where
  "ev_code ev = (case ev of EV_READY \<Rightarrow> 1 | EV_FRAME_RECEIVED \<Rightarrow> 2 | EV_EXECUTE \<Rightarrow> 4 | EV_FRAME_SENT \<Rightarrow> 8)"

definition os_event_post :: "nat \<Rightarrow> eMBEventType \<Rightarrow> kern \<Rightarrow> kern" where
  "os_event_post e ev k = snd (rt_event_send e (ev_code ev) k)"

definition timers_disable :: "kern \<Rightarrow> kern" where
  "timers_disable k = snd (rt_timer_stop SLAVE_TIMER k)"

definition timer_timeout_ind :: "nat \<Rightarrow> eMBEventType option \<Rightarrow> nat \<Rightarrow> kern \<Rightarrow> kern" where
  "timer_timeout_ind e ev n k =
     timers_disable (case ev of None \<Rightarrow> k | Some ev \<Rightarrow> os_event_post e ev k)"

lemma gentle_timer_stop: "kinv k \<Longrightarrow> gentle k (snd (rt_timer_stop m k))"
proof -
  assume k: "kinv k"
  note S = rt_timer_stop_state(1)[of k m]
  have l: "timer_list (snd (rt_timer_stop m k)) = filter (\<lambda>n. n \<noteq> m) (timer_list k)"
    using rt_timer_stop_state(2)[OF k] by (auto simp: removeAll_filter_not_eq intro: filter_cong)
  have "calm k (snd (rt_timer_stop m k))"
    unfolding calm_def l using same_threadsD(4)[OF S] by (auto simp: rt_timer_stop_def)
  then show ?thesis using kinv_timer_stop[OF k] lively_same_threads[OF S] by (simp add: gentle_def)
qed

lemma timeout_ind_gentle:
  assumes k: "kinv k"
  shows "gentle k (timer_timeout_ind e ev n k)"
    "fired k = [UserTimer j] \<Longrightarrow> fired (timer_timeout_ind e ev n k) \<noteq> [] \<Longrightarrow>
       fired (timer_timeout_ind e ev n k) = fired k \<and>
       timers (timer_timeout_ind e ev n k) (UserTimer j) = timers k (UserTimer j)"
proof -
  define k1 where "k1 = (case ev of None \<Rightarrow> k | Some ev \<Rightarrow> os_event_post e ev k)"
  have g: "gentle k k1" "user_same k k1"
    using event_send_gentle[OF k] gentle_refl[OF k]
    by (auto simp: k1_def os_event_post_def user_same_def split: option.split)
  have e: "timer_timeout_ind e ev n k = snd (rt_timer_stop SLAVE_TIMER k1)"
    by (simp add: timer_timeout_ind_def timers_disable_def k1_def)
  show "gentle k (timer_timeout_ind e ev n k)"
    unfolding e using g(1) gentle_timer_stop[OF gentleD(1)[OF g(1)]] gentle_trans by blast
  assume f: "fired k = [UserTimer j]" "fired (timer_timeout_ind e ev n k) \<noteq> []"
  have f1: "fired k1 = [UserTimer j]" "timers k1 (UserTimer j) = timers k (UserTimer j)"
    using g(2) f(1) by (simp_all add: user_same_def)
  show "fired (timer_timeout_ind e ev n k) = fired k \<and>
       timers (timer_timeout_ind e ev n k) (UserTimer j) = timers k (UserTimer j)"
    using f1 f unfolding e rt_timer_stop_def SLAVE_TIMER_def by (cases "j = 0") (auto split: if_splits)
qed

section \<open>The state between two steps\<close>

text \<open>\<open>i\<close> is the idle thread.\<close>

definition settled :: "nat \<Rightarrow> kern \<Rightarrow> bool" where
  "settled i k \<longleftrightarrow> stat_of k (rt_current_thread k) = RT_THREAD_RUNNING \<and> awake k i \<and>
     stat_of k 0 = RT_THREAD_INIT"

definition live :: "nat \<Rightarrow> kern \<Rightarrow> bool" where
  "live i k \<longleftrightarrow> kern_ok k \<and> settled i k"

lemma liveD:
  assumes "live i k"
  shows "kern_ok k" "kinv k" "objects_ok k" "settled i k"
    "stat_of k (rt_current_thread k) = RT_THREAD_RUNNING" "awake k i" "rt_current_thread k \<noteq> 0"
proof -
  show "kern_ok k" "settled i k" using assms by (simp_all add: live_def)
  then show "kinv k" "objects_ok k" "stat_of k (rt_current_thread k) = RT_THREAD_RUNNING" "awake k i"
    by (simp_all add: kern_okD settled_def)
  show "rt_current_thread k \<noteq> 0"
  proof
    assume "rt_current_thread k = 0"
    then show False using assms by (auto simp: live_def settled_def stat_defs)
  qed
qed

lemma settled_lively: "settled i k \<Longrightarrow> lively k k' \<Longrightarrow> settled i k'"
  by (auto simp: settled_def lively_def)

lemma live_frame: "live i k \<Longrightarrow> frame k k' \<Longrightarrow> lively k k' \<Longrightarrow> live i k'"
  using frame_ok settled_lively by (auto simp: live_def)

text \<open>The kernel's contract with the functions its timers call, discharged for the slave's.\<close>

lemma mails_ok_same: "user_same k k' \<Longrightarrow> mails_ok k' = mails_ok k"
  by (rule mails_same) (simp add: user_same_def)

lemma os_event_post_ok: "kern_ok k \<Longrightarrow> kern_ok (os_event_post e ev k)"
  using event_send_ok[of k e "ev_code ev"] mails_ok_same[OF event_send_gentle(2), of k e "ev_code ev"]
  by (simp add: kern_ok_def os_event_post_def)

lemma timeout_ind_ok:
  assumes k: "kern_ok k" shows "kern_ok (timer_timeout_ind e ev n k)"
proof -
  define k1 where "k1 = (case ev of None \<Rightarrow> k | Some ev \<Rightarrow> os_event_post e ev k)"
  have k1: "kern_ok k1" using k os_event_post_ok by (auto simp: k1_def split: option.split)
  have "frame k1 (snd (rt_timer_stop SLAVE_TIMER k1))"
    by (rule frame_threads[OF rt_timer_stop_state(1) kinv_timer_stop[OF kern_okD(1)[OF k1]]])
  then show ?thesis using frame_ok k1 by (simp add: timer_timeout_ind_def timers_disable_def k1_def)
qed

interpretation slave_timer: timeout_handler "timer_timeout_ind e ev" "live i" for e ev i
proof
  fix k k' n
  show "live i k \<Longrightarrow> kinv k" by (rule liveD(2))
  show "live i k \<Longrightarrow> frame k k' \<Longrightarrow> lively k k' \<Longrightarrow> live i k'" by (rule live_frame)
  assume l: "live i k" and f: "fired k = [UserTimer n]"
  note G = timeout_ind_gentle[OF liveD(2)[OF l], where e = e and ev = ev and n = n]
  show "live i (timer_timeout_ind e ev n k)"
    using timeout_ind_ok[OF liveD(1)[OF l]] settled_lively[OF liveD(4)[OF l] gentleD(3)[OF G(1)]]
    by (simp add: live_def)
  show "calm k (timer_timeout_ind e ev n k)" by (rule gentleD(2)[OF G(1)])
  show "fired (timer_timeout_ind e ev n k) \<noteq> [] \<Longrightarrow> fired (timer_timeout_ind e ev n k) = fired k \<and>
      timers (timer_timeout_ind e ev n k) (UserTimer n) = timers k (UserTimer n)"
    by (rule G(2)[OF f])
qed

section \<open>Calls that do not block\<close>

lemma gentle_boxes_schedule:
  assumes "gentle k k'" "mailboxes (ipc k') = mailboxes (ipc k)"
  shows "gentle k (rt_schedule k')" "mailboxes (ipc (rt_schedule k')) = mailboxes (ipc k)"
  using gentle_trans[OF assms(1) gentle_schedule] gentleD(1)[OF assms(1)] assms(2) by (simp_all add: rt_schedule_keeps)

lemma boxes_upd [simp]:
  "mailboxes (ipc (upd_sem s f k)) = mailboxes (ipc k)" "mailboxes (ipc (upd_mutex x g k)) = mailboxes (ipc k)"
  "mailboxes (ipc (upd_event e h k)) = mailboxes (ipc k)"
  by (simp_all add: upd_sem_def upd_mutex_def upd_event_def)

lemma resume_boxes [simp]: "kinv k \<Longrightarrow> mailboxes (ipc (snd (rt_thread_resume t k))) = mailboxes (ipc k)"
  using user_same_resume[of k t] by (simp add: user_same_def)

lemma sem_release_gentle:
  assumes k: "kinv k"
  shows "gentle k (snd (rt_sem_release s k))" "mailboxes (ipc (snd (rt_sem_release s k))) = mailboxes (ipc k)"
  using gentle_boxes_schedule[OF gentle_list_resume[OF k], of "SemQ s"] gentle_upd(1)[OF k] gentle_refl[OF k] k
  by (auto simp: rt_sem_release_def ipc_list_resume_def)

lemma resume_all_boxes:
  assumes "kinv k" "ipc_list_resume_all q k = Some k'"
  shows "gentle k k'" "mailboxes (ipc k') = mailboxes (ipc k)"
  using gentle_resume_all[OF assms] resume_all_state[OF assms(1), of q] assms(2) by (auto simp: frame_def)

lemma sem_control_gentle:
  assumes k: "kinv k" and e: "rt_sem_control s cmd arg k = Some (r, k')"
  shows "gentle k k'" "mailboxes (ipc k') = mailboxes (ipc k)"
proof -
  consider "k' = k" | k1 where "ipc_list_resume_all (SemQ s) k = Some k1"
      "k' = rt_schedule (upd_sem s (\<lambda>x. x\<lparr>s_value := ucast arg\<rparr>) k1)"
    using e by (auto simp: rt_sem_control_def split: if_splits)
  then have "gentle k k' \<and> mailboxes (ipc k') = mailboxes (ipc k)"
  proof cases
    case (2 k1)
    note R = resume_all_boxes[OF k 2(1)]
    have "gentle k (upd_sem s (\<lambda>x. x\<lparr>s_value := ucast arg\<rparr>) k1)"
      using gentle_trans[OF R(1) gentle_upd(1)[OF gentleD(1)[OF R(1)]]] .
    from gentle_boxes_schedule[OF this] show ?thesis using R(2) 2(2) by simp
  qed (use gentle_refl[OF k] in simp)
  then show "gentle k k'" "mailboxes (ipc k') = mailboxes (ipc k)" by simp_all
qed

lemma event_control_gentle:
  assumes k: "kinv k" and e: "rt_event_control s cmd arg k = Some (r, k')"
  shows "gentle k k'" "mailboxes (ipc k') = mailboxes (ipc k)"
proof -
  consider "k' = k" | k1 where "ipc_list_resume_all (EventQ s) k = Some k1"
      "k' = rt_schedule (upd_event s (\<lambda>x. x\<lparr>e_set := 0\<rparr>) k1)"
    using e by (auto simp: rt_event_control_def split: if_splits)
  then have "gentle k k' \<and> mailboxes (ipc k') = mailboxes (ipc k)"
  proof cases
    case (2 k1)
    note R = resume_all_boxes[OF k 2(1)]
    have "gentle k (upd_event s (\<lambda>x. x\<lparr>e_set := 0\<rparr>) k1)"
      using gentle_trans[OF R(1) gentle_upd(3)[OF gentleD(1)[OF R(1)]]] .
    from gentle_boxes_schedule[OF this] show ?thesis using R(2) 2(2) by simp
  qed (use gentle_refl[OF k] in simp)
  then show "gentle k k'" "mailboxes (ipc k') = mailboxes (ipc k)" by simp_all
qed

lemma change_priority_boxes:
  assumes "kinv k" "unat p < 32"
  shows "gentle k (change_priority t p k)" "mailboxes (ipc (change_priority t p k)) = mailboxes (ipc k)"
  using gentle_change_priority[OF assms] change_priority_state(1)[OF assms] by (simp_all add: frame_def)

lemma mutex_release_gentle:
  assumes k: "kinv k" and o: "objects_ok k" and c: "rt_current_thread k \<noteq> 0"
  shows "gentle k (snd (rt_mutex_release x k))"
    "mailboxes (ipc (snd (rt_mutex_release x k))) = mailboxes (ipc k)"
proof -
  let ?t = "rt_current_thread k"
  let ?G = "\<lambda>k'. gentle k k' \<and> mailboxes (ipc k') = mailboxes (ipc k)"
  have step: "?G (upd_mutex x f j)" if "?G j" for f j
    using that gentle_trans[of k j] gentle_upd(2)[OF gentleD(1)[of k j]] by auto
  have sched: "?G (rt_schedule j)" if "?G j" for j using that gentle_boxes_schedule by blast
  have res: "?G (ipc_list_resume (MutexQ x) j)" if "?G j" for j
    using that gentle_trans[of k j] gentle_list_resume[OF gentleD(1)[of k j]] gentleD(1)[of k j]
    by (auto simp: ipc_list_resume_def)
  have "?G (snd (rt_mutex_release x k))"
  proof (cases "?t = m_owner (mutex_of k x)")
    case False
    then show ?thesis using gentle_upd(5)[OF k] by (simp add: rt_mutex_release_def Let_def rt_thread_self_def)
  next
    case True
    have p: "unat (original_priority (mutex_of k x)) < 32"
      using objects_okD(2)[OF o, of x] True c by (auto simp: mutex_ok_def split: if_splits)
    let ?k1 = "upd_mutex x (\<lambda>m. m\<lparr>m_hold := m_hold m - 1\<rparr>) k"
    have g1: "?G ?k1" by (rule step) (use gentle_refl[OF k] in simp)
    have op: "original_priority (mutex_of ?k1 x) = original_priority (mutex_of k x)" by simp
    have g2: "?G (change_priority ?t (original_priority (mutex_of k x)) ?k1)"
      using g1 change_priority_boxes[OF gentleD(1) p, of k ?k1 ?t] gentle_trans by auto
    have pass: "?G (snd (mutex_pass x j))" if "?G j" for j
      using step[OF step[OF that]] step[OF that] res sched by (simp add: mutex_pass_def Let_def)
    have free: "?G (snd (mutex_free x j))" if "?G j" for j
      using step[OF that] that by (simp add: mutex_free_def)
    show ?thesis
      using True g1 pass[OF g1] free[OF g1] pass[OF g2] free[OF g2]
      by (simp add: rt_mutex_release_def Let_def rt_thread_self_def op)
  qed
  then show "gentle k (snd (rt_mutex_release x k))"
    "mailboxes (ipc (snd (rt_mutex_release x k))) = mailboxes (ipc k)" by simp_all
qed

lemma gentle_mb_wake: "kinv k \<Longrightarrow> gentle k (wake_one q (upd_mb m f k))"
  using gentle_trans[OF gentle_upd(4) gentle_wake_one[OF gentleD(1)[OF gentle_upd(4)]]] by blast

lemma mb_urgent_gentle: "kern_ok k \<Longrightarrow> gentle k (snd (rt_mb_urgent m v k))"
  using mb_urgent_state[OF kern_okD(4)] gentle_mb_wake kern_okD(1) gentle_refl
  by (cases "length (mails_of k m) = box_size k m") (auto simp: rt_mb_urgent_def mails_full)

lemma mb_deliver_gentle:
  "kern_ok k \<Longrightarrow> mb_entry (mb_of k m) \<noteq> mb_size (mb_of k m) \<Longrightarrow> gentle k (snd (mb_deliver m v k))"
  using mb_deliver_state[OF kern_okD(1) kern_okD(4)] gentle_mb_wake kern_okD(1) by simp

lemma mb_collect_gentle:
  "kern_ok k \<Longrightarrow> mails_of k m \<noteq> [] \<Longrightarrow> gentle k (snd (snd (mb_collect m k)))"
  using mb_collect_state[OF kern_okD(4)] gentle_mb_wake kern_okD(1) by simp

lemma mb_control_gentle:
  assumes k: "kern_ok k" and e: "rt_mb_control m cmd k = Some (r, k')" shows "gentle k k'"
proof -
  note K = kern_okD(1)[OF k]
  consider "k' = k" | k1 k2 where "ipc_list_resume_all (MbQ m) k = Some k1" "ipc_list_resume_all (MbSendQ m) k1 = Some k2"
      "k' = rt_schedule (upd_mb m (\<lambda>b. b\<lparr>mb_entry := 0, mb_in := 0, mb_out := 0\<rparr>) k2)"
    using e by (auto simp: rt_mb_control_def resume_both_def bind_eq_Some_conv split: if_splits)
  then show ?thesis
  proof cases
    case (2 k1 k2)
    have g1: "gentle k k1" by (rule gentle_resume_all[OF K 2(1)])
    have g2: "gentle k1 k2" by (rule gentle_resume_all[OF gentleD(1)[OF g1] 2(2)])
    note g3 = gentle_upd(4)[OF gentleD(1)[OF g2], of m "\<lambda>b. b\<lparr>mb_entry := 0, mb_in := 0, mb_out := 0\<rparr>"]
    note g4 = gentle_schedule[OF gentleD(1)[OF g3]]
    from g1 g2 g3 g4 show ?thesis unfolding 2(3) by (blast intro: gentle_trans)
  qed (use gentle_refl[OF K] in simp)
qed

section \<open>Calls that block\<close>

text \<open>The idle thread never waits, nobody waits while the scheduler is locked, and a timeout
  ends within the clock's horizon.\<close>

definition may_wait :: "nat \<Rightarrow> u32 \<Rightarrow> kern \<Rightarrow> bool" where
  "may_wait i time k \<longleftrightarrow> rt_current_thread k \<noteq> i \<and> rt_scheduler_lock_nest k = 0 \<and> sint time \<le> HORIZON"

definition sane :: "nat \<Rightarrow> kern \<Rightarrow> bool" where
  "sane i k \<longleftrightarrow> live i k \<and> clock_ok 0 k"

lemma saneD:
  assumes "sane i k"
  shows "kern_ok k" "kinv k" "objects_ok k" "settled i k" "clock_ok 0 k"
    "stat_of k (rt_current_thread k) = RT_THREAD_RUNNING" "awake k i" "rt_current_thread k \<noteq> 0"
  using assms liveD[of i k] by (simp_all add: sane_def)

lemma sane_gentle: "sane i k \<Longrightarrow> gentle k k' \<Longrightarrow> kern_ok k' \<Longrightarrow> sane i k'"
proof -
  assume s: "sane i k" and g: "gentle k k'" and o: "kern_ok k'"
  have "settled i k'" by (rule settled_lively[OF saneD(4)[OF s] gentleD(3)[OF g]])
  moreover have "clock_ok 0 k'" by (rule clock_ok_calm[OF saneD(5)[OF s] gentleD(2)[OF g]])
  ultimately show ?thesis using o by (simp add: sane_def live_def)
qed

lemma upd_init_tick:
  assumes k: "kinv k" and m: "m \<notin> set (timer_list k)"
  shows "kinv (upd_timer m f k)" "clock_ok lo k \<Longrightarrow>
      (\<And>c. bit (tm_flag (f c)) (Suc 0) \<Longrightarrow> bit (tm_flag c) (Suc 0)) \<Longrightarrow> clock_ok lo (upd_timer m f k)"
proof -
  show "kinv (upd_timer m f k)"
    by (rule kinv_same[OF _ k])
      (use k m in \<open>auto simp: same_threads_def upd_timer_def kinv_but_def timers_ok_def stat_of_def\<close>)
  assume c: "clock_ok lo k" and f: "\<And>c. bit (tm_flag (f c)) (Suc 0) \<Longrightarrow> bit (tm_flag c) (Suc 0)"
  show "clock_ok lo (upd_timer m f k)"
  proof (rule clock_ok_filter[OF c, of _ "\<lambda>_. True"])
    show "timers (upd_timer m f k) n = timers k n" if "n \<in> set (timer_list (upd_timer m f k))" for n
    proof -
      have "n \<noteq> m" using that m by auto
      then show ?thesis by simp
    qed
    show "\<not> bit (tm_flag (timers (upd_timer m f k) (ThreadTimer t))) (Suc 0)"
      if "\<not> bit (tm_flag (timers k (ThreadTimer t))) (Suc 0)" for t
      using that f by (cases "ThreadTimer t = m") auto
  qed simp_all
qed

lemma start_timeout_clock:
  assumes k: "kinv k" and c: "clock_ok 0 k" and m: "ThreadTimer t \<notin> set (timer_list k)" and h: "sint time \<le> HORIZON"
  shows "clock_ok 0 (start_timeout t time k)"
proof (cases "0 < sint time")
  case True
  let ?k1 = "upd_timer (ThreadTimer t) (\<lambda>c. c\<lparr>init_tick := time\<rparr>) k"
  have c1: "clock_ok 0 ?k1" by (rule upd_init_tick(2)[OF k m c]) simp
  have u: "uint time = sint time" "0 \<le> sint time" using True uint_of_sint[of time] by simp_all
  have "clock_ok 0 (rt_timer_start (ThreadTimer t) ?k1)" by (rule clock_ok_start[OF c1]) (use u h in auto)
  then show ?thesis using True by (simp add: start_timeout_def rt_timer_control_def)
qed (use c in \<open>simp add: start_timeout_def\<close>)

text \<open>After a call that made the running thread wait, another thread runs.\<close>

lemma sane_blocked:
  assumes k: "kinv k'" and c: "clock_ok 0 k'" and n: "rt_scheduler_lock_nest k' = 0" and a: "awake k' i"
    and z: "stat_of k' 0 = RT_THREAD_INIT" and o: "kern_ok (rt_schedule k')"
  shows "sane i (rt_schedule k')"
proof -
  note L = lively_schedule[OF k]
  have "stat_of (rt_schedule k') (rt_current_thread (rt_schedule k')) = RT_THREAD_RUNNING"
    by (rule rt_schedule_runs[OF k n a])
  moreover have "awake (rt_schedule k') i" "stat_of (rt_schedule k') 0 = RT_THREAD_INIT"
    using L a z by (simp_all add: lively_def)
  ultimately show ?thesis using o clock_ok_schedule[OF k c] by (simp add: sane_def live_def settled_def)
qed

lemma wait_on_sane:
  assumes s: "sane i k" and w: "may_wait i time k" and g: "ipc_flag g" and o: "kern_ok (wait_on q g time k)"
  shows "sane i (wait_on q g time k)"
proof -
  let ?t = "rt_current_thread k"
  let ?k1 = "ipc_list_suspend q ?t g k" let ?k2 = "start_timeout ?t time ?k1"
  note S = saneD[OF s]
  note L = list_suspend_state[OF S(2) refl S(6) g]
  have s1: "stat_of ?k1 ?t = RT_THREAD_SUSPEND" using L(3) by simp
  note T = start_timeout_state[OF L(1) s1, of time] note D = same_threadsD[OF T(2)]
  have nt: "ThreadTimer ?t \<notin> set (timer_list k)" using timer_not_listed[OF S(2), of ?t] S(6) by simp
  have o1: "n = ThreadTimer u \<Longrightarrow> \<not> bit (tm_flag (timers ?k1 n)) (Suc 0)" for n u
    using clock_okD(3)[OF S(5), of u] L(14)[of q n] by auto
  have "clock_ok 0 ?k1"
  proof (rule clock_ok_filter[OF S(5), of _ "\<lambda>_. True"])
    show "timers ?k1 n = timers k n" if "n \<in> set (timer_list ?k1)" for n
    proof -
      have "n \<noteq> ThreadTimer ?t" using that nt L(8) by auto
      then show ?thesis by (rule L(13))
    qed
  qed (use L(7,8) o1 in auto)
  then have c2: "clock_ok 0 ?k2" by (rule start_timeout_clock[OF L(1)]) (use L(8) nt w in \<open>simp_all add: may_wait_def\<close>)
  have st: "stat_of ?k2 u = (if u = ?t then RT_THREAD_SUSPEND else stat_of k u)" for u using D(9) L(3) by simp
  have e: "wait_on q g time k = rt_schedule ?k2" by (simp add: wait_on_def Let_def rt_thread_self_def)
  have "awake ?k2 i" "stat_of ?k2 0 = RT_THREAD_INIT"
    using S(4,7,8) w unfolding awake_def st by (auto simp: may_wait_def settled_def)
  moreover have "rt_scheduler_lock_nest ?k2 = 0" using D(8) L(12) w by (simp add: may_wait_def)
  ultimately show ?thesis using sane_blocked[OF T(1) c2] o unfolding e by blast
qed

text \<open>Every call from an orderly state leads to an orderly state.\<close>

lemma kern_okI: "kinv k' \<and> objects_ok k' \<Longrightarrow> mailboxes (ipc k') = mailboxes (ipc k) \<Longrightarrow> kern_ok k \<Longrightarrow> kern_ok k'"
  using mails_same[of k' k] by (simp add: kern_ok_def)

lemma set_error_sane: "sane i k \<Longrightarrow> sane i (set_error t e k)"
  by (rule sane_gentle[OF _ gentle_upd(5)]) (simp_all add: saneD set_error_ok)

lemma may_wait_set_error [simp]: "may_wait i time (set_error t e k) = may_wait i time k"
  by (simp add: may_wait_def)

lemma sem_take_sane:
  assumes s: "sane i k" and w: "time = 0 \<or> may_wait i time k"
  shows "sane i (snd (rt_sem_take s time k))"
proof -
  note S = saneD[OF s]
  have o: "kinv (snd (rt_sem_take s time k)) \<and> objects_ok (snd (rt_sem_take s time k))"
    by (rule sem_take_ok[OF S(2,3,6)])
  show ?thesis
  proof (cases "0 < sem_value k s \<or> time = 0")
    case True
    have "gentle k (snd (rt_sem_take s time k)) \<and> mailboxes (ipc (snd (rt_sem_take s time k))) = mailboxes (ipc k)"
      using True gentle_upd(1)[OF S(2)] gentle_refl[OF S(2)] by (auto simp: rt_sem_take_def)
    then show ?thesis using sane_gentle[OF s] kern_okI[OF o _ S(1)] by blast
  next
    case False
    let ?k1 = "set_error (rt_thread_self k) RT_EOK k"
    have s1: "sane i ?k1" by (rule set_error_sane[OF s])
    have g: "ipc_flag (s_flag (sems (ipc k) s))" using objects_okD(1)[OF S(3), of s] by (simp add: sem_ok_def)
    have e: "snd (rt_sem_take s time k) = wait_on (SemQ s) (s_flag (sems (ipc k) s)) time ?k1"
      using False by (simp add: rt_sem_take_def)
    have "mailboxes (ipc (snd (rt_sem_take s time k))) = mailboxes (ipc k)"
      unfolding e using wait_on_state(6)[OF saneD(2,6)[OF s1] g] by simp
    from kern_okI[OF o this S(1)] show ?thesis
      unfolding e using w False by (intro wait_on_sane[OF s1 _ g]) auto
  qed
qed

lemma mutex_take_sane:
  assumes s: "sane i k" and w: "time = 0 \<or> may_wait i time k"
    and m: "m_value (mutex_of k x) = 1 \<or> m_owner (mutex_of k x) \<noteq> 0"
  shows "sane i (snd (rt_mutex_take x time k))"
proof -
  note S = saneD[OF s]
  let ?t = "rt_current_thread k" let ?k1 = "set_error ?t RT_EOK k"
  have o: "kinv (snd (rt_mutex_take x time k)) \<and> objects_ok (snd (rt_mutex_take x time k))"
    by (rule mutex_take_ok[OF S(2,3,6,8) m])
  have s1: "sane i ?k1" by (rule set_error_sane[OF s])
  have g1: "gentle k ?k1" by (rule gentle_upd(5)[OF S(2)])
  have m1: "mutex_of ?k1 x = mutex_of k x" by simp
  show ?thesis
  proof (cases "m_owner (mutex_of k x) = ?t \<or> 0 < m_value (mutex_of k x) \<or> time = 0")
    case True
    have a: "gentle ?k1 (upd_mutex x f ?k1)" "gentle ?k1 (set_error ?t e ?k1)"
      "gentle ?k1 (upd_mutex x f (upd_mutex x g ?k1))" for f g e
      using gentle_upd(2,5)[OF gentleD(1)[OF g1]] gentle_trans[OF gentle_upd(2)[OF gentleD(1)[OF g1]] gentle_upd(2)]
        gentleD(1)[OF gentle_upd(2)[OF gentleD(1)[OF g1]]] by auto
    have "gentle k (snd (rt_mutex_take x time k)) \<and> mailboxes (ipc (snd (rt_mutex_take x time k))) = mailboxes (ipc k)"
      using True g1 a[THEN gentle_trans[OF g1]] by (auto simp: rt_mutex_take_def Let_def rt_thread_self_def)
    then show ?thesis using sane_gentle[OF s] kern_okI[OF o _ S(1)] by blast
  next
    case False
    define k2 where "k2 = (if prio ?k1 ?t < prio ?k1 (m_owner (mutex_of k x))
      then change_priority (m_owner (mutex_of k x)) (current_priority (threads ?k1 ?t)) ?k1 else ?k1)"
    have p: "unat (current_priority (threads ?k1 ?t)) < 32"
      using kinv_prio(1)[OF S(2), of ?t] S(6) by (simp add: prio_def set_error_def)
    note C = change_priority_boxes[OF saneD(2)[OF s1] p] change_priority_state[OF saneD(2)[OF s1] p]
    have k2: "gentle ?k1 k2" "frame ?k1 k2" "rt_current_thread k2 = ?t"
      using C gentle_refl[OF saneD(2)[OF s1]] frame_refl[OF saneD(2)[OF s1]] by (auto simp: k2_def)
    have s2: "sane i k2" by (rule sane_gentle[OF s1 k2(1) frame_ok[OF k2(2) saneD(1)[OF s1]]])
    have i2: "ipc k2 = ipc k" using k2(2) by (simp add: frame_def)
    have g: "ipc_flag (m_flag (mutex_of k x))" using objects_okD(2)[OF S(3), of x] by (simp add: mutex_ok_def)
    have e: "snd (rt_mutex_take x time k) = wait_on (MutexQ x) (m_flag (mutex_of k x)) time k2"
      using False i2 by (simp add: rt_mutex_take_def Let_def rt_thread_self_def k2_def)
    have w2: "may_wait i time k2"
      using w False k2(3) gentleD(3)[OF k2(1)] by (auto simp: may_wait_def lively_def)
    have "mailboxes (ipc (snd (rt_mutex_take x time k))) = mailboxes (ipc k)"
      unfolding e using wait_on_state(6)[OF saneD(2,6)[OF s2] g] i2 by simp
    from kern_okI[OF o this S(1)] show ?thesis unfolding e by (rule wait_on_sane[OF s2 w2 g])
  qed
qed

lemma event_recv_sane:
  assumes s: "sane i k" and w: "time = 0 \<or> may_wait i time k"
    and opt: "opt AND RT_EVENT_FLAG_AND \<noteq> 0 \<or> opt AND RT_EVENT_FLAG_OR \<noteq> 0"
  shows "sane i (snd (snd (rt_event_recv e want opt time k)))"
proof -
  note S = saneD[OF s]
  let ?t = "rt_current_thread k" let ?k1 = "set_error ?t RT_EOK k" let ?k' = "snd (snd (rt_event_recv e want opt time k))"
  have o: "kinv ?k' \<and> objects_ok ?k'" by (rule event_recv_ok[OF S(2,3,6) opt])
  have g1: "gentle k ?k1" by (rule gentle_upd(5)[OF S(2)])
  note k1 = gentleD(1)[OF g1]
  have as: "RT_ASSERT (opt AND RT_EVENT_FLAG_AND = 0 \<longrightarrow> opt AND RT_EVENT_FLAG_OR \<noteq> 0) j = j" for j
    using opt by simp
  have ev1: "ev_set ?k1 e = ev_set k e" by (simp add: ev_set_def)
  have fields: "gentle k (upd_thread ?t (\<lambda>c. c\<lparr>event_set := es, event_info := ei\<rparr>) ?k1)" for es ei
    using gentle_trans[OF g1 gentle_upd(7)[OF k1]] .
  have clear: "gentle k (upd_event e h (upd_thread ?t (\<lambda>c. c\<lparr>event_set := es, event_info := ei\<rparr>) ?k1))" for es ei h
    using gentle_trans[OF fields gentle_upd(3)[OF gentleD(1)[OF fields]]] .
  show ?thesis
  proof (cases "want = 0 \<or> event_met opt want (ev_set k e) = Some True \<or> time = 0")
    case True
    have "gentle k ?k' \<and> mailboxes (ipc ?k') = mailboxes (ipc k)"
      using True fields clear g1 gentle_refl[OF S(2)] gentle_trans[OF g1 gentle_upd(5)[OF k1]] ev1
      by (auto simp: rt_event_recv_def Let_def rt_thread_self_def as)
    then show ?thesis using sane_gentle[OF s] kern_okI[OF o _ S(1)] by blast
  next
    case False
    let ?k2 = "upd_thread ?t (\<lambda>c. c\<lparr>event_set := want, event_info := opt\<rparr>) ?k1"
    note G = fields[where es = want and ei = opt]
    have fl: "settled i ?k2" "clock_ok 0 ?k2"
      using settled_lively[OF S(4) gentleD(3)[OF G]] clock_ok_calm[OF S(5) gentleD(2)[OF G]] .
    have o2: "kern_ok ?k2"
    proof -
      have out: "?t \<notin> set (waitq k q)" for q using in_waitq[OF S(2), of ?t q] S(6) by auto
      have "sem_ok ?k2 s = sem_ok k s" "mutex_ok ?k2 x = mutex_ok k x" for s x
        by (simp_all add: sem_ok_def mutex_ok_def sem_value_def)
      moreover have "event_ok ?k2 d = event_ok k d" for d
        using out[of "EventQ d"] by (auto simp: event_ok_def ev_set_def)
      ultimately have "objects_ok ?k2" using S(3) by (simp add: objects_ok_def)
      then show ?thesis using kern_okI[of ?k2 k] gentleD(1)[OF G] S(1) by simp
    qed
    have s2: "sane i ?k2" using fl o2 by (simp add: sane_def live_def)
    have g: "ipc_flag (e_flag (events (ipc k) e))" using objects_okD(3)[OF S(3), of e] by (simp add: event_ok_def)
    have e': "?k' = wait_on (EventQ e) (e_flag (events (ipc k) e)) time ?k2"
      using False ev1 by (simp add: rt_event_recv_def Let_def rt_thread_self_def as)
    have w2: "may_wait i time ?k2" using w False by (simp add: may_wait_def set_error_def)
    have "mailboxes (ipc ?k') = mailboxes (ipc k)"
      unfolding e' using wait_on_state(6)[OF saneD(2,6)[OF s2] g] by simp
    from kern_okI[OF o this S(1)] show ?thesis unfolding e' by (rule wait_on_sane[OF s2 w2 g])
  qed
qed

lemma mb_send_turn_sane:
  assumes s: "sane i k" and w: "time = 0 \<or> may_wait i time k"
  shows "sane i (snd (mb_send_turn m v time k))"
proof (cases "mb_entry (mb_of k m) = mb_size (mb_of k m) \<and> time \<noteq> 0")
  case True
  note S = saneD[OF s]
  have s1: "sane i (set_error (rt_thread_self k) RT_EOK k)" by (rule set_error_sane[OF s])
  have g: "ipc_flag (mb_flag (mb_of k m))" using kern_okD(4)[OF S(1), of m] by (simp add: mail_ok_def)
  have e: "snd (mb_send_turn m v time k) =
      wait_on (MbSendQ m) (mb_flag (mb_of k m)) time (set_error (rt_thread_self k) RT_EOK k)"
    using True by (simp add: mb_send_turn_def Let_def)
  show ?thesis
    using mb_send_turn_ok[OF S(1,6), of m v time] True w unfolding e by (intro wait_on_sane[OF s1 _ g]) auto
next
  case False
  note S = saneD[OF s]
  have "gentle k (snd (mb_send_turn m v time k))"
    using False mb_deliver_gentle[OF S(1)] gentle_upd(5)[OF S(2)] by (auto simp: mb_send_turn_def Let_def)
  then show ?thesis using sane_gentle[OF s] mb_send_turn_ok[OF S(1,6)] by blast
qed

lemma mb_recv_turn_sane:
  assumes s: "sane i k" and w: "time = 0 \<or> may_wait i time k"
  shows "sane i (snd (snd (mb_recv_turn m time k)))"
proof (cases "mb_entry (mb_of k m) = 0 \<and> time \<noteq> 0")
  case True
  note S = saneD[OF s]
  have s1: "sane i (set_error (rt_thread_self k) RT_EOK k)" by (rule set_error_sane[OF s])
  have g: "ipc_flag (mb_flag (mb_of k m))" using kern_okD(4)[OF S(1), of m] by (simp add: mail_ok_def)
  have e: "snd (snd (mb_recv_turn m time k)) =
      wait_on (MbQ m) (mb_flag (mb_of k m)) time (set_error (rt_thread_self k) RT_EOK k)"
    using True by (simp add: mb_recv_turn_def Let_def)
  show ?thesis
    using mb_recv_turn_ok[OF S(1,6), of m time] True w unfolding e by (intro wait_on_sane[OF s1 _ g]) auto
next
  case False
  note S = saneD[OF s]
  note g1 = gentle_upd(5)[OF S(2), of "rt_thread_self k" RT_EOK]
  have "gentle k (snd (snd (mb_recv_turn m time k)))"
    using False mb_collect_gentle[OF S(1), of m] gentle_trans[OF g1 gentle_upd(5)[OF gentleD(1)[OF g1]]]
    by (auto simp: mb_recv_turn_def Let_def mails_Nil)
  then show ?thesis using sane_gentle[OF s] mb_recv_turn_ok[OF S(1,6)] by blast
qed

lemma delay_sane:
  assumes s: "sane i k" and w: "rt_current_thread k \<noteq> i" "rt_scheduler_lock_nest k = 0" "uint tick \<le> HORIZON"
  shows "sane i (rt_thread_sleep tick k)"
proof -
  note S = saneD[OF s]
  let ?t = "rt_current_thread k" let ?k1 = "set_error ?t RT_EOK k" let ?k2 = "suspend_for tick ?k1"
  have s1: "sane i ?k1" by (rule set_error_sane[OF s])
  have c1: "?t = rt_current_thread ?k1" "stat_of ?k1 ?t = RT_THREAD_RUNNING" using S(6) by simp_all
  note U = suspend_for_state[OF saneD(2)[OF s1] c1 saneD(5)[OF s1] w(3)]
  note V = suspend_state[OF saneD(2)[OF s1] c1]
  have th: "rt_scheduler_lock_nest ?k2 = rt_scheduler_lock_nest k \<and>
      event_set (threads ?k2 u) = event_set (threads k u) \<and> event_info (threads ?k2 u) = event_info (threads k u)" for u
  proof -
    have e: "?k2 = rt_timer_start (ThreadTimer ?t) (upd_timer (ThreadTimer ?t) (\<lambda>c. c\<lparr>init_tick := tick\<rparr>)
        (snd (rt_thread_suspend ?t ?k1)))"
      by (simp add: suspend_for_def Let_def rt_thread_self_def rt_timer_control_def)
    show ?thesis unfolding e using same_threadsD[OF rt_timer_start_state(1)] V(8,15,16) by simp
  qed
  have f: "frame k ?k2" using U(1,6,7) th by (simp add: frame_def)
  have e: "rt_thread_sleep tick k = rt_schedule ?k2" by (simp add: rt_thread_sleep_def set_error_def rt_thread_self_def)
  have o: "kern_ok (rt_schedule ?k2)" by (rule frame_ok[OF frame_trans[OF f frame_schedule[OF U(1)]] S(1)])
  have "awake ?k2 i" "stat_of ?k2 0 = RT_THREAD_INIT"
    using S(4,7,8) w(1) unfolding awake_def U(3) by (auto simp: settled_def)
  then show ?thesis unfolding e using sane_blocked[OF U(1,2) _ _ _ o] th w(2) by simp
qed

text \<open>Threads and the scheduler lock.\<close>

lemma sane_frame: "sane i k \<Longrightarrow> gentle k k' \<Longrightarrow> frame k k' \<Longrightarrow> sane i k'"
  using sane_gentle frame_ok saneD(1) by blast

lemma yield_sane:
  assumes s: "sane i k" shows "sane i (snd (rt_thread_yield k))"
proof -
  let ?k1 = "upd_thread (rt_thread_self k) (\<lambda>c. c\<lparr>remaining_tick := t_init_tick c,
    t_stat := t_stat c OR RT_THREAD_STAT_YIELD\<rparr>) k"
  have k1: "kinv ?k1" by (rule kinv_upd_same) (use saneD(2)[OF s] in \<open>auto simp: stat_of_def\<close>)
  have st: "stat_of ?k1 = stat_of k" by (auto simp: stat_of_def)
  have g: "gentle k ?k1" by (rule gentle_same[OF k1]) (simp_all add: st)
  have f: "frame k ?k1" using k1 by (simp add: frame_def)
  show ?thesis unfolding rt_thread_yield_def snd_conv
    by (rule sane_frame[OF s gentle_trans[OF g gentle_schedule[OF k1]] frame_trans[OF f frame_schedule[OF k1]]])
qed

lemma lock_stat [simp]:
  "stat_of (k\<lparr>rt_scheduler_lock_nest := n\<rparr>) = stat_of k" "kinv_but E (k\<lparr>rt_scheduler_lock_nest := n\<rparr>) = kinv_but E k"
  "due (k\<lparr>rt_scheduler_lock_nest := n\<rparr>) = due k" "awake (k\<lparr>rt_scheduler_lock_nest := n\<rparr>) = awake k"
  by (auto simp: kinv_but_def table_ok_def states_ok_def prios_ok_def waits_ok_def timers_ok_def
      stat_of_def prio_def due_def awake_def fun_eq_iff)

lemma lock_sane: "sane i k \<Longrightarrow> sane i (k\<lparr>rt_scheduler_lock_nest := n\<rparr>)"
  using frame_ok[of k "k\<lparr>rt_scheduler_lock_nest := n\<rparr>"]
  by (auto simp: sane_def live_def settled_def clock_ok_def frame_def kern_okD)

lemma critical_sane:
  assumes s: "sane i k" shows "sane i (rt_enter_critical k)" "sane i (rt_exit_critical k)"
proof -
  show "sane i (rt_enter_critical k)" unfolding rt_enter_critical_def by (rule lock_sane[OF s])
  have "sane i j \<Longrightarrow> sane i (rt_schedule j)" for j
    using sane_frame gentle_schedule frame_schedule saneD(2) by blast
  then show "sane i (rt_exit_critical k)" using lock_sane[OF s] by (simp add: rt_exit_critical_def Let_def)
qed

lemma resume_sane:
  assumes s: "sane i k" shows "sane i (snd (rt_thread_resume t k))"
proof (cases "stat_of k t = RT_THREAD_SUSPEND")
  case True
  then show ?thesis using sane_frame[OF s gentle_resume frame_resume] saneD(2)[OF s] by blast
qed (use s in \<open>simp add: rt_thread_resume_def\<close>)

lemma change_priority_sane:
  assumes "sane i k" "unat p < 32" shows "sane i (change_priority t p k)"
  using sane_frame[OF assms(1)] gentle_change_priority change_priority_state(1) saneD(2)[OF assms(1)] assms(2) by blast

text \<open>A thread is created and started.\<close>

definition new_thread :: "nat \<Rightarrow> u8 \<Rightarrow> u32 \<Rightarrow> kern \<Rightarrow> kern" where
  "new_thread t p tick k = snd (rt_thread_startup t (snd (rt_thread_init t p tick k)))"

lemma new_thread_sane:
  assumes s: "sane i k" and t: "t \<noteq> 0" "unat p < 32" "stat_of k t = RT_THREAD_INIT"
  shows "sane i (new_thread t p tick k)"
proof -
  note K = saneD(2)[OF s]
  let ?k1 = "snd (rt_thread_init t p tick k)"
  let ?f = "\<lambda>c. c\<lparr>number_mask := push_bit (unat (current_priority c)) (1::u32), t_stat := RT_THREAD_SUSPEND\<rparr> :: tcb"
  let ?k2 = "upd_thread t ?f ?k1" let ?k3 = "snd (rt_thread_resume t ?k2)"
  note I = kinv_thread_init[OF K t]
  have e1: "?k1 = timer_init (ThreadTimer t) 0 0 (upd_thread t (\<lambda>c. c\<lparr>current_priority := p, number_mask := 0,
      t_init_tick := tick, remaining_tick := tick, t_error := RT_EOK, t_stat := RT_THREAD_INIT\<rparr>) k)"
    using t by (simp add: rt_thread_init_def rt_timer_init_def Let_def RT_THREAD_PRIORITY_MAX_def RT_TICK_MAX_def)
  have ev: "event_set (threads ?k1 u) = event_set (threads k u)" "event_info (threads ?k1 u) = event_info (threads k u)"
    "rt_tick ?k1 = rt_tick k" for u unfolding e1 by (simp_all add: timer_init_def)
  have tm: "timers ?k1 n = timers k n" if "n \<noteq> ThreadTimer t" for n
    unfolding e1 using that by (simp add: timer_init_def)
  have nt: "ThreadTimer t \<notin> set (timer_list k)" using timer_not_listed[OF K, of t] t(3) by simp
  have "timers ?k1 n = timers k n" if "n \<in> set (timer_list k)" for n
    by (rule tm) (use that nt in auto)
  then have "calm k ?k1" unfolding calm_def I(5) ev(3) using I(10) by (auto intro: exI[of _ "\<lambda>_. True"])
  then have g1: "gentle k ?k1" using I(1) lively_same[OF I(2,6,7)] by (simp add: gentle_def)
  have s1: "stat_of ?k1 t = RT_THREAD_INIT" "prio ?k1 t < 32" using I(2,3) t by simp_all
  have k2: "kinv ?k2" by (rule kinv_upd_init[where v = RT_THREAD_SUSPEND]) (use I(1) s1 in \<open>auto simp: prio_def\<close>)
  have st2: "stat_of ?k2 u = (if u = t then RT_THREAD_SUSPEND else stat_of k u)" for u
    using I(2) by (simp add: stat_of_def fun_eq_iff)
  have cur: "rt_current_thread k \<noteq> t" using saneD(6)[OF s] t(3) by (auto simp: stat_defs)
  have "lively k ?k2"
    unfolding lively_def awake_def st2 using I(6,7) t(1,3) cur by (auto simp: stat_defs)
  moreover have "calm k ?k2" using calm_trans[OF gentleD(2)[OF g1] calm_same[of ?k2 ?k1]] by simp
  ultimately have g2: "gentle k ?k2" using k2 by (simp add: gentle_def)
  have w2: "waitq ?k2 = waitq k" "ipc ?k2 = ipc k" "event_set (threads ?k2 u) = event_set (threads k u)"
    "event_info (threads ?k2 u) = event_info (threads k u)" for u using I(8,9) ev by simp_all
  have f2: "frame k ?k2" unfolding frame_def w2 using k2 by blast
  have s2: "sane i ?k2" by (rule sane_frame[OF s g2 f2])
  have s3: "sane i ?k3" by (rule resume_sane[OF s2])
  have "sane i (rt_schedule ?k3)"
    using sane_frame[OF s3 gentle_schedule frame_schedule] saneD(2)[OF s3] by blast
  then show ?thesis using s3 s1(1)
    by (auto simp: new_thread_def rt_thread_startup_def Let_def)
qed

text \<open>A thread ends, by its own hand or another's.\<close>

lemma close_thread_state:
  "stat_of (close_thread t k) u = (if u = t then RT_THREAD_CLOSE else stat_of k u)"
  "rt_current_thread (close_thread t k) = rt_current_thread k"
  "rt_scheduler_lock_nest (close_thread t k) = rt_scheduler_lock_nest k"
  "calm k (close_thread t k)" "waitq (close_thread t k) = waitq k" "ipc (close_thread t k) = ipc k"
  "event_set (threads (close_thread t k) u) = event_set (threads k u)"
  "event_info (threads (close_thread t k) u) = event_info (threads k u)"
proof -
  have e: "close_thread t k = (upd_thread t (\<lambda>c. c\<lparr>t_stat := RT_THREAD_CLOSE\<rparr>)
      (upd_timer (ThreadTimer t) (clear_flag RT_TIMER_FLAG_ACTIVATED) (timer_remove (ThreadTimer t) k)))
      \<lparr>rt_defunct := t # rt_defunct k\<rparr>"
    by (simp add: close_thread_def Let_def rt_timer_detach_def rt_thread_defunct_enqueue_def upd_thread_def
        upd_timer_def timer_remove_def)
  show "stat_of (close_thread t k) u = (if u = t then RT_THREAD_CLOSE else stat_of k u)"
    "rt_current_thread (close_thread t k) = rt_current_thread k"
    "rt_scheduler_lock_nest (close_thread t k) = rt_scheduler_lock_nest k"
    "waitq (close_thread t k) = waitq k" "ipc (close_thread t k) = ipc k"
    "event_set (threads (close_thread t k) u) = event_set (threads k u)"
    "event_info (threads (close_thread t k) u) = event_info (threads k u)"
    unfolding e by (simp_all add: stat_of_def)
  show "calm k (close_thread t k)" unfolding e by (auto simp: calm_def removeAll_filter_not_eq)
qed

lemma remove_thread_state:
  assumes "kinv k" "stat_of k t \<in> {RT_THREAD_READY, RT_THREAD_SUSPEND, RT_THREAD_RUNNING}"
  shows "stat_of (rt_schedule_remove_thread t k) = stat_of k" "calm k (rt_schedule_remove_thread t k)"
    "rt_current_thread (rt_schedule_remove_thread t k) = rt_current_thread k"
    "rt_scheduler_lock_nest (rt_schedule_remove_thread t k) = rt_scheduler_lock_nest k"
    "kinv (close_thread t (rt_schedule_remove_thread t k))"
    "frame k (close_thread t (rt_schedule_remove_thread t k))"
proof -
  show "stat_of (rt_schedule_remove_thread t k) = stat_of k" by auto
  show "calm k (rt_schedule_remove_thread t k)" by (rule calm_same) simp_all
  show "rt_current_thread (rt_schedule_remove_thread t k) = rt_current_thread k"
    "rt_scheduler_lock_nest (rt_schedule_remove_thread t k) = rt_scheduler_lock_nest k" by simp_all
  show c: "kinv (close_thread t (rt_schedule_remove_thread t k))" by (rule kinv_remove_close[OF assms])
  show "frame k (close_thread t (rt_schedule_remove_thread t k))"
    unfolding frame_def close_thread_state using c by auto
qed

lemma exit_sane:
  assumes s: "sane i k" and w: "rt_current_thread k \<noteq> i" "rt_scheduler_lock_nest k = 0"
  shows "sane i (thread_exit k)"
proof -
  note S = saneD[OF s]
  let ?t = "rt_current_thread k" let ?k2 = "close_thread ?t (rt_schedule_remove_thread ?t k)"
  note R = remove_thread_state[OF S(2), of ?t] note C = close_thread_state[where t = ?t]
  have r: "stat_of k ?t \<in> {RT_THREAD_READY, RT_THREAD_SUSPEND, RT_THREAD_RUNNING}" using S(6) by simp
  have e: "thread_exit k = rt_schedule ?k2" by (simp add: thread_exit_def Let_def rt_thread_self_def)
  have o: "kern_ok (rt_schedule ?k2)"
    by (rule frame_ok[OF frame_trans[OF R(6)[OF r] frame_schedule[OF R(5)[OF r]]] S(1)])
  have c: "clock_ok 0 ?k2" by (rule clock_ok_calm[OF S(5) calm_trans[OF R(2)[OF r] C(4)]])
  have "awake ?k2 i" "stat_of ?k2 0 = RT_THREAD_INIT"
    using S(4,7,8) w unfolding awake_def C(1) R(1)[OF r] by (auto simp: settled_def)
  then show ?thesis unfolding e using sane_blocked[OF R(5)[OF r] c _ _ _ o] w(2) C(3) R(4)[OF r] by simp
qed

lemma detach_sane:
  assumes s: "sane i k" and t: "t \<notin> {0, i, rt_current_thread k}"
    and st: "stat_of k t \<in> {RT_THREAD_READY, RT_THREAD_SUSPEND}"
  shows "sane i (snd (rt_thread_detach t k))"
proof -
  note S = saneD[OF s]
  let ?k2 = "close_thread t (rt_schedule_remove_thread t k)"
  have r: "stat_of k t \<in> {RT_THREAD_READY, RT_THREAD_SUSPEND, RT_THREAD_RUNNING}" using st by auto
  note R = remove_thread_state[OF S(2) r] note C = close_thread_state[where t = t]
  have e: "snd (rt_thread_detach t k) = ?k2"
    using st by (auto simp: rt_thread_detach_def stat_defs)
  have "settled i ?k2"
    using S(4) t unfolding settled_def awake_def C(1,2) R(1,3) by auto
  then show ?thesis unfolding e
    using frame_ok[OF R(6) S(1)] clock_ok_calm[OF S(5) calm_trans[OF R(2) C(4)]] by (simp add: sane_def live_def)
qed

text \<open>Objects are set up.\<close>

lemma clear_waitq:
  assumes "kinv k" shows "gentle k (upd_waitq q (\<lambda>_. []) k)" "frame k (upd_waitq q (\<lambda>_. []) k)"
  using kinv_waitq_clear[OF assms, of q] by (auto intro!: gentle_same simp: frame_def)

lemma init_sane:
  assumes s: "sane i k"
  shows "value < 0x10000 \<Longrightarrow> ipc_flag flag \<Longrightarrow> sane i (snd (rt_sem_init n value flag k))"
    "sane i (snd (rt_mutex_init n flag k))"
    "ipc_flag flag \<Longrightarrow> sane i (snd (rt_event_init n flag k))"
    "ipc_flag flag \<Longrightarrow> unat (ucast sz :: u16) \<le> length pool \<Longrightarrow> sane i (snd (rt_mb_init n pool sz flag k))"
proof -
  note S = saneD[OF s]
  have w: "sane i (upd_waitq q (\<lambda>_. []) k)" for q by (rule sane_frame[OF s clear_waitq[OF S(2)]])
  show "value < 0x10000 \<Longrightarrow> ipc_flag flag \<Longrightarrow> sane i (snd (rt_sem_init n value flag k))"
  proof -
    assume g: "value < 0x10000" "ipc_flag flag"
    let ?k1 = "upd_waitq (SemQ n) (\<lambda>_. []) k" let ?k2 = "upd_sem n (\<lambda>_. \<lparr>s_flag = flag, s_value = ucast value\<rparr>) ?k1"
    note W = saneD[OF w[of "SemQ n"]]
    have "sem_ok ?k2 r" for r
      using objects_okD(1)[OF W(3), of r] g by (cases "r = n") (simp_all add: sem_ok_def sem_value_def upd_sem_def)
    moreover have "mutex_ok ?k2 x" "event_ok ?k2 e" for x e
      by (rule mutexes_same[OF upd_same(1) W(3)], rule events_same[OF upd_same(2) W(3)])
    ultimately have "objects_ok ?k2" by (simp add: objects_ok_def)
    then have "sane i ?k2" using sane_gentle[OF w gentle_upd(1)[OF W(2)]] kern_okI[OF _ _ W(1)] W(2) by simp
    then show ?thesis using g by (auto simp: rt_sem_init_def Let_def)
  qed
  show "sane i (snd (rt_mutex_init n flag k))"
  proof -
    let ?k1 = "upd_waitq (MutexQ n) (\<lambda>_. []) k"
    let ?f = "\<lambda>_. \<lparr>m_flag = RT_IPC_FLAG_PRIO, m_value = 1, original_priority = 0xff, m_hold = 0, m_owner = 0\<rparr>"
    note W = saneD[OF w[of "MutexQ n"]]
    have "objects_ok (upd_mutex n ?f ?k1)"
      by (rule upd_mutex_objects[OF W(3)]) (simp add: mutex_ok_def)
    then have "sane i (upd_mutex n ?f ?k1)" using sane_gentle[OF w gentle_upd(2)[OF W(2)]] kern_okI[OF _ _ W(1)] W(2) by simp
    then show ?thesis by (simp add: rt_mutex_init_def)
  qed
  show "ipc_flag flag \<Longrightarrow> sane i (snd (rt_event_init n flag k))"
  proof -
    assume g: "ipc_flag flag"
    let ?k1 = "upd_waitq (EventQ n) (\<lambda>_. []) k" let ?k2 = "upd_event n (\<lambda>_. \<lparr>e_flag = flag, e_set = 0\<rparr>) ?k1"
    note W = saneD[OF w[of "EventQ n"]]
    have "event_ok ?k2 d" for d
      using objects_okD(3)[OF W(3), of d] g by (cases "d = n") (auto simp: event_ok_def)
    moreover have "sem_ok ?k2 r" "mutex_ok ?k2 x" for r x
      by (rule sems_same[OF upd_same(5) W(3)], rule mutexes_same[OF upd_same(6) W(3)])
    ultimately have "objects_ok ?k2" by (simp add: objects_ok_def)
    then have "sane i ?k2" using sane_gentle[OF w gentle_upd(3)[OF W(2)]] kern_okI[OF _ _ W(1)] W(2) by simp
    then show ?thesis using g by (auto simp: rt_event_init_def Let_def RT_ASSERT_def)
  qed
  show "ipc_flag flag \<Longrightarrow> unat (ucast sz :: u16) \<le> length pool \<Longrightarrow> sane i (snd (rt_mb_init n pool sz flag k))"
  proof -
    assume g: "ipc_flag flag" "unat (ucast sz :: u16) \<le> length pool"
    have e: "snd (rt_mb_init n pool sz flag k) = upd_mb n (\<lambda>_. \<lparr>mb_flag = flag, mb_pool = pool, mb_size = ucast sz,
        mb_entry = 0, mb_in = 0, mb_out = 0\<rparr>) (upd_waitq (MbSendQ n) (\<lambda>_. []) (upd_waitq (MbQ n) (\<lambda>_. []) k))"
      using g by (auto simp: rt_mb_init_def RT_ASSERT_def Let_def)
    note c1 = clear_waitq(1)[OF S(2), of "MbQ n"]
    note c2 = clear_waitq(1)[OF gentleD(1)[OF c1], of "MbSendQ n"]
    have "gentle k (snd (rt_mb_init n pool sz flag k))"
      unfolding e using gentle_trans[OF gentle_trans[OF c1 c2] gentle_upd(4)[OF gentleD(1)[OF c2]]] .
    then show ?thesis by (rule sane_gentle[OF s _ mb_init_ok(1)[OF S(1) g]])
  qed
qed

text \<open>The slave's timer: \<open>xMBPortTimersInit\<close>, \<open>vMBPortTimersEnable\<close> and
  \<open>vMBPortTimersDisable\<close> on the kernel.\<close>

definition timers_init :: "u32 \<Rightarrow> kern \<Rightarrow> kern" where
  "timers_init time = rt_timer_init SLAVE_TIMER time 0"

definition timers_enable :: "kern \<Rightarrow> kern" where
  "timers_enable = rt_timer_start SLAVE_TIMER"

definition startable :: "kern \<Rightarrow> bool" where
  "startable k \<longleftrightarrow> uint (init_tick (timers k SLAVE_TIMER)) \<le> HORIZON \<and>
     \<not> bit (tm_flag (timers k SLAVE_TIMER)) (Suc 0)"

lemma timers_sane:
  assumes s: "sane i k"
  shows "SLAVE_TIMER \<notin> set (timer_list k) \<Longrightarrow> time < RT_TICK_MAX div 2 \<Longrightarrow>
      sane i (timers_init time k) \<and> startable (timers_init time k)"
    "startable k \<Longrightarrow> sane i (timers_enable k)" "sane i (timers_disable k)"
proof -
  note S = saneD[OF s]
  show "sane i (timers_disable k)"
    unfolding timers_disable_def
    by (rule sane_frame[OF s gentle_timer_stop[OF S(2)] frame_threads[OF rt_timer_stop_state(1) kinv_timer_stop[OF S(2)]]])
  have use_same: "sane i k'" if "same_threads k k'" "kinv k'" "clock_ok 0 k'" for k'
    using that frame_ok[OF frame_threads[OF that(1,2)] S(1)] settled_lively[OF S(4) lively_same_threads[OF that(1)]]
    by (simp add: sane_def live_def)
  show "sane i (timers_enable k)" if "startable k"
    unfolding timers_enable_def
    by (rule use_same[OF rt_timer_start_state(1) kinv_timer_start[OF S(2)] clock_ok_start[OF S(5)]])
      (use that in \<open>simp_all add: startable_def SLAVE_TIMER_def\<close>)
  assume m: "SLAVE_TIMER \<notin> set (timer_list k)" and t: "time < RT_TICK_MAX div 2"
  have e: "timers_init time k = upd_timer SLAVE_TIMER (\<lambda>c. \<lparr>tm_flag = 0, init_tick = time, timeout_tick = 0\<rparr>) k"
    using t by (simp add: timers_init_def rt_timer_init_def timer_init_def)
  have h: "uint time \<le> HORIZON" using t[unfolded unsigned_small] uint_of_sint[of time] by (simp add: HORIZON_def)
  have "sane i (timers_init time k)"
    unfolding e
    by (rule use_same[OF _ upd_init_tick(1)[OF S(2) m] upd_init_tick(2)[OF S(2) m S(5)]])
      (simp_all add: same_threads_def upd_timer_def)
  then show "sane i (timers_init time k) \<and> startable (timers_init time k)" using h by (simp add: e startable_def)
qed

section \<open>Runs\<close>

text \<open>One step: a call of the running thread, a call from an interrupt, or the tick, in which
  the slave's timer may fire with any state of the Modbus receiver.  \<open>i\<close> is the idle thread
  and \<open>e\<close> the event of the slave.\<close>

inductive kstep :: "nat \<Rightarrow> nat \<Rightarrow> kern \<Rightarrow> kern \<Rightarrow> bool" for i e where
  tick: "rt_tick_increase (timer_timeout_ind e ev) k = Some k' \<Longrightarrow> kstep i e k k'"
| sem_init: "value < 0x10000 \<Longrightarrow> ipc_flag flag \<Longrightarrow> kstep i e k (snd (rt_sem_init n value flag k))"
| mutex_init: "kstep i e k (snd (rt_mutex_init n flag k))"
| event_init: "ipc_flag flag \<Longrightarrow> kstep i e k (snd (rt_event_init n flag k))"
| mb_init: "ipc_flag flag \<Longrightarrow> unat (ucast sz :: u16) \<le> length pool \<Longrightarrow>
    kstep i e k (snd (rt_mb_init n pool sz flag k))"
| sem_take: "time = 0 \<or> may_wait i time k \<Longrightarrow> kstep i e k (snd (rt_sem_take n time k))"
| sem_release: "kstep i e k (snd (rt_sem_release n k))"
| sem_control: "rt_sem_control n cmd arg k = Some (r, k') \<Longrightarrow> kstep i e k k'"
| mutex_take: "time = 0 \<or> may_wait i time k \<Longrightarrow> m_value (mutex_of k n) = 1 \<or> m_owner (mutex_of k n) \<noteq> 0 \<Longrightarrow>
    kstep i e k (snd (rt_mutex_take n time k))"
| mutex_release: "kstep i e k (snd (rt_mutex_release n k))"
| event_send: "kstep i e k (snd (rt_event_send n bits k))"
| event_recv: "time = 0 \<or> may_wait i time k \<Longrightarrow>
    opt AND RT_EVENT_FLAG_AND \<noteq> 0 \<or> opt AND RT_EVENT_FLAG_OR \<noteq> 0 \<Longrightarrow>
    kstep i e k (snd (snd (rt_event_recv n want opt time k)))"
| event_control: "rt_event_control n cmd arg k = Some (r, k') \<Longrightarrow> kstep i e k k'"
| mb_send: "time = 0 \<or> may_wait i time k \<Longrightarrow> kstep i e k (snd (rt_mb_send_wait n v time k))"
| mb_send_again: "time_left time since (rt_tick k) = 0 \<or> may_wait i (time_left time since (rt_tick k)) k \<Longrightarrow>
    kstep i e k (snd (mb_send_again (rt_current_thread k) n v time since k))"
| mb_urgent: "kstep i e k (snd (rt_mb_urgent n v k))"
| mb_recv: "time = 0 \<or> may_wait i time k \<Longrightarrow> kstep i e k (snd (snd (rt_mb_recv n time k)))"
| mb_recv_again: "time_left time since (rt_tick k) = 0 \<or> may_wait i (time_left time since (rt_tick k)) k \<Longrightarrow>
    kstep i e k (snd (snd (mb_recv_again (rt_current_thread k) n time since k)))"
| mb_control: "rt_mb_control n cmd k = Some (r, k') \<Longrightarrow> kstep i e k k'"
| delay: "rt_current_thread k \<noteq> i \<Longrightarrow> rt_scheduler_lock_nest k = 0 \<Longrightarrow> uint time \<le> HORIZON \<Longrightarrow>
    kstep i e k (rt_thread_delay time k)"
| yield: "kstep i e k (snd (rt_thread_yield k))"
| resume: "kstep i e k (snd (rt_thread_resume t k))"
| priority: "unat p < 32 \<Longrightarrow> kstep i e k (snd (rt_thread_control t 2 p k))"
| create: "t \<noteq> 0 \<Longrightarrow> unat p < 32 \<Longrightarrow> stat_of k t = RT_THREAD_INIT \<Longrightarrow> kstep i e k (new_thread t p time k)"
| detach: "t \<notin> {0, i, rt_current_thread k} \<Longrightarrow> stat_of k t \<in> {RT_THREAD_READY, RT_THREAD_SUSPEND} \<Longrightarrow>
    kstep i e k (snd (rt_thread_detach t k))"
| exit: "rt_current_thread k \<noteq> i \<Longrightarrow> rt_scheduler_lock_nest k = 0 \<Longrightarrow> kstep i e k (thread_exit k)"
| enter_critical: "kstep i e k (rt_enter_critical k)"
| exit_critical: "kstep i e k (rt_exit_critical k)"
| timers_init: "SLAVE_TIMER \<notin> set (timer_list k) \<Longrightarrow> time < RT_TICK_MAX div 2 \<Longrightarrow>
    kstep i e k (timers_init time k)"
| timers_enable: "startable k \<Longrightarrow> kstep i e k (timers_enable k)"
| timers_disable: "kstep i e k (timers_disable k)"

lemma tick_sane:
  assumes "sane i k"
  shows "\<exists>k'. rt_tick_increase (timer_timeout_ind e ev) k = Some k' \<and> sane i k' \<and> rt_tick k' = rt_tick k + 1"
proof -
  obtain k' where k': "rt_tick_increase (timer_timeout_ind e ev) k = Some k'" "live i k'" "clock_ok 1 k'"
      "rt_tick k' = rt_tick k + 1"
    using slave_timer.tick_ok[of i k e ev] assms unfolding sane_def by blast
  have "clock_ok 0 k'" using k'(3) unfolding clock_ok_def by force
  then show ?thesis using k' by (simp add: sane_def)
qed

lemma kstep_sane: "kstep i e k k' \<Longrightarrow> sane i k \<Longrightarrow> sane i k'"
proof (induction rule: kstep.induct)
  case (tick ev k k')
  then show ?case using tick_sane[of i k e ev] by auto
next
  case (sem_release k n)
  note S = saneD[OF sem_release]
  show ?case
    by (rule sane_gentle[OF sem_release sem_release_gentle(1)[OF S(2)] kern_okI[OF sem_release_ok[OF S(2,3)] sem_release_gentle(2)[OF S(2)] S(1)]])
next
  case (sem_control n cmd arg k r k')
  note S = saneD[OF sem_control(2)] and G = sem_control_gentle[OF saneD(2)[OF sem_control(2)] sem_control(1)]
  have "kinv k' \<and> objects_ok k'" using sem_control_ok[OF S(2,3), of n cmd arg] sem_control(1) by auto
  then show ?case by (rule sane_gentle[OF sem_control(2) G(1) kern_okI[OF _ G(2) S(1)]])
next
  case (mutex_release k n)
  note S = saneD[OF mutex_release] note G = mutex_release_gentle[OF S(2,3,8)]
  show ?case by (rule sane_gentle[OF mutex_release G(1) kern_okI[OF mutex_release_ok[OF S(2,3,8)] G(2) S(1)]])
next
  case (event_send k n bits)
  note S = saneD[OF event_send] note G = event_send_gentle[OF S(2)]
  show ?case
    by (rule sane_gentle[OF event_send G(1) kern_okI[OF event_send_ok[OF S(2,3)] _ S(1)]])
      (use G(2) in \<open>simp add: user_same_def\<close>)
next
  case (event_control n cmd arg k r k')
  note S = saneD[OF event_control(2)] and G = event_control_gentle[OF saneD(2)[OF event_control(2)] event_control(1)]
  have "kinv k' \<and> objects_ok k'" using event_control_ok[OF S(2,3), of n cmd arg] event_control(1) by auto
  then show ?case by (rule sane_gentle[OF event_control(2) G(1) kern_okI[OF _ G(2) S(1)]])
next
  case (mb_urgent k n v)
  note S = saneD[OF mb_urgent]
  show ?case by (rule sane_gentle[OF mb_urgent mb_urgent_gentle[OF S(1)] mb_calls_ok(2)[OF S(1)]])
next
  case (mb_control n cmd k r k')
  note S = saneD[OF mb_control(2)]
  have "kern_ok k'" using mb_control_ok(1)[OF S(1), of n cmd] mb_control(1) by auto
  then show ?case by (rule sane_gentle[OF mb_control(2) mb_control_gentle[OF S(1) mb_control(1)]])
next
  case (mb_send time k n v)
  then show ?case using mb_send_turn_sane by (simp add: rt_mb_send_wait_def)
next
  case (mb_send_again time since k n v)
  then show ?case using mb_send_turn_sane by (simp add: KMail.mb_send_again_def rt_tick_get_def)
next
  case (mb_recv time k n)
  then show ?case using mb_recv_turn_sane by (simp add: rt_mb_recv_def)
next
  case (mb_recv_again time since k n)
  then show ?case using mb_recv_turn_sane by (simp add: KMail.mb_recv_again_def rt_tick_get_def)
next
  case (priority p k t)
  then show ?case using change_priority_sane by (simp add: rt_thread_control_def)
next
  case (delay k time)
  then show ?case using delay_sane by (simp add: rt_thread_delay_def)
qed (simp_all add: init_sane sem_take_sane mutex_take_sane event_recv_sane yield_sane resume_sane
  new_thread_sane detach_sane exit_sane critical_sane timers_sane)

text \<open>The states reached from the start of the system, with the main thread \<open>m\<close>.\<close>

inductive kruns :: "nat \<Rightarrow> nat \<Rightarrow> nat \<Rightarrow> kern \<Rightarrow> bool" for m i e where
  boot: "kruns m i e (rtthread_startup m i kern0)"
| step: "kruns m i e k \<Longrightarrow> kstep i e k k' \<Longrightarrow> kruns m i e k'"

lemma kruns_sane:
  assumes "kruns m i e k" "m \<noteq> 0" "i \<noteq> 0" "m \<noteq> i" shows "sane i k"
  using assms(1)
proof (induction rule: kruns.induct)
  case boot
  note B = startup_ok[OF assms(2-4)]
  have "kern_ok (rtthread_startup m i kern0)"
    using B startup_objects[OF assms(2-4)]
    by (simp add: kern_ok_def mails_ok_def mail_ok_def ipc0_def ring_ok_def RT_IPC_FLAG_FIFO_def)
  then show ?case using B assms by (simp add: sane_def live_def settled_def awake_def)
next
  case (step k k')
  then show ?case using kstep_sane by blast
qed



text \<open>C17: The scheduler gives the processor to a thread of the highest priority: after
  \<open>rt_schedule\<close> in any reachable state in which it is not locked, the current thread runs and
  no thread that is ready has a higher priority (a smaller number).\<close>

theorem scheduler_runs_the_highest:
  assumes "kruns m i e k" "m \<noteq> 0" "i \<noteq> 0" "m \<noteq> i" "rt_scheduler_lock_nest k = 0"
    and "stat_of (rt_schedule k) u = RT_THREAD_READY"
  shows "stat_of (rt_schedule k) (rt_current_thread (rt_schedule k)) = RT_THREAD_RUNNING \<and>
    prio (rt_schedule k) (rt_current_thread (rt_schedule k)) \<le> prio (rt_schedule k) u"
proof -
  note S = kruns_sane[OF assms(1-4)]
  show ?thesis using rt_schedule_highest[OF saneD(2)[OF S] assms(5)] saneD(6)[OF S] assms(6) by blast
qed

text \<open>After the start the main thread runs and the idle thread is ready.\<close>

lemma scheduler_runs_the_highest_witness:
  "prio (rt_schedule (rtthread_startup 1 2 kern0)) (rt_current_thread (rt_schedule (rtthread_startup 1 2 kern0)))
     \<le> prio (rt_schedule (rtthread_startup 1 2 kern0)) 2"
proof -
  let ?b = "rtthread_startup 1 2 kern0"
  note B = startup_ok[of 1 2, simplified]
  have k: "kinv ?b" and b: "stat_of ?b 2 = RT_THREAD_READY" "rt_scheduler_lock_nest ?b = 0" using B by auto
  have "stat_of (rt_schedule ?b) 2 = RT_THREAD_READY \<or> stat_of (rt_schedule ?b) 2 = RT_THREAD_RUNNING"
    using lively_schedule[OF k] b(1) by (auto simp: lively_def awake_def)
  then show ?thesis
  proof
    assume r: "stat_of (rt_schedule ?b) 2 = RT_THREAD_READY"
    show ?thesis using scheduler_runs_the_highest[OF kruns.boot[of 1 2 9] _ _ _ b(2) r] by simp
  next
    assume "stat_of (rt_schedule ?b) 2 = RT_THREAD_RUNNING"
    then show ?thesis using kinv_running[OF kinv_rt_schedule[OF k]] by simp
  qed
qed

section \<open>The events of the Modbus slave on the kernel\<close>

definition os_event_get :: "nat \<Rightarrow> kern \<Rightarrow> ipc_result \<times> u32 option \<times> kern" where
  "os_event_get e k =
     rt_event_recv e (ev_code EV_READY OR ev_code EV_FRAME_RECEIVED OR ev_code EV_EXECUTE OR ev_code EV_FRAME_SENT)
       (RT_EVENT_FLAG_OR OR RT_EVENT_FLAG_CLEAR) (- 1) k"

text \<open>The word in which the event object holds a set of events.\<close>

definition ev_bits :: "eMBEventType set \<Rightarrow> u32" where
  "ev_bits S = (if EV_READY \<in> S then 1 else 0) OR (if EV_FRAME_RECEIVED \<in> S then 2 else 0) OR
     (if EV_EXECUTE \<in> S then 4 else 0) OR (if EV_FRAME_SENT \<in> S then 8 else 0)"

lemma all_events: "(\<forall>ev. P ev) \<longleftrightarrow> P EV_READY \<and> P EV_FRAME_RECEIVED \<and> P EV_EXECUTE \<and> P EV_FRAME_SENT"
  by (metis eMBEventType.exhaust)

lemma event_sets: "S = {} \<longleftrightarrow> EV_READY \<notin> S \<and> EV_FRAME_RECEIVED \<notin> S \<and> EV_EXECUTE \<notin> S \<and> EV_FRAME_SENT \<notin> S"
  "S = {ev} \<longleftrightarrow> (\<forall>ev'. ev' \<in> S \<longleftrightarrow> ev' = ev)"
  using all_events[of "\<lambda>ev. ev \<notin> S"] by blast+

lemma ev_bits_simps:
  "ev_bits S AND 15 = ev_bits S" "15 AND ev_bits S = ev_bits S" "ev_bits S AND NOT 15 = 0" "ev_bits S AND - 16 = 0"
  "ev_bits S = 0 \<longleftrightarrow> S = {}" "ev_bits (insert ev S) = ev_bits S OR ev_code ev"
  "ev_code ev \<noteq> 0" "15 AND ev_code ev = ev_code ev" "ev_code ev AND NOT (ev_code ev) = 0"
  by (simp_all add: ev_bits_def event_sets(1)) (cases ev; simp add: ev_code_def ev_bits_def)+

lemma ev_bits_code: "ev_bits S = ev_code ev \<longleftrightarrow> S = {ev}"
  unfolding event_sets(2) all_events
  by (cases ev; cases "EV_READY \<in> S"; cases "EV_FRAME_RECEIVED \<in> S"; cases "EV_EXECUTE \<in> S";
      cases "EV_FRAME_SENT \<in> S") (simp_all add: ev_bits_def ev_code_def)

definition GET_OPT :: u8 where "GET_OPT = RT_EVENT_FLAG_OR OR RT_EVENT_FLAG_CLEAR"

lemma GET_OPT: "GET_OPT AND RT_EVENT_FLAG_AND = 0" "GET_OPT AND RT_EVENT_FLAG_OR \<noteq> 0"
  "GET_OPT AND RT_EVENT_FLAG_CLEAR \<noteq> 0"
  by (simp_all add: GET_OPT_def RT_EVENT_FLAG_AND_def RT_EVENT_FLAG_OR_def RT_EVENT_FLAG_CLEAR_def)

lemma os_event_get_alt: "os_event_get e k = rt_event_recv e 15 GET_OPT (- 1) k"
  by (simp add: os_event_get_def GET_OPT_def ev_code_def)

text \<open>The set is not empty: it is taken as a whole.\<close>

lemma os_event_get_some:
  assumes b: "ev_set k e = ev_bits S" and n: "S \<noteq> {}"
  shows "\<exists>k'. os_event_get e k = (Returned RT_EOK, Some (ev_bits S), k') \<and> ev_set k' e = 0"
proof -
  let ?t = "rt_current_thread k" let ?k1 = "set_error ?t RT_EOK k"
  have e1: "ev_set ?k1 e = ev_bits S" using b by (simp add: ev_set_def)
  have m: "event_met GET_OPT 15 (ev_bits S) = Some True"
    using n by (simp add: event_met_def GET_OPT ev_bits_simps)
  let ?k2 = "upd_thread ?t (\<lambda>c. c\<lparr>event_set := ev_bits S, event_info := GET_OPT\<rparr>) ?k1"
  have e2: "ev_set ?k2 e = ev_bits S" using e1 by (simp add: ev_set_def)
  have "os_event_get e k = (Returned RT_EOK, Some (ev_bits S), upd_event e (\<lambda>x. x\<lparr>e_set := e_set x AND NOT 15\<rparr>) ?k2)"
    unfolding os_event_get_alt rt_event_recv_def using m e1
    by (simp add: Let_def rt_thread_self_def GET_OPT RT_ASSERT_def ev_bits_simps)
  then show ?thesis using e2 by (simp add: ev_bits_simps ev_set_def)
qed

text \<open>The set is empty: the thread waits, and the first event posted is what it gets.\<close>

lemma os_event_get_none:
  assumes s: "sane i k" and w: "may_wait i (- 1) k" and q: "waitq k (EventQ e) = []" and b: "ev_set k e = 0"
  shows "\<exists>k'. os_event_get e k = (Waiting, None, k') \<and> sane i k' \<and> waitq k' (EventQ e) = [rt_current_thread k] \<and>
    ev_set k' e = 0 \<and> event_set (threads k' (rt_current_thread k)) = 15 \<and>
    event_info (threads k' (rt_current_thread k)) = GET_OPT \<and> t_error (threads k' (rt_current_thread k)) = RT_EOK"
proof -
  note S = saneD[OF s]
  let ?t = "rt_current_thread k" let ?k1 = "set_error ?t RT_EOK k"
  let ?k2 = "upd_thread ?t (\<lambda>c. c\<lparr>event_set := 15, event_info := GET_OPT\<rparr>) ?k1"
  let ?g = "e_flag (events (ipc k) e)"
  have e1: "ev_set ?k1 e = 0" using b by (simp add: ev_set_def)
  have m: "event_met GET_OPT 15 0 = Some False" by (simp add: event_met_def GET_OPT)
  have e: "os_event_get e k = (Waiting, None, wait_on (EventQ e) ?g (- 1) ?k2)"
    unfolding os_event_get_alt rt_event_recv_def using m e1
    by (simp add: Let_def rt_thread_self_def GET_OPT RT_ASSERT_def)
  have k2: "kinv ?k2" by (rule kinv_upd_same) (use S(2) in \<open>simp_all add: stat_of_def set_error_def kinv_set_error\<close>)
  have c2: "stat_of ?k2 (rt_current_thread ?k2) = RT_THREAD_RUNNING" using S(6) by (simp add: stat_of_def set_error_def)
  have g: "ipc_flag ?g" using objects_okD(3)[OF S(3), of e] by (simp add: event_ok_def)
  note W = wait_on_state[OF k2 c2 g, of "EventQ e" "- 1"]
  have "sane i (snd (snd (os_event_get e k)))"
    unfolding os_event_get_alt by (rule event_recv_sane[OF s]) (use w GET_OPT in auto)
  moreover have "waitq (wait_on (EventQ e) ?g (- 1) ?k2) (EventQ e) = [?t]"
    unfolding W(2) using q by (simp add: enqueue_def insert_prio_def)
  ultimately show ?thesis unfolding e snd_conv using W(6,7,8,9) b by (simp add: ev_set_def)
qed

lemma post_to_waiting:
  assumes k: "kinv k" and q: "waitq k (EventQ e) = [t]" and b: "ev_set k e = 0"
    and w: "event_set (threads k t) = 15" "event_info (threads k t) = GET_OPT" "t_error (threads k t) = RT_EOK"
  shows "stat_of (os_event_post e ev k) t \<noteq> RT_THREAD_SUSPEND \<and>
    rt_event_recv_end t (os_event_post e ev k) = (RT_EOK, Some (ev_code ev)) \<and>
    ev_set (os_event_post e ev k) e = 0"
proof -
  let ?k1 = "upd_event e (\<lambda>x. x\<lparr>e_set := e_set x OR ev_code ev\<rparr>) k"
  let ?k2 = "upd_thread t (\<lambda>c. c\<lparr>event_set := 15 AND ev_set ?k1 e\<rparr>) ?k1"
  let ?k3 = "upd_event e (\<lambda>x. x\<lparr>e_set := e_set x AND NOT (event_set (threads ?k2 t))\<rparr>) ?k2"
  let ?k4 = "snd (rt_thread_resume t ?k3)"
  have e1: "ev_set ?k1 e = ev_code ev" using b by (simp add: ev_set_def)
  have m: "event_met GET_OPT 15 (ev_code ev) = Some True" by (simp add: event_met_def GET_OPT ev_bits_simps)
  have sc: "event_scan e [t] False ?k1 = (True, True, ?k4)"
    using m w e1 by (simp add: Let_def GET_OPT)
  have e: "os_event_post e ev k = rt_schedule ?k4"
    using q sc by (simp add: os_event_post_def rt_event_send_def Let_def ev_bits_simps)
  have st: "stat_of k t = RT_THREAD_SUSPEND" using in_waitq[OF k, of t "EventQ e"] q by simp
  have k3: "kinv ?k3" using kinv_upd_same[of "{}" ?k1 "\<lambda>c. c\<lparr>event_set := 15 AND ev_set ?k1 e\<rparr>" t] k
    by (simp add: stat_of_def)
  have st3: "stat_of ?k3 t = RT_THREAD_SUSPEND" using st by (simp add: stat_of_def)
  note R = resume_state[OF k3 st3] note Z = rt_schedule_keeps[OF R(1)]
  have "stat_of ?k4 t \<noteq> RT_THREAD_SUSPEND" unfolding R(2) by simp
  moreover have "t_error (threads ?k4 t) = RT_EOK" "event_set (threads ?k4 t) = ev_code ev"
    unfolding R(13,14) using w e1 by (simp_all add: ev_bits_simps)
  moreover have "ev_set ?k4 e = 0"
  proof -
    have "ipc a = ipc b \<Longrightarrow> ev_set a e = ev_set b e" for a b by (simp add: ev_set_def)
    from this[OF R(5)] have "ev_set ?k4 e = ev_set ?k3 e" .
    also have "\<dots> = 0" using b by (simp add: ev_bits_simps ev_set_def)
    finally show ?thesis .
  qed
  ultimately show ?thesis unfolding e rt_event_recv_end_def using Z by (simp add: ev_set_def RT_EOK_def)
qed

text \<open>C16: The port of the Modbus stack to the kernel's events implements the event set of the
  stack's model: a post adds its event to the set; a poll that finds a set takes it as a whole
  and gets the event if there is exactly one, a word that no case of its switch knows if there
  are several; a poll that finds none suspends the polling thread, and the next event that is
  posted wakes that thread, is what its poll returns, and is gone from the set.\<close>

theorem event_port_refines:
  assumes "sane i k" "may_wait i (- 1) k" "waitq k (EventQ e) = []" "ev_set k e = ev_bits (xSlaveOsEvent s)"
  shows "ev_set (os_event_post e ev k) e = ev_bits (xSlaveOsEvent (xMBPortEventPost ev s)) \<and>
    (case os_event_get e k of (r, got, k') \<Rightarrow>
       (case fst (xMBPortEventGet s) of
          Blocks \<Rightarrow> r = Waiting \<and> stat_of k' (rt_current_thread k) = RT_THREAD_SUSPEND \<and>
            (let k'' = os_event_post e ev k'
             in stat_of k'' (rt_current_thread k) \<noteq> RT_THREAD_SUSPEND \<and>
                rt_event_recv_end (rt_current_thread k) k'' = (RT_EOK, Some (ev_code ev)) \<and>
                ev_set k'' e = ev_bits {})
        | Got ev' \<Rightarrow> r = Returned RT_EOK \<and> got = Some (ev_code ev') \<and> ev_set k' e = ev_bits {}
        | Unset \<Rightarrow> r = Returned RT_EOK \<and> (\<exists>w. got = Some w \<and> (\<forall>ev'. w \<noteq> ev_code ev')) \<and> ev_set k' e = ev_bits {}))"
proof -
  let ?S = "xSlaveOsEvent s"
  have z: "ev_bits {} = 0" by (simp add: ev_bits_def)
  have sc: "event_scan e [] False j = (True, False, j)" for j by simp
  have p: "ev_set (os_event_post e ev k) e = ev_bits (xSlaveOsEvent (xMBPortEventPost ev s))"
    using assms(3,4) by (simp add: os_event_post_def rt_event_send_def Let_def ev_bits_simps xMBPortEventPost_def ev_set_def)
  show ?thesis
  proof (cases "?S = {}")
    case True
    then have b: "ev_set k e = 0" using assms(4) z by simp
    obtain k' where k': "os_event_get e k = (Waiting, None, k')" "sane i k'" "waitq k' (EventQ e) = [rt_current_thread k]"
        "ev_set k' e = 0" "event_set (threads k' (rt_current_thread k)) = 15"
        "event_info (threads k' (rt_current_thread k)) = GET_OPT" "t_error (threads k' (rt_current_thread k)) = RT_EOK"
      using os_event_get_none[OF assms(1-3) b] by blast
    have "stat_of k' (rt_current_thread k) = RT_THREAD_SUSPEND"
      using in_waitq[OF saneD(2)[OF k'(2)], of _ "EventQ e"] k'(3) by simp
    then show ?thesis
      using p True k'(1) z post_to_waiting[OF saneD(2)[OF k'(2)] k'(3-7), of ev]
      by (simp add: xMBPortEventGet_def event_switch_def Let_def)
  next
    case False
    then obtain k' where k': "os_event_get e k = (Returned RT_EOK, Some (ev_bits ?S), k')" "ev_set k' e = 0"
      using os_event_get_some[OF assms(4)] by blast
    show ?thesis
    proof (cases "\<exists>ev'. ?S = {ev'}")
      case True
      then obtain ev' where ev': "?S = {ev'}" ..
      then have "fst (xMBPortEventGet s) = Got ev'" "ev_bits ?S = ev_code ev'"
        using ev_bits_code by (cases ev'; simp add: xMBPortEventGet_def event_switch_def)+
      then show ?thesis using p k' z by simp
    next
      case several: False
      then have "fst (xMBPortEventGet s) = Unset" using False by (simp add: xMBPortEventGet_def event_switch_def)
      moreover have "\<forall>ev'. ev_bits ?S \<noteq> ev_code ev'" using several ev_bits_code by blast
      ultimately show ?thesis using p k' z by simp
    qed
  qed
qed

text \<open>The main thread polls after the start, and a frame arrives.\<close>

definition poll_system :: kern where "poll_system = snd (rt_event_init 9 RT_IPC_FLAG_PRIO system0)"

lemma poll_system:
  "sane 2 poll_system" "may_wait 2 (- 1) poll_system" "waitq poll_system (EventQ 9) = []" "ev_set poll_system 9 = 0"
proof -
  have "sane 2 system0"
    using kruns_sane[OF kruns.boot[of 1 2 9]] by (simp add: system0_def)
  then show "sane 2 poll_system" unfolding poll_system_def by (intro init_sane(3)) simp_all
  show "may_wait 2 (- 1) poll_system" "waitq poll_system (EventQ 9) = []" "ev_set poll_system 9 = 0"
    using startup_ok[of 1 2]
    by (simp_all add: poll_system_def rt_event_init_def Let_def RT_ASSERT_def may_wait_def HORIZON_def ev_set_def
        upd_event_def system0_def)
qed

lemma event_port_refines_witness:
  "ev_set (os_event_post 9 EV_FRAME_RECEIVED poll_system) 9 = ev_bits {EV_FRAME_RECEIVED} \<and>
   fst (os_event_get 9 poll_system) = Waiting"
  using event_port_refines[OF poll_system(1,2,3), of rtu_idle EV_FRAME_RECEIVED] poll_system(4)
  by (simp add: rtu_idle_def xMBPortEventPost_def xMBPortEventGet_def event_switch_def ev_bits_def split: prod.splits)

end
