(* ===== verification/KMem.thy ===== *)
theory KMem
  imports RtDef
begin

text \<open>
  The memory and string functions of src/rt-thread/src/kservice.c.  The memory is a map from
  addresses to bytes; the addresses of the objects a function works on do not wrap.  Words
  have four bytes, the low one first, and the functions for blocks work on words where their
  arguments are aligned.  A search that does not end is \<open>None\<close>.

  The lemmas show that the copies by words do what copies by bytes do, and what the string
  functions compute on terminated strings.
\<close>

section \<open>Words in memory\<close>

type_synonym mem = "nat \<Rightarrow> u8"

definition word_at :: "mem \<Rightarrow> nat \<Rightarrow> u32" where
  "word_at b q = (ucast (b q) :: u32) OR push_bit 8 (ucast (b (q + 1))) OR push_bit 16 (ucast (b (q + 2))) OR
     push_bit 24 (ucast (b (q + 3)))"

definition store_word :: "nat \<Rightarrow> u32 \<Rightarrow> mem \<Rightarrow> mem" where
  "store_word q w b = b(q := ucast w, q + 1 := ucast (drop_bit 8 w), q + 2 := ucast (drop_bit 16 w),
     q + 3 := ucast (drop_bit 24 w))"

lemma word_at_store [simp]: "word_at (store_word q w b) q = w"
proof (rule bit_word_eqI)
  fix n assume "n < LENGTH(32)"
  then consider "n < 8" | "8 \<le> n" "n < 16" | "16 \<le> n" "n < 24" | "24 \<le> n" "n < 32" by fastforce
  then show "bit (word_at (store_word q w b) q) n = bit w n"
    by cases (auto simp: word_at_def store_word_def bit_simps)
qed

lemma word_at_apart [simp]: "q + 4 \<le> j \<or> j + 4 \<le> q \<Longrightarrow> word_at (store_word q w b) j = word_at b j"
  by (auto simp: word_at_def store_word_def)

lemma store_word_apart: "j < q \<or> q + 4 \<le> j \<Longrightarrow> store_word q w b j = b j"
  by (auto simp: store_word_def)

lemma word_bytes:
  "ucast (word_at b q) = b q" "ucast (drop_bit 8 (word_at b q)) = b (q + 1)"
  "ucast (drop_bit 16 (word_at b q)) = b (q + 2)" "ucast (drop_bit 24 (word_at b q)) = b (q + 3)"
  by (rule bit_word_eqI; auto simp: word_at_def bit_simps dest: bit_imp_le_length)+

section \<open>Filling\<close>

text \<open>\<open>d\<close> is the byte, \<open>buffer\<close> a word of it.\<close>

definition fill_word :: "u32 \<Rightarrow> u32" where
  "fill_word d = (let buffer = push_bit 8 d OR d in buffer OR push_bit 16 buffer)"

fun fill_big :: "nat \<Rightarrow> nat \<Rightarrow> u32 \<Rightarrow> mem \<Rightarrow> nat \<times> nat \<times> mem" where
  "fill_big a n w m =
     (if 16 \<le> n
      then fill_big (a + 16) (n - 16) w (store_word (a + 12) w (store_word (a + 8) w (store_word (a + 4) w (store_word a w m))))
      else (a, n, m))"

fun fill_little :: "nat \<Rightarrow> nat \<Rightarrow> u32 \<Rightarrow> mem \<Rightarrow> nat \<times> nat \<times> mem" where
  "fill_little a n w m = (if 4 \<le> n then fill_little (a + 4) (n - 4) w (store_word a w m) else (a, n, m))"

fun fill_bytes :: "nat \<Rightarrow> nat \<Rightarrow> u32 \<Rightarrow> mem \<Rightarrow> mem" where
  "fill_bytes a 0 d m = m"
| "fill_bytes a (Suc n) d m = fill_bytes (a + 1) n d (m(a := ucast d))"

definition rt_memset :: "nat \<Rightarrow> u32 \<Rightarrow> nat \<Rightarrow> mem \<Rightarrow> mem" where
  "rt_memset s c count m =
     (let d = c AND 0xff
      in if \<not> count < 4 \<and> s mod 4 = 0
         then let (a, n, m) = fill_big s count (fill_word d) m; (a, n, m) = fill_little a n (fill_word d) m
              in fill_bytes a n d m
         else fill_bytes s count d m)"

section \<open>Copying\<close>

text \<open>\<open>*aligned_dst++ = *aligned_src++\<close>\<close>

definition copy_word :: "nat \<Rightarrow> nat \<Rightarrow> mem \<Rightarrow> mem" where
  "copy_word d s m = store_word d (word_at m s) m"

fun copy_big :: "nat \<Rightarrow> nat \<Rightarrow> nat \<Rightarrow> mem \<Rightarrow> nat \<times> nat \<times> nat \<times> mem" where
  "copy_big d s n m =
     (if 16 \<le> n
      then copy_big (d + 16) (s + 16) (n - 16)
             (copy_word (d + 12) (s + 12) (copy_word (d + 8) (s + 8) (copy_word (d + 4) (s + 4) (copy_word d s m))))
      else (d, s, n, m))"

fun copy_little :: "nat \<Rightarrow> nat \<Rightarrow> nat \<Rightarrow> mem \<Rightarrow> nat \<times> nat \<times> nat \<times> mem" where
  "copy_little d s n m = (if 4 \<le> n then copy_little (d + 4) (s + 4) (n - 4) (copy_word d s m) else (d, s, n, m))"

fun copy_up :: "nat \<Rightarrow> nat \<Rightarrow> nat \<Rightarrow> mem \<Rightarrow> mem" where
  "copy_up d s 0 m = m"
| "copy_up d s (Suc n) m = copy_up (d + 1) (s + 1) n (m(d := m s))"

definition rt_memcpy :: "nat \<Rightarrow> nat \<Rightarrow> nat \<Rightarrow> mem \<Rightarrow> mem" where
  "rt_memcpy dst src count m =
     (if \<not> count < 16 \<and> src mod 4 = 0 \<and> dst mod 4 = 0
      then let (d, s, n, m) = copy_big dst src count m; (d, s, n, m) = copy_little d s n m
           in copy_up d s n m
      else copy_up dst src count m)"

text \<open>The copy from the end; \<open>d\<close> and \<open>s\<close> point behind the bytes that are left.\<close>

fun copy_down :: "nat \<Rightarrow> nat \<Rightarrow> nat \<Rightarrow> mem \<Rightarrow> mem" where
  "copy_down d s 0 m = m"
| "copy_down d s (Suc n) m = copy_down (d - 1) (s - 1) n (m(d - 1 := m (s - 1)))"

definition rt_memmove :: "nat \<Rightarrow> nat \<Rightarrow> nat \<Rightarrow> mem \<Rightarrow> mem" where
  "rt_memmove dest src n m =
     (if src < dest \<and> dest < src + n then copy_down (dest + n) (src + n) n m else copy_up dest src n m)"

section \<open>Comparing and strings\<close>

fun rt_memcmp :: "nat \<Rightarrow> nat \<Rightarrow> nat \<Rightarrow> mem \<Rightarrow> int" where
  "rt_memcmp cs ct 0 m = 0"
| "rt_memcmp cs ct (Suc n) m =
     (let res = uint (m cs) - uint (m ct) in if res \<noteq> 0 then res else rt_memcmp (cs + 1) (ct + 1) n m)"

partial_function (option) str_end :: "nat \<Rightarrow> mem \<Rightarrow> nat option" where
  "str_end sc m = (if m sc \<noteq> 0 then str_end (sc + 1) m else Some sc)"

definition rt_strlen :: "nat \<Rightarrow> mem \<Rightarrow> nat option" where
  "rt_strlen s m = map_option (\<lambda>sc. sc - s) (str_end s m)"

fun strnlen_from :: "nat \<Rightarrow> nat \<Rightarrow> nat \<Rightarrow> mem \<Rightarrow> nat" where
  "strnlen_from s k 0 m = k"
| "strnlen_from s k (Suc n) m = (if m (s + k) \<noteq> 0 then strnlen_from s (k + 1) n m else k)"

definition rt_strnlen :: "nat \<Rightarrow> nat \<Rightarrow> mem \<Rightarrow> nat" where
  "rt_strnlen s maxlen m = strnlen_from s 0 maxlen m"

text \<open>The search of \<open>rt_strstr\<close>: \<open>k\<close> places are left to try.\<close>

fun find_str :: "nat \<Rightarrow> nat \<Rightarrow> nat \<Rightarrow> nat \<Rightarrow> mem \<Rightarrow> nat option" where
  "find_str s1 s2 l2 0 m = None"
| "find_str s1 s2 l2 (Suc k) m = (if rt_memcmp s1 s2 l2 m = 0 then Some s1 else find_str (s1 + 1) s2 l2 k m)"

definition rt_strstr :: "nat \<Rightarrow> nat \<Rightarrow> mem \<Rightarrow> nat option option" where
  "rt_strstr s1 s2 m = do {
     l2 \<leftarrow> rt_strlen s2 m;
     if l2 = 0 then Some (Some s1)
     else do { l1 \<leftarrow> rt_strlen s1 m; Some (find_str s1 s2 l2 (if l2 \<le> l1 then l1 - l2 + 1 else 0) m) } }"

partial_function (option) rt_strcmp :: "nat \<Rightarrow> nat \<Rightarrow> mem \<Rightarrow> int option" where
  "rt_strcmp cs ct m = (if m cs \<noteq> 0 \<and> m cs = m ct then rt_strcmp (cs + 1) (ct + 1) m else Some (uint (m cs) - uint (m ct)))"

definition lower :: "u8 \<Rightarrow> int" where
  "lower c = (if 65 \<le> uint c \<and> uint c \<le> 90 then uint c + 32 else uint c)"

partial_function (option) rt_strcasecmp :: "nat \<Rightarrow> nat \<Rightarrow> mem \<Rightarrow> int option" where
  "rt_strcasecmp a b m =
     (let ca = lower (m a); cb = lower (m b)
      in if ca = cb \<and> ca \<noteq> 0 then rt_strcasecmp (a + 1) (b + 1) m else Some (ca - cb))"

text \<open>The difference is kept in a \<open>signed char\<close>.\<close>

fun rt_strncmp :: "nat \<Rightarrow> nat \<Rightarrow> nat \<Rightarrow> int \<Rightarrow> mem \<Rightarrow> int" where
  "rt_strncmp cs ct 0 res m = res"
| "rt_strncmp cs ct (Suc n) _ m =
     (let res = sint (m cs - m ct) in if res \<noteq> 0 \<or> m cs = 0 then res else rt_strncmp (cs + 1) (ct + 1) n res m)"

partial_function (option) rt_strcpy :: "nat \<Rightarrow> nat \<Rightarrow> mem \<Rightarrow> mem option" where
  "rt_strcpy dst src m = (if m src \<noteq> 0 then rt_strcpy (dst + 1) (src + 1) (m(dst := m src)) else Some (m(dst := 0)))"

fun pad_zeros :: "nat \<Rightarrow> nat \<Rightarrow> mem \<Rightarrow> mem" where
  "pad_zeros d 0 m = m"
| "pad_zeros d (Suc n) m = pad_zeros (d + 1) n (m(d := 0))"

fun rt_strncpy :: "nat \<Rightarrow> nat \<Rightarrow> nat \<Rightarrow> mem \<Rightarrow> mem" where
  "rt_strncpy d s 0 m = m"
| "rt_strncpy d s (Suc n) m =
     (let m = m(d := m s) in if m d = 0 then pad_zeros (d + 1) n m else rt_strncpy (d + 1) (s + 1) n m)"

declare fill_big.simps [simp del] fill_little.simps [simp del] copy_big.simps [simp del] copy_little.simps [simp del]

section \<open>Blocks\<close>

text \<open>\<open>n\<close> bytes at \<open>d\<close> are what the \<open>n\<close> bytes at \<open>s\<close> were.\<close>

definition moved :: "nat \<Rightarrow> nat \<Rightarrow> nat \<Rightarrow> mem \<Rightarrow> mem" where
  "moved d s n m = (\<lambda>j. if d \<le> j \<and> j < d + n then m (s + (j - d)) else m j)"

definition filled :: "nat \<Rightarrow> nat \<Rightarrow> u8 \<Rightarrow> mem \<Rightarrow> mem" where
  "filled a n v m = (\<lambda>j. if a \<le> j \<and> j < a + n then v else m j)"

lemma moved_zero [simp]: "moved d s 0 m = m"
  by (rule ext) (auto simp: moved_def)

lemma moved_moved:
  "k \<le> n \<Longrightarrow> d \<le> s \<or> s + n \<le> d \<Longrightarrow> moved (d + k) (s + k) (n - k) (moved d s k m) = moved d s n m"
  by (rule ext) (auto simp: moved_def)

lemma copy_word_moved: "d + 4 \<le> s \<or> s + 4 \<le> d \<or> d = s \<Longrightarrow> copy_word d s m = moved d s 4 m"
proof (rule ext)
  fix j
  consider "j < d \<or> d + 4 \<le> j" | "j = d" | "j = d + 1" | "j = d + 2" | "j = d + 3" by linarith
  then show "copy_word d s m j = moved d s 4 m j"
    by cases (auto simp: copy_word_def store_word_apart moved_def, auto simp: store_word_def word_bytes)
qed

lemma copy_up_moved: "d \<le> s \<or> s + n \<le> d \<Longrightarrow> copy_up d s n m = moved d s n m"
proof (induction n arbitrary: d s m)
  case (Suc n)
  have "copy_up (d + 1) (s + 1) n (m(d := m s)) = moved (d + 1) (s + 1) n (m(d := m s))"
    by (rule Suc.IH) (use Suc.prems in auto)
  also have "\<dots> = moved d s (Suc n) m" using Suc.prems by (intro ext) (auto simp: moved_def Suc_diff_Suc)
  finally show ?case by simp
qed simp


lemma copy_words_moved:
  assumes a: "d mod 4 = 0" "s mod 4 = 0" and n: "n mod 4 = 0" and o: "d \<le> s \<or> s + n \<le> d" and k: "4 \<le> n"
  shows "moved (d + 4) (s + 4) (n - 4) (copy_word d s m) = moved d s n m"
proof -
  have "d + 4 \<le> s \<or> s + 4 \<le> d \<or> d = s"
  proof -
    have "4 dvd d" "4 dvd s" using a by auto
    then obtain x y where "d = 4 * x" "s = 4 * y" by (meson dvdE)
    then show ?thesis using o k by auto
  qed
  then have "copy_word d s m = moved d s 4 m" by (rule copy_word_moved)
  then show ?thesis using moved_moved[of 4 n d s m] k o by simp
qed

text \<open>What a loop over words returns: everything up to a rest of less than \<open>w\<close> bytes is moved.\<close>

lemma copy_little_moved:
  "d mod 4 = 0 \<Longrightarrow> s mod 4 = 0 \<Longrightarrow> d \<le> s \<or> s + n \<le> d \<Longrightarrow>
     copy_little d s n m = (d + n div 4 * 4, s + n div 4 * 4, n mod 4, moved d s (n div 4 * 4) m)"
proof (induction d s n m rule: copy_little.induct)
  case (1 d s n m)
  show ?case
  proof (cases "4 \<le> n")
    case True
    have IH: "copy_little (d + 4) (s + 4) (n - 4) (copy_word d s m) = (d + 4 + (n - 4) div 4 * 4, s + 4 + (n - 4) div 4 * 4,
        (n - 4) mod 4, moved (d + 4) (s + 4) ((n - 4) div 4 * 4) (copy_word d s m))"
      by (rule 1(1)[OF True]) (use 1 True in auto)
    have e: "(n - 4) div 4 * 4 = n div 4 * 4 - 4" "(n - 4) mod 4 = n mod 4" "4 \<le> n div 4 * 4"
      using True by (auto simp: le_mod_geq le_div_geq)
    have "d \<le> s \<or> s + n div 4 * 4 \<le> d" using 1(4) by auto
    from copy_words_moved[OF 1(2,3) _ this e(3), of m] show ?thesis using IH True e by (subst copy_little.simps) simp
  qed (subst copy_little.simps, simp)
qed

lemma copy_big_little:
  assumes "16 \<le> n"
  shows "copy_little d s n m = copy_little (d + 16) (s + 16) (n - 16)
    (copy_word (d + 12) (s + 12) (copy_word (d + 8) (s + 8) (copy_word (d + 4) (s + 4) (copy_word d s m))))"
proof -
  have c: "4 \<le> n" "4 \<le> n - 4" "4 \<le> n - 8" "4 \<le> n - 12" using assms by simp_all
  show ?thesis
    by (subst copy_little.simps, subst copy_little.simps, subst copy_little.simps, subst copy_little.simps)
       (simp add: c add.commute)
qed

lemma copy_big_then_little:
  "(let (d, s, n, m) = copy_big d s n m in copy_little d s n m) = copy_little d s n m"
proof (induction d s n m rule: copy_big.induct)
  case (1 d s n m)
  show ?case
  proof (cases "16 \<le> n")
    case True
    then show ?thesis using 1[OF True] copy_big_little[OF True] by (subst copy_big.simps) simp
  qed (subst copy_big.simps, simp)
qed

lemma rt_memcpy_moved:
  assumes "d \<le> s \<or> s + n \<le> d"
  shows "rt_memcpy d s n m = moved d s n m"
proof (cases "\<not> n < 16 \<and> s mod 4 = 0 \<and> d mod 4 = 0")
  case True
  let ?k = "n div 4 * 4"
  have l: "(let (d, s, n, m) = copy_big d s n m in copy_little d s n m) = (d + ?k, s + ?k, n mod 4, moved d s ?k m)"
    unfolding copy_big_then_little using copy_little_moved[of d s n m] True assms by simp
  have "rt_memcpy d s n m = (let (d, s, n, m) = (let (d, s, n, m) = copy_big d s n m in copy_little d s n m) in copy_up d s n m)"
    using True by (simp add: rt_memcpy_def Let_def split_beta)
  also have "\<dots> = copy_up (d + ?k) (s + ?k) (n mod 4) (moved d s ?k m)" unfolding l by simp
  also have "\<dots> = moved (d + ?k) (s + ?k) (n - ?k) (moved d s ?k m)"
    using copy_up_moved[of "d + ?k" "s + ?k" "n mod 4"] assms by (auto simp: minus_div_mult_eq_mod)
  also have "\<dots> = moved d s n m" by (rule moved_moved) (use assms in auto)
  finally show ?thesis .
qed (use copy_up_moved[OF assms] in \<open>auto simp: rt_memcpy_def\<close>)

lemma copy_down_moved: "s < d \<Longrightarrow> copy_down (d + n) (s + n) n m = moved d s n m"
proof (induction n arbitrary: m)
  case (Suc n)
  have "copy_down (d + n) (s + n) n (m(d + n := m (s + n))) = moved d s n (m(d + n := m (s + n)))"
    by (rule Suc.IH[OF Suc.prems])
  also have "\<dots> = moved d s (Suc n) m" using Suc.prems by (intro ext) (auto simp: moved_def)
  finally show ?case by simp
qed simp

lemma rt_memmove_moved: "rt_memmove d s n m = moved d s n m"
  using copy_down_moved[of s d n m] copy_up_moved[of d s n m] by (auto simp: rt_memmove_def)


section \<open>Filling by words\<close>

lemma filled_zero [simp]: "filled a 0 v m = m"
  by (rule ext) (auto simp: filled_def)

lemma filled_filled: "k \<le> n \<Longrightarrow> filled (a + k) (n - k) v (filled a k v m) = filled a n v m"
  by (rule ext) (auto simp: filled_def)

lemma fill_word_bytes:
  assumes "d AND 0xff = d"
  shows "ucast (fill_word d) = (ucast d :: u8)" "ucast (drop_bit 8 (fill_word d)) = (ucast d :: u8)"
    "ucast (drop_bit 16 (fill_word d)) = (ucast d :: u8)" "ucast (drop_bit 24 (fill_word d)) = (ucast d :: u8)"
proof -
  have m: "(0xff :: u32) = mask 8" by (simp add: mask_eq_exp_minus_1)
  have b: "\<not> bit d n" if "8 \<le> n" for n
    using arg_cong[OF assms, of "\<lambda>w. bit w n"] that unfolding m by (simp add: bit_simps)
  show "ucast (fill_word d) = (ucast d :: u8)" "ucast (drop_bit 8 (fill_word d)) = (ucast d :: u8)"
    "ucast (drop_bit 16 (fill_word d)) = (ucast d :: u8)" "ucast (drop_bit 24 (fill_word d)) = (ucast d :: u8)"
    by (rule bit_word_eqI; auto simp: fill_word_def Let_def bit_simps b)+
qed

lemma store_filled:
  assumes "d AND 0xff = d" shows "store_word a (fill_word d) m = filled a 4 (ucast d) m"
proof (rule ext)
  fix j
  consider "j < a \<or> a + 4 \<le> j" | "j = a" | "j = a + 1" | "j = a + 2" | "j = a + 3" by linarith
  then show "store_word a (fill_word d) m j = filled a 4 (ucast d) m j"
    by cases (auto simp: store_word_apart filled_def, auto simp: store_word_def fill_word_bytes[OF assms])
qed

lemma fill_bytes_filled: "fill_bytes a n d m = filled a n (ucast d) m"
proof (induction n arbitrary: a m)
  case (Suc n)
  have "fill_bytes a (Suc n) d m = filled (a + 1) n (ucast d) (m(a := ucast d))"
    by (simp only: fill_bytes.simps Suc.IH)
  also have "\<dots> = filled a (Suc n) (ucast d) m" by (rule ext) (auto simp: filled_def)
  finally show ?case .
qed simp

lemma fill_little_filled:
  "d AND 0xff = d \<Longrightarrow> fill_little a n (fill_word d) m = (a + n div 4 * 4, n mod 4, filled a (n div 4 * 4) (ucast d) m)"
proof (induction n arbitrary: a m rule: less_induct)
  case (less n)
  show ?case
  proof (cases "4 \<le> n")
    case True
    have IH: "fill_little (a + 4) (n - 4) (fill_word d) (store_word a (fill_word d) m) =
      (a + 4 + (n - 4) div 4 * 4, (n - 4) mod 4, filled (a + 4) ((n - 4) div 4 * 4) (ucast d) (store_word a (fill_word d) m))"
      by (rule less.IH) (use True less.prems in auto)
    have e: "(n - 4) div 4 * 4 = n div 4 * 4 - 4" "(n - 4) mod 4 = n mod 4" "4 \<le> n div 4 * 4"
      using True by (auto simp: le_mod_geq le_div_geq)
    show ?thesis
      using IH True e store_filled[OF less.prems, of a m] filled_filled[OF e(3), of a "ucast d" m]
      by (subst fill_little.simps) simp
  qed (subst fill_little.simps, simp)
qed

lemma fill_big_little:
  assumes "16 \<le> n"
  shows "fill_little a n w m = fill_little (a + 16) (n - 16) w
    (store_word (a + 12) w (store_word (a + 8) w (store_word (a + 4) w (store_word a w m))))"
proof -
  have c: "4 \<le> n" "4 \<le> n - 4" "4 \<le> n - 8" "4 \<le> n - 12" using assms by simp_all
  show ?thesis
    by (subst fill_little.simps, subst fill_little.simps, subst fill_little.simps, subst fill_little.simps)
       (simp add: c add.commute)
qed

lemma fill_big_then_little: "(let (a, n, m) = fill_big a n w m in fill_little a n w m) = fill_little a n w m"
proof (induction a n w m rule: fill_big.induct)
  case (1 a n w m)
  show ?case
  proof (cases "16 \<le> n")
    case True
    then show ?thesis using 1[OF True] fill_big_little[OF True] by (subst fill_big.simps) simp
  qed (subst fill_big.simps, simp)
qed

lemma rt_memset_filled: "rt_memset s c n m = filled s n (ucast c) m"
proof -
  define d where "d = c AND 0xff"
  have m: "(0xff :: u32) = mask 8" by (simp add: mask_eq_exp_minus_1)
  have d: "d AND 0xff = d" by (simp add: d_def and.assoc)
  have c: "(ucast c :: u8) = ucast d" unfolding d_def m by (rule bit_word_eqI) (simp add: bit_simps)
  show ?thesis
  proof (cases "\<not> n < 4 \<and> s mod 4 = 0")
    case True
    have l: "(let (a, n, m) = fill_big s n (fill_word d) m in fill_little a n (fill_word d) m) =
        (s + n div 4 * 4, n mod 4, filled s (n div 4 * 4) (ucast d) m)"
      unfolding fill_big_then_little by (rule fill_little_filled[OF d])
    have "rt_memset s c n m =
        (let (a, n, m) = (let (a, n, m) = fill_big s n (fill_word d) m in fill_little a n (fill_word d) m) in fill_bytes a n d m)"
      using True by (simp add: rt_memset_def Let_def split_beta d_def)
    also have "\<dots> = filled (s + n div 4 * 4) (n - n div 4 * 4) (ucast d) (filled s (n div 4 * 4) (ucast d) m)"
      unfolding l by (simp add: fill_bytes_filled minus_div_mult_eq_mod)
    also have "\<dots> = filled s n (ucast d) m" by (rule filled_filled) simp
    finally show ?thesis using c by simp
  qed (auto simp: rt_memset_def Let_def fill_bytes_filled d_def[symmetric] c)
qed

section \<open>Strings\<close>

fun str_at :: "nat \<Rightarrow> mem \<Rightarrow> u8 list \<Rightarrow> bool" where
  "str_at s m [] \<longleftrightarrow> m s = 0"
| "str_at s m (x # xs) \<longleftrightarrow> m s = x \<and> x \<noteq> 0 \<and> str_at (s + 1) m xs"

lemma str_nth: "str_at s m xs \<Longrightarrow> i < length xs \<Longrightarrow> m (s + i) = xs ! i \<and> xs ! i \<noteq> 0"
  by (induction s m xs arbitrary: i rule: str_at.induct) (auto simp: nth_Cons split: nat.splits)

lemma str_terminated: "str_at s m xs \<Longrightarrow> m (s + length xs) = 0"
  by (induction s m xs rule: str_at.induct) auto

lemma str_atI: "(\<And>i. i < length xs \<Longrightarrow> m (s + i) = xs ! i \<and> xs ! i \<noteq> 0) \<Longrightarrow> m (s + length xs) = 0 \<Longrightarrow> str_at s m xs"
proof (induction xs arbitrary: s)
  case (Cons x xs)
  have "str_at (s + 1) m xs"
    by (rule Cons.IH) (use Cons.prems(1)[of "Suc _"] Cons.prems(2) in auto)
  then show ?case using Cons.prems(1)[of 0] by simp
qed simp

lemma str_end_at: "str_at s m xs \<Longrightarrow> str_end s m = Some (s + length xs)"
  by (induction s m xs rule: str_at.induct) (subst str_end.simps, simp)+

lemma rt_strlen_at: "str_at s m xs \<Longrightarrow> rt_strlen s m = Some (length xs)"
  by (simp add: rt_strlen_def str_end_at)

lemma strnlen_from_at: "str_at (s + k) m xs \<Longrightarrow> strnlen_from s k n m = k + min n (length xs)"
  by (induction n arbitrary: k xs; case_tac xs) auto

lemma rt_strnlen_at: "str_at s m xs \<Longrightarrow> rt_strnlen s n m = min n (length xs)"
  using strnlen_from_at[of s 0 m xs n] by (simp add: rt_strnlen_def)

lemma rt_memcmp_eq: "rt_memcmp a b n m = 0 \<longleftrightarrow> (\<forall>i<n. m (a + i) = m (b + i))"
proof (induction n arbitrary: a b)
  case (Suc n)
  have "(\<forall>i<Suc n. m (a + i) = m (b + i)) \<longleftrightarrow> m a = m b \<and> (\<forall>i<n. m (a + 1 + i) = m (b + 1 + i))"
    by (simp add: All_less_Suc2)
  then show ?case using Suc[of "a + 1" "b + 1"] by (auto simp: Let_def word_uint_eq_iff)
qed simp


lemma str_at_cong: "(\<And>i. i \<le> length xs \<Longrightarrow> m' (s + i) = m (s + i)) \<Longrightarrow> str_at s m xs \<Longrightarrow> str_at s m' xs"
  by (rule str_atI) (auto dest: str_nth str_terminated)

lemma rt_strcpy_at:
  "str_at src m xs \<Longrightarrow> dst + length xs < src \<or> src + length xs < dst \<Longrightarrow>
     rt_strcpy dst src m = Some (moved dst src (length xs + 1) m)"
proof (induction xs arbitrary: dst src m)
  case Nil
  then have "m(dst := 0) = moved dst src 1 m" by (intro ext) (auto simp: moved_def)
  then show ?case using Nil by (subst rt_strcpy.simps) simp
next
  case (Cons x xs)
  let ?m = "m(dst := m src)"
  have "str_at (src + 1) ?m xs" by (rule str_at_cong[of xs ?m "src + 1" m]) (use Cons.prems in auto)
  then have "rt_strcpy (dst + 1) (src + 1) ?m = Some (moved (dst + 1) (src + 1) (length xs + 1) ?m)"
    by (rule Cons.IH) (use Cons.prems(2) in auto)
  moreover have "moved (dst + 1) (src + 1) (length xs + 1) ?m = moved dst src (length (x # xs) + 1) m"
    using Cons.prems(2) by (intro ext) (auto simp: moved_def Suc_diff_Suc)
  ultimately show ?case using Cons.prems(1) by (subst rt_strcpy.simps) simp
qed

lemma find_map: "find P (map f xs) = map_option f (find (\<lambda>x. P (f x)) xs)"
  by (induction xs) auto

lemma find_str_find: "find_str s1 s2 l k m = map_option ((+) s1) (find (\<lambda>i. rt_memcmp (s1 + i) s2 l m = 0) [0..<k])"
proof (induction k arbitrary: s1)
  case (Suc k)
  have "[0..<Suc k] = 0 # map Suc [0..<k]" by (simp add: upt_conv_Cons map_Suc_upt)
  then show ?case using Suc[of "s1 + 1"] by (simp add: find_map option.map_comp comp_def)
qed simp

section \<open>Properties\<close>

text \<open>Copying by words moves exactly the bytes that a copy byte by byte moves, wherever the
  two blocks lie and however they are aligned, as long as the destination does not begin
  inside the source; \<open>rt_memmove\<close> moves them in every case.\<close>

theorem memcpy_is_memmove:
  assumes "d \<le> s \<or> s + n \<le> d"
  shows "rt_memcpy d s n m = rt_memmove d s n m"
  by (simp only: rt_memcpy_moved[OF assms] rt_memmove_moved)

theorem memcpy_is_memmove_witness:
  "rt_memcpy 0 4 23 (\<lambda>j. of_nat j) = rt_memmove 0 4 23 (\<lambda>j. of_nat j :: u8)"
  by (rule memcpy_is_memmove) simp

text \<open>The sign of \<open>rt_strcmp\<close> is the lexicographic order of the two strings.\<close>

theorem strcmp_is_lexicographic:
  assumes "str_at a m xs" "str_at b m ys"
  shows "map_option sgn (rt_strcmp a b m) = Some (if xs = ys then 0 else if ord_class.lexordp xs ys then -1 else 1)"
  using assms
proof (induction xs arbitrary: a b ys)
  case Nil
  then show ?case
    by (subst rt_strcmp.simps; cases ys) (auto simp: word_neq_0_conv word_less_def)
next
  case (Cons x xs)
  show ?case
  proof (cases ys)
    case Nil
    then show ?thesis using Cons.prems by (subst rt_strcmp.simps) (auto simp: word_neq_0_conv word_less_def)
  next
    case (Cons y zs)
    show ?thesis
    proof (cases "x = y")
      case True
      then have "rt_strcmp a b m = rt_strcmp (a + 1) (b + 1) m"
        using Cons.prems Cons by (subst rt_strcmp.simps) simp
      then show ?thesis using Cons.IH[of "a + 1" "b + 1" zs] Cons.prems Cons True by auto
    next
      case False
      then have "rt_strcmp a b m = Some (uint x - uint y)" using Cons.prems Cons by (subst rt_strcmp.simps) simp
      then show ?thesis using False Cons by (simp add: word_less_def sgn_if word_uint_eq_iff)
    qed
  qed
qed

text \<open>\<open>rt_strstr\<close> finds the first place at which the second string occurs in the first.\<close>

theorem strstr_finds_first:
  assumes a: "str_at s1 m xs" and b: "str_at s2 m ys"
  shows "rt_strstr s1 s2 m =
    Some (map_option ((+) s1) (find (\<lambda>i. take (length ys) (drop i xs) = ys) [0..<Suc (length xs) - length ys]))"
proof -
  have c: "rt_memcmp (s1 + i) s2 (length ys) m = 0 \<longleftrightarrow> take (length ys) (drop i xs) = ys"
    if "i < Suc (length xs) - length ys" for i
  proof -
    have l: "length (take (length ys) (drop i xs)) = length ys" using that by auto
    have n: "take (length ys) (drop i xs) ! j = m (s1 + i + j)" "ys ! j = m (s2 + j)" if "j < length ys" for j
      using str_nth[OF a, of "i + j"] str_nth[OF b that] that l by (simp_all add: add.assoc)
    show ?thesis unfolding rt_memcmp_eq using l n by (auto simp: list_eq_iff_nth_eq)
  qed
  have f: "find_str s1 s2 (length ys) (Suc (length xs) - length ys) m =
      map_option ((+) s1) (find (\<lambda>i. take (length ys) (drop i xs) = ys) [0..<Suc (length xs) - length ys])"
    unfolding find_str_find by (intro arg_cong[where f = "map_option ((+) s1)"] find_cong refl c) simp
  show ?thesis
  proof (cases "ys = []")
    case True
    then show ?thesis using rt_strlen_at[OF b] by (simp add: rt_strstr_def upt_conv_Cons del: upt_Suc)
  next
    case False
    then show ?thesis using rt_strlen_at[OF a] rt_strlen_at[OF b] f
      by (auto simp: rt_strstr_def Suc_diff_le not_le)
  qed
qed

text \<open>A string in memory for the witnesses.\<close>

definition put_str :: "nat \<Rightarrow> u8 list \<Rightarrow> mem \<Rightarrow> mem" where
  "put_str s xs m = (\<lambda>j. if s \<le> j \<and> j < s + length xs then xs ! (j - s) else if j = s + length xs then 0 else m j)"

lemma str_at_put: "0 \<notin> set xs \<Longrightarrow> str_at s (put_str s xs m) xs"
  by (rule str_atI) (auto simp: put_str_def, metis nth_mem)

lemma str_at_put_apart:
  "str_at t m ys \<Longrightarrow> t + length ys < s \<or> s + length xs < t \<Longrightarrow> str_at t (put_str s xs m) ys"
  by (rule str_at_cong[of ys _ t m]) (auto simp: put_str_def)

theorem strcmp_is_lexicographic_witness:
  "map_option sgn (rt_strcmp 0 10 (put_str 10 [97, 99] (put_str 0 [97, 98] (\<lambda>_. 0)))) = Some (-1)"
proof -
  let ?m = "put_str 10 [97, 99] (put_str 0 [97, 98] (\<lambda>_. 0)) :: mem"
  have a: "str_at 0 ?m [97, 98]" by (rule str_at_put_apart[OF str_at_put]) simp_all
  have b: "str_at 10 ?m [97, 99]" by (rule str_at_put) simp
  show ?thesis unfolding strcmp_is_lexicographic[OF a b] by simp
qed

theorem strstr_finds_first_witness:
  "rt_strstr 0 10 (put_str 10 [98, 99] (put_str 0 [97, 98, 99] (\<lambda>_. 0))) = Some (Some 1)"
proof -
  let ?m = "put_str 10 [98, 99] (put_str 0 [97, 98, 99] (\<lambda>_. 0)) :: mem"
  have a: "str_at 0 ?m [97, 98, 99]" by (rule str_at_put_apart[OF str_at_put]) simp_all
  have b: "str_at 10 ?m [98, 99]" by (rule str_at_put) simp
  show ?thesis unfolding strstr_finds_first[OF a b] by (simp add: upt_conv_Cons)
qed

text \<open>The \<open>signed char\<close> of \<open>rt_strncmp\<close> turns the sign of a difference above 127: a byte of 129
  is found to be smaller than a byte of 1.\<close>

lemma strncmp_wrong_sign: "rt_strncmp 0 10 1 0 (put_str 10 [1] (put_str 0 [129] (\<lambda>_. 0))) = -128"
  by (simp add: put_str_def)

end
