(* ===== verification/Mem.thy ===== *)
theory Mem
  imports KMem
begin

text \<open>
  src/rt-thread/src/mem.c: the heap of the kernel.  Every
  block starts with an item of 12 bytes that links it to its neighbours, in the same memory as the
  contents of the blocks; a pointer into the heap is its offset from \<open>heap_ptr\<close>, which is
  aligned, and the null pointer is \<open>None\<close>.  A failed assertion is \<open>None\<close>, and so is a loop
  that does not end.  The configuration is that of rtconfig.h: 32 bits, an alignment of
  4, no tracing of the memory.

  The lemmas show that the heap is always a row of blocks without a gap in which no two free
  blocks meet, that allocation takes the first block that fits and what it gives overlaps
  nothing, and that freeing everything gives the initial heap back.
\<close>

section \<open>The heap\<close>

record mem_item =
  pool_ptr :: u32
  next_off :: u32
  prev_off :: u32

record small_mem =
  smem_addr :: u32
  heap_end :: u32
  lfree :: u32
  mem_size_aligned :: u32
  mem_used :: u32
  mem_max :: u32
  heap_bytes :: "nat \<Rightarrow> u8"

definition SIZEOF_STRUCT_MEM :: u32 where "SIZEOF_STRUCT_MEM = 12"
definition MIN_SIZE :: u32 where "MIN_SIZE = 12"
definition MIN_SIZE_ALIGNED :: u32 where "MIN_SIZE_ALIGNED = 12"
definition SIZEOF_SMALL_MEM :: u32 where "SIZEOF_SMALL_MEM = 64"
definition MEM_MASK :: u32 where "MEM_MASK = 0xfffffffe"

lemmas mem_consts = SIZEOF_STRUCT_MEM_def MIN_SIZE_def MIN_SIZE_ALIGNED_def SIZEOF_SMALL_MEM_def

definition RT_ALIGN_DOWN :: "u32 \<Rightarrow> u32" where "RT_ALIGN_DOWN n = n AND NOT (4 - 1)"

definition MEM_USED :: "small_mem \<Rightarrow> u32" where "MEM_USED m = (smem_addr m AND MEM_MASK) OR 1"
definition MEM_FREED :: "small_mem \<Rightarrow> u32" where "MEM_FREED m = (smem_addr m AND MEM_MASK) OR 0"
definition MEM_ISUSED :: "mem_item \<Rightarrow> bool" where "MEM_ISUSED it \<longleftrightarrow> pool_ptr it AND NOT MEM_MASK \<noteq> 0"
definition MEM_POOL :: "mem_item \<Rightarrow> u32" where "MEM_POOL it = pool_ptr it AND MEM_MASK"

definition items :: "small_mem \<Rightarrow> nat \<Rightarrow> mem_item" where
  "items m q = \<lparr>pool_ptr = word_at (heap_bytes m) q, next_off = word_at (heap_bytes m) (q + 4),
     prev_off = word_at (heap_bytes m) (q + 8)\<rparr>"

definition item :: "small_mem \<Rightarrow> u32 \<Rightarrow> mem_item" where "item m p = items m (unat p)"

definition upd_item :: "u32 \<Rightarrow> (mem_item \<Rightarrow> mem_item) \<Rightarrow> small_mem \<Rightarrow> small_mem" where
  "upd_item p f m =
     (let q = unat p; it = f (items m q)
      in m\<lparr>heap_bytes := store_word (q + 8) (prev_off it) (store_word (q + 4) (next_off it)
           (store_word q (pool_ptr it) (heap_bytes m)))\<rparr>)"

text \<open>\<open>bytes\<close> is what the memory held before.\<close>

definition rt_smem_init :: "u32 \<Rightarrow> u32 \<Rightarrow> (nat \<Rightarrow> u8) \<Rightarrow> small_mem option" where
  "rt_smem_init begin_addr sz bytes =
     (let small_mem = RT_ALIGN begin_addr;
          start_addr = small_mem + SIZEOF_SMALL_MEM;
          begin_align = RT_ALIGN start_addr;
          end_align = RT_ALIGN_DOWN (begin_addr + sz)
      in if 2 * SIZEOF_STRUCT_MEM < end_align \<and> start_addr \<le> end_align - 2 * SIZEOF_STRUCT_MEM
         then let mem_size = end_align - begin_align - 2 * SIZEOF_STRUCT_MEM;
                  e = mem_size + SIZEOF_STRUCT_MEM;
                  m = \<lparr>smem_addr = small_mem, heap_end = e, lfree = 0, mem_size_aligned = mem_size,
                       mem_used = 0, mem_max = 0, heap_bytes = bytes\<rparr>;
                  m = upd_item 0 (\<lambda>_. \<lparr>pool_ptr = MEM_FREED m, next_off = e, prev_off = 0\<rparr>) m
              in Some (upd_item e (\<lambda>_. \<lparr>pool_ptr = MEM_USED m, next_off = e, prev_off = e\<rparr>) m)
         else None)"

section \<open>Allocation\<close>

text \<open>The search from the lowest free block on.\<close>

partial_function (option) find_fit :: "small_mem \<Rightarrow> u32 \<Rightarrow> u32 \<Rightarrow> u32 option option" where
  "find_fit m sz ptr =
     (if ptr \<le> mem_size_aligned m - sz
      then if \<not> MEM_ISUSED (item m ptr) \<and> sz \<le> next_off (item m ptr) - (ptr + SIZEOF_STRUCT_MEM)
           then Some (Some ptr)
           else find_fit m sz (next_off (item m ptr))
      else Some None)"

partial_function (option) next_free :: "small_mem \<Rightarrow> u32 \<Rightarrow> u32 option" where
  "next_free m p =
     (if MEM_ISUSED (item m p) \<and> p \<noteq> heap_end m then next_free m (next_off (item m p)) else Some p)"

definition count_used :: "u32 \<Rightarrow> small_mem \<Rightarrow> small_mem" where
  "count_used n m =
     (let m = m\<lparr>mem_used := mem_used m + n\<rparr>
      in if mem_max m < mem_used m then m\<lparr>mem_max := mem_used m\<rparr> else m)"

text \<open>A block of \<open>sz\<close> bytes behind the item at \<open>ptr\<close>, and a free one in what is left.\<close>

definition cut_block :: "u32 \<Rightarrow> u32 \<Rightarrow> small_mem \<Rightarrow> small_mem" where
  "cut_block ptr sz m =
     (let nx = next_off (item m ptr); ptr2 = ptr + SIZEOF_STRUCT_MEM + sz;
          m = upd_item ptr2 (\<lambda>_. \<lparr>pool_ptr = MEM_FREED m, next_off = nx, prev_off = ptr\<rparr>) m;
          m = upd_item ptr (\<lambda>i. i\<lparr>next_off := ptr2\<rparr>) m
      in if nx \<noteq> mem_size_aligned m + SIZEOF_STRUCT_MEM then upd_item nx (\<lambda>i. i\<lparr>prev_off := ptr2\<rparr>) m else m)"

definition occupy :: "u32 \<Rightarrow> u32 \<Rightarrow> small_mem \<Rightarrow> small_mem" where
  "occupy sz ptr m =
     (let nx = next_off (item m ptr);
          m = (if sz + SIZEOF_STRUCT_MEM + MIN_SIZE_ALIGNED \<le> nx - (ptr + SIZEOF_STRUCT_MEM)
               then count_used (sz + SIZEOF_STRUCT_MEM) (cut_block ptr sz m)
               else count_used (nx - ptr) m)
      in upd_item ptr (\<lambda>i. i\<lparr>pool_ptr := MEM_USED m\<rparr>) m)"

definition take_block :: "u32 \<Rightarrow> u32 \<Rightarrow> small_mem \<Rightarrow> (u32 \<times> small_mem) option" where
  "take_block sz ptr m =
     (let m = occupy sz ptr m
      in do {
        m \<leftarrow> (if ptr = lfree m
             then do { l \<leftarrow> next_free m (lfree m);
                       if l = heap_end m \<or> \<not> MEM_ISUSED (item m l) then Some (m\<lparr>lfree := l\<rparr>) else None }
             else Some m);
        if ptr + SIZEOF_STRUCT_MEM + sz \<le> heap_end m \<and> unat (ptr + SIZEOF_STRUCT_MEM) mod 4 = 0 \<and> ptr AND (4 - 1) = 0
        then Some (ptr + SIZEOF_STRUCT_MEM, m) else None })"

definition rt_smem_alloc :: "u32 \<Rightarrow> small_mem \<Rightarrow> (u32 option \<times> small_mem) option" where
  "rt_smem_alloc sz m =
     (if sz = 0 then Some (None, m)
      else let sz = RT_ALIGN sz
           in if mem_size_aligned m < sz then Some (None, m)
              else let sz = (if sz < MIN_SIZE_ALIGNED then MIN_SIZE_ALIGNED else sz)
                   in do {
                     r \<leftarrow> find_fit m sz (lfree m);
                     case r of None \<Rightarrow> Some (None, m)
                     | Some ptr \<Rightarrow> map_option (apfst Some) (take_block sz ptr m) })"

section \<open>Freeing\<close>

text \<open>\<open>plug_holes\<close> joins the free block at \<open>p\<close> with the one behind it and the one before it;
  both times the item at \<open>b\<close>, which follows the one at \<open>a\<close>, goes.\<close>

definition join_items :: "u32 \<Rightarrow> u32 \<Rightarrow> small_mem \<Rightarrow> small_mem" where
  "join_items a b m =
     (let m = (if lfree m = b then m\<lparr>lfree := a\<rparr> else m);
          m = upd_item b (\<lambda>i. i\<lparr>pool_ptr := 0\<rparr>) m;
          nx = next_off (item m b);
          m = upd_item a (\<lambda>i. i\<lparr>next_off := nx\<rparr>) m
      in upd_item nx (\<lambda>i. i\<lparr>prev_off := a\<rparr>) m)"

definition plug_forward :: "u32 \<Rightarrow> small_mem \<Rightarrow> small_mem" where
  "plug_forward p m =
     (let n = next_off (item m p)
      in if p \<noteq> n \<and> \<not> MEM_ISUSED (item m n) \<and> n \<noteq> heap_end m then join_items p n m else m)"

definition plug_backward :: "u32 \<Rightarrow> small_mem \<Rightarrow> small_mem" where
  "plug_backward p m =
     (let q = prev_off (item m p) in if q \<noteq> p \<and> \<not> MEM_ISUSED (item m q) then join_items q p m else m)"

definition plug_holes :: "u32 \<Rightarrow> small_mem \<Rightarrow> small_mem option" where
  "plug_holes p m = (if p < heap_end m then Some (plug_backward p (plug_forward p m)) else None)"

definition rt_smem_free :: "u32 option \<Rightarrow> small_mem \<Rightarrow> small_mem option" where
  "rt_smem_free rmem m =
     (case rmem of None \<Rightarrow> Some m
      | Some r \<Rightarrow>
          let p = r - SIZEOF_STRUCT_MEM; nx = next_off (item m p)
          in if r AND (4 - 1) = 0 \<and> smem_addr m \<noteq> 0 \<and> MEM_POOL (item m p) = smem_addr m \<and> MEM_ISUSED (item m p) \<and>
                r < heap_end m \<and> MEM_POOL (item m nx) = smem_addr m
             then let m = upd_item p (\<lambda>i. i\<lparr>pool_ptr := MEM_FREED m\<rparr>) m;
                      m = (if p < lfree m then m\<lparr>lfree := p\<rparr> else m);
                      m = m\<lparr>mem_used := mem_used m - (nx - p)\<rparr>
                  in plug_holes p m
             else None)"

definition copy_bytes :: "u32 \<Rightarrow> u32 \<Rightarrow> u32 \<Rightarrow> small_mem \<Rightarrow> small_mem" where
  "copy_bytes dst src n m = m\<lparr>heap_bytes := rt_memcpy (unat dst) (unat src) (unat n) (heap_bytes m)\<rparr>"

definition rt_smem_realloc :: "u32 option \<Rightarrow> u32 \<Rightarrow> small_mem \<Rightarrow> (u32 option \<times> small_mem) option" where
  "rt_smem_realloc rmem newsize m =
     (let newsize = RT_ALIGN newsize
      in if mem_size_aligned m < newsize then Some (None, m)
         else if newsize = 0 then map_option (Pair None) (rt_smem_free rmem m)
         else case rmem of None \<Rightarrow> rt_smem_alloc newsize m
         | Some r \<Rightarrow>
             if r AND (4 - 1) = 0 \<and> r < heap_end m
             then let p = r - SIZEOF_STRUCT_MEM; sz = next_off (item m p) - p - SIZEOF_STRUCT_MEM
                  in if sz = newsize then Some (Some r, m)
                     else if newsize + SIZEOF_STRUCT_MEM + MIN_SIZE < sz
                     then let m = cut_block p newsize (m\<lparr>mem_used := mem_used m - (sz - newsize)\<rparr>);
                              p2 = p + SIZEOF_STRUCT_MEM + newsize;
                              m = (if p2 < lfree m then m\<lparr>lfree := p2\<rparr> else m)
                          in map_option (Pair (Some r)) (plug_holes p2 m)
                     else do {
                       (n, m) \<leftarrow> rt_smem_alloc newsize m;
                       case n of None \<Rightarrow> Some (None, m)
                       | Some d \<Rightarrow> map_option (Pair (Some d))
                           (rt_smem_free (Some r) (copy_bytes d r (if sz < newsize then sz else newsize) m)) }
             else None)"

section \<open>The row of blocks\<close>

lemma unat_word: "n < 2 ^ 32 \<Longrightarrow> unat (word_of_nat n :: u32) = n"
  by (simp add: unsigned_of_nat take_bit_nat_eq_self_iff)

lemma unat_eqI: "unat w = n \<Longrightarrow> w = word_of_nat n" by auto

lemma unat32_less: "unat (w :: u32) < 2 ^ 32"
  using unsigned_less[of w] by simp

lemma unat_add: "unat (a :: u32) + unat b < 2 ^ 32 \<Longrightarrow> unat (a + b) = unat a + unat b"
  by (simp add: unat_word_ariths)

lemma unat_diff: "unat (b :: u32) \<le> unat a \<Longrightarrow> unat (a - b) = unat a - unat b"
  by (simp add: unat_sub word_le_nat_alt)

text \<open>A block is used or free and has a size, with its item.  \<open>rep m p q bs\<close>: from offset \<open>q\<close>
  on the items describe the blocks \<open>bs\<close>, the first of which follows the one at \<open>p\<close>.\<close>

type_synonym block = "bool \<times> nat"

definition extent :: "block list \<Rightarrow> nat" where "extent bs = sum_list (map snd bs)"

lemma extent_simps [simp]: "extent [] = 0" "extent (b # bs) = snd b + extent bs" "extent (as @ bs) = extent as + extent bs"
  by (simp_all add: extent_def)

fun rep :: "small_mem \<Rightarrow> nat \<Rightarrow> nat \<Rightarrow> block list \<Rightarrow> bool" where
  "rep m p q [] \<longleftrightarrow> True"
| "rep m p q ((u, s) # bs) \<longleftrightarrow> 16 \<le> s \<and> 4 dvd s \<and> pool_ptr (items m q) = (if u then MEM_USED m else MEM_FREED m) \<and>
     unat (next_off (items m q)) = q + s \<and> unat (prev_off (items m q)) = p \<and> rep m q (q + s) bs"

definition before :: "nat \<Rightarrow> nat \<Rightarrow> block list \<Rightarrow> nat" where
  "before p q as = (if as = [] then p else q + extent (butlast as))"

lemma before_simps [simp]: "before p q [] = p" "before p q (as @ [a]) = q + extent as"
  "before p q (a # as) = before q (q + snd a) as"
  by (auto simp: before_def)

lemma rep_append: "rep m p q (as @ bs) \<longleftrightarrow> rep m p q as \<and> rep m (before p q as) (q + extent as) bs"
  by (induction m p q as rule: rep.induct) (auto simp: add.assoc)

text \<open>Where the items are.\<close>

fun heads :: "nat \<Rightarrow> block list \<Rightarrow> nat set" where
  "heads q [] = {}"
| "heads q ((u, s) # bs) = insert q (heads (q + s) bs)"

lemma rep_cong:
  "smem_addr m' = smem_addr m \<Longrightarrow> (\<And>j. j \<in> heads q bs \<Longrightarrow> items m' j = items m j) \<Longrightarrow>
     rep m p q bs \<Longrightarrow> rep m' p q bs"
  by (induction m p q bs rule: rep.induct) (auto simp: MEM_USED_def MEM_FREED_def)

lemma heads_ge: "j \<in> heads q bs \<Longrightarrow> q \<le> j"
  by (induction q bs rule: heads.induct) auto

lemma rep_heads: "rep m p q bs \<Longrightarrow> j \<in> heads q bs \<Longrightarrow> j = q \<or> q + 12 \<le> j"
proof (cases bs)
  case (Cons b cs)
  obtain u s where b: "b = (u, s)" by force
  assume "rep m p q bs" "j \<in> heads q bs"
  then have "12 \<le> s" "j = q \<or> j \<in> heads (q + s) cs" using Cons b by auto
  then show ?thesis using heads_ge[of j "q + s" cs] by auto
qed simp

lemma rep_heads_end: "rep m p q bs \<Longrightarrow> j \<in> heads q bs \<Longrightarrow> j + 12 \<le> q + extent bs"
  by (induction m p q bs rule: rep.induct) (fastforce simp: add.assoc)+

lemma rep_below:
  "rep m p q bs \<Longrightarrow> smem_addr m' = smem_addr m \<Longrightarrow>
     (\<And>j. j + 12 \<le> q + extent bs \<Longrightarrow> items m' j = items m j) \<Longrightarrow> rep m' p q bs"
  by (rule rep_cong[of m' m]) (auto dest: rep_heads_end)

lemma rep_above:
  "rep m p q bs \<Longrightarrow> smem_addr m' = smem_addr m \<Longrightarrow> (\<And>j. q \<le> j \<Longrightarrow> items m' j = items m j) \<Longrightarrow> rep m' p q bs"
  by (rule rep_cong[of m' m]) (auto dest: heads_ge)

lemma rep_prev:
  assumes "rep m p q bs" "smem_addr m' = smem_addr m" "p' < 2 ^ 32"
    "\<And>j. q + 12 \<le> j \<Longrightarrow> items m' j = items m j"
    "bs \<noteq> [] \<Longrightarrow> items m' q = (items m q)\<lparr>prev_off := word_of_nat p'\<rparr>"
  shows "rep m' p' q bs"
proof (cases bs)
  case (Cons b bs')
  obtain u s where b: "b = (u, s)" by force
  have "rep m' q (q + s) bs'"
    by (rule rep_cong[of m' m]) (use assms Cons b in \<open>auto dest!: heads_ge\<close>)
  then show ?thesis using assms Cons b by (simp add: MEM_USED_def MEM_FREED_def unat_word)
qed simp

lemma rep_sizes: "rep m p q bs \<Longrightarrow> (u, s) \<in> set bs \<Longrightarrow> 12 \<le> s \<and> 4 dvd s"
  by (induction m p q bs rule: rep.induct) auto

lemma extent_dvd: "rep m p q bs \<Longrightarrow> 4 dvd extent bs"
  by (induction m p q bs rule: rep.induct) auto

lemma pool_tags:
  "pool_ptr it = MEM_USED m \<Longrightarrow> MEM_ISUSED it" "pool_ptr it = MEM_FREED m \<Longrightarrow> \<not> MEM_ISUSED it"
  "pool_ptr it = 0 \<Longrightarrow> \<not> MEM_ISUSED it"
proof -
  have n: "NOT MEM_MASK = 1" by (simp add: MEM_MASK_def)
  have "bit ((smem_addr m AND MEM_MASK) OR 1) 0" "\<not> bit (smem_addr m AND MEM_MASK) 0"
    by (simp_all add: bit_simps MEM_MASK_def)
  then show "pool_ptr it = MEM_USED m \<Longrightarrow> MEM_ISUSED it" "pool_ptr it = MEM_FREED m \<Longrightarrow> \<not> MEM_ISUSED it"
    unfolding MEM_ISUSED_def n MEM_USED_def MEM_FREED_def by (simp_all add: and_one_eq bit_0 mod_2_eq_odd)
  show "pool_ptr it = 0 \<Longrightarrow> \<not> MEM_ISUSED it" by (simp add: MEM_ISUSED_def)
qed

lemma pool_of:
  assumes "smem_addr m AND 3 = 0"
  shows "pool_ptr it = MEM_USED m \<Longrightarrow> MEM_POOL it = smem_addr m" "pool_ptr it = MEM_FREED m \<Longrightarrow> MEM_POOL it = smem_addr m"
proof -
  have z: "\<not> bit (smem_addr m) 0"
    using arg_cong[OF assms, of "\<lambda>w. bit w 0"] by (simp add: bit_simps)
  have b: "bit MEM_MASK n \<longleftrightarrow> n < 32 \<and> n \<noteq> 0" for n
  proof -
    have m: "MEM_MASK = NOT 1" by (simp add: MEM_MASK_def)
    show ?thesis unfolding m bit_not_iff bit_1_iff by auto
  qed
  show "pool_ptr it = MEM_USED m \<Longrightarrow> MEM_POOL it = smem_addr m" "pool_ptr it = MEM_FREED m \<Longrightarrow> MEM_POOL it = smem_addr m"
    using z unfolding MEM_POOL_def MEM_USED_def MEM_FREED_def
    by (auto intro!: bit_word_eqI simp: bit_and_iff bit_or_iff b bit_1_iff) (metis gr0I)+
qed

text \<open>The whole heap: no gap, the end item, and the lowest free block; the other two parts of
  the invariant are that no two free blocks meet and that the counter is the sum of the used
  blocks.\<close>

definition base_ok :: "small_mem \<Rightarrow> block list \<Rightarrow> bool" where
  "base_ok m bs \<longleftrightarrow> rep m 0 0 bs \<and> extent bs = unat (heap_end m) \<and>
     unat (heap_end m) = unat (mem_size_aligned m) + 12 \<and> 12 \<le> unat (mem_size_aligned m) \<and>
     pool_ptr (items m (unat (heap_end m))) = MEM_USED m \<and> next_off (items m (unat (heap_end m))) = heap_end m \<and>
     unat (heap_end m) + 64 \<le> 2 ^ 32 \<and>
     smem_addr m AND 3 = 0 \<and> smem_addr m \<noteq> 0 \<and> unat (lfree m) = extent (takeWhile fst bs)"

definition no_gaps :: "block list \<Rightarrow> bool" where
  "no_gaps bs \<longleftrightarrow> successively (\<lambda>a b. fst a \<or> fst b) bs"

definition used_ok :: "small_mem \<Rightarrow> block list \<Rightarrow> bool" where
  "used_ok m bs \<longleftrightarrow> unat (mem_used m) = extent (filter fst bs) \<and> mem_used m \<le> mem_max m"

definition heap_ok :: "small_mem \<Rightarrow> block list \<Rightarrow> bool" where
  "heap_ok m bs \<longleftrightarrow> base_ok m bs \<and> no_gaps bs \<and> used_ok m bs"

lemma base_okD:
  assumes "base_ok m bs"
  shows "rep m 0 0 bs" "extent bs = unat (heap_end m)" "unat (heap_end m) = unat (mem_size_aligned m) + 12"
    "12 \<le> unat (mem_size_aligned m)" "pool_ptr (items m (unat (heap_end m))) = MEM_USED m"
    "smem_addr m AND 3 = 0" "smem_addr m \<noteq> 0" "unat (lfree m) = extent (takeWhile fst bs)" "extent bs < 2 ^ 32"
    "heap_end m = mem_size_aligned m + SIZEOF_STRUCT_MEM" "MEM_ISUSED (items m (unat (heap_end m)))"
    "unat (heap_end m) + 64 \<le> 2 ^ 32"
proof -
  show a: "rep m 0 0 bs" "extent bs = unat (heap_end m)" "unat (heap_end m) = unat (mem_size_aligned m) + 12"
    "12 \<le> unat (mem_size_aligned m)" "pool_ptr (items m (unat (heap_end m))) = MEM_USED m"
    "smem_addr m AND 3 = 0" "smem_addr m \<noteq> 0" "unat (lfree m) = extent (takeWhile fst bs)"
    "unat (heap_end m) + 64 \<le> 2 ^ 32"
    using assms unfolding base_ok_def by blast+
  show b: "extent bs < 2 ^ 32" using a(2) unat32_less by simp
  have "unat (mem_size_aligned m + 12) = unat (mem_size_aligned m) + 12"
    using unat_add[of "mem_size_aligned m" 12] a b by simp
  then show "heap_end m = mem_size_aligned m + SIZEOF_STRUCT_MEM" using a(3) by (simp add: word_unat_eq_iff SIZEOF_STRUCT_MEM_def)
  show "MEM_ISUSED (items m (unat (heap_end m)))" by (rule pool_tags(1)[OF a(5)])
qed

lemma rep_used: "rep m p q ((u, s) # bs) \<Longrightarrow> MEM_ISUSED (items m q) = u"
  using pool_tags by (cases u) auto

text \<open>First fit.\<close>

fun first_fit :: "nat \<Rightarrow> nat \<Rightarrow> block list \<Rightarrow> nat option" where
  "first_fit n q [] = None"
| "first_fit n q ((u, s) # bs) = (if \<not> u \<and> n + 12 \<le> s then Some q else first_fit n (q + s) bs)"

lemma first_fit_Some:
  "first_fit n q bs = Some r \<Longrightarrow> \<exists>as s cs. bs = as @ (False, s) # cs \<and> r = q + extent as \<and> n + 12 \<le> s \<and>
     (\<forall>(u, t)\<in>set as. u \<or> t < n + 12)"
proof (induction n q bs rule: first_fit.induct)
  case (2 n q u s bs)
  show ?case
  proof (cases "\<not> u \<and> n + 12 \<le> s")
    case True
    then have "(u, s) # bs = [] @ (False, s) # bs" "r = q + extent []" "n + 12 \<le> s" using 2 by auto
    then show ?thesis by force
  next
    case False
    then have "first_fit n (q + s) bs = Some r" using 2(2) by (simp split: if_splits)
    from 2(1)[OF False this] obtain as t cs where "bs = as @ (False, t) # cs" "r = q + s + extent as" "n + 12 \<le> t"
      "\<forall>(u, t)\<in>set as. u \<or> t < n + 12" by blast
    then have "(u, s) # bs = ((u, s) # as) @ (False, t) # cs" "r = q + extent ((u, s) # as)" "n + 12 \<le> t"
      "\<forall>(u, t)\<in>set ((u, s) # as). u \<or> t < n + 12" using False by auto
    then show ?thesis by blast
  qed
qed simp

lemma first_fit_None: "first_fit n q bs = None \<longleftrightarrow> (\<forall>(u, s)\<in>set bs. u \<or> s < n + 12)"
  by (induction n q bs rule: first_fit.induct) auto

lemma first_fit_used: "\<forall>b\<in>set as. fst b \<Longrightarrow> first_fit n q (as @ bs) = first_fit n (q + extent as) bs"
  by (induction as arbitrary: q) (auto simp: add.assoc)

lemma find_fit_first:
  assumes "unat (mem_size_aligned m) + 12 < 2 ^ 32" "12 \<le> unat sz" "unat sz \<le> unat (mem_size_aligned m)"
  shows "rep m p q bs \<Longrightarrow> q + extent bs = unat (mem_size_aligned m) + 12 \<Longrightarrow>
     find_fit m sz (word_of_nat q) = Some (map_option word_of_nat (first_fit (unat sz) q bs))"
proof (induction bs arbitrary: p q)
  case Nil
  have "unat (word_of_nat q :: u32) = q" by (rule unat_word) (use Nil assms in simp)
  then have "\<not> word_of_nat q \<le> mem_size_aligned m - sz"
    using Nil assms unat_diff[of sz "mem_size_aligned m"] by (simp add: word_le_nat_alt)
  then show ?case by (subst find_fit.simps) simp
next
  case (Cons b bs)
  obtain u s where b: "b = (u, s)" by force
  note R = Cons.prems(1)[unfolded b]
  have uq: "unat (word_of_nat q :: u32) = q" by (rule unat_word) (use Cons.prems(2) assms b R in simp)
  have it: "item m (word_of_nat q) = items m q" by (simp add: item_def uq)
  have nx: "unat (next_off (items m q)) = q + s" "12 \<le> s" using R by simp_all
  note nx' = unat_eqI[OF nx(1)]
  have IH: "find_fit m sz (next_off (items m q)) = Some (map_option word_of_nat (first_fit (unat sz) (q + s) bs))"
    unfolding nx' by (rule Cons.IH[of q]) (use R Cons.prems(2) b in auto)
  have le: "q + s \<le> unat (mem_size_aligned m) + 12" using Cons.prems(2) b by simp
  have d: "unat (mem_size_aligned m - sz) = unat (mem_size_aligned m) - unat sz" by (rule unat_diff) (rule assms(3))
  have q12: "unat (word_of_nat q + SIZEOF_STRUCT_MEM :: u32) = q + 12"
    using unat_add[of "word_of_nat q" SIZEOF_STRUCT_MEM] uq le nx(2) assms(1) by (simp add: SIZEOF_STRUCT_MEM_def)
  have "unat (next_off (items m q) - (word_of_nat q + SIZEOF_STRUCT_MEM)) = s - 12"
    using unat_diff[of "word_of_nat q + SIZEOF_STRUCT_MEM" "next_off (items m q)"] q12 nx by simp
  then have fits: "sz \<le> next_off (items m q) - (word_of_nat q + SIZEOF_STRUCT_MEM) \<longleftrightarrow> unat sz + 12 \<le> s"
    using nx(2) by (auto simp: word_le_nat_alt)
  show ?case
  proof (cases "q \<le> unat (mem_size_aligned m) - unat sz")
    case True
    then have "word_of_nat q \<le> mem_size_aligned m - sz" using uq d by (simp add: word_le_nat_alt)
    then show ?thesis using IH fits rep_used[OF R] it b by (subst find_fit.simps) simp
  next
    case False
    then have "\<not> word_of_nat q \<le> mem_size_aligned m - sz" using uq d by (simp add: word_le_nat_alt)
    then have f: "find_fit m sz (word_of_nat q) = Some None" by (subst find_fit.simps) simp
    have "first_fit (unat sz) q (b # bs) = None"
    proof (rule ccontr)
      assume "first_fit (unat sz) q (b # bs) \<noteq> None"
      then obtain r where "first_fit (unat sz) q (b # bs) = Some r" by blast
      from first_fit_Some[OF this] obtain as t cs where "b # bs = as @ (False, t) # cs" "unat sz + 12 \<le> t" by blast
      then have "unat sz + 12 \<le> extent (b # bs)" by simp
      then show False using False Cons.prems(2) by simp
    qed
    then show ?thesis using f by simp
  qed
qed

lemma find_fit_base:
  assumes o: "base_ok m bs" and sz: "12 \<le> unat sz" "unat sz \<le> unat (mem_size_aligned m)"
  shows "find_fit m sz (lfree m) = Some (map_option word_of_nat (first_fit (unat sz) 0 bs))"
proof -
  note B = base_okD[OF o]
  let ?as = "takeWhile fst bs" and ?cs = "dropWhile fst bs"
  have bs: "bs = ?as @ ?cs" by simp
  have u: "\<forall>b\<in>set ?as. fst b" using set_takeWhileD by fastforce
  have r: "rep m (before 0 0 ?as) (extent ?as) ?cs"
    using B(1) rep_append[of m 0 0 ?as ?cs] by simp
  have t: "extent ?as + extent ?cs = extent bs" by (subst (3) bs) (simp only: extent_simps)
  have "find_fit m sz (word_of_nat (extent ?as)) = Some (map_option word_of_nat (first_fit (unat sz) (extent ?as) ?cs))"
    by (rule find_fit_first[OF _ sz r]) (use t B in auto)
  moreover have "first_fit (unat sz) 0 bs = first_fit (unat sz) (extent ?as) ?cs"
    using first_fit_used[OF u, of "unat sz" 0 ?cs] by simp
  ultimately show ?thesis using unat_eqI[OF B(8)] by simp
qed

text \<open>The search for the next free block.\<close>

lemma next_free_first:
  assumes e: "unat (heap_end m) = q + extent bs" and r: "rep m p q bs"
  shows "next_free m (word_of_nat q) = Some (word_of_nat (q + extent (takeWhile fst bs)))"
  using assms
proof (induction bs arbitrary: p q)
  case Nil
  then have "word_of_nat q = heap_end m" using unat_eqI[of "heap_end m" q] by simp
  then show ?case by (subst next_free.simps) simp
next
  case (Cons b bs)
  obtain u s where b: "b = (u, s)" by force
  note R = Cons.prems(2)[unfolded b]
  have uq: "unat (word_of_nat q :: u32) = q"
    by (rule unat_word) (use Cons.prems(1) unat32_less[of "heap_end m"] in simp)
  have it: "item m (word_of_nat q) = items m q" by (simp add: item_def uq)
  have ne: "word_of_nat q \<noteq> heap_end m" using uq Cons.prems(1) R b by auto
  have nx: "next_off (items m q) = word_of_nat (q + s)" by (rule unat_eqI) (use R in simp)
  have "next_free m (word_of_nat (q + s)) = Some (word_of_nat (q + s + extent (takeWhile fst bs)))"
    by (rule Cons.IH[of _ q]) (use Cons.prems(1) R b in auto)
  then show ?case using rep_used[OF R] ne it nx b by (subst next_free.simps) (simp add: add.assoc)
qed

section \<open>Cutting, tagging and joining blocks\<close>

lemma upd_item_sel [simp]:
  "smem_addr (upd_item p f m) = smem_addr m" "heap_end (upd_item p f m) = heap_end m"
  "lfree (upd_item p f m) = lfree m" "mem_size_aligned (upd_item p f m) = mem_size_aligned m"
  "mem_used (upd_item p f m) = mem_used m" "mem_max (upd_item p f m) = mem_max m"
  by (simp_all add: upd_item_def Let_def)

lemma items_upd [simp]:
  "unat p = j \<Longrightarrow> items (upd_item p f m) j = f (items m j)"
  "j + 12 \<le> unat p \<or> unat p + 12 \<le> j \<Longrightarrow> items (upd_item p f m) j = items m j"
  by (auto simp: items_def upd_item_def Let_def)

lemma items_sel [simp]:
  "items (m\<lparr>lfree := x\<rparr>) j = items m j" "items (m\<lparr>mem_used := x\<rparr>) j = items m j" "items (m\<lparr>mem_max := x\<rparr>) j = items m j"
  by (simp_all add: items_def)

text \<open>Only the bytes of the items at \<open>Q\<close> may have changed.\<close>

definition kept :: "nat set \<Rightarrow> small_mem \<Rightarrow> small_mem \<Rightarrow> bool" where
  "kept Q m m' \<longleftrightarrow> (\<forall>j. (\<forall>q\<in>Q. j < q \<or> q + 12 \<le> j) \<longrightarrow> heap_bytes m' j = heap_bytes m j)"

lemma kept_refl: "kept Q m m" and kept_trans: "kept Q m m' \<Longrightarrow> kept Q m' m'' \<Longrightarrow> kept Q m m''"
  and kept_mono: "kept Q m m' \<Longrightarrow> Q \<subseteq> R \<Longrightarrow> kept R m m'"
  and kept_same: "heap_bytes m' = heap_bytes m \<Longrightarrow> kept Q m m'"
  by (auto simp: kept_def)

lemma kept_upd: "unat p \<in> Q \<Longrightarrow> kept Q m (upd_item p f m)"
  by (auto simp: kept_def upd_item_def Let_def store_word_apart dest!: bspec)

text \<open>The offsets of the items of a row, that of the end included.\<close>

fun offs :: "nat \<Rightarrow> block list \<Rightarrow> nat set" where
  "offs q [] = {q}"
| "offs q (b # bs) = insert q (offs (q + snd b) bs)"

lemma offs_first [simp]: "q \<in> offs q bs"
  by (cases bs) auto

lemma offs_append [simp]: "offs q (as @ bs) = offs q as \<union> offs (q + extent as) bs"
  by (induction as arbitrary: q) (auto simp: add.assoc)

text \<open>What stays around the blocks.\<close>

definition same_heap :: "small_mem \<Rightarrow> small_mem \<Rightarrow> bool" where
  "same_heap m m' \<longleftrightarrow> smem_addr m' = smem_addr m \<and> heap_end m' = heap_end m \<and>
     mem_size_aligned m' = mem_size_aligned m \<and>
     pool_ptr (items m' (unat (heap_end m))) = pool_ptr (items m (unat (heap_end m))) \<and>
     next_off (items m' (unat (heap_end m))) = next_off (items m (unat (heap_end m)))"

lemma same_heap_refl: "same_heap m m" and same_heap_trans: "same_heap m m' \<Longrightarrow> same_heap m' m'' \<Longrightarrow> same_heap m m''"
  by (auto simp: same_heap_def)

lemma base_ok_same:
  assumes "base_ok m bs" "same_heap m m'" "rep m' 0 0 bs'" "extent bs' = extent bs"
    "unat (lfree m') = extent (takeWhile fst bs')"
  shows "base_ok m' bs'"
  using assms unfolding base_ok_def same_heap_def MEM_USED_def by auto

lemma split_offsets:
  assumes "rep m 0 0 (as @ (u, s) # bs)" "extent (as @ (u, s) # bs) = unat (heap_end m)"
  shows "12 \<le> s" "4 dvd s" "unat (next_off (items m (extent as))) = extent as + s"
    "extent as < unat (heap_end m)" "bs = [] \<longleftrightarrow> extent as + s = unat (heap_end m)" "extent as + s \<le> unat (heap_end m)"
    "rep m 0 0 as" "rep m (before 0 0 as) (extent as) ((u, s) # bs)" "MEM_ISUSED (items m (extent as)) = u"
proof -
  show r: "rep m 0 0 as" "rep m (before 0 0 as) (extent as) ((u, s) # bs)"
    using assms(1) rep_append[of m 0 0 as] by simp_all
  then show s: "12 \<le> s" "4 dvd s" "unat (next_off (items m (extent as))) = extent as + s" by auto
  show "extent as < unat (heap_end m)" "extent as + s \<le> unat (heap_end m)" using assms(2) s by simp_all
  show "bs = [] \<longleftrightarrow> extent as + s = unat (heap_end m)"
    using assms(2) r by (cases bs) auto
  show "MEM_ISUSED (items m (extent as)) = u" by (rule rep_used[OF r(2)])
qed

lemma rep_retag:
  assumes r: "rep m 0 0 (as @ (u, s) # bs)" "extent (as @ (u, s) # bs) = unat (heap_end m)"
    and p: "unat p = extent as" and tag: "t = (if u' then MEM_USED m else MEM_FREED m)"
  shows "rep (upd_item p (\<lambda>i. i\<lparr>pool_ptr := t\<rparr>) m) 0 0 (as @ (u', s) # bs)"
    "same_heap m (upd_item p (\<lambda>i. i\<lparr>pool_ptr := t\<rparr>) m)"
    "kept {extent as} m (upd_item p (\<lambda>i. i\<lparr>pool_ptr := t\<rparr>) m)"
proof -
  note S = split_offsets[OF r]
  let ?q = "extent as" and ?m = "upd_item p (\<lambda>i. i\<lparr>pool_ptr := t\<rparr>) m"
  have "rep ?m 0 0 as" by (rule rep_below[OF S(7)]) (simp_all add: p)
  moreover have "rep ?m ?q (?q + s) bs" by (rule rep_above[of m]) (use S in \<open>simp_all add: p\<close>)
  ultimately show "rep ?m 0 0 (as @ (u', s) # bs)"
    using S(8) p tag unfolding rep_append by (simp add: MEM_USED_def MEM_FREED_def)
  show "same_heap m ?m" using p S(1,4,6) by (simp add: same_heap_def)
  show "kept {extent as} m ?m" by (rule kept_upd) (simp add: p)
qed

lemma rep_cut:
  assumes r: "rep m 0 0 (as @ (u, s) # bs)" "extent (as @ (u, s) # bs) = unat (heap_end m)"
    and p: "unat p = extent as" and e: "heap_end m = mem_size_aligned m + SIZEOF_STRUCT_MEM"
    and n: "unat sz + 28 \<le> s" "4 dvd unat sz" "4 \<le> unat sz"
  shows "rep (cut_block p sz m) 0 0 (as @ (u, unat sz + 12) # (False, s - (unat sz + 12)) # bs)"
    "same_heap m (cut_block p sz m)" "lfree (cut_block p sz m) = lfree m"
    "mem_used (cut_block p sz m) = mem_used m" "mem_max (cut_block p sz m) = mem_max m"
    "unat (p + SIZEOF_STRUCT_MEM + sz) = extent as + 12 + unat sz"
    "kept {extent as, extent as + 12 + unat sz, extent as + s} m (cut_block p sz m)"
proof -
  note S = split_offsets[OF r]
  let ?q = "extent as" and ?q2 = "extent as + 12 + unat sz" and ?m = "cut_block p sz m"
  define p2 where "p2 = p + SIZEOF_STRUCT_MEM + sz"
  define nx where "nx = next_off (items m ?q)"
  have lt: "?q2 < unat (heap_end m)" using S(6) n by simp
  have w12: "unat (p + SIZEOF_STRUCT_MEM) = ?q + 12"
    using unat_add[of p SIZEOF_STRUCT_MEM] p lt unat32_less[of "heap_end m"] by (simp add: SIZEOF_STRUCT_MEM_def)
  show w2: "unat (p + SIZEOF_STRUCT_MEM + sz) = ?q2"
    using unat_add[of "p + SIZEOF_STRUCT_MEM" sz] w12 lt unat32_less[of "heap_end m"] by simp
  have un: "unat nx = ?q + s" using S(3) by (simp add: nx_def)
  have ends: "(nx \<noteq> mem_size_aligned m + SIZEOF_STRUCT_MEM) \<longleftrightarrow> bs \<noteq> []"
    using un S(5) e by (metis word_unat_eq_iff)
  have w2': "unat p2 = ?q2" using w2 by (simp add: p2_def)
  define m2 where "m2 = upd_item p (\<lambda>i. i\<lparr>next_off := p2\<rparr>) (upd_item p2 (\<lambda>_. \<lparr>pool_ptr = MEM_FREED m,
      next_off = nx, prev_off = p\<rparr>) m)"
  have e1: "?m = (if bs \<noteq> [] then upd_item nx (\<lambda>i. i\<lparr>prev_off := p2\<rparr>) m2 else m2)"
    unfolding cut_block_def Let_def p2_def nx_def item_def p m2_def using ends[unfolded nx_def] by (simp add: MEM_FREED_def)
  have it: "items ?m ?q = (items m ?q)\<lparr>next_off := p2\<rparr>"
    "items ?m ?q2 = \<lparr>pool_ptr = MEM_FREED m, next_off = nx, prev_off = p\<rparr>"
    "bs \<noteq> [] \<Longrightarrow> items ?m (?q + s) = (items m (?q + s))\<lparr>prev_off := p2\<rparr>"
    "bs = [] \<Longrightarrow> items ?m (?q + s) = items m (?q + s)"
    "j + 12 \<le> ?q \<or> ?q + s + 12 \<le> j \<Longrightarrow> items ?m j = items m j" for j
    using n S(1) unfolding e1 m2_def by (auto simp: w2' un p)
  have sel: "smem_addr ?m = smem_addr m" "heap_end ?m = heap_end m" "mem_size_aligned ?m = mem_size_aligned m"
    by (simp_all add: cut_block_def Let_def)
  show "lfree ?m = lfree m" "mem_used ?m = mem_used m" "mem_max ?m = mem_max m"
    by (simp_all add: cut_block_def Let_def)
  have a: "rep ?m 0 0 as" by (rule rep_below[OF S(7) sel(1)]) (simp add: it(5))
  have b: "rep ?m ?q2 (?q + s) bs"
  proof (rule rep_prev[of m ?q])
    show "rep m ?q (?q + s) bs" using S(8) by simp
    show "items ?m j = items m j" if "?q + s + 12 \<le> j" for j using that by (simp add: it(5))
    show "?q2 < 2 ^ 32" using lt unat32_less[of "heap_end m"] by simp
    have w: "word_of_nat ?q2 = p2" using unat_eqI[OF w2'] by (rule sym)
    show "items ?m (?q + s) = (items m (?q + s))\<lparr>prev_off := word_of_nat ?q2\<rparr>" if "bs \<noteq> []"
      unfolding w using that by (rule it(3))
  qed (simp_all add: sel)
  have "rep ?m (before 0 0 as) ?q [(u, unat sz + 12)]"
    using S(8) n(2,3) by (simp add: it(1) w2' MEM_USED_def MEM_FREED_def sel)
  moreover have "4 dvd s - (unat sz + 12)" using S(2) n by (simp add: dvd_diff_nat)
  then have "rep ?m ?q ?q2 [(False, s - (unat sz + 12))]"
    using n p un unfolding rep.simps it(2) by (simp add: MEM_FREED_def sel)
  moreover have "?q + (unat sz + 12) = ?q2" "?q2 + (s - (unat sz + 12)) = ?q + s" using n by simp_all
  ultimately show "rep ?m 0 0 (as @ (u, unat sz + 12) # (False, s - (unat sz + 12)) # bs)"
    using a b unfolding rep_append rep.simps by (metis add.left_neutral)
  have E: "bs = [] \<and> unat (heap_end m) = ?q + s \<or> bs \<noteq> [] \<and> ?q + s + 12 \<le> unat (heap_end m)"
    using r(2) S(8) by (cases bs) auto
  show "same_heap m ?m" unfolding same_heap_def sel using E it(4,5) by auto
  have k: "kept {?q, ?q2, ?q + s} m m2"
    unfolding m2_def by (rule kept_trans[OF kept_upd kept_upd]) (simp_all add: p w2')
  show "kept {?q, ?q2, ?q + s} m ?m" using k kept_trans[OF k kept_upd[of nx]] un by (simp add: e1)
qed

text \<open>Joining.\<close>

lemma rep_join:
  assumes r: "rep m 0 0 (as @ (False, s) # (False, t) # bs)" "extent (as @ (False, s) # (False, t) # bs) = unat (heap_end m)"
    and p: "unat a = extent as" "unat b = extent as + s" and l: "lfree m \<noteq> b"
  shows "rep (join_items a b m) 0 0 (as @ (False, s + t) # bs)" "same_heap m (join_items a b m)"
    "lfree (join_items a b m) = lfree m" "mem_used (join_items a b m) = mem_used m"
    "mem_max (join_items a b m) = mem_max m"
    "kept {extent as, extent as + s, extent as + s + t} m (join_items a b m)"
proof -
  let ?m = "join_items a b m" and ?q = "extent as"
  note S = split_offsets[OF r]
  have r2: "rep m 0 0 ((as @ [(False, s)]) @ (False, t) # bs)" "extent ((as @ [(False, s)]) @ (False, t) # bs) = unat (heap_end m)"
    using r by simp_all
  note T = split_offsets[OF r2]
  define nx where "nx = next_off (items m (?q + s))"
  have un: "unat nx = ?q + s + t" using T(3) by (simp add: nx_def)
  have e1: "?m = upd_item nx (\<lambda>i. i\<lparr>prev_off := a\<rparr>) (upd_item a (\<lambda>i. i\<lparr>next_off := nx\<rparr>) (upd_item b (\<lambda>i. i\<lparr>pool_ptr := 0\<rparr>) m))"
    using l by (simp add: join_items_def Let_def item_def p nx_def)
  have it: "items ?m ?q = (items m ?q)\<lparr>next_off := nx\<rparr>"
    "items ?m (?q + s + t) = (items m (?q + s + t))\<lparr>prev_off := a\<rparr>"
    "j + 12 \<le> ?q \<or> ?q + s + t + 12 \<le> j \<Longrightarrow> items ?m j = items m j" for j
    unfolding e1 using S(1) T(1) by (auto simp: un p)
  have sel: "smem_addr ?m = smem_addr m" "heap_end ?m = heap_end m" "mem_size_aligned ?m = mem_size_aligned m"
    using l by (simp_all add: join_items_def Let_def)
  show "lfree ?m = lfree m" "mem_used ?m = mem_used m" "mem_max ?m = mem_max m"
    using l by (simp_all add: join_items_def Let_def)
  have a: "rep ?m 0 0 as" by (rule rep_below[OF S(7) sel(1)]) (simp add: it(3))
  have b: "rep ?m ?q (?q + s + t) bs"
  proof (rule rep_prev[of m "?q + s"])
    show "rep m (?q + s) (?q + s + t) bs" using S(8) by (simp add: add.assoc)
    show "items ?m j = items m j" if "?q + s + t + 12 \<le> j" for j using that by (simp add: it(3))
    show "?q < 2 ^ 32" using S(4) unat32_less[of "heap_end m"] by simp
    have w: "word_of_nat ?q = a" using unat_eqI[OF p(1)] by (rule sym)
    show "items ?m (?q + s + t) = (items m (?q + s + t))\<lparr>prev_off := word_of_nat ?q\<rparr>"
      unfolding w by (rule it(2))
  qed (simp_all add: sel)
  have "rep ?m (before 0 0 as) ?q [(False, s + t)]"
    using S(8) S(1,2) T(2) un by (simp add: it(1) MEM_FREED_def sel)
  then show "rep ?m 0 0 (as @ (False, s + t) # bs)" using a b by (simp add: rep_append add.assoc)
  have E: "bs = [] \<and> unat (heap_end m) = ?q + s + t \<or> bs \<noteq> [] \<and> ?q + s + t + 12 \<le> unat (heap_end m)"
    using r(2) T(8) by (cases bs) auto
  show "same_heap m ?m" unfolding same_heap_def sel using E it(2,3) by auto
  show "kept {?q, ?q + s, ?q + s + t} m ?m"
    unfolding e1 by (rule kept_trans[OF kept_trans[OF kept_upd kept_upd] kept_upd]) (simp_all add: p un)
qed

lemma takeWhile_free [simp]: "takeWhile fst (as @ (False, s) # bs) = takeWhile fst as"
  by (induction as) auto

lemma extent_takeWhile: "extent (takeWhile P as) \<le> extent as"
  by (induction as) auto

text \<open>What becomes of a free block of size \<open>s\<close> between \<open>as\<close> and \<open>bs\<close>.\<close>

fun eat :: "nat \<Rightarrow> block list \<Rightarrow> nat \<times> block list" where
  "eat s ((False, t) # bs) = (s + t, bs)"
| "eat s bs = (s, bs)"

definition put_back :: "block list \<Rightarrow> nat \<Rightarrow> block list \<Rightarrow> block list" where
  "put_back as s bs =
     (if as \<noteq> [] \<and> \<not> fst (last as) then butlast as @ (False, snd (last as) + s) # bs else as @ (False, s) # bs)"

definition release :: "block list \<Rightarrow> nat \<Rightarrow> block list \<Rightarrow> block list" where
  "release as s bs = (let (s, bs) = eat s bs in put_back as s bs)"

lemma plug_forward_base:
  assumes o: "base_ok m (as @ (False, s) # bs)" and p: "unat p = extent as"
  shows "base_ok (plug_forward p m) (as @ (False, fst (eat s bs)) # snd (eat s bs))"
    "mem_used (plug_forward p m) = mem_used m" "mem_max (plug_forward p m) = mem_max m"
    "same_heap m (plug_forward p m)" "kept (offs 0 (as @ (False, s) # bs)) m (plug_forward p m)"
proof -
  note B = base_okD[OF o]
  note S = split_offsets[OF B(1,2)]
  define n where "n = next_off (items m (extent as))"
  have un: "unat n = extent as + s" using S(3) by (simp add: n_def)
  have pn: "p \<noteq> n" using un p S(1) by auto
  have f: "plug_forward p m = (if \<not> MEM_ISUSED (items m (unat n)) \<and> n \<noteq> heap_end m then join_items p n m else m)"
    unfolding plug_forward_def Let_def item_def p n_def[symmetric] using pn by simp
  have "base_ok (plug_forward p m) (as @ (False, fst (eat s bs)) # snd (eat s bs)) \<and>
    mem_used (plug_forward p m) = mem_used m \<and> mem_max (plug_forward p m) = mem_max m \<and> same_heap m (plug_forward p m) \<and>
    kept (offs 0 (as @ (False, s) # bs)) m (plug_forward p m)"
  proof (cases bs)
    case Nil
    then have "n = heap_end m" using S(5) un by (simp add: word_unat_eq_iff)
    then show ?thesis using f o Nil by (simp add: same_heap_refl kept_refl)
  next
    case (Cons b cs)
    obtain u t where b: "b = (u, t)" by force
    have ne: "n \<noteq> heap_end m" using S(5) un Cons by auto
    have r2: "rep m 0 0 ((as @ [(False, s)]) @ (u, t) # cs)" "extent ((as @ [(False, s)]) @ (u, t) # cs) = unat (heap_end m)"
      using B Cons b by simp_all
    have used: "MEM_ISUSED (items m (unat n)) = u" using split_offsets(9)[OF r2] un by simp
    show ?thesis
    proof (cases u)
      case True
      then show ?thesis using f used o Cons b by (simp add: same_heap_refl kept_refl)
    next
      case False
      have r3: "rep m 0 0 (as @ (False, s) # (False, t) # cs)" "extent (as @ (False, s) # (False, t) # cs) = unat (heap_end m)"
        using r2 False by simp_all
      have "unat (lfree m) \<le> extent as" using B(8) extent_takeWhile[of fst as] by simp
      then have l: "lfree m \<noteq> n" using un S(1) by auto
      note J = rep_join[OF r3 p un l]
      have "base_ok (join_items p n m) (as @ (False, s + t) # cs)"
        by (rule base_ok_same[OF o J(2,1)]) (use Cons b B(8) J(3) in simp_all)
      moreover have "kept (offs 0 (as @ (False, s) # bs)) m (join_items p n m)"
        by (rule kept_mono[OF J(6)]) (use Cons b in \<open>simp add: add.assoc\<close>)
      ultimately show ?thesis using f used ne False J Cons b by simp
    qed
  qed
  then show "base_ok (plug_forward p m) (as @ (False, fst (eat s bs)) # snd (eat s bs))"
    "mem_used (plug_forward p m) = mem_used m" "mem_max (plug_forward p m) = mem_max m"
    "same_heap m (plug_forward p m)" "kept (offs 0 (as @ (False, s) # bs)) m (plug_forward p m)" by blast+
qed

lemma plug_backward_base:
  assumes o: "base_ok m (as @ (False, s) # bs)" and p: "unat p = extent as"
  shows "base_ok (plug_backward p m) (put_back as s bs)"
    "mem_used (plug_backward p m) = mem_used m" "mem_max (plug_backward p m) = mem_max m"
    "same_heap m (plug_backward p m)" "kept (offs 0 (as @ (False, s) # bs)) m (plug_backward p m)"
proof -
  note B = base_okD[OF o]
  note S = split_offsets[OF B(1,2)]
  define q where "q = prev_off (items m (extent as))"
  have uq: "unat q = before 0 0 as" using S(8) by (simp add: q_def)
  have f: "plug_backward p m = (if q \<noteq> p \<and> \<not> MEM_ISUSED (items m (unat q)) then join_items q p m else m)"
    unfolding plug_backward_def Let_def item_def p q_def[symmetric] by simp
  have "base_ok (plug_backward p m) (put_back as s bs) \<and> mem_used (plug_backward p m) = mem_used m \<and>
    mem_max (plug_backward p m) = mem_max m \<and> same_heap m (plug_backward p m) \<and>
    kept (offs 0 (as @ (False, s) # bs)) m (plug_backward p m)"
  proof (cases as rule: rev_cases)
    case Nil
    then have "q = p" using uq p by (simp add: word_unat_eq_iff)
    then show ?thesis using f o Nil by (simp add: put_back_def same_heap_refl kept_refl)
  next
    case (snoc cs b)
    obtain u t where b: "b = (u, t)" by force
    have r2: "rep m 0 0 (cs @ (u, t) # (False, s) # bs)" "extent (cs @ (u, t) # (False, s) # bs) = unat (heap_end m)"
      using B snoc b by simp_all
    note T = split_offsets[OF r2]
    have uq: "unat q = extent cs" using uq snoc by simp
    have pt: "unat p = extent cs + t" using p snoc b by simp
    have ne: "q \<noteq> p" using uq pt T(1) by auto
    have used: "MEM_ISUSED (items m (unat q)) = u" using T(9) uq by simp
    show ?thesis
    proof (cases u)
      case True
      then show ?thesis using f used o snoc b by (simp add: put_back_def same_heap_refl kept_refl)
    next
      case False
      have r3: "rep m 0 0 (cs @ (False, t) # (False, s) # bs)" "extent (cs @ (False, t) # (False, s) # bs) = unat (heap_end m)"
        using r2 False by simp_all
      have "unat (lfree m) \<le> extent cs" using B(8) extent_takeWhile[of fst cs] snoc b False by simp
      then have l: "lfree m \<noteq> p" using pt T(1) by auto
      note J = rep_join[OF r3 uq pt l]
      have "base_ok (join_items q p m) (cs @ (False, t + s) # bs)"
        by (rule base_ok_same[OF o J(2,1)]) (use snoc b B(8) J(3) False in simp_all)
      moreover have "kept (offs 0 (as @ (False, s) # bs)) m (join_items q p m)"
        by (rule kept_mono[OF J(6)]) (use snoc b in \<open>simp add: add.assoc\<close>)
      ultimately show ?thesis using f used ne False J snoc b by (simp add: put_back_def)
    qed
  qed
  then show "base_ok (plug_backward p m) (put_back as s bs)"
    "mem_used (plug_backward p m) = mem_used m" "mem_max (plug_backward p m) = mem_max m"
    "same_heap m (plug_backward p m)" "kept (offs 0 (as @ (False, s) # bs)) m (plug_backward p m)" by blast+
qed

lemma plug_holes_base:
  assumes o: "base_ok m (as @ (False, s) # bs)" and p: "unat p = extent as"
  obtains m' where "plug_holes p m = Some m'" "base_ok m' (release as s bs)" "same_heap m m'"
    "mem_used m' = mem_used m" "mem_max m' = mem_max m" "kept (offs 0 (as @ (False, s) # bs)) m m'"
proof
  note B = base_okD[OF o]
  note F = plug_forward_base[OF o p]
  note W = plug_backward_base[OF F(1) p]
  show "plug_holes p m = Some (plug_backward p (plug_forward p m))"
    using split_offsets(4)[OF B(1,2)] p by (simp add: plug_holes_def word_less_nat_alt)
  show "base_ok (plug_backward p (plug_forward p m)) (release as s bs)"
    using W(1) by (simp add: release_def split_beta)
  show "same_heap m (plug_backward p (plug_forward p m))" by (rule same_heap_trans[OF F(4) W(4)])
  show "mem_used (plug_backward p (plug_forward p m)) = mem_used m" "mem_max (plug_backward p (plug_forward p m)) = mem_max m"
    using W F by simp_all
  have "offs 0 (as @ (False, fst (eat s bs)) # snd (eat s bs)) \<subseteq> offs 0 (as @ (False, s) # bs)"
    by (cases "(s, bs)" rule: eat.cases) (auto simp: add.assoc)
  then show "kept (offs 0 (as @ (False, s) # bs)) m (plug_backward p (plug_forward p m))"
    using kept_trans[OF F(5) kept_mono[OF W(5)]] by blast
qed


section \<open>What allocation does\<close>

lemma count_used_sel [simp]:
  "smem_addr (count_used n m) = smem_addr m" "heap_end (count_used n m) = heap_end m"
  "lfree (count_used n m) = lfree m" "mem_size_aligned (count_used n m) = mem_size_aligned m"
  "mem_used (count_used n m) = mem_used m + n" "mem_used m + n \<le> mem_max (count_used n m)"
  "heap_bytes (count_used n m) = heap_bytes m" "items (count_used n m) = items m"
  by (auto simp: count_used_def Let_def items_def)

lemma rep_items: "rep m p q bs \<Longrightarrow> smem_addr m' = smem_addr m \<Longrightarrow> heap_bytes m' = heap_bytes m \<Longrightarrow> rep m' p q bs"
  by (rule rep_cong[of m' m]) (simp_all add: items_def)

lemma same_heap_count: "same_heap m (count_used n m)"
  by (simp add: same_heap_def)

lemma aligned_iff: "(w :: u32) AND (4 - 1) = 0 \<longleftrightarrow> 4 dvd unat w"
proof -
  have "w AND (4 - 1) = take_bit 2 w" by (simp add: take_bit_eq_mask mask_eq_exp_minus_1)
  moreover have "unat (take_bit 2 w) = unat w mod 4" unfolding unsigned_take_bit_eq by (simp add: take_bit_eq_mod)
  ultimately show ?thesis by (metis mod_0_imp_dvd dvd_imp_mod_0 unat_0 unat_eq_zero)
qed

text \<open>The row after \<open>n\<close> bytes were taken from the free block of size \<open>s\<close>.\<close>

definition grab :: "nat \<Rightarrow> block list \<Rightarrow> nat \<Rightarrow> block list \<Rightarrow> block list" where
  "grab n as s bs = (if n + 36 \<le> s then as @ (True, n + 12) # (False, s - (n + 12)) # bs else as @ (True, s) # bs)"

lemma extent_grab: "n + 12 \<le> s \<Longrightarrow> extent (grab n as s bs) = extent (as @ (False, s) # bs)"
  by (simp add: grab_def)

lemma no_gaps_grab: "no_gaps (as @ (False, s) # bs) \<Longrightarrow> no_gaps (grab n as s bs)"
  by (auto simp: no_gaps_def grab_def successively_append_iff successively_Cons)

lemma occupy_rep:
  assumes o: "base_ok m (as @ (False, s) # bs)" and p: "unat p = extent as"
    and n: "unat sz + 12 \<le> s" "4 dvd unat sz" "12 \<le> unat sz"
    and u: "used_ok m (as @ (False, s) # bs)"
  shows "rep (occupy sz p m) 0 0 (grab (unat sz) as s bs)" "same_heap m (occupy sz p m)"
    "lfree (occupy sz p m) = lfree m" "used_ok (occupy sz p m) (grab (unat sz) as s bs)"
    "kept (offs 0 (grab (unat sz) as s bs)) m (occupy sz p m)"
proof -
  note B = base_okD[OF o]
  note S = split_offsets[OF B(1,2)]
  define nx where "nx = next_off (items m (extent as))"
  have un: "unat nx = extent as + s" using S(3) by (simp add: nx_def)
  have le: "s \<le> unat (heap_end m)" using S(6) by simp
  have "unat (p + SIZEOF_STRUCT_MEM) = extent as + 12"
    using unat_add[of p SIZEOF_STRUCT_MEM] p S(1,6) B(12) by (simp add: SIZEOF_STRUCT_MEM_def)
  then have room: "unat (nx - (p + SIZEOF_STRUCT_MEM)) = s - 12"
    using unat_diff[of "p + SIZEOF_STRUCT_MEM" nx] un n by simp
  have sz12: "unat (sz + SIZEOF_STRUCT_MEM) = unat sz + 12"
    using unat_add[of sz SIZEOF_STRUCT_MEM] n le B(12) by (simp add: SIZEOF_STRUCT_MEM_def)
  then have "unat (sz + SIZEOF_STRUCT_MEM + MIN_SIZE_ALIGNED) = unat sz + 24"
    using unat_add[of "sz + SIZEOF_STRUCT_MEM" MIN_SIZE_ALIGNED] n le B(12) by (simp add: MIN_SIZE_ALIGNED_def)
  then have c: "sz + SIZEOF_STRUCT_MEM + MIN_SIZE_ALIGNED \<le> nx - (p + SIZEOF_STRUCT_MEM) \<longleftrightarrow> unat sz + 36 \<le> s"
    using room n(1) by (auto simp: word_le_nat_alt)
  have whole: "unat (nx - p) = s" using unat_diff[of p nx] un p by simp
  have sum: "unat (mem_used m) + s \<le> unat (heap_end m)"
  proof -
    have "extent (filter fst xs) \<le> extent xs" for xs :: "block list" by (induction xs) auto
    from this[of as] this[of bs] have "extent (filter fst (as @ (False, s) # bs)) + s \<le> extent (as @ (False, s) # bs)"
      by simp
    then show ?thesis using u B(2) by (simp add: used_ok_def)
  qed
  have add: "unat k \<le> s \<Longrightarrow> unat (mem_used m + k) = unat (mem_used m) + unat k" for k
    using unat_add[of "mem_used m" k] sum B(12) by simp
  have f: "occupy sz p m = (let m = (if unat sz + 36 \<le> s then count_used (sz + SIZEOF_STRUCT_MEM) (cut_block p sz m)
      else count_used (nx - p) m) in upd_item p (\<lambda>i. i\<lparr>pool_ptr := MEM_USED m\<rparr>) m)"
    unfolding occupy_def Let_def item_def p nx_def[symmetric] c ..
  have "rep (occupy sz p m) 0 0 (grab (unat sz) as s bs) \<and> same_heap m (occupy sz p m) \<and>
    lfree (occupy sz p m) = lfree m \<and> used_ok (occupy sz p m) (grab (unat sz) as s bs) \<and>
    kept (offs 0 (grab (unat sz) as s bs)) m (occupy sz p m)"
  proof (cases "unat sz + 36 \<le> s")
    case True
    let ?m = "count_used (sz + SIZEOF_STRUCT_MEM) (cut_block p sz m)"
    have n': "unat sz + 28 \<le> s" "4 \<le> unat sz" using True n(3) by simp_all
    note C = rep_cut[OF B(1,2) p B(10) n'(1) n(2) n'(2)]
    have h: "heap_end ?m = heap_end m" using C(2) True by (simp add: same_heap_def)
    have r: "rep ?m 0 0 (as @ (False, unat sz + 12) # (False, s - (unat sz + 12)) # bs)"
      by (rule rep_items[OF C(1)]) (use True in simp_all)
    have e: "extent (as @ (False, unat sz + 12) # (False, s - (unat sz + 12)) # bs) = unat (heap_end ?m)"
      using B(2) True h by simp
    have t: "MEM_USED ?m = (if True then MEM_USED ?m else MEM_FREED ?m)" by simp
    note R = rep_retag[OF r e p t]
    have m: "occupy sz p m = upd_item p (\<lambda>i. i\<lparr>pool_ptr := MEM_USED ?m\<rparr>) ?m" using f True by (simp add: Let_def)
    have "same_heap m (occupy sz p m)"
      unfolding m using same_heap_trans[OF same_heap_trans[OF C(2) same_heap_count] R(2)] True by simp
    moreover have "kept (offs 0 (grab (unat sz) as s bs)) m (occupy sz p m)"
      unfolding m
    proof (rule kept_trans[OF kept_trans[OF kept_mono[OF C(7)] kept_same] kept_mono[OF R(3)]])
      show "{extent as, extent as + 12 + unat sz, extent as + s} \<subseteq> offs 0 (grab (unat sz) as s bs)"
        using True by (simp add: grab_def add.assoc add.left_commute)
    qed (use True in \<open>simp_all add: grab_def\<close>)
    ultimately show ?thesis using R(1) True C(3,4) u add[of "sz + SIZEOF_STRUCT_MEM"] sz12
        count_used_sel(6)[of "cut_block p sz m" "sz + SIZEOF_STRUCT_MEM"]
      unfolding m by (simp add: grab_def used_ok_def)
  next
    case False
    let ?m = "count_used (nx - p) m"
    have r: "rep ?m 0 0 (as @ (False, s) # bs)" by (rule rep_items[OF B(1)]) simp_all
    have e: "extent (as @ (False, s) # bs) = unat (heap_end ?m)" using B(2) by simp
    have t: "MEM_USED ?m = (if True then MEM_USED ?m else MEM_FREED ?m)" by simp
    note R = rep_retag[OF r e p t]
    have m: "occupy sz p m = upd_item p (\<lambda>i. i\<lparr>pool_ptr := MEM_USED ?m\<rparr>) ?m" using f False by (simp add: Let_def)
    have "same_heap m (occupy sz p m)"
      unfolding m by (rule same_heap_trans[OF same_heap_count R(2)])
    moreover have "kept (offs 0 (grab (unat sz) as s bs)) m (occupy sz p m)"
      unfolding m by (rule kept_trans[OF kept_same kept_mono[OF R(3)]]) (use False in \<open>simp_all add: grab_def\<close>)
    ultimately show ?thesis using R(1) False u add[of "nx - p"] whole unfolding m by (simp add: grab_def used_ok_def)
  qed
  then show "rep (occupy sz p m) 0 0 (grab (unat sz) as s bs)" "same_heap m (occupy sz p m)"
    "lfree (occupy sz p m) = lfree m" "used_ok (occupy sz p m) (grab (unat sz) as s bs)"
    "kept (offs 0 (grab (unat sz) as s bs)) m (occupy sz p m)" by blast+
qed


lemma lfree_is_free:
  assumes r: "rep m 0 0 bs" and e: "extent bs = unat (heap_end m)" and l: "unat l = extent (takeWhile fst bs)"
  shows "l = heap_end m \<or> \<not> MEM_ISUSED (item m l)"
proof (cases "dropWhile fst bs")
  case Nil
  then have t: "takeWhile fst bs = bs" using takeWhile_dropWhile_id[of fst bs] by simp
  have "unat l = unat (heap_end m)" unfolding l t e ..
  then show ?thesis by (simp add: word_unat_eq_iff)
next
  case (Cons b cs)
  obtain u s where b: "b = (u, s)" by force
  have bs: "bs = takeWhile fst bs @ (u, s) # cs" using takeWhile_dropWhile_id[of fst bs] Cons b by simp
  have "\<not> u" using hd_dropWhile[of fst bs] Cons b by simp
  have "MEM_ISUSED (items m (extent (takeWhile fst bs))) = u"
    by (rule split_offsets(9)[of m _ u s cs]) (use r e bs in simp_all)
  with \<open>\<not> u\<close> show ?thesis by (simp add: item_def l)
qed

lemma takeWhile_full:
  assumes r: "rep m p q as" and e: "extent as = extent (takeWhile fst as)"
  shows "\<forall>b\<in>set as. fst b"
proof (rule ccontr)
  assume n: "\<not> (\<forall>b\<in>set as. fst b)"
  have as: "takeWhile fst as @ dropWhile fst as = as" by simp
  have "dropWhile fst as \<noteq> []" using n by (simp add: dropWhile_eq_Nil_conv)
  then obtain u s cs where d: "dropWhile fst as = (u, s) # cs" by (metis list.exhaust surj_pair)
  then have "(u, s) \<in> set as" by (metis as in_set_conv_decomp)
  then have "12 \<le> s" using rep_sizes[OF r] by simp
  moreover have "extent as = extent (takeWhile fst as) + (s + extent cs)"
    by (subst as[symmetric]) (simp only: extent_simps d snd_conv)
  ultimately show False using e by simp
qed

lemma takeWhile_used: "\<forall>b\<in>set as. fst b \<Longrightarrow> takeWhile fst (as @ bs) = as @ takeWhile fst bs"
  by (induction as) auto

lemma takeWhile_stop: "\<not> (\<forall>b\<in>set as. fst b) \<Longrightarrow> takeWhile fst (as @ bs) = takeWhile fst as"
  by (induction as) auto

lemma grab_Cons: "\<exists>cs. grab n as s bs = as @ cs"
  by (simp add: grab_def)

lemma take_block_ok:
  assumes o: "heap_ok m (as @ (False, s) # bs)" and p: "unat p = extent as"
    and n: "unat sz + 12 \<le> s" "4 dvd unat sz" "12 \<le> unat sz"
  obtains m' where "take_block sz p m = Some (p + SIZEOF_STRUCT_MEM, m')" "heap_ok m' (grab (unat sz) as s bs)"
    "same_heap m m'" "kept (offs 0 (grab (unat sz) as s bs)) m m'"
proof -
  have b: "base_ok m (as @ (False, s) # bs)" and g: "no_gaps (as @ (False, s) # bs)" and u: "used_ok m (as @ (False, s) # bs)"
    using o by (simp_all add: heap_ok_def)
  note B = base_okD[OF b]
  note S = split_offsets[OF B(1,2)]
  note O = occupy_rep[OF b p n u]
  let ?m = "occupy sz p m" and ?bs = "grab (unat sz) as s bs"
  have h: "heap_end ?m = heap_end m" using O(2) by (simp add: same_heap_def)
  have e: "extent ?bs = unat (heap_end ?m)" using B(2) extent_grab[OF n(1)] h by simp
  obtain cs where cs: "?bs = as @ cs" using grab_Cons by blast
  have rcs: "rep ?m (before 0 0 as) (extent as) cs" using O(1) unfolding cs rep_append by simp
  define l where "l = (word_of_nat (extent (takeWhile fst ?bs)) :: u32)"
  have ul: "unat l = extent (takeWhile fst ?bs)"
    unfolding l_def by (rule unat_word) (use e extent_takeWhile[of fst ?bs] unat32_less[of "heap_end ?m"] in linarith)
  have nxt: "(if p = lfree ?m then do { l \<leftarrow> next_free ?m (lfree ?m);
      if l = heap_end ?m \<or> \<not> MEM_ISUSED (item ?m l) then Some (?m\<lparr>lfree := l\<rparr>) else None } else Some ?m) = Some (?m\<lparr>lfree := l\<rparr>)"
  proof (cases "p = lfree m")
    case True
    then have "extent as = extent (takeWhile fst as)" using p B(8) by simp
    then have all: "\<forall>b\<in>set as. fst b" by (rule takeWhile_full[OF S(7)])
    have "next_free ?m (word_of_nat (extent as)) = Some (word_of_nat (extent as + extent (takeWhile fst cs)))"
      by (rule next_free_first[OF _ rcs]) (use e cs in simp)
    then have "next_free ?m p = Some l"
      using takeWhile_used[OF all, of cs] cs unat_eqI[OF p] by (simp add: l_def)
    then show ?thesis using True O(3) lfree_is_free[OF O(1) e ul] by simp
  next
    case False
    have "\<not> (\<forall>b\<in>set as. fst b)"
    proof
      assume a: "\<forall>b\<in>set as. fst b"
      have t: "takeWhile fst as = as" using takeWhile_used[OF a, of "[]"] by simp
      have "unat (lfree m) = unat p" using B(8) p unfolding takeWhile_free t by simp
      then show False using False by (simp add: word_unat_eq_iff)
    qed
    then have "extent (takeWhile fst ?bs) = unat (lfree m)" using takeWhile_stop[of as cs] cs B(8) by simp
    then have "l = lfree ?m" using ul O(3) by (simp add: word_unat_eq_iff)
    then show ?thesis using False O(3) by simp
  qed
  have p12: "unat (p + SIZEOF_STRUCT_MEM) = extent as + 12"
    using unat_add[of p SIZEOF_STRUCT_MEM] p S(1,6) B(12) by (simp add: SIZEOF_STRUCT_MEM_def)
  have "unat (p + SIZEOF_STRUCT_MEM + sz) = extent as + 12 + unat sz"
    using unat_add[of "p + SIZEOF_STRUCT_MEM" sz] p12 S(6) n B(12) by simp
  then have le: "p + SIZEOF_STRUCT_MEM + sz \<le> heap_end ?m" using S(6) n h by (simp add: word_le_nat_alt)
  have d: "4 dvd extent as" by (rule extent_dvd[OF S(7)])
  have al: "unat (p + SIZEOF_STRUCT_MEM) mod 4 = 0" using p12 d by (simp add: mod_eq_0_iff_dvd)
  have "p AND (4 - 1) = 0" unfolding aligned_iff p by (rule d)
  then have t: "take_block sz p m = Some (p + SIZEOF_STRUCT_MEM, ?m\<lparr>lfree := l\<rparr>)"
    unfolding take_block_def Let_def nxt using le al by simp
  have sh: "same_heap m (?m\<lparr>lfree := l\<rparr>)" using O(2) by (simp add: same_heap_def)
  have "base_ok (?m\<lparr>lfree := l\<rparr>) ?bs"
    by (rule base_ok_same[OF b sh]) (use rep_items[OF O(1)] extent_grab[OF n(1)] ul in simp_all)
  moreover have "used_ok (?m\<lparr>lfree := l\<rparr>) ?bs" using O(4) by (simp add: used_ok_def)
  ultimately have "heap_ok (?m\<lparr>lfree := l\<rparr>) ?bs" using no_gaps_grab[OF g] by (simp add: heap_ok_def)
  moreover have "kept (offs 0 ?bs) m (?m\<lparr>lfree := l\<rparr>)" by (rule kept_trans[OF O(5) kept_same]) simp
  ultimately show ?thesis using that t sh by blast
qed


text \<open>What allocation does to a row.\<close>

fun take_first :: "nat \<Rightarrow> block list \<Rightarrow> block list" where
  "take_first n [] = []"
| "take_first n ((u, s) # bs) = (if \<not> u \<and> n + 12 \<le> s then grab n [] s bs else (u, s) # take_first n bs)"

lemma take_first_None: "first_fit n q bs = None \<Longrightarrow> take_first n bs = bs"
  by (induction n q bs rule: first_fit.induct) (auto split: if_splits)

lemma grab_step: "grab n ((u, s) # as) t bs = (u, s) # grab n as t bs"
  by (simp add: grab_def)

lemma take_first_split:
  "n + 12 \<le> s \<Longrightarrow> (\<forall>(u, t)\<in>set as. u \<or> t < n + 12) \<Longrightarrow> take_first n (as @ (False, s) # bs) = grab n as s bs"
proof (induction as)
  case (Cons a as)
  obtain u t where a: "a = (u, t)" by force
  then have "\<not> (\<not> u \<and> n + 12 \<le> t)" using Cons.prems by auto
  moreover have "take_first n (as @ (False, s) # bs) = grab n as s bs" using Cons by simp
  ultimately show ?case unfolding a grab_step by (simp only: append_Cons take_first.simps if_False)
qed simp

lemma unat_align_down: "unat ((v :: u32) AND NOT (4 - 1)) = unat v div 4 * 4"
proof -
  have m: "(4 - 1 :: u32) = mask 2" by (simp add: mask_eq_exp_minus_1)
  have two: "2 \<le> n \<Longrightarrow> Suc (Suc (n - 2)) = n" for n :: nat by simp
  have "v AND NOT (4 - 1) = push_bit 2 (drop_bit 2 v)"
    unfolding m by (rule bit_word_eqI) (auto simp: bit_simps two)
  moreover have "unat (drop_bit 2 v) = unat v div 4" unfolding unsigned_drop_bit_eq using unat32_less[of v] by (simp add: drop_bit_eq_div take_bit_nat_eq_self)
  moreover have "unat v div 4 * 4 < 2 ^ 32" using unat32_less[of v] by linarith
  ultimately show ?thesis by (simp add: push_bit_eq_mult unat_word_ariths mult.commute)
qed

lemma unat_RT_ALIGN:
  assumes "unat w + 3 < 2 ^ 32" shows "unat (RT_ALIGN w) = (unat w + 3) div 4 * 4"
proof -
  have t: "unat (3 :: u32) = 3" by simp
  have "unat (w + 3) = unat w + 3" using unat_add[of w 3] assms unfolding t by simp
  moreover have "w + 4 - 1 = w + 3" by simp
  ultimately have "unat (w + 4 - 1) = unat w + 3" by (simp only:)
  then show ?thesis unfolding RT_ALIGN_def unat_align_down by (simp only:)
qed

lemma RT_ALIGN_ge: "unat w + 3 < 2 ^ 32 \<Longrightarrow> unat w \<le> unat (RT_ALIGN w)"
  by (simp add: unat_RT_ALIGN)

lemma RT_ALIGN_same:
  assumes "4 dvd unat w" shows "RT_ALIGN w = w"
proof -
  obtain k where k: "unat w = 4 * k" using assms by (auto elim: dvdE)
  have "unat w + 3 < 2 ^ 32" using k unat32_less[of w] by (simp; presburger)
  then have "unat (RT_ALIGN w) = unat w" using k by (simp add: unat_RT_ALIGN)
  then show ?thesis by (simp add: word_unat_eq_iff)
qed

definition block_size :: "u32 \<Rightarrow> nat" where
  "block_size sz = max 12 (unat (RT_ALIGN sz))"

lemma RT_ALIGN_dvd: "4 dvd unat (RT_ALIGN sz)"
proof -
  have "(w AND NOT 3) AND (4 - 1) = 0" for w :: u32 by (simp add: and.assoc)
  then show ?thesis unfolding RT_ALIGN_def aligned_iff[symmetric] by simp
qed

lemma block_size_dvd: "4 dvd block_size sz" "12 \<le> block_size sz"
  using RT_ALIGN_dvd[of sz] by (auto simp: block_size_def max_def)

lemma smem_alloc_rep:
  assumes o: "heap_ok m bs" and z: "sz \<noteq> 0"
  obtains m' where "rt_smem_alloc sz m = Some (map_option (\<lambda>q. word_of_nat (q + 12)) (first_fit (block_size sz) 0 bs), m')"
    "heap_ok m' (take_first (block_size sz) bs)" "same_heap m m'" "kept (offs 0 (take_first (block_size sz) bs)) m m'"
    "first_fit (block_size sz) 0 bs = None \<longrightarrow> m' = m"
proof -
  let ?n = "block_size sz" and ?a = "RT_ALIGN sz"
  define k where "k = (if ?a < MIN_SIZE_ALIGNED then MIN_SIZE_ALIGNED else ?a)"
  have k: "unat k = ?n" by (auto simp: k_def block_size_def MIN_SIZE_ALIGNED_def word_less_nat_alt)
  note K = block_size_dvd[of sz]
  have b: "base_ok m bs" using o by (simp add: heap_ok_def)
  note B = base_okD[OF b]
  show ?thesis
  proof (cases "first_fit ?n 0 bs")
    case None
    have "rt_smem_alloc sz m = Some (None, m)"
    proof (cases "mem_size_aligned m < ?a")
      case False
      then have "unat k \<le> unat (mem_size_aligned m)" using B(4) unfolding k block_size_def by (simp add: word_less_nat_alt)
      then have "find_fit m k (lfree m) = Some None" using find_fit_base[OF b, of k] K None k by simp
      then show ?thesis using False z by (simp add: rt_smem_alloc_def Let_def k_def)
    qed (use z in \<open>simp add: rt_smem_alloc_def Let_def\<close>)
    then show ?thesis using that[of m] None o by (simp add: take_first_None same_heap_refl kept_refl)
  next
    case (Some q)
    from first_fit_Some[OF this] obtain as s cs where f: "bs = as @ (False, s) # cs" "q = extent as" "?n + 12 \<le> s"
      "\<forall>(u, t)\<in>set as. u \<or> t < ?n + 12" by auto
    have t: "take_first ?n bs = grab ?n as s cs" unfolding f(1) by (rule take_first_split[OF f(3,4)])
    have "s \<le> unat (heap_end m)" using B(2) f(1) by simp
    then have le: "unat k \<le> unat (mem_size_aligned m)" using f(3) B(3) k by simp
    then have "\<not> mem_size_aligned m < ?a" unfolding k block_size_def by (simp add: word_less_nat_alt)
    moreover have "find_fit m k (lfree m) = Some (Some (word_of_nat q))" using find_fit_base[OF b _ le] K Some k by simp
    ultimately have a: "rt_smem_alloc sz m = map_option (apfst Some) (take_block k (word_of_nat q) m)"
      using z by (simp add: rt_smem_alloc_def Let_def k_def)
    have uq: "unat (word_of_nat q :: u32) = extent as"
      unfolding f(2) by (rule unat_word) (use B(9) f(1) in simp)
    have "heap_ok m (as @ (False, s) # cs)" using o f(1) by simp
    from take_block_ok[OF this uq, of k] obtain m' where
      m': "take_block k (word_of_nat q) m = Some (word_of_nat q + SIZEOF_STRUCT_MEM, m')"
        "heap_ok m' (grab ?n as s cs)" "same_heap m m'" "kept (offs 0 (grab ?n as s cs)) m m'"
      using f(3) K unfolding k by blast
    show ?thesis
      by (rule that[of m']) (use m' a Some t in \<open>simp_all add: SIZEOF_STRUCT_MEM_def add.commute\<close>)
  qed
qed

section \<open>What freeing does\<close>

lemma no_gaps_release: "no_gaps (as @ (True, s) # bs) \<Longrightarrow> no_gaps (release as s bs)"
  by (cases as rule: rev_cases; cases "(s, bs)" rule: eat.cases)
     (auto simp: release_def put_back_def no_gaps_def successively_append_iff successively_Cons split: if_splits)

lemma used_release: "extent (filter fst (release as s bs)) = extent (filter fst as) + extent (filter fst bs)"
  by (cases as rule: rev_cases; cases "(s, bs)" rule: eat.cases) (auto simp: release_def put_back_def)

lemma smem_free_rep:
  assumes o: "heap_ok m (as @ (True, s) # bs)" and r: "unat r = extent as + 12"
  obtains m' where "rt_smem_free (Some r) m = Some m'" "heap_ok m' (release as s bs)" "same_heap m m'"
    "kept (offs 0 (as @ (True, s) # bs)) m m'"
proof -
  have b: "base_ok m (as @ (True, s) # bs)" and g: "no_gaps (as @ (True, s) # bs)" and u: "used_ok m (as @ (True, s) # bs)"
    using o by (simp_all add: heap_ok_def)
  note B = base_okD[OF b]
  note S = split_offsets[OF B(1,2)]
  have s16: "16 \<le> s" using S(8) by simp
  define p where "p = r - SIZEOF_STRUCT_MEM"
  have p: "unat p = extent as" using unat_diff[of SIZEOF_STRUCT_MEM r] r by (simp add: p_def SIZEOF_STRUCT_MEM_def)
  define nx where "nx = next_off (items m (extent as))"
  have un: "unat nx = extent as + s" using S(3) by (simp add: nx_def)
  have "MEM_POOL (items m (unat nx)) = smem_addr m"
  proof (cases bs)
    case Nil
    then have "unat nx = unat (heap_end m)" using S(5) un by simp
    then show ?thesis using pool_of(1)[OF B(6,5)] by simp
  next
    case (Cons b cs)
    obtain v t where "b = (v, t)" by force
    then have "pool_ptr (items m (unat nx)) = (if v then MEM_USED m else MEM_FREED m)" using S(8) Cons un by simp
    then show ?thesis using pool_of[OF B(6)] by (cases v) auto
  qed
  moreover have "MEM_POOL (items m (extent as)) = smem_addr m" by (rule pool_of(1)[OF B(6)]) (use S(8) in simp)
  moreover have "r AND (4 - 1) = 0" unfolding aligned_iff r using extent_dvd[OF S(7)] by simp
  moreover have "r < heap_end m" using r S(6) s16 by (simp add: word_less_nat_alt)
  moreover define m1 where "m1 = upd_item p (\<lambda>i. i\<lparr>pool_ptr := MEM_FREED m\<rparr>) m"
  moreover define m2 where "m2 = m1\<lparr>lfree := (if p < lfree m then p else lfree m), mem_used := mem_used m - (nx - p)\<rparr>"
  moreover have "m2 = (let m = m1; m = (if p < lfree m then m\<lparr>lfree := p\<rparr> else m) in m\<lparr>mem_used := mem_used m - (nx - p)\<rparr>)"
    by (simp add: m2_def m1_def Let_def)
  ultimately have f: "rt_smem_free (Some r) m = plug_holes p m2"
    using S(9) B(7) unfolding rt_smem_free_def option.case Let_def p_def[symmetric] item_def p nx_def[symmetric] by simp
  have t: "MEM_FREED m = (if False then MEM_USED m else MEM_FREED m)" by simp
  note R = rep_retag[OF B(1,2) p t, folded m1_def]
  have h1: "same_heap m m2" using R(2) by (simp add: same_heap_def m2_def items_def)
  have "unat (lfree m2) = extent (takeWhile fst (as @ (False, s) # bs))"
  proof (cases "\<forall>b\<in>set as. fst b")
    case True
    then have "p < lfree m" using B(8) p s16 takeWhile_used[OF True] by (simp add: word_less_nat_alt)
    moreover have t: "takeWhile fst as = as" using takeWhile_used[OF True, of "[]"] by simp
    ultimately show ?thesis unfolding takeWhile_free t by (simp add: m2_def p)
  next
    case False
    have l: "unat (lfree m) = extent (takeWhile fst as)" using B(8) takeWhile_stop[OF False] by simp
    then have "\<not> p < lfree m" using p extent_takeWhile[of fst as] by (simp add: word_less_nat_alt)
    then show ?thesis using l by (simp add: m2_def)
  qed
  then have b2: "base_ok m2 (as @ (False, s) # bs)"
    using base_ok_same[OF b h1 rep_items[OF R(1)]] by (simp add: m2_def)
  from plug_holes_base[OF b2 p] obtain m' where m': "plug_holes p m2 = Some m'" "base_ok m' (release as s bs)"
    "same_heap m2 m'" "mem_used m' = mem_used m2" "mem_max m' = mem_max m2" "kept (offs 0 (as @ (False, s) # bs)) m2 m'" .
  have "unat (nx - p) = s" using unat_diff[of p nx] un p by simp
  moreover have "s \<le> unat (mem_used m)" using u by (simp add: used_ok_def)
  ultimately have "unat (mem_used m2) = unat (mem_used m) - s" using unat_diff[of "nx - p" "mem_used m"] by (simp add: m2_def)
  then have "used_ok m' (release as s bs)"
    using u m'(4,5) used_release[of as s bs] by (simp add: used_ok_def m2_def m1_def word_le_nat_alt)
  then have ok: "heap_ok m' (release as s bs)" using m'(2) no_gaps_release[OF g] by (simp add: heap_ok_def)
  have "offs 0 (as @ (False, s) # bs) = offs 0 (as @ (True, s) # bs)" by simp
  then have "kept (offs 0 (as @ (True, s) # bs)) m m'"
    using kept_trans[OF kept_trans[OF kept_mono[OF R(3)] kept_same] m'(6)] by (simp add: m2_def)
  then show ?thesis using that f m'(1,3) ok same_heap_trans[OF h1] by simp
qed


section \<open>The blocks in use\<close>

text \<open>The used blocks of a row, with their sizes.\<close>

fun lives :: "nat \<Rightarrow> block list \<Rightarrow> (nat \<times> nat) set" where
  "lives q [] = {}"
| "lives q ((u, s) # bs) = (if u then {(q, s)} else {}) \<union> lives (q + s) bs"

lemma lives_append [simp]: "lives q (as @ bs) = lives q as \<union> lives (q + extent as) bs"
  by (induction q as rule: lives.induct) (auto simp: add.assoc)

lemma lives_split: "(p, s) \<in> lives q bs \<Longrightarrow> \<exists>as cs. bs = as @ (True, s) # cs \<and> p = q + extent as"
proof (induction q bs rule: lives.induct)
  case (2 q u t bs)
  show ?case
  proof (cases "(p, s) \<in> lives (q + t) bs")
    case True
    from 2(1)[OF this] obtain as cs where "bs = as @ (True, s) # cs" "p = q + t + extent as" by blast
    then have "(u, t) # bs = ((u, t) # as) @ (True, s) # cs" "p = q + extent ((u, t) # as)" by simp_all
    then show ?thesis by blast
  next
    case False
    then have "(u, t) # bs = [] @ (True, s) # bs" "p = q + extent []" using 2(2) by (auto split: if_splits)
    then show ?thesis by blast
  qed
qed simp

lemma lives_ge: "(p, s) \<in> lives q bs \<Longrightarrow> q \<le> p"
  using lives_split by fastforce

lemma offs_ge: "j \<in> offs q bs \<Longrightarrow> q \<le> j"
  by (induction q bs rule: offs.induct) auto

lemma lives_offs: "(p, s) \<in> lives q bs \<Longrightarrow> p \<in> offs q bs"
  using lives_split by fastforce

lemma heads_offs: "j \<in> heads q bs \<Longrightarrow> j \<in> offs q bs"
  by (induction q bs rule: heads.induct) auto

text \<open>The contents of a block hold no item.\<close>

lemma offs_outside: "(a, k) \<in> lives q bs \<Longrightarrow> j \<in> offs q bs \<Longrightarrow> j \<le> a \<or> a + k \<le> j"
proof (induction q bs rule: lives.induct)
  case (2 q u s bs)
  consider "a = q" "k = s" | "(a, k) \<in> lives (q + s) bs" using 2(2) by (auto split: if_splits)
  then show ?case
  proof cases
    case 1
    then show ?thesis using 2(3) offs_ge[of j "q + s" bs] by auto
  next
    case l: 2
    then show ?thesis using 2(1,3) lives_ge[OF l] by auto
  qed
qed simp

lemma lives_apart:
  assumes "(a, k) \<in> lives 0 bs" "(b, l) \<in> lives 0 bs" "a \<noteq> b"
  shows "a + k \<le> b \<or> b + l \<le> a"
  using offs_outside[OF assms(1) lives_offs[OF assms(2)]] offs_outside[OF assms(2) lives_offs[OF assms(1)]] assms(3) by auto

lemma lives_unique:
  assumes r: "rep m 0 0 bs" and a: "(a, k) \<in> lives 0 bs" "(a, l) \<in> lives 0 bs"
  shows "k = l"
proof (rule ccontr)
  assume "k \<noteq> l"
  have next_off: "unat (next_off (items m a)) = a + k" if "(a, k) \<in> lives 0 bs" for k
  proof -
    from lives_split[OF that] obtain as cs where c: "bs = as @ (True, k) # cs" "a = extent as" by auto
    show ?thesis using r unfolding c rep_append by simp
  qed
  show False using next_off[OF a(1)] next_off[OF a(2)] \<open>k \<noteq> l\<close> by simp
qed

text \<open>The contents of the blocks of \<open>L\<close> are what they were.\<close>

definition data_kept :: "(nat \<times> nat) set \<Rightarrow> small_mem \<Rightarrow> small_mem \<Rightarrow> bool" where
  "data_kept L m m' \<longleftrightarrow> (\<forall>(q, k)\<in>L. \<forall>j. q + 12 \<le> j \<and> j < q + k \<longrightarrow> heap_bytes m' j = heap_bytes m j)"

lemma data_keptD: "data_kept L m m' \<Longrightarrow> (q, k) \<in> L \<Longrightarrow> q + 12 \<le> j \<Longrightarrow> j < q + k \<Longrightarrow> heap_bytes m' j = heap_bytes m j"
  by (auto simp: data_kept_def)

lemma kept_data: "kept (offs 0 bs) m m' \<Longrightarrow> L \<subseteq> lives 0 bs \<Longrightarrow> data_kept L m m'"
  unfolding data_kept_def
proof clarify
  fix q k j assume a: "kept (offs 0 bs) m m'" "L \<subseteq> lives 0 bs" "(q, k) \<in> L" "q + 12 \<le> j" "j < q + k"
  have "j < o' \<or> o' + 12 \<le> j" if "o' \<in> offs 0 bs" for o'
    using offs_outside[OF _ that, of q k] a by auto
  then show "heap_bytes m' j = heap_bytes m j" using a(1) by (simp add: kept_def)
qed

lemma write_inside:
  assumes o: "heap_ok m bs" and l: "(q, k) \<in> lives 0 bs"
    and w: "\<And>j. \<not> (q + 12 \<le> j \<and> j < q + k) \<Longrightarrow> b j = heap_bytes m j"
  shows "heap_ok (m\<lparr>heap_bytes := b\<rparr>) bs"
proof -
  let ?m = "m\<lparr>heap_bytes := b\<rparr>"
  have it: "items ?m j = items m j" if "j \<in> offs 0 bs" for j
  proof -
    have "b i = heap_bytes m i" if "j \<le> i" "i < j + 12" for i
      by (rule w) (use offs_outside[OF l \<open>j \<in> offs 0 bs\<close>] that in auto)
    then show ?thesis by (simp add: items_def word_at_def)
  qed
  have B: "base_ok m bs" using o by (simp add: heap_ok_def)
  have e: "unat (heap_end m) \<in> offs 0 bs"
    using offs_append[of 0 bs "[]"] base_okD(2)[OF B] by auto
  have "rep ?m 0 0 bs" by (rule rep_cong[OF _ _ base_okD(1)[OF B]]) (simp_all add: it heads_offs)
  then have "base_ok ?m bs"
    by (rule base_ok_same[OF B, rotated]) (use it[OF e] base_okD(8)[OF B] in \<open>simp_all add: same_heap_def\<close>)
  then show ?thesis using o by (simp add: heap_ok_def used_ok_def)
qed

lemma lives_grab: "n + 12 \<le> s \<Longrightarrow> lives q (grab n as s bs) =
    insert (q + extent as, if n + 36 \<le> s then n + 12 else s) (lives q (as @ (False, s) # bs))"
  by (auto simp: grab_def add.assoc)

lemma lives_release: "lives q (release as s bs) = lives q as \<union> lives (q + extent as + s) bs"
  by (cases as rule: rev_cases; cases "(s, bs)" rule: eat.cases)
     (auto simp: release_def put_back_def add.assoc)


lemma live_used:
  assumes b: "base_ok m bs" and l: "(q, k) \<in> lives 0 bs"
  shows "MEM_ISUSED (items m q)" "16 \<le> k" "q + k \<le> unat (heap_end m)" "4 dvd q"
proof -
  note B = base_okD[OF b]
  from lives_split[OF l] obtain as cs where c: "bs = as @ (True, k) # cs" "q = extent as" by auto
  note S = split_offsets[OF B(1,2)[unfolded c(1)]]
  show "MEM_ISUSED (items m q)" "16 \<le> k" "q + k \<le> unat (heap_end m)" "4 dvd q"
    using S(6,8,9) extent_dvd[OF S(7)] by (simp_all add: c(2))
qed

lemma alloc_live:
  assumes o: "heap_ok m bs" and z: "sz \<noteq> 0"
  obtains (none) "rt_smem_alloc sz m = Some (None, m)" "first_fit (block_size sz) 0 bs = None"
  | (some) d m' bs' q s where "rt_smem_alloc sz m = Some (Some d, m')" "unat d = q + 12" "heap_ok m' bs'"
      "same_heap m m'" "lives 0 bs' = insert (q, s) (lives 0 bs)" "q \<notin> fst ` lives 0 bs" "block_size sz + 12 \<le> s"
      "data_kept (lives 0 bs) m m'"
proof -
  let ?n = "block_size sz"
  have b: "base_ok m bs" using o by (simp add: heap_ok_def)
  from smem_alloc_rep[OF o z] obtain m' where
    m': "rt_smem_alloc sz m = Some (map_option (\<lambda>q. word_of_nat (q + 12)) (first_fit ?n 0 bs), m')"
      "heap_ok m' (take_first ?n bs)" "same_heap m m'" "kept (offs 0 (take_first ?n bs)) m m'"
      "first_fit ?n 0 bs = None \<longrightarrow> m' = m" .
  show ?thesis
  proof (cases "first_fit ?n 0 bs")
    case None
    then show ?thesis using none m' by simp
  next
    case (Some q)
    from first_fit_Some[OF this] obtain as s cs where f: "bs = as @ (False, s) # cs" "q = extent as" "?n + 12 \<le> s"
      "\<forall>(u, t)\<in>set as. u \<or> t < ?n + 12" by auto
    have t: "take_first ?n bs = grab ?n as s cs" unfolding f(1) by (rule take_first_split[OF f(3,4)])
    note S = split_offsets[OF base_okD(1,2)[OF b, unfolded f(1)]]
    have q12: "q + 12 < 2 ^ 32" using S(6) f(2,3) unat32_less[of "heap_end m"] by linarith
    note L = lives_grab[OF f(3), of 0 as cs, folded t f(1)]
    show ?thesis
    proof (rule some)
      show "rt_smem_alloc sz m = Some (Some (word_of_nat (q + 12)), m')" using m'(1) Some by simp
      show "unat (word_of_nat (q + 12) :: u32) = q + 12" by (rule unat_word[OF q12])
      show "lives 0 (take_first ?n bs) = insert (q, if ?n + 36 \<le> s then ?n + 12 else s) (lives 0 bs)"
        using L f(2) by simp
      show "q \<notin> fst ` lives 0 bs" using live_used(1)[OF b] S(9) f(2) by force
      show "data_kept (lives 0 bs) m m'" by (rule kept_data[OF m'(4)]) (use L in auto)
    qed (use m' f(3) in auto)
  qed
qed

lemma free_live:
  assumes o: "heap_ok m bs" and l: "(q, s) \<in> lives 0 bs" and r: "unat r = q + 12"
  obtains m' bs' where "rt_smem_free (Some r) m = Some m'" "heap_ok m' bs'" "same_heap m m'"
    "lives 0 bs' = lives 0 bs - {(q, s)}" "data_kept (lives 0 bs) m m'"
proof -
  have b: "base_ok m bs" using o by (simp add: heap_ok_def)
  from lives_split[OF l] obtain as cs where c: "bs = as @ (True, s) # cs" "q = extent as" by auto
  from smem_free_rep[of m as s cs r] o r c obtain m' where m': "rt_smem_free (Some r) m = Some m'"
    "heap_ok m' (release as s cs)" "same_heap m m'" "kept (offs 0 bs) m m'" by auto
  have "(q, s) \<notin> lives 0 as" "(q, s) \<notin> lives (q + s) cs"
  proof -
    show "(q, s) \<notin> lives (q + s) cs" using lives_ge[of q s "q + s" cs] live_used(2)[OF b l] by auto
    show "(q, s) \<notin> lives 0 as"
    proof
      assume "(q, s) \<in> lives 0 as"
      from lives_split[OF this] obtain xs ys where "as = xs @ (True, s) # ys" "q = extent xs" by auto
      then show False using c(2) live_used(2)[OF b l] by simp
    qed
  qed
  then have "lives 0 (release as s cs) = lives 0 bs - {(q, s)}" unfolding lives_release c by auto
  then show ?thesis using that m' kept_data[OF m'(4)] by blast
qed


text \<open>The shrinking of a block in place.\<close>

lemma shrink_block:
  assumes o: "heap_ok m bs" and l: "(q, s) \<in> lives 0 bs" and p: "unat p = q"
    and n: "unat n + 36 < s" "4 dvd unat n" "4 \<le> unat n"
    and m2: "m1 = cut_block p n (m\<lparr>mem_used := mem_used m - (k - n)\<rparr>)" "unat k = s - 12"
      "p2 = p + SIZEOF_STRUCT_MEM + n" "m2 = (if p2 < lfree m1 then m1\<lparr>lfree := p2\<rparr> else m1)"
  obtains m' bs' where "plug_holes p2 m2 = Some m'" "heap_ok m' bs'" "same_heap m m'"
    "lives 0 bs' = insert (q, unat n + 12) (lives 0 bs - {(q, s)})"
    "data_kept (insert (q, unat n + 12) (lives 0 bs - {(q, s)})) m m'"
proof -
  from lives_split[OF l] obtain as cs where c: "bs = as @ (True, s) # cs" "q = extent as" by auto
  have b: "base_ok m bs" and g: "no_gaps bs" and u: "used_ok m bs" using o by (simp_all add: heap_ok_def)
  note B = base_okD[OF b]
  let ?m = "m\<lparr>mem_used := mem_used m - (k - n)\<rparr>" and ?t = "s - (unat n + 12)"
  let ?as = "as @ [(True, unat n + 12)]" and ?row = "as @ (True, unat n + 12) # (False, s - (unat n + 12)) # cs"
  have r: "rep ?m 0 0 (as @ (True, s) # cs)" by (rule rep_items[OF B(1)[unfolded c(1)]]) simp_all
  have e: "extent (as @ (True, s) # cs) = unat (heap_end ?m)" using B(2) c(1) by simp
  have e2: "heap_end ?m = mem_size_aligned ?m + SIZEOF_STRUCT_MEM" using B(10) by simp
  have pa: "unat p = extent as" and n28: "unat n + 28 \<le> s" using p c(2) n(1) by simp_all
  note C = rep_cut[OF r e pa e2 n28 n(2,3), folded m2(1)]
  note S = split_offsets[OF r e]
  have sh: "same_heap m m1" by (rule same_heap_trans[OF _ C(2)]) (simp add: same_heap_def)
  have p2: "unat p2 = extent ?as" using C(6) by (simp add: m2(3))
  have sel: "same_heap m m2" "heap_bytes m2 = heap_bytes m1" "mem_used m2 = mem_used m1" "mem_max m2 = mem_max m1"
    "smem_addr m2 = smem_addr m1"
    using sh by (auto simp: m2(4) same_heap_def)
  have "unat (lfree m2) = extent (takeWhile fst ?row)"
  proof (cases "\<forall>b\<in>set as. fst b")
    case True
    then have "p2 < lfree m1" using B(8) C(3) p2 n(1) takeWhile_used[OF True] c by (simp add: word_less_nat_alt)
    then show ?thesis using p2 takeWhile_used[OF True] by (simp add: m2(4))
  next
    case False
    have f: "unat (lfree m1) = extent (takeWhile fst as)" using B(8) C(3) takeWhile_stop[OF False] c by simp
    then have "\<not> p2 < lfree m1" using p2 extent_takeWhile[of fst as] by (simp add: word_less_nat_alt)
    then show ?thesis using f takeWhile_stop[OF False] by (simp add: m2(4))
  qed
  then have b2: "base_ok m2 (?as @ (False, ?t) # cs)"
    using base_ok_same[OF b sel(1) rep_items[OF C(1) sel(5,2)]] n(1) c by simp
  from plug_holes_base[OF b2 p2] obtain m' where m': "plug_holes p2 m2 = Some m'" "base_ok m' (release ?as ?t cs)"
    "same_heap m2 m'" "mem_used m' = mem_used m2" "mem_max m' = mem_max m2" "kept (offs 0 (?as @ (False, ?t) # cs)) m2 m'" .
  have kn: "unat (k - n) = s - 12 - unat n" using unat_diff[of n k] m2(2) n(1) by simp
  have "unat (mem_used ?m) = unat (mem_used m) - (s - 12 - unat n)"
    using unat_diff[of "k - n" "mem_used m"] kn u c by (simp add: used_ok_def)
  then have "used_ok m' (release ?as ?t cs)"
    using u c n(1) C(4,5) sel(3,4) m'(4,5) used_release[of ?as ?t cs] by (simp add: used_ok_def word_le_nat_alt)
  moreover have "no_gaps (?as @ (True, ?t) # cs)"
    using g c by (auto simp: no_gaps_def successively_append_iff successively_Cons)
  then have "no_gaps (release ?as ?t cs)" by (rule no_gaps_release)
  ultimately have ok: "heap_ok m' (release ?as ?t cs)" using m'(2) by (simp add: heap_ok_def)
  have nl: "lives 0 bs - {(q, s)} = lives 0 as \<union> lives (q + s) cs"
  proof -
    have "(q, s) \<notin> lives (q + s) cs" using lives_ge[of q s "q + s" cs] n(1) by auto
    moreover have "(q, s) \<notin> lives 0 as" using lives_split[of q s 0 as] c(2) n(1) by fastforce
    ultimately show ?thesis using c by auto
  qed
  have lv: "lives 0 (release ?as ?t cs) = insert (q, unat n + 12) (lives 0 bs - {(q, s)})"
    unfolding lives_release nl using n(1) c(2) by (auto simp: add.assoc)
  have k1: "kept (offs 0 ?row) m m1"
    by (rule kept_trans[OF kept_same kept_mono[OF C(7)]]) (use n(1) in \<open>simp_all add: add.assoc add.left_commute\<close>)
  have rw: "?as @ (False, ?t) # cs = ?row" by simp
  have k2: "kept (offs 0 ?row) m m'"
    by (rule kept_trans[OF kept_trans[OF k1 kept_same[OF sel(2)]] m'(6)[unfolded rw]])
  have "insert (q, unat n + 12) (lives 0 bs - {(q, s)}) \<subseteq> lives 0 ?row"
    unfolding nl using n(1) c(2) by (auto simp: add.assoc)
  then have "data_kept (insert (q, unat n + 12) (lives 0 bs - {(q, s)})) m m'" by (rule kept_data[OF k2])
  then show ?thesis using that m'(1) ok same_heap_trans[OF sel(1) m'(3)] lv by blast
qed


lemma copy_bytes_moved:
  "unat d \<le> unat r \<or> unat r + unat n \<le> unat d \<Longrightarrow>
     heap_bytes (copy_bytes d r n m) j =
     (if unat d \<le> j \<and> j < unat d + unat n then heap_bytes m (unat r + (j - unat d)) else heap_bytes m j)"
  by (simp add: copy_bytes_def rt_memcpy_moved moved_def)

lemma same_heap_write: "same_heap m m1 \<Longrightarrow> base_ok (m1\<lparr>heap_bytes := b\<rparr>) bs \<Longrightarrow> base_ok m bs' \<Longrightarrow> same_heap m (m1\<lparr>heap_bytes := b\<rparr>)"
  unfolding same_heap_def base_ok_def MEM_USED_def by auto

text \<open>The moving of a block: allocate, copy, free.\<close>

lemma move_block:
  assumes o: "heap_ok m bs" and l: "(q, s) \<in> lives 0 bs" and r: "unat r = q + 12"
    and z: "n \<noteq> 0" "4 dvd unat n" and k: "unat k = min (unat n) (s - 12)"
  obtains (none) "rt_smem_alloc n m = Some (None, m)" "first_fit (block_size n) 0 bs = None"
  | (some) d m1 m' bs' p t where "rt_smem_alloc n m = Some (Some d, m1)"
      "rt_smem_free (Some r) (copy_bytes d r k m1) = Some m'" "unat d = p + 12" "heap_ok m' bs'" "same_heap m m'"
      "lives 0 bs' = insert (p, t) (lives 0 bs - {(q, s)})" "p \<notin> fst ` lives 0 bs" "unat n + 12 \<le> t"
      "data_kept (lives 0 bs - {(q, s)}) m m'"
      "\<forall>i<min (unat n) (s - 12). heap_bytes m' (unat d + i) = heap_bytes m (unat r + i)"
proof (cases rule: alloc_live[OF o z(1)])
  case 1
  then show ?thesis using none by blast
next
  case (2 d m1 bs1 p t)
  have n: "unat n + 12 \<le> t" using 2(7) RT_ALIGN_same[OF z(2)] by (simp add: block_size_def)
  let ?m2 = "copy_bytes d r k m1" and ?L = "lives 0 bs - {(q, s)}"
  have new: "(p, t) \<in> lives 0 bs1" and old: "(q, s) \<in> lives 0 bs1" using 2(5) l by simp_all
  have "base_ok m bs" using o by (simp add: heap_ok_def)
  then have s16: "16 \<le> s" by (rule live_used(2)[OF _ l])
  have pq: "p \<noteq> q" using 2(6) l by force
  have apart: "unat d \<le> unat r \<or> unat r + unat k \<le> unat d"
    using lives_apart[OF new old pq] 2(2) r k s16 by auto
  note cp = copy_bytes_moved[OF apart, of m1]
  have "heap_ok (m1\<lparr>heap_bytes := moved (unat d) (unat r) (unat k) (heap_bytes m1)\<rparr>) bs1"
    by (rule write_inside[OF 2(3) new]) (use 2(2) n k in \<open>auto simp: moved_def\<close>)
  then have ok2: "heap_ok ?m2 bs1" by (simp add: copy_bytes_def rt_memcpy_moved[OF apart])
  from free_live[OF ok2 old r] obtain m' bs' where f: "rt_smem_free (Some r) ?m2 = Some m'" "heap_ok m' bs'"
    "same_heap ?m2 m'" "lives 0 bs' = lives 0 bs1 - {(q, s)}" "data_kept (lives 0 bs1) ?m2 m'" by blast
  have lv: "lives 0 bs' = insert (p, t) ?L" using f(4) 2(5) pq by auto
  have sh: "same_heap m ?m2"
    unfolding copy_bytes_def
    by (rule same_heap_write[OF 2(4), of _ bs1 bs]) (use ok2 o in \<open>simp_all add: heap_ok_def copy_bytes_def\<close>)
  have key: "heap_bytes m' j = heap_bytes m j" if a: "(a, c) \<in> lives 0 bs" "a + 12 \<le> j" "j < a + c" for a c j
  proof -
    have "(a, c) \<in> lives 0 bs1" "a \<noteq> p" using a(1) 2(5,6) by force+
    then have "\<not> (p + 12 \<le> j \<and> j < p + t)" using lives_apart[OF _ new] a(2,3) by fastforce
    then have "heap_bytes ?m2 j = heap_bytes m1 j" using 2(2) n k by (auto simp: cp)
    also have "\<dots> = heap_bytes m j" by (rule data_keptD[OF 2(8) a(1,2,3)])
    finally show ?thesis using data_keptD[OF f(5) \<open>(a, c) \<in> lives 0 bs1\<close> a(2,3)] by simp
  qed
  then have "data_kept ?L m m'" unfolding data_kept_def by blast
  moreover have "\<forall>i<min (unat n) (s - 12). heap_bytes m' (unat d + i) = heap_bytes m (unat r + i)"
  proof (intro allI impI)
    fix i assume i: "i < min (unat n) (s - 12)"
    have "heap_bytes m' (unat d + i) = heap_bytes ?m2 (unat d + i)"
      by (rule data_keptD[OF f(5) new]) (use i n 2(2) in auto)
    also have "\<dots> = heap_bytes m1 (unat r + i)" using i k by (simp add: cp)
    also have "\<dots> = heap_bytes m (unat r + i)" by (rule data_keptD[OF 2(8) l]) (use i r in auto)
    finally show "heap_bytes m' (unat d + i) = heap_bytes m (unat r + i)" .
  qed
  ultimately show ?thesis using some 2(1,2,6) f(1,2) same_heap_trans[OF sh f(3)] lv n by blast
qed

lemma realloc_live:
  assumes o: "heap_ok m bs" and l: "(q, s) \<in> lives 0 bs" and r: "unat r = q + 12"
  obtains (none) "rt_smem_realloc (Some r) sz m = Some (None, m)" "RT_ALIGN sz \<noteq> 0"
      "mem_size_aligned m < RT_ALIGN sz \<or> first_fit (block_size sz) 0 bs = None"
  | (freed) m' bs' where "rt_smem_realloc (Some r) sz m = Some (None, m')" "RT_ALIGN sz = 0" "heap_ok m' bs'"
      "same_heap m m'" "lives 0 bs' = lives 0 bs - {(q, s)}" "data_kept (lives 0 bs - {(q, s)}) m m'"
  | (some) d m' bs' p t where "rt_smem_realloc (Some r) sz m = Some (Some d, m')" "unat d = p + 12" "heap_ok m' bs'"
      "same_heap m m'" "lives 0 bs' = insert (p, t) (lives 0 bs - {(q, s)})" "p = q \<or> p \<notin> fst ` lives 0 bs"
      "unat (RT_ALIGN sz) + 12 \<le> t" "data_kept (lives 0 bs - {(q, s)}) m m'"
      "\<forall>i<min (unat (RT_ALIGN sz)) (s - 12). heap_bytes m' (unat d + i) = heap_bytes m (unat r + i)" "RT_ALIGN sz \<noteq> 0"
proof -
  let ?n = "RT_ALIGN sz"
  have b: "base_ok m bs" using o by (simp add: heap_ok_def)
  note B = base_okD[OF b]
  note U = live_used[OF b l]
  define p where "p = r - SIZEOF_STRUCT_MEM"
  have p: "unat p = q" using unat_diff[of SIZEOF_STRUCT_MEM r] r by (simp add: p_def SIZEOF_STRUCT_MEM_def)
  define k where "k = next_off (items m q) - p - SIZEOF_STRUCT_MEM"
  have k: "unat k = s - 12"
  proof -
    from lives_split[OF l] obtain as cs where c: "bs = as @ (True, s) # cs" "q = extent as" by auto
    have nx: "unat (next_off (items m q)) = q + s" using split_offsets(3)[OF B(1,2)[unfolded c(1)]] c(2) by simp
    then have "unat (next_off (items m q) - p) = s" using unat_diff[of p] p by simp
    then show ?thesis using unat_diff[of SIZEOF_STRUCT_MEM "next_off (items m q) - p"] U(2)
      by (simp add: k_def SIZEOF_STRUCT_MEM_def)
  qed
  have chk: "r AND (4 - 1) = 0" "r < heap_end m"
    unfolding aligned_iff using r U by (simp_all add: word_less_nat_alt)
  have it: "item m p = items m q" by (simp add: item_def p)
  note f = rt_smem_realloc_def[of "Some r" sz m, unfolded option.case Let_def, folded p_def, unfolded it, folded k_def]
  show ?thesis
  proof (cases "mem_size_aligned m < ?n")
    case True
    then have "?n \<noteq> 0" by auto
    then show ?thesis using True none by (simp add: rt_smem_realloc_def Let_def)
  next
    case fits: False
    show ?thesis
    proof (cases "?n = 0")
      case True
      from free_live[OF o l r] obtain m' bs' where m': "rt_smem_free (Some r) m = Some m'" "heap_ok m' bs'" "same_heap m m'"
        "lives 0 bs' = lives 0 bs - {(q, s)}" "data_kept (lives 0 bs) m m'" by blast
      have "data_kept (lives 0 bs - {(q, s)}) m m'" using m'(5) by (auto simp: data_kept_def)
      then show ?thesis using freed m' True by (simp add: rt_smem_realloc_def)
    next
      case nz: False
      have n4: "4 \<le> unat ?n" using RT_ALIGN_dvd[of sz] nz by (auto simp: dvd_def word_unat_eq_iff)
      have n24: "unat (?n + SIZEOF_STRUCT_MEM + MIN_SIZE) = unat ?n + 24"
        using fits B(3,12) unat_add[of ?n "SIZEOF_STRUCT_MEM + MIN_SIZE"]
        by (simp add: SIZEOF_STRUCT_MEM_def MIN_SIZE_def word_less_nat_alt add.assoc)
      consider "k = ?n" | "k \<noteq> ?n" "?n + SIZEOF_STRUCT_MEM + MIN_SIZE < k"
        | "k \<noteq> ?n" "\<not> ?n + SIZEOF_STRUCT_MEM + MIN_SIZE < k" by blast
      then show ?thesis
      proof cases
        case 1
        then have "rt_smem_realloc (Some r) sz m = Some (Some r, m)" unfolding f using fits nz chk by simp
        then show ?thesis
          by (rule some[OF _ r o same_heap_refl]) (use l k 1 U(2) nz in \<open>auto simp: data_kept_def\<close>)
      next
        case 2
        have n36: "unat ?n + 36 < s" using 2(2) n24 k by (simp add: word_less_nat_alt)
        define m1 where "m1 = cut_block p ?n (m\<lparr>mem_used := mem_used m - (k - ?n)\<rparr>)"
        define p2 where "p2 = p + SIZEOF_STRUCT_MEM + ?n"
        define m2 where "m2 = (if p2 < lfree m1 then m1\<lparr>lfree := p2\<rparr> else m1)"
        from shrink_block[OF o l p n36 RT_ALIGN_dvd n4 m1_def k p2_def m2_def] obtain m' bs' where
          m': "plug_holes p2 m2 = Some m'" "heap_ok m' bs'" "same_heap m m'"
            "lives 0 bs' = insert (q, unat ?n + 12) (lives 0 bs - {(q, s)})"
            "data_kept (insert (q, unat ?n + 12) (lives 0 bs - {(q, s)})) m m'" by blast
        have "rt_smem_realloc (Some r) sz m = Some (Some r, m')"
          unfolding f using fits nz chk 2 m'(1) unfolding m2_def m1_def p2_def by simp
        then show ?thesis
        proof (rule some[OF _ r m'(2,3,4)])
          show "data_kept (lives 0 bs - {(q, s)}) m m'" using m'(5) by (auto simp: data_kept_def)
          show "\<forall>i<min (unat ?n) (s - 12). heap_bytes m' (unat r + i) = heap_bytes m (unat r + i)"
            using data_keptD[OF m'(5), of q "unat ?n + 12"] r by auto
        qed (use nz in auto)
      next
        case 3
        define c where "c = (if k < ?n then k else ?n)"
        have c: "unat c = min (unat ?n) (s - 12)" using k by (auto simp: c_def word_less_nat_alt)
        have g: "rt_smem_realloc (Some r) sz m = do {
           (n, m) \<leftarrow> rt_smem_alloc ?n m;
           case n of None \<Rightarrow> Some (None, m)
           | Some d \<Rightarrow> map_option (Pair (Some d)) (rt_smem_free (Some r) (copy_bytes d r c m)) }"
          unfolding f c_def using fits nz chk 3 by simp
        show ?thesis
        proof (cases rule: move_block[OF o l r nz RT_ALIGN_dvd c])
          case 1
          moreover have "block_size ?n = block_size sz"
            by (simp add: block_size_def RT_ALIGN_same[OF RT_ALIGN_dvd])
          ultimately show ?thesis using g none nz by simp
        next
          case m': (2 d m1 m' bs' p t)
          have "rt_smem_realloc (Some r) sz m = Some (Some d, m')" using g m'(1,2) by simp
          then show ?thesis by (rule some[OF _ m'(3,4,5,6)]) (use m'(7-10) nz in auto)
        qed
      qed
    qed
  qed
qed


section \<open>The start\<close>

lemma init_heap:
  assumes a: "begin_addr \<noteq> 0" "unat begin_addr + unat sz < 2 ^ 32" "108 \<le> unat sz"
  obtains m where "rt_smem_init begin_addr sz bytes = Some m" "heap_ok m [(False, unat (heap_end m))]"
proof -
  define sm where "sm = RT_ALIGN begin_addr"
  define st where "st = sm + SIZEOF_SMALL_MEM"
  define en where "en = RT_ALIGN_DOWN (begin_addr + sz)"
  have nz: "unat begin_addr \<noteq> 0" using a(1) by (simp add: word_unat_eq_iff)
  have usm: "unat sm = (unat begin_addr + 3) div 4 * 4" unfolding sm_def by (rule unat_RT_ALIGN) (use a in simp)
  have ust: "unat st = unat sm + 64"
    using unat_add[of sm SIZEOF_SMALL_MEM] usm a by (simp add: st_def SIZEOF_SMALL_MEM_def)
  have d4: "4 dvd unat sm" "4 dvd unat st" unfolding ust usm by simp_all
  have stal: "RT_ALIGN st = st" by (rule RT_ALIGN_same[OF d4(2)])
  have "unat en = (unat begin_addr + unat sz) div 4 * 4"
    unfolding en_def RT_ALIGN_DOWN_def unat_align_down using unat_add[of begin_addr sz] a(2) by simp
  then have en: "unat begin_addr + unat sz \<le> unat en + 3" "4 dvd unat en" by auto
  have sm: "unat sm \<le> unat begin_addr + 3" "unat begin_addr \<le> unat sm" unfolding usm by simp_all
  have e24: "unat (2 * SIZEOF_STRUCT_MEM) = 24" by (simp add: SIZEOF_STRUCT_MEM_def)
  have big: "unat st + 36 \<le> unat en" using ust sm en(1) a(3) d4 en(2) by presburger
  have u1: "unat (en - 2 * SIZEOF_STRUCT_MEM) = unat en - 24" using unat_diff[of "2 * SIZEOF_STRUCT_MEM" en] e24 big by simp
  define ms where "ms = en - st - 2 * SIZEOF_STRUCT_MEM"
  have "unat (en - st) = unat en - unat st" using unat_diff[of st en] big by simp
  then have ums: "unat ms = unat en - unat st - 24" using unat_diff[of "2 * SIZEOF_STRUCT_MEM" "en - st"] e24 big by (simp add: ms_def)
  define e where "e = ms + SIZEOF_STRUCT_MEM"
  have ue: "unat e = unat ms + 12"
    using unat_add[of ms SIZEOF_STRUCT_MEM] ums unat32_less[of en] big by (simp add: e_def SIZEOF_STRUCT_MEM_def)
  define m0 where "m0 = \<lparr>smem_addr = sm, heap_end = e, lfree = 0, mem_size_aligned = ms, mem_used = 0, mem_max = 0, heap_bytes = bytes\<rparr>"
  define m1 where "m1 = upd_item 0 (\<lambda>_. \<lparr>pool_ptr = MEM_FREED m0, next_off = e, prev_off = 0\<rparr>) m0"
  define m where "m = upd_item e (\<lambda>_. \<lparr>pool_ptr = MEM_USED m1, next_off = e, prev_off = e\<rparr>) m1"
  have i: "rt_smem_init begin_addr sz bytes = Some m"
    unfolding rt_smem_init_def Let_def sm_def[symmetric] st_def[symmetric] en_def[symmetric] stal ms_def[symmetric] e_def[symmetric]
      m0_def[symmetric] m1_def[symmetric] m_def[symmetric]
    using u1 e24 big by (simp add: word_le_nat_alt word_less_nat_alt)
  have sel: "smem_addr m = sm" "heap_end m = e" "lfree m = 0" "mem_size_aligned m = ms" "mem_used m = 0"
    by (simp_all add: m_def m1_def m0_def)
  have e24': "24 \<le> unat e" using ue ums big by simp
  have it: "items m (unat e) = \<lparr>pool_ptr = MEM_USED m, next_off = e, prev_off = e\<rparr>"
    "items m 0 = \<lparr>pool_ptr = MEM_FREED m, next_off = e, prev_off = 0\<rparr>"
    using e24' by (simp_all add: m_def m1_def m0_def MEM_USED_def MEM_FREED_def)
  have "4 dvd unat e" using ue ums d4(2) en(2) big by presburger
  then have "rep m 0 0 [(False, unat e)]" using it e24' by simp
  moreover have "sm AND 3 = 0" using aligned_iff[of sm] d4 by simp
  moreover have "sm \<noteq> 0" using sm nz by auto
  moreover have "unat e + 64 \<le> 2 ^ 32" using ue ums ust unat32_less[of en] big by simp
  ultimately have "base_ok m [(False, unat (heap_end m))]"
    unfolding base_ok_def sel it using ue e24' by simp
  then show ?thesis using that[OF i] by (simp add: heap_ok_def no_gaps_def used_ok_def sel)
qed

end
