(* ===== verification/MemUse.thy ===== *)
theory MemUse
  imports Mem
begin

text \<open>
  The heap as its clients see it: the calls of src/rt-thread/src/kservice.c on it, and the
  properties of every sequence of calls.  A client is a state of the heap that can be reached
  from its set-up by allocating, freeing, resizing and writing within one's own blocks,
  together with the blocks that are held.
\<close>

section \<open>Clients of the heap\<close>

text \<open>A client holds the pointers of \<open>P\<close>, each with the number of bytes it asked for, and
  writes into its own bytes only.\<close>

inductive client :: "small_mem \<Rightarrow> (u32 \<rightharpoonup> nat) \<Rightarrow> bool" where
  client_start: "begin_addr \<noteq> 0 \<Longrightarrow> unat begin_addr + unat sz < 2 ^ 32 \<Longrightarrow> 108 \<le> unat sz \<Longrightarrow>
    rt_smem_init begin_addr sz bytes = Some m \<Longrightarrow> client m Map.empty"
| client_malloc: "client m P \<Longrightarrow> unat n + 3 < 2 ^ 32 \<Longrightarrow> rt_smem_alloc n m = Some (Some d, m') \<Longrightarrow> client m' (P(d \<mapsto> unat n))"
| client_malloc_none: "client m P \<Longrightarrow> rt_smem_alloc n m = Some (None, m') \<Longrightarrow> client m' P"
| client_free: "client m P \<Longrightarrow> P r = Some k \<Longrightarrow> rt_smem_free (Some r) m = Some m' \<Longrightarrow> client m' (P(r := None))"
| client_realloc: "client m P \<Longrightarrow> P r = Some k \<Longrightarrow> unat n + 3 < 2 ^ 32 \<Longrightarrow>
    rt_smem_realloc (Some r) n m = Some (Some d, m') \<Longrightarrow> client m' (P(r := None, d \<mapsto> unat n))"
| client_realloc_none: "client m P \<Longrightarrow> P r = Some k \<Longrightarrow> unat n + 3 < 2 ^ 32 \<Longrightarrow> n \<noteq> 0 \<Longrightarrow>
    rt_smem_realloc (Some r) n m = Some (None, m') \<Longrightarrow> client m' P"
| client_realloc_free: "client m P \<Longrightarrow> P r = Some k \<Longrightarrow> rt_smem_realloc (Some r) 0 m = Some (None, m') \<Longrightarrow>
    client m' (P(r := None))"
| client_write: "client m P \<Longrightarrow> P r = Some k \<Longrightarrow> (\<forall>j. \<not> (unat r \<le> j \<and> j < unat r + k) \<longrightarrow> b j = heap_bytes m j) \<Longrightarrow>
    client (m\<lparr>heap_bytes := b\<rparr>) P"

definition holds :: "(u32 \<rightharpoonup> nat) \<Rightarrow> (nat \<times> nat) set \<Rightarrow> bool" where
  "holds P L \<longleftrightarrow> (\<forall>r k. P r = Some k \<longrightarrow> (\<exists>q s. unat r = q + 12 \<and> (q, s) \<in> L \<and> k + 12 \<le> s)) \<and>
     (\<forall>q s. (q, s) \<in> L \<longrightarrow> (\<exists>r. unat r = q + 12 \<and> P r \<noteq> None))"

lemma holdsD:
  assumes "holds P L" "P r = Some k"
  obtains q s where "unat r = q + 12" "(q, s) \<in> L" "k + 12 \<le> s"
  using assms unfolding holds_def by blast

lemma holds_dom:
  assumes "holds P L" "r \<in> dom P"
  obtains q s where "unat r = q + 12" "(q, s) \<in> L"
  using assms holdsD[of P L r] by blast

lemma holds_add:
  assumes "holds P L" "unat d = q + 12" "k + 12 \<le> s"
  shows "holds (P(d \<mapsto> k)) (insert (q, s) L)"
  using assms unfolding holds_def by (fastforce split: if_splits)

lemma holds_del:
  assumes h: "holds P L" and l: "(q, s) \<in> L" "unat r = q + 12" and u: "\<And>t. (q, t) \<in> L \<Longrightarrow> t = s"
  shows "holds (P(r := None)) (L - {(q, s)})"
  unfolding holds_def
proof (intro conjI allI impI)
  fix r' k assume "(P(r := None)) r' = Some k"
  then have "P r' = Some k" "r' \<noteq> r" by (auto split: if_splits)
  then obtain q' s' where a: "unat r' = q' + 12" "(q', s') \<in> L" "k + 12 \<le> s'" using h unfolding holds_def by blast
  then have "q' \<noteq> q" using l(2) \<open>r' \<noteq> r\<close> by (auto simp: word_unat_eq_iff)
  then show "\<exists>q' s'. unat r' = q' + 12 \<and> (q', s') \<in> L - {(q, s)} \<and> k + 12 \<le> s'" using a by blast
next
  fix q' s' assume a: "(q', s') \<in> L - {(q, s)}"
  then obtain r' where r': "unat r' = q' + 12" "P r' \<noteq> None" using h unfolding holds_def by blast
  have "q' \<noteq> q" using a u by auto
  then have "r' \<noteq> r" using r' l(2) by auto
  then show "\<exists>r'. unat r' = q' + 12 \<and> (P(r := None)) r' \<noteq> None" using r' by auto
qed


lemma lives_one: "heap_ok m bs \<Longrightarrow> (q, s) \<in> lives 0 bs \<Longrightarrow> (q, t) \<in> lives 0 bs \<Longrightarrow> t = s"
  by (rule lives_unique[of m bs q]) (auto simp: heap_ok_def dest: base_okD(1))

lemma alloc_zero: "rt_smem_alloc 0 m = Some (None, m)"
  by (simp add: rt_smem_alloc_def)

lemma RT_ALIGN_zero: "unat n + 3 < 2 ^ 32 \<Longrightarrow> RT_ALIGN n = 0 \<longleftrightarrow> n = 0"
  using RT_ALIGN_ge[of n] RT_ALIGN_same[of 0] unat_eq_zero[of n] by (cases "n = 0") auto

lemma client_ok: "client m P \<Longrightarrow> \<exists>bs. heap_ok m bs \<and> holds P (lives 0 bs)"
proof (induction rule: client.induct)
  case (client_start begin_addr sz bytes m)
  from init_heap[OF client_start(1-3)] obtain m' where "rt_smem_init begin_addr sz bytes = Some m'" "heap_ok m' [(False, unat (heap_end m'))]" .
  then show ?case using client_start(4) by (fastforce simp: holds_def)
next
  case (client_malloc m P n d m')
  then obtain bs where b: "heap_ok m bs" "holds P (lives 0 bs)" by blast
  have z: "n \<noteq> 0" using client_malloc.hyps(3) alloc_zero by auto
  show ?case
  proof (cases rule: alloc_live[OF b(1) z])
    case (2 d' m'' bs' q s)
    have "unat n + 12 \<le> s" using 2(7) RT_ALIGN_ge[OF client_malloc.hyps(2)] by (simp add: block_size_def)
    from holds_add[OF b(2) 2(2) this] have "holds (P(d \<mapsto> unat n)) (lives 0 bs')" using 2(1,5) client_malloc.hyps(3) by simp
    moreover have "m' = m''" using 2(1) client_malloc.hyps(3) by simp
    ultimately show ?thesis using 2(3) by blast
  qed (use client_malloc.hyps(3) in simp)
next
  case (client_malloc_none m P n m')
  then obtain bs where b: "heap_ok m bs" "holds P (lives 0 bs)" by blast
  have "m' = m"
  proof (cases "n = 0")
    case False
    then show ?thesis using client_malloc_none.hyps(2) by (cases rule: alloc_live[OF b(1) False]) auto
  qed (use client_malloc_none.hyps(2) alloc_zero in auto)
  then show ?case using b by blast
next
  case (client_free m P r k m')
  then obtain bs where b: "heap_ok m bs" "holds P (lives 0 bs)" by blast
  obtain q s where q: "unat r = q + 12" "(q, s) \<in> lives 0 bs" by (rule holdsD[OF b(2) client_free.hyps(2)])
  from free_live[OF b(1) q(2,1)] obtain m2 bs' where f: "rt_smem_free (Some r) m = Some m2" "heap_ok m2 bs'"
    "lives 0 bs' = lives 0 bs - {(q, s)}" by blast
  have "holds (P(r := None)) (lives 0 bs')"
    unfolding f(3) by (rule holds_del[OF b(2) q(2,1) lives_one[OF b(1) q(2)]])
  moreover have "m' = m2" using f(1) client_free.hyps(3) by simp
  ultimately show ?case using f(2) by blast
next
  case (client_realloc m P r k n d m')
  then obtain bs where b: "heap_ok m bs" "holds P (lives 0 bs)" by blast
  obtain q s where q: "unat r = q + 12" "(q, s) \<in> lives 0 bs" by (rule holdsD[OF b(2) client_realloc.hyps(2)])
  note D = holds_del[OF b(2) q(2,1) lives_one[OF b(1) q(2)]]
  show ?case
  proof (cases rule: realloc_live[OF b(1) q(2,1), of n])
    case (3 d' m2 bs' p t)
    have "unat n + 12 \<le> t" using 3(7) RT_ALIGN_ge[OF client_realloc.hyps(3)] by simp
    from holds_add[OF D 3(2) this] have "holds (P(r := None, d' \<mapsto> unat n)) (lives 0 bs')" unfolding 3(5) .
    moreover have "m' = m2" "d = d'" using 3(1) client_realloc.hyps(4) by simp_all
    ultimately show ?thesis using 3(3) by blast
  qed (use client_realloc.hyps(4) in simp_all)
next
  case (client_realloc_none m P r k n m')
  then obtain bs where b: "heap_ok m bs" "holds P (lives 0 bs)" by blast
  obtain q s where q: "unat r = q + 12" "(q, s) \<in> lives 0 bs" by (rule holdsD[OF b(2) client_realloc_none.hyps(2)])
  have "RT_ALIGN n \<noteq> 0" using RT_ALIGN_zero client_realloc_none.hyps(3,4) by blast
  then have "m' = m" by (cases rule: realloc_live[OF b(1) q(2,1), of n]) (use client_realloc_none.hyps(5) in simp_all)
  then show ?case using b by blast
next
  case (client_realloc_free m P r k m')
  then obtain bs where b: "heap_ok m bs" "holds P (lives 0 bs)" by blast
  obtain q s where q: "unat r = q + 12" "(q, s) \<in> lives 0 bs" by (rule holdsD[OF b(2) client_realloc_free.hyps(2)])
  note D = holds_del[OF b(2) q(2,1) lives_one[OF b(1) q(2)]]
  have z: "RT_ALIGN 0 = 0" by (rule RT_ALIGN_same) simp
  show ?case
  proof (cases rule: realloc_live[OF b(1) q(2,1), of 0])
    case (2 m2 bs')
    have "holds (P(r := None)) (lives 0 bs')" unfolding 2(5) by (rule D)
    moreover have "m' = m2" using 2(1) client_realloc_free.hyps(3) by simp
    ultimately show ?thesis using 2(3) by blast
  qed (use z in simp_all)
next
  case (client_write m P r k b)
  then obtain bs where b: "heap_ok m bs" "holds P (lives 0 bs)" by blast
  obtain q s where q: "unat r = q + 12" "(q, s) \<in> lives 0 bs" "k + 12 \<le> s" by (rule holdsD[OF b(2) client_write.hyps(2)])
  have "heap_ok (m\<lparr>heap_bytes := b\<rparr>) bs"
    by (rule write_inside[OF b(1) q(2)]) (use client_write.hyps(3) q(1,3) in auto)
  then show ?case using b(2) by blast
qed

section \<open>Properties\<close>

datatype heap_call = Malloc u32 | Free u32 | Realloc u32 u32

fun do_call :: "heap_call \<Rightarrow> small_mem \<Rightarrow> small_mem option" where
  "do_call (Malloc n) m = map_option snd (rt_smem_alloc n m)"
| "do_call (Free r) m = rt_smem_free (Some r) m"
| "do_call (Realloc r n) m = map_option snd (rt_smem_realloc (Some r) n m)"

fun on_blocks :: "heap_call \<Rightarrow> u32 set" where
  "on_blocks (Malloc n) = {}"
| "on_blocks (Free r) = {r}"
| "on_blocks (Realloc r n) = {r}"

text \<open>C18: No call of the heap fails an assertion or loops: whatever a client has allocated,
  freed, resized and written within its blocks, the next \<open>malloc\<close>, \<open>free\<close> or \<open>realloc\<close> of one
  of its blocks returns.\<close>

theorem heap_calls_return:
  assumes c: "client m P" and l: "on_blocks c \<subseteq> dom P"
  shows "do_call c m \<noteq> None"
proof -
  from client_ok[OF c] obtain bs where b: "heap_ok m bs" "holds P (lives 0 bs)" by blast
  show ?thesis
  proof (cases c)
    case (Malloc n)
    then show ?thesis by (cases "n = 0") (auto simp: alloc_zero elim: alloc_live[OF b(1), of n])
  next
    case (Free r)
    then have "r \<in> dom P" using l by simp
    from holds_dom[OF b(2) this] obtain q s where "unat r = q + 12" "(q, s) \<in> lives 0 bs" .
    then show ?thesis using Free by (auto elim: free_live[OF b(1)])
  next
    case (Realloc r n)
    then have "r \<in> dom P" using l by simp
    from holds_dom[OF b(2) this] obtain q s where "unat r = q + 12" "(q, s) \<in> lives 0 bs" .
    then show ?thesis using Realloc by (auto elim: realloc_live[OF b(1), of q s r n])
  qed
qed

text \<open>C20: The blocks a client holds do not overlap.\<close>

theorem heap_blocks_apart:
  assumes c: "client m P" and p: "P r = Some k" "P r' = Some k'" "unat r < unat r'"
  shows "unat r + k \<le> unat r'"
proof -
  from client_ok[OF c] obtain bs where b: "heap_ok m bs" "holds P (lives 0 bs)" by blast
  obtain q s where q: "unat r = q + 12" "(q, s) \<in> lives 0 bs" "k + 12 \<le> s" by (rule holdsD[OF b(2) p(1)])
  obtain q' s' where q': "unat r' = q' + 12" "(q', s') \<in> lives 0 bs" by (rule holdsD[OF b(2) p(2)])
  show ?thesis using lives_apart[OF q(2) q'(2)] q(1,3) q'(1) p(3) by auto
qed

text \<open>C19: No call changes the contents of a block it is not about.\<close>

theorem heap_calls_keep_contents:
  assumes c: "client m P" and l: "on_blocks c \<subseteq> dom P" and s: "do_call c m = Some m'"
    and p: "P r = Some k" "r \<notin> on_blocks c" and j: "unat r \<le> j" "j < unat r + k"
  shows "heap_bytes m' j = heap_bytes m j"
proof -
  from client_ok[OF c] obtain bs where b: "heap_ok m bs" "holds P (lives 0 bs)" by blast
  obtain q t where q: "unat r = q + 12" "(q, t) \<in> lives 0 bs" "k + 12 \<le> t" by (rule holdsD[OF b(2) p(1)])
  have other: thesis if "r' \<in> on_blocks c" "\<And>a u. unat r' = a + 12 \<Longrightarrow> (a, u) \<in> lives 0 bs \<Longrightarrow>
    (q, t) \<in> lives 0 bs - {(a, u)} \<Longrightarrow> thesis" for r' thesis
  proof -
    have "r' \<in> dom P" using that(1) l by blast
    from holds_dom[OF b(2) this] obtain a u where a: "unat r' = a + 12" "(a, u) \<in> lives 0 bs" by blast
    have "a \<noteq> q" using a(1) q(1) p(2) that(1) by (metis word_unat_eq_iff)
    then show thesis using that(2)[OF a] q(2) by blast
  qed
  have keep: "heap_bytes m' j = heap_bytes m j" if "data_kept L m m'" "(q, t) \<in> L" for L
    using data_keptD[OF that] q(1,3) j by simp
  show ?thesis
  proof (cases c)
    case (Malloc n)
    show ?thesis
    proof (cases "n = 0")
      case False
      then show ?thesis using s Malloc keep[OF _ q(2)] by (cases rule: alloc_live[OF b(1) False]) auto
    qed (use s Malloc in \<open>simp add: alloc_zero\<close>)
  next
    case (Free r')
    then have "r' \<in> on_blocks c" by simp
    from other[OF this] obtain a u where a: "unat r' = a + 12" "(a, u) \<in> lives 0 bs" by blast
    from free_live[OF b(1) a(2,1)] obtain m2 where "rt_smem_free (Some r') m = Some m2" "data_kept (lives 0 bs) m m2" by blast
    then show ?thesis using s Free keep[OF _ q(2)] by auto
  next
    case (Realloc r' n)
    then have "r' \<in> on_blocks c" by simp
    from other[OF this] obtain a u where a: "unat r' = a + 12" "(a, u) \<in> lives 0 bs" "(q, t) \<in> lives 0 bs - {(a, u)}" by blast
    show ?thesis
      by (cases rule: realloc_live[OF b(1) a(2,1), of n]) (use s Realloc keep[OF _ a(3)] in auto)
  qed
qed


text \<open>A resized block starts with what the old one held, up to the shorter of the two
  lengths.\<close>

theorem realloc_keeps_contents:
  assumes c: "client m P" and p: "P r = Some k" and n: "unat n + 3 < 2 ^ 32"
    and s: "rt_smem_realloc (Some r) n m = Some (Some d, m')" and i: "i < k" "i < unat n"
  shows "heap_bytes m' (unat d + i) = heap_bytes m (unat r + i)"
proof -
  from client_ok[OF c] obtain bs where b: "heap_ok m bs" "holds P (lives 0 bs)" by blast
  obtain q t where q: "unat r = q + 12" "(q, t) \<in> lives 0 bs" "k + 12 \<le> t" by (rule holdsD[OF b(2) p])
  show ?thesis
  proof (cases rule: realloc_live[OF b(1) q(2,1), of n])
    case (3 d' m2 bs' a u)
    have "m2 = m'" "d' = d" using s 3(1) by simp_all
    moreover have "i < min (unat (RT_ALIGN n)) (t - 12)" using i q(3) RT_ALIGN_ge[OF n] by simp
    ultimately show ?thesis using 3(9) by blast
  qed (use s in simp_all)
qed

lemma all_free_row: "no_gaps bs \<Longrightarrow> lives q bs = {} \<Longrightarrow> bs \<noteq> [] \<Longrightarrow> \<exists>s. bs = [(False, s)]"
proof (induction q bs rule: lives.induct)
  case (2 q u s bs)
  then show ?case by (cases bs) (auto simp: no_gaps_def successively_Cons split: if_splits)
qed simp

text \<open>C21: When everything has been given back, the whole heap is one block again: all of it can
  be allocated at once.\<close>

theorem freed_heap_is_whole:
  assumes "client m Map.empty"
  shows "map_option fst (rt_smem_alloc (mem_size_aligned m) m) = Some (Some 12)"
proof -
  from client_ok[OF assms] obtain bs where b: "heap_ok m bs" "holds Map.empty (lives 0 bs)" by blast
  have B: "base_ok m bs" and g: "no_gaps bs" using b(1) by (simp_all add: heap_ok_def)
  note D = base_okD[OF B]
  have "lives 0 bs = {}" using b(2) by (auto simp: holds_def)
  moreover have "bs \<noteq> []" using D(2,3) by auto
  ultimately obtain s where s: "bs = [(False, s)]" using all_free_row[OF g] by blast
  have ms: "unat (mem_size_aligned m) + 12 = s" "4 dvd s" using D(1,2,3) s by simp_all
  have "4 dvd unat (mem_size_aligned m)" using ms by presburger
  then have k: "block_size (mem_size_aligned m) + 12 = s" using ms D(4) by (simp add: block_size_def RT_ALIGN_same)
  have z: "mem_size_aligned m \<noteq> 0" using D(4) by auto
  from smem_alloc_rep[OF b(1) z] obtain m' where
    "rt_smem_alloc (mem_size_aligned m) m = Some (map_option (\<lambda>q. word_of_nat (q + 12)) (first_fit (block_size (mem_size_aligned m)) 0 bs), m')" .
  then show ?thesis using k s by simp
qed

text \<open>\<open>malloc\<close> takes the first free block of the row that has room for the size rounded up
  to the alignment (12 bytes at least) and an item, and gives a null pointer exactly when there
  is none.\<close>

theorem malloc_is_first_fit:
  assumes "heap_ok m bs" "n \<noteq> 0"
  shows "map_option fst (rt_smem_alloc n m) = Some (map_option (\<lambda>q. word_of_nat (q + 12)) (first_fit (block_size n) 0 bs))"
proof -
  from smem_alloc_rep[OF assms] obtain m' where
    "rt_smem_alloc n m = Some (map_option (\<lambda>q. word_of_nat (q + 12)) (first_fit (block_size n) 0 bs), m')" .
  then show ?thesis by simp
qed

text \<open>A request of almost 4 GiB is rounded up to 0 and served with the smallest block.\<close>

theorem huge_request_is_tiny:
  assumes "12 \<le> mem_size_aligned m"
  shows "rt_smem_alloc 0xfffffffd m = rt_smem_alloc 1 m"
proof -
  have a: "RT_ALIGN 0xfffffffd = 0" "RT_ALIGN 1 = 4" by (simp_all add: RT_ALIGN_def)
  have "\<not> mem_size_aligned m < 4" using assms by (simp add: word_less_nat_alt word_le_nat_alt)
  then show ?thesis by (simp add: rt_smem_alloc_def a Let_def MIN_SIZE_ALIGNED_def)
qed

section \<open>A heap of 1024 bytes\<close>

lemma heap_of_1024:
  obtains m where "rt_smem_init 0x20000000 1024 (\<lambda>_. 0) = Some m" "heap_ok m [(False, 948)]" "client m Map.empty"
    "mem_size_aligned m = 936"
proof -
  have c: "0x20000000 \<noteq> (0 :: u32)" "unat (0x20000000 :: u32) + unat (1024 :: u32) < 2 ^ 32" "108 \<le> unat (1024 :: u32)" by simp_all
  from init_heap[OF c] obtain m where m: "rt_smem_init 0x20000000 1024 (\<lambda>_. 0) = Some m" "heap_ok m [(False, unat (heap_end m))]" .
  have "heap_end m = 948" "mem_size_aligned m = 936"
    using m(1) by (auto simp: rt_smem_init_def Let_def RT_ALIGN_def RT_ALIGN_DOWN_def SIZEOF_SMALL_MEM_def SIZEOF_STRUCT_MEM_def)
  then show ?thesis using that m client_start[OF c m(1)] by simp
qed

lemma block_sizes: "block_size 100 = 100" "block_size 200 = 200" "block_size 300 = 300"
  by (simp_all add: block_size_def RT_ALIGN_def)

lemma two_blocks:
  obtains m0 m1 m where "rt_smem_init 0x20000000 1024 (\<lambda>_. 0) = Some m0" "rt_smem_alloc 100 m0 = Some (Some 12, m1)"
    "rt_smem_alloc 200 m1 = Some (Some 124, m)" "heap_ok m [(True, 112), (True, 212), (False, 624)]"
    "client m [12 \<mapsto> 100, 124 \<mapsto> 200]" "mem_size_aligned m = 936"
proof -
  from heap_of_1024 obtain m0 where m0: "rt_smem_init 0x20000000 1024 (\<lambda>_. 0) = Some m0" "heap_ok m0 [(False, 948)]"
    "client m0 Map.empty" "mem_size_aligned m0 = 936" .
  from smem_alloc_rep[OF m0(2), of 100] obtain m1 where m1: "rt_smem_alloc 100 m0 = Some (Some 12, m1)"
    "heap_ok m1 [(True, 112), (False, 836)]" "same_heap m0 m1" by (auto simp: block_sizes grab_def)
  from smem_alloc_rep[OF m1(2), of 200] obtain m where m: "rt_smem_alloc 200 m1 = Some (Some 124, m)"
    "heap_ok m [(True, 112), (True, 212), (False, 624)]" "same_heap m1 m" by (auto simp: block_sizes grab_def)
  have "client m1 [12 \<mapsto> unat (100 :: u32)]" by (rule client_malloc[OF m0(3) _ m1(1)]) simp
  then have "client m [12 \<mapsto> unat (100 :: u32), 124 \<mapsto> unat (200 :: u32)]" by (rule client_malloc[OF _ _ m(1)]) simp
  then show ?thesis using that m0(1,4) m1 m by (simp add: same_heap_def)
qed

theorem heap_calls_return_witness:
  "\<exists>m0 m1 m. rt_smem_init 0x20000000 1024 (\<lambda>_. 0) = Some m0 \<and> rt_smem_alloc 100 m0 = Some (Some 12, m1) \<and>
     rt_smem_alloc 200 m1 = Some (Some 124, m) \<and> do_call (Realloc 12 300) m \<noteq> None"
proof -
  from two_blocks obtain m0 m1 m where m: "rt_smem_init 0x20000000 1024 (\<lambda>_. 0) = Some m0"
    "rt_smem_alloc 100 m0 = Some (Some 12, m1)" "rt_smem_alloc 200 m1 = Some (Some 124, m)"
    "client m [12 \<mapsto> 100, 124 \<mapsto> 200]" by blast
  have "do_call (Realloc 12 300) m \<noteq> None" by (rule heap_calls_return[OF m(4)]) simp
  then show ?thesis using m(1-3) by blast
qed

theorem heap_blocks_apart_witness:
  "\<exists>m0 m1 m. rt_smem_init 0x20000000 1024 (\<lambda>_. 0) = Some m0 \<and> rt_smem_alloc 100 m0 = Some (Some 12, m1) \<and>
     rt_smem_alloc 200 m1 = Some (Some 124, m) \<and> unat (12 :: u32) + 100 \<le> unat (124 :: u32)"
proof -
  from two_blocks obtain m0 m1 m where m: "rt_smem_init 0x20000000 1024 (\<lambda>_. 0) = Some m0"
    "rt_smem_alloc 100 m0 = Some (Some 12, m1)" "rt_smem_alloc 200 m1 = Some (Some 124, m)"
    "client m [12 \<mapsto> 100, 124 \<mapsto> 200]" by blast
  have "unat (12 :: u32) + 100 \<le> unat (124 :: u32)" by (rule heap_blocks_apart[OF m(4)]) simp_all
  then show ?thesis using m(1-3) by blast
qed

theorem heap_calls_keep_contents_witness:
  "\<exists>m0 m1 m m'. rt_smem_init 0x20000000 1024 (\<lambda>_. 0) = Some m0 \<and> rt_smem_alloc 100 m0 = Some (Some 12, m1) \<and>
     rt_smem_alloc 200 m1 = Some (Some 124, m) \<and> do_call (Free 12) m = Some m' \<and> heap_bytes m' 200 = heap_bytes m 200"
proof -
  from two_blocks obtain m0 m1 m where m: "rt_smem_init 0x20000000 1024 (\<lambda>_. 0) = Some m0"
    "rt_smem_alloc 100 m0 = Some (Some 12, m1)" "rt_smem_alloc 200 m1 = Some (Some 124, m)"
    "client m [12 \<mapsto> 100, 124 \<mapsto> 200]" "heap_ok m [(True, 112), (True, 212), (False, 624)]" by blast
  have "(0, 112) \<in> lives 0 [(True, 112), (True, 212), (False, 624)]" by simp
  from free_live[OF m(5) this, of 12] obtain m' where f: "do_call (Free 12) m = Some m'" by auto
  have "heap_bytes m' 200 = heap_bytes m 200" by (rule heap_calls_keep_contents[OF m(4) _ f, of 124 200]) simp_all
  then show ?thesis using m(1-3) f by blast
qed

theorem realloc_keeps_contents_witness:
  "\<exists>m0 m1 m d m'. rt_smem_init 0x20000000 1024 (\<lambda>_. 0) = Some m0 \<and> rt_smem_alloc 100 m0 = Some (Some 12, m1) \<and>
     rt_smem_alloc 200 m1 = Some (Some 124, m) \<and> rt_smem_realloc (Some 12) 300 m = Some (Some d, m') \<and>
     heap_bytes m' (unat d + 99) = heap_bytes m (unat (12 :: u32) + 99)"
proof -
  from two_blocks obtain m0 m1 m where m: "rt_smem_init 0x20000000 1024 (\<lambda>_. 0) = Some m0"
    "rt_smem_alloc 100 m0 = Some (Some 12, m1)" "rt_smem_alloc 200 m1 = Some (Some 124, m)"
    "client m [12 \<mapsto> 100, 124 \<mapsto> 200]" "heap_ok m [(True, 112), (True, 212), (False, 624)]" "mem_size_aligned m = 936" by blast
  have l: "(0, 112) \<in> lives 0 [(True, 112), (True, 212), (False, 624)]" by simp
  have a: "RT_ALIGN 300 = 300" by (simp add: RT_ALIGN_def)
  obtain d m' where r: "rt_smem_realloc (Some 12) 300 m = Some (Some d, m')"
    by (cases rule: realloc_live[OF m(5) l, of 12 300]) (use m(6) in \<open>auto simp: block_sizes a\<close>)
  have "heap_bytes m' (unat d + 99) = heap_bytes m (unat (12 :: u32) + 99)"
    by (rule realloc_keeps_contents[OF m(4) _ _ r, of 100 99]) simp_all
  then show ?thesis using m(1-3) r by blast
qed

theorem freed_heap_is_whole_witness:
  "\<exists>m. rt_smem_init 0x20000000 1024 (\<lambda>_. 0) = Some m \<and> map_option fst (rt_smem_alloc (mem_size_aligned m) m) = Some (Some 12)"
proof -
  from heap_of_1024 obtain m where m: "rt_smem_init 0x20000000 1024 (\<lambda>_. 0) = Some m" "client m Map.empty" by blast
  show ?thesis using m(1) freed_heap_is_whole[OF m(2)] by blast
qed

theorem malloc_is_first_fit_witness:
  "\<exists>m. rt_smem_init 0x20000000 1024 (\<lambda>_. 0) = Some m \<and> map_option fst (rt_smem_alloc 200 m) = Some (Some 12)"
proof -
  from heap_of_1024 obtain m where m: "rt_smem_init 0x20000000 1024 (\<lambda>_. 0) = Some m" "heap_ok m [(False, 948)]" by blast
  show ?thesis using m(1) malloc_is_first_fit[OF m(2), of 200] by (auto simp: block_sizes)
qed

theorem huge_request_is_tiny_witness:
  "\<exists>m. rt_smem_init 0x20000000 1024 (\<lambda>_. 0) = Some m \<and> rt_smem_alloc 0xfffffffd m = rt_smem_alloc 1 m"
proof -
  from heap_of_1024 obtain m where m: "rt_smem_init 0x20000000 1024 (\<lambda>_. 0) = Some m" "mem_size_aligned m = 936" by blast
  show ?thesis using m(1) huge_request_is_tiny[of m] m(2) by simp
qed


section \<open>The calls of kservice.c\<close>

text \<open>The lock of the heap excludes other threads from a call; it is left out.\<close>

definition rt_malloc :: "u32 \<Rightarrow> small_mem \<Rightarrow> (u32 option \<times> small_mem) option" where
  "rt_malloc sz m = rt_smem_alloc sz m"

definition rt_realloc :: "u32 option \<Rightarrow> u32 \<Rightarrow> small_mem \<Rightarrow> (u32 option \<times> small_mem) option" where
  "rt_realloc rmem newsize m = rt_smem_realloc rmem newsize m"

definition rt_free :: "u32 option \<Rightarrow> small_mem \<Rightarrow> small_mem option" where
  "rt_free rmem m = rt_smem_free rmem m"

definition rt_memory_info :: "small_mem \<Rightarrow> u32 \<times> u32 \<times> u32" where
  "rt_memory_info m = (mem_size_aligned m, mem_used m, mem_max m)"

definition rt_calloc :: "u32 \<Rightarrow> u32 \<Rightarrow> small_mem \<Rightarrow> (u32 option \<times> small_mem) option" where
  "rt_calloc count sz m = do {
     (p, m) \<leftarrow> rt_malloc (count * sz) m;
     Some (p, case p of None \<Rightarrow> m | Some p \<Rightarrow> m\<lparr>heap_bytes := rt_memset (unat p) 0 (unat (count * sz)) (heap_bytes m)\<rparr>) }"

text \<open>The address of a pointer.\<close>

definition heap_addr :: "small_mem \<Rightarrow> u32" where
  "heap_addr m = RT_ALIGN (smem_addr m + SIZEOF_SMALL_MEM)"

definition rt_malloc_align :: "u32 \<Rightarrow> u32 \<Rightarrow> small_mem \<Rightarrow> (u32 option \<times> small_mem) option" where
  "rt_malloc_align sz algn m =
     (let algn = (algn + 3) AND NOT 3; align_size = ((sz + 3) AND NOT 3) + algn
      in do {
        (ptr, m) \<leftarrow> rt_malloc align_size m;
        case ptr of None \<Rightarrow> Some (None, m)
        | Some p \<Rightarrow>
            let a = heap_addr m + p;
                q = (if a AND (algn - 1) = 0 then a + algn else (a + (algn - 1)) AND NOT (algn - 1)) - heap_addr m
            in Some (Some q, m\<lparr>heap_bytes := store_word (unat q - 4) a (heap_bytes m)\<rparr>) })"

definition rt_free_align :: "u32 \<Rightarrow> small_mem \<Rightarrow> small_mem option" where
  "rt_free_align ptr m = rt_free (Some (word_at (heap_bytes m) (unat ptr - 4) - heap_addr m)) m"

lemma calloc_product_wraps: "map_option fst (rt_calloc 0x80000001 2 m) = map_option fst (rt_malloc 2 m)"
proof -
  have e: "(0x80000001 * 2 :: u32) = 2" by simp
  show ?thesis unfolding rt_calloc_def e by (cases "rt_malloc 2 m") auto
qed

text \<open>The distance from an address to the aligned address chosen for it.\<close>

lemma align_up:
  fixes a M :: u32
  defines "r \<equiv> (if a AND M = 0 then a + (M + 1) else (a + M) AND NOT M)"
  assumes M: "M = mask k" "2 \<le> k" "k < 32" and a: "4 dvd unat a"
  shows "r AND M = 0" "unat (r - a) \<le> unat M + 1" "4 \<le> unat (r - a)"
proof -
  let ?K = "2 ^ k :: nat"
  have K4: "4 dvd ?K" using M(2) le_imp_power_dvd[of 2 k "2 :: nat"] by simp
  have K32: "?K < 2 ^ 32" using power_strict_increasing[OF M(3), of "2 :: nat"] by simp
  have dv: "?K dvd 2 ^ 32" by (rule le_imp_power_dvd) (use M(3) in simp)
  have u2: "unat ((2 :: u32) ^ k) = ?K" using unat_word[OF K32] by simp
  have uM: "unat M + 1 = ?K" using unat_diff[of 1 "2 ^ k"] u2 by (simp add: M(1) mask_eq_exp_minus_1)
  have um: "unat (x AND M) = unat x mod ?K" for x :: u32
    unfolding M(1) take_bit_eq_mask[symmetric] unsigned_take_bit_eq by (simp add: take_bit_eq_mod)
  have uadd: "unat (x + y) mod ?K = (unat x + unat y) mod ?K" for x y :: u32
    using mod_mod_cancel[OF dv] by (simp add: unat_word_ariths)
  have uM1: "unat (M + 1) = ?K" using unat_add[of M 1] uM K32 by simp
  have "r AND M = 0 \<and> unat (r - a) \<le> unat M + 1 \<and> 4 \<le> unat (r - a)"
  proof (cases "a AND M = 0")
    case True
    then have r: "r = a + (M + 1)" by (simp add: r_def)
    have z: "unat a mod ?K = 0" using True um[of a] by simp
    have "unat (r AND M) = (unat a + ?K) mod ?K" unfolding um r uadd uM1 ..
    then have "unat (r AND M) = 0" using z by simp
    then have "r AND M = 0" by (simp only: unat_eq_zero)
    moreover have "r - a = M + 1" by (simp add: r)
    ultimately show ?thesis using uM1 uM K4 dvd_imp_le[OF K4] by simp
  next
    case False
    then have r: "r = (a + M) AND NOT M" by (simp add: r_def)
    have c: "(x AND NOT M) = x - (x AND M)" for x :: u32
    proof -
      have "NOT x AND (x AND M) = 0" by (simp flip: and.assoc)
      from disjunctive_diff_eq_and_not[OF this] have "x - (x AND M) = x AND NOT (x AND M)" .
      also have "\<dots> = x AND NOT M" by (rule bit_word_eqI) (auto simp: bit_simps)
      finally show ?thesis ..
    qed
    have "NOT M AND M = 0" by simp
    then have rM: "r AND M = 0" unfolding r by (simp only: and.assoc and_zero_eq)
    let ?e = "unat a mod ?K"
    have e: "?e \<noteq> 0" using False um[of a] unat_eq_zero[of "a AND M"] by simp
    have e4: "4 dvd ?e" using a K4 by (rule dvd_mod)
    have "?e < ?K" by simp
    have uM': "unat M = ?K - 1" using uM by simp
    have "unat ((a + M) AND M) = (?e + (?K - 1)) mod ?K"
      unfolding um uadd uM' by (rule mod_add_left_eq[symmetric])
    also have "\<dots> = ?e - 1"
    proof -
      have "?e + (?K - 1) = (?e - 1) + ?K" using e \<open>?e < ?K\<close> by simp
      moreover have "?e - 1 < ?K" using \<open>?e < ?K\<close> by linarith
      ultimately show ?thesis by (metis mod_add_self2 mod_less)
    qed
    finally have low: "unat ((a + M) AND M) = ?e - 1" .
    have "r - a = M - ((a + M) AND M)" unfolding r c by simp
    moreover have "?e - 1 \<le> unat M" using uM \<open>?e < ?K\<close> by linarith
    ultimately have "unat (r - a) = unat M - (?e - 1)"
      using unat_diff[of "(a + M) AND M" M] low by simp
    then have d: "unat (r - a) = ?K - ?e" using uM e \<open>?e < ?K\<close> by linarith
    have "4 dvd ?K - ?e" using K4 e4 by (rule dvd_diff_nat)
    then have "4 \<le> ?K - ?e" using \<open>?e < ?K\<close> by (intro dvd_imp_le) auto
    then show ?thesis using rM d uM by simp
  qed
  then show "r AND M = 0" "unat (r - a) \<le> unat M + 1" "4 \<le> unat (r - a)" by blast+
qed


lemma round_up: "(x + 3) AND NOT 3 = RT_ALIGN x"
  by (simp add: RT_ALIGN_def add.commute)

lemma dvd_unat_add: "4 dvd unat x \<Longrightarrow> 4 dvd unat y \<Longrightarrow> 4 dvd unat (x + y :: u32)"
  by (simp add: unat_word_ariths dvd_mod)

lemma word_at_cong: "(\<And>j. q \<le> j \<Longrightarrow> j < q + 4 \<Longrightarrow> b j = b' j) \<Longrightarrow> word_at b q = word_at b' q"
  by (simp add: word_at_def)

lemma malloc_align_block:
  assumes c: "client m P" and al: "algn = 2 ^ k" "2 \<le> k" "k < 32" and sz: "unat sz + 2 ^ k + 6 < 2 ^ 32"
    and r: "rt_malloc_align sz algn m = Some (Some q, m')"
  obtains p n where "client m' (P(p \<mapsto> n))" "P p = None" "word_at (heap_bytes m') (unat q - 4) = heap_addr m' + p"
    "(heap_addr m + q) AND (algn - 1) = 0" "unat p + 4 \<le> unat q" "unat q + unat sz \<le> unat p + n" "heap_addr m' = heap_addr m"
proof -
  have k32: "(2 :: nat) ^ k < 2 ^ 32" by (rule power_strict_increasing) (use al(3) in simp_all)
  have ua: "unat algn = 2 ^ k" using unat_word[OF k32] by (simp add: al(1))
  have "4 dvd (2 :: nat) ^ k" using al(2) le_imp_power_dvd[of 2 k "2 :: nat"] by simp
  then have ra: "RT_ALIGN algn = algn" by (intro RT_ALIGN_same) (simp add: ua)
  have us: "unat sz \<le> unat (RT_ALIGN sz)" "unat (RT_ALIGN sz) \<le> unat sz + 3"
    using sz by (simp_all add: unat_RT_ALIGN)
  define n where "n = RT_ALIGN sz + algn"
  have un: "unat n = unat (RT_ALIGN sz) + 2 ^ k" using unat_add[of "RT_ALIGN sz" algn] us(2) sz ua by (simp add: n_def)
  have n3: "unat n + 3 < 2 ^ 32" using un us(2) sz by simp
  note f = rt_malloc_align_def[of sz algn m, unfolded round_up ra Let_def rt_malloc_def, folded n_def]
  have "unat n \<noteq> 0" using un by simp
  then have nz: "n \<noteq> 0" by auto
  from client_ok[OF c] obtain bs where b: "heap_ok m bs" "holds P (lives 0 bs)" by blast
  show thesis
  proof (cases rule: alloc_live[OF b(1) nz])
    case 1
    then show ?thesis using r by (simp add: f)
  next
    case (2 p m1 bs1 o' s)
    define a where "a = heap_addr m1 + p"
    define e where "e = (if a AND (algn - 1) = 0 then a + algn else (a + (algn - 1)) AND NOT (algn - 1))"
    have h: "heap_addr m1 = heap_addr m" using 2(4) by (simp add: heap_addr_def same_heap_def)
    have g: "rt_malloc_align sz algn m = Some (Some (e - heap_addr m1),
        m1\<lparr>heap_bytes := store_word (unat (e - heap_addr m1) - 4) a (heap_bytes m1)\<rparr>)"
      unfolding f 2(1) a_def e_def by simp
    have r': "q = e - heap_addr m1" "m' = m1\<lparr>heap_bytes := store_word (unat q - 4) a (heap_bytes m1)\<rparr>"
      using r unfolding g by auto
    have b1: "base_ok m1 bs1" using 2(3) by (simp add: heap_ok_def)
    have lv: "(o', s) \<in> lives 0 bs1" using 2(5) by simp
    note U = live_used[OF b1 lv]
    have ns: "unat n + 12 \<le> s" using 2(7) RT_ALIGN_ge[OF n3] by (simp add: block_size_def)
    have "4 dvd unat (heap_addr m1)" unfolding heap_addr_def by (rule RT_ALIGN_dvd)
    moreover have "4 dvd unat p" using U(4) 2(2) by simp
    ultimately have a4: "4 dvd unat a" unfolding a_def by (rule dvd_unat_add)
    have m1: "algn - 1 = mask k" "algn - 1 + 1 = algn" by (simp_all add: al(1) mask_eq_exp_minus_1)
    note A = align_up[OF m1(1) al(2,3) a4, unfolded m1(2), folded e_def]
    have um: "unat (algn - 1) + 1 = 2 ^ k" using unat_diff[of 1 algn] ua by simp
    have q: "q = p + (e - a)" by (simp add: r'(1) a_def)
    have uq: "unat q = unat p + unat (e - a)"
      unfolding q by (rule unat_add) (use A(2) um U(3) 2(2) ns un unat32_less[of "heap_end m1"] in simp)
    have rng: "unat p + 4 \<le> unat q" "unat q + unat sz \<le> unat p + unat n" using uq A(2,3) um un us(1) by simp_all
    show ?thesis
    proof (rule that)
      have cl: "client m1 (P(p \<mapsto> unat n))" by (rule client_malloc[OF c n3 2(1)])
      show "client m' (P(p \<mapsto> unat n))"
        unfolding r'(2) by (rule client_write[OF cl]) (use rng in \<open>auto intro!: store_word_apart\<close>)
      show "P p = None"
      proof (rule ccontr)
        assume "P p \<noteq> None"
        then obtain o2 s2 where "unat p = o2 + 12" "(o2, s2) \<in> lives 0 bs" using holds_dom[OF b(2)] by blast
        then show False using 2(2,6) by force
      qed
      show "word_at (heap_bytes m') (unat q - 4) = heap_addr m' + p" by (simp add: r'(2) a_def heap_addr_def)
      show "(heap_addr m + q) AND (algn - 1) = 0" using A(1) by (simp add: r'(1) h)
      show "heap_addr m' = heap_addr m" using h by (simp add: r'(2) heap_addr_def)
    qed (use rng in simp_all)
  qed
qed

text \<open>A block from \<open>rt_malloc_align\<close> has the alignment that was asked for.\<close>

theorem aligned_block_is_aligned:
  assumes "client m P" "algn = 2 ^ k" "2 \<le> k" "k < 32" "unat sz + 2 ^ k + 6 < 2 ^ 32"
    "rt_malloc_align sz algn m = Some (Some q, m')"
  shows "(heap_addr m + q) AND (algn - 1) = 0"
  using malloc_align_block[OF assms] by blast

text \<open>Whatever is written into an aligned block, \<open>rt_free_align\<close> gives it back: the client
  then holds what it held before \<open>rt_malloc_align\<close>.\<close>

theorem aligned_block_is_freed:
  assumes c: "client m P" "algn = 2 ^ k" "2 \<le> k" "k < 32" "unat sz + 2 ^ k + 6 < 2 ^ 32"
    "rt_malloc_align sz algn m = Some (Some q, m')"
    and w: "\<And>j. \<not> (unat q \<le> j \<and> j < unat q + unat sz) \<Longrightarrow> b j = heap_bytes m' j"
  shows "\<exists>m''. rt_free_align q (m'\<lparr>heap_bytes := b\<rparr>) = Some m'' \<and> client m'' P"
proof -
  from malloc_align_block[OF c] obtain p n where B: "client m' (P(p \<mapsto> n))" "P p = None"
    "word_at (heap_bytes m') (unat q - 4) = heap_addr m' + p" "unat p + 4 \<le> unat q" "unat q + unat sz \<le> unat p + n" by blast
  let ?m = "m'\<lparr>heap_bytes := b\<rparr>"
  have cl: "client ?m (P(p \<mapsto> n))" by (rule client_write[OF B(1)]) (use B(4,5) w in auto)
  have "word_at b (unat q - 4) = word_at (heap_bytes m') (unat q - 4)"
    by (rule word_at_cong) (use w B(4) in auto)
  then have "word_at (heap_bytes ?m) (unat q - 4) - heap_addr ?m = p" using B(3) by (simp add: heap_addr_def)
  then have f: "rt_free_align q ?m = rt_smem_free (Some p) ?m" by (simp add: rt_free_align_def rt_free_def)
  have "do_call (Free p) ?m \<noteq> None" by (rule heap_calls_return[OF cl]) simp
  then obtain m'' where m'': "rt_smem_free (Some p) ?m = Some m''" by auto
  have "client m'' ((P(p \<mapsto> n))(p := None))" by (rule client_free[OF cl _ m'']) simp
  moreover have "(P(p \<mapsto> n))(p := None) = P" using B(2) by (auto simp: fun_eq_iff)
  ultimately show ?thesis using f m'' by simp
qed

text \<open>\<open>rt_calloc\<close> gives a block of zeros when the product of its arguments does not wrap.\<close>

theorem calloc_gives_zeros:
  assumes c: "client m P" and n: "unat count * unat sz + 3 < 2 ^ 32"
    and r: "rt_calloc count sz m = Some (Some p, m')" and j: "j < unat count * unat sz"
  shows "heap_bytes m' (unat p + j) = 0"
proof -
  have u: "unat (count * sz) = unat count * unat sz" using n by (simp add: unat_word_ariths)
  from r obtain m1 where "m' = m1\<lparr>heap_bytes := rt_memset (unat p) 0 (unat (count * sz)) (heap_bytes m1)\<rparr>"
    by (auto simp: rt_calloc_def bind_eq_Some_conv)
  then show ?thesis using j by (simp add: rt_memset_filled filled_def u)
qed


lemma aligned_block_of_100:
  obtains m q m' where "rt_smem_init 0x20000000 1024 (\<lambda>_. 0) = Some m" "client m Map.empty"
    "rt_malloc_align 100 64 m = Some (Some q, m')"
proof -
  from heap_of_1024 obtain m where m: "rt_smem_init 0x20000000 1024 (\<lambda>_. 0) = Some m" "heap_ok m [(False, 948)]"
    "client m Map.empty" by blast
  have k: "block_size 164 = 164" by (simp add: block_size_def RT_ALIGN_def)
  from smem_alloc_rep[OF m(2), of 164] obtain m1 where "rt_smem_alloc 164 m = Some (Some 12, m1)" by (auto simp: k)
  moreover have "((100 :: u32) + 3 AND NOT 3) + (64 + 3 AND NOT 3) = 164" by simp
  ultimately have "\<exists>q m'. rt_malloc_align 100 64 m = Some (Some q, m')"
    unfolding rt_malloc_align_def Let_def rt_malloc_def by simp
  then show ?thesis using that m by blast
qed

theorem aligned_block_is_freed_witness:
  "\<exists>m q m' m''. rt_smem_init 0x20000000 1024 (\<lambda>_. 0) = Some m \<and> rt_malloc_align 100 64 m = Some (Some q, m') \<and>
     rt_free_align q m' = Some m'' \<and> client m'' Map.empty"
proof -
  from aligned_block_of_100 obtain m q m' where m: "rt_smem_init 0x20000000 1024 (\<lambda>_. 0) = Some m" "client m Map.empty"
    "rt_malloc_align 100 64 m = Some (Some q, m')" by blast
  have "(64 :: u32) = 2 ^ 6" by simp
  from aligned_block_is_freed[OF m(2) this _ _ _ m(3), of "heap_bytes m'"] obtain m'' where
    "rt_free_align q (m'\<lparr>heap_bytes := heap_bytes m'\<rparr>) = Some m''" "client m'' Map.empty" by auto
  then show ?thesis using m by auto
qed

end
