(* ===== verification/KPrint.thy ===== *)
theory KPrint
  imports KMem
begin

text \<open>
  The formatted output of src/rt-thread/src/kservice.c: \<open>print_number\<close> and \<open>rt_vsnprintf\<close> with
  its wrappers.  A format and the strings among the arguments are lists of characters without
  their terminating zero, which the output must not overlap; the buffer is part of the memory.
  \<open>None\<close> stands for an argument that is missing or of another type and for an overflow of a
  width.  \<open>RT_PRINTF_PRECISION\<close> is set, \<open>RT_PRINTF_LONGLONG\<close> and \<open>RT_PRINTF_SPECIAL\<close> are not.

  The lemmas show that the output never leaves the buffer and is the whole output cut off at
  its size and terminated, and that decimal numbers can be read back.
\<close>

section \<open>Output\<close>

text \<open>\<open>if (str < end) *str = c; ++str;\<close>, and a run of them.\<close>

type_synonym out = "mem \<times> nat"

definition emit :: "nat \<Rightarrow> u8 \<Rightarrow> out \<Rightarrow> out" where
  "emit e c o' = (case o' of (m, p) \<Rightarrow> (if p < e then m(p := c) else m, p + 1))"

fun emits :: "nat \<Rightarrow> u8 list \<Rightarrow> out \<Rightarrow> out" where
  "emits e [] o' = o'"
| "emits e (c # cs) o' = emits e cs (emit e c o')"

abbreviation byte :: "char \<Rightarrow> u8" where "byte \<equiv> of_char"

section \<open>Numbers\<close>

definition ZEROPAD :: u8 where "ZEROPAD = 1"
definition SIGN :: u8 where "SIGN = 2"
definition PLUS :: u8 where "PLUS = 4"
definition SPACE :: u8 where "SPACE = 8"
definition LEFT :: u8 where "LEFT = 16"
definition SPECIAL :: u8 where "SPECIAL = 32"
definition LARGE :: u8 where "LARGE = 64"

lemmas flag_defs = ZEROPAD_def SIGN_def PLUS_def SPACE_def LEFT_def SPECIAL_def LARGE_def

definition has :: "u8 \<Rightarrow> u8 \<Rightarrow> bool" where "has fl f \<longleftrightarrow> fl AND f \<noteq> 0"

definition divide_by :: "u32 \<Rightarrow> nat \<Rightarrow> nat \<times> u32" where
  "divide_by n base = (if base = 10 then (unat (n mod 10), n div 10) else (unat (n mod 16), n div 16))"

definition small_digits :: string where "small_digits = ''0123456789abcdef''"
definition large_digits :: string where "large_digits = ''0123456789ABCDEF''"

lemma divide_by_less: "n \<noteq> 0 \<Longrightarrow> unat (snd (divide_by n base)) < unat n"
  by (auto simp: divide_by_def unat_div word_neq_0_conv word_less_nat_alt)

text \<open>The digits in \<open>tmp\<close>, the last one first.\<close>

function tmp_digits :: "string \<Rightarrow> nat \<Rightarrow> u32 \<Rightarrow> u8 list" where
  "tmp_digits digits base n =
     (if n = 0 then [] else byte (digits ! fst (divide_by n base)) # tmp_digits digits base (snd (divide_by n base)))"
  by auto
termination by (relation "measure (\<lambda>(d, b, n). unat n)") (auto simp: divide_by_less)

declare tmp_digits.simps [simp del]

definition print_number :: "nat \<Rightarrow> u32 \<Rightarrow> nat \<Rightarrow> int \<Rightarrow> int \<Rightarrow> u8 \<Rightarrow> out \<Rightarrow> out" where
  "print_number e num base s precision type o' =
     (let digits = (if has type LARGE then large_digits else small_digits);
          type = (if has type LEFT then type AND NOT ZEROPAD else type);
          c = (if has type ZEROPAD then byte CHR ''0'' else byte CHR '' '');
          (sign, num) =
            (if has type SIGN
             then if sint num < 0 then ([byte CHR ''-''], - num)
                  else if has type PLUS then ([byte CHR ''+''], num)
                  else if has type SPACE then ([byte CHR '' ''], num) else ([], num)
             else ([], num));
          tmp = (if num = 0 then [byte CHR ''0''] else tmp_digits digits base num);
          i = int (length tmp);
          prec = (if i > precision then i else precision);
          size1 = s - prec;
          blank = \<not> has type (ZEROPAD OR LEFT);
          size2 = (if blank \<and> sign \<noteq> [] \<and> size1 > 0 then size1 - 1 else size1);
          o' = (if blank then emits e (replicate (nat size2) (byte CHR '' '')) o' else o');
          size3 = (if blank then min size2 0 - 1 else size2);
          o' = emits e sign o';
          size4 = (if sign \<noteq> [] then size3 - 1 else size3);
          o' = (if has type LEFT then o' else emits e (replicate (nat size4) c) o');
          size5 = (if has type LEFT then size4 else min size4 0 - 1);
          o' = emits e (replicate (nat (prec - i)) (byte CHR ''0'')) o';
          o' = emits e (if precision \<noteq> 0 then rev tmp else []) o'
      in emits e (replicate (nat size5) (byte CHR '' '')) o')"

section \<open>Formats\<close>

definition ISDIGIT :: "char \<Rightarrow> bool" where
  "ISDIGIT c \<longleftrightarrow> of_char c - 48 < (10 :: u32)"

fun skip_atoi :: "int \<Rightarrow> string \<Rightarrow> (int \<times> string) option" where
  "skip_atoi i [] = Some (i, [])"
| "skip_atoi i (c # cs) =
     (if ISDIGIT c
      then let i = i * 10 + of_char c - 48 in if i < 2 ^ 31 then skip_atoi i cs else None
      else Some (i, c # cs))"

datatype arg = ANum u32 | AStr "string option"

fun va_int :: "arg list \<Rightarrow> (u32 \<times> arg list) option" where
  "va_int (ANum w # args) = Some (w, args)"
| "va_int args = None"

fun va_str :: "arg list \<Rightarrow> (string option \<times> arg list) option" where
  "va_str (AStr s # args) = Some (s, args)"
| "va_str args = None"

text \<open>Flags, from behind the \<open>%\<close> on.\<close>

fun get_flags :: "u8 \<Rightarrow> string \<Rightarrow> u8 \<times> string" where
  "get_flags fl [] = (fl, [])"
| "get_flags fl (c # cs) =
     (if c = CHR ''-'' then get_flags (fl OR LEFT) cs
      else if c = CHR ''+'' then get_flags (fl OR PLUS) cs
      else if c = CHR '' '' then get_flags (fl OR SPACE) cs
      else if c = CHR ''#'' then get_flags (fl OR SPECIAL) cs
      else if c = CHR ''0'' then get_flags (fl OR ZEROPAD) cs
      else (fl, c # cs))"

definition get_width :: "u8 \<Rightarrow> string \<Rightarrow> arg list \<Rightarrow> (int \<times> u8 \<times> string \<times> arg list) option" where
  "get_width fl fmt args =
     (case fmt of
        c # cs \<Rightarrow>
          if ISDIGIT c then do { (w, fmt) \<leftarrow> skip_atoi 0 fmt; Some (w, fl, fmt, args) }
          else if c = CHR ''*''
          then do { (w, args) \<leftarrow> va_int args;
                    Some (if sint w < 0 then (- sint w, fl OR LEFT, cs, args) else (sint w, fl, cs, args)) }
          else Some (- 1, fl, fmt, args)
      | [] \<Rightarrow> Some (- 1, fl, fmt, args))"

definition get_precision :: "string \<Rightarrow> arg list \<Rightarrow> (int \<times> string \<times> arg list) option" where
  "get_precision fmt args =
     (case fmt of
        c # cs \<Rightarrow>
          if c = CHR ''.''
          then do {
            (p, fmt, args) \<leftarrow> (case cs of
                d # ds \<Rightarrow>
                  if ISDIGIT d then do { (p, fmt) \<leftarrow> skip_atoi 0 cs; Some (p, fmt, args) }
                  else if d = CHR ''*'' then do { (w, args) \<leftarrow> va_int args; Some (sint w, ds, args) }
                  else Some (- 1, cs, args)
              | [] \<Rightarrow> Some (- 1, cs, args));
            Some (if p < 0 then 0 else p, fmt, args) }
          else Some (- 1, fmt, args)
      | [] \<Rightarrow> Some (- 1, fmt, args))"

definition get_qualifier :: "string \<Rightarrow> char option \<times> string" where
  "get_qualifier fmt =
     (case fmt of c # cs \<Rightarrow> if c = CHR ''h'' \<or> c = CHR ''l'' then (Some c, cs) else (None, fmt) | [] \<Rightarrow> (None, fmt))"

section \<open>Conversions\<close>

definition put_char :: "nat \<Rightarrow> u32 \<Rightarrow> int \<Rightarrow> u8 \<Rightarrow> out \<Rightarrow> out" where
  "put_char e c w fl o' =
     (let o' = (if has fl LEFT then o' else emits e (replicate (nat (w - 1)) (byte CHR '' '')) o');
          w = (if has fl LEFT then w else min (w - 1) 0);
          o' = emit e (ucast c) o'
      in emits e (replicate (nat (w - 1)) (byte CHR '' '')) o')"

text \<open>The length of a string is cut off at the width; at the precision only when it is not 0.\<close>

definition put_string :: "nat \<Rightarrow> string option \<Rightarrow> int \<Rightarrow> int \<Rightarrow> u8 \<Rightarrow> out \<Rightarrow> out" where
  "put_string e s w precision fl o' =
     (let s = (case s of Some s \<Rightarrow> s | None \<Rightarrow> ''(NULL)'');
          len = (if 0 \<le> w then min (nat w) (length s) else length s);
          len = (if precision > 0 \<and> int len > precision then nat precision else len);
          o' = (if has fl LEFT then o' else emits e (replicate (nat (w - int len)) (byte CHR '' '')) o');
          w = (if has fl LEFT then w else min w (int len) - 1);
          o' = emits e (map byte (take len s)) o'
      in emits e (replicate (nat (w - int len)) (byte CHR '' '')) o')"

definition the_number :: "char option \<Rightarrow> u8 \<Rightarrow> u32 \<Rightarrow> u32" where
  "the_number qualifier fl w =
     (if qualifier = Some CHR ''h''
      then if has fl SIGN then scast (ucast w :: u16) else ucast (ucast w :: u16)
      else w)"

definition put_number :: "nat \<Rightarrow> nat \<Rightarrow> u8 \<Rightarrow> int \<Rightarrow> int \<Rightarrow> char option \<Rightarrow> arg list \<Rightarrow> out \<Rightarrow> (arg list \<times> out) option" where
  "put_number e base fl w precision qualifier args o' = do {
     (v, args) \<leftarrow> va_int args;
     Some (args, print_number e (the_number qualifier fl v) base w precision fl o') }"

text \<open>The \<open>switch\<close> on the character of the conversion.\<close>

definition convert :: "nat \<Rightarrow> u8 \<Rightarrow> int \<Rightarrow> int \<Rightarrow> char option \<Rightarrow> char \<Rightarrow> arg list \<Rightarrow> out \<Rightarrow> (arg list \<times> out) option" where
  "convert e fl w precision qualifier c args o' =
     (if c = CHR ''c'' then do { (v, args) \<leftarrow> va_int args; Some (args, put_char e v w fl o') }
      else if c = CHR ''s'' then do { (s, args) \<leftarrow> va_str args; Some (args, put_string e s w precision fl o') }
      else if c = CHR ''p'' then do {
        (v, args) \<leftarrow> va_int args;
        Some (args, if w = - 1 then print_number e v 16 8 precision (fl OR ZEROPAD) o'
                    else print_number e v 16 w precision fl o') }
      else if c = CHR ''%'' then Some (args, emit e (byte CHR ''%'') o')
      else if c = CHR ''o'' then put_number e 8 fl w precision qualifier args o'
      else if c = CHR ''X'' then put_number e 16 (fl OR LARGE) w precision qualifier args o'
      else if c = CHR ''x'' then put_number e 16 fl w precision qualifier args o'
      else if c = CHR ''d'' \<or> c = CHR ''i'' then put_number e 10 (fl OR SIGN) w precision qualifier args o'
      else if c = CHR ''u'' then put_number e 10 fl w precision qualifier args o'
      else Some (args, emits e [byte CHR ''%'', byte c] o'))"

lemma get_flags_length: "length (snd (get_flags fl fmt)) \<le> length fmt"
  by (induction fl fmt rule: get_flags.induct) auto

lemma skip_atoi_length: "skip_atoi i fmt = Some (w, fmt') \<Longrightarrow> length fmt' \<le> length fmt"
  by (induction i fmt rule: skip_atoi.induct) (auto simp: Let_def split: if_splits)

lemma get_width_length: "get_width fl fmt args = Some (w, fl', fmt', args') \<Longrightarrow> length fmt' \<le> length fmt"
  by (auto simp: get_width_def bind_eq_Some_conv split: list.splits if_splits dest: skip_atoi_length)

lemma get_precision_length: "get_precision fmt args = Some (p, fmt', args') \<Longrightarrow> length fmt' \<le> length fmt"
  by (auto simp: get_precision_def bind_eq_Some_conv split: list.splits if_splits dest!: skip_atoi_length)

lemma get_qualifier_length: "length (snd (get_qualifier fmt)) \<le> length fmt"
  by (auto simp: get_qualifier_def split: list.splits)

text \<open>What a \<open>%\<close> begins; a format that ends in it prints it.\<close>

definition directive :: "nat \<Rightarrow> string \<Rightarrow> arg list \<Rightarrow> out \<Rightarrow> (string \<times> arg list \<times> out) option" where
  "directive e fmt args o' =
     (let (fl, fmt) = get_flags 0 fmt
      in do {
        (w, fl, fmt, args) \<leftarrow> get_width fl fmt args;
        (precision, fmt, args) \<leftarrow> get_precision fmt args;
        let (qualifier, fmt) = get_qualifier fmt
        in case fmt of [] \<Rightarrow> Some ([], args, emit e (byte CHR ''%'') o')
           | c # fmt \<Rightarrow> map_option (Pair fmt) (convert e fl w precision qualifier c args o') })"

lemma directive_length:
  assumes "directive e fmt args o' = Some (fmt', args', o'')"
  shows "length fmt' \<le> length fmt"
proof -
  obtain fl f1 where g: "get_flags 0 fmt = (fl, f1)" by force
  note d = assms[unfolded directive_def g Let_def split]
  from d obtain w fl2 f2 a2 where w: "get_width fl f1 args = Some (w, fl2, f2, a2)"
    by (cases "get_width fl f1 args") auto
  with d obtain p f3 a3 where p: "get_precision f2 a2 = Some (p, f3, a3)"
    by (cases "get_precision f2 a2") auto
  have "length fmt' \<le> length (snd (get_qualifier f3))"
    using d w p by (auto simp: split_beta split: list.splits)
  also have "\<dots> \<le> length f3" by (rule get_qualifier_length)
  also have "\<dots> \<le> length f2" by (rule get_precision_length[OF p])
  also have "\<dots> \<le> length f1" by (rule get_width_length[OF w])
  also have "\<dots> \<le> length fmt" using get_flags_length[of 0 fmt] g by simp
  finally show ?thesis .
qed

function vs_loop :: "nat \<Rightarrow> string \<Rightarrow> arg list \<Rightarrow> out \<Rightarrow> out option" where
  "vs_loop e [] args o' = Some o'"
| "vs_loop e (c # fmt) args o' =
     (if c \<noteq> CHR ''%'' then vs_loop e fmt args (emit e (byte c) o')
      else case directive e fmt args o' of None \<Rightarrow> None
           | Some (fmt, args, o') \<Rightarrow> vs_loop e fmt args o')"
  by pat_completeness auto
termination by (relation "measure (\<lambda>(e, f, a, o'). length f)") (auto dest: directive_length simp: less_Suc_eq_le)

text \<open>Pointers have 32 bits: a size that reaches beyond the last address is cut off there.\<close>

definition rt_vsnprintf :: "u32 \<Rightarrow> u32 \<Rightarrow> string \<Rightarrow> arg list \<Rightarrow> mem \<Rightarrow> (int \<times> mem) option" where
  "rt_vsnprintf buf sz fmt args m =
     (let (e, sz) = (if buf + sz < buf then (- 1, - 1 - buf) else (buf + sz, sz))
      in do {
        (m, p) \<leftarrow> vs_loop (unat e) fmt args (m, unat buf);
        Some (int p - int (unat buf),
          if 0 < sz then if p < unat e then m(p := 0) else m(unat e - 1 := 0) else m) })"

definition rt_snprintf :: "u32 \<Rightarrow> u32 \<Rightarrow> string \<Rightarrow> arg list \<Rightarrow> mem \<Rightarrow> (int \<times> mem) option" where
  "rt_snprintf buf sz fmt args m = rt_vsnprintf buf sz fmt args m"

definition rt_vsprintf :: "u32 \<Rightarrow> string \<Rightarrow> arg list \<Rightarrow> mem \<Rightarrow> (int \<times> mem) option" where
  "rt_vsprintf buf fmt args m = rt_vsnprintf buf (- 1) fmt args m"

definition rt_sprintf :: "u32 \<Rightarrow> string \<Rightarrow> arg list \<Rightarrow> mem \<Rightarrow> (int \<times> mem) option" where
  "rt_sprintf buf fmt args m = rt_vsprintf buf fmt args m"


section \<open>The output does not depend on the buffer\<close>

lemma emits_append: "emits e (xs @ ys) o' = emits e ys (emits e xs o')"
  by (induction xs arbitrary: o') auto

definition writes :: "(nat \<Rightarrow> out \<Rightarrow> out) \<Rightarrow> bool" where
  "writes F \<longleftrightarrow> (\<exists>xs. \<forall>e o'. F e o' = emits e xs o')"

lemma writes_id: "writes (\<lambda>e o'. o')"
  unfolding writes_def by (rule exI[of _ "[]"]) simp

lemma writes_emits: "writes F \<Longrightarrow> writes (\<lambda>e o'. emits e xs (F e o'))"
  unfolding writes_def by (metis emits_append)

lemma writes_emit: "writes F \<Longrightarrow> writes (\<lambda>e o'. emit e c (F e o'))"
  using writes_emits[of F "[c]"] by simp

lemma writes_if: "(b \<Longrightarrow> writes F) \<Longrightarrow> (\<not> b \<Longrightarrow> writes G) \<Longrightarrow> writes (\<lambda>e o'. if b then F e o' else G e o')"
  by (cases b) auto

lemmas writes_intros = writes_if writes_emits writes_emit writes_id

lemma writes_print_number: "writes (\<lambda>e. print_number e num base s precision type)"
  unfolding print_number_def Let_def split_beta by (intro writes_intros)

lemma writes_put_char: "writes (\<lambda>e. put_char e c w fl)"
  unfolding put_char_def Let_def by (intro writes_intros)

lemma writes_put_string: "writes (\<lambda>e. put_string e s w precision fl)"
  unfolding put_string_def Let_def by (intro writes_intros)

text \<open>The same for the steps that may fail and use up arguments.\<close>

definition yields :: "(nat \<Rightarrow> out \<Rightarrow> ('a \<times> out) option) \<Rightarrow> bool" where
  "yields F \<longleftrightarrow> (\<exists>r. \<forall>e o'. F e o' = map_option (\<lambda>(x, xs). (x, emits e xs o')) r)"

lemma yields_None: "yields (\<lambda>e o'. None)"
  unfolding yields_def by (rule exI[of _ None]) simp

lemma yields_Some: "writes F \<Longrightarrow> yields (\<lambda>e o'. Some (x, F e o'))"
  unfolding writes_def yields_def
proof (elim exE)
  fix xs assume "\<forall>e o'. F e o' = emits e xs o'"
  then show "\<exists>r. \<forall>e o'. Some (x, F e o') = map_option (\<lambda>(x, xs). (x, emits e xs o')) r"
    by (intro exI[of _ "Some (x, xs)"]) simp
qed

lemma yields_bind: "(\<And>x. a = Some x \<Longrightarrow> yields (\<lambda>e o'. F x e o')) \<Longrightarrow> yields (\<lambda>e o'. a \<bind> (\<lambda>x. F x e o'))"
  by (cases a) (simp_all add: yields_None)

lemma yields_if: "(b \<Longrightarrow> yields F) \<Longrightarrow> (\<not> b \<Longrightarrow> yields G) \<Longrightarrow> yields (\<lambda>e o'. if b then F e o' else G e o')"
  by (cases b) auto

lemma yields_map:
  assumes "yields F" shows "yields (\<lambda>e o'. map_option (Pair y) (F e o') \<bind> (\<lambda>(y, x, o'). Some ((y, x), o')))"
proof -
  from assms obtain r where "\<And>e o'. F e o' = map_option (\<lambda>(x, xs). (x, emits e xs o')) r" unfolding yields_def by blast
  then show ?thesis unfolding yields_def
    by (intro exI[of _ "map_option (\<lambda>(x, xs). ((y, x), xs)) r"]) (cases r, auto)
qed

lemma yields_put_number: "yields (\<lambda>e. put_number e base fl w precision qualifier args)"
  unfolding put_number_def split_beta by (intro yields_bind yields_Some writes_print_number)

lemma yields_convert: "yields (\<lambda>e. convert e fl w precision qualifier c args)"
  unfolding convert_def split_beta
  by (intro yields_if yields_bind yields_Some yields_put_number writes_put_char writes_put_string
      writes_if writes_print_number writes_intros)

text \<open>A directive leaves a rest of the format and of the arguments and prints a list.\<close>

lemma directive_prints:
  "\<exists>r. \<forall>e o'. directive e fmt args o' = map_option (\<lambda>(f, a, xs). (f, a, emits e xs o')) r"
proof -
  obtain fl f1 where g: "get_flags 0 fmt = (fl, f1)" by force
  show ?thesis
  proof (cases "get_width fl f1 args")
    case None
    then show ?thesis by (intro exI[of _ None]) (simp add: directive_def g)
  next
    case (Some x)
    obtain w fl2 f2 a2 where x: "x = (w, fl2, f2, a2)" by (cases x) auto
    show ?thesis
    proof (cases "get_precision f2 a2")
      case None
      then show ?thesis using Some x by (intro exI[of _ None]) (simp add: directive_def g)
    next
      case p: (Some y)
      obtain p f3 a3 where y: "y = (p, f3, a3)" by (cases y) auto
      obtain q f4 where q: "get_qualifier f3 = (q, f4)" by force
      show ?thesis
      proof (cases f4)
        case Nil
        show ?thesis
          by (rule exI[of _ "Some ([], a3, [byte CHR ''%''])"])
             (use Some x p y q Nil in \<open>simp add: directive_def g\<close>)
      next
        case (Cons c cs)
        obtain r where r: "\<And>e o'. convert e fl2 w p q c a3 o' = map_option (\<lambda>(x, xs). (x, emits e xs o')) r"
          using yields_convert unfolding yields_def by blast
        show ?thesis
          by (rule exI[of _ "map_option (\<lambda>(x, xs). (cs, x, xs)) r"])
             (use Some x p y q Cons in \<open>cases r, auto simp: directive_def g r\<close>)
      qed
    qed
  qed
qed

lemma loop_prints: "\<exists>r. \<forall>e o'. vs_loop e fmt args o' = map_option (\<lambda>xs. emits e xs o') r"
proof (induction fmt arbitrary: args rule: length_induct)
  case (1 fmt)
  show ?case
  proof (cases fmt)
    case Nil
    then show ?thesis by (intro exI[of _ "Some []"]) simp
  next
    case (Cons c cs)
    show ?thesis
    proof (cases "c = CHR ''%''")
      case False
      have "length cs < length fmt" using Cons by simp
      then obtain r where r: "\<And>e o'. vs_loop e cs args o' = map_option (\<lambda>xs. emits e xs o') r" using 1 by blast
      show ?thesis
        by (rule exI[of _ "map_option ((#) (byte c)) r"]) (use Cons False r in \<open>simp add: option.map_comp comp_def\<close>)
    next
      case True
      obtain r where r: "\<And>e o'. directive e cs args o' = map_option (\<lambda>(f, a, xs). (f, a, emits e xs o')) r"
        using directive_prints by blast
      show ?thesis
      proof (cases r)
        case None
        then show ?thesis using Cons True r by (intro exI[of _ None]) simp
      next
        case (Some y)
        obtain f a xs where y: "y = (f, a, xs)" by (cases y) auto
        have "directive 0 cs args o' = Some (f, a, emits 0 xs o')" for o' using r Some y by simp
        then have "length f < length fmt" using directive_length[of 0 cs args] Cons by (metis length_Cons less_Suc_eq_le)
        then obtain r2 where r2: "\<And>e o'. vs_loop e f a o' = map_option (\<lambda>xs. emits e xs o') r2" using 1 by blast
        show ?thesis
          by (rule exI[of _ "map_option (\<lambda>ys. xs @ ys) r2"])
             (use Cons True r Some y r2 in \<open>simp add: option.map_comp comp_def emits_append\<close>)
      qed
    qed
  qed
qed

text \<open>What a run of output leaves in memory.\<close>

lemma emits_mem:
  "emits e xs (m, p) = (\<lambda>j. if p \<le> j \<and> j < p + length xs \<and> j < e then xs ! (j - p) else m j, p + length xs)"
proof (induction xs arbitrary: m p)
  case (Cons x xs)
  then show ?case by (auto simp: emit_def fun_eq_iff nth_Cons')
qed (auto simp: fun_eq_iff)

text \<open>The whole of a call: \<open>n\<close> characters, cut off and terminated.\<close>

definition cut_off :: "nat \<Rightarrow> nat \<Rightarrow> u8 list \<Rightarrow> mem \<Rightarrow> mem" where
  "cut_off buf sz xs m =
     (\<lambda>j. if buf \<le> j \<and> j < buf + min (length xs) (sz - 1) then xs ! (j - buf)
          else if j = buf + min (length xs) (sz - 1) then 0 else m j)"

lemma vsnprintf_of_loop:
  assumes r: "\<And>e o'. vs_loop e fmt args o' = map_option (\<lambda>xs. emits e xs o') r"
    and b: "unat buf + unat sz < 2 ^ 32" "0 < sz"
  shows "rt_vsnprintf buf sz fmt args m = map_option (\<lambda>xs. (int (length xs), cut_off (unat buf) (unat sz) xs m)) r"
proof -
  have e: "unat (buf + sz) = unat buf + unat sz" using b(1) by (simp add: unat_word_ariths)
  have z: "0 < unat sz" using b(2) by (simp add: word_less_nat_alt)
  have c: "\<not> buf + sz < buf" using e by (simp add: word_less_nat_alt)
  show "rt_vsnprintf buf sz fmt args m = map_option (\<lambda>xs. (int (length xs), cut_off (unat buf) (unat sz) xs m)) r"
  proof (cases r)
    case (Some xs)
    show ?thesis using Some b(2) c z
      by (simp add: rt_vsnprintf_def r emits_mem e) (auto simp: fun_eq_iff cut_off_def min_def)
  qed (use c in \<open>simp add: rt_vsnprintf_def r\<close>)
qed

lemma vsnprintf_prints:
  "\<exists>r. \<forall>buf sz m. unat buf + unat sz < 2 ^ 32 \<longrightarrow> 0 < sz \<longrightarrow>
     rt_vsnprintf buf sz fmt args m = map_option (\<lambda>xs. (int (length xs), cut_off (unat buf) (unat sz) xs m)) r"
proof -
  obtain r where "\<And>e o'. vs_loop e fmt args o' = map_option (\<lambda>xs. emits e xs o') r" using loop_prints by blast
  from vsnprintf_of_loop[OF this] show ?thesis by blast
qed

section \<open>Properties\<close>



lemma cut_off_run: "map_option fst (rt_vsnprintf 100 3 ''x%d'' [ANum 42] (\<lambda>_. 7)) = Some 3"
  "map_option (\<lambda>(n, m). (n, map m [200..<203])) (rt_vsnprintf 200 10 ''x%d'' [ANum 42] (\<lambda>_. 7)) = Some (3, [120, 52, 50])"
  by code_simp+


text \<open>Decimal numbers.\<close>

lemma digit_bytes:
  assumes "d < 10"
  shows "byte (small_digits ! d) = of_nat (48 + d)" "ISDIGIT (small_digits ! d)" "of_char (small_digits ! d) = 48 + int d"
proof -
  have "d = 0 \<or> d = 1 \<or> d = 2 \<or> d = 3 \<or> d = 4 \<or> d = 5 \<or> d = 6 \<or> d = 7 \<or> d = 8 \<or> d = 9" using assms by auto
  then show "byte (small_digits ! d) = of_nat (48 + d)" "ISDIGIT (small_digits ! d)" "of_char (small_digits ! d) = 48 + int d"
    by (auto simp: small_digits_def ISDIGIT_def)
qed

definition the_char :: "u8 \<Rightarrow> char" where "the_char b = char_of (unat b)"

lemma the_char_byte: "the_char (byte c) = c"
proof -
  have "byte c = of_nat (of_char c)" by (simp add: of_nat_of_char)
  then show ?thesis by (simp add: the_char_def unsigned_of_nat take_bit_nat_eq_self)
qed

lemma read_digits:
  "unat n < 2 ^ 31 \<Longrightarrow> skip_atoi 0 (map the_char (rev (tmp_digits small_digits 10 n)) @ rest) = skip_atoi (int (unat n)) rest"
proof (induction "small_digits" "10 :: nat" n arbitrary: rest rule: tmp_digits.induct)
  case (1 n)
  show ?case
  proof (cases "n = 0")
    case True
    then show ?thesis by (simp add: tmp_digits.simps)
  next
    case False
    define d where "d = unat n mod 10"
    have d: "fst (divide_by n 10) = d" "unat (snd (divide_by n 10)) = unat n div 10" "d < 10"
      by (simp_all add: divide_by_def d_def unat_mod unat_div)
    have "skip_atoi 0 (map the_char (rev (tmp_digits small_digits 10 n)) @ rest) =
        skip_atoi 0 (map the_char (rev (tmp_digits small_digits 10 (snd (divide_by n 10)))) @ (small_digits ! d # rest))"
      using False d(1) by (subst tmp_digits.simps) (simp add: the_char_byte)
    also have "\<dots> = skip_atoi (int (unat n div 10)) (small_digits ! d # rest)"
      using 1(1)[OF False] 1(2) d(2) by simp
    also have "\<dots> = skip_atoi (int (unat n)) rest"
    proof -
      have "int (unat n) = int (unat n div 10 * 10 + d)" by (simp only: d_def div_mult_mod_eq)
      then have "int (unat n div 10) * 10 + (48 + int d) - 48 = int (unat n)" by simp
      moreover have "int (unat n) < 2 ^ 31" using of_nat_less_iff[of "unat n" "2 ^ 31", where 'a = int] 1(2) by simp
      ultimately show ?thesis using digit_bytes(2,3)[OF d(3)] by (simp only: skip_atoi.simps if_True Let_def)
    qed
    finally show ?thesis .
  qed
qed


lemma print_signed:
  "print_number e n 10 (- 1) (- 1) SIGN o' =
     emits e ((if sint n < 0 then [byte CHR ''-''] else []) @
       (if n = 0 then [byte CHR ''0''] else rev (tmp_digits small_digits 10 (if sint n < 0 then - n else n)))) o'"
proof -
  have f: "has SIGN LARGE = False" "has SIGN LEFT = False" "has SIGN ZEROPAD = False" "has SIGN SIGN = True"
    "has SIGN PLUS = False" "has SIGN SPACE = False" "has SIGN (ZEROPAD OR LEFT) = False"
    by (simp_all add: has_def flag_defs)
  show ?thesis by (simp add: print_number_def f Let_def emits_append)
qed

lemma loop_signed: "vs_loop e ''%d'' [ANum n] o' = Some (print_number e n 10 (- 1) (- 1) SIGN o')"
  by (simp add: directive_def get_width_def get_precision_def get_qualifier_def ISDIGIT_def convert_def put_number_def
      the_number_def)

lemma abs_of_word:
  assumes "sint n \<noteq> - (2 ^ 31)"
  shows "int (unat (if sint n < 0 then - n else n :: u32)) = \<bar>sint n\<bar>" "\<bar>sint n\<bar> < 2 ^ 31"
proof -
  have r: "- (2 ^ 31) \<le> sint n" "sint n < 2 ^ 31" using sint_ge[of n] sint_lt[of n] by simp_all
  show b: "\<bar>sint n\<bar> < 2 ^ 31" using r assms by linarith
  have u: "uint w = sint w" if "0 \<le> sint w" for w :: u32
    using that sint_lt[of w] by (simp add: uint_sint[of w] take_bit_int_eq_self)
  show "int (unat (if sint n < 0 then - n else n)) = \<bar>sint n\<bar>"
  proof (cases "sint n < 0")
    case True
    have "sint (- n) = signed_take_bit 31 (- sint n)" by (simp add: sint_word_minus)
    also have "\<dots> = - sint n" by (rule signed_take_bit_int_eq_self) (use r b in linarith)+
    finally show ?thesis using True u[of "- n"] by simp
  qed (use u[of n] in simp)
qed

text \<open>C23: A number that is printed with \<open>%d\<close> into a buffer large enough for it can be read back: the
  digits behind the sign are its absolute value.\<close>

theorem printed_number_reads_back:
  assumes r: "rt_snprintf buf sz ''%d'' [ANum n] m = Some (k, m')" "unat buf + unat sz < 2 ^ 32" "k < int (unat sz)"
    and n: "sint n \<noteq> - (2 ^ 31)"
  shows "skip_atoi 0 (drop (if sint n < 0 then 1 else 0) (map (\<lambda>i. the_char (m' (unat buf + i))) [0..<nat k])) =
    Some (\<bar>sint n\<bar>, [])"
proof -
  define v where "v = (if sint n < 0 then - n else n)"
  have v: "int (unat v) = \<bar>sint n\<bar>" "\<bar>sint n\<bar> < 2 ^ 31" unfolding v_def by (rule abs_of_word[OF n])+
  have v31: "unat v < 2 ^ 31" using v of_nat_less_iff[of "unat v" "2 ^ 31", where 'a = int] by simp
  define ds where "ds = (if n = 0 then [byte CHR ''0''] else rev (tmp_digits small_digits 10 v))"
  define xs where "xs = (if sint n < 0 then [byte CHR ''-''] else []) @ ds"
  have l: "vs_loop e ''%d'' [ANum n] o' = map_option (\<lambda>xs. emits e xs o') (Some xs)" for e o'
    unfolding loop_signed print_signed xs_def ds_def v_def by simp
  have z: "0 < sz"
  proof (rule ccontr)
    assume "\<not> 0 < sz"
    then have "unat sz = 0" by (simp add: word_less_nat_alt)
    then show False using r(1,3) l by (auto simp: rt_snprintf_def rt_vsnprintf_def emits_mem split: if_splits)
  qed
  from vsnprintf_of_loop[OF l r(2) z, of m] r(1) have m': "k = int (length xs)" "m' = cut_off (unat buf) (unat sz) xs m"
    by (simp_all add: rt_snprintf_def)
  have len: "length xs < unat sz" using r(3) unfolding m'(1) of_nat_less_iff .
  have "map (\<lambda>i. the_char (m' (unat buf + i))) [0..<nat k] = map the_char xs"
    by (rule nth_equalityI) (use len in \<open>auto simp: m' cut_off_def\<close>)
  moreover have "drop (if sint n < 0 then 1 else 0) (map the_char xs) = map the_char ds" by (simp add: xs_def)
  moreover have "skip_atoi 0 (map the_char ds) = Some (\<bar>sint n\<bar>, [])"
  proof (cases "n = 0")
    case True
    then have "map the_char ds = ''0''" by (simp add: ds_def the_char_byte del: of_char_Char)
    then show ?thesis using True by (simp add: ISDIGIT_def)
  next
    case False
    then show ?thesis using read_digits[OF v31, of "[]"] v(1) by (simp add: ds_def)
  qed
  ultimately show ?thesis by simp
qed

lemma minus_123: "map_option fst (rt_snprintf 100 8 ''%d'' [ANum (- 123)] (\<lambda>_. 0)) = Some 4"
  by code_simp

theorem printed_number_reads_back_witness:
  "\<exists>m'. rt_snprintf 100 8 ''%d'' [ANum (- 123)] (\<lambda>_. 0) = Some (4, m') \<and>
     skip_atoi 0 (drop (if sint (- 123 :: u32) < 0 then 1 else 0) (map (\<lambda>i. the_char (m' (unat (100 :: u32) + i))) [0..<nat 4])) =
     Some (123, [])"
proof -
  from minus_123 obtain m' where m': "rt_snprintf 100 8 ''%d'' [ANum (- 123)] (\<lambda>_. 0) = Some (4, m')" by auto
  have s: "\<bar>sint (- 123 :: u32)\<bar> = 123" "sint (- 123 :: u32) \<noteq> - (2 ^ 31)" by simp_all
  from printed_number_reads_back[OF m' _ _ s(2)] show ?thesis using m' unfolding s(1) by auto
qed

text \<open>The digits of a number fit into \<open>tmp[16]\<close>.\<close>

lemma tmp_digits_fit: "unat n < 10 ^ k \<Longrightarrow> length (tmp_digits digits base n) \<le> k"
proof (induction k arbitrary: n)
  case 0
  then have "n = 0" by (simp add: unat_eq_zero)
  then show ?case by (simp add: tmp_digits.simps)
next
  case (Suc k)
  have "unat (snd (divide_by n base)) < 10 ^ k"
    using Suc.prems by (auto simp: divide_by_def unat_div less_mult_imp_div_less mult.commute
        intro!: less_mult_imp_div_less[of "unat n" "10 ^ k" 16, simplified] order.strict_trans2[OF Suc.prems])
  then show ?case using Suc.IH by (subst tmp_digits.simps) simp
qed

theorem number_fits_tmp: "length (tmp_digits digits base n) \<le> 10"
proof (rule tmp_digits_fit)
  have "unat n < 2 ^ 32" using unsigned_less[of n] by simp
  then show "unat n < 10 ^ 10" by simp
qed

text \<open>\<open>%o\<close> prints in base 16: \<open>divide\<close> knows the bases 10 and 16 only.\<close>

theorem octal_is_hexadecimal:
  "rt_vsnprintf buf sz ''%o'' args m = rt_vsnprintf buf sz ''%x'' args m"
proof -
  have t: "tmp_digits d 8 n = tmp_digits d 16 n" for d n
  proof (induction d "8 :: nat" n rule: tmp_digits.induct)
    case (1 d n)
    have "divide_by n 8 = divide_by n 16" by (simp add: divide_by_def)
    then show ?case using 1 by (subst (1 2) tmp_digits.simps) simp
  qed
  have n: "put_number e 8 fl w p q args o' = put_number e 16 fl w p q args o'" for e fl w p q o'
    unfolding put_number_def print_number_def t ..
  have "directive e ''o'' args o' = directive e ''x'' args o'" for e o'
    unfolding directive_def get_width_def get_precision_def get_qualifier_def by (simp add: ISDIGIT_def convert_def n)
  then have "vs_loop e ''%o'' args o' = vs_loop e ''%x'' args o'" for e o' by simp
  then show ?thesis by (simp only: rt_vsnprintf_def)
qed

text \<open>A precision of 0 prints nothing, whatever the number, and a string is cut off at its width.\<close>

lemma precision_zero_prints_nothing:
  "map_option fst (rt_vsnprintf 100 16 ''%.0d'' [ANum 5] (\<lambda>_. 0)) = Some 0"
  by code_simp

lemma width_cuts_strings:
  "map_option (\<lambda>(n, m). (n, map (the_char \<circ> m) [100..<103])) (rt_vsnprintf 100 16 ''%2s'' [AStr (Some ''abc'')] (\<lambda>_. 0)) =
     Some (2, ''ab'' @ [CHR 0x00])"
  by code_simp

end
