(* ===== verification/SoftI2c.thy ===== *)
theory SoftI2c
  imports At24
begin

text \<open>
  rt-thread/components/drivers/i2c/i2c-bit-ops.c, the bit-banged bus master under the EEPROM
  driver, with its pins in libraries/gd32_drivers/drv_soft_i2c.c and rt_i2c_transfer of
  i2c_core.c.  The lines, the delays and the clock of the kernel are operations on a state
  \<open>'s\<close> of the world around the master; \<open>None\<close> is a wait that does not end.  The second half
  of the file is the other end of the bus: a slave that follows the two lines as the I2C
  specification says, above any device that takes and gives bytes.  The lemmas show that
  messages sent through the lines are the messages the device gets.
\<close>

section \<open>The lines\<close>

definition RT_EIO :: int where "RT_EIO = 8"

text \<open>\<open>struct rt_i2c_bit_ops\<close>; \<open>get_scl\<close> may be a null pointer.  \<open>kclock\<close> is the part of the
  kernel the driver uses.\<close>

record 's bit_ops =
  set_sda :: "bool \<Rightarrow> 's \<Rightarrow> 's"
  set_scl :: "bool \<Rightarrow> 's \<Rightarrow> 's"
  get_sda :: "'s \<Rightarrow> bool"
  get_scl :: "('s \<Rightarrow> bool) option"
  udelay :: "u32 \<Rightarrow> 's \<Rightarrow> 's"
  delay_us :: u32
  bit_timeout :: u32

record 's kclock =
  tick_get :: "'s \<Rightarrow> u32"
  thread_delay :: "u32 \<Rightarrow> 's \<Rightarrow> 's"

definition i2c_delay :: "'s bit_ops \<Rightarrow> 's \<Rightarrow> 's" where
  "i2c_delay ops = udelay ops (drop_bit 1 (delay_us ops + 1))"

definition i2c_delay2 :: "'s bit_ops \<Rightarrow> 's \<Rightarrow> 's" where
  "i2c_delay2 ops = udelay ops (delay_us ops)"

definition SDA_L :: "'s bit_ops \<Rightarrow> 's \<Rightarrow> 's" where "SDA_L ops = set_sda ops False"
definition SDA_H :: "'s bit_ops \<Rightarrow> 's \<Rightarrow> 's" where "SDA_H ops = set_sda ops True"
definition SCL_L :: "'s bit_ops \<Rightarrow> 's \<Rightarrow> 's" where "SCL_L ops = set_scl ops False"

text \<open>The wait in \<open>SCL_H\<close>: the flag tells whether the line rose.\<close>

partial_function (option) scl_wait ::
    "'s kclock \<Rightarrow> u32 \<Rightarrow> ('s \<Rightarrow> bool) \<Rightarrow> u32 \<Rightarrow> 's \<Rightarrow> (bool \<times> 's) option" where
  "scl_wait k tmo scl start s =
     (if scl s then Some (True, s)
      else if tmo < tick_get k s - start then Some (False, s)
      else scl_wait k tmo scl start (thread_delay k (drop_bit 1 (tmo + 1)) s))"

definition SCL_H :: "'s kclock \<Rightarrow> 's bit_ops \<Rightarrow> 's \<Rightarrow> (int \<times> 's) option" where
  "SCL_H k ops s =
     (let s = set_scl ops True s
      in case get_scl ops of
           None \<Rightarrow> Some (RT_EOK, i2c_delay ops s)
         | Some scl \<Rightarrow> do {
             (up, s) \<leftarrow> scl_wait k (bit_timeout ops) scl (tick_get k s) s;
             Some (if up then (RT_EOK, i2c_delay ops s) else (- RT_ETIMEOUT, s)) })"

definition i2c_start :: "'s bit_ops \<Rightarrow> 's \<Rightarrow> 's" where
  "i2c_start ops s = SCL_L ops (i2c_delay ops (SDA_L ops s))"

definition i2c_restart :: "'s kclock \<Rightarrow> 's bit_ops \<Rightarrow> 's \<Rightarrow> 's option" where
  "i2c_restart k ops s = do {
     (_, s) \<leftarrow> SCL_H k ops (SDA_H ops s);
     Some (SCL_L ops (i2c_delay ops (SDA_L ops (i2c_delay ops s)))) }"

definition i2c_stop :: "'s kclock \<Rightarrow> 's bit_ops \<Rightarrow> 's \<Rightarrow> 's option" where
  "i2c_stop k ops s = do {
     (_, s) \<leftarrow> SCL_H k ops (i2c_delay ops (SDA_L ops s));
     Some (i2c_delay2 ops (SDA_H ops (i2c_delay ops s))) }"

section \<open>Bytes\<close>

text \<open>1 for an acknowledge, 0 for none, negative when the clock line stays low.\<close>

definition i2c_waitack :: "'s kclock \<Rightarrow> 's bit_ops \<Rightarrow> 's \<Rightarrow> (int \<times> 's) option" where
  "i2c_waitack k ops s = do {
     (r, s) \<leftarrow> SCL_H k ops (i2c_delay ops (SDA_H ops s));
     if r < 0 then Some (- RT_ETIMEOUT, s)
     else let ack = \<not> get_sda ops s in Some (of_bool ack, SCL_L ops s) }"

fun writeb_bits :: "'s kclock \<Rightarrow> 's bit_ops \<Rightarrow> u8 \<Rightarrow> nat \<Rightarrow> 's \<Rightarrow> (int \<times> 's) option" where
  "writeb_bits k ops data 0 s = Some (RT_EOK, s)"
| "writeb_bits k ops data (Suc i) s = do {
     (r, s) \<leftarrow> SCL_H k ops (i2c_delay ops (set_sda ops (bit data i) (SCL_L ops s)));
     if r < 0 then Some (- RT_ETIMEOUT, s) else writeb_bits k ops data i s }"

definition i2c_writeb :: "'s kclock \<Rightarrow> 's bit_ops \<Rightarrow> u8 \<Rightarrow> 's \<Rightarrow> (int \<times> 's) option" where
  "i2c_writeb k ops data s = do {
     (r, s) \<leftarrow> writeb_bits k ops data 8 s;
     if r < 0 then Some (r, s)
     else i2c_waitack k ops (i2c_delay ops (SCL_L ops s)) }"

fun readb_bits :: "'s kclock \<Rightarrow> 's bit_ops \<Rightarrow> u8 \<Rightarrow> nat \<Rightarrow> 's \<Rightarrow> (int \<times> 's) option" where
  "readb_bits k ops data 0 s = Some (uint data, s)"
| "readb_bits k ops data (Suc i) s = do {
     (r, s) \<leftarrow> SCL_H k ops s;
     if r < 0 then Some (- RT_ETIMEOUT, s)
     else let data = push_bit 1 data;
              data = (if get_sda ops s then data OR 1 else data)
       in readb_bits k ops data i (i2c_delay2 ops (SCL_L ops s)) }"

definition i2c_readb :: "'s kclock \<Rightarrow> 's bit_ops \<Rightarrow> 's \<Rightarrow> (int \<times> 's) option" where
  "i2c_readb k ops s = readb_bits k ops 0 8 (i2c_delay ops (SDA_H ops s))"

definition i2c_send_ack_or_nack :: "'s kclock \<Rightarrow> 's bit_ops \<Rightarrow> bool \<Rightarrow> 's \<Rightarrow> (int \<times> 's) option" where
  "i2c_send_ack_or_nack k ops ack s = do {
     (r, s) \<leftarrow> SCL_H k ops (i2c_delay ops (if ack then set_sda ops False s else s));
     if r < 0 then Some (- RT_ETIMEOUT, s) else Some (RT_EOK, SCL_L ops s) }"

section \<open>Messages\<close>

text \<open>\<open>struct rt_i2c_msg\<close>: \<open>mbuf\<close> is the \<open>len\<close> bytes the pointer leads to, which a read
  overwrites.\<close>

record rt_i2c_msg =
  maddr :: u16
  mflags :: u16
  mbuf :: "u8 list"

definition RT_I2C_WR :: u16 where "RT_I2C_WR = 0"
definition RT_I2C_RD :: u16 where "RT_I2C_RD = 0x01"
definition RT_I2C_ADDR_10BIT :: u16 where "RT_I2C_ADDR_10BIT = 0x04"
definition RT_I2C_NO_START :: u16 where "RT_I2C_NO_START = 0x10"
definition RT_I2C_IGNORE_NACK :: u16 where "RT_I2C_IGNORE_NACK = 0x20"
definition RT_I2C_NO_READ_ACK :: u16 where "RT_I2C_NO_READ_ACK = 0x40"
definition RT_I2C_NO_STOP :: u16 where "RT_I2C_NO_STOP = 0x80"

definition has_flag :: "rt_i2c_msg \<Rightarrow> u16 \<Rightarrow> bool" where
  "has_flag m f \<longleftrightarrow> mflags m AND f \<noteq> 0"

fun send_loop :: "'s kclock \<Rightarrow> 's bit_ops \<Rightarrow> bool \<Rightarrow> u8 list \<Rightarrow> nat \<Rightarrow> 's \<Rightarrow> (int \<times> 's) option" where
  "send_loop k ops ignore_nack [] bytes s = Some (int bytes, s)"
| "send_loop k ops ignore_nack (b # bs) bytes s = do {
     (ret, s) \<leftarrow> i2c_writeb k ops b s;
     if 0 < ret \<or> ignore_nack \<and> ret = 0 then send_loop k ops ignore_nack bs (bytes + 1) s
     else if ret = 0 then Some (0, s)
     else Some (ret, s) }"

definition i2c_send_bytes :: "'s kclock \<Rightarrow> 's bit_ops \<Rightarrow> rt_i2c_msg \<Rightarrow> 's \<Rightarrow> (int \<times> 's) option" where
  "i2c_send_bytes k ops m = send_loop k ops (has_flag m RT_I2C_IGNORE_NACK) (mbuf m) 0"

text \<open>\<open>old\<close> is the part of the buffer not yet written, \<open>new\<close> the bytes received, last first.\<close>

fun recv_loop :: "'s kclock \<Rightarrow> 's bit_ops \<Rightarrow> bool \<Rightarrow> u8 list \<Rightarrow> u8 list \<Rightarrow> 's \<Rightarrow>
    (int \<times> u8 list \<times> 's) option" where
  "recv_loop k ops no_ack [] new s = Some (int (length new), rev new, s)"
| "recv_loop k ops no_ack (b # old) new s = do {
     (val, s) \<leftarrow> i2c_readb k ops s;
     if 0 \<le> val then
       let new = word_of_int val # new
       in if no_ack then recv_loop k ops no_ack old new s
          else do {
            (r, s) \<leftarrow> i2c_send_ack_or_nack k ops (old \<noteq> []) s;
            if r < 0 then Some (r, rev new @ old, s) else recv_loop k ops no_ack old new s }
     else Some (int (length new), rev new @ b # old, s) }"

definition i2c_recv_bytes ::
    "'s kclock \<Rightarrow> 's bit_ops \<Rightarrow> rt_i2c_msg \<Rightarrow> 's \<Rightarrow> (int \<times> u8 list \<times> 's) option" where
  "i2c_recv_bytes k ops m = recv_loop k ops (has_flag m RT_I2C_NO_READ_ACK) (mbuf m) []"

text \<open>\<open>n\<close> is \<open>retries - i\<close>.\<close>

fun send_address_loop :: "'s kclock \<Rightarrow> 's bit_ops \<Rightarrow> u8 \<Rightarrow> nat \<Rightarrow> 's \<Rightarrow> (int \<times> 's) option" where
  "send_address_loop k ops addr n s = do {
     (ret, s) \<leftarrow> i2c_writeb k ops addr s;
     if ret = 1 then Some (ret, s)
     else case n of
       0 \<Rightarrow> Some (ret, s)
     | Suc n \<Rightarrow> do {
         s \<leftarrow> i2c_stop k ops s;
         send_address_loop k ops addr n (i2c_start ops (i2c_delay2 ops s)) } }"

definition i2c_send_address ::
    "'s kclock \<Rightarrow> 's bit_ops \<Rightarrow> u8 \<Rightarrow> int \<Rightarrow> 's \<Rightarrow> (int \<times> 's) option" where
  "i2c_send_address k ops addr retries s =
     (if retries < 0 then Some (0, s) else send_address_loop k ops addr (nat retries) s)"

text \<open>\<open>retries\<close> is \<open>bus->retries\<close>, which the driver leaves at zero.\<close>

definition i2c_bit_send_address ::
    "'s kclock \<Rightarrow> 's bit_ops \<Rightarrow> u32 \<Rightarrow> rt_i2c_msg \<Rightarrow> 's \<Rightarrow> (int \<times> 's) option" where
  "i2c_bit_send_address k ops bus_retries m s =
     (let ignore_nack = has_flag m RT_I2C_IGNORE_NACK;
          retries = (if ignore_nack then 0 else sint bus_retries)
      in if has_flag m RT_I2C_ADDR_10BIT then
           let addr1 = 0xf0 OR (ucast (drop_bit 7 (maddr m)) AND 0x06);
               addr2 = ucast (maddr m AND 0xff)
           in do {
             (ret, s) \<leftarrow> i2c_send_address k ops addr1 retries s;
             if ret \<noteq> 1 \<and> \<not> ignore_nack then Some (- RT_EIO, s)
             else do {
               (ret, s) \<leftarrow> i2c_writeb k ops addr2 s;
               if ret \<noteq> 1 \<and> \<not> ignore_nack then Some (- RT_EIO, s)
               else if has_flag m RT_I2C_RD then do {
                 s \<leftarrow> i2c_restart k ops s;
                 (ret, s) \<leftarrow> i2c_send_address k ops (addr1 OR 0x01) retries s;
                 if ret \<noteq> 1 \<and> \<not> ignore_nack then Some (- RT_EIO, s) else Some (RT_EOK, s) }
               else Some (RT_EOK, s) } }
         else
           let addr1 = ucast (push_bit 1 (maddr m));
               addr1 = (if has_flag m RT_I2C_RD then addr1 OR 1 else addr1)
           in do {
             (ret, s) \<leftarrow> i2c_send_address k ops addr1 retries s;
             if ret \<noteq> 1 \<and> \<not> ignore_nack then Some (- RT_EIO, s) else Some (RT_EOK, s) })"

text \<open>The end of a transfer at the label \<open>out\<close>, where \<open>msg\<close> is the last message handled.\<close>

definition xfer_out :: "'s kclock \<Rightarrow> 's bit_ops \<Rightarrow> rt_i2c_msg \<Rightarrow> int \<Rightarrow> 's \<Rightarrow> (int \<times> 's) option" where
  "xfer_out k ops m ret s =
     (if has_flag m RT_I2C_NO_STOP then Some (ret, s)
      else do { s \<leftarrow> i2c_stop k ops s; Some (ret, s) })"

text \<open>Message \<open>i\<close>: \<open>Inl\<close> is a jump to \<open>out\<close>.  The buffer comes back with it.\<close>

definition xfer_msg :: "'s kclock \<Rightarrow> 's bit_ops \<Rightarrow> u32 \<Rightarrow> nat \<Rightarrow> rt_i2c_msg \<Rightarrow> 's \<Rightarrow>
    ((int + unit) \<times> u8 list \<times> 's) option" where
  "xfer_msg k ops bus_retries i m s = do {
     (ret, s) \<leftarrow>
       (if has_flag m RT_I2C_NO_START then Some (RT_EOK, s)
        else do {
          s \<leftarrow> (if i \<noteq> 0 then i2c_restart k ops s else Some (i2c_start ops s));
          i2c_bit_send_address k ops bus_retries m s });
     if ret \<noteq> RT_EOK \<and> \<not> has_flag m RT_I2C_IGNORE_NACK then Some (Inl ret, mbuf m, s)
     else if has_flag m RT_I2C_RD then do {
       (ret, buf, s) \<leftarrow> i2c_recv_bytes k ops m s;
       if ret < int (length (mbuf m)) then Some (Inl (if 0 \<le> ret then - RT_EIO else ret), buf, s)
       else Some (Inr (), buf, s) }
     else do {
       (ret, s) \<leftarrow> i2c_send_bytes k ops m s;
       if ret < int (length (mbuf m)) then Some (Inl (if 0 \<le> ret then - RT_ERROR else ret), mbuf m, s)
       else Some (Inr (), mbuf m, s) } }"

text \<open>The loop gives the result and the buffers as they are afterwards.\<close>

fun xfer_loop :: "'s kclock \<Rightarrow> 's bit_ops \<Rightarrow> u32 \<Rightarrow> nat \<Rightarrow> rt_i2c_msg list \<Rightarrow> 's \<Rightarrow>
    (int \<times> u8 list list \<times> 's) option" where
  "xfer_loop k ops bus_retries i [] s = Some (int i, [], s)"
| "xfer_loop k ops bus_retries i (m # ms) s = do {
     (r, buf, s) \<leftarrow> xfer_msg k ops bus_retries i m s;
     case r of
       Inl ret \<Rightarrow> do {
         (ret, s) \<leftarrow> xfer_out k ops m ret s;
         Some (ret, buf # map mbuf ms, s) }
     | Inr _ \<Rightarrow>
         if ms = [] then do {
           (ret, s) \<leftarrow> xfer_out k ops m (int (i + 1)) s;
           Some (ret, [buf], s) }
         else do {
           (ret, bufs, s) \<leftarrow> xfer_loop k ops bus_retries (i + 1) ms s;
           Some (ret, buf # bufs, s) } }"

definition i2c_bit_xfer :: "'s kclock \<Rightarrow> 's bit_ops \<Rightarrow> u32 \<Rightarrow> rt_i2c_msg list \<Rightarrow> 's \<Rightarrow>
    (int \<times> u8 list list \<times> 's) option" where
  "i2c_bit_xfer k ops bus_retries ms s = xfer_loop k ops bus_retries 0 ms s"

text \<open>\<open>rt_i2c_transfer\<close>, with the bus lock taken.\<close>

definition rt_i2c_transfer :: "'s kclock \<Rightarrow> 's bit_ops \<Rightarrow> u32 \<Rightarrow> rt_i2c_msg list \<Rightarrow> 's \<Rightarrow>
    (int \<times> u8 list list \<times> 's) option" where
  "rt_i2c_transfer k ops bus_retries ms s = i2c_bit_xfer k ops bus_retries ms s"

section \<open>The pins\<close>

text \<open>drv_soft_i2c.c: \<open>gd32_bit_ops_default\<close> over the pin functions of the board.  \<open>pause\<close> is
  the time that \<open>gd32_udelay\<close> spends counting.\<close>

record 's pins =
  pin_mode_od :: "u8 \<Rightarrow> 's \<Rightarrow> 's"
  pin_write :: "u8 \<Rightarrow> bool \<Rightarrow> 's \<Rightarrow> 's"
  pin_read :: "u8 \<Rightarrow> 's \<Rightarrow> bool"
  pause :: "u32 \<Rightarrow> 's \<Rightarrow> 's"

record gd32_soft_i2c_config =
  scl_pin :: u8
  sda_pin :: u8

definition soft_i2c_config :: gd32_soft_i2c_config where
  "soft_i2c_config = \<lparr>scl_pin = 24, sda_pin = 25\<rparr>"

definition gd32_i2c_gpio_init :: "'s pins \<Rightarrow> gd32_soft_i2c_config \<Rightarrow> 's \<Rightarrow> 's" where
  "gd32_i2c_gpio_init P cfg s =
     pin_write P (sda_pin cfg) True (pin_write P (scl_pin cfg) True
       (pin_mode_od P (sda_pin cfg) (pin_mode_od P (scl_pin cfg) s)))"

definition gd32_set_sda :: "'s pins \<Rightarrow> gd32_soft_i2c_config \<Rightarrow> bool \<Rightarrow> 's \<Rightarrow> 's" where
  "gd32_set_sda P cfg state =
     (if state then pin_write P (sda_pin cfg) True else pin_write P (sda_pin cfg) False)"

definition gd32_set_scl :: "'s pins \<Rightarrow> gd32_soft_i2c_config \<Rightarrow> bool \<Rightarrow> 's \<Rightarrow> 's" where
  "gd32_set_scl P cfg state =
     (if state then pin_write P (scl_pin cfg) True else pin_write P (scl_pin cfg) False)"

definition gd32_get_sda :: "'s pins \<Rightarrow> gd32_soft_i2c_config \<Rightarrow> 's \<Rightarrow> bool" where
  "gd32_get_sda P cfg = pin_read P (sda_pin cfg)"

definition gd32_get_scl :: "'s pins \<Rightarrow> gd32_soft_i2c_config \<Rightarrow> 's \<Rightarrow> bool" where
  "gd32_get_scl P cfg = pin_read P (scl_pin cfg)"

definition gd32_bit_ops_default :: "'s pins \<Rightarrow> gd32_soft_i2c_config \<Rightarrow> 's bit_ops" where
  "gd32_bit_ops_default P cfg =
     \<lparr>set_sda = gd32_set_sda P cfg, set_scl = gd32_set_scl P cfg, get_sda = gd32_get_sda P cfg,
      get_scl = Some (gd32_get_scl P cfg), udelay = pause P, delay_us = 1, bit_timeout = 100\<rparr>"

text \<open>\<open>n\<close> clocks to free a slave that holds the data line.\<close>

fun unlock_clocks :: "'s pins \<Rightarrow> gd32_soft_i2c_config \<Rightarrow> nat \<Rightarrow> 's \<Rightarrow> 's" where
  "unlock_clocks P cfg 0 s = s"
| "unlock_clocks P cfg (Suc n) s =
     unlock_clocks P cfg n (pause P 100 (pin_write P (scl_pin cfg) False
       (pause P 100 (pin_write P (scl_pin cfg) True s))))"

definition gd32_i2c_bus_unlock :: "'s pins \<Rightarrow> gd32_soft_i2c_config \<Rightarrow> 's \<Rightarrow> int \<times> 's" where
  "gd32_i2c_bus_unlock P cfg s =
     (let s = (if \<not> pin_read P (sda_pin cfg) s then unlock_clocks P cfg 9 s else s)
      in (if \<not> pin_read P (sda_pin cfg) s then - RT_ERROR else RT_EOK, s))"

text \<open>\<open>rt_hw_i2c_init\<close>, less the registration of the device.\<close>

definition rt_hw_i2c_init :: "'s pins \<Rightarrow> gd32_soft_i2c_config \<Rightarrow> 's \<Rightarrow> int \<times> 's" where
  "rt_hw_i2c_init P cfg s =
     (RT_EOK, snd (gd32_i2c_bus_unlock P cfg (gd32_i2c_gpio_init P cfg s)))"

section \<open>The other end\<close>

text \<open>A device takes an address byte or a data byte and says whether it acknowledges it, and
  gives bytes.\<close>

record 'd device =
  addressed :: "u8 \<Rightarrow> 'd \<Rightarrow> bool \<times> 'd"
  take_byte :: "u8 \<Rightarrow> 'd \<Rightarrow> bool \<times> 'd"
  give_byte :: "'d \<Rightarrow> u8 \<times> 'd"

text \<open>What the slave is doing: waiting for a start; hearing the bits of a byte (the address,
  if the flag is set); answering it with an acknowledge, to give or to take next; telling
  the bits of a byte, the first of which is on the line; waiting for the master's
  acknowledge; having sampled it.\<close>

datatype phase =
    Quiet | Hear bool "bool list" | Answer bool | Tell "bool list" | Asked | Told bool

text \<open>The two lines are wired-and: low as soon as one side pulls.  The slave never pulls the
  clock.\<close>

record 'd bus =
  m_sda :: bool
  m_scl :: bool
  d_sda :: bool
  phase :: phase
  dev :: 'd

definition sda_line :: "'d bus \<Rightarrow> bool" where
  "sda_line b \<longleftrightarrow> m_sda b \<and> d_sda b"

definition byte_of :: "bool list \<Rightarrow> u8" where
  "byte_of bs = horner_sum of_bool 2 (rev bs)"

definition bits_of :: "u8 \<Rightarrow> bool list" where
  "bits_of w = map (bit w) (rev [0..<8])"

definition tell_next :: "'d device \<Rightarrow> 'd bus \<Rightarrow> 'd bus" where
  "tell_next D b =
     (case give_byte D (dev b) of
        (w, d) \<Rightarrow> b\<lparr>d_sda := bit w 7, phase := Tell (bits_of w), dev := d\<rparr>)"

definition answer_with :: "bool \<Rightarrow> bool \<times> 'd \<Rightarrow> 'd bus \<Rightarrow> 'd bus" where
  "answer_with give r b =
     (case r of (ok, d) \<Rightarrow>
        if ok then b\<lparr>d_sda := False, phase := Answer give, dev := d\<rparr>
        else b\<lparr>phase := Quiet, dev := d\<rparr>)"

definition scl_rise :: "'d bus \<Rightarrow> 'd bus" where
  "scl_rise b =
     (case phase b of
        Hear a bs \<Rightarrow> b\<lparr>phase := Hear a (bs @ [sda_line b])\<rparr>
      | Asked \<Rightarrow> b\<lparr>phase := Told (\<not> sda_line b)\<rparr>
      | _ \<Rightarrow> b)"

definition scl_fall :: "'d device \<Rightarrow> 'd bus \<Rightarrow> 'd bus" where
  "scl_fall D b =
     (case phase b of
        Hear a bs \<Rightarrow>
          if length bs < 8 then b
          else if a then answer_with (bit (byte_of bs) 0) (addressed D (byte_of bs) (dev b)) b
          else answer_with False (take_byte D (byte_of bs) (dev b)) b
      | Answer give \<Rightarrow> if give then tell_next D b else b\<lparr>d_sda := True, phase := Hear False []\<rparr>
      | Tell bs \<Rightarrow>
          (case tl bs of
             [] \<Rightarrow> b\<lparr>d_sda := True, phase := Asked\<rparr>
           | x # xs \<Rightarrow> b\<lparr>d_sda := x, phase := Tell (x # xs)\<rparr>)
      | Told ack \<Rightarrow> if ack then tell_next D b else b\<lparr>phase := Quiet\<rparr>
      | _ \<Rightarrow> b)"

definition wire_scl :: "'d device \<Rightarrow> bool \<Rightarrow> 'd bus \<Rightarrow> 'd bus" where
  "wire_scl D v b =
     (if v = m_scl b then b
      else let b = b\<lparr>m_scl := v\<rparr> in if v then scl_rise b else scl_fall D b)"

text \<open>With the clock high, the data line falls for a start and rises for a stop.\<close>

definition wire_sda :: "bool \<Rightarrow> 'd bus \<Rightarrow> 'd bus" where
  "wire_sda v b =
     (let b' = b\<lparr>m_sda := v\<rparr>
      in if m_scl b \<and> sda_line b \<and> \<not> sda_line b' then b'\<lparr>phase := Hear True []\<rparr>
         else if m_scl b \<and> \<not> sda_line b \<and> sda_line b' then b'\<lparr>d_sda := True, phase := Quiet\<rparr>
         else b')"

definition wire_pins :: "'d device \<Rightarrow> 'd bus pins" where
  "wire_pins D =
     \<lparr>pin_mode_od = \<lambda>_ b. b,
      pin_write = \<lambda>p v. if p = 24 then wire_scl D v else if p = 25 then wire_sda v else id,
      pin_read = \<lambda>p b. if p = 24 then m_scl b else sda_line b,
      pause = \<lambda>_ b. b\<rparr>"

abbreviation wire_ops :: "'d device \<Rightarrow> 'd bus bit_ops" where
  "wire_ops D \<equiv> gd32_bit_ops_default (wire_pins D) soft_i2c_config"

definition free_bus :: "'d \<Rightarrow> 'd bus" where
  "free_bus d = \<lparr>m_sda = True, m_scl = True, d_sda = True, phase = Quiet, dev = d\<rparr>"

section \<open>The master on the wires\<close>

lemma wire_ops_simps [simp]:
  "set_sda (wire_ops D) v b = wire_sda v b"
  "set_scl (wire_ops D) v b = wire_scl D v b"
  "get_sda (wire_ops D) b = sda_line b"
  "i2c_delay (wire_ops D) b = b"
  "i2c_delay2 (wire_ops D) b = b"
  by (simp_all add: gd32_bit_ops_default_def wire_pins_def soft_i2c_config_def gd32_set_sda_def
      gd32_set_scl_def gd32_get_sda_def i2c_delay_def i2c_delay2_def)

lemma wire_lines [simp]:
  "SDA_L (wire_ops D) b = wire_sda False b"
  "SDA_H (wire_ops D) b = wire_sda True b"
  "SCL_L (wire_ops D) b = wire_scl D False b"
  by (simp_all add: SDA_L_def SDA_H_def SCL_L_def)

lemma m_scl_wire [simp]: "m_scl (wire_scl D v b) = v"
  by (auto simp: wire_scl_def scl_rise_def scl_fall_def answer_with_def tell_next_def Let_def
      split: phase.splits list.splits prod.splits)

lemma wire_SCL_H [simp]: "SCL_H k (wire_ops D) b = Some (RT_EOK, wire_scl D True b)"
proof -
  have "get_scl (wire_ops D) = Some m_scl" "bit_timeout (wire_ops D) = 100"
    by (simp_all add: gd32_bit_ops_default_def wire_pins_def soft_i2c_config_def gd32_get_scl_def[abs_def])
  then show ?thesis by (simp add: SCL_H_def scl_wait.simps)
qed

lemma byte_of_bits [simp]: "byte_of (bits_of w) = w"
  by (simp add: byte_of_def bits_of_def rev_map horner_sum_bit_eq_take_bit take_bit_word_eq_self)

lemma length_bits_of [simp]: "length (bits_of w) = 8"
  by (simp add: bits_of_def)


text \<open>The states between the bytes: after a start; ready for the next byte from the master;
  with a byte of the device on its way; with nobody listening.\<close>

definition called :: "'d \<Rightarrow> 'd bus" where
  "called d = \<lparr>m_sda = False, m_scl = False, d_sda = True, phase = Hear True [], dev = d\<rparr>"

definition hearing :: "'d \<Rightarrow> 'd bus" where
  "hearing d = \<lparr>m_sda = True, m_scl = False, d_sda = True, phase = Hear False [], dev = d\<rparr>"

definition telling :: "bool \<Rightarrow> u8 \<Rightarrow> 'd \<Rightarrow> 'd bus" where
  "telling v w d = \<lparr>m_sda = v, m_scl = False, d_sda = bit w 7, phase = Tell (bits_of w), dev = d\<rparr>"

definition asked :: "'d \<Rightarrow> 'd bus" where
  "asked d = \<lparr>m_sda = True, m_scl = False, d_sda = True, phase = Asked, dev = d\<rparr>"

definition deaf :: "'d \<Rightarrow> 'd bus" where
  "deaf d = \<lparr>m_sda = True, m_scl = False, d_sda = True, phase = Quiet, dev = d\<rparr>"

lemmas bus_states = free_bus_def called_def hearing_def telling_def asked_def deaf_def
lemmas bus_steps = wire_scl_def wire_sda_def scl_rise_def scl_fall_def sda_line_def Let_def

lemma start_calls [simp]: "i2c_start (wire_ops D) (free_bus d) = called d"
  by (simp add: i2c_start_def bus_states bus_steps)

lemma restart_calls [simp]:
  "i2c_restart k (wire_ops D) (hearing d) = Some (called d)"
  "i2c_restart k (wire_ops D) (deaf d) = Some (called d)"
  by (simp_all add: i2c_restart_def bus_states bus_steps)

lemma stop_frees [simp]:
  "i2c_stop k (wire_ops D) (hearing d) = Some (free_bus d)"
  "i2c_stop k (wire_ops D) (deaf d) = Some (free_bus d)"
  by (simp_all add: i2c_stop_def bus_states bus_steps)

lemma writeb_bits_wire:
  assumes "length bs + n = 8"
  shows "writeb_bits k (wire_ops D) w n \<lparr>m_sda = v, m_scl = c, d_sda = True, phase = Hear a bs, dev = d\<rparr> =
    Some (RT_EOK, \<lparr>m_sda = (if n = 0 then v else bit w 0), m_scl = (0 < n \<or> c), d_sda = True,
      phase = Hear a (bs @ map (bit w) (rev [0..<n])), dev = d\<rparr>)"
  using assms
proof (induction n arbitrary: bs v c)
  case (Suc n)
  have "length (bs @ [bit w n]) + n = 8" using Suc.prems by simp
  from Suc.IH[OF this, of "bit w n" True] Suc.prems show ?case
    by (simp add: bus_steps RT_EOK_def)
qed simp

lemma writeb_bits_deaf:
  "writeb_bits k (wire_ops D) w n \<lparr>m_sda = v, m_scl = c, d_sda = True, phase = Quiet, dev = d\<rparr> =
    Some (RT_EOK, \<lparr>m_sda = (if n = 0 then v else bit w 0), m_scl = (0 < n \<or> c), d_sda = True,
      phase = Quiet, dev = d\<rparr>)"
  by (induction n arbitrary: v c) (simp_all add: bus_steps RT_EOK_def)

lemma address_wire:
  "i2c_writeb k (wire_ops D) w (called d) =
     (case addressed D w d of (ok, d) \<Rightarrow>
        Some (of_bool ok, if \<not> ok then deaf d
          else if bit w 0 then (case give_byte D d of (x, d) \<Rightarrow> telling True x d) else hearing d))"
  using writeb_bits_wire[of "[]" 8 k D w False False True d]
  by (simp add: i2c_writeb_def i2c_waitack_def called_def bits_of_def[symmetric] RT_EOK_def
      bus_steps answer_with_def tell_next_def telling_def hearing_def deaf_def split: prod.split)

lemma byte_wire:
  "i2c_writeb k (wire_ops D) w (hearing d) =
     (case take_byte D w d of (ok, d) \<Rightarrow> Some (of_bool ok, if ok then hearing d else deaf d))"
  using writeb_bits_wire[of "[]" 8 k D w True False False d]
  by (simp add: i2c_writeb_def i2c_waitack_def hearing_def bits_of_def[symmetric] RT_EOK_def
      bus_steps answer_with_def deaf_def split: prod.split)

lemma byte_deaf: "i2c_writeb k (wire_ops D) w (deaf d) = Some (0, deaf d)"
  using writeb_bits_deaf[of k D w 8 True False d]
  by (simp add: i2c_writeb_def i2c_waitack_def deaf_def RT_EOK_def bus_steps)


fun read_bits :: "u8 \<Rightarrow> bool list \<Rightarrow> u8" where
  "read_bits w [] = w"
| "read_bits w (b # bs) = read_bits (if b then push_bit 1 w OR 1 else push_bit 1 w) bs"

lemma read_bits_snoc: "read_bits w (bs @ [b]) = (if b then push_bit 1 (read_bits w bs) OR 1 else push_bit 1 (read_bits w bs))"
  by (induction bs arbitrary: w) auto

lemma shift_in: "(if b then push_bit 1 w OR 1 else push_bit 1 w) = of_bool b + 2 * (w :: u8)"
proof -
  have "push_bit 1 w OR 1 = push_bit 1 w + 1"
    by (rule disjunctive_add_eq_or [symmetric], rule bit_word_eqI)
      (simp only: bit_simps, auto)
  then show ?thesis by (simp add: push_bit_eq_mult)
qed

lemma read_bits_byte: "read_bits 0 bs = byte_of bs"
  by (induction bs rule: rev_induct) (simp_all add: byte_of_def read_bits_snoc shift_in)

lemma readb_bits_wire:
  "bs \<noteq> [] \<Longrightarrow>
   readb_bits k (wire_ops D) w (length bs) \<lparr>m_sda = True, m_scl = False, d_sda = hd bs, phase = Tell bs, dev = d\<rparr> =
     Some (uint (read_bits w bs), asked d)"
proof (induction bs arbitrary: w)
  case (Cons b bs)
  show ?case
  proof (cases bs)
    case Nil
    then show ?thesis by (simp add: bus_steps asked_def RT_EOK_def)
  next
    case (Cons b' bs')
    with Cons.IH show ?thesis by (simp add: bus_steps RT_EOK_def)
  qed
qed simp

lemma read_wire: "i2c_readb k (wire_ops D) (telling v w d) = Some (uint w, asked d)"
proof -
  have "bits_of w \<noteq> []" "hd (bits_of w) = bit w 7"
    by (simp_all add: bits_of_def hd_map hd_rev)
  with readb_bits_wire[of "bits_of w" k D 0 d] show ?thesis
    by (simp add: i2c_readb_def telling_def wire_sda_def Let_def read_bits_byte)
qed

lemma ack_wire:
  "i2c_send_ack_or_nack k (wire_ops D) ack (asked d) =
     Some (RT_EOK, if ack then (case give_byte D d of (w, d) \<Rightarrow> telling False w d) else deaf d)"
  by (simp add: i2c_send_ack_or_nack_def asked_def telling_def deaf_def bus_steps tell_next_def RT_EOK_def
      split: prod.split)

section \<open>Messages at the device\<close>

text \<open>What a transfer means to the device, byte by byte: the reference for \<open>i2c_bit_xfer\<close>.\<close>

fun takes :: "'d device \<Rightarrow> u8 list \<Rightarrow> 'd \<Rightarrow> bool \<times> 'd" where
  "takes D [] d = (True, d)"
| "takes D (b # bs) d = (case take_byte D b d of (ok, d) \<Rightarrow> if ok then takes D bs d else (False, d))"

fun gives :: "'d device \<Rightarrow> nat \<Rightarrow> 'd \<Rightarrow> u8 list \<times> 'd" where
  "gives D 0 d = ([], d)"
| "gives D (Suc n) d = (case give_byte D d of (w, d) \<Rightarrow> case gives D n d of (ws, d) \<Rightarrow> (w # ws, d))"

text \<open>The address byte of a write and of a read.\<close>

definition wr_byte :: "u8 \<Rightarrow> u8" where "wr_byte a = push_bit 1 a"
definition rd_byte :: "u8 \<Rightarrow> u8" where "rd_byte a = push_bit 1 a OR 1"

definition message_calls :: "'d device \<Rightarrow> i2c_msg \<Rightarrow> 'd \<Rightarrow> bool \<times> 'd" where
  "message_calls D m d =
     (case m of
        Wr a ns _ \<Rightarrow> if ns then (True, d) else addressed D (wr_byte a) d
      | Rd a _ \<Rightarrow> addressed D (rd_byte a) d)"

definition buf_of :: "i2c_msg \<Rightarrow> u8 list" where
  "buf_of m = (case m of Wr _ _ bs \<Rightarrow> bs | Rd _ n \<Rightarrow> replicate n 0)"

text \<open>The error, or zero, and the buffer of the message afterwards.\<close>

definition message_at :: "'d device \<Rightarrow> i2c_msg \<Rightarrow> 'd \<Rightarrow> int \<times> u8 list \<times> 'd" where
  "message_at D m d =
     (case message_calls D m d of (ok, d) \<Rightarrow>
        if \<not> ok then (- RT_EIO, buf_of m, d)
        else case m of
          Wr _ _ bs \<Rightarrow> (case takes D bs d of (ok, d) \<Rightarrow> (if ok then RT_EOK else - RT_ERROR, bs, d))
        | Rd _ n \<Rightarrow> (case gives D n d of (ws, d) \<Rightarrow> (RT_EOK, ws, d)))"

fun messages_at :: "'d device \<Rightarrow> nat \<Rightarrow> i2c_msg list \<Rightarrow> 'd \<Rightarrow> int \<times> u8 list list \<times> 'd" where
  "messages_at D i [] d = (int i, [], d)"
| "messages_at D i (m # ms) d =
     (case message_at D m d of (r, buf, d) \<Rightarrow>
        if r \<noteq> RT_EOK then (r, buf # map buf_of ms, d)
        else case messages_at D (i + 1) ms d of (r, bufs, d) \<Rightarrow> (r, buf # bufs, d))"

text \<open>A message without a start continues a write, and a read asks for a byte at least: a
  slave that has been addressed to read already holds the line.\<close>

fun well_formed :: "bool \<Rightarrow> i2c_msg list \<Rightarrow> bool" where
  "well_formed wrote [] \<longleftrightarrow> True"
| "well_formed wrote (Wr a ns bs # ms) \<longleftrightarrow> (ns \<longrightarrow> wrote) \<and> well_formed True ms"
| "well_formed wrote (Rd a n # ms) \<longleftrightarrow> 0 < n \<and> well_formed False ms"

fun c_msg :: "i2c_msg \<Rightarrow> rt_i2c_msg" where
  "c_msg (Wr a ns bs) =
     \<lparr>maddr = ucast a, mflags = RT_I2C_WR OR (if ns then RT_I2C_NO_START else 0), mbuf = bs\<rparr>"
| "c_msg (Rd a n) = \<lparr>maddr = ucast a, mflags = RT_I2C_RD, mbuf = replicate n 0\<rparr>"

lemma mbuf_c_msg [simp]: "mbuf (c_msg m) = buf_of m"
  by (cases m) (simp_all add: buf_of_def)

lemma flags_c_msg [simp]:
  "has_flag (c_msg (Wr a ns bs)) RT_I2C_NO_START = ns"
  "\<not> has_flag (c_msg (Rd a n)) RT_I2C_NO_START"
  "\<not> has_flag (c_msg (Wr a ns bs)) RT_I2C_RD"
  "has_flag (c_msg (Rd a n)) RT_I2C_RD"
  "\<not> has_flag (c_msg m) RT_I2C_IGNORE_NACK"
  "\<not> has_flag (c_msg m) RT_I2C_NO_READ_ACK"
  "\<not> has_flag (c_msg m) RT_I2C_NO_STOP"
  "\<not> has_flag (c_msg m) RT_I2C_ADDR_10BIT"
  by (cases m; simp add: has_flag_def RT_I2C_WR_def RT_I2C_RD_def RT_I2C_NO_START_def RT_I2C_IGNORE_NACK_def
      RT_I2C_NO_READ_ACK_def RT_I2C_NO_STOP_def RT_I2C_ADDR_10BIT_def)+

declare c_msg.simps [simp del]

lemma addr_c_msg:
  "ucast (push_bit 1 (maddr (c_msg (Wr a ns bs)))) = wr_byte a"
  "ucast (push_bit 1 (maddr (c_msg (Rd a n)))) OR 1 = rd_byte a"
  unfolding wr_byte_def rd_byte_def c_msg.simps rt_i2c_msg.select_convs
  by (rule bit_word_eqI; simp only: bit_simps; auto)+

lemma read_address [simp]: "bit (rd_byte a) 0" "\<not> bit (wr_byte a) 0"
  unfolding rd_byte_def wr_byte_def by (simp_all only: bit_simps) simp_all

lemma send_loop_wire:
  "send_loop k (wire_ops D) False bs n (hearing d) =
     (case takes D bs d of (ok, d) \<Rightarrow>
        Some (if ok then int (n + length bs) else 0, if ok then hearing d else deaf d))"
  by (induction bs arbitrary: n d) (simp_all add: byte_wire split: prod.splits)

lemma recv_loop_wire:
  "recv_loop k (wire_ops D) False (b # old) new (telling v w d) =
     (case gives D (length old) d of (ws, d) \<Rightarrow>
        Some (int (length new + Suc (length old)), rev new @ w # ws, deaf d))"
proof (induction old arbitrary: b new v w d)
  case (Cons b' old)
  then show ?case by (simp add: read_wire ack_wire RT_EOK_def split: prod.splits)
qed (simp add: read_wire ack_wire RT_EOK_def)

declare send_loop.simps [simp del] recv_loop.simps [simp del]

lemma send_address_wire [simp]:
  "i2c_send_address k (wire_ops D) w 0 (called d) = i2c_writeb k (wire_ops D) w (called d)"
  by (simp add: i2c_send_address_def address_wire split: prod.splits)


lemma bit_send_address_wire:
  "i2c_bit_send_address k (wire_ops D) 0 (c_msg m) (called d) = do {
     (ret, b) \<leftarrow> i2c_writeb k (wire_ops D) (case m of Wr a _ _ \<Rightarrow> wr_byte a | Rd a _ \<Rightarrow> rd_byte a) (called d);
     Some (if ret \<noteq> 1 then - RT_EIO else RT_EOK, b) }"
proof (cases m)
  case (Wr a ns bs)
  show ?thesis
    unfolding i2c_bit_send_address_def Wr Let_def flags_c_msg addr_c_msg
    by (simp add: address_wire split: prod.splits)
next
  case (Rd a n)
  show ?thesis
    unfolding i2c_bit_send_address_def Rd Let_def flags_c_msg if_True addr_c_msg
    by (simp add: address_wire split: prod.splits)
qed

text \<open>The bus before message \<open>i\<close>.\<close>

definition between :: "nat \<Rightarrow> bool \<Rightarrow> 'd \<Rightarrow> 'd bus" where
  "between i wrote d = (if i = 0 then free_bus d else if wrote then hearing d else deaf d)"

lemma call_wire:
  "(if i \<noteq> 0 then i2c_restart k (wire_ops D) (between i wrote d)
    else Some (i2c_start (wire_ops D) (between i wrote d))) = Some (called d)"
  by (simp add: between_def)

lemma xfer_msg_wire:
  assumes "well_formed (i \<noteq> 0 \<and> wrote) [m]"
  shows "xfer_msg k (wire_ops D) 0 i (c_msg m) (between i wrote d) =
    (case message_at D m d of (r, buf, d) \<Rightarrow>
       if r \<noteq> RT_EOK then Some (Inl r, buf, deaf d)
       else Some (Inr (), buf, (case m of Wr _ _ _ \<Rightarrow> hearing d | Rd _ _ \<Rightarrow> deaf d)))"
proof (cases m)
  case (Wr a ns bs)
  show ?thesis
  proof (cases ns)
    case True
    with assms Wr show ?thesis
      by (simp add: xfer_msg_def between_def message_at_def message_calls_def i2c_send_bytes_def
          send_loop_wire buf_of_def RT_EOK_def RT_ERROR_def split: prod.splits)
  next
    case False
    with Wr show ?thesis
      unfolding xfer_msg_def call_wire
      by (simp add: bit_send_address_wire address_wire message_at_def message_calls_def i2c_send_bytes_def
          send_loop_wire buf_of_def RT_EOK_def RT_ERROR_def RT_EIO_def split: prod.splits)
  qed
next
  case (Rd a n)
  with assms obtain n' where n: "n = Suc n'" by (cases n) auto
  show ?thesis
    unfolding xfer_msg_def call_wire Rd
    by (simp add: bit_send_address_wire address_wire message_at_def message_calls_def i2c_recv_bytes_def
        recv_loop_wire n buf_of_def RT_EOK_def RT_EIO_def split: prod.splits)
qed


lemma out_wire [simp]:
  "xfer_out k (wire_ops D) (c_msg m) r (hearing d) = Some (r, free_bus d)"
  "xfer_out k (wire_ops D) (c_msg m) r (deaf d) = Some (r, free_bus d)"
  by (simp_all add: xfer_out_def)

lemma map_mbuf_c_msg [simp]: "map mbuf (map c_msg ms) = map buf_of ms"
  by simp

lemma xfer_loop_wire:
  "well_formed (i \<noteq> 0 \<and> wrote) ms \<Longrightarrow> ms \<noteq> [] \<Longrightarrow>
   xfer_loop k (wire_ops D) 0 i (map c_msg ms) (between i wrote d) =
     (case messages_at D i ms d of (r, bufs, d) \<Rightarrow> Some (r, bufs, free_bus d))"
proof (induction ms arbitrary: i wrote d)
  case (Cons m ms)
  have wf: "well_formed (i \<noteq> 0 \<and> wrote) [m]" using Cons.prems by (cases m) auto
  let ?w = "case m of Wr _ _ _ \<Rightarrow> True | Rd _ _ \<Rightarrow> False"
  have wf': "well_formed ?w ms" using Cons.prems by (cases m) auto
  obtain r buf d' where m: "message_at D m d = (r, buf, d')" by (cases "message_at D m d") auto
  note msg = xfer_msg_wire[OF wf, of k D d, unfolded m, simplified]
  show ?case
  proof (cases "r = RT_EOK")
    case True
    let ?b = "case m of Wr _ _ _ \<Rightarrow> hearing d' | Rd _ _ \<Rightarrow> deaf d'"
    have b: "?b = between (i + 1) ?w d'" by (cases m) (simp_all add: between_def)
    have out: "xfer_out k (wire_ops D) (c_msg m) r ?b = Some (r, free_bus d')" for r
      by (cases m) simp_all
    show ?thesis
    proof (cases "ms = []")
      case True
      with msg \<open>r = RT_EOK\<close> m out show ?thesis by (simp split: i2c_msg.splits)
    next
      case False
      have "well_formed (i + 1 \<noteq> 0 \<and> ?w) ms" using wf' by simp
      from Cons.IH[OF this False, of d'] msg \<open>r = RT_EOK\<close> m False b show ?thesis
        by (simp split: prod.splits)
    qed
  next
    case False
    with msg m show ?thesis by (simp add: comp_def)
  qed
qed simp

lemma transfer_wire:
  assumes "well_formed False ms"
  shows "i2c_bit_xfer k (wire_ops D) 0 (map c_msg ms) (free_bus d) =
    (case messages_at D 0 ms d of (r, bufs, d) \<Rightarrow> Some (r, bufs, free_bus d))"
proof (cases "ms = []")
  case False
  with xfer_loop_wire[of 0 False ms k D d] assms show ?thesis
    by (simp add: i2c_bit_xfer_def between_def)
qed (simp add: i2c_bit_xfer_def)


section \<open>The EEPROM on the wires\<close>

text \<open>The AT24C02 byte by byte: the flag tells that the next byte is the word address.\<close>

definition seven_bits :: "u8 \<Rightarrow> u8" where "seven_bits w = drop_bit 1 w"

definition at24c02_device :: "(chip \<times> bool) device" where
  "at24c02_device =
     \<lparr>addressed = \<lambda>w (c, _). (seven_bits w = AT24CXX_ADDR, c, True),
      take_byte = \<lambda>w (c, new). (True, if new then c\<lparr>ptr := w\<rparr> else chip_store [w] c, False),
      give_byte = \<lambda>(c, new). (cells c (ptr c), c\<lparr>ptr := ptr c + 1\<rparr>, new)\<rparr>"

text \<open>What the EEPROM driver sees of \<open>rt_i2c_transfer\<close> with the chip on the wires.  The bytes received are those of the read messages.\<close>

definition received :: "i2c_msg list \<Rightarrow> u8 list list \<Rightarrow> u8 list" where
  "received ms bufs =
     concat (map (\<lambda>(m, buf). case m of Wr _ _ _ \<Rightarrow> [] | Rd _ _ \<Rightarrow> buf) (zip ms bufs))"

definition wire_xfer :: "(chip \<times> bool) bus kclock \<Rightarrow> chip xfer" where
  "wire_xfer k c ms =
     (case rt_i2c_transfer k (wire_ops at24c02_device) 0 (map c_msg ms) (free_bus (c, False)) of
        Some (ret, bufs, b) \<Rightarrow> (ret, if ret < 0 then [] else received ms bufs, fst (dev b))
      | None \<Rightarrow> (- RT_EIO, [], c))"

lemma address_of_byte [simp]:
  assumes "\<not> bit a 7"
  shows "seven_bits (wr_byte a) = AT24CXX_ADDR \<longleftrightarrow> a = AT24CXX_ADDR"
    and "seven_bits (rd_byte a) = AT24CXX_ADDR \<longleftrightarrow> a = AT24CXX_ADDR"
proof -
  have n: "n < 7" if "bit a n" "n < 8" for n using that assms by (cases "n = 7") auto
  have "seven_bits (wr_byte a) = a" "seven_bits (rd_byte a) = a"
    unfolding seven_bits_def wr_byte_def rd_byte_def by (rule bit_word_eqI; simp only: bit_simps comp_apply; use n in auto)+
  then show "seven_bits (wr_byte a) = AT24CXX_ADDR \<longleftrightarrow> a = AT24CXX_ADDR"
    "seven_bits (rd_byte a) = AT24CXX_ADDR \<longleftrightarrow> a = AT24CXX_ADDR" by simp_all
qed

lemma at24c02_device_simps [simp]:
  "addressed at24c02_device w (c, f) = (seven_bits w = AT24CXX_ADDR, c, True)"
  "take_byte at24c02_device w (c, f) = (True, if f then c\<lparr>ptr := w\<rparr> else chip_store [w] c, False)"
  "give_byte at24c02_device (c, f) = (cells c (ptr c), c\<lparr>ptr := ptr c + 1\<rparr>, f)"
  by (simp_all add: at24c02_device_def)

lemma takes_store: "takes at24c02_device bs (c, False) = (True, chip_store bs c, False)"
  by (induction bs arbitrary: c) simp_all

lemma takes_write:
  "takes at24c02_device bs (c, True) =
     (True, (case bs of [] \<Rightarrow> (c, True) | w # bs \<Rightarrow> (chip_store bs (c\<lparr>ptr := w\<rparr>), False)))"
  by (cases bs) (simp_all add: takes_store)

lemma gives_read:
  "gives at24c02_device n (c, f) =
     (map (\<lambda>i. cells c (ptr c + of_nat i)) [0..<n], c\<lparr>ptr := ptr c + of_nat n\<rparr>, f)"
proof (induction n arbitrary: c)
  case (Suc n)
  have "map (\<lambda>i. cells c (ptr c + of_nat i)) [0..<Suc n] =
      cells c (ptr c) # map (\<lambda>i. cells c (ptr c + 1 + of_nat i)) [0..<n]"
    by (simp add: map_upt_Suc ac_simps del: upt_Suc)
  with Suc[of "c\<lparr>ptr := ptr c + 1\<rparr>"] show ?case
    by (simp add: ac_simps del: upt_Suc)
qed simp


definition driver_messages :: "i2c_msg list \<Rightarrow> bool" where
  "driver_messages ms \<longleftrightarrow>
     length ms \<in> {1, 2} \<and> well_formed False ms \<and>
     (\<forall>m \<in> set ms. case m of Wr a _ _ \<Rightarrow> \<not> bit a 7 | Rd a _ \<Rightarrow> \<not> bit a 7) \<and>
     (case ms of [Wr a _ bs, Wr a' True _] \<Rightarrow> a' = a \<and> bs \<noteq> [] | [Rd _ _, _] \<Rightarrow> False | _ \<Rightarrow> True)"

lemma dev_free_bus [simp]: "dev (free_bus d) = d"
  by (simp add: free_bus_def)

lemma wire_xfer_messages:
  "well_formed False ms \<Longrightarrow>
   wire_xfer k c ms =
     (case messages_at at24c02_device 0 ms (c, False) of
        (ret, bufs, d) \<Rightarrow> (ret, if ret < 0 then [] else received ms bufs, fst d))"
  by (cases "messages_at at24c02_device 0 ms (c, False)") (simp add: wire_xfer_def rt_i2c_transfer_def transfer_wire)

lemmas message_defs = message_at_def message_calls_def buf_of_def received_def RT_EOK_def RT_EIO_def

lemma wire_xfer_one:
  assumes "driver_messages [m]"
  shows "wire_xfer k c [m] = chip_xfer c [m]"
  using assms
  by (cases m) (auto simp: wire_xfer_messages driver_messages_def message_defs takes_write gives_read
      takes_store split: list.splits)

lemma wire_xfer_two:
  assumes "driver_messages [m, n]"
  shows "wire_xfer k c [m, n] = chip_xfer c [m, n]"
  using assms
  by (cases m; cases n) (auto simp: wire_xfer_messages driver_messages_def message_defs takes_write gives_read
      takes_store split: list.splits bool.splits)


lemma wire_xfer_driver:
  assumes "driver_messages ms"
  shows "wire_xfer k c ms = chip_xfer c ms"
proof -
  from assms obtain m n where "ms = [m] \<or> ms = [m, n]"
    by (auto simp: driver_messages_def length_Suc_conv eval_nat_numeral)
  with assms show ?thesis using wire_xfer_one wire_xfer_two by blast
qed

lemma eeprom_messages:
  "bs \<noteq> [] \<Longrightarrow> driver_messages [Wr (AT24CXX_ADDR OR 0x50) False bs]"
  "bs \<noteq> [] \<Longrightarrow> driver_messages [Wr (AT24CXX_ADDR OR 0x50) False bs, Wr (AT24CXX_ADDR OR 0x50) True bs']"
  "0 < n \<Longrightarrow> driver_messages [Rd (AT24CXX_ADDR OR 0x50) n]"
  "0 < n \<Longrightarrow> driver_messages [Wr (AT24CXX_ADDR OR 0x50) False bs, Rd (AT24CXX_ADDR OR 0x50) n]"
  by (simp_all add: driver_messages_def AT24CXX_ADDR_def bit_numeral_rec)

interpretation wired: eeprom_chip "wire_xfer k" chip_mem "0x50" for k
proof
  show "length (chip_mem d) = 256" for d by simp
  show "\<exists>d'. wire_xfer k d [Wr (AT24CXX_ADDR OR 0x50) False [w], Wr (AT24CXX_ADDR OR 0x50) True bs] = (2, [], d') \<and>
      chip_mem d' = blit (chip_mem d) (unat w) bs"
    if "bs \<noteq> []" "unat w mod 8 + length bs \<le> 8" for bs w d
    unfolding wire_xfer_driver[OF eeprom_messages(2)[OF list.distinct(2)]]
    by (rule at24c02.page_write[OF that])
  show "\<exists>d'. wire_xfer k d [Wr (AT24CXX_ADDR OR 0x50) False [w], Rd (AT24CXX_ADDR OR 0x50) n] =
      (2, take n (drop (unat w) (chip_mem d)), d') \<and> chip_mem d' = chip_mem d"
    if "0 < n" "unat w + n \<le> 256" for w n d
    unfolding wire_xfer_driver[OF eeprom_messages(4)[OF that(1)]]
    by (rule at24c02.seq_read[OF that])
qed


section \<open>A transfer returns\<close>

definition clock_runs :: "'s kclock \<Rightarrow> bool" where
  "clock_runs k \<longleftrightarrow> (\<forall>n s. n < 0x40000000 \<longrightarrow>
     n \<le> tick_get k (thread_delay k n s) - tick_get k s \<and>
     tick_get k (thread_delay k n s) - tick_get k s \<le> 0x40000000)"

text \<open>Results that are not \<open>None\<close>, and how the parts of a program give them.\<close>

definition returns :: "'a option \<Rightarrow> bool" where "returns m \<longleftrightarrow> m \<noteq> None"

named_theorems returns_rules "a program returns when its parts do"

lemma returns_Some [returns_rules]: "returns (Some x)"
  by (simp add: returns_def)

lemma returns_bind [returns_rules]: "returns m \<Longrightarrow> (\<And>x. returns (f x)) \<Longrightarrow> returns (m \<bind> f)"
  by (auto simp: returns_def)

lemma returns_if [returns_rules]:
  "(c \<Longrightarrow> returns m) \<Longrightarrow> (\<not> c \<Longrightarrow> returns n) \<Longrightarrow> returns (if c then m else n)"
  by simp

lemma returns_pair [returns_rules]: "(\<And>x y. returns (f x y)) \<Longrightarrow> returns (case p of (x, y) \<Rightarrow> f x y)"
  by (cases p) simp

lemma returns_let [returns_rules]: "(\<And>x. returns (f x)) \<Longrightarrow> returns (Let y f)"
  by simp

lemma returns_option [returns_rules]:
  "returns m \<Longrightarrow> (\<And>x. returns (f x)) \<Longrightarrow> returns (case p of None \<Rightarrow> m | Some x \<Rightarrow> f x)"
  by (cases p) simp_all

lemma returns_sum [returns_rules]:
  "(\<And>x. returns (f x)) \<Longrightarrow> (\<And>x. returns (g x)) \<Longrightarrow> returns (case p of Inl x \<Rightarrow> f x | Inr x \<Rightarrow> g x)"
  by (cases p) simp_all

lemma scl_wait_returns:
  assumes "clock_runs k"
  shows "returns (scl_wait k 100 scl start s)"
proof -
  define step where "step = (\<lambda>s. thread_delay k 50 s)"
  define el where "el = (\<lambda>s. tick_get k s - start)"
  have below: "(50 :: u32) < 0x40000000" by simp
  have d: "50 \<le> el (step s) - el s \<and> el (step s) - el s \<le> 0x40000000" for s
    using assms[unfolded clock_runs_def, rule_format, OF below, of s] unfolding step_def el_def by (simp add: algebra_simps)
  have n: "unat (el s) + 50 \<le> unat (el (step s)) \<and> unat (el (step s)) \<le> unat (el s) + 0x40000000"
    if "unat (el s) \<le> 0x80000000" for s
  proof -
    define x where "x = el (step s) - el s"
    have "50 \<le> unat x" "unat x \<le> 0x40000000" using d[of s] unfolding x_def[symmetric] by (simp_all add: word_le_nat_alt)
    moreover have "unat (el (step s)) = unat (el s) + unat x"
    proof -
      have "el (step s) = el s + x" by (simp add: x_def)
      then show ?thesis using \<open>unat x \<le> 0x40000000\<close> that by (simp add: unat_word_ariths)
    qed
    ultimately show ?thesis by simp
  qed
  have w: "scl_wait k 100 scl start s \<noteq> None"
    if "100 < unat (el s) \<or> scl_wait k 100 scl start (step s) \<noteq> None" for s
    using that unfolding step_def el_def
    by (subst scl_wait.simps) (auto simp: word_less_nat_alt)
  show ?thesis unfolding returns_def
  proof (rule ccontr)
    assume no: "\<not> scl_wait k 100 scl start s \<noteq> None"
    have "unat (el s) \<le> 100" "unat (el (step s)) \<le> 100" "unat (el (step (step s))) \<le> 100"
      "unat (el (step (step (step s)))) \<le> 100"
      using no w[of s] w[of "step s"] w[of "step (step s)"] w[of "step (step (step s))"] by linarith+
    then show False using n[of s] n[of "step s"] n[of "step (step s)"] by simp
  qed
qed

lemma SCL_H_returns:
  "clock_runs k \<Longrightarrow> bit_timeout ops = 100 \<Longrightarrow> returns (SCL_H k ops s)"
  by (auto simp: SCL_H_def Let_def intro!: returns_rules scl_wait_returns)

locale running_clock =
  fixes k :: "'s kclock" and ops :: "'s bit_ops"
  assumes SCL_H_ends: "returns (SCL_H k ops s)"
begin

lemma i2c_restart_returns: "returns (i2c_restart k ops s)"
  unfolding i2c_restart_def by (intro returns_rules SCL_H_ends)

lemma i2c_stop_returns: "returns (i2c_stop k ops s)"
  unfolding i2c_stop_def by (intro returns_rules SCL_H_ends)

lemma writeb_bits_returns: "returns (writeb_bits k ops w n s)"
  by (induction n arbitrary: s) (simp_all only: writeb_bits.simps, (intro returns_rules SCL_H_ends; blast)+)

lemma i2c_writeb_returns: "returns (i2c_writeb k ops w s)"
  unfolding i2c_writeb_def i2c_waitack_def by (intro returns_rules SCL_H_ends writeb_bits_returns)

lemma readb_bits_returns: "returns (readb_bits k ops w n s)"
  by (induction n arbitrary: w s) (simp_all only: readb_bits.simps, (intro returns_rules SCL_H_ends; blast)+)

lemma i2c_readb_returns: "returns (i2c_readb k ops s)"
  by (simp add: i2c_readb_def readb_bits_returns)

lemma ack_returns: "returns (i2c_send_ack_or_nack k ops ack s)"
  unfolding i2c_send_ack_or_nack_def by (intro returns_rules SCL_H_ends)

lemma send_loop_returns: "returns (send_loop k ops ig bs n s)"
  by (induction bs arbitrary: n s) (simp_all only: send_loop.simps, (intro returns_rules i2c_writeb_returns; blast)+)

lemma recv_loop_returns: "returns (recv_loop k ops na old new s)"
  by (induction old arbitrary: new s)
    (simp_all only: recv_loop.simps, (intro returns_rules i2c_readb_returns ack_returns; blast)+)

lemma send_address_loop_returns: "returns (send_address_loop k ops w n s)"
proof (induction n arbitrary: s)
  case 0
  show ?case unfolding send_address_loop.simps[of _ _ _ 0] nat.case by (intro returns_rules i2c_writeb_returns)
next
  case (Suc n)
  show ?case unfolding send_address_loop.simps[of _ _ _ "Suc n"] nat.case
    by (intro returns_rules i2c_writeb_returns i2c_stop_returns Suc)
qed

lemma i2c_send_address_returns: "returns (i2c_send_address k ops w r s)"
  unfolding i2c_send_address_def by (intro returns_rules send_address_loop_returns)

lemma bit_send_address_returns: "returns (i2c_bit_send_address k ops r m s)"
  unfolding i2c_bit_send_address_def
  by (intro returns_rules i2c_writeb_returns i2c_send_address_returns i2c_restart_returns)

lemma xfer_msg_returns: "returns (xfer_msg k ops r i m s)"
  unfolding xfer_msg_def i2c_recv_bytes_def i2c_send_bytes_def
  by (intro returns_rules recv_loop_returns send_loop_returns bit_send_address_returns i2c_restart_returns)

lemma xfer_out_returns: "returns (xfer_out k ops m ret s)"
  unfolding xfer_out_def by (intro returns_rules i2c_stop_returns)

lemma xfer_loop_returns: "returns (xfer_loop k ops r i ms s)"
  by (induction ms arbitrary: i s)
    (simp_all only: xfer_loop.simps, (intro returns_rules xfer_msg_returns xfer_out_returns; blast)+)

end


interpretation wire_clock: running_clock k "wire_ops D" for k D
  by unfold_locales (simp add: returns_rules)

section \<open>After a reset in the middle of a read\<close>

text \<open>The slave holds the data line low with the clock high; \<open>bs\<close> are the bits it has left.\<close>

definition interrupted :: "bool list \<Rightarrow> 'd \<Rightarrow> 'd bus" where
  "interrupted bs d =
     \<lparr>m_sda = True, m_scl = True, d_sda = False, phase = Tell (False # bs), dev = d\<rparr>"

lemma wire_pins_simps [simp]:
  "pin_mode_od (wire_pins D) p b = b"
  "pin_write (wire_pins D) 24 v b = wire_scl D v b"
  "pin_write (wire_pins D) 25 v b = wire_sda v b"
  "pin_read (wire_pins D) 25 b = sda_line b"
  "pause (wire_pins D) n b = b"
  "scl_pin soft_i2c_config = 24" "sda_pin soft_i2c_config = 25"
  by (simp_all add: wire_pins_def soft_i2c_config_def)

lemma unlock_deaf: "unlock_clocks (wire_pins D) soft_i2c_config n (deaf d) = deaf d"
  by (induction n) (simp_all add: deaf_def bus_steps)

lemma unlock_asked:
  "unlock_clocks (wire_pins D) soft_i2c_config (Suc n) (asked d) = deaf d"
  using unlock_deaf[of D n d] by (simp add: asked_def deaf_def bus_steps)

lemma unlock_told:
  "bs \<noteq> [] \<Longrightarrow> length bs < n \<Longrightarrow>
   unlock_clocks (wire_pins D) soft_i2c_config n
     \<lparr>m_sda = True, m_scl = c, d_sda = hd bs, phase = Tell bs, dev = d\<rparr> = deaf d"
proof (induction bs arbitrary: n c)
  case (Cons b bs)
  then obtain n' where n: "n = Suc n'" "length bs < n'" by (cases n) auto
  show ?case
  proof (cases bs)
    case Nil
    with n obtain n'' where "n' = Suc n''" by (cases n') auto
    with Nil n unlock_asked[of D n'' d] show ?thesis by (simp add: bus_steps asked_def)
  next
    case (Cons b' bs')
    with Cons.IH[of n' False] n show ?thesis by (simp add: bus_steps)
  qed
qed simp

lemma init_interrupted:
  assumes "length bs < 8"
  shows "snd (rt_hw_i2c_init (wire_pins D) soft_i2c_config (interrupted bs d)) = deaf d"
proof -
  have "gd32_i2c_gpio_init (wire_pins D) soft_i2c_config (interrupted bs d) = interrupted bs d"
    by (simp add: gd32_i2c_gpio_init_def interrupted_def bus_steps)
  moreover have "\<not> sda_line (interrupted bs d)" by (simp add: interrupted_def sda_line_def)
  moreover have "unlock_clocks (wire_pins D) soft_i2c_config 9 (interrupted bs d) = deaf d"
    using unlock_told[of "False # bs" 9 D True d] assms by (simp add: interrupted_def)
  ultimately show ?thesis by (simp add: rt_hw_i2c_init_def gd32_i2c_bus_unlock_def Let_def)
qed

text \<open>With the clock low the start of the next transfer is none.\<close>

lemma byte_unstarted: "i2c_writeb k (wire_ops D) w (i2c_start (wire_ops D) (deaf d)) = Some (0, deaf d)"
  using writeb_bits_deaf[of k D w 8 False False d]
  by (simp add: i2c_start_def i2c_writeb_def i2c_waitack_def deaf_def RT_EOK_def bus_steps)

lemma address_unstarted:
  "i2c_bit_send_address k (wire_ops D) 0 (c_msg m) (i2c_start (wire_ops D) (deaf d)) =
     Some (- RT_EIO, deaf d)"
proof -
  have "i2c_send_address k (wire_ops D) w 0 (i2c_start (wire_ops D) (deaf d)) = Some (0, deaf d)" for w
    by (simp add: i2c_send_address_def byte_unstarted)
  then show ?thesis unfolding i2c_bit_send_address_def Let_def flags_c_msg by simp
qed

section \<open>Properties\<close>

text \<open>C24: whatever device is on the bus, a transfer through the two lines is the exchange of
  bytes with it: the address and the bytes of each message, most significant bit first, up
  to the first that is not acknowledged, then a stop; the bytes read are those the device
  gave, and the bus is free again.\<close>

theorem transfer_reaches_device:
  assumes "well_formed False ms"
  shows "i2c_bit_xfer k (wire_ops D) 0 (map c_msg ms) (free_bus d) =
    (case messages_at D 0 ms d of (r, bufs, d) \<Rightarrow> Some (r, bufs, free_bus d))"
  using assms by (rule transfer_wire)

lemma chip_bytes: "seven_bits (wr_byte 0x50) = AT24CXX_ADDR" "seven_bits (rd_byte 0x50) = AT24CXX_ADDR"
proof -
  have "\<not> bit (0x50 :: u8) 7" by (simp add: bit_numeral_rec)
  note a = address_of_byte[OF this]
  show "seven_bits (wr_byte 0x50) = AT24CXX_ADDR" unfolding a by (simp add: AT24CXX_ADDR_def)
  show "seven_bits (rd_byte 0x50) = AT24CXX_ADDR" unfolding a by (simp add: AT24CXX_ADDR_def)
qed

text \<open>A clock for the examples: no device on these wires makes the master wait.\<close>

definition still :: "'d bus kclock" where
  "still = \<lparr>tick_get = \<lambda>_. 0, thread_delay = \<lambda>_ b. b\<rparr>"

lemma transfer_wire_example:
  "i2c_bit_xfer still (wire_ops at24c02_device) 0
     (map c_msg [Wr 0x50 False [7], Rd 0x50 2]) (free_bus (\<lparr>cells = \<lambda>w. w + 1, ptr = 0\<rparr>, False)) =
   Some (2, [[7], [8, 9]], free_bus (\<lparr>cells = \<lambda>w. w + 1, ptr = 9\<rparr>, True))"
  using transfer_wire[of "[Wr 0x50 False [7], Rd 0x50 2]" still at24c02_device
      "(\<lparr>cells = \<lambda>w. w + 1, ptr = 0\<rparr>, False)"]
  by (simp add: message_at_def message_calls_def buf_of_def RT_EOK_def RT_EIO_def chip_bytes numeral_2_eq_2)

lemma transfer_reaches_device_witness:
  "i2c_bit_xfer still (wire_ops at24c02_device) 0
     (map c_msg [Wr 0x50 False [7], Rd 0x50 2]) (free_bus (\<lparr>cells = \<lambda>w. w + 1, ptr = 0\<rparr>, False)) =
   Some (2, [[7], [8, 9]], free_bus (\<lparr>cells = \<lambda>w. w + 1, ptr = 9\<rparr>, True))"
  using transfer_reaches_device[of "[Wr 0x50 False [7], Rd 0x50 2]" still at24c02_device
      "(\<lparr>cells = \<lambda>w. w + 1, ptr = 0\<rparr>, False)"]
  by (simp add: message_at_def message_calls_def buf_of_def RT_EOK_def RT_EIO_def chip_bytes
      numeral_2_eq_2)



text \<open>C26: a transfer on the board's pins returns, whatever the lines do: a clock line that
  stays low ends it after the time-out.  The clock of the kernel has to advance, at least by the
  delay asked for.\<close>

theorem transfer_returns:
  assumes "clock_runs k"
  shows "i2c_bit_xfer k (gd32_bit_ops_default P cfg) retries ms s \<noteq> None"
proof -
  have "bit_timeout (gd32_bit_ops_default P cfg) = 100" by (simp add: gd32_bit_ops_default_def)
  then have "running_clock k (gd32_bit_ops_default P cfg)"
    using assms by unfold_locales (rule SCL_H_returns)
  from running_clock.xfer_loop_returns[OF this] show ?thesis
    by (simp add: i2c_bit_xfer_def returns_def)
qed

lemma recv_loop_length:
  "recv_loop k ops na old new s = Some (r, buf, s') \<Longrightarrow> length buf = length new + length old"
  by (induction old arbitrary: new s)
    (auto simp: recv_loop.simps Let_def Option.bind_eq_Some_conv split: if_splits)

lemma xfer_msg_length: "xfer_msg k ops br i m s = Some (r, buf, s') \<Longrightarrow> length buf = length (mbuf m)"
  by (auto simp: xfer_msg_def i2c_recv_bytes_def Option.bind_eq_Some_conv dest!: recv_loop_length
      split: if_splits)

lemma xfer_loop_length:
  "xfer_loop k ops br i ms s = Some (r, bufs, s') \<Longrightarrow> map length bufs = map (length \<circ> mbuf) ms"
proof (induction ms arbitrary: i s bufs)
  case (Cons m ms)
  then obtain x buf b where m: "xfer_msg k ops br i m s = Some (x, buf, b)"
    by (auto simp: Option.bind_eq_Some_conv)
  show ?case
  proof (cases x)
    case Inl
    with Cons.prems m show ?thesis by (auto simp: Option.bind_eq_Some_conv dest!: xfer_msg_length)
  next
    case Inr
    with Cons.prems m Cons.IH show ?thesis
      by (auto simp: Option.bind_eq_Some_conv dest!: xfer_msg_length split: if_splits)
  qed
qed simp



text \<open>A world of ticks only, where the clock line is held low for ever.\<close>

definition stuck_pins :: "u32 pins" where
  "stuck_pins = \<lparr>pin_mode_od = \<lambda>_ t. t, pin_write = \<lambda>_ _ t. t, pin_read = \<lambda>_ _. False, pause = \<lambda>_ t. t\<rparr>"

definition tick_clock :: "u32 kclock" where
  "tick_clock = \<lparr>tick_get = \<lambda>t. t, thread_delay = \<lambda>n t. t + n\<rparr>"


lemma transfer_returns_witness:
  "i2c_bit_xfer tick_clock (gd32_bit_ops_default stuck_pins soft_i2c_config) 0
     [c_msg (Wr 0x50 False [1])] 0 \<noteq> None"
  by (rule transfer_returns) (auto simp: clock_runs_def tick_clock_def)

text \<open>A reset of the processor in the middle of a read leaves the chip holding the data
  line.  The start-up frees it with nine clocks, but leaves the clock low: the first
  transfer then has no start condition, no device hears it, and it fails.\<close>

theorem unlock_loses_next_transfer:
  assumes "length bs < 8" "well_formed False (m # ms)"
  shows "i2c_bit_xfer k (wire_ops D) 0 (map c_msg (m # ms))
      (snd (rt_hw_i2c_init (wire_pins D) soft_i2c_config (interrupted bs d))) =
    Some (- RT_EIO, map buf_of (m # ms), free_bus d)"
proof -
  have "\<not> has_flag (c_msg m) RT_I2C_NO_START" using assms(2) by (cases m) auto
  then have "xfer_msg k (wire_ops D) 0 0 (c_msg m) (deaf d) = Some (Inl (- RT_EIO), buf_of m, deaf d)"
    by (simp add: xfer_msg_def address_unstarted RT_EIO_def RT_EOK_def)
  then show ?thesis
    by (simp add: init_interrupted[OF assms(1)] i2c_bit_xfer_def comp_def)
qed

lemma unlock_loses_next_transfer_witness:
  "i2c_bit_xfer still (wire_ops at24c02_device) 0 (map c_msg [Wr 0x50 False [0], Rd 0x50 2])
      (snd (rt_hw_i2c_init (wire_pins at24c02_device) soft_i2c_config
        (interrupted [True, False, True] (\<lparr>cells = \<lambda>_. 0xFF, ptr = 0\<rparr>, False)))) =
    Some (- RT_EIO, [[0], [0, 0]], free_bus (\<lparr>cells = \<lambda>_. 0xFF, ptr = 0\<rparr>, False))"
  using unlock_loses_next_transfer[of "[True, False, True]" "Wr 0x50 False [0]" "[Rd 0x50 2]" still at24c02_device
      "(\<lparr>cells = \<lambda>_. 0xFF, ptr = 0\<rparr>, False)"]
  by (simp add: buf_of_def numeral_2_eq_2)

end
