(* ===== verification/HwTimer.thy ===== *)
theory HwTimer
  imports Scr RtDef
begin

text \<open>
  rt-thread/components/drivers/hwtimer/hwtimer.c, the hardware timers under the thyristor
  trigger, with their driver libraries/gd32_drivers/drv_hwtimer.c.  A timer device is its
  record and the state \<open>'h\<close> of the peripheral, which the functions of \<open>rt_hwtimer_ops\<close> change; a
  null pointer is \<open>None\<close>.  Other results \<open>None\<close> are undefined behaviour: a float outside the range
  of an integer, an integer that overflows.  The lemmas bound the rounding errors of the
  time-out computed in single precision and follow a timer until it fires.
\<close>

section \<open>Devices\<close>

record hwtimer_info =
  maxfreq :: int
  minfreq :: int
  maxcnt :: u32
  cntmode :: u8

definition HWTIMER_CNTMODE_UP :: u8 where "HWTIMER_CNTMODE_UP = 1"
definition HWTIMER_CNTMODE_DW :: u8 where "HWTIMER_CNTMODE_DW = 2"
definition HWTIMER_MODE_ONESHOT :: int where "HWTIMER_MODE_ONESHOT = 1"
definition HWTIMER_MODE_PERIOD :: int where "HWTIMER_MODE_PERIOD = 2"

definition HWTIMER_CTRL_FREQ_SET :: u32 where "HWTIMER_CTRL_FREQ_SET = 0x01"
definition HWTIMER_CTRL_STOP :: u32 where "HWTIMER_CTRL_STOP = 0x02"
definition HWTIMER_CTRL_INFO_GET :: u32 where "HWTIMER_CTRL_INFO_GET = 0x03"
definition HWTIMER_CTRL_MODE_SET :: u32 where "HWTIMER_CTRL_MODE_SET = 0x04"

text \<open>\<open>rt_hwtimer_t\<close>; \<open>rx_indicate\<close> tells whether the callback of the device is set.\<close>

record hwtimer =
  info :: hwtimer_info
  freq :: int
  overflow :: int
  period_sec :: f32
  cycles :: int
  reload :: int
  mode :: int
  dev_flag :: u16
  rx_indicate :: bool

record 'h hwtimer_ops =
  ops_init :: "(hwtimer \<Rightarrow> bool \<Rightarrow> 'h \<Rightarrow> 'h) option"
  ops_start :: "(hwtimer \<Rightarrow> u32 \<Rightarrow> int \<Rightarrow> 'h \<Rightarrow> int \<times> 'h) option"
  ops_stop :: "(hwtimer \<Rightarrow> 'h \<Rightarrow> 'h) option"
  ops_count_get :: "(hwtimer \<Rightarrow> 'h \<Rightarrow> u32) option"
  ops_control :: "(hwtimer \<Rightarrow> u32 \<Rightarrow> int \<Rightarrow> 'h \<Rightarrow> int \<times> 'h) option"

record hwtimerval =
  sec :: int
  usec :: int

type_synonym 'h tdev = "hwtimer \<times> 'h"

section \<open>The time-out\<close>

definition f_int :: "int \<Rightarrow> fp" where "f_int i = of_int_fp fmt32 i"

definition feq :: "fp \<Rightarrow> fp \<Rightarrow> bool" where "feq a b \<longleftrightarrow> fle a b \<and> fle b a"

definition INT_MAX :: int where "INT_MAX = 2147483647"

definition tv_seconds :: "hwtimerval \<Rightarrow> fp" where
  "tv_seconds tv = fadd fmt32 (f_int (sec tv)) (fdiv fmt32 (f_int (usec tv)) (f_int 1000000))"

text \<open>\<open>counter = timeout*timer->freq\<close> and the deviation of \<open>i\<close> such time-outs.\<close>

definition count_of :: "hwtimer \<Rightarrow> fp \<Rightarrow> u32 option" where
  "count_of t timeout = fp_to_u32 (fmul fmt32 timeout (f_int (freq t)))"

definition deviation :: "hwtimer \<Rightarrow> fp \<Rightarrow> u32 \<Rightarrow> int \<Rightarrow> fp" where
  "deviation t tv_sec counter i =
     fsub fmt32 tv_sec (fmul fmt32 (fdiv fmt32 (f_int (uint counter)) (f_int (freq t))) (f_int i))"

text \<open>One round of the search for a number of cycles: \<open>Inl\<close> leaves the loop with \<open>i\<close> and
  \<open>timeout\<close>, \<open>Inr\<close> goes on with \<open>index\<close> and \<open>devi_min\<close>.\<close>

definition cycle_round ::
    "hwtimer \<Rightarrow> fp \<Rightarrow> fp \<Rightarrow> int \<Rightarrow> int \<Rightarrow> fp \<Rightarrow> ((int \<times> fp) + (int \<times> fp)) option" where
  "cycle_round t over tv_sec i index devi_min =
     (let timeout = fdiv fmt32 tv_sec (f_int i)
      in if fle timeout over then do {
           counter \<leftarrow> count_of t timeout;
           let devi = deviation t tv_sec counter i;
           Some (if flt devi_min devi then Inl (index, fdiv fmt32 tv_sec (f_int index))
             else if feq devi (FNum False 0) then Inl (i, timeout)
             else if flt devi devi_min then Inr (i, devi)
             else Inr (index, devi_min)) }
         else Some (Inr (index, devi_min)))"

partial_function (option) cycle_search ::
    "hwtimer \<Rightarrow> fp \<Rightarrow> fp \<Rightarrow> int \<Rightarrow> int \<Rightarrow> fp \<Rightarrow> (int \<times> fp) option" where
  "cycle_search t over tv_sec i index devi_min = do {
     r \<leftarrow> cycle_round t over tv_sec i index devi_min;
     case r of
       Inl x \<Rightarrow> Some x
     | Inr (index, devi_min) \<Rightarrow>
         if i = INT_MAX then None else cycle_search t over tv_sec (i + 1) index devi_min }"

definition timeout_calc :: "hwtimerval \<Rightarrow> hwtimer \<Rightarrow> (u32 \<times> hwtimer) option" where
  "timeout_calc tv t =
     (let over = fdiv fmt32 (f_int (uint (maxcnt (info t)))) (f_int (freq t));
          tv_sec = tv_seconds tv;
          unit = fdiv fmt32 (f_int 1) (f_int (freq t))
      in do {
        (i, timeout) \<leftarrow>
          (if flt tv_sec unit then Some (0, unit)
           else cycle_search t over tv_sec 1 0 (f_int 1));
        counter \<leftarrow> count_of t timeout;
        Some (counter, t\<lparr>cycles := i, reload := i, period_sec := enc32 timeout\<rparr>) })"

section \<open>Operations\<close>

definition RT_ENOSYS :: int where "RT_ENOSYS = 6"
definition RT_EEMPTY :: int where "RT_EEMPTY = 4"

definition rt_hwtimer_init :: "'h hwtimer_ops \<Rightarrow> 'h tdev \<Rightarrow> int \<times> 'h tdev" where
  "rt_hwtimer_init ops th =
     (case th of (t, h) \<Rightarrow>
        let t = t\<lparr>freq := (if 1000000 \<le> maxfreq (info t) \<and> minfreq (info t) \<le> 1000000 then 1000000
                          else minfreq (info t)),
                  mode := HWTIMER_MODE_ONESHOT, cycles := 0, overflow := 0\<rparr>
        in case ops_init ops of
             Some f \<Rightarrow> (RT_EOK, t, f t True h)
           | None \<Rightarrow> (- RT_ENOSYS, t, h))"

definition rt_hwtimer_open :: "'h hwtimer_ops \<Rightarrow> 'h tdev \<Rightarrow> int \<times> 'h tdev" where
  "rt_hwtimer_open ops th =
     (case th of (t, h) \<Rightarrow> case ops_control ops of
        Some f \<Rightarrow> (RT_EOK, t, snd (f t HWTIMER_CTRL_FREQ_SET (freq t) h))
      | None \<Rightarrow> (- RT_ENOSYS, t, h))"

definition RT_DEVICE_FLAG_ACTIVATED :: u16 where "RT_DEVICE_FLAG_ACTIVATED = 0x010"

definition rt_hwtimer_close :: "'h hwtimer_ops \<Rightarrow> 'h tdev \<Rightarrow> int \<times> 'h tdev" where
  "rt_hwtimer_close ops th =
     (case th of (t, h) \<Rightarrow>
        let t' = t\<lparr>dev_flag := dev_flag t AND NOT RT_DEVICE_FLAG_ACTIVATED, rx_indicate := False\<rparr>
        in case ops_init ops of
             Some f \<Rightarrow> (RT_EOK, t', f t False h)
           | None \<Rightarrow> (- RT_ENOSYS, t', h))"

definition fp_to_s32 :: "fp \<Rightarrow> int option" where
  "fp_to_s32 = fp_to_range (- 2147483648) 2147483647"

text \<open>The value read, or \<open>Inl 0\<close> when there is no counter.\<close>

definition rt_hwtimer_read :: "'h hwtimer_ops \<Rightarrow> 'h tdev \<Rightarrow> (int + hwtimerval) option" where
  "rt_hwtimer_read ops th =
     (case th of (t, h) \<Rightarrow> case ops_count_get ops of
        None \<Rightarrow> Some (Inl 0)
      | Some get \<Rightarrow> do {
          let cnt = get t h;
          cnt \<leftarrow> (if cntmode (info t) = HWTIMER_CNTMODE_DW
                  then fp_to_u32 (fsub fmt32 (fmul fmt32 (f_int (freq t)) (dec32 (period_sec t)))
                                    (f_int (uint cnt)))
                  else Some cnt);
          let v = fadd fmt32 (fmul fmt32 (f_int (overflow t)) (dec32 (period_sec t)))
                    (fdiv fmt32 (f_int (uint cnt)) (f_int (freq t)));
          s \<leftarrow> fp_to_s32 v;
          us \<leftarrow> fp_to_s32 (fmul fmt32 (fsub fmt32 v (f_int s)) (f_int 1000000));
          Some (Inr \<lparr>sec = s, usec = us\<rparr>) })"

text \<open>\<open>sz\<close> is the size of the caller's buffer; the size of \<open>rt_hwtimerval_t\<close> is 8.\<close>

definition rt_hwtimer_write ::
    "'h hwtimer_ops \<Rightarrow> hwtimerval \<Rightarrow> nat \<Rightarrow> 'h tdev \<Rightarrow> (nat \<times> 'h tdev) option" where
  "rt_hwtimer_write ops tv sz th =
     (case th of (t, h) \<Rightarrow> case (ops_start ops, ops_stop ops) of
        (Some start, Some stop) \<Rightarrow>
          if sz \<noteq> 8 then Some (0, t, h)
          else do {
            let h = stop t h;
            (cnt, t) \<leftarrow> timeout_calc tv (t\<lparr>overflow := 0\<rparr>);
            let opm = (if cycles t \<le> 1 \<and> mode t = HWTIMER_MODE_ONESHOT then HWTIMER_MODE_ONESHOT
                       else HWTIMER_MODE_PERIOD);
            let (r, h) = start t cnt opm h;
            Some (if r \<noteq> RT_EOK then 0 else sz, t, h) }
      | _ \<Rightarrow> Some (0, t, h))"

text \<open>\<open>args\<close> is what the argument points to; \<open>HWTIMER_CTRL_INFO_GET\<close> copies \<open>info t\<close> there.\<close>

definition rt_hwtimer_control :: "'h hwtimer_ops \<Rightarrow> u32 \<Rightarrow> int option \<Rightarrow> 'h tdev \<Rightarrow> int \<times> 'h tdev" where
  "rt_hwtimer_control ops cmd args th =
     (case th of (t, h) \<Rightarrow>
        if cmd = HWTIMER_CTRL_STOP then
          (case ops_stop ops of
             Some stop \<Rightarrow> (RT_EOK, t, stop t h)
           | None \<Rightarrow> (- RT_ENOSYS, t, h))
        else if cmd = HWTIMER_CTRL_FREQ_SET then
          (case args of
             None \<Rightarrow> (- RT_EEMPTY, t, h)
           | Some f \<Rightarrow>
               if maxfreq (info t) < f \<or> f < minfreq (info t) then (- RT_ERROR, t, h)
               else (case ops_control ops of
                   Some ctl \<Rightarrow> (case ctl t cmd f h of
                     (r, h) \<Rightarrow> (r, if r = RT_EOK then t\<lparr>freq := f\<rparr> else t, h))
                 | None \<Rightarrow> (- RT_ENOSYS, t, h)))
        else if cmd = HWTIMER_CTRL_INFO_GET then
          (if args = None then - RT_EEMPTY else RT_EOK, t, h)
        else if cmd = HWTIMER_CTRL_MODE_SET then
          (case args of
             None \<Rightarrow> (- RT_EEMPTY, t, h)
           | Some m \<Rightarrow>
               if m \<noteq> HWTIMER_MODE_ONESHOT \<and> m \<noteq> HWTIMER_MODE_PERIOD then (- RT_ERROR, t, h)
               else (RT_EOK, t\<lparr>mode := m\<rparr>, h))
        else (- RT_ENOSYS, t, h))"

text \<open>The flag tells whether the callback is to be called.\<close>

definition rt_device_hwtimer_isr :: "'h hwtimer_ops \<Rightarrow> 'h tdev \<Rightarrow> (bool \<times> 'h tdev) option" where
  "rt_device_hwtimer_isr ops th =
     (case th of (t, h) \<Rightarrow>
        if overflow t = INT_MAX then None
        else
          let t = t\<lparr>overflow := overflow t + 1\<rparr>;
              t = (if cycles t \<noteq> 0 then t\<lparr>cycles := cycles t - 1\<rparr> else t)
          in if cycles t = 0 then
               let t = t\<lparr>cycles := reload t\<rparr>;
                   h = (if mode t = HWTIMER_MODE_ONESHOT
                        then (case ops_stop ops of Some stop \<Rightarrow> stop t h | None \<Rightarrow> h) else h)
               in Some (rx_indicate t, t, h)
             else Some (False, t, h))"

section \<open>The timers of the GD32\<close>

text \<open>The registers of a timer the driver uses: counter, auto-reload, prescaler, enable and
  single pulse; \<open>apb_freq\<close> and \<open>apb_psc\<close> are the clock of its bus and the bits of RCU_CFG0
  that divide it.\<close>

record tim =
  tim_on :: bool
  tim_single :: bool
  tim_cnt :: u16
  tim_reload :: u16
  tim_psc :: u16
  apb_freq :: u32
  apb_psc :: u32

definition set_timerx_freq :: "u32 \<Rightarrow> tim \<Rightarrow> tim" where
  "set_timerx_freq f h =
     (let temp = (if apb_psc h < 4 then 0 else 1)
      in h\<lparr>tim_psc := ucast (push_bit temp (apb_freq h) div f - 1)\<rparr>)"

definition gd32_hwtimer_init :: "hwtimer \<Rightarrow> bool \<Rightarrow> tim \<Rightarrow> tim" where
  "gd32_hwtimer_init t state h =
     (if state then set_timerx_freq (word_of_int (maxfreq (info t))) (h\<lparr>tim_reload := ucast (maxcnt (info t))\<rparr>)
      else h)"

definition gd32_hwtimer_start :: "hwtimer \<Rightarrow> u32 \<Rightarrow> int \<Rightarrow> tim \<Rightarrow> int \<times> tim" where
  "gd32_hwtimer_start t cnt m h =
     (let h = (if m = HWTIMER_MODE_ONESHOT then h\<lparr>tim_single := True\<rparr>
               else if m = HWTIMER_MODE_PERIOD then h\<lparr>tim_single := False\<rparr> else h)
      in (RT_EOK, h\<lparr>tim_cnt := 0, tim_reload := ucast (cnt - 1), tim_on := True\<rparr>))"

definition gd32_hwtimer_stop :: "hwtimer \<Rightarrow> tim \<Rightarrow> tim" where
  "gd32_hwtimer_stop t h = h\<lparr>tim_on := False\<rparr>"

definition gd32_hwtimer_count_get :: "hwtimer \<Rightarrow> tim \<Rightarrow> u32" where
  "gd32_hwtimer_count_get t h = ucast (tim_cnt h)"

definition gd32_hwtimer_control :: "hwtimer \<Rightarrow> u32 \<Rightarrow> int \<Rightarrow> tim \<Rightarrow> int \<times> tim" where
  "gd32_hwtimer_control t cmd arg h =
     (if cmd = HWTIMER_CTRL_FREQ_SET then (RT_EOK, set_timerx_freq (word_of_int arg) h)
      else (- RT_EINVAL, h))"

definition g_gd32_hwtimer_ops :: "tim hwtimer_ops" where
  "g_gd32_hwtimer_ops =
     \<lparr>ops_init = Some gd32_hwtimer_init, ops_start = Some gd32_hwtimer_start,
      ops_stop = Some gd32_hwtimer_stop, ops_count_get = Some gd32_hwtimer_count_get,
      ops_control = Some gd32_hwtimer_control\<rparr>"

definition gd32_hwtimer_info :: hwtimer_info where
  "gd32_hwtimer_info = \<lparr>maxfreq = 1000000, minfreq = 1000, maxcnt = 0xffff, cntmode = 0\<rparr>"

text \<open>The peripheral counts: at the reload value it starts again from zero, stops if it is to
  give a single pulse, and interrupts.\<close>

definition tim_count :: "tim \<Rightarrow> bool \<times> tim" where
  "tim_count h =
     (if \<not> tim_on h then (False, h)
      else if tim_cnt h = tim_reload h then (True, h\<lparr>tim_cnt := 0, tim_on := \<not> tim_single h\<rparr>)
      else (False, h\<lparr>tim_cnt := tim_cnt h + 1\<rparr>))"

definition timer_tick :: "tim tdev \<Rightarrow> (bool \<times> tim tdev) option" where
  "timer_tick th =
     (case th of (t, h) \<Rightarrow> case tim_count h of
        (True, h) \<Rightarrow> rt_device_hwtimer_isr g_gd32_hwtimer_ops (t, h)
      | (False, h) \<Rightarrow> Some (False, t, h))"

text \<open>The number of callbacks in \<open>k\<close> counts.\<close>

fun callbacks :: "nat \<Rightarrow> tim tdev \<Rightarrow> nat option" where
  "callbacks 0 th = Some 0"
| "callbacks (Suc k) th = do {
     (fired, th) \<leftarrow> timer_tick th;
     n \<leftarrow> callbacks k th;
     Some (of_bool fired + n) }"

section \<open>Rounding errors\<close>

abbreviation R32 :: "rat \<Rightarrow> rat" where "R32 \<equiv> rnd_mag fmt32"

definition ulp :: rat where "ulp = 1 / 16777216"

lemma R32_error:
  assumes "2 powi - 126 \<le> x"
  shows "\<bar>R32 x - x\<bar> \<le> x * ulp"
proof -
  have x: "0 < x" using assms by (meson less_le_trans zero_less_numeral zero_less_power_int)
  define l where "l = ilog2 x"
  have "(2::rat) powi - 126 < 2 powi (l + 1)" using assms ilog2_bounds(2)[OF x] unfolding l_def by linarith
  then have "- 126 < l + 1" by (simp only: powi_less_iff)
  then have q: "quantum fmt32 x = l - 23" by (simp add: quantum_def l_def)
  define m where "m = rne (x / 2 powi (l - 23))"
  have "\<bar>R32 x - x\<bar> = \<bar>of_int m - x / 2 powi (l - 23)\<bar> * 2 powi (l - 23)"
  proof -
    have "R32 x - x = (of_int m - x / 2 powi (l - 23)) * 2 powi (l - 23)"
      unfolding rnd_mag_quantum[OF x] q m_def by (simp add: left_diff_distrib)
    then show ?thesis by (simp add: abs_mult)
  qed
  also have "\<dots> \<le> 1/2 * 2 powi (l - 23)"
    unfolding m_def by (intro mult_right_mono rne_err) simp
  also have "\<dots> = 2 powi l * ulp" by (simp add: ulp_def power_int_diff)
  also have "\<dots> \<le> x * ulp" using ilog2_bounds(1)[OF x] by (intro mult_right_mono) (simp_all add: l_def ulp_def)
  finally show ?thesis .
qed

lemma R32_bounds:
  assumes "x = 0 \<or> 1 / 10 ^ 30 \<le> x"
  shows "x * (1 - ulp) \<le> R32 x" "R32 x \<le> x * (1 + ulp)"
proof -
  have "x = 0 \<or> 2 powi - 126 \<le> x"
  proof (cases "x = 0")
    case False
    have "(2::rat) powi - 126 \<le> 1 / 10 ^ 30" by (simp add: power_int_minus power_int_numeral)
    with False assms show ?thesis by linarith
  qed simp
  then show "x * (1 - ulp) \<le> R32 x" "R32 x \<le> x * (1 + ulp)"
    using R32_error[of x] by (auto simp: abs_le_iff algebra_simps)
qed

lemma fround_num: "0 \<le> x \<Longrightarrow> x \<le> 2 ^ 100 \<Longrightarrow> fround fmt32 s x = FNum s (R32 x)"
proof -
  assume "0 \<le> x" "x \<le> 2 ^ 100"
  then have "R32 x \<le> 2 powi 100" by (intro rnd_mag_le_powi) simp_all
  moreover have "(2::rat) powi 100 < 2 powi 128" by (simp only: powi_less_iff)
  ultimately have "\<not> 2 powi 128 \<le> R32 x" by linarith
  then show ?thesis by (simp add: fround_def Let_def)
qed

lemma f_int_num: "0 \<le> i \<Longrightarrow> i < 2 ^ 24 \<Longrightarrow> f_int i = FNum False (of_int i)"
proof -
  assume i: "0 \<le> i" "i < 2 ^ 24"
  have "(of_int i :: rat) < of_int (2 ^ 24)" using i(2) by (simp only: of_int_less_iff)
  then have b: "(of_int i :: rat) \<le> 2 ^ 100" by simp
  have "R32 (of_int i) = of_int i"
    using i rnd_mag_exact_aux[of fmt32 i 0] by (cases "i = 0") simp_all
  with i b show ?thesis by (simp add: f_int_def of_int_fp_def fround_num)
qed

lemma fdiv_num: "0 \<le> x \<Longrightarrow> 0 < y \<Longrightarrow> x / y \<le> 2 ^ 100 \<Longrightarrow> fdiv fmt32 (FNum False x) (FNum False y) = FNum False (R32 (x / y))"
  by (simp add: fround_num)

lemma fmul_num: "0 \<le> x \<Longrightarrow> 0 \<le> y \<Longrightarrow> x * y \<le> 2 ^ 100 \<Longrightarrow> fmul fmt32 (FNum False x) (FNum False y) = FNum False (R32 (x * y))"
  by (simp add: fround_num)

lemma fsub_num:
  assumes "0 \<le> a" "0 \<le> b" "a \<le> 2 ^ 99" "b \<le> 2 ^ 99"
  shows "fsub fmt32 (FNum False a) (FNum False b) = FNum (a < b) (R32 \<bar>a - b\<bar>)"
proof (cases "a = b")
  case False
  have "\<bar>a - b\<bar> \<le> 2 ^ 100" using assms by (simp add: abs_le_iff)
  with False show ?thesis by (simp add: fsub_def Let_def fround_num)
qed (simp add: fsub_def)

lemma R32_idem: "0 \<le> x \<Longrightarrow> R32 (R32 x) = R32 x"
  by (rule rnd_mag_idem) simp_all

lemma R32_mono: "0 \<le> x \<Longrightarrow> x \<le> y \<Longrightarrow> R32 x \<le> R32 y"
  by (rule rnd_mag_mono) simp_all

section \<open>The search for the number of cycles\<close>

text \<open>\<open>n\<close> microseconds at a megahertz: the time, one of \<open>i\<close> parts of it, its length in counts,
  the counts, and the time that \<open>i\<close> times these counts take.\<close>

definition T_of :: "int \<Rightarrow> rat" where "T_of n = R32 (of_int n / 1000000)"
definition S_of :: "int \<Rightarrow> int \<Rightarrow> rat" where "S_of n i = R32 (T_of n / of_int i)"
definition X_of :: "int \<Rightarrow> int \<Rightarrow> rat" where "X_of n i = R32 (S_of n i * 1000000)"
definition C_of :: "int \<Rightarrow> int \<Rightarrow> int" where "C_of n i = \<lfloor>X_of n i\<rfloor>"
definition P_of :: "int \<Rightarrow> int \<Rightarrow> rat" where "P_of n i = R32 (R32 (of_int (C_of n i) / 1000000) * of_int i)"

locale delay =
  fixes n :: int
  assumes n_range: "2 \<le> n" "n \<le> 65535"
begin

lemma T_bounds: "of_int n / 1000000 * (1 - ulp) \<le> T_of n" "T_of n \<le> of_int n / 1000000 * (1 + ulp)"
proof -
  have "(1 :: rat) / 10 ^ 30 \<le> 1 / 1000000" by simp
  also have "\<dots> \<le> of_int n / 1000000" using n_range by (intro divide_right_mono) simp_all
  finally show "of_int n / 1000000 * (1 - ulp) \<le> T_of n" "T_of n \<le> of_int n / 1000000 * (1 + ulp)"
    unfolding T_of_def using R32_bounds by blast+
qed

lemma T_abs: "1 / 1000000 \<le> T_of n" "T_of n \<le> 1"
proof -
  have "(2 :: rat) \<le> of_int n" "of_int n \<le> (65535 :: rat)" using n_range by simp_all
  then show "1 / 1000000 \<le> T_of n" "T_of n \<le> 1"
    using T_bounds by (simp_all add: ulp_def)
qed

lemma S_bounds:
  assumes "1 \<le> i" "i \<le> 131070"
  shows "T_of n / of_int i * (1 - ulp) \<le> S_of n i" "S_of n i \<le> T_of n / of_int i * (1 + ulp)"
    "1 / 10 ^ 13 \<le> S_of n i"
proof -
  have "(1 / 1000000 :: rat) / 131070 \<le> T_of n / of_int i"
    using assms T_abs(1) by (intro frac_le) simp_all
  moreover have "(1 :: rat) / 10 ^ 30 \<le> 1 / 1000000 / 131070" by simp
  ultimately have ge: "1 / 10 ^ 30 \<le> T_of n / of_int i" by linarith
  show "T_of n / of_int i * (1 - ulp) \<le> S_of n i" "S_of n i \<le> T_of n / of_int i * (1 + ulp)"
    unfolding S_of_def using R32_bounds ge by blast+
  then show "1 / 10 ^ 13 \<le> S_of n i" using \<open>(1 / 1000000 :: rat) / 131070 \<le> T_of n / of_int i\<close>
    by (simp add: ulp_def)
qed

lemma X_bounds:
  assumes "1 \<le> i" "i \<le> 131070"
  shows "of_int n - 1/50 \<le> of_int i * X_of n i" "of_int i * X_of n i \<le> of_int n + 1/50"
proof -
  have i: "0 < (of_int i :: rat)" using assms by simp
  have "(1 :: rat) / 10 ^ 30 \<le> 1 / 10 ^ 13 * 1000000" by simp
  also have "\<dots> \<le> S_of n i * 1000000" using S_bounds(3)[OF assms] by simp
  finally have X: "S_of n i * 1000000 * (1 - ulp) \<le> X_of n i" "X_of n i \<le> S_of n i * 1000000 * (1 + ulp)"
    unfolding X_of_def using R32_bounds by blast+
  have S: "T_of n * (1 - ulp) \<le> of_int i * S_of n i" "of_int i * S_of n i \<le> T_of n * (1 + ulp)"
    using S_bounds[OF assms] i by (simp_all add: field_simps)
  have N: "(2 :: rat) \<le> of_int n" "of_int n \<le> (65535 :: rat)" using n_range by simp_all
  have "of_int i * X_of n i \<le> of_int i * S_of n i * (1000000 * (1 + ulp))"
    using mult_left_mono[OF X(2) less_imp_le[OF i]] by (simp add: algebra_simps)
  also have "\<dots> \<le> T_of n * (1 + ulp) * (1000000 * (1 + ulp))"
    using S(2) by (intro mult_right_mono) (simp_all add: ulp_def)
  also have "\<dots> \<le> of_int n / 1000000 * (1 + ulp) * (1 + ulp) * (1000000 * (1 + ulp))"
    using T_bounds(2) by (intro mult_right_mono) (simp_all add: ulp_def)
  also have "\<dots> \<le> of_int n + 1/50" using N by (simp add: ulp_def)
  finally show "of_int i * X_of n i \<le> of_int n + 1/50" .
  have "of_int n - 1/50 \<le> of_int n / 1000000 * (1 - ulp) * (1 - ulp) * (1000000 * (1 - ulp))"
    using N by (simp add: ulp_def)
  also have "\<dots> \<le> T_of n * (1 - ulp) * (1000000 * (1 - ulp))"
    using T_bounds(1) by (intro mult_right_mono) (simp_all add: ulp_def)
  also have "\<dots> \<le> of_int i * S_of n i * (1000000 * (1 - ulp))"
    using S(1) by (intro mult_right_mono) (simp_all add: ulp_def)
  also have "\<dots> \<le> of_int i * X_of n i"
    using mult_left_mono[OF X(1) less_imp_le[OF i]] by (simp add: algebra_simps)
  finally show "of_int n - 1/50 \<le> of_int i * X_of n i" .
qed

lemma C_bounds:
  assumes "1 \<le> i" "i \<le> 131070"
  shows "0 \<le> C_of n i" "i * C_of n i \<le> n" "C_of n i \<le> n"
proof -
  have i: "0 < (of_int i :: rat)" using assms by simp
  have "0 \<le> X_of n i" unfolding X_of_def using S_bounds(3)[OF assms] by (intro rnd_mag_nonneg) simp
  then show C: "0 \<le> C_of n i" by (simp add: C_of_def)
  have "of_int (C_of n i) \<le> X_of n i" by (simp add: C_of_def)
  then have "of_int i * of_int (C_of n i) \<le> of_int i * X_of n i" using i by (intro mult_left_mono) simp_all
  also have "\<dots> < of_int (n + 1)" using X_bounds(2)[OF assms] by simp
  finally have "of_int (i * C_of n i) < (of_int (n + 1) :: rat)" by simp
  then show ic: "i * C_of n i \<le> n" by (simp only: of_int_less_iff)
  have "1 * C_of n i \<le> i * C_of n i" using assms C by (intro mult_right_mono) simp_all
  with ic show "C_of n i \<le> n" by simp
qed

lemma P_bounds:
  assumes "1 \<le> i" "i \<le> 131070"
  shows "\<bar>1000000 * P_of n i - of_int (i * C_of n i)\<bar> \<le> 1/100" "0 \<le> P_of n i"
proof -
  define c where "c = C_of n i"
  have c: "0 \<le> c" "i * c \<le> n" using C_bounds[OF assms] by (simp_all add: c_def)
  have i: "1 \<le> (of_int i :: rat)" using assms by simp
  have z: "(of_int c :: rat) / 1000000 = 0 \<or> 1 / 10 ^ 6 \<le> (of_int c :: rat) / 1000000"
    using c(1) by (cases "c = 0") simp_all
  then have "(of_int c :: rat) / 1000000 = 0 \<or> 1 / 10 ^ 30 \<le> (of_int c :: rat) / 1000000" by auto
  note E = R32_bounds[OF this]
  define e where "e = R32 (of_int c / 1000000)"
  have E': "of_int c / 1000000 * (1 - ulp) \<le> e" "e \<le> of_int c / 1000000 * (1 + ulp)" using E by (simp_all add: e_def)
  have "e = 0 \<or> 1 / 10 ^ 7 \<le> e"
  proof (cases "c = 0")
    case False
    then have "1 \<le> (of_int c :: rat)" using c(1) by simp
    then show ?thesis using E'(1) by (simp add: ulp_def)
  qed (simp add: e_def)
  moreover have "1 / 10 ^ 7 \<le> e \<Longrightarrow> 1 / 10 ^ 7 * 1 \<le> e * of_int i" using i by (intro mult_mono) simp_all
  ultimately have "e * of_int i = 0 \<or> 1 / 10 ^ 30 \<le> e * of_int i" by auto
  note P = R32_bounds[OF this]
  define p where "p = P_of n i"
  have p: "p = R32 (e * of_int i)" by (simp add: p_def P_of_def e_def c_def)
  define q where "q = (of_int (i * c) :: rat)"
  have "i * c \<le> 65535" using c n_range by simp
  then have "(of_int (i * c) :: rat) \<le> of_int 65535" by (simp only: of_int_le_iff)
  then have q: "0 \<le> q" "q \<le> 65535" using c assms unfolding q_def by simp_all
  have ei: "q / 1000000 * (1 - ulp) \<le> e * of_int i" "e * of_int i \<le> q / 1000000 * (1 + ulp)"
    using mult_right_mono[OF E'(1), of "of_int i"] mult_right_mono[OF E'(2), of "of_int i"] i
    by (simp_all add: q_def algebra_simps)
  have "p \<le> q / 1000000 * (1 + ulp) * (1 + ulp)"
    using P(2) mult_right_mono[OF ei(2), of "1 + ulp"] unfolding p by (simp add: ulp_def)
  moreover have "q / 1000000 * (1 - ulp) * (1 - ulp) \<le> p"
    using P(1) mult_right_mono[OF ei(1), of "1 - ulp"] unfolding p by (simp add: ulp_def)
  ultimately have "1000000 * p \<le> q + 1/100" "q - 1/100 \<le> 1000000 * p"
    using q by (simp_all add: ulp_def)
  then have "\<bar>1000000 * p - q\<bar> \<le> 1/100" unfolding abs_le_iff by linarith
  then show "\<bar>1000000 * P_of n i - of_int (i * C_of n i)\<bar> \<le> 1/100"
    unfolding p_def[symmetric] c_def[symmetric] q_def[symmetric] .
  have "0 \<le> e" unfolding e_def using c by (intro rnd_mag_nonneg) simp
  then show "0 \<le> P_of n i" using i unfolding p_def[symmetric] p by (intro rnd_mag_nonneg) simp
qed


text \<open>The deviation of \<open>i\<close> in counts is the number of counts lost, up to a fiftieth.\<close>

definition lost :: "int \<Rightarrow> int" where "lost i = n - i * C_of n i"

definition dev :: "int \<Rightarrow> rat" where
  "dev i = sval (T_of n < P_of n i) (R32 \<bar>T_of n - P_of n i\<bar>)"

lemma deviation_near:
  assumes "1 \<le> i" "i \<le> 131070"
  shows "\<bar>1000000 * (T_of n - P_of n i) - of_int (lost i)\<bar> \<le> 1/50"
proof -
  have N: "(2 :: rat) \<le> of_int n" "of_int n \<le> (65535 :: rat)" using n_range by simp_all
  have "1000000 * T_of n \<le> of_int n + 1/100" "of_int n - 1/100 \<le> 1000000 * T_of n"
    using T_bounds N by (simp_all add: ulp_def)
  then show ?thesis using P_bounds(1)[OF assms] unfolding lost_def abs_le_iff by simp
qed

lemma dev_positive:
  assumes "1 \<le> i" "i \<le> 131070" "1 \<le> lost i"
  shows "(of_int (lost i) - 3/100) / 1000000 \<le> dev i" "0 < dev i"
    "lost i = 1 \<Longrightarrow> dev i \<le> 103/100 / 1000000"
proof -
  define d where "d = T_of n - P_of n i"
  define l where "l = (of_int (lost i) :: rat)"
  have l1: "1 \<le> l" using assms(3) by (simp add: l_def)
  have "lost i \<le> n" using C_bounds(1)[OF assms(1,2)] assms(1) by (simp add: lost_def)
  then have "lost i \<le> 65535" using n_range by simp
  then have "(of_int (lost i) :: rat) \<le> of_int 65535" by (simp only: of_int_le_iff)
  then have l2: "l \<le> 65535" by (simp add: l_def)
  have d: "l - 1/50 \<le> 1000000 * d" "1000000 * d \<le> l + 1/50"
    using deviation_near[OF assms(1,2)] unfolding d_def[symmetric] l_def[symmetric] abs_le_iff by simp_all
  have d0: "1 / 10 ^ 30 \<le> d" using d(1) l1 by simp
  have dev: "dev i = R32 d"
  proof -
    have "\<not> T_of n < P_of n i" "\<bar>T_of n - P_of n i\<bar> = d" using d0 by (simp_all add: d_def)
    then show ?thesis by (simp add: dev_def)
  qed
  have R: "d * (1 - ulp) \<le> dev i" "dev i \<le> d * (1 + ulp)" unfolding dev using R32_bounds d0 by blast+
  have "(l - 3/100) / 1000000 \<le> (l - 1/50) / 1000000 * (1 - ulp)" using l1 l2 by (simp add: ulp_def)
  also have "\<dots> \<le> d * (1 - ulp)" using d(1) by (intro mult_right_mono) (simp_all add: ulp_def)
  finally show lo: "(of_int (lost i) - 3/100) / 1000000 \<le> dev i" using R(1) by (simp add: l_def)
  then show "0 < dev i" using l1 by (simp add: l_def)
  show "dev i \<le> 103/100 / 1000000" if "lost i = 1"
  proof -
    have "l = 1" using that by (simp add: l_def)
    then have "d * (1 + ulp) \<le> 103/100 / 1000000" using d(2) by (simp add: ulp_def)
    with R(2) show ?thesis by linarith
  qed
qed

lemma lost_nonneg: "1 \<le> i \<Longrightarrow> i \<le> 131070 \<Longrightarrow> 0 \<le> lost i"
  using C_bounds(2) by (simp add: lost_def)

lemma lost_from_dev:
  assumes "1 \<le> i" "i \<le> 131070" "dev i \<le> 103/100 / 1000000"
  shows "lost i \<le> 1"
proof (rule ccontr)
  assume "\<not> lost i \<le> 1"
  then have "2 \<le> lost i" by simp
  then have "(2 :: rat) \<le> of_int (lost i)" by simp
  then show False using dev_positive(1)[OF assms(1,2)] \<open>2 \<le> lost i\<close> assms(3) by simp
qed

lemma last_round:
  assumes "2 * n \<le> i" "i \<le> 131070"
  shows "103/100 / 1000000 < dev i"
proof -
  have i1: "1 \<le> i" using assms n_range by simp
  have "of_int i * X_of n i \<le> of_int n + 1/50" by (rule X_bounds(2)[OF i1 assms(2)])
  also have "\<dots> < of_int (2 * n)" using n_range by simp
  also have "\<dots> \<le> of_int i" using assms(1) by (simp only: of_int_le_iff)
  finally have "X_of n i < 1" using i1 by simp
  then have "C_of n i < 1" unfolding C_of_def by (simp add: floor_less_iff)
  then have "C_of n i = 0" using C_bounds(1)[OF i1 assms(2)] by simp
  then have l: "lost i = n" by (simp add: lost_def)
  have "(2 :: rat) \<le> of_int n" using n_range by simp
  then show ?thesis using dev_positive(1)[OF i1 assms(2)] l n_range by simp
qed

lemma first_exact: "C_of n 1 = n \<Longrightarrow> P_of n 1 = T_of n"
  by (simp add: P_of_def T_of_def R32_idem n_range(1)[THEN order.trans[rotated], of 0])

lemma first_lost: "lost 1 = 0 \<or> lost 1 = 1"
proof -
  have "of_int (n - 1) \<le> X_of n 1" using X_bounds(1)[of 1] by simp
  then have "n - 1 \<le> C_of n 1" unfolding C_of_def by (simp only: le_floor_iff)
  then show ?thesis using lost_nonneg[of 1] by (auto simp: lost_def)
qed


abbreviation num :: "rat \<Rightarrow> fp" where "num \<equiv> FNum False"

lemma T_le: "0 \<le> T_of n" "T_of n \<le> 2 ^ 99"
  using T_abs by (simp_all add: order.trans[of "T_of n" 1])

lemma part_num: "1 \<le> i \<Longrightarrow> i \<le> 131070 \<Longrightarrow> fdiv fmt32 (num (T_of n)) (f_int i) = num (S_of n i)"
proof -
  assume i: "1 \<le> i" "i \<le> 131070"
  have "T_of n / of_int i \<le> T_of n / 1" using i T_abs by (intro divide_left_mono) simp_all
  then have "T_of n / of_int i \<le> 2 ^ 100" using T_abs by simp
  then show ?thesis using i T_abs by (simp add: f_int_num S_of_def fround_num)
qed

lemma S_le:
  assumes "1 \<le> i" "i \<le> 131070" shows "0 \<le> S_of n i" "S_of n i \<le> T_of n"
proof -
  show "0 \<le> S_of n i" using S_bounds(3)[OF assms] by simp
  have "T_of n / of_int i \<le> T_of n / 1" using assms T_abs by (intro divide_left_mono) simp_all
  then have "R32 (T_of n / of_int i) \<le> R32 (T_of n)" using assms T_abs by (intro R32_mono) simp_all
  then show "S_of n i \<le> T_of n" unfolding S_of_def T_of_def using n_range by (simp add: R32_idem)
qed

lemma count_num:
  assumes "1 \<le> i" "i \<le> 131070" "freq t = 1000000"
  shows "count_of t (num (S_of n i)) = Some (word_of_int (C_of n i))"
proof -
  have "S_of n i * 1000000 \<le> 1 * 1000000" using S_le[OF assms(1,2)] T_abs by (intro mult_right_mono) simp_all
  then have b: "S_of n i * 1000000 \<le> 2 ^ 100" by simp
  have "fmul fmt32 (num (S_of n i)) (f_int 1000000) = num (X_of n i)"
    using fmul_num[of "S_of n i" 1000000] b S_le[OF assms(1,2)] f_int_num[of 1000000] by (simp add: X_of_def)
  moreover have "0 \<le> C_of n i" "C_of n i \<le> 65535" using C_bounds[OF assms(1,2)] n_range by simp_all
  ultimately show ?thesis using assms(3)
    by (simp add: count_of_def fp_to_u32_def fp_to_range_def C_of_def)
qed

lemma deviation_num:
  assumes "1 \<le> i" "i \<le> 131070" "freq t = 1000000"
  shows "deviation t (num (T_of n)) (word_of_int (C_of n i)) i =
    FNum (T_of n < P_of n i) (R32 \<bar>T_of n - P_of n i\<bar>)"
proof -
  define c where "c = C_of n i"
  have c: "0 \<le> c" "c \<le> 65535" using C_bounds[OF assms(1,2)] n_range by (simp_all add: c_def)
  have cr: "(of_int c :: rat) \<le> of_int 65535" using c(2) by (simp only: of_int_le_iff)
  have u: "uint (word_of_int c :: u32) = c" using c by (simp add: uint_word_of_int)
  define e where "e = R32 (of_int c / 1000000)"
  have e1: "fdiv fmt32 (f_int c) (f_int 1000000) = num e"
    using c cr f_int_num[of c] f_int_num[of 1000000] by (simp add: e_def fround_num)
  have e0: "0 \<le> e" unfolding e_def using c by (intro rnd_mag_nonneg) simp
  have "e \<le> 1" unfolding e_def using rnd_mag_le_powi[of fmt32 0 "of_int c / 1000000"] c cr by simp
  moreover have i: "1 \<le> (of_int i :: rat)" "(of_int i :: rat) \<le> of_int 131070"
    using assms by (simp_all only: of_int_le_iff of_int_1_le_iff)
  ultimately have "e * of_int i \<le> 1 * 131070" using e0 by (intro mult_mono) simp_all
  then have b: "e * of_int i \<le> 2 ^ 100" by simp
  have p: "fmul fmt32 (num e) (f_int i) = num (P_of n i)"
    using fmul_num[OF e0 _ b] f_int_num[of i] assms i by (simp add: P_of_def e_def c_def)
  have "1000000 * P_of n i \<le> of_int (i * C_of n i) + 1/100"
    using P_bounds(1)[OF assms(1,2)] unfolding abs_le_iff by simp
  moreover have "(of_int (i * C_of n i) :: rat) \<le> of_int 65535"
    using C_bounds[OF assms(1,2)] n_range by (simp only: of_int_le_iff)
  ultimately have P1: "P_of n i \<le> 2 ^ 99" by simp
  show ?thesis unfolding deviation_def assms(3) c_def[symmetric] u e1 p
    using T_le P1 P_bounds(2)[OF assms(1,2)] by (intro fsub_num)
qed

definition over :: fp where "over = fdiv fmt32 (f_int 65535) (f_int 1000000)"

lemma over_num: "over = num (R32 (65535 / 1000000))"
  using f_int_num[of 65535] f_int_num[of 1000000] by (simp add: over_def fround_num)

lemma round_num:
  assumes "1 \<le> i" "i \<le> 131070" "freq t = 1000000"
  shows "cycle_round t over (num (T_of n)) i index (FNum s m) =
    Some (if sval s m < dev i then Inl (index, fdiv fmt32 (num (T_of n)) (f_int index))
      else if dev i = 0 then Inl (i, num (S_of n i))
      else if dev i < sval s m then Inr (i, FNum (T_of n < P_of n i) (R32 \<bar>T_of n - P_of n i\<bar>))
      else Inr (index, FNum s m))"
proof -
  have "T_of n \<le> R32 (65535 / 1000000)" unfolding T_of_def
    using n_range of_int_le_iff[of n 65535, where 'a = rat] by (intro R32_mono divide_right_mono) simp_all
  then have "fle (num (S_of n i)) over" using S_le[OF assms(1,2)] by (simp add: over_num)
  moreover have "sval False 0 = 0" by simp
  ultimately show ?thesis unfolding cycle_round_def Let_def part_num[OF assms(1,2)]
    by (simp add: count_num[OF assms] deviation_num[OF assms] feq_def dev_def[symmetric] del: sval.simps)
qed

definition good :: "int \<Rightarrow> bool" where
  "good j \<longleftrightarrow> 1 \<le> j \<and> j \<le> 131070 \<and> lost j \<le> 1"

lemma search_good:
  assumes "freq t = 1000000" "2 \<le> i" "i \<le> 2 * n" "good index" "sval s m \<le> 103/100 / 1000000"
  shows "\<exists>j. good j \<and> cycle_search t over (num (T_of n)) i index (FNum s m) = Some (j, num (S_of n j))"
  using assms(2-)
proof (induction "nat (2 * n - i)" arbitrary: i index s m rule: less_induct)
  case less
  have i: "1 \<le> i" "i \<le> 131070" using less.prems n_range by simp_all
  let ?m = "FNum (T_of n < P_of n i) (R32 \<bar>T_of n - P_of n i\<bar>)"
  have index: "fdiv fmt32 (num (T_of n)) (f_int index) = num (S_of n index)"
    using less.prems(3) by (intro part_num) (simp_all add: good_def)
  have next_ok: "\<exists>j. good j \<and> cycle_search t over (num (T_of n)) (i + 1) x (FNum s' m') = Some (j, num (S_of n j))"
    if "\<not> sval s m < dev i" "good x" "sval s' m' \<le> 103/100 / 1000000" for x s' m'
  proof -
    have "i < 2 * n"
      using last_round[of i] i less.prems(2,4) that(1) by (cases "i = 2 * n") auto
    then show ?thesis using less.hyps[of "i + 1" x s' m'] less.prems that by auto
  qed
  have here: "good i" if "dev i \<le> 103/100 / 1000000" using i lost_from_dev[OF i that] by (simp add: good_def)
  have "i \<noteq> INT_MAX" using i by (simp add: INT_MAX_def)
  note search = cycle_search.simps[of t over "num (T_of n)" i index "FNum s m",
      unfolded round_num[OF i assms(1)] index]
  consider "sval s m < dev i" | "\<not> sval s m < dev i" "dev i = 0"
    | "\<not> sval s m < dev i" "dev i \<noteq> 0" "dev i < sval s m" | "\<not> sval s m < dev i" "dev i \<noteq> 0" "\<not> dev i < sval s m"
    by blast
  then show ?case
  proof cases
    case 1
    with search less.prems(3) show ?thesis by auto
  next
    case 2
    with search here show ?thesis by auto
  next
    case 3
    then have "good i" using here less.prems(4) by linarith
    moreover have "sval (T_of n < P_of n i) (R32 \<bar>T_of n - P_of n i\<bar>) \<le> 103/100 / 1000000"
      unfolding dev_def[symmetric] using 3 less.prems(4) by linarith
    ultimately show ?thesis using next_ok[OF 3(1)] 3 search \<open>i \<noteq> INT_MAX\<close> by (simp del: sval.simps)
  next
    case 4
    with next_ok[of index s m] less.prems(3,4) search \<open>i \<noteq> INT_MAX\<close> show ?thesis by simp
  qed
qed


lemma search_first:
  assumes "freq t = 1000000"
  shows "\<exists>j. good j \<and> cycle_search t over (num (T_of n)) 1 0 (f_int 1) = Some (j, num (S_of n j))"
proof -
  let ?d = "FNum (T_of n < P_of n 1) (R32 \<bar>T_of n - P_of n 1\<bar>)"
  have one: "(1 :: int) \<le> 1" "(1 :: int) \<le> 131070" by simp_all
  note search = cycle_search.simps[of t over "num (T_of n)" 1 0 "num 1", unfolded round_num[OF one assms]]
  have f1: "f_int 1 = num 1" using f_int_num[of 1] by simp
  have good1: "good 1" using first_lost by (auto simp: good_def)
  from first_lost show ?thesis
  proof
    assume "lost 1 = 0"
    then have "C_of n 1 = n" by (simp add: lost_def)
    then have "dev 1 = 0" by (simp add: dev_def first_exact)
    with search good1 show ?thesis unfolding f1 by auto
  next
    assume l: "lost 1 = 1"
    have d: "0 < dev 1" "dev 1 \<le> 103/100 / 1000000" using dev_positive(2,3)[OF one] l by simp_all
    then have lt: "\<not> 1 < dev 1" "dev 1 \<noteq> 0" "dev 1 < 1" by simp_all
    have "\<exists>j. good j \<and> cycle_search t over (num (T_of n)) 2 1 ?d = Some (j, num (S_of n j))"
      using d(2) n_range unfolding dev_def by (intro search_good[OF assms _ _ good1]) simp_all
    with search lt show ?thesis unfolding f1 by (simp add: INT_MAX_def)
  qed
qed

lemma timeout_calc_good:
  assumes "freq t = 1000000" "maxcnt (info t) = 0xffff"
  shows "\<exists>j. good j \<and> timeout_calc \<lparr>sec = 0, usec = n\<rparr> t =
    Some (word_of_int (C_of n j), t\<lparr>cycles := j, reload := j, period_sec := enc32 (num (S_of n j))\<rparr>)"
proof -
  have n: "0 \<le> n" "n < 2 ^ 24" "(of_int n :: rat) / 1000000 \<le> 2 ^ 100"
    using n_range of_int_le_iff[of n 65535, where 'a = rat] by simp_all
  have T: "fdiv fmt32 (f_int n) (f_int 1000000) = num (T_of n)"
    using f_int_num[OF n(1,2)] f_int_num[of 1000000] n by (simp add: fround_num T_of_def)
  have "T_of n \<le> 2 ^ 100" using T_abs(2) by simp
  then have "fround fmt32 False (T_of n) = num (T_of n)"
    using fround_num[of "T_of n" False] T_le(1) n(1) by (simp add: T_of_def R32_idem)
  then have tv: "tv_seconds \<lparr>sec = 0, usec = n\<rparr> = num (T_of n)"
    using T T_abs f_int_num[of 0] by (simp add: tv_seconds_def Let_def)
  have unit: "\<not> flt (num (T_of n)) (fdiv fmt32 (f_int 1) (f_int 1000000))"
  proof -
    have "(1 :: rat) / 1000000 \<le> of_int n / 1000000" using n_range by (intro divide_right_mono) simp_all
    then have "R32 (1 / 1000000) \<le> T_of n" unfolding T_of_def by (intro R32_mono) simp_all
    then show ?thesis using f_int_num[of 1] f_int_num[of 1000000] by (simp add: fround_num)
  qed
  obtain j where j: "good j" "cycle_search t over (num (T_of n)) 1 0 (f_int 1) = Some (j, num (S_of n j))"
    using search_first[OF assms(1)] by blast
  then have "1 \<le> j" "j \<le> 131070" by (simp_all add: good_def)
  then show ?thesis using j unit count_num[of j t] assms
    by (intro exI[of _ j]) (simp add: timeout_calc_def Let_def tv over_def[symmetric] del: enc32.simps)
qed

end

section \<open>A timer runs\<close>

lemma gd32_ops_simps [simp]:
  "ops_start g_gd32_hwtimer_ops = Some gd32_hwtimer_start"
  "ops_stop g_gd32_hwtimer_ops = Some gd32_hwtimer_stop"
  "ops_init g_gd32_hwtimer_ops = Some gd32_hwtimer_init"
  "ops_count_get g_gd32_hwtimer_ops = Some gd32_hwtimer_count_get"
  "ops_control g_gd32_hwtimer_ops = Some gd32_hwtimer_control"
  by (simp_all add: g_gd32_hwtimer_ops_def)

text \<open>A one-shot timer with \<open>m\<close> cycles to go, \<open>left\<close> counts before the next interrupt.\<close>

definition armed :: "nat \<Rightarrow> nat \<Rightarrow> nat \<Rightarrow> tim tdev \<Rightarrow> bool" where
  "armed c m left th \<longleftrightarrow> (case th of (t, h) \<Rightarrow>
     mode t = HWTIMER_MODE_ONESHOT \<and> rx_indicate t \<and> cycles t = int m \<and> 0 < m \<and>
     0 \<le> overflow t \<and> overflow t + int m < INT_MAX \<and>
     tim_on h \<and> (tim_single h \<longrightarrow> m = 1) \<and> 0 < left \<and>
     unat (tim_reload h) + 1 = c \<and> unat (tim_cnt h) + left = c)"

lemma callbacks_off: "\<not> tim_on h \<Longrightarrow> callbacks k (t, h) = Some 0"
  by (induction k) (simp_all add: timer_tick_def tim_count_def)

lemma armed_tick:
  assumes "armed c m left th"
  shows "if 1 < left then \<exists>th'. timer_tick th = Some (False, th') \<and> armed c m (left - 1) th'
    else if 1 < m then \<exists>th'. timer_tick th = Some (False, th') \<and> armed c (m - 1) c th'
    else \<exists>t h. timer_tick th = Some (True, t, h) \<and> \<not> tim_on h"
proof -
  obtain t h where th: "th = (t, h)" by (cases th)
  have a: "mode t = HWTIMER_MODE_ONESHOT" "rx_indicate t" "cycles t = int m" "0 < m" "0 \<le> overflow t"
    "overflow t + int m < INT_MAX" "tim_on h" "tim_single h \<longrightarrow> m = 1" "0 < left"
    "unat (tim_reload h) + 1 = c" "unat (tim_cnt h) + left = c"
    using assms by (simp_all add: armed_def th)
  show ?thesis
  proof (cases "1 < left")
    case True
    then have lt: "unat (tim_cnt h) < unat (tim_reload h)" using a by simp
    have "unat (tim_reload h) < 65536" using unsigned_less[of "tim_reload h"] by simp
    then have "unat (tim_cnt h + 1) = unat (tim_cnt h) + 1" using lt by (simp add: unat_word_ariths)
    moreover have "tim_cnt h \<noteq> tim_reload h" using lt by auto
    ultimately show ?thesis using True a by (auto simp: th timer_tick_def tim_count_def armed_def)
  next
    case False
    then have "unat (tim_cnt h) = unat (tim_reload h)" using a by simp
    then have eq: "tim_cnt h = tim_reload h" by (simp add: word_unat_eq_iff)
    have ov: "overflow t \<noteq> INT_MAX" using a by simp
    show ?thesis
    proof (cases "1 < m")
      case True
      with eq ov a False show ?thesis
        by (auto simp: th timer_tick_def tim_count_def rt_device_hwtimer_isr_def Let_def armed_def of_nat_diff)
    next
      case False
      with eq ov a \<open>\<not> 1 < left\<close> show ?thesis
        by (auto simp: th timer_tick_def tim_count_def rt_device_hwtimer_isr_def Let_def gd32_hwtimer_stop_def)
    qed
  qed
qed

lemma armed_callbacks:
  "armed c m left th \<Longrightarrow> callbacks k th = Some (of_bool ((m - 1) * c + left \<le> k))"
proof (induction k arbitrary: m left th)
  case 0
  then show ?case by (auto simp: armed_def)
next
  case (Suc k)
  have c: "0 < c" and m: "0 < m" and l: "0 < left" using Suc.prems by (auto simp: armed_def)
  note tick = armed_tick[OF Suc.prems]
  show ?case
  proof (cases "1 < left")
    case True
    with tick obtain th' where "timer_tick th = Some (False, th')" "armed c m (left - 1) th'" by auto
    with Suc.IH[of m "left - 1" th'] True show ?thesis by auto
  next
    case False
    then have l1: "left = 1" using l by simp
    show ?thesis
    proof (cases "1 < m")
      case True
      with tick False obtain th' where t: "timer_tick th = Some (False, th')" "armed c (m - 1) c th'" by auto
      obtain m' where m': "m = Suc (Suc m')" using True by (auto dest!: less_imp_Suc_add)
      from t Suc.IH[of "m - 1" c th'] l1 show ?thesis by (simp add: m')
    next
      case False
      with tick \<open>\<not> 1 < left\<close> obtain t h where "timer_tick th = Some (True, t, h)" "\<not> tim_on h" by auto
      with False m l1 callbacks_off[of h k t] show ?thesis by (simp add: le_less)
    qed
  qed
qed

section \<open>Properties\<close>

text \<open>A device as \<open>rt_hwtimer_init\<close> and the set-up of the application leave it.\<close>

definition oneshot_timer :: "hwtimer \<Rightarrow> bool" where
  "oneshot_timer t \<longleftrightarrow> info t = gd32_hwtimer_info \<and> freq t = 1000000 \<and> mode t = HWTIMER_MODE_ONESHOT \<and> rx_indicate t"

text \<open>A one-shot timer loaded with \<open>n\<close> microseconds, as the firmware loads the trigger, calls
  its callback exactly once, after \<open>n\<close> counts of a microsecond or one less: single precision
  costs at most one count, although for some times it makes the driver run the
  counter several times.\<close>

lemma oneshot_fires_in_time:
  assumes "oneshot_timer t" "2 \<le> n" "n \<le> 65535"
  shows "\<exists>th' d. rt_hwtimer_write g_gd32_hwtimer_ops \<lparr>sec = 0, usec = int n\<rparr> 8 (t, h) = Some (8, th') \<and>
    (d = n \<or> Suc d = n) \<and> (\<forall>k. callbacks k th' = Some (of_bool (d \<le> k)))"
proof -
  have dl: "delay (int n)" using assms by unfold_locales simp_all
  let ?t = "t\<lparr>overflow := 0\<rparr>"
  obtain j where j: "delay.good (int n) j" and tc: "timeout_calc \<lparr>sec = 0, usec = int n\<rparr> ?t =
      Some (word_of_int (C_of (int n) j),
        ?t\<lparr>cycles := j, reload := j, period_sec := enc32 (FNum False (S_of (int n) j))\<rparr>)"
    using delay.timeout_calc_good[OF dl, of ?t] assms(1)
    by (auto simp: oneshot_timer_def gd32_hwtimer_info_def)
  have j1: "1 \<le> j" "j \<le> 131070" and lost: "int n - j * C_of (int n) j \<le> 1"
    using j by (simp_all add: delay.good_def[OF dl] delay.lost_def[OF dl])
  define c m where "c = nat (C_of (int n) j)" and "m = nat j"
  have C0: "0 \<le> C_of (int n) j" and Cn: "C_of (int n) j \<le> int n" and jC: "j * C_of (int n) j \<le> int n"
    using delay.C_bounds[OF dl j1] by simp_all
  have mc: "int (m * c) = j * C_of (int n) j" using C0 j1 by (simp add: m_def c_def)
  then have d: "m * c = n \<or> Suc (m * c) = n" using lost jC by linarith
  have m1: "1 \<le> m" using j1 by (simp add: m_def)
  have c1: "1 \<le> c" using d assms(2) by (cases c) auto
  have cn: "c \<le> 65535" using Cn assms(3) by (simp add: c_def)
  let ?s = "if m = 1 then True else False"
  have u: "unat (ucast (word_of_int (int c) - 1 :: u32) :: u16) = c - 1"
  proof -
    have "unat (of_nat c :: u32) = c" using cn by (simp add: unat_of_nat)
    then show ?thesis using c1 cn by (simp add: unat_sub_if' unsigned_ucast_eq take_bit_eq_mod)
  qed
  define p where "p = enc32 (FNum False (S_of (int n) j))"
  define t' where "t' = ?t\<lparr>cycles := int m, reload := int m, period_sec := p\<rparr>"
  define h' where "h' = h\<lparr>tim_on := True, tim_single := m = 1, tim_cnt := 0,
    tim_reload := ucast (word_of_int (int c) - 1 :: u32)\<rparr>"
  have jm: "j = int m" "C_of (int n) j = int c" using j1 C0 by (simp_all add: m_def c_def)
  have tc': "timeout_calc \<lparr>sec = 0, usec = int n\<rparr> ?t = Some (word_of_int (int c), t')"
    using tc unfolding p_def[symmetric] t'_def jm(2) by (simp add: jm(1))
  have one: "mode t = HWTIMER_MODE_ONESHOT" using assms(1) by (simp add: oneshot_timer_def)
  have "(int m \<le> 1) = (m = 1)" using m1 by auto
  then have w: "rt_hwtimer_write g_gd32_hwtimer_ops \<lparr>sec = 0, usec = int n\<rparr> 8 (t, h) = Some (8, t', h')"
    using one by (simp add: rt_hwtimer_write_def tc' gd32_hwtimer_start_def gd32_hwtimer_stop_def
        Let_def RT_EOK_def h'_def t'_def HWTIMER_MODE_ONESHOT_def HWTIMER_MODE_PERIOD_def)
  have "m \<le> 131070" using j1 by (simp add: m_def)
  then have a: "armed c m c (t', h')"
    using assms(1) u c1 m1 by (simp add: armed_def t'_def h'_def oneshot_timer_def INT_MAX_def)
  have "(m - 1) * c + c = m * c" using m1 by (cases m) simp_all
  then show ?thesis using w d armed_callbacks[OF a] by auto
qed

lemma clamp_delay_range: "1000 \<le> sint (clamp_delay w)" "sint (clamp_delay w) \<le> 9000"
  by (auto simp: clamp_delay_def)

interpretation trigger: delay "sint (clamp_delay w)" for w
  by unfold_locales (use clamp_delay_range[of w] in linarith)+

text \<open>C3: the delay that the trigger computes from a conduction angle, written to a one-shot
  timer, calls the callback that starts the pulses exactly once, after just that many counts of
  a microsecond or one less: the search for a number of cycles in single precision costs one
  count at most, although for some delays it makes the counter run several times.\<close>

theorem trigger_fires_in_time:
  assumes "angle_to_delay_us a = Some us" "oneshot_timer t"
  shows "\<exists>th' d. rt_hwtimer_write g_gd32_hwtimer_ops \<lparr>sec = 0, usec = sint us\<rparr> 8 (t, h) = Some (8, th') \<and>
    (d = unat us \<or> Suc d = unat us) \<and> (\<forall>k. callbacks k th' = Some (of_bool (d \<le> k)))"
proof -
  obtain w where w: "us = scast (clamp_delay w)" using assms(1) by (auto simp: angle_to_delay_us_def split: option.splits)
  have s: "sint us = sint (clamp_delay w)" unfolding w
    by (rule sint_up_scast) (simp add: is_up)
  then have r: "1000 \<le> sint us" "sint us \<le> 9000" using clamp_delay_range[of w] by simp_all
  have "uint us = sint us" using r unfolding uint_sint[of us] by (intro take_bit_int_eq_self) simp_all
  then have u: "int (unat us) = sint us" by simp
  show ?thesis using oneshot_fires_in_time[OF assms(2), of "unat us" h] r u by simp
qed

lemma trigger_fires_in_time_witness:
  "let t = \<lparr>info = gd32_hwtimer_info, freq = 1000000, overflow = 0, period_sec = 0, cycles = 0,
        reload = 0, mode = HWTIMER_MODE_ONESHOT, dev_flag = 0, rx_indicate = True\<rparr>;
      h = \<lparr>tim_on = False, tim_single = False, tim_cnt = 0, tim_reload = 0xFFFF, tim_psc = 0,
        apb_freq = 60000000, apb_psc = 4\<rparr>
   in \<exists>th' d. rt_hwtimer_write g_gd32_hwtimer_ops \<lparr>sec = 0, usec = sint (5000 :: u32)\<rparr> 8 (t, h) = Some (8, th') \<and>
     (d = 5000 \<or> Suc d = 5000) \<and> (\<forall>k. callbacks k th' = Some (of_bool (d \<le> k)))"
proof -
  have a: "angle_to_delay_us (f32_of_int 90) = Some 5000" by code_simp
  show ?thesis unfolding Let_def
    using trigger_fires_in_time[OF a, of
        "\<lparr>info = gd32_hwtimer_info, freq = 1000000, overflow = 0, period_sec = 0, cycles = 0,
          reload = 0, mode = HWTIMER_MODE_ONESHOT, dev_flag = 0, rx_indicate = True\<rparr>"
        "\<lparr>tim_on = False, tim_single = False, tim_cnt = 0, tim_reload = 0xFFFF, tim_psc = 0,
          apb_freq = 60000000, apb_psc = 4\<rparr>"]
    by (simp add: oneshot_timer_def)
qed

text \<open>The time read from a timer that has not overflowed yet is the count, or one microsecond
  less.  The measurement of the mains period rests on it.\<close>

theorem timer_reads_elapsed:
  assumes "freq t = 1000000" "cntmode (info t) \<noteq> HWTIMER_CNTMODE_DW" "overflow t = 0"
    "dec32 (period_sec t) = FNum s y" "2 \<le> unat (tim_cnt h)"
  shows "\<exists>us. rt_hwtimer_read g_gd32_hwtimer_ops (t, h) = Some (Inr \<lparr>sec = 0, usec = us\<rparr>) \<and>
    (us = int (unat (tim_cnt h)) \<or> us + 1 = int (unat (tim_cnt h)))"
proof -
  define n where "n = int (unat (tim_cnt h))"
  have "unat (tim_cnt h) < 65536" using unsigned_less[of "tim_cnt h"] by simp
  then have dl: "delay n" using assms(5) unfolding n_def by unfold_locales linarith+
  note T = delay.T_abs[OF dl] delay.T_bounds[OF dl]
  have n: "2 \<le> n" "n \<le> 65535" using dl by (simp_all add: delay_def)
  have nr: "(2 :: rat) \<le> of_int n" "of_int n \<le> (65535 :: rat)" using n by simp_all
  have u: "uint (gd32_hwtimer_count_get t h) = n"
  proof -
    have "uint (tim_cnt h) < 65536" using unsigned_less[of "tim_cnt h"] by simp
    then have "take_bit 32 (uint (tim_cnt h)) = uint (tim_cnt h)" by (intro take_bit_int_eq_self) simp_all
    then show ?thesis by (simp add: gd32_hwtimer_count_get_def n_def unsigned_ucast_eq)
  qed
  have d: "fdiv fmt32 (f_int n) (f_int 1000000) = FNum False (T_of n)"
    using n nr f_int_num[of n] f_int_num[of 1000000] by (simp add: fround_num T_of_def)
  have rT: "fround fmt32 False (T_of n) = FNum False (T_of n)"
    using fround_num[of "T_of n" False] T n by (simp add: T_of_def R32_idem order.trans[of "R32 (of_int n / 1000000)" 1])
  have z: "fround fmt32 s 0 = FNum s 0" for s using fround_num[of 0 s] by simp
  have v: "fadd fmt32 (fmul fmt32 (f_int 0) (dec32 (period_sec t))) (FNum False (T_of n)) = FNum False (T_of n)"
    using f_int_num[of 0] T by (simp add: assms(4) z rT Let_def)
  have T1: "T_of n < 1" using T(4) nr by (simp add: ulp_def)
  then have s0: "\<lfloor>T_of n\<rfloor> = 0" using T(1) by (simp add: floor_eq_iff)
  have sub: "fsub fmt32 (FNum False (T_of n)) (f_int 0) = FNum False (T_of n)"
    using f_int_num[of 0] T rT by (simp add: fsub_def Let_def)
  have "R32 (T_of n / 1) = T_of n" using n by (simp add: T_of_def R32_idem)
  then have S: "S_of n 1 = T_of n" by (simp add: S_of_def)
  have us: "fmul fmt32 (FNum False (T_of n)) (f_int 1000000) = FNum False (X_of n 1)"
    using f_int_num[of 1000000] T by (simp add: X_of_def S fround_num)
  have C: "n - 1 \<le> C_of n 1" "C_of n 1 \<le> n"
    using delay.first_lost[OF dl] by (auto simp: delay.lost_def[OF dl])
  have "rt_hwtimer_read g_gd32_hwtimer_ops (t, h) = Some (Inr \<lparr>sec = 0, usec = C_of n 1\<rparr>)"
    using assms(1-3) C n
    by (simp add: rt_hwtimer_read_def u d v fp_to_s32_def fp_to_range_def s0 sub us Let_def
        flip: C_of_def)
  moreover have "C_of n 1 = n \<or> C_of n 1 + 1 = n" using C by linarith
  ultimately show ?thesis unfolding n_def by blast
qed

lemma timer_reads_elapsed_witness:
  "\<exists>us. rt_hwtimer_read g_gd32_hwtimer_ops
      (\<lparr>info = gd32_hwtimer_info, freq = 1000000, overflow = 0, period_sec = 0, cycles = 1,
         reload = 1, mode = HWTIMER_MODE_ONESHOT, dev_flag = 0, rx_indicate = True\<rparr>,
       \<lparr>tim_on = True, tim_single = True, tim_cnt = 10000, tim_reload = 19999, tim_psc = 119,
         apb_freq = 60000000, apb_psc = 4\<rparr>) = Some (Inr \<lparr>sec = 0, usec = us\<rparr>) \<and> (us = 10000 \<or> us = 9999)"
proof -
  have "dec32 0 = FNum False 0" by (simp add: dec32_def)
  then show ?thesis
    using timer_reads_elapsed[of "\<lparr>info = gd32_hwtimer_info, freq = 1000000, overflow = 0, period_sec = 0,
          cycles = 1, reload = 1, mode = HWTIMER_MODE_ONESHOT, dev_flag = 0, rx_indicate = True\<rparr>" False 0
        "\<lparr>tim_on = True, tim_single = True, tim_cnt = 10000, tim_reload = 19999, tim_psc = 119,
          apb_freq = 60000000, apb_psc = 4\<rparr>"]
    by (simp add: gd32_hwtimer_info_def HWTIMER_CNTMODE_DW_def)
qed

end
