(* ===== verification/RingView.thy ===== *)
theory RingView
  imports Fifo
begin

text \<open>
  Reading a ring: \<open>n\<close> elements of a buffer from index \<open>g\<close> on, past its end to its beginning.
  The ring of the serial driver and the ring buffer of the device drivers both hold their
  queue this way.
\<close>

definition view :: "'a list \<Rightarrow> nat \<Rightarrow> nat \<Rightarrow> 'a list" where
  "view buf g n = map (\<lambda>i. buf ! ((g + i) mod length buf)) [0..<n]"

lemma length_view [simp]: "length (view buf g n) = n"
  by (simp add: view_def)

lemma view_0 [simp]: "view buf g 0 = []"
  by (simp add: view_def)

lemma nth_view [simp]: "i < n \<Longrightarrow> view buf g n ! i = buf ! ((g + i) mod length buf)"
  by (simp add: view_def)

lemma wrap: "g < B \<Longrightarrow> i < B \<Longrightarrow> (g + i) mod B = (if g + i < B then g + i else g + i - B)" for g :: nat
  by (simp add: mod_if)

lemma view_snoc:
  assumes "n < length buf" "g < length buf"
  shows "view (buf[(g + n) mod length buf := x]) g (Suc n) = view buf g n @ [x]"
proof (rule nth_equalityI)
  fix i assume "i < length (view (buf[(g + n) mod length buf := x]) g (Suc n))"
  then have i: "i < Suc n" by simp
  have "(g + i) mod length buf \<noteq> (g + n) mod length buf" if "i < n"
    using that assms by (simp add: wrap) arith
  moreover have "(g + n) mod length buf < length buf" using assms by (intro mod_less_divisor) linarith
  ultimately show "view (buf[(g + n) mod length buf := x]) g (Suc n) ! i = (view buf g n @ [x]) ! i"
    using i by (auto simp: nth_append nth_list_update less_Suc_eq)
qed simp

lemma view_Cons:
  assumes "g < length buf"
  shows "view buf g (Suc n) = buf ! g # view buf ((g + 1) mod length buf) n"
  using assms unfolding view_def map_upt_Suc by (simp add: mod_simps)

lemma view_add: "view buf g (k + m) = view buf g k @ view buf ((g + k) mod length buf) m"
proof -
  have "[k..<k + m] = map (\<lambda>i. k + i) [0..<m]" by (simp add: map_add_upt add.commute)
  then show ?thesis unfolding view_def upt_add_eq_append[OF le0] by (simp add: comp_def mod_simps add.assoc)
qed

lemma view_split: "k \<le> n \<Longrightarrow> view buf g n = view buf g k @ view buf ((g + k) mod length buf) (n - k)"
  using view_add[of buf g k "n - k"] by simp

lemma count_unique: "g < B \<Longrightarrow> n < B \<Longrightarrow> ((g + n) mod B + B - g) mod B = n" for g :: nat
  by (auto simp: wrap mod_if)

text \<open>A view is one slice of the buffer, or two.\<close>

lemma view_slices:
  assumes "g < length buf" "n \<le> length buf"
  shows "view buf g n = (if g + n < length buf then take n (drop g buf)
    else drop g buf @ take (n - (length buf - g)) buf)"
  using assms by (intro nth_equalityI) (auto simp: nth_append mod_if add.commute)

section \<open>Storing a block\<close>

text \<open>A block of at most the length of the ring, from index \<open>w\<close> on.\<close>

definition ring_store :: "nat \<Rightarrow> 'a list \<Rightarrow> 'a list \<Rightarrow> 'a list" where
  "ring_store w xs buf =
     (if w + length xs < length buf then blit buf w xs
      else blit (blit buf w (take (length buf - w) xs)) 0 (drop (length buf - w) xs))"

lemma length_ring_store [simp]:
  "w < length buf \<Longrightarrow> length xs \<le> length buf \<Longrightarrow> length (ring_store w xs buf) = length buf"
  by (simp add: ring_store_def)

lemma ring_store_nth:
  assumes "w < length buf" "length xs \<le> length buf" "t < length buf"
  shows "ring_store w xs buf ! ((w + t) mod length buf) =
    (if t < length xs then xs ! t else buf ! ((w + t) mod length buf))"
proof (cases "w + length xs < length buf")
  case True
  with assms show ?thesis by (cases "w + t < length buf") (auto simp: ring_store_def nth_blit wrap)
next
  case False
  define a b where "a = take (length buf - w) xs" and "b = drop (length buf - w) xs"
  have len: "length a = length buf - w" "length b = w + length xs - length buf"
    using assms False by (auto simp: a_def b_def)
  have l: "length (blit buf w a) = length buf" using len assms by simp
  have "ring_store w xs buf ! j = (if j < length b then b ! j else if w \<le> j then a ! (j - w) else buf ! j)"
    if "j < length buf" for j
    using False that len l assms by (simp add: ring_store_def nth_blit flip: a_def b_def)
  then show ?thesis using assms len False
    by (cases "w + t < length buf") (auto simp: wrap a_def b_def add.commute)
qed

text \<open>What a ring holds before its end \<open>e\<close>.  After a block is stored these are the newest
  elements of what was there and the block.\<close>

definition last_view :: "'a list \<Rightarrow> nat \<Rightarrow> nat \<Rightarrow> 'a list" where
  "last_view buf e n = view buf ((e + length buf - n) mod length buf) n"

lemma last_view_store:
  assumes "w < length buf" "length xs \<le> length buf" "n \<le> length buf" "m \<le> length buf" "m \<le> n + length xs"
  shows "last_view (ring_store w xs buf) ((w + length xs) mod length buf) m =
    drop (n + length xs - m) (last_view buf w n @ xs)"
proof (rule nth_equalityI)
  let ?B = "length buf" and ?k = "length xs"
  fix i assume "i < length (last_view (ring_store w xs buf) ((w + ?k) mod ?B) m)"
  then have i: "i < m" by (simp add: last_view_def)
  have B: "0 < ?B" using assms(1) by linarith
  define t where "t = (if m - i \<le> ?k then ?k - (m - i) else ?k + ?B - (m - i))"
  have t: "t < ?B" using i assms B by (auto simp: t_def)
  have "(w + ?k + ?B - m + i) mod ?B = (w + t) mod ?B"
  proof (cases "m - i \<le> ?k")
    case True
    then have "w + ?k + ?B - m + i = w + t + ?B" using i assms by (auto simp: t_def)
    then show ?thesis by simp
  next
    case False
    then have "w + ?k + ?B - m + i = w + t" using i assms by (auto simp: t_def)
    then show ?thesis by simp
  qed
  moreover have "(((w + ?k) mod ?B + ?B - m) mod ?B + i) mod ?B = (w + ?k + ?B - m + i) mod ?B"
    using assms(4) by (simp add: mod_simps diff_add_assoc add.assoc flip: Nat.add_diff_assoc)
  ultimately have l: "last_view (ring_store w xs buf) ((w + ?k) mod ?B) m ! i =
      (if t < ?k then xs ! t else buf ! ((w + t) mod ?B))"
    using i assms t by (simp add: last_view_def ring_store_nth)
  show "last_view (ring_store w xs buf) ((w + ?k) mod ?B) m ! i = drop (n + ?k - m) (last_view buf w n @ xs) ! i"
  proof (cases "m - i \<le> ?k")
    case True
    then have e: "n + ?k - m + i = n + t" "t < ?k" using i assms by (auto simp: t_def)
    have "drop (n + ?k - m) (last_view buf w n @ xs) ! i = (last_view buf w n @ xs) ! (n + t)"
      using e(1) i assms by (subst nth_drop) (simp_all add: last_view_def)
    then show ?thesis using l e(2) by (simp add: last_view_def nth_append)
  next
    case False
    define j where "j = n + ?k - m + i"
    have j: "j < n" using False i assms by (simp add: j_def)
    have e: "w + ?B - n + j = w + t" using False i assms by (simp add: j_def t_def)
    have "((w + ?B - n) mod ?B + j) mod ?B = (w + t) mod ?B" unfolding e[symmetric] by (simp add: mod_simps)
    then have "last_view buf w n ! j = buf ! ((w + t) mod ?B)" using j by (simp add: last_view_def)
    moreover have "\<not> t < ?k" using False i assms by (auto simp: t_def)
    moreover have "drop (n + ?k - m) (last_view buf w n @ xs) ! i = (last_view buf w n @ xs) ! j"
      unfolding j_def using i assms by (subst nth_drop) (simp_all add: last_view_def)
    ultimately show ?thesis using l j by (simp add: nth_append last_view_def)
  qed
qed (use assms in \<open>simp add: last_view_def\<close>)

text \<open>The newest elements, all that a queue with room for \<open>cap\<close> can keep.\<close>

definition newest :: "nat \<Rightarrow> 'a list \<Rightarrow> 'a list" where
  "newest cap xs = drop (length xs - cap) xs"

lemma newest_snoc:
  assumes "0 < cap"
  shows "newest cap (xs @ [x]) = (if length (newest cap xs) = cap then tl (newest cap xs) else newest cap xs) @ [x]"
proof (cases "cap \<le> length xs")
  case True
  then have "Suc (length xs) - cap = Suc (length xs - cap)" by simp
  with True assms show ?thesis by (simp add: newest_def drop_Suc tl_drop)
next
  case False
  then show ?thesis by (auto simp: newest_def)
qed

end
