(* ===== verification/Serial.thy ===== *)
theory Serial
  imports MbRtu RingView
begin

text \<open>
  Devices and serial ports: rt-thread/src/device.c with its count of openings, and
  rt-thread/components/drivers/serial/serial.c, whose receive interrupt stores bytes in a ring
  from which the device is read.  A device is its header and a state \<open>'s\<close> of its driver; the
  functions of a driver are a record, a null pointer in it is \<open>None\<close>; the argument of a control
  call is a null pointer, or a number, or what it points to.  A result \<open>None\<close> is a failed
  assertion, a missing buffer, or an interrupt that does not end.  Sending by interrupt or DMA
  is not used by the firmware and not modelled.  The lemmas show that the ring is a queue that
  keeps the newest bytes, and that the Modbus receiver gets the bytes of the line.
\<close>

section \<open>device.c\<close>

record dev_hdr =
  dflag :: u16
  dopen :: u16
  drefs :: u8
  drx_ind :: bool
  dtx_ind :: bool

type_synonym 's device_st = "dev_hdr \<times> 's"

record 's dev_ops =
  dv_init :: "('s device_st \<Rightarrow> (int \<times> 's device_st) option) option"
  dv_open :: "(u16 \<Rightarrow> 's device_st \<Rightarrow> (int \<times> 's device_st) option) option"
  dv_close :: "('s device_st \<Rightarrow> (int \<times> 's device_st) option) option"
  dv_read :: "(nat \<Rightarrow> 's device_st \<Rightarrow> (nat \<times> u8 list \<times> 's device_st) option) option"
  dv_write :: "(u8 list \<Rightarrow> 's device_st \<Rightarrow> (nat \<times> 's device_st) option) option"
  dv_control :: "(int \<Rightarrow> u16 option \<Rightarrow> 's device_st \<Rightarrow> (int \<times> 's device_st) option) option"

definition DEV_ENOSYS :: int where "DEV_ENOSYS = 6"
definition DEV_EBUSY :: int where "DEV_EBUSY = 7"
definition DEV_EIO :: int where "DEV_EIO = 8"
definition RT_DEVICE_FLAG_STANDALONE :: u16 where "RT_DEVICE_FLAG_STANDALONE = 0x008"
definition DEV_FLAG_ACTIVATED :: u16 where "DEV_FLAG_ACTIVATED = 0x010"
definition RT_DEVICE_FLAG_SUSPENDED :: u16 where "RT_DEVICE_FLAG_SUSPENDED = 0x020"
definition RT_DEVICE_FLAG_STREAM :: u16 where "RT_DEVICE_FLAG_STREAM = 0x040"
definition RT_DEVICE_FLAG_INT_RX :: u16 where "RT_DEVICE_FLAG_INT_RX = 0x100"
definition RT_DEVICE_FLAG_DMA_RX :: u16 where "RT_DEVICE_FLAG_DMA_RX = 0x200"
definition RT_DEVICE_FLAG_INT_TX :: u16 where "RT_DEVICE_FLAG_INT_TX = 0x400"
definition RT_DEVICE_FLAG_DMA_TX :: u16 where "RT_DEVICE_FLAG_DMA_TX = 0x800"
definition RT_DEVICE_OFLAG_CLOSE :: u16 where "RT_DEVICE_OFLAG_CLOSE = 0x000"
definition RT_DEVICE_OFLAG_RDWR :: u16 where "RT_DEVICE_OFLAG_RDWR = 0x003"
definition RT_DEVICE_OFLAG_OPEN :: u16 where "RT_DEVICE_OFLAG_OPEN = 0x008"
definition RT_DEVICE_OFLAG_MASK :: u16 where "RT_DEVICE_OFLAG_MASK = 0xf0f"

definition in_flags :: "u16 \<Rightarrow> u16 \<Rightarrow> bool" where
  "in_flags f fs \<longleftrightarrow> fs AND f \<noteq> 0"

text \<open>\<open>found\<close>: a device of the name is there already.\<close>

definition rt_device_register :: "bool \<Rightarrow> u16 \<Rightarrow> dev_hdr \<Rightarrow> int \<times> dev_hdr" where
  "rt_device_register found flags d =
     (if found then (- RT_ERROR, d) else (RT_EOK, d\<lparr>dflag := flags, drefs := 0, dopen := 0\<rparr>))"

definition rt_device_init :: "'s dev_ops \<Rightarrow> 's device_st \<Rightarrow> (int \<times> 's device_st) option" where
  "rt_device_init ops ds =
     (case dv_init ops of
        None \<Rightarrow> Some (RT_EOK, ds)
      | Some f \<Rightarrow>
          if in_flags DEV_FLAG_ACTIVATED (dflag (fst ds)) then Some (RT_EOK, ds)
          else do {
            (r, d, s) \<leftarrow> f ds;
            Some (r, if r \<noteq> RT_EOK then d else d\<lparr>dflag := dflag d OR DEV_FLAG_ACTIVATED\<rparr>, s) })"

definition device_ready :: "'s dev_ops \<Rightarrow> 's device_st \<Rightarrow> (int \<times> 's device_st) option" where
  "device_ready ops ds =
     (if in_flags DEV_FLAG_ACTIVATED (dflag (fst ds)) then Some (RT_EOK, ds)
      else do {
        (r, d, s) \<leftarrow> (case dv_init ops of None \<Rightarrow> Some (RT_EOK, ds) | Some f \<Rightarrow> f ds);
        Some (r, if r \<noteq> RT_EOK then d else d\<lparr>dflag := dflag d OR DEV_FLAG_ACTIVATED\<rparr>, s) })"

definition rt_device_open :: "'s dev_ops \<Rightarrow> u16 \<Rightarrow> 's device_st \<Rightarrow> (int \<times> 's device_st) option" where
  "rt_device_open ops oflag ds = do {
     (r, d, s) \<leftarrow> device_ready ops ds;
     if r \<noteq> RT_EOK then Some (r, d, s)
     else if in_flags RT_DEVICE_FLAG_STANDALONE (dflag d) \<and> in_flags RT_DEVICE_OFLAG_OPEN (dopen d)
     then Some (- DEV_EBUSY, d, s)
     else do {
       (r, d, s) \<leftarrow> (case dv_open ops of
          Some f \<Rightarrow> f oflag (d, s)
        | None \<Rightarrow> Some (RT_EOK, d\<lparr>dopen := oflag AND RT_DEVICE_OFLAG_MASK\<rparr>, s));
       if r = RT_EOK \<or> r = - DEV_ENOSYS then
         let d = d\<lparr>dopen := dopen d OR RT_DEVICE_OFLAG_OPEN, drefs := drefs d + 1\<rparr>
         in if drefs d \<noteq> 0 then Some (r, d, s) else None
       else Some (r, d, s) } }"

definition rt_device_close :: "'s dev_ops \<Rightarrow> 's device_st \<Rightarrow> (int \<times> 's device_st) option" where
  "rt_device_close ops ds =
     (case ds of (d, s) \<Rightarrow>
        if drefs d = 0 then Some (- RT_ERROR, d, s)
        else
          let d = d\<lparr>drefs := drefs d - 1\<rparr>
          in if drefs d \<noteq> 0 then Some (RT_EOK, d, s)
             else do {
               (r, d, s) \<leftarrow> (case dv_close ops of Some f \<Rightarrow> f (d, s) | None \<Rightarrow> Some (RT_EOK, d, s));
               Some (r, if r = RT_EOK \<or> r = - DEV_ENOSYS then d\<lparr>dopen := RT_DEVICE_OFLAG_CLOSE\<rparr> else d, s) })"

definition rt_device_read :: "'s dev_ops \<Rightarrow> nat \<Rightarrow> 's device_st \<Rightarrow> (nat \<times> u8 list \<times> 's device_st) option" where
  "rt_device_read ops n ds =
     (if drefs (fst ds) = 0 then Some (0, [], ds)
      else case dv_read ops of Some f \<Rightarrow> f n ds | None \<Rightarrow> Some (0, [], ds))"

definition rt_device_write :: "'s dev_ops \<Rightarrow> u8 list \<Rightarrow> 's device_st \<Rightarrow> (nat \<times> 's device_st) option" where
  "rt_device_write ops bs ds =
     (if drefs (fst ds) = 0 then Some (0, ds)
      else case dv_write ops of Some f \<Rightarrow> f bs ds | None \<Rightarrow> Some (0, ds))"

definition rt_device_control :: "'s dev_ops \<Rightarrow> int \<Rightarrow> u16 option \<Rightarrow> 's device_st \<Rightarrow> (int \<times> 's device_st) option" where
  "rt_device_control ops cmd arg ds =
     (case dv_control ops of Some f \<Rightarrow> f cmd arg ds | None \<Rightarrow> Some (- DEV_ENOSYS, ds))"

definition rt_device_set_rx_indicate :: "bool \<Rightarrow> dev_hdr \<Rightarrow> int \<times> dev_hdr" where
  "rt_device_set_rx_indicate ind d = (RT_EOK, d\<lparr>drx_ind := ind\<rparr>)"

definition rt_device_set_tx_complete :: "bool \<Rightarrow> dev_hdr \<Rightarrow> int \<times> dev_hdr" where
  "rt_device_set_tx_complete ind d = (RT_EOK, d\<lparr>dtx_ind := ind\<rparr>)"

section \<open>The receive ring of serial.c\<close>

text \<open>\<open>struct rt_serial_rx_fifo\<close>; \<open>bufsz\<close> is a field of 16 bits.\<close>

record rx_fifo =
  buffer :: "u8 list"
  put_index :: u16
  get_index :: u16
  is_full :: bool

text \<open>The index after \<open>i\<close>, \<open>if (i >= bufsz) i = 0\<close>.\<close>

definition next_index :: "u16 \<Rightarrow> u16 \<Rightarrow> u16" where
  "next_index bufsz i = (if bufsz \<le> i + 1 then 0 else i + 1)"

text \<open>One byte out of the ring: the body of the loop of \<open>_serial_int_rx\<close>, \<open>None\<close> is its \<open>break\<close>.\<close>

definition ring_get :: "u16 \<Rightarrow> rx_fifo \<Rightarrow> (u8 \<times> rx_fifo) option" where
  "ring_get bufsz f =
     (if get_index f = put_index f \<and> \<not> is_full f then None
      else Some (buffer f ! unat (get_index f),
        f\<lparr>get_index := next_index bufsz (get_index f), is_full := False\<rparr>))"

fun serial_int_rx :: "u16 \<Rightarrow> nat \<Rightarrow> rx_fifo \<Rightarrow> u8 list \<times> rx_fifo" where
  "serial_int_rx bufsz 0 f = ([], f)"
| "serial_int_rx bufsz (Suc n) f =
     (case ring_get bufsz f of
        None \<Rightarrow> ([], f)
      | Some (b, f) \<Rightarrow> (case serial_int_rx bufsz n f of (bs, f) \<Rightarrow> (b # bs, f)))"

text \<open>One byte into the ring, in \<open>rt_hw_serial_isr\<close>: the oldest byte makes room.\<close>

definition ring_put :: "u16 \<Rightarrow> u8 \<Rightarrow> rx_fifo \<Rightarrow> rx_fifo" where
  "ring_put bufsz ch f =
     (let f = f\<lparr>buffer := (buffer f)[unat (put_index f) := ch], put_index := next_index bufsz (put_index f)\<rparr>
      in if put_index f = get_index f
         then f\<lparr>is_full := True, get_index := next_index bufsz (get_index f)\<rparr>
         else f)"

text \<open>The length that the interrupt indicates, and \<open>_serial_fifo_calc_recved_len\<close>.\<close>

definition rx_length :: "u16 \<Rightarrow> rx_fifo \<Rightarrow> nat" where
  "rx_length bufsz f =
     (if get_index f \<le> put_index f then unat (put_index f) - unat (get_index f)
      else unat bufsz - (unat (get_index f) - unat (put_index f)))"

definition serial_fifo_calc_recved_len :: "u16 \<Rightarrow> rx_fifo \<Rightarrow> nat" where
  "serial_fifo_calc_recved_len bufsz f =
     (if put_index f = get_index f then (if \<not> is_full f then 0 else unat bufsz)
      else if get_index f < put_index f then unat (put_index f) - unat (get_index f)
      else unat bufsz - (unat (get_index f) - unat (put_index f)))"

section \<open>serial.c\<close>

text \<open>The hardware below: \<open>getc\<close> gives \<open>None\<close> for -1.\<close>

record 'h uart_ops =
  u_configure :: "'h \<Rightarrow> int \<times> 'h"
  u_control :: "int \<Rightarrow> u16 \<Rightarrow> 'h \<Rightarrow> int \<times> 'h"
  u_putc :: "u8 \<Rightarrow> 'h \<Rightarrow> int \<times> 'h"
  u_getc :: "'h \<Rightarrow> u8 option \<times> 'h"

text \<open>What \<open>serial_rx\<close> and \<open>serial_tx\<close> point to.\<close>

datatype rx_mode = RxFifo rx_fifo | RxDma bool
datatype tx_mode = TxFifo | TxDma bool

record 'h serial =
  bufsz :: u16
  serial_rx :: "rx_mode option"
  serial_tx :: "tx_mode option"
  uart :: 'h

definition RT_DEVICE_CTRL_RESUME :: int where "RT_DEVICE_CTRL_RESUME = 0x01"
definition RT_DEVICE_CTRL_SUSPEND :: int where "RT_DEVICE_CTRL_SUSPEND = 0x02"
definition RT_DEVICE_CTRL_CONFIG :: int where "RT_DEVICE_CTRL_CONFIG = 0x03"
definition RT_DEVICE_CTRL_CLOSE :: int where "RT_DEVICE_CTRL_CLOSE = 0x04"
definition RT_DEVICE_CTRL_SET_INT :: int where "RT_DEVICE_CTRL_SET_INT = 0x10"
definition RT_DEVICE_CTRL_CLR_INT :: int where "RT_DEVICE_CTRL_CLR_INT = 0x11"

fun serial_poll_rx :: "'h uart_ops \<Rightarrow> bool \<Rightarrow> nat \<Rightarrow> 'h \<Rightarrow> u8 list \<times> 'h" where
  "serial_poll_rx ops stream 0 h = ([], h)"
| "serial_poll_rx ops stream (Suc n) h =
     (case u_getc ops h of
        (None, h) \<Rightarrow> ([], h)
      | (Some ch, h) \<Rightarrow>
          if stream \<and> ch = 0x0A then ([ch], h)
          else (case serial_poll_rx ops stream n h of (bs, h) \<Rightarrow> (ch # bs, h)))"

fun serial_poll_tx :: "'h uart_ops \<Rightarrow> bool \<Rightarrow> u8 list \<Rightarrow> 'h \<Rightarrow> 'h" where
  "serial_poll_tx ops stream [] h = h"
| "serial_poll_tx ops stream (b # bs) h =
     (let h = (if b = 0x0A \<and> stream then snd (u_putc ops 0x0D h) else h)
      in serial_poll_tx ops stream bs (snd (u_putc ops b h)))"

definition control_uart :: "'h uart_ops \<Rightarrow> int \<Rightarrow> u16 \<Rightarrow> 'h serial \<Rightarrow> 'h serial" where
  "control_uart ops cmd arg s = s\<lparr>uart := snd (u_control ops cmd arg (uart s))\<rparr>"

definition rt_serial_init :: "'h uart_ops \<Rightarrow> 'h serial device_st \<Rightarrow> (int \<times> 'h serial device_st) option" where
  "rt_serial_init ops ds =
     (case ds of (d, s) \<Rightarrow> case u_configure ops (uart s) of
        (r, h) \<Rightarrow> Some (r, d, s\<lparr>serial_rx := None, serial_tx := None, uart := h\<rparr>))"

definition new_fifo :: "u16 \<Rightarrow> rx_fifo" where
  "new_fifo sz = \<lparr>buffer = replicate (unat sz) 0, put_index = 0, get_index = 0, is_full = False\<rparr>"

text \<open>The two halves of \<open>rt_serial_open\<close>; the memory it allocates is there.\<close>

definition open_rx :: "'h uart_ops \<Rightarrow> u16 \<Rightarrow> 'h serial device_st \<Rightarrow> 'h serial device_st" where
  "open_rx ops fl ds =
     (case ds of (d, s) \<Rightarrow>
        let intd = d\<lparr>dopen := dopen d OR RT_DEVICE_FLAG_INT_RX\<rparr>;
            dmad = d\<lparr>dopen := dopen d OR RT_DEVICE_FLAG_DMA_RX\<rparr>
        in if serial_rx s = None then
             (if in_flags RT_DEVICE_FLAG_INT_RX fl then
                (intd, control_uart ops RT_DEVICE_CTRL_SET_INT RT_DEVICE_FLAG_INT_RX
                         (s\<lparr>serial_rx := Some (RxFifo (new_fifo (bufsz s)))\<rparr>))
              else if in_flags RT_DEVICE_FLAG_DMA_RX fl then
                (dmad, if bufsz s = 0 then s\<lparr>serial_rx := Some (RxDma False)\<rparr>
                       else control_uart ops RT_DEVICE_CTRL_CONFIG RT_DEVICE_FLAG_DMA_RX
                              (s\<lparr>serial_rx := Some (RxFifo (new_fifo (bufsz s)))\<rparr>))
              else (d, s))
           else (if in_flags RT_DEVICE_FLAG_INT_RX fl then intd
                 else if in_flags RT_DEVICE_FLAG_DMA_RX fl then dmad else d, s))"

definition open_tx :: "'h uart_ops \<Rightarrow> u16 \<Rightarrow> 'h serial device_st \<Rightarrow> 'h serial device_st" where
  "open_tx ops fl ds =
     (case ds of (d, s) \<Rightarrow>
        let intd = d\<lparr>dopen := dopen d OR RT_DEVICE_FLAG_INT_TX\<rparr>;
            dmad = d\<lparr>dopen := dopen d OR RT_DEVICE_FLAG_DMA_TX\<rparr>
        in if serial_tx s = None then
             (if in_flags RT_DEVICE_FLAG_INT_TX fl then
                (intd, control_uart ops RT_DEVICE_CTRL_SET_INT RT_DEVICE_FLAG_INT_TX
                         (s\<lparr>serial_tx := Some TxFifo\<rparr>))
              else if in_flags RT_DEVICE_FLAG_DMA_TX fl then
                (dmad, control_uart ops RT_DEVICE_CTRL_CONFIG RT_DEVICE_FLAG_DMA_TX
                         (s\<lparr>serial_tx := Some (TxDma False)\<rparr>))
              else (d, s))
           else (if in_flags RT_DEVICE_FLAG_INT_TX fl then intd
                 else if in_flags RT_DEVICE_FLAG_DMA_TX fl then dmad else d, s))"

definition lacks :: "u16 \<Rightarrow> u16 \<Rightarrow> dev_hdr \<Rightarrow> bool" where
  "lacks f fl d \<longleftrightarrow> in_flags f fl \<and> \<not> in_flags f (dflag d)"

definition rt_serial_open :: "'h uart_ops \<Rightarrow> u16 \<Rightarrow> 'h serial device_st \<Rightarrow> (int \<times> 'h serial device_st) option" where
  "rt_serial_open ops fl ds =
     (case ds of (d, s) \<Rightarrow>
        if lacks RT_DEVICE_FLAG_DMA_RX fl d \<or> lacks RT_DEVICE_FLAG_DMA_TX fl d
           \<or> lacks RT_DEVICE_FLAG_INT_RX fl d \<or> lacks RT_DEVICE_FLAG_INT_TX fl d
        then Some (- DEV_EIO, d, s)
        else
          let stream = (if in_flags RT_DEVICE_FLAG_STREAM fl \<or> in_flags RT_DEVICE_FLAG_STREAM (dopen d)
                        then RT_DEVICE_FLAG_STREAM else 0);
              (d, s) = open_tx ops fl (open_rx ops fl (d\<lparr>dopen := fl AND 0xff\<rparr>, s))
          in Some (RT_EOK, d\<lparr>dopen := dopen d OR stream\<rparr>, s))"

text \<open>\<open>None\<close>: the flag says that there is a structure and there is none, or one of another kind.\<close>

definition close_rx :: "'h uart_ops \<Rightarrow> 'h serial device_st \<Rightarrow> 'h serial device_st option" where
  "close_rx ops ds =
     (case ds of (d, s) \<Rightarrow>
        if in_flags RT_DEVICE_FLAG_INT_RX (dopen d) then
          (case serial_rx s of
             Some (RxFifo _) \<Rightarrow> Some (d\<lparr>dopen := dopen d AND NOT RT_DEVICE_FLAG_INT_RX\<rparr>,
               (control_uart ops RT_DEVICE_CTRL_CLR_INT RT_DEVICE_FLAG_INT_RX s)\<lparr>serial_rx := None\<rparr>)
           | _ \<Rightarrow> None)
        else if in_flags RT_DEVICE_FLAG_DMA_RX (dopen d) then
          (if (case serial_rx s of Some (RxDma _) \<Rightarrow> bufsz s = 0 | Some (RxFifo _) \<Rightarrow> bufsz s \<noteq> 0 | None \<Rightarrow> False)
           then Some (d\<lparr>dopen := dopen d AND NOT RT_DEVICE_FLAG_DMA_RX\<rparr>,
             (control_uart ops RT_DEVICE_CTRL_CLR_INT RT_DEVICE_FLAG_DMA_RX s)\<lparr>serial_rx := None\<rparr>)
           else None)
        else Some (d, s))"

definition close_tx :: "'h uart_ops \<Rightarrow> 'h serial device_st \<Rightarrow> 'h serial device_st option" where
  "close_tx ops ds =
     (case ds of (d, s) \<Rightarrow>
        if in_flags RT_DEVICE_FLAG_INT_TX (dopen d) then
          (case serial_tx s of
             Some TxFifo \<Rightarrow> Some (d\<lparr>dopen := dopen d AND NOT RT_DEVICE_FLAG_INT_TX\<rparr>,
               (control_uart ops RT_DEVICE_CTRL_CLR_INT RT_DEVICE_FLAG_INT_TX s)\<lparr>serial_tx := None\<rparr>)
           | _ \<Rightarrow> None)
        else if in_flags RT_DEVICE_FLAG_DMA_TX (dopen d) then
          (case serial_tx s of
             Some (TxDma _) \<Rightarrow> Some (d\<lparr>dopen := dopen d AND NOT RT_DEVICE_FLAG_DMA_TX\<rparr>,
               (control_uart ops RT_DEVICE_CTRL_CLR_INT RT_DEVICE_FLAG_DMA_TX s)\<lparr>serial_tx := None\<rparr>)
           | _ \<Rightarrow> None)
        else Some (d, s))"

definition rt_serial_close :: "'h uart_ops \<Rightarrow> 'h serial device_st \<Rightarrow> (int \<times> 'h serial device_st) option" where
  "rt_serial_close ops ds =
     (if 1 < drefs (fst ds) then Some (RT_EOK, ds)
      else do {
        ds \<leftarrow> close_rx ops ds;
        (d, s) \<leftarrow> close_tx ops ds;
        Some (RT_EOK, d\<lparr>dflag := dflag d AND NOT DEV_FLAG_ACTIVATED\<rparr>,
          control_uart ops RT_DEVICE_CTRL_CLOSE 0 s) })"

text \<open>Reading, but not from a DMA ring.\<close>

definition rt_serial_read ::
    "'h uart_ops \<Rightarrow> nat \<Rightarrow> 'h serial device_st \<Rightarrow> (nat \<times> u8 list \<times> 'h serial device_st) option" where
  "rt_serial_read ops n ds =
     (case ds of (d, s) \<Rightarrow>
        if n = 0 then Some (0, [], d, s)
        else if in_flags RT_DEVICE_FLAG_INT_RX (dopen d) then
          (case serial_rx s of
             Some (RxFifo f) \<Rightarrow> (case serial_int_rx (bufsz s) n f of
               (bs, f) \<Rightarrow> Some (length bs, bs, d, s\<lparr>serial_rx := Some (RxFifo f)\<rparr>))
           | _ \<Rightarrow> None)
        else if in_flags RT_DEVICE_FLAG_DMA_RX (dopen d) then None
        else (case serial_poll_rx ops (in_flags RT_DEVICE_FLAG_STREAM (dopen d)) n (uart s) of
          (bs, h) \<Rightarrow> Some (length bs, bs, d, s\<lparr>uart := h\<rparr>)))"

text \<open>The receive interrupt: all bytes the hardware has, then the length to indicate, if any.\<close>

partial_function (option) isr_rx_loop ::
    "'h uart_ops \<Rightarrow> u16 \<Rightarrow> rx_fifo \<Rightarrow> 'h \<Rightarrow> (rx_fifo \<times> 'h) option" where
  "isr_rx_loop ops sz f h =
     (case u_getc ops h of
        (None, h) \<Rightarrow> Some (f, h)
      | (Some ch, h) \<Rightarrow> isr_rx_loop ops sz (ring_put sz ch f) h)"

definition serial_isr_rx_ind ::
    "'h uart_ops \<Rightarrow> 'h serial device_st \<Rightarrow> (nat option \<times> 'h serial device_st) option" where
  "serial_isr_rx_ind ops ds =
     (case ds of (d, s) \<Rightarrow> case serial_rx s of
        Some (RxFifo f) \<Rightarrow> do {
          (f, h) \<leftarrow> isr_rx_loop ops (bufsz s) f (uart s);
          let n = rx_length (bufsz s) f;
          Some (if drx_ind d \<and> n \<noteq> 0 then Some n else None, d, s\<lparr>serial_rx := Some (RxFifo f), uart := h\<rparr>) }
      | _ \<Rightarrow> None)"


text \<open>Sending without interrupts; \<open>None\<close> for a device opened to send in another way.\<close>

definition rt_serial_write :: "'h uart_ops \<Rightarrow> u8 list \<Rightarrow> 'h serial device_st \<Rightarrow> (nat \<times> 'h serial device_st) option" where
  "rt_serial_write ops bs ds =
     (case ds of (d, s) \<Rightarrow>
        if bs = [] then Some (0, d, s)
        else if in_flags RT_DEVICE_FLAG_INT_TX (dopen d) \<or> in_flags RT_DEVICE_FLAG_DMA_TX (dopen d) then None
        else Some (length bs, d, s\<lparr>uart := serial_poll_tx ops (in_flags RT_DEVICE_FLAG_STREAM (dopen d)) bs (uart s)\<rparr>))"

text \<open>\<open>rt_serial_control\<close>; the new size of the buffer stands for the configuration.\<close>

definition rt_serial_control :: "'h uart_ops \<Rightarrow> int \<Rightarrow> u16 option \<Rightarrow> 'h serial device_st \<Rightarrow> int \<times> 'h serial device_st" where
  "rt_serial_control ops cmd arg ds =
     (case ds of (d, s) \<Rightarrow>
        if cmd = RT_DEVICE_CTRL_SUSPEND then (RT_EOK, d\<lparr>dflag := dflag d OR RT_DEVICE_FLAG_SUSPENDED\<rparr>, s)
        else if cmd = RT_DEVICE_CTRL_RESUME then (RT_EOK, d\<lparr>dflag := dflag d AND NOT RT_DEVICE_FLAG_SUSPENDED\<rparr>, s)
        else if cmd = RT_DEVICE_CTRL_CONFIG then
          (case arg of
             None \<Rightarrow> (RT_EOK, d, s)
           | Some sz \<Rightarrow>
               if sz \<noteq> bufsz s \<and> drefs d \<noteq> 0 then (DEV_EBUSY, d, s)
               else (RT_EOK, d, (if drefs d \<noteq> 0 then s\<lparr>uart := snd (u_configure ops (uart s))\<rparr> else s)\<lparr>bufsz := sz\<rparr>))
        else (case u_control ops cmd (case arg of None \<Rightarrow> 0 | Some a \<Rightarrow> a) (uart s) of
          (r, h) \<Rightarrow> (r, d, s\<lparr>uart := h\<rparr>)))"

definition serial_ops :: "'h uart_ops \<Rightarrow> 'h serial dev_ops" where
  "serial_ops ops =
     \<lparr>dv_init = Some (rt_serial_init ops), dv_open = Some (rt_serial_open ops),
      dv_close = Some (rt_serial_close ops), dv_read = Some (rt_serial_read ops),
      dv_write = Some (rt_serial_write ops),
      dv_control = Some (\<lambda>cmd arg ds. Some (rt_serial_control ops cmd arg ds))\<rparr>"

section \<open>The port of the Modbus slave\<close>

text \<open>\<open>serial_rx_ind\<close> of port/portserial.c: the receiver reads one byte of the device for each byte
  indicated.  \<open>None\<close> also stands for a byte that is not there.\<close>

fun port_serial_rx_ind ::
    "'h uart_ops \<Rightarrow> nat \<Rightarrow> 'h serial device_st \<Rightarrow> rtu \<Rightarrow> ('h serial device_st \<times> rtu) option" where
  "port_serial_rx_ind ops 0 ds r = Some (ds, r)"
| "port_serial_rx_ind ops (Suc n) ds r = do {
     (_, bs, ds) \<leftarrow> rt_serial_read ops 1 ds;
     case bs of
       [b] \<Rightarrow> do { r \<leftarrow> xMBRTUReceiveFSM b r; port_serial_rx_ind ops n ds r }
     | _ \<Rightarrow> None }"

text \<open>The interrupt of the UART with its callback.\<close>

definition uart_interrupt ::
    "'h uart_ops \<Rightarrow> 'h serial device_st \<Rightarrow> rtu \<Rightarrow> ('h serial device_st \<times> rtu) option" where
  "uart_interrupt ops ds r = do {
     (ind, ds) \<leftarrow> serial_isr_rx_ind ops ds;
     case ind of None \<Rightarrow> Some (ds, r) | Some n \<Rightarrow> port_serial_rx_ind ops n ds r }"

text \<open>\<open>vMBPortClose\<close> calls the driver and not the device.\<close>

definition vMBPortClose :: "'h uart_ops \<Rightarrow> 'h serial device_st \<Rightarrow> (int \<times> 'h serial device_st) option" where
  "vMBPortClose ops ds = rt_serial_close ops ds"

section \<open>The ring as a queue\<close>

definition rx_count :: "u16 \<Rightarrow> rx_fifo \<Rightarrow> nat" where
  "rx_count sz f = (unat (put_index f) + unat sz - unat (get_index f)) mod unat sz"

definition content :: "u16 \<Rightarrow> rx_fifo \<Rightarrow> u8 list" where
  "content sz f = view (buffer f) (unat (get_index f)) (rx_count sz f)"

definition ring_ok :: "u16 \<Rightarrow> rx_fifo \<Rightarrow> bool" where
  "ring_ok sz f \<longleftrightarrow> 2 \<le> unat sz \<and> length (buffer f) = unat sz \<and> put_index f < sz \<and> get_index f < sz \<and>
     (is_full f \<longrightarrow> put_index f \<noteq> get_index f)"

lemma ring_counts:
  assumes "ring_ok sz f"
  shows "rx_count sz f < unat sz" "unat (put_index f) = (unat (get_index f) + rx_count sz f) mod unat sz"
    "rx_length sz f = rx_count sz f" "rx_count sz f = 0 \<longleftrightarrow> put_index f = get_index f"
  using assms
  by (auto simp: ring_ok_def rx_count_def rx_length_def word_less_nat_alt word_le_nat_alt mod_if word_unat_eq_iff)

lemma unat_next_index: "i < sz \<Longrightarrow> unat (next_index sz i) = (unat i + 1) mod unat sz"
proof -
  assume a: "i < sz"
  have "unat sz < 65536" using unsigned_less[of sz] by simp
  with a have "unat i + 1 < 65536" by (simp add: word_less_nat_alt)
  then have "unat (i + 1) = unat i + 1" by (simp add: unat_word_ariths)
  then show ?thesis using a by (auto simp: next_index_def word_less_nat_alt word_le_nat_alt mod_if)
qed

lemma next_index_less: "i < sz \<Longrightarrow> next_index sz i < sz"
  using unat_next_index[of i sz] by (simp add: word_less_nat_alt)


lemma ring_put_ok:
  assumes "ring_ok sz f"
  shows "ring_ok sz (ring_put sz x f)"
    "content sz (ring_put sz x f) =
      (if length (content sz f) = unat sz - 1 then tl (content sz f) else content sz f) @ [x]"
proof -
  define B g p n where "B = unat sz" and "g = unat (get_index f)" and "p = unat (put_index f)" and "n = rx_count sz f"
  have B: "2 \<le> B" "length (buffer f) = B" "p < B" "g < B"
    using assms by (simp_all add: ring_ok_def B_def p_def g_def word_less_nat_alt)
  have n: "n < B" "p = (g + n) mod B" using ring_counts[OF assms] by (simp_all add: B_def g_def p_def n_def)
  define buf where "buf = (buffer f)[p := x]"
  have v: "view buf g (Suc n) = view (buffer f) g n @ [x]"
    unfolding buf_def n(2) using view_snoc[of n "buffer f" g x] n B by simp
  have c: "content sz f = view (buffer f) g n" by (simp add: content_def g_def n_def)
  have p': "unat (next_index sz (put_index f)) = (g + Suc n) mod B"
    using unat_next_index[of "put_index f" sz] assms n(2) by (simp add: ring_ok_def B_def p_def mod_simps)
  have g': "unat (next_index sz (get_index f)) = (g + 1) mod B"
    using unat_next_index[of "get_index f" sz] assms by (simp add: ring_ok_def B_def g_def)
  have lt: "put_index f < sz" "get_index f < sz" using assms by (simp_all add: ring_ok_def)
  have full: "next_index sz (put_index f) = get_index f \<longleftrightarrow> Suc n = B"
    using p' n B by (auto simp: word_unat_eq_iff g_def[symmetric] mod_if)
  show "ring_ok sz (ring_put sz x f)"
  proof -
    have "(g + 1) mod B \<noteq> g" using B by (auto simp: mod_if)
    then have "next_index sz (get_index f) \<noteq> get_index f" using g' by (auto simp: g_def)
    then show ?thesis using assms lt full
      by (auto simp: ring_ok_def ring_put_def Let_def next_index_less)
  qed
  show "content sz (ring_put sz x f) =
      (if length (content sz f) = unat sz - 1 then tl (content sz f) else content sz f) @ [x]"
  proof (cases "Suc n = B")
    case True
    have "content sz (ring_put sz x f) = view buf ((g + 1) mod B) ((g + B - (g + 1) mod B) mod B)"
      using full True p' g' lt
      by (simp add: content_def ring_put_def Let_def rx_count_def buf_def p_def B_def[symmetric] g_def[symmetric])
    also have "(g + B - (g + 1) mod B) mod B = n" using True B by (auto simp: mod_if)
    also have "view buf ((g + 1) mod B) n = tl (view buf g (Suc n))"
      using view_Cons[of g buf n] B by (simp add: buf_def)
    also have "\<dots> = tl (content sz f) @ [x]"
    proof -
      have "view (buffer f) g n \<noteq> []" using True B by (auto simp: view_def)
      then show ?thesis unfolding v c by simp
    qed
    finally show ?thesis using True by (auto simp: c B_def[symmetric])
  next
    case False
    then have "content sz (ring_put sz x f) = view buf g (((g + Suc n) mod B + B - g) mod B)"
      using full p' by (simp add: content_def ring_put_def Let_def rx_count_def buf_def p_def B_def[symmetric] g_def[symmetric])
    also have "((g + Suc n) mod B + B - g) mod B = Suc n" using False n B by (intro count_unique) simp_all
    finally show ?thesis using False n unfolding v c by (simp add: B_def[symmetric])
  qed
qed

lemma ring_get_ok:
  assumes "ring_ok sz f"
  shows "case content sz f of
      [] \<Rightarrow> ring_get sz f = None
    | b # bs \<Rightarrow> \<exists>f'. ring_get sz f = Some (b, f') \<and> ring_ok sz f' \<and> content sz f' = bs"
proof -
  define B g n where "B = unat sz" and "g = unat (get_index f)" and "n = rx_count sz f"
  have B: "2 \<le> B" "length (buffer f) = B" "g < B"
    using assms by (simp_all add: ring_ok_def B_def g_def word_less_nat_alt)
  have n: "n < B" "unat (put_index f) = (g + n) mod B" using ring_counts[OF assms] by (simp_all add: B_def g_def n_def)
  have c: "content sz f = view (buffer f) g n" by (simp add: content_def g_def n_def)
  show ?thesis
  proof (cases n)
    case 0
    then have "put_index f = get_index f" using ring_counts(4)[OF assms] by (simp add: n_def)
    then have "ring_get sz f = None" using assms by (auto simp: ring_get_def ring_ok_def)
    with 0 c show ?thesis by simp
  next
    case (Suc m)
    then have ne: "get_index f \<noteq> put_index f" using ring_counts(4)[OF assms] by (auto simp: n_def)
    define f' where "f' = f\<lparr>get_index := next_index sz (get_index f), is_full := False\<rparr>"
    have get: "ring_get sz f = Some (buffer f ! g, f')" using ne by (simp add: ring_get_def f'_def g_def)
    have lt: "get_index f < sz" using assms by (simp add: ring_ok_def)
    have g': "unat (next_index sz (get_index f)) = (g + 1) mod B"
      using unat_next_index[OF lt] by (simp add: B_def g_def)
    have ok: "ring_ok sz f'" using assms lt by (simp add: ring_ok_def f'_def next_index_less)
    have "content sz f' = view (buffer f) ((g + 1) mod B) (((g + n) mod B + B - (g + 1) mod B) mod B)"
      using g' n(2) by (simp add: content_def rx_count_def f'_def B_def[symmetric])
    also have "((g + n) mod B + B - (g + 1) mod B) mod B = m"
      using count_unique[of "(g + 1) mod B" B m] Suc n B by (simp add: mod_simps)
    finally have "content sz f' = view (buffer f) ((g + 1) mod B) m" .
    then show ?thesis using get ok view_Cons[of g "buffer f" m] B unfolding c Suc by simp
  qed
qed


text \<open>A queue of \<open>cap\<close> bytes that drops its oldest byte when it is full.\<close>

datatype ring_op = Put u8 | Get

fun ring_call :: "u16 \<Rightarrow> ring_op \<Rightarrow> rx_fifo \<Rightarrow> u8 option \<times> rx_fifo" where
  "ring_call sz (Put b) f = (None, ring_put sz b f)"
| "ring_call sz Get f = (case ring_get sz f of None \<Rightarrow> (None, f) | Some (b, f) \<Rightarrow> (Some b, f))"

fun queue_call :: "nat \<Rightarrow> ring_op \<Rightarrow> u8 list \<Rightarrow> u8 option \<times> u8 list" where
  "queue_call cap (Put b) q = (None, (if length q = cap then tl q else q) @ [b])"
| "queue_call cap Get q = (case q of [] \<Rightarrow> (None, []) | b # q \<Rightarrow> (Some b, q))"

lemma ring_call_simulates:
  assumes "ring_ok sz f"
  shows "ring_ok sz (snd (ring_call sz c f)) \<and>
    queue_call (unat sz - 1) c (content sz f) = (fst (ring_call sz c f), content sz (snd (ring_call sz c f)))"
proof (cases c)
  case (Put b)
  with ring_put_ok[OF assms, of b] show ?thesis by simp
next
  case Get
  with ring_get_ok[OF assms] assms show ?thesis by (auto split: list.splits)
qed

lemma new_fifo_ok: "2 \<le> unat sz \<Longrightarrow> ring_ok sz (new_fifo sz)" "content sz (new_fifo sz) = []"
  by (auto simp: ring_ok_def new_fifo_def word_less_nat_alt content_def rx_count_def)

section \<open>The receiver on the ring\<close>

text \<open>The bytes the hardware gives before it has none.\<close>

fun supplies :: "'h uart_ops \<Rightarrow> u8 list \<Rightarrow> 'h \<Rightarrow> 'h \<Rightarrow> bool" where
  "supplies ops [] h h' \<longleftrightarrow> u_getc ops h = (None, h')"
| "supplies ops (b # bs) h h' \<longleftrightarrow> (\<exists>h1. u_getc ops h = (Some b, h1) \<and> supplies ops bs h1 h')"

lemma isr_rx_loop_supplies:
  "supplies ops bs h h' \<Longrightarrow> isr_rx_loop ops sz f h = Some (fold (ring_put sz) bs f, h')"
  by (induction bs arbitrary: f h) (auto simp: isr_rx_loop.simps)

lemma ring_puts:
  assumes "ring_ok sz f" "content sz f = newest (unat sz - 1) xs"
  shows "ring_ok sz (fold (ring_put sz) bs f) \<and> content sz (fold (ring_put sz) bs f) = newest (unat sz - 1) (xs @ bs)"
  using assms
proof (induction bs arbitrary: f xs)
  case (Cons b bs)
  have "0 < unat sz - 1" using Cons.prems(1) by (simp add: ring_ok_def)
  then have "content sz (ring_put sz b f) = newest (unat sz - 1) (xs @ [b])"
    using ring_put_ok(2)[OF Cons.prems(1)] Cons.prems(2) by (simp add: newest_snoc)
  from Cons.IH[OF ring_put_ok(1)[OF Cons.prems(1)] this] show ?case by simp
qed simp

lemma port_reads_ring:
  assumes "in_flags RT_DEVICE_FLAG_INT_RX (dopen d)" "ring_ok sz f" "content sz f = bs" "bufsz s = sz"
  shows "map_option snd (port_serial_rx_ind ops (length bs) (d, s\<lparr>serial_rx := Some (RxFifo f)\<rparr>) r) =
    serial_rx_ind bs r"
  using assms(2-)
proof (induction bs arbitrary: f s r)
  case (Cons b bs)
  then obtain f' where f': "ring_get sz f = Some (b, f')" "ring_ok sz f'" "content sz f' = bs"
    using ring_get_ok[OF Cons.prems(1)] by auto
  then have "rt_serial_read ops 1 (d, s\<lparr>serial_rx := Some (RxFifo f)\<rparr>) =
      Some (1, [b], d, s\<lparr>serial_rx := Some (RxFifo f')\<rparr>)"
    using assms(1) Cons.prems(3) by (simp add: rt_serial_read_def numeral_nat)
  then show ?case using Cons.IH[OF f'(2,3) Cons.prems(3)] by (cases "xMBRTUReceiveFSM b r") simp_all
qed simp

section \<open>Properties\<close>

text \<open>C28: in every interleaving of bytes stored by the interrupt and bytes read by a thread the
  receive ring answers as a queue that holds one byte less than its buffer, and drops its oldest
  byte when a byte arrives that does not fit.\<close>

theorem serial_ring_refines_a_queue:
  assumes "2 \<le> unat sz"
  shows "fst (run_calls (ring_call sz) cs (new_fifo sz)) = fst (run_calls (queue_call (unat sz - 1)) cs [])"
  using run_calls_simulates[where I = "ring_ok sz" and view = "content sz" and f = "ring_call sz"
      and g = "queue_call (unat sz - 1)" and s = "new_fifo sz" and cs = cs]
    new_fifo_ok[of sz] assms ring_call_simulates by simp

lemma serial_ring_refines_a_queue_witness:
  "fst (run_calls (ring_call 3) [Put 1, Put 2, Put 3, Get, Get, Get] (new_fifo 3)) =
   [None, None, None, Some 2, Some 3, None]"
  using serial_ring_refines_a_queue[of 3 "[Put 1, Put 2, Put 3, Get, Get, Get]"] by simp

text \<open>C29: the bytes the hardware has when its interrupt comes run the Modbus receiver once each,
  in their order; only when there are more than the ring can hold the oldest are lost.\<close>

theorem uart_bytes_reach_the_receiver:
  assumes "in_flags RT_DEVICE_FLAG_INT_RX (dopen d)" "drx_ind d"
    "serial_rx s = Some (RxFifo f)" "ring_ok (bufsz s) f" "content (bufsz s) f = []"
    "supplies ops bs (uart s) h'"
  shows "map_option snd (uart_interrupt ops (d, s) r) = serial_rx_ind (newest (unat (bufsz s) - 1) bs) r"
proof -
  define f' where "f' = fold (ring_put (bufsz s)) bs f"
  let ?bs = "newest (unat (bufsz s) - 1) bs"
  have f': "ring_ok (bufsz s) f'" "content (bufsz s) f' = ?bs"
    using ring_puts[OF assms(4), of "[]" bs] assms(5) by (simp_all add: f'_def newest_def)
  have n: "rx_length (bufsz s) f' = length ?bs"
    using ring_counts(3)[OF f'(1)] arg_cong[OF f'(2), of length] by (simp add: content_def)
  let ?s = "s\<lparr>uart := h'\<rparr>"
  have isr: "serial_isr_rx_ind ops (d, s) = Some (if length ?bs \<noteq> 0 then Some (length ?bs) else None, d,
      ?s\<lparr>serial_rx := Some (RxFifo f')\<rparr>)"
    using assms(2,3) isr_rx_loop_supplies[OF assms(6)] n by (simp add: serial_isr_rx_ind_def f'_def Let_def)
  show ?thesis
  proof (cases "length ?bs = 0")
    case True
    with isr show ?thesis by (simp add: uart_interrupt_def)
  next
    case False
    with isr port_reads_ring[OF assms(1) f'(1,2), of ?s ops r] show ?thesis by (simp add: uart_interrupt_def)
  qed
qed


text \<open>A UART that has a list of bytes.\<close>

definition list_uart :: "u8 list uart_ops" where
  "list_uart =
     \<lparr>u_configure = Pair RT_EOK, u_control = \<lambda>_ _. Pair RT_EOK, u_putc = \<lambda>_. Pair 1,
      u_getc = \<lambda>h. case h of [] \<Rightarrow> (None, []) | b # bs \<Rightarrow> (Some b, bs)\<rparr>"

lemma uart_bytes_reach_the_receiver_witness:
  "map_option snd (uart_interrupt list_uart
      (\<lparr>dflag = 0x703, dopen = 0x10B, drefs = 1, drx_ind = True, dtx_ind = False\<rparr>,
       \<lparr>bufsz = 64, serial_rx = Some (RxFifo (new_fifo 64)), serial_tx = None, uart = [1, 3, 0]\<rparr>) rtu_idle) =
   serial_rx_ind [1, 3, 0] rtu_idle"
proof -
  let ?d = "\<lparr>dflag = 0x703, dopen = 0x10B, drefs = 1, drx_ind = True, dtx_ind = False\<rparr> :: dev_hdr"
  let ?s = "\<lparr>bufsz = 64, serial_rx = Some (RxFifo (new_fifo 64)), serial_tx = None, uart = [1, 3, 0]\<rparr> :: u8 list serial"
  have "in_flags RT_DEVICE_FLAG_INT_RX (dopen ?d)" by (simp add: in_flags_def RT_DEVICE_FLAG_INT_RX_def)
  moreover have "supplies list_uart [1, 3, 0] (uart ?s) []" by (simp add: list_uart_def)
  ultimately show ?thesis
    using uart_bytes_reach_the_receiver[of ?d ?s "new_fifo 64" list_uart "[1, 3, 0]" "[]" rtu_idle] new_fifo_ok[of 64]
    by (simp add: newest_def)
qed

text \<open>How the port opens its device, and what opening and closing do.\<close>

definition port_oflag :: u16 where "port_oflag = RT_DEVICE_OFLAG_RDWR OR RT_DEVICE_FLAG_INT_RX"

lemmas flag_defs = in_flags_def DEV_FLAG_ACTIVATED_def RT_DEVICE_FLAG_STANDALONE_def RT_DEVICE_FLAG_STREAM_def
  RT_DEVICE_FLAG_INT_RX_def RT_DEVICE_FLAG_DMA_RX_def RT_DEVICE_FLAG_INT_TX_def RT_DEVICE_FLAG_DMA_TX_def
  RT_DEVICE_OFLAG_RDWR_def RT_DEVICE_OFLAG_OPEN_def

lemma port_flags:
  "in_flags RT_DEVICE_FLAG_INT_RX port_oflag" "\<not> in_flags RT_DEVICE_FLAG_DMA_RX port_oflag"
  "\<not> in_flags RT_DEVICE_FLAG_INT_TX port_oflag" "\<not> in_flags RT_DEVICE_FLAG_DMA_TX port_oflag"
  "\<not> in_flags RT_DEVICE_FLAG_STREAM port_oflag" "port_oflag AND 0xff = 3" "3 OR RT_DEVICE_FLAG_INT_RX = 0x103"
  by (simp_all add: port_oflag_def flag_defs)

lemma port_driver_opens:
  assumes "in_flags RT_DEVICE_FLAG_INT_RX (dflag d)" "\<not> in_flags RT_DEVICE_FLAG_STREAM (dopen d)"
    "serial_rx s = None" "serial_tx s = None"
  shows "\<exists>s' f. rt_serial_open ops port_oflag (d, s) = Some (RT_EOK, d\<lparr>dopen := 0x103\<rparr>, s') \<and>
    serial_rx s' = Some (RxFifo f)"
  using assms
  by (simp add: rt_serial_open_def lacks_def port_flags open_rx_def open_tx_def Let_def control_uart_def)

lemma port_opens:
  assumes "\<And>h. fst (u_configure ops h) = RT_EOK" "dflag d = 0x503" "dopen d = 0 \<or> dopen d = 0x0B" "drefs d + 1 \<noteq> 0"
  shows "\<exists>s' f. rt_device_open (serial_ops ops) port_oflag (d, s) =
      Some (RT_EOK, d\<lparr>dflag := 0x513, dopen := 0x10B, drefs := drefs d + 1\<rparr>, s') \<and> serial_rx s' = Some (RxFifo f)"
proof -
  obtain h where c: "u_configure ops (uart s) = (RT_EOK, h)"
    using assms(1)[of "uart s"] by (metis prod.collapse)
  let ?d = "d\<lparr>dflag := 0x513\<rparr>"
  let ?s = "s\<lparr>serial_rx := None, serial_tx := None, uart := h\<rparr>"
  have init: "device_ready (serial_ops ops) (d, s) = Some (RT_EOK, ?d, ?s)"
    using assms(2) by (subst device_ready_def) (simp add: serial_ops_def rt_serial_init_def c flag_defs)
  have "in_flags RT_DEVICE_FLAG_INT_RX (dflag ?d)" "\<not> in_flags RT_DEVICE_FLAG_STANDALONE (dflag ?d)"
    by (simp_all add: flag_defs)
  moreover have "\<not> in_flags RT_DEVICE_FLAG_STREAM (dopen ?d)" using assms(3) by (elim disjE) (simp_all add: flag_defs)
  ultimately obtain s' f where open_ok: "rt_serial_open ops port_oflag (?d, ?s) = Some (RT_EOK, ?d\<lparr>dopen := 0x103\<rparr>, s')"
      "serial_rx s' = Some (RxFifo f)" "\<not> in_flags RT_DEVICE_FLAG_STANDALONE 0x513"
    using port_driver_opens[of ?d ?s ops] by auto
  have "dv_open (serial_ops ops) = Some (rt_serial_open ops)" by (simp add: serial_ops_def)
  with init open_ok assms(4) show ?thesis
    by (simp add: rt_device_open_def Let_def RT_DEVICE_OFLAG_OPEN_def)
qed

lemma port_closes:
  assumes "dflag d = 0x513" "dopen d = 0x10B" "drefs d = 1" "serial_rx s = Some (RxFifo f)"
  shows "\<exists>s'. vMBPortClose ops (d, s) = Some (RT_EOK, d\<lparr>dflag := 0x503, dopen := 0x0B\<rparr>, s')"
  using assms
  by (simp add: vMBPortClose_def rt_serial_close_def close_rx_def close_tx_def flag_defs)

lemma shared_port_close:
  "1 < drefs d \<Longrightarrow> vMBPortClose ops (d, s) = Some (RT_EOK, d, s)"
  by (simp add: vMBPortClose_def rt_serial_close_def)

text \<open>The port of the slave closes the driver behind the back of the device, whose count of
  openings stays: after a second start and stop the port is still open and receives.\<close>

theorem second_port_close_is_ignored:
  assumes "\<And>h. fst (u_configure ops h) = RT_EOK" "dflag d = 0x503" "drefs d = 0" "dopen d = 0"
  shows "do {
     (_, ds) \<leftarrow> rt_device_open (serial_ops ops) port_oflag (d, s);
     (_, ds) \<leftarrow> vMBPortClose ops ds;
     (_, ds) \<leftarrow> rt_device_open (serial_ops ops) port_oflag ds;
     (_, d, s) \<leftarrow> vMBPortClose ops ds;
     Some (serial_rx s \<noteq> None \<and> in_flags RT_DEVICE_FLAG_INT_RX (dopen d)) } = Some True"
proof -
  obtain s1 f1 where
    o1: "rt_device_open (serial_ops ops) port_oflag (d, s) =
      Some (RT_EOK, d\<lparr>dflag := 0x513, dopen := 0x10B, drefs := 1\<rparr>, s1)" "serial_rx s1 = Some (RxFifo f1)"
    using port_opens[of ops d s, OF assms(1,2)] assms(3,4) by auto
  let ?d1 = "d\<lparr>dflag := 0x513, dopen := 0x10B, drefs := 1\<rparr>"
  obtain s2 where c1: "vMBPortClose ops (?d1, s1) = Some (RT_EOK, ?d1\<lparr>dflag := 0x503, dopen := 0x0B\<rparr>, s2)"
    using port_closes[of ?d1 s1 f1 ops] o1(2) by auto
  let ?d2 = "?d1\<lparr>dflag := 0x503, dopen := 0x0B\<rparr>"
  let ?d3 = "?d2\<lparr>dflag := 0x513, dopen := 0x10B, drefs := 2\<rparr>"
  obtain s3 f3 where o2: "rt_device_open (serial_ops ops) port_oflag (?d2, s2) = Some (RT_EOK, ?d3, s3)"
      "serial_rx s3 = Some (RxFifo f3)"
    using port_opens[of ops ?d2 s2, OF assms(1)] by auto
  have c2: "vMBPortClose ops (?d3, s3) = Some (RT_EOK, ?d3, s3)" by (rule shared_port_close) simp
  show ?thesis using o2(2) by (simp only: o1(1) c1 o2(1) c2 bind.bind_lunit prod.case)
      (simp add: in_flags_def RT_DEVICE_FLAG_INT_RX_def)
qed

lemma second_port_close_is_ignored_witness:
  "do {
     (_, ds) \<leftarrow> rt_device_open (serial_ops list_uart) port_oflag
        (\<lparr>dflag = 0x503, dopen = 0, drefs = 0, drx_ind = False, dtx_ind = False\<rparr>,
         \<lparr>bufsz = 64, serial_rx = None, serial_tx = None, uart = []\<rparr>);
     (_, ds) \<leftarrow> vMBPortClose list_uart ds;
     (_, ds) \<leftarrow> rt_device_open (serial_ops list_uart) port_oflag ds;
     (_, d, s) \<leftarrow> vMBPortClose list_uart ds;
     Some (serial_rx s \<noteq> None \<and> in_flags RT_DEVICE_FLAG_INT_RX (dopen d)) } = Some True"
  by (rule second_port_close_is_ignored) (simp_all add: list_uart_def)

end
