(* ===== verification/Ringbuf.thy ===== *)
theory Ringbuf
  imports RingView RtDef
begin

text \<open>
  The ring buffer of the device drivers, rt-thread/components/drivers/ipc/ringbuffer.c: indices
  of 15 bits, each with a mirror bit that tells a full buffer from an empty one.  A block is
  given as its bytes, its length is that of the list at 16 bits.  A result \<open>None\<close> is an access
  outside the buffer or a failed assertion.  The lemmas show that the buffer is a queue of as
  many bytes as it has room for, which the forced calls cut off at its old end.
\<close>

section \<open>State\<close>

type_synonym u15 = "15 word"

record ringbuffer =
  buffer_ptr :: "u8 list"
  read_mirror :: bool
  read_index :: u15
  write_mirror :: bool
  write_index :: u15
  buffer_size :: u16

datatype ringbuffer_state = RT_RINGBUFFER_EMPTY | RT_RINGBUFFER_FULL | RT_RINGBUFFER_HALFFULL

definition rt_ringbuffer_status :: "ringbuffer \<Rightarrow> ringbuffer_state" where
  "rt_ringbuffer_status rb =
     (if read_index rb = write_index rb then
        (if read_mirror rb = write_mirror rb then RT_RINGBUFFER_EMPTY else RT_RINGBUFFER_FULL)
      else RT_RINGBUFFER_HALFFULL)"

text \<open>\<open>RT_ALIGN_DOWN(size, RT_ALIGN_SIZE)\<close>, stored at 16 bits.\<close>

definition rt_ringbuffer_init :: "u8 list \<Rightarrow> u16 \<Rightarrow> ringbuffer option" where
  "rt_ringbuffer_init pool sz =
     (if 0 < sint sz then
        Some \<lparr>buffer_ptr = pool, read_mirror = False, read_index = 0, write_mirror = False,
          write_index = 0, buffer_size = sz AND NOT (4 - 1)\<rparr>
      else None)"

definition rt_ringbuffer_data_len :: "ringbuffer \<Rightarrow> u32" where
  "rt_ringbuffer_data_len rb =
     (case rt_ringbuffer_status rb of
        RT_RINGBUFFER_EMPTY \<Rightarrow> 0
      | RT_RINGBUFFER_FULL \<Rightarrow> scast (buffer_size rb)
      | RT_RINGBUFFER_HALFFULL \<Rightarrow>
          (let wi = ucast (write_index rb); ri = ucast (read_index rb) :: u32
           in if ri < wi then wi - ri else scast (buffer_size rb) - (ri - wi)))"

definition rt_ringbuffer_space_len :: "ringbuffer \<Rightarrow> u32" where
  "rt_ringbuffer_space_len rb = scast (buffer_size rb) - rt_ringbuffer_data_len rb"

definition rt_ringbuffer_get_size :: "ringbuffer \<Rightarrow> u16" where
  "rt_ringbuffer_get_size rb = buffer_size rb"

definition rt_ringbuffer_reset :: "ringbuffer \<Rightarrow> ringbuffer" where
  "rt_ringbuffer_reset rb = rb\<lparr>read_mirror := False, read_index := 0, write_mirror := False, write_index := 0\<rparr>"

section \<open>Blocks\<close>

text \<open>\<open>rt_memcpy\<close> into and out of the buffer; the room behind an index, in \<open>int\<close>.\<close>

definition copy_in :: "int \<Rightarrow> u8 list \<Rightarrow> u8 list \<Rightarrow> u8 list option" where
  "copy_in i xs buf = (if 0 \<le> i \<and> nat i + length xs \<le> length buf then Some (blit buf (nat i) xs) else None)"

definition copy_out :: "int \<Rightarrow> int \<Rightarrow> u8 list \<Rightarrow> u8 list option" where
  "copy_out i n buf =
     (if 0 \<le> i \<and> 0 \<le> n \<and> nat i + nat n \<le> length buf then Some (take (nat n) (drop (nat i) buf)) else None)"

definition behind :: "u15 \<Rightarrow> ringbuffer \<Rightarrow> int" where
  "behind i rb = sint (buffer_size rb) - uint i"

text \<open>The bytes of a block go to the write index, in one copy or in two: the middle of \<open>put\<close> and
  of \<open>put_force\<close>.  The second component tells that the write index went over to the other side.\<close>

definition write_block :: "u8 list \<Rightarrow> ringbuffer \<Rightarrow> (bool \<times> ringbuffer) option" where
  "write_block bs rb =
     (let n = int (length bs); k = behind (write_index rb) rb
      in if k > n then do {
           buf \<leftarrow> copy_in (uint (write_index rb)) bs (buffer_ptr rb);
           Some (False, rb\<lparr>buffer_ptr := buf, write_index := write_index rb + word_of_int n\<rparr>) }
         else do {
           buf \<leftarrow> copy_in (uint (write_index rb)) (take (nat k) bs) (buffer_ptr rb);
           buf \<leftarrow> copy_in 0 (drop (nat k) bs) buf;
           Some (True, rb\<lparr>buffer_ptr := buf, write_mirror := \<not> write_mirror rb, write_index := word_of_int (n - k)\<rparr>) })"

definition rt_ringbuffer_put :: "u8 list \<Rightarrow> ringbuffer \<Rightarrow> (nat \<times> ringbuffer) option" where
  "rt_ringbuffer_put bs rb =
     (let sz = ucast (rt_ringbuffer_space_len rb) :: u16; len = of_nat (length bs) :: u16
      in if sz = 0 then Some (0, rb)
         else
           let len = (if sz < len then sz else len)
           in do { (_, rb) \<leftarrow> write_block (take (unat len) bs) rb; Some (unat len, rb) })"

definition rt_ringbuffer_put_force :: "u8 list \<Rightarrow> ringbuffer \<Rightarrow> (nat \<times> ringbuffer) option" where
  "rt_ringbuffer_put_force bs rb =
     (let space_length = ucast (rt_ringbuffer_space_len rb) :: u16;
          len = of_nat (length bs) :: u16;
          bs = take (unat len) bs;
          (bs, len) = (if uint len > sint (buffer_size rb)
                       then (drop (nat (uint len - sint (buffer_size rb))) bs, buffer_size rb) else (bs, len))
      in do {
        (crossed, rb) \<leftarrow> write_block bs rb;
        Some (unat len,
          if len > space_length then
            (if crossed \<and> write_index rb \<le> read_index rb then rb\<lparr>read_mirror := \<not> read_mirror rb\<rparr> else rb)
              \<lparr>read_index := write_index rb\<rparr>
          else rb) })"

definition rt_ringbuffer_get :: "u16 \<Rightarrow> ringbuffer \<Rightarrow> (u8 list \<times> ringbuffer) option" where
  "rt_ringbuffer_get len rb =
     (let sz = rt_ringbuffer_data_len rb
      in if sz = 0 then Some ([], rb)
         else
           let len = (if sz < ucast len then ucast sz else len);
               n = uint len; k = behind (read_index rb) rb
           in if k > n then do {
                bs \<leftarrow> copy_out (uint (read_index rb)) n (buffer_ptr rb);
                Some (bs, rb\<lparr>read_index := read_index rb + word_of_int n\<rparr>) }
              else do {
                bs1 \<leftarrow> copy_out (uint (read_index rb)) k (buffer_ptr rb);
                bs2 \<leftarrow> copy_out 0 (n - k) (buffer_ptr rb);
                Some (bs1 @ bs2, rb\<lparr>read_mirror := \<not> read_mirror rb, read_index := word_of_int (n - k)\<rparr>) })"

text \<open>\<open>peak\<close> gives the index its pointer points to, and takes what lies there without a gap.\<close>

definition rt_ringbuffer_peak :: "ringbuffer \<Rightarrow> nat \<times> u15 option \<times> ringbuffer" where
  "rt_ringbuffer_peak rb =
     (let sz = rt_ringbuffer_data_len rb; ri = read_index rb; k = behind ri rb
      in if sz = 0 then (0, None, rb)
         else if (word_of_int k :: u32) > sz then (unat sz, Some ri, rb\<lparr>read_index := ri + ucast sz\<rparr>)
         else (unat (word_of_int k :: u32), Some ri, rb\<lparr>read_mirror := \<not> read_mirror rb, read_index := 0\<rparr>))"

section \<open>Single bytes\<close>

definition rt_ringbuffer_putchar :: "u8 \<Rightarrow> ringbuffer \<Rightarrow> (nat \<times> ringbuffer) option" where
  "rt_ringbuffer_putchar ch rb =
     (if rt_ringbuffer_space_len rb = 0 then Some (0, rb)
      else do {
        buf \<leftarrow> copy_in (uint (write_index rb)) [ch] (buffer_ptr rb);
        let rb = rb\<lparr>buffer_ptr := buf\<rparr>;
        Some (1, if uint (write_index rb) = sint (buffer_size rb) - 1
                 then rb\<lparr>write_mirror := \<not> write_mirror rb, write_index := 0\<rparr>
                 else rb\<lparr>write_index := write_index rb + 1\<rparr>) })"

definition rt_ringbuffer_putchar_force :: "u8 \<Rightarrow> ringbuffer \<Rightarrow> (nat \<times> ringbuffer) option" where
  "rt_ringbuffer_putchar_force ch rb = do {
     let old_state = rt_ringbuffer_status rb;
     buf \<leftarrow> copy_in (uint (write_index rb)) [ch] (buffer_ptr rb);
     let rb = rb\<lparr>buffer_ptr := buf\<rparr>;
     Some (1,
       if uint (write_index rb) = sint (buffer_size rb) - 1 then
         let rb = rb\<lparr>write_mirror := \<not> write_mirror rb, write_index := 0\<rparr>
         in if old_state = RT_RINGBUFFER_FULL
            then rb\<lparr>read_mirror := \<not> read_mirror rb, read_index := write_index rb\<rparr> else rb
       else
         let rb = rb\<lparr>write_index := write_index rb + 1\<rparr>
         in if old_state = RT_RINGBUFFER_FULL then rb\<lparr>read_index := write_index rb\<rparr> else rb) }"

definition rt_ringbuffer_getchar :: "ringbuffer \<Rightarrow> (u8 option \<times> ringbuffer) option" where
  "rt_ringbuffer_getchar rb =
     (if rt_ringbuffer_data_len rb = 0 then Some (None, rb)
      else do {
        bs \<leftarrow> copy_out (uint (read_index rb)) 1 (buffer_ptr rb);
        Some (Some (hd bs),
          if uint (read_index rb) = sint (buffer_size rb) - 1
          then rb\<lparr>read_mirror := \<not> read_mirror rb, read_index := 0\<rparr>
          else rb\<lparr>read_index := read_index rb + 1\<rparr>) })"

section \<open>The queue in the buffer\<close>

definition rb_len :: "ringbuffer \<Rightarrow> nat" where
  "rb_len rb = nat (sint (buffer_size rb))"

definition rb_ok :: "ringbuffer \<Rightarrow> bool" where
  "rb_ok rb \<longleftrightarrow> 0 < sint (buffer_size rb) \<and> rb_len rb \<le> length (buffer_ptr rb) \<and>
     unat (read_index rb) < rb_len rb \<and> unat (write_index rb) < rb_len rb \<and>
     (read_index rb < write_index rb \<longrightarrow> read_mirror rb = write_mirror rb) \<and>
     (write_index rb < read_index rb \<longrightarrow> read_mirror rb \<noteq> write_mirror rb)"

definition rb_count :: "ringbuffer \<Rightarrow> nat" where
  "rb_count rb =
     unat (write_index rb) + (if read_mirror rb = write_mirror rb then 0 else rb_len rb) - unat (read_index rb)"

definition rb_bytes :: "ringbuffer \<Rightarrow> u8 list" where
  "rb_bytes rb = take (rb_len rb) (buffer_ptr rb)"

definition rb_content :: "ringbuffer \<Rightarrow> u8 list" where
  "rb_content rb = view (rb_bytes rb) (unat (read_index rb)) (rb_count rb)"

lemma rb_len_upd [simp]:
  "rb_len (rb\<lparr>buffer_ptr := b\<rparr>) = rb_len rb" "rb_len (rb\<lparr>read_mirror := m\<rparr>) = rb_len rb"
  "rb_len (rb\<lparr>read_index := i\<rparr>) = rb_len rb" "rb_len (rb\<lparr>write_mirror := m\<rparr>) = rb_len rb"
  "rb_len (rb\<lparr>write_index := i\<rparr>) = rb_len rb"
  by (simp_all add: rb_len_def)

lemma length_rb_content [simp]: "length (rb_content rb) = rb_count rb"
  by (simp add: rb_content_def)

lemma unat15: "unat (i :: u15) < 32768"
  using unsigned_less[of i] by simp

lemma unat_ucast15: "unat (ucast (i :: u15) :: u32) = unat i"
  using unat15[of i] by (simp add: unsigned_ucast_eq take_bit_nat_eq_self)

lemma rb_len_less: "rb_len rb < 32768"
proof -
  have "sint (buffer_size rb) < 2 ^ (16 - 1)" using sint_lt[of "buffer_size rb"] by simp
  then show ?thesis by (simp add: rb_len_def)
qed

lemma rb_size:
  assumes "rb_ok rb"
  shows "sint (buffer_size rb) = int (rb_len rb)" "unat (scast (buffer_size rb) :: u32) = rb_len rb"
    "unat (buffer_size rb) = rb_len rb"
proof -
  show s: "sint (buffer_size rb) = int (rb_len rb)" using assms by (simp add: rb_ok_def rb_len_def)
  have b: "int (rb_len rb) < 32768" using rb_len_less[of rb] by simp
  have "scast (buffer_size rb) = (word_of_int (int (rb_len rb)) :: u32)" by (metis s scast_eq)
  then show "unat (scast (buffer_size rb) :: u32) = rb_len rb" using b by (simp add: unsigned_of_nat take_bit_nat_eq_self)
  have "buffer_size rb = word_of_int (int (rb_len rb))" by (metis s scast_eq scast_id)
  then have "buffer_size rb = of_nat (rb_len rb)" by simp
  then show "unat (buffer_size rb) = rb_len rb" using b by (simp add: unsigned_of_nat take_bit_nat_eq_self)
qed

lemma rb_counts:
  assumes "rb_ok rb"
  shows "rb_count rb \<le> rb_len rb" "length (rb_bytes rb) = rb_len rb" "0 < rb_len rb"
    "rb_content rb = last_view (rb_bytes rb) (unat (write_index rb)) (rb_count rb)"
proof -
  show "rb_count rb \<le> rb_len rb" "length (rb_bytes rb) = rb_len rb" "0 < rb_len rb"
    using assms by (auto simp: rb_count_def rb_ok_def rb_bytes_def word_less_nat_alt)
  have "(unat (write_index rb) + rb_len rb - rb_count rb) mod rb_len rb = unat (read_index rb)"
    using assms by (auto simp: rb_count_def rb_ok_def word_less_nat_alt mod_if)
  then show "rb_content rb = last_view (rb_bytes rb) (unat (write_index rb)) (rb_count rb)"
    using \<open>length (rb_bytes rb) = rb_len rb\<close> by (simp add: rb_content_def last_view_def)
qed

lemma data_len:
  assumes "rb_ok rb"
  shows "unat (rt_ringbuffer_data_len rb) = rb_count rb"
    "unat (rt_ringbuffer_space_len rb) = rb_len rb - rb_count rb"
proof -
  let ?w = "ucast (write_index rb) :: u32" and ?r = "ucast (read_index rb) :: u32"
  have u: "unat ?w = unat (write_index rb)" "unat ?r = unat (read_index rb)"  by (simp_all add: unat_ucast15)
  note d = rb_size(2)[OF assms]
  have less: "unat (?r - ?w) = unat ?r - unat ?w" if "\<not> ?r < ?w" using that by (simp add: unat_sub not_less)
  have le: "?r - ?w \<le> scast (buffer_size rb)" if "\<not> ?r < ?w"
    using that assms less[OF that] by (auto simp: word_le_nat_alt d u rb_ok_def)
  show n: "unat (rt_ringbuffer_data_len rb) = rb_count rb"
    using assms less le d u
    by (auto simp: rt_ringbuffer_data_len_def rt_ringbuffer_status_def Let_def unat_sub rb_count_def rb_ok_def
        word_less_nat_alt not_less word_le_nat_alt word_unat_eq_iff)
  have "rt_ringbuffer_data_len rb \<le> scast (buffer_size rb)"
    using n d rb_counts(1)[OF assms] by (simp add: word_le_nat_alt)
  then show "unat (rt_ringbuffer_space_len rb) = rb_len rb - rb_count rb"
    unfolding rt_ringbuffer_space_len_def by (simp add: unat_sub n d)
qed

lemma behind_eq: "rb_ok rb \<Longrightarrow> behind i rb = int (rb_len rb) - int (unat i)"
  by (simp add: behind_def rb_size(1))

lemma take_blit:
  "i + length xs \<le> B \<Longrightarrow> B \<le> length buf \<Longrightarrow> take B (blit buf i xs) = blit (take B buf) i xs"
  by (rule nth_equalityI) (auto simp: nth_blit min_def split: if_splits)

text \<open>Storing a block moves the write index behind it; the content is what is read up to there.\<close>

lemma write_block_ok:
  assumes "rb_ok rb" "length bs \<le> rb_len rb"
  defines "w \<equiv> unat (write_index rb)"
  obtains buf i where
    "write_block bs rb = Some (rb_len rb \<le> w + length bs,
       rb\<lparr>buffer_ptr := buf, write_mirror := (write_mirror rb \<noteq> (rb_len rb \<le> w + length bs)), write_index := i\<rparr>)"
    "length buf = length (buffer_ptr rb)" "take (rb_len rb) buf = ring_store w bs (rb_bytes rb)"
    "unat i = (w + length bs) mod rb_len rb"
proof -
  let ?B = "rb_len rb"
  note c = rb_counts(2,3)[OF assms(1)]
  have w: "w < ?B" "?B \<le> length (buffer_ptr rb)" using assms(1) by (auto simp: rb_ok_def w_def)
  have small: "unat (word_of_int (int n) :: u15) = n" if "n < ?B" for n
    using that rb_len_less[of rb] by (simp add: unsigned_of_nat take_bit_nat_eq_self)
  have k: "behind (write_index rb) rb = int (?B - w)"
    using behind_eq[OF assms(1)] w by (simp add: w_def of_nat_diff)
  have uw: "uint (write_index rb) = int w" by (simp add: w_def)
  have step: "write_index rb + of_nat (length bs) = of_nat (w + length bs)" by (simp add: w_def)
  show thesis
  proof (cases "w + length bs < ?B")
    case True
    show thesis
    proof (rule that)
      show "write_block bs rb = Some (?B \<le> w + length bs,
         rb\<lparr>buffer_ptr := blit (buffer_ptr rb) w bs, write_mirror := (write_mirror rb \<noteq> (?B \<le> w + length bs)),
            write_index := word_of_int (int (w + length bs))\<rparr>)"
        using True w by (simp add: write_block_def k uw copy_in_def Let_def step del: of_nat_add)
      show "length (blit (buffer_ptr rb) w bs) = length (buffer_ptr rb)" using True w by simp
      show "take ?B (blit (buffer_ptr rb) w bs) = ring_store w bs (rb_bytes rb)"
        using True w c(1) by (simp add: ring_store_def take_blit flip: rb_bytes_def)
      show "unat (word_of_int (int (w + length bs)) :: u15) = (w + length bs) mod ?B"
        using True small[OF True] by (simp del: of_nat_add)
    qed
  next
    case False
    define K where "K = ?B - w"
    let ?b = "blit (blit (buffer_ptr rb) w (take K bs)) 0 (drop K bs)"
    have K: "behind (write_index rb) rb = int K" "K \<le> length bs" "w + K = ?B"
      "int (length bs) - int K = int (w + length bs - ?B)"
      using False w k by (simp_all add: K_def)
    have aux: "\<not> length bs < K" "length bs - K \<le> length (buffer_ptr rb)" using K(2) w assms(2) by linarith+
    have lt: "w + length bs - ?B < ?B" using assms(2) w by linarith
    show thesis
    proof (rule that)
      show "write_block bs rb = Some (?B \<le> w + length bs,
         rb\<lparr>buffer_ptr := ?b, write_mirror := (write_mirror rb \<noteq> (?B \<le> w + length bs)),
            write_index := word_of_int (int (w + length bs - ?B))\<rparr>)"
        using False w assms(2)
        by (simp add: write_block_def K aux uw copy_in_def Let_def del: of_nat_add of_nat_diff)
      show "length ?b = length (buffer_ptr rb)" using False w assms(2) by (simp add: K_def)
      show "take ?B ?b = ring_store w bs (rb_bytes rb)"
        using False w c(1) assms(2)
        by (simp add: ring_store_def take_blit K_def flip: rb_bytes_def)
      show "unat (word_of_int (int (w + length bs - ?B)) :: u15) = (w + length bs) mod ?B"
        using False small[OF lt] lt by (simp add: mod_if del: of_nat_diff)
    qed
  qed
qed

definition block_written :: "nat \<Rightarrow> u8 list \<Rightarrow> u15 \<Rightarrow> ringbuffer \<Rightarrow> ringbuffer" where
  "block_written k buf i rb =
     rb\<lparr>buffer_ptr := buf, write_mirror := (write_mirror rb \<noteq> (rb_len rb \<le> unat (write_index rb) + k)), write_index := i\<rparr>"

lemma write_block_view:
  assumes "rb_ok rb" "length bs \<le> rb_len rb"
  obtains buf i where
    "write_block bs rb = Some (rb_len rb \<le> unat (write_index rb) + length bs, block_written (length bs) buf i rb)"
    "length buf = length (buffer_ptr rb)" "unat i = (unat (write_index rb) + length bs) mod rb_len rb"
    "\<And>m. m \<le> rb_len rb \<Longrightarrow> m \<le> rb_count rb + length bs \<Longrightarrow>
      last_view (take (rb_len rb) buf) (unat i) m = drop (rb_count rb + length bs - m) (rb_content rb @ bs)"
proof -
  from write_block_ok[OF assms] obtain buf i where w:
    "write_block bs rb = Some (rb_len rb \<le> unat (write_index rb) + length bs, block_written (length bs) buf i rb)"
    "length buf = length (buffer_ptr rb)" "take (rb_len rb) buf = ring_store (unat (write_index rb)) bs (rb_bytes rb)"
    "unat i = (unat (write_index rb) + length bs) mod rb_len rb" unfolding block_written_def by blast
  have "unat (write_index rb) < length (rb_bytes rb)" "length bs \<le> length (rb_bytes rb)" "rb_count rb \<le> length (rb_bytes rb)"
    using assms rb_counts[OF assms(1)] by (simp_all add: rb_ok_def)
  from last_view_store[OF this] have "\<And>m. m \<le> rb_len rb \<Longrightarrow> m \<le> rb_count rb + length bs \<Longrightarrow>
      last_view (take (rb_len rb) buf) (unat i) m = drop (rb_count rb + length bs - m) (rb_content rb @ bs)"
    using rb_counts[OF assms(1)] by (simp add: w(3,4))
  with w(1,2,4) show thesis by (rule that)
qed

text \<open>The indices behind a block that fits, and behind one that reaches the read index.\<close>

lemma indices_advance:
  assumes "rb_ok rb" "k \<le> rb_len rb" "unat i = (unat (write_index rb) + k) mod rb_len rb"
    "length buf = length (buffer_ptr rb)"
  defines "c \<equiv> rb_len rb \<le> unat (write_index rb) + k"
  defines "rb' \<equiv> block_written k buf i rb"
  shows "rb_count rb + k \<le> rb_len rb \<Longrightarrow> rb_ok rb' \<and> rb_count rb' = rb_count rb + k"
    "rb_len rb < rb_count rb + k \<Longrightarrow>
      rb_ok ((if c \<and> i \<le> read_index rb then rb'\<lparr>read_mirror := \<not> read_mirror rb\<rparr> else rb')\<lparr>read_index := i\<rparr>) \<and>
      rb_count ((if c \<and> i \<le> read_index rb then rb'\<lparr>read_mirror := \<not> read_mirror rb\<rparr> else rb')\<lparr>read_index := i\<rparr>) = rb_len rb"
proof -
  have i: "unat i = (if c then unat (write_index rb) + k - rb_len rb else unat (write_index rb) + k)"
    using assms(1-3) by (auto simp: c_def rb_ok_def mod_if)
  show "rb_ok rb' \<and> rb_count rb' = rb_count rb + k" if "rb_count rb + k \<le> rb_len rb"
    using assms(1,2,4) i that
    by (cases c; auto simp: rb_ok_def rb_count_def rb'_def block_written_def c_def word_less_nat_alt split: if_splits; linarith)
  show "rb_ok ((if c \<and> i \<le> read_index rb then rb'\<lparr>read_mirror := \<not> read_mirror rb\<rparr> else rb')\<lparr>read_index := i\<rparr>) \<and>
      rb_count ((if c \<and> i \<le> read_index rb then rb'\<lparr>read_mirror := \<not> read_mirror rb\<rparr> else rb')\<lparr>read_index := i\<rparr>) = rb_len rb"
    if "rb_len rb < rb_count rb + k"
    using assms(1,2,4) i that
    by (cases c; auto simp: rb_ok_def rb_count_def rb'_def block_written_def c_def word_less_nat_alt word_le_nat_alt
        split: if_splits; linarith)
qed

lemma unat_u16_of: "n < 65536 \<Longrightarrow> unat (of_nat n :: u16) = n"
  by (simp add: unsigned_of_nat take_bit_nat_eq_self)

lemma unat_ucast16: "unat (x :: u32) < 32768 \<Longrightarrow> unat (ucast x :: u16) = unat x"
  by (simp add: unsigned_ucast_eq take_bit_nat_eq_self)

lemma space_len16:
  assumes "rb_ok rb"
  shows "unat (ucast (rt_ringbuffer_space_len rb) :: u16) = rb_len rb - rb_count rb"
  using data_len(2)[OF assms] rb_len_less[of rb] by (simp add: unat_ucast16)

text \<open>What a call leaves behind.\<close>

definition rb_step :: "ringbuffer \<Rightarrow> ringbuffer \<Rightarrow> u8 list \<Rightarrow> bool" where
  "rb_step rb rb' q \<longleftrightarrow> rb_ok rb' \<and> rb_len rb' = rb_len rb \<and> rb_content rb' = q"

lemma rb_stepI:
  assumes "rb_ok rb'" "rb_len rb' = rb_len rb" "rb_count rb' = m"
    "last_view (rb_bytes rb') (unat (write_index rb')) m = q"
  shows "rb_step rb rb' q"
  using assms rb_counts(4)[OF assms(1)] by (simp add: rb_step_def)

lemma put_ok:
  assumes "rb_ok rb" "length bs < 65536"
  shows "\<exists>rb'. rt_ringbuffer_put bs rb = Some (min (length bs) (rb_len rb - rb_count rb), rb') \<and>
    rb_step rb rb' (rb_content rb @ take (rb_len rb - rb_count rb) bs)"
proof (cases "rb_len rb - rb_count rb = 0")
  case True
  then have "ucast (rt_ringbuffer_space_len rb) = (0 :: u16)" using space_len16[OF assms(1)]
    by (simp add: word_unat_eq_iff)
  with True assms(1) show ?thesis by (auto simp: rt_ringbuffer_put_def rb_step_def)
next
  case False
  let ?s = "ucast (rt_ringbuffer_space_len rb) :: u16" and ?l = "of_nat (length bs) :: u16"
  define k where "k = min (length bs) (rb_len rb - rb_count rb)"
  have l: "unat (if ?s < ?l then ?s else ?l) = k"
    using space_len16[OF assms(1)] unat_u16_of[OF assms(2)] by (auto simp: k_def word_less_nat_alt min_def)
  have k: "k \<le> rb_len rb" "rb_count rb + k \<le> rb_len rb" "length (take k bs) = k"
    using rb_counts(1)[OF assms(1)] by (auto simp: k_def)
  obtain buf i where
    w: "write_block (take k bs) rb = Some (rb_len rb \<le> unat (write_index rb) + k, block_written k buf i rb)"
    and b: "length buf = length (buffer_ptr rb)" "unat i = (unat (write_index rb) + k) mod rb_len rb"
    and v: "\<And>m. m \<le> rb_len rb \<Longrightarrow> m \<le> rb_count rb + k \<Longrightarrow>
      last_view (take (rb_len rb) buf) (unat i) m = drop (rb_count rb + k - m) (rb_content rb @ take k bs)"
    using write_block_view[OF assms(1), of "take k bs"] k(1) unfolding k(3) by blast
  define rb' where "rb' = block_written k buf i rb"
  have ok: "rb_ok rb'" "rb_count rb' = rb_count rb + k"
    using indices_advance(1)[OF assms(1) k(1) b(2,1) k(2)] by (simp_all add: rb'_def)
  have "rb_step rb rb' (rb_content rb @ take k bs)"
    using v[of "rb_count rb + k"] k(2)
    by (intro rb_stepI[OF ok(1) _ ok(2)]) (simp_all add: rb'_def block_written_def rb_bytes_def)
  moreover have "take k bs = take (rb_len rb - rb_count rb) bs" by (simp add: k_def min_def)
  moreover have "?s \<noteq> 0" using False space_len16[OF assms(1)] by auto
  then have "rt_ringbuffer_put bs rb = Some (k, rb')"
    using w by (simp add: rt_ringbuffer_put_def Let_def l rb'_def)
  ultimately show ?thesis by (auto simp: k_def)
qed

lemma newest_of_block:
  assumes "length q \<le> B" "k = min (length bs) B" "m = min B (length q + k)"
  shows "drop (length q + k - m) (q @ drop (length bs - k) bs) = newest B (q @ bs)"
  using assms by (cases "length bs \<le> B") (auto simp: newest_def min_def)

lemma put_force_ok:
  assumes "rb_ok rb" "length bs < 65536"
  shows "\<exists>rb'. rt_ringbuffer_put_force bs rb = Some (min (length bs) (rb_len rb), rb') \<and>
    rb_step rb rb' (newest (rb_len rb) (rb_content rb @ bs))"
proof -
  let ?s = "ucast (rt_ringbuffer_space_len rb) :: u16" and ?l = "of_nat (length bs) :: u16"
  define k where "k = min (length bs) (rb_len rb)"
  define xs where "xs = drop (length bs - k) bs"
  define len where "len = (if uint ?l > sint (buffer_size rb) then buffer_size rb else ?l)"
  have "uint ?l = int (unat ?l)" by simp
  then have l: "unat ?l = length bs" "uint ?l = int (length bs)" using unat_u16_of[OF assms(2)] by (simp_all only:)
  have ul: "unat len = k" using l rb_size[OF assms(1)] by (auto simp: len_def k_def min_def)
  have xs: "(if uint ?l > sint (buffer_size rb) then drop (nat (uint ?l - sint (buffer_size rb))) (take (unat ?l) bs)
      else take (unat ?l) bs) = xs"
    using l rb_size(1)[OF assms(1)] by (auto simp: xs_def k_def nat_diff_distrib min_def)
  have k: "k \<le> rb_len rb" "length xs = k" by (auto simp: k_def xs_def)
  obtain buf i where
    w: "write_block xs rb = Some (rb_len rb \<le> unat (write_index rb) + k, block_written k buf i rb)"
    and b: "length buf = length (buffer_ptr rb)" "unat i = (unat (write_index rb) + k) mod rb_len rb"
    and v: "\<And>m. m \<le> rb_len rb \<Longrightarrow> m \<le> rb_count rb + k \<Longrightarrow>
      last_view (take (rb_len rb) buf) (unat i) m = drop (rb_count rb + k - m) (rb_content rb @ xs)"
    using write_block_view[OF assms(1), of xs] k(1) unfolding k(2) by blast
  define c where "c = (rb_len rb \<le> unat (write_index rb) + k)"
  define r1 where "r1 = block_written k buf i rb"
  have r1 [simp]: "write_index r1 = i" "read_index r1 = read_index rb" "read_mirror r1 = read_mirror rb"
      "rb_bytes r1 = take (rb_len rb) buf" "rb_len r1 = rb_len rb"
    by (simp_all add: r1_def block_written_def rb_bytes_def)
  let ?r2 = "(if c \<and> i \<le> read_index rb then r1\<lparr>read_mirror := \<not> read_mirror rb\<rparr> else r1)\<lparr>read_index := i\<rparr>"
  have r2: "rb_bytes ?r2 = take (rb_len rb) buf" "write_index ?r2 = i" "rb_len ?r2 = rb_len rb"
    using r1(4) by (simp_all add: rb_bytes_def)
  have d: "drop (rb_count rb + k - min (rb_len rb) (rb_count rb + k)) (rb_content rb @ xs) =
      newest (rb_len rb) (rb_content rb @ bs)"
    using newest_of_block[of "rb_content rb" "rb_len rb" k bs] rb_counts(1)[OF assms(1)]
    unfolding xs_def by (simp add: k_def del: drop_append)
  have call: "rt_ringbuffer_put_force bs rb = Some (k, if len > ?s then ?r2 else r1)"
  proof -
    have "(if uint ?l > sint (buffer_size rb)
        then (drop (nat (uint ?l - sint (buffer_size rb))) (take (unat ?l) bs), buffer_size rb)
        else (take (unat ?l) bs, ?l)) = (xs, len)" unfolding xs[symmetric] len_def by simp
    then show ?thesis using w unfolding rt_ringbuffer_put_force_def Let_def
      by (simp only: prod.case bind.bind_lunit c_def[symmetric] r1_def[symmetric] ul) simp
  qed
  show ?thesis
  proof (cases "rb_len rb < rb_count rb + k")
    case True
    have "len > ?s" using True ul space_len16[OF assms(1)] rb_counts(1)[OF assms(1)] by (simp add: word_less_nat_alt)
    moreover have "rb_ok ?r2 \<and> rb_count ?r2 = rb_len rb"
      using indices_advance(2)[OF assms(1) k(1) b(2,1) True] unfolding r1_def c_def .
    then have "rb_step rb ?r2 (newest (rb_len rb) (rb_content rb @ bs))"
      using v[of "rb_len rb"] d True
      by (intro rb_stepI[of _ _ "rb_len rb"]) (simp_all add: r2)
    ultimately show ?thesis using call by (simp add: k_def)
  next
    case False
    have "\<not> len > ?s" using False ul space_len16[OF assms(1)] rb_counts(1)[OF assms(1)] by (simp add: word_less_nat_alt)
    moreover have "rb_ok r1 \<and> rb_count r1 = rb_count rb + k"
      using indices_advance(1)[OF assms(1) k(1) b(2,1)] False by (simp add: r1_def)
    then have "rb_step rb r1 (newest (rb_len rb) (rb_content rb @ bs))"
      using v[of "rb_count rb + k"] d False
      by (intro rb_stepI[of _ _ "rb_count rb + k"]) (simp_all add: min_def)
    ultimately show ?thesis using call by (simp add: k_def)
  qed
qed

text \<open>Taking bytes moves the read index.\<close>

definition bytes_taken :: "nat \<Rightarrow> u15 \<Rightarrow> ringbuffer \<Rightarrow> ringbuffer" where
  "bytes_taken k i rb =
     rb\<lparr>read_mirror := (read_mirror rb \<noteq> (rb_len rb \<le> unat (read_index rb) + k)), read_index := i\<rparr>"

lemma bytes_taken_ok:
  assumes "rb_ok rb" "k \<le> rb_count rb" "unat i = (unat (read_index rb) + k) mod rb_len rb"
  shows "rb_step rb (bytes_taken k i rb) (drop k (rb_content rb))"
proof -
  let ?rb = "bytes_taken k i rb"
  have n: "rb_count rb \<le> rb_len rb" by (rule rb_counts(1)[OF assms(1)])
  define c where "c = (rb_len rb \<le> unat (read_index rb) + k)"
  have i: "unat i = (if c then unat (read_index rb) + k - rb_len rb else unat (read_index rb) + k)"
    using assms n by (auto simp: c_def rb_ok_def mod_if)
  have ok: "rb_ok ?rb \<and> rb_count ?rb = rb_count rb - k"
    using assms(1,2) i n
    by (cases c; auto simp: rb_ok_def rb_count_def bytes_taken_def c_def word_less_nat_alt split: if_splits; linarith)
  have "drop k (view (rb_bytes rb) (unat (read_index rb)) (rb_count rb)) =
      view (rb_bytes rb) ((unat (read_index rb) + k) mod rb_len rb) (rb_count rb - k)"
    using view_split[OF assms(2), of "rb_bytes rb" "unat (read_index rb)"] rb_counts(2)[OF assms(1)] by simp
  then show ?thesis using ok assms(3)
    by (simp add: rb_step_def rb_content_def) (simp add: bytes_taken_def rb_bytes_def)
qed

lemma take_content:
  assumes "rb_ok rb" "k \<le> rb_count rb"
  defines "r \<equiv> unat (read_index rb)"
  shows "take k (rb_content rb) =
    (if r + k < rb_len rb then take k (drop r (buffer_ptr rb))
     else take (rb_len rb - r) (drop r (buffer_ptr rb)) @ take (k - (rb_len rb - r)) (buffer_ptr rb))"
proof -
  have "take k (rb_content rb) = view (rb_bytes rb) r k"
    using view_split[OF assms(2), of "rb_bytes rb" r] by (simp add: rb_content_def r_def)
  moreover have "r < length (rb_bytes rb)" "k \<le> length (rb_bytes rb)" "length (rb_bytes rb) = rb_len rb"
    using assms rb_counts(1,2)[OF assms(1)] by (auto simp: rb_ok_def)
  ultimately show ?thesis by (simp add: view_slices) (auto simp: rb_bytes_def drop_take min_def)
qed

lemma get_ok:
  assumes "rb_ok rb"
  shows "\<exists>rb'. rt_ringbuffer_get len rb = Some (take (unat len) (rb_content rb), rb') \<and>
    rb_step rb rb' (drop (unat len) (rb_content rb))"
proof (cases "rb_count rb = 0")
  case True
  then have "rt_ringbuffer_data_len rb = 0" using data_len(1)[OF assms] by (simp add: word_unat_eq_iff)
  moreover have "rb_content rb = []" using True by (simp flip: length_0_conv)
  ultimately show ?thesis using assms by (simp add: rt_ringbuffer_get_def rb_step_def)
next
  case False
  let ?B = "rb_len rb" and ?r = "unat (read_index rb)"
  let ?sz = "rt_ringbuffer_data_len rb"
  let ?l = "if ?sz < ucast len then ucast ?sz else len :: u16"
  define k where "k = min (unat len) (rb_count rb)"
  have n: "rb_count rb \<le> ?B" "0 < ?B" "?B < 32768" "?r < ?B" "?B \<le> length (buffer_ptr rb)"
    using rb_counts[OF assms] rb_len_less[of rb] assms by (auto simp: rb_ok_def)
  have sz: "unat ?sz = rb_count rb" by (rule data_len(1)[OF assms])
  have "unat len < 65536" using unsigned_less[of len] by simp
  then have "unat (ucast len :: u32) = unat len" by (simp add: unsigned_ucast_eq take_bit_nat_eq_self)
  then have "unat ?l = k" using sz n by (auto simp: k_def word_less_nat_alt unat_ucast16 min_def)
  moreover have "uint ?l = int (unat ?l)" by (simp only: uint_nat)
  ultimately have l: "uint ?l = int k" by (simp only:)
  have k: "k \<le> rb_count rb" "k \<le> ?B" using n by (auto simp: k_def)
  define K where "K = ?B - ?r"
  have K: "behind (read_index rb) rb = int K" "uint (read_index rb) = int ?r"
    using behind_eq[OF assms] n by (simp_all add: K_def)
  define i where "i = (if ?B \<le> ?r + k then word_of_int (int k - int K) else read_index rb + word_of_int (int k))"
  have "i = of_nat (if ?B \<le> ?r + k then ?r + k - ?B else ?r + k)"
    using n by (auto simp: i_def K_def of_nat_diff algebra_simps)
  moreover have "(if ?B \<le> ?r + k then ?r + k - ?B else ?r + k) < 32768" using n k by auto
  ultimately have "unat i = (if ?B \<le> ?r + k then ?r + k - ?B else ?r + k)"
    by (simp add: unsigned_of_nat take_bit_nat_eq_self)
  then have i: "unat i = (?r + k) mod ?B" using n k by (auto simp: mod_if)
  have "?sz \<noteq> 0" using False sz by auto
  have out: "copy_out (int a) (int c) (buffer_ptr rb) = Some (take c (drop a (buffer_ptr rb)))" if "a + c \<le> ?B" for a c
    using that n by (simp add: copy_out_def)
  have "rt_ringbuffer_get len rb = Some (take k (rb_content rb), bytes_taken k i rb)"
  proof (cases "?r + k < ?B")
    case True
    then have "k < K" by (simp add: K_def)
    then have "int k < int K" by simp
    then show ?thesis using True out[of ?r k] \<open>?sz \<noteq> 0\<close>
      by (simp only: rt_ringbuffer_get_def Let_def l K take_content[OF assms k(1)])
        (simp add: bytes_taken_def i_def)
  next
    case False
    then have "\<not> k < K" by (simp add: K_def)
    then have "\<not> int k < int K" "int k - int K = int (k - K)" by simp_all
    moreover have "k - K \<le> ?B" "?r + K = ?B" using n k by (auto simp: K_def)
    ultimately show ?thesis using False out[of ?r K] out[of 0 "k - K"] \<open>?sz \<noteq> 0\<close>
      by (simp only: rt_ringbuffer_get_def Let_def l K take_content[OF assms k(1)])
        (simp add: bytes_taken_def i_def K_def del: of_nat_diff)
  qed
  moreover have "take k (rb_content rb) = take (unat len) (rb_content rb)" "drop k (rb_content rb) = drop (unat len) (rb_content rb)"
    by (auto simp: k_def min_def)
  ultimately show ?thesis using bytes_taken_ok[OF assms k(1) i] by simp
qed

text \<open>The calls for single bytes are those for blocks of one byte.\<close>

lemma write_single:
  assumes "rb_ok rb"
  defines "at_end \<equiv> uint (write_index rb) = sint (buffer_size rb) - 1"
  shows "write_block [ch] rb = do {
     buf \<leftarrow> copy_in (uint (write_index rb)) [ch] (buffer_ptr rb);
     Some (at_end, if at_end then rb\<lparr>buffer_ptr := buf, write_mirror := \<not> write_mirror rb, write_index := 0\<rparr>
       else rb\<lparr>buffer_ptr := buf, write_index := write_index rb + 1\<rparr>) }"
proof (cases at_end)
  case True
  then have "behind (write_index rb) rb = 1" by (simp add: at_end_def behind_def)
  moreover have "copy_in 0 [] buf = Some buf" for buf by (simp add: copy_in_def)
  ultimately show ?thesis using True by (simp add: write_block_def Let_def)
next
  case False
  have "uint (write_index rb) < sint (buffer_size rb)"
    using assms(1) rb_size(1)[OF assms(1)] by (simp add: rb_ok_def) (metis of_nat_less_iff of_nat_unat)
  with False have "behind (write_index rb) rb > 1" by (simp add: at_end_def behind_def)
  then show ?thesis using False by (simp add: write_block_def Let_def)
qed

lemma space_zero:
  assumes "rb_ok rb"
  shows "(ucast (rt_ringbuffer_space_len rb) = (0 :: u16)) = (rt_ringbuffer_space_len rb = 0)"
    "(rt_ringbuffer_space_len rb = 0) = (rt_ringbuffer_status rb = RT_RINGBUFFER_FULL)"
proof -
  show "(ucast (rt_ringbuffer_space_len rb) = (0 :: u16)) = (rt_ringbuffer_space_len rb = 0)"
    using space_len16[OF assms] data_len(2)[OF assms] by (metis unsigned_0 unsigned_eq_0_iff)
  have "(rt_ringbuffer_space_len rb = 0) = (rb_len rb - rb_count rb = 0)"
    using data_len(2)[OF assms] by (metis unsigned_eq_0_iff)
  also have "\<dots> = (rt_ringbuffer_status rb = RT_RINGBUFFER_FULL)"
    using assms by (auto simp: rt_ringbuffer_status_def rb_count_def rb_ok_def word_less_nat_alt word_unat_eq_iff split: if_splits)
  finally show "(rt_ringbuffer_space_len rb = 0) = (rt_ringbuffer_status rb = RT_RINGBUFFER_FULL)" .
qed

lemma putchar_is_put: "rb_ok rb \<Longrightarrow> rt_ringbuffer_putchar ch rb = rt_ringbuffer_put [ch] rb"
proof -
  assume ok: "rb_ok rb"
  have one: "\<not> (x < 1)" if "x \<noteq> 0" for x :: u16 using that by (simp add: word_less_1)
  show ?thesis
  proof (cases "rt_ringbuffer_space_len rb = 0")
    case True
    then show ?thesis by (simp add: rt_ringbuffer_putchar_def rt_ringbuffer_put_def)
  next
    case False
    then have nz: "ucast (rt_ringbuffer_space_len rb) \<noteq> (0 :: u16)" using space_zero(1)[OF ok] by simp
    then show ?thesis using False one[OF nz]
      by (simp add: rt_ringbuffer_putchar_def rt_ringbuffer_put_def Let_def write_single[OF ok] cong: if_cong)
  qed
qed

lemma putchar_force_is_put_force: "rb_ok rb \<Longrightarrow> rt_ringbuffer_putchar_force ch rb = rt_ringbuffer_put_force [ch] rb"
proof -
  assume ok: "rb_ok rb"
  have fits: "\<not> uint (1 :: u16) > sint (buffer_size rb)" using ok by (simp add: rb_ok_def)
  have full: "(ucast (rt_ringbuffer_space_len rb) = (0 :: u16)) = (rt_ringbuffer_status rb = RT_RINGBUFFER_FULL)"
    by (simp only: space_zero[OF ok])
  have "rt_ringbuffer_put_force [ch] rb = do {
      (crossed, rb) \<leftarrow> write_block [ch] rb;
      Some (1, if rt_ringbuffer_status rb' = RT_RINGBUFFER_FULL then
            (if crossed \<and> write_index rb \<le> read_index rb then rb\<lparr>read_mirror := \<not> read_mirror rb\<rparr> else rb)
              \<lparr>read_index := write_index rb\<rparr>
          else rb) }" if "rb' = rb" for rb'
    using fits by (simp add: rt_ringbuffer_put_force_def Let_def full that)
  note force = this[OF refl]
  show ?thesis
    by (cases "rt_ringbuffer_status rb = RT_RINGBUFFER_FULL"; cases "uint (write_index rb) = sint (buffer_size rb) - 1")
      (simp_all add: rt_ringbuffer_putchar_force_def force write_single[OF ok] Let_def)
qed

lemma getchar_is_get:
  assumes "rb_ok rb"
  shows "rt_ringbuffer_getchar rb =
    map_option (\<lambda>(bs, rb). (case bs of [] \<Rightarrow> None | b # _ \<Rightarrow> Some b, rb)) (rt_ringbuffer_get 1 rb)"
proof (cases "rt_ringbuffer_data_len rb = 0")
  case True
  then show ?thesis by (simp add: rt_ringbuffer_getchar_def rt_ringbuffer_get_def)
next
  case False
  have r: "uint (read_index rb) < sint (buffer_size rb)" "0 \<le> uint (read_index rb)"
    using assms rb_size(1)[OF assms] by (simp_all add: rb_ok_def) (metis of_nat_less_iff of_nat_unat)
  have "\<not> rt_ringbuffer_data_len rb < 1" using False by (simp add: word_less_1)
  moreover have "hd (take (Suc 0) xs) = b" "take (Suc 0) xs = [b]" if "xs = b # bs" for b bs and xs :: "u8 list"
    using that by simp_all
  moreover obtain b bs where "drop (nat (uint (read_index rb))) (buffer_ptr rb) = b # bs"
    using assms r by (cases "drop (nat (uint (read_index rb))) (buffer_ptr rb)") (auto simp: rb_ok_def)
  ultimately show ?thesis using False r
    by (cases "uint (read_index rb) = sint (buffer_size rb) - 1")
      (simp_all add: rt_ringbuffer_getchar_def rt_ringbuffer_get_def Let_def behind_def copy_out_def)
qed

lemma getchar_ok:
  assumes "rb_ok rb"
  shows "\<exists>rb'. rt_ringbuffer_getchar rb = Some (case rb_content rb of [] \<Rightarrow> None | b # _ \<Rightarrow> Some b, rb') \<and>
    rb_step rb rb' (tl (rb_content rb))"
proof -
  obtain rb' where "rt_ringbuffer_get 1 rb = Some (take 1 (rb_content rb), rb')" "rb_step rb rb' (drop 1 (rb_content rb))"
    using get_ok[OF assms, of 1] by auto
  then show ?thesis by (cases "rb_content rb") (simp_all add: getchar_is_get[OF assms])
qed

lemma peak_ok:
  assumes "rb_ok rb" "rb_count rb \<noteq> 0"
  shows "\<exists>n rb'. rt_ringbuffer_peak rb = (n, Some (read_index rb), rb') \<and> 0 < n \<and> n \<le> rb_count rb \<and>
    take n (rb_content rb) = take n (drop (unat (read_index rb)) (buffer_ptr rb)) \<and>
    rb_step rb rb' (drop n (rb_content rb))"
proof -
  let ?B = "rb_len rb" and ?r = "unat (read_index rb)" and ?sz = "rt_ringbuffer_data_len rb"
  have n: "rb_count rb \<le> ?B" "?B < 32768" "?r < ?B" "unat ?sz = rb_count rb"
    using rb_counts(1)[OF assms(1)] rb_len_less[of rb] data_len(1)[OF assms(1)] assms(1) by (auto simp: rb_ok_def)
  define K where "K = ?B - ?r"
  have K: "behind (read_index rb) rb = int K" using behind_eq[OF assms(1)] n by (simp add: K_def of_nat_diff)
  have "K < 2 ^ 32" using n by (simp add: K_def)
  then have uK: "unat (of_nat K :: u32) = K" by (simp add: unsigned_of_nat take_bit_nat_eq_self)
  have nz: "?sz \<noteq> 0" using assms(2) n(4) by auto
  define k where "k = (if rb_count rb < K then rb_count rb else K)"
  define i where "i = (if rb_count rb < K then read_index rb + ucast ?sz else 0)"
  have "unat i = (?r + k) mod ?B"
  proof (cases "rb_count rb < K")
    case True
    have u: "(ucast ?sz :: u15) = of_nat (rb_count rb)" unfolding n(4)[symmetric] by simp
    have "i = of_nat (?r + rb_count rb)" using True by (simp add: i_def u)
    moreover have "?r + rb_count rb < 32768" using True n by (simp add: K_def)
    ultimately have "unat i = ?r + rb_count rb" by (simp add: unsigned_of_nat take_bit_nat_eq_self del: of_nat_add)
    with True show ?thesis by (simp add: k_def K_def)
  qed (use n in \<open>simp add: k_def i_def K_def\<close>)
  moreover have k: "k \<le> rb_count rb" "0 < k" using assms(2) n by (auto simp: k_def K_def)
  moreover have c: "(?B \<le> ?r + k) = (\<not> rb_count rb < K)" using n by (auto simp: k_def K_def)
  have "rt_ringbuffer_peak rb = (k, Some (read_index rb), bytes_taken k i rb)"
    unfolding rt_ringbuffer_peak_def Let_def K bytes_taken_def c
    using nz n(4) uK by (cases "rb_count rb < K") (simp_all add: word_less_nat_alt k_def i_def)
  moreover have "take k (rb_content rb) = take k (drop ?r (buffer_ptr rb))"
    using take_content[OF assms(1) k(1)] n by (auto simp: k_def K_def)
  ultimately show ?thesis using bytes_taken_ok[OF assms(1) k(1)] by blast
qed

lemma unat_align_down16: "unat ((v :: u16) AND NOT (4 - 1)) = unat v div 4 * 4"
proof -
  have m: "(4 - 1 :: u16) = mask 2" by (simp add: mask_eq_exp_minus_1)
  have two: "2 \<le> n \<Longrightarrow> Suc (Suc (n - 2)) = n" for n :: nat by simp
  have l: "unat v < 65536" using unsigned_less[of v] by simp
  have "v AND NOT (4 - 1) = push_bit 2 (drop_bit 2 v)"
    unfolding m by (rule bit_word_eqI) (auto simp: bit_simps two)
  moreover have "unat (drop_bit 2 v) = unat v div 4"
    unfolding unsigned_drop_bit_eq using l by (simp add: drop_bit_eq_div take_bit_nat_eq_self)
  moreover have "unat v div 4 * 4 < 65536" using l by linarith
  ultimately show ?thesis by (simp add: push_bit_eq_mult unat_word_ariths mult.commute)
qed

lemma sint16_small: "unat (v :: u16) < 32768 \<Longrightarrow> sint v = int (unat v)"
proof -
  assume "unat v < 32768"
  then have "int (unat v) < 32768" by linarith
  then have "uint v < 32768" by (simp only: uint_nat)
  moreover have "- 32768 \<le> uint v" using uint_ge_0[of v] by linarith
  ultimately have "signed_take_bit 15 (uint v) = uint v" by (simp add: signed_take_bit_int_eq_self_iff)
  then show ?thesis by (simp add: sint_uint)
qed

lemma rt_ringbuffer_init_ok:
  assumes "rt_ringbuffer_init pool sz = Some rb" "4 \<le> sint sz" "nat (sint sz) \<le> length pool"
  shows "rb_ok rb" "rb_content rb = []" "rb_len rb = nat (sint sz) div 4 * 4"
proof -
  have "sint sz < 2 ^ (16 - 1)" using sint_lt[of sz] by simp
  then have b: "sint sz < 32768" by simp
  have s: "sz = of_nat (nat (sint sz))"
    using assms(2) by (metis nat_0_le of_int_of_nat_eq order_trans scast_eq scast_id zero_le_numeral)
  have u: "unat sz = nat (sint sz)" using b by (subst s) (simp add: unsigned_of_nat take_bit_nat_eq_self)
  have rb: "rb = \<lparr>buffer_ptr = pool, read_mirror = False, read_index = 0, write_mirror = False,
          write_index = 0, buffer_size = sz AND NOT (4 - 1)\<rparr>"
    using assms(1) by (simp add: rt_ringbuffer_init_def split: if_splits)
  have size: "unat (buffer_size rb) = nat (sint sz) div 4 * 4" unfolding rb by (simp only: ringbuffer.select_convs unat_align_down16 u)
  have "nat (sint sz) div 4 * 4 < 32768" "4 \<le> nat (sint sz)" using b assms(2) by linarith+
  then have si: "sint (buffer_size rb) = int (nat (sint sz) div 4 * 4)" using sint16_small size by metis
  then show len: "rb_len rb = nat (sint sz) div 4 * 4" by (simp add: rb_len_def)
  have "0 < nat (sint sz) div 4 * 4" using \<open>4 \<le> nat (sint sz)\<close> by simp
  moreover have "nat (sint sz) div 4 * 4 \<le> length pool" using assms(3) by (meson div_times_less_eq_dividend le_trans)
  ultimately show "rb_ok rb" unfolding rb_ok_def len si by (simp add: rb)
  show "rb_content rb = []" by (simp add: rb_content_def rb_count_def rb)
qed

section \<open>A queue of bytes\<close>

datatype rb_op = PutBlock "u8 list" | ForceBlock "u8 list" | GetBlock u16 | PutByte u8 | ForceByte u8 | GetByte | Reset

datatype rb_answer = Taken nat | Given "u8 list" | Done

definition one_byte :: "u8 option \<Rightarrow> rb_answer" where
  "one_byte b = Given (case b of None \<Rightarrow> [] | Some b \<Rightarrow> [b])"

fun rb_call :: "rb_op \<Rightarrow> ringbuffer \<Rightarrow> (rb_answer \<times> ringbuffer) option" where
  "rb_call (PutBlock bs) rb = map_option (apfst Taken) (rt_ringbuffer_put bs rb)"
| "rb_call (ForceBlock bs) rb = map_option (apfst Taken) (rt_ringbuffer_put_force bs rb)"
| "rb_call (GetBlock n) rb = map_option (apfst Given) (rt_ringbuffer_get n rb)"
| "rb_call (PutByte b) rb = map_option (apfst Taken) (rt_ringbuffer_putchar b rb)"
| "rb_call (ForceByte b) rb = map_option (apfst Taken) (rt_ringbuffer_putchar_force b rb)"
| "rb_call GetByte rb = map_option (apfst one_byte) (rt_ringbuffer_getchar rb)"
| "rb_call Reset rb = Some (Done, rt_ringbuffer_reset rb)"

fun rb_run :: "rb_op list \<Rightarrow> ringbuffer \<Rightarrow> rb_answer list option" where
  "rb_run [] rb = Some []"
| "rb_run (c # cs) rb = do { (a, rb) \<leftarrow> rb_call c rb; as \<leftarrow> rb_run cs rb; Some (a # as) }"

text \<open>The specification: blocks are cut off at the room that is left, forced ones push the oldest
  bytes out.\<close>

fun q_call :: "nat \<Rightarrow> rb_op \<Rightarrow> u8 list \<Rightarrow> rb_answer \<times> u8 list" where
  "q_call cap (PutBlock bs) q = (let xs = take (cap - length q) bs in (Taken (length xs), q @ xs))"
| "q_call cap (ForceBlock bs) q = (Taken (min (length bs) cap), newest cap (q @ bs))"
| "q_call cap (GetBlock n) q = (Given (take (unat n) q), drop (unat n) q)"
| "q_call cap (PutByte b) q = (if length q < cap then (Taken 1, q @ [b]) else (Taken 0, q))"
| "q_call cap (ForceByte b) q = (Taken 1, newest cap (q @ [b]))"
| "q_call cap GetByte q = (Given (take 1 q), tl q)"
| "q_call cap Reset q = (Done, [])"

fun short_block :: "rb_op \<Rightarrow> bool" where
  "short_block (PutBlock bs) = (length bs < 65536)"
| "short_block (ForceBlock bs) = (length bs < 65536)"
| "short_block _ = True"

lemma rb_call_simulates:
  assumes "rb_ok rb" "short_block c"
  shows "\<exists>rb'. rb_call c rb = Some (fst (q_call (rb_len rb) c (rb_content rb)), rb') \<and>
    rb_step rb rb' (snd (q_call (rb_len rb) c (rb_content rb)))"
proof (cases c)
  case (PutBlock bs)
  then show ?thesis using put_ok[OF assms(1), of bs] assms(2) by (auto simp: Let_def min.commute)
next
  case (ForceBlock bs)
  then show ?thesis using put_force_ok[OF assms(1), of bs] assms(2) by auto
next
  case (GetBlock n)
  then show ?thesis using get_ok[OF assms(1), of n] by auto
next
  case (PutByte b)
  then show ?thesis using put_ok[OF assms(1), of "[b]"] rb_counts(1)[OF assms(1)]
    by (auto simp: putchar_is_put[OF assms(1)] take_Cons')
next
  case (ForceByte b)
  then show ?thesis using put_force_ok[OF assms(1), of "[b]"] rb_counts(3)[OF assms(1)]
    by (auto simp: putchar_force_is_put_force[OF assms(1)])
next
  case GetByte
  then show ?thesis using getchar_ok[OF assms(1)] by (cases "rb_content rb") (auto simp: one_byte_def)
next
  case Reset
  have "rb_ok (rt_ringbuffer_reset rb)" "rb_count (rt_ringbuffer_reset rb) = 0"
    using assms(1) by (auto simp: rb_ok_def rt_ringbuffer_reset_def rb_count_def)
  moreover have "rb_len (rt_ringbuffer_reset rb) = rb_len rb" by (simp add: rt_ringbuffer_reset_def)
  ultimately show ?thesis using Reset by (simp add: rb_step_def rb_content_def)
qed

lemma rb_run_simulates:
  assumes "rb_ok rb" "list_all short_block cs"
  shows "rb_run cs rb = Some (fst (run_calls (q_call (rb_len rb)) cs (rb_content rb)))"
  using assms
proof (induction cs arbitrary: rb)
  case (Cons c cs)
  obtain rb' where "rb_call c rb = Some (fst (q_call (rb_len rb) c (rb_content rb)), rb')"
    "rb_step rb rb' (snd (q_call (rb_len rb) c (rb_content rb)))"
    using rb_call_simulates[of rb c] Cons.prems by auto
  then show ?case using Cons.IH[of rb'] Cons.prems(2)
    by (simp add: rb_step_def case_prod_unfold Let_def)
qed simp

section \<open>Properties\<close>

text \<open>C31: every sequence of calls on a ring buffer, blocks and single bytes mixed, is answered as a
  queue answers it that has room for the size of the pool, rounded down to words: a block is cut
  off at the room that is left, a forced one pushes out the oldest bytes, and no call touches a
  byte outside the pool.\<close>

theorem ringbuffer_is_a_queue:
  assumes "rt_ringbuffer_init pool sz = Some rb" "4 \<le> sint sz" "nat (sint sz) \<le> length pool"
    "list_all short_block cs"
  shows "rb_run cs rb = Some (fst (run_calls (q_call (nat (sint sz) div 4 * 4)) cs []))"
  using rb_run_simulates[OF rt_ringbuffer_init_ok(1)[OF assms(1-3)] assms(4)] rt_ringbuffer_init_ok(2,3)[OF assms(1-3)]
  by simp

lemma ringbuffer_is_a_queue_witness:
  "rb_run [PutBlock [1, 2, 3], GetByte, PutBlock [4, 5, 6, 7], ForceByte 8, GetBlock 9]
     \<lparr>buffer_ptr = [0, 0, 0, 0], read_mirror = False, read_index = 0, write_mirror = False,
       write_index = 0, buffer_size = 4\<rparr> =
   Some [Taken 3, Given [1], Taken 2, Taken 1, Given [3, 4, 5, 8]]"
proof -
  let ?rb = "\<lparr>buffer_ptr = [0, 0, 0, 0], read_mirror = False, read_index = 0, write_mirror = False,
       write_index = 0, buffer_size = 4\<rparr> :: ringbuffer"
  have "rt_ringbuffer_init [0, 0, 0, 0] 4 = Some ?rb" by (simp add: rt_ringbuffer_init_def)
  then show ?thesis
    using ringbuffer_is_a_queue[of "[0, 0, 0, 0]" 4 ?rb
        "[PutBlock [1, 2, 3], GetByte, PutBlock [4, 5, 6, 7], ForceByte 8, GetBlock 9]"]
    by (simp add: Let_def newest_def)
qed

text \<open>The assertion on the size comes before the rounding: a pool of less than a word makes a
  ring of size 0, whose forced bytes run past the pool.\<close>

definition empty_ring :: "u8 list \<Rightarrow> u15 \<Rightarrow> ringbuffer" where
  "empty_ring buf w = \<lparr>buffer_ptr = buf, read_mirror = False, read_index = 0, write_mirror = False,
     write_index = w, buffer_size = 0\<rparr>"

lemma empty_ring_force:
  "rb_call (ForceByte b) (empty_ring buf w) =
    (if unat w < length buf then Some (Taken 1, empty_ring (buf[unat w := b]) (w + 1)) else None)"
proof -
  have "uint w \<noteq> -1" using uint_ge_0[of w] by linarith
  then show ?thesis
    by (auto simp: empty_ring_def rt_ringbuffer_putchar_force_def copy_in_def rt_ringbuffer_status_def Let_def
        blit_def upd_conv_take_nth_drop)
qed

theorem tiny_pool_is_left:
  assumes "length pool = 3"
  shows "\<exists>rb. rt_ringbuffer_init pool 3 = Some rb \<and> rb_run [ForceByte a, ForceByte b, ForceByte c, ForceByte d] rb = None"
proof -
  have "rt_ringbuffer_init pool 3 = Some (empty_ring pool 0)" by (simp add: rt_ringbuffer_init_def empty_ring_def)
  moreover have "rb_run [ForceByte a, ForceByte b, ForceByte c, ForceByte d] (empty_ring pool 0) = None"
    using assms by (simp add: empty_ring_force del: rb_call.simps)
  ultimately show ?thesis by simp
qed

end
