(* ===== verification/CStr.thy ===== *)
theory CStr
  imports Prelude
begin

text \<open>
  Strings of C in an array: the end of a string is \<open>NUL\<close>.  Shared by the shell and by the names of
  kernel objects.
\<close>

abbreviation NUL :: char where "NUL \<equiv> CHR 0x00"

definition load :: "string \<Rightarrow> nat \<Rightarrow> char option" where
  "load buf i = (if i < length buf then Some (buf ! i) else None)"

definition c_str :: "string \<Rightarrow> string" where
  "c_str buf = takeWhile (\<lambda>c. c \<noteq> NUL) buf"

text \<open>\<open>strncmp(a, b, n) == 0\<close> for two arrays.\<close>

fun strncmp_eq :: "nat \<Rightarrow> string \<Rightarrow> string \<Rightarrow> bool" where
  "strncmp_eq 0 a b = True"
| "strncmp_eq (Suc n) (x # a) (y # b) = (x = y \<and> (x = NUL \<or> strncmp_eq n a b))"
| "strncmp_eq (Suc n) a b = False"

text \<open>\<open>rt_strncpy(dst, src, n)\<close>: cut off, or filled up with zeros.\<close>

definition strncpy :: "nat \<Rightarrow> string \<Rightarrow> string" where
  "strncpy n src = take n (c_str src @ replicate n NUL)"

lemma load_append [simp]: "load (pre @ c # rest) (length pre) = Some c"
  by (simp add: load_def)

lemma c_str_ends:
  assumes "l ! i = NUL" shows "length (c_str l) \<le> i"
proof (rule ccontr)
  assume "\<not> length (c_str l) \<le> i"
  then have i: "i < length (takeWhile (\<lambda>c. c \<noteq> NUL) l)" by (simp add: c_str_def)
  show False using nth_mem[OF i] takeWhile_nth[OF i] assms by (auto dest: set_takeWhileD)
qed

lemma strncmp_eq_take:
  assumes "NUL \<notin> set a" "n \<le> length b" "NUL \<notin> set (take n b)"
  shows "strncmp_eq n (a @ [NUL]) b = (n \<le> length a \<and> take n a = take n b)"
  using assms
proof (induction n "a @ [NUL]" b arbitrary: a rule: strncmp_eq.induct)
  case (2 n x a' y b)
  then show ?case by (cases a) auto
qed auto

text \<open>A stored name is found by exactly the names that agree with it as far as it was kept.\<close>

lemma strncmp_stored:
  assumes "NUL \<notin> set a" "NUL \<notin> set b"
  shows "strncmp_eq n (strncpy n a) (b @ [NUL]) = (take n a = take n b)"
proof -
  have "c_str a = a" using assms(1) by (simp add: c_str_def takeWhile_eq_all_conv) metis
  then have "strncpy n a = take n (a @ replicate n NUL)" by (simp add: strncpy_def)
  moreover have "strncmp_eq n (take n (a @ replicate n NUL)) (b @ [NUL]) = (take n a = take n b)"
    using assms
  proof (induction n arbitrary: a b)
    case (Suc n)
    have *: "take n (a @ replicate m NUL) = take n (a @ replicate n NUL)" if "n \<le> m" for a m
      using min_absorb1[OF le_trans[OF diff_le_self that], of "length a"] by (simp add: take_replicate)
    show ?case
    proof (cases a)
      case Nil
      then show ?thesis using Suc.prems by (cases b) auto
    next
      case (Cons x a')
      then show ?thesis using Suc.IH[of a' "tl b"] Suc.prems *[of "Suc n" a'] by (cases b) auto
    qed
  qed simp
  ultimately show ?thesis by simp
qed

end
