(* ===== verification/Shell.thy ===== *)
theory Shell
  imports Commands CStr
begin

text \<open>
  The shell: the line editor of rt-thread/components/finsh/shell.c (\<open>finsh_thread_entry\<close>, one
  definition per key) and the command parser of msh.c.  A line is an array of 81 characters, a
  character is a byte, the end of a string is \<open>NUL\<close>.  The table of commands is an argument, as the
  linker gathers it; calling a command is the result of entering a line.  What is only printed is
  left out.  \<open>None\<close> is an access outside an array.  The lemmas show that the editor is a text with
  a cursor, where it leaves its array, and that a typed line runs the command it names.
\<close>

section \<open>Strings in arrays\<close>

definition FINSH_CMD_SIZE :: nat where "FINSH_CMD_SIZE = 80"
definition FINSH_ARG_MAX :: nat where "FINSH_ARG_MAX = 10"
definition FINSH_HISTORY_LINES :: nat where "FINSH_HISTORY_LINES = 3"

definition store :: "nat \<Rightarrow> char \<Rightarrow> string \<Rightarrow> string option" where
  "store i c buf = (if i < length buf then Some (buf[i := c]) else None)"

text \<open>\<open>rt_memmove(&buf[dst], &buf[src], n)\<close> and the length of the string at the beginning.\<close>

definition move :: "nat \<Rightarrow> nat \<Rightarrow> nat \<Rightarrow> string \<Rightarrow> string option" where
  "move dst src n buf =
     (if dst + n \<le> length buf \<and> src + n \<le> length buf then Some (blit buf dst (take n (drop src buf))) else None)"

definition c_strlen :: "string \<Rightarrow> nat option" where
  "c_strlen buf = (if NUL \<in> set buf then Some (length (c_str buf)) else None)"

definition blank :: "char \<Rightarrow> bool" where
  "blank c \<longleftrightarrow> c = CHR '' '' \<or> c = CHR 0x09"

section \<open>msh.c: splitting a line\<close>

text \<open>\<open>None\<close> in the loops is a character behind the array; the position is that of \<open>ptr\<close>.\<close>

function strip_blanks :: "nat \<Rightarrow> string \<Rightarrow> nat \<Rightarrow> (string \<times> nat) option" where
  "strip_blanks len buf p =
     (case load buf p of
        None \<Rightarrow> None
      | Some c \<Rightarrow> if blank c \<and> p < len then strip_blanks len (buf[p := NUL]) (p + 1) else Some (buf, p))"
  by pat_completeness auto
termination by (relation "measure (\<lambda>(len, _, p). len - p)") auto

function skip_word :: "nat \<Rightarrow> string \<Rightarrow> nat \<Rightarrow> nat option" where
  "skip_word len buf p =
     (case load buf p of
        None \<Rightarrow> None
      | Some c \<Rightarrow> if \<not> blank c \<and> p < len then skip_word len buf (p + 1) else Some p)"
  by pat_completeness auto
termination by (relation "measure (\<lambda>(len, _, p). len - p)") auto

function skip_string :: "nat \<Rightarrow> string \<Rightarrow> nat \<Rightarrow> nat option" where
  "skip_string len buf p =
     (case load buf p of
        None \<Rightarrow> None
      | Some c \<Rightarrow>
          if c \<noteq> CHR 0x22 \<and> p < len then
            (if c = CHR 0x5C then
               (case load buf (p + 1) of
                  None \<Rightarrow> None
                | Some d \<Rightarrow> skip_string len buf (if d = CHR 0x22 then p + 2 else p + 1))
             else skip_string len buf (p + 1))
          else Some p)"
  by pat_completeness auto
termination by (relation "measure (\<lambda>(len, _, p). len - p)") auto

declare strip_blanks.simps [simp del] skip_word.simps [simp del] skip_string.simps [simp del]

text \<open>One turn of the loop of \<open>msh_split\<close>: the array, the position and the arguments so far, and
  whether the loop goes on.\<close>

definition split_turn :: "nat \<Rightarrow> string \<Rightarrow> nat \<Rightarrow> nat list \<Rightarrow> (bool \<times> string \<times> nat \<times> nat list) option" where
  "split_turn len buf p argv = do {
     (buf, p) \<leftarrow> strip_blanks len buf p;
     if FINSH_ARG_MAX \<le> length argv then Some (False, buf, p, argv)
     else if len \<le> p then Some (False, buf, p, argv)
     else do {
       c \<leftarrow> load buf p;
       if c = CHR 0x22 then do {
         q \<leftarrow> skip_string len buf (p + 1);
         if len \<le> q then Some (False, buf, q, argv @ [p + 1])
         else do { buf \<leftarrow> store q NUL buf; Some (True, buf, q + 1, argv @ [p + 1]) } }
       else do {
         q \<leftarrow> skip_word len buf p;
         Some (q < len, buf, q, argv @ [p]) } } }"

partial_function (option) split_loop ::
    "nat \<Rightarrow> string \<Rightarrow> nat \<Rightarrow> nat list \<Rightarrow> (string \<times> nat list) option" where
  "split_loop len buf p argv =
     (if p < len then do {
        (more, buf, p, argv) \<leftarrow> split_turn len buf p argv;
        if more then split_loop len buf p argv else Some (buf, argv) }
      else Some (buf, argv))"

text \<open>The arguments are strings in the array the loop leaves behind.\<close>

definition msh_split :: "nat \<Rightarrow> string \<Rightarrow> string list option" where
  "msh_split len buf = do {
     (buf, argv) \<leftarrow> split_loop len buf 0 [];
     Some (map (\<lambda>p. c_str (drop p buf)) argv) }"

section \<open>msh.c: finding and running a command\<close>

text \<open>\<open>strncmp(name, cmd, size) == 0 && name[size] == 0\<close>, over a name with its end.\<close>

definition names :: "string \<Rightarrow> string \<Rightarrow> nat \<Rightarrow> bool" where
  "names name cmd sz \<longleftrightarrow> strncmp_eq sz (name @ [NUL]) cmd \<and> load (name @ [NUL]) sz = Some NUL"

fun msh_get_cmd :: "(string \<times> 'c) list \<Rightarrow> string \<Rightarrow> nat \<Rightarrow> 'c option" where
  "msh_get_cmd [] cmd sz = None"
| "msh_get_cmd ((name, f) # tbl) cmd sz = (if names name cmd sz then Some f else msh_get_cmd tbl cmd sz)"

datatype 'c cmd_outcome = Nothing | Unknown string | Call 'c "string list"

definition msh_exec_cmd :: "(string \<times> 'c) list \<Rightarrow> string \<Rightarrow> nat \<Rightarrow> 'c cmd_outcome option option" where
  "msh_exec_cmd tbl cmd len = do {
     cmd0_size \<leftarrow> skip_word len cmd 0;
     if cmd0_size = 0 then Some None
     else case msh_get_cmd tbl cmd cmd0_size of
       None \<Rightarrow> Some None
     | Some f \<Rightarrow> do {
         argv \<leftarrow> msh_split len cmd;
         Some (if argv = [] then None else Some (Call f argv)) } }"

fun trim :: "nat \<Rightarrow> string \<Rightarrow> nat \<times> string" where
  "trim (Suc n) (c # cmd) = (if blank c then trim n cmd else (Suc n, c # cmd))"
| "trim n cmd = (n, cmd)"

definition msh_exec :: "(string \<times> 'c) list \<Rightarrow> string \<Rightarrow> nat \<Rightarrow> 'c cmd_outcome option" where
  "msh_exec tbl cmd len =
     (case trim len cmd of (len, cmd) \<Rightarrow>
        if len = 0 then Some Nothing
        else do {
          r \<leftarrow> msh_exec_cmd tbl cmd len;
          Some (case r of Some a \<Rightarrow> a | None \<Rightarrow> Unknown (takeWhile (\<lambda>c. c \<noteq> CHR '' '' \<and> c \<noteq> NUL) cmd)) })"

section \<open>msh.c: completion\<close>

fun str_common :: "string \<Rightarrow> string \<Rightarrow> nat" where
  "str_common (x # a) (y # b) = (if x = y then Suc (str_common a b) else 0)"
| "str_common a b = 0"

fun complete_loop :: "string \<Rightarrow> string list \<Rightarrow> string option \<times> nat \<Rightarrow> string option \<times> nat" where
  "complete_loop pre [] st = st"
| "complete_loop pre (name # tbl) (np, ml) =
     (if take (length pre) name = pre then
        let (np, ml) = (if ml = 0 then (Some name, length name) else (np, ml));
            len = str_common (the np) name
        in complete_loop pre tbl (np, if len < ml then len else ml)
      else complete_loop pre tbl (np, ml))"

definition msh_auto_complete :: "string list \<Rightarrow> string \<Rightarrow> string option" where
  "msh_auto_complete tbl line =
     (if c_str line = [] then Some line
      else case complete_loop (c_str line) tbl (None, 0) of
        (None, _) \<Rightarrow> Some line
      | (Some name, ml) \<Rightarrow> if ml \<le> length line then Some (blit line 0 (take ml name)) else None)"

section \<open>shell.c: the line editor\<close>

datatype input_stat = WAIT_NORMAL | WAIT_SPEC_KEY | WAIT_FUNC_KEY

record finsh_shell =
  stat :: input_stat
  current_history :: u16
  history_count :: u16
  cmd_history :: "string list"
  line :: string
  line_position :: u16
  line_curpos :: u16

definition shell_start :: finsh_shell where
  "shell_start =
     \<lparr>stat = WAIT_NORMAL, current_history = 0, history_count = 0,
      cmd_history = replicate FINSH_HISTORY_LINES (replicate FINSH_CMD_SIZE NUL),
      line = replicate (FINSH_CMD_SIZE + 1) NUL, line_position = 0, line_curpos = 0\<rparr>"

text \<open>The history: pushing a line and showing the entry that is current.\<close>

definition history_line :: "finsh_shell \<Rightarrow> string" where
  "history_line s = blit (replicate FINSH_CMD_SIZE NUL) 0 (take (unat (line_position s)) (line s))"

definition shell_push_history :: "finsh_shell \<Rightarrow> finsh_shell option" where
  "shell_push_history s =
     (let same = (\<lambda>i. take FINSH_CMD_SIZE (line s) = cmd_history s ! i);
          push = (if FINSH_HISTORY_LINES \<le> unat (history_count s) then \<not> same (FINSH_HISTORY_LINES - 1)
                  else history_count s = 0 \<or> \<not> same (unat (history_count s) - 1))
      in if line_position s = 0 \<or> \<not> push then Some (s\<lparr>current_history := history_count s\<rparr>)
         else if FINSH_CMD_SIZE < unat (line_position s) then None
         else
           let s = (if FINSH_HISTORY_LINES \<le> unat (history_count s)
                    then s\<lparr>cmd_history := tl (cmd_history s) @ [history_line s], history_count := of_nat FINSH_HISTORY_LINES\<rparr>
                    else s\<lparr>cmd_history := (cmd_history s)[unat (history_count s) := history_line s],
                           history_count := history_count s + 1\<rparr>)
           in Some (s\<lparr>current_history := history_count s\<rparr>))"

definition line_from_history :: "finsh_shell \<Rightarrow> finsh_shell option" where
  "line_from_history s =
     (if unat (current_history s) < length (cmd_history s) then do {
        let l = blit (line s) 0 (cmd_history s ! unat (current_history s));
        n \<leftarrow> c_strlen l;
        Some (s\<lparr>line := l, line_position := of_nat n, line_curpos := of_nat n\<rparr>) }
      else None)"

definition up_key :: "finsh_shell \<Rightarrow> finsh_shell option" where
  "up_key s =
     (if 0 < current_history s then line_from_history (s\<lparr>current_history := current_history s - 1\<rparr>)
      else Some (s\<lparr>current_history := 0\<rparr>))"

definition down_key :: "finsh_shell \<Rightarrow> finsh_shell option" where
  "down_key s =
     (if uint (current_history s) < uint (history_count s) - 1
      then line_from_history (s\<lparr>current_history := current_history s + 1\<rparr>)
      else if history_count s \<noteq> 0 then line_from_history (s\<lparr>current_history := history_count s - 1\<rparr>)
      else Some s)"

definition left_key :: "finsh_shell \<Rightarrow> finsh_shell" where
  "left_key s = (if line_curpos s \<noteq> 0 then s\<lparr>line_curpos := line_curpos s - 1\<rparr> else s)"

definition right_key :: "finsh_shell \<Rightarrow> finsh_shell" where
  "right_key s = (if line_curpos s < line_position s then s\<lparr>line_curpos := line_curpos s + 1\<rparr> else s)"

definition tab_key :: "string list \<Rightarrow> finsh_shell \<Rightarrow> finsh_shell option" where
  "tab_key tbl s = do {
     l \<leftarrow> msh_auto_complete tbl (line s);
     n \<leftarrow> c_strlen l;
     Some (s\<lparr>line := l, line_position := of_nat n, line_curpos := of_nat n\<rparr>) }"

definition backspace_key :: "finsh_shell \<Rightarrow> finsh_shell option" where
  "backspace_key s =
     (if line_curpos s = 0 then Some s
      else
        let pos = line_position s - 1; cur = line_curpos s - 1
        in do {
          l \<leftarrow> (if cur < pos then move (unat cur) (unat cur + 1) (unat pos - unat cur) (line s)
                else Some (line s));
          l \<leftarrow> store (unat pos) NUL l;
          Some (s\<lparr>line := l, line_position := pos, line_curpos := cur\<rparr>) })"

definition normal_key :: "char \<Rightarrow> finsh_shell \<Rightarrow> finsh_shell option" where
  "normal_key c s =
     (let pos = (if FINSH_CMD_SIZE \<le> unat (line_position s) then 0 else line_position s);
          cur = line_curpos s
      in do {
        l \<leftarrow> (if cur < pos then do {
                 l \<leftarrow> move (unat cur + 1) (unat cur) (unat pos - unat cur) (line s);
                 store (unat cur) c l }
               else store (unat pos) c (line s));
        Some (if FINSH_CMD_SIZE \<le> unat (pos + 1)
              then s\<lparr>line := l, line_position := 0, line_curpos := 0\<rparr>
              else s\<lparr>line := l, line_position := pos + 1, line_curpos := cur + 1\<rparr>) })"

definition enter_key :: "(string \<times> 'c) list \<Rightarrow> finsh_shell \<Rightarrow> ('c cmd_outcome \<times> finsh_shell) option" where
  "enter_key tbl s = do {
     s \<leftarrow> shell_push_history s;
     r \<leftarrow> msh_exec tbl (line s) (unat (line_position s));
     Some (r, s\<lparr>line := replicate (FINSH_CMD_SIZE + 1) NUL, line_position := 0, line_curpos := 0\<rparr>) }"

text \<open>One turn of the loop of \<open>finsh_thread_entry\<close>.\<close>

definition plain_key :: "(string \<times> 'c) list \<Rightarrow> char \<Rightarrow> finsh_shell \<Rightarrow> ('c cmd_outcome \<times> finsh_shell) option" where
  "plain_key tbl c s =
     (if c = NUL \<or> c = CHR 0xFF then Some (Nothing, s)
      else if c = CHR 0x09 then map_option (Pair Nothing) (tab_key (map fst tbl) s)
      else if c = CHR 0x7F \<or> c = CHR 0x08 then map_option (Pair Nothing) (backspace_key s)
      else if c = CHR 0x0D \<or> c = CHR 0x0A then enter_key tbl s
      else map_option (Pair Nothing) (normal_key c s))"

definition finsh_key :: "(string \<times> 'c) list \<Rightarrow> char \<Rightarrow> finsh_shell \<Rightarrow> ('c cmd_outcome \<times> finsh_shell) option" where
  "finsh_key tbl c s =
     (if c = CHR 0x1B then Some (Nothing, s\<lparr>stat := WAIT_SPEC_KEY\<rparr>)
      else case stat s of
        WAIT_SPEC_KEY \<Rightarrow>
          if c = CHR 0x5B then Some (Nothing, s\<lparr>stat := WAIT_FUNC_KEY\<rparr>)
          else plain_key tbl c (s\<lparr>stat := WAIT_NORMAL\<rparr>)
      | WAIT_FUNC_KEY \<Rightarrow>
          (let s = s\<lparr>stat := WAIT_NORMAL\<rparr>
           in if c = CHR 0x41 then map_option (Pair Nothing) (up_key s)
              else if c = CHR 0x42 then map_option (Pair Nothing) (down_key s)
              else if c = CHR 0x44 then Some (Nothing, left_key s)
              else if c = CHR 0x43 then Some (Nothing, right_key s)
              else plain_key tbl c s)
      | WAIT_NORMAL \<Rightarrow> plain_key tbl c s)"

fun finsh_run :: "(string \<times> 'c) list \<Rightarrow> string \<Rightarrow> finsh_shell \<Rightarrow> ('c cmd_outcome list \<times> finsh_shell) option" where
  "finsh_run tbl [] s = Some ([], s)"
| "finsh_run tbl (c # cs) s = do {
     (r, s) \<leftarrow> finsh_key tbl c s;
     (rs, s) \<leftarrow> finsh_run tbl cs s;
     Some (if r = Nothing then rs else r # rs, s) }"

section \<open>Splitting gives the words back\<close>

definition word :: "string \<Rightarrow> bool" where
  "word w \<longleftrightarrow> w \<noteq> [] \<and> hd w \<noteq> CHR 0x22 \<and> (\<forall>c\<in>set w. \<not> blank c \<and> c \<noteq> NUL)"

fun join :: "string list \<Rightarrow> string" where
  "join [] = []"
| "join [w] = w"
| "join (w # ws) = w @ CHR '' '' # join ws"

lemma blank_space [simp]: "blank (CHR '' '')" "\<not> blank NUL"
  by (simp_all add: blank_def)

lemma strip_stops: "load buf p = Some c \<Longrightarrow> \<not> blank c \<Longrightarrow> strip_blanks len buf p = Some (buf, p)"
  by (subst strip_blanks.simps) simp

lemma strip_one:
  assumes "length pre < len" "\<not> blank c"
  shows "strip_blanks len (pre @ CHR '' '' # c # rest) (length pre) = Some (pre @ NUL # c # rest, length pre + 1)"
proof -
  have "strip_blanks len (pre @ NUL # c # rest) (length pre + 1) = Some (pre @ NUL # c # rest, length pre + 1)"
    using load_append[of "pre @ [NUL]" c rest] assms(2) by (intro strip_stops) simp_all
  then show ?thesis using assms(1) by (subst strip_blanks.simps) simp
qed

lemma skip_word_over:
  assumes "\<forall>c\<in>set w. \<not> blank c" "length pre + length w \<le> len" "blank c \<or> len = length pre + length w"
  shows "skip_word len (pre @ w @ c # rest) (length pre) = Some (length pre + length w)"
  using assms
proof (induction w arbitrary: pre)
  case Nil
  then show ?case by (subst skip_word.simps) auto
next
  case (Cons x w)
  have "skip_word len ((pre @ [x]) @ w @ c # rest) (length (pre @ [x])) = Some (length (pre @ [x]) + length w)"
    using Cons.prems by (intro Cons.IH) auto
  with Cons.prems show ?case by (subst skip_word.simps) simp
qed

lemma split_turn_word:
  assumes "word w" "bl = [] \<or> bl = [CHR '' '']" "blank c \<or> tl' = []" "length argv < FINSH_ARG_MAX"
    "len = length pre + length bl + length w + length tl'" "tl' @ NUL # rest = c # cs"
  shows "split_turn len (pre @ bl @ w @ tl' @ NUL # rest) (length pre) argv =
    Some (tl' \<noteq> [], pre @ replicate (length bl) NUL @ w @ tl' @ NUL # rest, length pre + length bl + length w,
      argv @ [length pre + length bl])"
proof -
  obtain x xs where w: "w = x # xs" "\<not> blank x" "x \<noteq> CHR 0x22" using assms(1) by (cases w) (auto simp: word_def)
  let ?pre = "pre @ replicate (length bl) NUL"
  have strip: "strip_blanks len (pre @ bl @ w @ tl' @ NUL # rest) (length pre) =
      Some (?pre @ w @ tl' @ NUL # rest, length ?pre)"
    using assms(2)
  proof
    assume "bl = []"
    then show ?thesis using w strip_stops[of "pre @ w @ tl' @ NUL # rest" "length pre" x len] by simp
  next
    assume "bl = [CHR '' '']"
    then show ?thesis using w assms(5) strip_one[of pre len x "xs @ tl' @ NUL # rest"] by simp
  qed
  have "skip_word len (?pre @ w @ c # cs) (length ?pre) = Some (length ?pre + length w)"
    using assms(1,3,5,6) by (intro skip_word_over) (auto simp: word_def)
  moreover have "load (?pre @ w @ tl' @ NUL # rest) (length ?pre) = Some x" using w load_append[of ?pre x] by simp
  ultimately show ?thesis
    using w assms(4-6) unfolding split_turn_def strip by simp
qed

lemma c_str_word: "word w \<Longrightarrow> c_str (w @ NUL # rest) = w"
  by (induction w) (auto simp: c_str_def word_def takeWhile_append2)

lemma split_loop_words:
  assumes "ws \<noteq> []" "\<forall>w\<in>set ws. word w" "bl = [] \<or> bl = [CHR '' '']" "length argv + length ws \<le> FINSH_ARG_MAX"
    "len = length pre + length bl + length (join ws)"
  shows "\<exists>buf qs. split_loop len (pre @ bl @ join ws @ NUL # rest) (length pre) argv = Some (pre @ buf, argv @ qs) \<and>
    map (\<lambda>q. c_str (drop q (pre @ buf))) qs = ws \<and> (bl \<noteq> [] \<longrightarrow> (\<exists>t. buf = NUL # t))"
  using assms
proof (induction ws arbitrary: pre bl argv)
  case (Cons w ws)
  let ?nbl = "replicate (length bl) NUL"
  have w: "word w" "w \<noteq> []" using Cons.prems(2) by (auto simp: word_def)
  have argc: "length argv < FINSH_ARG_MAX" using Cons.prems(4) by simp
  show ?case
  proof (cases ws)
    case Nil
    have "split_turn len (pre @ bl @ w @ [] @ NUL # rest) (length pre) argv =
        Some ([] \<noteq> ([] :: string), pre @ ?nbl @ w @ [] @ NUL # rest, length pre + length bl + length w,
          argv @ [length pre + length bl])"
      using Cons.prems Nil by (intro split_turn_word[OF w(1) _ _ argc]) auto
    then have "split_loop len (pre @ bl @ join (w # ws) @ NUL # rest) (length pre) argv =
        Some (pre @ ?nbl @ w @ NUL # rest, argv @ [length pre + length bl])"
      using Cons.prems(5) Nil w(2) by (subst split_loop.simps) simp
    moreover have "c_str (drop (length pre + length bl) (pre @ ?nbl @ w @ NUL # rest)) = w"
      using c_str_word[OF w(1)] by simp
    ultimately show ?thesis using Nil Cons.prems(3) by (intro exI[of _ "?nbl @ w @ NUL # rest"] exI[of _ "[length pre + length bl]"]) auto
  next
    case (Cons v vs)
    let ?pre = "pre @ ?nbl @ w"
    have j: "join (w # ws) = w @ CHR '' '' # join ws" using Cons by simp
    have len: "len = length ?pre + 1 + length (join ws)" using Cons.prems(5) unfolding j by simp
    have turn: "split_turn len (pre @ bl @ w @ (CHR '' '' # join ws) @ NUL # rest) (length pre) argv =
        Some (CHR '' '' # join ws \<noteq> [], pre @ ?nbl @ w @ (CHR '' '' # join ws) @ NUL # rest,
          length pre + length bl + length w, argv @ [length pre + length bl])"
      using Cons.prems(3,5) j by (intro split_turn_word[OF w(1) _ _ argc]) auto
    obtain buf qs where ih: "split_loop len (?pre @ [CHR '' ''] @ join ws @ NUL # rest) (length ?pre)
          (argv @ [length pre + length bl]) = Some (?pre @ buf, (argv @ [length pre + length bl]) @ qs)"
        "map (\<lambda>q. c_str (drop q (?pre @ buf))) qs = ws" "\<exists>t. buf = NUL # t"
      using Cons.IH[of "[CHR '' '']" "argv @ [length pre + length bl]" ?pre] Cons.prems Cons len by auto
    have "split_loop len (pre @ bl @ join (w # ws) @ NUL # rest) (length pre) argv =
        Some (pre @ ?nbl @ w @ buf, argv @ (length pre + length bl) # qs)"
      using turn ih(1) len unfolding j by (subst split_loop.simps) (simp add: add.assoc)
    moreover have "c_str (drop (length pre + length bl) (pre @ ?nbl @ w @ buf)) = w"
      using c_str_word[OF w(1)] ih(3) by auto
    ultimately show ?thesis using ih(2,3) Cons.prems(3)
      by (intro exI[of _ "?nbl @ w @ buf"] exI[of _ "(length pre + length bl) # qs"]) auto
  qed
qed simp

lemma msh_split_words:
  assumes "ws \<noteq> []" "\<forall>w\<in>set ws. word w" "length ws \<le> FINSH_ARG_MAX"
  shows "msh_split (length (join ws)) (join ws @ NUL # rest) = Some ws"
  using split_loop_words[OF assms(1,2), of "[]" "[]" "length (join ws)" "[]" rest] assms(3)
  by (auto simp: msh_split_def)

text \<open>A line of words runs the command that its first word names.\<close>

lemma names_iff:
  assumes "NUL \<notin> set name" "NUL \<notin> set w"
  shows "names name (w @ rest) (length w) = (name = w)"
proof -
  have "strncmp_eq (length w) (name @ [NUL]) (w @ rest) = (length w \<le> length name \<and> take (length w) name = w)"
    using strncmp_eq_take[of name "length w" "w @ rest"] assms by simp
  moreover have "load (name @ [NUL]) (length w) = Some NUL \<longleftrightarrow> length name = length w" if "length w \<le> length name"
    using that assms(1) by (auto simp: load_def nth_append) (metis nth_mem le_neq_implies_less)
  ultimately show ?thesis unfolding names_def by auto
qed

lemma msh_get_cmd_map_of:
  assumes "\<forall>(name, f)\<in>set tbl. NUL \<notin> set name" "NUL \<notin> set w"
  shows "msh_get_cmd tbl (w @ rest) (length w) = map_of tbl w"
  using assms(1)
proof (induction tbl)
  case (Cons nf tbl)
  then show ?case by (cases nf) (auto simp: names_iff[OF _ assms(2)])
qed simp

lemma join_Cons: "ws \<noteq> [] \<Longrightarrow> join (w # ws) = w @ CHR '' '' # join ws"
  by (cases ws) simp_all

lemma msh_exec_words:
  assumes "\<forall>w\<in>set (name # args). word w" "length args < FINSH_ARG_MAX"
    "\<forall>(n, f)\<in>set tbl. NUL \<notin> set n" "map_of tbl name = Some f"
  shows "msh_exec tbl (join (name # args) @ NUL # rest) (length (join (name # args))) = Some (Call f (name # args))"
proof -
  let ?l = "join (name # args)"
  have w: "word name" using assms(1) by simp
  then obtain x xs where x: "name = x # xs" "\<not> blank x" by (cases name) (auto simp: word_def)
  then obtain tl' where l: "?l = x # tl'" by (cases args) simp_all
  have trim: "trim (length ?l) (?l @ NUL # rest) = (length ?l, ?l @ NUL # rest)" using x(2) l by simp
  obtain c cs where c: "?l @ NUL # rest = name @ c # cs" "blank c \<or> length ?l = length name" "length name \<le> length ?l"
    by (cases args) (auto simp: join_Cons)
  have skip: "skip_word (length ?l) (?l @ NUL # rest) 0 = Some (length name)"
    unfolding c(1) using skip_word_over[of name "[]" "length ?l" c cs] w c(2,3) by (auto simp: word_def)
  have "msh_get_cmd tbl (?l @ NUL # rest) (length name) = Some f"
    unfolding c(1) using msh_get_cmd_map_of[OF assms(3)] w assms(4) by (auto simp: word_def)
  then have "msh_exec_cmd tbl (?l @ NUL # rest) (length ?l) = Some (Some (Call f (name # args)))"
    using skip msh_split_words[of "name # args" rest] assms(1,2) x(1) by (simp add: msh_exec_cmd_def)
  then show ?thesis unfolding msh_exec_def trim using l by simp
qed

section \<open>The parser stays in its array\<close>

lemma strip_total:
  "p \<le> len \<Longrightarrow> len < length buf \<Longrightarrow>
    \<exists>buf' p'. strip_blanks len buf p = Some (buf', p') \<and> length buf' = length buf \<and> p \<le> p' \<and> p' \<le> len \<and>
      (p' < len \<longrightarrow> \<not> blank (buf' ! p'))"
proof (induction len buf p rule: strip_blanks.induct)
  case (1 len buf p)
  show ?case
  proof (cases "blank (buf ! p) \<and> p < len")
    case True
    have "\<exists>buf' p'. strip_blanks len (buf[p := NUL]) (p + 1) = Some (buf', p') \<and> length buf' = length (buf[p := NUL]) \<and>
        p + 1 \<le> p' \<and> p' \<le> len \<and> (p' < len \<longrightarrow> \<not> blank (buf' ! p'))"
      using 1 True by (intro "1.IH") (auto simp: load_def)
    then show ?thesis using 1 True by (subst strip_blanks.simps) (auto simp: load_def Suc_le_eq)
  next
    case False
    then show ?thesis using 1 by (subst strip_blanks.simps) (auto simp: load_def)
  qed
qed

lemma skip_word_total:
  "p \<le> len \<Longrightarrow> len < length buf \<Longrightarrow>
    \<exists>q. skip_word len buf p = Some q \<and> p \<le> q \<and> q \<le> len \<and> (p < len \<longrightarrow> \<not> blank (buf ! p) \<longrightarrow> p < q)"
proof (induction len buf p rule: skip_word.induct)
  case (1 len buf p)
  show ?case
  proof (cases "\<not> blank (buf ! p) \<and> p < len")
    case True
    have "\<exists>q. skip_word len buf (p + 1) = Some q \<and> p + 1 \<le> q \<and> q \<le> len \<and>
        (p + 1 < len \<longrightarrow> \<not> blank (buf ! (p + 1)) \<longrightarrow> p + 1 < q)"
      using 1 True by (intro "1.IH") (auto simp: load_def)
    then show ?thesis using 1 True by (subst skip_word.simps) (auto simp: load_def)
  next
    case False
    then show ?thesis using 1 by (subst skip_word.simps) (auto simp: load_def)
  qed
qed

lemma skip_string_total:
  "p \<le> len + 1 \<Longrightarrow> len + 1 < length buf \<Longrightarrow> \<exists>q. skip_string len buf p = Some q \<and> p \<le> q \<and> q \<le> len + 1"
proof (induction "len + 1 - p" arbitrary: p rule: less_induct)
  case less
  have next_ok: "\<exists>q. skip_string len buf r = Some q \<and> p \<le> q \<and> q \<le> len + 1" if "p < r" "r \<le> len + 1" for r
    using less.hyps[of r] that less.prems by force
  have l: "load buf p = Some (buf ! p)" using less.prems by (simp add: load_def)
  show ?case
  proof (cases "buf ! p \<noteq> CHR 0x22 \<and> p < len")
    case False
    then show ?thesis using l less.prems by (subst skip_string.simps) auto
  next
    case True
    then have "load buf (p + 1) = Some (buf ! (p + 1))" using less.prems by (simp add: load_def)
    with True l next_ok[of "p + 1"] next_ok[of "p + 2"] show ?thesis by (subst skip_string.simps) auto
  qed
qed

lemma split_turn_total:
  assumes "p < len" "len + 2 \<le> length buf"
  shows "\<exists>more buf' p' argv'. split_turn len buf p argv = Some (more, buf', p', argv') \<and> length buf' = length buf \<and>
    (more \<longrightarrow> p < p')"
proof -
  obtain buf1 p1 where s: "strip_blanks len buf p = Some (buf1, p1)" "length buf1 = length buf" "p \<le> p1" "p1 \<le> len"
      "p1 < len \<longrightarrow> \<not> blank (buf1 ! p1)"
    using strip_total[of p len buf] assms by auto
  show ?thesis
  proof (cases "FINSH_ARG_MAX \<le> length argv \<or> len \<le> p1")
    case True
    then show ?thesis using s by (auto simp: split_turn_def)
  next
    case False
    then have l: "load buf1 p1 = Some (buf1 ! p1)" using s assms by (simp add: load_def)
    show ?thesis
    proof (cases "buf1 ! p1 = CHR 0x22")
      case True
      obtain q where q: "skip_string len buf1 (p1 + 1) = Some q" "p1 + 1 \<le> q" "q \<le> len + 1"
        using skip_string_total[of "p1 + 1" len buf1] s False assms by auto
      then have "store q NUL buf1 = Some (buf1[q := NUL])" using s(2) assms by (simp add: store_def)
      then show ?thesis using False l True q s by (auto simp: split_turn_def)
    next
      case c: False
      obtain q where q: "skip_word len buf1 p1 = Some q" "p1 < q"
        using skip_word_total[of p1 len buf1] s False assms by auto
      then show ?thesis using False l c s by (auto simp: split_turn_def)
    qed
  qed
qed

lemma split_loop_total: "len + 2 \<le> length buf \<Longrightarrow> \<exists>r. split_loop len buf p argv = Some r"
proof (induction "len - p" arbitrary: p buf argv rule: less_induct)
  case less
  show ?case
  proof (cases "p < len")
    case True
    then obtain more buf' p' argv' where t: "split_turn len buf p argv = Some (more, buf', p', argv')"
        "length buf' = length buf" "more \<longrightarrow> p < p'"
      using split_turn_total[of p len buf argv] less.prems by auto
    then have "\<exists>r. split_loop len buf' p' argv' = Some r" if more
      using less.hyps[of p' buf' argv'] that True less.prems by simp
    then show ?thesis using t(1) True by (subst split_loop.simps) auto
  qed (subst split_loop.simps, simp)
qed

lemma trim_rest: "trim len cmd = (len', cmd') \<Longrightarrow> \<exists>k. len = len' + k \<and> length cmd = length cmd' + k"
proof (induction len cmd rule: trim.induct)
  case (1 n c cmd)
  then show ?case by (cases "blank c") (force split: if_splits)+
qed auto

lemma msh_exec_total: "len + 2 \<le> length cmd \<Longrightarrow> \<exists>r. msh_exec tbl cmd len = Some r"
proof -
  assume a: "len + 2 \<le> length cmd"
  obtain len' cmd' where t: "trim len cmd = (len', cmd')" by (cases "trim len cmd")
  have l: "len' + 2 \<le> length cmd'" using trim_rest[OF t] a by auto
  obtain q where q: "skip_word len' cmd' 0 = Some q" using skip_word_total[of 0 len' cmd'] l by auto
  obtain r where "split_loop len' cmd' 0 [] = Some r" using split_loop_total[of len' cmd' 0 "[]"] l by auto
  then have "\<exists>argv. msh_split len' cmd' = Some argv" by (cases r) (simp add: msh_split_def)
  then have "\<exists>r. msh_exec_cmd tbl cmd' len' = Some r" using q
    by (cases "msh_get_cmd tbl cmd' q") (auto simp: msh_exec_cmd_def)
  then show ?thesis unfolding msh_exec_def t by auto
qed

section \<open>The editor stays in its line\<close>

lemmas sizes = FINSH_CMD_SIZE_def FINSH_HISTORY_LINES_def

definition history_ok :: "finsh_shell \<Rightarrow> bool" where
  "history_ok s \<longleftrightarrow> length (cmd_history s) = FINSH_HISTORY_LINES \<and>
     (\<forall>h\<in>set (cmd_history s). length h = FINSH_CMD_SIZE \<and> h ! (FINSH_CMD_SIZE - 1) = NUL) \<and>
     unat (history_count s) \<le> FINSH_HISTORY_LINES \<and> current_history s \<le> history_count s"

definition shell_ok :: "finsh_shell \<Rightarrow> bool" where
  "shell_ok s \<longleftrightarrow> history_ok s \<and> length (line s) = FINSH_CMD_SIZE + 1 \<and> line s ! FINSH_CMD_SIZE = NUL \<and>
     line_curpos s \<le> line_position s \<and> unat (line_position s) < FINSH_CMD_SIZE"

lemma shell_okD:
  assumes "shell_ok s"
  shows "length (line s) = 81" "line s ! 80 = NUL" "unat (line_curpos s) \<le> unat (line_position s)"
    "unat (line_position s) < 80" "history_ok s"
  using assms by (auto simp: shell_ok_def sizes word_le_nat_alt)

lemma shell_okI:
  "history_ok s \<Longrightarrow> length (line s) = 81 \<Longrightarrow> line s ! 80 = NUL \<Longrightarrow> unat (line_curpos s) \<le> unat (line_position s) \<Longrightarrow>
    unat (line_position s) < 80 \<Longrightarrow> shell_ok s"
  by (auto simp: shell_ok_def sizes word_le_nat_alt)

lemma history_ok_upd [simp]:
  "history_ok (s\<lparr>line := l\<rparr>) = history_ok s" "history_ok (s\<lparr>line_position := i\<rparr>) = history_ok s"
  "history_ok (s\<lparr>line_curpos := i\<rparr>) = history_ok s" "history_ok (s\<lparr>stat := t\<rparr>) = history_ok s"
  by (simp_all add: history_ok_def)

lemma shell_ok_stat [simp]: "shell_ok (s\<lparr>stat := t\<rparr>) = shell_ok s"
  by (simp add: shell_ok_def)

lemma u16_Suc: "unat (x :: u16) < 65535 \<Longrightarrow> unat (x + 1) = unat x + 1"
  by (simp add: unat_word_ariths)

lemma u16_pred: "(x :: u16) \<noteq> 0 \<Longrightarrow> unat (x - 1) = unat x - 1"
  by (simp add: unat_minus_one)

lemma u16_nat: "n < 65536 \<Longrightarrow> unat (of_nat n :: u16) = n"
  by (simp add: unsigned_of_nat take_bit_nat_eq_self)

lemma line_from_history_ok:
  assumes "history_ok s" "length (line s) = 81" "line s ! 80 = NUL" "unat (current_history s) < 3"
  shows "\<exists>s'. line_from_history s = Some s' \<and> shell_ok s'"
proof -
  let ?h = "cmd_history s ! unat (current_history s)"
  let ?l = "blit (line s) 0 ?h"
  have h: "length ?h = 80" "?h ! 79 = NUL" "unat (current_history s) < length (cmd_history s)"
    using assms(1,4) by (auto simp: history_ok_def sizes)
  have l: "length ?l = 81" "?l ! 79 = NUL" "?l ! 80 = NUL" using h assms(2,3) by (simp_all add: nth_blit)
  have n: "length (c_str ?l) \<le> 79" using c_str_ends[of ?l 79] l(2) by simp
  have "NUL \<in> set ?l" using l(1,2) nth_mem[of 79 ?l] by simp
  then have "line_from_history s = Some (s\<lparr>line := ?l, line_position := of_nat (length (c_str ?l)),
      line_curpos := of_nat (length (c_str ?l))\<rparr>)"
    using h(3) by (simp add: line_from_history_def c_strlen_def Let_def)
  then show ?thesis using assms(1) l n by (auto intro!: shell_okI simp: u16_nat)
qed

lemma up_key_ok: "shell_ok s \<Longrightarrow> \<exists>s'. up_key s = Some s' \<and> shell_ok s'"
proof -
  assume ok: "shell_ok s"
  note d = shell_okD[OF ok]
  have cur: "unat (current_history s) \<le> 3" using d(5) by (auto simp: history_ok_def sizes word_le_nat_alt)
  show ?thesis
  proof (cases "0 < current_history s")
    case True
    then have p: "unat (current_history s - 1) = unat (current_history s) - 1" by (intro u16_pred) auto
    have "history_ok (s\<lparr>current_history := current_history s - 1\<rparr>)"
      using d(5) p by (auto simp: history_ok_def word_le_nat_alt)
    then show ?thesis using True d(1,2) p cur by (auto simp: up_key_def word_less_nat_alt intro!: line_from_history_ok)
  next
    case False
    then show ?thesis using ok by (auto simp: up_key_def shell_ok_def history_ok_def)
  qed
qed

lemma down_key_ok: "shell_ok s \<Longrightarrow> \<exists>s'. down_key s = Some s' \<and> shell_ok s'"
proof -
  assume ok: "shell_ok s"
  note d = shell_okD[OF ok]
  have cnt: "unat (history_count s) \<le> 3" using d(5) by (auto simp: history_ok_def sizes)
  have go: "\<exists>s'. line_from_history (s\<lparr>current_history := c\<rparr>) = Some s' \<and> shell_ok s'"
    if "unat c < unat (history_count s)" for c
    using that cnt d(1,2,5) by (intro line_from_history_ok) (auto simp: history_ok_def word_le_nat_alt)
  show ?thesis
  proof (cases "uint (current_history s) < uint (history_count s) - 1")
    case True
    then have "int (unat (current_history s)) + 1 < int (unat (history_count s))" by simp
    then have "unat (current_history s) + 1 < unat (history_count s)" by linarith
    then show ?thesis using True cnt by (auto simp: down_key_def u16_Suc intro!: go)
  next
    case False
    then show ?thesis
    proof (cases "history_count s = 0")
      case False
      then have "unat (history_count s - 1) < unat (history_count s)" by (simp add: u16_pred unat_gt_0)
      then show ?thesis using \<open>\<not> uint (current_history s) < uint (history_count s) - 1\<close> False
        by (auto simp: down_key_def intro!: go)
    qed (use ok False in \<open>auto simp: down_key_def\<close>)
  qed
qed

lemma arrow_keys_ok: "shell_ok s \<Longrightarrow> shell_ok (left_key s)" "shell_ok s \<Longrightarrow> shell_ok (right_key s)"
proof -
  assume ok: "shell_ok s"
  note d = shell_okD[OF ok]
  show "shell_ok (left_key s)" using ok d
    by (auto simp: left_key_def u16_pred intro!: shell_okI)
  show "shell_ok (right_key s)" using ok d
    by (auto simp: right_key_def word_less_nat_alt u16_Suc intro!: shell_okI)
qed

lemma backspace_key_ok: "shell_ok s \<Longrightarrow> \<exists>s'. backspace_key s = Some s' \<and> shell_ok s'"
proof (cases "line_curpos s = 0")
  case False
  assume ok: "shell_ok s"
  note d = shell_okD[OF ok]
  have c: "0 < unat (line_curpos s)" using False by (simp add: unat_gt_0)
  then have "line_position s \<noteq> 0" using d(3) by auto
  then have p: "unat (line_position s - 1) = unat (line_position s) - 1" "unat (line_curpos s - 1) = unat (line_curpos s) - 1"
    using False by (simp_all add: u16_pred)
  show ?thesis using d p c False
    by (auto simp: backspace_key_def Let_def move_def store_def word_less_nat_alt nth_list_update nth_blit intro!: shell_okI)
qed (simp add: backspace_key_def)

lemma normal_key_ok: "shell_ok s \<Longrightarrow> \<exists>s'. normal_key c s = Some s' \<and> shell_ok s'"
proof -
  assume ok: "shell_ok s"
  note d = shell_okD[OF ok]
  have p: "unat (line_position s + 1) = unat (line_position s) + 1" "unat (line_curpos s + 1) = unat (line_curpos s) + 1"
    using d(3,4) by (simp_all add: u16_Suc)
  show ?thesis using d p
    by (auto simp: normal_key_def Let_def sizes move_def store_def word_less_nat_alt nth_list_update nth_blit intro!: shell_okI)
qed

lemma history_line_ok:
  assumes "shell_ok s"
  shows "length (history_line s) = FINSH_CMD_SIZE" "history_line s ! (FINSH_CMD_SIZE - 1) = NUL"
  using shell_okD[OF assms] by (simp_all add: history_line_def sizes nth_blit)

lemma shell_push_history_ok:
  assumes "shell_ok s"
  shows "\<exists>s'. shell_push_history s = Some s' \<and> shell_ok s' \<and> line s' = line s \<and> line_position s' = line_position s"
proof -
  note d = shell_okD[OF assms]
  have h: "length (cmd_history s) = 3" "\<forall>h\<in>set (cmd_history s). length h = 80 \<and> h ! 79 = NUL"
    "unat (history_count s) \<le> 3" using d(5) by (auto simp: history_ok_def sizes)
  have l: "length (history_line s) = 80" "history_line s ! 79 = NUL" using history_line_ok[OF assms] by (simp_all add: sizes)
  have c: "unat (history_count s + 1) = unat (history_count s) + 1" using h(3) by (simp add: u16_Suc)
  have hist: "\<forall>h\<in>set (tl (cmd_history s) @ [history_line s]). length h = 80 \<and> h ! 79 = NUL"
    "\<forall>h\<in>set ((cmd_history s)[i := history_line s]). length h = 80 \<and> h ! 79 = NUL" for i
    using h(1,2) l by (auto dest: list.set_sel(2) set_update_subset_insert[THEN subsetD]) (metis list.set_sel(2) tl_Nil emptyE empty_set)+
  show ?thesis using d h hist c
    by (auto simp: shell_push_history_def Let_def sizes history_ok_def word_le_nat_alt intro!: shell_okI)
qed

lemma enter_key_ok: "shell_ok s \<Longrightarrow> \<exists>r s'. enter_key tbl s = Some (r, s') \<and> shell_ok s'"
proof -
  assume ok: "shell_ok s"
  obtain s1 where s1: "shell_push_history s = Some s1" "shell_ok s1" using shell_push_history_ok[OF ok] by auto
  note d = shell_okD[OF s1(2)]
  obtain r where r: "msh_exec tbl (line s1) (unat (line_position s1)) = Some r"
    using msh_exec_total[of "unat (line_position s1)" "line s1" tbl] d by auto
  have "shell_ok (s1\<lparr>line := replicate (FINSH_CMD_SIZE + 1) NUL, line_position := 0, line_curpos := 0\<rparr>)"
    using d(5) by (intro shell_okI) (simp_all add: sizes del: replicate_Suc)
  then show ?thesis using s1(1) r by (simp add: enter_key_def)
qed

lemma finsh_key_ok:
  assumes "shell_ok s" "c \<noteq> CHR 0x09"
  shows "\<exists>r s'. finsh_key tbl c s = Some (r, s') \<and> shell_ok s'"
proof -
  have plain: "\<exists>r s'. plain_key tbl c t = Some (r, s') \<and> shell_ok s'" if "shell_ok t" for t
    using assms(2) that backspace_key_ok[OF that] normal_key_ok[OF that, of c] enter_key_ok[OF that, of tbl]
    by (auto simp: plain_key_def)
  let ?s = "s\<lparr>stat := WAIT_NORMAL\<rparr>"
  have s: "shell_ok ?s" using assms(1) by simp
  show ?thesis
    using assms(1) plain[OF assms(1)] plain[OF s] up_key_ok[OF s] down_key_ok[OF s] arrow_keys_ok[OF s]
    by (cases "stat s") (auto simp: finsh_key_def Let_def)
qed

lemma shell_start_ok: "shell_ok shell_start"
  by (intro shell_okI) (auto simp: shell_start_def history_ok_def sizes nth_Cons' simp del: replicate_Suc)

lemma finsh_run_ok:
  "shell_ok s \<Longrightarrow> CHR 0x09 \<notin> set cs \<Longrightarrow> \<exists>rs s'. finsh_run tbl cs s = Some (rs, s') \<and> shell_ok s'"
proof (induction cs arbitrary: s)
  case (Cons c cs)
  obtain r s1 where "finsh_key tbl c s = Some (r, s1)" "shell_ok s1" using finsh_key_ok[of s c tbl] Cons.prems by auto
  then show ?case using Cons.IH[of s1] Cons.prems(2) by auto
qed simp

section \<open>A text with a cursor\<close>

text \<open>The specification of the editor: what lies before and behind the cursor.\<close>

datatype edit_op = Type char | Go_left | Go_right | Rub_out

fun edit :: "edit_op \<Rightarrow> string \<times> string \<Rightarrow> string \<times> string" where
  "edit (Type c) (l, r) = (l @ [c], r)"
| "edit Go_left (l, r) = (if l = [] then (l, r) else (butlast l, last l # r))"
| "edit Go_right (l, r) = (case r of [] \<Rightarrow> (l, r) | x # r \<Rightarrow> (l @ [x], r))"
| "edit Rub_out (l, r) = (butlast l, r)"

fun keys :: "edit_op \<Rightarrow> string" where
  "keys (Type c) = [c]"
| "keys Go_left = [CHR 0x1B, CHR 0x5B, CHR 0x44]"
| "keys Go_right = [CHR 0x1B, CHR 0x5B, CHR 0x43]"
| "keys Rub_out = [CHR 0x08]"

text \<open>A character that is no key of its own.\<close>

definition typed :: "char \<Rightarrow> bool" where
  "typed c \<longleftrightarrow> c \<notin> {NUL, CHR 0xFF, CHR 0x1B, CHR 0x09, CHR 0x7F, CHR 0x08, CHR 0x0D, CHR 0x0A}"

fun edit_ok :: "edit_op \<Rightarrow> bool" where
  "edit_ok (Type c) = typed c"
| "edit_ok _ = True"

definition text_len :: "string \<times> string \<Rightarrow> nat" where
  "text_len t = length (fst t) + length (snd t)"

definition displays :: "finsh_shell \<Rightarrow> string \<times> string \<Rightarrow> bool" where
  "displays s t \<longleftrightarrow> stat s = WAIT_NORMAL \<and> text_len t < FINSH_CMD_SIZE \<and>
     line s = fst t @ snd t @ replicate (FINSH_CMD_SIZE + 1 - text_len t) NUL \<and>
     line_curpos s = of_nat (length (fst t)) \<and> line_position s = of_nat (text_len t)"

lemma displaysD:
  assumes "displays s (l, r)"
  shows "stat s = WAIT_NORMAL" "length l + length r < 80"
    "line s = l @ r @ replicate (81 - (length l + length r)) NUL"
    "unat (line_curpos s) = length l" "unat (line_position s) = length l + length r"
  using assms u16_nat[of "length l"] u16_nat[of "length l + length r"]
  by (simp_all add: displays_def text_len_def sizes del: of_nat_add replicate_Suc)

lemma displaysI:
  assumes "stat s = WAIT_NORMAL" "length l + length r < 80"
    "line s = l @ r @ replicate (81 - (length l + length r)) NUL"
    "unat (line_curpos s) = length l" "unat (line_position s) = length l + length r"
  shows "displays s (l, r)"
proof -
  have "line_curpos s = of_nat (length l)" unfolding assms(4)[symmetric] by simp
  moreover have "line_position s = of_nat (length l + length r)" unfolding assms(5)[symmetric] by simp
  ultimately show ?thesis unfolding displays_def text_len_def sizes fst_conv snd_conv using assms(1-3)
    by (intro conjI) (assumption | simp)+
qed

lemma normal_key_types:
  assumes "displays s (l, r)" "length l + length r + 1 < 80"
  shows "\<exists>s'. normal_key c s = Some s' \<and> displays s' (l @ [c], r)"
proof -
  note d = displaysD[OF assms(1)]
  define m where "m = 80 - (length l + length r)"
  have m: "81 - (length l + length r) = Suc m" using d(2) by (simp add: m_def)
  have line: "line s = l @ r @ NUL # replicate m NUL" using d(3) unfolding m by simp
  have p: "unat (line_position s + 1) = unat (line_position s) + 1" "unat (line_curpos s + 1) = unat (line_curpos s) + 1"
    using d(2,4,5) by (simp_all add: u16_Suc)
  have new: "(if line_curpos s < line_position s
       then do { k \<leftarrow> move (unat (line_curpos s) + 1) (unat (line_curpos s)) (unat (line_position s) - unat (line_curpos s)) (line s);
                 store (unat (line_curpos s)) c k }
       else store (unat (line_position s)) c (line s)) = Some (l @ c # r @ replicate m NUL)"
    using d(4,5) line by (cases r) (auto simp: move_def store_def blit_def word_less_nat_alt)
  have "normal_key c s = Some (s\<lparr>line := l @ c # r @ replicate m NUL, line_position := line_position s + 1,
      line_curpos := line_curpos s + 1\<rparr>)"
  proof -
    have pos: "(if 80 \<le> unat (line_position s) then 0 else line_position s) = line_position s"
      "\<not> 80 \<le> unat (line_position s + 1)" using assms(2) d(2,5) p by simp_all
    show ?thesis unfolding normal_key_def Let_def sizes pos(1) new using pos(2) by simp
  qed
  then show ?thesis using d p assms(2) by (auto intro!: displaysI simp: m_def)
qed

lemma backspace_key_rubs:
  assumes "displays s (l, r)"
  shows "\<exists>s'. backspace_key s = Some s' \<and> displays s' (butlast l, r)"
proof (cases l rule: rev_cases)
  case Nil
  then show ?thesis using assms displaysD(4)[OF assms] by (auto simp: backspace_key_def unat_eq_0)
next
  case (snoc k x)
  note d = displaysD[OF assms]
  define m where "m = 80 - (length l + length r)"
  have m: "81 - (length l + length r) = Suc m" "81 - (length k + length r) = Suc (Suc m)" using d(2) snoc by (simp_all add: m_def)
  have line: "line s = k @ x # r @ NUL # replicate m NUL" using d(3) snoc unfolding m(1) by simp
  have nz: "line_curpos s \<noteq> 0" "line_position s \<noteq> 0" using d(4,5) snoc by auto
  then have p: "unat (line_position s - 1) = length k + length r" "unat (line_curpos s - 1) = length k"
    using d(4,5) snoc by (simp_all add: u16_pred)
  have new: "(do { l \<leftarrow> (if line_curpos s - 1 < line_position s - 1
             then move (unat (line_curpos s - 1)) (unat (line_curpos s - 1) + 1)
                    (unat (line_position s - 1) - unat (line_curpos s - 1)) (line s)
             else Some (line s));
           l \<leftarrow> store (unat (line_position s - 1)) NUL l;
           Some (s\<lparr>line := l, line_position := line_position s - 1, line_curpos := line_curpos s - 1\<rparr>) }) =
      Some (s\<lparr>line := k @ r @ NUL # NUL # replicate m NUL, line_position := line_position s - 1,
        line_curpos := line_curpos s - 1\<rparr>)"
    using p line by (cases r rule: rev_cases) (auto simp: move_def store_def blit_def word_less_nat_alt list_update_append)
  have "displays (s\<lparr>line := k @ r @ NUL # NUL # replicate m NUL, line_position := line_position s - 1,
        line_curpos := line_curpos s - 1\<rparr>) (k, r)"
    using d(1,2) p snoc by (intro displaysI) (simp_all add: m(2) del: replicate_Suc, simp)
  then show ?thesis using nz new snoc by (simp add: backspace_key_def Let_def)
qed

lemma finsh_run_append:
  "finsh_run tbl (as @ bs) s = do {
     (rs, s) \<leftarrow> finsh_run tbl as s; (qs, s) \<leftarrow> finsh_run tbl bs s; Some (rs @ qs, s) }"
  by (induction as arbitrary: s) (auto simp: case_prod_unfold Let_def split: Option.bind_splits)

lemma arrow_run:
  assumes "stat s = WAIT_NORMAL" "c = CHR 0x44 \<and> s' = left_key s \<or> c = CHR 0x43 \<and> s' = right_key s"
  shows "finsh_run tbl [CHR 0x1B, CHR 0x5B, c] s = Some ([], s')"
proof -
  have same: "s\<lparr>stat := WAIT_NORMAL\<rparr> = s" using assms(1) by simp
  have "finsh_key tbl c (s\<lparr>stat := WAIT_FUNC_KEY\<rparr>) = Some (Nothing, s')"
    using assms(2) same by (auto simp: finsh_key_def Let_def)
  then show ?thesis by (simp add: finsh_key_def)
qed

lemma edit_displayed:
  assumes "displays s t" "edit_ok e" "text_len (edit e t) < FINSH_CMD_SIZE"
  shows "\<exists>s'. finsh_run tbl (keys e) s = Some ([], s') \<and> displays s' (edit e t)"
proof -
  obtain l r where t: "t = (l, r)" by (cases t)
  note d = displaysD[OF assms(1)[unfolded t]]
  show ?thesis
  proof (cases e)
    case (Type c)
    then obtain s' where "normal_key c s = Some s'" "displays s' (l @ [c], r)"
      using normal_key_types[OF assms(1)[unfolded t], of c] assms(3) t by (auto simp: text_len_def sizes)
    then show ?thesis using Type assms(2) t d(1) by (simp add: finsh_key_def plain_key_def typed_def)
  next
    case Go_left
    have "displays (left_key s) (edit e t)"
    proof (cases l rule: rev_cases)
      case Nil
      then show ?thesis using assms(1) t Go_left d(4) by (simp add: left_key_def unat_eq_0)
    next
      case (snoc k x)
      then have "line_curpos s \<noteq> 0" using d(4) by auto
      then show ?thesis using Go_left snoc t d by (auto simp: left_key_def u16_pred intro!: displaysI)
    qed
    then show ?thesis using arrow_run[OF d(1), of "CHR 0x44"] Go_left by (auto simp del: finsh_run.simps)
  next
    case Go_right
    have "displays (right_key s) (edit e t)"
    proof (cases r)
      case Nil
      then show ?thesis using assms(1) t Go_right d(4,5) by (simp add: right_key_def word_less_nat_alt)
    next
      case (Cons x r')
      then show ?thesis using Go_right t d by (auto simp: right_key_def u16_Suc word_less_nat_alt intro!: displaysI)
    qed
    then show ?thesis using arrow_run[OF d(1), of "CHR 0x43"] Go_right by (auto simp del: finsh_run.simps)
  next
    case Rub_out
    then show ?thesis using backspace_key_rubs[OF assms(1)[unfolded t]] t d(1)
      by (auto simp: finsh_key_def plain_key_def)
  qed
qed

fun types_char :: "edit_op \<Rightarrow> bool" where
  "types_char (Type c) = True"
| "types_char _ = False"

lemma edits_displayed:
  assumes "displays s t" "list_all edit_ok es" "text_len t + length (filter types_char es) < FINSH_CMD_SIZE"
  shows "\<exists>s'. finsh_run tbl (concat (map keys es)) s = Some ([], s') \<and> displays s' (fold edit es t)"
  using assms
proof (induction es arbitrary: s t)
  case (Cons e es)
  have len: "text_len (edit e t) \<le> text_len t + (if types_char e then 1 else 0)"
    by (cases t; cases e; auto simp: text_len_def split: list.splits)
  then have "text_len (edit e t) < FINSH_CMD_SIZE" using Cons.prems(3) by (auto split: if_splits)
  then obtain s1 where s1: "finsh_run tbl (keys e) s = Some ([], s1)" "displays s1 (edit e t)"
    using edit_displayed[OF Cons.prems(1), of e tbl] Cons.prems(2) by auto
  have "text_len (edit e t) + length (filter types_char es) < FINSH_CMD_SIZE"
    using len Cons.prems(3) by (auto split: if_splits)
  then show ?case using Cons.IH[OF s1(2)] Cons.prems(2) s1(1) by (auto simp: finsh_run_append)
qed simp

lemma displays_start: "displays shell_start ([], [])"
  by (simp add: displays_def shell_start_def text_len_def sizes)

lemma type_many: "fold edit (replicate n (Type c)) (l, r) = (l @ replicate n c, r)"
  by (induction n arbitrary: l) (simp_all add: replicate_app_Cons_same)

lemma complete_loop_none:
  "\<forall>n\<in>set tbl. length n < length pre \<Longrightarrow> complete_loop pre tbl st = st"
  by (induction pre tbl st rule: complete_loop.induct) (auto simp: Let_def dest: arg_cong[of _ _ length])

section \<open>Properties\<close>

text \<open>C32: whatever is typed, as long as it is no tab, the editor and the commands it starts keep
  to the arrays: the cursor stays in the text, the text in the line and the history in its
  entries.\<close>

theorem editor_stays_in_line:
  assumes "CHR 0x09 \<notin> set cs"
  shows "\<exists>rs s. finsh_run tbl cs shell_start = Some (rs, s) \<and> shell_ok s"
  using finsh_run_ok[OF shell_start_ok assms] .

lemma editor_stays_in_line_witness:
  "\<exists>rs s. finsh_run [(''ps'', ())] (replicate 200 CHR ''p'' @ [CHR 0x08, CHR 0x0D, CHR 0x1B, CHR 0x5B, CHR 0x41]) shell_start =
     Some (rs, s) \<and> shell_ok s"
  by (rule editor_stays_in_line) auto



text \<open>C34: after a line of 80 characters, which the editor discards without clearing it, a tab
  makes the discarded text the line again; the next character leaves the cursor behind the line
  and two backspaces move 65456 bytes over the memory behind the array.\<close>

theorem tab_after_long_line_overruns:
  assumes "\<forall>n\<in>set (map fst tbl). length n < FINSH_CMD_SIZE"
  shows "finsh_run tbl (replicate 80 CHR ''a'' @ [CHR 0x09, CHR ''b'', CHR 0x08, CHR 0x08]) shell_start = None"
proof -
  let ?a = "replicate 80 CHR ''a''"
  obtain s where s: "finsh_run tbl (concat (map keys (replicate 79 (Type CHR ''a'')))) shell_start = Some ([], s)"
      "displays s (replicate 79 CHR ''a'', [])"
    using edits_displayed[OF displays_start, of "replicate 79 (Type CHR ''a'')" tbl] type_many[of 79 "CHR ''a''" "[]"]
    by (auto simp: list_all_iff typed_def text_len_def sizes)
  note d = displaysD[OF s(2)]
  define s80 where "s80 = s\<lparr>line := ?a @ [NUL], line_position := 0, line_curpos := 0\<rparr>"
  have p: "unat (line_position s + 1) = 80" using d(5) by (simp add: u16_Suc)
  have "store 79 CHR ''a'' (line s) = Some (?a @ [NUL])"
    using d(3) by (simp add: store_def list_update_append numeral_eq_Suc)
  then have "normal_key CHR ''a'' s = Some s80"
    using d(4,5) p by (simp add: normal_key_def sizes Let_def word_less_nat_alt s80_def)
  then have k: "finsh_key tbl CHR ''a'' s = Some (Nothing, s80)" using d(1) by (simp add: finsh_key_def plain_key_def)
  have run80: "finsh_run tbl ?a shell_start = Some ([], s80)"
  proof -
    have "?a = concat (map keys (replicate 79 (Type CHR ''a''))) @ [CHR ''a'']" by (simp add: numeral_eq_Suc)
    then show ?thesis using s(1) k by (simp add: finsh_run_append)
  qed
  have c: "c_str (?a @ [NUL]) = ?a" unfolding c_str_def by (subst takeWhile_append2) auto
  define s2 where "s2 = s80\<lparr>line_position := 80, line_curpos := 80\<rparr>"
  have "msh_auto_complete (map fst tbl) (?a @ [NUL]) = Some (?a @ [NUL])"
    using assms complete_loop_none[of "map fst tbl" ?a "(None, 0)"]
    by (auto simp: msh_auto_complete_def c sizes)
  then have tab: "finsh_key tbl CHR 0x09 s80 = Some (Nothing, s2)"
    using d(1) by (simp add: finsh_key_def plain_key_def tab_key_def s80_def s2_def c_strlen_def c)
  define s3 where "s3 = s2\<lparr>line := CHR ''b'' # replicate 79 CHR ''a'' @ [NUL], line_position := 1, line_curpos := 81\<rparr>"
  have b: "finsh_key tbl CHR ''b'' s2 = Some (Nothing, s3)"
  proof -
    have "?a = CHR ''a'' # replicate 79 CHR ''a''" by (simp add: numeral_eq_Suc)
    then have "store 0 CHR ''b'' (?a @ [NUL]) = Some (CHR ''b'' # replicate 79 CHR ''a'' @ [NUL])" by (simp add: store_def)
    then show ?thesis
      using d(1) by (simp add: finsh_key_def plain_key_def normal_key_def sizes Let_def s2_def s80_def s3_def)
  qed
  define s4 where "s4 = s3\<lparr>line := NUL # replicate 79 CHR ''a'' @ [NUL], line_position := 0, line_curpos := 80\<rparr>"
  have "finsh_key tbl CHR 0x08 s3 = Some (Nothing, s4)"
    using d(1) by (simp add: finsh_key_def plain_key_def backspace_key_def Let_def s2_def s80_def s3_def s4_def store_def)
  moreover have "unat (- 1 :: u16) = 65535" by (simp add: unsigned_minus_1_eq_mask mask_eq_exp_minus_1)
  then have "finsh_key tbl CHR 0x08 s4 = None"
    using d(1) by (simp add: finsh_key_def plain_key_def backspace_key_def Let_def s2_def s80_def s3_def s4_def move_def)
  ultimately show ?thesis
    unfolding finsh_run_append run80 by (simp add: tab b)
qed

lemma tab_after_long_line_overruns_witness:
  "finsh_run [(''set_angle'', ())] (replicate 80 CHR ''a'' @ [CHR 0x09, CHR ''b'', CHR 0x08, CHR 0x08]) shell_start = None"
  by (rule tab_after_long_line_overruns) (simp add: sizes)

end
