(* ===== verification/KObj.thy ===== *)
theory KObj
  imports Serial CStr
begin

text \<open>
  Kernel objects and their names: rt-thread/src/object.c, with the registration of devices of
  device.c.  An object is a number, its contents are a function of it; the container of a class is
  the list of its objects, the newest first.  \<open>node_ok\<close> says that the list node of an object has
  been set up: removing one that never was follows null pointers.  The functions run in threads;
  the hooks are not set.  \<open>None\<close> is a failed assertion or such a null pointer.  The lemmas show
  that the devices are found by name as in a finite map whose names are cut off at 16 characters.
\<close>

section \<open>object.c\<close>

definition RT_NAME_MAX :: nat where "RT_NAME_MAX = 16"

definition RT_Object_Class_Null :: u8 where "RT_Object_Class_Null = 0x00"
definition RT_Object_Class_Thread :: u8 where "RT_Object_Class_Thread = 0x01"
definition RT_Object_Class_Semaphore :: u8 where "RT_Object_Class_Semaphore = 0x02"
definition RT_Object_Class_Mutex :: u8 where "RT_Object_Class_Mutex = 0x03"
definition RT_Object_Class_Event :: u8 where "RT_Object_Class_Event = 0x04"
definition RT_Object_Class_MailBox :: u8 where "RT_Object_Class_MailBox = 0x05"
definition RT_Object_Class_MessageQueue :: u8 where "RT_Object_Class_MessageQueue = 0x06"
definition RT_Object_Class_MemPool :: u8 where "RT_Object_Class_MemPool = 0x08"
definition RT_Object_Class_Device :: u8 where "RT_Object_Class_Device = 0x09"
definition RT_Object_Class_Timer :: u8 where "RT_Object_Class_Timer = 0x0a"
definition RT_Object_Class_Memory :: u8 where "RT_Object_Class_Memory = 0x0c"
definition RT_Object_Class_Static :: u8 where "RT_Object_Class_Static = 0x80"

lemmas class_defs = RT_Object_Class_Null_def RT_Object_Class_Thread_def RT_Object_Class_Semaphore_def
  RT_Object_Class_Mutex_def RT_Object_Class_Event_def RT_Object_Class_MailBox_def
  RT_Object_Class_MessageQueue_def RT_Object_Class_MemPool_def RT_Object_Class_Device_def
  RT_Object_Class_Timer_def RT_Object_Class_Memory_def RT_Object_Class_Static_def

record rt_object =
  o_name :: string
  o_type :: u8
  node_ok :: bool

text \<open>The types of \<open>_object_container\<close>, in its order.\<close>

definition object_container :: "u8 list" where
  "object_container =
     [RT_Object_Class_Thread, RT_Object_Class_Semaphore, RT_Object_Class_Mutex, RT_Object_Class_Event,
      RT_Object_Class_MailBox, RT_Object_Class_MessageQueue, RT_Object_Class_MemPool,
      RT_Object_Class_Device, RT_Object_Class_Timer, RT_Object_Class_Memory]"

record obj_sys =
  objects :: "nat \<Rightarrow> rt_object"
  object_list :: "u8 \<Rightarrow> nat list"

definition rt_object_get_information :: "u8 \<Rightarrow> u8 option" where
  "rt_object_get_information t = find (\<lambda>c. c = t) object_container"

definition rt_object_get_length :: "u8 \<Rightarrow> obj_sys \<Rightarrow> nat" where
  "rt_object_get_length t k =
     (case rt_object_get_information t of None \<Rightarrow> 0 | Some c \<Rightarrow> length (object_list k c))"

definition rt_object_get_pointers :: "u8 \<Rightarrow> int \<Rightarrow> obj_sys \<Rightarrow> nat list" where
  "rt_object_get_pointers t maxlen k =
     (if maxlen \<le> 0 then []
      else case rt_object_get_information t of None \<Rightarrow> [] | Some c \<Rightarrow> take (nat maxlen) (object_list k c))"

text \<open>The name and the place at the front of the container, which the two ways to set up an object
  share.\<close>

definition enter_object :: "nat \<Rightarrow> u8 \<Rightarrow> u8 \<Rightarrow> string \<Rightarrow> obj_sys \<Rightarrow> obj_sys" where
  "enter_object i c t nm k =
     k\<lparr>objects := (objects k)(i := (objects k i)\<lparr>o_type := t, o_name := strncpy RT_NAME_MAX nm, node_ok := True\<rparr>),
       object_list := (object_list k)(c := i # object_list k c)\<rparr>"

definition rt_object_init :: "nat \<Rightarrow> u8 \<Rightarrow> string \<Rightarrow> obj_sys \<Rightarrow> obj_sys option" where
  "rt_object_init i t nm k =
     (case rt_object_get_information t of
        None \<Rightarrow> None
      | Some c \<Rightarrow>
          if i \<in> set (object_list k c) then None
          else Some (enter_object i c (t OR RT_Object_Class_Static) nm k))"

definition remove_object :: "nat \<Rightarrow> obj_sys \<Rightarrow> obj_sys option" where
  "remove_object i k =
     (if node_ok (objects k i) then
        Some (k\<lparr>objects := (objects k)(i := (objects k i)\<lparr>o_type := RT_Object_Class_Null\<rparr>),
                object_list := (\<lambda>c. removeAll i (object_list k c))\<rparr>)
      else None)"

definition rt_object_detach :: "nat \<Rightarrow> obj_sys \<Rightarrow> obj_sys option" where
  "rt_object_detach i k = remove_object i k"

text \<open>\<open>mem\<close>: the memory that \<open>rt_malloc\<close> gives, filled with zeros.\<close>

definition rt_object_allocate :: "nat option \<Rightarrow> u8 \<Rightarrow> string \<Rightarrow> obj_sys \<Rightarrow> (nat option \<times> obj_sys) option" where
  "rt_object_allocate mem t nm k =
     (case rt_object_get_information t of
        None \<Rightarrow> None
      | Some c \<Rightarrow> (case mem of None \<Rightarrow> Some (None, k) | Some i \<Rightarrow> Some (Some i, enter_object i c t nm k)))"

definition rt_object_is_systemobject :: "nat \<Rightarrow> obj_sys \<Rightarrow> bool" where
  "rt_object_is_systemobject i k \<longleftrightarrow> o_type (objects k i) AND RT_Object_Class_Static \<noteq> 0"

definition rt_object_get_type :: "nat \<Rightarrow> obj_sys \<Rightarrow> u8" where
  "rt_object_get_type i k = o_type (objects k i) AND NOT RT_Object_Class_Static"

definition rt_object_delete :: "nat \<Rightarrow> obj_sys \<Rightarrow> obj_sys option" where
  "rt_object_delete i k = (if rt_object_is_systemobject i k then None else remove_object i k)"

definition rt_object_find :: "string option \<Rightarrow> u8 \<Rightarrow> obj_sys \<Rightarrow> nat option" where
  "rt_object_find nm t k =
     (case (nm, rt_object_get_information t) of
        (Some nm, Some c) \<Rightarrow> find (\<lambda>i. strncmp_eq RT_NAME_MAX (o_name (objects k i)) (nm @ [NUL])) (object_list k c)
      | _ \<Rightarrow> None)"

definition rt_thread_find :: "string \<Rightarrow> obj_sys \<Rightarrow> nat option" where
  "rt_thread_find nm k = rt_object_find (Some nm) RT_Object_Class_Thread k"

section \<open>Devices by name\<close>

text \<open>The headers of the devices beside the objects they begin with.\<close>

type_synonym dev_sys = "obj_sys \<times> (nat \<Rightarrow> dev_hdr)"

definition rt_device_find :: "string \<Rightarrow> dev_sys \<Rightarrow> nat option" where
  "rt_device_find nm k = rt_object_find (Some nm) RT_Object_Class_Device (fst k)"

definition rt_device_register_named :: "nat \<Rightarrow> string \<Rightarrow> u16 \<Rightarrow> dev_sys \<Rightarrow> (int \<times> dev_sys) option" where
  "rt_device_register_named i nm flags k =
     (case rt_device_register (rt_device_find nm k \<noteq> None) flags (snd k i) of
        (r, d) \<Rightarrow>
          if r \<noteq> RT_EOK then Some (r, k)
          else map_option (\<lambda>os. (r, os, (snd k)(i := d))) (rt_object_init i RT_Object_Class_Device nm (fst k)))"

definition rt_device_unregister :: "nat \<Rightarrow> dev_sys \<Rightarrow> (int \<times> dev_sys) option" where
  "rt_device_unregister i k =
     (if rt_object_get_type i (fst k) = RT_Object_Class_Device \<and> rt_object_is_systemobject i (fst k)
      then map_option (\<lambda>os. (RT_EOK, os, snd k)) (rt_object_detach i (fst k))
      else None)"

text \<open>Calls on the directory of devices.\<close>

datatype dev_call = Register nat string u16 | Unregister nat | Find string
datatype dev_answer = Code int | Device "nat option"

fun dev_do :: "dev_call \<Rightarrow> dev_sys \<Rightarrow> (dev_answer \<times> dev_sys) option" where
  "dev_do (Register i nm flags) k = map_option (apfst Code) (rt_device_register_named i nm flags k)"
| "dev_do (Unregister i) k = map_option (apfst Code) (rt_device_unregister i k)"
| "dev_do (Find nm) k = Some (Device (rt_device_find nm k), k)"

fun dev_run :: "dev_call list \<Rightarrow> dev_sys \<Rightarrow> dev_answer list option" where
  "dev_run [] k = Some []"
| "dev_run (c # cs) k = do { (a, k) \<leftarrow> dev_do c k; as \<leftarrow> dev_run cs k; Some (a # as) }"

definition no_objects :: "obj_sys" where
  "no_objects = \<lparr>objects = \<lambda>_. \<lparr>o_name = [], o_type = 0, node_ok = False\<rparr>, object_list = \<lambda>_. []\<rparr>"

text \<open>The specification: a finite map from names, as far as they are kept, to devices.\<close>

definition kept :: "string \<Rightarrow> string" where
  "kept nm = take RT_NAME_MAX nm"

fun map_do :: "dev_call \<Rightarrow> (string \<rightharpoonup> nat) \<Rightarrow> (dev_answer \<times> (string \<rightharpoonup> nat)) option" where
  "map_do (Register i nm flags) m =
     (if m (kept nm) \<noteq> None then Some (Code (- RT_ERROR), m)
      else if i \<in> ran m then None
      else Some (Code RT_EOK, m(kept nm \<mapsto> i)))"
| "map_do (Unregister i) m =
     (if i \<in> ran m then Some (Code RT_EOK, m |` {nm. m nm \<noteq> Some i}) else None)"
| "map_do (Find nm) m = Some (Device (m (kept nm)), m)"

fun map_run :: "dev_call list \<Rightarrow> (string \<rightharpoonup> nat) \<Rightarrow> dev_answer list option" where
  "map_run [] m = Some []"
| "map_run (c # cs) m = do { (a, m) \<leftarrow> map_do c m; as \<leftarrow> map_run cs m; Some (a # as) }"

fun c_name :: "dev_call \<Rightarrow> bool" where
  "c_name (Register i nm flags) = (NUL \<notin> set nm)"
| "c_name (Find nm) = (NUL \<notin> set nm)"
| "c_name (Unregister i) = True"

section \<open>The directory is a map\<close>

text \<open>The names of the devices, as they are kept.\<close>

definition dev_name :: "dev_sys \<Rightarrow> nat \<Rightarrow> string" where
  "dev_name k i = c_str (o_name (objects (fst k) i))"

definition devices :: "dev_sys \<Rightarrow> nat list" where
  "devices k = object_list (fst k) RT_Object_Class_Device"

definition dir_ok :: "dev_sys \<Rightarrow> (string \<rightharpoonup> nat) \<Rightarrow> bool" where
  "dir_ok k m \<longleftrightarrow> distinct (devices k) \<and> distinct (map (dev_name k) (devices k)) \<and>
     m = map_of (map (\<lambda>i. (dev_name k i, i)) (devices k)) \<and>
     (\<forall>i. o_type (objects (fst k) i) =
        (if i \<in> set (devices k) then RT_Object_Class_Device OR RT_Object_Class_Static else RT_Object_Class_Null)) \<and>
     (\<forall>i\<in>set (devices k). node_ok (objects (fst k) i) \<and>
        (\<exists>nm. NUL \<notin> set nm \<and> o_name (objects (fst k) i) = strncpy RT_NAME_MAX nm))"

lemma c_str_strncpy: "NUL \<notin> set nm \<Longrightarrow> c_str (strncpy n nm) = take n nm"
proof -
  assume n: "NUL \<notin> set nm"
  have c: "c_str nm = nm" using n by (simp add: c_str_def takeWhile_eq_all_conv) metis
  have t: "takeWhile (\<lambda>c. c \<noteq> NUL) (xs @ replicate j NUL) = xs" if "NUL \<notin> set xs" for xs j
  proof -
    have "\<And>x. x \<in> set xs \<Longrightarrow> x \<noteq> NUL" using that by auto
    then have "takeWhile (\<lambda>c. c \<noteq> NUL) (xs @ replicate j NUL) = xs @ takeWhile (\<lambda>c. c \<noteq> NUL) (replicate j NUL)"
      by (rule takeWhile_append2)
    then show ?thesis by (cases j) simp_all
  qed
  have "NUL \<notin> set (take n nm)" using n in_set_takeD by fast
  moreover have "strncpy n nm = take n nm @ replicate (min (n - length nm) n) NUL"
    by (simp add: strncpy_def c take_replicate)
  ultimately show ?thesis using t[of "take n nm"] by (simp add: c_str_def)
qed

lemma find_map_of: "find (\<lambda>i. f i = x) xs = map_of (map (\<lambda>i. (f i, i)) xs) x"
  by (induction xs) auto

lemma device_information [simp]: "rt_object_get_information RT_Object_Class_Device = Some RT_Object_Class_Device"
  by (simp add: rt_object_get_information_def object_container_def class_defs)

lemma rt_device_find_ok:
  assumes "dir_ok k m" "NUL \<notin> set nm"
  shows "rt_device_find nm k = m (kept nm)"
proof -
  have "strncmp_eq RT_NAME_MAX (o_name (objects (fst k) i)) (nm @ [NUL]) = (dev_name k i = kept nm)"
    if "i \<in> set (devices k)" for i
    using assms that by (auto simp: dir_ok_def dev_name_def c_str_strncpy strncmp_stored kept_def)
  then have "find (\<lambda>i. strncmp_eq RT_NAME_MAX (o_name (objects (fst k) i)) (nm @ [NUL])) (devices k) =
      find (\<lambda>i. dev_name k i = kept nm) (devices k)"
    by (intro find_cong) auto
  then show ?thesis using assms(1) by (simp add: rt_device_find_def rt_object_find_def find_map_of dir_ok_def flip: devices_def)
qed

lemma option_eqI: "(\<And>i. (a = Some i) = (b = Some i)) \<Longrightarrow> a = b"
  by (cases a; cases b) auto

lemma map_of_names:
  assumes "distinct (map f xs)"
  shows "map_of (map (\<lambda>i. (f i, i)) xs) nm = Some i \<longleftrightarrow> i \<in> set xs \<and> f i = nm"
    and "ran (map_of (map (\<lambda>i. (f i, i)) xs)) = set xs"
    and "map_of (map (\<lambda>i. (f i, i)) (removeAll x xs)) =
      map_of (map (\<lambda>i. (f i, i)) xs) |` {nm. map_of (map (\<lambda>i. (f i, i)) xs) nm \<noteq> Some x}"
proof -
  have d: "distinct (map fst (map (\<lambda>i. (f i, i)) ys))" if "distinct (map f ys)" for ys using that by (simp add: comp_def)
  have iff: "map_of (map (\<lambda>i. (f i, i)) ys) nm = Some i \<longleftrightarrow> i \<in> set ys \<and> f i = nm" if "distinct (map f ys)" for ys nm i
    using map_of_eq_Some_iff[OF d[OF that], of nm i] by auto
  show "map_of (map (\<lambda>i. (f i, i)) xs) nm = Some i \<longleftrightarrow> i \<in> set xs \<and> f i = nm" by (rule iff[OF assms])
  show "ran (map_of (map (\<lambda>i. (f i, i)) xs)) = set xs" by (auto simp: ran_def iff[OF assms])
  have d': "distinct (map f (removeAll x xs))" using assms by (simp add: distinct_map inj_on_def removeAll_filter_not_eq)
  have inj: "i = j" if "i \<in> set xs" "j \<in> set xs" "f i = f j" for i j
    using assms that by (auto simp: distinct_map dest: inj_onD)
  show "map_of (map (\<lambda>i. (f i, i)) (removeAll x xs)) =
      map_of (map (\<lambda>i. (f i, i)) xs) |` {nm. map_of (map (\<lambda>i. (f i, i)) xs) nm \<noteq> Some x}"
  proof
    fix nm
    show "map_of (map (\<lambda>i. (f i, i)) (removeAll x xs)) nm =
        (map_of (map (\<lambda>i. (f i, i)) xs) |` {nm. map_of (map (\<lambda>i. (f i, i)) xs) nm \<noteq> Some x}) nm"
    proof (rule option_eqI)
      fix i
      show "map_of (map (\<lambda>i. (f i, i)) (removeAll x xs)) nm = Some i \<longleftrightarrow>
        (map_of (map (\<lambda>i. (f i, i)) xs) |` {nm. map_of (map (\<lambda>i. (f i, i)) xs) nm \<noteq> Some x}) nm = Some i"
        using inj[of i x] by (auto simp: iff[OF d'] iff[OF assms] restrict_map_def)
    qed
  qed
qed

lemma dir_ran: "dir_ok k m \<Longrightarrow> ran m = set (devices k)"
  by (simp add: dir_ok_def map_of_names(2))

lemma register_ok:
  assumes "dir_ok k m" "NUL \<notin> set nm"
  shows "case map_do (Register i nm flags) m of
      None \<Rightarrow> dev_do (Register i nm flags) k = None
    | Some (a, m') \<Rightarrow> \<exists>k'. dev_do (Register i nm flags) k = Some (a, k') \<and> dir_ok k' m'"
proof (cases "m (kept nm)")
  case (Some j)
  then show ?thesis using assms rt_device_find_ok[OF assms]
    by (simp add: rt_device_register_named_def rt_device_register_def RT_EOK_def RT_ERROR_def)
next
  case None
  have reg: "rt_device_find nm k = None"
    "rt_device_register False flags d = (RT_EOK, d\<lparr>dflag := flags, drefs := 0, dopen := 0\<rparr>)" for d
    using None rt_device_find_ok[OF assms] by (simp_all add: rt_device_register_def)
  show ?thesis
  proof (cases "i \<in> ran m")
    case True
    then show ?thesis using None dir_ran[OF assms(1)]
      by (simp add: rt_device_register_named_def reg rt_object_init_def flip: devices_def)
  next
    case False
    then have i: "i \<notin> set (devices k)" using dir_ran[OF assms(1)] by simp
    define k' where "k' = (enter_object i RT_Object_Class_Device (RT_Object_Class_Device OR RT_Object_Class_Static) nm (fst k),
      (snd k)(i := (snd k i)\<lparr>dflag := flags, drefs := 0, dopen := 0\<rparr>))"
    have do: "dev_do (Register i nm flags) k = Some (Code RT_EOK, k')"
      using i by (simp add: rt_device_register_named_def reg rt_object_init_def k'_def flip: devices_def)
    have dev: "devices k' = i # devices k" by (simp add: k'_def devices_def enter_object_def)
    have obj: "objects (fst k') j = (if j = i then (objects (fst k) i)\<lparr>o_type := RT_Object_Class_Device OR RT_Object_Class_Static,
        o_name := strncpy RT_NAME_MAX nm, node_ok := True\<rparr> else objects (fst k) j)" for j
      by (simp add: k'_def enter_object_def)
    have name: "dev_name k' j = (if j = i then kept nm else dev_name k j)" for j
      using assms(2) by (simp add: dev_name_def obj c_str_strncpy kept_def)
    have names: "map (dev_name k') (devices k) = map (dev_name k) (devices k)"
      "map (\<lambda>i. (dev_name k' i, i)) (devices k) = map (\<lambda>i. (dev_name k i, i)) (devices k)"
      using i by (auto simp: name)
    have "kept nm \<notin> dev_name k ` set (devices k)"
    proof
      assume "kept nm \<in> dev_name k ` set (devices k)"
      then obtain j where "j \<in> set (devices k)" "dev_name k j = kept nm" by auto
      then have "m (kept nm) = Some j" using assms(1) map_of_names(1)[of "dev_name k" "devices k" "kept nm" j]
        by (simp add: dir_ok_def)
      with None show False by simp
    qed
    then have "dir_ok k' (m(kept nm \<mapsto> i))"
      using assms i unfolding dir_ok_def dev list.map names by (auto simp: name obj)
    then show ?thesis using None False do by (auto simp del: dev_do.simps)
  qed
qed

lemma unregister_ok:
  assumes "dir_ok k m"
  shows "case map_do (Unregister i) m of
      None \<Rightarrow> dev_do (Unregister i) k = None
    | Some (a, m') \<Rightarrow> \<exists>k'. dev_do (Unregister i) k = Some (a, k') \<and> dir_ok k' m'"
proof (cases "i \<in> set (devices k)")
  case False
  then have "o_type (objects (fst k) i) = RT_Object_Class_Null" using assms by (simp add: dir_ok_def)
  then show ?thesis using False dir_ran[OF assms]
    by (simp add: rt_device_unregister_def rt_object_is_systemobject_def class_defs)
next
  case True
  then have t: "o_type (objects (fst k) i) = RT_Object_Class_Device OR RT_Object_Class_Static" "node_ok (objects (fst k) i)"
    using assms by (simp_all add: dir_ok_def)
  then have "rt_object_get_type i (fst k) = RT_Object_Class_Device" "rt_object_is_systemobject i (fst k)"
    by (simp_all add: rt_object_get_type_def rt_object_is_systemobject_def class_defs)
  then obtain os where os: "rt_object_detach i (fst k) = Some os"
    "os = (fst k)\<lparr>objects := (objects (fst k))(i := (objects (fst k) i)\<lparr>o_type := RT_Object_Class_Null\<rparr>),
                object_list := (\<lambda>c. removeAll i (object_list (fst k) c))\<rparr>"
    and do: "dev_do (Unregister i) k = Some (Code RT_EOK, os, snd k)"
    using t(2) by (simp add: rt_device_unregister_def rt_object_detach_def remove_object_def)
  define k' where "k' = (os, snd k)"
  have dev: "devices k' = removeAll i (devices k)" by (simp add: k'_def os(2) devices_def)
  have name: "dev_name k' = dev_name k" by (auto simp: k'_def os(2) dev_name_def)
  have "dir_ok k' (m |` {nm. m nm \<noteq> Some i})"
    using assms map_of_names(3)[of "dev_name k" "devices k" i]
    unfolding dir_ok_def dev name by (auto simp: k'_def os(2) distinct_removeAll distinct_map inj_on_def)
  then show ?thesis using True do dir_ran[OF assms] by (simp add: k'_def)
qed

lemma dev_run_simulates:
  "dir_ok k m \<Longrightarrow> list_all c_name cs \<Longrightarrow> dev_run cs k = map_run cs m"
proof (induction cs arbitrary: k m)
  case (Cons c cs)
  have "case map_do c m of
      None \<Rightarrow> dev_do c k = None
    | Some (a, m') \<Rightarrow> \<exists>k'. dev_do c k = Some (a, k') \<and> dir_ok k' m'"
  proof (cases c)
    case (Register i nm flags)
    then show ?thesis using register_ok[OF Cons.prems(1), of nm i flags] Cons.prems(2)
      unfolding Register by (simp del: map_do.simps dev_do.simps)
  next
    case (Unregister i)
    then show ?thesis using unregister_ok[OF Cons.prems(1), of i] unfolding Unregister by (simp del: map_do.simps dev_do.simps)
  next
    case (Find nm)
    then show ?thesis using rt_device_find_ok[OF Cons.prems(1), of nm] Cons.prems by simp
  qed
  then show ?case using Cons.IH Cons.prems(2) by (cases "map_do c m") (auto simp: case_prod_unfold)
qed simp

section \<open>Properties\<close>

text \<open>C30: registering, unregistering and finding devices in any order is answered as by a finite map
  from the first 16 characters of their names: a name that is taken is refused, every device is
  found under its own name until it is unregistered, and an assertion fails exactly when a device
  is registered twice or one that is not there is unregistered.\<close>

theorem device_directory_is_a_map:
  assumes "list_all c_name cs"
  shows "dev_run cs (no_objects, h) = map_run cs Map.empty"
  by (rule dev_run_simulates[OF _ assms]) (simp add: dir_ok_def devices_def no_objects_def RT_Object_Class_Null_def)

lemma device_directory_is_a_map_witness:
  "dev_run [Register 1 ''uart0'' 3, Register 2 ''timer2'' 3, Find ''uart0'', Register 3 ''uart0'' 3, Unregister 1,
      Find ''uart0'', Find ''timer2''] (no_objects, \<lambda>_. \<lparr>dflag = 0, dopen = 0, drefs = 0, drx_ind = False, dtx_ind = False\<rparr>) =
   Some [Code 0, Code 0, Device (Some 1), Code (- 1), Code 0, Device None, Device (Some 2)]"
  by (subst device_directory_is_a_map)
    (simp_all add: kept_def RT_NAME_MAX_def RT_EOK_def RT_ERROR_def restrict_map_def ran_map_upd)

end
