(* ===== verification/Spec2Isabelle.thy ===== *)
theory Spec2Isabelle
  imports Commands Mb KMsg KRun MemUse KPrint SoftI2c HwTimer Serial Ringbuf Shell KObj
begin

text \<open>
  Verification of the constant current regulator (CCR) firmware: a GD32F303 that drives the
  thyristors of an airfield lighting circuit, on RT-Thread 4.1.0 with a Modbus RTU slave.

  The program and how its parts interact.  At every zero crossing of the mains an interrupt
  (applications/cross_zero_check.c) arms a one-shot timer with the conduction angle
  (scr.c); on every second crossing it takes the effective value of the current out of the
  buffer the converter fills (drv_adc.c, adc_sample.c) and lets the controller (pid.c)
  compute the next angle.  A thread samples every 20 ms and runs the fault checks (alarm.c),
  a second one closes the contactor when a brightness level is selected (pid_app.c), a
  third keeps the parameters in an EEPROM (i2c_app.c, the package at24cxx), a fourth reads
  the level from digital inputs (di_check.c), and the shell commands of main.c set the same
  variables.  All of them share the structure of database.h, which is also the array of
  holding registers that the Modbus slave (packages/freemodbus-latest) reads and writes for
  its master.  Threads, timers and their communication are those of the kernel
  (rt-thread/src).

  Theories and sources.
  Prelude, RtDef, CFloat: machine words, bytes and registers; constants of rtdef.h; IEEE
  single and double precision with its rounding and the conversions to integers.
  Database: database.h and database.c, the union of the structure and its registers.
  Scr, Pid, Board, Alarm, Adc, PidApp, CrossZero: the control path above.  Board gathers the
  global variables, grouped by the file that declares them.  CrossZero ends with the
  transition system of interrupts and threads.
  HwTimer: the hardware timers under the control path, hwtimer.c and drv_hwtimer.c.
  At24, ParamStore: the EEPROM driver over an I2C bus that is a parameter, and what is saved.
  SoftI2c: the bus itself (i2c-bit-ops.c, drv_soft_i2c.c), as the levels of its two lines.
  Commands: main.c and di_check.c.
  Crc, MbData, MbFunc, MbRtu, Mb: mbcrc.c; mbutils.c and user_mb_app.c; the function
  handlers; mbrtu.c with its ports; mb.c with the polling loop.
  Serial: device.c and serial.c, the calls of a device and the ring that the receive interrupt
  of a serial port fills, up to the callback of the Modbus port (portserial.c).  Ringbuf:
  ringbuffer.c.  RingView is what the two share: reading and storing around the end of an array.
  Shell: shell.c and msh.c, the line editor and the parser in front of the commands.
  KObj: object.c, and the registration and lookup of devices by name in device.c.  CStr is what
  the last two share: strings that end at their first zero.
  Kern, KTimer, KThread, KIpc, KMail, KMsg: scheduler.c and the data of the kernel; timer.c
  and clock.c; thread.c, components.c and idle.c; ipc.c, whose semaphores, mutexes and events
  are in KIpc, the mailboxes in KMail and the message queues in KMsg.  Fifo is the contract
  that the last two share.  KRun composes the calls of all threads with the tick interrupt,
  and puts the port of the Modbus slave (portevent.c, porttimer.c) on the kernel's events and
  timers.
  KMem, KPrint, Mem, MemUse: kservice.c, its memory and string functions in KMem and its
  formatted output in KPrint; mem.c, the heap, over a memory of bytes in Mem, and in MemUse
  the calls of kservice.c on the heap and the clients that use it.

  How the code is read. A C structure is a record with the same fields and a function is a
  definition of the same name; the file state is passed and returned. Integers are words of
  their C width. Undefined behaviour (a conversion out of range, an access outside an array)
  is the value None of an option, or the field stuck of the kernel; an error code is a value.
  A section with the interrupts disabled is one step, and a function that is interrupted or
  gives up the processor in its middle is cut there: the rest is a definition of its own
  (suffix end or again). Waiting threads, timers and ready threads are lists of names, since a
  node is in one list only. Loops without a structural bound are partial functions whose
  end is proved: the timer check, the search for a number of timer cycles, the emptying of
  waiting lists and of message queues, the search of the heap, the wait for the clock line of
  the bus (the kernel's clock has to advance) and the receive interrupt of a serial port (the
  hardware has to run out of bytes). The one definition with fuel is serial_soft_trans_irq in
  MbRtu, whose loop ends when the frame is sent: one more than the bytes left is enough.

  What the lemmas show. The angle and the trigger stay in their range in every run, and the
  timer that counts the trigger's delay fires once and in time; a fault opens the contactor;
  the parameters survive a power cycle and damaged ones are replaced; the table-driven CRC is
  the polynomial division and detects short bursts; every request to the slave gets the answer
  its handler specifies, broadcasts and foreign requests none, and damaged frames are ignored;
  the bytes of the line reach its receiver through the ring of the serial driver in their order.
  In the kernel, the ready table, the states of threads, the waiting lists and the timers
  agree at all times (kinv), the processor never hits an assertion, the scheduler runs a
  thread of the highest priority, timers fire in order and delays are exact; waiting threads
  are served in order; mailboxes and message queues answer as queues do in every interleaving;
  no run of calls makes an assertion fail, and the kernel's events implement those the Modbus
  stack is modelled with. The heap returns from every call, keeps the contents of the blocks
  it is not asked about, never gives out a byte twice and is whole again when all blocks are
  back; copies by words are copies, formatted output stays in its buffer and numbers read
  back. A transfer over the two lines of the bus is the exchange of bytes with the device at
  the other end, so that the EEPROM driver over the lines reads what it wrote, and every
  transfer returns. The ring buffer is a queue, and a line typed at the shell, with all its
  corrections, calls the command it names. The directory of devices is a finite map from names.
  Where the code does not do what it means to, a theorem says so.

  The locales are the interfaces: debounce (a fault that has to last), bounded_controller (an
  algorithm and its limiter), frame_check (a checksum), handler_contract (the function
  handlers of the slave), eeprom_chip (what the data sheet promises of the chip, kept by the
  chip itself and by the bus with the chip on it), running_clock (a wait for the clock line
  that ends), delay (a time that the counter of a timer can hold), timeout_handler (what a
  function called by a timer may do), fifo (a queue).

  Not modelled. The registers of the peripherals and their set-up (the GD32 firmware library,
  the drivers of libraries/gd32_drivers except the effective values, the timers and the
  software I2C bus), the console, errno and the assertion hook of kservice.c, what the shell
  prints and how it starts, the lookup of heaps by name, sending by interrupt and the DMA ring
  of serial ports, the lock of the heap and of the bus, the stacks and the context switch, the
  place of threads, timers and the objects of ipc.c in the containers of KObj, hooks (none is
  set), signals beyond their acknowledgement in the scheduler, soft timers and multiprocessor
  code (compiled out). Of the packages, the Modbus master, ASCII and TCP modes
  are not built. The file systems, network stacks and other components of RT-Thread are in the
  repository and not part of the firmware.
\<close>

end
